(* ===== verification/Prelude.thy ===== *)
theory Prelude
  imports Main "HOL-Library.Word"
begin

text \<open>
  Shared vocabulary of the development: the machine types of the C sources as words, the
  collections that carry the component proofs (\<open>wbits\<close> for bitwise word equalities,
  \<open>field_defs\<close> for packed-field accessors), and the generic facts on words, lists and
  index arithmetic that more than one component uses.
\<close>

unbundle bit_operations_syntax

section \<open>Machine types\<close>

type_synonym u8 = "8 word"
type_synonym u16 = "16 word"
type_synonym u32 = "32 word"
type_synonym u64 = "64 word"

text \<open>\<open>MSize\<close> (lj_obj.h) is an unsigned 32 bit size; byte strings are lists of bytes.\<close>

type_synonym bytes = "8 word list"

named_theorems wbits \<open>bit-level characterisation of the word operations of the sources\<close>
named_theorems field_defs \<open>definitions of packed field accessors\<close>

section \<open>Words\<close>

lemma and_ff [wbits]: "(x :: 'a::len word) AND 255 = take_bit 8 x"
proof -
  have "(255 :: 'a word) = mask 8" by (simp add: mask_eq_exp_minus_1)
  then show ?thesis by (simp add: take_bit_eq_mask)
qed

lemma and_ffff [wbits]: "(x :: 'a::len word) AND 65535 = take_bit 16 x"
proof -
  have "(65535 :: 'a word) = mask 16" by (simp add: mask_eq_exp_minus_1)
  then show ?thesis by (simp add: take_bit_eq_mask)
qed

lemma and_nat_mask: "(x :: 'a::len word) AND mask n = take_bit n x"
  by (simp add: take_bit_eq_mask)

lemma bit_lt_bound: "(x :: 'a::len word) < 2 ^ n \<Longrightarrow> n < LENGTH('a) \<Longrightarrow> bit x k \<Longrightarrow> k < n"
  by (metis bit_take_bit_iff less_mask_eq take_bit_eq_mask)

lemma bit_beyond [wbits]: "LENGTH('a) \<le> n \<Longrightarrow> \<not> bit (x :: 'a::len word) n"
  by (auto dest: bit_imp_le_length)

lemma take_bit_small [simp]:
  "(x :: 'a::len word) < 2 ^ n \<Longrightarrow> n < LENGTH('a) \<Longrightarrow> take_bit n x = x"
  by (metis less_mask_eq take_bit_eq_mask)

lemma xor_zero_iff: "a XOR b = 0 \<longleftrightarrow> a = b" for a b :: "'a::len word"
  by (auto simp: bit_eq_iff bit_xor_iff)

lemma word_lt_unat: "n < LENGTH('a) \<Longrightarrow> (x :: 'a::len word) < 2 ^ n \<longleftrightarrow> unat x < 2 ^ n"
proof -
  assume n: "n < LENGTH('a)"
  have "uint x < 2 ^ n \<longleftrightarrow> int (unat x) < int (2 ^ n)" by simp
  also have "\<dots> \<longleftrightarrow> unat x < 2 ^ n" by (rule of_nat_less_iff)
  finally show ?thesis using n by (simp add: word_2p_lem [unfolded word_size])
qed

lemma unat_lt_32: "unat (x :: u32) < 2 ^ 32" and unat_lt_64: "unat (y :: u64) < 2 ^ 64"
proof -
  have "unat x < 2 ^ LENGTH(32)" and "unat y < 2 ^ LENGTH(64)" by (rule unsigned_less)+
  then show "unat x < 2 ^ 32" and "unat y < 2 ^ 64" by simp_all
qed

lemma unat_of_nat_small: "n < 2 ^ LENGTH('a) \<Longrightarrow> unat (of_nat n :: 'a::len word) = n"
  by (simp add: unat_of_nat)

lemma unat_mask_le: "unat ((x :: 'a::len word) AND m) \<le> unat m"
  by (simp add: word_and_le1 word_le_nat_alt [symmetric])

text \<open>
  Equality of words of a fixed width, one goal per bit position: after the rule the simplifier
  decides each position from \<open>bit_simps\<close> and \<open>wbits\<close>.
\<close>

lemma word_upt_eqI:
  assumes "list_all (\<lambda>n. bit a n = bit b n) [0..<LENGTH('a)]"
  shows "a = (b :: 'a::len word)"
  using assms by (auto intro!: bit_word_eqI simp: list_all_iff)

lemma upt_8: "[0..<8] =
    [0, 1, 2, 3, 4, 5, 6, 7]"
  by code_simp

lemma word8_eqI:
  assumes "list_all (\<lambda>n. bit a n = bit b n)
    [0, 1, 2, 3, 4, 5, 6, 7]"
  shows "a = (b :: 8 word)"
proof (rule word_upt_eqI)
  show "list_all (\<lambda>n. bit a n = bit b n) [0..<LENGTH(8)]"
    using assms by (simp add: upt_8)
qed

lemma upt_16: "[0..<16] =
    [0, 1, 2, 3, 4, 5, 6, 7, 8, 9, 10, 11, 12, 13, 14, 15]"
  by code_simp

lemma word16_eqI:
  assumes "list_all (\<lambda>n. bit a n = bit b n)
    [0, 1, 2, 3, 4, 5, 6, 7, 8, 9, 10, 11, 12, 13, 14, 15]"
  shows "a = (b :: 16 word)"
proof (rule word_upt_eqI)
  show "list_all (\<lambda>n. bit a n = bit b n) [0..<LENGTH(16)]"
    using assms by (simp add: upt_16)
qed

lemma upt_32: "[0..<32] =
    [0, 1, 2, 3, 4, 5, 6, 7, 8, 9, 10, 11, 12, 13, 14, 15, 16, 17, 18, 19, 20, 21, 22, 23,
     24, 25, 26, 27, 28, 29, 30, 31]"
  by code_simp

lemma word32_eqI:
  assumes "list_all (\<lambda>n. bit a n = bit b n)
    [0, 1, 2, 3, 4, 5, 6, 7, 8, 9, 10, 11, 12, 13, 14, 15, 16, 17, 18, 19, 20, 21, 22, 23,
     24, 25, 26, 27, 28, 29, 30, 31]"
  shows "a = (b :: 32 word)"
proof (rule word_upt_eqI)
  show "list_all (\<lambda>n. bit a n = bit b n) [0..<LENGTH(32)]"
    using assms by (simp add: upt_32)
qed

lemma upt_64: "[0..<64] =
    [0, 1, 2, 3, 4, 5, 6, 7, 8, 9, 10, 11, 12, 13, 14, 15, 16, 17, 18, 19, 20, 21, 22, 23,
     24, 25, 26, 27, 28, 29, 30, 31, 32, 33, 34, 35, 36, 37, 38, 39, 40, 41, 42, 43, 44,
     45, 46, 47, 48, 49, 50, 51, 52, 53, 54, 55, 56, 57, 58, 59, 60, 61, 62, 63]"
  by code_simp

lemma word64_eqI:
  assumes "list_all (\<lambda>n. bit a n = bit b n)
    [0, 1, 2, 3, 4, 5, 6, 7, 8, 9, 10, 11, 12, 13, 14, 15, 16, 17, 18, 19, 20, 21, 22, 23,
     24, 25, 26, 27, 28, 29, 30, 31, 32, 33, 34, 35, 36, 37, 38, 39, 40, 41, 42, 43, 44,
     45, 46, 47, 48, 49, 50, 51, 52, 53, 54, 55, 56, 57, 58, 59, 60, 61, 62, 63]"
  shows "a = (b :: 64 word)"
proof (rule word_upt_eqI)
  show "list_all (\<lambda>n. bit a n = bit b n) [0..<LENGTH(64)]"
    using assms by (simp add: upt_64)
qed

section \<open>Signed readings of 32 bit words\<close>

lemma sint32_range: "- (2 ^ 31) \<le> sint (k :: u32)" "sint k < 2 ^ 31"
  using sint_ge [of k] sint_lt [of k] by simp_all

lemma uint32_sint: "uint (k :: u32) = (if sint k < 0 then sint k + 2 ^ 32 else sint k)"
proof -
  have "uint k = sint k mod 2 ^ 32" by (simp add: uint_sint take_bit_eq_mod)
  also have "\<dots> = (if sint k < 0 then sint k + 2 ^ 32 else sint k)"
  proof (cases "sint k < 0")
    case True
    have "sint k mod 2 ^ 32 = (sint k + 2 ^ 32) mod 2 ^ 32" by simp
    also have "\<dots> = sint k + 2 ^ 32" using sint32_range [of k] True by (intro mod_pos_pos_trivial) simp_all
    finally show ?thesis using True by simp
  next
    case False
    then show ?thesis using sint32_range [of k] by (simp add: mod_pos_pos_trivial)
  qed
  finally show ?thesis .
qed

lemma unat32_sint: "int (unat (k :: u32)) = (if sint k < 0 then sint k + 2 ^ 32 else sint k)"
  using uint32_sint [of k] by simp

lemma sint32_nat: "unat (k :: u32) < 2 ^ 31 \<Longrightarrow> sint k = int (unat k)"
  using unat32_sint [of k] sint32_range [of k] by (cases "sint k < 0") (simp_all del: of_nat_unat)

lemma sint32_of_nat: "n < 2 ^ 31 \<Longrightarrow> sint (of_nat n :: u32) = int n"
  by (subst sint32_nat) (simp_all add: unat_of_nat_small)

section \<open>Lists\<close>

lemma nth_append_left: "i < length xs \<Longrightarrow> (xs @ ys) ! i = xs ! i"
  by (simp add: nth_append)

lemma upt_split: "i \<le> j \<Longrightarrow> j \<le> k \<Longrightarrow> [i..<k] = [i..<j] @ [j..<k]"
  by (metis upt_add_eq_append le_add_diff_inverse)

lemma map_upt_shift: "map f [i..<i + r] = map (\<lambda>j. f (i + j)) [0..<r]"
  by (rule nth_equalityI) auto

lemma list_all_update: "list_all P xs \<Longrightarrow> P v \<Longrightarrow> list_all P (xs[i := v])"
  by (metis list_all_length nth_list_update_eq nth_list_update_neq length_list_update)

end
