(* ===== verification/Dispatch_Bridge.thy ===== *)
theory Dispatch_Bridge
  imports Prelude
begin

text \<open>
  The C side of the dispatch benchmark, \<open>src/benchmarks/dispatch_bridge.c\<close>: four handlers and
  one uncached dispatcher that a Python driver calls with a type id and the argument fields.
  A \<open>const char*\<close> is \<open>None\<close> for \<open>NULL\<close> and otherwise the bytes up to the terminator; the
  result's \<open>size\<close> is a C \<open>int\<close>, here its 32 bit pattern.
\<close>

record DispatchResult =
  type_name :: string
  dsize :: "32 word"

definition process_int :: "64 word \<Rightarrow> DispatchResult" where
  "process_int x = \<lparr>type_name = ''int'', dsize = ucast (x AND 0xFF)\<rparr>"

text \<open>\<open>strlen\<close>: the bytes before the first zero byte; the conversion to \<open>int\<close> keeps 32 bits.\<close>

definition strlen :: "bytes \<Rightarrow> nat" where
  "strlen s = length (takeWhile (\<lambda>c. c \<noteq> 0) s)"

definition process_string :: "bytes \<Rightarrow> DispatchResult" where
  "process_string s = \<lparr>type_name = ''string'', dsize = of_nat (strlen s)\<rparr>"

definition process_list :: "32 word \<Rightarrow> DispatchResult" where
  "process_list len = \<lparr>type_name = ''list'', dsize = len\<rparr>"

definition process_other :: DispatchResult where
  "process_other = \<lparr>type_name = ''other'', dsize = 0\<rparr>"

definition dispatch_uncached ::
    "32 word \<Rightarrow> 64 word \<Rightarrow> bytes option \<Rightarrow> 32 word \<Rightarrow> DispatchResult" where
  "dispatch_uncached type_id int_val str_val arr_len =
     (if type_id = 0 then process_int int_val
      else if type_id = 1 then
        process_string (case str_val of Some s \<Rightarrow> s | None \<Rightarrow> [])
      else if type_id = 2 then process_list arr_len
      else process_other)"

lemmas dispatch_defs = dispatch_uncached_def process_int_def process_string_def
  process_list_def process_other_def

lemma process_int_bound: "unat (dsize (process_int x)) < 256"
proof -
  have "unat (x AND 0xFF) \<le> 255" using unat_mask_le [of x "0xFF"] by simp
  then show ?thesis
    by (simp add: process_int_def unsigned_ucast_eq take_bit_nat_eq_self)
qed



end
