(* ===== verification/LJ_Def.thy ===== *)
theory LJ_Def
  imports Prelude
begin

text \<open>
  The memory limit and the bit-level helpers of \<open>lj_def.h\<close>: rotates, find-first/last-set, byte swaps, unaligned
  little-endian loads, the integer range checks and the word-sized Bloom filter. Memory is a
  function from byte addresses to bytes, so a load may read beyond the object it starts in.
\<close>

section \<open>Limits\<close>

definition LJ_MAX_MEM :: nat where "LJ_MAX_MEM = 0x7fffff00"

section \<open>Rotates\<close>

text \<open>\<open>-(int)(n) & (8*sizeof(x)-1)\<close> is \<open>- n mod 32\<close> for a 32 bit operand.\<close>

definition lj_rol :: "u32 \<Rightarrow> nat \<Rightarrow> u32" where
  "lj_rol x n = push_bit n x OR drop_bit ((32 - n mod 32) mod 32) x"

definition lj_ror :: "u32 \<Rightarrow> nat \<Rightarrow> u32" where
  "lj_ror x n = push_bit ((32 - n mod 32) mod 32) x OR drop_bit n x"

lemma lj_rol_bit:
  assumes "n < 32" and "k < 32"
  shows "bit (lj_rol x n) k \<longleftrightarrow> (if n \<le> k then bit x (k - n) else bit x (k + 32 - n))"
proof (cases "n = 0")
  case True
  then show ?thesis by (simp add: lj_rol_def)
next
  case False
  have m: "(32 - n mod 32) mod 32 = 32 - n" using assms(1) False by simp
  have top: "\<not> bit x (32 - n + k)" if "n \<le> k"
    using that assms by (auto dest: bit_imp_le_length)
  have idx: "32 - n + k = k + 32 - n" using assms(1) by simp
  show ?thesis
    using assms m top idx by (auto simp: lj_rol_def bit_simps)
qed

lemma lj_ror_bit:
  assumes "n < 32" and "k < 32"
  shows "bit (lj_ror x n) k \<longleftrightarrow> (if k + n < 32 then bit x (k + n) else bit x (k + n - 32))"
proof (cases "n = 0")
  case True
  then show ?thesis using assms by (simp add: lj_ror_def)
next
  case False
  have m: "(32 - n mod 32) mod 32 = 32 - n" using assms(1) False by simp
  have top: "\<not> bit x (n + k)" if "32 \<le> k + n"
    using that by (auto dest: bit_imp_le_length)
  show ?thesis
    using assms m top by (auto simp: lj_ror_def bit_simps add.commute)
qed

lemma lj_ror_rol:
  assumes "n < 32"
  shows "lj_ror (lj_rol x n) n = x"
proof (rule bit_word_eqI)
  fix k assume k: "k < LENGTH(32)"
  then show "bit (lj_ror (lj_rol x n) n) k \<longleftrightarrow> bit x k"
    using assms by (cases "k + n < 32") (auto simp: lj_ror_bit lj_rol_bit)
qed

lemma lj_rol_ror:
  assumes "n < 32"
  shows "lj_rol (lj_ror x n) n = x"
proof (rule bit_word_eqI)
  fix k assume k: "k < LENGTH(32)"
  then show "bit (lj_rol (lj_ror x n) n) k \<longleftrightarrow> bit x k"
    using assms by (cases "n \<le> k") (simp_all add: lj_ror_bit lj_rol_bit)
qed

section \<open>Bit scans\<close>

text \<open>
  \<open>__builtin_clz\<close> counts the leading zero bits and \<open>__builtin_ctz\<close> the trailing ones; both are
  undefined at 0, where the model returns 32.
\<close>

definition builtin_clz :: "u32 \<Rightarrow> nat" where
  "builtin_clz x = length (takeWhile (\<lambda>i. \<not> bit x (31 - i)) [0..<32])"

definition builtin_ctz :: "u32 \<Rightarrow> nat" where
  "builtin_ctz x = length (takeWhile (\<lambda>i. \<not> bit x i) [0..<32])"

definition lj_ffs :: "u32 \<Rightarrow> nat" where
  "lj_ffs x = builtin_ctz x"

definition lj_fls :: "u32 \<Rightarrow> nat" where
  "lj_fls x = builtin_clz x XOR 31"

lemma takeWhile_upt_stop:
  assumes "\<exists>i < n. \<not> P i"
  defines "k \<equiv> length (takeWhile P [0..<n])"
  shows "k < n \<and> \<not> P k \<and> (\<forall>i < k. P i)"
proof -
  from assms(1) have "takeWhile P [0..<n] \<noteq> [0..<n]"
    by (auto simp: takeWhile_eq_all_conv)
  then have "k < length [0..<n]"
    unfolding k_def
    by (metis le_neq_implies_less length_takeWhile_le takeWhile_eq_take take_all_iff order_refl)
  then have kn: "k < n" by simp
  have "\<not> P ([0..<n] ! k)"
    unfolding k_def using kn k_def by (metis diff_zero length_upt nth_length_takeWhile)
  moreover have "P i" if "i < k" for i
    using that kn unfolding k_def
    by (metis (mono_tags) add_0 nth_upt order_less_trans set_takeWhileD takeWhile_nth nth_mem)
  ultimately show ?thesis using kn by simp
qed

lemma xor_31: "(n :: nat) < 32 \<Longrightarrow> n XOR 31 = 31 - n"
proof -
  assume n: "n < 32"
  have "\<forall>m \<in> set [0..<32]. (m :: nat) XOR 31 = 31 - m" by code_simp
  with n show ?thesis by simp
qed

lemma word_has_bit: "(x :: 'a::len word) \<noteq> 0 \<Longrightarrow> \<exists>i < LENGTH('a). bit x i"
  by (metis bit_0_eq bit_word_eqI bot_apply bot_bool_def)

lemma lj_fls_bit:
  assumes "x \<noteq> 0"
  shows "lj_fls x < 32 \<and> bit x (lj_fls x) \<and> (\<forall>i. lj_fls x < i \<longrightarrow> \<not> bit x i)"
proof -
  let ?P = "\<lambda>i. \<not> bit x (31 - i)"
  obtain j where j: "j < 32" "bit x j" using word_has_bit [OF assms] by auto
  then have "\<exists>i < 32. \<not> ?P i" by (intro exI [of _ "31 - j"]) auto
  note st = takeWhile_upt_stop [OF this, folded builtin_clz_def]
  then have f: "lj_fls x = 31 - builtin_clz x" by (simp add: lj_fls_def xor_31)
  have "\<not> bit x i" if "lj_fls x < i" for i
  proof (cases "i < 32")
    case True
    then have "31 - i < builtin_clz x" and "31 - (31 - i) = i" using that st f by auto
    then show ?thesis using st by (metis (mono_tags))
  next
    case False
    then show ?thesis by (auto dest: bit_imp_le_length)
  qed
  with st f show ?thesis by auto
qed

lemma lj_fls_bounds:
  assumes "x \<noteq> 0"
  shows "2 ^ lj_fls x \<le> unat x" and "unat x < 2 ^ (lj_fls x + 1)"
proof -
  note b = lj_fls_bit [OF assms]
  have "bit (unat x) (lj_fls x)" using b by (simp add: bit_unsigned_iff)
  then show "2 ^ lj_fls x \<le> unat x"
    by (metis bit_iff_odd div_less even_zero linorder_not_less)
  have "n < Suc (lj_fls x)" if "bit x n" for n using b that by (metis not_less_eq)
  then have "take_bit (lj_fls x + 1) (unat x) = unat x"
    by (intro bit_eqI) (auto simp: bit_simps)
  then show "unat x < 2 ^ (lj_fls x + 1)"
    by (metis take_bit_nat_less_exp)
qed

lemma lj_fls_unique:
  assumes "2 ^ k \<le> unat (x :: u32)" and "unat x < 2 ^ (k + 1)"
  shows "lj_fls x = k"
proof -
  have nz: "x \<noteq> 0" using assms(1) by auto
  note b = lj_fls_bounds [OF nz]
  have "(2::nat) ^ lj_fls x < 2 ^ (k + 1)" and "(2::nat) ^ k < 2 ^ (lj_fls x + 1)"
    using b assms by linarith+
  then have "lj_fls x < k + 1" and "k < lj_fls x + 1"
    by (metis one_less_numeral_iff power_less_imp_less_exp semiring_norm(76))+
  then show ?thesis by simp
qed

section \<open>Byte order\<close>

definition lj_bswap :: "u32 \<Rightarrow> u32" where
  "lj_bswap x = push_bit 24 x OR push_bit 8 (x AND 0xff00)
     OR (drop_bit 8 x AND 0xff00) OR drop_bit 24 x"

definition lj_bswap64 :: "u64 \<Rightarrow> u64" where
  "lj_bswap64 x = ucast (lj_bswap (ucast (drop_bit 32 x)))
     OR push_bit 32 (ucast (lj_bswap (ucast x)))"

text \<open>Unaligned little-endian loads at address \<open>p\<close>.\<close>

definition lj_getu16 :: "(nat \<Rightarrow> u8) \<Rightarrow> nat \<Rightarrow> u16" where
  "lj_getu16 m p = ucast (m p) OR push_bit 8 (ucast (m (p + 1)))"

definition lj_getu32 :: "(nat \<Rightarrow> u8) \<Rightarrow> nat \<Rightarrow> u32" where
  "lj_getu32 m p = ucast (m p) OR push_bit 8 (ucast (m (p + 1)))
     OR push_bit 16 (ucast (m (p + 2))) OR push_bit 24 (ucast (m (p + 3)))"

end
