(* ===== verification/LJ_BC.thy ===== *)
theory LJ_BC
  imports LJ_Def
begin

text \<open>
  The bytecode instruction format of \<open>lj_bc.h\<close>: 32 bit instructions with the fields
  \<open>OP\<close>, \<open>A\<close>, \<open>B\<close>, \<open>C\<close> or \<open>D\<close> (and \<open>J\<close>, a biased \<open>D\<close>), the accessors, the in-place setters
  for a little-endian host, the instruction composers, and the opcode table \<open>BCDEF\<close> with the
  operand modes packed into \<open>lj_bc_mode\<close>. The lemmas show that composing and decoding are
  inverse within the operand ranges, that each setter changes its own field only, and that the
  packed modes decode to the declared ones.
\<close>

section \<open>Instruction fields\<close>

type_synonym BCIns = u32
type_synonym BCReg = u32
type_synonym BCOp = u32

definition BCMAX_A :: u32 where "BCMAX_A = 0xff"
definition BCMAX_B :: u32 where "BCMAX_B = 0xff"
definition BCMAX_C :: u32 where "BCMAX_C = 0xff"
definition BCMAX_D :: u32 where "BCMAX_D = 0xffff"
definition BCBIAS_J :: int where "BCBIAS_J = 0x8000"

definition bc_op :: "BCIns \<Rightarrow> BCOp" where [field_defs]: "bc_op i = i AND 0xff"
definition bc_a :: "BCIns \<Rightarrow> BCReg" where [field_defs]: "bc_a i = drop_bit 8 i AND 0xff"
definition bc_b :: "BCIns \<Rightarrow> BCReg" where [field_defs]: "bc_b i = drop_bit 24 i"
definition bc_c :: "BCIns \<Rightarrow> BCReg" where [field_defs]: "bc_c i = drop_bit 16 i AND 0xff"
definition bc_d :: "BCIns \<Rightarrow> BCReg" where [field_defs]: "bc_d i = drop_bit 16 i"
definition bc_j :: "BCIns \<Rightarrow> int" where "bc_j i = uint (bc_d i) - BCBIAS_J"

text \<open>A byte store at offset \<open>ofs\<close> of a little-endian instruction word.\<close>

definition setbc_byte :: "BCIns \<Rightarrow> u32 \<Rightarrow> nat \<Rightarrow> BCIns" where
  [field_defs]: "setbc_byte p x ofs =
     (p AND NOT (push_bit (8 * ofs) 0xff)) OR push_bit (8 * ofs) (x AND 0xff)"

definition setbc_op :: "BCIns \<Rightarrow> u32 \<Rightarrow> BCIns" where
  [field_defs]: "setbc_op p x = setbc_byte p x 0"
definition setbc_a :: "BCIns \<Rightarrow> u32 \<Rightarrow> BCIns" where
  [field_defs]: "setbc_a p x = setbc_byte p x 1"
definition setbc_b :: "BCIns \<Rightarrow> u32 \<Rightarrow> BCIns" where
  [field_defs]: "setbc_b p x = setbc_byte p x 3"
definition setbc_c :: "BCIns \<Rightarrow> u32 \<Rightarrow> BCIns" where
  [field_defs]: "setbc_c p x = setbc_byte p x 2"

text \<open>A 16 bit store to the upper half.\<close>

definition setbc_d :: "BCIns \<Rightarrow> u32 \<Rightarrow> BCIns" where
  [field_defs]: "setbc_d p x = (p AND NOT (push_bit 16 0xffff)) OR push_bit 16 (x AND 0xffff)"

definition setbc_j :: "BCIns \<Rightarrow> int \<Rightarrow> BCIns" where
  "setbc_j p x = setbc_d p (word_of_int (x + BCBIAS_J))"

definition BCINS_ABC :: "BCOp \<Rightarrow> BCReg \<Rightarrow> BCReg \<Rightarrow> BCReg \<Rightarrow> BCIns" where
  [field_defs]: "BCINS_ABC oper a b c = oper OR push_bit 8 a OR push_bit 24 b OR push_bit 16 c"
definition BCINS_AD :: "BCOp \<Rightarrow> BCReg \<Rightarrow> BCReg \<Rightarrow> BCIns" where
  [field_defs]: "BCINS_AD oper a d = oper OR push_bit 8 a OR push_bit 16 d"
definition BCINS_AJ :: "BCOp \<Rightarrow> BCReg \<Rightarrow> int \<Rightarrow> BCIns" where
  "BCINS_AJ oper a j = BCINS_AD oper a (word_of_int (j + BCBIAS_J))"

section \<open>Operand modes and the opcode table\<close>

datatype BCMode = BCMnone | BCMdst | BCMbase | BCMvar | BCMrbase | BCMuv
  | BCMlit | BCMlits | BCMpri | BCMnum | BCMstr | BCMtab | BCMfunc | BCMjump | BCMcdata

text \<open>
  The metamethods of \<open>lj_obj.h\<close> (ORDER MM) with the FFI entries; \<open>MM____\<close> is \<open>MM__MAX\<close>.
\<close>

datatype MMS = MM_index | MM_newindex | MM_gc | MM_mode | MM_eq | MM_len
  | MM_lt | MM_le | MM_concat | MM_call
  | MM_add | MM_sub | MM_mul | MM_div | MM_mod | MM_pow | MM_unm
  | MM_metatable | MM_tostring | MM_new | MM_pairs | MM_ipairs | MM_MAX

definition all_modes :: "BCMode list" where
  "all_modes = [BCMnone, BCMdst, BCMbase, BCMvar, BCMrbase, BCMuv, BCMlit, BCMlits, BCMpri,
     BCMnum, BCMstr, BCMtab, BCMfunc, BCMjump, BCMcdata]"

definition all_mms :: "MMS list" where
  "all_mms = [MM_index, MM_newindex, MM_gc, MM_mode, MM_eq, MM_len, MM_lt, MM_le, MM_concat,
     MM_call, MM_add, MM_sub, MM_mul, MM_div, MM_mod, MM_pow, MM_unm, MM_metatable,
     MM_tostring, MM_new, MM_pairs, MM_ipairs, MM_MAX]"

text \<open>The enumeration number of a mode or metamethod: its position in the declaration.\<close>

fun enum_pos :: "'a \<Rightarrow> 'a list \<Rightarrow> nat" where
  "enum_pos x [] = 0"
| "enum_pos x (y # ys) = (if x = y then 0 else Suc (enum_pos x ys))"

definition bcm_num :: "BCMode \<Rightarrow> u32" where "bcm_num m = of_nat (enum_pos m all_modes)"
definition mm_num :: "MMS \<Rightarrow> u32" where "mm_num m = of_nat (enum_pos m all_mms)"

definition bcdef :: "(string \<times> BCMode \<times> BCMode \<times> BCMode \<times> MMS) list" where
  "bcdef = [
     (''ISLT'', BCMvar, BCMnone, BCMvar, MM_lt),
     (''ISGE'', BCMvar, BCMnone, BCMvar, MM_lt),
     (''ISLE'', BCMvar, BCMnone, BCMvar, MM_le),
     (''ISGT'', BCMvar, BCMnone, BCMvar, MM_le),
     (''ISEQV'', BCMvar, BCMnone, BCMvar, MM_eq),
     (''ISNEV'', BCMvar, BCMnone, BCMvar, MM_eq),
     (''ISEQS'', BCMvar, BCMnone, BCMstr, MM_eq),
     (''ISNES'', BCMvar, BCMnone, BCMstr, MM_eq),
     (''ISEQN'', BCMvar, BCMnone, BCMnum, MM_eq),
     (''ISNEN'', BCMvar, BCMnone, BCMnum, MM_eq),
     (''ISEQP'', BCMvar, BCMnone, BCMpri, MM_eq),
     (''ISNEP'', BCMvar, BCMnone, BCMpri, MM_eq),
     (''ISTC'', BCMdst, BCMnone, BCMvar, MM_MAX),
     (''ISFC'', BCMdst, BCMnone, BCMvar, MM_MAX),
     (''IST'', BCMnone, BCMnone, BCMvar, MM_MAX),
     (''ISF'', BCMnone, BCMnone, BCMvar, MM_MAX),
     (''MOV'', BCMdst, BCMnone, BCMvar, MM_MAX),
     (''NOT'', BCMdst, BCMnone, BCMvar, MM_MAX),
     (''UNM'', BCMdst, BCMnone, BCMvar, MM_unm),
     (''LEN'', BCMdst, BCMnone, BCMvar, MM_len),
     (''ADDVN'', BCMdst, BCMvar, BCMnum, MM_add),
     (''SUBVN'', BCMdst, BCMvar, BCMnum, MM_sub),
     (''MULVN'', BCMdst, BCMvar, BCMnum, MM_mul),
     (''DIVVN'', BCMdst, BCMvar, BCMnum, MM_div),
     (''MODVN'', BCMdst, BCMvar, BCMnum, MM_mod),
     (''ADDNV'', BCMdst, BCMvar, BCMnum, MM_add),
     (''SUBNV'', BCMdst, BCMvar, BCMnum, MM_sub),
     (''MULNV'', BCMdst, BCMvar, BCMnum, MM_mul),
     (''DIVNV'', BCMdst, BCMvar, BCMnum, MM_div),
     (''MODNV'', BCMdst, BCMvar, BCMnum, MM_mod),
     (''ADDVV'', BCMdst, BCMvar, BCMvar, MM_add),
     (''SUBVV'', BCMdst, BCMvar, BCMvar, MM_sub),
     (''MULVV'', BCMdst, BCMvar, BCMvar, MM_mul),
     (''DIVVV'', BCMdst, BCMvar, BCMvar, MM_div),
     (''MODVV'', BCMdst, BCMvar, BCMvar, MM_mod),
     (''POW'', BCMdst, BCMvar, BCMvar, MM_pow),
     (''CAT'', BCMdst, BCMrbase, BCMrbase, MM_concat),
     (''KSTR'', BCMdst, BCMnone, BCMstr, MM_MAX),
     (''KCDATA'', BCMdst, BCMnone, BCMcdata, MM_MAX),
     (''KSHORT'', BCMdst, BCMnone, BCMlits, MM_MAX),
     (''KNUM'', BCMdst, BCMnone, BCMnum, MM_MAX),
     (''KPRI'', BCMdst, BCMnone, BCMpri, MM_MAX),
     (''KNIL'', BCMbase, BCMnone, BCMbase, MM_MAX),
     (''UGET'', BCMdst, BCMnone, BCMuv, MM_MAX),
     (''USETV'', BCMuv, BCMnone, BCMvar, MM_MAX),
     (''USETS'', BCMuv, BCMnone, BCMstr, MM_MAX),
     (''USETN'', BCMuv, BCMnone, BCMnum, MM_MAX),
     (''USETP'', BCMuv, BCMnone, BCMpri, MM_MAX),
     (''UCLO'', BCMrbase, BCMnone, BCMjump, MM_MAX),
     (''FNEW'', BCMdst, BCMnone, BCMfunc, MM_gc),
     (''TNEW'', BCMdst, BCMnone, BCMlit, MM_gc),
     (''TDUP'', BCMdst, BCMnone, BCMtab, MM_gc),
     (''GGET'', BCMdst, BCMnone, BCMstr, MM_index),
     (''GSET'', BCMvar, BCMnone, BCMstr, MM_newindex),
     (''TGETV'', BCMdst, BCMvar, BCMvar, MM_index),
     (''TGETS'', BCMdst, BCMvar, BCMstr, MM_index),
     (''TGETB'', BCMdst, BCMvar, BCMlit, MM_index),
     (''TSETV'', BCMvar, BCMvar, BCMvar, MM_newindex),
     (''TSETS'', BCMvar, BCMvar, BCMstr, MM_newindex),
     (''TSETB'', BCMvar, BCMvar, BCMlit, MM_newindex),
     (''TSETM'', BCMbase, BCMnone, BCMnum, MM_newindex),
     (''CALLM'', BCMbase, BCMlit, BCMlit, MM_call),
     (''CALL'', BCMbase, BCMlit, BCMlit, MM_call),
     (''CALLMT'', BCMbase, BCMnone, BCMlit, MM_call),
     (''CALLT'', BCMbase, BCMnone, BCMlit, MM_call),
     (''ITERC'', BCMbase, BCMlit, BCMlit, MM_call),
     (''ITERN'', BCMbase, BCMlit, BCMlit, MM_call),
     (''VARG'', BCMbase, BCMlit, BCMlit, MM_MAX),
     (''ISNEXT'', BCMbase, BCMnone, BCMjump, MM_MAX),
     (''RETM'', BCMbase, BCMnone, BCMlit, MM_MAX),
     (''RET'', BCMrbase, BCMnone, BCMlit, MM_MAX),
     (''RET0'', BCMrbase, BCMnone, BCMlit, MM_MAX),
     (''RET1'', BCMrbase, BCMnone, BCMlit, MM_MAX),
     (''FORI'', BCMbase, BCMnone, BCMjump, MM_MAX),
     (''JFORI'', BCMbase, BCMnone, BCMjump, MM_MAX),
     (''FORL'', BCMbase, BCMnone, BCMjump, MM_MAX),
     (''IFORL'', BCMbase, BCMnone, BCMjump, MM_MAX),
     (''JFORL'', BCMbase, BCMnone, BCMlit, MM_MAX),
     (''ITERL'', BCMbase, BCMnone, BCMjump, MM_MAX),
     (''IITERL'', BCMbase, BCMnone, BCMjump, MM_MAX),
     (''JITERL'', BCMbase, BCMnone, BCMlit, MM_MAX),
     (''LOOP'', BCMrbase, BCMnone, BCMjump, MM_MAX),
     (''ILOOP'', BCMrbase, BCMnone, BCMjump, MM_MAX),
     (''JLOOP'', BCMrbase, BCMnone, BCMlit, MM_MAX),
     (''JMP'', BCMrbase, BCMnone, BCMjump, MM_MAX),
     (''FUNCF'', BCMrbase, BCMnone, BCMnone, MM_MAX),
     (''IFUNCF'', BCMrbase, BCMnone, BCMnone, MM_MAX),
     (''JFUNCF'', BCMrbase, BCMnone, BCMlit, MM_MAX),
     (''FUNCV'', BCMrbase, BCMnone, BCMnone, MM_MAX),
     (''IFUNCV'', BCMrbase, BCMnone, BCMnone, MM_MAX),
     (''JFUNCV'', BCMrbase, BCMnone, BCMlit, MM_MAX),
     (''FUNCC'', BCMrbase, BCMnone, BCMnone, MM_MAX),
     (''FUNCCW'', BCMrbase, BCMnone, BCMnone, MM_MAX)]"

text \<open>The opcode numbers: the positions in \<open>BCDEF\<close>.\<close>

definition BC_ISLT :: BCOp where "BC_ISLT = 0"
definition BC_ISGE :: BCOp where "BC_ISGE = 1"
definition BC_ISLE :: BCOp where "BC_ISLE = 2"
definition BC_ISGT :: BCOp where "BC_ISGT = 3"
definition BC_ISEQV :: BCOp where "BC_ISEQV = 4"
definition BC_ISNEV :: BCOp where "BC_ISNEV = 5"
definition BC_ISEQS :: BCOp where "BC_ISEQS = 6"
definition BC_ISNES :: BCOp where "BC_ISNES = 7"
definition BC_ISEQN :: BCOp where "BC_ISEQN = 8"
definition BC_ISNEN :: BCOp where "BC_ISNEN = 9"
definition BC_ISEQP :: BCOp where "BC_ISEQP = 10"
definition BC_ISNEP :: BCOp where "BC_ISNEP = 11"
definition BC_ISTC :: BCOp where "BC_ISTC = 12"
definition BC_ISFC :: BCOp where "BC_ISFC = 13"
definition BC_IST :: BCOp where "BC_IST = 14"
definition BC_ISF :: BCOp where "BC_ISF = 15"
definition BC_MOV :: BCOp where "BC_MOV = 16"
definition BC_NOT :: BCOp where "BC_NOT = 17"
definition BC_UNM :: BCOp where "BC_UNM = 18"
definition BC_LEN :: BCOp where "BC_LEN = 19"
definition BC_ADDVN :: BCOp where "BC_ADDVN = 20"
definition BC_SUBVN :: BCOp where "BC_SUBVN = 21"
definition BC_MULVN :: BCOp where "BC_MULVN = 22"
definition BC_DIVVN :: BCOp where "BC_DIVVN = 23"
definition BC_MODVN :: BCOp where "BC_MODVN = 24"
definition BC_ADDNV :: BCOp where "BC_ADDNV = 25"
definition BC_SUBNV :: BCOp where "BC_SUBNV = 26"
definition BC_MULNV :: BCOp where "BC_MULNV = 27"
definition BC_DIVNV :: BCOp where "BC_DIVNV = 28"
definition BC_MODNV :: BCOp where "BC_MODNV = 29"
definition BC_ADDVV :: BCOp where "BC_ADDVV = 30"
definition BC_SUBVV :: BCOp where "BC_SUBVV = 31"
definition BC_MULVV :: BCOp where "BC_MULVV = 32"
definition BC_DIVVV :: BCOp where "BC_DIVVV = 33"
definition BC_MODVV :: BCOp where "BC_MODVV = 34"
definition BC_POW :: BCOp where "BC_POW = 35"
definition BC_CAT :: BCOp where "BC_CAT = 36"
definition BC_KSTR :: BCOp where "BC_KSTR = 37"
definition BC_KCDATA :: BCOp where "BC_KCDATA = 38"
definition BC_KSHORT :: BCOp where "BC_KSHORT = 39"
definition BC_KNUM :: BCOp where "BC_KNUM = 40"
definition BC_KPRI :: BCOp where "BC_KPRI = 41"
definition BC_KNIL :: BCOp where "BC_KNIL = 42"
definition BC_UGET :: BCOp where "BC_UGET = 43"
definition BC_USETV :: BCOp where "BC_USETV = 44"
definition BC_USETS :: BCOp where "BC_USETS = 45"
definition BC_USETN :: BCOp where "BC_USETN = 46"
definition BC_USETP :: BCOp where "BC_USETP = 47"
definition BC_UCLO :: BCOp where "BC_UCLO = 48"
definition BC_FNEW :: BCOp where "BC_FNEW = 49"
definition BC_TNEW :: BCOp where "BC_TNEW = 50"
definition BC_TDUP :: BCOp where "BC_TDUP = 51"
definition BC_GGET :: BCOp where "BC_GGET = 52"
definition BC_GSET :: BCOp where "BC_GSET = 53"
definition BC_TGETV :: BCOp where "BC_TGETV = 54"
definition BC_TGETS :: BCOp where "BC_TGETS = 55"
definition BC_TGETB :: BCOp where "BC_TGETB = 56"
definition BC_TSETV :: BCOp where "BC_TSETV = 57"
definition BC_TSETS :: BCOp where "BC_TSETS = 58"
definition BC_TSETB :: BCOp where "BC_TSETB = 59"
definition BC_TSETM :: BCOp where "BC_TSETM = 60"
definition BC_CALLM :: BCOp where "BC_CALLM = 61"
definition BC_CALL :: BCOp where "BC_CALL = 62"
definition BC_CALLMT :: BCOp where "BC_CALLMT = 63"
definition BC_CALLT :: BCOp where "BC_CALLT = 64"
definition BC_ITERC :: BCOp where "BC_ITERC = 65"
definition BC_ITERN :: BCOp where "BC_ITERN = 66"
definition BC_VARG :: BCOp where "BC_VARG = 67"
definition BC_ISNEXT :: BCOp where "BC_ISNEXT = 68"
definition BC_RETM :: BCOp where "BC_RETM = 69"
definition BC_RET :: BCOp where "BC_RET = 70"
definition BC_RET0 :: BCOp where "BC_RET0 = 71"
definition BC_RET1 :: BCOp where "BC_RET1 = 72"
definition BC_FORI :: BCOp where "BC_FORI = 73"
definition BC_JFORI :: BCOp where "BC_JFORI = 74"
definition BC_FORL :: BCOp where "BC_FORL = 75"
definition BC_IFORL :: BCOp where "BC_IFORL = 76"
definition BC_JFORL :: BCOp where "BC_JFORL = 77"
definition BC_ITERL :: BCOp where "BC_ITERL = 78"
definition BC_IITERL :: BCOp where "BC_IITERL = 79"
definition BC_JITERL :: BCOp where "BC_JITERL = 80"
definition BC_LOOP :: BCOp where "BC_LOOP = 81"
definition BC_ILOOP :: BCOp where "BC_ILOOP = 82"
definition BC_JLOOP :: BCOp where "BC_JLOOP = 83"
definition BC_JMP :: BCOp where "BC_JMP = 84"
definition BC_FUNCF :: BCOp where "BC_FUNCF = 85"
definition BC_IFUNCF :: BCOp where "BC_IFUNCF = 86"
definition BC_JFUNCF :: BCOp where "BC_JFUNCF = 87"
definition BC_FUNCV :: BCOp where "BC_FUNCV = 88"
definition BC_IFUNCV :: BCOp where "BC_IFUNCV = 89"
definition BC_JFUNCV :: BCOp where "BC_JFUNCV = 90"
definition BC_FUNCC :: BCOp where "BC_FUNCC = 91"
definition BC_FUNCCW :: BCOp where "BC_FUNCCW = 92"

definition BC_MAX :: BCOp where "BC_MAX = of_nat (length bcdef)"

text \<open>\<open>BCMODE\<close>: the packed 16 bit mode word of a table row.\<close>

definition BCMODE :: "string \<times> BCMode \<times> BCMode \<times> BCMode \<times> MMS \<Rightarrow> u16" where
  "BCMODE r = (case r of (nm, ma, mb, mc, mm) \<Rightarrow>
     ucast (bcm_num ma OR push_bit 3 (bcm_num mb) OR push_bit 7 (bcm_num mc)
       OR push_bit 11 (mm_num mm)))"

definition lj_bc_mode :: "u16 list" where "lj_bc_mode = map BCMODE bcdef"

definition bcmode_a :: "BCOp \<Rightarrow> u16" where "bcmode_a op = lj_bc_mode ! unat op AND 7"
definition bcmode_b :: "BCOp \<Rightarrow> u16" where
  "bcmode_b op = drop_bit 3 (lj_bc_mode ! unat op) AND 15"
definition bcmode_c :: "BCOp \<Rightarrow> u16" where
  "bcmode_c op = drop_bit 7 (lj_bc_mode ! unat op) AND 15"
definition bcmode_d :: "BCOp \<Rightarrow> u16" where "bcmode_d op = bcmode_c op"
definition bcmode_hasd :: "BCOp \<Rightarrow> bool" where
  "bcmode_hasd op \<longleftrightarrow> lj_bc_mode ! unat op AND push_bit 3 15 = push_bit 3 (ucast (bcm_num BCMnone))"
definition bcmode_mm :: "BCOp \<Rightarrow> u16" where
  "bcmode_mm op = drop_bit 11 (lj_bc_mode ! unat op)"

definition bc_isret :: "BCOp \<Rightarrow> bool" where
  "bc_isret op \<longleftrightarrow> op = BC_RETM \<or> op = BC_RET \<or> op = BC_RET0 \<or> op = BC_RET1"

definition bc_isret_or_tail :: "BCOp \<Rightarrow> bool" where
  "bc_isret_or_tail op \<longleftrightarrow> op = BC_CALLMT \<or> op = BC_CALLT \<or> bc_isret op"

section \<open>Composing and decoding\<close>

lemma bit_lt_256: "(x :: u32) \<le> 0xff \<Longrightarrow> bit x k \<Longrightarrow> k < 8"
  using bit_lt_bound [of x 8 k] by (simp add: word_less_nat_alt word_le_nat_alt)

lemma bit_lt_65536: "(x :: u32) \<le> 0xffff \<Longrightarrow> bit x k \<Longrightarrow> k < 16"
  using bit_lt_bound [of x 16 k] by (simp add: word_less_nat_alt word_le_nat_alt)

lemma not_bit_256 [simp]: "(x :: u32) \<le> 0xff \<Longrightarrow> 8 \<le> k \<Longrightarrow> \<not> bit x k"
  using bit_lt_256 by fastforce

lemma not_bit_65536 [simp]: "(x :: u32) \<le> 0xffff \<Longrightarrow> 16 \<le> k \<Longrightarrow> \<not> bit x k"
  using bit_lt_65536 by fastforce

lemmas field_range_defs = BCMAX_A_def BCMAX_B_def BCMAX_C_def BCMAX_D_def

lemma BCINS_ABC_fields:
  assumes "oper \<le> 0xff" "a \<le> BCMAX_A" "b \<le> BCMAX_B" "c \<le> BCMAX_C"
  shows "bc_op (BCINS_ABC oper a b c) = oper" "bc_a (BCINS_ABC oper a b c) = a"
    "bc_b (BCINS_ABC oper a b c) = b" "bc_c (BCINS_ABC oper a b c) = c"
  using assms
  by - (rule word32_eqI, simp add: field_range_defs field_defs wbits bit_simps)+

lemma BCINS_AD_fields:
  assumes "oper \<le> 0xff" "a \<le> BCMAX_A" "d \<le> BCMAX_D"
  shows "bc_op (BCINS_AD oper a d) = oper" "bc_a (BCINS_AD oper a d) = a"
    "bc_d (BCINS_AD oper a d) = d"
  using assms
  by - (rule word32_eqI, simp add: field_range_defs field_defs wbits bit_simps)+

lemma BCINS_ABC_surj: "BCINS_ABC (bc_op i) (bc_a i) (bc_b i) (bc_c i) = i"
  by (rule word32_eqI) (simp add: field_defs wbits bit_simps)

lemma BCINS_AD_surj: "BCINS_AD (bc_op i) (bc_a i) (bc_d i) = i"
  by (rule word32_eqI) (simp add: field_defs wbits bit_simps)

lemma bc_d_le: "bc_d i \<le> BCMAX_D"
proof -
  have "bc_d i = bc_d i AND mask 16"
    by (rule word32_eqI) (simp add: field_defs bit_simps wbits)
  then have "bc_d i < 2 ^ 16" using and_mask_less' [where n = 16 and w = "bc_d i"] by simp
  then show ?thesis by (simp add: BCMAX_D_def word_less_nat_alt word_le_nat_alt)
qed

lemma setbc_own_field:
  assumes "x \<le> 0xff"
  shows "bc_op (setbc_op i x) = x" "bc_a (setbc_a i x) = x"
    "bc_b (setbc_b i x) = x" "bc_c (setbc_c i x) = x"
  using assms by - (rule word32_eqI, simp add: field_defs wbits bit_simps)+

lemma setbc_d_own_field:
  assumes "x \<le> 0xffff"
  shows "bc_d (setbc_d i x) = x"
  using assms by - (rule word32_eqI, simp add: field_defs wbits bit_simps)

lemma setbc_as_compose:
  "setbc_op i x = BCINS_ABC (x AND 0xff) (bc_a i) (bc_b i) (bc_c i)"
  "setbc_a i x = BCINS_ABC (bc_op i) (x AND 0xff) (bc_b i) (bc_c i)"
  "setbc_b i x = BCINS_ABC (bc_op i) (bc_a i) (x AND 0xff) (bc_c i)"
  "setbc_c i x = BCINS_ABC (bc_op i) (bc_a i) (bc_b i) (x AND 0xff)"
  "setbc_d i x = BCINS_AD (bc_op i) (bc_a i) (x AND 0xffff)"
  by (rule word32_eqI, simp add: field_defs wbits bit_simps)+

text \<open>The jump field: \<open>BCBIAS_J\<close> maps the signed 16 bit range onto the \<open>D\<close> operand.\<close>

lemma jump_operand:
  assumes "- 0x8000 \<le> j" "j < 0x8000"
  shows "uint (word_of_int (j + BCBIAS_J) :: u32) = j + BCBIAS_J"
  using assms by (simp only: uint_word_of_int BCBIAS_J_def) simp

lemma bc_j_compose:
  assumes "oper \<le> 0xff" "a \<le> BCMAX_A" "- 0x8000 \<le> j" "j < 0x8000"
  shows "bc_j (BCINS_AJ oper a j) = j"
proof -
  let ?d = "word_of_int (j + BCBIAS_J) :: u32"
  note u = jump_operand [OF assms(3,4)]
  then have "?d \<le> BCMAX_D"
    using assms(4) by (simp only: word_le_def BCBIAS_J_def BCMAX_D_def) simp
  with u assms(1,2) show ?thesis
    by (simp only: bc_j_def BCINS_AJ_def BCINS_AD_fields)
qed

lemma bc_j_range: "- 0x8000 \<le> bc_j i \<and> bc_j i < 0x8000"
proof -
  have "uint (bc_d i) \<le> 0xffff" using bc_d_le [of i] by (simp add: word_le_def BCMAX_D_def)
  then show ?thesis by (simp add: bc_j_def BCBIAS_J_def)
qed

lemma setbc_j_own_field:
  assumes "- 0x8000 \<le> j" "j < 0x8000"
  shows "bc_j (setbc_j i j) = j"
proof -
  let ?d = "word_of_int (j + BCBIAS_J) :: u32"
  note u = jump_operand [OF assms]
  then have "?d \<le> 0xffff"
    using assms by (simp only: word_le_def BCBIAS_J_def) simp
  with u show ?thesis
    by (simp only: bc_j_def setbc_j_def setbc_d_own_field)
qed

section \<open>The mode table\<close>

lemma bcm_num_le: "unat (bcm_num m) < 15"
  by (cases m) (simp_all add: bcm_num_def all_modes_def)

lemma mm_num_le: "unat (mm_num m) < 23"
  by (cases m) (simp_all add: mm_num_def all_mms_def)

lemma bcm_bits: "bit (bcm_num m) k \<Longrightarrow> k < 4"
  using bcm_num_le [of m] bit_lt_bound [of "bcm_num m" 4 k] by (simp add: word_less_nat_alt)

lemma mm_bits: "bit (mm_num m) k \<Longrightarrow> k < 5"
  using mm_num_le [of m] bit_lt_bound [of "mm_num m" 5 k] by (simp add: word_less_nat_alt)

lemma BCMODE_fields:
  assumes "bcm_num ma < 8"
  shows "BCMODE (nm, ma, mb, mc, mm) AND 7 = ucast (bcm_num ma)"
    "drop_bit 3 (BCMODE (nm, ma, mb, mc, mm)) AND 15 = ucast (bcm_num mb)"
    "drop_bit 7 (BCMODE (nm, ma, mb, mc, mm)) AND 15 = ucast (bcm_num mc)"
    "drop_bit 11 (BCMODE (nm, ma, mb, mc, mm)) = ucast (mm_num mm)"
proof -
  have a: "bit (bcm_num ma) k \<Longrightarrow> k < 3" for k
    using assms bit_lt_bound [of "bcm_num ma" 3 k] by simp
  have m7: "(x :: u16) AND 7 = take_bit 3 x" and m15: "(x :: u16) AND 15 = take_bit 4 x" for x
    by (simp_all add: take_bit_eq_mask mask_eq_exp_minus_1)
  note bits = a bcm_bits mm_bits
  show "BCMODE (nm, ma, mb, mc, mm) AND 7 = ucast (bcm_num ma)"
    using bits by (force intro!: bit_word_eqI simp: BCMODE_def m7 bit_simps)
  show "drop_bit 3 (BCMODE (nm, ma, mb, mc, mm)) AND 15 = ucast (bcm_num mb)"
    using bits by (force intro!: bit_word_eqI simp: BCMODE_def m15 bit_simps)
  show "drop_bit 7 (BCMODE (nm, ma, mb, mc, mm)) AND 15 = ucast (bcm_num mc)"
    using bits by (force intro!: bit_word_eqI simp: BCMODE_def m15 bit_simps)
  show "drop_bit 11 (BCMODE (nm, ma, mb, mc, mm)) = ucast (mm_num mm)"
    using bits by (force intro!: bit_word_eqI simp: BCMODE_def bit_simps)
qed

lemma bcdef_mode_a: "list_all (\<lambda>(nm, ma, mb, mc, mm). bcm_num ma < 8) bcdef"
  by code_simp

lemma length_bcdef: "length bcdef = 93"
  by (simp add: bcdef_def)

lemma bcm_num_none: "bcm_num m = 0 \<longleftrightarrow> m = BCMnone"
  by (cases m) (simp_all add: bcm_num_def all_modes_def)

lemma ucast_bcm_num_none: "(ucast (bcm_num m) :: u16) = 0 \<longleftrightarrow> m = BCMnone"
  by (cases m) (simp_all add: bcm_num_def all_modes_def)

lemma hasd_alt: "(w :: u16) AND push_bit 3 15 = 0 \<longleftrightarrow> drop_bit 3 w AND 15 = 0"
proof -
  have "push_bit 3 (drop_bit 3 w AND 15) = w AND push_bit 3 15"
    by (rule word16_eqI) (simp add: bit_simps)
  moreover have "push_bit 3 v = 0 \<longleftrightarrow> v = 0" if "v = u AND 15" for u v :: u16
  proof -
    have "drop_bit 3 (push_bit 3 v) = v"
      unfolding that by (rule word16_eqI) (simp add: bit_simps)
    then show ?thesis by (metis push_bit_of_0 drop_bit_of_0)
  qed
  ultimately show ?thesis by metis
qed

lemma bcmode_row:
  assumes "k < length bcdef" and "bcdef ! k = (nm, ma, mb, mc, mm)"
  shows "bcmode_a (of_nat k) = ucast (bcm_num ma) \<and> bcmode_b (of_nat k) = ucast (bcm_num mb)
    \<and> bcmode_d (of_nat k) = ucast (bcm_num mc) \<and> bcmode_hasd (of_nat k) = (mb = BCMnone)
    \<and> bcmode_mm (of_nat k) = ucast (mm_num mm)"
proof -
  have u: "unat (of_nat k :: u32) = k"
    using assms(1) by (simp add: length_bcdef unat_of_nat_small)
  have m: "lj_bc_mode ! k = BCMODE (nm, ma, mb, mc, mm)"
    using assms by (simp add: lj_bc_mode_def)
  have a: "bcm_num ma < 8"
    using bcdef_mode_a assms by (auto simp: list_all_length)
  have n0: "bcm_num BCMnone = 0" by (simp add: bcm_num_none)
  show ?thesis
    by (simp only: bcmode_a_def bcmode_b_def bcmode_d_def bcmode_c_def bcmode_hasd_def
        bcmode_mm_def u m BCMODE_fields [OF a] n0 hasd_alt push_bit_of_0 ucast_0
        ucast_bcm_num_none simp_thms)
qed

lemma bcmode_rows:
  "list_all (\<lambda>(k, nm, ma, mb, mc, mm).
      bcmode_a (of_nat k) = ucast (bcm_num ma)
    \<and> bcmode_b (of_nat k) = ucast (bcm_num mb)
    \<and> bcmode_d (of_nat k) = ucast (bcm_num mc)
    \<and> bcmode_hasd (of_nat k) = (mb = BCMnone)
    \<and> bcmode_mm (of_nat k) = ucast (mm_num mm)) (enumerate 0 bcdef)"
  by (auto simp: list_all_length nth_enumerate_eq bcmode_row split: prod.splits)

lemma bc_names:
  "map (\<lambda>(k, r). (fst r, of_nat k)) (enumerate 0 bcdef) =
    [(''ISLT'', BC_ISLT), (''ISGE'', BC_ISGE), (''ISLE'', BC_ISLE), (''ISGT'', BC_ISGT),
     (''ISEQV'', BC_ISEQV), (''ISNEV'', BC_ISNEV), (''ISEQS'', BC_ISEQS), (''ISNES'',
     BC_ISNES), (''ISEQN'', BC_ISEQN), (''ISNEN'', BC_ISNEN), (''ISEQP'', BC_ISEQP),
     (''ISNEP'', BC_ISNEP), (''ISTC'', BC_ISTC), (''ISFC'', BC_ISFC), (''IST'', BC_IST),
     (''ISF'', BC_ISF), (''MOV'', BC_MOV), (''NOT'', BC_NOT), (''UNM'', BC_UNM), (''LEN'',
     BC_LEN), (''ADDVN'', BC_ADDVN), (''SUBVN'', BC_SUBVN), (''MULVN'', BC_MULVN), (''DIVVN'',
     BC_DIVVN), (''MODVN'', BC_MODVN), (''ADDNV'', BC_ADDNV), (''SUBNV'', BC_SUBNV),
     (''MULNV'', BC_MULNV), (''DIVNV'', BC_DIVNV), (''MODNV'', BC_MODNV), (''ADDVV'',
     BC_ADDVV), (''SUBVV'', BC_SUBVV), (''MULVV'', BC_MULVV), (''DIVVV'', BC_DIVVV),
     (''MODVV'', BC_MODVV), (''POW'', BC_POW), (''CAT'', BC_CAT), (''KSTR'', BC_KSTR),
     (''KCDATA'', BC_KCDATA), (''KSHORT'', BC_KSHORT), (''KNUM'', BC_KNUM), (''KPRI'',
     BC_KPRI), (''KNIL'', BC_KNIL), (''UGET'', BC_UGET), (''USETV'', BC_USETV), (''USETS'',
     BC_USETS), (''USETN'', BC_USETN), (''USETP'', BC_USETP), (''UCLO'', BC_UCLO), (''FNEW'',
     BC_FNEW), (''TNEW'', BC_TNEW), (''TDUP'', BC_TDUP), (''GGET'', BC_GGET), (''GSET'',
     BC_GSET), (''TGETV'', BC_TGETV), (''TGETS'', BC_TGETS), (''TGETB'', BC_TGETB), (''TSETV'',
     BC_TSETV), (''TSETS'', BC_TSETS), (''TSETB'', BC_TSETB), (''TSETM'', BC_TSETM),
     (''CALLM'', BC_CALLM), (''CALL'', BC_CALL), (''CALLMT'', BC_CALLMT), (''CALLT'',
     BC_CALLT), (''ITERC'', BC_ITERC), (''ITERN'', BC_ITERN), (''VARG'', BC_VARG), (''ISNEXT'',
     BC_ISNEXT), (''RETM'', BC_RETM), (''RET'', BC_RET), (''RET0'', BC_RET0), (''RET1'',
     BC_RET1), (''FORI'', BC_FORI), (''JFORI'', BC_JFORI), (''FORL'', BC_FORL), (''IFORL'',
     BC_IFORL), (''JFORL'', BC_JFORL), (''ITERL'', BC_ITERL), (''IITERL'', BC_IITERL),
     (''JITERL'', BC_JITERL), (''LOOP'', BC_LOOP), (''ILOOP'', BC_ILOOP), (''JLOOP'',
     BC_JLOOP), (''JMP'', BC_JMP), (''FUNCF'', BC_FUNCF), (''IFUNCF'', BC_IFUNCF), (''JFUNCF'',
     BC_JFUNCF), (''FUNCV'', BC_FUNCV), (''IFUNCV'', BC_IFUNCV), (''JFUNCV'', BC_JFUNCV),
     (''FUNCC'', BC_FUNCC), (''FUNCCW'', BC_FUNCCW)]"
  by code_simp

section \<open>Properties\<close>



text \<open>
  In-place patching: storing one field of an instruction word leaves every other
  field as it was and stores the low byte (or half word) of the operand, so patching a jump
  target or an opcode never disturbs a register operand.
\<close>

theorem setbc_frame:
  "(bc_op (setbc_op i x), bc_a (setbc_op i x), bc_b (setbc_op i x), bc_c (setbc_op i x))
      = (x AND 0xff, bc_a i, bc_b i, bc_c i)
    \<and> (bc_op (setbc_a i x), bc_a (setbc_a i x), bc_b (setbc_a i x), bc_c (setbc_a i x))
      = (bc_op i, x AND 0xff, bc_b i, bc_c i)
    \<and> (bc_op (setbc_b i x), bc_a (setbc_b i x), bc_b (setbc_b i x), bc_c (setbc_b i x))
      = (bc_op i, bc_a i, x AND 0xff, bc_c i)
    \<and> (bc_op (setbc_c i x), bc_a (setbc_c i x), bc_b (setbc_c i x), bc_c (setbc_c i x))
      = (bc_op i, bc_a i, bc_b i, x AND 0xff)
    \<and> (bc_op (setbc_d i x), bc_a (setbc_d i x), bc_d (setbc_d i x))
      = (bc_op i, bc_a i, x AND 0xffff)
    \<and> BCINS_ABC (bc_op i) (bc_a i) (bc_b i) (bc_c i) = i"
proof -
  have m: "y AND 0xff \<le> 0xff" "bc_op i \<le> 0xff" "bc_a i \<le> 0xff" "bc_c i \<le> 0xff" for y :: u32
    by (simp_all add: word_and_le1 bc_op_def bc_a_def bc_c_def)
  have b: "bc_b i \<le> 0xff"
  proof -
    have "bc_b i = bc_b i AND 0xff"
      by (rule word32_eqI) (simp add: field_defs bit_simps wbits)
    then show ?thesis by (metis word_and_le1)
  qed
  have d: "x AND 0xffff \<le> BCMAX_D" by (simp add: BCMAX_D_def word_and_le1)
  show ?thesis
    by (simp only: setbc_as_compose BCINS_ABC_surj BCINS_ABC_fields BCINS_AD_fields
        field_range_defs m b d [unfolded BCMAX_D_def] prod.inject simp_thms)
qed

text \<open>
  C26: The packed mode words decode to the declared operand modes and metamethod for every row of
  \<open>BCDEF\<close> (no field overflows into its neighbour), and the opcode constants number the rows in
  declaration order.
\<close>

theorem bcmode_table:
  "list_all (\<lambda>(k, nm, ma, mb, mc, mm).
      bcmode_a (of_nat k) = ucast (bcm_num ma)
    \<and> bcmode_b (of_nat k) = ucast (bcm_num mb)
    \<and> bcmode_d (of_nat k) = ucast (bcm_num mc)
    \<and> bcmode_hasd (of_nat k) = (mb = BCMnone)
    \<and> bcmode_mm (of_nat k) = ucast (mm_num mm)) (enumerate 0 bcdef)
  \<and> map (\<lambda>(k, r). (fst r, of_nat k)) (enumerate 0 bcdef) =
    [(''ISLT'', BC_ISLT), (''ISGE'', BC_ISGE), (''ISLE'', BC_ISLE), (''ISGT'', BC_ISGT),
     (''ISEQV'', BC_ISEQV), (''ISNEV'', BC_ISNEV), (''ISEQS'', BC_ISEQS), (''ISNES'',
     BC_ISNES), (''ISEQN'', BC_ISEQN), (''ISNEN'', BC_ISNEN), (''ISEQP'', BC_ISEQP),
     (''ISNEP'', BC_ISNEP), (''ISTC'', BC_ISTC), (''ISFC'', BC_ISFC), (''IST'', BC_IST),
     (''ISF'', BC_ISF), (''MOV'', BC_MOV), (''NOT'', BC_NOT), (''UNM'', BC_UNM), (''LEN'',
     BC_LEN), (''ADDVN'', BC_ADDVN), (''SUBVN'', BC_SUBVN), (''MULVN'', BC_MULVN), (''DIVVN'',
     BC_DIVVN), (''MODVN'', BC_MODVN), (''ADDNV'', BC_ADDNV), (''SUBNV'', BC_SUBNV),
     (''MULNV'', BC_MULNV), (''DIVNV'', BC_DIVNV), (''MODNV'', BC_MODNV), (''ADDVV'',
     BC_ADDVV), (''SUBVV'', BC_SUBVV), (''MULVV'', BC_MULVV), (''DIVVV'', BC_DIVVV),
     (''MODVV'', BC_MODVV), (''POW'', BC_POW), (''CAT'', BC_CAT), (''KSTR'', BC_KSTR),
     (''KCDATA'', BC_KCDATA), (''KSHORT'', BC_KSHORT), (''KNUM'', BC_KNUM), (''KPRI'',
     BC_KPRI), (''KNIL'', BC_KNIL), (''UGET'', BC_UGET), (''USETV'', BC_USETV), (''USETS'',
     BC_USETS), (''USETN'', BC_USETN), (''USETP'', BC_USETP), (''UCLO'', BC_UCLO), (''FNEW'',
     BC_FNEW), (''TNEW'', BC_TNEW), (''TDUP'', BC_TDUP), (''GGET'', BC_GGET), (''GSET'',
     BC_GSET), (''TGETV'', BC_TGETV), (''TGETS'', BC_TGETS), (''TGETB'', BC_TGETB), (''TSETV'',
     BC_TSETV), (''TSETS'', BC_TSETS), (''TSETB'', BC_TSETB), (''TSETM'', BC_TSETM),
     (''CALLM'', BC_CALLM), (''CALL'', BC_CALL), (''CALLMT'', BC_CALLMT), (''CALLT'',
     BC_CALLT), (''ITERC'', BC_ITERC), (''ITERN'', BC_ITERN), (''VARG'', BC_VARG), (''ISNEXT'',
     BC_ISNEXT), (''RETM'', BC_RETM), (''RET'', BC_RET), (''RET0'', BC_RET0), (''RET1'',
     BC_RET1), (''FORI'', BC_FORI), (''JFORI'', BC_JFORI), (''FORL'', BC_FORL), (''IFORL'',
     BC_IFORL), (''JFORL'', BC_JFORL), (''ITERL'', BC_ITERL), (''IITERL'', BC_IITERL),
     (''JITERL'', BC_JITERL), (''LOOP'', BC_LOOP), (''ILOOP'', BC_ILOOP), (''JLOOP'',
     BC_JLOOP), (''JMP'', BC_JMP), (''FUNCF'', BC_FUNCF), (''IFUNCF'', BC_IFUNCF), (''JFUNCF'',
     BC_JFUNCF), (''FUNCV'', BC_FUNCV), (''IFUNCV'', BC_IFUNCV), (''JFUNCV'', BC_JFUNCV),
     (''FUNCC'', BC_FUNCC), (''FUNCCW'', BC_FUNCCW)]"
  using bcmode_rows bc_names by blast

lemmas bc_num_defs =
  BC_ISLT_def BC_ISGE_def BC_ISLE_def BC_ISGT_def BC_ISEQV_def BC_ISNEV_def BC_ISEQS_def
  BC_ISNES_def BC_ISEQN_def BC_ISNEN_def BC_ISEQP_def BC_ISNEP_def BC_ISTC_def BC_ISFC_def
  BC_IST_def BC_ISF_def BC_MOV_def BC_NOT_def BC_UNM_def BC_LEN_def BC_ADDVN_def BC_SUBVN_def
  BC_MULVN_def BC_DIVVN_def BC_MODVN_def BC_ADDNV_def BC_SUBNV_def BC_MULNV_def BC_DIVNV_def
  BC_MODNV_def BC_ADDVV_def BC_SUBVV_def BC_MULVV_def BC_DIVVV_def BC_MODVV_def BC_POW_def
  BC_CAT_def BC_KSTR_def BC_KCDATA_def BC_KSHORT_def BC_KNUM_def BC_KPRI_def BC_KNIL_def
  BC_UGET_def BC_USETV_def BC_USETS_def BC_USETN_def BC_USETP_def BC_UCLO_def BC_FNEW_def
  BC_TNEW_def BC_TDUP_def BC_GGET_def BC_GSET_def BC_TGETV_def BC_TGETS_def BC_TGETB_def
  BC_TSETV_def BC_TSETS_def BC_TSETB_def BC_TSETM_def BC_CALLM_def BC_CALL_def BC_CALLMT_def
  BC_CALLT_def BC_ITERC_def BC_ITERN_def BC_VARG_def BC_ISNEXT_def BC_RETM_def BC_RET_def
  BC_RET0_def BC_RET1_def BC_FORI_def BC_JFORI_def BC_FORL_def BC_IFORL_def BC_JFORL_def
  BC_ITERL_def BC_IITERL_def BC_JITERL_def BC_LOOP_def BC_ILOOP_def BC_JLOOP_def BC_JMP_def
  BC_FUNCF_def BC_IFUNCF_def BC_JFUNCF_def BC_FUNCV_def BC_IFUNCV_def BC_JFUNCV_def
  BC_FUNCC_def BC_FUNCCW_def


end
