(* ===== verification/LJ_Obj.thy ===== *)
theory LJ_Obj
  imports LJ_Def
begin

text \<open>
  Tagged values (\<open>lj_obj.h\<close>, \<open>lj_obj.c\<close>) in the x64 configuration of the sources: 64 bit
  little-endian, single-number mode (\<open>LJ_64\<close>, not \<open>LJ_DUALNUM\<close>). A \<open>TValue\<close> is its 64 bit
  pattern: a double, or a tag in the upper half that is a NaN as a double. Doubles are their IEEE
  754 patterns; only what the sources do with them here is modelled: equality, the conversion of
  a 32 bit integer and the truncating conversion back. The lemmas show that the type tests
  classify every pattern the setters build, that integers survive the round trip through a
  double, and that raw equality is an equivalence whose classes have a canonical pattern, on
  which table keys rest.
\<close>

section \<open>The value pattern\<close>

type_synonym TValue = u64

definition tv_lo :: "TValue \<Rightarrow> u32" where "tv_lo tv = ucast tv"
definition tv_hi :: "TValue \<Rightarrow> u32" where "tv_hi tv = ucast (drop_bit 32 tv)"
definition mk_tv :: "u32 \<Rightarrow> u32 \<Rightarrow> TValue" where
  "mk_tv lo hi = ucast lo OR push_bit 32 (ucast hi)"

lemma tv_lo_mk [simp]: "tv_lo (mk_tv lo hi) = lo"
  by (rule bit_word_eqI) (auto simp: tv_lo_def mk_tv_def bit_simps)

lemma tv_hi_mk [simp]: "tv_hi (mk_tv lo hi) = hi"
  by (rule bit_word_eqI) (auto simp: tv_hi_def mk_tv_def bit_simps dest: bit_imp_le_length)

lemma mk_tv_eta [simp]: "mk_tv (tv_lo v) (tv_hi v) = v"
  by (rule bit_word_eqI) (auto simp: tv_hi_def tv_lo_def mk_tv_def bit_simps)

lemma mk_tv_inject [simp]: "mk_tv l h = mk_tv l' h' \<longleftrightarrow> l = l' \<and> h = h'"
  by (metis tv_lo_mk tv_hi_mk)

lemma tv_eq_iff: "v = w \<longleftrightarrow> tv_lo v = tv_lo w \<and> tv_hi v = tv_hi w"
  by (metis mk_tv_eta)

section \<open>Tags and type tests\<close>

definition LJ_TNIL :: u32 where "LJ_TNIL = NOT 0"
definition LJ_TFALSE :: u32 where "LJ_TFALSE = NOT 1"
definition LJ_TTRUE :: u32 where "LJ_TTRUE = NOT 2"
definition LJ_TLIGHTUD :: u32 where "LJ_TLIGHTUD = NOT 3"
definition LJ_TSTR :: u32 where "LJ_TSTR = NOT 4"
definition LJ_TUPVAL :: u32 where "LJ_TUPVAL = NOT 5"
definition LJ_TTHREAD :: u32 where "LJ_TTHREAD = NOT 6"
definition LJ_TPROTO :: u32 where "LJ_TPROTO = NOT 7"
definition LJ_TFUNC :: u32 where "LJ_TFUNC = NOT 8"
definition LJ_TTRACE :: u32 where "LJ_TTRACE = NOT 9"
definition LJ_TCDATA :: u32 where "LJ_TCDATA = NOT 10"
definition LJ_TTAB :: u32 where "LJ_TTAB = NOT 11"
definition LJ_TUDATA :: u32 where "LJ_TUDATA = NOT 12"
definition LJ_TNUMX :: u32 where "LJ_TNUMX = NOT 13"
definition LJ_TISNUM :: u32 where "LJ_TISNUM = 0xfffeffff"
definition LJ_TISTRUECOND :: u32 where "LJ_TISTRUECOND = LJ_TFALSE"
definition LJ_TISPRI :: u32 where "LJ_TISPRI = LJ_TTRUE"
definition LJ_TISGCV :: u32 where "LJ_TISGCV = LJ_TSTR + 1"
definition LJ_TISTABUD :: u32 where "LJ_TISTABUD = LJ_TTAB"

lemmas tag_defs = LJ_TNIL_def LJ_TFALSE_def LJ_TTRUE_def LJ_TLIGHTUD_def LJ_TSTR_def
  LJ_TUPVAL_def LJ_TTHREAD_def LJ_TPROTO_def LJ_TFUNC_def LJ_TTRACE_def LJ_TCDATA_def
  LJ_TTAB_def LJ_TUDATA_def LJ_TNUMX_def LJ_TISNUM_def LJ_TISTRUECOND_def LJ_TISPRI_def
  LJ_TISGCV_def LJ_TISTABUD_def

definition itype :: "TValue \<Rightarrow> u32" where "itype tv = tv_hi tv"

definition tvisnil :: "TValue \<Rightarrow> bool" where "tvisnil tv \<longleftrightarrow> itype tv = LJ_TNIL"
definition tvisfalse :: "TValue \<Rightarrow> bool" where "tvisfalse tv \<longleftrightarrow> itype tv = LJ_TFALSE"
definition tvistrue :: "TValue \<Rightarrow> bool" where "tvistrue tv \<longleftrightarrow> itype tv = LJ_TTRUE"
definition tvisbool :: "TValue \<Rightarrow> bool" where "tvisbool tv \<longleftrightarrow> tvisfalse tv \<or> tvistrue tv"
definition tvislightud :: "TValue \<Rightarrow> bool" where
  "tvislightud tv \<longleftrightarrow> sint (signed_drop_bit 15 (itype tv)) = - 2"
definition tvisstr :: "TValue \<Rightarrow> bool" where "tvisstr tv \<longleftrightarrow> itype tv = LJ_TSTR"
definition tvisfunc :: "TValue \<Rightarrow> bool" where "tvisfunc tv \<longleftrightarrow> itype tv = LJ_TFUNC"
definition tvisthread :: "TValue \<Rightarrow> bool" where "tvisthread tv \<longleftrightarrow> itype tv = LJ_TTHREAD"
definition tvisproto :: "TValue \<Rightarrow> bool" where "tvisproto tv \<longleftrightarrow> itype tv = LJ_TPROTO"
definition tviscdata :: "TValue \<Rightarrow> bool" where "tviscdata tv \<longleftrightarrow> itype tv = LJ_TCDATA"
definition tvistab :: "TValue \<Rightarrow> bool" where "tvistab tv \<longleftrightarrow> itype tv = LJ_TTAB"
definition tvisudata :: "TValue \<Rightarrow> bool" where "tvisudata tv \<longleftrightarrow> itype tv = LJ_TUDATA"
definition tvisnumber :: "TValue \<Rightarrow> bool" where "tvisnumber tv \<longleftrightarrow> itype tv \<le> LJ_TISNUM"

text \<open>\<open>LJ_DUALNUM && \<dots>\<close> is constantly false in single-number mode.\<close>

definition tvisint :: "TValue \<Rightarrow> bool" where "tvisint tv \<longleftrightarrow> False"
definition tvisnum :: "TValue \<Rightarrow> bool" where "tvisnum tv \<longleftrightarrow> itype tv < LJ_TISNUM"

definition tvistruecond :: "TValue \<Rightarrow> bool" where
  "tvistruecond tv \<longleftrightarrow> itype tv < LJ_TISTRUECOND"
definition tvispri :: "TValue \<Rightarrow> bool" where "tvispri tv \<longleftrightarrow> LJ_TISPRI \<le> itype tv"
definition tvistabud :: "TValue \<Rightarrow> bool" where "tvistabud tv \<longleftrightarrow> itype tv \<le> LJ_TISTABUD"
definition tvisgcv :: "TValue \<Rightarrow> bool" where
  "tvisgcv tv \<longleftrightarrow> itype tv - LJ_TISGCV > LJ_TNUMX - LJ_TISGCV"

definition tviszero :: "TValue \<Rightarrow> bool" where "tviszero tv \<longleftrightarrow> push_bit 1 tv = 0"
definition tvispzero :: "TValue \<Rightarrow> bool" where "tvispzero tv \<longleftrightarrow> tv = 0"
definition tvismzero :: "TValue \<Rightarrow> bool" where "tvismzero tv \<longleftrightarrow> tv = 0x8000000000000000"
definition tvispone :: "TValue \<Rightarrow> bool" where "tvispone tv \<longleftrightarrow> tv = 0x3ff0000000000000"
definition rawnumequal :: "TValue \<Rightarrow> TValue \<Rightarrow> bool" where "rawnumequal a b \<longleftrightarrow> a = b"

definition itypemap :: "TValue \<Rightarrow> u32" where
  "itypemap tv = (if tvisnumber tv then NOT LJ_TNUMX
     else if tvislightud tv then NOT LJ_TLIGHTUD else NOT (itype tv))"

section \<open>Getters and setters\<close>

definition boolV :: "TValue \<Rightarrow> u32" where "boolV tv = LJ_TFALSE - itype tv"
definition lightudV :: "TValue \<Rightarrow> u64" where "lightudV tv = tv AND 0x00007fffffffffff"

text \<open>The 32 bit object reference \<open>gcr\<close> (\<open>gcval\<close>, \<open>strV\<close>, \<open>tabV\<close>, \dots read it at a type).\<close>

definition gcrV :: "TValue \<Rightarrow> u32" where "gcrV tv = tv_lo tv"

definition setitype :: "TValue \<Rightarrow> u32 \<Rightarrow> TValue" where "setitype tv i = mk_tv (tv_lo tv) i"
definition setnilV :: "TValue \<Rightarrow> TValue" where "setnilV tv = setitype tv LJ_TNIL"
definition setboolV :: "TValue \<Rightarrow> u32 \<Rightarrow> TValue" where
  "setboolV tv x = setitype tv (LJ_TFALSE - x)"
definition setlightudV :: "u64 \<Rightarrow> TValue" where
  "setlightudV p = p OR push_bit 48 0xffff"
definition setgcV :: "u32 \<Rightarrow> u32 \<Rightarrow> TValue" where "setgcV v it = mk_tv v it"
definition setstrV :: "u32 \<Rightarrow> TValue" where "setstrV v = setgcV v LJ_TSTR"
definition setthreadV :: "u32 \<Rightarrow> TValue" where "setthreadV v = setgcV v LJ_TTHREAD"
definition setprotoV :: "u32 \<Rightarrow> TValue" where "setprotoV v = setgcV v LJ_TPROTO"
definition setfuncV :: "u32 \<Rightarrow> TValue" where "setfuncV v = setgcV v LJ_TFUNC"
definition setcdataV :: "u32 \<Rightarrow> TValue" where "setcdataV v = setgcV v LJ_TCDATA"
definition settabV :: "u32 \<Rightarrow> TValue" where "settabV v = setgcV v LJ_TTAB"
definition setudataV :: "u32 \<Rightarrow> TValue" where "setudataV v = setgcV v LJ_TUDATA"
definition setnanV :: TValue where "setnanV = 0xfff8000000000000"
definition setpinfV :: TValue where "setpinfV = 0x7ff0000000000000"
definition setminfV :: TValue where "setminfV = 0xfff0000000000000"

section \<open>Doubles as bit patterns\<close>

text \<open>
  A pattern is a NaN when its exponent is all ones and its mantissa is not zero: without the sign
  it exceeds the pattern of infinity. \<open>num_eq\<close> is the C \<open>==\<close> on doubles.
\<close>

definition num_isnan :: "u64 \<Rightarrow> bool" where
  "num_isnan n \<longleftrightarrow> 0x7ff0000000000000 < n AND 0x7fffffffffffffff"

definition num_eq :: "u64 \<Rightarrow> u64 \<Rightarrow> bool" where
  "num_eq a b \<longleftrightarrow> \<not> num_isnan a \<and> \<not> num_isnan b \<and> (a = b \<or> tviszero a \<and> tviszero b)"

definition tvisnan :: "TValue \<Rightarrow> bool" where "tvisnan tv \<longleftrightarrow> \<not> num_eq tv tv"

text \<open>The position of the leading bit of a positive integer.\<close>

fun ilog2 :: "nat \<Rightarrow> nat" where
  "ilog2 n = (if n \<le> 1 then 0 else Suc (ilog2 (n div 2)))"

declare ilog2.simps [simp del]

text \<open>
  \<open>(lua_Number)i\<close> for a 32 bit integer is exact: sign, biased exponent and the bits below the
  leading one, moved to the top of the mantissa.
\<close>

definition num_of_int :: "int \<Rightarrow> u64" where
  "num_of_int i = (if i = 0 then 0 else
     let m = nat \<bar>i\<bar>; e = ilog2 m in
       (if i < 0 then 2 ^ 63 else 0) + of_nat (2 ^ 52 * (1023 + e) + (m - 2 ^ e) * 2 ^ (52 - e)))"

text \<open>
  \<open>(int32_t)n\<close>: truncation towards zero. Where C leaves the result open (NaN or out of range)
  the x64 instruction yields the integer indefinite value \<open>0x80000000\<close>.
\<close>

definition num_exp :: "u64 \<Rightarrow> nat" where "num_exp n = unat (drop_bit 52 n AND 0x7ff)"
definition num_mant :: "u64 \<Rightarrow> nat" where "num_mant n = unat (n AND mask 52)"
definition num_sign :: "u64 \<Rightarrow> bool" where "num_sign n \<longleftrightarrow> bit n 63"

definition lj_num2int :: "u64 \<Rightarrow> u32" where
  "lj_num2int n =
     (let e = num_exp n in
      if e < 1023 then 0
      else if 1023 + 31 \<le> e then 0x80000000
      else let m = (2 ^ 52 + num_mant n) div 2 ^ (52 - (e - 1023)) in
        if num_sign n then - of_nat m else of_nat m)"

section \<open>Raw equality\<close>

definition numberVnum :: "TValue \<Rightarrow> u64" where
  "numberVnum tv = (if tvisint tv then num_of_int (sint (tv_lo tv)) else tv)"

definition numberVint :: "TValue \<Rightarrow> u32" where
  "numberVint tv = (if tvisint tv then tv_lo tv else lj_num2int tv)"

definition setintV :: "u32 \<Rightarrow> TValue" where "setintV i = num_of_int (sint i)"

definition lj_obj_equal :: "TValue \<Rightarrow> TValue \<Rightarrow> bool" where
  "lj_obj_equal o1 o2 =
     (if itype o1 = itype o2 then
        if tvispri o1 then True
        else if \<not> tvisnum o1 then gcrV o1 = gcrV o2
        else num_eq (numberVnum o1) (numberVnum o2)
      else if \<not> tvisnumber o1 \<or> \<not> tvisnumber o2 then False
      else num_eq (numberVnum o1) (numberVnum o2))"

definition lj_obj_typename :: "string list" where
  "lj_obj_typename = [''no value'', ''nil'', ''boolean'', ''userdata'', ''number'', ''string'',
     ''table'', ''function'', ''userdata'', ''thread'', ''proto'', ''cdata'']"

definition lj_obj_itypename :: "string list" where
  "lj_obj_itypename = [''nil'', ''boolean'', ''boolean'', ''userdata'', ''string'', ''upval'',
     ''thread'', ''proto'', ''function'', ''trace'', ''cdata'', ''table'', ''userdata'',
     ''number'']"

definition lj_typename :: "TValue \<Rightarrow> string" where
  "lj_typename tv = lj_obj_itypename ! unat (itypemap tv)"

section \<open>Integers as doubles\<close>

lemma ilog2_bounds: "0 < n \<Longrightarrow> 2 ^ ilog2 n \<le> n \<and> n < 2 ^ Suc (ilog2 n)"
proof (induction n rule: ilog2.induct)
  case (1 n)
  show ?case
  proof (cases "n \<le> 1")
    case True
    with "1.prems" show ?thesis by (simp add: ilog2.simps [of n])
  next
    case False
    with "1.IH" have "2 ^ ilog2 (n div 2) \<le> n div 2" "n div 2 < 2 ^ Suc (ilog2 (n div 2))"
      by auto
    moreover have "n = 2 * (n div 2) + n mod 2" "n mod 2 < 2" by auto
    ultimately have "2 * 2 ^ ilog2 (n div 2) \<le> n" "n < 4 * 2 ^ ilog2 (n div 2)"
      by auto
    with False show ?thesis by (simp add: ilog2.simps [of n])
  qed
qed

lemma ilog2_lt: "0 < n \<Longrightarrow> n < 2 ^ k \<Longrightarrow> ilog2 n < k"
  using ilog2_bounds [of n] by (meson le_less_trans nat_power_less_imp_less zero_less_numeral)

lemma num_exp_alt: "num_exp n = (unat n div 2 ^ 52) mod 2 ^ 11"
proof -
  have "(drop_bit 52 n :: u64) AND 0x7ff = take_bit 11 (drop_bit 52 n)"
    by (simp add: take_bit_eq_mask mask_eq_exp_minus_1)
  then show ?thesis
    by (simp add: num_exp_def take_bit_eq_mod drop_bit_eq_div unat_mod_distrib unat_div_distrib)
qed

lemma num_mant_alt: "num_mant n = unat n mod 2 ^ 52"
  by (simp add: num_mant_def and_nat_mask take_bit_eq_mod unat_mod_distrib)

lemma num_sign_alt: "num_sign n \<longleftrightarrow> 2 ^ 63 \<le> unat n"
proof -
  have lt: "unat n < 2 ^ 64" by (rule unat_lt_64)
  have "num_sign n \<longleftrightarrow> odd (unat n div 2 ^ 63)"
    by (metis num_sign_def bit_iff_odd bit_unsigned_iff possible_bit_nat)
  also have "\<dots> \<longleftrightarrow> 2 ^ 63 \<le> unat n"
  proof -
    have "unat n div 2 ^ 63 < 2" using lt by (simp add: div_less_iff_less_mult)
    moreover have "unat n div 2 ^ 63 = 0 \<longleftrightarrow> unat n < 2 ^ 63" by (simp add: div_eq_0_iff)
    ultimately show ?thesis by (metis One_nat_def even_zero less_2_cases linorder_not_le odd_one)
  qed
  finally show ?thesis .
qed

text \<open>The fields of a converted 32 bit integer.\<close>

lemma num_of_int_fields:
  assumes "i \<noteq> 0" "\<bar>i\<bar> \<le> 2 ^ 31"
  defines "m \<equiv> nat \<bar>i\<bar>"
  defines "e \<equiv> ilog2 m"
  shows "num_exp (num_of_int i) = 1023 + e" (is ?E)
    and "num_mant (num_of_int i) = (m - 2 ^ e) * 2 ^ (52 - e)" (is ?M)
    and "num_sign (num_of_int i) \<longleftrightarrow> i < 0" (is ?S)
proof -
  have m0: "0 < m" and m31: "m \<le> 2 ^ 31" using assms(1,2) by (auto simp: m_def nat_le_iff)
  have b: "2 ^ e \<le> m" "m < 2 ^ Suc e" using ilog2_bounds [OF m0] by (auto simp: e_def)
  have e32: "e < 32" using ilog2_lt [OF m0, of 32] m31 by (simp add: e_def)
  let ?f = "(m - 2 ^ e) * 2 ^ (52 - e)"
  have "m - 2 ^ e < 2 ^ e" using b by simp
  then have f: "?f < 2 ^ 52"
  proof -
    have "(m - 2 ^ e) * 2 ^ (52 - e) < 2 ^ e * 2 ^ (52 - e)"
      using \<open>m - 2 ^ e < 2 ^ e\<close> by (simp add: mult_strict_right_mono)
    also have "\<dots> = (2::nat) ^ 52" using e32 by (simp flip: power_add)
    finally show ?thesis .
  qed
  let ?N = "2 ^ 52 * (1023 + e) + ?f"
  have N: "?N < 2 ^ 63" using f e32 by simp
  define s where "s = (if i < 0 then 2 ^ 63 else 0 :: nat)"
  have v: "num_of_int i = of_nat (s + ?N)"
    using assms(1) by (simp add: num_of_int_def Let_def s_def m_def e_def)
  have u: "unat (num_of_int i) = s + ?N"
    unfolding v by (rule unat_of_nat_small) (use N in \<open>auto simp: s_def\<close>)
  have d: "(s + ?N) div 2 ^ 52 = (if i < 0 then 2 ^ 11 else 0) + (1023 + e)"
    using f by (auto simp: s_def)
  have "(2 ^ 11 + (1023 + e)) mod 2 ^ 11 = 1023 + e"
    using e32 by (subst mod_add_self1) simp
  then show ?E unfolding num_exp_alt u d using e32 by auto
  have "s + ?N = 2 ^ 52 * ((if i < 0 then 2 ^ 11 else 0) + (1023 + e)) + ?f"
    by (simp add: s_def)
  then show ?M unfolding num_mant_alt u using f by (simp only: mod_mult_self4 mod_less)
  show ?S unfolding num_sign_alt u using N by (auto simp: s_def)
qed

lemma num_of_int_0 [simp]: "num_of_int 0 = 0"
  by (simp add: num_of_int_def)

lemma sint32_abs: "\<bar>sint (k :: u32)\<bar> \<le> 2 ^ 31"
  using sint_ge [of k] sint_lt [of k] by (auto simp: abs_le_iff)

lemma num2int_of_int [simp]: "lj_num2int (num_of_int (sint k)) = k"
proof (cases "k = 0")
  case True
  then show ?thesis by (simp add: lj_num2int_def num_exp_def)
next
  case False
  define m where "m = nat \<bar>sint k\<bar>"
  have nz: "sint k \<noteq> 0" using False by (simp add: signed_eq_0_iff)
  note F = num_of_int_fields [OF nz sint32_abs, folded m_def]
  have m0: "0 < m" and m31: "m \<le> 2 ^ 31"
    using nz sint32_abs [of k] by (auto simp: m_def nat_le_iff)
  have b: "2 ^ ilog2 m \<le> m" "m < 2 ^ Suc (ilog2 m)" using ilog2_bounds [OF m0] by auto
  show ?thesis
  proof (cases "m < 2 ^ 31")
    case True
    then have e: "ilog2 m < 31" using ilog2_lt [OF m0] by simp
    let ?e = "ilog2 m"
    have "(2 ^ 52 + (m - 2 ^ ?e) * 2 ^ (52 - ?e)) = m * 2 ^ (52 - ?e)"
    proof -
      have "(2::nat) ^ 52 = 2 ^ ?e * 2 ^ (52 - ?e)" using e by (simp flip: power_add)
      moreover have "2 ^ ?e * 2 ^ (52 - ?e) \<le> m * 2 ^ (52 - ?e)" using b by simp
      ultimately show ?thesis by (simp add: diff_mult_distrib)
    qed
    then have "lj_num2int (num_of_int (sint k)) = (if sint k < 0 then - of_nat m else of_nat m)"
      using e by (simp add: lj_num2int_def Let_def F)
    also have "\<dots> = of_int (sint k)"
      by (cases "sint k < 0") (simp_all add: m_def of_nat_nat)
    finally show ?thesis by simp
  next
    case False
    then have m: "m = 2 ^ 31" using m31 by simp
    have "\<not> ilog2 m < 31" using b(2) m by (metis Suc_leI linorder_not_less power_increasing_iff one_less_numeral_iff semiring_norm(76))
    then have c: "lj_num2int (num_of_int (sint k)) = 0x80000000"
      by (simp add: lj_num2int_def Let_def F)
    have "sint k = - (2 ^ 31)"
      using m sint_lt [of k] by (auto simp: m_def nat_eq_iff abs_if split: if_splits)
    moreover have "word_of_int (sint k) = k" by simp
    ultimately have "k = word_of_int (- (2 ^ 31))" by metis
    with c show ?thesis by simp
  qed
qed

lemma num_of_int_inject: "num_of_int (sint j) = num_of_int (sint k) \<longleftrightarrow> j = k" for j k :: u32
  by (metis num2int_of_int)

lemma num_isnan_alt: "num_isnan n \<longleftrightarrow> num_exp n = 2047 \<and> num_mant n \<noteq> 0"
proof -
  have "unat (n AND 0x7fffffffffffffff) = unat n mod 2 ^ 63"
  proof -
    have "n AND 0x7fffffffffffffff = take_bit 63 n"
      by (simp add: take_bit_eq_mask mask_eq_exp_minus_1)
    then show ?thesis by (simp add: take_bit_eq_mod unat_mod_distrib)
  qed
  then have "num_isnan n \<longleftrightarrow> 2 ^ 52 * 2047 < unat n mod 2 ^ 63"
    by (simp add: num_isnan_def word_less_nat_alt)
  also have "unat n mod 2 ^ 63 = 2 ^ 52 * num_exp n + num_mant n"
    unfolding num_exp_alt num_mant_alt by (simp flip: mod_mult2_eq)
  also have "2 ^ 52 * 2047 < 2 ^ 52 * num_exp n + num_mant n \<longleftrightarrow> num_exp n = 2047 \<and> num_mant n \<noteq> 0"
  proof -
    have "num_exp n \<le> 2047" "num_mant n < 2 ^ 52" by (auto simp: num_exp_alt num_mant_alt)
    then show ?thesis by (cases "num_exp n = 2047") auto
  qed
  finally show ?thesis .
qed

lemma num_of_int_not_nan [simp]: "\<not> num_isnan (num_of_int (sint (k :: u32)))"
proof (cases "k = 0")
  case True
  then show ?thesis by (simp add: num_isnan_def)
next
  case False
  then have nz: "sint k \<noteq> 0" by (simp add: signed_eq_0_iff)
  have "ilog2 (nat \<bar>sint k\<bar>) < 32"
    using ilog2_lt [of "nat \<bar>sint k\<bar>" 32] nz sint32_abs [of k] by (auto simp: nat_less_iff)
  then show ?thesis
    by (simp add: num_isnan_alt num_of_int_fields(1) [OF nz sint32_abs])
qed

lemma tviszero_iff: "tviszero v \<longleftrightarrow> v = 0 \<or> v = 0x8000000000000000"
proof
  assume "tviszero v"
  then have z: "bit (push_bit 1 v) (Suc n) = False" for n by (simp add: tviszero_def)
  have b: "\<not> bit v n" if "n < 63" for n
    using z [of n] that by (simp add: bit_push_bit_iff del: push_bit_Suc push_bit_numeral)
  show "v = 0 \<or> v = 0x8000000000000000"
  proof (cases "bit v 63")
    case True
    have "v = 0x8000000000000000" by (rule word64_eqI) (simp add: b True)
    then show ?thesis by simp
  next
    case False
    have "v = 0" by (rule word64_eqI) (simp add: b False)
    then show ?thesis by simp
  qed
next
  show "v = 0 \<or> v = 0x8000000000000000 \<Longrightarrow> tviszero v" by (auto simp: tviszero_def)
qed

lemma unat_tv_hi: "unat (tv_hi v) = unat v div 2 ^ 32"
proof -
  have "unat v div 2 ^ 32 < 2 ^ 32" using unat_lt_64 [of v] by (simp add: div_less_iff_less_mult)
  then show ?thesis
    by (simp add: tv_hi_def unsigned_ucast_eq drop_bit_eq_div unat_div_distrib take_bit_nat_eq_self)
qed

lemma unat_num_split:
  "unat n = (if num_sign n then 2 ^ 63 else 0) + 2 ^ 52 * num_exp n + num_mant n"
proof -
  have n: "unat n = 2 ^ 63 * (unat n div 2 ^ 63) + unat n mod 2 ^ 63"
    by (metis mult_div_mod_eq)
  have q: "unat n div 2 ^ 63 = (if num_sign n then 1 else 0)"
    using unat_lt_64 [of n] by (auto simp: num_sign_alt div_nat_eqI)
  have r: "unat n mod 2 ^ 63 = 2 ^ 52 * num_exp n + num_mant n"
    unfolding num_exp_alt num_mant_alt by (simp flip: mod_mult2_eq)
  show ?thesis by (subst n, simp only: q r) simp
qed

text \<open>Every pattern that is not a NaN is a number for the type tests.\<close>

lemma tvisnum_not_nan: "\<not> num_isnan n \<Longrightarrow> tvisnum n"
proof -
  assume "\<not> num_isnan n"
  then have "num_exp n < 2047 \<or> num_mant n = 0"
    by (auto simp: num_isnan_alt num_exp_alt)
  moreover have "num_mant n < 2 ^ 52" "num_exp n \<le> 2047" by (auto simp: num_mant_alt num_exp_alt)
  ultimately have "unat n \<le> 2 ^ 63 + 2 ^ 52 * 2047"
    by (subst unat_num_split) (cases "num_exp n = 2047", auto)
  then have "unat (tv_hi n) \<le> (2 ^ 63 + 2 ^ 52 * 2047) div 2 ^ 32"
    unfolding unat_tv_hi by (rule div_le_mono)
  then show ?thesis
    by (simp add: tvisnum_def itype_def LJ_TISNUM_def word_less_nat_alt)
qed

lemma tvisnum_of_int [simp]: "tvisnum (num_of_int (sint (k :: u32)))"
  by (simp add: tvisnum_not_nan)

text \<open>
  The canonical pattern of a value: the primitive types ignore the low half, the two zeros
  are one value.
\<close>

definition tv_canon :: "TValue \<Rightarrow> TValue" where
  "tv_canon v = (if tvispri v then mk_tv 0 (itype v)
     else if tvisnum v \<and> tviszero v then 0 else v)"

definition tv_proper :: "TValue \<Rightarrow> bool" where
  "tv_proper v \<longleftrightarrow> itype v \<noteq> LJ_TISNUM \<and> (tvisnum v \<longrightarrow> \<not> num_isnan v)"

lemma num_not_pri: "tvisnum v \<Longrightarrow> \<not> tvispri v"
  by (simp add: tvisnum_def tvispri_def tag_defs word_less_nat_alt word_le_nat_alt)

lemma tvispri_cases: "tvispri v \<longleftrightarrow> tvisnil v \<or> tvisbool v"
proof -
  have "0xfffffffd \<le> unat w \<longleftrightarrow> w = 0xffffffff \<or> w = 0xfffffffe \<or> w = 0xfffffffd" for w :: u32
  proof -
    have "unat w < 0x100000000" using unat_lt_32 [of w] by simp
    then have "0xfffffffd \<le> unat w \<longleftrightarrow>
        unat w = 0xffffffff \<or> unat w = 0xfffffffe \<or> unat w = 0xfffffffd" by linarith
    also have "\<dots> \<longleftrightarrow> w = 0xffffffff \<or> w = 0xfffffffe \<or> w = 0xfffffffd"
      by (simp add: word_unat_eq_iff)
    finally show ?thesis .
  qed
  note top = this [of "itype v"]
  have "LJ_TISPRI \<le> itype v \<longleftrightarrow> 0xfffffffd \<le> unat (itype v)"
    by (simp add: tag_defs word_le_nat_alt)
  moreover have "LJ_TNIL = 0xffffffff" "LJ_TFALSE = 0xfffffffe" "LJ_TTRUE = 0xfffffffd"
    by (simp_all add: tag_defs)
  ultimately show ?thesis
    unfolding tvispri_def tvisnil_def tvisbool_def tvisfalse_def tvistrue_def
    using top by metis
qed

lemma zero_num [simp]: "tvisnum 0" "tviszero 0" "\<not> num_isnan 0" "itype 0 = 0"
  by (simp_all add: tvisnum_def itype_def tv_hi_def LJ_TISNUM_def tviszero_def num_isnan_def)

lemma lj_obj_equal_canon:
  assumes "tv_proper a" "tv_proper b"
  shows "lj_obj_equal a b \<longleftrightarrow> tv_canon a = tv_canon b"
proof (cases "tvisnum a \<and> tvisnum b")
  case True
  then have "lj_obj_equal a b \<longleftrightarrow> num_eq a b"
    by (auto simp: lj_obj_equal_def numberVnum_def tvisint_def num_not_pri tvisnumber_def tvisnum_def)
  also have "\<dots> \<longleftrightarrow> tv_canon a = tv_canon b"
    using True assms by (auto simp: num_eq_def tv_proper_def tv_canon_def num_not_pri)
  finally show ?thesis .
next
  case False
  have ne: "tv_canon a \<noteq> tv_canon b" if "itype a \<noteq> itype b"
  proof -
    have i: "itype (tv_canon v) = itype v \<or> tvisnum v \<and> tvisnum (tv_canon v)" for v
      by (auto simp: tv_canon_def itype_def)
    have n: "tvisnum (tv_canon v) \<Longrightarrow> tvisnum v" for v
      by (auto simp: tv_canon_def itype_def tvisnum_def split: if_splits)
    show ?thesis using False that i [of a] i [of b] n [of a] n [of b] by metis
  qed
  have num: "tvisnumber v \<longleftrightarrow> tvisnum v" if "tv_proper v" for v
    using that by (auto simp: tv_proper_def tvisnumber_def tvisnum_def)
  have same: "tvisnum a = tvisnum b" "tvispri a = tvispri b" if "itype a = itype b"
    using that by (simp_all add: tvisnum_def tvispri_def)
  show ?thesis
    using False ne same num [OF assms(1)] num [OF assms(2)]
    by (auto simp: lj_obj_equal_def tv_canon_def gcrV_def tv_eq_iff itype_def [symmetric])
qed

lemma lightud_itype:
  assumes "p < 2 ^ 47"
  shows "signed_drop_bit 15 (itype (setlightudV p)) = - 2"
proof -
  have b: "\<not> bit p k" if "47 \<le> k" for k
    using bit_lt_bound [OF assms, of k] that by auto
  show ?thesis
    by (rule word32_eqI)
      (simp add: itype_def tv_hi_def setlightudV_def bit_simps b)
qed

lemma lightudV_set:
  assumes "p < 2 ^ 47"
  shows "lightudV (setlightudV p) = p"
proof -
  have b: "\<not> bit p k" if "47 \<le> k" for k
    using bit_lt_bound [OF assms, of k] that by auto
  have m: "(0x00007fffffffffff :: u64) = mask 47" by (simp add: mask_eq_exp_minus_1)
  show ?thesis
    unfolding lightudV_def setlightudV_def m
    by (rule word64_eqI) (simp add: bit_simps b)
qed

lemma itype_setgcV [simp]: "itype (setgcV v t) = t"
  by (simp add: setgcV_def itype_def)

lemmas setgc_defs = setstrV_def setthreadV_def setprotoV_def setfuncV_def setcdataV_def
  settabV_def setudataV_def

lemmas tvis_defs = tvisnil_def tvisfalse_def tvistrue_def tvisbool_def tvislightud_def tvisstr_def
  tvisfunc_def tvisthread_def tvisproto_def tviscdata_def tvistab_def tvisudata_def
  tvisnumber_def tvisnum_def tvispri_def tvisgcv_def tvistabud_def tvistruecond_def

section \<open>Properties\<close>

text \<open>
  C37: Integers and numbers agree: a 32 bit integer stored as a number value
  is a number to every type test, converts back to exactly the same integer, and two such
  values are equal as doubles just when the integers are equal.
\<close>

theorem setint_roundtrip:
  "tvisnum (setintV k) \<and> tvisnumber (setintV k) \<and> numberVint (setintV k) = k
    \<and> (num_eq (setintV j) (setintV k) \<longleftrightarrow> j = k)"
proof -
  have "num_eq (setintV j) (setintV k) \<longleftrightarrow> j = k"
  proof
    assume "num_eq (setintV j) (setintV k)"
    then have "setintV j = setintV k \<or> tviszero (setintV j) \<and> tviszero (setintV k)"
      by (simp add: num_eq_def)
    moreover have "lj_num2int v = 0" if "tviszero v" for v
      using that by (auto simp: tviszero_iff lj_num2int_def num_exp_def)
    ultimately show "j = k" by (metis num2int_of_int setintV_def)
  qed (simp add: num_eq_def setintV_def)
  moreover have "tvisnumber (setintV k)"
    using tvisnum_of_int [of k] by (simp add: setintV_def tvisnum_def tvisnumber_def)
  ultimately show ?thesis
    by (simp add: numberVint_def tvisint_def setintV_def)
qed

text \<open>
  C36: Raw equality of two values that are not NaN is equality of their canonical
  patterns: the low half of nil and the booleans is ignored, the two zeros are equal, and every
  other value equals only itself. In particular raw equality is an equivalence relation.
\<close>

theorem obj_equal_classes:
  assumes "tv_proper a" "tv_proper b"
  shows "lj_obj_equal a b \<longleftrightarrow> tv_canon a = tv_canon b"
  using assms by (rule lj_obj_equal_canon)

theorem obj_equal_classes_witness:
  "lj_obj_equal 0 0x8000000000000000 \<longleftrightarrow> tv_canon 0 = tv_canon 0x8000000000000000"
  by (rule obj_equal_classes)
    (simp_all add: tv_proper_def tvisnum_def itype_def tv_hi_def LJ_TISNUM_def num_isnan_def)


text \<open>
  A light userdata pointer below \<open>2 ^ 47\<close> survives tagging, and the tagged
  value is a light userdata and neither a number nor a collectable.
\<close>

theorem lightud_roundtrip:
  assumes "p < 2 ^ 47"
  shows "lightudV (setlightudV p) = p \<and> tvislightud (setlightudV p)
    \<and> \<not> tvisnumber (setlightudV p) \<and> \<not> tvispri (setlightudV p)"
proof -
  let ?t = "itype (setlightudV p)"
  have "drop_bit 15 (sint ?t) = - 2"
    using arg_cong [OF lightud_itype [OF assms], of sint] by (simp add: sint_signed_drop_bit_eq)
  then have r: "- 65536 \<le> sint ?t" "sint ?t < - 32768"
    by (simp_all add: drop_bit_eq_div)
  have "uint ?t = sint ?t mod 2 ^ 32" by (simp add: uint_sint take_bit_eq_mod)
  also have "\<dots> = sint ?t + 2 ^ 32"
    using r by (subst mod_add_self2 [symmetric], subst mod_pos_pos_trivial) auto
  finally have "uint ?t = sint ?t + 2 ^ 32" .
  with r show ?thesis
    using lightudV_set [OF assms] lightud_itype [OF assms]
    by (simp add: tvislightud_def tvisnumber_def tvispri_def tag_defs word_le_def)
qed

theorem lightud_roundtrip_witness:
  "lightudV (setlightudV 0x7f0012345678) = 0x7f0012345678 \<and> tvislightud (setlightudV 0x7f0012345678)
    \<and> \<not> tvisnumber (setlightudV 0x7f0012345678) \<and> \<not> tvispri (setlightudV 0x7f0012345678)"
  by (rule lightud_roundtrip) simp

end
