(* ===== verification/LJ_Str.thy ===== *)
theory LJ_Str
  imports LJ_Obj
begin

text \<open>
  String objects, their comparison and interning, and the string buffers (\<open>lj_str.c\<close>,
  \<open>lj_str.h\<close>). A \<open>GCstr\<close> is its header and the memory that follows it: the payload is the first
  \<open>len\<close> bytes, what lies beyond is arbitrary, and the word-wise comparisons do read up to three
  bytes of it. The global string table holds, for each bucket, the chain of string addresses from
  its anchor; the objects live in a store indexed by 32 bit addresses.
\<close>

section \<open>String objects\<close>

record GCstr =
  str_marked :: u8
  str_reserved :: u8
  str_hash :: u32
  str_len :: u32
  strdata :: "nat \<Rightarrow> u8"

text \<open>The payload of a string object, and the bytes at an address of memory.\<close>

definition mem_bytes :: "(nat \<Rightarrow> u8) \<Rightarrow> nat \<Rightarrow> bytes" where
  "mem_bytes m n = map m [0..<n]"

definition str_bytes :: "GCstr \<Rightarrow> bytes" where
  "str_bytes s = mem_bytes (strdata s) (unat (str_len s))"

definition sizeof_GCstr :: u32 where "sizeof_GCstr = 16"

definition sizestring :: "GCstr \<Rightarrow> u32" where
  "sizestring s = sizeof_GCstr + str_len s + 1"

section \<open>Word-wise comparison\<close>

text \<open>
  The loop of \<open>lj_str_cmp\<close> from offset \<open>i\<close>: a differing word is compared in big-endian order,
  after the bytes beyond the shorter string are shifted out.
\<close>

function str_cmp_loop :: "(nat \<Rightarrow> u8) \<Rightarrow> (nat \<Rightarrow> u8) \<Rightarrow> u32 \<Rightarrow> nat \<Rightarrow> int option" where
  "str_cmp_loop a b n i =
     (if i < unat n then
        let va = lj_getu32 a i; vb = lj_getu32 b i in
        if va \<noteq> vb then
          let va = lj_bswap va; vb = lj_bswap vb; k = of_nat i - n in
          if - 3 \<le> sint k then
            let va = drop_bit (unat (32 + push_bit 3 k)) va;
                vb = drop_bit (unat (32 + push_bit 3 k)) vb in
            if va = vb then None else Some (if va < vb then - 1 else 1)
          else Some (if va < vb then - 1 else 1)
        else str_cmp_loop a b n (i + 4)
      else None)"
  by pat_completeness auto
termination
  by (relation "measure (\<lambda>(a, b, n, i). unat n - i)") auto

declare str_cmp_loop.simps [simp del]

definition lj_str_cmp :: "GCstr \<Rightarrow> GCstr \<Rightarrow> int" where
  "lj_str_cmp a b =
     (let n = (if str_len b < str_len a then str_len b else str_len a) in
      case str_cmp_loop (strdata a) (strdata b) n 0 of
        Some r \<Rightarrow> r
      | None \<Rightarrow> sint (str_len a - str_len b))"

text \<open>\<open>str_fastcmp\<close> on a little-endian host; the loop body runs at least once.\<close>

function str_fastcmp_loop :: "(nat \<Rightarrow> u8) \<Rightarrow> (nat \<Rightarrow> u8) \<Rightarrow> u32 \<Rightarrow> nat \<Rightarrow> u32" where
  "str_fastcmp_loop a b len i =
     (let v = lj_getu32 a i XOR lj_getu32 b i in
      if v \<noteq> 0 then
        let k = of_nat i - len in
        if - 3 \<le> sint k then push_bit (unat (32 + push_bit 3 k)) v else 1
      else if i + 4 < unat len then str_fastcmp_loop a b len (i + 4)
      else 0)"
  by pat_completeness auto
termination
  by (relation "measure (\<lambda>(a, b, n, i). unat n - i)") auto

declare str_fastcmp_loop.simps [simp del]

definition str_fastcmp :: "(nat \<Rightarrow> u8) \<Rightarrow> (nat \<Rightarrow> u8) \<Rightarrow> u32 \<Rightarrow> u32" where
  "str_fastcmp a b len = str_fastcmp_loop a b len 0"

text \<open>The reference order: byte-wise, shorter first.\<close>

fun bytes_cmp :: "bytes \<Rightarrow> bytes \<Rightarrow> int" where
  "bytes_cmp [] [] = 0"
| "bytes_cmp [] (y # ys) = - 1"
| "bytes_cmp (x # xs) [] = 1"
| "bytes_cmp (x # xs) (y # ys) =
     (if x < y then - 1 else if y < x then 1 else bytes_cmp xs ys)"

subsection \<open>Loads as byte lists\<close>

lemma getu32_bit:
  "bit (lj_getu32 m p) k \<longleftrightarrow> k < 32 \<and> bit (m (p + k div 8)) (k mod 8)"
proof (cases "k < 32")
  case True
  have d: "k div 8 = 0 \<or> k div 8 = 1 \<or> k div 8 = 2 \<or> k div 8 = 3" using True by auto
  have e: "k = 8 * (k div 8) + k mod 8" and r: "k mod 8 < 8" by auto
  have len: "\<not> bit (w :: u8) j" if "8 \<le> j" for w j using that by (auto dest: bit_imp_le_length)
  from d show ?thesis
    by (elim disjE; subst e) (use r len in \<open>auto simp: lj_getu32_def bit_simps\<close>)
next
  case False
  then show ?thesis by (auto dest: bit_imp_le_length)
qed

lemma byte_index: "j < 4 \<Longrightarrow> k < 8 \<Longrightarrow> (8 * j + k) div 8 = j \<and> (8 * j + k) mod 8 = k" for j k :: nat
  by simp

text \<open>Two loads agree on the low \<open>8 * r\<close> bits just when the first \<open>r\<close> bytes agree.\<close>

lemma getu32_low_bits:
  assumes "r \<le> 4"
  shows "(\<forall>k < 8 * r. bit (lj_getu32 a p) k = bit (lj_getu32 b p) k)
    \<longleftrightarrow> (\<forall>j < r. a (p + j) = b (p + j))"
proof
  assume L: "\<forall>k < 8 * r. bit (lj_getu32 a p) k = bit (lj_getu32 b p) k"
  show "\<forall>j < r. a (p + j) = b (p + j)"
  proof (intro allI impI)
    fix j assume j: "j < r"
    show "a (p + j) = b (p + j)"
    proof (rule bit_word_eqI)
      fix k assume "k < LENGTH(8)"
      then have k: "k < 8" by simp
      have "8 * j + k < 8 * r" using j k by simp
      with L have "bit (lj_getu32 a p) (8 * j + k) = bit (lj_getu32 b p) (8 * j + k)" by blast
      then show "bit (a (p + j)) k = bit (b (p + j)) k"
        using assms j k by (simp add: getu32_bit)
    qed
  qed
next
  assume R: "\<forall>j < r. a (p + j) = b (p + j)"
  have "a (p + k div 8) = b (p + k div 8)" if "k < 8 * r" for k
    using R that by (simp add: less_mult_imp_div_less mult.commute)
  then show "\<forall>k < 8 * r. bit (lj_getu32 a p) k = bit (lj_getu32 b p) k"
    by (simp add: getu32_bit)
qed

lemma getu32_eq_iff: "lj_getu32 a p = lj_getu32 b p \<longleftrightarrow> (\<forall>j < 4. a (p + j) = b (p + j))"
proof -
  have "lj_getu32 a p = lj_getu32 b p
      \<longleftrightarrow> (\<forall>k < 8 * 4. bit (lj_getu32 a p) k = bit (lj_getu32 b p) k)"
    by (auto intro!: bit_word_eqI)
  then show ?thesis using getu32_low_bits [of 4 a p b] by simp
qed

lemma push_bit_zero_iff:
  fixes v :: u32 assumes "m \<le> 32"
  shows "push_bit (32 - m) v = 0 \<longleftrightarrow> (\<forall>k < m. \<not> bit v k)"
proof
  assume z: "push_bit (32 - m) v = 0"
  show "\<forall>k < m. \<not> bit v k"
  proof (intro allI impI)
    fix k assume k: "k < m"
    have "\<not> bit (push_bit (32 - m) v) (32 - m + k)" using z by simp
    then show "\<not> bit v k" using k assms by (simp add: bit_push_bit_iff del: push_bit_numeral)
  qed
next
  assume "\<forall>k < m. \<not> bit v k"
  then show "push_bit (32 - m) v = 0"
    by (intro bit_word_eqI) (auto simp: bit_push_bit_iff)
qed

lemma tail_shift:
  fixes len :: u32
  assumes "i < unat len" "unat len < 2 ^ 31"
  shows "- 3 \<le> sint (of_nat i - len) \<longleftrightarrow> unat len - i \<le> 3"
    and "unat len - i \<le> 3 \<Longrightarrow> unat (32 + push_bit 3 (of_nat i - len)) = 32 - 8 * (unat len - i)"
proof -
  define r where "r = unat len - i"
  have r: "0 < r" "r < 2 ^ 31" "i = unat len - r" "r \<le> unat len" using assms by (auto simp: r_def)
  have k: "of_nat i - len = - (of_nat r :: u32)"
    unfolding r(3) using r(4) by (simp add: of_nat_diff)
  have s: "sint (- (of_nat r :: u32)) = - int r"
    using r(1,2) by (simp add: sint_word_ariths signed_take_bit_int_eq_self unsigned_of_nat
        signed_of_nat take_bit_int_eq_self)
  show "- 3 \<le> sint (of_nat i - len) \<longleftrightarrow> unat len - i \<le> 3"
    unfolding k s using r_def by auto
  assume "unat len - i \<le> 3"
  then have "r = 1 \<or> r = 2 \<or> r = 3" using r(1) by (auto simp: r_def)
  then show "unat (32 + push_bit 3 (of_nat i - len)) = 32 - 8 * (unat len - i)"
    unfolding k r_def [symmetric] by (auto simp: mask_eq_exp_minus_1)
qed

subsection \<open>The fast equality test\<close>

lemma str_fastcmp_loop_eq:
  assumes "unat len < 2 ^ 31" "i < unat len" "\<forall>j < i. a j = b j"
  shows "str_fastcmp_loop a b len i = 0 \<longleftrightarrow> (\<forall>j < unat len. a j = b j)"
  using assms
proof (induction a b len i rule: str_fastcmp_loop.induct)
  case (1 a b len i)
  let ?v = "lj_getu32 a i XOR lj_getu32 b i"
  have v: "?v = 0 \<longleftrightarrow> (\<forall>j < 4. a (i + j) = b (i + j))"
    by (simp add: getu32_eq_iff xor_zero_iff)
  show ?case
  proof (cases "?v = 0")
    case True
    then have e4: "\<forall>j < i + 4. a j = b j"
      using v "1.prems"(3) by (metis add_less_cancel_left le_add_diff_inverse not_less)
    show ?thesis
      using "1.IH" [OF refl] True e4 "1.prems"
      by (cases "i + 4 < unat len") (auto simp: str_fastcmp_loop.simps [of a b len i])
  next
    case False
    then obtain j where j: "j < 4" "a (i + j) \<noteq> b (i + j)" using v by auto
    note t = tail_shift [OF "1.prems"(2,1)]
    show ?thesis
    proof (cases "unat len - i \<le> 3")
      case True
      let ?r = "unat len - i"
      have "str_fastcmp_loop a b len i = push_bit (32 - 8 * ?r) ?v"
        using False True t by (simp add: str_fastcmp_loop.simps [of a b len i] Let_def)
      then have "str_fastcmp_loop a b len i = 0 \<longleftrightarrow> (\<forall>k < 8 * ?r. \<not> bit ?v k)"
        using True by (simp only: push_bit_zero_iff [of "8 * ?r" ?v])
      also have "\<dots> \<longleftrightarrow> (\<forall>j < ?r. a (i + j) = b (i + j))"
        using getu32_low_bits [of ?r a i b] True by (simp add: bit_xor_iff)
      also have "\<dots> \<longleftrightarrow> (\<forall>j < unat len. a j = b j)"
        using "1.prems"(3) by (metis add_diff_inverse_nat less_diff_conv add.commute)
      finally show ?thesis .
    next
      case far: False
      have "str_fastcmp_loop a b len i = 1"
        using False far t by (simp add: str_fastcmp_loop.simps [of a b len i] Let_def)
      moreover have "i + j < unat len" using far j(1) by simp
      ultimately show ?thesis using j(2) by auto
    qed
  qed
qed

lemma str_fastcmp_eq:
  assumes "0 < unat len" "unat len < 2 ^ 31"
  shows "str_fastcmp a b len = 0 \<longleftrightarrow> mem_bytes a (unat len) = mem_bytes b (unat len)"
  using str_fastcmp_loop_eq [of len 0 a b] assms by (auto simp: str_fastcmp_def mem_bytes_def)

subsection \<open>The ordered comparison\<close>

text \<open>The first \<open>r\<close> bytes at \<open>p\<close> as a big-endian number.\<close>

fun be_val :: "(nat \<Rightarrow> u8) \<Rightarrow> nat \<Rightarrow> nat \<Rightarrow> nat" where
  "be_val m p 0 = 0"
| "be_val m p (Suc r) = 256 * be_val m p r + unat (m (p + r))"

lemma bit_256_add:
  fixes x y :: nat
  assumes "y < 256"
  shows "bit (256 * x + y) k \<longleftrightarrow> (if k < 8 then bit y k else bit x (k - 8))"
proof (cases "k < 8")
  case True
  have p: "(256 :: nat) = 2 ^ k * 2 ^ (8 - k)" using True by (simp flip: power_add)
  have "(256 * x + y) div 2 ^ k = 2 ^ (8 - k) * x + y div 2 ^ k"
    unfolding p by (simp add: mult.assoc)
  moreover have "even (2 ^ (8 - k) * x)" using True by simp
  ultimately show ?thesis using True by (simp add: bit_iff_odd)
next
  case False
  then have "(2 :: nat) ^ k = 2 ^ 8 * 2 ^ (k - 8)" by (simp only: power_add [symmetric]) simp
  then have "(256 * x + y) div 2 ^ k = (256 * x + y) div 2 ^ 8 div 2 ^ (k - 8)"
    by (simp only: div_mult2_eq)
  also have "\<dots> = x div 2 ^ (k - 8)" using assms by simp
  finally show ?thesis using False by (simp add: bit_iff_odd)
qed

lemma be_val_bit:
  "bit (be_val m p r) k \<longleftrightarrow> k < 8 * r \<and> bit (m (p + (r - 1 - k div 8))) (k mod 8)"
proof (induction r arbitrary: k)
  case 0
  then show ?case by simp
next
  case (Suc r)
  have y: "unat (m (p + r)) < 256" using unsigned_less [of "m (p + r)", where ?'a = nat] by simp
  show ?case
  proof (cases "k < 8")
    case True
    then show ?thesis by (simp add: bit_256_add [OF y] bit_unsigned_iff)
  next
    case False
    then have "k div 8 = Suc ((k - 8) div 8)" "k mod 8 = (k - 8) mod 8"
      by (simp_all add: le_div_geq le_mod_geq)
    with False show ?thesis
      by (auto simp: bit_256_add [OF y] Suc.IH)
  qed
qed

lemma bswap_bit: "k < 32 \<Longrightarrow> bit (lj_bswap x) k \<longleftrightarrow> bit x (8 * (3 - k div 8) + k mod 8)"
proof -
  assume "k < 32"
  then have "k \<in> set [0..<32]" by simp
  moreover have "list_all (\<lambda>k. bit (lj_bswap x) k = bit x (8 * (3 - k div 8) + k mod 8)) [0..<32]"
    by (simp add: upt_32 lj_bswap_def bit_simps wbits) (simp add: numeral_2_eq_2)
  ultimately show ?thesis unfolding list_all_iff by blast
qed

lemma bswap_prefix:
  assumes "r \<le> 4"
  shows "unat (drop_bit (32 - 8 * r) (lj_bswap (lj_getu32 m p))) = be_val m p r"
proof (rule bit_eqI)
  fix k
  show "bit (unat (drop_bit (32 - 8 * r) (lj_bswap (lj_getu32 m p)))) k \<longleftrightarrow> bit (be_val m p r) k"
  proof (cases "k < 8 * r")
    case True
    let ?j = "32 - 8 * r + k"
    have j: "?j < 32" using True assms by simp
    have e: "?j = 8 * (4 - r) + k" using assms by simp
    have d: "?j div 8 = 4 - r + k div 8" "?j mod 8 = k mod 8" unfolding e by simp_all
    have q: "k div 8 < r" using True by (simp add: less_mult_imp_div_less mult.commute)
    have i: "3 - ?j div 8 = r - 1 - k div 8" using d q assms by simp
    have "bit (lj_bswap (lj_getu32 m p)) ?j \<longleftrightarrow> bit (m (p + (r - 1 - k div 8))) (k mod 8)"
      unfolding bswap_bit [OF j] i d(2) getu32_bit using assms q by auto
    then show ?thesis
      using True by (simp add: bit_unsigned_iff bit_drop_bit_eq be_val_bit)
  next
    case False
    then have "32 \<le> 32 - 8 * r + k" using assms by simp
    then have "\<not> bit (lj_bswap (lj_getu32 m p)) (32 - 8 * r + k)"
      by (auto dest: bit_imp_le_length)
    then show ?thesis using False by (simp add: bit_unsigned_iff bit_drop_bit_eq be_val_bit)
  qed
qed

lemma be_val_bound: "be_val m p r < 256 ^ r"
proof (induction r)
  case (Suc r)
  have "unat (m (p + r)) < 256" using unsigned_less [of "m (p + r)", where ?'a = nat] by simp
  with Suc show ?case by simp
qed simp

lemma bytes_cmp_snoc:
  "length xs = length ys \<Longrightarrow> bytes_cmp (xs @ us) (ys @ vs) =
     (if bytes_cmp xs ys = 0 then bytes_cmp us vs else bytes_cmp xs ys)"
  by (induction xs ys rule: list_induct2) auto

lemma bytes_cmp_0: "bytes_cmp xs ys = 0 \<longleftrightarrow> xs = ys"
  by (induction xs ys rule: bytes_cmp.induct) auto

lemma be_val_cmp:
  "bytes_cmp (map (\<lambda>j. a (p + j)) [0..<r]) (map (\<lambda>j. b (p + j)) [0..<r]) =
     (if be_val a p r < be_val b p r then - 1 else if be_val b p r < be_val a p r then 1 else 0)"
proof (induction r)
  case 0
  then show ?case by simp
next
  case (Suc r)
  have "unat (a (p + r)) < 256" "unat (b (p + r)) < 256"
    using unsigned_less [of "a (p + r)", where ?'a = nat] unsigned_less [of "b (p + r)", where ?'a = nat]
    by simp_all
  moreover have "a (p + r) < b (p + r) \<longleftrightarrow> unat (a (p + r)) < unat (b (p + r))"
    "b (p + r) < a (p + r) \<longleftrightarrow> unat (b (p + r)) < unat (a (p + r))"
    by (simp_all add: word_less_nat_alt)
  ultimately show ?case
    by (cases "be_val a p r" "be_val b p r" rule: linorder_cases)
      (auto simp: Suc.IH bytes_cmp_snoc)
qed

lemma str_cmp_loop_spec:
  assumes "unat n < 2 ^ 31" "\<forall>j < i. a j = b j"
  shows "str_cmp_loop a b n i =
    (let c = bytes_cmp (mem_bytes a (unat n)) (mem_bytes b (unat n)) in if c = 0 then None else Some c)"
  using assms
proof (induction a b n i rule: str_cmp_loop.induct)
  case (1 a b n i)
  let ?N = "unat n" and ?va = "lj_getu32 a i" and ?vb = "lj_getu32 b i"
  show ?case
  proof (cases "i < ?N")
    case False
    then have "mem_bytes a ?N = mem_bytes b ?N" using "1.prems"(2) by (auto simp: mem_bytes_def)
    with False show ?thesis by (simp add: str_cmp_loop.simps [of a b n i] bytes_cmp_0)
  next
    case True
    show ?thesis
    proof (cases "?va = ?vb")
      case eq: True
      then have "\<forall>j < i + 4. a j = b j"
        using "1.prems"(2) unfolding getu32_eq_iff
        by (metis add_less_cancel_left le_add_diff_inverse not_less)
      with "1.IH" [OF True refl refl] eq "1.prems"(1)
      show ?thesis using True by (simp add: str_cmp_loop.simps [of a b n i] Let_def)
    next
      case ne: False
      define r where "r = min 4 (?N - i)"
      have r: "0 < r" "r \<le> 4" "i + r \<le> ?N" using True by (auto simp: r_def)
      define A where "A m = map (\<lambda>j. m (i + j)) [0..<r]" for m :: "nat \<Rightarrow> u8"
      have split: "mem_bytes m ?N = map m [0..<i] @ A m @ map m [i + r..<?N]" for m
        using True r upt_split [of 0 i ?N] upt_split [of i "i + r" ?N]
        by (simp add: mem_bytes_def map_upt_shift A_def)
      have pre: "map a [0..<i] = map b [0..<i]" using "1.prems"(2) by auto
      define c where "c = bytes_cmp (A a) (A b)"
      define sa where "sa = drop_bit (32 - 8 * r) (lj_bswap ?va)"
      define sb where "sb = drop_bit (32 - 8 * r) (lj_bswap ?vb)"
      have c: "c = (if sa < sb then - 1 else if sb < sa then 1 else 0)"
        unfolding c_def A_def be_val_cmp word_less_nat_alt sa_def sb_def
        by (simp add: bswap_prefix [OF r(2)])
      have spec: "bytes_cmp (mem_bytes a ?N) (mem_bytes b ?N) =
          (if c = 0 then bytes_cmp (map a [i + r..<?N]) (map b [i + r..<?N]) else c)"
        unfolding split pre c_def by (simp add: bytes_cmp_snoc bytes_cmp_0 A_def)
      note t = tail_shift [OF True "1.prems"(1)]
      show ?thesis
      proof (cases "?N - i \<le> 3")
        case near: True
        then have rn: "r = ?N - i" by (simp add: r_def)
        have "str_cmp_loop a b n i = (if sa = sb then None else Some (if sa < sb then - 1 else 1))"
          unfolding sa_def sb_def rn using True ne near t
          by (subst str_cmp_loop.simps) (simp add: Let_def)
        moreover have "bytes_cmp (mem_bytes a ?N) (mem_bytes b ?N) = c"
          unfolding spec using rn True by simp
        ultimately show ?thesis using c by (auto simp: Let_def)
      next
        case far: False
        then have r4: "r = 4" by (simp add: r_def)
        have "lj_bswap ?va \<noteq> lj_bswap ?vb"
        proof
          assume "lj_bswap ?va = lj_bswap ?vb"
          then have "c = 0" using c by (simp add: sa_def sb_def)
          then have "A a = A b" by (simp add: c_def bytes_cmp_0)
          then have "\<forall>j < 4. a (i + j) = b (i + j)" unfolding A_def r4 by auto
          with ne show False by (simp add: getu32_eq_iff)
        qed
        then have c0: "c = (if lj_bswap ?va < lj_bswap ?vb then - 1 else 1)"
          using c by (auto simp: sa_def sb_def r4)
        have "str_cmp_loop a b n i = Some (if lj_bswap ?va < lj_bswap ?vb then - 1 else 1)"
          using True ne far t by (subst str_cmp_loop.simps) (simp add: Let_def)
        moreover have "bytes_cmp (mem_bytes a ?N) (mem_bytes b ?N) = c"
          unfolding spec using c0 by auto
        ultimately show ?thesis using c0 by (auto simp: Let_def)
      qed
    qed
  qed
qed

lemma bytes_cmp_length_diff:
  fixes f g :: "nat \<Rightarrow> u8"
  shows "bytes_cmp (map f [min la lb..<la]) (map g [min la lb..<lb]) = sgn (int la - int lb)"
  by (cases la lb rule: linorder_cases) (auto simp: upt_conv_Cons min_def)

lemma bytes_cmp_sgn: "sgn (bytes_cmp xs ys) = bytes_cmp xs ys"
  by (induction xs ys rule: bytes_cmp.induct) auto

lemma sint_diff_small:
  fixes x y :: u32
  assumes "unat x < 2 ^ 31" "unat y < 2 ^ 31"
  shows "sint (x - y) = int (unat x) - int (unat y)"
proof -
  have "uint x < 2 ^ 31" "uint y < 2 ^ 31" 
    using assms by (metis of_nat_unat of_nat_less_numeral_power_cancel_iff)+
  moreover have "- (2 ^ 31) \<le> uint x" "- (2 ^ 31) \<le> uint y"
    by (rule order_trans [OF _ uint_ge_0], simp)+
  ultimately have "sint x = uint x" "sint y = uint y"
    by (simp_all add: sint_uint signed_take_bit_int_eq_self)
  moreover have "- (2 ^ 31) \<le> uint x - uint y" "uint x - uint y < 2 ^ 31"
    using \<open>uint x < 2 ^ 31\<close> \<open>uint y < 2 ^ 31\<close> uint_ge_0 [of x] uint_ge_0 [of y] by linarith+
  ultimately show ?thesis
    by (simp add: sint_word_ariths signed_take_bit_int_eq_self)
qed

lemma lj_str_cmp_bytes:
  assumes "unat (str_len a) < 2 ^ 31" "unat (str_len b) < 2 ^ 31"
  shows "sgn (lj_str_cmp a b) = bytes_cmp (str_bytes a) (str_bytes b)"
proof -
  define la where "la = unat (str_len a)"
  define lb where "lb = unat (str_len b)"
  define n where "n = (if str_len b < str_len a then str_len b else str_len a)"
  have n: "unat n = min la lb" "unat n < 2 ^ 31"
    using assms by (auto simp: n_def la_def lb_def word_less_nat_alt)
  define c where "c = bytes_cmp (mem_bytes (strdata a) (unat n)) (mem_bytes (strdata b) (unat n))"
  have "str_bytes a = mem_bytes (strdata a) (unat n) @ map (strdata a) [min la lb..<la]"
    "str_bytes b = mem_bytes (strdata b) (unat n) @ map (strdata b) [min la lb..<lb]"
    using upt_split [of 0 "min la lb" la] upt_split [of 0 "min la lb" lb]
    by (simp_all add: str_bytes_def mem_bytes_def n la_def [symmetric] lb_def [symmetric])
  then have "bytes_cmp (str_bytes a) (str_bytes b) = (if c = 0 then sgn (int la - int lb) else c)"
    by (simp add: bytes_cmp_snoc mem_bytes_def c_def bytes_cmp_length_diff del: upt_Suc)
  moreover have "lj_str_cmp a b = (if c = 0 then int la - int lb else c)"
    using str_cmp_loop_spec [OF n(2), of 0 "strdata a" "strdata b"] assms
    by (simp add: lj_str_cmp_def n_def [symmetric] c_def [symmetric] la_def lb_def sint_diff_small Let_def)
  moreover have "sgn c = c" by (simp add: c_def bytes_cmp_sgn)
  ultimately show ?thesis by simp
qed

section \<open>Properties\<close>

text \<open>C34: String comparison: the word-wise loop of \<open>lj_str_cmp\<close>, which reads up to three
  bytes beyond the payloads, returns a number whose sign is the byte-wise lexicographic order of
  the two payloads, whatever the bytes beyond them are.\<close>

theorem str_cmp_order:
  assumes "unat (str_len a) < 2 ^ 31" "unat (str_len b) < 2 ^ 31"
  shows "sgn (lj_str_cmp a b) = bytes_cmp (str_bytes a) (str_bytes b)"
  using assms by (rule lj_str_cmp_bytes)

definition wit_str :: "u32 \<Rightarrow> u8 \<Rightarrow> GCstr" where
  "wit_str n c = \<lparr>str_marked = 1, str_reserved = 0, str_hash = 0, str_len = n, strdata = \<lambda>i. c\<rparr>"

theorem str_cmp_order_witness:
  "sgn (lj_str_cmp (wit_str 5 0x61) (wit_str 6 0x61)) = bytes_cmp (str_bytes (wit_str 5 0x61)) (str_bytes (wit_str 6 0x61))"
  by (rule str_cmp_order) (simp_all add: wit_str_def)

text \<open>C35: Fast equality: \<open>str_fastcmp\<close> returns zero exactly when the two byte ranges of
  the given length are equal.\<close>

theorem str_fastcmp_equal:
  assumes "0 < unat len" "unat len < 2 ^ 31"
  shows "str_fastcmp a b len = 0 \<longleftrightarrow> mem_bytes a (unat len) = mem_bytes b (unat len)"
  using assms by (rule str_fastcmp_eq)

theorem str_fastcmp_equal_witness:
  "str_fastcmp (\<lambda>i. if i < 5 then 7 else 1) (\<lambda>i. if i < 5 then 7 else 2) 5 = 0 \<longleftrightarrow>
    mem_bytes (\<lambda>i. if i < 5 then 7 else 1) (unat (5 :: u32)) = mem_bytes (\<lambda>i. if i < 5 then 7 else 2) (unat (5 :: u32))"
  by (rule str_fastcmp_equal) simp_all

end
