(* ===== verification/LJ_Intern.thy ===== *)
theory LJ_Intern
  imports LJ_Str "HOL-Library.Multiset"
begin

text \<open>
  String interning (\<open>lj_str.c\<close>: \<open>lj_str_new\<close>, \<open>lj_str_resize\<close>, \<open>lj_str_free\<close>) over the part of
  \<open>global_State\<close> it touches. A hash chain is the list of string addresses from its anchor, in
  chain order. The allocator (\<open>g->allocf\<close>, pluggable) is an argument: it returns an address or
  \<open>NULL\<close>; what the code relies on is that an address it returns is not in use. An error is
  thrown past the caller, so every operation returns its result together with the state the
  throw leaves behind.
\<close>

section \<open>State\<close>

datatype lj_err = LJ_ERR_ERRMEM | LJ_ERR_STROV | LJ_ERR_TABOV | LJ_ERR_NILIDX | LJ_ERR_NANIDX
  | LJ_ERR_NEXTIDX | LJ_ERR_BCBAD | LJ_ERR_BCFMT | LJ_TRERR_GFAIL

datatype GCphase = GCSpause | GCSpropagate | GCSatomic | GCSsweepstring | GCSsweep | GCSfinalize

record gstate =
  gheap :: "u32 \<Rightarrow> GCstr option"
  strhash :: "u32 list list"
  strmask :: u32
  strnum :: u32
  gc_total :: u32
  gc_state :: GCphase
  gc_currentwhite :: u8
  strempty :: u32

type_synonym alloc = "gstate \<Rightarrow> u32 \<Rightarrow> u32 option"

definition LJ_MAX_STR :: u64 where "LJ_MAX_STR = 0x7fffff00"
definition LJ_MAX_STRTAB :: u32 where "LJ_MAX_STRTAB = push_bit 26 1"
definition LJ_PAGESIZE :: nat where "LJ_PAGESIZE = 4096"

section \<open>Colours and memory accounting\<close>

definition LJ_GC_WHITES :: u8 where "LJ_GC_WHITES = 0x01 OR 0x02"

definition otherwhite :: "gstate \<Rightarrow> u8" where
  "otherwhite g = gc_currentwhite g XOR LJ_GC_WHITES"

definition str_isdead :: "gstate \<Rightarrow> GCstr \<Rightarrow> bool" where
  "str_isdead g s \<longleftrightarrow> str_marked s AND otherwhite g AND LJ_GC_WHITES \<noteq> 0"

definition curwhite :: "gstate \<Rightarrow> u8" where
  "curwhite g = gc_currentwhite g AND LJ_GC_WHITES"

definition flipwhite :: "GCstr \<Rightarrow> GCstr" where
  "flipwhite s = s\<lparr>str_marked := str_marked s XOR LJ_GC_WHITES\<rparr>"

text \<open>\<open>lj_mem_new\<close>: \<open>lj_mem_realloc\<close> of a null pointer.\<close>

definition lj_mem_new :: "alloc \<Rightarrow> gstate \<Rightarrow> u32 \<Rightarrow> (lj_err + u32) \<times> gstate" where
  "lj_mem_new al g nsz =
     (case al g nsz of
        None \<Rightarrow> (Inl LJ_ERR_ERRMEM, g)
      | Some p \<Rightarrow> (Inr p, g\<lparr>gc_total := (gc_total g - 0) + nsz\<rparr>))"

definition lj_mem_free :: "gstate \<Rightarrow> u32 \<Rightarrow> gstate" where
  "lj_mem_free g osz = g\<lparr>gc_total := gc_total g - osz\<rparr>"

section \<open>The table\<close>

text \<open>One step of the rehash loop: push string \<open>p\<close> on its chain of the new table.\<close>

definition str_reinsert :: "(u32 \<Rightarrow> GCstr option) \<Rightarrow> u32 \<Rightarrow> u32 list list \<Rightarrow> u32 \<Rightarrow> u32 list list" where
  "str_reinsert h newmask tab p =
     (case h p of
        None \<Rightarrow> tab
      | Some s \<Rightarrow> (let i = unat (str_hash s AND newmask) in tab[i := p # tab ! i]))"

definition lj_str_resize :: "alloc \<Rightarrow> gstate \<Rightarrow> u32 \<Rightarrow> (lj_err + unit) \<times> gstate" where
  "lj_str_resize al g newmask =
     (if gc_state g = GCSsweepstring \<or> LJ_MAX_STRTAB - 1 \<le> newmask then (Inr (), g)
      else case lj_mem_new al g ((newmask + 1) * 4) of
        (Inl e, g) \<Rightarrow> (Inl e, g)
      | (Inr p, g) \<Rightarrow>
          let newhash = replicate (unat newmask + 1) [];
              newhash = foldl (\<lambda>tab i. foldl (str_reinsert (gheap g) newmask) tab (strhash g ! i))
                newhash (rev [0..<length (strhash g)]);
              g = lj_mem_free g ((strmask g + 1) * 4)
          in (Inr (), g\<lparr>strmask := newmask, strhash := newhash\<rparr>))"

definition lj_str_hash :: "(nat \<Rightarrow> u8) \<Rightarrow> u32 \<Rightarrow> u32" where
  "lj_str_hash str len =
     (let (a, b, h) =
        (if 4 \<le> len then
           let h = len;
               a = lj_getu32 str 0;
               h = h XOR lj_getu32 str (unat len - 4);
               b = lj_getu32 str (unat (drop_bit 1 len) - 2);
               h = h XOR b; h = h - lj_rol b 14;
               b = b + lj_getu32 str (unat (drop_bit 2 len) - 1)
           in (a, b, h)
         else
           let h = len;
               a = ucast (str 0);
               h = h XOR ucast (str (unat len - 1));
               b = ucast (str (unat (drop_bit 1 len)));
               h = h XOR b; h = h - lj_rol b 14
           in (a, b, h));
          a = a XOR h; a = a - lj_rol h 11;
          b = b XOR a; b = b - lj_rol a 25;
          h = h XOR b; h = h - lj_rol b 16
      in h)"

text \<open>The walk along one chain; \<open>fast\<close> selects the word-wise comparison.\<close>

fun str_find :: "(u32 \<Rightarrow> GCstr option) \<Rightarrow> bool \<Rightarrow> (nat \<Rightarrow> u8) \<Rightarrow> u32 \<Rightarrow> u32 list \<Rightarrow> u32 option" where
  "str_find h fast str len [] = None"
| "str_find h fast str len (p # ps) =
     (case h p of
        None \<Rightarrow> None
      | Some sx \<Rightarrow>
          if str_len sx = len \<and>
             (if fast then str_fastcmp str (strdata sx) len = 0
              else mem_bytes str (unat len) = mem_bytes (strdata sx) (unat len))
          then Some p else str_find h fast str len ps)"

text \<open>The new object: \<open>memcpy\<close> of the payload and a zero terminator.\<close>

definition new_str :: "gstate \<Rightarrow> (nat \<Rightarrow> u8) \<Rightarrow> u32 \<Rightarrow> u32 \<Rightarrow> GCstr" where
  "new_str g str len h =
     \<lparr>str_marked = curwhite g, str_reserved = 0, str_hash = h, str_len = len,
      strdata = (\<lambda>i. if i < unat len then str i else 0)\<rparr>"

definition lj_str_new ::
    "alloc \<Rightarrow> gstate \<Rightarrow> (nat \<Rightarrow> u8) \<Rightarrow> nat \<Rightarrow> u64 \<Rightarrow> (lj_err + u32) \<times> gstate" where
  "lj_str_new al g mem strp lenx =
     (let len = ucast lenx; str = (\<lambda>i. mem (strp + i)) in
      if LJ_MAX_STR \<le> lenx then (Inl LJ_ERR_STROV, g)
      else if len = 0 then (Inr (strempty g), g)
      else
        let h = lj_str_hash str len;
            chain = strhash g ! unat (h AND strmask g);
            fast = (strp + unat len - 1) mod LJ_PAGESIZE \<le> LJ_PAGESIZE - 4
        in case str_find (gheap g) fast str len chain of
             Some p \<Rightarrow>
               (case gheap g p of
                  Some sx \<Rightarrow>
                    (Inr p, if str_isdead g sx then g\<lparr>gheap := (gheap g)(p \<mapsto> flipwhite sx)\<rparr> else g)
                | None \<Rightarrow> (Inr p, g))
           | None \<Rightarrow>
               (case lj_mem_new al g (sizeof_GCstr + len + 1) of
                  (Inl e, g) \<Rightarrow> (Inl e, g)
                | (Inr p, g) \<Rightarrow>
                    let s = new_str g str len h;
                        i = unat (h AND strmask g);
                        oldnum = strnum g;
                        g = g\<lparr>gheap := (gheap g)(p \<mapsto> s), strhash := (strhash g)[i := p # strhash g ! i],
                             strnum := strnum g + 1\<rparr>
                    in if strmask g < oldnum then
                         (case lj_str_resize al g (push_bit 1 (strmask g) + 1) of
                            (Inl e, g) \<Rightarrow> (Inl e, g)
                          | (Inr u, g) \<Rightarrow> (Inr p, g))
                       else (Inr p, g)))"

definition lj_str_free :: "gstate \<Rightarrow> u32 \<Rightarrow> gstate" where
  "lj_str_free g p =
     (case gheap g p of
        None \<Rightarrow> g
      | Some s \<Rightarrow>
          let g = g\<lparr>strnum := strnum g - 1\<rparr> in
          (lj_mem_free g (sizestring s))\<lparr>gheap := (gheap g)(p := None)\<rparr>)"


section \<open>The invariant of the string table\<close>

definition interned :: "gstate \<Rightarrow> u32 set" where
  "interned g = set (concat (strhash g))"

text \<open>A string object as \<open>lj_str_new\<close> builds it: within the length limit, with its own hash.\<close>

definition str_good :: "GCstr \<Rightarrow> bool" where
  "str_good s \<longleftrightarrow> str_len s \<noteq> 0 \<and> unat (str_len s) < unat LJ_MAX_STR \<and>
     str_hash s = lj_str_hash (strdata s) (str_len s)"

definition bucket_ok :: "(u32 \<Rightarrow> GCstr option) \<Rightarrow> u32 \<Rightarrow> u32 list list \<Rightarrow> bool" where
  "bucket_ok h m tab \<longleftrightarrow> (\<forall>i < length tab. \<forall>p \<in> set (tab ! i).
     case h p of None \<Rightarrow> False | Some s \<Rightarrow> unat (str_hash s AND m) = i)"

definition content :: "gstate \<Rightarrow> u32 \<Rightarrow> bytes option" where
  "content g p = (if p \<in> interned g \<or> p = strempty g then map_option str_bytes (gheap g p) else None)"

definition str_ok :: "gstate \<Rightarrow> bool" where
  "str_ok g \<longleftrightarrow>
     length (strhash g) = unat (strmask g) + 1 \<and> unat (strmask g) < 2 ^ 26 \<and>
     bucket_ok (gheap g) (strmask g) (strhash g) \<and>
     (\<forall>p \<in> interned g. case gheap g p of None \<Rightarrow> False | Some s \<Rightarrow> str_good s) \<and>
     distinct (concat (strhash g)) \<and>
     inj_on (\<lambda>p. map_option str_bytes (gheap g p)) (interned g) \<and>
     strnum g = of_nat (length (concat (strhash g))) \<and>
     strempty g \<notin> interned g \<and>
     (case gheap g (strempty g) of None \<Rightarrow> False | Some s \<Rightarrow> str_len s = 0)"

subsection \<open>Rehashing\<close>

lemma concat_update_mset:
  "i < length tab \<Longrightarrow> mset (concat (tab[i := p # tab ! i])) = add_mset p (mset (concat tab))"
  by (induction tab arbitrary: i) (auto split: nat.split)

lemma and_index_lt: "length tab = unat m + 1 \<Longrightarrow> unat (w AND m) < length tab" for w m :: u32
  using unat_mask_le [of w m] by linarith

lemma bucket_push:
  assumes "length tab = unat m + 1" "h p = Some s" "bucket_ok h m tab"
  shows "bucket_ok h m (tab[unat (str_hash s AND m) := p # tab ! unat (str_hash s AND m)])"
  unfolding bucket_ok_def
proof (intro allI impI ballI)
  fix i q
  let ?k = "unat (str_hash s AND m)"
  assume i: "i < length (tab[?k := p # tab ! ?k])" and q: "q \<in> set (tab[?k := p # tab ! ?k] ! i)"
  have "q = p \<and> i = ?k \<or> q \<in> set (tab ! i)"
    using q i by (cases "i = ?k") auto
  then show "case h q of None \<Rightarrow> False | Some s \<Rightarrow> unat (str_hash s AND m) = i"
    using assms i by (auto simp: bucket_ok_def)
qed

lemma str_reinsert_step:
  assumes "length tab = unat m + 1" "h p = Some s" "bucket_ok h m tab"
  shows "length (str_reinsert h m tab p) = unat m + 1"
    and "mset (concat (str_reinsert h m tab p)) = add_mset p (mset (concat tab))"
    and "bucket_ok h m (str_reinsert h m tab p)"
  using assms concat_update_mset [OF and_index_lt [OF assms(1)], of "str_hash s"]
    bucket_push [OF assms]
  by (simp_all add: str_reinsert_def Let_def)

lemma str_reinsert_fold:
  assumes "length tab = unat m + 1" "bucket_ok h m tab" "\<forall>p \<in> set ps. h p \<noteq> None"
  shows "length (foldl (str_reinsert h m) tab ps) = unat m + 1 \<and>
    mset (concat (foldl (str_reinsert h m) tab ps)) = mset ps + mset (concat tab) \<and>
    bucket_ok h m (foldl (str_reinsert h m) tab ps)"
  using assms
proof (induction ps arbitrary: tab)
  case (Cons p ps)
  then obtain s where "h p = Some s" by auto
  from str_reinsert_step [OF Cons.prems(1) this Cons.prems(2)] Cons.IH Cons.prems(3)
  show ?case by auto
qed simp

lemma foldl_nested:
  "foldl (\<lambda>t i. foldl f t (xs ! i)) t0 is = foldl f t0 (concat (map ((!) xs) is))"
  by (induction "is" arbitrary: t0) auto

lemma mset_concat_rev: "mset (concat (map ((!) xs) (rev [0..<length xs]))) = mset (concat xs)"
proof -
  have "map ((!) xs) (rev [0..<length xs]) = rev xs"
    by (metis map_nth rev_map)
  then show ?thesis by (simp add: mset_concat rev_map [symmetric])
qed

text \<open>The rehash keeps every string and puts each in its bucket of the new table.\<close>

lemma str_resize_cases:
  assumes "str_ok g"
  obtains (keep) r where "lj_str_resize al g m = (r, g)" "r = Inr () \<or> r = Inl LJ_ERR_ERRMEM"
  | (grown) t n where "lj_str_resize al g m = (Inr (), g\<lparr>gc_total := n, strmask := m, strhash := t\<rparr>)"
      "length t = unat m + 1" "unat m < 2 ^ 26" "bucket_ok (gheap g) m t"
      "mset (concat t) = mset (concat (strhash g))"
proof (cases "gc_state g = GCSsweepstring \<or> LJ_MAX_STRTAB - 1 \<le> m")
  case True
  then show ?thesis by (intro keep) (auto simp: lj_str_resize_def)
next
  case False
  then have m: "unat m < 2 ^ 26" by (auto simp: LJ_MAX_STRTAB_def word_le_nat_alt)
  show ?thesis
  proof (cases "al g ((m + 1) * 4)")
    case None
    with False show ?thesis by (intro keep) (auto simp: lj_str_resize_def lj_mem_new_def)
  next
    case (Some p)
    define ps where "ps = concat (map ((!) (strhash g)) (rev [0..<length (strhash g)]))"
    have ps: "mset ps = mset (concat (strhash g))" by (simp add: ps_def mset_concat_rev)
    then have "set ps = interned g" unfolding interned_def by (rule mset_eq_setD)
    then have "\<forall>p \<in> set ps. gheap g p \<noteq> None" using assms by (auto simp: str_ok_def split: option.splits)
    moreover have "bucket_ok (gheap g) m (replicate (unat m + 1) [])"
      by (simp add: bucket_ok_def del: replicate_Suc)
    ultimately have t: "length (foldl (str_reinsert (gheap g) m) (replicate (unat m + 1) []) ps) = unat m + 1"
      "mset (concat (foldl (str_reinsert (gheap g) m) (replicate (unat m + 1) []) ps)) = mset ps"
      "bucket_ok (gheap g) m (foldl (str_reinsert (gheap g) m) (replicate (unat m + 1) []) ps)"
      using str_reinsert_fold [of "replicate (unat m + 1) []" m "gheap g" ps]
      by (simp_all del: replicate_Suc)
    show ?thesis
      by (rule grown [OF _ t(1) m t(3) t(2) [unfolded ps]])
        (use False Some in \<open>simp add: lj_str_resize_def lj_mem_new_def Let_def lj_mem_free_def
          foldl_nested ps_def [symmetric]\<close>)
  qed
qed

lemma str_ok_retable:
  assumes "str_ok g" "length t = unat m + 1" "unat m < 2 ^ 26" "bucket_ok (gheap g) m t"
    "mset (concat t) = mset (concat (strhash g))"
  shows "str_ok (g\<lparr>gc_total := n, strmask := m, strhash := t\<rparr>)"
    and "interned (g\<lparr>gc_total := n, strmask := m, strhash := t\<rparr>) = interned g"
proof -
  have "set (concat t) = set (concat (strhash g))" "distinct (concat t) = distinct (concat (strhash g))"
    "length (concat t) = length (concat (strhash g))"
    using assms(5) by (auto dest: mset_eq_setD mset_eq_imp_distinct_iff mset_eq_length simp del: set_concat)
  with assms show "str_ok (g\<lparr>gc_total := n, strmask := m, strhash := t\<rparr>)"
    "interned (g\<lparr>gc_total := n, strmask := m, strhash := t\<rparr>) = interned g"
    unfolding str_ok_def interned_def by simp_all
qed

lemma lj_str_resize_ok:
  assumes "str_ok g" "lj_str_resize al g m = (r, g')"
  shows "str_ok g'" "content g' = content g" "r = Inr () \<or> r = Inl LJ_ERR_ERRMEM"
    "gheap g' = gheap g" "interned g' = interned g" "strempty g' = strempty g"
  using assms
  by (cases rule: str_resize_cases [OF assms(1), of al m];
      auto simp: content_def fun_eq_iff str_ok_retable [OF assms(1)])+


subsection \<open>Hashing and lookup\<close>

lemma mem_bytes_nth: "mem_bytes a n = mem_bytes b n \<longleftrightarrow> (\<forall>i < n. a i = b i)"
  by (auto simp: mem_bytes_def)

text \<open>The hash samples only bytes of the string itself.\<close>

lemma lj_str_hash_cong:
  assumes "len \<noteq> 0" "mem_bytes a (unat len) = mem_bytes b (unat len)"
  shows "lj_str_hash a len = lj_str_hash b len"
proof (cases "4 \<le> len")
  case True
  then have n: "4 \<le> unat len" by (simp add: word_le_nat_alt)
  have "lj_getu32 a p = lj_getu32 b p" if "p + 4 \<le> unat len" for p
    using assms(2) that by (auto simp: getu32_eq_iff mem_bytes_nth)
  moreover have "unat (drop_bit 1 len) = unat len div 2" "unat (drop_bit 2 len) = unat len div 4"
    by (simp_all add: drop_bit_eq_div unat_div_distrib)
  ultimately have "lj_getu32 a 0 = lj_getu32 b 0"
    "lj_getu32 a (unat len - 4) = lj_getu32 b (unat len - 4)"
    "lj_getu32 a (unat (drop_bit 1 len) - 2) = lj_getu32 b (unat (drop_bit 1 len) - 2)"
    "lj_getu32 a (unat (drop_bit 2 len) - 1) = lj_getu32 b (unat (drop_bit 2 len) - 1)"
    using n by auto
  with True show ?thesis by (simp add: lj_str_hash_def)
next
  case False
  have n: "0 < unat len" using assms(1) by (simp add: unat_gt_0)
  moreover have "unat (drop_bit 1 len) = unat len div 2"
    by (simp add: drop_bit_eq_div unat_div_distrib)
  ultimately have "a 0 = b 0" "a (unat len - 1) = b (unat len - 1)"
    "a (unat (drop_bit 1 len)) = b (unat (drop_bit 1 len))"
    using assms(2) by (auto simp: mem_bytes_nth)
  with False show ?thesis by (simp add: lj_str_hash_def)
qed

lemma str_bytes_eq_iff:
  "str_bytes s = mem_bytes m (unat len) \<longleftrightarrow>
     str_len s = len \<and> mem_bytes m (unat len) = mem_bytes (strdata s) (unat len)"
proof
  assume *: "str_bytes s = mem_bytes m (unat len)"
  then have "length (str_bytes s) = unat len" by (simp add: mem_bytes_def)
  then have "str_len s = len" by (simp add: str_bytes_def mem_bytes_def word_unat_eq_iff)
  with * show "str_len s = len \<and> mem_bytes m (unat len) = mem_bytes (strdata s) (unat len)"
    by (simp add: str_bytes_def)
qed (auto simp: str_bytes_def)

lemma str_find_spec:
  assumes "len \<noteq> 0" "unat len < 2 ^ 31" "\<forall>p \<in> set ps. h p \<noteq> None"
  shows "case str_find h fast str len ps of
      Some p \<Rightarrow> p \<in> set ps \<and> map_option str_bytes (h p) = Some (mem_bytes str (unat len))
    | None \<Rightarrow> \<forall>p \<in> set ps. map_option str_bytes (h p) \<noteq> Some (mem_bytes str (unat len))"
  using assms(3)
proof (induction ps)
  case (Cons q ps)
  then obtain sx where sx: "h q = Some sx" by auto
  have "(if fast then str_fastcmp str (strdata sx) len = 0
      else mem_bytes str (unat len) = mem_bytes (strdata sx) (unat len)) \<longleftrightarrow>
      mem_bytes str (unat len) = mem_bytes (strdata sx) (unat len)"
    using assms(1,2) by (simp add: str_fastcmp_eq unat_gt_0)
  then have c: "(str_len sx = len \<and>
      (if fast then str_fastcmp str (strdata sx) len = 0
       else mem_bytes str (unat len) = mem_bytes (strdata sx) (unat len))) \<longleftrightarrow>
      str_bytes sx = mem_bytes str (unat len)"
    by (simp only: str_bytes_eq_iff)
  show ?case
    using Cons sx by (simp add: c split: option.splits del: if_split)
qed simp

definition alloc_fresh :: "alloc \<Rightarrow> bool" where
  "alloc_fresh al \<longleftrightarrow> (\<forall>g sz p. al g sz = Some p \<longrightarrow> gheap g p = None)"


subsection \<open>Interning\<close>

text \<open>Linking a fresh string whose content is new.\<close>

definition str_link :: "gstate \<Rightarrow> u32 \<Rightarrow> GCstr \<Rightarrow> gstate" where
  "str_link g p s =
     (let i = unat (str_hash s AND strmask g) in
      g\<lparr>gheap := (gheap g)(p \<mapsto> s), strhash := (strhash g)[i := p # strhash g ! i],
        strnum := strnum g + 1\<rparr>)"

lemma str_link_sel [simp]:
  "gheap (str_link g p s) = (gheap g)(p \<mapsto> s)" "strmask (str_link g p s) = strmask g"
  "strnum (str_link g p s) = strnum g + 1" "strempty (str_link g p s) = strempty g"
  "strhash (str_link g p s) = (strhash g)[unat (str_hash s AND strmask g) :=
      p # strhash g ! unat (str_hash s AND strmask g)]"
  by (simp_all add: str_link_def Let_def)

lemma str_ok_live:
  assumes "str_ok g" "p \<in> interned g"
  obtains s where "gheap g p = Some s" "str_good s"
  using assms by (auto simp: str_ok_def split: option.splits)

lemma str_link_ok:
  assumes ok: "str_ok g" and fresh: "gheap g p = None" and good: "str_good s"
    and new: "\<forall>q \<in> interned g. map_option str_bytes (gheap g q) \<noteq> Some (str_bytes s)"
  shows "interned (str_link g p s) = insert p (interned g)" and "str_ok (str_link g p s)"
proof -
  let ?i = "unat (str_hash s AND strmask g)"
  let ?t = "(strhash g)[?i := p # strhash g ! ?i]"
  have i: "?i < length (strhash g)" using ok by (intro and_index_lt) (simp add: str_ok_def)
  have m: "mset (concat ?t) = add_mset p (mset (concat (strhash g)))" by (rule concat_update_mset [OF i])
  have set: "set (concat ?t) = insert p (set (concat (strhash g)))" using mset_eq_setD [of "concat ?t" "p # concat (strhash g)"] m by simp
  then show int: "interned (str_link g p s) = insert p (interned g)" by (simp add: interned_def)
  have p: "p \<notin> interned g" using fresh ok by (auto simp: str_ok_def)
  have len: "length (concat ?t) = Suc (length (concat (strhash g)))"
    using m by (metis mset.simps(2) size_mset size_add_mset)
  have dist: "distinct (concat ?t)"
    using mset_eq_imp_distinct_iff [of "concat ?t" "p # concat (strhash g)"] m p ok
    by (simp add: str_ok_def interned_def)
  have "bucket_ok (gheap g) (strmask g) (strhash g)" using ok by (simp add: str_ok_def)
  then have "bucket_ok ((gheap g)(p \<mapsto> s)) (strmask g) (strhash g)"
    using fresh by (fastforce simp: bucket_ok_def split: option.splits)
  then have b: "bucket_ok ((gheap g)(p \<mapsto> s)) (strmask g) ?t"
    using ok by (intro bucket_push) (auto simp: str_ok_def)
  have inj: "inj_on (\<lambda>q. map_option str_bytes (((gheap g)(p \<mapsto> s)) q)) (insert p (interned g))"
  proof -
    have "inj_on (\<lambda>q. map_option str_bytes (((gheap g)(p \<mapsto> s)) q)) (interned g) =
        inj_on (\<lambda>q. map_option str_bytes (gheap g q)) (interned g)"
      using p by (intro inj_on_cong) auto
    moreover have "map_option str_bytes (((gheap g)(p \<mapsto> s)) q) \<noteq> Some (str_bytes s)"
      if "q \<in> interned g" for q
      using new p that by (cases "q = p") simp_all
    then have "map_option str_bytes (((gheap g)(p \<mapsto> s)) p) \<notin>
        (\<lambda>q. map_option str_bytes (((gheap g)(p \<mapsto> s)) q)) ` (interned g - {p})"
      by (metis (no_types, lifting) DiffE fun_upd_same imageE option.simps(9))
    ultimately show ?thesis using ok by (simp only: inj_on_insert str_ok_def) simp
  qed
  have "strempty g \<noteq> p" using ok fresh by (auto simp: str_ok_def)
  then show "str_ok (str_link g p s)"
    using ok good fresh p b dist len inj
    unfolding str_ok_def int by (simp del: length_concat distinct_concat fun_upd_apply add: fun_upd_def)
qed

lemma str_ok_total [simp]:
  "str_ok (g\<lparr>gc_total := n\<rparr>) = str_ok g" "interned (g\<lparr>gc_total := n\<rparr>) = interned g"
  "content (g\<lparr>gc_total := n\<rparr>) = content g"
  by (simp_all add: str_ok_def interned_def content_def fun_eq_iff)

definition str_new_post :: "gstate \<Rightarrow> bytes \<Rightarrow> (lj_err + u32) \<times> gstate \<Rightarrow> bool" where
  "str_new_post g key res \<longleftrightarrow>
     (case res of (r, g') \<Rightarrow> str_ok g' \<and>
        (\<forall>p b. content g p = Some b \<longrightarrow> content g' p = Some b) \<and>
        (case r of Inr p \<Rightarrow> content g' p = Some key
         | Inl e \<Rightarrow> (e = LJ_ERR_STROV \<longleftrightarrow> unat LJ_MAX_STR \<le> length key) \<and>
             (e \<noteq> LJ_ERR_STROV \<longrightarrow> e = LJ_ERR_ERRMEM)))"

lemma str_ok_recolour:
  assumes "gheap g p = Some s"
  shows "interned (g\<lparr>gheap := (gheap g)(p \<mapsto> flipwhite s)\<rparr>) = interned g"
    "content (g\<lparr>gheap := (gheap g)(p \<mapsto> flipwhite s)\<rparr>) = content g"
    "str_ok g \<Longrightarrow> str_ok (g\<lparr>gheap := (gheap g)(p \<mapsto> flipwhite s)\<rparr>)"
proof -
  have f: "str_bytes (flipwhite s) = str_bytes s" "str_good (flipwhite s) = str_good s"
    "str_hash (flipwhite s) = str_hash s" "str_len (flipwhite s) = str_len s"
    by (simp_all add: flipwhite_def str_bytes_def str_good_def)
  show "interned (g\<lparr>gheap := (gheap g)(p \<mapsto> flipwhite s)\<rparr>) = interned g"
    by (simp add: interned_def)
  then show "content (g\<lparr>gheap := (gheap g)(p \<mapsto> flipwhite s)\<rparr>) = content g"
    using assms by (simp add: content_def fun_eq_iff f)
  have "(\<lambda>q. map_option str_bytes (((gheap g)(p \<mapsto> flipwhite s)) q)) = (\<lambda>q. map_option str_bytes (gheap g q))"
    using assms by (auto simp: f)
  moreover have "(case ((gheap g)(p \<mapsto> flipwhite s)) q of None \<Rightarrow> False | Some s \<Rightarrow> unat (str_hash s AND m) = i) =
      (case gheap g q of None \<Rightarrow> False | Some s \<Rightarrow> unat (str_hash s AND m) = i)" for q m i
    using assms by (simp add: f)
  then have "bucket_ok ((gheap g)(p \<mapsto> flipwhite s)) m t = bucket_ok (gheap g) m t" for m t
    by (simp only: bucket_ok_def)
  ultimately show "str_ok g \<Longrightarrow> str_ok (g\<lparr>gheap := (gheap g)(p \<mapsto> flipwhite s)\<rparr>)"
    using assms by (auto simp: str_ok_def interned_def f split: option.splits)
qed


lemma new_str_good:
  assumes "len \<noteq> 0" "unat len < unat LJ_MAX_STR"
  shows "str_good (new_str g str len (lj_str_hash str len))"
    and "str_bytes (new_str g str len h) = mem_bytes str (unat len)"
  using assms by (auto simp: str_good_def new_str_def str_bytes_def mem_bytes_nth intro!: lj_str_hash_cong)

lemma content_strempty:
  assumes "str_ok g" shows "content g (strempty g) = Some []"
  using assms by (auto simp: content_def str_ok_def str_bytes_def mem_bytes_def split: option.splits)

lemma content_inj:
  assumes "str_ok g" "content g p = Some b" "content g q = Some b"
  shows "p = q"
proof -
  have *: "b = [] \<longleftrightarrow> r = strempty g" if "content g r = Some b" for r
  proof (cases "r = strempty g")
    case True
    then show ?thesis using content_strempty [OF assms(1)] that by simp
  next
    case False
    then have "r \<in> interned g" using that by (auto simp: content_def split: if_splits)
    then obtain s where "gheap g r = Some s" "str_good s" by (rule str_ok_live [OF assms(1)])
    with that False show ?thesis
      by (auto simp: content_def str_good_def str_bytes_def mem_bytes_def unsigned_eq_0_iff split: if_splits)
  qed
  show ?thesis
  proof (cases "b = []")
    case False
    then have "p \<in> interned g" "q \<in> interned g" "map_option str_bytes (gheap g p) = map_option str_bytes (gheap g q)"
      using assms(2,3) * [OF assms(2)] * [OF assms(3)] by (auto simp: content_def split: if_splits)
    then show ?thesis using assms(1) by (auto simp: str_ok_def inj_on_def)
  qed (use * assms in auto)
qed

lemma str_link_content:
  assumes "str_ok g" "gheap g p = None" "str_good s"
    "\<forall>q \<in> interned g. map_option str_bytes (gheap g q) \<noteq> Some (str_bytes s)"
  shows "content (str_link g p s) p = Some (str_bytes s)"
    and "content g q = Some b \<Longrightarrow> content (str_link g p s) q = Some b"
  using assms str_link_ok(1) [OF assms] by (auto simp: content_def split: if_splits)

lemma chain_live:
  assumes "str_ok g" "p \<in> set (strhash g ! unat (w AND strmask g))"
  shows "p \<in> interned g"
proof -
  have "unat (w AND strmask g) < length (strhash g)"
    using assms(1) by (intro and_index_lt) (simp add: str_ok_def)
  then show ?thesis using assms(2) by (auto simp: interned_def intro: nth_mem)
qed

text \<open>A string that is interned is found on the chain of its hash.\<close>

lemma interned_on_chain:
  assumes "str_ok g" "p \<in> interned g" "gheap g p = Some s"
  shows "p \<in> set (strhash g ! unat (str_hash s AND strmask g))"
proof -
  from assms(2) obtain i where i: "i < length (strhash g)" "p \<in> set (strhash g ! i)"
    by (auto simp: interned_def) (metis in_set_conv_nth)
  moreover have "case gheap g p of None \<Rightarrow> False | Some s \<Rightarrow> unat (str_hash s AND strmask g) = i"
    using assms(1) i unfolding str_ok_def bucket_ok_def by blast
  then have "unat (str_hash s AND strmask g) = i" using assms(3) by simp
  ultimately show ?thesis by simp
qed

lemma str_not_found:
  assumes ok: "str_ok g" and len: "len \<noteq> 0" "unat len < 2 ^ 31"
    and nf: "str_find (gheap g) fast str len (strhash g ! unat (lj_str_hash str len AND strmask g)) = None"
  shows "\<forall>q \<in> interned g. map_option str_bytes (gheap g q) \<noteq> Some (mem_bytes str (unat len))"
proof (intro ballI notI)
  fix q assume q: "q \<in> interned g" "map_option str_bytes (gheap g q) = Some (mem_bytes str (unat len))"
  then obtain s where s: "gheap g q = Some s" "str_bytes s = mem_bytes str (unat len)" by auto
  have "str_good s" using str_ok_live [OF ok q(1)] s(1) by auto
  then have "str_hash s = lj_str_hash str len"
    using s(2) len(1) by (auto simp: str_good_def str_bytes_eq_iff intro!: lj_str_hash_cong)
  then have "q \<in> set (strhash g ! unat (lj_str_hash str len AND strmask g))"
    using interned_on_chain [OF ok q(1) s(1)] by simp
  moreover have "\<forall>p \<in> set (strhash g ! unat (lj_str_hash str len AND strmask g)). gheap g p \<noteq> None"
    using chain_live [OF ok] str_ok_live [OF ok] by (metis option.distinct(1))
  ultimately show False
    using str_find_spec [OF len, where h = "gheap g" and fast = fast and str = str] nf q(2) by fastforce
qed

text \<open>\<open>lj_str_new\<close> past the length checks, phrased over \<open>str_link\<close>.\<close>

lemma str_new_alloc:
  assumes "str_ok g" "alloc_fresh al" "len \<noteq> 0" "unat len < unat LJ_MAX_STR"
    and h: "h = lj_str_hash str len"
    and new: "\<forall>q \<in> interned g. map_option str_bytes (gheap g q) \<noteq> Some (mem_bytes str (unat len))"
    and res: "res = (case lj_mem_new al g sz of (Inl e, g) \<Rightarrow> (Inl e, g)
      | (Inr p, g) \<Rightarrow>
          let g1 = str_link g p (new_str g str len h)
          in if strmask g1 < strnum g then
               (case lj_str_resize al g1 (push_bit 1 (strmask g1) + 1) of
                  (Inl e, g) \<Rightarrow> (Inl e, g) | (Inr u, g) \<Rightarrow> (Inr p, g))
             else (Inr p, g1))"
  shows "str_new_post g (mem_bytes str (unat len)) res"
proof (cases "al g sz")
  case None
  then show ?thesis using assms by (auto simp: lj_mem_new_def str_new_post_def mem_bytes_def)
next
  case (Some p)
  define g0 where "g0 = g\<lparr>gc_total := gc_total g + sz\<rparr>"
  define s where "s = new_str g0 str len h"
  define g1 where "g1 = str_link g0 p s"
  have ok: "str_ok g0" and fr: "gheap g0 p = None"
    using assms(1,2) Some by (auto simp: g0_def alloc_fresh_def)
  have sg: "str_good s" "str_bytes s = mem_bytes str (unat len)"
    unfolding s_def h by (rule new_str_good; use assms in simp)+
  have nw: "\<forall>q \<in> interned g0. map_option str_bytes (gheap g0 q) \<noteq> Some (str_bytes s)"
    using new by (simp add: sg g0_def)
  note l = str_link_ok(2) [OF ok fr sg(1) nw, folded g1_def]
    str_link_content [OF ok fr sg(1) nw, folded g1_def]
  obtain r g2 where r: "lj_str_resize al g1 (push_bit 1 (strmask g1) + 1) = (r, g2)" by force
  note z = lj_str_resize_ok [OF l(1) r]
  have c: "content g0 = content g" "strnum g0 = strnum g" by (simp_all add: g0_def)
  have res1: "res = (if strmask g1 < strnum g then (case r of Inl e \<Rightarrow> Inl e | Inr u \<Rightarrow> Inr p, g2)
      else (Inr p, g1))"
    using res Some r by (cases r) (simp_all add: lj_mem_new_def g0_def [symmetric] s_def [symmetric]
      g1_def [symmetric] c(2) Let_def del: str_link_sel push_bit_of_Suc_0 push_bit_Suc)
  show ?thesis
    using z l assms(4) unfolding res1 str_new_post_def
    by (auto simp: c sg mem_bytes_def split: sum.splits)
qed


lemma unat_len32: "unat lenx < 2 ^ 32 \<Longrightarrow> unat (ucast lenx :: u32) = unat lenx" for lenx :: u64
  by (simp add: unsigned_ucast_eq take_bit_nat_eq_self)

lemma lj_str_new_post:
  assumes ok: "str_ok g" and al: "alloc_fresh al"
  shows "str_new_post g (mem_bytes (\<lambda>i. mem (strp + i)) (unat lenx)) (lj_str_new al g mem strp lenx)"
proof -
  define str where "str = (\<lambda>i. mem (strp + i))"
  define len :: u32 where "len = ucast lenx"
  define h where "h = lj_str_hash str len"
  define fast where "fast \<longleftrightarrow> (strp + unat len - Suc 0) mod LJ_PAGESIZE \<le> LJ_PAGESIZE - 4"
  let ?find = "str_find (gheap g) fast str len (strhash g ! unat (h AND strmask g))"
  consider (big) "LJ_MAX_STR \<le> lenx" | (empty) "lenx < LJ_MAX_STR" "len = 0"
    | (norm) "lenx < LJ_MAX_STR" "len \<noteq> 0" by fastforce
  then show ?thesis
  proof cases
    case big
    then show ?thesis using ok
      by (simp add: lj_str_new_def str_new_post_def Let_def mem_bytes_def word_le_nat_alt)
  next
    case empty
    then have l: "unat lenx < 2 ^ 32" by (simp add: word_less_nat_alt LJ_MAX_STR_def)
    have "unat lenx = 0" using unat_len32 [OF l] empty(2) by (simp add: len_def)
    moreover have "\<not> LJ_MAX_STR \<le> lenx" using empty(1) by simp
    ultimately show ?thesis using empty(2) ok content_strempty [OF ok]
      by (simp add: lj_str_new_def str_new_post_def len_def Let_def mem_bytes_def)
  next
    case norm
    then have nle: "\<not> LJ_MAX_STR \<le> lenx" by simp
    from norm have l: "unat lenx < 0x7fffff00" by (simp add: word_less_nat_alt LJ_MAX_STR_def)
    have len: "unat len = unat lenx" using l by (simp add: len_def unat_len32)
    have L: "unat len < unat LJ_MAX_STR" "unat len < 2 ^ 31" using l by (simp_all add: len LJ_MAX_STR_def)
    have live: "\<forall>p \<in> set (strhash g ! unat (h AND strmask g)). gheap g p \<noteq> None"
      using chain_live [OF ok] str_ok_live [OF ok] by (metis option.distinct(1))
    note fs = str_find_spec [OF norm(2) L(2) live, where fast = fast and str = str]
    show ?thesis
    proof (cases ?find)
      case (Some p)
      with fs have p: "p \<in> set (strhash g ! unat (h AND strmask g))"
        "map_option str_bytes (gheap g p) = Some (mem_bytes str (unat len))" by auto
      then have "content g p = Some (mem_bytes str (unat len))"
        using chain_live [OF ok] by (simp add: content_def)
      moreover from p(2) obtain sx where "gheap g p = Some sx" by auto
      moreover from this have "lj_str_new al g mem strp lenx =
          (Inr p, if str_isdead g sx then g\<lparr>gheap := (gheap g)(p \<mapsto> flipwhite sx)\<rparr> else g)"
        using Some norm nle by (simp add: lj_str_new_def Let_def str_def [symmetric] len_def [symmetric]
          h_def [symmetric] fast_def [symmetric])
      ultimately show ?thesis
        using ok by (simp add: str_new_post_def str_ok_recolour str_def [symmetric] len)
    next
      case None
      note nf = str_not_found [OF ok norm(2) L(2) None [unfolded h_def]]
      show ?thesis unfolding str_def [symmetric] len [symmetric]
      proof (rule str_new_alloc [OF ok al norm(2) L(1) h_def nf])
        show "lj_str_new al g mem strp lenx = (case lj_mem_new al g (sizeof_GCstr + len + 1) of
            (Inl e, g) \<Rightarrow> (Inl e, g)
          | (Inr p, g) \<Rightarrow>
              let g1 = str_link g p (new_str g str len h)
              in if strmask g1 < strnum g then
                   (case lj_str_resize al g1 (push_bit 1 (strmask g1) + 1) of
                      (Inl e, g) \<Rightarrow> (Inl e, g) | (Inr u, g) \<Rightarrow> (Inr p, g))
                 else (Inr p, g1))"
          using norm None nle
          by (simp add: lj_str_new_def str_def [symmetric] len_def [symmetric] h_def [symmetric]
              fast_def [symmetric] Let_def lj_mem_new_def str_link_def new_str_def
              split: option.split sum.split)
      qed
    qed
  qed
qed


section \<open>The interning interface\<close>

text \<open>
  What the clients of the string table rely on: an operation that maps keys to object
  identities, keeps the identity of every known key, and never gives two keys one identity.
\<close>

locale interner =
  fixes intern :: "'st \<Rightarrow> 'arg \<Rightarrow> ('e + 'a) \<times> 'st"
    and key :: "'arg \<Rightarrow> 'k"
    and inv :: "'st \<Rightarrow> bool"
    and view :: "'st \<Rightarrow> 'a \<Rightarrow> 'k option"
  assumes intern_inv: "inv st \<Longrightarrow> inv (snd (intern st x))"
    and intern_view: "inv st \<Longrightarrow> intern st x = (Inr a, st') \<Longrightarrow> view st' a = Some (key x)"
    and intern_frame: "inv st \<Longrightarrow> view st a = Some k \<Longrightarrow> view (snd (intern st x)) a = Some k"
    and view_inj: "inv st \<Longrightarrow> view st a = Some k \<Longrightarrow> view st b = Some k \<Longrightarrow> a = b"
begin

lemma run_inv: "inv st \<Longrightarrow> inv (foldl (\<lambda>st x. snd (intern st x)) st xs)"
  by (induction xs arbitrary: st) (simp_all add: intern_inv)

lemma run_frame:
  "inv st \<Longrightarrow> view st a = Some k \<Longrightarrow> view (foldl (\<lambda>st x. snd (intern st x)) st xs) a = Some k"
  by (induction xs arbitrary: st) (simp_all add: intern_inv intern_frame)

lemma same_identity_iff:
  assumes "inv st" "intern st x = (Inr a, st1)"
    "intern (foldl (\<lambda>st x. snd (intern st x)) st1 xs) y = (Inr b, st2)"
  shows "a = b \<longleftrightarrow> key x = key y"
proof -
  define st' where "st' = foldl (\<lambda>st x. snd (intern st x)) st1 xs"
  have i1: "inv st1" using intern_inv [OF assms(1), of x] assms(2) by simp
  have i2: "inv st'" unfolding st'_def by (rule run_inv [OF i1])
  have "view st' a = Some (key x)"
    unfolding st'_def by (rule run_frame [OF i1 intern_view [OF assms(1,2)]])
  then have "view st2 a = Some (key x)"
    using intern_frame [OF i2, of a "key x" y] assms(3) by (simp add: st'_def)
  moreover have "view st2 b = Some (key y)" using intern_view [OF i2] assms(3) by (simp add: st'_def)
  moreover have "inv st2" using intern_inv [OF i2, of y] assms(3) by (simp add: st'_def)
  ultimately show ?thesis using view_inj by auto
qed

end

text \<open>The state of the interpretation carries the allocator; a key is the bytes of the argument.\<close>

type_synonym str_arg = "(nat \<Rightarrow> u8) \<times> nat \<times> u64"

definition str_key :: "str_arg \<Rightarrow> bytes" where
  "str_key x = (case x of (mem, strp, lenx) \<Rightarrow> mem_bytes (\<lambda>i. mem (strp + i)) (unat lenx))"

definition str_intern :: "alloc \<times> gstate \<Rightarrow> str_arg \<Rightarrow> (lj_err + u32) \<times> (alloc \<times> gstate)" where
  "str_intern st x = (case st of (al, g) \<Rightarrow> case x of (mem, strp, lenx) \<Rightarrow>
     case lj_str_new al g mem strp lenx of (r, g') \<Rightarrow> (r, al, g'))"

definition str_state_ok :: "alloc \<times> gstate \<Rightarrow> bool" where
  "str_state_ok st \<longleftrightarrow> alloc_fresh (fst st) \<and> str_ok (snd st)"

lemma str_intern_post:
  assumes "str_state_ok st"
  shows "str_new_post (snd st) (str_key x) (fst (str_intern st x), snd (snd (str_intern st x)))"
    and "fst (snd (str_intern st x)) = fst st"
proof -
  obtain al g mem strp lenx where [simp]: "st = (al, g)" "x = (mem, strp, lenx)" by (metis prod.exhaust)
  show "str_new_post (snd st) (str_key x) (fst (str_intern st x), snd (snd (str_intern st x)))"
    using lj_str_new_post [of g al mem strp lenx] assms
    by (cases "lj_str_new al g mem strp lenx") (simp add: str_state_ok_def str_intern_def str_key_def)
  show "fst (snd (str_intern st x)) = fst st" by (simp add: str_intern_def split: prod.split)
qed

interpretation strtab: interner str_intern str_key str_state_ok "\<lambda>st. content (snd st)"
proof
  fix st x
  assume ok: "str_state_ok st"
  note p = str_intern_post [OF ok, of x]
  show "str_state_ok (snd (str_intern st x))"
    using p ok by (simp add: str_state_ok_def str_new_post_def)
  show "content (snd st') a = Some (str_key x)" if "str_intern st x = (Inr a, st')" for a st'
    using p that by (simp add: str_new_post_def)
  show "content (snd (snd (str_intern st x))) a = Some k" if "content (snd st) a = Some k" for a k
    using p that by (simp add: str_new_post_def)
  show "a = b" if "content (snd st) a = Some k" "content (snd st) b = Some k" for a b k
    using ok that content_inj by (auto simp: str_state_ok_def)
qed

definition str_new_run :: "alloc \<Rightarrow> gstate \<Rightarrow> str_arg list \<Rightarrow> gstate" where
  "str_new_run al g xs = foldl (\<lambda>g x. case x of (mem, strp, lenx) \<Rightarrow> snd (lj_str_new al g mem strp lenx)) g xs"

lemma str_new_run_intern:
  "foldl (\<lambda>st x. snd (str_intern st x)) (al, g) xs = (al, str_new_run al g xs)"
  by (induction xs arbitrary: g) (auto simp: str_new_run_def str_intern_def split: prod.split)

section \<open>Properties\<close>

text \<open>C8: Interning makes string equality pointer equality: take any state of the
  string table that satisfies its invariant, intern a string, then run any sequence of further
  interning operations (some of which may fail), then intern a second string. The two addresses
  are equal exactly when the byte strings are equal, whatever the positions of the two buffers in
  memory (which select the word-wise or the byte-wise comparison).\<close>

theorem str_intern_identity:
  assumes "str_ok g" "alloc_fresh al"
    and "lj_str_new al g mem1 p1 len1 = (Inr a, g1)"
    and "lj_str_new al (str_new_run al g1 xs) mem2 p2 len2 = (Inr b, g2)"
  shows "a = b \<longleftrightarrow> mem_bytes (\<lambda>i. mem1 (p1 + i)) (unat len1) = mem_bytes (\<lambda>i. mem2 (p2 + i)) (unat len2)"
proof -
  have "str_intern (al, g) (mem1, p1, len1) = (Inr a, al, g1)"
    "str_intern (foldl (\<lambda>st x. snd (str_intern st x)) (al, g1) xs) (mem2, p2, len2) = (Inr b, al, g2)"
    unfolding str_new_run_intern using assms by (simp_all add: str_intern_def)
  from strtab.same_identity_iff [OF _ this] show ?thesis
    using assms by (simp add: str_state_ok_def str_key_def)
qed

text \<open>C19: \<open>lj_str_new\<close> keeps the invariant of the string table on every path (also when an
  allocation fails before or after the new string is linked): every string already interned stays
  interned at its address with its bytes, a returned address holds exactly the bytes passed in,
  the overflow error is raised exactly for lengths of at least \<open>LJ_MAX_STR\<close>, and the only other
  error is the out-of-memory error.\<close>

theorem str_new_correct:
  assumes "str_ok g" "alloc_fresh al" "lj_str_new al g mem strp lenx = (r, g')"
  shows "str_ok g' \<and> (\<forall>p b. content g p = Some b \<longrightarrow> content g' p = Some b) \<and>
    (case r of Inr p \<Rightarrow> content g' p = Some (mem_bytes (\<lambda>i. mem (strp + i)) (unat lenx))
     | Inl e \<Rightarrow> e = (if LJ_MAX_STR \<le> lenx then LJ_ERR_STROV else LJ_ERR_ERRMEM))"
  using lj_str_new_post [OF assms(1,2), of mem strp lenx] assms(3)
  by (auto simp: str_new_post_def word_le_nat_alt mem_bytes_def split: sum.splits if_splits)

text \<open>C32: Growing or shrinking the string table, to any mask, keeps every interned string at its
  address with its content, keeps the invariant, and fails only when the allocator does.\<close>

theorem str_resize_preserves:
  assumes "str_ok g" "lj_str_resize al g newmask = (r, g')"
  shows "str_ok g' \<and> content g' = content g \<and> interned g' = interned g \<and>
    (r = Inr () \<or> r = Inl LJ_ERR_ERRMEM \<and> g' = g)"
  using lj_str_resize_ok [OF assms] assms(2)
  by (cases rule: str_resize_cases [OF assms(1), of al newmask]) auto

subsection \<open>Witnesses\<close>

definition empty_str :: GCstr where
  "empty_str = \<lparr>str_marked = 0, str_reserved = 0, str_hash = 0, str_len = 0, strdata = (\<lambda>i. 0)\<rparr>"

definition init_gstate :: gstate where
  "init_gstate = \<lparr>gheap = (\<lambda>p. if p = 0x40 then Some empty_str else None), strhash = [[]],
     strmask = 0, strnum = 0, gc_total = 0, gc_state = GCSpause, gc_currentwhite = 1, strempty = 0x40\<rparr>"

definition bump_alloc :: alloc where
  "bump_alloc g sz =
     (let p = 0x1000 + 0x100 * strnum g in if gheap g p = None then Some p else None)"

lemma init_gstate_ok: "str_ok init_gstate"
  by (simp add: str_ok_def init_gstate_def interned_def bucket_ok_def empty_str_def)

lemma bump_alloc_fresh: "alloc_fresh bump_alloc"
  by (simp add: alloc_fresh_def bump_alloc_def Let_def)


definition mem_of :: "bytes \<Rightarrow> nat \<Rightarrow> u8" where
  "mem_of bs i = (if i < length bs then bs ! i else 0)"

definition wit_new :: "gstate \<Rightarrow> bytes \<Rightarrow> (lj_err + u32) \<times> gstate" where
  "wit_new g bs = lj_str_new bump_alloc g (mem_of bs) 0 (of_nat (length bs))"

lemma wit_new_ab: "fst (wit_new init_gstate [0x61, 0x62]) = Inr 0x1000"
  by code_simp

lemma wit_new_ab_again:
  "fst (lj_str_new bump_alloc (str_new_run bump_alloc (snd (wit_new init_gstate [0x61, 0x62]))
     [(mem_of [0x63], 0, 1)]) (mem_of [0x7a, 0x61, 0x62]) 1 2) = Inr 0x1000"
  by code_simp

theorem str_intern_identity_witness:
  "(0x1000 :: u32) = 0x1000 \<longleftrightarrow>
     mem_bytes (\<lambda>i. mem_of [0x61, 0x62] (0 + i)) (unat (2 :: u64)) =
     mem_bytes (\<lambda>i. mem_of [0x7a, 0x61, 0x62] (1 + i)) (unat (2 :: u64))"
proof (rule str_intern_identity [OF init_gstate_ok bump_alloc_fresh])
  show "lj_str_new bump_alloc init_gstate (mem_of [0x61, 0x62]) 0 2 =
      (Inr 0x1000, snd (wit_new init_gstate [0x61, 0x62]))"
    using wit_new_ab by (simp add: wit_new_def prod_eq_iff)
  show "lj_str_new bump_alloc (str_new_run bump_alloc (snd (wit_new init_gstate [0x61, 0x62]))
      [(mem_of [0x63], 0, 1)]) (mem_of [0x7a, 0x61, 0x62]) 1 2 = (Inr 0x1000,
      snd (lj_str_new bump_alloc (str_new_run bump_alloc (snd (wit_new init_gstate [0x61, 0x62]))
      [(mem_of [0x63], 0, 1)]) (mem_of [0x7a, 0x61, 0x62]) 1 2))"
    using wit_new_ab_again by (simp add: prod_eq_iff)
qed

theorem str_new_correct_witness:
  "content (snd (wit_new init_gstate [0x61, 0x62])) 0x1000 = Some [0x61, 0x62]"
proof -
  have "lj_str_new bump_alloc init_gstate (mem_of [0x61, 0x62]) 0 2 =
      (Inr 0x1000, snd (wit_new init_gstate [0x61, 0x62]))"
    using wit_new_ab by (simp add: wit_new_def prod_eq_iff)
  from str_new_correct [OF init_gstate_ok bump_alloc_fresh this] show ?thesis
    by (simp add: mem_bytes_def mem_of_def upt_conv_Cons)
qed

lemma wit_resize: "strmask (snd (lj_str_resize bump_alloc init_gstate 3)) = 3"
  by code_simp

theorem str_resize_preserves_witness:
  "str_ok (snd (lj_str_resize bump_alloc init_gstate 3)) \<and>
   content (snd (lj_str_resize bump_alloc init_gstate 3)) = content init_gstate \<and>
   strmask (snd (lj_str_resize bump_alloc init_gstate 3)) = 3"
  using str_resize_preserves [OF init_gstate_ok, of bump_alloc 3] wit_resize
  by (metis prod.collapse)

end
