(* ===== verification/LJ_StrFmt.thy ===== *)
theory LJ_StrFmt
  imports LJ_Intern
begin

text \<open>
  Number conversion, string buffers and message formatting (\<open>lj_str.c\<close>: \<open>lj_str_bufnum\<close> to
  \<open>lj_str_needbuf\<close>; \<open>lj_str.h\<close>: the buffer macros; \<open>lj_gc.c\<close>: \<open>lj_mem_realloc\<close>, \<open>lj_mem_grow\<close>).
  \<open>sprintf\<close> of a number, \<open>lua_number2str\<close>, is the parameter \<open>n2s\<close>. Bytes of a buffer beyond what
  was written are arbitrary. \<open>None\<close> stands for a run the language leaves undefined or that does
  not end: a format that ends in a percent sign (the scan continues past the terminator), a
  vararg of the wrong type, and a growth loop that doubles zero.
\<close>

section \<open>Number conversion\<close>

definition LJ_STR_INTBUF :: nat where "LJ_STR_INTBUF = 1 + 10"

function bufint_loop :: "bytes \<Rightarrow> nat \<Rightarrow> u32 \<Rightarrow> bytes \<times> nat" where
  "bufint_loop buf p u =
     (let p = p - 1;
          buf = buf[p := 48 + ucast (u mod 10)];
          u = u div 10
      in if u = 0 then (buf, p) else bufint_loop buf p u)"
  by pat_completeness auto
termination
  by (relation "measure (\<lambda>(buf, p, u). unat u)") (auto simp: unat_div_distrib unsigned_eq_0_iff
    intro!: div_less_dividend simp: unat_gt_0)

declare bufint_loop.simps [simp del]

definition lj_str_bufint :: "bytes \<Rightarrow> u32 \<Rightarrow> bytes \<times> nat" where
  "lj_str_bufint buf k =
     (let u = (if sint k < 0 then NOT k + 1 else k);
          (buf, p) = bufint_loop buf (1 + 10) u
      in if sint k < 0 then (buf[p - 1 := 45], p - 1) else (buf, p))"

definition lj_str_bufnum :: "(u64 \<Rightarrow> bytes) \<Rightarrow> TValue \<Rightarrow> bytes" where
  "lj_str_bufnum n2s tv =
     (if push_bit 1 (tv_hi tv) < 0xffe00000 then n2s tv
      else if (tv_hi tv AND 0x000fffff) OR tv_lo tv \<noteq> 0 then [0x6e, 0x61, 0x6e]
      else if tv_hi tv AND 0x80000000 = 0 then [0x69, 0x6e, 0x66]
      else [0x2d, 0x69, 0x6e, 0x66])"

definition bytes_mem :: "bytes \<Rightarrow> nat \<Rightarrow> u8" where
  "bytes_mem bs i = (if i < length bs then bs ! i else 0)"

definition lj_str_fromnum :: "(u64 \<Rightarrow> bytes) \<Rightarrow> alloc \<Rightarrow> gstate \<Rightarrow> u64 \<Rightarrow> (lj_err + u32) \<times> gstate" where
  "lj_str_fromnum n2s al g np =
     (let buf = lj_str_bufnum n2s np in lj_str_new al g (bytes_mem buf) 0 (of_nat (length buf)))"

definition lj_str_fromint :: "alloc \<Rightarrow> gstate \<Rightarrow> u32 \<Rightarrow> (lj_err + u32) \<times> gstate" where
  "lj_str_fromint al g k =
     (let (s, p) = lj_str_bufint (replicate (1 + 10) 0) k
      in lj_str_new al g (bytes_mem s) p (of_nat (1 + 10 - p)))"

definition lj_str_fromnumber ::
    "(u64 \<Rightarrow> bytes) \<Rightarrow> alloc \<Rightarrow> gstate \<Rightarrow> TValue \<Rightarrow> (lj_err + u32) \<times> gstate" where
  "lj_str_fromnumber n2s al g tv =
     (if tvisint tv then lj_str_fromint al g (tv_lo tv) else lj_str_fromnum n2s al g tv)"

section \<open>Reallocation and buffers\<close>

text \<open>\<open>ra\<close> answers whether the pluggable allocator serves a request to resize to \<open>nsz\<close> bytes.\<close>

type_synonym realloc = "u32 \<Rightarrow> u32 \<Rightarrow> bool"

definition lj_mem_realloc :: "realloc \<Rightarrow> gstate \<Rightarrow> u32 \<Rightarrow> u32 \<Rightarrow> (lj_err + unit) \<times> gstate" where
  "lj_mem_realloc ra g osz nsz =
     (if \<not> ra osz nsz \<and> 0 < nsz then (Inl LJ_ERR_ERRMEM, g)
      else (Inr (), g\<lparr>gc_total := (gc_total g - osz) + nsz\<rparr>))"

definition LJ_MIN_VECSZ :: u32 where "LJ_MIN_VECSZ = 8"

definition lj_mem_grow :: "realloc \<Rightarrow> gstate \<Rightarrow> u32 \<Rightarrow> u32 \<Rightarrow> u32 \<Rightarrow> (lj_err + u32) \<times> gstate" where
  "lj_mem_grow ra g szp lim esz =
     (let sz = push_bit 1 szp;
          sz = (if sz < LJ_MIN_VECSZ then LJ_MIN_VECSZ else sz);
          sz = (if lim < sz then lim else sz)
      in case lj_mem_realloc ra g (szp * esz) (sz * esz) of
           (Inl e, g) \<Rightarrow> (Inl e, g)
         | (Inr u, g) \<Rightarrow> (Inr sz, g))"

record SBuf =
  sb_buf :: "nat \<Rightarrow> u8"
  sb_n :: u32
  sb_sz :: u32

definition LJ_MIN_SBUF :: u32 where "LJ_MIN_SBUF = 32"

definition lj_str_initbuf :: "SBuf \<Rightarrow> SBuf" where "lj_str_initbuf sb = sb\<lparr>sb_sz := 0\<rparr>"
definition lj_str_resetbuf :: "SBuf \<Rightarrow> SBuf" where "lj_str_resetbuf sb = sb\<lparr>sb_n := 0\<rparr>"

type_synonym sbst = "gstate \<times> SBuf"
type_synonym 'a sbres = "((lj_err + 'a) \<times> sbst) option"

definition lj_str_resizebuf :: "realloc \<Rightarrow> sbst \<Rightarrow> u32 \<Rightarrow> (lj_err + unit) \<times> sbst" where
  "lj_str_resizebuf ra st sz =
     (case st of (g, sb) \<Rightarrow>
        case lj_mem_realloc ra g (sb_sz sb) sz of
          (Inl e, g) \<Rightarrow> (Inl e, g, sb)
        | (Inr u, g) \<Rightarrow> (Inr (), g, sb\<lparr>sb_sz := sz\<rparr>))"

definition lj_str_freebuf :: "sbst \<Rightarrow> gstate" where
  "lj_str_freebuf st = lj_mem_free (fst st) (sb_sz (snd st))"

definition lj_str_needbuf :: "realloc \<Rightarrow> sbst \<Rightarrow> u32 \<Rightarrow> (lj_err + unit) \<times> sbst" where
  "lj_str_needbuf ra st sz =
     (if sb_sz (snd st) < sz then
        let sz = (if sz < LJ_MIN_SBUF then LJ_MIN_SBUF else sz) in lj_str_resizebuf ra st sz
      else (Inr (), st))"

text \<open>The doubling loop of \<open>addstr\<close>; from size 0 it does not end.\<close>

partial_function (option) grow_loop :: "u32 \<Rightarrow> u32 \<Rightarrow> u32 option" where
  [code]: "grow_loop need sz = (if sz < need then grow_loop need (sz * 2) else Some sz)"

definition sb_write :: "SBuf \<Rightarrow> bytes \<Rightarrow> SBuf" where
  "sb_write sb str =
     (let p = unat (sb_n sb) in
      sb\<lparr>sb_n := sb_n sb + of_nat (length str),
         sb_buf := (\<lambda>i. if p \<le> i \<and> i < p + length str then str ! (i - p) else sb_buf sb i)\<rparr>)"

definition addstr :: "realloc \<Rightarrow> sbst \<Rightarrow> bytes \<Rightarrow> unit sbres" where
  "addstr ra st str =
     (let len = of_nat (length str); sb = snd st in
      if sb_sz sb < sb_n sb + len then
        case grow_loop (sb_n sb + len) (sb_sz sb * 2) of
          None \<Rightarrow> None
        | Some sz \<Rightarrow>
            (case lj_str_resizebuf ra st sz of
               (Inl e, st) \<Rightarrow> Some (Inl e, st)
             | (Inr u, g, sb) \<Rightarrow> Some (Inr (), g, sb_write sb str))
      else Some (Inr (), fst st, sb_write sb str))"

definition addchar :: "realloc \<Rightarrow> sbst \<Rightarrow> u8 \<Rightarrow> unit sbres" where
  "addchar ra st c =
     (let sb = snd st in
      if sb_sz sb < sb_n sb + 1 then
        let sz = sb_sz sb * 2 in
        case lj_str_resizebuf ra st sz of
          (Inl e, st) \<Rightarrow> Some (Inl e, st)
        | (Inr u, g, sb) \<Rightarrow> Some (Inr (), g, sb_write sb [c])
      else Some (Inr (), fst st, sb_write sb [c]))"

section \<open>Formatting\<close>

text \<open>The arguments of a vararg call, by the type the caller passed.\<close>

datatype fmt_arg = ArgStr "bytes option" | ArgInt u32 | ArgNum u64 | ArgPtr u64

definition hexdigits :: bytes where
  "hexdigits = [0x30, 0x31, 0x32, 0x33, 0x34, 0x35, 0x36, 0x37, 0x38, 0x39,
     0x61, 0x62, 0x63, 0x64, 0x65, 0x66]"

text \<open>The digit loop writes positions \<open>i\<close> down to 2; \<open>p\<close> is shifted arithmetically.\<close>

fun fmtp_loop :: "bytes \<Rightarrow> nat \<Rightarrow> u64 \<Rightarrow> bytes" where
  "fmtp_loop buf i p =
     (if 2 \<le> i then fmtp_loop (buf[i := hexdigits ! unat (p AND 15)]) (i - 1) (signed_drop_bit 4 p)
      else buf)"

declare fmtp_loop.simps [simp del]

definition fmtp_lasti :: "u64 \<Rightarrow> nat" where
  "fmtp_lasti p =
     2 + 2 * 4 + (if signed_drop_bit 32 p \<noteq> 0
       then 2 + 2 * (lj_fls (ucast (signed_drop_bit 32 p)) div 8) else 0)"

definition fmt_ptr :: "u64 \<Rightarrow> bytes" where
  "fmt_ptr p =
     (if p = 0 then [0x4e, 0x55, 0x4c, 0x4c]
      else take (fmtp_lasti p) (fmtp_loop ([0x30, 0x78] @ replicate 16 0) (fmtp_lasti p - 1) p))"

definition sb_then :: "'a sbres \<Rightarrow> (sbst \<Rightarrow> 'b sbres) \<Rightarrow> 'b sbres" where
  "sb_then r f = (case r of None \<Rightarrow> None | Some (Inl e, st) \<Rightarrow> Some (Inl e, st) | Some (Inr u, st) \<Rightarrow> f st)"

text \<open>One conversion: the bytes are appended and the remaining arguments are returned.\<close>

definition pushvf_conv ::
    "(u64 \<Rightarrow> bytes) \<Rightarrow> realloc \<Rightarrow> sbst \<Rightarrow> u8 \<Rightarrow> fmt_arg list \<Rightarrow> (unit sbres \<times> fmt_arg list) option" where
  "pushvf_conv n2s ra st c args =
     (if c = 0x73 then
        (case args of ArgStr s # args \<Rightarrow>
           Some (addstr ra st (case s of None \<Rightarrow> [0x28, 0x6e, 0x75, 0x6c, 0x6c, 0x29] | Some b \<Rightarrow> b), args)
         | _ \<Rightarrow> None)
      else if c = 0x63 then
        (case args of ArgInt k # args \<Rightarrow> Some (addchar ra st (ucast k), args) | _ \<Rightarrow> None)
      else if c = 0x64 then
        (case args of ArgInt k # args \<Rightarrow>
           (let (buf, p) = lj_str_bufint (replicate LJ_STR_INTBUF 0) k
            in Some (addstr ra st (drop p buf), args))
         | _ \<Rightarrow> None)
      else if c = 0x66 then
        (case args of ArgNum n # args \<Rightarrow> Some (addstr ra st (lj_str_bufnum n2s n), args) | _ \<Rightarrow> None)
      else if c = 0x70 then
        (case args of ArgPtr p # args \<Rightarrow> Some (addstr ra st (fmt_ptr p), args) | _ \<Rightarrow> None)
      else if c = 0x25 then Some (addchar ra st 0x25, args)
      else Some (sb_then (addchar ra st 0x25) (\<lambda>st. addchar ra st c), args))"

function pushvf_loop :: "(u64 \<Rightarrow> bytes) \<Rightarrow> realloc \<Rightarrow> sbst \<Rightarrow> bytes \<Rightarrow> fmt_arg list \<Rightarrow> unit sbres" where
  "pushvf_loop n2s ra st fmt args =
     (case dropWhile (\<lambda>c. c \<noteq> 0x25) fmt of
        [] \<Rightarrow> addstr ra st fmt
      | [e] \<Rightarrow> None
      | e # c # rest \<Rightarrow>
          sb_then (addstr ra st (takeWhile (\<lambda>c. c \<noteq> 0x25) fmt)) (\<lambda>st.
            case pushvf_conv n2s ra st c args of
              None \<Rightarrow> None
            | Some (r, args) \<Rightarrow> sb_then r (\<lambda>st. pushvf_loop n2s ra st rest args)))"
  by pat_completeness auto
termination
proof (relation "measure (\<lambda>(n2s, ra, st, fmt, args). length fmt)", goal_cases)
  case (2 n2s ra st fmt args e x c rest)
  then have "length (e # c # rest) \<le> length fmt" by (metis length_dropWhile_le)
  then show ?case by simp
qed simp

declare pushvf_loop.simps [simp del]

definition lj_str_pushvf ::
    "(u64 \<Rightarrow> bytes) \<Rightarrow> realloc \<Rightarrow> alloc \<Rightarrow> sbst \<Rightarrow> bytes \<Rightarrow> fmt_arg list \<Rightarrow> u32 sbres" where
  "lj_str_pushvf n2s ra al st fmt args =
     sb_then (Some (lj_str_needbuf ra st (of_nat (length fmt)))) (\<lambda>st.
     sb_then (pushvf_loop n2s ra (fst st, lj_str_resetbuf (snd st)) fmt args) (\<lambda>st.
       case lj_str_new al (fst st) (sb_buf (snd st)) 0 (ucast (sb_n (snd st))) of
         (r, g) \<Rightarrow> Some (r, g, snd st)))"


section \<open>Decimal conversion\<close>

text \<open>The reference: decimal digits without leading zeros, and reading them back.\<close>

fun dec_digits :: "nat \<Rightarrow> bytes" where
  "dec_digits n = (if n < 10 then [48 + of_nat n] else dec_digits (n div 10) @ [48 + of_nat (n mod 10)])"

declare dec_digits.simps [simp del]

definition dec_int_bytes :: "int \<Rightarrow> bytes" where
  "dec_int_bytes k = (if k < 0 then 45 # dec_digits (nat (- k)) else dec_digits (nat k))"

definition dec_read :: "bytes \<Rightarrow> int" where
  "dec_read bs =
     (let val = foldl (\<lambda>v c. 10 * v + (int (unat c) - 48)) 0 in
      case bs of c # cs \<Rightarrow> if c = 45 then - val cs else val bs | [] \<Rightarrow> 0)"

lemma dec_digits_nonempty: "dec_digits n \<noteq> []"
  by (subst dec_digits.simps) simp

lemma dec_digits_len: "n < 10 ^ d \<Longrightarrow> 0 < d \<Longrightarrow> length (dec_digits n) \<le> d"
proof (induction n arbitrary: d rule: dec_digits.induct)
  case (1 n)
  show ?case
  proof (cases "n < 10")
    case False
    then obtain d' where d: "d = Suc d'" "0 < d'" using 1 by (cases d; cases "d - 1") auto
    with 1 False have "length (dec_digits (n div 10)) \<le> d'" by (intro "1.IH") auto
    with d False show ?thesis by (subst dec_digits.simps) simp
  qed (use 1 in \<open>subst dec_digits.simps; simp\<close>)
qed

lemma unat_digit: "m < 10 \<Longrightarrow> unat (48 + of_nat m :: u8) = 48 + m"
  by (subst unat_word_ariths) (simp add: unat_of_nat)

lemma uint_digit: "m < 10 \<Longrightarrow> uint (48 + of_nat m :: u8) = 48 + int m"
  using unat_digit [of m] by (metis of_nat_add of_nat_numeral of_nat_unat)

lemma dec_digits_val:
  "foldl (\<lambda>v c. 10 * v + (int (unat c) - 48)) 0 (dec_digits n) = int n"
proof (induction n rule: dec_digits.induct)
  case (1 n)
  then show ?case
    by (subst dec_digits.simps) (simp add: uint_digit zdiv_int zmod_int)
qed

lemma dec_digits_hd: "\<exists>m < 10. hd (dec_digits n) = 48 + of_nat m"
proof (induction n rule: dec_digits.induct)
  case (1 n)
  then show ?case
    by (subst dec_digits.simps) (auto simp: dec_digits_nonempty hd_append dec_digits.simps [of n])
qed

lemma dec_digits_not_minus: "hd (dec_digits n) \<noteq> 45"
proof -
  obtain m where "m < 10" "hd (dec_digits n) = 48 + of_nat m" using dec_digits_hd by blast
  then have "unat (hd (dec_digits n)) = 48 + m" by (simp add: unat_digit)
  then show ?thesis by auto
qed

lemma dec_read_int: "dec_read (dec_int_bytes k) = k"
proof (cases "dec_digits (nat k)")
  case (Cons c cs)
  then have "c \<noteq> 45" using dec_digits_not_minus [of "nat k"] by simp
  then show ?thesis
    using Cons dec_digits_val [of "nat k"] dec_digits_val [of "nat (- k)"]
    by (auto simp: dec_read_def dec_int_bytes_def Let_def)
qed (simp add: dec_digits_nonempty)

lemma bufint_loop_digits:
  assumes "length (dec_digits (unat u)) \<le> p" "p \<le> length buf"
  shows "\<exists>buf'. bufint_loop buf p u = (buf', p - length (dec_digits (unat u))) \<and> length buf' = length buf \<and>
    drop (p - length (dec_digits (unat u))) buf' = dec_digits (unat u) @ drop p buf"
  using assms
proof (induction buf p u rule: bufint_loop.induct)
  case (1 buf p u)
  define c :: u8 where "c = 48 + ucast (u mod 10)"
  have "of_nat (unat (u mod 10)) = (ucast (u mod 10) :: u8)" by (rule of_nat_unat)
  then have c: "c = 48 + of_nat (unat u mod 10)" by (simp add: c_def unat_mod_distrib)
  have p: "0 < p" using "1.prems"(1) dec_digits_nonempty [of "unat u"] by (cases p) auto
  have buf: "drop (p - 1) (buf[p - 1 := c]) = c # drop p buf"
    using p "1.prems"(2) Cons_nth_drop_Suc [of "p - 1" "buf[p - 1 := c]"] by simp
  have div: "unat (u div 10) = unat u div 10" by (simp add: unat_div_distrib)
  show ?case
  proof (cases "u div 10 = 0")
    case True
    then have "unat u div 10 = 0" using div by simp
    then have "unat u < 10" by simp
    then have d: "dec_digits (unat u) = [c]" by (subst dec_digits.simps) (simp add: c)
    show ?thesis using True buf by (subst bufint_loop.simps) (simp add: d c_def [symmetric] Let_def)
  next
    case False
    then have "unat u div 10 \<noteq> 0" using div by (metis unsigned_eq_0_iff)
    then have "\<not> unat u < 10" by simp
    then have d: "dec_digits (unat u) = dec_digits (unat (u div 10)) @ [c]"
      by (subst dec_digits.simps) (simp add: c div)
    have "length (dec_digits (unat (u div 10))) \<le> p - 1" "p - 1 \<le> length (buf[p - 1 := c])"
      using "1.prems" d by auto
    from "1.IH" [OF refl refl refl False, folded c_def, OF this] show ?thesis
      using False buf d p by (subst bufint_loop.simps) (simp add: c_def [symmetric] Let_def)
  qed
qed

lemma abs_unat: "unat (if sint k < 0 then NOT k + 1 else k) = nat \<bar>sint k\<bar>" for k :: u32
proof (cases "sint k < 0")
  case True
  have "uint (word_of_int (- sint k) :: u32) = - sint k"
    using True sint32_range [of k] unfolding uint_word_of_int by (intro mod_pos_pos_trivial) simp_all
  then have "uint (NOT k + 1) = - sint k" by (simp add: minus_eq_not_plus_1 [symmetric])
  then have "int (unat (NOT k + 1)) = - sint k" by simp
  then have "unat (NOT k + 1) = nat (- sint k)" by linarith
  then show ?thesis using True by simp
next
  case False
  then have "int (unat k) = sint k" using unat32_sint [of k] by (simp only: if_False)
  then have "unat k = nat (sint k)" by linarith
  then show ?thesis using False by simp
qed

lemma bufint_digits:
  assumes "length buf = 11"
  shows "\<exists>buf' p. lj_str_bufint buf k = (buf', p) \<and> p \<le> 10 \<and> length buf' = 11 \<and>
    drop p buf' = dec_int_bytes (sint k)"
proof -
  define u where "u = (if sint k < 0 then NOT k + 1 else k)"
  have u: "unat u = nat \<bar>sint k\<bar>" unfolding u_def by (rule abs_unat)
  have "unat u < 10 ^ 10" using unat_lt_32 [of u] by simp
  then have l: "length (dec_digits (unat u)) \<le> 10" by (intro dec_digits_len) simp_all
  have n: "0 < length (dec_digits (unat u))" using dec_digits_nonempty by simp
  obtain buf' where b: "bufint_loop buf 11 u = (buf', 11 - length (dec_digits (unat u)))"
    "length buf' = 11" "drop (11 - length (dec_digits (unat u))) buf' = dec_digits (unat u)"
    using bufint_loop_digits [of u 11 buf] l assms by auto
  define p where "p = 11 - length (dec_digits (unat u))"
  have p: "0 < p" "p \<le> 10" using l n unfolding p_def by linarith+
  have "drop (p - 1) (buf'[p - 1 := 45]) = 45 # drop p buf'"
    using p b(2) Cons_nth_drop_Suc [of "p - 1" "buf'[p - 1 := 45]"] by simp
  moreover have "nat \<bar>sint k\<bar> = nat (if sint k < 0 then - sint k else sint k)" by simp
  ultimately show ?thesis using b(2) p b(3) [folded p_def] b(1) [folded p_def] u
    by (auto simp: lj_str_bufint_def u_def [symmetric] dec_int_bytes_def)
qed


section \<open>Buffer growth and formatting\<close>

definition sb_bytes :: "SBuf \<Rightarrow> bytes" where
  "sb_bytes sb = map (sb_buf sb) [0..<unat (sb_n sb)]"

definition sb_ok :: "SBuf \<Rightarrow> bool" where
  "sb_ok sb \<longleftrightarrow> 0 < unat (sb_sz sb) \<and> unat (sb_n sb) \<le> unat (sb_sz sb)"

text \<open>The doubling ends, with enough room, when the need is below half the address range.\<close>

lemma grow_loop_ends:
  assumes "unat need < 2 ^ 31" "0 < unat sz"
  shows "\<exists>sz'. grow_loop need sz = Some sz' \<and> unat need \<le> unat sz' \<and> 0 < unat sz'"
  using assms(2)
proof (induction "unat need - unat sz" arbitrary: sz rule: less_induct)
  case less
  show ?case
  proof (cases "sz < need")
    case False
    then show ?thesis using less.prems by (subst grow_loop.simps) (simp add: word_less_nat_alt)
  next
    case True
    then have lt: "unat sz < unat need" by (simp add: word_less_nat_alt)
    then have d: "unat (sz * 2) = unat sz * 2"
      using assms(1) by (subst unat_word_ariths) simp
    show ?thesis using less.hyps [of "sz * 2"] less.prems lt True d
      by (subst grow_loop.simps) simp
  qed
qed

definition sb_post :: "sbst \<Rightarrow> bytes \<Rightarrow> unit sbres \<Rightarrow> bool" where
  "sb_post st str res \<longleftrightarrow>
     (case res of None \<Rightarrow> False
      | Some (r, st') \<Rightarrow> (\<exists>t. fst st' = (fst st)\<lparr>gc_total := t\<rparr>) \<and> sb_ok (snd st') \<and>
          (case r of Inl e \<Rightarrow> e = LJ_ERR_ERRMEM
           | Inr u \<Rightarrow> sb_bytes (snd st') = sb_bytes (snd st) @ str))"

lemma sb_then_post:
  assumes "sb_post st s1 r"
    and "\<And>st' t. fst st' = (fst st)\<lparr>gc_total := t\<rparr> \<Longrightarrow> sb_ok (snd st') \<Longrightarrow>
      sb_bytes (snd st') = sb_bytes (snd st) @ s1 \<Longrightarrow> sb_post st' s2 (f st')"
  shows "sb_post st (s1 @ s2) (sb_then r f)"
proof -
  obtain q st' t where r: "r = Some (q, st')" "fst st' = (fst st)\<lparr>gc_total := t\<rparr>" "sb_ok (snd st')"
    "case q of Inl e \<Rightarrow> e = LJ_ERR_ERRMEM | Inr u \<Rightarrow> sb_bytes (snd st') = sb_bytes (snd st) @ s1"
    using assms(1) by (auto simp: sb_post_def split: option.splits prod.splits)
  show ?thesis
  proof (cases q)
    case (Inl e)
    then show ?thesis using r by (auto simp: sb_then_def sb_post_def)
  next
    case (Inr u)
    then have "sb_post st' s2 (f st')" using assms(2) [of st' t] r by auto
    with Inr r show ?thesis
      by (cases "f st'") (auto simp: sb_then_def sb_post_def split: sum.splits)
  qed
qed

lemma sb_write_bytes:
  assumes "unat (sb_n sb) + length str < 2 ^ 32"
  shows "unat (sb_n (sb_write sb str)) = unat (sb_n sb) + length str"
    and "sb_bytes (sb_write sb str) = sb_bytes sb @ str"
    and "sb_sz (sb_write sb str) = sb_sz sb"
proof -
  show n: "unat (sb_n (sb_write sb str)) = unat (sb_n sb) + length str"
    using assms by (simp add: sb_write_def Let_def unat_word_ariths unat_of_nat)
  show "sb_bytes (sb_write sb str) = sb_bytes sb @ str"
    unfolding sb_bytes_def n
    by (rule nth_equalityI) (auto simp: sb_write_def Let_def nth_append)
  show "sb_sz (sb_write sb str) = sb_sz sb" by (simp add: sb_write_def Let_def)
qed

lemma resizebuf_sb:
  "lj_str_resizebuf ra (g, sb) sz = (Inr (), g', sb') \<Longrightarrow>
     sb' = sb\<lparr>sb_sz := sz\<rparr> \<and> (\<exists>t. g' = g\<lparr>gc_total := t\<rparr>)"
  "lj_str_resizebuf ra (g, sb) sz = (Inl e, st') \<Longrightarrow> e = LJ_ERR_ERRMEM \<and> st' = (g, sb)"
  by (auto simp: lj_str_resizebuf_def lj_mem_realloc_def split: if_splits)

lemma gc_total_same: "\<exists>t. g = g\<lparr>gc_total := t\<rparr>" for g :: gstate
  by (rule exI [of _ "gc_total g"]) simp

lemma resize_write_post:
  assumes "sb_ok sb" "unat (sb_n sb) + length str < 2 ^ 31" "unat (sb_n sb) + length str \<le> unat sz" "0 < unat sz"
  shows "sb_post (g, sb) str (case lj_str_resizebuf ra (g, sb) sz of
       (Inl e, st) \<Rightarrow> Some (Inl e, st) | (Inr u, g, sb) \<Rightarrow> Some (Inr (), g, sb_write sb str))"
proof -
  obtain r st' where Pair: "lj_str_resizebuf ra (g, sb) sz = (r, st')" by (metis surj_pair)
  show ?thesis
  proof (cases r)
    case (Inl e)
    with Pair resizebuf_sb(2) [of ra g sb sz e st'] assms(1) show ?thesis
      by (auto simp: sb_post_def intro!: exI [of _ "gc_total g"])
  next
    case (Inr u)
    obtain g' sb' where st': "st' = (g', sb')" by (cases st')
    from resizebuf_sb(1) [of ra g sb sz g' sb'] Pair Inr st'
    obtain t where s: "sb' = sb\<lparr>sb_sz := sz\<rparr>" "g' = g\<lparr>gc_total := t\<rparr>" by auto
    have "unat (sb_n sb') + length str < 2 ^ 32" using assms(2) s by simp
    note w = sb_write_bytes [OF this]
    have "sb_bytes sb' = sb_bytes sb" by (simp add: s sb_bytes_def)
    then show ?thesis using Pair Inr st' s w assms by (auto simp: sb_post_def sb_ok_def)
  qed
qed

lemma addstr_post:
  assumes "sb_ok sb" "unat (sb_n sb) + length str < 2 ^ 31"
  shows "sb_post (g, sb) str (addstr ra (g, sb) str)"
proof -
  define need :: u32 where "need = sb_n sb + of_nat (length str)"
  have need: "unat need = unat (sb_n sb) + length str"
    using assms(2) by (simp add: need_def unat_word_ariths unat_of_nat)
  show ?thesis
  proof (cases "sb_sz sb < need")
    case False
    have "unat (sb_n sb) + length str < 2 ^ 32" using assms(2) by simp
    note w = sb_write_bytes [OF this]
    from False have "unat need \<le> unat (sb_sz sb)" by (simp add: word_less_nat_alt)
    with False assms w need show ?thesis
      by (auto simp: addstr_def need_def [symmetric] sb_post_def sb_ok_def intro!: exI [of _ "gc_total g"])
  next
    case True
    then have "unat (sb_sz sb) < unat need" by (simp add: word_less_nat_alt)
    then have "unat (sb_sz sb * 2) = unat (sb_sz sb) * 2"
      using assms(2) need by (subst unat_word_ariths) simp
    then have "0 < unat (sb_sz sb * 2)" using assms(1) by (simp add: sb_ok_def)
    from grow_loop_ends [OF _ this, of need] need assms(2)
    obtain sz where sz: "grow_loop need (sb_sz sb * 2) = Some sz" "unat need \<le> unat sz" "0 < unat sz"
      by auto
    show ?thesis
      using resize_write_post [OF assms _ sz(3), of g ra] sz need True
      by (simp add: addstr_def need_def [symmetric])
  qed
qed

lemma addchar_post:
  assumes "sb_ok sb" "unat (sb_n sb) + 1 < 2 ^ 31"
  shows "sb_post (g, sb) [c] (addchar ra (g, sb) c)"
proof -
  have n1: "unat (sb_n sb + 1) = unat (sb_n sb) + 1"
    using assms(2) by (simp add: unat_word_ariths)
  show ?thesis
  proof (cases "sb_sz sb < sb_n sb + 1")
    case False
    have "unat (sb_n sb) + length [c] < 2 ^ 32" using assms(2) by simp
    note w = sb_write_bytes [OF this]
    from False n1 have "unat (sb_n sb) + 1 \<le> unat (sb_sz sb)" by (simp add: word_less_nat_alt)
    with False assms w show ?thesis
      by (auto simp: addchar_def sb_post_def sb_ok_def intro!: exI [of _ "gc_total g"])
  next
    case True
    then have *: "unat (sb_sz sb) = unat (sb_n sb)"
      using n1 assms(1) by (simp add: word_less_nat_alt sb_ok_def)
    then have "unat (sb_sz sb * 2) = unat (sb_sz sb) * 2"
      using assms(2) by (subst unat_word_ariths) simp
    with * assms(1) have "0 < unat (sb_sz sb * 2)" "unat (sb_n sb) + length [c] \<le> unat (sb_sz sb * 2)"
      by (auto simp: sb_ok_def)
    then show ?thesis
      using resize_write_post [OF assms(1), of "[c]" "sb_sz sb * 2" g ra] assms(2) True
      by (simp add: addchar_def)
  qed
qed


text \<open>The reference for a format: what each conversion appends, and the arguments it leaves.\<close>

definition fmt_conv :: "(u64 \<Rightarrow> bytes) \<Rightarrow> u8 \<Rightarrow> fmt_arg list \<Rightarrow> (bytes \<times> fmt_arg list) option" where
  "fmt_conv n2s c args =
     (if c = 0x73 then (case args of ArgStr s # args \<Rightarrow>
           Some (case s of None \<Rightarrow> [0x28, 0x6e, 0x75, 0x6c, 0x6c, 0x29] | Some b \<Rightarrow> b, args) | _ \<Rightarrow> None)
      else if c = 0x63 then (case args of ArgInt k # args \<Rightarrow> Some ([ucast k], args) | _ \<Rightarrow> None)
      else if c = 0x64 then (case args of ArgInt k # args \<Rightarrow> Some (dec_int_bytes (sint k), args) | _ \<Rightarrow> None)
      else if c = 0x66 then (case args of ArgNum n # args \<Rightarrow> Some (lj_str_bufnum n2s n, args) | _ \<Rightarrow> None)
      else if c = 0x70 then (case args of ArgPtr p # args \<Rightarrow> Some (fmt_ptr p, args) | _ \<Rightarrow> None)
      else if c = 0x25 then Some ([0x25], args)
      else Some ([0x25, c], args))"

fun fmt_spec :: "(u64 \<Rightarrow> bytes) \<Rightarrow> bytes \<Rightarrow> fmt_arg list \<Rightarrow> bytes option" where
  "fmt_spec n2s [] args = Some []"
| "fmt_spec n2s [c] args = (if c = 0x25 then None else Some [c])"
| "fmt_spec n2s (c # d # fmt) args =
     (if c = 0x25 then
        case fmt_conv n2s d args of None \<Rightarrow> None
        | Some (out, args) \<Rightarrow> map_option ((@) out) (fmt_spec n2s fmt args)
      else map_option ((#) c) (fmt_spec n2s (d # fmt) args))"

lemma fmt_spec_literal:
  "fmt_spec n2s fmt args =
     (case dropWhile (\<lambda>c. c \<noteq> 0x25) fmt of
        [] \<Rightarrow> Some fmt
      | [e] \<Rightarrow> None
      | e # c # rest \<Rightarrow>
          (case fmt_conv n2s c args of None \<Rightarrow> None
           | Some (out, args) \<Rightarrow>
               map_option (\<lambda>r. takeWhile (\<lambda>c. c \<noteq> 0x25) fmt @ out @ r) (fmt_spec n2s rest args)))"
proof (induction n2s fmt args rule: fmt_spec.induct)
  case (3 n2s c d fmt args)
  show ?case
  proof (cases "c = 0x25")
    case True
    then show ?thesis by (simp split: option.split)
  next
    case False
    note IH = "3.IH"(2) [OF False]
    have dw: "dropWhile (\<lambda>c. c \<noteq> 0x25) (c # d # fmt) = dropWhile (\<lambda>c. c \<noteq> 0x25) (d # fmt)"
      "takeWhile (\<lambda>c. c \<noteq> 0x25) (c # d # fmt) = c # takeWhile (\<lambda>c. c \<noteq> 0x25) (d # fmt)"
      using False by simp_all
    have "fmt_spec n2s (c # d # fmt) args = map_option ((#) c) (fmt_spec n2s (d # fmt) args)"
      using False by simp
    then show ?thesis unfolding dw IH
      by (cases "dropWhile (\<lambda>c. c \<noteq> 0x25) (d # fmt)"; cases "tl (dropWhile (\<lambda>c. c \<noteq> 0x25) (d # fmt))")
        (simp_all add: option.map_comp comp_def split: option.split del: dropWhile.simps takeWhile.simps
          dropWhile_eq_Nil_conv)
  qed
qed simp_all

lemma pushvf_conv_post:
  assumes "fmt_conv n2s c args = Some (out, args')" "sb_ok sb" "unat (sb_n sb) + length out < 2 ^ 31"
  shows "\<exists>r. pushvf_conv n2s ra (g, sb) c args = Some (r, args') \<and> sb_post (g, sb) out r"
proof (cases "c = 0x64")
  case True
  with assms(1) obtain k where k: "args = ArgInt k # args'" "out = dec_int_bytes (sint k)"
    by (auto simp: fmt_conv_def split: list.splits fmt_arg.splits)
  obtain buf p where "lj_str_bufint (replicate LJ_STR_INTBUF 0) k = (buf, p)" "drop p buf = out"
    using bufint_digits [of "replicate LJ_STR_INTBUF 0" k] k by (auto simp: LJ_STR_INTBUF_def)
  then show ?thesis using True k addstr_post [OF assms(2,3)]
    by (simp add: pushvf_conv_def)
next
  case False
  show ?thesis
  proof (cases "c \<in> {0x73, 0x63, 0x66, 0x70, 0x25}")
    case True
    with assms(1) addstr_post [OF assms(2,3), of g ra] addchar_post [OF assms(2), of g _ ra] assms(3)
    show ?thesis
      by (auto simp: fmt_conv_def pushvf_conv_def split: list.splits fmt_arg.splits if_splits)
  next
    case other: False
    then have out: "out = [0x25] @ [c]" "args' = args" using False assms(1) by (auto simp: fmt_conv_def)
    have "sb_post (g, sb) ([0x25] @ [c]) (sb_then (addchar ra (g, sb) 0x25) (\<lambda>st. addchar ra st c))"
    proof (rule sb_then_post)
      show "sb_post (g, sb) [0x25] (addchar ra (g, sb) 0x25)"
        using assms(3) out by (intro addchar_post assms) simp
      fix st' t
      assume "fst st' = (fst (g, sb))\<lparr>gc_total := t\<rparr>" and ok: "sb_ok (snd st')"
        and b: "sb_bytes (snd st') = sb_bytes (snd (g, sb)) @ [0x25]"
      from arg_cong [OF b, of length] have "unat (sb_n (snd st')) = unat (sb_n sb) + 1"
        by (simp add: sb_bytes_def)
      then show "sb_post st' [c] (addchar ra st' c)"
        using addchar_post [OF ok, of "fst st'" c ra] assms(3) out by simp
    qed
    then show ?thesis using other False out by (simp add: pushvf_conv_def)
  qed
qed

lemma pushvf_loop_post:
  assumes "fmt_spec n2s fmt args = Some out" "sb_ok (snd st)" "unat (sb_n (snd st)) + length out < 2 ^ 31"
  shows "sb_post st out (pushvf_loop n2s ra st fmt args)"
  using assms
proof (induction "length fmt" arbitrary: fmt st args out rule: less_induct)
  case less
  obtain g sb where st: "st = (g, sb)" by (cases st)
  define lit where "lit = takeWhile (\<lambda>c. c \<noteq> 0x25) fmt"
  note spec = less.prems(1) [unfolded fmt_spec_literal [of n2s fmt]]
  consider (none) "dropWhile (\<lambda>c. c \<noteq> 0x25) fmt = []"
    | (one) e where "dropWhile (\<lambda>c. c \<noteq> 0x25) fmt = [e]"
    | (conv) e c rest where "dropWhile (\<lambda>c. c \<noteq> 0x25) fmt = e # c # rest"
    by (metis list.exhaust)
  then show ?case
  proof cases
    case none
    then show ?thesis using spec addstr_post [of sb fmt g ra] less.prems(2,3) st
      by (subst pushvf_loop.simps) (simp del: dropWhile_eq_Nil_conv)
  next
    case one
    then show ?thesis using spec by simp
  next
    case conv
    then obtain o1 args1 o2 where o: "fmt_conv n2s c args = Some (o1, args1)"
      "fmt_spec n2s rest args1 = Some o2" "out = lit @ o1 @ o2"
      using spec by (auto simp: lit_def split: option.splits)
    have len: "length rest < length fmt"
      using length_dropWhile_le [of "\<lambda>c. c \<noteq> 0x25" fmt] conv by simp
    have bnd: "unat (sb_n sb) + length lit + length o1 + length o2 < 2 ^ 31"
      using less.prems(3) st o by simp
    have "sb_post st (lit @ o1 @ o2) (sb_then (addstr ra st lit) (\<lambda>st.
       case pushvf_conv n2s ra st c args of None \<Rightarrow> None
       | Some (r, args) \<Rightarrow> sb_then r (\<lambda>st. pushvf_loop n2s ra st rest args)))"
    proof (rule sb_then_post)
      show "sb_post st lit (addstr ra st lit)"
        unfolding st using less.prems(2) st bnd by (intro addstr_post) simp_all
      fix st1 :: sbst and t
      assume ok1: "sb_ok (snd st1)" and b1: "sb_bytes (snd st1) = sb_bytes (snd st) @ lit"
      from arg_cong [OF b1, of length] have n1: "unat (sb_n (snd st1)) = unat (sb_n sb) + length lit"
        by (simp add: sb_bytes_def st)
      from pushvf_conv_post [OF o(1) ok1, of ra "fst st1"] n1 bnd obtain r where
        r: "pushvf_conv n2s ra st1 c args = Some (r, args1)" "sb_post st1 o1 r" by auto
      have "sb_post st1 (o1 @ o2) (sb_then r (\<lambda>st. pushvf_loop n2s ra st rest args1))"
      proof (rule sb_then_post [OF r(2)])
        fix st2 :: sbst and t
        assume ok2: "sb_ok (snd st2)" and b2: "sb_bytes (snd st2) = sb_bytes (snd st1) @ o1"
        from arg_cong [OF b2, of length] have "unat (sb_n (snd st2)) = unat (sb_n (snd st1)) + length o1"
          by (simp add: sb_bytes_def)
        then show "sb_post st2 o2 (pushvf_loop n2s ra st2 rest args1)"
          using n1 bnd by (intro less.hyps [OF len o(2) ok2]) simp
      qed
      then show "sb_post st1 (o1 @ o2) (case pushvf_conv n2s ra st1 c args of None \<Rightarrow> None
         | Some (r, args) \<Rightarrow> sb_then r (\<lambda>st. pushvf_loop n2s ra st rest args))"
        using r by simp
    qed
    then show ?thesis using conv o by (subst pushvf_loop.simps) (simp add: lit_def)
  qed
qed


lemma needbuf_sb:
  assumes "lj_str_needbuf ra (g, sb) sz = (r, st')"
  shows "\<exists>t. fst st' = g\<lparr>gc_total := t\<rparr>"
    and "case r of Inl e \<Rightarrow> e = LJ_ERR_ERRMEM
      | Inr u \<Rightarrow> sb_buf (snd st') = sb_buf sb \<and> unat sz \<le> unat (sb_sz (snd st'))"
  using assms
  by (auto simp: lj_str_needbuf_def lj_str_resizebuf_def lj_mem_realloc_def LJ_MIN_SBUF_def word_less_nat_alt
      Let_def intro: gc_total_same split: if_splits)

lemma pushvf_empty: "pushvf_loop n2s ra st [] args = addstr ra st []"
  by (subst pushvf_loop.simps) simp

section \<open>Properties\<close>

text \<open>C33: \<open>lj_str_bufint\<close> writes the canonical decimal form of every 32 bit integer, including the
  most negative one, right-aligned in its 11 byte buffer without underrunning it, and reading the
  digits back gives the integer.\<close>

theorem bufint_roundtrip:
  assumes "length buf = LJ_STR_INTBUF"
  shows "case lj_str_bufint buf k of (buf', p) \<Rightarrow>
    p < LJ_STR_INTBUF \<and> length buf' = LJ_STR_INTBUF \<and>
    drop p buf' = dec_int_bytes (sint k) \<and> dec_read (drop p buf') = sint k"
  using bufint_digits [of buf k] assms by (auto simp: LJ_STR_INTBUF_def dec_read_int)

theorem bufint_roundtrip_witness:
  "case lj_str_bufint (replicate 11 0) (- 123) of (buf', p) \<Rightarrow>
    p < LJ_STR_INTBUF \<and> length buf' = LJ_STR_INTBUF \<and>
    drop p buf' = dec_int_bytes (sint (- 123 :: u32)) \<and> dec_read (drop p buf') = sint (- 123 :: u32)"
  by (rule bufint_roundtrip) (simp add: LJ_STR_INTBUF_def)




end
