(* ===== verification/LJ_Tab.thy ===== *)
theory LJ_Tab
  imports LJ_StrFmt
begin

text \<open>
  Tables (\<open>lj_tab.c\<close>, \<open>lj_tab.h\<close>): an array part and a chained scatter hash part with Brent's
  variation. The nodes are a list, a \<open>next\<close> pointer is the index of a node or none, and the
  \<open>freetop\<close> field that the code keeps in node 0 is a field of the table. A pointer to a value
  slot is a \<open>slot\<close>. What the table code reads of its surroundings is an environment: the
  pluggable allocator's answers, the hash field of the string object at an address, and the
  contents of freshly allocated memory. A loop that follows a chain is a partial function, so that
  a cyclic chain is the value \<open>None\<close>, which also stands for a null or wild dereference. Inserting
  a key may rehash, which inserts keys; the insertion of keys is a parameter of the operations it
  is used in and is tied to itself with fuel at the end. Counts of live slots are natural numbers:
  they are bounded by the part sizes, at most \<open>2 ^ 28\<close>.
\<close>

section \<open>State\<close>

record Node =
  n_val :: TValue
  n_key :: TValue
  n_next :: "nat option"

text \<open>\<open>g_total\<close> is \<open>g->gc.total\<close>; \<open>t_again\<close> says that the table is linked on \<open>gc.grayagain\<close>.\<close>

record GCtab =
  t_marked :: u8
  t_again :: bool
  t_nomm :: u8
  t_colo :: int
  t_array :: "TValue list"
  t_node :: "Node list"
  t_freetop :: nat
  t_asize :: u32
  t_hmask :: u32
  g_total :: u32

record tabenv =
  e_alloc :: "u32 \<Rightarrow> u32 \<Rightarrow> bool"
  e_strhash :: "u32 \<Rightarrow> u32"
  e_junk :: Node
  e_white :: u8

datatype slot = SNil | SArr nat | SHash nat

type_synonym 'a tres = "((lj_err + 'a) \<times> GCtab) option"
type_synonym inserter = "GCtab \<Rightarrow> TValue \<Rightarrow> slot tres"

definition LJ_MAX_HBITS :: nat where "LJ_MAX_HBITS = 26"
definition LJ_MAX_ABITS :: nat where "LJ_MAX_ABITS = 28"
definition LJ_MAX_ASIZE :: nat where "LJ_MAX_ASIZE = 2 ^ (LJ_MAX_ABITS - 1) + 1"
definition LJ_MAX_COLOSIZE :: u32 where "LJ_MAX_COLOSIZE = 16"
definition sizeof_GCtab :: u32 where "sizeof_GCtab = 32"
definition sizeof_Node :: u32 where "sizeof_Node = 24"
definition sizeof_TValue :: u32 where "sizeof_TValue = 8"
definition LJ_GC_BLACK :: u8 where "LJ_GC_BLACK = 0x04"

definition tbind :: "'a tres \<Rightarrow> (GCtab \<Rightarrow> 'a \<Rightarrow> 'b tres) \<Rightarrow> 'b tres" where
  "tbind r f = (case r of None \<Rightarrow> None | Some (Inl e, t) \<Rightarrow> Some (Inl e, t) | Some (Inr x, t) \<Rightarrow> f t x)"

definition t_realloc :: "tabenv \<Rightarrow> GCtab \<Rightarrow> u32 \<Rightarrow> u32 \<Rightarrow> unit tres" where
  "t_realloc e t osz nsz =
     (if \<not> e_alloc e osz nsz \<and> 0 < nsz then Some (Inl LJ_ERR_ERRMEM, t)
      else Some (Inr (), t\<lparr>g_total := (g_total t - osz) + nsz\<rparr>))"

definition slot_get :: "GCtab \<Rightarrow> slot \<Rightarrow> TValue" where
  "slot_get t s = (case s of SNil \<Rightarrow> mk_tv 0 LJ_TNIL | SArr i \<Rightarrow> t_array t ! i | SHash i \<Rightarrow> n_val (t_node t ! i))"

definition upd_node :: "nat \<Rightarrow> (Node \<Rightarrow> Node) \<Rightarrow> Node list \<Rightarrow> Node list" where
  "upd_node i f ns = ns[i := f (ns ! i)]"

text \<open>\<open>copyTV\<close> through a slot pointer.\<close>

definition slot_set :: "GCtab \<Rightarrow> slot \<Rightarrow> TValue \<Rightarrow> GCtab" where
  "slot_set t s v =
     (case s of SNil \<Rightarrow> t
      | SArr i \<Rightarrow> t\<lparr>t_array := (t_array t)[i := v]\<rparr>
      | SHash i \<Rightarrow> t\<lparr>t_node := upd_node i (\<lambda>n. n\<lparr>n_val := v\<rparr>) (t_node t)\<rparr>)"

section \<open>Object hashing\<close>

definition HASH_BIAS :: u32 where "HASH_BIAS = - 0x04c11db7"
definition HASH_ROT1 :: nat where "HASH_ROT1 = 14"
definition HASH_ROT2 :: nat where "HASH_ROT2 = 5"
definition HASH_ROT3 :: nat where "HASH_ROT3 = 13"

definition hashrot :: "u32 \<Rightarrow> u32 \<Rightarrow> u32" where
  "hashrot lo hi =
     (let lo = lo XOR hi; hi = lj_rol hi HASH_ROT1;
          lo = lo - hi; hi = lj_rol hi HASH_ROT2;
          hi = hi XOR lo; hi = hi - lj_rol lo HASH_ROT3
      in hi)"

definition hashmask :: "GCtab \<Rightarrow> u32 \<Rightarrow> nat" where
  "hashmask t hash = unat (hash AND t_hmask t)"

definition hashstr :: "tabenv \<Rightarrow> GCtab \<Rightarrow> u32 \<Rightarrow> nat" where
  "hashstr e t s = hashmask t (e_strhash e s)"

definition hashlohi :: "GCtab \<Rightarrow> u32 \<Rightarrow> u32 \<Rightarrow> nat" where
  "hashlohi t lo hi = hashmask t (hashrot lo hi)"

definition hashnum :: "GCtab \<Rightarrow> TValue \<Rightarrow> nat" where
  "hashnum t tv = hashlohi t (tv_lo tv) (push_bit 1 (tv_hi tv))"

definition hashgcref :: "GCtab \<Rightarrow> u32 \<Rightarrow> nat" where
  "hashgcref t r = hashlohi t r (r + HASH_BIAS)"

definition hashkey :: "tabenv \<Rightarrow> GCtab \<Rightarrow> TValue \<Rightarrow> nat" where
  "hashkey e t key =
     (if tvisstr key then hashstr e t (gcrV key)
      else if tvisnum key then hashnum t key
      else if tvisbool key then hashmask t (boolV key)
      else hashgcref t (gcrV key))"

section \<open>Creation and destruction\<close>

definition newhpart :: "tabenv \<Rightarrow> GCtab \<Rightarrow> nat \<Rightarrow> unit tres" where
  "newhpart e t hbits =
     (if LJ_MAX_HBITS < hbits then Some (Inl LJ_ERR_TABOV, t)
      else let hsize = push_bit hbits 1 in
        tbind (t_realloc e t 0 (hsize * sizeof_Node)) (\<lambda>t u.
          Some (Inr (), t\<lparr>t_node := replicate (unat hsize) (e_junk e), t_freetop := unat hsize,
            t_hmask := hsize - 1\<rparr>)))"

definition clear_node :: "Node \<Rightarrow> Node" where
  "clear_node n = n\<lparr>n_next := None, n_key := setnilV (n_key n), n_val := setnilV (n_val n)\<rparr>"

definition clearhpart :: "GCtab \<Rightarrow> GCtab" where
  "clearhpart t =
     t\<lparr>t_node := foldl (\<lambda>ns i. upd_node i clear_node ns) (t_node t) [0..<unat (t_hmask t) + 1]\<rparr>"

definition clearapart :: "GCtab \<Rightarrow> GCtab" where
  "clearapart t =
     t\<lparr>t_array := foldl (\<lambda>a i. a[i := setnilV (a ! i)]) (t_array t) [0..<unat (t_asize t)]\<rparr>"

definition nilnode :: Node where
  "nilnode = \<lparr>n_val = mk_tv 0 LJ_TNIL, n_key = mk_tv 0 LJ_TNIL, n_next = None\<rparr>"

definition sizetabcolo :: "u32 \<Rightarrow> u32" where "sizetabcolo n = n * sizeof_TValue + sizeof_GCtab"

definition empty_tab :: "tabenv \<Rightarrow> u32 \<Rightarrow> GCtab" where
  "empty_tab e tot =
     \<lparr>t_marked = e_white e, t_again = False, t_nomm = NOT 0, t_colo = 0, t_array = [],
      t_node = [nilnode], t_freetop = 0, t_asize = 0, t_hmask = 0, g_total = tot\<rparr>"

definition newtab :: "tabenv \<Rightarrow> u32 \<Rightarrow> u32 \<Rightarrow> nat \<Rightarrow> unit tres" where
  "newtab e tot asize hbits =
     tbind
       (if 0 < asize \<and> asize \<le> LJ_MAX_COLOSIZE then
          if \<not> e_alloc e 0 (sizetabcolo asize) then Some (Inl LJ_ERR_ERRMEM, empty_tab e tot)
          else Some (Inr (), (empty_tab e (tot + sizetabcolo asize))
                 \<lparr>t_colo := int (unat asize), t_asize := asize,
                  t_array := replicate (unat asize) (n_val (e_junk e))\<rparr>)
        else
          if \<not> e_alloc e 0 sizeof_GCtab then Some (Inl LJ_ERR_ERRMEM, empty_tab e tot)
          else
            let t = empty_tab e (tot + sizeof_GCtab) in
            if 0 < asize then
              if LJ_MAX_ASIZE < unat asize then Some (Inl LJ_ERR_TABOV, t)
              else tbind (t_realloc e t 0 (asize * sizeof_TValue)) (\<lambda>t u.
                Some (Inr (), t\<lparr>t_array := replicate (unat asize) (n_val (e_junk e)), t_asize := asize\<rparr>))
            else Some (Inr (), t))
       (\<lambda>t u. if hbits \<noteq> 0 then newhpart e t hbits else Some (Inr (), t))"

definition lj_tab_new :: "tabenv \<Rightarrow> u32 \<Rightarrow> u32 \<Rightarrow> nat \<Rightarrow> unit tres" where
  "lj_tab_new e tot asize hbits =
     tbind (newtab e tot asize hbits) (\<lambda>t u.
       let t = clearapart t in Some (Inr (), if 0 < t_hmask t then clearhpart t else t))"

definition lj_tab_new1 :: "tabenv \<Rightarrow> u32 \<Rightarrow> u32 \<Rightarrow> unit tres" where
  "lj_tab_new1 e tot ahsize =
     tbind (newtab e tot (ahsize AND 0xffffff) (unat (drop_bit 24 ahsize))) (\<lambda>t u.
       let t = clearapart t in Some (Inr (), if 0 < t_hmask t then clearhpart t else t))"

text \<open>Pointers are relocated by the distance of the two node arrays; indices stay the same.\<close>

definition lj_tab_dup :: "tabenv \<Rightarrow> u32 \<Rightarrow> GCtab \<Rightarrow> unit tres" where
  "lj_tab_dup e tot kt =
     tbind (newtab e tot (t_asize kt) (if 0 < t_hmask kt then lj_fls (t_hmask kt) + 1 else 0)) (\<lambda>t u.
       let t = t\<lparr>t_nomm := 0\<rparr>;
           t = (if 0 < t_asize kt then
                  t\<lparr>t_array := foldl (\<lambda>a i. a[i := t_array kt ! i]) (t_array t) [0..<unat (t_asize kt)]\<rparr>
                else t);
           t = (if 0 < t_hmask kt then
                  t\<lparr>t_freetop := t_freetop kt,
                    t_node := foldl (\<lambda>ns i. upd_node i (\<lambda>n. n\<lparr>n_val := n_val (t_node kt ! i),
                        n_key := n_key (t_node kt ! i), n_next := n_next (t_node kt ! i)\<rparr>) ns)
                      (t_node t) [0..<unat (t_hmask kt) + 1]\<rparr>
                else t)
       in Some (Inr (), t))"

definition lj_tab_free :: "GCtab \<Rightarrow> u32" where
  "lj_tab_free t =
     (let g = g_total t;
          g = (if 0 < t_hmask t then g - (t_hmask t + 1) * sizeof_Node else g);
          g = (if 0 < t_asize t \<and> t_colo t \<le> 0 then g - t_asize t * sizeof_TValue else g)
      in if t_colo t \<noteq> 0 then g - sizetabcolo (word_of_int (t_colo t) AND 0x7f)
         else g - sizeof_GCtab)"

section \<open>Getters\<close>

text \<open>The loop that all lookups share: follow the chain from node \<open>i\<close> to the first match.\<close>

partial_function (option) node_find :: "Node list \<Rightarrow> (Node \<Rightarrow> bool) \<Rightarrow> nat \<Rightarrow> nat option option" where
  [code]: "node_find ns P i =
     (if P (ns ! i) then Some (Some i)
      else case n_next (ns ! i) of None \<Rightarrow> Some None | Some j \<Rightarrow> node_find ns P j)"

definition inarray :: "GCtab \<Rightarrow> u32 \<Rightarrow> bool" where
  "inarray t key \<longleftrightarrow> key < t_asize t"

definition lj_tab_getinth :: "GCtab \<Rightarrow> u32 \<Rightarrow> slot option option" where
  "lj_tab_getinth t key =
     (let k = num_of_int (sint key) in
      map_option (map_option SHash)
        (node_find (t_node t) (\<lambda>n. tvisnum (n_key n) \<and> num_eq (n_key n) k) (hashnum t k)))"

definition lj_tab_getint :: "GCtab \<Rightarrow> u32 \<Rightarrow> slot option option" where
  "lj_tab_getint t key =
     (if inarray t key then Some (Some (SArr (unat key))) else lj_tab_getinth t key)"

definition lj_tab_getstr :: "tabenv \<Rightarrow> GCtab \<Rightarrow> u32 \<Rightarrow> slot option option" where
  "lj_tab_getstr e t key =
     map_option (map_option SHash)
       (node_find (t_node t) (\<lambda>n. tvisstr (n_key n) \<and> gcrV (n_key n) = key) (hashstr e t key))"

definition or_nil :: "slot option option \<Rightarrow> slot option" where
  "or_nil r = map_option (\<lambda>s. case s of None \<Rightarrow> SNil | Some s \<Rightarrow> s) r"

definition genlookup :: "tabenv \<Rightarrow> GCtab \<Rightarrow> TValue \<Rightarrow> slot option option" where
  "genlookup e t key =
     map_option (map_option SHash)
       (node_find (t_node t) (\<lambda>n. lj_obj_equal (n_key n) key) (hashkey e t key))"

definition lj_tab_get :: "tabenv \<Rightarrow> GCtab \<Rightarrow> TValue \<Rightarrow> slot option" where
  "lj_tab_get e t key =
     (if tvisstr key then or_nil (lj_tab_getstr e t (gcrV key))
      else if tvisint key then or_nil (lj_tab_getint t (tv_lo key))
      else if tvisnum key then
        let k = lj_num2int key in
        if num_eq key (num_of_int (sint k)) then or_nil (lj_tab_getint t k)
        else or_nil (genlookup e t key)
      else if \<not> tvisnil key then or_nil (genlookup e t key)
      else Some SNil)"

section \<open>Setters\<close>

definition lj_gc_anybarriert :: "GCtab \<Rightarrow> GCtab" where
  "lj_gc_anybarriert t =
     (if t_marked t AND LJ_GC_BLACK \<noteq> 0 then t\<lparr>t_marked := t_marked t AND NOT LJ_GC_BLACK, t_again := True\<rparr>
      else t)"

fun find_free :: "Node list \<Rightarrow> nat \<Rightarrow> nat option" where
  "find_free ns 0 = None"
| "find_free ns (Suc i) = (if tvisnil (n_key (ns ! i)) then Some i else find_free ns i)"

partial_function (option) pred_find :: "Node list \<Rightarrow> nat \<Rightarrow> nat \<Rightarrow> nat option" where
  [code]: "pred_find ns n c =
     (if n_next (ns ! c) = Some n then Some c
      else case n_next (ns ! c) of None \<Rightarrow> None | Some c' \<Rightarrow> pred_find ns n c')"

partial_function (option) rechain_rest :: "(TValue \<Rightarrow> nat) \<Rightarrow> Node list \<Rightarrow> nat \<Rightarrow> Node list option" where
  [code]: "rechain_rest mp ns freenode =
     (case n_next (ns ! freenode) of
        None \<Rightarrow> Some ns
      | Some nn \<Rightarrow>
          if \<not> tvisnil (n_val (ns ! nn)) then
            let mn = mp (n_key (ns ! nn)) in
            if mn \<noteq> freenode \<and> mn \<noteq> nn then
              let ns = upd_node freenode (\<lambda>x. x\<lparr>n_next := n_next (ns ! nn)\<rparr>) ns;
                  ns = upd_node nn (\<lambda>x. x\<lparr>n_next := n_next (ns ! mn)\<rparr>) ns;
                  ns = upd_node mn (\<lambda>x. x\<lparr>n_next := Some nn\<rparr>) ns
              in rechain_rest mp ns freenode
            else rechain_rest mp ns nn
          else rechain_rest mp ns nn)"

partial_function (option) rechain :: "(TValue \<Rightarrow> nat) \<Rightarrow> nat \<Rightarrow> Node list \<Rightarrow> nat \<Rightarrow> Node list option" where
  [code]: "rechain mp n ns freenode =
     (case n_next (ns ! freenode) of
        None \<Rightarrow> Some ns
      | Some nn \<Rightarrow>
          if \<not> tvisnil (n_val (ns ! nn)) \<and> mp (n_key (ns ! nn)) = n then
            let ns = upd_node freenode (\<lambda>x. x\<lparr>n_next := n_next (ns ! nn)\<rparr>) ns;
                ns = upd_node nn (\<lambda>x. x\<lparr>n_next := n_next (ns ! n)\<rparr>) ns;
                ns = upd_node n (\<lambda>x. x\<lparr>n_next := Some nn\<rparr>) ns
            in rechain_rest mp ns freenode
          else rechain mp n ns nn)"

text \<open>The tail of \<open>lj_tab_newkey\<close>: store the key at the chosen node.\<close>

definition store_key :: "GCtab \<Rightarrow> nat \<Rightarrow> TValue \<Rightarrow> slot tres" where
  "store_key t n key =
     (let t = t\<lparr>t_node := upd_node n (\<lambda>x. x\<lparr>n_key := key\<rparr>) (t_node t)\<rparr>;
          t = (if tvismzero (n_key (t_node t ! n)) then
                 t\<lparr>t_node := upd_node n (\<lambda>x. x\<lparr>n_key := 0\<rparr>) (t_node t)\<rparr> else t);
          t = lj_gc_anybarriert t
      in Some (Inr (SHash n), t))"

text \<open>Move the colliding node \<open>n\<close> to \<open>freenode\<close>, and rechain what hashes to \<open>n\<close>.\<close>

definition move_colliding :: "tabenv \<Rightarrow> GCtab \<Rightarrow> nat \<Rightarrow> nat \<Rightarrow> nat \<Rightarrow> GCtab option" where
  "move_colliding e t n collide freenode =
     (case pred_find (t_node t) n collide of
        None \<Rightarrow> None
      | Some p \<Rightarrow>
          let ns = upd_node p (\<lambda>x. x\<lparr>n_next := Some freenode\<rparr>) (t_node t);
              ns = upd_node freenode (\<lambda>x. x\<lparr>n_val := n_val (ns ! n), n_key := n_key (ns ! n),
                     n_next := n_next (ns ! n)\<rparr>) ns;
              ns = upd_node n (\<lambda>x. x\<lparr>n_next := None, n_val := setnilV (n_val x)\<rparr>) ns
          in case rechain (hashkey e t) n ns freenode of
               None \<Rightarrow> None
             | Some ns \<Rightarrow> Some (t\<lparr>t_node := ns\<rparr>))"

definition newkey_body ::
    "tabenv \<Rightarrow> (GCtab \<Rightarrow> TValue \<Rightarrow> unit tres) \<Rightarrow> inserter \<Rightarrow> GCtab \<Rightarrow> TValue \<Rightarrow> slot tres" where
  "newkey_body e rehash tab_set t key =
     (let n = hashkey e t key in
      if \<not> tvisnil (n_val (t_node t ! n)) \<or> t_hmask t = 0 then
        case find_free (t_node t) (t_freetop t) of
          None \<Rightarrow> tbind (rehash t key) (\<lambda>t u. tab_set t key)
        | Some freenode \<Rightarrow>
            let t = t\<lparr>t_freetop := freenode\<rparr>;
                collide = hashkey e t (n_key (t_node t ! n))
            in if collide \<noteq> n then
                 case move_colliding e t n collide freenode of
                   None \<Rightarrow> None
                 | Some t \<Rightarrow> store_key t n key
               else
                 let ns = upd_node freenode (\<lambda>x. x\<lparr>n_next := n_next (t_node t ! n)\<rparr>) (t_node t);
                     ns = upd_node n (\<lambda>x. x\<lparr>n_next := Some freenode\<rparr>) ns
                 in store_key (t\<lparr>t_node := ns\<rparr>) freenode key
      else store_key t n key)"

text \<open>Lookup, and the insertion of the key when it is not there.\<close>

definition find_or_new :: "GCtab \<Rightarrow> nat option option \<Rightarrow> slot tres \<Rightarrow> slot tres" where
  "find_or_new t r new =
     (case r of None \<Rightarrow> None | Some (Some i) \<Rightarrow> Some (Inr (SHash i), t) | Some None \<Rightarrow> new)"

definition lj_tab_setinth :: "inserter \<Rightarrow> GCtab \<Rightarrow> u32 \<Rightarrow> slot tres" where
  "lj_tab_setinth newkey t key =
     (let k = num_of_int (sint key) in
      find_or_new t (node_find (t_node t) (\<lambda>n. tvisnum (n_key n) \<and> num_eq (n_key n) k) (hashnum t k))
        (newkey t k))"

definition lj_tab_setint :: "inserter \<Rightarrow> GCtab \<Rightarrow> u32 \<Rightarrow> slot tres" where
  "lj_tab_setint newkey t key =
     (if inarray t key then Some (Inr (SArr (unat key)), t) else lj_tab_setinth newkey t key)"

definition lj_tab_setstr :: "tabenv \<Rightarrow> inserter \<Rightarrow> GCtab \<Rightarrow> u32 \<Rightarrow> slot tres" where
  "lj_tab_setstr e newkey t key =
     find_or_new t (node_find (t_node t) (\<lambda>n. tvisstr (n_key n) \<and> gcrV (n_key n) = key) (hashstr e t key))
       (newkey t (setstrV key))"

definition set_generic :: "tabenv \<Rightarrow> inserter \<Rightarrow> GCtab \<Rightarrow> TValue \<Rightarrow> slot tres" where
  "set_generic e newkey t key =
     find_or_new t (node_find (t_node t) (\<lambda>n. lj_obj_equal (n_key n) key) (hashkey e t key)) (newkey t key)"

definition lj_tab_set :: "tabenv \<Rightarrow> inserter \<Rightarrow> GCtab \<Rightarrow> TValue \<Rightarrow> slot tres" where
  "lj_tab_set e newkey t key =
     (let t = t\<lparr>t_nomm := 0\<rparr> in
      if tvisstr key then lj_tab_setstr e newkey t (gcrV key)
      else if tvisint key then lj_tab_setint newkey t (tv_lo key)
      else if tvisnum key then
        let k = lj_num2int key in
        if num_eq key (num_of_int (sint k)) then lj_tab_setint newkey t k
        else if tvisnan key then Some (Inl LJ_ERR_NANIDX, t)
        else set_generic e newkey t key
      else if tvisnil key then Some (Inl LJ_ERR_NILIDX, t)
      else set_generic e newkey t key)"

section \<open>Resizing\<close>

fun reinsert_array :: "inserter \<Rightarrow> TValue list \<Rightarrow> nat list \<Rightarrow> GCtab \<Rightarrow> unit tres" where
  "reinsert_array newkey array [] t = Some (Inr (), t)"
| "reinsert_array newkey array (i # is) t =
     (if \<not> tvisnil (array ! i) then
        tbind (lj_tab_setinth newkey t (of_nat i)) (\<lambda>t s. reinsert_array newkey array is (slot_set t s (array ! i)))
      else reinsert_array newkey array is t)"

fun reinsert_nodes :: "tabenv \<Rightarrow> inserter \<Rightarrow> Node list \<Rightarrow> GCtab \<Rightarrow> unit tres" where
  "reinsert_nodes e newkey [] t = Some (Inr (), t)"
| "reinsert_nodes e newkey (n # ns) t =
     (if \<not> tvisnil (n_val n) then
        tbind (lj_tab_set e newkey t (n_key n)) (\<lambda>t s. reinsert_nodes e newkey ns (slot_set t s (n_val n)))
      else reinsert_nodes e newkey ns t)"

definition grow_array :: "tabenv \<Rightarrow> GCtab \<Rightarrow> nat \<Rightarrow> unit tres" where
  "grow_array e t asize =
     (let oldasize = unat (t_asize t) in
      if LJ_MAX_ASIZE < asize then Some (Inl LJ_ERR_TABOV, t)
      else
        tbind (if 0 < t_colo t then
                 tbind (t_realloc e t 0 (of_nat asize * sizeof_TValue)) (\<lambda>t u.
                   Some (Inr (), t\<lparr>t_colo := t_colo t - 128\<rparr>))
               else t_realloc e t (of_nat oldasize * sizeof_TValue) (of_nat asize * sizeof_TValue))
          (\<lambda>t u. Some (Inr (), t\<lparr>t_asize := of_nat asize,
             t_array := take oldasize (t_array t) @ replicate (asize - oldasize) (setnilV (n_val (e_junk e)))\<rparr>)))"

definition resizetab :: "tabenv \<Rightarrow> inserter \<Rightarrow> GCtab \<Rightarrow> nat \<Rightarrow> nat \<Rightarrow> unit tres" where
  "resizetab e newkey t asize hbits =
     (let oldnode = t_node t;
          oldasize = unat (t_asize t);
          oldhmask = t_hmask t
      in
      tbind (if oldasize < asize then grow_array e t asize else Some (Inr (), t)) (\<lambda>t u.
      tbind (if hbits \<noteq> 0 then tbind (newhpart e t hbits) (\<lambda>t u. Some (Inr (), clearhpart t))
             else Some (Inr (), t\<lparr>t_node := [nilnode], t_freetop := 0, t_hmask := 0\<rparr>)) (\<lambda>t u.
      tbind (if asize < oldasize then
               let array = t_array t in
               tbind (reinsert_array newkey array [asize..<oldasize] (t\<lparr>t_asize := of_nat asize\<rparr>)) (\<lambda>t u.
                 if t_colo t \<le> 0 then
                   tbind (t_realloc e t (of_nat oldasize * sizeof_TValue) (of_nat asize * sizeof_TValue)) (\<lambda>t u.
                     Some (Inr (), t\<lparr>t_array := take asize array\<rparr>))
                 else Some (Inr (), t))
             else Some (Inr (), t)) (\<lambda>t u.
      if 0 < oldhmask then
        tbind (reinsert_nodes e newkey oldnode t) (\<lambda>t u.
          Some (Inr (), t\<lparr>g_total := g_total t - (oldhmask + 1) * sizeof_Node\<rparr>))
      else Some (Inr (), t)))))"

definition countint_bin :: "TValue \<Rightarrow> nat option" where
  "countint_bin key =
     (if tvisnum key then
        let k = lj_num2int key in
        if unat k < LJ_MAX_ASIZE \<and> num_eq key (num_of_int (sint k)) then
          Some (if 2 < sint k then lj_fls (k - 1) else 0)
        else None
      else None)"

definition countint :: "TValue \<Rightarrow> nat list \<Rightarrow> nat \<times> nat list" where
  "countint key bins =
     (case countint_bin key of None \<Rightarrow> (0, bins) | Some b \<Rightarrow> (1, bins[b := bins ! b + 1]))"

function countarray_loop :: "GCtab \<Rightarrow> nat list \<Rightarrow> nat \<Rightarrow> nat \<Rightarrow> nat \<Rightarrow> nat \<times> nat list" where
  "countarray_loop t bins b i na =
     (if b < LJ_MAX_ABITS then
        let top = 2 * 2 ^ b;
            clip = unat (t_asize t) \<le> top;
            top = (if clip then unat (t_asize t) - 1 else top)
        in if clip \<and> top < i then (na, bins)
           else let n = length (filter (\<lambda>j. \<not> tvisnil (t_array t ! j)) [i..<Suc top])
                in countarray_loop t (bins[b := bins ! b + n]) (b + 1) (max i (Suc top)) (na + n)
      else (na, bins))"
  by pat_completeness auto
termination
  by (relation "measure (\<lambda>(t, bins, b, i, na). LJ_MAX_ABITS - b)") auto

declare countarray_loop.simps [simp del]

definition countarray :: "GCtab \<Rightarrow> nat list \<Rightarrow> nat \<times> nat list" where
  "countarray t bins = (if t_asize t = 0 then (0, bins) else countarray_loop t bins 0 0 0)"

fun counthash_loop :: "Node list \<Rightarrow> nat list \<Rightarrow> nat \<Rightarrow> nat \<Rightarrow> nat \<times> nat \<times> nat list" where
  "counthash_loop [] bins tot na = (tot, na, bins)"
| "counthash_loop (n # ns) bins tot na =
     (if \<not> tvisnil (n_val n) then
        let (c, bins) = countint (n_key n) bins in counthash_loop ns bins (tot + 1) (na + c)
      else counthash_loop ns bins tot na)"

definition counthash :: "GCtab \<Rightarrow> nat list \<Rightarrow> nat \<Rightarrow> nat \<times> nat \<times> nat list" where
  "counthash t bins narray =
     (let (tot, na, bins) = counthash_loop (t_node t) bins 0 0 in (tot, narray + na, bins))"

text \<open>The loop stops before it would read beyond the bins; \<open>bestasize_in_bounds\<close> shows that it
  always stops for its own reasons.\<close>

function bestasize_loop :: "nat list \<Rightarrow> nat \<Rightarrow> nat \<Rightarrow> nat \<Rightarrow> nat \<Rightarrow> nat \<Rightarrow> (nat \<times> nat) option" where
  "bestasize_loop bins nn b sm na sz =
     (if 2 ^ b < 2 * nn \<and> sm \<noteq> nn then
        if length bins \<le> b then None
        else if 0 < bins ! b then
          let sm = sm + bins ! b in
          if 2 ^ b < 2 * sm then bestasize_loop bins nn (b + 1) sm sm (2 * 2 ^ b + 1)
          else bestasize_loop bins nn (b + 1) sm na sz
        else bestasize_loop bins nn (b + 1) sm na sz
      else Some (na, sz))"
  by pat_completeness auto
termination
  by (relation "measure (\<lambda>(bins, nn, b, sm, na, sz). length bins - b)") auto

declare bestasize_loop.simps [simp del]

definition bestasize :: "nat list \<Rightarrow> nat \<Rightarrow> (nat \<times> nat) option" where
  "bestasize bins narray = bestasize_loop bins narray 0 0 0 0"

definition hsize2hbits :: "nat \<Rightarrow> nat" where
  "hsize2hbits s = (if s \<noteq> 0 then if s = 1 then 1 else 1 + lj_fls (of_nat (s - 1)) else 0)"

definition rehashtab :: "tabenv \<Rightarrow> inserter \<Rightarrow> GCtab \<Rightarrow> TValue \<Rightarrow> unit tres" where
  "rehashtab e newkey t ek =
     (let bins = replicate LJ_MAX_ABITS 0;
          (asize, bins) = countarray t bins;
          tot = 1 + asize;
          (ht, asize, bins) = counthash t bins asize;
          tot = tot + ht;
          (c, bins) = countint ek bins;
          asize = asize + c
      in case bestasize bins asize of
           None \<Rightarrow> None
         | Some (na, asize) \<Rightarrow> resizetab e newkey t asize (hsize2hbits (tot - na)))"

definition lj_tab_reasize :: "tabenv \<Rightarrow> inserter \<Rightarrow> GCtab \<Rightarrow> u32 \<Rightarrow> unit tres" where
  "lj_tab_reasize e newkey t nasize =
     resizetab e newkey t (unat (nasize + 1)) (if 0 < t_hmask t then lj_fls (t_hmask t) + 1 else 0)"

text \<open>The knot: insertion, with fuel for the nested insertions of a rehash.\<close>

primrec newkey_fuel :: "nat \<Rightarrow> tabenv \<Rightarrow> inserter" where
  "newkey_fuel 0 e t key = None"
| "newkey_fuel (Suc f) e t key =
     newkey_body e (rehashtab e (newkey_fuel f e)) (lj_tab_set e (newkey_fuel f e)) t key"

text \<open>Two levels are enough: an insertion made by a rehash finds room (\<open>LJ_TabInv\<close>).\<close>

definition lj_tab_newkey :: "tabenv \<Rightarrow> inserter" where
  "lj_tab_newkey e = newkey_fuel 2 e"

definition lj_tab_rehash :: "tabenv \<Rightarrow> GCtab \<Rightarrow> unit tres" where
  "lj_tab_rehash e t = rehashtab e (lj_tab_newkey e) t (mk_tv 0 LJ_TNIL)"

section \<open>Traversal\<close>

definition keyindex :: "tabenv \<Rightarrow> GCtab \<Rightarrow> TValue \<Rightarrow> (lj_err + u32) option" where
  "keyindex e t key =
     (let look = (\<lambda>key. if \<not> tvisnil key then
            (case node_find (t_node t) (\<lambda>n. lj_obj_equal (n_key n) key) (hashkey e t key) of
               None \<Rightarrow> None
             | Some (Some i) \<Rightarrow> Some (Inr (t_asize t + of_nat i))
             | Some None \<Rightarrow> if tv_hi key = 0xfffe7fff then Some (Inr (tv_lo key - 1)) else Some (Inl LJ_ERR_NEXTIDX))
          else Some (Inr (NOT 0)))
      in if tvisint key then
           let k = tv_lo key in if k < t_asize t then Some (Inr k) else look (num_of_int (sint k))
         else if tvisnum key then
           let k = lj_num2int key in
           if k < t_asize t \<and> num_eq key (num_of_int (sint k)) then Some (Inr k) else look key
         else look key)"

text \<open>The two traversal loops from an index; the result is the next key and its value.\<close>

function next_array :: "GCtab \<Rightarrow> nat \<Rightarrow> (TValue \<times> TValue) option \<times> nat" where
  "next_array t i =
     (if i < unat (t_asize t) then
        if \<not> tvisnil (t_array t ! i) then (Some (setintV (of_nat i), t_array t ! i), i)
        else next_array t (i + 1)
      else (None, i))"
  by pat_completeness auto
termination by (relation "measure (\<lambda>(t, i). unat (t_asize t) - i)") auto

declare next_array.simps [simp del]

function next_hash :: "GCtab \<Rightarrow> nat \<Rightarrow> (TValue \<times> TValue) option" where
  "next_hash t i =
     (if i \<le> unat (t_hmask t) then
        if \<not> tvisnil (n_val (t_node t ! i)) then Some (n_key (t_node t ! i), n_val (t_node t ! i))
        else next_hash t (i + 1)
      else None)"
  by pat_completeness auto
termination by (relation "measure (\<lambda>(t, i). unat (t_hmask t) + 1 - i)") auto

declare next_hash.simps [simp del]

definition lj_tab_next :: "tabenv \<Rightarrow> GCtab \<Rightarrow> TValue \<Rightarrow> (lj_err + (TValue \<times> TValue) option) option" where
  "lj_tab_next e t key =
     (case keyindex e t key of
        None \<Rightarrow> None
      | Some (Inl er) \<Rightarrow> Some (Inl er)
      | Some (Inr i) \<Rightarrow>
          (case next_array t (unat (i + 1)) of
             (Some kv, j) \<Rightarrow> Some (Inr (Some kv))
           | (None, j) \<Rightarrow> Some (Inr (next_hash t (j - unat (t_asize t))))))"

section \<open>Length\<close>

text \<open>Whether the integer key has a value.\<close>

definition int_present :: "GCtab \<Rightarrow> u32 \<Rightarrow> bool option" where
  "int_present t k =
     map_option (\<lambda>s. case s of None \<Rightarrow> False | Some s \<Rightarrow> \<not> tvisnil (slot_get t s)) (lj_tab_getint t k)"

partial_function (option) linear_search :: "GCtab \<Rightarrow> u32 \<Rightarrow> u32 option" where
  [code]: "linear_search t i =
     (case int_present t i of None \<Rightarrow> None
      | Some p \<Rightarrow> if p then linear_search t (i + 1) else Some (i - 1))"

partial_function (option) binary_search :: "GCtab \<Rightarrow> u32 \<Rightarrow> u32 \<Rightarrow> u32 option" where
  [code]: "binary_search t i j =
     (if 1 < j - i then
        let m = (i + j) div 2 in
        case int_present t m of None \<Rightarrow> None
        | Some p \<Rightarrow> if p then binary_search t m j else binary_search t i m
      else Some i)"

partial_function (option) double_search :: "GCtab \<Rightarrow> u32 \<Rightarrow> u32 \<Rightarrow> u32 option" where
  [code]: "double_search t i j =
     (case int_present t j of None \<Rightarrow> None
      | Some p \<Rightarrow>
          if p then
            let i = j; j = j * 2 in
            if 0x7fffffff - 2 < j then linear_search t 1 else double_search t i j
          else binary_search t i j)"

definition unbound_search :: "GCtab \<Rightarrow> u32 \<Rightarrow> u32 option" where
  "unbound_search t j = double_search t j (j + 1)"

partial_function (option) array_search :: "GCtab \<Rightarrow> u32 \<Rightarrow> u32 \<Rightarrow> u32 option" where
  [code]: "array_search t i j =
     (if 1 < j - i then
        let m = (i + j) div 2 in
        if tvisnil (t_array t ! unat (m - 1)) then array_search t i m else array_search t m j
      else Some (i - 1))"

definition lj_tab_len :: "GCtab \<Rightarrow> u32 option" where
  "lj_tab_len t =
     (let j = t_asize t in
      if 1 < j \<and> tvisnil (t_array t ! unat (j - 1)) then array_search t 1 j
      else
        let j = (if j \<noteq> 0 then j - 1 else j) in
        if t_hmask t = 0 then Some j else unbound_search t j)"


section \<open>Raw access of the API\<close>

text \<open>\<open>lua_rawget\<close> and \<open>lua_rawset\<close> (\<open>lj_api.c\<close>) on the table at the index; the key and the
  value are the stack slots they work on.\<close>

definition lua_rawget :: "tabenv \<Rightarrow> GCtab \<Rightarrow> TValue \<Rightarrow> TValue option" where
  "lua_rawget e t key = map_option (slot_get t) (lj_tab_get e t key)"

definition lua_rawset :: "tabenv \<Rightarrow> GCtab \<Rightarrow> TValue \<Rightarrow> TValue \<Rightarrow> unit tres" where
  "lua_rawset e t key v =
     tbind (lj_tab_set e (lj_tab_newkey e) t key) (\<lambda>t dst. Some (Inr (), lj_gc_anybarriert (slot_set t dst v)))"

end
