(* ===== verification/LJ_Dump.thy ===== *)
theory LJ_Dump
  imports LJ_BC LJ_Tab
begin

text \<open>
  Bytecode dumps (\<open>lj_bcwrite.c\<close>, \<open>lj_bcread.c\<close>, \<open>lj_bcdump.h\<close>): the writer that serialises a
  prototype with its children, constants and debug information through a callback, and the reader
  that builds the prototypes again from an input that arrives in chunks. A prototype is a tree; its
  collectable constants are listed in the order of their addresses. A string is a reference;
  \<open>strc\<close> gives the bytes of the string at a reference and \<open>str_new\<close> is \<open>lj_str_new\<close> as the reader
  sees it, the interface that \<open>LJ_Intern\<close> provides. The output buffer is its contents and its
  size, and a write beyond the size is \<open>None\<close>; the input buffer is the bytes left in it, and a
  read beyond them is \<open>None\<close>, too. Buffer sizes are natural numbers: the sizes of the objects a
  dump is made from are below \<open>2 ^ 28\<close>, so that no 32 bit sum of them wraps. Growing the Lua stack
  for the prototypes that were read and the loading of the FFI library are left out.
\<close>

section \<open>Prototypes\<close>

datatype CTypeID = CTID_INT64 | CTID_UINT64 | CTID_COMPLEX_DOUBLE

record phead =
  p_flags :: u8
  p_numparams :: u8
  p_framesize :: u8
  p_bc :: "u32 list"
  p_uv :: "u16 list"
  p_kn :: "TValue list"
  p_sizept :: u32
  p_trace :: u16
  p_chunkname :: u32
  p_firstline :: u32
  p_numline :: u32
  p_lineinfo :: "bytes option"
  p_uvinfo :: nat
  p_varinfo :: nat

datatype GCproto = GCproto phead "kgc list"
  and kgc = KStr u32 | KProto GCproto | KTab GCtab | KCdata CTypeID u64 u64

definition PROTO_CHILD :: u8 where "PROTO_CHILD = 0x01"
definition PROTO_VARARG :: u8 where "PROTO_VARARG = 0x02"
definition PROTO_FFI :: u8 where "PROTO_FFI = 0x04"
definition PROTO_ILOOP :: u8 where "PROTO_ILOOP = 0x10"

definition BCDUMP_HEAD1 :: u8 where "BCDUMP_HEAD1 = 0x1b"
definition BCDUMP_HEAD2 :: u8 where "BCDUMP_HEAD2 = 0x4c"
definition BCDUMP_HEAD3 :: u8 where "BCDUMP_HEAD3 = 0x4a"
definition BCDUMP_VERSION :: u8 where "BCDUMP_VERSION = 1"
definition BCDUMP_F_BE :: u32 where "BCDUMP_F_BE = 0x01"
definition BCDUMP_F_STRIP :: u32 where "BCDUMP_F_STRIP = 0x02"
definition BCDUMP_F_FFI :: u32 where "BCDUMP_F_FFI = 0x04"
definition BCDUMP_F_KNOWN :: u32 where "BCDUMP_F_KNOWN = BCDUMP_F_FFI * 2 - 1"

definition BCDUMP_KGC_CHILD :: u32 where "BCDUMP_KGC_CHILD = 0"
definition BCDUMP_KGC_TAB :: u32 where "BCDUMP_KGC_TAB = 1"
definition BCDUMP_KGC_I64 :: u32 where "BCDUMP_KGC_I64 = 2"
definition BCDUMP_KGC_U64 :: u32 where "BCDUMP_KGC_U64 = 3"
definition BCDUMP_KGC_COMPLEX :: u32 where "BCDUMP_KGC_COMPLEX = 4"
definition BCDUMP_KGC_STR :: u32 where "BCDUMP_KGC_STR = 5"

definition BCDUMP_KTAB_NIL :: u32 where "BCDUMP_KTAB_NIL = 0"
definition BCDUMP_KTAB_FALSE :: u32 where "BCDUMP_KTAB_FALSE = 1"
definition BCDUMP_KTAB_TRUE :: u32 where "BCDUMP_KTAB_TRUE = 2"
definition BCDUMP_KTAB_INT :: u32 where "BCDUMP_KTAB_INT = 3"
definition BCDUMP_KTAB_NUM :: u32 where "BCDUMP_KTAB_NUM = 4"
definition BCDUMP_KTAB_STR :: u32 where "BCDUMP_KTAB_STR = 5"

lemmas bcdump_codes =
  BCDUMP_KGC_CHILD_def BCDUMP_KGC_TAB_def BCDUMP_KGC_I64_def BCDUMP_KGC_U64_def BCDUMP_KGC_COMPLEX_def
  BCDUMP_KGC_STR_def BCDUMP_KTAB_NIL_def BCDUMP_KTAB_FALSE_def BCDUMP_KTAB_TRUE_def
  BCDUMP_KTAB_INT_def BCDUMP_KTAB_NUM_def BCDUMP_KTAB_STR_def

text \<open>The bytes of a little-endian host.\<close>

definition le16 :: "u16 \<Rightarrow> bytes" where "le16 x = [ucast x, ucast (drop_bit 8 x)]"
definition le32 :: "u32 \<Rightarrow> bytes" where
  "le32 x = [ucast x, ucast (drop_bit 8 x), ucast (drop_bit 16 x), ucast (drop_bit 24 x)]"

type_synonym ('a, 's) res = "((lj_err + 'a) \<times> 's) option"

definition rbind :: "('a, 's) res \<Rightarrow> ('s \<Rightarrow> 'a \<Rightarrow> ('b, 's) res) \<Rightarrow> ('b, 's) res" where
  "rbind r f = (case r of None \<Rightarrow> None | Some (Inl e, s) \<Rightarrow> Some (Inl e, s) | Some (Inr x, s) \<Rightarrow> f s x)"

section \<open>The writer\<close>

record BCWriteCtx =
  w_buf :: bytes
  w_sz :: nat
  w_strip :: bool
  w_status :: u32
  w_out :: "bytes list"

text \<open>The surroundings of the writer: the allocator's answer to a buffer size, the bytes of a
  string, the first instruction of a trace, and the status the callback returns for a block after
  the blocks before it.\<close>

record wenv =
  we_alloc :: "nat \<Rightarrow> bool"
  we_str :: "u32 \<Rightarrow> bytes"
  we_startins :: "u32 \<Rightarrow> u32"
  we_wfunc :: "bytes list \<Rightarrow> bytes \<Rightarrow> u32"

subsection \<open>Output buffer handling\<close>

partial_function (option) resize_loop :: "nat \<Rightarrow> nat \<Rightarrow> nat option" where
  [code]: "resize_loop need sz = (if sz < need then resize_loop need (sz * 2) else Some sz)"

definition w_resizebuf :: "wenv \<Rightarrow> BCWriteCtx \<Rightarrow> nat \<Rightarrow> (unit, BCWriteCtx) res" where
  "w_resizebuf we ctx sz =
     (if we_alloc we sz then Some (Inr (), ctx\<lparr>w_sz := sz\<rparr>) else Some (Inl LJ_ERR_ERRMEM, ctx))"

definition bcwrite_resize :: "wenv \<Rightarrow> BCWriteCtx \<Rightarrow> nat \<Rightarrow> (unit, BCWriteCtx) res" where
  "bcwrite_resize we ctx len =
     (case resize_loop (length (w_buf ctx) + len) (w_sz ctx * 2) of
        None \<Rightarrow> None | Some sz \<Rightarrow> w_resizebuf we ctx sz)"

definition bcwrite_need :: "wenv \<Rightarrow> BCWriteCtx \<Rightarrow> nat \<Rightarrow> (unit, BCWriteCtx) res" where
  "bcwrite_need we ctx len =
     (if w_sz ctx < length (w_buf ctx) + len then bcwrite_resize we ctx len else Some (Inr (), ctx))"

definition bcwrite_block :: "BCWriteCtx \<Rightarrow> bytes \<Rightarrow> (unit, BCWriteCtx) res" where
  "bcwrite_block ctx p =
     (if length (w_buf ctx) + length p \<le> w_sz ctx then Some (Inr (), ctx\<lparr>w_buf := w_buf ctx @ p\<rparr>) else None)"

definition bcwrite_byte :: "BCWriteCtx \<Rightarrow> u8 \<Rightarrow> (unit, BCWriteCtx) res" where
  "bcwrite_byte ctx b =
     (if length (w_buf ctx) + 1 \<le> w_sz ctx then Some (Inr (), ctx\<lparr>w_buf := w_buf ctx @ [b]\<rparr>) else None)"

function bcwrite_uleb128 :: "BCWriteCtx \<Rightarrow> u32 \<Rightarrow> (unit, BCWriteCtx) res" where
  "bcwrite_uleb128 ctx v =
     (if 0x80 \<le> v then
        rbind (bcwrite_byte ctx (ucast ((v AND 0x7f) OR 0x80))) (\<lambda>ctx u. bcwrite_uleb128 ctx (drop_bit 7 v))
      else bcwrite_byte ctx (ucast v))"
  by pat_completeness auto
termination
  by (relation "measure (\<lambda>(ctx, v). unat v)") (auto simp: drop_bit_eq_div word_le_nat_alt unat_div_distrib)

declare bcwrite_uleb128.simps [simp del]

subsection \<open>Constants\<close>

definition bcwrite_ktabk :: "wenv \<Rightarrow> BCWriteCtx \<Rightarrow> TValue \<Rightarrow> bool \<Rightarrow> (unit, BCWriteCtx) res" where
  "bcwrite_ktabk we ctx tv narrow =
     rbind (bcwrite_need we ctx (1 + 10)) (\<lambda>ctx u.
     if tvisstr tv then
       let str = we_str we (gcrV tv); len = length str in
       rbind (bcwrite_need we ctx (5 + len)) (\<lambda>ctx u.
       rbind (bcwrite_uleb128 ctx (BCDUMP_KTAB_STR + of_nat len)) (\<lambda>ctx u.
       bcwrite_block ctx str))
     else if tvisint tv then
       rbind (bcwrite_byte ctx (ucast BCDUMP_KTAB_INT)) (\<lambda>ctx u. bcwrite_uleb128 ctx (tv_lo tv))
     else if tvisnum tv then
       let k = lj_num2int tv in
       if narrow \<and> num_eq tv (num_of_int (sint k)) then
         rbind (bcwrite_byte ctx (ucast BCDUMP_KTAB_INT)) (\<lambda>ctx u. bcwrite_uleb128 ctx k)
       else
         rbind (bcwrite_byte ctx (ucast BCDUMP_KTAB_NUM)) (\<lambda>ctx u.
         rbind (bcwrite_uleb128 ctx (tv_lo tv)) (\<lambda>ctx u.
         bcwrite_uleb128 ctx (tv_hi tv)))
     else bcwrite_byte ctx (ucast (BCDUMP_KTAB_NIL + NOT (itype tv))))"

text \<open>The number of array slots up to the last one that is not nil.\<close>

fun ktab_narray :: "TValue list \<Rightarrow> nat \<Rightarrow> nat" where
  "ktab_narray a 0 = 0"
| "ktab_narray a (Suc i) = (if \<not> tvisnil (a ! i) then Suc i else ktab_narray a i)"

fun ktab_array :: "wenv \<Rightarrow> BCWriteCtx \<Rightarrow> TValue list \<Rightarrow> (unit, BCWriteCtx) res" where
  "ktab_array we ctx [] = Some (Inr (), ctx)"
| "ktab_array we ctx (v # vs) = rbind (bcwrite_ktabk we ctx v True) (\<lambda>ctx u. ktab_array we ctx vs)"

text \<open>The nodes from the last one down, until \<open>i\<close> used ones are written.\<close>

fun ktab_nodes :: "wenv \<Rightarrow> BCWriteCtx \<Rightarrow> Node list \<Rightarrow> nat \<Rightarrow> (unit, BCWriteCtx) res" where
  "ktab_nodes we ctx [] i = None"
| "ktab_nodes we ctx (n # ns) i =
     (if \<not> tvisnil (n_key n) then
        rbind (bcwrite_ktabk we ctx (n_key n) False) (\<lambda>ctx u.
        rbind (bcwrite_ktabk we ctx (n_val n) True) (\<lambda>ctx u.
        if i - 1 = 0 then Some (Inr (), ctx) else ktab_nodes we ctx ns (i - 1)))
      else ktab_nodes we ctx ns i)"

definition bcwrite_ktab :: "wenv \<Rightarrow> BCWriteCtx \<Rightarrow> GCtab \<Rightarrow> (unit, BCWriteCtx) res" where
  "bcwrite_ktab we ctx t =
     (let narray = (if 0 < t_asize t then ktab_narray (t_array t) (unat (t_asize t)) else 0);
          nhash = (if 0 < t_hmask t
            then length (filter (\<lambda>i. \<not> tvisnil (n_key (t_node t ! i))) [0..<unat (t_hmask t) + 1]) else 0)
      in
      rbind (bcwrite_uleb128 ctx (of_nat narray)) (\<lambda>ctx u.
      rbind (bcwrite_uleb128 ctx (of_nat nhash)) (\<lambda>ctx u.
      rbind (if narray \<noteq> 0 then ktab_array we ctx (take narray (t_array t)) else Some (Inr (), ctx)) (\<lambda>ctx u.
      if nhash \<noteq> 0 then ktab_nodes we ctx (rev (take (unat (t_hmask t) + 1) (t_node t))) nhash
      else Some (Inr (), ctx)))))"

definition bcwrite_kgc1 :: "wenv \<Rightarrow> BCWriteCtx \<Rightarrow> kgc \<Rightarrow> (unit, BCWriteCtx) res" where
  "bcwrite_kgc1 we ctx k =
     (let (tp, need) = (case k of
          KStr s \<Rightarrow> (BCDUMP_KGC_STR + of_nat (length (we_str we s)), 5 + length (we_str we s))
        | KProto pt \<Rightarrow> (BCDUMP_KGC_CHILD, 1)
        | KCdata cid a b \<Rightarrow> (case cid of CTID_INT64 \<Rightarrow> BCDUMP_KGC_I64 | CTID_UINT64 \<Rightarrow> BCDUMP_KGC_U64
            | CTID_COMPLEX_DOUBLE \<Rightarrow> BCDUMP_KGC_COMPLEX, 1 + 4 * 5)
        | KTab t \<Rightarrow> (BCDUMP_KGC_TAB, 1 + 2 * 5))
      in
      rbind (bcwrite_need we ctx need) (\<lambda>ctx u.
      rbind (bcwrite_uleb128 ctx tp) (\<lambda>ctx u.
      case k of
        KStr s \<Rightarrow> bcwrite_block ctx (we_str we s)
      | KTab t \<Rightarrow> bcwrite_ktab we ctx t
      | KCdata cid a b \<Rightarrow>
          rbind (bcwrite_uleb128 ctx (tv_lo a)) (\<lambda>ctx u.
          rbind (bcwrite_uleb128 ctx (tv_hi a)) (\<lambda>ctx u.
          if tp = BCDUMP_KGC_COMPLEX then
            rbind (bcwrite_uleb128 ctx (tv_lo b)) (\<lambda>ctx u. bcwrite_uleb128 ctx (tv_hi b))
          else Some (Inr (), ctx)))
      | KProto pt \<Rightarrow> Some (Inr (), ctx))))"

fun bcwrite_kgc :: "wenv \<Rightarrow> BCWriteCtx \<Rightarrow> kgc list \<Rightarrow> (unit, BCWriteCtx) res" where
  "bcwrite_kgc we ctx [] = Some (Inr (), ctx)"
| "bcwrite_kgc we ctx (k # ks) = rbind (bcwrite_kgc1 we ctx k) (\<lambda>ctx u. bcwrite_kgc we ctx ks)"

text \<open>The last byte of a 33 bit ULEB128, patched with the top two bits.\<close>

definition patch33 :: "BCWriteCtx \<Rightarrow> u32 \<Rightarrow> BCWriteCtx" where
  "patch33 ctx x =
     (let i = length (w_buf ctx) - 1 in
      ctx\<lparr>w_buf := (w_buf ctx)[i := (w_buf ctx ! i AND 7) OR (ucast (drop_bit 27 x) AND 0x18)]\<rparr>)"

definition bcwrite_knum1 :: "BCWriteCtx \<Rightarrow> TValue \<Rightarrow> (unit, BCWriteCtx) res" where
  "bcwrite_knum1 ctx tv =
     (let k = (if tvisint tv then tv_lo tv else lj_num2int tv) in
      if tvisint tv \<or> num_eq tv (num_of_int (sint k)) then
        rbind (bcwrite_uleb128 ctx (2 * k OR (k AND 0x80000000))) (\<lambda>ctx u.
        Some (Inr (), if sint k < 0 then patch33 ctx k else ctx))
      else
        let lo = tv_lo tv in
        rbind (bcwrite_uleb128 ctx (1 + (2 * lo OR (lo AND 0x80000000)))) (\<lambda>ctx u.
        bcwrite_uleb128 (if 0x80000000 \<le> lo then patch33 ctx lo else ctx) (tv_hi tv)))"

fun knum_loop :: "BCWriteCtx \<Rightarrow> TValue list \<Rightarrow> (unit, BCWriteCtx) res" where
  "knum_loop ctx [] = Some (Inr (), ctx)"
| "knum_loop ctx (v # vs) = rbind (bcwrite_knum1 ctx v) (\<lambda>ctx u. knum_loop ctx vs)"

definition bcwrite_knum :: "wenv \<Rightarrow> BCWriteCtx \<Rightarrow> TValue list \<Rightarrow> (unit, BCWriteCtx) res" where
  "bcwrite_knum we ctx kn = rbind (bcwrite_need we ctx (10 * length kn)) (\<lambda>ctx u. knum_loop ctx kn)"

subsection \<open>Prototypes\<close>

definition bc_unpatch :: "wenv \<Rightarrow> u32 \<Rightarrow> u32" where
  "bc_unpatch we ins =
     (let oper = bc_op ins in
      if oper = BC_IFORL \<or> oper = BC_IITERL \<or> oper = BC_ILOOP \<or> oper = BC_JFORI
      then setbc_op ins (oper - BC_IFORL + BC_FORL)
      else if oper = BC_JFORL \<or> oper = BC_JITERL \<or> oper = BC_JLOOP then we_startins we (bc_d ins)
      else ins)"

definition bcwrite_bytecode :: "wenv \<Rightarrow> BCWriteCtx \<Rightarrow> phead \<Rightarrow> (unit, BCWriteCtx) res" where
  "bcwrite_bytecode we ctx h =
     bcwrite_block ctx (concat (map (\<lambda>ins. le32
       (if p_flags h AND PROTO_ILOOP \<noteq> 0 \<or> p_trace h \<noteq> 0 then bc_unpatch we ins else ins)) (tl (p_bc h))))"

text \<open>Pass the buffer to the callback, with the size of the prototype in front.\<close>

definition bcwrite_finish :: "wenv \<Rightarrow> BCWriteCtx \<Rightarrow> (unit, BCWriteCtx) res" where
  "bcwrite_finish we ctx =
     (if w_status ctx = 0 then
        let buf = w_buf ctx;
            n = length buf - 5;
            nn = ((lj_fls (of_nat n) + 8) * 9) div 64
        in rbind (bcwrite_uleb128 (ctx\<lparr>w_buf := take (5 - nn) buf\<rparr>) (of_nat n)) (\<lambda>ctx u.
             let mem = w_buf ctx @ drop (length (w_buf ctx)) buf;
                 blk = take (nn + n) (drop (5 - nn) mem)
             in Some (Inr (), ctx\<lparr>w_buf := take 5 mem, w_status := we_wfunc we (w_out ctx) blk, w_out := w_out ctx @ [blk]\<rparr>))
      else Some (Inr (), ctx))"

definition bcwrite_body :: "wenv \<Rightarrow> BCWriteCtx \<Rightarrow> phead \<Rightarrow> kgc list \<Rightarrow> (unit, BCWriteCtx) res" where
  "bcwrite_body we ctx h ks =
     (let ctx = ctx\<lparr>w_buf := replicate 5 0\<rparr> in
      rbind (bcwrite_need we ctx (4 + 6 * 5 + (length (p_bc h) - 1) * 4 + length (p_uv h) * 2)) (\<lambda>ctx u.
      rbind (bcwrite_byte ctx (p_flags h AND (PROTO_CHILD OR PROTO_VARARG OR PROTO_FFI))) (\<lambda>ctx u.
      rbind (bcwrite_byte ctx (p_numparams h)) (\<lambda>ctx u.
      rbind (bcwrite_byte ctx (p_framesize h)) (\<lambda>ctx u.
      rbind (bcwrite_byte ctx (of_nat (length (p_uv h)))) (\<lambda>ctx u.
      rbind (bcwrite_uleb128 ctx (of_nat (length ks))) (\<lambda>ctx u.
      rbind (bcwrite_uleb128 ctx (of_nat (length (p_kn h)))) (\<lambda>ctx u.
      rbind (bcwrite_uleb128 ctx (of_nat (length (p_bc h)) - 1)) (\<lambda>ctx u.
      let dbg = (if w_strip ctx then [] else case p_lineinfo h of None \<Rightarrow> [] | Some d \<Rightarrow> d) in
      rbind (if \<not> w_strip ctx then
               rbind (bcwrite_uleb128 ctx (of_nat (length dbg))) (\<lambda>ctx u.
               if dbg \<noteq> [] then
                 rbind (bcwrite_uleb128 ctx (p_firstline h)) (\<lambda>ctx u. bcwrite_uleb128 ctx (p_numline h))
               else Some (Inr (), ctx))
             else Some (Inr (), ctx)) (\<lambda>ctx u.
      rbind (bcwrite_bytecode we ctx h) (\<lambda>ctx u.
      rbind (bcwrite_block ctx (concat (map le16 (p_uv h)))) (\<lambda>ctx u.
      rbind (bcwrite_kgc we ctx ks) (\<lambda>ctx u.
      rbind (bcwrite_knum we ctx (p_kn h)) (\<lambda>ctx u.
      rbind (if dbg \<noteq> [] then
               rbind (bcwrite_need we ctx (length dbg)) (\<lambda>ctx u. bcwrite_block ctx dbg)
             else Some (Inr (), ctx)) (\<lambda>ctx u.
      bcwrite_finish we ctx)))))))))))))))"

text \<open>The children are written before their parent, from the last constant to the first.\<close>

function bcwrite_proto :: "wenv \<Rightarrow> BCWriteCtx \<Rightarrow> GCproto \<Rightarrow> (unit, BCWriteCtx) res"
  and bcwrite_children :: "wenv \<Rightarrow> BCWriteCtx \<Rightarrow> kgc list \<Rightarrow> (unit, BCWriteCtx) res" where
  "bcwrite_proto we ctx (GCproto h ks) =
     rbind (if p_flags h AND PROTO_CHILD \<noteq> 0 then bcwrite_children we ctx (rev ks) else Some (Inr (), ctx))
       (\<lambda>ctx u. bcwrite_body we ctx h ks)"
| "bcwrite_children we ctx [] = Some (Inr (), ctx)"
| "bcwrite_children we ctx (k # ks) =
     (case k of KProto pt \<Rightarrow> rbind (bcwrite_proto we ctx pt) (\<lambda>ctx u. bcwrite_children we ctx ks)
      | _ \<Rightarrow> bcwrite_children we ctx ks)"
  by pat_completeness auto
termination
  by (relation "measure (\<lambda>x. case x of Inl (we, ctx, pt) \<Rightarrow> size pt | Inr (we, ctx, ks) \<Rightarrow> size_list size ks)")
    (auto simp: size_list_conv_sum_list rev_map [symmetric] split: kgc.splits)

definition bcwrite_header :: "wenv \<Rightarrow> BCWriteCtx \<Rightarrow> phead \<Rightarrow> (unit, BCWriteCtx) res" where
  "bcwrite_header we ctx h =
     (let name = we_str we (p_chunkname h); len = length name; ctx = ctx\<lparr>w_buf := []\<rparr> in
      rbind (bcwrite_need we ctx (5 + 5 + len)) (\<lambda>ctx u.
      rbind (bcwrite_byte ctx BCDUMP_HEAD1) (\<lambda>ctx u.
      rbind (bcwrite_byte ctx BCDUMP_HEAD2) (\<lambda>ctx u.
      rbind (bcwrite_byte ctx BCDUMP_HEAD3) (\<lambda>ctx u.
      rbind (bcwrite_byte ctx BCDUMP_VERSION) (\<lambda>ctx u.
      rbind (bcwrite_byte ctx (ucast ((if w_strip ctx then BCDUMP_F_STRIP else 0) +
          (if p_flags h AND PROTO_FFI \<noteq> 0 then BCDUMP_F_FFI else 0)))) (\<lambda>ctx u.
      rbind (if \<not> w_strip ctx then
               rbind (bcwrite_uleb128 ctx (of_nat len)) (\<lambda>ctx u. bcwrite_block ctx name)
             else Some (Inr (), ctx)) (\<lambda>ctx u.
      Some (Inr (), ctx\<lparr>w_status := we_wfunc we (w_out ctx) (w_buf ctx), w_out := w_out ctx @ [w_buf ctx]\<rparr>)))))))))"

definition bcwrite_footer :: "wenv \<Rightarrow> BCWriteCtx \<Rightarrow> BCWriteCtx" where
  "bcwrite_footer we ctx =
     (if w_status ctx = 0
      then ctx\<lparr>w_status := we_wfunc we (w_out ctx) [0], w_out := w_out ctx @ [[0]]\<rparr> else ctx)"

definition cpwriter :: "wenv \<Rightarrow> BCWriteCtx \<Rightarrow> GCproto \<Rightarrow> (unit, BCWriteCtx) res" where
  "cpwriter we ctx pt =
     (case pt of GCproto h ks \<Rightarrow>
      rbind (w_resizebuf we ctx 1024) (\<lambda>ctx u.
      rbind (bcwrite_header we ctx h) (\<lambda>ctx u.
      rbind (bcwrite_proto we ctx pt) (\<lambda>ctx u.
      Some (Inr (), bcwrite_footer we ctx)))))"

text \<open>The result is the status and what the callback received; a thrown error is reported.\<close>

definition lj_bcwrite :: "wenv \<Rightarrow> GCproto \<Rightarrow> bool \<Rightarrow> ((lj_err + u32) \<times> bytes list) option" where
  "lj_bcwrite we pt strip =
     (case cpwriter we \<lparr>w_buf = [], w_sz = 0, w_strip = strip, w_status = 0, w_out = []\<rparr> pt of
        None \<Rightarrow> None
      | Some (Inl e, ctx) \<Rightarrow> Some (Inl e, w_out ctx)
      | Some (Inr u, ctx) \<Rightarrow> Some (Inr (w_status ctx), w_out ctx))"

end
