(* ===== verification/LJ_DumpRead.thy ===== *)
theory LJ_DumpRead
  imports LJ_Dump
begin

text \<open>
  The reader of bytecode dumps (\<open>lj_bcread.c\<close>). The lexer state it borrows keeps the bytes left
  in the input buffer and the blocks that the reader callback has still to deliver; an empty block
  or the end of the list is the end of the input. Reading from an empty buffer, and the shift by
  more than 31 bits that an overlong ULEB128 number asks for, are \<open>None\<close>. The stack holds the
  prototypes read so far, the last one first.
\<close>

section \<open>State\<close>

record LexState =
  ls_p :: bytes
  ls_blocks :: "bytes list"
  ls_eof :: bool
  ls_flags :: u32
  ls_stack :: "GCproto list"
  ls_chunkarg :: bytes
  ls_chunkname :: u32
  ls_endmark :: bool
  ls_total :: u32

text \<open>What the reader takes from its surroundings: the environment of the tables it builds, and
  the interning of strings.\<close>

record renv =
  re_tab :: tabenv
  re_str_new :: "bytes \<Rightarrow> lj_err + u32"

definition bcread_swap :: "LexState \<Rightarrow> bool" where
  "bcread_swap ls \<longleftrightarrow> ls_flags ls AND BCDUMP_F_BE \<noteq> 0 * BCDUMP_F_BE"

definition bcread_error :: "LexState \<Rightarrow> lj_err \<Rightarrow> ('a, LexState) res" where
  "bcread_error ls em = Some (Inl em, ls)"

section \<open>Input buffer handling\<close>

text \<open>The loop of \<open>bcread_fill\<close>: append blocks until \<open>len\<close> bytes are there.\<close>

fun fill_loop :: "LexState \<Rightarrow> bytes list \<Rightarrow> nat \<Rightarrow> bool \<Rightarrow> (unit, LexState) res" where
  "fill_loop ls [] len need =
     (if need then bcread_error (ls\<lparr>ls_blocks := []\<rparr>) LJ_ERR_BCBAD
      else Some (Inr (), ls\<lparr>ls_blocks := [], ls_eof := True\<rparr>))"
| "fill_loop ls (b # bs) len need =
     (if b = [] then
        if need then bcread_error (ls\<lparr>ls_blocks := bs\<rparr>) LJ_ERR_BCBAD
        else Some (Inr (), ls\<lparr>ls_blocks := bs, ls_eof := True\<rparr>)
      else if LJ_MAX_MEM - length (ls_p ls) \<le> length b then Some (Inl LJ_ERR_ERRMEM, ls\<lparr>ls_blocks := bs\<rparr>)
      else
        let ls = ls\<lparr>ls_p := ls_p ls @ b, ls_blocks := bs\<rparr> in
        if length (ls_p ls) < len then fill_loop ls bs len need else Some (Inr (), ls))"

definition bcread_fill :: "LexState \<Rightarrow> nat \<Rightarrow> bool \<Rightarrow> (unit, LexState) res" where
  "bcread_fill ls len need =
     (if LJ_MAX_MEM < len \<or> ls_eof ls then bcread_error ls LJ_ERR_BCBAD
      else fill_loop ls (ls_blocks ls) len need)"

definition bcread_need :: "LexState \<Rightarrow> nat \<Rightarrow> (unit, LexState) res" where
  "bcread_need ls len = (if length (ls_p ls) < len then bcread_fill ls len True else Some (Inr (), ls))"

definition bcread_want :: "LexState \<Rightarrow> nat \<Rightarrow> (unit, LexState) res" where
  "bcread_want ls len = (if length (ls_p ls) < len then bcread_fill ls len False else Some (Inr (), ls))"

definition bcread_mem :: "LexState \<Rightarrow> nat \<Rightarrow> (bytes, LexState) res" where
  "bcread_mem ls len =
     (if length (ls_p ls) < len then None
      else Some (Inr (take len (ls_p ls)), ls\<lparr>ls_p := drop len (ls_p ls)\<rparr>))"

definition bcread_byte :: "LexState \<Rightarrow> (u32, LexState) res" where
  "bcread_byte ls =
     (case ls_p ls of [] \<Rightarrow> None | b # p \<Rightarrow> Some (Inr (ucast b), ls\<lparr>ls_p := p\<rparr>))"

text \<open>The loop that the two ULEB128 readers share, from the second byte on.\<close>

fun uleb_rest :: "bytes \<Rightarrow> u32 \<Rightarrow> nat \<Rightarrow> (u32 \<times> bytes) option" where
  "uleb_rest [] v sh = None"
| "uleb_rest (b # p) v sh =
     (if 32 \<le> sh then None
      else
        let v = v OR push_bit sh (ucast b AND 0x7f) in
        if 0x80 \<le> b then uleb_rest p v (sh + 7) else Some (v, p))"

definition bcread_uleb128 :: "LexState \<Rightarrow> (u32, LexState) res" where
  "bcread_uleb128 ls =
     (case ls_p ls of [] \<Rightarrow> None
      | b # p \<Rightarrow>
          let v = ucast b :: u32 in
          if 0x80 \<le> v then
            (case uleb_rest p (v AND 0x7f) 7 of None \<Rightarrow> None | Some (v, p) \<Rightarrow> Some (Inr v, ls\<lparr>ls_p := p\<rparr>))
          else Some (Inr v, ls\<lparr>ls_p := p\<rparr>))"

definition bcread_uleb128_33 :: "LexState \<Rightarrow> (u32, LexState) res" where
  "bcread_uleb128_33 ls =
     (case ls_p ls of [] \<Rightarrow> None
      | b # p \<Rightarrow>
          let v = drop_bit 1 (ucast b :: u32) in
          if 0x40 \<le> v then
            (case uleb_rest p (v AND 0x3f) 6 of None \<Rightarrow> None | Some (v, p) \<Rightarrow> Some (Inr v, ls\<lparr>ls_p := p\<rparr>))
          else Some (Inr v, ls\<lparr>ls_p := p\<rparr>))"

section \<open>Constants\<close>

text \<open>A table environment operation on the accounting of the reader's state.\<close>

definition rd_str_new :: "renv \<Rightarrow> LexState \<Rightarrow> bytes \<Rightarrow> (u32, LexState) res" where
  "rd_str_new re ls b = (case re_str_new re b of Inl e \<Rightarrow> Some (Inl e, ls) | Inr s \<Rightarrow> Some (Inr s, ls))"

definition rd_newgco :: "renv \<Rightarrow> LexState \<Rightarrow> u32 \<Rightarrow> (unit, LexState) res" where
  "rd_newgco re ls sz =
     (if e_alloc (re_tab re) 0 sz then Some (Inr (), ls\<lparr>ls_total := ls_total ls + sz\<rparr>)
      else Some (Inl LJ_ERR_ERRMEM, ls))"

definition rd_tab :: "LexState \<Rightarrow> 'a tres \<Rightarrow> ('a \<times> GCtab, LexState) res" where
  "rd_tab ls r =
     (case r of None \<Rightarrow> None
      | Some (Inl e, t) \<Rightarrow> Some (Inl e, ls\<lparr>ls_total := g_total t\<rparr>)
      | Some (Inr x, t) \<Rightarrow> Some (Inr (x, t), ls\<lparr>ls_total := g_total t\<rparr>))"

text \<open>\<open>tv\<close> is the old contents of the slot that is read into.\<close>

definition bcread_ktabk :: "renv \<Rightarrow> LexState \<Rightarrow> TValue \<Rightarrow> (TValue, LexState) res" where
  "bcread_ktabk re ls tv =
     rbind (bcread_uleb128 ls) (\<lambda>ls tp.
     if BCDUMP_KTAB_STR \<le> tp then
       rbind (bcread_mem ls (unat (tp - BCDUMP_KTAB_STR))) (\<lambda>ls p.
       rbind (rd_str_new re ls p) (\<lambda>ls s. Some (Inr (setstrV s), ls)))
     else if tp = BCDUMP_KTAB_INT then
       rbind (bcread_uleb128 ls) (\<lambda>ls i. Some (Inr (setintV i), ls))
     else if tp = BCDUMP_KTAB_NUM then
       rbind (bcread_uleb128 ls) (\<lambda>ls lo.
       rbind (bcread_uleb128 ls) (\<lambda>ls hi. Some (Inr (mk_tv lo hi), ls)))
     else Some (Inr (setitype tv (NOT tp)), ls))"

fun rktab_array :: "renv \<Rightarrow> LexState \<Rightarrow> GCtab \<Rightarrow> nat list \<Rightarrow> (GCtab, LexState) res" where
  "rktab_array re ls t [] = Some (Inr t, ls)"
| "rktab_array re ls t (i # is) =
     rbind (bcread_ktabk re ls (t_array t ! i)) (\<lambda>ls v. rktab_array re ls (t\<lparr>t_array := (t_array t)[i := v]\<rparr>) is)"

fun rktab_hash :: "renv \<Rightarrow> LexState \<Rightarrow> GCtab \<Rightarrow> nat \<Rightarrow> (GCtab, LexState) res" where
  "rktab_hash re ls t 0 = Some (Inr t, ls)"
| "rktab_hash re ls t (Suc n) =
     rbind (bcread_ktabk re ls (n_key (e_junk (re_tab re)))) (\<lambda>ls key.
     rbind (rd_tab ls (lj_tab_set (re_tab re) (lj_tab_newkey (re_tab re)) t key)) (\<lambda>ls st.
     case st of (s, t) \<Rightarrow>
       rbind (bcread_ktabk re ls (slot_get t s)) (\<lambda>ls v. rktab_hash re ls (slot_set t s v) n)))"

definition bcread_ktab :: "renv \<Rightarrow> LexState \<Rightarrow> (GCtab, LexState) res" where
  "bcread_ktab re ls =
     rbind (bcread_uleb128 ls) (\<lambda>ls narray.
     rbind (bcread_uleb128 ls) (\<lambda>ls nhash.
     rbind (rd_tab ls (lj_tab_new (re_tab re) (ls_total ls) narray (hsize2hbits (unat nhash)))) (\<lambda>ls ut.
     rbind (rktab_array re ls (snd ut) [0..<unat narray]) (\<lambda>ls t.
     rktab_hash re ls t (unat nhash)))))"

definition bcread_kgc1 :: "renv \<Rightarrow> LexState \<Rightarrow> (kgc, LexState) res" where
  "bcread_kgc1 re ls =
     rbind (bcread_uleb128 ls) (\<lambda>ls tp.
     if BCDUMP_KGC_STR \<le> tp then
       rbind (bcread_mem ls (unat (tp - BCDUMP_KGC_STR))) (\<lambda>ls p.
       rbind (rd_str_new re ls p) (\<lambda>ls s. Some (Inr (KStr s), ls)))
     else if tp = BCDUMP_KGC_TAB then
       rbind (bcread_ktab re ls) (\<lambda>ls t. Some (Inr (KTab t), ls))
     else if tp \<noteq> BCDUMP_KGC_CHILD then
       let cid = (if tp = BCDUMP_KGC_COMPLEX then CTID_COMPLEX_DOUBLE
                  else if tp = BCDUMP_KGC_I64 then CTID_INT64 else CTID_UINT64);
           sz = (if tp = BCDUMP_KGC_COMPLEX then 16 else 8)
       in
       rbind (rd_newgco re ls (8 + sz)) (\<lambda>ls u.
       rbind (bcread_uleb128 ls) (\<lambda>ls lo.
       rbind (bcread_uleb128 ls) (\<lambda>ls hi.
       if tp = BCDUMP_KGC_COMPLEX then
         rbind (bcread_uleb128 ls) (\<lambda>ls lo1.
         rbind (bcread_uleb128 ls) (\<lambda>ls hi1. Some (Inr (KCdata cid (mk_tv lo hi) (mk_tv lo1 hi1)), ls)))
       else Some (Inr (KCdata cid (mk_tv lo hi) 0), ls))))
     else
       case ls_stack ls of
         [] \<Rightarrow> bcread_error ls LJ_ERR_BCBAD
       | pt # pts \<Rightarrow> Some (Inr (KProto pt), ls\<lparr>ls_stack := pts\<rparr>))"

fun bcread_kgc :: "renv \<Rightarrow> LexState \<Rightarrow> nat \<Rightarrow> (kgc list, LexState) res" where
  "bcread_kgc re ls 0 = Some (Inr [], ls)"
| "bcread_kgc re ls (Suc n) =
     rbind (bcread_kgc1 re ls) (\<lambda>ls k. rbind (bcread_kgc re ls n) (\<lambda>ls ks. Some (Inr (k # ks), ls)))"

definition bcread_knum1 :: "LexState \<Rightarrow> (TValue, LexState) res" where
  "bcread_knum1 ls =
     (case ls_p ls of [] \<Rightarrow> None
      | b # p \<Rightarrow>
          rbind (bcread_uleb128_33 ls) (\<lambda>ls lo.
          if b AND 1 \<noteq> 0 then
            rbind (bcread_uleb128 ls) (\<lambda>ls hi. Some (Inr (mk_tv lo hi), ls))
          else Some (Inr (setintV lo), ls)))"

fun bcread_knum :: "LexState \<Rightarrow> nat \<Rightarrow> (TValue list, LexState) res" where
  "bcread_knum ls 0 = Some (Inr [], ls)"
| "bcread_knum ls (Suc n) =
     rbind (bcread_knum1 ls) (\<lambda>ls k. rbind (bcread_knum ls n) (\<lambda>ls ks. Some (Inr (k # ks), ls)))"

section \<open>Prototypes\<close>

fun ld16 :: "bytes \<Rightarrow> u16 list" where
  "ld16 (a # b # p) = (ucast a OR push_bit 8 (ucast b)) # ld16 p"
| "ld16 p = []"

fun ld32 :: "bytes \<Rightarrow> u32 list" where
  "ld32 (a # b # c # d # p) =
     (ucast a OR push_bit 8 (ucast b) OR push_bit 16 (ucast c) OR push_bit 24 (ucast d)) # ld32 p"
| "ld32 p = []"

definition swap16 :: "u16 \<Rightarrow> u16" where "swap16 x = drop_bit 8 x OR push_bit 8 x"

definition bcread_bytecode :: "LexState \<Rightarrow> u8 \<Rightarrow> u8 \<Rightarrow> nat \<Rightarrow> (u32 list, LexState) res" where
  "bcread_bytecode ls flags framesize sizebc =
     (let bc0 = BCINS_AD (if flags AND PROTO_VARARG \<noteq> 0 then BC_FUNCV else BC_FUNCF) (ucast framesize) 0 in
      rbind (bcread_mem ls ((sizebc - 1) * 4)) (\<lambda>ls p.
      Some (Inr (bc0 # (if bcread_swap ls then map lj_bswap (ld32 p) else ld32 p)), ls)))"

definition bcread_uv :: "LexState \<Rightarrow> nat \<Rightarrow> (u16 list, LexState) res" where
  "bcread_uv ls sizeuv =
     (if sizeuv \<noteq> 0 then
        rbind (bcread_mem ls (sizeuv * 2)) (\<lambda>ls p.
        Some (Inr (if bcread_swap ls then map swap16 (ld16 p) else ld16 p), ls))
      else Some (Inr [], ls))"

text \<open>\<open>bcread_dbg\<close>: the line numbers of a dump from a host of the other endianness are swapped.\<close>

definition st16 :: "bytes \<Rightarrow> (u16 \<Rightarrow> u16) \<Rightarrow> nat \<Rightarrow> bytes" where
  "st16 p f n = concat (map (\<lambda>x. le16 (f x)) (ld16 (take (2 * n) p))) @ drop (2 * n) p"

definition st32 :: "bytes \<Rightarrow> (u32 \<Rightarrow> u32) \<Rightarrow> nat \<Rightarrow> bytes" where
  "st32 p f n = concat (map (\<lambda>x. le32 (f x)) (ld32 (take (4 * n) p))) @ drop (4 * n) p"

definition bcread_dbg :: "LexState \<Rightarrow> u32 \<Rightarrow> nat \<Rightarrow> nat \<Rightarrow> (bytes, LexState) res" where
  "bcread_dbg ls numline sizebc sizedbg =
     rbind (bcread_mem ls sizedbg) (\<lambda>ls p.
     Some (Inr
       (if bcread_swap ls \<and> 256 \<le> sint numline then
          if sint numline < 65536 then st16 p swap16 (sizebc - 1) else st32 p lj_bswap (sizebc - 1)
        else p), ls))"

text \<open>Skip the zero-terminated names of \<open>n\<close> upvalues, as offsets into the debug information.\<close>

fun varinfo_loop :: "bytes \<Rightarrow> nat \<Rightarrow> nat \<Rightarrow> nat option" where
  "varinfo_loop [] n ofs = None"
| "varinfo_loop (b # p) n ofs =
     (if b \<noteq> 0 then varinfo_loop p n (ofs + 1)
      else if n - 1 \<noteq> 0 then varinfo_loop p (n - 1) (ofs + 1) else Some (ofs + 1))"

definition bcread_varinfo :: "bytes \<Rightarrow> nat \<Rightarrow> nat \<Rightarrow> nat option" where
  "bcread_varinfo dbg uvinfo sizeuv =
     (if sizeuv \<noteq> 0 then varinfo_loop (drop uvinfo dbg) sizeuv uvinfo else Some uvinfo)"

definition sizeli :: "nat \<Rightarrow> u32 \<Rightarrow> nat" where
  "sizeli sizebc numline =
     (sizebc - 1) * 2 ^ (if sint numline < 256 then 0 else if sint numline < 65536 then 1 else 2)"

text \<open>The layout of the prototype object.\<close>

definition proto_size :: "u32 \<Rightarrow> u32 \<Rightarrow> u32 \<Rightarrow> u32 \<Rightarrow> u32 \<Rightarrow> u32" where
  "proto_size sizebc sizekgc sizekn sizeuv sizedbg =
     (let sizept = 64 + sizebc * 4 + sizekgc * 4;
          sizept = (sizept + 8 - 1) AND NOT (8 - 1);
          sizept = sizept + sizekn * 8;
          sizept = sizept + ((sizeuv + 1) AND NOT 1) * 2
      in sizept + sizedbg)"

definition bcread_pdata :: "renv \<Rightarrow> LexState \<Rightarrow> nat \<Rightarrow> (GCproto, LexState) res" where
  "bcread_pdata re ls len =
     (let startn = length (ls_p ls) in
      rbind (bcread_byte ls) (\<lambda>ls flags.
      rbind (bcread_byte ls) (\<lambda>ls numparams.
      rbind (bcread_byte ls) (\<lambda>ls framesize.
      rbind (bcread_byte ls) (\<lambda>ls sizeuv.
      rbind (bcread_uleb128 ls) (\<lambda>ls sizekgc.
      rbind (bcread_uleb128 ls) (\<lambda>ls sizekn.
      rbind (bcread_uleb128 ls) (\<lambda>ls nbc.
      let sizebc = nbc + 1 in
      rbind (if ls_flags ls AND BCDUMP_F_STRIP = 0 then
               rbind (bcread_uleb128 ls) (\<lambda>ls sizedbg.
               if sizedbg \<noteq> 0 then
                 rbind (bcread_uleb128 ls) (\<lambda>ls firstline.
                 rbind (bcread_uleb128 ls) (\<lambda>ls numline. Some (Inr (sizedbg, firstline, numline), ls)))
               else Some (Inr (0, 0, 0), ls))
             else Some (Inr (0, 0, 0), ls)) (\<lambda>ls dbg.
      case dbg of (sizedbg, firstline, numline) \<Rightarrow>
      let sizept = proto_size sizebc sizekgc sizekn sizeuv sizedbg in
      rbind (rd_newgco re ls sizept) (\<lambda>ls u.
      rbind (bcread_bytecode ls (ucast flags) (ucast framesize) (unat sizebc)) (\<lambda>ls bc.
      rbind (bcread_uv ls (unat sizeuv)) (\<lambda>ls uv.
      rbind (bcread_kgc re ls (unat sizekgc)) (\<lambda>ls ks.
      rbind (bcread_knum ls (unat sizekn)) (\<lambda>ls kn.
      let h = \<lparr>p_flags = ucast flags, p_numparams = ucast numparams, p_framesize = ucast framesize, p_bc = bc,
               p_uv = uv, p_kn = kn, p_sizept = sizept, p_trace = 0, p_chunkname = ls_chunkname ls,
               p_firstline = firstline, p_numline = numline, p_lineinfo = None, p_uvinfo = 0, p_varinfo = 0\<rparr> in
      rbind (if sizedbg \<noteq> 0 then
               rbind (bcread_dbg ls numline (unat sizebc) (unat sizedbg)) (\<lambda>ls d.
               let uvi = sizeli (unat sizebc) numline in
               case bcread_varinfo d uvi (unat sizeuv) of
                 None \<Rightarrow> None
               | Some vi \<Rightarrow> Some (Inr (h\<lparr>p_lineinfo := Some d, p_uvinfo := uvi, p_varinfo := vi\<rparr>), ls))
             else Some (Inr h, ls)) (\<lambda>ls h.
      if len \<noteq> startn - length (ls_p ls) then bcread_error ls LJ_ERR_BCBAD
      else Some (Inr (GCproto h ks), ls))))))))))))))))"

text \<open>\<open>None\<close> in the result is the null pointer at the end of the dump.\<close>

definition bcread_proto :: "renv \<Rightarrow> LexState \<Rightarrow> (GCproto option, LexState) res" where
  "bcread_proto re ls =
     (if ls_p ls \<noteq> [] \<and> hd (ls_p ls) = 0 then Some (Inr None, ls\<lparr>ls_p := tl (ls_p ls)\<rparr>)
      else
        rbind (bcread_want ls 5) (\<lambda>ls u.
        rbind (bcread_uleb128 ls) (\<lambda>ls len.
        if len = 0 then Some (Inr None, ls)
        else
          rbind (bcread_need ls (unat len)) (\<lambda>ls u.
          rbind (bcread_pdata re ls (unat len)) (\<lambda>ls pt. Some (Inr (Some pt), ls))))))"

text \<open>The header; the escape byte was consumed by the caller. False is a dump of another format.\<close>

definition bcread_header :: "renv \<Rightarrow> LexState \<Rightarrow> (bool, LexState) res" where
  "bcread_header re ls =
     rbind (bcread_want ls (3 + 5 + 5)) (\<lambda>ls u.
     rbind (bcread_byte ls) (\<lambda>ls a.
     if a \<noteq> ucast BCDUMP_HEAD2 then Some (Inr False, ls)
     else rbind (bcread_byte ls) (\<lambda>ls b.
     if b \<noteq> ucast BCDUMP_HEAD3 then Some (Inr False, ls)
     else rbind (bcread_byte ls) (\<lambda>ls v.
     if v \<noteq> ucast BCDUMP_VERSION then Some (Inr False, ls)
     else rbind (bcread_uleb128 ls) (\<lambda>ls flags.
     let ls = ls\<lparr>ls_flags := flags\<rparr> in
     if flags AND NOT BCDUMP_F_KNOWN \<noteq> 0 then Some (Inr False, ls)
     else if flags AND BCDUMP_F_STRIP \<noteq> 0 then
       rbind (rd_str_new re ls
         (if ls_chunkarg ls \<noteq> [] \<and> hd (ls_chunkarg ls) = BCDUMP_HEAD1 then [0x3d, 0x3f] else ls_chunkarg ls)) (\<lambda>ls s.
       Some (Inr True, ls\<lparr>ls_chunkname := s\<rparr>))
     else
       rbind (bcread_uleb128 ls) (\<lambda>ls len.
       rbind (bcread_need ls (unat len)) (\<lambda>ls u.
       rbind (bcread_mem ls (unat len)) (\<lambda>ls p.
       rbind (rd_str_new re ls p) (\<lambda>ls s.
       Some (Inr True, ls\<lparr>ls_chunkname := s\<rparr>))))))))))"

partial_function (option) bcread_protos :: "renv \<Rightarrow> LexState \<Rightarrow> (unit, LexState) res" where
  [code]: "bcread_protos re ls =
     (case bcread_proto re ls of
        None \<Rightarrow> None
      | Some (r, ls) \<Rightarrow>
          (case r of
             Inl e \<Rightarrow> Some (Inl e, ls)
           | Inr None \<Rightarrow> Some (Inr (), ls)
           | Inr (Some pt) \<Rightarrow> bcread_protos re (ls\<lparr>ls_stack := pt # ls_stack ls\<rparr>)))"

definition lj_bcread :: "renv \<Rightarrow> LexState \<Rightarrow> (GCproto, LexState) res" where
  "lj_bcread re ls =
     rbind (bcread_header re (ls\<lparr>ls_stack := []\<rparr>)) (\<lambda>ls okh.
     if \<not> okh then bcread_error ls LJ_ERR_BCFMT
     else
       rbind (bcread_protos re ls) (\<lambda>ls u.
       case ls_stack ls of
         [pt] \<Rightarrow> if ls_p ls \<noteq> [] \<and> \<not> ls_endmark ls then bcread_error ls LJ_ERR_BCBAD
                 else Some (Inr pt, ls\<lparr>ls_stack := []\<rparr>)
       | _ \<Rightarrow> bcread_error ls LJ_ERR_BCBAD))"

end
