(* ===== verification/LJ_TabInv.thy ===== *)
theory LJ_TabInv
  imports LJ_Tab
begin

text \<open>
  The invariant of the hash part and what the table operations do to it. Nodes reach each other
  along their \<open>next\<close> fields; every key is reachable from its main position, main positions that
  some key hashes to hold such a key themselves, and free nodes are on no chain. The content of
  the hash part is the set of its live key/value pairs.
\<close>

section \<open>Keys\<close>

definition key_ok :: "TValue \<Rightarrow> bool" where
  "key_ok k \<longleftrightarrow> tv_proper k \<and> \<not> tvisnil k"

definition key_int :: "TValue \<Rightarrow> u32 option" where
  "key_int k =
     (if tvisnum k \<and> num_eq k (num_of_int (sint (lj_num2int k))) then Some (lj_num2int k) else None)"

lemma hashmask_lt: "hashmask t h < unat (t_hmask t) + 1"
  using unat_mask_le [of h "t_hmask t"] by (simp add: hashmask_def)

lemma hashkey_lt: "hashkey e t k < unat (t_hmask t) + 1"
  by (auto simp: hashkey_def hashstr_def hashnum_def hashlohi_def hashgcref_def intro: hashmask_lt [simplified])

lemma hashkey_mask: "t_hmask t = t_hmask t' \<Longrightarrow> hashkey e t k = hashkey e t' k"
  by (simp add: hashkey_def hashstr_def hashnum_def hashlohi_def hashgcref_def hashmask_def)

lemma str_not_pri: "tvisstr k \<Longrightarrow> \<not> tvispri k \<and> \<not> tvisnum k"
  by (simp add: tvisstr_def tvispri_def tvisnum_def tag_defs word_le_nat_alt word_less_nat_alt)

lemma canon_itype: "tvispri k \<Longrightarrow> itype (tv_canon k) = itype k"
  by (simp add: tv_canon_def itype_def)

lemma mzero_halves: "tv_lo 0x8000000000000000 = 0" "tv_hi 0x8000000000000000 * 2 = 0"
  by code_simp+

lemma zero_halves: "tv_lo 0 = 0" "tv_hi 0 = 0"
  by (simp_all add: tv_lo_def tv_hi_def)

lemma hashkey_canon:
  assumes "\<not> tvisnil k"
  shows "hashkey e t (tv_canon k) = hashkey e t k"
proof (cases "tvispri k")
  case True
  then have b: "tvisbool k" using assms by (simp add: tvispri_cases)
  have "\<not> tvisstr k" "\<not> tvisnum k" using True str_not_pri num_not_pri by auto
  with b True show ?thesis
    using canon_itype [OF True] by (simp add: hashkey_def tvis_defs boolV_def)
next
  case False
  show ?thesis
  proof (cases "tvisnum k \<and> tviszero k")
    case True
    then have "\<not> tvisstr k" using str_not_pri by auto
    moreover have "hashnum t k = hashnum t 0"
      using True by (auto simp: tviszero_iff hashnum_def mzero_halves zero_halves)
    moreover have "\<not> tvisstr 0" by (simp add: tvisstr_def LJ_TSTR_def)
    ultimately show ?thesis using True False by (simp add: tv_canon_def hashkey_def)
  qed (use False in \<open>auto simp: tv_canon_def\<close>)
qed

lemma hashkey_eq_canon:
  "\<not> tvisnil k \<Longrightarrow> \<not> tvisnil k' \<Longrightarrow> tv_canon k = tv_canon k' \<Longrightarrow> hashkey e t k = hashkey e t k'"
  by (metis hashkey_canon)

section \<open>Chains\<close>

definition nxt :: "Node list \<Rightarrow> (nat \<times> nat) set" where
  "nxt ns = {(i, j). i < length ns \<and> n_next (ns ! i) = Some j}"

definition used :: "Node list \<Rightarrow> nat \<Rightarrow> bool" where
  "used ns i \<longleftrightarrow> i < length ns \<and> \<not> tvisnil (n_key (ns ! i))"

definition ranked :: "Node list \<Rightarrow> bool" where
  "ranked ns \<longleftrightarrow> (\<exists>rank :: nat \<Rightarrow> nat. \<forall>(i, j) \<in> nxt ns. rank j < rank i)"

text \<open>The structure of the chains, for the main position function \<open>mp\<close>.\<close>

definition chains_ok :: "(TValue \<Rightarrow> nat) \<Rightarrow> Node list \<Rightarrow> bool" where
  "chains_ok mp ns \<longleftrightarrow>
     (\<forall>(i, j) \<in> nxt ns. used ns i \<and> used ns j) \<and>
     (\<forall>i i' j. (i, j) \<in> nxt ns \<longrightarrow> (i', j) \<in> nxt ns \<longrightarrow> i = i') \<and>
     ranked ns \<and>
     (\<forall>i. used ns i \<longrightarrow> (mp (n_key (ns ! i)), i) \<in> (nxt ns)\<^sup>*) \<and>
     (\<forall>i. used ns i \<longrightarrow> mp (n_key (ns ! i)) < length ns \<and> used ns (mp (n_key (ns ! i))) \<and>
        mp (n_key (ns ! mp (n_key (ns ! i)))) = mp (n_key (ns ! i)))"

lemma node_find_spec:
  assumes "ranked ns" "\<forall>(i, j) \<in> nxt ns. j < length ns" "i < length ns"
  shows "\<exists>r. node_find ns P i = Some r \<and>
    (case r of Some j \<Rightarrow> j < length ns \<and> P (ns ! j) \<and> (i, j) \<in> (nxt ns)\<^sup>*
     | None \<Rightarrow> \<forall>j. (i, j) \<in> (nxt ns)\<^sup>* \<longrightarrow> \<not> P (ns ! j))"
proof -
  obtain rank :: "nat \<Rightarrow> nat" where rank: "\<forall>(i, j) \<in> nxt ns. rank j < rank i"
    using assms(1) by (auto simp: ranked_def)
  show ?thesis using assms(3)
  proof (induction "rank i" arbitrary: i rule: less_induct)
    case less
    show ?case
    proof (cases "P (ns ! i)")
      case True
      then show ?thesis using less.prems by (subst node_find.simps) auto
    next
      case P: False
      show ?thesis
      proof (cases "n_next (ns ! i)")
        case None
        then have "\<forall>j. (i, j) \<in> (nxt ns)\<^sup>* \<longrightarrow> j = i"
          by (auto simp: nxt_def elim: converse_rtranclE)
        with None P show ?thesis by (subst node_find.simps) auto
      next
        case (Some j)
        then have ij: "(i, j) \<in> nxt ns" using less.prems by (simp add: nxt_def)
        have "rank j < rank i" "j < length ns" using ij rank assms(2) by auto
        from less.hyps [OF this] obtain r where r: "node_find ns P j = Some r"
          "case r of Some k \<Rightarrow> k < length ns \<and> P (ns ! k) \<and> (j, k) \<in> (nxt ns)\<^sup>*
           | None \<Rightarrow> \<forall>k. (j, k) \<in> (nxt ns)\<^sup>* \<longrightarrow> \<not> P (ns ! k)" by blast
        have step: "(i, k) \<in> (nxt ns)\<^sup>* \<longleftrightarrow> k = i \<or> (j, k) \<in> (nxt ns)\<^sup>*" for k
          using ij Some by (auto simp: nxt_def elim: converse_rtranclE intro: converse_rtrancl_into_rtrancl)
        show ?thesis using Some P r step
          by (subst node_find.simps) (auto split: option.splits)
      qed
    qed
  qed
qed

text \<open>All keys of the hash part are canonical, proper and different.\<close>

definition keys_ok :: "Node list \<Rightarrow> bool" where
  "keys_ok ns \<longleftrightarrow> (\<forall>i. used ns i \<longrightarrow> key_ok (n_key (ns ! i)) \<and> \<not> tvismzero (n_key (ns ! i))) \<and>
     (\<forall>i j. used ns i \<longrightarrow> used ns j \<longrightarrow> tv_canon (n_key (ns ! i)) = tv_canon (n_key (ns ! j)) \<longrightarrow> i = j) \<and>
     (\<forall>i < length ns. \<not> used ns i \<longrightarrow> tvisnil (n_val (ns ! i)))"

text \<open>A lookup with any predicate that singles out a key finds that key or reports its absence.\<close>

definition holds_key :: "Node list \<Rightarrow> nat \<Rightarrow> TValue \<Rightarrow> bool" where
  "holds_key ns i k \<longleftrightarrow> used ns i \<and> tv_canon (n_key (ns ! i)) = tv_canon k"

lemma node_find_key:
  assumes ok: "chains_ok mp ns" "keys_ok ns" and k: "\<not> tvisnil k" "mp k < length ns"
    and mp: "\<And>k'. \<not> tvisnil k' \<Longrightarrow> tv_canon k' = tv_canon k \<Longrightarrow> mp k' = mp k"
    and P: "\<And>i. i < length ns \<Longrightarrow> P (ns ! i) \<longleftrightarrow> holds_key ns i k"
  obtains (found) i where "node_find ns P (mp k) = Some (Some i)" "holds_key ns i k"
  | (absent) "node_find ns P (mp k) = Some None" "\<forall>i. \<not> holds_key ns i k"
proof -
  have "ranked ns" "\<forall>(i, j) \<in> nxt ns. j < length ns" using ok by (auto simp: chains_ok_def used_def)
  from node_find_spec [OF this k(2), of P] obtain r where r: "node_find ns P (mp k) = Some r"
    "case r of Some j \<Rightarrow> j < length ns \<and> P (ns ! j) \<and> (mp k, j) \<in> (nxt ns)\<^sup>*
     | None \<Rightarrow> \<forall>j. (mp k, j) \<in> (nxt ns)\<^sup>* \<longrightarrow> \<not> P (ns ! j)" by blast
  show ?thesis
  proof (cases r)
    case (Some i)
    then show ?thesis using r P by (intro found [of i]) auto
  next
    case None
    have "\<not> holds_key ns i k" for i
    proof
      assume h: "holds_key ns i k"
      then have i: "used ns i" "i < length ns" by (auto simp: holds_key_def used_def)
      have "mp (n_key (ns ! i)) = mp k" using h by (intro mp) (auto simp: holds_key_def used_def)
      then have "(mp k, i) \<in> (nxt ns)\<^sup>*" using ok(1) i(1) by (metis chains_ok_def)
      with None r P [OF i(2)] h show False by auto
    qed
    with None r show ?thesis by (intro absent) auto
  qed
qed


section \<open>The three ways to place a new key\<close>

text \<open>
  Each lemma takes the node list after the step by what it holds at every index: the key goes to
  its main position, which holds no live value; to a free node linked behind the main position; or
  to the main position after the key there moved to a free node.
\<close>

lemma chains_okD:
  assumes "chains_ok mp ns"
  shows "(i, j) \<in> nxt ns \<Longrightarrow> used ns i \<and> used ns j"
    "(i, j) \<in> nxt ns \<Longrightarrow> (i', j) \<in> nxt ns \<Longrightarrow> i = i'"
    "ranked ns" "used ns i \<Longrightarrow> (mp (n_key (ns ! i)), i) \<in> (nxt ns)\<^sup>*"
    "used ns i \<Longrightarrow> used ns (mp (n_key (ns ! i)))"
    "used ns i \<Longrightarrow> mp (n_key (ns ! mp (n_key (ns ! i)))) = mp (n_key (ns ! i))"
  using assms by (auto simp: chains_ok_def)

lemma chains_okI:
  assumes "\<And>i j. (i, j) \<in> nxt ns \<Longrightarrow> used ns i \<and> used ns j"
    "\<And>i i' j. (i, j) \<in> nxt ns \<Longrightarrow> (i', j) \<in> nxt ns \<Longrightarrow> i = i'"
    "ranked ns" "\<And>i. used ns i \<Longrightarrow> (mp (n_key (ns ! i)), i) \<in> (nxt ns)\<^sup>*"
    "\<And>i. used ns i \<Longrightarrow> used ns (mp (n_key (ns ! i))) \<and>
       mp (n_key (ns ! mp (n_key (ns ! i)))) = mp (n_key (ns ! i))"
  shows "chains_ok mp ns"
proof -
  have "mp (n_key (ns ! i)) < length ns" if "used ns i" for i
    using assms(5) [OF that] by (simp add: used_def)
  with assms show ?thesis unfolding chains_ok_def by blast
qed

lemma place_main:
  assumes ok: "chains_ok mp ns" and n: "n < length ns" "mp kc = n" "\<not> tvisnil kc"
    and len: "length ns' = length ns"
    and nx: "\<And>i. i < length ns \<Longrightarrow> n_next (ns' ! i) = n_next (ns ! i)"
    and ky: "\<And>i. i < length ns \<Longrightarrow> n_key (ns' ! i) = (if i = n then kc else n_key (ns ! i))"
  shows "chains_ok mp ns'"
proof -
  have nxt: "nxt ns' = nxt ns" using nx len by (auto simp: nxt_def)
  have us: "used ns' i \<longleftrightarrow> used ns i \<or> i = n" for i using ky len n by (auto simp: used_def split: if_splits)
  have mpk: "i \<noteq> n \<Longrightarrow> used ns i \<Longrightarrow> n_key (ns' ! i) = n_key (ns ! i)" for i using ky by (simp add: used_def)
  have kn: "n_key (ns' ! n) = kc" using ky n by simp
  have mk: "mp (n_key (ns' ! mp (n_key (ns' ! i)))) = mp (n_key (ns' ! i))" if "used ns' i" for i
  proof (cases "i = n")
    case True
    then show ?thesis by (simp add: kn n)
  next
    case False
    then have "used ns i" using that us by simp
    then show ?thesis using False mpk kn n chains_okD(5,6) [OF ok, of i]
      by (cases "mp (n_key (ns ! i)) = n") auto
  qed
  have rt: "(mp (n_key (ns' ! i)), i) \<in> (nxt ns)\<^sup>*" if "used ns' i" for i
    using that us mpk kn n chains_okD(4) [OF ok, of i] by (cases "i = n") auto
  have um: "used ns' (mp (n_key (ns' ! i)))" if "used ns' i" for i
    using that us mpk kn n chains_okD(5) [OF ok, of i] by (cases "i = n") auto
  have "ranked ns'" using chains_okD(3) [OF ok] by (simp add: ranked_def nxt)
  then show ?thesis
    using chains_okD(1,2) [OF ok] us mk rt um unfolding nxt [symmetric] by (intro chains_okI) blast+
qed

lemma rtrancl_image:
  assumes "\<And>x y. (x, y) \<in> r \<Longrightarrow> (h x, h y) \<in> s\<^sup>*" "(a, b) \<in> r\<^sup>*"
  shows "(h a, h b) \<in> s\<^sup>*"
  using assms(2) by induction (auto intro: assms(1) rtrancl_trans)

lemma place_after:
  assumes ok: "chains_ok mp ns" and n: "used ns n" "mp (n_key (ns ! n)) = n" "mp kc = n" "\<not> tvisnil kc"
    and f: "f < length ns" "\<not> used ns f"
    and len: "length ns' = length ns"
    and nx: "\<And>i. i < length ns \<Longrightarrow> n_next (ns' ! i) =
       (if i = n then Some f else if i = f then n_next (ns ! n) else n_next (ns ! i))"
    and ky: "\<And>i. i < length ns \<Longrightarrow> n_key (ns' ! i) = (if i = f then kc else n_key (ns ! i))"
  shows "chains_ok mp ns'"
proof -
  have nl: "n < length ns" using n(1) by (simp add: used_def)
  have fn: "f \<noteq> n" using n(1) f(2) by auto
  have us: "used ns' i \<longleftrightarrow> used ns i \<or> i = f" for i using ky len n f by (auto simp: used_def split: if_splits)
  have fiso: "(i, f) \<notin> nxt ns" "(f, i) \<notin> nxt ns" for i using chains_okD(1) [OF ok] f(2) by blast+
  have nxt: "(i, j) \<in> nxt ns' \<longleftrightarrow> (if i = n then j = f else if i = f then (n, j) \<in> nxt ns else (i, j) \<in> nxt ns)" for i j
    using nx [of i] nl f(1) fn len by (auto simp: nxt_def)
  have step: "(x, y) \<in> (nxt ns')\<^sup>*" if "(x, y) \<in> nxt ns" for x y
  proof (cases "x = n")
    case True
    then have "(n, f) \<in> nxt ns'" "(f, y) \<in> nxt ns'" using that nxt fn by auto
    then show ?thesis using True by (meson r_into_rtrancl rtrancl_trans)
  next
    case False
    then have "(x, y) \<in> nxt ns'" using that nxt fiso by auto
    then show ?thesis by blast
  qed
  have rt0: "(a, b) \<in> (nxt ns)\<^sup>* \<Longrightarrow> (a, b) \<in> (nxt ns')\<^sup>*" for a b
  proof -
    have "nxt ns \<subseteq> (nxt ns')\<^sup>*" using step by auto
    then show "(a, b) \<in> (nxt ns)\<^sup>* \<Longrightarrow> (a, b) \<in> (nxt ns')\<^sup>*"
      using rtrancl_mono [of "nxt ns" "(nxt ns')\<^sup>*"] by auto
  qed
  have key: "i \<noteq> f \<Longrightarrow> used ns i \<Longrightarrow> n_key (ns' ! i) = n_key (ns ! i)" for i using ky by (simp add: used_def)
  have kf: "n_key (ns' ! f) = kc" using ky f by simp
  have rank: "ranked ns'"
  proof -
    obtain rank :: "nat \<Rightarrow> nat" where r: "\<forall>(i, j) \<in> nxt ns. rank j < rank i"
      using chains_okD(3) [OF ok] by (auto simp: ranked_def)
    define rank' where "rank' i = (if i = f then 2 * rank n else if i = n then 2 * rank n + 1 else 2 * rank i)" for i
    have *: "rank j < rank i" "j \<noteq> f" if "(i, j) \<in> nxt ns" for i j
      using r that fiso by auto
    have "rank' j < rank' i" if ij: "(i, j) \<in> nxt ns'" for i j
    proof -
      consider "i = n" "j = f" | "i = f" "(n, j) \<in> nxt ns" | "i \<noteq> n" "i \<noteq> f" "(i, j) \<in> nxt ns"
        using ij nxt [of i j] fn by (auto split: if_splits)
      then show ?thesis
      proof cases
        case 1
        then show ?thesis using fn by (simp add: rank'_def)
      next
        case 2
        moreover have "j \<noteq> n" using *(1) [OF 2(2)] by auto
        ultimately show ?thesis using * [OF 2(2)] by (simp add: rank'_def)
      next
        case 3
        then show ?thesis using * [OF 3(3)] by (cases "j = n") (auto simp: rank'_def)
      qed
    qed
    then show ?thesis unfolding ranked_def by blast
  qed
  have rt: "(mp (n_key (ns' ! i)), i) \<in> (nxt ns')\<^sup>*" if "used ns' i" for i
  proof (cases "i = f")
    case True
    then show ?thesis using kf n nxt [of n f] by auto
  next
    case False
    then show ?thesis using that us key rt0 chains_okD(4) [OF ok, of i] by auto
  qed
  have um: "used ns' (mp (n_key (ns' ! i))) \<and> mp (n_key (ns' ! mp (n_key (ns' ! i)))) = mp (n_key (ns' ! i))"
    if "used ns' i" for i
  proof (cases "i = f")
    case True
    then show ?thesis using kf n us key fn by auto
  next
    case False
    then have "used ns i" using that us by auto
    moreover from this have "mp (n_key (ns ! i)) \<noteq> f" using chains_okD(5) [OF ok] f(2) by metis
    ultimately show ?thesis using False us key chains_okD(5,6) [OF ok, of i] by auto
  qed
  have deg: "i = i'" if "(i, j) \<in> nxt ns'" "(i', j) \<in> nxt ns'" for i i' j
    using that nxt [of i j] nxt [of i' j] fiso chains_okD(2) [OF ok] by (auto split: if_splits)
  have both: "used ns' i \<and> used ns' j" if "(i, j) \<in> nxt ns'" for i j
    using that nxt [of i j] us n(1) chains_okD(1) [OF ok] by (auto split: if_splits)
  show ?thesis by (rule chains_okI [OF both deg rank rt um])
qed

lemma place_move:
  assumes ok: "chains_ok mp ns" and n: "used ns n" "mp (n_key (ns ! n)) \<noteq> n" "mp kc = n" "\<not> tvisnil kc"
    and f: "f < length ns" "\<not> used ns f" and p: "(p, n) \<in> nxt ns"
    and len: "length ns' = length ns"
    and nx: "\<And>i. i < length ns \<Longrightarrow> n_next (ns' ! i) =
       (if i = n then None else if i = f then n_next (ns ! n) else if i = p then Some f else n_next (ns ! i))"
    and ky: "\<And>i. i < length ns \<Longrightarrow> n_key (ns' ! i) =
       (if i = n then kc else if i = f then n_key (ns ! n) else n_key (ns ! i))"
  shows "chains_ok mp ns'"
proof -
  have nl: "n < length ns" using n(1) by (simp add: used_def)
  have fn: "f \<noteq> n" using n(1) f(2) by auto
  obtain rank :: "nat \<Rightarrow> nat" where r: "\<forall>(i, j) \<in> nxt ns. rank j < rank i"
    using chains_okD(3) [OF ok] by (auto simp: ranked_def)
  have pn: "p \<noteq> n" using r p by auto
  have fiso: "(i, f) \<notin> nxt ns" "(f, i) \<notin> nxt ns" for i using chains_okD(1) [OF ok] f(2) by blast+
  have pf: "p \<noteq> f" using p fiso by auto
  have us: "used ns' i \<longleftrightarrow> used ns i \<or> i = f" for i using ky len n f by (auto simp: used_def split: if_splits)
  have nxt: "(i, j) \<in> nxt ns' \<longleftrightarrow> i \<noteq> n \<and>
      (if i = f then (n, j) \<in> nxt ns else if i = p then j = f else (i, j) \<in> nxt ns)" for i j
    using nx [of i] nl f(1) fn len p pf pn by (cases "i = p") (auto simp: nxt_def)
  have pred: "(i, n) \<in> nxt ns \<Longrightarrow> i = p" for i using chains_okD(2) [OF ok] p by blast
  define h where "h x = (if x = n then f else x)" for x
  have step: "(h x, h y) \<in> (nxt ns')\<^sup>*" if "(x, y) \<in> nxt ns" for x y
  proof -
    note xy = that
    consider "x = n" "y \<noteq> n" | "x = p" "y = n" | "x \<noteq> n" "x \<noteq> p" "y \<noteq> n"
    proof -
      have "\<not> (x = n \<and> y = n)" using xy r by auto
      moreover have "y = n \<Longrightarrow> x = p" using xy pred by simp
      moreover have "x = p \<Longrightarrow> y = n" using xy p by (simp add: nxt_def)
      ultimately show thesis using that by blast
    qed
    then have "(h x, h y) \<in> nxt ns'"
    proof cases
      case 1
      then show ?thesis using nxt [of f y] xy fn by (simp add: h_def)
    next
      case 2
      then show ?thesis using nxt [of p f] pn pf by (simp add: h_def)
    next
      case 3
      then show ?thesis using nxt [of x y] xy fiso(2) [of y] by (auto simp: h_def)
    qed
    then show ?thesis by blast
  qed
  have rt0: "(h a, h b) \<in> (nxt ns')\<^sup>*" if "(a, b) \<in> (nxt ns)\<^sup>*" for a b
    using rtrancl_image [of "nxt ns" h] step that by blast
  have key: "i \<noteq> f \<Longrightarrow> i \<noteq> n \<Longrightarrow> used ns i \<Longrightarrow> n_key (ns' ! i) = n_key (ns ! i)" for i
    using ky by (simp add: used_def)
  have kf: "n_key (ns' ! f) = n_key (ns ! n)" "n_key (ns' ! n) = kc" using ky f nl fn by auto
  have own: "mp (n_key (ns ! i)) \<noteq> n" if "used ns i" for i
    using chains_okD(6) [OF ok that] n(2) by metis
  have nf: "mp (n_key (ns ! i)) \<noteq> f" if "used ns i" for i
    using chains_okD(5) [OF ok that] f(2) by metis
  have rank: "ranked ns'"
  proof -
    define rank' where "rank' i = (if i = f then rank n else rank i)" for i
    have "rank' j < rank' i" if "(i, j) \<in> nxt ns'" for i j
      using that nxt [of i j] r p fiso pf by (auto simp: rank'_def split: if_splits)
    then show ?thesis unfolding ranked_def by blast
  qed
  have rt: "(mp (n_key (ns' ! i)), i) \<in> (nxt ns')\<^sup>*" if u: "used ns' i" for i
  proof -
    consider "i = n" | "i = f" | "i \<noteq> n" "i \<noteq> f" "used ns i" using u us [of i] by blast
    then show ?thesis
    proof cases
      case 1
      then show ?thesis using kf n by simp
    next
      case 2
      then show ?thesis using kf own [OF n(1)] rt0 [OF chains_okD(4) [OF ok n(1)]] by (simp add: h_def)
    next
      case 3
      then show ?thesis using key own rt0 [OF chains_okD(4) [OF ok 3(3)]] by (simp add: h_def)
    qed
  qed
  have um: "used ns' (mp (n_key (ns' ! i))) \<and> mp (n_key (ns' ! mp (n_key (ns' ! i)))) = mp (n_key (ns' ! i))"
    if u: "used ns' i" for i
  proof -
    consider "i = n" | j where "used ns j" "n_key (ns' ! i) = n_key (ns ! j)"
      using u us [of i] kf key [of i] n(1) by blast
    then show ?thesis
    proof cases
      case 1
      then show ?thesis using kf n us by simp
    next
      case 2
      then show ?thesis using us key own nf chains_okD(5,6) [OF ok, of j] by simp
    qed
  qed
  have deg: "i = i'" if "(i, j) \<in> nxt ns'" "(i', j) \<in> nxt ns'" for i i' j
    using that nxt [of i j] nxt [of i' j] fiso chains_okD(2) [OF ok] by (auto split: if_splits)
  have both: "used ns' i \<and> used ns' j" if "(i, j) \<in> nxt ns'" for i j
    using that nxt [of i j] us chains_okD(1) [OF ok] p by (auto split: if_splits)
  show ?thesis by (rule chains_okI [OF both deg rank rt um])
qed


section \<open>The content of the hash part\<close>

definition hset :: "Node list \<Rightarrow> (TValue \<times> TValue) set" where
  "hset ns = {(tv_canon (n_key (ns ! i)), n_val (ns ! i)) | i. used ns i \<and> \<not> tvisnil (n_val (ns ! i))}"

definition nused :: "Node list \<Rightarrow> nat" where
  "nused ns = card {i. used ns i}"

lemma used_finite [simp]: "finite {i. used ns i}"
  by (rule finite_subset [of _ "{..<length ns}"]) (auto simp: used_def)

text \<open>Node \<open>x\<close> takes the new key; every other key and value comes from node \<open>g i\<close>.\<close>

lemma place_keys:
  assumes ok: "keys_ok ns" and x: "x < length ns'" "n_key (ns' ! x) = kc" "tvisnil (n_val (ns' ! x))"
    and kc: "key_ok kc" "\<not> tvismzero kc" "\<forall>i. \<not> holds_key ns i kc"
    and g: "\<And>i. i \<noteq> x \<Longrightarrow> used ns' i \<Longrightarrow> used ns (g i) \<and> n_key (ns' ! i) = n_key (ns ! g i) \<and> n_val (ns' ! i) = n_val (ns ! g i)"
    and inj: "\<And>i j. i \<noteq> x \<Longrightarrow> j \<noteq> x \<Longrightarrow> used ns' i \<Longrightarrow> used ns' j \<Longrightarrow> g i = g j \<Longrightarrow> i = j"
    and surj: "\<And>i. used ns i \<Longrightarrow> \<not> tvisnil (n_val (ns ! i)) \<Longrightarrow> \<exists>j. j \<noteq> x \<and> used ns' j \<and> g j = i"
    and free: "\<And>i. i < length ns' \<Longrightarrow> \<not> used ns' i \<Longrightarrow> tvisnil (n_val (ns' ! i))"
  shows "keys_ok ns' \<and> hset ns' = hset ns \<and> holds_key ns' x kc"
proof -
  have ux: "used ns' x" using x kc(1) by (simp add: used_def key_ok_def)
  have "key_ok (n_key (ns' ! i)) \<and> \<not> tvismzero (n_key (ns' ! i))" if "used ns' i" for i
    using g [of i] that x kc ok by (cases "i = x") (auto simp: keys_ok_def)
  moreover have "i = j" if "used ns' i" "used ns' j" "tv_canon (n_key (ns' ! i)) = tv_canon (n_key (ns' ! j))" for i j
  proof -
    have ne: "tv_canon (n_key (ns' ! l)) \<noteq> tv_canon kc" if "l \<noteq> x" "used ns' l" for l
      using g [OF that] kc(3) by (auto simp: holds_key_def)
    show ?thesis
    proof (cases "i = x \<or> j = x")
      case True
      then show ?thesis using that ne [of i] ne [of j] x(2) by (cases "i = x"; cases "j = x") auto
    next
      case False
      then have "g i = g j" using g [of i] g [of j] that ok by (simp add: keys_ok_def)
      then show ?thesis using False that inj by blast
    qed
  qed
  ultimately have ko: "keys_ok ns'" using free by (simp add: keys_ok_def)
  have "hset ns' \<subseteq> hset ns"
  proof
    fix kv assume "kv \<in> hset ns'"
    then obtain i where i: "used ns' i" "\<not> tvisnil (n_val (ns' ! i))"
      "kv = (tv_canon (n_key (ns' ! i)), n_val (ns' ! i))" by (auto simp: hset_def)
    then have "i \<noteq> x" using x by auto
    from g [OF this i(1)] i show "kv \<in> hset ns" by (auto simp: hset_def)
  qed
  moreover have "hset ns \<subseteq> hset ns'"
  proof
    fix kv assume "kv \<in> hset ns"
    then obtain i where i: "used ns i" "\<not> tvisnil (n_val (ns ! i))"
      "kv = (tv_canon (n_key (ns ! i)), n_val (ns ! i))" by (auto simp: hset_def)
    from surj [OF i(1,2)] obtain j where "j \<noteq> x" "used ns' j" "g j = i" by blast
    with g [of j] i show "kv \<in> hset ns'" unfolding hset_def by (intro CollectI exI [of _ j]) auto
  qed
  ultimately show ?thesis using ko ux x by (auto simp: holds_key_def)
qed

lemma nused_insert: "{i. used ns' i} \<subseteq> insert x {i. used ns i} \<Longrightarrow> nused ns' \<le> nused ns + 1"
  unfolding nused_def using card_mono [of "insert x {i. used ns i}" "{i. used ns' i}"]
  by (simp add: card_insert_if split: if_splits)

section \<open>Searching\<close>

lemma find_free_Some: "find_free ns k = Some f \<Longrightarrow> f < k \<and> tvisnil (n_key (ns ! f)) \<and>
    (\<forall>i. f < i \<longrightarrow> i < k \<longrightarrow> \<not> tvisnil (n_key (ns ! i)))"
  by (induction ns k rule: find_free.induct) (auto split: if_splits simp: less_Suc_eq)

lemma find_free_None: "find_free ns k = None \<Longrightarrow> i < k \<Longrightarrow> \<not> tvisnil (n_key (ns ! i))"
  by (induction ns k rule: find_free.induct) (auto split: if_splits simp: less_Suc_eq)

lemma pred_find_spec:
  assumes "ranked ns" "(c, n) \<in> (nxt ns)\<^sup>*" "c \<noteq> n"
    "\<And>i i' j. (i, j) \<in> nxt ns \<Longrightarrow> (i', j) \<in> nxt ns \<Longrightarrow> i = i'"
  shows "\<exists>p. pred_find ns n c = Some p \<and> (p, n) \<in> nxt ns"
  using assms(2,3)
proof (induction rule: converse_rtrancl_induct)
  case (step c d)
  then have c: "n_next (ns ! c) = Some d" "c < length ns" by (auto simp: nxt_def)
  show ?case
  proof (cases "d = n")
    case True
    then show ?thesis using c by (subst pred_find.simps) (auto simp: nxt_def)
  next
    case False
    then show ?thesis using c step by (subst pred_find.simps) auto
  qed
qed simp

text \<open>Without a live key that hashes to \<open>n\<close> behind it, there is nothing to rechain.\<close>

lemma rechain_id:
  assumes "ranked ns" "\<forall>(i, j) \<in> nxt ns. j < length ns" "f < length ns"
    "\<And>j. (f, j) \<in> (nxt ns)\<^sup>+ \<Longrightarrow> \<not> tvisnil (n_val (ns ! j)) \<Longrightarrow> mp (n_key (ns ! j)) \<noteq> n"
  shows "rechain mp n ns f = Some ns"
proof -
  obtain rank :: "nat \<Rightarrow> nat" where rank: "\<forall>(i, j) \<in> nxt ns. rank j < rank i"
    using assms(1) by (auto simp: ranked_def)
  show ?thesis using assms(3,4)
  proof (induction "rank f" arbitrary: f rule: less_induct)
    case less
    show ?case
    proof (cases "n_next (ns ! f)")
      case None
      then show ?thesis by (subst rechain.simps) simp
    next
      case (Some j)
      then have fj: "(f, j) \<in> nxt ns" using less.prems(1) by (simp add: nxt_def)
      then have "rechain mp n ns j = Some ns"
        using rank assms(2) less.prems(2) by (intro less.hyps) (auto intro: trancl_into_trancl2)
      then show ?thesis using Some less.prems(2) [of j] fj by (subst rechain.simps) auto
    qed
  qed
qed


section \<open>Inserting a key\<close>

definition hpart_ok :: "tabenv \<Rightarrow> GCtab \<Rightarrow> bool" where
  "hpart_ok e t \<longleftrightarrow>
     0 < unat (t_hmask t) \<and> (\<exists>k \<le> LJ_MAX_HBITS. unat (t_hmask t) + 1 = 2 ^ k) \<and>
     length (t_node t) = unat (t_hmask t) + 1 \<and> t_freetop t \<le> length (t_node t) \<and>
     chains_ok (hashkey e t) (t_node t) \<and> keys_ok (t_node t) \<and>
     (\<forall>i. t_freetop t \<le> i \<longrightarrow> i < length (t_node t) \<longrightarrow> used (t_node t) i)"

definition canon0 :: "TValue \<Rightarrow> TValue" where
  "canon0 k = (if tvismzero k then 0 else k)"

lemma mzero_num: "tvisnum 0x8000000000000000" "\<not> tvismzero 0"
  by code_simp+

lemma canon0_simps:
  assumes "key_ok k"
  shows "tv_canon (canon0 k) = tv_canon k" "key_ok (canon0 k)" "\<not> tvismzero (canon0 k)" "\<not> tvisnil (canon0 k)"
proof -
  have z: "tv_canon 0x8000000000000000 = 0" "tv_canon 0 = 0"
    using mzero_num by (simp_all add: tv_canon_def num_not_pri tviszero_iff)
  show "tv_canon (canon0 k) = tv_canon k" by (simp add: canon0_def tvismzero_def z)
  have "\<not> tvisnil 0" by (simp add: tvisnil_def LJ_TNIL_def)
  moreover have "tv_proper 0" by (simp add: tv_proper_def LJ_TISNUM_def)
  ultimately show ko: "key_ok (canon0 k)" using assms by (simp add: canon0_def key_ok_def)
  show "\<not> tvismzero (canon0 k)" using mzero_num by (simp add: canon0_def)
  show "\<not> tvisnil (canon0 k)" using ko by (simp add: key_ok_def)
qed

text \<open>What storing a new key does: the table keeps its content and gets a node for the key.\<close>

definition placed :: "tabenv \<Rightarrow> GCtab \<Rightarrow> TValue \<Rightarrow> nat \<Rightarrow> GCtab \<Rightarrow> bool" where
  "placed e t k n t' \<longleftrightarrow>
     hpart_ok e t' \<and> hset (t_node t') = hset (t_node t) \<and> holds_key (t_node t') n k \<and>
     tvisnil (n_val (t_node t' ! n)) \<and> nused (t_node t') \<le> nused (t_node t) + 1 \<and>
     (\<forall>j. used (t_node t') j \<longrightarrow> j = n \<or> (\<exists>i. used (t_node t) i \<and> n_key (t_node t' ! j) = n_key (t_node t ! i))) \<and>
     (\<exists>m a. t' = t\<lparr>t_freetop := t_freetop t', t_node := t_node t', t_marked := m, t_again := a\<rparr>)"

lemma store_key_alt:
  "\<exists>m a. store_key t n k = Some (Inr (SHash n),
     t\<lparr>t_node := (t_node t)[n := (t_node t ! n)\<lparr>n_key := canon0 k\<rparr>], t_marked := m, t_again := a\<rparr>)"
  if "n < length (t_node t)"
proof -
  have "\<exists>m a. lj_gc_anybarriert t' = t'\<lparr>t_marked := m, t_again := a\<rparr>" for t'
  proof (cases "t_marked t' AND LJ_GC_BLACK = 0")
    case True
    then show ?thesis
      by (intro exI [of _ "t_marked t'"] exI [of _ "t_again t'"]) (simp add: lj_gc_anybarriert_def)
  qed (auto simp: lj_gc_anybarriert_def)
  then show ?thesis using that
    by (auto simp: store_key_def Let_def upd_node_def canon0_def)
qed


lemma hpart_okD:
  assumes "hpart_ok e t"
  shows "chains_ok (hashkey e t) (t_node t)" "keys_ok (t_node t)" "t_hmask t \<noteq> 0"
  using assms by (auto simp: hpart_ok_def)

lemma hashkey_node: "hpart_ok e t \<Longrightarrow> hashkey e t k < length (t_node t)"
  using hashkey_lt [of e t k] by (auto simp: hpart_ok_def)

text \<open>A step that keeps the mask, finds the chains and keys in order and only lowers
  \<open>freetop\<close> to a node that is now used keeps the invariant of the hash part.\<close>

lemma placedI:
  assumes ok: "hpart_ok e t" and len: "length ns' = length (t_node t)"
    and ch: "chains_ok (hashkey e t) ns'"
    and ks: "keys_ok ns' \<and> hset ns' = hset (t_node t) \<and> holds_key ns' n k" and nil: "tvisnil (n_val (ns' ! n))"
    and us: "{i. used ns' i} \<subseteq> insert x {i. used (t_node t) i}"
    and old: "\<And>j. used ns' j \<Longrightarrow> j = n \<or> (\<exists>i. used (t_node t) i \<and> n_key (ns' ! j) = n_key (t_node t ! i))"
    and keep: "\<And>i. used (t_node t) i \<Longrightarrow> used ns' i"
    and ft: "ft \<le> t_freetop t" "\<And>i. ft \<le> i \<Longrightarrow> i < t_freetop t \<Longrightarrow> used ns' i"
  shows "placed e t k n (t\<lparr>t_freetop := ft, t_node := ns', t_marked := m, t_again := a\<rparr>)"
proof -
  have mp: "hashkey e (t\<lparr>t_freetop := ft, t_node := ns', t_marked := m, t_again := a\<rparr>) = hashkey e t"
    by (rule ext, rule hashkey_mask) simp
  have "used ns' i" if "ft \<le> i" "i < length (t_node t)" for i
    using that ft(2) keep ok by (cases "i < t_freetop t") (auto simp: hpart_ok_def)
  then have "hpart_ok e (t\<lparr>t_freetop := ft, t_node := ns', t_marked := m, t_again := a\<rparr>)"
    using ok ch ks len ft(1) unfolding hpart_ok_def mp by auto
  then show ?thesis using ks nil old nused_insert [OF us] by (auto simp: placed_def)
qed

lemma hashkey_canon0: "key_ok k \<Longrightarrow> hashkey e t (canon0 k) = hashkey e t k"
  by (metis canon0_simps(1,4) hashkey_eq_canon key_ok_def)

lemma not_holds_canon0: "key_ok k \<Longrightarrow> \<forall>i. \<not> holds_key ns i k \<Longrightarrow> \<forall>i. \<not> holds_key ns i (canon0 k)"
  by (simp add: holds_key_def canon0_simps)

lemma holds_canon0: "key_ok k \<Longrightarrow> holds_key ns i (canon0 k) = holds_key ns i k"
  by (simp add: holds_key_def canon0_simps)

lemma newkey_main:
  assumes ok: "hpart_ok e t" and k: "key_ok k" "\<forall>i. \<not> holds_key (t_node t) i k"
    and nil: "tvisnil (n_val (t_node t ! hashkey e t k))"
  shows "\<exists>t'. newkey_body e rh st t k = Some (Inr (SHash (hashkey e t k)), t') \<and> placed e t k (hashkey e t k) t'"
proof -
  define n where "n = hashkey e t k"
  define ns' where "ns' = (t_node t)[n := (t_node t ! n)\<lparr>n_key := canon0 k\<rparr>]"
  note d = hpart_okD(1,2) [OF ok] hashkey_node [OF ok, of k, folded n_def] hpart_okD(3) [OF ok]
  note c0 = canon0_simps [OF k(1)]
  have ns': "n_next (ns' ! i) = n_next (t_node t ! i)" "n_val (ns' ! i) = n_val (t_node t ! i)"
    "n_key (ns' ! i) = (if i = n then canon0 k else n_key (t_node t ! i))" if "i < length (t_node t)" for i
    using that d(3) by (auto simp: ns'_def nth_list_update)
  have len: "length ns' = length (t_node t)" by (simp add: ns'_def)
  have us: "used ns' i \<longleftrightarrow> used (t_node t) i \<or> i = n" for i
    using ns'(3) [of i] len d(3) c0 by (auto simp: used_def split: if_splits)
  have ch: "chains_ok (hashkey e t) ns'"
    using hashkey_canon0 [OF k(1), of e t] ns' by (intro place_main [OF d(1) d(3) _ c0(4) len]) (simp_all add: n_def)
  have ks: "keys_ok ns' \<and> hset ns' = hset (t_node t) \<and> holds_key ns' n (canon0 k)"
  proof (rule place_keys [OF d(2), where g = "\<lambda>i. i"])
    show "tvisnil (n_val (ns' ! i))" if "i < length ns'" "\<not> used ns' i" for i
      using that us ns' d(2) len by (auto simp: keys_ok_def)
    show "\<exists>j. j \<noteq> n \<and> used ns' j \<and> j = i" if "used (t_node t) i" "\<not> tvisnil (n_val (t_node t ! i))" for i
      using that us nil by (auto simp: n_def)
    show "used (t_node t) i \<and> n_key (ns' ! i) = n_key (t_node t ! i) \<and> n_val (ns' ! i) = n_val (t_node t ! i)"
      if "i \<noteq> n" "used ns' i" for i
      using that us ns' by (auto simp: used_def)
  qed (use ns' d len c0 k not_holds_canon0 nil in \<open>auto simp: n_def\<close>)
  obtain m a where st: "store_key t n k = Some (Inr (SHash n), t\<lparr>t_node := ns', t_marked := m, t_again := a\<rparr>)"
    using store_key_alt [OF d(3), of k] by (auto simp: ns'_def)
  have "placed e t k n (t\<lparr>t_freetop := t_freetop t, t_node := ns', t_marked := m, t_again := a\<rparr>)"
  proof (rule placedI [OF ok len ch, where x = n])
    show "keys_ok ns' \<and> hset ns' = hset (t_node t) \<and> holds_key ns' n k" using ks k holds_canon0 by simp
    show "tvisnil (n_val (ns' ! n))" using ns' d nil by (simp add: n_def)
    show "j = n \<or> (\<exists>i. used (t_node t) i \<and> n_key (ns' ! j) = n_key (t_node t ! i))" if "used ns' j" for j
      using that us [of j] ns'(3) [of j] by (auto simp: used_def)
  qed (use us in auto)
  moreover have "newkey_body e rh st t k = store_key t n k"
    using nil d(4) by (simp add: newkey_body_def n_def)
  ultimately show ?thesis using st by (auto simp: n_def)
qed


text \<open>The free node that the search from \<open>freetop\<close> finds.\<close>

lemma find_free_ok:
  assumes ok: "hpart_ok e t" and "find_free (t_node t) (t_freetop t) = Some f"
  shows "f < length (t_node t)" "\<not> used (t_node t) f" "f \<le> t_freetop t" "tvisnil (n_val (t_node t ! f))"
    "f < i \<Longrightarrow> i < t_freetop t \<Longrightarrow> used (t_node t) i"
  using find_free_Some [OF assms(2)] ok by (auto simp: hpart_ok_def used_def keys_ok_def)

lemma find_free_room:
  assumes ok: "hpart_ok e t" and room: "nused (t_node t) < length (t_node t)"
  obtains f where "find_free (t_node t) (t_freetop t) = Some f"
proof (cases "find_free (t_node t) (t_freetop t)")
  case None
  have "used (t_node t) i" if "i < length (t_node t)" for i
    using find_free_None [OF None, of i] ok that by (cases "i < t_freetop t") (auto simp: hpart_ok_def used_def)
  then have "{i. used (t_node t) i} = {..<length (t_node t)}" by (auto simp: used_def)
  then show ?thesis using room by (simp add: nused_def)
qed (use that in auto)

lemma live_used: "keys_ok ns \<Longrightarrow> i < length ns \<Longrightarrow> \<not> tvisnil (n_val (ns ! i)) \<Longrightarrow> used ns i"
  by (auto simp: keys_ok_def)

lemma newkey_after:
  assumes ok: "hpart_ok e t" and k: "key_ok k" "\<forall>i. \<not> holds_key (t_node t) i k"
    and n: "n = hashkey e t k" "\<not> tvisnil (n_val (t_node t ! n))" "hashkey e t (n_key (t_node t ! n)) = n"
    and ff: "find_free (t_node t) (t_freetop t) = Some f"
  shows "\<exists>t'. newkey_body e rh st t k = Some (Inr (SHash f), t') \<and> placed e t k f t'"
proof -
  let ?ns = "t_node t"
  note d = hpart_okD(1,2) [OF ok] hashkey_node [OF ok, of k, folded n(1)] hpart_okD(3) [OF ok]
  note c0 = canon0_simps [OF k(1)]
  note f = find_free_ok [OF ok ff]
  have un: "used ?ns n" by (rule live_used [OF d(2,3) n(2)])
  have fn: "f \<noteq> n" using un f(2) by auto
  define ns1 where "ns1 = upd_node n (\<lambda>x. x\<lparr>n_next := Some f\<rparr>) (upd_node f (\<lambda>x. x\<lparr>n_next := n_next (?ns ! n)\<rparr>) ?ns)"
  define ns' where "ns' = ns1[f := (ns1 ! f)\<lparr>n_key := canon0 k\<rparr>]"
  have ns': "n_next (ns' ! i) = (if i = n then Some f else if i = f then n_next (?ns ! n) else n_next (?ns ! i))"
    "n_val (ns' ! i) = n_val (?ns ! i)"
    "n_key (ns' ! i) = (if i = f then canon0 k else n_key (?ns ! i))" if "i < length ?ns" for i
    using that d(3) f(1) fn by (auto simp: ns'_def ns1_def upd_node_def nth_list_update)
  have len: "length ns' = length ?ns" "length ns1 = length ?ns" by (simp_all add: ns'_def ns1_def upd_node_def)
  have us: "used ns' i \<longleftrightarrow> used ?ns i \<or> i = f" for i
    using ns'(3) [of i] len f c0 by (auto simp: used_def split: if_splits)
  have ch: "chains_ok (hashkey e t) ns'"
    using hashkey_canon0 [OF k(1), of e t] n(1) f
    by (intro place_after [OF d(1) un n(3) _ c0(4) _ _ len(1)]) (simp_all add: ns')
  have ks: "keys_ok ns' \<and> hset ns' = hset ?ns \<and> holds_key ns' f (canon0 k)"
  proof (rule place_keys [OF d(2), where g = "\<lambda>i. i"])
    show "tvisnil (n_val (ns' ! i))" if "i < length ns'" "\<not> used ns' i" for i
      using that us ns' d(2) len by (auto simp: keys_ok_def)
    show "\<exists>j. j \<noteq> f \<and> used ns' j \<and> j = i" if "used ?ns i" "\<not> tvisnil (n_val (?ns ! i))" for i
      using that us f by auto
    show "used ?ns i \<and> n_key (ns' ! i) = n_key (?ns ! i) \<and> n_val (ns' ! i) = n_val (?ns ! i)"
      if "i \<noteq> f" "used ns' i" for i
      using that us ns' by (auto simp: used_def)
  qed (use ns' f len c0 k not_holds_canon0 in auto)
  obtain m a where st: "store_key (t\<lparr>t_freetop := f, t_node := ns1\<rparr>) f k =
      Some (Inr (SHash f), t\<lparr>t_freetop := f, t_node := ns', t_marked := m, t_again := a\<rparr>)"
    using store_key_alt [of f "t\<lparr>t_freetop := f, t_node := ns1\<rparr>" k] f(1) len by (auto simp: ns'_def)
  have "placed e t k f (t\<lparr>t_freetop := f, t_node := ns', t_marked := m, t_again := a\<rparr>)"
  proof (rule placedI [OF ok len(1) ch, where x = f])
    show "keys_ok ns' \<and> hset ns' = hset ?ns \<and> holds_key ns' f k" using ks k holds_canon0 by simp
    show "tvisnil (n_val (ns' ! f))" using ns' f by simp
    show "j = f \<or> (\<exists>i. used ?ns i \<and> n_key (ns' ! j) = n_key (?ns ! i))" if "used ns' j" for j
      using that us [of j] ns'(3) [of j] by (auto simp: used_def)
    show "used ns' i" if "f \<le> i" "i < t_freetop t" for i
      using that us f(5) by (cases "i = f") auto
  qed (use us f in auto)
  moreover have "hashkey e (t\<lparr>t_freetop := f\<rparr>) (n_key (?ns ! n)) = n"
    using n(3) hashkey_mask [of "t\<lparr>t_freetop := f\<rparr>" t] by simp
  then have "newkey_body e rh st t k = store_key (t\<lparr>t_freetop := f, t_node := ns1\<rparr>) f k"
    using n d(4) ff by (simp add: newkey_body_def ns1_def Let_def)
  ultimately show ?thesis using st by auto
qed

lemma newkey_move:
  assumes ok: "hpart_ok e t" and k: "key_ok k" "\<forall>i. \<not> holds_key (t_node t) i k"
    and n: "n = hashkey e t k" "\<not> tvisnil (n_val (t_node t ! n))" "hashkey e t (n_key (t_node t ! n)) \<noteq> n"
    and ff: "find_free (t_node t) (t_freetop t) = Some f"
  shows "\<exists>t'. newkey_body e rh st t k = Some (Inr (SHash n), t') \<and> placed e t k n t'"
proof -
  let ?ns = "t_node t"
  define c where "c = hashkey e t (n_key (?ns ! n))"
  note d = hpart_okD(1,2) [OF ok] hashkey_node [OF ok, of k, folded n(1)] hpart_okD(3) [OF ok]
  note c0 = canon0_simps [OF k(1)]
  note f = find_free_ok [OF ok ff]
  have un: "used ?ns n" by (rule live_used [OF d(2,3) n(2)])
  have fn: "f \<noteq> n" using un f(2) by auto
  obtain p where p: "pred_find ?ns n c = Some p" "(p, n) \<in> nxt ?ns"
    using pred_find_spec [OF chains_okD(3) [OF d(1)] chains_okD(4) [OF d(1) un] n(3)] chains_okD(2) [OF d(1)]
    by (auto simp: c_def)
  have pl: "p < length ?ns" "p \<noteq> f" using p(2) chains_okD(1) [OF d(1) p(2)] f(2) by (auto simp: nxt_def)
  have pn: "p \<noteq> n" using chains_okD(3) [OF d(1)] p(2) by (auto simp: ranked_def)
  define nsa where "nsa = upd_node p (\<lambda>x. x\<lparr>n_next := Some f\<rparr>) ?ns"
  define nsb where "nsb = upd_node f (\<lambda>x. x\<lparr>n_val := n_val (nsa ! n), n_key := n_key (nsa ! n), n_next := n_next (nsa ! n)\<rparr>) nsa"
  define ns1 where "ns1 = upd_node n (\<lambda>x. x\<lparr>n_next := None, n_val := setnilV (n_val x)\<rparr>) nsb"
  define ns' where "ns' = ns1[n := (ns1 ! n)\<lparr>n_key := canon0 k\<rparr>]"
  note defs = nsa_def nsb_def ns1_def upd_node_def
  have ns1: "n_next (ns1 ! i) = (if i = n then None else if i = f then n_next (?ns ! n) else if i = p then Some f else n_next (?ns ! i))"
    "n_val (ns1 ! i) = (if i = n then setnilV (n_val (?ns ! n)) else if i = f then n_val (?ns ! n) else n_val (?ns ! i))"
    "n_key (ns1 ! i) = (if i = f then n_key (?ns ! n) else n_key (?ns ! i))" if "i < length ?ns" for i
    using that d(3) f(1) fn pl pn by (auto simp: defs nth_list_update)
  have len: "length ns1 = length ?ns" "length ns' = length ?ns" by (simp_all add: ns'_def defs)
  have ns': "n_next (ns' ! i) = n_next (ns1 ! i)" "n_val (ns' ! i) = n_val (ns1 ! i)"
    "n_key (ns' ! i) = (if i = n then canon0 k else if i = f then n_key (?ns ! n) else n_key (?ns ! i))"
    if "i < length ?ns" for i
    using that d(3) len ns1(3) [of i] fn by (auto simp: ns'_def nth_list_update)
  have us: "used ns' i \<longleftrightarrow> used ?ns i \<or> i = f" for i
    using ns'(3) [of i] len f c0 un by (auto simp: used_def split: if_splits)
  have nil: "tvisnil (setnilV v)" for v by (simp add: tvisnil_def setnilV_def setitype_def itype_def)
  have ch: "chains_ok (hashkey e t) ns'"
    using hashkey_canon0 [OF k(1), of e t] n(1) f
    by (intro place_move [OF d(1) un n(3) _ c0(4) _ _ p(2) len(2)]) (simp_all add: ns' ns1)
  have ks: "keys_ok ns' \<and> hset ns' = hset ?ns \<and> holds_key ns' n (canon0 k)"
  proof (rule place_keys [OF d(2), where g = "\<lambda>i. if i = f then n else i"])
    show "tvisnil (n_val (ns' ! i))" if "i < length ns'" "\<not> used ns' i" for i
      using that us [of i] ns' ns1 d(2) len nil by (auto simp: keys_ok_def)
    show "\<exists>j. j \<noteq> n \<and> used ns' j \<and> (if j = f then n else j) = i" if "used ?ns i" "\<not> tvisnil (n_val (?ns ! i))" for i
      using that us [of i] us [of f] f fn by (intro exI [of _ "if i = n then f else i"]) auto
    show "used ?ns (if i = f then n else i) \<and> n_key (ns' ! i) = n_key (?ns ! (if i = f then n else i)) \<and>
        n_val (ns' ! i) = n_val (?ns ! (if i = f then n else i))"
      if "i \<noteq> n" "used ns' i" for i
      using that us [of i] ns' ns1 un f(1) by (auto simp: used_def)
  qed (use ns' ns1 d len c0 k not_holds_canon0 nil in \<open>auto split: if_splits\<close>)
  have "rechain (hashkey e t) n ns1 f = Some ns1"
  proof (rule rechain_id)
    have nx: "nxt ns1 = nxt ns'" using ns' len by (auto simp: nxt_def)
    then show "ranked ns1" using chains_okD(3) [OF ch] by (simp add: ranked_def)
    show "\<forall>(i, j) \<in> nxt ns1. j < length ns1"
      using chains_okD(1) [OF ch] nx len by (auto simp: used_def)
    show "f < length ns1" using f len by simp
    fix j assume "(f, j) \<in> (nxt ns1)\<^sup>+" and l: "\<not> tvisnil (n_val (ns1 ! j))"
    then obtain i where "(i, j) \<in> nxt ns'" using nx by (auto elim: tranclE)
    then have u: "used ns' j" using chains_okD(1) [OF ch] by blast
    then have j: "j < length ?ns" using len by (simp add: used_def)
    then have "j \<noteq> n" using l ns1 nil by auto
    then have "\<exists>i. used ?ns i \<and> n_key (ns1 ! j) = n_key (?ns ! i)"
      using u us [of j] ns1(3) [OF j] un by auto
    then show "hashkey e t (n_key (ns1 ! j)) \<noteq> n"
      using chains_okD(6) [OF d(1)] n(3) by metis
  qed
  moreover have h: "hashkey e (t\<lparr>t_freetop := f\<rparr>) = hashkey e t"
    by (rule ext, rule hashkey_mask) simp
  ultimately have mv: "move_colliding e (t\<lparr>t_freetop := f\<rparr>) n c f = Some (t\<lparr>t_freetop := f, t_node := ns1\<rparr>)"
    using p(1) by (simp add: move_colliding_def Let_def nsa_def [symmetric] nsb_def [symmetric] ns1_def [symmetric])
  obtain m a where st: "store_key (t\<lparr>t_freetop := f, t_node := ns1\<rparr>) n k =
      Some (Inr (SHash n), t\<lparr>t_freetop := f, t_node := ns', t_marked := m, t_again := a\<rparr>)"
    using store_key_alt [of n "t\<lparr>t_freetop := f, t_node := ns1\<rparr>" k] d(3) len by (auto simp: ns'_def)
  have "placed e t k n (t\<lparr>t_freetop := f, t_node := ns', t_marked := m, t_again := a\<rparr>)"
  proof (rule placedI [OF ok len(2) ch, where x = f])
    show "keys_ok ns' \<and> hset ns' = hset ?ns \<and> holds_key ns' n k" using ks k holds_canon0 by simp
    show "tvisnil (n_val (ns' ! n))" using ns' ns1 d nil by simp
    show "j = n \<or> (\<exists>i. used ?ns i \<and> n_key (ns' ! j) = n_key (?ns ! i))" if "used ns' j" for j
    proof (cases "j = n \<or> j = f")
      case True
      then show ?thesis using ns'(3) [of f] f(1) fn un by auto
    next
      case False
      then have "used ?ns j" using that us [of j] by simp
      then show ?thesis using False ns'(3) [of j] by (auto simp: used_def)
    qed
    show "used ns' i" if "f \<le> i" "i < t_freetop t" for i
      using that us f(5) by (cases "i = f") auto
  qed (use us f in auto)
  moreover have "newkey_body e rh st t k = store_key (t\<lparr>t_freetop := f, t_node := ns1\<rparr>) n k"
    using n d(4) ff mv h by (simp add: newkey_body_def c_def Let_def)
  ultimately show ?thesis using st by auto
qed

lemma newkey_place:
  assumes ok: "hpart_ok e t" and k: "key_ok k" "\<forall>i. \<not> holds_key (t_node t) i k"
    and room: "nused (t_node t) < length (t_node t)"
  shows "\<exists>n t'. newkey_body e rh st t k = Some (Inr (SHash n), t') \<and> placed e t k n t'"
proof -
  obtain f where "find_free (t_node t) (t_freetop t) = Some f" by (rule find_free_room [OF ok room])
  then show ?thesis
    using newkey_main [OF ok k] newkey_after [OF ok k refl] newkey_move [OF ok k refl] by blast
qed

end
