(* ===== verification/LJ_TabMap.thy ===== *)
theory LJ_TabMap
  imports LJ_TabInv
begin

text \<open>
  Tables as maps: the abstract content of a table, the slots that denote a key, and that the
  getters and setters of \<open>lj_tab.c\<close> refine lookup and update. Rehashing keeps the content and
  makes room, so that two levels of insertion are enough.
\<close>

section \<open>The abstract map\<close>

definition tv_opt :: "TValue \<Rightarrow> TValue option" where
  "tv_opt v = (if tvisnil v then None else Some v)"

definition hlook :: "Node list \<Rightarrow> TValue \<Rightarrow> TValue option" where
  "hlook ns k =
     (case find (\<lambda>n. \<not> tvisnil (n_key n) \<and> tv_canon (n_key n) = tv_canon k) ns of
        None \<Rightarrow> None | Some n \<Rightarrow> tv_opt (n_val n))"

definition akey :: "GCtab \<Rightarrow> TValue \<Rightarrow> bool" where
  "akey t k = (case key_int k of None \<Rightarrow> False | Some i \<Rightarrow> i < t_asize t)"

definition tabmap :: "GCtab \<Rightarrow> TValue \<Rightarrow> TValue option" where
  "tabmap t k = (if akey t k then tv_opt (t_array t ! unat (the (key_int k))) else hlook (t_node t) k)"

definition tab_ok :: "tabenv \<Rightarrow> GCtab \<Rightarrow> bool" where
  "tab_ok e t \<longleftrightarrow>
     unat (t_asize t) \<le> length (t_array t) \<and> unat (t_asize t) \<le> LJ_MAX_ASIZE \<and>
     (t_hmask t = 0 \<and> t_node t = [nilnode] \<and> t_freetop t = 0 \<or> hpart_ok e t) \<and>
     (\<forall>i. used (t_node t) i \<longrightarrow> \<not> akey t (n_key (t_node t ! i)))"

definition slot_for :: "GCtab \<Rightarrow> TValue \<Rightarrow> slot \<Rightarrow> bool" where
  "slot_for t k s =
     (case s of SNil \<Rightarrow> False
      | SArr i \<Rightarrow> akey t k \<and> i = unat (the (key_int k))
      | SHash n \<Rightarrow> \<not> akey t k \<and> holds_key (t_node t) n k)"

text \<open>Equal keys have the same integer value.\<close>

lemma num_eq_num2int: "num_eq a b \<Longrightarrow> lj_num2int a = lj_num2int b"
  by (auto simp: num_eq_def tviszero_iff) (simp_all add: lj_num2int_def num_exp_def)

lemma canon_num: "tv_canon k = tv_canon k' \<Longrightarrow> tvisnum k \<Longrightarrow> tvisnum k' \<and> (k = k' \<or> tviszero k \<and> tviszero k')"
proof -
  have n: "tvisnum (tv_canon v) \<longleftrightarrow> tvisnum v" for v
    by (cases "tvispri v") (auto simp: tv_canon_def tvisnum_def itype_def zero_halves LJ_TISNUM_def)
  assume c: "tv_canon k = tv_canon k'" "tvisnum k"
  then have k': "tvisnum k'" using n by metis
  then show ?thesis using c by (auto simp: tv_canon_def num_not_pri split: if_splits)
qed

lemma key_int_canon:
  assumes "tv_canon k = tv_canon k'"
  shows "key_int k = key_int k'"
proof (cases "tvisnum k")
  case True
  from canon_num [OF assms this] have k': "tvisnum k'" "k = k' \<or> tviszero k \<and> tviszero k'" by auto
  have "lj_num2int v = 0 \<and> num_eq v 0" if "tviszero v" for v
    using that by (auto simp: tviszero_iff lj_num2int_def num_exp_def num_eq_def num_isnan_def)
  then have "key_int v = Some 0" if "tviszero v" "tvisnum v" for v
    using that by (simp add: key_int_def)
  with k' True show ?thesis by auto
next
  case False
  then have "\<not> tvisnum k'" using canon_num [OF assms [symmetric]] by auto
  with False show ?thesis by (simp add: key_int_def)
qed

lemma akey_asize: "t_asize t' = t_asize t \<Longrightarrow> akey t' = akey t"
  by (rule ext) (simp add: akey_def split: option.split)

lemma akey_upd [simp]:
  "akey (t\<lparr>t_array := a\<rparr>) = akey t" "akey (t\<lparr>t_node := ns\<rparr>) = akey t" "akey (t\<lparr>t_freetop := f\<rparr>) = akey t"
  "akey (t\<lparr>t_marked := m\<rparr>) = akey t" "akey (t\<lparr>t_again := b\<rparr>) = akey t" "akey (t\<lparr>t_nomm := n\<rparr>) = akey t"
  "akey (t\<lparr>t_hmask := h\<rparr>) = akey t" "akey (t\<lparr>g_total := g\<rparr>) = akey t" "akey (t\<lparr>t_colo := c\<rparr>) = akey t"
  by (rule akey_asize, simp)+

lemma akey_canon: "tv_canon k = tv_canon k' \<Longrightarrow> akey t k = akey t k'"
  by (simp add: akey_def key_int_canon [of k k'])

text \<open>The canonical double of an integer key.\<close>

lemma key_int_of_int [simp]: "key_int (num_of_int (sint (i :: u32))) = Some i"
  by (simp add: key_int_def num_eq_def)

lemma key_ok_of_int [simp]: "key_ok (num_of_int (sint (i :: u32)))"
proof -
  have n: "tvisnum (num_of_int (sint i))" by simp
  then have "itype (num_of_int (sint i)) \<noteq> LJ_TISNUM" "\<not> tvisnil (num_of_int (sint i))"
    using num_not_pri [OF n] by (auto simp: tvisnum_def tvispri_cases)
  then show ?thesis by (simp add: key_ok_def tv_proper_def)
qed

lemma num_number: "tvisnum v \<Longrightarrow> tvisnumber v"
  by (simp add: tvisnum_def tvisnumber_def)

lemma key_int_canon_of_int: "key_int k = Some i \<Longrightarrow> tv_canon (num_of_int (sint i)) = tv_canon k"
proof -
  assume k: "key_int k = Some i"
  then have n: "tvisnum k" "num_eq k (num_of_int (sint i))" by (auto simp: key_int_def split: if_splits)
  then have "tv_proper k" "tv_proper (num_of_int (sint i))"
    using key_ok_of_int [of i] by (auto simp: tv_proper_def num_eq_def tvisnum_def key_ok_def)
  moreover have "lj_obj_equal k (num_of_int (sint i))"
    using n num_number tvisnum_of_int [of i]
    by (simp add: lj_obj_equal_def numberVnum_def tvisint_def num_not_pri)
  ultimately show ?thesis using lj_obj_equal_canon by metis
qed

lemma key_int_inj: "key_int k = Some i \<Longrightarrow> key_int k' = Some i \<Longrightarrow> tv_canon k = tv_canon k'"
  by (metis key_int_canon_of_int)

section \<open>Lookup in the hash part\<close>

lemma keys_ok_inj:
  "keys_ok ns \<Longrightarrow> used ns i \<Longrightarrow> used ns j \<Longrightarrow> tv_canon (n_key (ns ! i)) = tv_canon (n_key (ns ! j)) \<Longrightarrow> i = j"
  by (simp add: keys_ok_def)

lemma hlook_iff:
  assumes "keys_ok ns"
  shows "hlook ns k = Some v \<longleftrightarrow> (tv_canon k, v) \<in> hset ns"
proof
  assume "hlook ns k = Some v"
  then obtain n where "find (\<lambda>n. \<not> tvisnil (n_key n) \<and> tv_canon (n_key n) = tv_canon k) ns = Some n"
    "tv_opt (n_val n) = Some v" by (auto simp: hlook_def split: option.splits)
  then show "(tv_canon k, v) \<in> hset ns"
    unfolding find_Some_iff hset_def used_def tv_opt_def by (force split: if_splits)
next
  assume "(tv_canon k, v) \<in> hset ns"
  then obtain i where i: "used ns i" "tv_canon (n_key (ns ! i)) = tv_canon k" "n_val (ns ! i) = v" "\<not> tvisnil v"
    by (auto simp: hset_def)
  have "find (\<lambda>n. \<not> tvisnil (n_key n) \<and> tv_canon (n_key n) = tv_canon k) ns = Some (ns ! i)"
    unfolding find_Some_iff
  proof (intro exI [of _ i] conjI allI impI)
    show "\<not> (\<not> tvisnil (n_key (ns ! j)) \<and> tv_canon (n_key (ns ! j)) = tv_canon k)" if "j < i" for j
    proof
      assume "\<not> tvisnil (n_key (ns ! j)) \<and> tv_canon (n_key (ns ! j)) = tv_canon k"
      then have "used ns j" "tv_canon (n_key (ns ! j)) = tv_canon (n_key (ns ! i))"
        using that i by (auto simp: used_def)
      then show False using keys_ok_inj [OF assms _ i(1)] that by auto
    qed
  qed (use i in \<open>auto simp: used_def\<close>)
  then show "hlook ns k = Some v" using i by (simp add: hlook_def tv_opt_def)
qed

lemma hlook_cong: "keys_ok ns \<Longrightarrow> keys_ok ns' \<Longrightarrow> hset ns' = hset ns \<Longrightarrow> hlook ns' k = hlook ns k"
  by (metis hlook_iff not_None_eq)

lemma hlook_holds: "keys_ok ns \<Longrightarrow> holds_key ns n k \<Longrightarrow> hlook ns k = tv_opt (n_val (ns ! n))"
proof (cases "tvisnil (n_val (ns ! n))")
  case True
  assume ok: "keys_ok ns" and h: "holds_key ns n k"
  have "(tv_canon k, v) \<notin> hset ns" for v
  proof
    assume "(tv_canon k, v) \<in> hset ns"
    then obtain i where "used ns i" "tv_canon (n_key (ns ! i)) = tv_canon k" "\<not> tvisnil (n_val (ns ! i))"
      by (auto simp: hset_def)
    then show False using keys_ok_inj [OF ok, of i n] h True by (auto simp: holds_key_def)
  qed
  then have "hlook ns k = None" using hlook_iff [OF ok, of k] by (cases "hlook ns k") auto
  then show ?thesis using True by (simp add: tv_opt_def)
next
  case False
  assume ok: "keys_ok ns" and h: "holds_key ns n k"
  then have "(tv_canon k, n_val (ns ! n)) \<in> hset ns"
    using False unfolding hset_def holds_key_def by force
  then show ?thesis using False hlook_iff [OF ok] by (simp add: tv_opt_def)
qed

lemma hlook_absent: "\<forall>i. \<not> holds_key ns i k \<Longrightarrow> hlook ns k = None"
proof -
  assume a: "\<forall>i. \<not> holds_key ns i k"
  have "find (\<lambda>n. \<not> tvisnil (n_key n) \<and> tv_canon (n_key n) = tv_canon k) ns = None"
    unfolding find_None_iff using a by (auto simp: holds_key_def used_def in_set_conv_nth)
  then show ?thesis by (simp add: hlook_def)
qed

text \<open>Both shapes of the hash part have the chain structure.\<close>

lemma nilnode_simps [simp]: "tvisnil (n_key nilnode)" "tvisnil (n_val nilnode)" "n_next nilnode = None"
  by (simp_all add: nilnode_def tvisnil_def itype_def)

lemma nil_used [simp]: "\<not> used [nilnode] i"
  by (auto simp: used_def nth_Cons split: nat.splits)

lemma nil_nxt [simp]: "nxt [nilnode] = {}"
  by (auto simp: nxt_def nth_Cons split: nat.splits)

lemma tab_hash_ok:
  assumes "tab_ok e t"
  shows "chains_ok (hashkey e t) (t_node t)" "keys_ok (t_node t)"
    "hashkey e t k < length (t_node t)"
proof -
  have c: "chains_ok mp [nilnode]" "keys_ok [nilnode]" for mp
    by (auto simp: chains_ok_def keys_ok_def ranked_def nth_Cons split: nat.splits)
  have "hashkey e t k = 0" if "t_hmask t = 0" using hashkey_lt [of e t k] that by simp
  then show "chains_ok (hashkey e t) (t_node t)" "keys_ok (t_node t)" "hashkey e t k < length (t_node t)"
    using assms c hpart_okD(1,2) hashkey_node by (auto simp: tab_ok_def)
qed


subsection \<open>The predicates of the lookup loops\<close>

lemma nil_not_number: "tvisnil v \<Longrightarrow> \<not> tvisnumber v" "tvisnil v \<Longrightarrow> \<not> tvisstr v" "tvisnil v \<Longrightarrow> \<not> tvisnum v"
  by (simp_all add: tvis_defs tag_defs word_le_nat_alt word_less_nat_alt unsigned_minus_1_eq_mask mask_eq_exp_minus_1)

lemma match_generic:
  assumes "keys_ok ns" "key_ok k" "i < length ns"
  shows "lj_obj_equal (n_key (ns ! i)) k \<longleftrightarrow> holds_key ns i k"
proof (cases "used ns i")
  case True
  then have "tv_proper (n_key (ns ! i))" using assms(1) by (auto simp: keys_ok_def key_ok_def)
  then show ?thesis using lj_obj_equal_canon assms(2) True by (auto simp: holds_key_def key_ok_def)
next
  case False
  then have n: "tvisnil (n_key (ns ! i))" using assms(3) by (simp add: used_def)
  then have "\<not> lj_obj_equal (n_key (ns ! i)) k"
    using nil_not_number(1) [OF n] assms(2) by (auto simp: lj_obj_equal_def key_ok_def tvisnil_def)
  then show ?thesis using False by (simp add: holds_key_def)
qed

lemma match_str:
  assumes "tvisstr k"
  shows "tvisstr a \<and> gcrV a = gcrV k \<longleftrightarrow> lj_obj_equal a k"
proof -
  have k: "\<not> tvisnumber k" "\<not> tvispri k" "\<not> tvisnum k"
    using assms str_not_pri by (simp_all add: tvis_defs tag_defs word_le_nat_alt word_less_nat_alt)
  have "itype a = itype k \<longleftrightarrow> tvisstr a" using assms by (auto simp: tvisstr_def)
  then show ?thesis using k assms str_not_pri [of a] by (auto simp: lj_obj_equal_def)
qed

lemma match_num:
  assumes "tvisnum k" "itype a \<noteq> LJ_TISNUM"
  shows "tvisnum a \<and> num_eq a k \<longleftrightarrow> lj_obj_equal a k"
proof (cases "tvisnum a")
  case True
  then show ?thesis using assms num_number
    by (auto simp: lj_obj_equal_def numberVnum_def tvisint_def num_not_pri)
next
  case False
  then have "\<not> tvisnumber a" using assms(2) by (auto simp: tvisnum_def tvisnumber_def)
  moreover have "itype a \<noteq> itype k" using False assms(1) by (auto simp: tvisnum_def)
  ultimately show ?thesis using False by (auto simp: lj_obj_equal_def)
qed

lemma keys_ok_itype: "keys_ok ns \<Longrightarrow> i < length ns \<Longrightarrow> itype (n_key (ns ! i)) \<noteq> LJ_TISNUM"
  by (cases "used ns i") (auto simp: keys_ok_def key_ok_def tv_proper_def used_def tvisnil_def tag_defs)

lemma tab_find:
  assumes ok: "tab_ok e t" and k: "key_ok k"
    and P: "\<And>i. i < length (t_node t) \<Longrightarrow> P (t_node t ! i) \<longleftrightarrow> lj_obj_equal (n_key (t_node t ! i)) k"
  obtains (found) i where "node_find (t_node t) P (hashkey e t k) = Some (Some i)" "holds_key (t_node t) i k"
  | (absent) "node_find (t_node t) P (hashkey e t k) = Some None" "\<forall>i. \<not> holds_key (t_node t) i k"
  using node_find_key [OF tab_hash_ok(1,2) [OF ok] _ tab_hash_ok(3) [OF ok], of k P] k P
    match_generic [OF tab_hash_ok(2) [OF ok] k] hashkey_eq_canon [of _ k e t]
  by (metis key_ok_def)

lemma str_key_eta: "tvisstr k \<Longrightarrow> setstrV (gcrV k) = k"
  by (simp add: setstrV_def setgcV_def gcrV_def tvisstr_def itype_def) (metis mk_tv_eta)

lemma hash_str: "tvisstr k \<Longrightarrow> hashstr e t (gcrV k) = hashkey e t k"
  by (simp add: hashkey_def)

lemma hash_of_int: "hashnum t (num_of_int (sint (i :: u32))) = hashkey e t (num_of_int (sint i))"
proof -
  have "\<not> tvisstr (num_of_int (sint i))" using str_not_pri tvisnum_of_int [of i] by blast
  then show ?thesis by (simp add: hashkey_def)
qed

section \<open>Getters\<close>

text \<open>Lookup of an integer key that is not in the array part.\<close>

lemma getinth_slot:
  assumes ok: "tab_ok e t" and na: "\<not> i < t_asize t"
  obtains (found) s where "lj_tab_getinth t i = Some (Some s)" "slot_for t (num_of_int (sint i)) s"
  | (absent) "lj_tab_getinth t i = Some None" "\<forall>j. \<not> holds_key (t_node t) j (num_of_int (sint i))"
proof -
  have P: "(\<lambda>n. tvisnum (n_key n) \<and> num_eq (n_key n) (num_of_int (sint i))) (t_node t ! j) \<longleftrightarrow>
      lj_obj_equal (n_key (t_node t ! j)) (num_of_int (sint i))" if "j < length (t_node t)" for j
    using match_num [OF tvisnum_of_int keys_ok_itype [OF tab_hash_ok(2) [OF ok] that]] .
  have "\<not> akey t (num_of_int (sint i))" using na by (simp add: akey_def)
  with that show ?thesis
    by (cases rule: tab_find [OF ok key_ok_of_int P])
      (auto simp: lj_tab_getinth_def hash_of_int [of t i e] Let_def slot_for_def)
qed

lemma slot_for_get:
  assumes "tab_ok e t" "slot_for t k s"
  shows "tv_opt (slot_get t s) = tabmap t k"
  using assms hlook_holds [OF tab_hash_ok(2) [OF assms(1)], of _ k]
  by (auto simp: slot_for_def slot_get_def tabmap_def split: slot.splits)

lemma slot_for_canon: "tv_canon k = tv_canon k' \<Longrightarrow> slot_for t k s = slot_for t k' s"
  by (auto simp: slot_for_def akey_canon [of k k'] key_int_canon [of k k'] holds_key_def split: slot.splits)

lemma tabmap_canon: "tv_canon k = tv_canon k' \<Longrightarrow> tabmap t k = tabmap t k'"
  by (simp add: tabmap_def akey_canon [of k k'] key_int_canon [of k k'] hlook_def)

lemma opt_nil [simp]: "tv_opt (slot_get t SNil) = None"
  by (simp add: slot_get_def tv_opt_def tvisnil_def itype_def)

lemma getint_refine:
  assumes ok: "tab_ok e t"
  shows "\<exists>s. lj_tab_getint t i = Some s \<and>
    tabmap t (num_of_int (sint i)) = (case s of None \<Rightarrow> None | Some s \<Rightarrow> tv_opt (slot_get t s))"
proof (cases "i < t_asize t")
  case True
  then show ?thesis by (simp add: lj_tab_getint_def inarray_def tabmap_def akey_def slot_get_def)
next
  case False
  then have "\<not> akey t (num_of_int (sint i))" by (simp add: akey_def)
  with False show ?thesis
    by (cases rule: getinth_slot [OF ok False])
      (auto simp: lj_tab_getint_def inarray_def tabmap_def hlook_absent slot_for_get [OF ok])
qed

lemma get_generic_refine:
  assumes ok: "tab_ok e t" and k: "key_ok k" "key_int k = None"
    and P: "\<And>i. i < length (t_node t) \<Longrightarrow> P (t_node t ! i) \<longleftrightarrow> lj_obj_equal (n_key (t_node t ! i)) k"
  shows "\<exists>s. or_nil (map_option (map_option SHash) (node_find (t_node t) P (hashkey e t k))) = Some s \<and>
    tv_opt (slot_get t s) = tabmap t k"
proof -
  have na: "\<not> akey t k" using k by (simp add: akey_def)
  show ?thesis
  proof (cases rule: tab_find [OF ok k(1) P])
    case (2 i)
    then have "slot_for t k (SHash i)" using na by (simp add: slot_for_def)
    then show ?thesis using 2 slot_for_get [OF ok] by (simp add: or_nil_def)
  next
    case 3
    then show ?thesis using na by (simp add: or_nil_def tabmap_def hlook_absent)
  qed
qed

lemma tab_get_refine:
  assumes ok: "tab_ok e t" and k: "key_ok k"
  shows "\<exists>s. lj_tab_get e t k = Some s \<and> tv_opt (slot_get t s) = tabmap t k"
proof -
  consider (str) "tvisstr k" | (int) i where "tvisnum k" "key_int k = Some i" | (gen) "\<not> tvisstr k" "key_int k = None"
    using str_not_pri by (fastforce simp: key_int_def)
  then show ?thesis
  proof cases
    case str
    have "key_int k = None" using str str_not_pri by (simp add: key_int_def)
    from get_generic_refine [OF ok k this match_str [OF str]] show ?thesis
      using str by (simp add: lj_tab_get_def lj_tab_getstr_def hash_str)
  next
    case int
    then have i: "i = lj_num2int k" "num_eq k (num_of_int (sint i))" "\<not> tvisstr k"
      using str_not_pri [of k] by (auto simp: key_int_def split: if_splits)
    obtain s where "lj_tab_getint t i = Some s"
      "tabmap t (num_of_int (sint i)) = (case s of None \<Rightarrow> None | Some s \<Rightarrow> tv_opt (slot_get t s))"
      using getint_refine [OF ok] by blast
    moreover have "tabmap t (num_of_int (sint i)) = tabmap t k"
      by (rule tabmap_canon [OF key_int_canon_of_int [OF int(2)]])
    ultimately show ?thesis using i int(1)
      by (cases s) (auto simp: lj_tab_get_def tvisint_def or_nil_def)
  next
    case gen
    from get_generic_refine [OF ok k gen(2) refl] show ?thesis
      using gen k by (simp add: lj_tab_get_def genlookup_def tvisint_def key_ok_def key_int_def split: if_splits)
  qed
qed


section \<open>Stores through a slot\<close>

lemma node_val:
  "n_key (upd_node n (\<lambda>x. x\<lparr>n_val := v\<rparr>) ns ! i) = n_key (ns ! i)"
  "n_next (upd_node n (\<lambda>x. x\<lparr>n_val := v\<rparr>) ns ! i) = n_next (ns ! i)"
  "i \<noteq> n \<Longrightarrow> upd_node n (\<lambda>x. x\<lparr>n_val := v\<rparr>) ns ! i = ns ! i"
proof -
  show ne: "i \<noteq> n \<Longrightarrow> upd_node n (\<lambda>x. x\<lparr>n_val := v\<rparr>) ns ! i = ns ! i" for i by (simp add: upd_node_def)
  show "n_key (upd_node n (\<lambda>x. x\<lparr>n_val := v\<rparr>) ns ! i) = n_key (ns ! i)"
    "n_next (upd_node n (\<lambda>x. x\<lparr>n_val := v\<rparr>) ns ! i) = n_next (ns ! i)"
    using ne [of i] by (cases "i = n"; cases "n < length ns"; simp add: upd_node_def list_update_beyond)+
qed

lemma used_val: "used (upd_node n (\<lambda>x. x\<lparr>n_val := v\<rparr>) ns) i = used ns i"
  by (simp add: used_def node_val) (simp add: upd_node_def)

lemma length_upd_node [simp]: "length (upd_node n f ns) = length ns"
  by (simp add: upd_node_def)

lemma chains_ok_val: "chains_ok mp (upd_node n (\<lambda>x. x\<lparr>n_val := v\<rparr>) ns) = chains_ok mp ns"
proof -
  have "nxt (upd_node n (\<lambda>x. x\<lparr>n_val := v\<rparr>) ns) = nxt ns"
    by (auto simp: nxt_def node_val)
  then show ?thesis by (simp add: chains_ok_def used_val node_val ranked_def)
qed

lemma keys_ok_val: "keys_ok ns \<Longrightarrow> used ns n \<Longrightarrow> keys_ok (upd_node n (\<lambda>x. x\<lparr>n_val := v\<rparr>) ns)"
proof -
  assume ok: "keys_ok ns" and n: "used ns n"
  let ?ns = "upd_node n (\<lambda>x. x\<lparr>n_val := v\<rparr>) ns"
  have "tvisnil (n_val (?ns ! i))" if "i < length ?ns" "\<not> used ?ns i" for i
    using that ok n node_val(3) [of i n v ns] by (cases "i = n") (auto simp: used_val keys_ok_def)
  then show ?thesis using ok by (simp add: keys_ok_def used_val node_val(1,2))
qed

lemma hlook_val:
  assumes "keys_ok ns" "holds_key ns n k"
  shows "hlook (upd_node n (\<lambda>x. x\<lparr>n_val := v\<rparr>) ns) k' = (if tv_canon k' = tv_canon k then tv_opt v else hlook ns k')"
proof -
  let ?ns = "upd_node n (\<lambda>x. x\<lparr>n_val := v\<rparr>) ns"
  have n: "used ns n" "n < length ns" using assms(2) by (auto simp: holds_key_def used_def)
  have ok: "keys_ok ?ns" by (rule keys_ok_val [OF assms(1) n(1)])
  show ?thesis
  proof (cases "tv_canon k' = tv_canon k")
    case True
    then have "holds_key ?ns n k'" using assms(2) by (simp add: holds_key_def used_val node_val)
    from hlook_holds [OF ok this] show ?thesis using True n by (simp add: upd_node_def)
  next
    case False
    have "(tv_canon k', w) \<in> hset ?ns \<longleftrightarrow> (tv_canon k', w) \<in> hset ns" for w
    proof -
      have "n_val (?ns ! i) = n_val (ns ! i)" if "tv_canon (n_key (ns ! i)) = tv_canon k'" for i
        using that False assms(2) by (cases "i = n") (auto simp: holds_key_def upd_node_def)
      then show ?thesis unfolding hset_def mem_Collect_eq used_val node_val(1) by (metis prod.inject)
    qed
    then have "hlook ?ns k' = hlook ns k'"
      using hlook_iff [OF ok] hlook_iff [OF assms(1)] by (metis not_None_eq)
    then show ?thesis using False by simp
  qed
qed

lemma slot_set_refine:
  assumes ok: "tab_ok e t" and s: "slot_for t k s"
  shows "tab_ok e (slot_set t s v)"
    and "tabmap (slot_set t s v) k' = (if tv_canon k' = tv_canon k then tv_opt v else tabmap t k')"
    and "t_asize (slot_set t s v) = t_asize t" "t_hmask (slot_set t s v) = t_hmask t"
    and "nused (t_node (slot_set t s v)) = nused (t_node t)"
    and "length (t_node (slot_set t s v)) = length (t_node t)"
proof -
  have "tab_ok e (slot_set t s v) \<and>
    tabmap (slot_set t s v) k' = (if tv_canon k' = tv_canon k then tv_opt v else tabmap t k') \<and>
    t_asize (slot_set t s v) = t_asize t \<and> t_hmask (slot_set t s v) = t_hmask t \<and>
    nused (t_node (slot_set t s v)) = nused (t_node t) \<and>
    length (t_node (slot_set t s v)) = length (t_node t)"
  proof (cases s)
    case SNil
    then show ?thesis using s by (simp add: slot_for_def)
  next
    case (SArr i)
    then have a: "akey t k" "i = unat (the (key_int k))" using s by (auto simp: slot_for_def)
    then obtain w where w: "key_int k = Some w" "w < t_asize t" "i = unat w"
      by (auto simp: akey_def split: option.splits)
    have i: "i < length (t_array t)" using w ok by (simp add: tab_ok_def word_less_nat_alt)
    let ?t = "t\<lparr>t_array := (t_array t)[i := v]\<rparr>"
    have mp: "hashkey e ?t = hashkey e t" by (rule ext, rule hashkey_mask) simp
    have ak: "akey ?t = akey t" by (rule akey_asize) simp
    have "tab_ok e ?t" using ok unfolding tab_ok_def hpart_ok_def mp ak by simp
    moreover have "tabmap ?t k' = (if tv_canon k' = tv_canon k then tv_opt v else tabmap t k')"
    proof (cases "akey t k'")
      case True
      then obtain w' where w': "key_int k' = Some w'" by (auto simp: akey_def split: option.splits)
      have "w' = w \<longleftrightarrow> tv_canon k' = tv_canon k" using w w' key_int_inj key_int_canon by (metis option.inject)
      moreover have "unat w' = unat w \<longleftrightarrow> w' = w" by (simp add: word_unat_eq_iff)
      ultimately show ?thesis using True w w' i by (auto simp: tabmap_def nth_list_update)
    next
      case False
      then have "tv_canon k' \<noteq> tv_canon k" using a akey_canon by metis
      then show ?thesis using False by (simp add: tabmap_def ak)
    qed
    ultimately show ?thesis using SArr by (simp add: slot_set_def)
  next
    case (SHash n)
    then have h: "\<not> akey t k" "holds_key (t_node t) n k" using s by (auto simp: slot_for_def)
    then have u: "used (t_node t) n" by (simp add: holds_key_def)
    let ?t = "t\<lparr>t_node := upd_node n (\<lambda>x. x\<lparr>n_val := v\<rparr>) (t_node t)\<rparr>"
    have mp: "hashkey e ?t = hashkey e t" by (rule ext, rule hashkey_mask) simp
    have ak: "akey ?t = akey t" by (rule akey_asize) simp
    have hp: "hpart_ok e t" using ok u by (auto simp: tab_ok_def)
    then have "hpart_ok e ?t" unfolding hpart_ok_def mp
      by (simp add: chains_ok_val used_val keys_ok_val [OF _ u])
    then have "tab_ok e ?t" using ok unfolding tab_ok_def by (simp add: ak used_val node_val)
    moreover have "tabmap ?t k' = (if tv_canon k' = tv_canon k then tv_opt v else tabmap t k')"
      using hlook_val [OF tab_hash_ok(2) [OF ok] h(2)] h(1) akey_canon [of k' k t]
      by (auto simp: tabmap_def ak)
    ultimately show ?thesis using SHash by (simp add: slot_set_def nused_def used_val)
  qed
  then show "tab_ok e (slot_set t s v)"
    "tabmap (slot_set t s v) k' = (if tv_canon k' = tv_canon k then tv_opt v else tabmap t k')"
    "t_asize (slot_set t s v) = t_asize t" "t_hmask (slot_set t s v) = t_hmask t"
    "nused (t_node (slot_set t s v)) = nused (t_node t)"
    "length (t_node (slot_set t s v)) = length (t_node t)" by auto
qed

section \<open>Insertion where there is room\<close>

definition room :: "GCtab \<Rightarrow> nat" where
  "room t = (if t_hmask t = 0 then 0 else length (t_node t) - nused (t_node t))"

text \<open>The effect of making a slot for a key: the content does not change.\<close>

definition made_slot :: "tabenv \<Rightarrow> GCtab \<Rightarrow> TValue \<Rightarrow> slot \<Rightarrow> GCtab \<Rightarrow> bool" where
  "made_slot e t k s t' \<longleftrightarrow>
     tab_ok e t' \<and> slot_for t' k s \<and> (\<forall>k'. tabmap t' k' = tabmap t k') \<and>
     t_asize t' = t_asize t \<and> t_array t' = t_array t \<and> t_colo t' = t_colo t \<and>
     room t \<le> room t' + (if akey t k then 0 else 1)"

lemma placed_made_slot:
  assumes ok: "tab_ok e t" and hm: "t_hmask t \<noteq> 0" and na: "\<not> akey t k" and p: "placed e t k n t'"
  shows "made_slot e t k (SHash n) t'"
proof -
  have hp: "hpart_ok e t" using ok hm by (auto simp: tab_ok_def)
  obtain ns ft m a where t': "t' = t\<lparr>t_freetop := ft, t_node := ns, t_marked := m, t_again := a\<rparr>"
    using p unfolding placed_def by blast
  then have ak: "akey t' = akey t" by (intro akey_asize) simp
  have P: "hpart_ok e t'" "hset (t_node t') = hset (t_node t)" "holds_key (t_node t') n k"
    "nused (t_node t') \<le> nused (t_node t) + 1"
    "\<And>j. used (t_node t') j \<Longrightarrow> j = n \<or> (\<exists>i. used (t_node t) i \<and> n_key (t_node t' ! j) = n_key (t_node t ! i))"
    using p unfolding placed_def by blast+
  have "\<not> akey t' (n_key (t_node t' ! j))" if "used (t_node t') j" for j
  proof (cases "j = n")
    case True
    then have "tv_canon (n_key (t_node t' ! j)) = tv_canon k" using P(3) by (simp add: holds_key_def)
    then show ?thesis using na akey_canon ak by metis
  next
    case False
    then show ?thesis using P(5) [OF that] ok ak by (auto simp: tab_ok_def)
  qed
  then have tok: "tab_ok e t'" using ok P(1) t' by (simp add: tab_ok_def)
  have "hlook (t_node t') k' = hlook (t_node t) k'" for k'
    by (rule hlook_cong [OF tab_hash_ok(2) [OF ok] tab_hash_ok(2) [OF tok] P(2)])
  then have "\<forall>k'. tabmap t' k' = tabmap t k'" using t' by (simp add: tabmap_def ak)
  moreover have "length (t_node t') = length (t_node t)"
    using P(1) hp t' by (simp add: hpart_ok_def)
  ultimately show ?thesis
    using tok P(3,4) na ak t' hm by (auto simp: made_slot_def slot_for_def room_def)
qed

lemma newkey_made_slot:
  assumes ok: "tab_ok e t" and k: "key_ok k" "\<forall>i. \<not> holds_key (t_node t) i k" "\<not> akey t k" and r: "0 < room t"
  shows "\<exists>s t'. newkey_fuel (Suc f) e t k = Some (Inr s, t') \<and> made_slot e t k s t'"
proof -
  have hm: "t_hmask t \<noteq> 0" and rm: "nused (t_node t) < length (t_node t)"
    using r by (auto simp: room_def split: if_splits)
  then have "hpart_ok e t" using ok by (auto simp: tab_ok_def)
  from newkey_place [OF this k(1,2) rm] show ?thesis
    using placed_made_slot [OF ok hm k(3)] by fastforce
qed


lemma tab_ok_nomm [simp]:
  "tab_ok e (t\<lparr>t_nomm := x\<rparr>) = tab_ok e t" "tabmap (t\<lparr>t_nomm := x\<rparr>) = tabmap t" "room (t\<lparr>t_nomm := x\<rparr>) = room t"
  "slot_for (t\<lparr>t_nomm := x\<rparr>) = slot_for t" "hashkey e (t\<lparr>t_nomm := x\<rparr>) = hashkey e t"
proof -
  show h: "hashkey e (t\<lparr>t_nomm := x\<rparr>) = hashkey e t" by (rule ext, rule hashkey_mask) simp
  show "tab_ok e (t\<lparr>t_nomm := x\<rparr>) = tab_ok e t" unfolding tab_ok_def hpart_ok_def h by simp
qed (auto simp: tabmap_def room_def slot_for_def fun_eq_iff split: slot.split)

lemma made_slot_nomm [simp]: "made_slot e (t\<lparr>t_nomm := x\<rparr>) k s t' = made_slot e t k s t'"
  by (simp add: made_slot_def)

lemma made_slot_refl: "tab_ok e t \<Longrightarrow> slot_for t k s \<Longrightarrow> made_slot e t k s t"
  by (simp add: made_slot_def)

lemma made_slot_canon: "tv_canon k = tv_canon k' \<Longrightarrow> made_slot e t k s t' = made_slot e t k' s t'"
  by (simp add: made_slot_def slot_for_canon [of k k'] akey_canon [of k k'])

text \<open>An inserter that serves an absent key: the interface between lookup and insertion.\<close>

definition serves :: "tabenv \<Rightarrow> inserter \<Rightarrow> GCtab \<Rightarrow> TValue \<Rightarrow> bool" where
  "serves e nk t k \<longleftrightarrow> (\<exists>s t'. nk t k = Some (Inr s, t') \<and> made_slot e t k s t')"

text \<open>A setter found the key, or hands it to the inserter.\<close>

definition set_res :: "tabenv \<Rightarrow> inserter \<Rightarrow> GCtab \<Rightarrow> TValue \<Rightarrow> slot tres \<Rightarrow> bool" where
  "set_res e nk t k res \<longleftrightarrow>
     (\<exists>s t'. res = Some (Inr s, t') \<and> made_slot e t k s t') \<or>
     res = nk t k \<and> \<not> akey t k \<and> (\<forall>j. \<not> holds_key (t_node t) j k)"

lemma find_or_new_res:
  assumes ok: "tab_ok e t" and k: "key_ok k" "\<not> akey t k"
    and P: "\<And>i. i < length (t_node t) \<Longrightarrow> P (t_node t ! i) \<longleftrightarrow> lj_obj_equal (n_key (t_node t ! i)) k"
  shows "set_res e nk t k (find_or_new t (node_find (t_node t) P (hashkey e t k)) (nk t k))"
proof (cases rule: tab_find [OF ok k(1) P])
  case (2 i)
  then have "slot_for t k (SHash i)" using k(2) by (simp add: slot_for_def)
  then show ?thesis using 2 made_slot_refl [OF ok] by (auto simp: find_or_new_def set_res_def)
next
  case 3
  then show ?thesis using k by (auto simp: find_or_new_def set_res_def)
qed

lemma setinth_res:
  assumes ok: "tab_ok e t" and na: "\<not> i < t_asize t"
  shows "set_res e nk t (num_of_int (sint i)) (lj_tab_setinth nk t i)"
proof -
  have P: "(\<lambda>n. tvisnum (n_key n) \<and> num_eq (n_key n) (num_of_int (sint i))) (t_node t ! j) \<longleftrightarrow>
      lj_obj_equal (n_key (t_node t ! j)) (num_of_int (sint i))" if "j < length (t_node t)" for j
    using match_num [OF tvisnum_of_int keys_ok_itype [OF tab_hash_ok(2) [OF ok] that]] .
  have "\<not> akey t (num_of_int (sint i))" using na by (simp add: akey_def)
  from find_or_new_res [OF ok key_ok_of_int this P] show ?thesis
    by (simp add: lj_tab_setinth_def hash_of_int [of t i e] Let_def)
qed

lemma setint_res:
  assumes ok: "tab_ok e t"
  shows "set_res e nk t (num_of_int (sint i)) (lj_tab_setint nk t i)"
proof (cases "i < t_asize t")
  case True
  then have "slot_for t (num_of_int (sint i)) (SArr (unat i))" by (simp add: slot_for_def akey_def)
  then show ?thesis using True made_slot_refl [OF ok] by (auto simp: lj_tab_setint_def inarray_def set_res_def)
next
  case False
  then show ?thesis using setinth_res [OF ok False] by (simp add: lj_tab_setint_def inarray_def)
qed

text \<open>The key an insertion passes on: integers in their canonical double form.\<close>

definition ins_key :: "TValue \<Rightarrow> TValue" where
  "ins_key k = (case key_int k of Some i \<Rightarrow> num_of_int (sint i) | None \<Rightarrow> k)"

lemma ins_key_canon: "tv_canon (ins_key k) = tv_canon k"
  by (simp add: ins_key_def key_int_canon_of_int split: option.split)

lemma set_res_set:
  assumes ok: "tab_ok e t" and k: "key_ok k"
  shows "set_res e nk (t\<lparr>t_nomm := 0\<rparr>) (ins_key k) (lj_tab_set e nk t k)"
proof -
  define t0 where "t0 = t\<lparr>t_nomm := 0\<rparr>"
  have ok0: "tab_ok e t0" using ok by (simp add: t0_def)
  consider (str) "tvisstr k" | (int) i where "tvisnum k" "key_int k = Some i" | (gen) "\<not> tvisstr k" "key_int k = None"
    using str_not_pri by (fastforce simp: key_int_def)
  then show ?thesis
  proof cases
    case str
    then have ki: "key_int k = None" using str_not_pri by (simp add: key_int_def)
    then have "ins_key k = k" "\<not> akey t0 k" by (simp_all add: ins_key_def akey_def)
    then show ?thesis
      using find_or_new_res [OF ok0 k _ match_str [OF str], of nk] str
      by (simp add: lj_tab_set_def lj_tab_setstr_def hash_str str_key_eta t0_def [symmetric])
  next
    case int
    then have i: "i = lj_num2int k" "num_eq k (num_of_int (sint i))" "\<not> tvisstr k"
      using str_not_pri [of k] by (auto simp: key_int_def split: if_splits)
    have "ins_key k = num_of_int (sint i)" using int(2) by (simp add: ins_key_def)
    then show ?thesis using i int(1) setint_res [OF ok0, of nk i]
      by (simp add: lj_tab_set_def tvisint_def t0_def [symmetric])
  next
    case gen
    then have "ins_key k = k" "\<not> akey t0 k" by (simp_all add: ins_key_def akey_def)
    moreover have "tvisnan k \<longrightarrow> \<not> tvisnum k"
      using k by (auto simp: key_ok_def tv_proper_def tvisnan_def num_eq_def)
    ultimately show ?thesis
      using find_or_new_res [OF ok0 k _ refl, of nk] gen k
      by (auto simp: lj_tab_set_def set_generic_def t0_def [symmetric] tvisint_def key_ok_def key_int_def
          split: if_splits)
  qed
qed

lemma set_made:
  assumes ok: "tab_ok e t" and k: "key_ok k"
    and nk: "\<not> akey t k \<Longrightarrow> \<forall>j. \<not> holds_key (t_node t) j k \<Longrightarrow> serves e nk (t\<lparr>t_nomm := 0\<rparr>) (ins_key k)"
  shows "\<exists>s t'. lj_tab_set e nk t k = Some (Inr s, t') \<and> made_slot e t k s t'"
proof -
  have "akey t (ins_key k) = akey t k" by (rule akey_canon [OF ins_key_canon])
  moreover have "holds_key ns j (ins_key k) = holds_key ns j k" for ns j by (simp add: holds_key_def ins_key_canon)
  ultimately show ?thesis
    using set_res_set [OF ok k, of nk] nk made_slot_canon [OF ins_key_canon, of e t k]
    by (auto simp: set_res_def serves_def)
qed

lemma key_ok_ins_key: "key_ok k \<Longrightarrow> key_ok (ins_key k)"
  by (simp add: ins_key_def split: option.split)

lemma newkey_serves:
  assumes "tab_ok e t" "key_ok k" "\<not> akey t k" "\<forall>j. \<not> holds_key (t_node t) j k" "0 < room t"
  shows "serves e (newkey_fuel (Suc f) e) t k"
  using newkey_made_slot [OF assms(1,2,4,3,5)] by (simp add: serves_def)

lemma set_room:
  assumes ok: "tab_ok e t" and k: "key_ok k" and r: "akey t k \<or> 0 < room t"
  shows "\<exists>s t'. lj_tab_set e (newkey_fuel (Suc f) e) t k = Some (Inr s, t') \<and> made_slot e t k s t'"
proof (rule set_made [OF ok k])
  assume na: "\<not> akey t k" and h: "\<forall>j. \<not> holds_key (t_node t) j k"
  have "akey t (ins_key k) = akey t k" by (rule akey_canon [OF ins_key_canon])
  moreover have "holds_key ns j (ins_key k) = holds_key ns j k" for ns j by (simp add: holds_key_def ins_key_canon)
  ultimately show "serves e (newkey_fuel (Suc f) e) (t\<lparr>t_nomm := 0\<rparr>) (ins_key k)"
    using ok na h r key_ok_ins_key [OF k] by (intro newkey_serves) simp_all
qed


section \<open>Reinsertion\<close>

definition live :: "Node \<Rightarrow> bool" where "live n \<longleftrightarrow> \<not> tvisnil (n_val n)"

lemma room_slot_set: "tab_ok e t \<Longrightarrow> slot_for t k s \<Longrightarrow> room (slot_set t s v) = room t"
  using slot_set_refine(4,5,6) [of e t k s v] by (simp add: room_def)

lemma hash_slot_array: "slot_for t k s \<Longrightarrow> \<not> akey t k \<Longrightarrow> t_array (slot_set t s v) = t_array t"
  by (simp add: slot_for_def slot_set_def split: slot.splits)

lemma slot_set_colo: "t_colo (slot_set t s v) = t_colo t"
  by (simp add: slot_set_def split: slot.splits)

lemma insert_step:
  assumes ok: "tab_ok e t" and m: "made_slot e t k s t1" and v: "\<not> tvisnil v"
  defines "t' \<equiv> slot_set t1 s v"
  shows "tab_ok e t'" "t_asize t' = t_asize t" "t_colo t' = t_colo t"
    "tabmap t' k' = (if tv_canon k' = tv_canon k then Some v else tabmap t k')"
    "room t \<le> room t' + (if akey t k then 0 else 1)"
    "\<not> akey t k \<Longrightarrow> t_array t' = t_array t" "length (t_array t') = length (t_array t)"
proof -
  have M: "tab_ok e t1" "slot_for t1 k s" "\<forall>k'. tabmap t1 k' = tabmap t k'" "t_asize t1 = t_asize t"
    "t_array t1 = t_array t" "t_colo t1 = t_colo t" "room t \<le> room t1 + (if akey t k then 0 else 1)"
    using m by (auto simp: made_slot_def)
  note S = slot_set_refine [OF M(1,2), of v, folded t'_def]
  show "tab_ok e t'" "t_asize t' = t_asize t" using S M by simp_all
  show "t_colo t' = t_colo t" using M by (simp add: t'_def slot_set_colo)
  show "tabmap t' k' = (if tv_canon k' = tv_canon k then Some v else tabmap t k')"
    using S(2) [of k'] M(3) v by (simp add: tv_opt_def)
  show "room t \<le> room t' + (if akey t k then 0 else 1)"
    using M(7) room_slot_set [OF M(1,2)] by (simp add: t'_def)
  show "t_array t' = t_array t" if "\<not> akey t k"
    using hash_slot_array [OF M(2)] that M(4,5) akey_asize [of t1 t] by (simp add: t'_def)
  show "length (t_array t') = length (t_array t)"
    using M(5) by (simp add: t'_def slot_set_def split: slot.split)
qed

lemma reinsert_array_ok:
  assumes "tab_ok e t" "distinct is" "\<forall>i \<in> set is. i < 2 ^ 31 \<and> unat (t_asize t) \<le> i"
    and "length (filter (\<lambda>i. \<not> tvisnil (array ! i)) is) \<le> room t"
  shows "\<exists>t'. reinsert_array (newkey_fuel (Suc f) e) array is t = Some (Inr (), t') \<and>
    tab_ok e t' \<and> t_asize t' = t_asize t \<and> t_array t' = t_array t \<and> t_colo t' = t_colo t \<and>
    room t \<le> room t' + length (filter (\<lambda>i. \<not> tvisnil (array ! i)) is) \<and>
    (\<forall>k. tabmap t' k = (case key_int k of
        Some w \<Rightarrow> if unat w \<in> set is \<and> \<not> tvisnil (array ! unat w) then Some (array ! unat w) else tabmap t k
      | None \<Rightarrow> tabmap t k))"
  using assms
proof (induction "is" arbitrary: t)
  case Nil
  then show ?case by (simp split: option.split)
next
  case (Cons i "is")
  show ?case
  proof (cases "tvisnil (array ! i)")
    case True
    then have "reinsert_array (newkey_fuel (Suc f) e) array (i # is) t = reinsert_array (newkey_fuel (Suc f) e) array is t"
      by (simp del: newkey_fuel.simps)
    moreover have "unat w \<in> set (i # is) \<and> \<not> tvisnil (array ! unat w) \<longleftrightarrow>
        unat w \<in> set is \<and> \<not> tvisnil (array ! unat w)" for w :: u32 using True by auto
    moreover have "length (filter (\<lambda>i. \<not> tvisnil (array ! i)) (i # is)) = length (filter (\<lambda>i. \<not> tvisnil (array ! i)) is)"
      using True by simp
    moreover have "distinct is" "\<forall>i \<in> set is. i < 2 ^ 31 \<and> unat (t_asize t) \<le> i"
      "length (filter (\<lambda>i. \<not> tvisnil (array ! i)) is) \<le> room t"
      using Cons.prems True by simp_all
    note IH = Cons.IH [OF Cons.prems(1) this]
    ultimately show ?thesis using IH by (simp only:)
  next
    case False
    define w :: u32 where "w = of_nat i"
    define kw where "kw = num_of_int (sint w)"
    have w: "unat w = i" using Cons.prems(3) by (simp add: w_def unat_of_nat_small)
    have nw: "\<not> w < t_asize t" using Cons.prems(3) w by (simp add: word_less_nat_alt)
    then have na: "\<not> akey t kw" by (simp add: akey_def kw_def)
    have rm: "0 < room t" using Cons.prems(4) False by simp
    have "serves e (newkey_fuel (Suc f) e) t kw" if "\<forall>j. \<not> holds_key (t_node t) j kw"
      using newkey_serves [OF Cons.prems(1) _ na that rm] by (simp add: kw_def del: newkey_fuel.simps)
    then obtain s t1 where s: "lj_tab_setinth (newkey_fuel (Suc f) e) t w = Some (Inr s, t1)" "made_slot e t kw s t1"
      using setinth_res [OF Cons.prems(1) nw, of "newkey_fuel (Suc f) e", folded kw_def]
      by (auto simp: set_res_def serves_def simp del: newkey_fuel.simps)
    define t2 where "t2 = slot_set t1 s (array ! i)"
    note S = insert_step [OF Cons.prems(1) s(2) False, folded t2_def]
    have run: "reinsert_array (newkey_fuel (Suc f) e) array (i # is) t = reinsert_array (newkey_fuel (Suc f) e) array is t2"
      using False s(1) by (simp add: w_def [symmetric] tbind_def t2_def del: newkey_fuel.simps)
    have pre: "distinct is" "\<forall>i \<in> set is. i < 2 ^ 31 \<and> unat (t_asize t2) \<le> i"
      "length (filter (\<lambda>i. \<not> tvisnil (array ! i)) is) \<le> room t2"
      using Cons.prems S(2,5) na False by auto
    obtain t' where t': "reinsert_array (newkey_fuel (Suc f) e) array is t2 = Some (Inr (), t')" "tab_ok e t'"
      "t_asize t' = t_asize t2" "t_array t' = t_array t2" "t_colo t' = t_colo t2"
      "room t2 \<le> room t' + length (filter (\<lambda>i. \<not> tvisnil (array ! i)) is)"
      "\<forall>k. tabmap t' k = (case key_int k of
        Some w \<Rightarrow> if unat w \<in> set is \<and> \<not> tvisnil (array ! unat w) then Some (array ! unat w) else tabmap t2 k
      | None \<Rightarrow> tabmap t2 k)" using Cons.IH [OF S(1) pre] by blast
    have mm: "tabmap t' k = (case key_int k of
        Some w \<Rightarrow> if unat w \<in> set (i # is) \<and> \<not> tvisnil (array ! unat w) then Some (array ! unat w) else tabmap t k
      | None \<Rightarrow> tabmap t k)" for k
    proof -
      have "tv_canon k = tv_canon kw \<longleftrightarrow> key_int k = Some w"
        using key_int_canon [of k kw] key_int_inj [of k w kw] by (auto simp: kw_def)
      moreover have "w' = w \<longleftrightarrow> unat w' = i" for w' using w by (auto simp: word_unat_eq_iff)
      ultimately show ?thesis
        using t'(7) S(4) [of k] False Cons.prems(2) by (cases "key_int k") auto
    qed
    show ?thesis unfolding run
      by (intro exI [of _ t'] conjI allI mm t'(1,2)) (use t'(3-6) S(2,3,5,6) na False in simp_all)
  qed
qed


text \<open>A list of nodes to reinsert: live nodes have proper keys, all different.\<close>

definition nodes_ok :: "Node list \<Rightarrow> bool" where
  "nodes_ok ns \<longleftrightarrow> (\<forall>n \<in> set ns. live n \<longrightarrow> key_ok (n_key n)) \<and>
     distinct (map (\<lambda>n. tv_canon (n_key n)) (filter (\<lambda>n. \<not> tvisnil (n_key n)) ns))"

lemma hlook_Cons: "hlook (n # ns) k =
    (if \<not> tvisnil (n_key n) \<and> tv_canon (n_key n) = tv_canon k then tv_opt (n_val n) else hlook ns k)"
  by (simp add: hlook_def)

lemma hlook_distinct_None:
  assumes "nodes_ok (n # ns)" "\<not> tvisnil (n_key n)" "tv_canon (n_key n) = tv_canon k"
  shows "hlook ns k = None"
proof -
  have "find (\<lambda>n. \<not> tvisnil (n_key n) \<and> tv_canon (n_key n) = tv_canon k) ns = None"
    unfolding find_None_iff using assms by (auto simp: nodes_ok_def image_iff)
  then show ?thesis by (simp add: hlook_def)
qed

lemma reinsert_nodes_ok:
  assumes "tab_ok e t" "nodes_ok ns"
    and "length (filter (\<lambda>n. live n \<and> \<not> akey t (n_key n)) ns) \<le> room t"
  shows "\<exists>t'. reinsert_nodes e (newkey_fuel (Suc f) e) ns t = Some (Inr (), t') \<and>
    tab_ok e t' \<and> t_asize t' = t_asize t \<and> t_colo t' = t_colo t \<and> length (t_array t') = length (t_array t) \<and>
    room t \<le> room t' + length (filter (\<lambda>n. live n \<and> \<not> akey t (n_key n)) ns) \<and>
    (\<forall>k. tabmap t' k = (case hlook ns k of Some v \<Rightarrow> Some v | None \<Rightarrow> tabmap t k))"
  using assms
proof (induction ns arbitrary: t)
  case Nil
  then show ?case by (simp add: hlook_def)
next
  case (Cons n ns)
  have nok: "nodes_ok ns" using Cons.prems(2) by (auto simp: nodes_ok_def split: if_splits)
  show ?case
  proof (cases "live n")
    case False
    then have run: "reinsert_nodes e (newkey_fuel (Suc f) e) (n # ns) t = reinsert_nodes e (newkey_fuel (Suc f) e) ns t"
      by (simp add: live_def del: newkey_fuel.simps)
    have lk: "hlook (n # ns) k = hlook ns k" for k
      using hlook_distinct_None [OF Cons.prems(2), of k] False by (auto simp: hlook_Cons tv_opt_def live_def)
    have fl: "filter (\<lambda>n. live n \<and> \<not> akey t (n_key n)) (n # ns) = filter (\<lambda>n. live n \<and> \<not> akey t (n_key n)) ns"
      using False by simp
    have "length (filter (\<lambda>n. live n \<and> \<not> akey t (n_key n)) ns) \<le> room t" using Cons.prems(3) fl by simp
    from Cons.IH [OF Cons.prems(1) nok this] show ?thesis unfolding run lk fl .
  next
    case True
    then have k: "key_ok (n_key n)" using Cons.prems(2) by (simp add: nodes_ok_def)
    have "akey t (n_key n) \<or> 0 < room t" using Cons.prems(3) True by (cases "akey t (n_key n)") auto
    from set_room [OF Cons.prems(1) k this, of f] obtain s t1 where
      s: "lj_tab_set e (newkey_fuel (Suc f) e) t (n_key n) = Some (Inr s, t1)" "made_slot e t (n_key n) s t1" by blast
    define t2 where "t2 = slot_set t1 s (n_val n)"
    note S = insert_step [OF Cons.prems(1) s(2) True [unfolded live_def], folded t2_def]
    have ak: "akey t2 = akey t" by (rule akey_asize [OF S(2)])
    have run: "reinsert_nodes e (newkey_fuel (Suc f) e) (n # ns) t = reinsert_nodes e (newkey_fuel (Suc f) e) ns t2"
      using True s(1) by (simp add: live_def tbind_def t2_def del: newkey_fuel.simps)
    have "length (filter (\<lambda>n. live n \<and> \<not> akey t2 (n_key n)) ns) \<le> room t2"
      using Cons.prems(3) S(5) True by (auto simp: ak split: if_splits)
    from Cons.IH [OF S(1) nok this] obtain t' where
      t': "reinsert_nodes e (newkey_fuel (Suc f) e) ns t2 = Some (Inr (), t')" "tab_ok e t'"
      "t_asize t' = t_asize t2" "t_colo t' = t_colo t2" "length (t_array t') = length (t_array t2)"
      "room t2 \<le> room t' + length (filter (\<lambda>n. live n \<and> \<not> akey t2 (n_key n)) ns)"
      "\<forall>k. tabmap t' k = (case hlook ns k of Some v \<Rightarrow> Some v | None \<Rightarrow> tabmap t2 k)" by blast
    have mm: "tabmap t' k' = (case hlook (n # ns) k' of Some v \<Rightarrow> Some v | None \<Rightarrow> tabmap t k')" for k'
    proof -
      have v: "tv_opt (n_val n) = Some (n_val n)" "\<not> tvisnil (n_key n)"
        using True k by (auto simp: tv_opt_def live_def key_ok_def)
      show ?thesis using t'(7) S(4) [of k'] hlook_distinct_None [OF Cons.prems(2) v(2), of k'] v
        by (cases "tv_canon (n_key n) = tv_canon k'") (auto simp: hlook_Cons split: option.split)
    qed
    show ?thesis unfolding run
      by (intro exI [of _ t'] conjI allI mm t'(1,2)) (use t'(3-6) S(2,3,5,7) True in \<open>auto simp: ak split: if_splits\<close>)
  qed
qed

lemma keys_nodes_ok: "keys_ok ns \<Longrightarrow> nodes_ok ns"
proof -
  assume ok: "keys_ok ns"
  have "key_ok (n_key n)" if "n \<in> set ns" "live n" for n
    using ok that by (auto simp: keys_ok_def in_set_conv_nth live_def used_def)
  moreover have "distinct (map (\<lambda>n. tv_canon (n_key n)) (filter (\<lambda>n. \<not> tvisnil (n_key n)) ns))"
  proof -
    define js where "js = filter (\<lambda>i. \<not> tvisnil (n_key (ns ! i))) [0..<length ns]"
    have f: "filter (\<lambda>n. \<not> tvisnil (n_key n)) ns = map ((!) ns) js"
      unfolding js_def by (subst map_nth [of ns, symmetric]) (simp add: filter_map comp_def)
    have "inj_on (\<lambda>i. tv_canon (n_key (ns ! i))) (set js)"
      using keys_ok_inj [OF ok] by (auto simp: inj_on_def js_def used_def)
    then show ?thesis by (simp add: f comp_def distinct_map js_def)
  qed
  ultimately show ?thesis by (simp add: nodes_ok_def)
qed


section \<open>Resizing\<close>

lemma foldl_upd_node:
  "n \<le> length ns \<Longrightarrow> foldl (\<lambda>ns i. upd_node i f ns) ns [0..<n] = map f (take n ns) @ drop n ns"
proof (induction n)
  case (Suc n)
  then have "foldl (\<lambda>ns i. upd_node i f ns) ns [0..<Suc n] = upd_node n f (map f (take n ns) @ drop n ns)" by simp
  also have "\<dots> = map f (take n ns) @ f (ns ! n) # drop (Suc n) ns"
    using Suc.prems by (simp add: upd_node_def nth_append list_update_append min_def Cons_nth_drop_Suc [symmetric])
  also have "\<dots> = map f (take (Suc n) ns) @ drop (Suc n) ns"
    using Suc.prems by (simp add: take_Suc_conv_app_nth)
  finally show ?case .
qed simp

lemma hbits_word:
  assumes "h \<noteq> 0" "h \<le> LJ_MAX_HBITS"
  shows "unat (2 ^ h :: u32) = 2 ^ h" "unat (2 ^ h - 1 :: u32) + 1 = 2 ^ h" "0 < unat (2 ^ h - 1 :: u32)"
proof -
  have "(2 :: nat) ^ h \<le> 2 ^ 26" using assms(2) by (intro power_increasing) (simp_all add: LJ_MAX_HBITS_def)
  then have lt: "(2 :: nat) ^ h < 2 ^ 32" by simp
  show u: "unat (2 ^ h :: u32) = 2 ^ h" using lt unat_of_nat_small [of "2 ^ h", where ?'a = 32] by simp
  have "(1 :: u32) \<le> 2 ^ h" by (simp add: word_le_nat_alt u)
  then have d: "unat (2 ^ h - 1 :: u32) = 2 ^ h - 1" by (simp add: unat_sub u)
  have "2 \<le> (2 :: nat) ^ h" using assms(1) by (cases h) auto
  then show "unat (2 ^ h - 1 :: u32) + 1 = 2 ^ h" "0 < unat (2 ^ h - 1 :: u32)" using d by auto
qed

lemma clear_node_simps [simp]: "tvisnil (n_key (clear_node n))" "tvisnil (n_val (clear_node n))" "n_next (clear_node n) = None"
  by (simp_all add: clear_node_def tvisnil_def setnilV_def setitype_def itype_def)

lemma fresh_nodes:
  shows "\<not> used (replicate m (clear_node j)) i" "nxt (replicate m (clear_node j)) = {}"
    "chains_ok mp (replicate m (clear_node j))" "keys_ok (replicate m (clear_node j))"
    "nused (replicate m (clear_node j)) = 0" "hlook (replicate m (clear_node j)) k = None"
proof -
  show u: "\<not> used (replicate m (clear_node j)) i" for i by (simp add: used_def)
  show n: "nxt (replicate m (clear_node j)) = {}" by (auto simp: nxt_def)
  show "chains_ok mp (replicate m (clear_node j))" by (simp add: chains_ok_def u n ranked_def)
  show "keys_ok (replicate m (clear_node j))" by (simp add: keys_ok_def u)
  show "nused (replicate m (clear_node j)) = 0" by (simp add: nused_def u)
  show "hlook (replicate m (clear_node j)) k = None" by (rule hlook_absent) (simp add: holds_key_def u)
qed

text \<open>The hash part step of \<open>resizetab\<close>: a fresh part of the requested size, or an error.\<close>

definition fresh_hash :: "tabenv \<Rightarrow> GCtab \<Rightarrow> nat \<Rightarrow> unit tres" where
  "fresh_hash e t hbits =
     (if hbits \<noteq> 0 then tbind (newhpart e t hbits) (\<lambda>t u. Some (Inr (), clearhpart t))
      else Some (Inr (), t\<lparr>t_node := [nilnode], t_freetop := 0, t_hmask := 0\<rparr>))"

definition hcap :: "nat \<Rightarrow> nat" where "hcap hbits = (if hbits = 0 then 0 else 2 ^ hbits)"

lemma fresh_hash_cases:
  assumes "unat (t_asize t) \<le> length (t_array t)" "unat (t_asize t) \<le> LJ_MAX_ASIZE"
  obtains (err) er where "fresh_hash e t hbits = Some (Inl er, t)" "er \<in> {LJ_ERR_ERRMEM, LJ_ERR_TABOV}"
  | (ok) t' where "fresh_hash e t hbits = Some (Inr (), t')" "tab_ok e t'" "t_asize t' = t_asize t"
      "t_array t' = t_array t" "t_colo t' = t_colo t" "room t' = hcap hbits" "\<forall>k. hlook (t_node t') k = None"
      "\<forall>i. \<not> used (t_node t') i"
proof (cases "hbits = 0")
  case True
  let ?t = "t\<lparr>t_node := [nilnode], t_freetop := 0, t_hmask := 0\<rparr>"
  have "hlook [nilnode] k = None" for k by (rule hlook_absent) (simp add: holds_key_def)
  with True assms show ?thesis
    by (intro ok [of ?t]) (auto simp: fresh_hash_def tab_ok_def room_def hcap_def)
next
  case False
  define hs where "hs = (2 :: u32) ^ hbits"
  consider (big) "LJ_MAX_HBITS < hbits" | (mem) "hbits \<le> LJ_MAX_HBITS" "\<not> e_alloc e 0 (hs * sizeof_Node) \<and> 0 < hs * sizeof_Node"
    | (fine) "hbits \<le> LJ_MAX_HBITS" "\<not> (\<not> e_alloc e 0 (hs * sizeof_Node) \<and> 0 < hs * sizeof_Node)" by linarith
  then show ?thesis
  proof cases
    case big
    then show ?thesis using False by (intro err) (auto simp: fresh_hash_def newhpart_def tbind_def)
  next
    case mem
    then show ?thesis using False
      by (intro err) (auto simp: fresh_hash_def newhpart_def tbind_def t_realloc_def hs_def Let_def)
  next
    case fine
    note hb = hbits_word [OF False fine(1), folded hs_def]
    define t' where "t' = t\<lparr>g_total := g_total t - 0 + hs * sizeof_Node, t_node := replicate (2 ^ hbits) (clear_node (e_junk e)),
      t_freetop := 2 ^ hbits, t_hmask := hs - 1\<rparr>"
    have run: "fresh_hash e t hbits = Some (Inr (), t')"
      using False fine hb foldl_upd_node [of "2 ^ hbits" "replicate (2 ^ hbits) (e_junk e)" clear_node]
      by (simp add: fresh_hash_def newhpart_def tbind_def t_realloc_def hs_def [symmetric] Let_def clearhpart_def t'_def
          del: upt_Suc)
    have "hpart_ok e t'"
      using hb fine(1) by (simp add: hpart_ok_def t'_def fresh_nodes)
    then have "tab_ok e t'" using assms by (simp add: tab_ok_def) (simp add: t'_def fresh_nodes)
    then show ?thesis
      using run hb False by (intro ok [of t']) (auto simp: t'_def fresh_nodes room_def hcap_def)
  qed
qed


lemma grow_array_cases:
  assumes "unat (t_asize t) \<le> length (t_array t)" "unat (t_asize t) < asize"
  obtains (err) er t' where "grow_array e t asize = Some (Inl er, t')" "er \<in> {LJ_ERR_ERRMEM, LJ_ERR_TABOV}"
  | (ok) t' where "grow_array e t asize = Some (Inr (), t')" "unat (t_asize t') = asize" "asize \<le> LJ_MAX_ASIZE"
      "length (t_array t') = asize" "\<forall>i < unat (t_asize t). t_array t' ! i = t_array t ! i"
      "\<forall>i. unat (t_asize t) \<le> i \<longrightarrow> i < asize \<longrightarrow> tvisnil (t_array t' ! i)"
proof (cases "LJ_MAX_ASIZE < asize")
  case True
  then show ?thesis by (intro err) (auto simp: grow_array_def)
next
  case False
  define arr where "arr = take (unat (t_asize t)) (t_array t) @
    replicate (asize - unat (t_asize t)) (setnilV (n_val (e_junk e)))"
  have len: "length arr = asize" using assms by (simp add: arr_def)
  have arr: "\<forall>i < unat (t_asize t). arr ! i = t_array t ! i"
    "\<forall>i. unat (t_asize t) \<le> i \<longrightarrow> i < asize \<longrightarrow> tvisnil (arr ! i)"
    using assms by (auto simp: arr_def nth_append tvisnil_def setnilV_def setitype_def itype_def)
  have u: "unat (of_nat asize :: u32) = asize"
    using False by (intro unat_of_nat_small) (simp add: LJ_MAX_ASIZE_def LJ_MAX_ABITS_def)
  define r where "r = (if 0 < t_colo t then
       tbind (t_realloc e t 0 (of_nat asize * sizeof_TValue)) (\<lambda>t u. Some (Inr (), t\<lparr>t_colo := t_colo t - 128\<rparr>))
     else t_realloc e t (of_nat (unat (t_asize t)) * sizeof_TValue) (of_nat asize * sizeof_TValue))"
  have g: "grow_array e t asize = tbind r (\<lambda>t' u. Some (Inr (), t'\<lparr>t_asize := of_nat asize,
      t_array := take (unat (t_asize t)) (t_array t') @
        replicate (asize - unat (t_asize t)) (setnilV (n_val (e_junk e)))\<rparr>))"
    using False by (simp add: grow_array_def r_def Let_def)
  have "(\<exists>t1. r = Some (Inr (), t1) \<and> t_array t1 = t_array t) \<or> (\<exists>t1. r = Some (Inl LJ_ERR_ERRMEM, t1))"
    by (auto simp: r_def t_realloc_def tbind_def)
  then show ?thesis
  proof (elim disjE exE conjE)
    fix t1 assume "r = Some (Inr (), t1)" "t_array t1 = t_array t"
    then have "grow_array e t asize = Some (Inr (), t1\<lparr>t_asize := of_nat asize, t_array := arr\<rparr>)"
      by (simp add: g tbind_def arr_def)
    then show ?thesis using u len arr False by (intro ok) auto
  next
    fix t1 assume "r = Some (Inl LJ_ERR_ERRMEM, t1)"
    then show ?thesis by (intro err) (auto simp: g tbind_def)
  qed
qed

text \<open>The shrink step of \<open>resizetab\<close>, after the hash part was replaced by a fresh one.\<close>

definition shrink_array :: "tabenv \<Rightarrow> inserter \<Rightarrow> GCtab \<Rightarrow> nat \<Rightarrow> nat \<Rightarrow> unit tres" where
  "shrink_array e newkey t asize oldasize =
     (let array = t_array t in
      tbind (reinsert_array newkey array [asize..<oldasize] (t\<lparr>t_asize := of_nat asize\<rparr>)) (\<lambda>t u.
        if t_colo t \<le> 0 then
          tbind (t_realloc e t (of_nat oldasize * sizeof_TValue) (of_nat asize * sizeof_TValue)) (\<lambda>t u.
            Some (Inr (), t\<lparr>t_array := take asize array\<rparr>))
        else Some (Inr (), t)))"

lemma resizetab_alt:
  "resizetab e newkey t asize hbits =
     tbind (if unat (t_asize t) < asize then grow_array e t asize else Some (Inr (), t)) (\<lambda>t1 u.
     tbind (fresh_hash e t1 hbits) (\<lambda>t2 u.
     tbind (if asize < unat (t_asize t) then shrink_array e newkey t2 asize (unat (t_asize t)) else Some (Inr (), t2)) (\<lambda>t4 u.
     if 0 < t_hmask t then
       tbind (reinsert_nodes e newkey (t_node t) t4) (\<lambda>t5 u.
         Some (Inr (), t5\<lparr>g_total := g_total t5 - (t_hmask t + 1) * sizeof_Node\<rparr>))
     else Some (Inr (), t4))))"
  unfolding resizetab_def fresh_hash_def shrink_array_def Let_def ..

lemma tab_ok_total [simp]:
  "tab_ok e (t\<lparr>g_total := x\<rparr>) = tab_ok e t" "tabmap (t\<lparr>g_total := x\<rparr>) = tabmap t" "room (t\<lparr>g_total := x\<rparr>) = room t"
proof -
  have h: "hashkey e (t\<lparr>g_total := x\<rparr>) = hashkey e t" by (rule ext, rule hashkey_mask) simp
  show "tab_ok e (t\<lparr>g_total := x\<rparr>) = tab_ok e t" unfolding tab_ok_def hpart_ok_def h by simp
qed (auto simp: tabmap_def room_def fun_eq_iff)

definition nonnil :: "TValue list \<Rightarrow> nat list \<Rightarrow> nat" where
  "nonnil a is = length (filter (\<lambda>i. \<not> tvisnil (a ! i)) is)"

lemma shrink_array_ok:
  assumes tok: "tab_ok e t" and nu: "\<forall>i. \<not> used (t_node t) i" "\<forall>k. hlook (t_node t) k = None"
    and sz: "asize < unat (t_asize t)" "nonnil (t_array t) [asize..<unat (t_asize t)] \<le> room t"
  obtains (err) t' where "shrink_array e (newkey_fuel (Suc f) e) t asize (unat (t_asize t)) = Some (Inl LJ_ERR_ERRMEM, t')"
  | (ok) t' where "shrink_array e (newkey_fuel (Suc f) e) t asize (unat (t_asize t)) = Some (Inr (), t')"
      "tab_ok e t'" "unat (t_asize t') = asize" "\<forall>k. tabmap t' k = tabmap t k"
      "room t \<le> room t' + nonnil (t_array t) [asize..<unat (t_asize t)]"
proof -
  define old where "old = unat (t_asize t)"
  define ts where "ts = t\<lparr>t_asize := of_nat asize\<rparr>"
  have A: "old \<le> LJ_MAX_ASIZE" "old \<le> length (t_array t)" using tok by (auto simp: tab_ok_def old_def)
  have u: "unat (of_nat asize :: u32) = asize"
    using A sz(1) by (intro unat_of_nat_small) (simp add: LJ_MAX_ASIZE_def LJ_MAX_ABITS_def old_def)
  have h: "hashkey e ts = hashkey e t" by (rule ext, rule hashkey_mask) (simp add: ts_def)
  have tsok: "tab_ok e ts"
    using tok nu A sz(1) u h unfolding tab_ok_def hpart_ok_def by (simp add: ts_def old_def)
  have tsmap: "tabmap ts k = (case key_int k of Some w \<Rightarrow> if unat w < asize then tv_opt (t_array t ! unat w) else None | None \<Rightarrow> None)" for k
    using nu(2) u by (auto simp: tabmap_def akey_def ts_def word_less_nat_alt split: option.splits)
  have tmap: "tabmap t k = (case key_int k of Some w \<Rightarrow> if unat w < old then tv_opt (t_array t ! unat w) else None | None \<Rightarrow> None)" for k
    using nu(2) by (auto simp: tabmap_def akey_def old_def word_less_nat_alt split: option.splits)
  have rm: "room ts = room t" by (simp add: room_def ts_def)
  have pre: "distinct [asize..<old]" "\<forall>i \<in> set [asize..<old]. i < 2 ^ 31 \<and> unat (t_asize ts) \<le> i"
    "length (filter (\<lambda>i. \<not> tvisnil (t_array t ! i)) [asize..<old]) \<le> room ts"
    using A u sz(2) rm by (auto simp: ts_def LJ_MAX_ASIZE_def LJ_MAX_ABITS_def nonnil_def old_def)
  obtain t3 where t3: "reinsert_array (newkey_fuel (Suc f) e) (t_array t) [asize..<old] ts = Some (Inr (), t3)"
    "tab_ok e t3" "t_asize t3 = t_asize ts" "t_array t3 = t_array ts" "t_colo t3 = t_colo ts"
    "room ts \<le> room t3 + length (filter (\<lambda>i. \<not> tvisnil (t_array t ! i)) [asize..<old])"
    "\<forall>k. tabmap t3 k = (case key_int k of
        Some w \<Rightarrow> if unat w \<in> set [asize..<old] \<and> \<not> tvisnil (t_array t ! unat w) then Some (t_array t ! unat w) else tabmap ts k
      | None \<Rightarrow> tabmap ts k)"
    using reinsert_array_ok [OF tsok pre, of f] by blast
  have m3: "tabmap t3 k = tabmap t k" for k
    using t3(7) tsmap [of k] tmap [of k] sz(1) by (auto simp: tv_opt_def old_def split: option.splits)
  have run: "shrink_array e (newkey_fuel (Suc f) e) t asize (unat (t_asize t)) =
      (if t_colo t3 \<le> 0 then
         tbind (t_realloc e t3 (of_nat old * sizeof_TValue) (of_nat asize * sizeof_TValue)) (\<lambda>t' u.
           Some (Inr (), t'\<lparr>t_array := take asize (t_array t)\<rparr>))
       else Some (Inr (), t3))"
    using t3(1) by (simp add: shrink_array_def tbind_def ts_def [symmetric] old_def [symmetric] Let_def
        del: newkey_fuel.simps of_nat_unat)
  have a3: "t_array t3 = t_array t" "unat (t_asize t3) = asize" using t3(3,4) u by (simp_all add: ts_def)
  have R: "room t \<le> room t3 + nonnil (t_array t) [asize..<unat (t_asize t)]"
    using t3(6) rm by (simp add: nonnil_def old_def)
  define t4 where "t4 x = t3\<lparr>g_total := x, t_array := take asize (t_array t)\<rparr>" for x
  have h4: "hashkey e (t4 x) = hashkey e t3" for x by (rule ext, rule hashkey_mask) (simp add: t4_def)
  have "tab_ok e (t4 x)" for x
    using t3(2) a3 A sz(1) unfolding tab_ok_def hpart_ok_def h4 by (simp add: t4_def ts_def old_def)
  moreover have "tabmap (t4 x) k = tabmap t k" for x k
    using m3 [of k] a3 by (auto simp: tabmap_def t4_def ts_def akey_def word_less_nat_alt split: option.splits)
  moreover have "room (t4 x) = room t3" "unat (t_asize (t4 x)) = asize" for x
    using a3 by (simp_all add: room_def t4_def)
  ultimately show ?thesis
  proof (cases "t_colo t3 \<le> 0")
    case True
    have "(\<exists>x. shrink_array e (newkey_fuel (Suc f) e) t asize (unat (t_asize t)) = Some (Inr (), t4 x)) \<or>
      shrink_array e (newkey_fuel (Suc f) e) t asize (unat (t_asize t)) = Some (Inl LJ_ERR_ERRMEM, t3)"
      unfolding run using True by (auto simp: t_realloc_def tbind_def t4_def)
    then show ?thesis
      using err ok R \<open>\<And>x. tab_ok e (t4 x)\<close> \<open>\<And>x k. tabmap (t4 x) k = tabmap t k\<close> \<open>\<And>x. room (t4 x) = room t3\<close>
        \<open>\<And>x. unat (t_asize (t4 x)) = asize\<close> by metis
  next
    case False
    then show ?thesis using run t3(2) a3 m3 R by (intro ok [of t3]) simp_all
  qed
qed


definition in_range :: "nat \<Rightarrow> TValue \<Rightarrow> bool" where
  "in_range a k = (case key_int k of None \<Rightarrow> False | Some w \<Rightarrow> unat w < a)"

lemma akey_in_range: "akey t k = in_range (unat (t_asize t)) k"
  by (simp add: akey_def in_range_def word_less_nat_alt split: option.split)

text \<open>The number of entries that a resize has to put into the hash part.\<close>

definition to_hash :: "GCtab \<Rightarrow> nat \<Rightarrow> nat" where
  "to_hash t asize =
     nonnil (t_array t) [asize..<unat (t_asize t)] +
     length (filter (\<lambda>n. live n \<and> \<not> in_range asize (n_key n)) (t_node t))"

definition resize_post :: "tabenv \<Rightarrow> GCtab \<Rightarrow> nat \<Rightarrow> nat \<Rightarrow> unit tres \<Rightarrow> bool" where
  "resize_post e t asize hbits res \<longleftrightarrow>
     (\<exists>er t'. res = Some (Inl er, t') \<and> er \<in> {LJ_ERR_ERRMEM, LJ_ERR_TABOV}) \<or>
     (\<exists>t'. res = Some (Inr (), t') \<and> tab_ok e t' \<and> unat (t_asize t') = asize \<and>
       (\<forall>k. tabmap t' k = tabmap t k) \<and> hcap hbits \<le> room t' + to_hash t asize)"

lemma nil_node_list: "tab_ok e t \<Longrightarrow> t_hmask t = 0 \<Longrightarrow> t_node t = [nilnode]"
  by (auto simp: tab_ok_def hpart_ok_def)

text \<open>Reinserting the old nodes completes the content.\<close>

lemma resize_finish:
  assumes ok: "tab_ok e t" and t4: "tab_ok e t4" "unat (t_asize t4) = asize"
    and m4: "\<forall>k. tabmap t4 k = (if akey t k then tabmap t k else None)"
    and r: "length (filter (\<lambda>n. live n \<and> \<not> in_range asize (n_key n)) (t_node t)) \<le> room t4"
  shows "\<exists>t'. (if 0 < t_hmask t then
       tbind (reinsert_nodes e (newkey_fuel (Suc f) e) (t_node t) t4) (\<lambda>t5 u.
         Some (Inr (), t5\<lparr>g_total := g_total t5 - (t_hmask t + 1) * sizeof_Node\<rparr>))
     else Some (Inr (), t4)) = Some (Inr (), t') \<and> tab_ok e t' \<and> unat (t_asize t') = asize \<and>
     (\<forall>k. tabmap t' k = tabmap t k) \<and>
     room t4 \<le> room t' + length (filter (\<lambda>n. live n \<and> \<not> in_range asize (n_key n)) (t_node t))"
proof -
  have ha: "hlook (t_node t) k = None" if "akey t k" for k
  proof (rule hlook_absent, intro allI notI)
    fix i assume h: "holds_key (t_node t) i k"
    then have "akey t (n_key (t_node t ! i))" using that akey_canon by (metis holds_key_def)
    then show False using ok h by (simp add: holds_key_def tab_ok_def)
  qed
  have ak: "akey t4 k = in_range asize k" for k by (simp add: akey_in_range t4(2))
  have rm: "length (filter (\<lambda>n. live n \<and> \<not> akey t4 (n_key n)) (t_node t)) \<le> room t4"
    using r by (simp add: ak)
  show ?thesis
  proof (cases "t_hmask t = 0")
    case True
    have "hlook (t_node t) k = None" for k
      unfolding nil_node_list [OF ok True] by (rule hlook_absent) (simp add: holds_key_def)
    then have "tabmap t k = (if akey t k then tabmap t k else None)" for k by (simp add: tabmap_def)
    then show ?thesis using True t4 m4 by auto
  next
    case False
    then have z: "0 < t_hmask t" by (simp add: word_neq_0_conv)
    obtain t5 where t5: "reinsert_nodes e (newkey_fuel (Suc f) e) (t_node t) t4 = Some (Inr (), t5)" "tab_ok e t5"
      "t_asize t5 = t_asize t4"
      "room t4 \<le> room t5 + length (filter (\<lambda>n. live n \<and> \<not> akey t4 (n_key n)) (t_node t))"
      "\<forall>k. tabmap t5 k = (case hlook (t_node t) k of Some v \<Rightarrow> Some v | None \<Rightarrow> tabmap t4 k)"
      using reinsert_nodes_ok [OF t4(1) keys_nodes_ok [OF tab_hash_ok(2) [OF ok]] rm, of f] by blast
    have "tabmap t5 k = tabmap t k" for k
      using t5(5) m4 ha [of k] by (cases "akey t k") (auto simp: tabmap_def split: option.split)
    then show ?thesis using z t5 t4(2) by (auto simp: tbind_def ak)
  qed
qed

lemma resizetab_ok:
  assumes ok: "tab_ok e t" and r: "to_hash t asize \<le> hcap hbits"
  shows "resize_post e t asize hbits (resizetab e (newkey_fuel (Suc f) e) t asize hbits)"
proof -
  let ?nk = "newkey_fuel (Suc f) e" and ?old = "unat (t_asize t)"
  define rest where "rest t1 = tbind (fresh_hash e t1 hbits) (\<lambda>t2 u.
     tbind (if asize < ?old then shrink_array e ?nk t2 asize ?old else Some (Inr (), t2)) (\<lambda>t4 u.
     if 0 < t_hmask t then
       tbind (reinsert_nodes e ?nk (t_node t) t4) (\<lambda>t5 u.
         Some (Inr (), t5\<lparr>g_total := g_total t5 - (t_hmask t + 1) * sizeof_Node\<rparr>))
     else Some (Inr (), t4)))" for t1
  have alt: "resizetab e ?nk t asize hbits =
      tbind (if ?old < asize then grow_array e t asize else Some (Inr (), t)) (\<lambda>t1 u. rest t1)"
    unfolding resizetab_alt rest_def ..
  have A: "?old \<le> length (t_array t)" "?old \<le> LJ_MAX_ASIZE" using ok by (auto simp: tab_ok_def)
  have rest: "resize_post e t asize hbits (rest t1)"
    if t1: "unat (t_asize t1) = max ?old asize" "unat (t_asize t1) \<le> length (t_array t1)" "unat (t_asize t1) \<le> LJ_MAX_ASIZE"
      "\<forall>i < ?old. t_array t1 ! i = t_array t ! i" "\<forall>i. ?old \<le> i \<longrightarrow> i < asize \<longrightarrow> tvisnil (t_array t1 ! i)" for t1
  proof (cases rule: fresh_hash_cases [OF t1(2,3), of e hbits])
    case (1 er)
    then show ?thesis by (auto simp: resize_post_def rest_def tbind_def)
  next
    case (2 t2)
    have m2: "tabmap t2 k = (if akey t k then tabmap t k else None)" for k
    proof (cases "key_int k")
      case None
      then show ?thesis using 2 by (simp add: tabmap_def akey_def)
    next
      case (Some w)
      then show ?thesis using 2 t1
        by (auto simp: tabmap_def akey_def word_less_nat_alt tv_opt_def)
    qed
    show ?thesis
    proof (cases "asize < ?old")
      case True
      have o: "unat (t_asize t2) = ?old" using 2 t1(1) True by simp
      have nn: "nonnil (t_array t2) [asize..<?old] = nonnil (t_array t) [asize..<?old]"
        unfolding nonnil_def using 2 t1(4) by (intro arg_cong [of _ _ length] filter_cong) auto
      have R: "nonnil (t_array t2) [asize..<unat (t_asize t2)] \<le> room t2"
        using r 2(6) nn unfolding o to_hash_def by linarith
      have o2: "asize < unat (t_asize t2)" using o True by simp
      show ?thesis
      proof (cases rule: shrink_array_ok [OF 2(2) 2(8) 2(7) o2 R, unfolded o, of f, case_names err good])
        case (err t')
        then show ?thesis using 2 True by (auto simp: resize_post_def rest_def tbind_def)
      next
        case (good t4)
        have m4: "\<forall>k. tabmap t4 k = (if akey t k then tabmap t k else None)" using good(4) m2 by simp
        have "length (filter (\<lambda>n. live n \<and> \<not> in_range asize (n_key n)) (t_node t)) \<le> room t4"
          using good(5) r 2(6) nn by (simp add: to_hash_def)
        from resize_finish [OF ok good(2,3) m4 this, of f] good(5) nn 2(6) show ?thesis
          using 2(1) True good(1) by (auto simp: resize_post_def rest_def tbind_def to_hash_def)
      qed
    next
      case False
      have a: "unat (t_asize t2) = asize" using 2 t1(1) False by simp
      have z: "nonnil (t_array t) [asize..<?old] = 0" using False by (simp add: nonnil_def)
      have "length (filter (\<lambda>n. live n \<and> \<not> in_range asize (n_key n)) (t_node t)) \<le> room t2"
        using r 2 by (simp add: to_hash_def)
      moreover have "\<forall>k. tabmap t2 k = (if akey t k then tabmap t k else None)" using m2 by simp
      ultimately show ?thesis
        using resize_finish [OF ok 2(2) a, of f] 2(1,6) False z
        by (auto simp: resize_post_def rest_def tbind_def to_hash_def)
    qed
  qed
  show ?thesis
  proof (cases "?old < asize")
    case True
    show ?thesis
    proof (cases rule: grow_array_cases [OF A(1) True, of e])
      case (1 er t')
      then show ?thesis using True unfolding alt by (auto simp: resize_post_def tbind_def)
    next
      case (2 t1)
      then show ?thesis using rest [of t1] True unfolding alt by (simp add: tbind_def)
    qed
  next
    case False
    then show ?thesis using rest [of t] A unfolding alt by (simp add: tbind_def)
  qed
qed

end
