(* ===== verification/LJ_TabRehash.thy ===== *)
theory LJ_TabRehash
  imports LJ_TabMap
begin

text \<open>
  The size calculation of a rehash (\<open>countint\<close>, \<open>countarray\<close>, \<open>counthash\<close>, \<open>bestasize\<close>): the
  bins count the live integer keys by magnitude, the chosen array part takes the keys it is
  credited with, and so the new hash part has room for all others and the key to be inserted. With
  this the insertion of a key needs two levels of the recursion between \<open>lj_tab_newkey\<close> and
  \<open>rehashtab\<close> at most.
\<close>

section \<open>Bins\<close>

text \<open>The bin of an integer key, and the number of keys of a list in a bin.\<close>

definition kbin :: "nat \<Rightarrow> nat" where
  "kbin k = (if 2 < k then lj_fls (of_nat (k - 1)) else 0)"

definition bin_count :: "nat list \<Rightarrow> nat \<Rightarrow> nat" where
  "bin_count L b = length (filter (\<lambda>k. kbin k = b) L)"

lemma bin_count_simps [simp]:
  "bin_count [] b = 0" "bin_count (k # L) b = (if kbin k = b then 1 else 0) + bin_count L b"
  "bin_count (L @ M) b = bin_count L b + bin_count M b"
  by (simp_all add: bin_count_def)

lemma kbin_word:
  assumes "2 < k" "k < 2 ^ 32"
  obtains w :: u32 where "unat w = k - 1" "w \<noteq> 0" "kbin k = lj_fls w"
proof -
  define w :: u32 where "w = of_nat (k - 1)"
  have "unat w = k - 1" using assms unfolding w_def by (intro unat_of_nat_small) simp
  moreover from this have "w \<noteq> 0" using assms by auto
  moreover have "kbin k = lj_fls w" using assms by (simp only: kbin_def w_def if_True)
  ultimately show ?thesis using that by blast
qed

lemma kbin_bounds:
  assumes "2 < k" "k < 2 ^ 32"
  shows "2 ^ kbin k < k" "k \<le> 2 * 2 ^ kbin k"
proof -
  obtain w :: u32 where w: "unat w = k - 1" "w \<noteq> 0" "kbin k = lj_fls w" by (rule kbin_word [OF assms])
  from lj_fls_bounds [OF w(2)] show "2 ^ kbin k < k" "k \<le> 2 * 2 ^ kbin k"
    using assms w by auto
qed

lemma kbin_le: "kbin k \<le> b \<Longrightarrow> k < 2 ^ 32 \<Longrightarrow> k < 2 * 2 ^ b + 1"
proof (cases "2 < k")
  case True
  assume "kbin k \<le> b" "k < 2 ^ 32"
  then have "k \<le> 2 * 2 ^ kbin k" "(2 :: nat) ^ kbin k \<le> 2 ^ b" using kbin_bounds [OF True] by auto
  then show ?thesis by linarith
next
  case False
  moreover have "1 \<le> (2 :: nat) ^ b" by simp
  ultimately show ?thesis by linarith
qed

lemma kbin_eq: "2 < k \<Longrightarrow> 2 ^ b < k \<Longrightarrow> k \<le> 2 * 2 ^ b \<Longrightarrow> k < 2 ^ 32 \<Longrightarrow> kbin k = b"
proof -
  assume a: "2 < k" "2 ^ b < k" "k \<le> 2 * 2 ^ b" "k < 2 ^ 32"
  obtain w :: u32 where w: "unat w = k - 1" "kbin k = lj_fls w" by (rule kbin_word [OF a(1,4)])
  have "lj_fls w = b" using a w(1) by (intro lj_fls_unique) simp_all
  then show ?thesis using w by simp
qed

lemma kbin_lt: "k < LJ_MAX_ASIZE \<Longrightarrow> kbin k < LJ_MAX_ABITS"
proof (cases "2 < k")
  case True
  assume k: "k < LJ_MAX_ASIZE"
  then have "k < 2 ^ 32" by (simp add: LJ_MAX_ASIZE_def LJ_MAX_ABITS_def)
  then have "(2 :: nat) ^ kbin k < 2 ^ 28" using kbin_bounds(1) [OF True] k
    by (simp add: LJ_MAX_ASIZE_def LJ_MAX_ABITS_def)
  then have "kbin k < 28" by (rule power_less_imp_less_exp [rotated]) simp
  then show ?thesis by (simp add: LJ_MAX_ABITS_def)
qed (simp add: kbin_def LJ_MAX_ABITS_def)

text \<open>\<open>bins\<close> records the keys of \<open>L\<close>.\<close>

definition bins_for :: "nat list \<Rightarrow> nat list \<Rightarrow> bool" where
  "bins_for bins L \<longleftrightarrow> length bins = LJ_MAX_ABITS \<and> (\<forall>b < LJ_MAX_ABITS. bins ! b = bin_count L b) \<and>
     (\<forall>k \<in> set L. k < LJ_MAX_ASIZE)"

section \<open>Counting keys\<close>

definition int_keys :: "TValue \<Rightarrow> nat list" where
  "int_keys k = (case key_int k of Some w \<Rightarrow> if unat w < LJ_MAX_ASIZE then [unat w] else [] | None \<Rightarrow> [])"

lemma countint_bin_alt: "countint_bin k = (case int_keys k of [] \<Rightarrow> None | w # ws \<Rightarrow> Some (kbin w))"
proof (cases "key_int k")
  case None
  then show ?thesis by (auto simp: countint_bin_def int_keys_def key_int_def Let_def split: if_splits)
next
  case (Some w)
  then have w: "tvisnum k" "w = lj_num2int k" "num_eq k (num_of_int (sint w))"
    by (auto simp: key_int_def split: if_splits)
  show ?thesis
  proof (cases "unat w < LJ_MAX_ASIZE")
    case True
    then have lt: "unat w < 2 ^ 31" by (simp add: LJ_MAX_ASIZE_def LJ_MAX_ABITS_def)
    have s: "2 < sint w \<longleftrightarrow> 2 < unat w" using sint32_nat [OF lt] by (simp del: of_nat_unat)
    have "(w - 1) = of_nat (unat w - 1)" if "2 < unat w" using that by (simp add: of_nat_diff)
    then show ?thesis using w True Some s
      by (auto simp: countint_bin_def int_keys_def Let_def kbin_def)
  next
    case False
    then show ?thesis using w Some by (auto simp: countint_bin_def int_keys_def Let_def)
  qed
qed

lemma int_keys_len: "length (int_keys k) \<le> 1" "w \<in> set (int_keys k) \<Longrightarrow> w < LJ_MAX_ASIZE"
  by (auto simp: int_keys_def split: option.splits if_splits)

lemma countint_bins:
  fixes k :: TValue
  assumes "bins_for bins L" "countint k bins = (c, bins')"
  shows "c = length (int_keys k) \<and> bins_for bins' (L @ int_keys k)"
proof (cases "int_keys k")
  case Nil
  then show ?thesis using assms by (simp add: countint_def countint_bin_alt)
next
  case (Cons w ws)
  then have ws: "ws = []" and w: "w < LJ_MAX_ASIZE" using int_keys_len(1) [of k] int_keys_len(2) [of w k] by auto
  have "kbin w < LJ_MAX_ABITS" by (rule kbin_lt [OF w])
  then show ?thesis using assms Cons ws w
    by (auto simp: countint_def countint_bin_alt bins_for_def nth_list_update)
qed

lemma counthash_bins:
  assumes "bins_for bins L" "counthash_loop ns bins tot na = (tot', na', bins')"
  shows "tot' = tot + length (filter live ns) \<and>
    na' = na + length (concat (map (\<lambda>n. int_keys (n_key n)) (filter live ns))) \<and>
    bins_for bins' (L @ concat (map (\<lambda>n. int_keys (n_key n)) (filter live ns)))"
  using assms
proof (induction ns arbitrary: L bins tot na)
  case (Cons n ns)
  show ?case
  proof (cases "live n")
    case True
    obtain c b1 where c: "countint (n_key n) bins = (c, b1)" by fastforce
    note C = countint_bins [OF Cons.prems(1) c]
    have "counthash_loop ns b1 (tot + 1) (na + c) = (tot', na', bins')"
      using Cons.prems(2) True c by (simp add: live_def)
    from Cons.IH [OF conjunct2 [OF C] this] C True show ?thesis by simp
  next
    case False
    then show ?thesis using Cons by (simp add: live_def)
  qed
qed simp

definition lives :: "GCtab \<Rightarrow> nat list \<Rightarrow> nat list" where
  "lives t is = filter (\<lambda>j. \<not> tvisnil (t_array t ! j)) is"

lemma countarray_bins:
  assumes "bins_for bins L" "0 < unat (t_asize t) \<and> unat (t_asize t) \<le> LJ_MAX_ASIZE" "i \<le> unat (t_asize t)"
    and "i = (if b = 0 then 0 else 2 ^ b + 1) \<or> i = unat (t_asize t) \<and> unat (t_asize t) \<le> 2 * 2 ^ b"
    and "countarray_loop t bins b i na = (na', bins')"
  shows "na' = na + length (lives t [i..<unat (t_asize t)]) \<and> bins_for bins' (L @ lives t [i..<unat (t_asize t)])"
  using assms
proof (induction "LJ_MAX_ABITS - b" arbitrary: b bins i na L rule: less_induct)
  case (less b bins i na L)
  let ?a = "unat (t_asize t)"
  have amax: "?a \<le> 2 ^ 27 + 1" using less.prems(2) by (simp add: LJ_MAX_ASIZE_def LJ_MAX_ABITS_def)
  show ?case
  proof (cases "b < LJ_MAX_ABITS")
    case False
    then have "(2 :: nat) ^ 28 \<le> 2 ^ b" by (intro power_increasing) (simp_all add: LJ_MAX_ABITS_def)
    then have "i = ?a" using less.prems(3,4) amax by (auto split: if_splits)
    then show ?thesis using less.prems False
      by (subst (asm) countarray_loop.simps) (simp add: lives_def)
  next
    case b: True
    define clip where "clip \<longleftrightarrow> ?a \<le> 2 * 2 ^ b"
    define top where "top = (if clip then ?a - 1 else 2 * 2 ^ b)"
    have unf: "countarray_loop t bins b i na = (if clip \<and> top < i then (na, bins)
        else countarray_loop t (bins[b := bins ! b + length (lives t [i..<Suc top])]) (b + 1) (max i (Suc top))
          (na + length (lives t [i..<Suc top])))"
      using b by (subst countarray_loop.simps) (simp add: clip_def top_def Let_def lives_def del: upt_Suc)
    have two: "1 \<le> (2 :: nat) ^ b" by simp
    show ?thesis
    proof (cases "clip \<and> top < i")
      case True
      then have "i = ?a" using less.prems(3) by (auto simp: top_def)
      then show ?thesis using less.prems True unfolding unf by (simp add: lives_def)
    next
      case False
      have it: "i \<le> top"
      proof (cases clip)
        case False
        then have "i = (if b = 0 then 0 else 2 ^ b + 1)" using less.prems(4) by (auto simp: clip_def)
        then show ?thesis using False two by (auto simp: top_def)
      qed (use False in simp)
      have ta: "Suc top \<le> ?a" using it less.prems(2,3) False by (auto simp: top_def clip_def)
      have kb: "kbin j = b" if "i \<le> j" "j \<le> top" for j
      proof (cases "b = 0")
        case True
        then have "j \<le> 2" using that ta by (auto simp: top_def clip_def split: if_splits)
        then show ?thesis using True by (simp add: kbin_def)
      next
        case nz: False
        have "i \<noteq> ?a" using it ta by simp
        then have "2 ^ b < j" using less.prems(4) nz that by auto
        moreover have "j \<le> 2 * 2 ^ b" using that by (auto simp: top_def clip_def split: if_splits)
        moreover have "2 < j"
        proof -
          have "2 \<le> (2 :: nat) ^ b" using nz by (cases b) auto
          then show ?thesis using \<open>2 ^ b < j\<close> by linarith
        qed
        ultimately show ?thesis using that ta amax by (intro kbin_eq) simp_all
      qed
      define seg where "seg = lives t [i..<Suc top]"
      have seg: "kbin j = b" "j < LJ_MAX_ASIZE" if "j \<in> set seg" for j
        using that kb [of j] ta less.prems(2) by (auto simp: seg_def lives_def)
      have cnt: "bin_count seg c = (if c = b then length seg else 0)" for c
        using seg(1) by (induction seg) (auto simp: bin_count_def)
      have B: "bins_for (bins[b := bins ! b + length seg]) (L @ seg)"
        using less.prems(1) b seg(2) cnt by (auto simp: bins_for_def nth_list_update)
      have nx: "max i (Suc top) = (if b + 1 = 0 then 0 else 2 ^ (b + 1) + 1) \<or>
          max i (Suc top) = ?a \<and> ?a \<le> 2 * 2 ^ (b + 1)"
        using it ta two by (cases clip) (auto simp: top_def clip_def)
      have rec: "countarray_loop t (bins[b := bins ! b + length seg]) (b + 1) (max i (Suc top)) (na + length seg) = (na', bins')"
        using less.prems(5) False unfolding unf seg_def by simp
      have "na' = na + length seg + length (lives t [max i (Suc top)..<?a]) \<and>
          bins_for bins' ((L @ seg) @ lives t [max i (Suc top)..<?a])"
        using b it ta by (intro less.hyps [OF _ B less.prems(2) _ nx rec]) auto
      moreover have "lives t [i..<?a] = seg @ lives t [max i (Suc top)..<?a]"
        using upt_split [of i "Suc top" ?a] it ta by (simp add: seg_def lives_def max_def del: upt_Suc)
      ultimately show ?thesis by simp
    qed
  qed
qed


section \<open>Choosing the array size\<close>

definition upto :: "nat list \<Rightarrow> nat \<Rightarrow> nat" where
  "upto L b = length (filter (\<lambda>k. kbin k < b) L)"

lemma upto_Suc: "upto L (Suc b) = upto L b + bin_count L b"
  by (induction L) (auto simp: upto_def bin_count_def)

lemma upto_all: "\<forall>k \<in> set L. k < LJ_MAX_ASIZE \<Longrightarrow> LJ_MAX_ABITS \<le> b \<Longrightarrow> upto L b = length L"
  using kbin_lt by (force simp: upto_def intro!: arg_cong [of _ _ length] filter_True)

text \<open>The loop ends within the bins; what it credits to the array part are exactly the keys of
  the bins below the chosen size.\<close>

lemma bestasize_in_bounds:
  assumes "bins_for bins L"
    and "sm = upto L b" "na0 = 0 \<and> sz0 = 0 \<or> (\<exists>b'. na0 = upto L (Suc b') \<and> sz0 = 2 * 2 ^ b' + 1)"
  shows "\<exists>na sz. bestasize_loop bins (length L) b sm na0 sz0 = Some (na, sz) \<and>
    (na = 0 \<and> sz = 0 \<or> (\<exists>b'. na = upto L (Suc b') \<and> sz = 2 * 2 ^ b' + 1))"
  using assms(2,3)
proof (induction "LJ_MAX_ABITS - b" arbitrary: b sm na0 sz0 rule: less_induct)
  case less
  have B: "length bins = LJ_MAX_ABITS" "\<forall>c < LJ_MAX_ABITS. bins ! c = bin_count L c" "\<forall>k \<in> set L. k < LJ_MAX_ASIZE"
    using assms(1) by (auto simp: bins_for_def)
  show ?case
  proof (cases "2 ^ b < 2 * length L \<and> sm \<noteq> length L")
    case False
    then show ?thesis using less.prems by (subst bestasize_loop.simps) auto
  next
    case True
    then have b: "b < LJ_MAX_ABITS" using upto_all [OF B(3)] less.prems(1) by (meson not_le)
    then have nb: "bins ! b = bin_count L b" using B(2) by simp
    have s1: "upto L b + bin_count L b = upto L (Suc b)" by (simp add: upto_Suc)
    have step: "\<exists>na sz. bestasize_loop bins (length L) (Suc b) (upto L (Suc b)) n0 s0 = Some (na, sz) \<and>
        (na = 0 \<and> sz = 0 \<or> (\<exists>b'. na = upto L (Suc b') \<and> sz = 2 * 2 ^ b' + 1))"
      if "n0 = 0 \<and> s0 = 0 \<or> (\<exists>b'. n0 = upto L (Suc b') \<and> s0 = 2 * 2 ^ b' + 1)" for n0 s0
      using b by (intro less.hyps [OF _ refl that]) simp
    show ?thesis
    proof (cases "0 < bins ! b")
      case False
      then have "upto L b = upto L (Suc b)" using nb s1 by simp
      then show ?thesis using step [OF less.prems(2)] True False b B(1) less.prems(1)
        by (subst bestasize_loop.simps) simp
    next
      case pos: True
      show ?thesis
      proof (cases "2 ^ b < 2 * upto L (Suc b)")
        case big: True
        have "\<exists>b'. upto L (Suc b) = upto L (Suc b') \<and> 2 * 2 ^ b + 1 = 2 * (2 :: nat) ^ b' + 1" by blast
        with step [of "upto L (Suc b)" "2 * 2 ^ b + 1"] show ?thesis
          using True pos big b B(1) less.prems(1) s1 nb
          by (subst bestasize_loop.simps) (simp add: Let_def)
      next
        case small: False
        then show ?thesis
          using step [OF less.prems(2)] True pos b B(1) less.prems(1) s1 nb
          by (subst bestasize_loop.simps) (simp add: Let_def)
      qed
    qed
  qed
qed

section \<open>Rehashing\<close>

lemma hcap_bits: "s < 2 ^ 32 \<Longrightarrow> s \<le> hcap (hsize2hbits s)"
proof (cases "s \<le> 1")
  case True
  then show ?thesis by (cases s) (auto simp: hcap_def hsize2hbits_def)
next
  case False
  assume s: "s < 2 ^ 32"
  define w :: u32 where "w = of_nat (s - 1)"
  have w: "unat w = s - 1" using s unfolding w_def by (intro unat_of_nat_small) simp
  then have "w \<noteq> 0" using False by auto
  from lj_fls_bounds(2) [OF this] have "s \<le> 2 ^ (1 + lj_fls w)" using w by simp
  moreover have "hsize2hbits s = 1 + lj_fls w" using False by (simp only: hsize2hbits_def w_def) simp
  ultimately show ?thesis by (simp add: hcap_def)
qed

lemma in_range_int_keys:
  "in_range sz k \<or> filter (\<lambda>w. w < sz) (int_keys k) = []"
  by (auto simp: in_range_def int_keys_def split: option.split)

lemma below_int_keys: "length (filter (\<lambda>w. w < sz) (int_keys k)) \<le> (if in_range sz k then 1 else 0)"
  using in_range_int_keys [of sz k] int_keys_len(1) [of k] by (auto intro: order_trans [OF length_filter_le])

lemma below_nodes:
  "length (filter (\<lambda>w. w < sz) (concat (map (\<lambda>n. int_keys (n_key n)) (filter live ns)))) +
     length (filter (\<lambda>n. live n \<and> \<not> in_range sz (n_key n)) ns) \<le> length (filter live ns)"
proof (induction ns)
  case (Cons n ns)
  then show ?case using below_int_keys [of sz "n_key n"] by (auto split: if_splits)
qed simp

lemma below_lives:
  "length (filter (\<lambda>w. w < sz) (lives t [0..<a])) + nonnil (t_array t) [sz..<a] \<le> length (lives t [0..<a])"
proof (cases "sz \<le> a")
  case True
  then have "[0..<a] = [0..<sz] @ [sz..<a]" using upt_split [of 0 sz a] by simp
  then have "lives t [0..<a] = lives t [0..<sz] @ lives t [sz..<a]" by (simp add: lives_def)
  moreover have "filter (\<lambda>w. w < sz) (lives t [sz..<a]) = []" by (auto simp: lives_def filter_empty_conv)
  moreover have "nonnil (t_array t) [sz..<a] = length (lives t [sz..<a])" by (simp add: nonnil_def lives_def)
  moreover have "length (filter (\<lambda>w. w < sz) (lives t [0..<sz])) \<le> length (lives t [0..<sz])" by (rule length_filter_le)
  ultimately show ?thesis by simp
qed (simp add: nonnil_def)

text \<open>A rehash for key \<open>ek\<close> makes room for it, or fails for want of memory or size.\<close>

lemma rehashtab_ok:
  assumes ok: "tab_ok e t"
  shows "\<exists>asize hbits. resize_post e t asize hbits (rehashtab e (newkey_fuel (Suc f) e) t ek) \<and>
    to_hash t asize + (if in_range asize ek then 0 else 1) \<le> hcap hbits"
proof -
  let ?a = "unat (t_asize t)"
  have a: "?a \<le> LJ_MAX_ASIZE" "?a \<le> length (t_array t)" using ok by (auto simp: tab_ok_def)
  have b0: "bins_for (replicate LJ_MAX_ABITS 0) []" by (simp add: bins_for_def)
  obtain na bins1 where c1: "countarray t (replicate LJ_MAX_ABITS 0) = (na, bins1)" by fastforce
  define A where "A = lives t [0..<?a]"
  have A: "na = length A" "bins_for bins1 A"
  proof -
    have "na = length A \<and> bins_for bins1 A"
    proof (cases "t_asize t = 0")
      case True
      then show ?thesis using c1 b0 by (simp add: countarray_def A_def lives_def)
    next
      case False
      then have "0 < ?a" by (simp add: unat_gt_0)
      then show ?thesis
        using countarray_bins [OF b0, of t 0 0 0 na bins1] a(1) c1 False
        by (simp add: countarray_def A_def)
    qed
    then show "na = length A" "bins_for bins1 A" by auto
  qed
  define H where "H = concat (map (\<lambda>n. int_keys (n_key n)) (filter live (t_node t)))"
  obtain ht ha bins2 where c2: "counthash_loop (t_node t) bins1 0 0 = (ht, ha, bins2)" by (metis prod.exhaust)
  have C2: "ht = length (filter live (t_node t))" "ha = length H" "bins_for bins2 (A @ H)"
    using counthash_bins [OF A(2) c2] by (auto simp: H_def)
  obtain c bins3 where c3: "countint ek bins2 = (c, bins3)" by fastforce
  define L where "L = A @ H @ int_keys ek"
  have C3: "c = length (int_keys ek)" "bins_for bins3 L"
    using countint_bins [OF C2(3) c3] by (auto simp: L_def)
  have nn: "na + ha + c = length L" using A C2 C3 by (simp add: L_def)
  obtain n1 sz where best: "bestasize bins3 (length L) = Some (n1, sz)"
    "n1 = 0 \<and> sz = 0 \<or> (\<exists>b'. n1 = upto L (Suc b') \<and> sz = 2 * 2 ^ b' + 1)"
    using bestasize_in_bounds [OF C3(2), of 0 0 0 0] by (auto simp: bestasize_def upto_def)
  define hb where "hb = hsize2hbits (1 + na + ht - n1)"
  have run: "rehashtab e (newkey_fuel (Suc f) e) t ek = resizetab e (newkey_fuel (Suc f) e) t sz hb"
    using c1 c2 c3 best(1) nn
    by (simp add: rehashtab_def counthash_def hb_def Let_def del: newkey_fuel.simps)
  have lt: "k < 2 ^ 32" if "k \<in> set L" for k
    using C3(2) that by (force simp: bins_for_def LJ_MAX_ASIZE_def LJ_MAX_ABITS_def)
  have n1: "n1 \<le> length (filter (\<lambda>w. w < sz) L)"
  proof (cases "n1 = 0")
    case False
    with best(2) obtain b' where b': "n1 = upto L (Suc b')" "sz = 2 * 2 ^ b' + 1" by auto
    have "length (filter (\<lambda>k. kbin k < Suc b') L) \<le> length (filter (\<lambda>w. w < sz) L)"
      using lt unfolding b'(2)
    proof (induction L)
      case (Cons k L)
      then show ?case using kbin_le [of k b'] by (auto simp: less_Suc_eq_le)
    qed simp
    then show ?thesis by (simp add: b'(1) upto_def)
  qed simp
  have split: "length (filter (\<lambda>w. w < sz) L) + to_hash t sz + (if in_range sz ek then 0 else 1) \<le> 1 + na + ht"
    using below_lives [of sz t ?a] below_nodes [of sz "t_node t"] below_int_keys [of sz ek] A(1) C2(1)
    by (auto simp: L_def A_def H_def to_hash_def)
  have "na \<le> ?a" using length_filter_le [of "\<lambda>j. \<not> tvisnil (t_array t ! j)" "[0..<?a]"] by (simp add: A(1) A_def lives_def)
  moreover have "ht \<le> 2 ^ 26"
  proof -
    have "length (t_node t) \<le> 2 ^ 26"
    proof -
      consider "t_node t = [nilnode]" | k where "length (t_node t) = 2 ^ k" "k \<le> 26"
        using ok by (auto simp: tab_ok_def hpart_ok_def LJ_MAX_HBITS_def)
      then show ?thesis by cases (use power_increasing [of _ 26 "2 :: nat"] in auto)
    qed
    then show ?thesis using length_filter_le [of live "t_node t"] C2(1) by linarith
  qed
  ultimately have "1 + na + ht - n1 < 2 ^ 32" using a(1) by (simp add: LJ_MAX_ASIZE_def LJ_MAX_ABITS_def)
  from hcap_bits [OF this] have cap: "to_hash t sz + (if in_range sz ek then 0 else 1) \<le> hcap hb"
    using n1 split unfolding hb_def by linarith
  then have "to_hash t sz \<le> hcap hb" by linarith
  from resizetab_ok [OF ok this, of f] cap show ?thesis unfolding run by blast
qed

end
