(* ===== verification/LJ_TabProps.thy ===== *)
theory LJ_TabProps
  imports LJ_TabRehash
begin

text \<open>
  The correctness properties of tables: the raw access operations refine a finite map, in any
  sequence and across rehashes; creation, duplication and resizing; traversal; and the border that
  the length operator returns.
\<close>

section \<open>Setting a key\<close>

definition set_post :: "tabenv \<Rightarrow> GCtab \<Rightarrow> TValue \<Rightarrow> slot tres \<Rightarrow> bool" where
  "set_post e t k res \<longleftrightarrow>
     (\<exists>er t'. res = Some (Inl er, t') \<and> er \<in> {LJ_ERR_ERRMEM, LJ_ERR_TABOV}) \<or>
     (\<exists>s t'. res = Some (Inr s, t') \<and> tab_ok e t' \<and> slot_for t' k s \<and> (\<forall>k'. tabmap t' k' = tabmap t k'))"

lemma made_set_post: "res = Some (Inr s, t') \<Longrightarrow> made_slot e t k s t' \<Longrightarrow> set_post e t k res"
  by (auto simp: made_slot_def set_post_def)

text \<open>Two levels of insertion serve every key, rehash or not.\<close>

lemma newkey_any:
  assumes ok: "tab_ok e t" and k: "key_ok k" "\<not> akey t k" "\<forall>j. \<not> holds_key (t_node t) j k"
  shows "set_post e t k (newkey_fuel (Suc (Suc f)) e t k)"
proof (cases "0 < room t")
  case True
  then show ?thesis using newkey_made_slot [OF ok k(1,3,2) True, of "Suc f"] made_set_post by blast
next
  case nr: False
  let ?rh = "rehashtab e (newkey_fuel (Suc f) e)" and ?set = "lj_tab_set e (newkey_fuel (Suc f) e)"
  define n where "n = hashkey e t k"
  show ?thesis
  proof (cases "t_hmask t \<noteq> 0 \<and> tvisnil (n_val (t_node t ! n))")
    case True
    then have "hpart_ok e t" using ok by (auto simp: tab_ok_def)
    from newkey_main [OF this k(1,3), of ?rh ?set] True
    obtain t' where "newkey_fuel (Suc (Suc f)) e t k = Some (Inr (SHash n), t')" "placed e t k n t'"
      by (auto simp: n_def simp del: newkey_fuel.simps(2) simp add: newkey_fuel.simps(2) [of "Suc f"])
    then show ?thesis using placed_made_slot [OF ok _ k(2)] True made_set_post by blast
  next
    case False
    have none: "find_free (t_node t) (t_freetop t) = None"
    proof (cases "t_hmask t = 0")
      case True
      then show ?thesis using ok by (auto simp: tab_ok_def hpart_ok_def)
    next
      case hm: False
      then have hp: "hpart_ok e t" using ok by (auto simp: tab_ok_def)
      have "length (t_node t) \<le> nused (t_node t)" using nr hm by (simp add: room_def)
      moreover have "{i. used (t_node t) i} \<subseteq> {..<length (t_node t)}" by (auto simp: used_def)
      ultimately have "{i. used (t_node t) i} = {..<length (t_node t)}"
        by (intro card_subset_eq) (auto simp: nused_def intro!: antisym card_mono dest: card_mono [rotated])
      then show ?thesis
        using find_free_ok(1,2) [OF hp] by (cases "find_free (t_node t) (t_freetop t)") auto
    qed
    have run: "newkey_fuel (Suc (Suc f)) e t k = tbind (?rh t k) (\<lambda>t u. ?set t k)"
    proof -
      have c: "(\<not> tvisnil (n_val (t_node t ! n)) \<or> t_hmask t = 0) = True" using False by auto
      show ?thesis
        unfolding newkey_fuel.simps(2) [of "Suc f"] newkey_body_def Let_def n_def [symmetric] c if_True
        by (simp add: none del: newkey_fuel.simps)
    qed
    obtain asize hbits where rp: "resize_post e t asize hbits (?rh t k)"
      "to_hash t asize + (if in_range asize k then 0 else 1) \<le> hcap hbits"
      using rehashtab_ok [OF ok] by blast
    from rp(1) consider (err) er t' where "?rh t k = Some (Inl er, t')" "er \<in> {LJ_ERR_ERRMEM, LJ_ERR_TABOV}"
      | (ok) t' where "?rh t k = Some (Inr (), t')" "tab_ok e t'" "unat (t_asize t') = asize"
          "\<forall>k'. tabmap t' k' = tabmap t k'" "hcap hbits \<le> room t' + to_hash t asize"
      unfolding resize_post_def by blast
    then show ?thesis
    proof cases
      case err
      then show ?thesis unfolding run by (auto simp: tbind_def set_post_def)
    next
      case ok
      have "akey t' k \<or> 0 < room t'" using rp(2) ok(3,5) by (auto simp: akey_in_range split: if_splits)
      from set_room [OF ok(2) k(1) this, of f] show ?thesis
        using ok unfolding run by (auto simp: tbind_def set_post_def made_slot_def simp del: newkey_fuel.simps)
    qed
  qed
qed

lemma set_any:
  assumes ok: "tab_ok e t" and k: "key_ok k"
  shows "set_post e t k (lj_tab_set e (lj_tab_newkey e) t k)"
proof -
  let ?t = "t\<lparr>t_nomm := 0\<rparr>"
  have nk: "lj_tab_newkey e = newkey_fuel (Suc (Suc 0)) e" by (simp add: lj_tab_newkey_def numeral_2_eq_2)
  have sp: "set_post e ?t (ins_key k) r \<Longrightarrow> set_post e t k r" for r
    using slot_for_canon [OF ins_key_canon [of k]] by (auto simp: set_post_def)
  have "tab_ok e ?t" using ok by simp
  with set_res_set [OF ok k, of "lj_tab_newkey e"] newkey_any [OF _ key_ok_ins_key [OF k], of e ?t 0]
  show ?thesis unfolding set_res_def nk by (metis made_set_post sp)
qed

lemma barrier_simps [simp]:
  "tab_ok e (lj_gc_anybarriert t) = tab_ok e t" "tabmap (lj_gc_anybarriert t) = tabmap t"
proof -
  have h: "hashkey e (lj_gc_anybarriert t) = hashkey e t" 
    by (rule ext, rule hashkey_mask) (simp add: lj_gc_anybarriert_def)
  show "tab_ok e (lj_gc_anybarriert t) = tab_ok e t"
    unfolding tab_ok_def hpart_ok_def h by (simp add: lj_gc_anybarriert_def)
qed (simp add: lj_gc_anybarriert_def tabmap_def fun_eq_iff)

lemma rawset_any:
  assumes ok: "tab_ok e t" and k: "key_ok k"
  shows "(\<exists>er t'. lua_rawset e t k v = Some (Inl er, t') \<and> er \<in> {LJ_ERR_ERRMEM, LJ_ERR_TABOV}) \<or>
    (\<exists>t'. lua_rawset e t k v = Some (Inr (), t') \<and> tab_ok e t' \<and>
      (\<forall>k'. tabmap t' k' = (if tv_canon k' = tv_canon k then tv_opt v else tabmap t k')))"
  using set_any [OF ok k] slot_set_refine(1,2) [of e _ k]
  by (auto simp: set_post_def lua_rawset_def tbind_def)

lemma rawget_any:
  assumes "tab_ok e t" "key_ok k"
  shows "\<exists>v. lua_rawget e t k = Some v \<and> tv_opt v = tabmap t k"
  using tab_get_refine [OF assms] by (auto simp: lua_rawget_def)

section \<open>Histories of raw accesses\<close>

text \<open>
  The contract of a store of values under keys: a write makes its value the one that every equal
  key reads, and leaves all other keys alone. A write may fail, and then the history ends.
\<close>

locale map_store =
  fixes inv :: "'s \<Rightarrow> bool" and keyok :: "'k \<Rightarrow> bool" and canon :: "'k \<Rightarrow> 'c" and vis :: "'v \<Rightarrow> 'v option"
    and put :: "'s \<Rightarrow> 'k \<Rightarrow> 'v \<Rightarrow> 's option" and look :: "'s \<Rightarrow> 'k \<Rightarrow> 'v option"
  assumes put_inv: "inv s \<Longrightarrow> keyok k \<Longrightarrow> put s k v = Some s' \<Longrightarrow> inv s'"
    and put_look: "inv s \<Longrightarrow> keyok k \<Longrightarrow> put s k v = Some s' \<Longrightarrow> keyok k' \<Longrightarrow>
      look s' k' = (if canon k' = canon k then vis v else look s k')"
begin

fun puts :: "'s \<Rightarrow> ('k \<times> 'v) list \<Rightarrow> 's option" where
  "puts s [] = Some s"
| "puts s ((k, v) # ws) = (case put s k v of None \<Rightarrow> None | Some s' \<Rightarrow> puts s' ws)"

definition last_write :: "('k \<times> 'v) list \<Rightarrow> 'k \<Rightarrow> 'v option \<Rightarrow> 'v option" where
  "last_write ws k d = foldl (\<lambda>r (k', v). if canon k = canon k' then vis v else r) d ws"

lemma puts_look:
  assumes "inv s" "\<forall>(k, v) \<in> set ws. keyok k" "puts s ws = Some s'"
  shows "inv s' \<and> (\<forall>k. keyok k \<longrightarrow> look s' k = last_write ws k (look s k))"
  using assms
proof (induction s ws rule: puts.induct)
  case (2 s k v ws)
  then obtain s1 where s1: "put s k v = Some s1" "puts s1 ws = Some s'" by (auto split: option.splits)
  have k: "keyok k" using 2 by simp
  have "inv s1" using put_inv [OF 2(2) k s1(1)] .
  with 2 s1 put_look [OF 2(2) k s1(1)] show ?case by (simp add: last_write_def)
qed (simp add: last_write_def)

lemma puts_permute:
  assumes "inv s" "\<forall>(k, v) \<in> set (ws @ [w, w']). keyok k" "canon (fst w) \<noteq> canon (fst w')"
    "puts s (ws @ [w, w']) = Some s'" "puts s (ws @ [w', w]) = Some s''" "keyok k"
  shows "look s' k = look s'' k"
proof -
  have "look s' k = last_write (ws @ [w, w']) k (look s k)" using puts_look [OF assms(1,2,4)] assms(6) by blast
  moreover have "\<forall>(k, v) \<in> set (ws @ [w', w]). keyok k" using assms(2) by auto
  then have "look s'' k = last_write (ws @ [w', w]) k (look s k)" using puts_look [OF assms(1) _ assms(5)] assms(6) by blast
  ultimately show ?thesis using assms(3) by (auto simp: last_write_def split: prod.splits)
qed

end

text \<open>The table store: the state is a table, a write that raises an error has no result.\<close>

definition rawset_opt :: "tabenv \<Rightarrow> GCtab \<Rightarrow> TValue \<Rightarrow> TValue \<Rightarrow> GCtab option" where
  "rawset_opt e t k v = (case lua_rawset e t k v of Some (Inr u, t') \<Rightarrow> Some t' | _ \<Rightarrow> None)"

definition rawget_opt :: "tabenv \<Rightarrow> GCtab \<Rightarrow> TValue \<Rightarrow> TValue option" where
  "rawget_opt e t k = Option.bind (lua_rawget e t k) tv_opt"

lemma rawget_opt_map: "tab_ok e t \<Longrightarrow> key_ok k \<Longrightarrow> rawget_opt e t k = tabmap t k"
  using rawget_any [of e t k] by (auto simp: rawget_opt_def)

lemma rawset_opt_cases:
  assumes "tab_ok e t" "key_ok k" "rawset_opt e t k v = Some t'"
  shows "tab_ok e t' \<and> (\<forall>k'. tabmap t' k' = (if tv_canon k' = tv_canon k then tv_opt v else tabmap t k'))"
  using rawset_any [OF assms(1,2), of v] assms(3) by (auto simp: rawset_opt_def)

interpretation tabstore: map_store "tab_ok e" key_ok tv_canon tv_opt "rawset_opt e" "rawget_opt e" for e
proof
  fix s k v s' assume a: "tab_ok e s" "key_ok k" "rawset_opt e s k v = Some s'"
  from rawset_opt_cases [OF this] show "tab_ok e s'" by simp
  fix k' assume "key_ok k'"
  then show "rawget_opt e s' k' = (if tv_canon k' = tv_canon k then tv_opt v else rawget_opt e s k')"
    using rawset_opt_cases [OF a] a by (simp add: rawget_opt_map)
qed

fun raw_writes :: "tabenv \<Rightarrow> GCtab \<Rightarrow> (TValue \<times> TValue) list \<Rightarrow> unit tres" where
  "raw_writes e t [] = Some (Inr (), t)"
| "raw_writes e t ((k, v) # ws) = tbind (lua_rawset e t k v) (\<lambda>t u. raw_writes e t ws)"

definition last_raw_write :: "(TValue \<times> TValue) list \<Rightarrow> TValue \<Rightarrow> TValue option" where
  "last_raw_write ws k = foldl (\<lambda>r (k', v). if tv_canon k = tv_canon k' then tv_opt v else r) None ws"

lemma raw_writes_puts:
  assumes "tab_ok e t" "\<forall>(k, v) \<in> set ws. key_ok k"
  shows "(\<exists>er t'. raw_writes e t ws = Some (Inl er, t') \<and> er \<in> {LJ_ERR_ERRMEM, LJ_ERR_TABOV}) \<or>
    (\<exists>t'. raw_writes e t ws = Some (Inr (), t') \<and> tabstore.puts e t ws = Some t')"
  using assms
proof (induction ws arbitrary: t)
  case (Cons w ws)
  obtain k v where w: "w = (k, v)" by (cases w)
  with Cons.prems have k: "key_ok k" "\<forall>(k, v) \<in> set ws. key_ok k" by auto
  from rawset_any [OF Cons.prems(1) k(1), of v] show ?case
  proof (elim disjE exE conjE)
    fix t' assume t': "lua_rawset e t k v = Some (Inr (), t')" "tab_ok e t'"
    then have "rawset_opt e t k v = Some t'" by (simp add: rawset_opt_def)
    then show ?case using Cons.IH [OF t'(2) k(2)] t'(1) by (auto simp: w tbind_def)
  qed (auto simp: w tbind_def)
qed simp

section \<open>Creation\<close>

lemma foldl_array: "n \<le> length a \<Longrightarrow> foldl (\<lambda>a i. a[i := f i (a ! i)]) a [0..<n] = map2 f [0..<n] a @ drop n a"
proof (induction n)
  case (Suc n)
  then have n: "n < length a" "map2 f [0..<n] a @ drop n a = map2 f [0..<n] (take n a) @ a ! n # drop (Suc n) a"
    by (auto simp: Cons_nth_drop_Suc zip_append1 intro!: nth_equalityI)
  have "foldl (\<lambda>a i. a[i := f i (a ! i)]) a [0..<Suc n] = (map2 f [0..<n] a @ drop n a)[n := f n ((map2 f [0..<n] a @ drop n a) ! n)]"
    using Suc by simp
  also have "\<dots> = map2 f [0..<Suc n] a @ drop (Suc n) a"
    using n(1) by (auto simp: nth_list_update nth_append less_Suc_eq intro!: nth_equalityI)
  finally show ?case .
qed simp

lemma foldl_array_nth:
  assumes "n \<le> length a" "i < n"
  shows "foldl (\<lambda>a i. a[i := f i (a ! i)]) a [0..<n] ! i = f i (a ! i)"
  using assms by (simp add: foldl_array nth_append)

lemma foldl_array_len: "length (foldl (\<lambda>a i. a[i := f i (a ! i)]) a is) = length a"
  by (induction "is" rule: rev_induct) auto

text \<open>The allocation step: the table has the requested parts, or an error is raised.\<close>

lemma newtab_cases:
  obtains (err) er t where "newtab e tot asize hbits = Some (Inl er, t)" "er \<in> {LJ_ERR_ERRMEM, LJ_ERR_TABOV}"
  | (nohash) t where "newtab e tot asize hbits = Some (Inr (), t)" "hbits = 0" "t_asize t = asize"
      "length (t_array t) = unat asize" "unat asize \<le> LJ_MAX_ASIZE" "t_hmask t = 0" "t_node t = [nilnode]" "t_freetop t = 0"
  | (hash) t where "newtab e tot asize hbits = Some (Inr (), t)" "hbits \<noteq> 0" "hbits \<le> LJ_MAX_HBITS" "t_asize t = asize"
      "length (t_array t) = unat asize" "unat asize \<le> LJ_MAX_ASIZE" "t_hmask t = 2 ^ hbits - 1"
      "length (t_node t) = 2 ^ hbits" "t_freetop t = 2 ^ hbits" "t_node t = replicate (2 ^ hbits) (e_junk e)"
proof -
  define a where "a = (if 0 < asize \<and> asize \<le> LJ_MAX_COLOSIZE then
          if \<not> e_alloc e 0 (sizetabcolo asize) then Some (Inl LJ_ERR_ERRMEM, empty_tab e tot)
          else Some (Inr (), (empty_tab e (tot + sizetabcolo asize))
                 \<lparr>t_colo := int (unat asize), t_asize := asize,
                  t_array := replicate (unat asize) (n_val (e_junk e))\<rparr>)
        else
          if \<not> e_alloc e 0 sizeof_GCtab then Some (Inl LJ_ERR_ERRMEM, empty_tab e tot)
          else
            let t = empty_tab e (tot + sizeof_GCtab) in
            if 0 < asize then
              if LJ_MAX_ASIZE < unat asize then Some (Inl LJ_ERR_TABOV, t)
              else tbind (t_realloc e t 0 (asize * sizeof_TValue)) (\<lambda>t u.
                Some (Inr (), t\<lparr>t_array := replicate (unat asize) (n_val (e_junk e)), t_asize := asize\<rparr>))
            else Some (Inr (), t))"
  have run: "newtab e tot asize hbits = tbind a (\<lambda>t u. if hbits \<noteq> 0 then newhpart e t hbits else Some (Inr (), t))"
    unfolding newtab_def a_def ..
  have c: "asize \<le> LJ_MAX_COLOSIZE \<Longrightarrow> unat asize \<le> LJ_MAX_ASIZE"
    by (auto simp: LJ_MAX_COLOSIZE_def word_le_nat_alt LJ_MAX_ASIZE_def LJ_MAX_ABITS_def)
  define ok where "ok r \<longleftrightarrow> (\<exists>er t. r = Some (Inl er :: lj_err + unit, t) \<and> er \<in> {LJ_ERR_ERRMEM, LJ_ERR_TABOV}) \<or>
    (\<exists>t. r = Some (Inr (), t) \<and> t_asize t = asize \<and> length (t_array t) = unat asize \<and> unat asize \<le> LJ_MAX_ASIZE \<and>
      t_hmask t = 0 \<and> t_node t = [nilnode] \<and> t_freetop t = 0)" for r :: "unit tres"
  have okI: "ok (Some (Inl LJ_ERR_ERRMEM, t))" "ok (Some (Inl LJ_ERR_TABOV, t))"
    "t_asize t = asize \<Longrightarrow> length (t_array t) = unat asize \<Longrightarrow> unat asize \<le> LJ_MAX_ASIZE \<Longrightarrow>
      t_hmask t = 0 \<Longrightarrow> t_node t = [nilnode] \<Longrightarrow> t_freetop t = 0 \<Longrightarrow> ok (Some (Inr (), t))" for t
    by (auto simp: ok_def)
  have "ok a"
    unfolding a_def Let_def t_realloc_def tbind_def
    by (simp split: if_split) (auto intro!: okI c simp: empty_tab_def not_less)
  then consider (e) er t where "a = Some (Inl er, t)" "er \<in> {LJ_ERR_ERRMEM, LJ_ERR_TABOV}"
    | (o) t where "a = Some (Inr (), t)" "t_asize t = asize" "length (t_array t) = unat asize" "unat asize \<le> LJ_MAX_ASIZE"
        "t_hmask t = 0" "t_node t = [nilnode]" "t_freetop t = 0"
    unfolding ok_def by blast
  then show ?thesis
  proof cases
    case e
    then show ?thesis by (intro err [of er t]) (auto simp: run tbind_def)
  next
    case o
    show ?thesis
    proof (cases "hbits = 0")
      case True
      have "newtab e tot asize hbits = Some (Inr (), t)" unfolding run using o True by (simp add: tbind_def)
      then show ?thesis using o True by (intro nohash [of t])
    next
      case False
      consider (tb) "LJ_MAX_HBITS < hbits" | (mem) "hbits \<le> LJ_MAX_HBITS" "\<not> e_alloc e 0 (2 ^ hbits * sizeof_Node) \<and> 0 < 2 ^ hbits * sizeof_Node"
        | (fine) "hbits \<le> LJ_MAX_HBITS" "\<not> (\<not> e_alloc e 0 (2 ^ hbits * sizeof_Node) \<and> 0 < 2 ^ hbits * sizeof_Node)" by linarith
      then show ?thesis
      proof cases
        case tb
        then show ?thesis using o False by (intro err [of LJ_ERR_TABOV t]) (auto simp: run tbind_def newhpart_def)
      next
        case mem
        then show ?thesis using o False by (intro err [of LJ_ERR_ERRMEM t]) (auto simp: run tbind_def newhpart_def Let_def t_realloc_def)
      next
        case fine
        then show ?thesis using o False hbits_word [OF False fine(1)]
          
          by (intro hash [of "t\<lparr>g_total := g_total t - 0 + 2 ^ hbits * sizeof_Node, t_node := replicate (2 ^ hbits) (e_junk e),
            t_freetop := 2 ^ hbits, t_hmask := 2 ^ hbits - 1\<rparr>"])
            (simp_all add: run tbind_def newhpart_def Let_def t_realloc_def)
      qed
    qed
  qed
qed

lemma tab_ok_nohash:
  assumes "unat (t_asize t) \<le> length (t_array t)" "unat (t_asize t) \<le> LJ_MAX_ASIZE"
    "t_hmask t = 0" "t_node t = [nilnode]" "t_freetop t = 0"
  shows "tab_ok e t"
  using assms by (simp add: tab_ok_def)

lemma clearapart_simps [simp]:
  "t_asize (clearapart t) = t_asize t" "t_hmask (clearapart t) = t_hmask t" "t_node (clearapart t) = t_node t"
  "t_freetop (clearapart t) = t_freetop t" "length (t_array (clearapart t)) = length (t_array t)"
  by (simp_all add: clearapart_def foldl_array_len [where f = "\<lambda>i. setnilV"])

lemma clearapart_nil: "unat (t_asize t) \<le> length (t_array t) \<Longrightarrow> i < unat (t_asize t) \<Longrightarrow> tvisnil (t_array (clearapart t) ! i)"
  using foldl_array_nth [of "unat (t_asize t)" "t_array t" i "\<lambda>i. setnilV"]
  by (simp add: clearapart_def tvisnil_def setnilV_def setitype_def itype_def)

lemma tabmap_nil_array:
  assumes "\<forall>i < unat (t_asize t). tvisnil (t_array t ! i)"
  shows "tabmap t k = (if akey t k then None else hlook (t_node t) k)"
  using assms by (auto simp: tabmap_def akey_def tv_opt_def word_less_nat_alt split: option.splits)

lemma tab_new_any:
  "(\<exists>er t. lj_tab_new e tot asize hbits = Some (Inl er, t) \<and> er \<in> {LJ_ERR_ERRMEM, LJ_ERR_TABOV}) \<or>
   (\<exists>t. lj_tab_new e tot asize hbits = Some (Inr (), t) \<and> tab_ok e t \<and> t_asize t = asize \<and> (\<forall>k. tabmap t k = None))"
proof (cases rule: newtab_cases [of e tot asize hbits])
  case (err er t)
  then show ?thesis by (auto simp: lj_tab_new_def tbind_def)
next
  case (nohash t)
  have "tab_ok e (clearapart t)" using nohash by (intro tab_ok_nohash) simp_all
  moreover have "tabmap (clearapart t) k = None" for k
    using nohash clearapart_nil [of t] by (subst tabmap_nil_array) (auto simp: holds_key_def intro!: hlook_absent)
  ultimately show ?thesis using nohash by (simp add: lj_tab_new_def tbind_def Let_def)
next
  case (hash t)
  note hb = hbits_word [OF hash(2,3)]
  define t' where "t' = (clearapart t)\<lparr>t_node := replicate (2 ^ hbits) (clear_node (e_junk e))\<rparr>"
  have "clearhpart (clearapart t) = t'"
    using hash hb foldl_upd_node [of "2 ^ hbits" "replicate (2 ^ hbits) (e_junk e)" clear_node]
    by (simp add: clearhpart_def t'_def del: upt_Suc)
  moreover have "0 < t_hmask t" using hash hb by (simp add: word_less_nat_alt)
  ultimately have run: "lj_tab_new e tot asize hbits = Some (Inr (), t')"
    using hash by (simp add: lj_tab_new_def tbind_def Let_def)
  have "hpart_ok e t'" using hb hash by (simp add: hpart_ok_def t'_def fresh_nodes)
  then have "tab_ok e t'" using hash by (simp add: tab_ok_def) (simp add: t'_def fresh_nodes)
  moreover have "tabmap t' k = None" for k
    using hash clearapart_nil [of t] by (subst tabmap_nil_array) (simp_all add: t'_def fresh_nodes)
  ultimately show ?thesis using run hash by (simp add: t'_def)
qed

lemma hmask_bits:
  assumes "hpart_ok e t"
  shows "lj_fls (t_hmask t) + 1 \<le> LJ_MAX_HBITS" "t_hmask t = 2 ^ (lj_fls (t_hmask t) + 1) - 1"
    "length (t_node t) = 2 ^ (lj_fls (t_hmask t) + 1)" "0 < t_hmask t"
proof -
  from assms obtain k where k: "k \<le> LJ_MAX_HBITS" "unat (t_hmask t) + 1 = 2 ^ k" "0 < unat (t_hmask t)"
    "length (t_node t) = unat (t_hmask t) + 1" by (auto simp: hpart_ok_def)
  then have k0: "k \<noteq> 0" by (intro notI) simp
  have "2 * 2 ^ (k - 1) = (2 :: nat) ^ k" using k0 by (simp add: power_eq_if)
  then have "lj_fls (t_hmask t) = k - 1"
    using k k0 one_le_power [of "2 :: nat" "k - 1"] by (intro lj_fls_unique) auto
  then have f: "lj_fls (t_hmask t) + 1 = k" using k0 by simp
  show "lj_fls (t_hmask t) + 1 \<le> LJ_MAX_HBITS" "length (t_node t) = 2 ^ (lj_fls (t_hmask t) + 1)"
    using k f by simp_all
  show "0 < t_hmask t" using k(3) by (simp add: word_less_nat_alt)
  have "unat (t_hmask t) = unat (2 ^ k - 1 :: u32)" using hbits_word [OF k0 k(1)] k(2) by simp
  then show "t_hmask t = 2 ^ (lj_fls (t_hmask t) + 1) - 1" unfolding f by (simp only: word_unat_eq_iff)
qed

lemma tab_hash_cases:
  assumes "tab_ok e t"
  obtains (nil) "t_hmask t = 0" "t_node t = [nilnode]" "t_freetop t = 0" | (part) "hpart_ok e t" "0 < t_hmask t"
  using assms hmask_bits(4) [of e t] by (auto simp: tab_ok_def)

lemma tab_ok_eqI:
  assumes "tab_ok e t" "t_asize t' = t_asize t" "t_hmask t' = t_hmask t" "t_node t' = t_node t" "t_freetop t' = t_freetop t"
    "unat (t_asize t) \<le> length (t_array t')" "\<forall>i < unat (t_asize t). t_array t' ! i = t_array t ! i"
  shows "tab_ok e t'" "tabmap t' k = tabmap t k"
proof -
  have h: "hashkey e t' = hashkey e t" by (rule ext, rule hashkey_mask) (fact assms(3))
  show "tab_ok e t'" using assms akey_asize [OF assms(2)] unfolding tab_ok_def hpart_ok_def h by auto
  show "tabmap t' k = tabmap t k"
    using assms akey_asize [OF assms(2)] by (auto simp: tabmap_def akey_def word_less_nat_alt split: option.splits)
qed

lemma dup_nodes:
  assumes "length ks = n" "length ns = n"
  shows "foldl (\<lambda>ns i. upd_node i (\<lambda>x. x\<lparr>n_val := n_val (ks ! i), n_key := n_key (ks ! i), n_next := n_next (ks ! i)\<rparr>) ns)
      ns [0..<n] = ks"
proof -
  have "foldl (\<lambda>ns i. ns[i := (\<lambda>i x. x\<lparr>n_val := n_val (ks ! i), n_key := n_key (ks ! i), n_next := n_next (ks ! i)\<rparr>) i (ns ! i)])
      ns [0..<n] = ks"
    using assms by (subst foldl_array) (auto intro!: nth_equalityI)
  then show ?thesis by (simp only: upd_node_def)
qed

lemma tab_dup_any:
  assumes ok: "tab_ok e kt"
  shows "(\<exists>er t. lj_tab_dup e tot kt = Some (Inl er, t) \<and> er \<in> {LJ_ERR_ERRMEM, LJ_ERR_TABOV}) \<or>
   (\<exists>t. lj_tab_dup e tot kt = Some (Inr (), t) \<and> tab_ok e t \<and> (\<forall>k. tabmap t k = tabmap kt k))"
proof -
  let ?n = "unat (t_asize kt)"
  define hb where "hb = (if 0 < t_hmask kt then lj_fls (t_hmask kt) + 1 else 0)"
  define cp where "cp = (\<lambda>t :: GCtab. if 0 < t_asize kt then
      t\<lparr>t_array := foldl (\<lambda>a i. a[i := t_array kt ! i]) (t_array t) [0..<?n]\<rparr> else t)"
  have kl: "?n \<le> length (t_array kt)" using ok by (simp add: tab_ok_def)
  have cp: "length (t_array (cp t)) = ?n" "\<forall>i < ?n. t_array (cp t) ! i = t_array kt ! i" "t_asize (cp t) = t_asize t"
    "t_hmask (cp t) = t_hmask t" "t_node (cp t) = t_node t" "t_freetop (cp t) = t_freetop t"
    if "length (t_array t) = ?n" for t
    using that foldl_array_len [where f = "\<lambda>i x. t_array kt ! i"]
      foldl_array_nth [of ?n "t_array t" _ "\<lambda>i x. t_array kt ! i"]
    by (auto simp: cp_def word_neq_0_conv [symmetric])
  show ?thesis
  proof (cases rule: newtab_cases [of e tot "t_asize kt" hb])
    case (err er t)
    then show ?thesis by (auto simp: lj_tab_dup_def tbind_def hb_def)
  next
    case (nohash t)
    then have "\<not> 0 < t_hmask kt" by (auto simp: hb_def split: if_splits)
    then have z: "t_hmask kt = 0" using word_neq_0_conv by blast
    define t' where "t' = cp (t\<lparr>t_nomm := 0\<rparr>)"
    have run: "lj_tab_dup e tot kt = Some (Inr (), t')"
      using nohash(1) z unfolding t'_def by (simp add: lj_tab_dup_def tbind_def hb_def cp_def Let_def)
    have "t_node kt = [nilnode]" "t_freetop kt = 0"
      using ok z by (auto elim: tab_hash_cases)
    then show ?thesis using run tab_ok_eqI [OF ok, of t'] cp [of "t\<lparr>t_nomm := 0\<rparr>"] nohash z by (simp add: t'_def)
  next
    case (hash t)
    then have z: "0 < t_hmask kt" by (auto simp: hb_def split: if_splits)
    then have hp: "hpart_ok e kt" using ok by (auto elim: tab_hash_cases)
    have hbk: "hb = lj_fls (t_hmask kt) + 1" using z by (simp add: hb_def)
    note hm = hmask_bits [OF hp, folded hbk]
    have len: "unat (t_hmask kt) + 1 = length (t_node kt)" using hp by (simp add: hpart_ok_def)
    define t' where "t' = (cp (t\<lparr>t_nomm := 0\<rparr>))\<lparr>t_freetop := t_freetop kt, t_node := t_node kt\<rparr>"
    have t1: "length (t_array (t\<lparr>t_nomm := 0\<rparr>)) = ?n" using hash by simp
    have run: "lj_tab_dup e tot kt = Some (Inr (), t')"
      using hash(1) z dup_nodes [OF len [symmetric], of "t_node t"] hash(8) hm(3) len
        cp(5) [OF t1] unfolding t'_def lj_tab_dup_def tbind_def hb_def [symmetric] cp_def [symmetric] Let_def
      by (simp del: upt_Suc add: cp_def)
    show ?thesis using run tab_ok_eqI [OF ok, of t'] cp [OF t1] hash hm by (simp add: t'_def)
  qed
qed

section \<open>Resizing\<close>

lemma reasize_any:
  assumes ok: "tab_ok e t" and a: "t_asize t \<le> nasize + 1"
  shows "resize_post e t (unat (nasize + 1)) (if 0 < t_hmask t then lj_fls (t_hmask t) + 1 else 0)
    (lj_tab_reasize e (lj_tab_newkey e) t nasize)"
proof -
  have nk: "lj_tab_newkey e = newkey_fuel (Suc 1) e" by (simp add: lj_tab_newkey_def numeral_2_eq_2)
  have "to_hash t (unat (nasize + 1)) \<le> length (filter live (t_node t))"
    using a length_filter_le [of "\<lambda>n. \<not> in_range (unat (nasize + 1)) (n_key n)" "filter live (t_node t)"]
    by (simp add: to_hash_def nonnil_def word_le_nat_alt conj_commute)
  also have "\<dots> \<le> hcap (if 0 < t_hmask t then lj_fls (t_hmask t) + 1 else 0)"
  proof (cases rule: tab_hash_cases [OF ok, case_names nil part])
    case nil
    then show ?thesis by (simp add: live_def hcap_def)
  next
    case part
    then show ?thesis using hmask_bits(3) [OF part(1)] length_filter_le [of live "t_node t"] by (simp add: hcap_def)
  qed
  finally show ?thesis unfolding lj_tab_reasize_def nk by (rule resizetab_ok [OF ok])
qed

lemma rehash_any:
  assumes "tab_ok e t"
  shows "\<exists>asize hbits. resize_post e t asize hbits (lj_tab_rehash e t)"
  using rehashtab_ok [OF assms, of 1 "mk_tv 0 LJ_TNIL"]
  unfolding lj_tab_rehash_def lj_tab_newkey_def numeral_2_eq_2 One_nat_def by blast

section \<open>Traversal\<close>

text \<open>The cells of a table in traversal order: the array part, then the nodes.\<close>

definition ncells :: "GCtab \<Rightarrow> nat" where
  "ncells t = unat (t_asize t) + (unat (t_hmask t) + 1)"

definition cell :: "GCtab \<Rightarrow> nat \<Rightarrow> TValue \<times> TValue" where
  "cell t p =
     (if p < unat (t_asize t) then (setintV (of_nat p), t_array t ! p)
      else (n_key (t_node t ! (p - unat (t_asize t))), n_val (t_node t ! (p - unat (t_asize t)))))"

definition full :: "GCtab \<Rightarrow> nat \<Rightarrow> bool" where
  "full t p \<longleftrightarrow> \<not> tvisnil (snd (cell t p))"

definition first_cell :: "GCtab \<Rightarrow> nat \<Rightarrow> (TValue \<times> TValue) option" where
  "first_cell t p = (case filter (full t) [p..<ncells t] of [] \<Rightarrow> None | q # qs \<Rightarrow> Some (cell t q))"

lemma first_cell_step:
  "p < ncells t \<Longrightarrow> first_cell t p = (if full t p then Some (cell t p) else first_cell t (Suc p))"
  "\<not> p < ncells t \<Longrightarrow> first_cell t p = None"
  by (simp_all add: first_cell_def upt_conv_Cons)

lemma next_hash_cells: "next_hash t i = first_cell t (unat (t_asize t) + i)"
proof (induction t i rule: next_hash.induct)
  case (1 t i)
  let ?p = "unat (t_asize t) + i"
  have n: "?p < ncells t \<longleftrightarrow> i \<le> unat (t_hmask t)" by (auto simp: ncells_def)
  have c: "cell t ?p = (n_key (t_node t ! i), n_val (t_node t ! i))" by (simp add: cell_def)
  show ?case
    using 1 first_cell_step [of ?p t] unfolding n by (subst next_hash.simps) (simp add: c full_def)
qed

lemma next_cells:
  "(case next_array t p of (Some kv, j) \<Rightarrow> Some kv | (None, j) \<Rightarrow> next_hash t (j - unat (t_asize t))) = first_cell t p"
proof (induction t p rule: next_array.induct)
  case (1 t p)
  show ?case
  proof (cases "p < unat (t_asize t)")
    case True
    then have "p < ncells t" "cell t p = (setintV (of_nat p), t_array t ! p)" by (simp_all add: ncells_def cell_def)
    then show ?thesis using 1 True first_cell_step(1) [of p t] by (subst next_array.simps) (simp add: full_def)
  next
    case False
    then show ?thesis by (subst next_array.simps) (simp add: next_hash_cells)
  qed
qed

text \<open>A key that a traversal returned is found at its own cell again.\<close>

lemma ncells_bound: "tab_ok e t \<Longrightarrow> ncells t < 2 ^ 28"
proof -
  assume ok: "tab_ok e t"
  have "unat (t_hmask t) + 1 \<le> 2 ^ 26"
  proof (cases rule: tab_hash_cases [OF ok, case_names nil part])
    case part
    then obtain k where "k \<le> 26" "unat (t_hmask t) + 1 = 2 ^ k" by (auto simp: hpart_ok_def LJ_MAX_HBITS_def)
    then show ?thesis using power_increasing [of k 26 "2 :: nat"] by simp
  qed simp
  then show ?thesis using ok by (simp add: tab_ok_def ncells_def LJ_MAX_ASIZE_def LJ_MAX_ABITS_def)
qed

lemma keyindex_array:
  assumes "key_int k = Some i" "i < t_asize t"
  shows "keyindex e t k = Some (Inr i)"
  using assms by (auto simp: keyindex_def key_int_def tvisint_def Let_def split: if_splits)

lemma keyindex_node:
  assumes ok: "tab_ok e t" and n: "used (t_node t) n"
  shows "keyindex e t (n_key (t_node t ! n)) = Some (Inr (t_asize t + of_nat n))"
proof -
  let ?k = "n_key (t_node t ! n)"
  have k: "key_ok ?k" "\<not> akey t ?k" using tab_hash_ok(2) [OF ok] n ok by (auto simp: keys_ok_def tab_ok_def)
  then have "keyindex e t ?k = (case node_find (t_node t) (\<lambda>x. lj_obj_equal (n_key x) ?k) (hashkey e t ?k) of
               None \<Rightarrow> None
             | Some (Some i) \<Rightarrow> Some (Inr (t_asize t + of_nat i))
             | Some None \<Rightarrow> if tv_hi ?k = 0xfffe7fff then Some (Inr (tv_lo ?k - 1)) else Some (Inl LJ_ERR_NEXTIDX))"
    by (auto simp: keyindex_def tvisint_def Let_def key_ok_def akey_def key_int_def)
  moreover have "node_find (t_node t) (\<lambda>x. lj_obj_equal (n_key x) ?k) (hashkey e t ?k) = Some (Some n)"
  proof (cases rule: tab_find [OF ok k(1), of "\<lambda>x. lj_obj_equal (n_key x) ?k", OF refl, case_names found absent])
    case (found i)
    then have "i = n" using keys_ok_inj [OF tab_hash_ok(2) [OF ok]] n by (auto simp: holds_key_def)
    then show ?thesis using found by simp
  next
    case absent
    then show ?thesis using n by (auto simp: holds_key_def)
  qed
  ultimately show ?thesis by simp
qed

lemma length_nodes: "tab_ok e t \<Longrightarrow> length (t_node t) = unat (t_hmask t) + 1"
  by (erule tab_hash_cases) (simp_all add: hpart_ok_def)

lemma keyindex_cell:
  assumes ok: "tab_ok e t" and p: "p < ncells t" "full t p"
  shows "keyindex e t (fst (cell t p)) = Some (Inr (of_nat p))"
proof -
  have u: "unat (of_nat p :: u32) = p" using p(1) ncells_bound [OF ok] by (intro unat_of_nat_small) simp
  show ?thesis
  proof (cases "p < unat (t_asize t)")
    case True
    then have "fst (cell t p) = num_of_int (sint (of_nat p :: u32))" by (simp add: cell_def setintV_def)
    then show ?thesis using keyindex_array [of _ "of_nat p" t e] True u by (simp add: word_less_nat_alt)
  next
    case False
    define n where "n = p - unat (t_asize t)"
    then have pn: "p = unat (t_asize t) + n" using False by simp
    have c: "cell t p = (n_key (t_node t ! n), n_val (t_node t ! n))" using False by (simp add: cell_def n_def)
    have "n < length (t_node t)" using p pn by (simp add: ncells_def length_nodes [OF ok])
    then have "used (t_node t) n" using live_used [OF tab_hash_ok(2) [OF ok]] p(2) c by (simp add: full_def)
    from keyindex_node [OF ok this] show ?thesis unfolding c by (simp add: pn)
  qed
qed

text \<open>The loop of a traversal: ask for the entry after the last key, until there is none.\<close>

partial_function (option) tab_pairs :: "tabenv \<Rightarrow> GCtab \<Rightarrow> TValue \<Rightarrow> (TValue \<times> TValue) list option" where
  [code]: "tab_pairs e t key =
     (case lj_tab_next e t key of
        Some (Inr (Some (k, v))) \<Rightarrow> Option.bind (tab_pairs e t k) (\<lambda>es. Some ((k, v) # es))
      | Some (Inr None) \<Rightarrow> Some []
      | _ \<Rightarrow> None)"

lemma filter_upt_Cons:
  assumes "filter P [p..<n] = q # qs"
  shows "P q" "p \<le> q" "q < n" "qs = filter P [Suc q..<n]"
proof -
  obtain us vs where v: "[p..<n] = us @ q # vs" "\<forall>u \<in> set us. \<not> P u" "P q" "qs = filter P vs"
    using assms unfolding filter_eq_Cons_iff by blast
  then have "q \<in> set [p..<n]" by simp
  then show q: "P q" "p \<le> q" "q < n" using v(3) by auto
  have "length us < n - p" using arg_cong [OF v(1), of length] by simp
  moreover from this have "q = p + length us" using arg_cong [OF v(1), of "\<lambda>l. l ! length us"] by simp
  ultimately have "vs = [Suc q..<n]" using arg_cong [OF v(1), of "drop (Suc (length us))"] by simp
  with v(4) show "qs = filter P [Suc q..<n]" by simp
qed

lemma tab_next_cells:
  "keyindex e t key = Some (Inr i) \<Longrightarrow> lj_tab_next e t key = Some (Inr (first_cell t (unat (i + 1))))"
  using next_cells [of t "unat (i + 1)"] by (auto simp: lj_tab_next_def split: prod.splits option.splits)

lemma tab_pairs_from:
  assumes ok: "tab_ok e t"
  shows "keyindex e t key = Some (Inr i) \<Longrightarrow> unat (i + 1) = p \<Longrightarrow>
    tab_pairs e t key = Some (map (cell t) (filter (full t) [p..<ncells t]))"
proof (induction "filter (full t) [p..<ncells t]" arbitrary: key i p)
  case Nil
  then show ?case by (subst tab_pairs.simps) (simp add: tab_next_cells first_cell_def Nil(1) [symmetric])
next
  case (Cons q qs)
  note q = filter_upt_Cons [OF Cons(2) [symmetric]]
  have "q + 1 < 2 ^ 32" using q(3) ncells_bound [OF ok] by simp
  then have "unat (of_nat (q + 1) :: u32) = q + 1" by (intro unat_of_nat_small) simp
  then have "unat (of_nat q + 1 :: u32) = Suc q" by (simp only: of_nat_add of_nat_1 Suc_eq_plus1)
  from Cons(1) [OF q(4) keyindex_cell [OF ok q(3,1)] this]
  have "tab_pairs e t (fst (cell t q)) = Some (map (cell t) qs)" using q(4) by simp
  then show ?case using Cons(3,4)
    by (subst tab_pairs.simps, cases "cell t q") (simp add: tab_next_cells first_cell_def Cons(2) [symmetric])
qed

definition entries :: "GCtab \<Rightarrow> (TValue \<times> TValue) list" where
  "entries t = map (cell t) (filter (full t) [0..<ncells t])"

lemma tab_pairs_all: "tab_ok e t \<Longrightarrow> tab_pairs e t (mk_tv 0 LJ_TNIL) = Some (entries t)"
  unfolding entries_def
proof (rule tab_pairs_from [where i = "NOT 0"])
  have "tvisnil (mk_tv 0 LJ_TNIL)" "\<not> tvisnum (mk_tv 0 LJ_TNIL)" by code_simp+
  then show "keyindex e t (mk_tv 0 LJ_TNIL) = Some (Inr (NOT 0))" by (simp add: keyindex_def tvisint_def)
qed simp_all

text \<open>The cells of different positions hold different keys, and the cells hold the whole map.\<close>

lemma cell_key:
  assumes ok: "tab_ok e t" and p: "p < ncells t" "full t p"
  shows "(p < unat (t_asize t) \<and> key_int (fst (cell t p)) = Some (of_nat p)) \<or>
    (\<exists>n. p = unat (t_asize t) + n \<and> used (t_node t) n \<and> cell t p = (n_key (t_node t ! n), n_val (t_node t ! n)))"
proof (cases "p < unat (t_asize t)")
  case False
  define n where "n = p - unat (t_asize t)"
  have "p = unat (t_asize t) + n" "cell t p = (n_key (t_node t ! n), n_val (t_node t ! n))"
    using False by (simp_all add: cell_def n_def)
  moreover from this have "used (t_node t) n"
    using live_used [OF tab_hash_ok(2) [OF ok]] p by (simp add: full_def length_nodes [OF ok] ncells_def)
  ultimately show ?thesis by blast
qed (simp add: cell_def setintV_def)

lemma cell_map:
  assumes ok: "tab_ok e t"
  shows "tabmap t k = Some v \<longleftrightarrow> (\<exists>p. p < ncells t \<and> full t p \<and> tv_canon (fst (cell t p)) = tv_canon k \<and> snd (cell t p) = v)"
    (is "?l \<longleftrightarrow> ?r")
proof
  assume l: ?l
  show ?r
  proof (cases "akey t k")
    case True
    then obtain i where i: "key_int k = Some i" "i < t_asize t" by (auto simp: akey_def split: option.splits)
    then have "tv_opt (t_array t ! unat i) = Some v" using l True by (simp add: tabmap_def)
    then show ?thesis using i key_int_canon_of_int [OF i(1)]
      by (intro exI [of _ "unat i"]) (auto simp: cell_def ncells_def full_def word_less_nat_alt setintV_def tv_opt_def split: if_splits)
  next
    case False
    then have "(tv_canon k, v) \<in> hset (t_node t)" using l hlook_iff [OF tab_hash_ok(2) [OF ok]] by (simp add: tabmap_def)
    then obtain n where "used (t_node t) n" "tv_canon (n_key (t_node t ! n)) = tv_canon k" "n_val (t_node t ! n) = v" "\<not> tvisnil v"
      by (auto simp: hset_def)
    then show ?thesis
      by (intro exI [of _ "unat (t_asize t) + n"]) (auto simp: cell_def ncells_def full_def used_def length_nodes [OF ok])
  qed
next
  assume ?r
  then obtain p where p: "p < ncells t" "full t p" "tv_canon (fst (cell t p)) = tv_canon k" "snd (cell t p) = v" by blast
  from cell_key [OF ok p(1,2)] show ?l
  proof (elim disjE exE conjE)
    assume a: "p < unat (t_asize t)" "key_int (fst (cell t p)) = Some (of_nat p)"
    have u: "unat (of_nat p :: u32) = p" using p(1) ncells_bound [OF ok] by (intro unat_of_nat_small) simp
    have "key_int k = Some (of_nat p)" using a key_int_canon [OF p(3)] by simp
    then show ?l using a u p by (auto simp: tabmap_def akey_def word_less_nat_alt cell_def tv_opt_def full_def)
  next
    fix n assume n: "used (t_node t) n" "cell t p = (n_key (t_node t ! n), n_val (t_node t ! n))"
    then have "\<not> akey t k" using ok akey_canon [OF p(3)] by (auto simp: tab_ok_def)
    moreover have "holds_key (t_node t) n k" using n p by (simp add: holds_key_def)
    ultimately show ?l using hlook_holds [OF tab_hash_ok(2) [OF ok]] n p by (auto simp: tabmap_def tv_opt_def full_def)
  qed
qed

lemma cell_inj:
  assumes ok: "tab_ok e t" and p: "p < ncells t" "full t p" and q: "q < ncells t" "full t q"
    and c: "tv_canon (fst (cell t p)) = tv_canon (fst (cell t q))"
  shows "p = q"
proof -
  have u: "unat (of_nat i :: u32) = i" if "i < ncells t" for i
    using that ncells_bound [OF ok] by (intro unat_of_nat_small) simp
  then have w: "(of_nat i :: u32) = of_nat j \<Longrightarrow> i = j" if "i < ncells t" "j < ncells t" for i j
    using that by metis
  have d: "key_int (n_key (t_node t ! n)) \<noteq> Some (of_nat i)" if n: "used (t_node t) n" "i < unat (t_asize t)" for n i
  proof -
    have "\<not> akey t (n_key (t_node t ! n))" using ok n(1) by (simp add: tab_ok_def)
    then show ?thesis using n(2) u [of i] by (auto simp: akey_def word_less_nat_alt ncells_def)
  qed
  show ?thesis
    using cell_key [OF ok p] cell_key [OF ok q] key_int_canon [OF c] c d keys_ok_inj [OF tab_hash_ok(2) [OF ok]] w [OF p(1) q(1)]
    by (metis fst_conv option.inject)
qed

section \<open>Length\<close>

definition present :: "GCtab \<Rightarrow> u32 \<Rightarrow> bool" where
  "present t k \<longleftrightarrow> tabmap t (setintV k) \<noteq> None"

definition is_border :: "GCtab \<Rightarrow> u32 \<Rightarrow> bool" where
  "is_border t n \<longleftrightarrow> (n = 0 \<or> present t n) \<and> \<not> present t (n + 1)"

lemma int_present_ok:
  assumes "tab_ok e t"
  shows "int_present t k = Some (present t k)"
proof -
  obtain s where "lj_tab_getint t k = Some s"
    "tabmap t (num_of_int (sint k)) = (case s of None \<Rightarrow> None | Some s \<Rightarrow> tv_opt (slot_get t s))"
    using getint_refine [OF assms] by blast
  then show ?thesis
    by (cases s) (auto simp: int_present_def present_def setintV_def tv_opt_def)
qed

text \<open>The midpoint of a range that does not overflow.\<close>

lemma midpoint:
  assumes "i < j" "unat (j :: u32) < 2 ^ 31"
  shows "1 < j - i \<longleftrightarrow> Suc (unat i) < unat j" "unat ((i + j) div 2) = (unat i + unat j) div 2"
    "\<not> 1 < j - i \<Longrightarrow> j = i + 1"
proof -
  have ij: "unat i < unat j" using assms(1) by (simp add: word_less_nat_alt)
  have d: "unat (j - i) = unat j - unat i" using assms(1) by (intro unat_sub) simp
  show "1 < j - i \<longleftrightarrow> Suc (unat i) < unat j" using d ij by (simp add: word_less_nat_alt less_diff_conv)
  have "unat (i + j) = unat i + unat j" using ij assms(2) by (subst unat_word_ariths) simp
  then show "unat ((i + j) div 2) = (unat i + unat j) div 2" by (simp add: unat_div_distrib)
  assume "\<not> 1 < j - i"
  then have "unat (j - i) = 1" using d ij by (simp add: word_less_nat_alt)
  then have "j - i = 1" using word_unat_eq_iff [of "j - i" 1] by simp
  then show "j = i + 1" by (simp add: algebra_simps)
qed

definition arr_border :: "GCtab \<Rightarrow> u32 \<Rightarrow> u32 \<Rightarrow> bool" where
  "arr_border t n r \<longleftrightarrow> 0 < r \<and> r < n \<and> (r = 1 \<or> \<not> tvisnil (t_array t ! unat (r - 1))) \<and> tvisnil (t_array t ! unat r)"

lemma array_search_ok:
  assumes "i < j" "j \<le> n" "unat n < 2 ^ 31" "i = 1 \<or> \<not> tvisnil (t_array t ! unat (i - 1))" "tvisnil (t_array t ! unat (j - 1))" "0 < i"
  shows "\<exists>r. array_search t i j = Some (r - 1) \<and> arr_border t n r"
  using assms(1,2,4-)
proof (induction "unat j - unat i" arbitrary: i j rule: less_induct)
  case less
  have j: "unat j < 2 ^ 31" using less.prems(2) assms(3) by (simp add: word_le_nat_alt)
  note mid = midpoint [OF less.prems(1) j]
  show ?case
  proof (cases "1 < j - i")
    case False
    then have "arr_border t n i" using mid(3) less.prems by (auto simp: arr_border_def)
    then show ?thesis using False by (subst array_search.simps) auto
  next
    case True
    define m where "m = (i + j) div 2"
    have m: "i < m" "m < j" using True mid by (simp_all add: m_def word_less_nat_alt)
    have mn: "m \<le> n" "0 < m" using m less.prems by (auto intro: order.strict_trans)
    have run: "array_search t i j = (if tvisnil (t_array t ! unat (m - 1)) then array_search t i m else array_search t m j)"
      using True by (subst array_search.simps) (simp add: m_def Let_def)
    have l: "unat m - unat i < unat j - unat i" "unat j - unat m < unat j - unat i"
      using m by (simp_all add: word_less_nat_alt)
    show ?thesis
      using less.hyps [OF l(1) m(1) mn(1) less.prems(3) _ less.prems(5)]
        less.hyps [OF l(2) m(2) less.prems(2) _ less.prems(4) mn(2)] run
      by (cases "tvisnil (t_array t ! unat (m - 1))") auto
  qed
qed

lemma binary_search_ok:
  assumes ok: "tab_ok e t" and "i < j" "unat j < 2 ^ 31" "i = 0 \<or> present t i" "\<not> present t j"
  shows "\<exists>r. binary_search t i j = Some r \<and> is_border t r"
  using assms(2-)
proof (induction "unat j - unat i" arbitrary: i j rule: less_induct)
  case less
  note mid = midpoint [OF less.prems(1,2)]
  show ?case
  proof (cases "1 < j - i")
    case False
    then show ?thesis using mid(3) less.prems by (subst binary_search.simps) (auto simp: is_border_def)
  next
    case True
    define m where "m = (i + j) div 2"
    have m: "i < m" "m < j" using True mid by (simp_all add: m_def word_less_nat_alt)
    then have mj: "unat m < 2 ^ 31" using less.prems(2) by (simp add: word_less_nat_alt)
    have run: "binary_search t i j = (if present t m then binary_search t m j else binary_search t i m)"
      using True by (subst binary_search.simps) (simp add: m_def Let_def int_present_ok [OF ok])
    have l: "unat m - unat i < unat j - unat i" "unat j - unat m < unat j - unat i"
      using m by (simp_all add: word_less_nat_alt)
    show ?thesis
      using less.hyps [OF l(1) m(1) mj less.prems(3)] less.hyps [OF l(2) m(2) less.prems(2) _ less.prems(4)] run
      by (cases "present t m") auto
  qed
qed

text \<open>A table has fewer cells than integers below \<open>2 ^ 28\<close>, so a linear search ends.\<close>

lemma some_absent:
  assumes ok: "tab_ok e t"
  shows "\<exists>k. 1 \<le> unat k \<and> unat k \<le> 2 ^ 28 \<and> \<not> present t k"
proof (rule ccontr)
  assume c: "\<not> ?thesis"
  let ?K = "{1..2 ^ 28 :: nat}"
  have u: "unat (of_nat n :: u32) = n" if "n \<in> ?K" for n using that by (intro unat_of_nat_small) simp
  then have "present t (of_nat n)" if "n \<in> ?K" for n using c that by (metis atLeastAtMost_iff)
  then have "\<exists>p. p < ncells t \<and> tv_canon (fst (cell t p)) = tv_canon (setintV (of_nat n))" if "n \<in> ?K" for n
    using that cell_map [OF ok] unfolding present_def by blast
  then obtain f where f: "\<And>n. n \<in> ?K \<Longrightarrow> f n < ncells t \<and> tv_canon (fst (cell t (f n))) = tv_canon (setintV (of_nat n))"
    by metis
  have "inj_on f ?K"
  proof (rule inj_onI)
    fix m n assume m: "m \<in> ?K" "n \<in> ?K" "f m = f n"
    then have "tv_canon (setintV (of_nat m)) = tv_canon (setintV (of_nat n))" using f by metis
    then have "(of_nat m :: u32) = of_nat n" using key_int_canon [of "setintV (of_nat m)" "setintV (of_nat n)"]
      by (simp add: setintV_def)
    then show "m = n" using u m by metis
  qed
  then have "card ?K \<le> card {..<ncells t}" using f by (intro card_inj_on_le [of f]) auto
  then show False using ncells_bound [OF ok] by simp
qed

lemma unat_suc: "unat (k :: u32) < 2 ^ 31 \<Longrightarrow> unat (k + 1) = Suc (unat k)"
  by (subst unat_word_ariths) simp

lemma linear_search_ok:
  assumes ok: "tab_ok e t" and N: "\<not> present t N" "unat N \<le> 2 ^ 28"
  shows "i \<le> N \<Longrightarrow> i - 1 = 0 \<or> present t (i - 1) \<Longrightarrow> \<exists>r. linear_search t i = Some r \<and> is_border t r"
proof (induction "unat N - unat i" arbitrary: i rule: less_induct)
  case less
  show ?case
  proof (cases "present t i")
    case False
    then show ?thesis using less.prems
      by (subst linear_search.simps) (auto simp: int_present_ok [OF ok] is_border_def)
  next
    case True
    then have i: "unat i < unat N" using less.prems(1) N by (metis order.not_eq_order_implies_strict word_less_nat_alt)
    then have s: "unat (i + 1) = Suc (unat i)" using N(2) by (intro unat_suc) simp
    have "\<exists>r. linear_search t (i + 1) = Some r \<and> is_border t r"
      using i s True by (intro less.hyps) (simp_all add: word_le_nat_alt)
    then show ?thesis using True by (subst linear_search.simps) (simp add: int_present_ok [OF ok])
  qed
qed

lemma double_search_ok:
  assumes ok: "tab_ok e t"
  shows "i < j \<Longrightarrow> unat j < 2 ^ 31 \<Longrightarrow> i = 0 \<or> present t i \<Longrightarrow> \<exists>r. double_search t i j = Some r \<and> is_border t r"
proof (induction "2 ^ 31 - unat j" arbitrary: i j rule: less_induct)
  case less
  show ?case
  proof (cases "present t j")
    case False
    then show ?thesis using binary_search_ok [OF ok less.prems(1,2,3)]
      by (subst double_search.simps) (simp add: int_present_ok [OF ok])
  next
    case p: True
    have j2: "unat (j * 2) = unat j * 2" using less.prems(2) by (subst unat_word_ariths) simp
    have j0: "0 < unat j" using less.prems(1) by (simp add: word_less_nat_alt)
    show ?thesis
    proof (cases "0x7fffffff - 2 < j * 2")
      case True
      obtain N where N: "\<not> present t N" "unat N \<le> 2 ^ 28" "1 \<le> unat N" using some_absent [OF ok] by blast
      have "\<exists>r. linear_search t 1 = Some r \<and> is_border t r"
        using N(3) by (intro linear_search_ok [OF ok N(1,2)]) (simp_all add: word_le_nat_alt)
      then show ?thesis using True p
        by (subst double_search.simps) (simp add: int_present_ok [OF ok] Let_def)
    next
      case False
      have "\<exists>r. double_search t j (j * 2) = Some r \<and> is_border t r"
        using False j2 j0 p less.prems(2) by (intro less.hyps) (auto simp: word_less_nat_alt not_less)
      then show ?thesis using False p
        by (subst double_search.simps) (simp add: int_present_ok [OF ok] Let_def)
    qed
  qed
qed

lemma present_array: "k < t_asize t \<Longrightarrow> present t k \<longleftrightarrow> \<not> tvisnil (t_array t ! unat k)"
  by (simp add: present_def tabmap_def akey_def setintV_def tv_opt_def)

lemma present_nohash:
  assumes "tab_ok e t" "t_hmask t = 0"
  shows "present t k \<longleftrightarrow> k < t_asize t \<and> \<not> tvisnil (t_array t ! unat k)"
proof -
  have "hlook (t_node t) (setintV k) = None"
    unfolding nil_node_list [OF assms] by (rule hlook_absent) (simp add: holds_key_def)
  then show ?thesis using present_array [of k t]
    by (cases "k < t_asize t") (simp_all add: present_def tabmap_def akey_def setintV_def)
qed

lemma tab_len_any:
  assumes ok: "tab_ok e t"
  shows "\<exists>n. lj_tab_len t = Some n \<and> is_border t n"
proof -
  define j where "j = t_asize t"
  have A: "unat j < 2 ^ 31" using ok by (simp add: tab_ok_def j_def LJ_MAX_ASIZE_def LJ_MAX_ABITS_def)
  show ?thesis
  proof (cases "1 < j \<and> tvisnil (t_array t ! unat (j - 1))")
    case True
    then obtain r where r: "array_search t 1 j = Some (r - 1)" "arr_border t j r"
      using array_search_ok [of 1 j j t] A by auto
    then have a: "0 < r" "r < t_asize t" "r = 1 \<or> \<not> tvisnil (t_array t ! unat (r - 1))" "tvisnil (t_array t ! unat r)"
      by (auto simp: arr_border_def j_def)
    have "unat (r - 1) = unat r - 1" using a(1) by (intro unat_minus_one) auto
    then have "r - 1 < t_asize t" using a(1,2) by (simp add: word_less_nat_alt)
    then have "is_border t (r - 1)" using a present_array [of r t] present_array [of "r - 1" t] by (auto simp: is_border_def)
    then show ?thesis using True r(1) by (simp add: lj_tab_len_def j_def Let_def)
  next
    case False
    define i where "i = (if j \<noteq> 0 then j - 1 else j)"
    have i: "i = 0 \<or> (i < j \<and> i + 1 = j \<and> \<not> tvisnil (t_array t ! unat i))"
    proof (cases "1 < j")
      case True
      then have "j \<noteq> 0" by auto
      then show ?thesis using False True by (auto simp: i_def word_less_nat_alt unat_minus_one)
    next
      case f: False
      then have "unat j \<le> 1" by (simp add: word_less_nat_alt)
      then have "j = 0 \<or> j = 1" using word_unat_eq_iff [of j 0] word_unat_eq_iff [of j 1] by (cases "unat j") auto
      then show ?thesis by (auto simp: i_def)
    qed
    have ip: "i = 0 \<or> present t i" using i present_array [of i t] by (auto simp: j_def)
    show ?thesis
    proof (cases "t_hmask t = 0")
      case True
      have "\<not> present t (i + 1)" using i present_nohash [OF ok True] False by (auto simp: j_def i_def)
      then show ?thesis using True False ip by (auto simp: lj_tab_len_def j_def [symmetric] i_def [symmetric] is_border_def Let_def)
    next
      case hm: False
      have "unat i < 2 ^ 31 - 1" using ok unfolding i_def j_def tab_ok_def LJ_MAX_ASIZE_def LJ_MAX_ABITS_def by (cases "t_asize t = 0") (auto simp: unat_minus_one)
      then have "\<exists>r. double_search t i (i + 1) = Some r \<and> is_border t r"
        using unat_suc [of i] ip by (intro double_search_ok [OF ok]) (simp_all add: word_less_nat_alt)
      then show ?thesis using hm False by (auto simp: lj_tab_len_def j_def [symmetric] i_def [symmetric] unbound_search_def Let_def)
    qed
  qed
qed

section \<open>Properties\<close>

text \<open>A concrete environment and a table with one entry, for the witnesses.\<close>

definition env0 :: tabenv where
  "env0 = \<lparr>e_alloc = \<lambda>osz nsz. True, e_strhash = \<lambda>p. p, e_junk = nilnode, e_white = 1\<rparr>"

definition tab0 :: GCtab where "tab0 = empty_tab env0 0"

lemma tab0_ok: "tab_ok env0 tab0"
  by (simp add: tab_ok_def tab0_def empty_tab_def)

text \<open>C1: Writing a key: on a well-formed table and for any key but nil and NaN,
  \<open>lua_rawset\<close> terminates, whatever collisions or rehashes the insertion takes. It raises a memory
  or table overflow error, or it leaves a well-formed table whose map is the old one updated at
  every key equal to the written one; writing nil removes the entry.\<close>

theorem rawset_refines:
  assumes "tab_ok e t" "key_ok k"
  shows "(\<exists>er t'. lua_rawset e t k v = Some (Inl er, t') \<and> er \<in> {LJ_ERR_ERRMEM, LJ_ERR_TABOV}) \<or>
    (\<exists>t'. lua_rawset e t k v = Some (Inr (), t') \<and> tab_ok e t' \<and>
      (\<forall>k'. tabmap t' k' = (if tv_canon k' = tv_canon k then tv_opt v else tabmap t k')))"
  using assms by (rule rawset_any)

lemma key_ok_int: "key_ok (setintV i)"
  by (simp add: setintV_def)

theorem rawset_refines_witness:
  "(\<exists>er t'. lua_rawset env0 tab0 (setintV 7) (setintV 9) = Some (Inl er, t') \<and> er \<in> {LJ_ERR_ERRMEM, LJ_ERR_TABOV}) \<or>
    (\<exists>t'. lua_rawset env0 tab0 (setintV 7) (setintV 9) = Some (Inr (), t') \<and> tab_ok env0 t' \<and>
      (\<forall>k'. tabmap t' k' = (if tv_canon k' = tv_canon (setintV 7) then tv_opt (setintV 9) else tabmap tab0 k')))"
  by (rule rawset_refines [OF tab0_ok key_ok_int])

text \<open>C9: Reading a key: \<open>lua_rawget\<close> terminates on every well-formed table and
  returns the value the table's map has for the key, or nil when it has none.\<close>

theorem rawget_refines:
  assumes "tab_ok e t" "key_ok k"
  shows "\<exists>v. lua_rawget e t k = Some v \<and> tv_opt v = tabmap t k"
  using assms by (rule rawget_any)

theorem rawget_refines_witness: "\<exists>v. lua_rawget env0 tab0 (setintV 7) = Some v \<and> tv_opt v = tabmap tab0 (setintV 7)"
  by (rule rawget_refines [OF tab0_ok key_ok_int])

text \<open>C5: Histories: after any sequence of writes to a fresh table, through all the
  rehashes it causes, every key reads the value of the last write to an equal key, or nil if there
  was none or it wrote nil; or a write of the sequence ran out of memory or table space.\<close>

theorem raw_history:
  assumes "lj_tab_new e tot asize hbits = Some (Inr (), t)" "\<forall>(k, v) \<in> set ws. key_ok k" "key_ok k"
  shows "(\<exists>er t'. raw_writes e t ws = Some (Inl er, t') \<and> er \<in> {LJ_ERR_ERRMEM, LJ_ERR_TABOV}) \<or>
    (\<exists>t' v. raw_writes e t ws = Some (Inr (), t') \<and> lua_rawget e t' k = Some v \<and> tv_opt v = last_raw_write ws k)"
proof -
  have t: "tab_ok e t" "tabmap t k = None" using tab_new_any [of e tot asize hbits] assms(1) by auto
  from raw_writes_puts [OF t(1) assms(2)] show ?thesis
  proof (elim disjE exE conjE)
    fix t' assume t': "raw_writes e t ws = Some (Inr (), t')" "tabstore.puts e t ws = Some t'"
    have ok': "tab_ok e t'" "rawget_opt e t' k = tabstore.last_write ws k (rawget_opt e t k)"
      using tabstore.puts_look [OF t(1) assms(2) t'(2)] assms(3) by auto
    then have "tabmap t' k = last_raw_write ws k"
      using t(2) by (simp add: rawget_opt_map [OF _ assms(3)] t(1) tabstore.last_write_def last_raw_write_def)
    then show ?thesis using rawget_any [OF ok'(1) assms(3)] t'(1) by auto
  qed auto
qed

theorem raw_history_witness:
  "(\<exists>er t'. raw_writes env0 (clearapart (empty_tab env0 32)) [(setintV 7, setintV 9)] = Some (Inl er, t') \<and>
      er \<in> {LJ_ERR_ERRMEM, LJ_ERR_TABOV}) \<or>
    (\<exists>t' v. raw_writes env0 (clearapart (empty_tab env0 32)) [(setintV 7, setintV 9)] = Some (Inr (), t') \<and>
      lua_rawget env0 t' (setintV 7) = Some v \<and> tv_opt v = last_raw_write [(setintV 7, setintV 9)] (setintV 7))"
  by (rule raw_history [of _ 0 0 0])
    (simp_all add: lj_tab_new_def newtab_def tbind_def env0_def key_ok_int sizeof_GCtab_def Let_def empty_tab_def clearapart_def)

text \<open>C28: Invalid keys: a write to the nil key or to a NaN key raises the error the
  manual documents and changes nothing in the table but its metamethod cache.\<close>

theorem rawset_bad_key:
  "(tvisnil k \<longrightarrow> lua_rawset e t k v = Some (Inl LJ_ERR_NILIDX, t\<lparr>t_nomm := 0\<rparr>)) \<and>
   (tvisnum k \<and> num_isnan k \<longrightarrow> lua_rawset e t k v = Some (Inl LJ_ERR_NANIDX, t\<lparr>t_nomm := 0\<rparr>))"
  using nil_not_number [of k]
  by (auto simp: lua_rawset_def lj_tab_set_def tbind_def tvisint_def num_eq_def str_not_pri Let_def tvisnan_def)

theorem rawset_bad_key_witness:
  "lua_rawset env0 tab0 (mk_tv 0 LJ_TNIL) (setintV 1) = Some (Inl LJ_ERR_NILIDX, tab0\<lparr>t_nomm := 0\<rparr>) \<and>
   lua_rawset env0 tab0 0xfff8000000000000 (setintV 1) = Some (Inl LJ_ERR_NANIDX, tab0\<lparr>t_nomm := 0\<rparr>)"
proof -
  have "tvisnil (mk_tv 0 LJ_TNIL)" "tvisnum 0xfff8000000000000 \<and> num_isnan 0xfff8000000000000" by code_simp+
  then show ?thesis
    using rawset_bad_key [of "mk_tv 0 LJ_TNIL" env0 tab0 "setintV 1"] rawset_bad_key [of "0xfff8000000000000" env0 tab0 "setintV 1"]
    by blast
qed

text \<open>C29: Creation: a new table of any requested size is well-formed, has the
  requested array part and maps every key to nothing, whatever the fresh memory held; or memory or
  table space ran out.\<close>

theorem tab_new_empty:
  "(\<exists>er t. lj_tab_new e tot asize hbits = Some (Inl er, t) \<and> er \<in> {LJ_ERR_ERRMEM, LJ_ERR_TABOV}) \<or>
   (\<exists>t. lj_tab_new e tot asize hbits = Some (Inr (), t) \<and> tab_ok e t \<and> t_asize t = asize \<and> (\<forall>k. tabmap t k = None))"
  by (rule tab_new_any)

text \<open>C30: Duplication of a template table gives a well-formed table with the same map.\<close>

theorem tab_dup_same:
  assumes "tab_ok e kt"
  shows "(\<exists>er t. lj_tab_dup e tot kt = Some (Inl er, t) \<and> er \<in> {LJ_ERR_ERRMEM, LJ_ERR_TABOV}) \<or>
   (\<exists>t. lj_tab_dup e tot kt = Some (Inr (), t) \<and> tab_ok e t \<and> (\<forall>k. tabmap t k = tabmap kt k))"
  using assms by (rule tab_dup_any)

theorem tab_dup_same_witness:
  "(\<exists>er t. lj_tab_dup env0 0 tab0 = Some (Inl er, t) \<and> er \<in> {LJ_ERR_ERRMEM, LJ_ERR_TABOV}) \<or>
   (\<exists>t. lj_tab_dup env0 0 tab0 = Some (Inr (), t) \<and> tab_ok env0 t \<and> (\<forall>k. tabmap t k = tabmap tab0 k))"
  by (rule tab_dup_same [OF tab0_ok])

definition kept :: "tabenv \<Rightarrow> GCtab \<Rightarrow> unit tres \<Rightarrow> bool" where
  "kept e t r \<longleftrightarrow> (\<exists>er t'. r = Some (Inl er, t') \<and> er \<in> {LJ_ERR_ERRMEM, LJ_ERR_TABOV}) \<or>
    (\<exists>t'. r = Some (Inr (), t') \<and> tab_ok e t' \<and> (\<forall>k. tabmap t' k = tabmap t k))"

text \<open>C31: Resizing: \<open>lj_tab_rehash\<close>, and \<open>lj_tab_reasize\<close> to an array part that is
  not smaller, terminate and keep the map of the table, or memory or table space ran out.\<close>

theorem tab_resize_keeps:
  assumes "tab_ok e t" "t_asize t \<le> nasize + 1"
  shows "kept e t (lj_tab_rehash e t) \<and> kept e t (lj_tab_reasize e (lj_tab_newkey e) t nasize)"
  using rehash_any [OF assms(1)] reasize_any [OF assms] unfolding resize_post_def kept_def by blast

theorem tab_resize_keeps_witness:
  "kept env0 tab0 (lj_tab_rehash env0 tab0) \<and> kept env0 tab0 (lj_tab_reasize env0 (lj_tab_newkey env0) tab0 4)"
  by (rule tab_resize_keeps [OF tab0_ok]) (simp add: tab0_def empty_tab_def)

text \<open>C21: Traversal: starting from nil and asking for the next entry until there is
  none visits every entry of a well-formed table exactly once, and nothing else.\<close>

theorem tab_traversal:
  assumes "tab_ok e t"
  shows "\<exists>es. tab_pairs e t (mk_tv 0 LJ_TNIL) = Some es \<and> distinct (map (\<lambda>kv. tv_canon (fst kv)) es) \<and>
    (\<forall>k v. tabmap t k = Some v \<longleftrightarrow> (\<exists>kv \<in> set es. tv_canon (fst kv) = tv_canon k \<and> snd kv = v))"
proof -
  have "distinct (map (\<lambda>kv. tv_canon (fst kv)) (entries t))"
    unfolding entries_def distinct_map map_map comp_def
    by (auto intro!: inj_onI dest: cell_inj [OF assms])
  moreover have "tabmap t k = Some v \<longleftrightarrow> (\<exists>kv \<in> set (entries t). tv_canon (fst kv) = tv_canon k \<and> snd kv = v)" for k v
    unfolding cell_map [OF assms] entries_def by auto
  ultimately show ?thesis using tab_pairs_all [OF assms] by blast
qed

theorem tab_traversal_witness:
  "\<exists>es. tab_pairs env0 tab0 (mk_tv 0 LJ_TNIL) = Some es \<and> distinct (map (\<lambda>kv. tv_canon (fst kv)) es) \<and>
    (\<forall>k v. tabmap tab0 k = Some v \<longleftrightarrow> (\<exists>kv \<in> set es. tv_canon (fst kv) = tv_canon k \<and> snd kv = v))"
  by (rule tab_traversal [OF tab0_ok])

text \<open>C22: Length: \<open>lj_tab_len\<close> terminates, and its result is a border: it is zero or an
  integer key with a value, and the next integer key has none.\<close>

theorem tab_len_border:
  assumes "tab_ok e t"
  shows "\<exists>n. lj_tab_len t = Some n \<and> is_border t n"
  using assms by (rule tab_len_any)

theorem tab_len_border_witness: "\<exists>n. lj_tab_len tab0 = Some n \<and> is_border tab0 n"
  by (rule tab_len_border [OF tab0_ok])

end
