(* ===== verification/LJ_DumpEnc.thy ===== *)
theory LJ_DumpEnc
  imports LJ_DumpRead LJ_TabProps
begin

text \<open>
  The dump format as byte strings, and the two halves of the round trip for numbers and constants:
  the writer appends the encoding of its argument and stays in its buffer, and the reader takes an
  encoding off its input and returns the argument.
\<close>

section \<open>ULEB128\<close>

fun uleb :: "nat \<Rightarrow> bytes" where
  "uleb n = (if n < 128 then [of_nat n] else of_nat (n mod 128 + 128) # uleb (n div 128))"

declare uleb.simps [simp del]

lemma uleb_len: "n < 128 ^ Suc k \<Longrightarrow> length (uleb n) \<le> Suc k"
proof (induction k arbitrary: n)
  case (Suc k)
  then show ?case using Suc.IH [of "n div 128"] by (subst uleb.simps) (auto simp: div_less_iff_less_mult)
qed (simp add: uleb.simps)

lemma uleb_len5: "unat (v :: u32) < 2 ^ 32 \<Longrightarrow> length (uleb (unat v)) \<le> 5"
  using uleb_len [of "unat v" 4] by simp

lemma uleb_u32: "length (uleb (unat (v :: u32))) \<le> 5"
  using unsigned_less [of v, where ?'a = nat] by (intro uleb_len5) simp

lemma uleb_ne [simp]: "uleb n \<noteq> []"
  by (subst uleb.simps) simp

lemma or_push:
  fixes v d :: u32
  assumes "unat v < 2 ^ sh" "unat v + unat d * 2 ^ sh < 2 ^ 32"
  shows "unat (v OR push_bit sh d) = unat v + unat d * 2 ^ sh"
proof -
  have t: "take_bit sh (unat v) = unat v" using assms(1) by (rule take_bit_nat_eq_self)
  have "unat (push_bit sh d) = push_bit sh (unat d)"
    using assms(2) unfolding unsigned_push_bit_eq by (intro take_bit_nat_eq_self) (simp add: push_bit_eq_mult)
  moreover have "unat v OR push_bit sh (unat d) = unat v + push_bit sh (unat d)"
  proof (rule disjunctive_add [symmetric])
    fix k show "\<not> bit (unat v) k \<or> \<not> bit (push_bit sh (unat d)) k"
      by (subst t [symmetric]) (auto simp: bit_take_bit_iff bit_push_bit_iff_nat)
  qed
  ultimately show ?thesis by (simp add: unsigned_or_eq push_bit_eq_mult)
qed

lemma and_7f: "unat (v AND 0x7f) = unat v mod 128" for v :: u32
proof -
  have "v AND 0x7f = take_bit 7 v" by (simp add: take_bit_eq_mask mask_eq_exp_minus_1)
  then show ?thesis by (simp add: take_bit_eq_mod unat_mod_distrib)
qed

lemma word_natI: "unat x = n \<Longrightarrow> x = of_nat n" for x :: "'a::len word"
  by (drule sym) simp

lemma byte_low: "unat (ucast ((v :: u32) AND 0x7f OR 0x80) :: u8) = unat v mod 128 + 128"
proof -
  have "unat (v AND 0x7f OR push_bit 7 1) = unat v mod 128 + 128"
    by (subst or_push) (simp_all add: and_7f)
  then have u: "unat (v AND 0x7f OR 0x80) = unat v mod 128 + 128" by simp
  then have "unat (v AND 0x7f OR 0x80) < 256" by simp
  then show ?thesis unfolding unsigned_ucast_eq by (simp add: take_bit_nat_eq_self u)
qed

definition wr :: "BCWriteCtx \<Rightarrow> bytes \<Rightarrow> BCWriteCtx" where
  "wr ctx bs = ctx\<lparr>w_buf := w_buf ctx @ bs\<rparr>"

lemma wr_simps [simp]:
  "w_buf (wr ctx bs) = w_buf ctx @ bs" "w_sz (wr ctx bs) = w_sz ctx" "w_strip (wr ctx bs) = w_strip ctx"
  "w_status (wr ctx bs) = w_status ctx" "w_out (wr ctx bs) = w_out ctx" "wr (wr ctx bs) cs = wr ctx (bs @ cs)"
  "wr ctx [] = ctx"
  by (simp_all add: wr_def)

lemma rbind_simps [simp]:
  "rbind (Some (Inr x, s)) f = f s x" "rbind (Some (Inl e, s)) f = Some (Inl e, s)" "rbind None f = None"
  by (simp_all add: rbind_def)

lemma rbind_assoc: "rbind (rbind r f) g = rbind r (\<lambda>s x. rbind (f s x) g)"
  by (simp add: rbind_def split: option.split sum.split prod.split)

lemma write_byte: "length (w_buf ctx) + 1 \<le> w_sz ctx \<Longrightarrow> bcwrite_byte ctx b = Some (Inr (), wr ctx [b])"
  by (simp add: bcwrite_byte_def wr_def)

lemma write_block: "length (w_buf ctx) + length p \<le> w_sz ctx \<Longrightarrow> bcwrite_block ctx p = Some (Inr (), wr ctx p)"
  by (simp add: bcwrite_block_def wr_def)

lemma write_uleb:
  "length (w_buf ctx) + length (uleb (unat v)) \<le> w_sz ctx \<Longrightarrow>
    bcwrite_uleb128 ctx v = Some (Inr (), wr ctx (uleb (unat v)))"
proof (induction ctx v rule: bcwrite_uleb128.induct)
  case (1 ctx v)
  show ?case
  proof (cases "0x80 \<le> v")
    case False
    then have "uleb (unat v) = [ucast v]" by (subst uleb.simps) (simp add: word_le_nat_alt)
    then show ?thesis using 1(2) False by (subst bcwrite_uleb128.simps) (simp add: write_byte)
  next
    case True
    have b: "of_nat (unat v mod 128 + 128) = (ucast (v AND 0x7f OR 0x80) :: u8)"
      using word_natI [OF byte_low [of v]] by simp
    have u: "uleb (unat v) = ucast (v AND 0x7f OR 0x80) # uleb (unat (drop_bit 7 v))"
      using True b by (subst uleb.simps) (auto simp: word_le_nat_alt drop_bit_eq_div unat_div_distrib)
    show ?thesis using 1 True u by (subst bcwrite_uleb128.simps) (simp add: write_byte)
  qed
qed

text \<open>Reading back, from the second byte on; the digits above bit 32 are zero.\<close>

lemma uleb_rest_ok:
  assumes "unat v < 2 ^ sh" "unat v + n * 2 ^ sh < 2 ^ 32" "sh < 32"
  shows "uleb_rest (uleb n @ rest) v sh = Some (of_nat (unat v + n * 2 ^ sh), rest)"
  using assms
proof (induction n arbitrary: v sh rule: uleb.induct)
  case (1 n)
  define d where "d = n mod 128"
  have d: "d < 128" "d \<le> n" by (simp_all add: d_def)
  then have "d * 2 ^ sh \<le> n * 2 ^ sh" by simp
  with 1(3) have lt: "unat v + d * 2 ^ sh < 2 ^ 32" by linarith
  define w where "w = v OR push_bit sh (of_nat d)"
  have ud: "unat (of_nat d :: u32) = d" using d by (simp add: unat_of_nat_small)
  have w: "unat w = unat v + d * 2 ^ sh" using or_push [OF 1(2), of "of_nat d"] lt ud by (simp add: w_def)
  have byte: "v OR push_bit sh (ucast b AND 0x7f) = w" if "unat b mod 128 = d" for b :: u8
  proof -
    have "unat (ucast b :: u32) = unat b" by (simp add: unsigned_ucast_eq take_bit_nat_eq_self unsigned_less [where ?'a = nat, THEN less_le_trans])
    then have "ucast b AND 0x7f = (of_nat d :: u32)" using that ud and_7f [of "ucast b"] by (simp add: word_unat_eq_iff)
    then show ?thesis by (simp add: w_def)
  qed
  show ?case
  proof (cases "n < 128")
    case True
    then have "uleb n = [of_nat n]" "d = n" by (simp_all add: uleb.simps d_def)
    moreover from True have "unat (of_nat n :: u8) = n" by (simp add: unat_of_nat_small)
    ultimately show ?thesis using byte [of "of_nat n"] True 1(4) word_natI [OF w]
      by (simp add: word_le_nat_alt)
  next
    case False
    have ub: "unat (of_nat (d + 128) :: u8) = d + 128" using d(1) by (intro unat_of_nat_small) simp
    have u: "uleb n = of_nat (d + 128) # uleb (n div 128)" using False by (subst uleb.simps) (simp add: d_def)
    have n: "n = d + n div 128 * 128" by (simp add: d_def)
    have eq: "unat w + n div 128 * 2 ^ (sh + 7) = unat v + n * 2 ^ sh"
      by (subst (2) n) (simp add: w power_add algebra_simps)
    have "128 * 2 ^ sh \<le> n * 2 ^ sh" using False by (intro mult_right_mono) simp_all
    then have "128 * 2 ^ sh < (2 :: nat) ^ 32" using 1(3) by linarith
    then have "(2 :: nat) ^ (sh + 7) < 2 ^ 32" by (simp add: power_add)
    then have sh: "sh + 7 < 32" by (rule power_less_imp_less_exp [rotated]) simp
    have "unat w < 2 ^ (sh + 7)"
    proof -
      have "d * 2 ^ sh \<le> 127 * 2 ^ sh" using d(1) by (intro mult_right_mono) simp_all
      then have "unat w < 128 * 2 ^ sh" using w 1(2) by linarith
      then show ?thesis by (simp add: power_add mult.commute)
    qed
    from 1(1) [OF False this _ sh] eq 1(3)
    have "uleb_rest (uleb (n div 128) @ rest) w (sh + 7) = Some (of_nat (unat v + n * 2 ^ sh), rest)" by simp
    then show ?thesis using byte [of "of_nat (d + 128)"] ub 1(4) d(1) unfolding u
      by (simp add: word_le_nat_alt del: of_nat_add)
  qed
qed

lemma ucast8_nat: "unat (ucast (b :: u8) :: u32) = unat b"
proof -
  have "unat b < 2 ^ 8" using unsigned_less [of b, where ?'a = nat] by simp
  then show ?thesis by (simp add: unsigned_ucast_eq take_bit_nat_eq_self)
qed

text \<open>The first byte of an encoding and what follows it.\<close>

lemma uleb_first:
  obtains (last) b where "n < 128" "uleb n = [b]" "unat b = n"
  | (more) b where "128 \<le> n" "uleb n = b # uleb (n div 128)" "unat b = n mod 128 + 128"
proof (cases "n < 128")
  case True
  then have "unat (of_nat n :: u8) = n" by (intro unat_of_nat_small) simp
  then show ?thesis using True by (intro last [of "of_nat n"]) (simp_all add: uleb.simps)
next
  case False
  have "n mod 128 < 128" by simp
  then have "unat (of_nat (n mod 128 + 128) :: u8) = n mod 128 + 128" by (intro unat_of_nat_small) simp
  then show ?thesis using False by (intro more [of "of_nat (n mod 128 + 128)"]) (auto simp: uleb.simps [of n])
qed

lemma read_uleb:
  assumes "ls_p ls = uleb (unat v) @ rest"
  shows "bcread_uleb128 ls = Some (Inr v, ls\<lparr>ls_p := rest\<rparr>)"
proof (cases rule: uleb_first [of "unat v"])
  case (last b)
  have "ucast b = v" using last by (simp add: word_unat_eq_iff ucast8_nat)
  then show ?thesis using assms last by (simp add: bcread_uleb128_def word_le_nat_alt)
next
  case (more b)
  have m: "unat (ucast b AND 0x7f :: u32) = unat v mod 128" using more(3) by (simp add: and_7f ucast8_nat)
  have e: "unat v mod 128 + unat v div 128 * 2 ^ 7 = unat v" by simp
  have "uleb_rest (uleb (unat v div 128) @ rest) (ucast b AND 0x7f) 7 = Some (v, rest)"
    using uleb_rest_ok [of "ucast b AND 0x7f" 7 "unat v div 128" rest] unsigned_less [of v, where ?'a = nat]
    unfolding m e by simp
  then show ?thesis using assms more by (simp add: bcread_uleb128_def word_le_nat_alt ucast8_nat Let_def)
qed

text \<open>A 33 bit number \<open>2 * v + b\<close>: the reader returns \<open>v\<close>, the lowest bit is in the first byte.\<close>

lemma read_uleb33:
  assumes "ls_p ls = uleb (2 * unat v + b) @ rest" "b < 2"
  shows "bcread_uleb128_33 ls = Some (Inr v, ls\<lparr>ls_p := rest\<rparr>)" "unat (hd (ls_p ls)) mod 2 = b"
proof -
  let ?n = "2 * unat v + b"
  have s: "unat (drop_bit 1 (ucast c :: u32)) = unat c div 2" for c :: u8
    by (simp add: drop_bit_eq_div unat_div_distrib ucast8_nat)
  have n2: "?n div 2 = unat v" using assms(2) by simp
  have "bcread_uleb128_33 ls = Some (Inr v, ls\<lparr>ls_p := rest\<rparr>) \<and> unat (hd (ls_p ls)) mod 2 = b"
  proof (cases rule: uleb_first [of ?n])
    case (last c)
    have "drop_bit 1 (ucast c) = v" using last s [of c] n2 by (simp add: word_unat_eq_iff)
    then show ?thesis using assms last by (simp add: bcread_uleb128_33_def word_le_nat_alt del: drop_bit_Suc)
  next
    case (more c)
    define x :: u32 where "x = drop_bit 1 (ucast c)"
    have x: "unat x = (?n mod 128 + 128) div 2" using more(3) s [of c] by (simp add: x_def)
    have "x AND 0x3f = take_bit 6 x" by (simp add: take_bit_eq_mask mask_eq_exp_minus_1)
    then have "unat (x AND 0x3f) = (?n mod 128 + 128) div 2 mod 64" by (simp add: take_bit_eq_mod unat_mod_distrib x)
    also have "\<dots> = ?n mod 128 div 2"
    proof -
      have "(r + 128) div 2 mod 64 = r div 2" if "r < 128" for r :: nat
      proof -
        have "(r + 64 * 2) div 2 = 64 + r div 2" by (subst div_mult_self1) simp_all
        moreover have "r div 2 < 64" using that by (simp add: div_less_iff_less_mult)
        ultimately show ?thesis by simp
      qed
      then show ?thesis by simp
    qed
    finally have m: "unat (x AND 0x3f) = ?n mod 128 div 2" .
    have e: "?n mod 128 div 2 + ?n div 128 * 2 ^ 6 = unat v"
    proof -
      have "(?n mod 128 + ?n div 128 * 64 * 2) div 2 = ?n div 128 * 64 + ?n mod 128 div 2"
        by (subst div_mult_self1) simp_all
      moreover have "?n mod 128 + ?n div 128 * 64 * 2 = ?n" using mod_div_mult_eq [of ?n 128] by simp
      ultimately show ?thesis using n2 by simp
    qed
    have "uleb_rest (uleb (?n div 128) @ rest) (x AND 0x3f) 6 = Some (v, rest)"
      using uleb_rest_ok [of "x AND 0x3f" 6 "?n div 128" rest] unsigned_less [of v, where ?'a = nat]
      unfolding m e by simp
    moreover have "0x40 \<le> x" using x by (simp add: word_le_nat_alt)
    moreover have "(?n mod 128 + 128) mod 2 = b"
    proof -
      have "(r + 128) mod 2 = r mod 2" for r :: nat by (simp add: mod_add_eq [of r 2 128, symmetric])
      then show ?thesis using assms(2) mod_mod_cancel [of 2 128 ?n] by simp
    qed
    ultimately show ?thesis using assms more by (simp add: bcread_uleb128_33_def x_def [symmetric, unfolded One_nat_def] Let_def)
  qed
  then show "bcread_uleb128_33 ls = Some (Inr v, ls\<lparr>ls_p := rest\<rparr>)" "unat (hd (ls_p ls)) mod 2 = b" by auto
qed

subsection \<open>The patched last byte of a 33 bit number\<close>

text \<open>The number that is written, with the top bit of \<open>k\<close> in place of the one shifted out.\<close>

definition word33 :: "u32 \<Rightarrow> nat \<Rightarrow> u32" where
  "word33 k b = of_nat b + (2 * k OR (k AND 0x80000000))"

lemma even_or1: "even x \<Longrightarrow> 1 + x = x OR 1" for x :: u32
  by (subst disjunctive_add [symmetric]) (auto simp: bit_1_iff bit_0 intro!: gr0I)

lemma bit_2nat: "b < 2 \<Longrightarrow> bit (2 * unat (k :: u32) + b) i \<longleftrightarrow> (if i = 0 then b = 1 else bit k (i - 1))"
  by (cases i) (auto simp: bit_0 bit_Suc bit_unsigned_iff less_2_cases_iff dest: bit_imp_le_length)

lemma word33_bit:
  assumes "b < 2"
  shows "bit (word33 k b) i \<longleftrightarrow> i < 32 \<and> (bit (2 * unat k + b) i \<or> i = 31 \<and> bit k 31)"
proof -
  note n = bit_2nat [OF assms, of k i]
  define x where "x = 2 * k OR (k AND 0x80000000)"
  have x: "bit x i \<longleftrightarrow> i < 32 \<and> (0 < i \<and> bit k (i - 1) \<or> i = 31 \<and> bit k 31)" for i
  proof -
    have h: "(0x80000000 :: u32) = push_bit 31 1" by simp
    have "2 * k = push_bit 1 k" by simp
    then show ?thesis unfolding x_def h by (auto simp: bit_simps simp del: push_bit_of_1)
  qed
  have "even x" using x [of 0] by (simp add: bit_0)
  then have "word33 k b = (if b = 1 then x OR 1 else x)"
    using assms even_or1 [of x] by (auto simp: word33_def x_def [symmetric] less_2_cases_iff)
  then show ?thesis using x [of i] n by (auto simp: bit_or_iff bit_1_iff)
qed

lemma word33_small:
  assumes "b < 2" "unat k < 2 ^ 31"
  shows "unat (word33 k b) = 2 * unat k + b"
proof (rule bit_eqI)
  fix i
  have "2 * unat k + b < 2 ^ 32" using assms by simp
  then have "bit (2 * unat k + b) i \<Longrightarrow> i < 32" by (metis bit_take_bit_iff take_bit_nat_eq_self)
  moreover have "\<not> bit k 31" using assms(2) bit_lt_bound [of k 31 31] by (auto simp: word_less_nat_alt)
  ultimately show "bit (unat (word33 k b)) i \<longleftrightarrow> bit (2 * unat k + b) i"
    using word33_bit [OF assms(1), of k i] by (auto simp: bit_unsigned_iff)
qed

lemma uleb_5:
  assumes "2 ^ 28 \<le> n" "n < 2 ^ 35"
  shows "uleb n = map of_nat [n mod 128 + 128, n div 128 mod 128 + 128, n div 128 div 128 mod 128 + 128,
    n div 128 div 128 div 128 mod 128 + 128, n div 2 ^ 28]"
proof -
  have d: "\<not> n < 128" "\<not> n div 128 < 128" "\<not> n div 128 div 128 < 128" "\<not> n div 128 div 128 div 128 < 128"
    "n div 128 div 128 div 128 div 128 < 128"
    using assms by (simp_all add: div_mult2_eq [symmetric] div_less_iff_less_mult less_eq_div_iff_mult_less_eq not_less)
  have q: "n div 128 div 128 div 128 div 128 = n div 2 ^ 28" by (simp add: div_mult2_eq [symmetric])
  show ?thesis
    unfolding uleb.simps [of n] uleb.simps [of "n div 128"] uleb.simps [of "n div 128 div 128"]
      uleb.simps [of "n div 128 div 128 div 128"] uleb.simps [of "n div 128 div 128 div 128 div 128"]
    using d q by simp
qed

definition low4 :: "nat \<Rightarrow> bytes" where
  "low4 m = map (\<lambda>i. of_nat (take_bit 7 (drop_bit i m) + 128)) [0, 7, 14, 21]"

lemma uleb_low4:
  assumes "2 ^ 28 \<le> n" "n < 2 ^ 35"
  shows "uleb n = low4 (take_bit 28 n) @ [of_nat (drop_bit 28 n)]"
proof -
  have t: "take_bit 7 (drop_bit i (take_bit 28 n)) = take_bit 7 (drop_bit i n)" if "i + 7 \<le> 28" for i
    using that by (intro bit_eqI) (auto simp: bit_simps)
  show ?thesis
    unfolding uleb_5 [OF assms] low4_def using t [of 0] t [of 7] t [of 14] t [of 21]
    by (simp add: take_bit_eq_mod drop_bit_eq_div div_mult2_eq [symmetric])
qed

lemma uleb33_big:
  assumes "b < 2" "2 ^ 31 \<le> unat k"
  obtains c where "uleb (unat (word33 k b)) = low4 (take_bit 28 (2 * unat k + b)) @ [c]"
    "uleb (2 * unat k + b) = low4 (take_bit 28 (2 * unat k + b)) @ [(c AND 7) OR (ucast (drop_bit 27 k) AND 0x18)]"
proof -
  let ?N = "2 * unat k + b" and ?w = "word33 k b"
  have k31: "bit k 31"
  proof (rule ccontr)
    assume n: "\<not> bit k 31"
    have "take_bit 31 k = k"
    proof (rule bit_word_eqI)
      fix i assume "i < LENGTH(32)"
      then show "bit (take_bit 31 k) i = bit k i" using n by (cases "i = 31") (auto simp: bit_simps)
    qed
    then have "unat k < 2 ^ 31" by (metis take_bit_nat_less_exp unsigned_take_bit_eq)
    with assms(2) show False by simp
  qed
  have w: "bit ?w i \<longleftrightarrow> i < 32 \<and> (bit ?N i \<or> i = 31)" for i using word33_bit [OF assms(1), of k i] k31 by blast
  have low: "take_bit 28 (unat ?w) = take_bit 28 ?N"
    by (intro bit_eqI) (auto simp: bit_simps w)
  have "bit (unat ?w) 31" using w by (simp add: bit_unsigned_iff)
  then have "2 ^ 31 \<le> unat ?w" by (metis bit_take_bit_iff less_irrefl not_le take_bit_nat_eq_self)
  then have u: "uleb (unat ?w) = low4 (take_bit 28 ?N) @ [of_nat (drop_bit 28 (unat ?w))]"
    using uleb_low4 [of "unat ?w"] unsigned_less [of ?w, where ?'a = nat] low by simp
  have "?N < 2 ^ 33" using assms(1) unsigned_less [of k, where ?'a = nat] by simp
  then have N: "uleb ?N = low4 (take_bit 28 ?N) @ [of_nat (drop_bit 28 ?N)]"
    using uleb_low4 [of ?N] assms(2) by simp
  have "drop_bit 28 ?N = drop_bit 27 (unat k)" using assms(1) 
    by (simp add: drop_bit_eq_div div_mult2_eq [of _ 2 "2 ^ 27", simplified])
  also have "\<dots> = unat (drop_bit 27 k)" by (rule unat_drop_bit_eq [symmetric])
  finally have d: "(of_nat (drop_bit 28 ?N) :: u8) = ucast (drop_bit 27 k)" by (simp only: of_nat_unat)
  have "(of_nat (drop_bit 28 (unat ?w)) :: u8) = ucast (drop_bit 28 ?w)"
    unfolding unat_drop_bit_eq [symmetric] by (rule of_nat_unat)
  moreover have "(ucast (drop_bit 28 ?w) AND 7) OR (ucast (drop_bit 27 k) AND 0x18) = (ucast (drop_bit 27 k) :: u8)"
  proof (rule bit_word_eqI)
    fix i assume "i < LENGTH(8)"
    then have "i \<in> {0, 1, 2, 3, 4, 5, 6, 7}" by auto
    moreover have "bit ?w 28 = bit k 27" "bit ?w 29 = bit k 28" "bit ?w 30 = bit k 29"
      using w [of 28] w [of 29] w [of 30] bit_2nat [OF assms(1), of k 28] bit_2nat [OF assms(1), of k 29]
        bit_2nat [OF assms(1), of k 30] by simp_all
    moreover have "\<not> bit k 32" "\<not> bit k 33" "\<not> bit k 34" by (auto dest: bit_imp_le_length)
    ultimately show "bit ((ucast (drop_bit 28 ?w) AND 7) OR (ucast (drop_bit 27 k) AND 0x18) :: u8) i = bit (ucast (drop_bit 27 k) :: u8) i"
      by (auto simp: bit_simps bit_numeral_rec)
  qed
  ultimately show ?thesis using that [of "of_nat (drop_bit 28 (unat ?w))"] u N d by simp
qed

end
