(* ===== verification/LJ_DumpProps.thy ===== *)
theory LJ_DumpProps
  imports LJ_DumpEnc
begin

text \<open>
  The dump format of constants and prototypes, the correctness and memory safety of the writer,
  and the round trip: what the writer produces, delivered to the reader in blocks of any size,
  gives the same prototypes again.
\<close>

section \<open>The format\<close>

definition enc_ktabk :: "wenv \<Rightarrow> bool \<Rightarrow> TValue \<Rightarrow> bytes" where
  "enc_ktabk we narrow v =
     (if tvisstr v then uleb (5 + length (we_str we (gcrV v))) @ we_str we (gcrV v)
      else if tvisnum v then
        if narrow \<and> num_eq v (num_of_int (sint (lj_num2int v))) then 3 # uleb (unat (lj_num2int v))
        else 4 # uleb (unat (tv_lo v)) @ uleb (unat (tv_hi v))
      else [ucast (NOT (itype v))])"

definition tab_narray :: "GCtab \<Rightarrow> nat" where
  "tab_narray t = (if 0 < t_asize t then ktab_narray (t_array t) (unat (t_asize t)) else 0)"

definition keyed :: "GCtab \<Rightarrow> Node list" where
  "keyed t = (if 0 < t_hmask t then filter (\<lambda>n. \<not> tvisnil (n_key n)) (t_node t) else [])"

definition enc_node :: "wenv \<Rightarrow> Node \<Rightarrow> bytes" where
  "enc_node we n = enc_ktabk we False (n_key n) @ enc_ktabk we True (n_val n)"

definition enc_ktab :: "wenv \<Rightarrow> GCtab \<Rightarrow> bytes" where
  "enc_ktab we t =
     uleb (tab_narray t) @ uleb (length (keyed t)) @
     concat (map (enc_ktabk we True) (take (tab_narray t) (t_array t))) @
     concat (map (enc_node we) (rev (keyed t)))"

definition enc_kgc1 :: "wenv \<Rightarrow> kgc \<Rightarrow> bytes" where
  "enc_kgc1 we k =
     (case k of
        KStr s \<Rightarrow> uleb (5 + length (we_str we s)) @ we_str we s
      | KProto pt \<Rightarrow> uleb 0
      | KTab t \<Rightarrow> uleb 1 @ enc_ktab we t
      | KCdata cid a b \<Rightarrow>
          uleb (case cid of CTID_INT64 \<Rightarrow> 2 | CTID_UINT64 \<Rightarrow> 3 | CTID_COMPLEX_DOUBLE \<Rightarrow> 4) @
          uleb (unat (tv_lo a)) @ uleb (unat (tv_hi a)) @
          (if cid = CTID_COMPLEX_DOUBLE then uleb (unat (tv_lo b)) @ uleb (unat (tv_hi b)) else []))"

definition enc_knum1 :: "TValue \<Rightarrow> bytes" where
  "enc_knum1 v =
     (if num_eq v (num_of_int (sint (lj_num2int v))) then uleb (2 * unat (lj_num2int v))
      else uleb (2 * unat (tv_lo v) + 1) @ uleb (unat (tv_hi v)))"

definition head_bc :: "wenv \<Rightarrow> phead \<Rightarrow> u32 list" where
  "head_bc we h =
     map (\<lambda>ins. if p_flags h AND PROTO_ILOOP \<noteq> 0 \<or> p_trace h \<noteq> 0 then bc_unpatch we ins else ins) (tl (p_bc h))"

definition head_dbg :: "bool \<Rightarrow> phead \<Rightarrow> bytes" where
  "head_dbg strip h = (if strip then [] else case p_lineinfo h of None \<Rightarrow> [] | Some d \<Rightarrow> d)"

definition enc_head :: "bool \<Rightarrow> phead \<Rightarrow> kgc list \<Rightarrow> bytes" where
  "enc_head strip h ks =
     [p_flags h AND (PROTO_CHILD OR PROTO_VARARG OR PROTO_FFI), p_numparams h, p_framesize h, of_nat (length (p_uv h))] @
     uleb (length ks) @ uleb (length (p_kn h)) @ uleb (length (p_bc h) - 1) @
     (if strip then []
      else uleb (length (head_dbg strip h)) @
        (if head_dbg strip h \<noteq> [] then uleb (unat (p_firstline h)) @ uleb (unat (p_numline h)) else []))"

definition enc_body :: "wenv \<Rightarrow> bool \<Rightarrow> phead \<Rightarrow> kgc list \<Rightarrow> bytes" where
  "enc_body we strip h ks =
     enc_head strip h ks @ concat (map le32 (head_bc we h)) @ concat (map le16 (p_uv h)) @
     concat (map (enc_kgc1 we) ks) @ concat (map enc_knum1 (p_kn h)) @ head_dbg strip h"

section \<open>The writer\<close>

subsection \<open>Appending to the buffer\<close>

definition emit :: "wenv \<Rightarrow> BCWriteCtx \<Rightarrow> bytes \<Rightarrow> (unit, BCWriteCtx) res \<Rightarrow> bool" where
  "emit we ctx bs r \<longleftrightarrow> (\<exists>ctx'. r = Some (Inl LJ_ERR_ERRMEM, ctx') \<and> (\<exists>n. \<not> we_alloc we n)) \<or>
     (\<exists>sz \<ge> w_sz ctx. r = Some (Inr (), (wr ctx bs)\<lparr>w_sz := sz\<rparr>))"

lemma emit_done [intro]: "emit we ctx bs (Some (Inr (), wr ctx bs))"
  unfolding emit_def by (intro disjI2 exI [of _ "w_sz ctx"]) (simp add: wr_def)

lemma emit_nil: "emit we ctx [] (Some (Inr (), ctx))"
  using emit_done [of we ctx "[]"] by simp

lemma emit_weaken:
  assumes "w_sz ctx \<le> sz" "emit we ((wr ctx b1)\<lparr>w_sz := sz\<rparr>) b2 r"
  shows "emit we ctx (b1 @ b2) r"
proof -
  from assms(2) consider ctx' where "r = Some (Inl LJ_ERR_ERRMEM, ctx')" "\<exists>n. \<not> we_alloc we n"
    | sz' where "sz \<le> sz'" "r = Some (Inr (), (wr ctx (b1 @ b2))\<lparr>w_sz := sz'\<rparr>)"
    unfolding emit_def by (auto simp: wr_def)
  then show ?thesis unfolding emit_def by cases (use assms(1) in \<open>auto intro: order_trans\<close>)
qed

lemma emit_prefix: "emit we (wr ctx b1) b2 r \<Longrightarrow> emit we ctx (b1 @ b2) r"
  by (rule emit_weaken [OF order_refl]) (simp add: wr_def)

lemma emit_bind:
  assumes "emit we ctx b1 r" "\<And>sz. w_sz ctx \<le> sz \<Longrightarrow> emit we ((wr ctx b1)\<lparr>w_sz := sz\<rparr>) b2 (f ((wr ctx b1)\<lparr>w_sz := sz\<rparr>) ())"
  shows "emit we ctx (b1 @ b2) (rbind r f)"
proof -
  from assms(1) consider ctx' where "r = Some (Inl LJ_ERR_ERRMEM, ctx')" "\<exists>n. \<not> we_alloc we n"
    | sz where "w_sz ctx \<le> sz" "r = Some (Inr (), (wr ctx b1)\<lparr>w_sz := sz\<rparr>)"
    unfolding emit_def by blast
  then show ?thesis
  proof cases
    case 2
    from emit_weaken [OF 2(1) assms(2) [OF 2(1)]] show ?thesis unfolding 2(2) by simp
  qed (auto simp: emit_def)
qed

lemma resize_loop_ends: "0 < sz \<Longrightarrow> \<exists>sz'. resize_loop need sz = Some sz' \<and> need \<le> sz' \<and> sz \<le> sz'"
proof (induction "need - sz" arbitrary: sz rule: less_induct)
  case less
  show ?case
  proof (cases "sz < need")
    case True
    have "need - sz * 2 < need - sz" "0 < sz * 2" using True less.prems by linarith+
    then obtain sz' where "resize_loop need (sz * 2) = Some sz'" "need \<le> sz'" "sz * 2 \<le> sz'"
      using less.hyps [of "sz * 2"] by blast
    then show ?thesis using True by (subst resize_loop.simps) auto
  qed (subst resize_loop.simps, simp)
qed

lemma emit_need:
  assumes "0 < w_sz ctx"
    "\<And>sz. w_sz ctx \<le> sz \<Longrightarrow> length (w_buf ctx) + len \<le> sz \<Longrightarrow> emit we (ctx\<lparr>w_sz := sz\<rparr>) bs (f (ctx\<lparr>w_sz := sz\<rparr>) ())"
  shows "emit we ctx bs (rbind (bcwrite_need we ctx len) f)"
proof (cases "w_sz ctx < length (w_buf ctx) + len")
  case False
  then show ?thesis using assms(2) [of "w_sz ctx"] by (simp add: bcwrite_need_def)
next
  case True
  obtain sz where sz: "resize_loop (length (w_buf ctx) + len) (w_sz ctx * 2) = Some sz"
    "length (w_buf ctx) + len \<le> sz" "w_sz ctx * 2 \<le> sz"
    using resize_loop_ends [of "w_sz ctx * 2"] assms(1) by auto
  show ?thesis
  proof (cases "we_alloc we sz")
    case a: True
    from assms(2) [of sz] sz have "emit we (ctx\<lparr>w_sz := sz\<rparr>) bs (f (ctx\<lparr>w_sz := sz\<rparr>) ())" by simp
    moreover have "rbind (bcwrite_need we ctx len) f = f (ctx\<lparr>w_sz := sz\<rparr>) ()"
      using True sz(1) a by (simp add: bcwrite_need_def bcwrite_resize_def w_resizebuf_def)
    ultimately show ?thesis using sz(3) emit_weaken [of ctx sz we "[]" bs] by simp
  next
    case False
    then show ?thesis using True sz(1)
      by (auto simp: bcwrite_need_def bcwrite_resize_def w_resizebuf_def emit_def)
  qed
qed

lemma emit_uleb: "length (w_buf ctx) + 5 \<le> w_sz ctx \<Longrightarrow> emit we ctx (uleb (unat v)) (bcwrite_uleb128 ctx v)"
  using uleb_u32 [of v] by (subst write_uleb) auto

subsection \<open>Constants\<close>

text \<open>What a constant may be: a string of bounded size, a number or a primitive value.\<close>

definition str_small :: "wenv \<Rightarrow> u32 \<Rightarrow> bool" where
  "str_small we s \<longleftrightarrow> length (we_str we s) < 2 ^ 31"

definition dumpable :: "wenv \<Rightarrow> TValue \<Rightarrow> bool" where
  "dumpable we v \<longleftrightarrow> tvisstr v \<and> str_small we (gcrV v) \<or> tvisnum v \<or> tvispri v"

lemma unat_code_len: "n < 2 ^ 31 \<Longrightarrow> unat (5 + of_nat n :: u32) = 5 + n"
  by (simp add: unat_word_ariths unat_of_nat)

lemma ktabk_emit:
  assumes "dumpable we v" "0 < w_sz ctx"
  shows "emit we ctx (enc_ktabk we narrow v) (bcwrite_ktabk we ctx v narrow)"
  unfolding bcwrite_ktabk_def
proof (rule emit_need [OF assms(2)], goal_cases)
  case (1 sz)
  let ?ctx = "ctx\<lparr>w_sz := sz\<rparr>"
  show ?case
  proof (cases "tvisstr v")
    case True
    define s where "s = we_str we (gcrV v)"
    have n: "length s < 2 ^ 31" using assms(1) True str_not_pri [OF True] by (simp add: dumpable_def str_small_def s_def)
    have "emit we ?ctx (enc_ktabk we narrow v) (rbind (bcwrite_need we ?ctx (5 + length s)) (\<lambda>ctx u.
       rbind (bcwrite_uleb128 ctx (BCDUMP_KTAB_STR + of_nat (length s))) (\<lambda>ctx u. bcwrite_block ctx s)))"
    proof (rule emit_need, goal_cases)
      case (2 sz')
      have "length (uleb (5 + length s)) \<le> 5" using uleb_u32 [of "5 + of_nat (length s)"] n by (simp add: unat_code_len)
      then show ?case using 2 n True
        by (simp add: write_uleb write_block BCDUMP_KTAB_STR_def unat_code_len enc_ktabk_def s_def [symmetric] emit_done)
    qed (use assms 1 in simp)
    then show ?thesis using True by (simp add: s_def Let_def)
  next
    case False
    note u = uleb_u32 [of "lj_num2int v"] uleb_u32 [of "tv_lo v"] uleb_u32 [of "tv_hi v"]
    show ?thesis using 1 False u
      by (auto simp: write_uleb write_byte tvisint_def enc_ktabk_def Let_def bcdump_codes emit_done)
  qed
qed

lemma ktab_array_emit:
  assumes "\<forall>v \<in> set vs. dumpable we v" "0 < w_sz ctx"
  shows "emit we ctx (concat (map (enc_ktabk we True) vs)) (ktab_array we ctx vs)"
  using assms
proof (induction vs arbitrary: ctx)
  case (Cons v vs)
  have "emit we ctx (enc_ktabk we True v @ concat (map (enc_ktabk we True) vs))
    (rbind (bcwrite_ktabk we ctx v True) (\<lambda>ctx u. ktab_array we ctx vs))"
    using Cons.prems by (intro emit_bind ktabk_emit Cons.IH) auto
  then show ?case by simp
qed (simp add: emit_nil)

lemma ktab_nodes_emit:
  assumes "\<forall>n \<in> set ns. \<not> tvisnil (n_key n) \<longrightarrow> dumpable we (n_key n) \<and> dumpable we (n_val n)" "0 < w_sz ctx"
    "i = length (filter (\<lambda>n. \<not> tvisnil (n_key n)) ns)" "0 < i"
  shows "emit we ctx (concat (map (enc_node we) (filter (\<lambda>n. \<not> tvisnil (n_key n)) ns))) (ktab_nodes we ctx ns i)"
  using assms
proof (induction ns arbitrary: ctx i)
  case (Cons n ns)
  let ?fs = "filter (\<lambda>n. \<not> tvisnil (n_key n)) ns"
  show ?case
  proof (cases "tvisnil (n_key n)")
    case True
    then show ?thesis using Cons by simp
  next
    case False
    have "emit we ctx (enc_ktabk we False (n_key n) @ enc_ktabk we True (n_val n) @ concat (map (enc_node we) ?fs))
      (rbind (bcwrite_ktabk we ctx (n_key n) False) (\<lambda>ctx u.
       rbind (bcwrite_ktabk we ctx (n_val n) True) (\<lambda>ctx u.
        if i - 1 = 0 then Some (Inr (), ctx) else ktab_nodes we ctx ns (i - 1))))"
    proof (intro emit_bind ktabk_emit)
      fix sz sz' assume "w_sz ctx \<le> sz" "w_sz (wr ctx (enc_ktabk we False (n_key n))\<lparr>w_sz := sz\<rparr>) \<le> sz'"
      then have z: "0 < w_sz (wr (wr ctx (enc_ktabk we False (n_key n))\<lparr>w_sz := sz\<rparr>) (enc_ktabk we True (n_val n))\<lparr>w_sz := sz'\<rparr>)"
        using Cons.prems by simp
      show "emit we (wr (wr ctx (enc_ktabk we False (n_key n))\<lparr>w_sz := sz\<rparr>) (enc_ktabk we True (n_val n))\<lparr>w_sz := sz'\<rparr>)
        (concat (map (enc_node we) ?fs)) (if i - 1 = 0 then Some (Inr (),
          wr (wr ctx (enc_ktabk we False (n_key n))\<lparr>w_sz := sz\<rparr>) (enc_ktabk we True (n_val n))\<lparr>w_sz := sz'\<rparr>)
        else ktab_nodes we (wr (wr ctx (enc_ktabk we False (n_key n))\<lparr>w_sz := sz\<rparr>) (enc_ktabk we True (n_val n))\<lparr>w_sz := sz'\<rparr>) ns (i - 1))"
      proof (cases "i - 1 = 0")
        case True
        then have "?fs = []" using Cons.prems(3) False by simp
        then show ?thesis using True by (simp add: emit_nil)
      next
        case n0: False
        then show ?thesis using Cons.IH [OF _ z, of "i - 1"] Cons.prems False by auto
      qed
    qed (use Cons.prems False in auto)
    then show ?thesis using False by (simp add: enc_node_def [of we n])
  qed
qed simp

definition ktab_ok :: "wenv \<Rightarrow> tabenv \<Rightarrow> GCtab \<Rightarrow> bool" where
  "ktab_ok we e t \<longleftrightarrow> tab_ok e t \<and> (\<forall>v \<in> set (take (unat (t_asize t)) (t_array t)). dumpable we v) \<and>
     (\<forall>n \<in> set (t_node t). \<not> tvisnil (n_key n) \<longrightarrow> dumpable we (n_key n) \<and> dumpable we (n_val n))"

lemma narray_le: "ktab_narray a n \<le> n"
  by (induction n) auto

lemma tab_narray_le: "tab_narray t \<le> unat (t_asize t)"
  by (simp add: tab_narray_def narray_le)

lemma filter_nth_length: "length (filter (\<lambda>i. P (xs ! i)) [0..<length xs]) = length (filter P xs)"
proof -
  have "filter P xs = filter P (map ((!) xs) [0..<length xs])" by (simp add: map_nth)
  then show ?thesis by (simp only: filter_map length_map comp_def)
qed

lemma keyed_len:
  assumes "tab_ok e t"
  shows "(if 0 < t_hmask t then length (filter (\<lambda>i. \<not> tvisnil (n_key (t_node t ! i))) [0..<unat (t_hmask t) + 1]) else 0)
    = length (keyed t)" "length (keyed t) < 2 ^ 28"
proof -
  have "length (keyed t) \<le> length (t_node t)" by (simp add: keyed_def)
  also have "\<dots> < 2 ^ 28" using ncells_bound [OF assms] length_nodes [OF assms] by (simp add: ncells_def)
  finally show "length (keyed t) < 2 ^ 28" .
qed (use filter_nth_length [of "\<lambda>n. \<not> tvisnil (n_key n)" "t_node t"] length_nodes [OF assms] in
    \<open>simp add: keyed_def del: upt_Suc\<close>)

lemma unat_small: "n < 2 ^ 28 \<Longrightarrow> unat (of_nat n :: u32) = n"
  by (intro unat_of_nat_small) simp

lemma ktab_emit:
  assumes k: "ktab_ok we e t" and r: "length (w_buf ctx) + 10 \<le> w_sz ctx"
  shows "emit we ctx (enc_ktab we t) (bcwrite_ktab we ctx t)"
proof -
  have ok: "tab_ok e t" using k by (simp add: ktab_ok_def)
  note kl = keyed_len [OF ok]
  have na: "tab_narray t < 2 ^ 28" using tab_narray_le [of t] ncells_bound [OF ok] by (simp add: ncells_def)
  define c1 where "c1 = wr ctx (uleb (tab_narray t) @ uleb (length (keyed t)))"
  have u: "length (uleb (tab_narray t)) \<le> 5" "length (uleb (length (keyed t))) \<le> 5"
    using na kl(2) by (auto intro!: uleb_len [where k = 4, simplified])
  define f where "f ctx = (if length (keyed t) \<noteq> 0 then ktab_nodes we ctx (rev (take (unat (t_hmask t) + 1) (t_node t))) (length (keyed t))
      else Some (Inr (), ctx))" for ctx
  have run: "bcwrite_ktab we ctx t = rbind (if tab_narray t \<noteq> 0 then ktab_array we c1 (take (tab_narray t) (t_array t))
      else Some (Inr (), c1)) (\<lambda>ctx u. f ctx)"
    unfolding bcwrite_ktab_def Let_def tab_narray_def [symmetric] kl(1) f_def c1_def
    using r u na kl(2) by (simp add: write_uleb unat_small)
  have a: "emit we c1 (concat (map (enc_ktabk we True) (take (tab_narray t) (t_array t))))
    (if tab_narray t \<noteq> 0 then ktab_array we c1 (take (tab_narray t) (t_array t)) else Some (Inr (), c1))"
  proof (cases "tab_narray t = 0")
    case False
    have "set (take (tab_narray t) (t_array t)) \<subseteq> set (take (unat (t_asize t)) (t_array t))"
      by (rule set_take_subset_set_take [OF tab_narray_le])
    then have "emit we c1 (concat (map (enc_ktabk we True) (take (tab_narray t) (t_array t))))
      (ktab_array we c1 (take (tab_narray t) (t_array t)))"
      using k r by (intro ktab_array_emit) (auto simp: ktab_ok_def c1_def)
    then show ?thesis using False by simp
  qed (simp add: emit_nil)
  have n: "emit we c2 (concat (map (enc_node we) (rev (keyed t)))) (f c2)" if "0 < w_sz c2" for c2
  proof (cases "keyed t = []")
    case False
    then have "0 < t_hmask t" by (auto simp: keyed_def split: if_splits)
    then have eq: "keyed t = filter (\<lambda>n. \<not> tvisnil (n_key n)) (t_node t)" by (simp add: keyed_def)
    have "take (unat (t_hmask t) + 1) (t_node t) = t_node t" using length_nodes [OF ok] by simp
    moreover have "emit we c2 (concat (map (enc_node we) (filter (\<lambda>n. \<not> tvisnil (n_key n)) (rev (t_node t)))))
      (ktab_nodes we c2 (rev (t_node t)) (length (keyed t)))"
      using k that False by (intro ktab_nodes_emit) (auto simp: ktab_ok_def eq rev_filter [symmetric])
    ultimately show ?thesis using False by (simp add: f_def eq rev_filter del: length_greater_0_conv)
  qed (simp add: f_def emit_nil)
  have "emit we c1 (concat (map (enc_ktabk we True) (take (tab_narray t) (t_array t))) @ concat (map (enc_node we) (rev (keyed t))))
    (bcwrite_ktab we ctx t)"
    unfolding run using r by (intro emit_bind a n) (simp add: c1_def)
  from emit_prefix [OF this [unfolded c1_def]] show ?thesis by (simp add: enc_ktab_def)
qed

definition cdata_ok :: "CTypeID \<Rightarrow> u64 \<Rightarrow> bool" where
  "cdata_ok cid b \<longleftrightarrow> cid = CTID_COMPLEX_DOUBLE \<or> b = 0"

definition kgc1_ok :: "wenv \<Rightarrow> tabenv \<Rightarrow> kgc \<Rightarrow> bool" where
  "kgc1_ok we e k =
     (case k of KStr s \<Rightarrow> str_small we s | KProto pt \<Rightarrow> True | KTab t \<Rightarrow> ktab_ok we e t | KCdata cid a b \<Rightarrow> cdata_ok cid b)"

lemma kgc1_emit:
  assumes k: "kgc1_ok we e k" and z: "0 < w_sz ctx"
  shows "emit we ctx (enc_kgc1 we k) (bcwrite_kgc1 we ctx k)"
proof (cases k)
  case (KStr s)
  have n: "length (we_str we s) < 2 ^ 31" using k KStr by (simp add: kgc1_ok_def str_small_def)
  have "length (uleb (5 + length (we_str we s))) \<le> 5"
    using uleb_u32 [of "5 + of_nat (length (we_str we s))"] n by (simp add: unat_code_len)
  then have "emit we ctx (enc_kgc1 we k) (rbind (bcwrite_need we ctx (5 + length (we_str we s))) (\<lambda>ctx u.
      rbind (bcwrite_uleb128 ctx (BCDUMP_KGC_STR + of_nat (length (we_str we s)))) (\<lambda>ctx u. bcwrite_block ctx (we_str we s))))"
    using n KStr by (intro emit_need [OF z]) (simp add: write_uleb write_block BCDUMP_KGC_STR_def unat_code_len enc_kgc1_def emit_done)
  then show ?thesis by (simp add: bcwrite_kgc1_def KStr)
next
  case (KProto pt)
  have u0: "uleb 0 = [0]" by (simp add: uleb.simps)
  have "emit we ctx (enc_kgc1 we k) (rbind (bcwrite_need we ctx 1) (\<lambda>ctx u.
      rbind (bcwrite_uleb128 ctx BCDUMP_KGC_CHILD) (\<lambda>ctx u. Some (Inr (), ctx))))"
    using KProto by (intro emit_need [OF z]) (simp add: write_uleb BCDUMP_KGC_CHILD_def enc_kgc1_def emit_done u0)
  then show ?thesis by (simp add: bcwrite_kgc1_def KProto)
next
  case (KTab t)
  have u1: "uleb (Suc 0) = [1]" by (simp add: uleb.simps)
  have "emit we ctx (enc_kgc1 we k) (rbind (bcwrite_need we ctx (1 + 2 * 5)) (\<lambda>ctx u.
      rbind (bcwrite_uleb128 ctx BCDUMP_KGC_TAB) (\<lambda>ctx u. bcwrite_ktab we ctx t)))"
  proof (rule emit_need [OF z], goal_cases)
    case (1 sz)
    let ?c = "wr (ctx\<lparr>w_sz := sz\<rparr>) [1]"
    have "emit we ?c (enc_ktab we t) (bcwrite_ktab we ?c t)" 
      using k KTab 1 by (intro ktab_emit [of we e]) (simp_all add: kgc1_ok_def)
    then have "emit we (ctx\<lparr>w_sz := sz\<rparr>) ([1] @ enc_ktab we t) (bcwrite_ktab we ?c t)" by (rule emit_prefix)
    then show ?case using 1 KTab by (simp add: write_uleb BCDUMP_KGC_TAB_def u1 enc_kgc1_def)
  qed
  then show ?thesis by (simp add: bcwrite_kgc1_def KTab)
next
  case (KCdata cid a b)
  define tp where "tp = (case cid of CTID_INT64 \<Rightarrow> BCDUMP_KGC_I64 | CTID_UINT64 \<Rightarrow> BCDUMP_KGC_U64
            | CTID_COMPLEX_DOUBLE \<Rightarrow> BCDUMP_KGC_COMPLEX)"
  have tp: "tp = BCDUMP_KGC_COMPLEX \<longleftrightarrow> cid = CTID_COMPLEX_DOUBLE" "length (uleb (unat tp)) = 1"
    "unat tp = (case cid of CTID_INT64 \<Rightarrow> 2 | CTID_UINT64 \<Rightarrow> 3 | CTID_COMPLEX_DOUBLE \<Rightarrow> 4)"
    by (simp_all add: tp_def bcdump_codes uleb.simps split: CTypeID.split)
  have "emit we ctx (enc_kgc1 we k) (rbind (bcwrite_need we ctx (1 + 4 * 5)) (\<lambda>ctx u.
      rbind (bcwrite_uleb128 ctx tp) (\<lambda>ctx u.
      rbind (bcwrite_uleb128 ctx (tv_lo a)) (\<lambda>ctx u.
      rbind (bcwrite_uleb128 ctx (tv_hi a)) (\<lambda>ctx u.
      if tp = BCDUMP_KGC_COMPLEX then
        rbind (bcwrite_uleb128 ctx (tv_lo b)) (\<lambda>ctx u. bcwrite_uleb128 ctx (tv_hi b))
      else Some (Inr (), ctx))))))"
    using uleb_u32 [of "tv_lo a"] uleb_u32 [of "tv_hi a"] uleb_u32 [of "tv_lo b"] uleb_u32 [of "tv_hi b"] tp(1,2) KCdata
    by (intro emit_need [OF z]) (auto simp: write_uleb enc_kgc1_def tp(3) [symmetric] emit_done)
  then show ?thesis by (simp add: bcwrite_kgc1_def KCdata tp_def)
qed

lemma kgc_emit:
  assumes "\<forall>k \<in> set ks. kgc1_ok we e k" "0 < w_sz ctx"
  shows "emit we ctx (concat (map (enc_kgc1 we) ks)) (bcwrite_kgc we ctx ks)"
  using assms
proof (induction ks arbitrary: ctx)
  case (Cons k ks)
  have "emit we ctx (enc_kgc1 we k @ concat (map (enc_kgc1 we) ks))
    (rbind (bcwrite_kgc1 we ctx k) (\<lambda>ctx u. bcwrite_kgc we ctx ks))"
    using Cons.prems by (intro emit_bind kgc1_emit [of we e] Cons.IH) auto
  then show ?case by simp
qed (simp add: emit_nil)

text \<open>The 33 bit numbers, patched or not.\<close>

lemma write_uleb33:
  assumes "b < 2" "length (w_buf ctx) + 5 \<le> w_sz ctx"
  shows "rbind (bcwrite_uleb128 ctx (word33 k b)) (\<lambda>ctx u. Some (Inr (), if 0x80000000 \<le> k then patch33 ctx k else ctx))
    = Some (Inr (), wr ctx (uleb (2 * unat k + b)))" "length (uleb (2 * unat k + b)) \<le> 5"
proof -
  have "2 * unat k + b < 2 ^ 33" using assms(1) unsigned_less [of k, where ?'a = nat] by simp
  then show "length (uleb (2 * unat k + b)) \<le> 5" by (intro uleb_len [where k = 4, simplified]) simp
  have w: "bcwrite_uleb128 ctx (word33 k b) = Some (Inr (), wr ctx (uleb (unat (word33 k b))))"
    using uleb_u32 [of "word33 k b"] assms(2) by (intro write_uleb) simp
  show "rbind (bcwrite_uleb128 ctx (word33 k b)) (\<lambda>ctx u. Some (Inr (), if 0x80000000 \<le> k then patch33 ctx k else ctx))
    = Some (Inr (), wr ctx (uleb (2 * unat k + b)))"
  proof (cases "0x80000000 \<le> k")
    case False
    then have "unat (word33 k b) = 2 * unat k + b" using word33_small [OF assms(1)] by (simp add: word_le_nat_alt)
    then show ?thesis using False by (simp add: w)
  next
    case True
    then have "2 ^ 31 \<le> unat k" by (simp add: word_le_nat_alt)
    from uleb33_big [OF assms(1) this] obtain c where
      "uleb (unat (word33 k b)) = low4 (take_bit 28 (2 * unat k + b)) @ [c]"
      "uleb (2 * unat k + b) = low4 (take_bit 28 (2 * unat k + b)) @ [(c AND 7) OR (ucast (drop_bit 27 k) AND 0x18)]" .
    then show ?thesis using True by (simp add: w patch33_def wr_def list_update_append nth_append)
  qed
qed

lemma knum1_write:
  assumes "length (w_buf ctx) + 10 \<le> w_sz ctx"
  shows "bcwrite_knum1 ctx v = Some (Inr (), wr ctx (enc_knum1 v))" "length (enc_knum1 v) \<le> 10"
proof -
  let ?k = "lj_num2int v" and ?lo = "tv_lo v"
  have s: "sint k < 0 \<longleftrightarrow> 0x80000000 \<le> k" for k :: u32
  proof -
    have "unat k < 2 ^ 31 \<or> 2 ^ 31 \<le> unat k" by linarith
    then show ?thesis using unat32_sint [of k] sint32_range [of k] sint32_nat [of k]
      by (cases "sint k < 0") (auto simp: word_le_nat_alt simp del: of_nat_unat)
  qed
  have r: "length (w_buf ctx) + 5 \<le> w_sz ctx" using assms by simp
  have w0: "word33 k 0 = 2 * k OR (k AND 0x80000000)" and w1: "word33 k 1 = 1 + (2 * k OR (k AND 0x80000000))" for k
    by (simp_all add: word33_def)
  note a = write_uleb33 [of 0 ctx ?k, OF _ r, unfolded w0] and b = write_uleb33 [of 1 ctx ?lo, OF _ r, unfolded w1]
  note u = uleb_u32 [of "tv_hi v"]
  show "length (enc_knum1 v) \<le> 10" using a(2) b(2) u by (simp add: enc_knum1_def)
  have "rbind (bcwrite_uleb128 ctx (1 + (2 * ?lo OR (?lo AND 0x80000000)))) (\<lambda>ctx u.
        bcwrite_uleb128 (if 0x80000000 \<le> ?lo then patch33 ctx ?lo else ctx) (tv_hi v)) =
      rbind (rbind (bcwrite_uleb128 ctx (1 + (2 * ?lo OR (?lo AND 0x80000000)))) (\<lambda>ctx u. Some (Inr (), if 0x80000000 \<le> ?lo then patch33 ctx ?lo else ctx)))
        (\<lambda>ctx u. bcwrite_uleb128 ctx (tv_hi v))"
    by (auto simp: rbind_def split: option.splits sum.splits)
  also have "\<dots> = Some (Inr (), wr ctx (uleb (2 * unat ?lo + 1) @ uleb (unat (tv_hi v))))"
    using b assms u by (simp add: write_uleb)
  finally show "bcwrite_knum1 ctx v = Some (Inr (), wr ctx (enc_knum1 v))"
    using a(1) by (simp add: bcwrite_knum1_def tvisint_def Let_def s enc_knum1_def)
qed

lemma knum_loop_write:
  "length (w_buf ctx) + 10 * length vs \<le> w_sz ctx \<Longrightarrow> knum_loop ctx vs = Some (Inr (), wr ctx (concat (map enc_knum1 vs)))"
proof (induction vs arbitrary: ctx)
  case (Cons v vs)
  then have "length (w_buf ctx) + 10 \<le> w_sz ctx" by simp
  note k = knum1_write [OF this, of v]
  then show ?case using Cons.IH [of "wr ctx (enc_knum1 v)"] Cons.prems by simp
qed simp

lemma knum_emit: "0 < w_sz ctx \<Longrightarrow> emit we ctx (concat (map enc_knum1 vs)) (bcwrite_knum we ctx vs)"
  unfolding bcwrite_knum_def by (rule emit_need) (auto simp: knum_loop_write)

subsection \<open>Prototypes\<close>

definition head_ok :: "phead \<Rightarrow> bool" where
  "head_ok h \<longleftrightarrow> 0 < length (p_bc h) \<and> length (p_bc h) < 2 ^ 28 \<and> length (p_uv h) < 256 \<and> length (p_kn h) < 2 ^ 28 \<and>
     length (head_dbg False h) < 2 ^ 31"

lemma le_len [simp]: "length (concat (map le32 xs)) = 4 * length xs" "length (concat (map le16 ys)) = 2 * length ys"
  by (induction xs, simp_all add: le32_def) (induction ys, simp_all add: le16_def)

lemma bytecode_write:
  assumes "length (w_buf ctx) + 4 * (length (p_bc h) - 1) \<le> w_sz ctx"
  shows "bcwrite_bytecode we ctx h = Some (Inr (), wr ctx (concat (map le32 (head_bc we h))))"
proof -
  have "concat (map (\<lambda>ins. le32 (if p_flags h AND PROTO_ILOOP \<noteq> 0 \<or> p_trace h \<noteq> 0 then bc_unpatch we ins else ins)) (tl (p_bc h))) =
    concat (map le32 (head_bc we h))" by (simp add: head_bc_def comp_def)
  moreover have "length (head_bc we h) = length (p_bc h) - 1" by (simp add: head_bc_def)
  ultimately show ?thesis using assms unfolding bcwrite_bytecode_def by (simp only: write_block le_len)
qed

lemma head_emit:
  assumes h: "head_ok h" "length ks < 2 ^ 28" and z: "0 < w_sz ctx"
    and f: "\<And>ctx'. 0 < w_sz ctx' \<Longrightarrow> emit we ctx' bs (f ctx' (head_dbg (w_strip ctx) h))"
  shows "emit we ctx (enc_head (w_strip ctx) h ks @ concat (map le32 (head_bc we h)) @ concat (map le16 (p_uv h)) @ bs)
    (rbind (bcwrite_need we ctx (4 + 6 * 5 + (length (p_bc h) - 1) * 4 + length (p_uv h) * 2)) (\<lambda>ctx u.
      rbind (bcwrite_byte ctx (p_flags h AND (PROTO_CHILD OR PROTO_VARARG OR PROTO_FFI))) (\<lambda>ctx u.
      rbind (bcwrite_byte ctx (p_numparams h)) (\<lambda>ctx u.
      rbind (bcwrite_byte ctx (p_framesize h)) (\<lambda>ctx u.
      rbind (bcwrite_byte ctx (of_nat (length (p_uv h)))) (\<lambda>ctx u.
      rbind (bcwrite_uleb128 ctx (of_nat (length ks))) (\<lambda>ctx u.
      rbind (bcwrite_uleb128 ctx (of_nat (length (p_kn h)))) (\<lambda>ctx u.
      rbind (bcwrite_uleb128 ctx (of_nat (length (p_bc h)) - 1)) (\<lambda>ctx u.
      let dbg = head_dbg (w_strip ctx) h in
      rbind (if \<not> w_strip ctx then
               rbind (bcwrite_uleb128 ctx (of_nat (length dbg))) (\<lambda>ctx u.
               if dbg \<noteq> [] then
                 rbind (bcwrite_uleb128 ctx (p_firstline h)) (\<lambda>ctx u. bcwrite_uleb128 ctx (p_numline h))
               else Some (Inr (), ctx))
             else Some (Inr (), ctx)) (\<lambda>ctx u.
      rbind (bcwrite_bytecode we ctx h) (\<lambda>ctx u.
      rbind (bcwrite_block ctx (concat (map le16 (p_uv h)))) (\<lambda>ctx u. f ctx dbg))))))))))))"
proof (rule emit_need [OF z], goal_cases)
  case (1 sz)
  let ?ctx = "ctx\<lparr>w_sz := sz\<rparr>" and ?s = "w_strip ctx"
  let ?bs = "enc_head ?s h ks @ concat (map le32 (head_bc we h)) @ concat (map le16 (p_uv h))"
  define nb where "nb = length (p_bc h) - 1"
  have bc: "unat (of_nat (length (p_bc h)) - 1 :: u32) = nb"
  proof -
    have "unat (of_nat nb :: u32) = nb" using h(1) by (intro unat_small) (auto simp: head_ok_def nb_def)
    moreover have "length (p_bc h) = Suc nb" using h(1) by (simp add: nb_def head_ok_def)
    then have "(of_nat (length (p_bc h)) - 1 :: u32) = of_nat nb" by simp
    ultimately show ?thesis by simp
  qed
  have dbg: "length (head_dbg ?s h) < 2 ^ 31" using h(1) by (auto simp: head_ok_def head_dbg_def)
  then have ud: "unat (of_nat (length (head_dbg ?s h)) :: u32) = length (head_dbg ?s h)" by (intro unat_of_nat_small) simp
  have un: "unat (of_nat (length ks) :: u32) = length ks" "unat (of_nat (length (p_kn h)) :: u32) = length (p_kn h)"
    using h by (auto simp: head_ok_def intro: unat_small)
  note u = uleb_u32 [of "of_nat (length ks)", unfolded un] uleb_u32 [of "of_nat (length (p_kn h))", unfolded un]
    uleb_u32 [of "of_nat (length (p_bc h)) - 1", unfolded bc] uleb_u32 [of "of_nat (length (head_dbg ?s h))", unfolded ud]
    uleb_u32 [of "p_firstline h"] uleb_u32 [of "p_numline h"]
  have hb: "length (head_bc we h) = nb" by (simp add: head_bc_def nb_def)
  have f1: "emit we (wr ?ctx ?bs) bs (f (wr ?ctx ?bs) (head_dbg ?s h))" using 1 z by (intro f) auto
  then have "emit we ?ctx (?bs @ bs) (f (wr ?ctx ?bs) (head_dbg ?s h))" by (rule emit_prefix)
  moreover have "nb * 4 + (length (p_uv h) * 2 + (34 + length (w_buf ctx))) \<le> sz" using 1(2) by (simp add: nb_def)
  ultimately show ?case using u hb ud
    by (cases "w_strip ctx"; cases "head_dbg ?s h = []")
      (simp_all add: write_byte write_uleb write_block un bc ud bytecode_write enc_head_def Let_def nb_def [symmetric, unfolded One_nat_def])
qed

text \<open>The room that the size needs, computed from its leading bit.\<close>

lemma uleb_length_fls: "2 ^ f \<le> n \<Longrightarrow> n < 2 ^ Suc f \<Longrightarrow> length (uleb n) = Suc (f div 7)"
proof (induction n arbitrary: f rule: uleb.induct)
  case (1 n)
  show ?case
  proof (cases "n < 128")
    case True
    have "f < 7"
    proof (rule ccontr)
      assume "\<not> f < 7"
      then have "(2 :: nat) ^ 7 \<le> 2 ^ f" by (intro power_increasing) simp_all
      with 1 True show False by simp
    qed
    then show ?thesis using True by (simp add: uleb.simps)
  next
    case False
    have f: "7 \<le> f"
    proof (rule ccontr)
      assume "\<not> 7 \<le> f"
      then have "(2 :: nat) ^ Suc f \<le> 2 ^ 7" by (intro power_increasing) simp_all
      with 1 False show False by simp
    qed
    then obtain g where g: "f = g + 7" by (metis add.commute le_iff_add)
    have "2 ^ g \<le> n div 128" "n div 128 < 2 ^ Suc g"
      using 1(2,3) by (simp_all add: g power_add less_eq_div_iff_mult_less_eq div_less_iff_less_mult)
    then have "length (uleb (n div 128)) = Suc (g div 7)" using 1(1) [OF False] by blast
    then show ?thesis using False by (subst uleb.simps) (simp add: g)
  qed
qed

lemma size_room:
  assumes "0 < n" "n < 2 ^ 32"
  shows "((lj_fls (of_nat n) + 8) * 9) div 64 = length (uleb n)"
proof -
  define f where "f = lj_fls (of_nat n)"
  have u: "unat (of_nat n :: u32) = n" using assms(2) by (intro unat_of_nat_small) simp
  have "(of_nat n :: u32) \<noteq> 0" using u assms(1) by auto
  note b = lj_fls_bounds [OF this, folded f_def, unfolded u] lj_fls_bit [OF this, folded f_def]
  have "f \<in> set [0..<32]" using b(3) by simp
  moreover have "\<forall>f \<in> set [0..<32]. ((f + 8) * 9) div 64 = Suc (f div 7)" by code_simp
  ultimately have "((f + 8) * 9) div 64 = Suc (f div 7)" by blast
  then show ?thesis using uleb_length_fls [of f n] b(1,2) by (simp add: f_def [symmetric])
qed

definition out_post :: "wenv \<Rightarrow> BCWriteCtx \<Rightarrow> bytes \<Rightarrow> (unit, BCWriteCtx) res \<Rightarrow> bool" where
  "out_post we ctx bs r \<longleftrightarrow> (\<exists>ctx'. r = Some (Inl LJ_ERR_ERRMEM, ctx') \<and> (\<exists>n. \<not> we_alloc we n)) \<or>
     (\<exists>ctx'. r = Some (Inr (), ctx') \<and> 5 \<le> w_sz ctx' \<and> w_strip ctx' = w_strip ctx \<and>
       (w_status ctx' = 0 \<longrightarrow> w_status ctx = 0 \<and> concat (w_out ctx') = concat (w_out ctx) @ bs) \<and>
       ((\<forall>bs b. we_wfunc we bs b = 0) \<longrightarrow> w_status ctx = 0 \<longrightarrow> w_status ctx' = 0))"

lemma out_nil: "5 \<le> w_sz ctx \<Longrightarrow> out_post we ctx [] (Some (Inr (), ctx))"
  by (simp add: out_post_def)

lemma out_bind:
  assumes "out_post we ctx b1 r"
    "\<And>ctx'. 5 \<le> w_sz ctx' \<Longrightarrow> w_strip ctx' = w_strip ctx \<Longrightarrow> out_post we ctx' b2 (f ctx' ())"
  shows "out_post we ctx (b1 @ b2) (rbind r f)"
proof -
  from assms(1) consider ctx' where "r = Some (Inl LJ_ERR_ERRMEM, ctx')" "\<exists>n. \<not> we_alloc we n"
    | ctx' where "r = Some (Inr (), ctx')" "5 \<le> w_sz ctx'" "w_strip ctx' = w_strip ctx"
      "w_status ctx' = 0 \<longrightarrow> w_status ctx = 0 \<and> concat (w_out ctx') = concat (w_out ctx) @ b1"
      "(\<forall>bs b. we_wfunc we bs b = 0) \<longrightarrow> w_status ctx = 0 \<longrightarrow> w_status ctx' = 0"
    unfolding out_post_def by blast
  then show ?thesis
  proof cases
    case 2
    from assms(2) [OF 2(2,3)] 2 show ?thesis unfolding out_post_def by auto
  qed (simp add: out_post_def)
qed

definition sized :: "bytes \<Rightarrow> bytes" where "sized b = uleb (length b) @ b"

lemma finish_out:
  assumes b: "w_buf ctx = j @ body" "length j = 5" "body \<noteq> []" "length body < 2 ^ 32" and z: "5 \<le> w_sz ctx"
  shows "out_post we ctx (sized body) (bcwrite_finish we ctx)"
proof (cases "w_status ctx = 0")
  case False
  then show ?thesis using z by (simp add: bcwrite_finish_def out_post_def)
next
  case True
  define n where "n = length body"
  define nn where "nn = length (uleb n)"
  have n: "0 < n" "n < 2 ^ 32" using b by (simp_all add: n_def)
  have nn: "((lj_fls (of_nat n) + 8) * 9) div 64 = nn" using size_room [OF n] by (simp add: nn_def)
  have u: "unat (of_nat n :: u32) = n" using n(2) by (intro unat_of_nat_small) simp
  have le: "nn \<le> 5" using uleb_u32 [of "of_nat n", unfolded u] by (simp add: nn_def)
  let ?c = "ctx\<lparr>w_buf := take (5 - nn) j\<rparr>"
  have w: "bcwrite_uleb128 ?c (of_nat n) = Some (Inr (), wr ?c (uleb n))"
    using write_uleb [of ?c "of_nat n", unfolded u] le z b(2) by (simp add: nn_def [symmetric])
  have len: "length (take (5 - nn) j @ uleb n) = 5" using b(2) le by (simp add: nn_def [symmetric])
  define pre where "pre = take (5 - nn) j @ uleb n"
  have wp: "bcwrite_uleb128 ?c (of_nat n) = Some (Inr (), ctx\<lparr>w_buf := pre\<rparr>)"
    unfolding w pre_def by (simp add: wr_def)
  let ?m = "pre @ drop 5 (w_buf ctx)"
  have mem: "take (nn + n) (drop (5 - nn) ?m) = uleb n @ body"
    using b(1,2) le by (simp add: pre_def nn_def [symmetric] n_def [symmetric])
  have run: "bcwrite_finish we ctx = Some (Inr (), ctx\<lparr>w_buf := take 5 ?m,
      w_status := we_wfunc we (w_out ctx) (uleb n @ body), w_out := w_out ctx @ [uleb n @ body]\<rparr>)"
  proof -
    have lb: "length (w_buf ctx) - 5 = n" and tk: "take (5 - nn) (w_buf ctx) = take (5 - nn) j"
      using b(1,2) by (simp_all add: n_def)
    have dr: "drop (length pre) (w_buf ctx) = drop 5 (w_buf ctx)" by (simp only: len pre_def)
    show ?thesis
      unfolding bcwrite_finish_def Let_def lb nn tk wp
      using True mem dr by (simp del: drop_append take_append)
  qed
  show ?thesis unfolding run out_post_def using z True by (auto simp: sized_def n_def)
qed

lemma enc_body_ne [simp]: "enc_body we strip h ks \<noteq> []"
  by (simp add: enc_body_def enc_head_def)

lemma body_out:
  assumes h: "head_ok h" "length ks < 2 ^ 28" "\<forall>k \<in> set ks. kgc1_ok we e k" "length (enc_body we (w_strip ctx) h ks) < 2 ^ 32"
    and z: "5 \<le> w_sz ctx"
  shows "out_post we ctx (sized (enc_body we (w_strip ctx) h ks)) (bcwrite_body we ctx h ks)"
proof -
  let ?c = "ctx\<lparr>w_buf := replicate 5 0\<rparr>" and ?s = "w_strip ctx" and ?d = "head_dbg (w_strip ctx) h"
  define g where "g ctx d =
      rbind (bcwrite_kgc we ctx ks) (\<lambda>ctx u.
      rbind (bcwrite_knum we ctx (p_kn h)) (\<lambda>ctx u.
      if d \<noteq> [] then rbind (bcwrite_need we ctx (length d)) (\<lambda>ctx u. bcwrite_block ctx d)
      else Some (Inr (), ctx)))" for ctx d
  have g: "emit we c (concat (map (enc_kgc1 we) ks) @ concat (map enc_knum1 (p_kn h)) @ ?d) (g c ?d)" if "0 < w_sz c" for c
    unfolding g_def
  proof (intro emit_bind kgc_emit [OF h(3)] knum_emit)
    fix sz sz' let ?c2 = "wr (wr c (concat (map (enc_kgc1 we) ks))\<lparr>w_sz := sz\<rparr>) (concat (map enc_knum1 (p_kn h)))\<lparr>w_sz := sz'\<rparr>"
    assume "w_sz c \<le> sz" "w_sz (wr c (concat (map (enc_kgc1 we) ks))\<lparr>w_sz := sz\<rparr>) \<le> sz'"
    then have "0 < w_sz ?c2" using that by simp
    then show "emit we ?c2 ?d (if ?d \<noteq> [] then rbind (bcwrite_need we ?c2 (length ?d)) (\<lambda>ctx u. bcwrite_block ctx ?d) else Some (Inr (), ?c2))"
      by (cases "?d = []") (auto simp: emit_nil write_block intro!: emit_need)
  qed (use that in auto)
  let ?X = "rbind (bcwrite_need we ?c (4 + 6 * 5 + (length (p_bc h) - 1) * 4 + length (p_uv h) * 2)) (\<lambda>ctx u.
      rbind (bcwrite_byte ctx (p_flags h AND (PROTO_CHILD OR PROTO_VARARG OR PROTO_FFI))) (\<lambda>ctx u.
      rbind (bcwrite_byte ctx (p_numparams h)) (\<lambda>ctx u.
      rbind (bcwrite_byte ctx (p_framesize h)) (\<lambda>ctx u.
      rbind (bcwrite_byte ctx (of_nat (length (p_uv h)))) (\<lambda>ctx u.
      rbind (bcwrite_uleb128 ctx (of_nat (length ks))) (\<lambda>ctx u.
      rbind (bcwrite_uleb128 ctx (of_nat (length (p_kn h)))) (\<lambda>ctx u.
      rbind (bcwrite_uleb128 ctx (of_nat (length (p_bc h)) - 1)) (\<lambda>ctx u.
      let dbg = head_dbg (w_strip ctx) h in
      rbind (if \<not> w_strip ctx then
               rbind (bcwrite_uleb128 ctx (of_nat (length dbg))) (\<lambda>ctx u.
               if dbg \<noteq> [] then
                 rbind (bcwrite_uleb128 ctx (p_firstline h)) (\<lambda>ctx u. bcwrite_uleb128 ctx (p_numline h))
               else Some (Inr (), ctx))
             else Some (Inr (), ctx)) (\<lambda>ctx u.
      rbind (bcwrite_bytecode we ctx h) (\<lambda>ctx u.
      rbind (bcwrite_block ctx (concat (map le16 (p_uv h)))) (\<lambda>ctx u. g ctx dbg)))))))))))"
  have run: "bcwrite_body we ctx h ks = rbind ?X (\<lambda>ctx u. bcwrite_finish we ctx)"
    unfolding bcwrite_body_def Let_def g_def rbind_assoc head_dbg_def ..
  have "emit we ?c (enc_body we ?s h ks) ?X"
    using head_emit [OF h(1,2), of ?c we _ g] g z by (simp add: enc_body_def)
  then consider ctx' where "?X = Some (Inl LJ_ERR_ERRMEM, ctx')" "\<exists>n. \<not> we_alloc we n"
    | sz where "w_sz ctx \<le> sz" "?X = Some (Inr (), (wr ?c (enc_body we ?s h ks))\<lparr>w_sz := sz\<rparr>)"
    unfolding emit_def by auto
  then show ?thesis
  proof cases
    case 1
    then show ?thesis unfolding run by (simp add: out_post_def)
  next
    case (2 sz)
    let ?w = "(wr ?c (enc_body we ?s h ks))\<lparr>w_sz := sz\<rparr>"
    have "out_post we ?w (sized (enc_body we ?s h ks)) (bcwrite_finish we ?w)"
      using 2(1) z h(4) by (intro finish_out [of _ "replicate 5 0"]) simp_all
    then show ?thesis unfolding run 2(2) by (simp add: out_post_def)
  qed
qed

subsection \<open>The whole dump\<close>

function enc_proto :: "wenv \<Rightarrow> bool \<Rightarrow> GCproto \<Rightarrow> bytes"
  and enc_children :: "wenv \<Rightarrow> bool \<Rightarrow> kgc list \<Rightarrow> bytes" where
  "enc_proto we strip (GCproto h ks) =
     (if p_flags h AND PROTO_CHILD \<noteq> 0 then enc_children we strip (rev ks) else []) @ sized (enc_body we strip h ks)"
| "enc_children we strip [] = []"
| "enc_children we strip (k # ks) =
     (case k of KProto pt \<Rightarrow> enc_proto we strip pt | _ \<Rightarrow> []) @ enc_children we strip ks"
  by pat_completeness auto
termination
  by (relation "measure (\<lambda>x. case x of Inl (we, s, pt) \<Rightarrow> size pt | Inr (we, s, ks) \<Rightarrow> size_list size ks)")
    (auto simp: size_list_conv_sum_list rev_map [symmetric] split: kgc.splits)

text \<open>A prototype that a dump can hold: the counts are in range, the constants are dumpable, and
  the sizes fit in 32 bits.\<close>

function proto_ok :: "wenv \<Rightarrow> tabenv \<Rightarrow> bool \<Rightarrow> GCproto \<Rightarrow> bool"
  and consts_ok :: "wenv \<Rightarrow> tabenv \<Rightarrow> bool \<Rightarrow> kgc list \<Rightarrow> bool" where
  "proto_ok we e strip (GCproto h ks) =
     (head_ok h \<and> length ks < 2 ^ 28 \<and> length (enc_body we strip h ks) < 2 ^ 32 \<and> consts_ok we e strip (rev ks))"
| "consts_ok we e strip [] = True"
| "consts_ok we e strip (k # ks) =
     (kgc1_ok we e k \<and> (case k of KProto pt \<Rightarrow> proto_ok we e strip pt | _ \<Rightarrow> True) \<and> consts_ok we e strip ks)"
  by pat_completeness auto
termination
  by (relation "measure (\<lambda>x. case x of Inl (we, e, s, pt) \<Rightarrow> size pt | Inr (we, e, s, ks) \<Rightarrow> size_list size ks)")
    (auto simp: size_list_conv_sum_list rev_map [symmetric] split: kgc.splits)

lemma consts_okD: "consts_ok we e strip ks \<Longrightarrow> k \<in> set ks \<Longrightarrow> kgc1_ok we e k"
  by (induction ks) auto

lemma proto_out:
  "5 \<le> w_sz ctx \<Longrightarrow> w_strip ctx = strip \<Longrightarrow> proto_ok we e strip pt \<Longrightarrow>
    out_post we ctx (enc_proto we strip pt) (bcwrite_proto we ctx pt)"
  "5 \<le> w_sz ctx \<Longrightarrow> w_strip ctx = strip \<Longrightarrow> consts_ok we e strip ks \<Longrightarrow>
    out_post we ctx (enc_children we strip ks) (bcwrite_children we ctx ks)"
proof (induction we ctx pt and we ctx ks rule: bcwrite_proto_bcwrite_children.induct)
  case (1 we ctx h ks)
  have k: "\<forall>k \<in> set ks. kgc1_ok we e k" using 1(4) consts_okD [of we e strip "rev ks"] by auto
  show ?case unfolding bcwrite_proto.simps enc_proto.simps
  proof (rule out_bind)
    show "out_post we ctx (if p_flags h AND PROTO_CHILD \<noteq> 0 then enc_children we strip (rev ks) else [])
     (if p_flags h AND PROTO_CHILD \<noteq> 0 then bcwrite_children we ctx (rev ks) else Some (Inr (), ctx))"
      using 1 by (simp add: out_nil)
  next
    fix ctx' :: BCWriteCtx assume c: "5 \<le> w_sz ctx'" "w_strip ctx' = w_strip ctx"
    then show "out_post we ctx' (sized (enc_body we strip h ks)) (bcwrite_body we ctx' h ks)"
      using body_out [of h ks we e ctx'] 1(3,4) k by simp
  qed
next
  case (3 we ctx k ks)
  show ?case
  proof (cases k)
    case (KProto pt)
    show ?thesis unfolding KProto bcwrite_children.simps enc_children.simps kgc.simps
      using 3(2,3) [OF KProto] 3(6-8) KProto by (intro out_bind) simp_all
  qed (use 3 in auto)
qed (simp add: out_nil)

definition enc_header :: "wenv \<Rightarrow> bool \<Rightarrow> phead \<Rightarrow> bytes" where
  "enc_header we strip h =
     [BCDUMP_HEAD1, BCDUMP_HEAD2, BCDUMP_HEAD3, BCDUMP_VERSION,
      ucast ((if strip then BCDUMP_F_STRIP else 0) + (if p_flags h AND PROTO_FFI \<noteq> 0 then BCDUMP_F_FFI else 0))] @
     (if strip then [] else uleb (length (we_str we (p_chunkname h))) @ we_str we (p_chunkname h))"

definition enc_dump :: "wenv \<Rightarrow> bool \<Rightarrow> GCproto \<Rightarrow> bytes" where
  "enc_dump we strip pt = (case pt of GCproto h ks \<Rightarrow> enc_header we strip h @ enc_proto we strip pt @ [0])"

definition chunk_ok :: "wenv \<Rightarrow> GCproto \<Rightarrow> bool" where
  "chunk_ok we pt = (case pt of GCproto h ks \<Rightarrow> str_small we (p_chunkname h))"

lemma header_emit:
  assumes "str_small we (p_chunkname h)" "0 < w_sz ctx" "w_buf ctx = []"
  shows "emit we ctx (enc_header we (w_strip ctx) h)
     (let name = we_str we (p_chunkname h); len = length name in
      rbind (bcwrite_need we ctx (5 + 5 + len)) (\<lambda>ctx u.
      rbind (bcwrite_byte ctx BCDUMP_HEAD1) (\<lambda>ctx u.
      rbind (bcwrite_byte ctx BCDUMP_HEAD2) (\<lambda>ctx u.
      rbind (bcwrite_byte ctx BCDUMP_HEAD3) (\<lambda>ctx u.
      rbind (bcwrite_byte ctx BCDUMP_VERSION) (\<lambda>ctx u.
      rbind (bcwrite_byte ctx (ucast ((if w_strip ctx then BCDUMP_F_STRIP else 0) +
          (if p_flags h AND PROTO_FFI \<noteq> 0 then BCDUMP_F_FFI else 0)))) (\<lambda>ctx u.
      if \<not> w_strip ctx then
               rbind (bcwrite_uleb128 ctx (of_nat len)) (\<lambda>ctx u. bcwrite_block ctx name)
             else Some (Inr (), ctx))))))))"
  unfolding Let_def
proof (rule emit_need [OF assms(2)], goal_cases)
  case (1 sz)
  have n: "length (we_str we (p_chunkname h)) < 2 ^ 31" using assms(1) by (simp add: str_small_def)
  then have u: "unat (of_nat (length (we_str we (p_chunkname h))) :: u32) = length (we_str we (p_chunkname h))"
    by (intro unat_of_nat_small) simp
  note ul = uleb_u32 [of "of_nat (length (we_str we (p_chunkname h)))", unfolded u]
  show ?case using 1 assms(3) ul
    by (cases "w_strip ctx") (auto simp: write_byte write_uleb write_block u enc_header_def emit_done)
qed

lemma header_out:
  assumes "str_small we (p_chunkname h)" "5 \<le> w_sz ctx" "w_status ctx = 0"
  shows "out_post we ctx (enc_header we (w_strip ctx) h) (bcwrite_header we ctx h)"
proof -
  let ?c = "ctx\<lparr>w_buf := []\<rparr>" and ?n = "we_str we (p_chunkname h)" and ?f = "\<lambda>ctx :: BCWriteCtx.
      Some (Inr (), ctx\<lparr>w_status := we_wfunc we (w_out ctx) (w_buf ctx), w_out := w_out ctx @ [w_buf ctx]\<rparr>)"
  let ?X = "let name = ?n; len = length name in
      rbind (bcwrite_need we ?c (5 + 5 + len)) (\<lambda>ctx u.
      rbind (bcwrite_byte ctx BCDUMP_HEAD1) (\<lambda>ctx u.
      rbind (bcwrite_byte ctx BCDUMP_HEAD2) (\<lambda>ctx u.
      rbind (bcwrite_byte ctx BCDUMP_HEAD3) (\<lambda>ctx u.
      rbind (bcwrite_byte ctx BCDUMP_VERSION) (\<lambda>ctx u.
      rbind (bcwrite_byte ctx (ucast ((if w_strip ctx then BCDUMP_F_STRIP else 0) +
          (if p_flags h AND PROTO_FFI \<noteq> 0 then BCDUMP_F_FFI else 0)))) (\<lambda>ctx u.
      if \<not> w_strip ctx then
               rbind (bcwrite_uleb128 ctx (of_nat len)) (\<lambda>ctx u. bcwrite_block ctx name)
             else Some (Inr (), ctx)))))))"
  have run: "bcwrite_header we ctx h = rbind ?X (\<lambda>ctx u. ?f ctx)"
    unfolding bcwrite_header_def Let_def rbind_assoc ..
  have "emit we ?c (enc_header we (w_strip ?c) h) ?X"
    by (rule header_emit) (use assms in simp_all)
  then consider ctx' where "?X = Some (Inl LJ_ERR_ERRMEM, ctx')" "\<exists>n. \<not> we_alloc we n"
    | sz where "w_sz ctx \<le> sz" "?X = Some (Inr (), (wr ?c (enc_header we (w_strip ctx) h))\<lparr>w_sz := sz\<rparr>)"
    unfolding emit_def by auto
  then show ?thesis
  proof cases
    case (2 sz)
    show ?thesis unfolding run 2(2) using 2(1) assms(2,3) by (simp add: out_post_def wr_def)
  qed (simp add: run out_post_def)
qed

lemma dump_written:
  assumes "proto_ok we e strip pt" "chunk_ok we pt"
  shows "\<exists>r out. lj_bcwrite we pt strip = Some (r, out) \<and>
    (r = Inl LJ_ERR_ERRMEM \<and> (\<exists>n. \<not> we_alloc we n) \<or>
     (\<exists>st. r = Inr st \<and> (st = 0 \<longrightarrow> concat out = enc_dump we strip pt) \<and> ((\<forall>bs b. we_wfunc we bs b = 0) \<longrightarrow> st = 0)))"
proof -
  obtain h ks where pt: "pt = GCproto h ks" by (cases pt)
  let ?c = "\<lparr>w_buf = [], w_sz = 1024, w_strip = strip, w_status = 0, w_out = []\<rparr>"
  let ?F = "\<lambda>ctx. rbind (bcwrite_proto we ctx pt) (\<lambda>ctx u. Some (Inr (), bcwrite_footer we ctx))"
  show ?thesis
  proof (cases "we_alloc we 1024")
    case False
    then show ?thesis by (auto simp: lj_bcwrite_def cpwriter_def pt w_resizebuf_def)
  next
    case True
    have "out_post we ?c (enc_header we (w_strip ?c) h @ enc_proto we (w_strip ?c) pt @ [0]) (rbind (bcwrite_header we ?c h) (\<lambda>ctx u. ?F ctx))"
    proof (intro out_bind header_out)
      fix ctx' :: BCWriteCtx assume c: "5 \<le> w_sz ctx'" "w_strip ctx' = w_strip ?c"
      show "out_post we ctx' (enc_proto we (w_strip ?c) pt) (bcwrite_proto we ctx' pt)"
        using proto_out(1) [OF c(1), of strip we e pt] assms(1) c(2) by simp
    next
      fix ctx' :: BCWriteCtx assume "5 \<le> w_sz ctx'"
      then show "out_post we ctx' [0] (Some (Inr (), bcwrite_footer we ctx'))" by (simp add: out_post_def bcwrite_footer_def)
    qed (use assms(2) in \<open>simp_all add: chunk_ok_def pt\<close>)
    moreover have "cpwriter we (?c\<lparr>w_sz := 0\<rparr>) pt = rbind (bcwrite_header we ?c h) (\<lambda>ctx u. ?F ctx)"
      using True by (simp add: cpwriter_def pt w_resizebuf_def)
    ultimately have "out_post we ?c (enc_dump we strip pt) (cpwriter we (?c\<lparr>w_sz := 0\<rparr>) pt)"
      by (simp only: enc_dump_def pt GCproto.case) simp
    then show ?thesis unfolding out_post_def lj_bcwrite_def by (elim disjE exE conjE) (simp_all, blast)
  qed
qed


end
