(* ===== verification/LJ_DumpRound.thy ===== *)
theory LJ_DumpRound
  imports LJ_DumpProps
begin

text \<open>
  The reader of dumps on what the writer produces. The input arrives in blocks of any size; reading
  gives back the prototype with its children and constants, or reports that memory or table space
  ran out. Values in table constants come back up to what the format does not keep: the unused half
  of a primitive value, and the sign of a zero.
\<close>

section \<open>Reading back\<close>

definition rd :: "LexState \<Rightarrow> GCproto list \<Rightarrow> bytes \<Rightarrow> ('a \<Rightarrow> bool) \<Rightarrow> ('a, LexState) res \<Rightarrow> bool" where
  "rd ls st rest P r \<longleftrightarrow>
     (\<exists>er ls'. r = Some (Inl er, ls') \<and> er \<in> {LJ_ERR_ERRMEM, LJ_ERR_TABOV}) \<or>
     (\<exists>x tot. r = Some (Inr x, ls\<lparr>ls_p := rest, ls_total := tot, ls_stack := st\<rparr>) \<and> P x)"

lemma rdI: "r = Some (Inr x, ls\<lparr>ls_p := rest\<rparr>) \<Longrightarrow> P x \<Longrightarrow> rd ls (ls_stack ls) rest P r"
  unfolding rd_def by (intro disjI2 exI [of _ x] exI [of _ "ls_total ls"]) simp

lemma rdI2: "r = Some (Inr x, ls\<lparr>ls_p := rest, ls_stack := st\<rparr>) \<Longrightarrow> P x \<Longrightarrow> rd ls st rest P r"
  unfolding rd_def by (intro disjI2 exI [of _ x] exI [of _ "ls_total ls"]) simp

lemma rd_ret: "ls_p ls = rest \<Longrightarrow> ls_stack ls = st \<Longrightarrow> P x \<Longrightarrow> rd ls st rest P (Some (Inr x, ls))"
  unfolding rd_def by (intro disjI2 exI [of _ x] exI [of _ "ls_total ls"]) auto

lemma rd_upd: "rd (ls\<lparr>ls_p := p, ls_total := t, ls_stack := s\<rparr>) st rest P r = rd ls st rest P r"
  by (simp add: rd_def)

lemma rd_upd_p: "rd (ls\<lparr>ls_p := p\<rparr>) st rest P r = rd ls st rest P r"
  by (simp add: rd_def)

lemma rd_bind:
  assumes "rd ls s1 r1 P r"
    "\<And>x ls1. P x \<Longrightarrow> ls_p ls1 = r1 \<Longrightarrow> ls_stack ls1 = s1 \<Longrightarrow> ls_flags ls1 = ls_flags ls \<Longrightarrow>
      ls_chunkname ls1 = ls_chunkname ls \<Longrightarrow> rd ls1 s2 r2 Q (f ls1 x)"
  shows "rd ls s2 r2 Q (rbind r f)"
proof -
  from assms(1) consider er ls' where "r = Some (Inl er, ls')" "er \<in> {LJ_ERR_ERRMEM, LJ_ERR_TABOV}"
    | x tot where "r = Some (Inr x, ls\<lparr>ls_p := r1, ls_total := tot, ls_stack := s1\<rparr>)" "P x"
    unfolding rd_def by blast
  then show ?thesis
  proof cases
    case 2
    from assms(2) [OF 2(2), of "ls\<lparr>ls_p := r1, ls_total := tot, ls_stack := s1\<rparr>"]
    show ?thesis unfolding 2(1) by (simp add: rd_upd)
  qed (auto simp: rd_def)
qed

lemma rd_weaken: "rd ls st rest P r \<Longrightarrow> (\<And>x. P x \<Longrightarrow> Q x) \<Longrightarrow> rd ls st rest Q r"
  unfolding rd_def by blast

lemma read_uleb_nat:
  "ls_p ls = uleb n @ rest \<Longrightarrow> n < 2 ^ 32 \<Longrightarrow> bcread_uleb128 ls = Some (Inr (of_nat n), ls\<lparr>ls_p := rest\<rparr>)"
  using read_uleb [of ls "of_nat n"] by (simp add: unat_of_nat_small)

lemma unat_u32 [simp]: "unat (v :: u32) < 4294967296"
  using unsigned_less [of v, where ?'a = nat] by simp

lemma of_nat_unat_id [simp]: "of_nat (unat (v :: u32)) = v"
  by (simp add: word_unat_eq_iff unat_of_nat_small)

lemma read_mem: "ls_p ls = b @ rest \<Longrightarrow> n = length b \<Longrightarrow> bcread_mem ls n = Some (Inr b, ls\<lparr>ls_p := rest\<rparr>)"
  by (simp add: bcread_mem_def)

text \<open>Interning gives the reference of the string again, or has no memory.\<close>

definition str_back :: "wenv \<Rightarrow> renv \<Rightarrow> u32 \<Rightarrow> bool" where
  "str_back we re s \<longleftrightarrow> re_str_new re (we_str we s) \<in> {Inr s, Inl LJ_ERR_ERRMEM}"

lemma read_str: "str_back we re s \<Longrightarrow> rd ls (ls_stack ls) (ls_p ls) ((=) s) (rd_str_new re ls (we_str we s))"
  unfolding str_back_def rd_str_new_def rd_def
  by (auto intro!: exI [of _ "ls_total ls"])

lemma read_newgco: "rd ls (ls_stack ls) (ls_p ls) (\<lambda>u. True) (rd_newgco re ls n)"
  unfolding rd_newgco_def rd_def by auto

section \<open>Table constants\<close>

definition tv_strs :: "TValue \<Rightarrow> u32 set" where "tv_strs v = (if tvisstr v then {gcrV v} else {})"

lemma uleb_byte: "n < 128 \<Longrightarrow> uleb n = [of_nat n]"
  by (simp add: uleb.simps)

lemma pri_code:
  assumes "tvispri v"
  obtains n where "n < 3" "(ucast (NOT (itype v)) :: u8) = of_nat n" "NOT (of_nat n) = itype v"
proof -
  from assms have "itype v \<in> {LJ_TNIL, LJ_TFALSE, LJ_TTRUE}"
    by (auto simp: tvispri_cases tvisnil_def tvisbool_def tvisfalse_def tvistrue_def)
  moreover have "(ucast (NOT LJ_TNIL) :: u8) = of_nat 0 \<and> NOT (of_nat 0) = LJ_TNIL \<and>
    (ucast (NOT LJ_TFALSE) :: u8) = of_nat 1 \<and> NOT (of_nat 1) = LJ_TFALSE \<and>
    (ucast (NOT LJ_TTRUE) :: u8) = of_nat 2 \<and> NOT (of_nat 2) = LJ_TTRUE" by code_simp
  ultimately show ?thesis using that [of 0] that [of 1] that [of 2] by auto
qed

lemma canon_of_int: "tvisnum v \<Longrightarrow> num_eq v (num_of_int (sint (lj_num2int v))) \<Longrightarrow> tv_canon (setintV (lj_num2int v)) = tv_canon v"
  unfolding setintV_def by (intro key_int_canon_of_int) (simp add: key_int_def)

lemma canon_pri: "tvispri v \<Longrightarrow> itype v' = itype v \<Longrightarrow> tv_canon v' = tv_canon v"
  by (simp add: tv_canon_def tvispri_def)

lemma itype_setitype [simp]: "itype (setitype v i) = i"
  by (simp add: itype_def setitype_def)

lemma read_ktabk:
  assumes d: "dumpable we v" and s: "\<forall>s \<in> tv_strs v. str_back we re s" and p: "ls_p ls = enc_ktabk we narrow v @ rest"
  shows "rd ls (ls_stack ls) rest (\<lambda>v'. tv_canon v' = tv_canon v) (bcread_ktabk re ls tv)"
proof -
  consider (str) "tvisstr v" | (int) "tvisnum v" "narrow" "num_eq v (num_of_int (sint (lj_num2int v)))"
    | (num) "tvisnum v" "\<not> (narrow \<and> num_eq v (num_of_int (sint (lj_num2int v))))" | (pri) "tvispri v"
    using d unfolding dumpable_def by blast
  then show ?thesis
  proof cases
    case str
    let ?b = "we_str we (gcrV v)"
    have n: "length ?b < 2 ^ 31" using d str str_not_pri [OF str] by (auto simp: dumpable_def str_small_def)
    have p1: "ls_p ls = uleb (5 + length ?b) @ ?b @ rest" using p str by (simp add: enc_ktabk_def)
    have t: "BCDUMP_KTAB_STR \<le> (of_nat (5 + length ?b) :: u32)" "unat (of_nat (5 + length ?b) - BCDUMP_KTAB_STR :: u32) = length ?b"
      using n by (simp_all add: BCDUMP_KTAB_STR_def word_le_nat_alt unat_code_len unat_of_nat_small)
    let ?l = "ls\<lparr>ls_p := rest\<rparr>"
    have "rd ?l (ls_stack ?l) rest (\<lambda>v'. tv_canon v' = tv_canon v)
      (rbind (rd_str_new re ?l ?b) (\<lambda>ls s. Some (Inr (setstrV s), ls)))"
    proof (rule rd_bind)
      have "str_back we re (gcrV v)" using s str by (simp add: tv_strs_def)
      from read_str [OF this, of ?l] show "rd ?l (ls_stack ?l) rest ((=) (gcrV v)) (rd_str_new re ?l ?b)" by simp
      show "rd ls1 (ls_stack ?l) rest (\<lambda>v'. tv_canon v' = tv_canon v) (Some (Inr (setstrV x), ls1))"
        if "gcrV v = x" "ls_p ls1 = rest" "ls_stack ls1 = ls_stack ?l" for x ls1
        using that str_key_eta [OF str] by (intro rd_ret) simp_all
    qed
    then show ?thesis unfolding bcread_ktabk_def
      using read_uleb_nat [OF p1] n t read_mem [of "ls\<lparr>ls_p := ?b @ rest\<rparr>" ?b rest] by (simp add: rd_upd_p)
  next
    case int
    then have p1: "ls_p ls = uleb 3 @ uleb (unat (lj_num2int v)) @ rest" "\<not> tvisstr v"
      using p str_not_pri [of v] by (auto simp: enc_ktabk_def uleb_byte)
    show ?thesis
      by (rule rdI [where x = "setintV (lj_num2int v)"])
        (simp_all add: bcread_ktabk_def read_uleb_nat [OF p1(1)] read_uleb_nat bcdump_codes canon_of_int int)
  next
    case num
    then have p1: "ls_p ls = uleb 4 @ uleb (unat (tv_lo v)) @ uleb (unat (tv_hi v)) @ rest"
      using p str_not_pri [of v] by (auto simp: enc_ktabk_def uleb_byte)
    show ?thesis
      by (rule rdI [where x = v]) (simp_all add: bcread_ktabk_def read_uleb_nat [OF p1(1)] read_uleb_nat bcdump_codes)
  next
    case pri
    obtain n where n: "n < 3" "(ucast (NOT (itype v)) :: u8) = of_nat n" "NOT (of_nat n) = itype v" using pri_code [OF pri] .
    have p1: "ls_p ls = uleb n @ rest"
      using p n pri str_not_pri [of v] num_not_pri [of v] by (auto simp: enc_ktabk_def uleb_byte)
    have t: "\<not> BCDUMP_KTAB_STR \<le> (of_nat n :: u32)" "(of_nat n :: u32) \<noteq> BCDUMP_KTAB_INT" "(of_nat n :: u32) \<noteq> BCDUMP_KTAB_NUM"
      using n(1) by (simp_all add: bcdump_codes word_le_nat_alt word_unat_eq_iff unat_of_nat_small)
    have "bcread_ktabk re ls tv = Some (Inr (setitype tv (itype v)), ls\<lparr>ls_p := rest\<rparr>)"
      using n(1) by (simp add: bcread_ktabk_def read_uleb_nat [OF p1] t n(3))
    then show ?thesis by (rule rdI) (simp add: canon_pri [OF pri, of "setitype tv (itype v)"])
  qed
qed

text \<open>The map of a table with canonical values, and its update.\<close>

definition copt :: "TValue \<Rightarrow> TValue option" where "copt v = map_option tv_canon (tv_opt v)"
definition cmap :: "GCtab \<Rightarrow> TValue \<Rightarrow> TValue option" where "cmap t k = map_option tv_canon (tabmap t k)"
definition cput :: "(TValue \<Rightarrow> TValue option) \<Rightarrow> TValue \<times> TValue \<Rightarrow> TValue \<Rightarrow> TValue option" where
  "cput m kv k = (if tv_canon k = tv_canon (fst kv) then copt (snd kv) else m k)"

lemma canon_pri_iff: "tv_canon v = tv_canon v' \<Longrightarrow> tvispri v = tvispri v'"
proof -
  have "tvispri (tv_canon v) = tvispri v" for v
    by (auto simp: tv_canon_def tvispri_def itype_def zero_halves tag_defs tvisnum_def)
  moreover assume "tv_canon v = tv_canon v'"
  ultimately show ?thesis by metis
qed

lemma canon_nil: "tv_canon v = tv_canon v' \<Longrightarrow> tvisnil v = tvisnil v'"
proof -
  assume c: "tv_canon v = tv_canon v'"
  show ?thesis
  proof (cases "tvispri v")
    case True
    then have "tvispri v'" using canon_pri_iff [OF c] by simp
    then show ?thesis using True canon_itype c unfolding tvisnil_def by metis
  qed (use canon_pri_iff [OF c] in \<open>auto simp: tvispri_cases\<close>)
qed

lemma copt_canon: "tv_canon v' = tv_canon v \<Longrightarrow> copt v' = copt v"
  using canon_nil [of v' v] by (simp add: copt_def tv_opt_def)

lemma cput_canon: "tv_canon k' = tv_canon k \<Longrightarrow> tv_canon v' = tv_canon v \<Longrightarrow> cput m (k', v') = cput m (k, v)"
  unfolding cput_def fst_conv snd_conv by (simp only: copt_canon [of v' v])

lemma key_ok_canon: "key_ok k \<Longrightarrow> tv_canon k' = tv_canon k \<Longrightarrow> key_ok k'"
proof -
  assume k: "key_ok k" and c: "tv_canon k' = tv_canon k"
  have "tv_proper k'"
  proof (cases "tvispri k")
    case True
    have "tvispri k'" using True canon_pri_iff [OF c] by simp
    moreover from this have "itype k' = itype k" using True canon_itype c by metis
    ultimately show ?thesis using k num_not_pri [of k'] by (auto simp: key_ok_def tv_proper_def)
  next
    case n: False
    show ?thesis
    proof (cases "tvisnum k")
      case True
      from canon_num [OF c [symmetric] True] k True show ?thesis
        by (auto simp: key_ok_def tv_proper_def tvisnum_def tviszero_iff num_isnan_def)
    next
      case False
      then have "k' = k" using c n canon_pri_iff [OF c] canon_num [OF c] by (auto simp: tv_canon_def split: if_splits)
      then show ?thesis using k by (simp add: key_ok_def)
    qed
  qed
  then show ?thesis using k canon_nil [OF c] by (simp add: key_ok_def)
qed

lemma slot_set_cmap: "tab_ok e t \<Longrightarrow> slot_for t k s \<Longrightarrow> cmap (slot_set t s v) = cput (cmap t) (k, v)"
  by (rule ext) (simp add: cmap_def cput_def copt_def slot_set_refine(2))

definition vals_back :: "wenv \<Rightarrow> renv \<Rightarrow> TValue set \<Rightarrow> bool" where
  "vals_back we re vs \<longleftrightarrow> (\<forall>v \<in> vs. dumpable we v \<and> (\<forall>s \<in> tv_strs v. str_back we re s))"

definition arr_key :: "nat \<Rightarrow> TValue" where "arr_key i = num_of_int (sint (of_nat i :: u32))"

lemma arr_slot: "i < unat (t_asize t) \<Longrightarrow> slot_for t (arr_key i) (SArr i)"
proof -
  assume i: "i < unat (t_asize t)"
  then have "unat (of_nat i :: u32) = i" using less_trans [OF i unat_u32] by (intro unat_of_nat_small) simp
  then show ?thesis using i by (simp add: slot_for_def arr_key_def akey_def word_less_nat_alt)
qed

lemma read_karray:
  assumes "tab_ok e t" "vals_back we re (set vs)" "ls_p ls = concat (map (enc_ktabk we True) vs) @ rest"
    "j + length vs \<le> unat (t_asize t)"
  shows "rd ls (ls_stack ls) rest (\<lambda>t'. tab_ok e t' \<and> cmap t' = foldl cput (cmap t) (zip (map arr_key [j..<j + length vs]) vs))
    (rktab_array re ls t [j..<j + length vs])"
  using assms
proof (induction vs arbitrary: j t ls)
  case Nil
  then show ?case by (auto intro!: rd_ret)
next
  case (Cons v vs)
  let ?s = "SArr j"
  have s: "slot_for t (arr_key j) ?s" using Cons.prems(4) by (intro arr_slot) simp
  have up: "[j..<j + length (v # vs)] = j # [Suc j..<Suc j + length vs]"
    by (simp add: upt_rec)
  show ?case unfolding up rktab_array.simps
  proof (rule rd_bind)
    show "rd ls (ls_stack ls) (concat (map (enc_ktabk we True) vs) @ rest) (\<lambda>v'. tv_canon v' = tv_canon v) (bcread_ktabk re ls (t_array t ! j))"
      using Cons.prems by (intro read_ktabk) (auto simp: vals_back_def)
    fix x and ls1 :: LexState assume x: "tv_canon x = tv_canon v" and l: "ls_p ls1 = concat (map (enc_ktabk we True) vs) @ rest" "ls_stack ls1 = ls_stack ls"
    let ?t = "slot_set t ?s x"
    have "rd ls1 (ls_stack ls1) rest (\<lambda>t'. tab_ok e t' \<and> cmap t' = foldl cput (cmap ?t) (zip (map arr_key [Suc j..<Suc j + length vs]) vs))
      (rktab_array re ls1 ?t [Suc j..<Suc j + length vs])"
      using Cons.prems slot_set_refine(1,3) [OF Cons.prems(1) s] l
      by (intro Cons.IH) (auto simp: vals_back_def)
    moreover have "cmap ?t = cput (cmap t) (arr_key j, v)"
      unfolding slot_set_cmap [OF Cons.prems(1) s] by (intro cput_canon refl x)
    moreover have "?t = t\<lparr>t_array := (t_array t)[j := x]\<rparr>" by (simp add: slot_set_def)
    ultimately show "rd ls1 (ls_stack ls) rest (\<lambda>t'. tab_ok e t' \<and> cmap t' = foldl cput (cmap t) (zip (map arr_key (j # [Suc j..<Suc j + length vs])) (v # vs)))
      (rktab_array re ls1 (t\<lparr>t_array := (t_array t)[j := x]\<rparr>) [Suc j..<Suc j + length vs])"
      unfolding l(2) by simp
  qed
qed

lemma read_set:
  assumes "set_post e t k r"
  shows "rd ls (ls_stack ls) (ls_p ls) (\<lambda>st. tab_ok e (snd st) \<and> slot_for (snd st) k (fst st) \<and> cmap (snd st) = cmap t) (rd_tab ls r)"
  using assms unfolding set_post_def rd_def by (auto simp: rd_tab_def cmap_def fun_eq_iff)

lemma read_khash:
  assumes "tab_ok (re_tab re) t" "\<forall>n \<in> set ns. vals_back we re {n_key n, n_val n} \<and> key_ok (n_key n)"
    "ls_p ls = concat (map (enc_node we) ns) @ rest"
  shows "rd ls (ls_stack ls) rest (\<lambda>t'. tab_ok (re_tab re) t' \<and> cmap t' = foldl cput (cmap t) (map (\<lambda>n. (n_key n, n_val n)) ns))
    (rktab_hash re ls t (length ns))"
  using assms
proof (induction ns arbitrary: t ls)
  case Nil
  then show ?case by (auto intro!: rd_ret)
next
  case (Cons n ns)
  let ?e = "re_tab re" and ?r = "concat (map (enc_node we) ns) @ rest"
  have v: "vals_back we re {n_key n, n_val n}" "key_ok (n_key n)" using Cons.prems by auto
  have "rd ls (ls_stack ls) rest (\<lambda>t'. tab_ok ?e t' \<and> cmap t' = foldl cput (cput (cmap t) (n_key n, n_val n)) (map (\<lambda>n. (n_key n, n_val n)) ns))
    (rktab_hash re ls t (Suc (length ns)))" unfolding rktab_hash.simps
  proof (rule rd_bind)
    show "rd ls (ls_stack ls) (enc_ktabk we True (n_val n) @ ?r) (\<lambda>k. tv_canon k = tv_canon (n_key n)) (bcread_ktabk re ls (n_key (e_junk ?e)))"
      using Cons.prems v by (intro read_ktabk [where narrow = False]) (auto simp: vals_back_def enc_node_def [of we n])
    fix k and ls1 :: LexState assume k: "tv_canon k = tv_canon (n_key n)" and l: "ls_p ls1 = enc_ktabk we True (n_val n) @ ?r" "ls_stack ls1 = ls_stack ls"
    have ko: "key_ok k" by (rule key_ok_canon [OF v(2) k])
    show "rd ls1 (ls_stack ls) rest (\<lambda>t'. tab_ok ?e t' \<and> cmap t' = foldl cput (cput (cmap t) (n_key n, n_val n)) (map (\<lambda>n. (n_key n, n_val n)) ns))
      (rbind (rd_tab ls1 (lj_tab_set ?e (lj_tab_newkey ?e) t k)) (\<lambda>ls st. case st of (s, t) \<Rightarrow>
       rbind (bcread_ktabk re ls (slot_get t s)) (\<lambda>ls v. rktab_hash re ls (slot_set t s v) (length ns))))"
    proof (rule rd_bind [OF read_set [OF set_any [OF Cons.prems(1) ko]]])
      fix st and ls2 :: LexState assume st: "tab_ok ?e (snd st) \<and> slot_for (snd st) k (fst st) \<and> cmap (snd st) = cmap t"
        and l2: "ls_p ls2 = ls_p ls1" "ls_stack ls2 = ls_stack ls1"
      obtain s t2 where [simp]: "st = (s, t2)" by (cases st)
      have t2: "tab_ok ?e t2" "slot_for t2 k s" "cmap t2 = cmap t" using st by simp_all
      have "rd ls2 (ls_stack ls2) rest (\<lambda>t'. tab_ok ?e t' \<and> cmap t' = foldl cput (cput (cmap t) (n_key n, n_val n)) (map (\<lambda>n. (n_key n, n_val n)) ns))
        (rbind (bcread_ktabk re ls2 (slot_get t2 s)) (\<lambda>ls v. rktab_hash re ls (slot_set t2 s v) (length ns)))"
      proof (rule rd_bind)
        show "rd ls2 (ls_stack ls2) ?r (\<lambda>x. tv_canon x = tv_canon (n_val n)) (bcread_ktabk re ls2 (slot_get t2 s))"
          using v l l2 by (intro read_ktabk [where narrow = True]) (auto simp: vals_back_def)
        fix x and ls3 :: LexState assume x: "tv_canon x = tv_canon (n_val n)" and l3: "ls_p ls3 = ?r" "ls_stack ls3 = ls_stack ls2"
        have "cmap (slot_set t2 s x) = cput (cmap t) (n_key n, n_val n)"
          unfolding slot_set_cmap [OF t2(1,2)] t2(3) by (intro cput_canon k x)
        then show "rd ls3 (ls_stack ls2) rest (\<lambda>t'. tab_ok ?e t' \<and> cmap t' = foldl cput (cput (cmap t) (n_key n, n_val n)) (map (\<lambda>n. (n_key n, n_val n)) ns))
          (rktab_hash re ls3 (slot_set t2 s x) (length ns))"
          using Cons.IH [OF slot_set_refine(1) [OF t2(1,2)], of ls3 x] Cons.prems l3 by simp
      qed
      then show "rd ls2 (ls_stack ls) rest (\<lambda>t'. tab_ok ?e t' \<and> cmap t' = foldl cput (cput (cmap t) (n_key n, n_val n)) (map (\<lambda>n. (n_key n, n_val n)) ns))
        (case st of (s, t) \<Rightarrow> rbind (bcread_ktabk re ls2 (slot_get t s)) (\<lambda>ls v. rktab_hash re ls (slot_set t s v) (length ns)))"
        using l l2 by simp
    qed
  qed
  then show ?case by simp
qed

definition written :: "GCtab \<Rightarrow> (TValue \<times> TValue) list" where
  "written t = zip (map arr_key [0..<tab_narray t]) (take (tab_narray t) (t_array t)) @
     map (\<lambda>n. (n_key n, n_val n)) (rev (keyed t))"

lemma foldl_cput:
  assumes "\<forall>kv \<in> set kvs. tv_canon (fst kv) = tv_canon k \<longrightarrow> copt (snd kv) = x"
    "(\<forall>kv \<in> set kvs. tv_canon (fst kv) \<noteq> tv_canon k) \<longrightarrow> m k = x"
  shows "foldl cput m kvs k = x"
  using assms
proof (induction kvs arbitrary: m)
  case (Cons kv kvs)
  have "foldl cput (cput m kv) kvs k = x"
    using Cons.prems by (intro Cons.IH) (auto simp: cput_def)
  then show ?case by simp
qed simp

lemma narray_max: "ktab_narray a n \<le> i \<Longrightarrow> i < n \<Longrightarrow> tvisnil (a ! i)"
  by (induction n) (auto split: if_splits simp: less_Suc_eq)

lemma keyed_used: "n \<in> set (keyed t) \<Longrightarrow> \<exists>j. used (t_node t) j \<and> n = t_node t ! j"
  by (auto simp: keyed_def used_def in_set_conv_nth split: if_splits)

lemma used_keyed: "tab_ok e t \<Longrightarrow> used (t_node t) j \<Longrightarrow> t_node t ! j \<in> set (keyed t)"
  using nil_node_list [of e t] by (cases "t_hmask t = 0") (auto simp: keyed_def used_def word_neq_0_conv)

lemma written_sound:
  assumes ok: "tab_ok e t" and kv: "kv \<in> set (written t)"
  shows "tabmap t (fst kv) = tv_opt (snd kv)"
proof -
  have len: "tab_narray t \<le> length (t_array t)" using tab_narray_le [of t] ok by (auto simp: tab_ok_def)
  from kv consider (arr) i where "i < tab_narray t" "kv = (arr_key i, t_array t ! i)"
    | (node) n where "n \<in> set (keyed t)" "kv = (n_key n, n_val n)"
    unfolding written_def by (auto simp: set_zip)
  then show ?thesis
  proof cases
    case arr
    have "i < unat (t_asize t)" using arr(1) tab_narray_le [of t] by simp
    from arr_slot [OF this] show ?thesis unfolding arr(2) by (simp add: slot_for_def tabmap_def)
  next
    case node
    then obtain j where j: "used (t_node t) j" "n = t_node t ! j" using keyed_used by blast
    then have "\<not> akey t (n_key n)" using ok by (simp add: tab_ok_def)
    then show ?thesis using hlook_holds [OF tab_hash_ok(2) [OF ok], of j "n_key n"] j by (simp add: node(2) tabmap_def holds_key_def)
  qed
qed

lemma written_complete:
  assumes ok: "tab_ok e t" and k: "tabmap t k = Some v"
  shows "\<exists>kv \<in> set (written t). tv_canon (fst kv) = tv_canon k"
proof -
  have len: "tab_narray t \<le> length (t_array t)" using tab_narray_le [of t] ok by (auto simp: tab_ok_def)
  from k obtain p where p: "p < ncells t" "full t p" "tv_canon (fst (cell t p)) = tv_canon k"
    unfolding cell_map [OF ok] by blast
  show ?thesis
  proof (cases "p < unat (t_asize t)")
    case True
    have "\<not> tvisnil (t_array t ! p)" using p(2) True by (simp add: full_def cell_def)
    then have n: "p < tab_narray t" using True narray_max [of "t_array t" "unat (t_asize t)" p]
      by (auto simp: tab_narray_def word_less_nat_alt not_less [symmetric])
    have "(arr_key p, t_array t ! p) \<in> set (zip (map arr_key [0..<tab_narray t]) (take (tab_narray t) (t_array t)))"
      using n len unfolding in_set_zip by (intro exI [of _ p]) simp
    moreover have "fst (cell t p) = arr_key p" using True by (simp add: cell_def arr_key_def setintV_def)
    ultimately show ?thesis using p(3) unfolding written_def by force
  next
    case False
    from cell_key [OF ok p(1,2)] False obtain n where n: "used (t_node t) n" "cell t p = (n_key (t_node t ! n), n_val (t_node t ! n))" by blast
    from used_keyed [OF ok n(1)] n p(3) show ?thesis unfolding written_def by force
  qed
qed

lemma written_map:
  assumes ok: "tab_ok e t"
  shows "foldl cput (\<lambda>k. None) (written t) = cmap t"
proof (rule ext, rule foldl_cput)
  fix k
  show "\<forall>kv \<in> set (written t). tv_canon (fst kv) = tv_canon k \<longrightarrow> copt (snd kv) = cmap t k"
    using written_sound [OF ok] tabmap_canon by (metis cmap_def copt_def)
  show "(\<forall>kv \<in> set (written t). tv_canon (fst kv) \<noteq> tv_canon k) \<longrightarrow> None = cmap t k"
    using written_complete [OF ok, of k] by (cases "tabmap t k") (auto simp: cmap_def)
qed

definition tab_vals :: "GCtab \<Rightarrow> TValue set" where
  "tab_vals t = set (take (unat (t_asize t)) (t_array t)) \<union> n_key ` set (keyed t) \<union> n_val ` set (keyed t)"

lemma read_ktab:
  assumes k: "ktab_ok we (re_tab re) t" "\<forall>s \<in> \<Union> (tv_strs ` tab_vals t). str_back we re s" and p: "ls_p ls = enc_ktab we t @ rest"
  shows "rd ls (ls_stack ls) rest (\<lambda>t'. tab_ok (re_tab re) t' \<and> cmap t' = cmap t) (bcread_ktab re ls)"
proof -
  let ?e = "re_tab re" and ?vs = "take (tab_narray t) (t_array t)" and ?ns = "rev (keyed t)" and ?n = "tab_narray t"
  let ?r2 = "concat (map (enc_node we) ?ns) @ rest" let ?r1 = "concat (map (enc_ktabk we True) ?vs) @ ?r2"
  have ok: "tab_ok ?e t" using k(1) by (simp add: ktab_ok_def)
  have b: "?n < 2 ^ 28" "length (keyed t) < 2 ^ 28"
    using tab_narray_le [of t] ncells_bound [OF ok] keyed_len(2) [OF ok] by (auto simp: ncells_def)
  have len: "length ?vs = ?n" using tab_narray_le [of t] ok by (auto simp: tab_ok_def)
  have sub: "set ?vs \<subseteq> set (take (unat (t_asize t)) (t_array t))" by (rule set_take_subset_set_take [OF tab_narray_le])
  have sb: "str_back we re s" if "v \<in> tab_vals t" "s \<in> tv_strs v" for v s using k(2) that by blast
  have va: "vals_back we re (set ?vs)"
    unfolding vals_back_def
  proof (intro ballI conjI)
    fix v assume "v \<in> set ?vs"
    then have "v \<in> set (take (unat (t_asize t)) (t_array t))" using sub by blast
    then show "dumpable we v" "\<And>s. s \<in> tv_strs v \<Longrightarrow> str_back we re s"
      using k(1) sb [of v] by (auto simp: ktab_ok_def tab_vals_def)
  qed
  have vn: "\<forall>n \<in> set ?ns. vals_back we re {n_key n, n_val n} \<and> key_ok (n_key n)"
  proof
    fix n assume n: "n \<in> set ?ns"
    then obtain j where j: "used (t_node t) j" "n = t_node t ! j" using keyed_used by auto
    then have "key_ok (n_key n)" using tab_hash_ok(2) [OF ok] by (simp add: keys_ok_def)
    moreover have "n \<in> set (t_node t)" "\<not> tvisnil (n_key n)" using j by (auto simp: used_def)
    ultimately show "vals_back we re {n_key n, n_val n} \<and> key_ok (n_key n)"
      using k(1) n sb [of "n_key n"] sb [of "n_val n"] by (auto simp: vals_back_def ktab_ok_def tab_vals_def)
  qed
  have p0: "ls_p ls = uleb ?n @ uleb (length (keyed t)) @ ?r1" using p by (simp add: enc_ktab_def)
  let ?l = "ls\<lparr>ls_p := ?r1\<rparr>" let ?new = "lj_tab_new ?e (ls_total ?l) (of_nat ?n) (hsize2hbits (length (keyed t)))"
  have u: "unat (of_nat ?n :: u32) = ?n" "unat (of_nat (length (keyed t)) :: u32) = length (keyed t)" using b by (simp_all add: unat_small)
  have run: "bcread_ktab re ls = rbind (rd_tab ?l ?new) (\<lambda>ls ut.
     rbind (rktab_array re ls (snd ut) [0..<?n]) (\<lambda>ls t. rktab_hash re ls t (length ?ns)))"
    using b by (simp add: bcread_ktab_def read_uleb_nat [OF p0] read_uleb_nat u)
  have "rd ?l (ls_stack ls) rest (\<lambda>t'. tab_ok ?e t' \<and> cmap t' = cmap t) (bcread_ktab re ls)" unfolding run
  proof (rule rd_bind)
    show "rd ?l (ls_stack ls) ?r1 (\<lambda>ut. tab_ok ?e (snd ut) \<and> t_asize (snd ut) = of_nat ?n \<and> cmap (snd ut) = (\<lambda>k. None)) (rd_tab ?l ?new)"
      using tab_new_any [of ?e "ls_total ?l" "of_nat ?n" "hsize2hbits (length (keyed t))"]
      unfolding rd_def by (auto simp: rd_tab_def cmap_def fun_eq_iff)
    fix ut :: "unit \<times> GCtab" and ls1 :: LexState
    assume t: "tab_ok ?e (snd ut) \<and> t_asize (snd ut) = of_nat ?n \<and> cmap (snd ut) = (\<lambda>k. None)" and l: "ls_p ls1 = ?r1" "ls_stack ls1 = ls_stack ls"
    show "rd ls1 (ls_stack ls) rest (\<lambda>t'. tab_ok ?e t' \<and> cmap t' = cmap t)
      (rbind (rktab_array re ls1 (snd ut) [0..<?n]) (\<lambda>ls t. rktab_hash re ls t (length ?ns)))"
    proof (rule rd_bind)
      show "rd ls1 (ls_stack ls) ?r2 (\<lambda>t'. tab_ok ?e t' \<and> cmap t' = foldl cput (\<lambda>k. None) (zip (map arr_key [0..<?n]) ?vs))
        (rktab_array re ls1 (snd ut) [0..<?n])"
        using read_karray [of ?e "snd ut" we re ?vs ls1 ?r2 0, unfolded len] t va l u by simp
      fix t1 and ls2 :: LexState assume t1: "tab_ok ?e t1 \<and> cmap t1 = foldl cput (\<lambda>k. None) (zip (map arr_key [0..<?n]) ?vs)"
        and l2: "ls_p ls2 = ?r2" "ls_stack ls2 = ls_stack ls"
      have "foldl cput (cmap t1) (map (\<lambda>n. (n_key n, n_val n)) ?ns) = cmap t"
        using t1 written_map [OF ok] by (simp add: written_def)
      then show "rd ls2 (ls_stack ls) rest (\<lambda>t'. tab_ok ?e t' \<and> cmap t' = cmap t) (rktab_hash re ls2 t1 (length ?ns))"
        using read_khash [of re t1 ?ns we ls2 rest] t1 vn l2 by simp
    qed
  qed
  then show ?thesis by (simp add: rd_upd_p)
qed

section \<open>Constants\<close>

definition kn_ok :: "TValue \<Rightarrow> bool" where "kn_ok v \<longleftrightarrow> tvisnum v \<and> \<not> tvismzero v"

lemma int_back:
  assumes "kn_ok v" "num_eq v (num_of_int (sint (lj_num2int v)))"
  shows "setintV (lj_num2int v) = v"
proof -
  have n: "tvisnum (setintV (lj_num2int v))" by (simp add: setintV_def)
  have c: "tv_canon (setintV (lj_num2int v)) = tv_canon v" using assms by (intro canon_of_int) (simp_all add: kn_ok_def)
  from canon_num [OF c n] consider "setintV (lj_num2int v) = v" | "tviszero (setintV (lj_num2int v))" "tviszero v" by blast
  then show ?thesis
  proof cases
    case 2
    then have "v = 0" using assms(1) by (auto simp: tviszero_iff kn_ok_def tvismzero_def)
    moreover have "lj_num2int 0 = 0" "setintV 0 = 0" by code_simp+
    ultimately show ?thesis by simp
  qed
qed

lemma odd_byte: "b AND 1 \<noteq> 0 \<longleftrightarrow> unat b mod 2 = 1" for b :: u8
proof -
  have "b AND 1 = take_bit 1 b" by (simp add: take_bit_eq_mask)
  then have "unat (b AND 1) = unat b mod 2"
    using unsigned_take_bit_eq [of 1 b, where ?'a = nat] by (simp only: take_bit_eq_mod power_one_right)
  then show ?thesis by (metis mod2_eq_if unsigned_0 unsigned_eq_0_iff zero_neq_one)
qed

lemma read_knum1:
  assumes "kn_ok v" "ls_p ls = enc_knum1 v @ rest"
  shows "bcread_knum1 ls = Some (Inr v, ls\<lparr>ls_p := rest\<rparr>)"
proof (cases "num_eq v (num_of_int (sint (lj_num2int v)))")
  case True
  then have p: "ls_p ls = uleb (2 * unat (lj_num2int v) + 0) @ rest" using assms by (simp add: enc_knum1_def)
  note r = read_uleb33 [OF p]
  obtain b q where bq: "ls_p ls = b # q" using p by (metis append_is_Nil_conv neq_Nil_conv uleb_ne)
  show ?thesis using r int_back [OF assms(1) True] unfolding bcread_knum1_def bq by (simp add: odd_byte)
next
  case False
  then have p: "ls_p ls = uleb (2 * unat (tv_lo v) + 1) @ uleb (unat (tv_hi v)) @ rest" using assms by (simp add: enc_knum1_def)
  note r = read_uleb33 [OF p]
  obtain b q where bq: "ls_p ls = b # q" using p by (metis append_is_Nil_conv neq_Nil_conv uleb_ne)
  show ?thesis using r unfolding bcread_knum1_def bq by (simp add: odd_byte read_uleb_nat)
qed

lemma read_knum:
  assumes "\<forall>v \<in> set vs. kn_ok v" "ls_p ls = concat (map enc_knum1 vs) @ rest"
  shows "bcread_knum ls (length vs) = Some (Inr vs, ls\<lparr>ls_p := rest\<rparr>)"
  using assms
proof (induction vs arbitrary: ls)
  case (Cons v vs)
  then show ?case using read_knum1 [of v ls "concat (map enc_knum1 vs) @ rest"] by simp
qed simp

lemma ld32_le: "ld32 (le32 x @ p) = x # ld32 p"
proof -
  let ?y = "ucast (ucast x :: u8) OR push_bit 8 (ucast (ucast (drop_bit 8 x) :: u8)) OR
    push_bit 16 (ucast (ucast (drop_bit 16 x) :: u8)) OR push_bit 24 (ucast (ucast (drop_bit 24 x) :: u8)) :: u32"
  have "?y = x"
  proof (rule bit_word_eqI)
    fix i assume i: "i < LENGTH(32)"
    consider "i < 8" | "8 \<le> i" "i < 16" | "16 \<le> i" "i < 24" | "24 \<le> i" by linarith
    then show "bit ?y i = bit x i" using i by cases (simp_all add: bit_simps less_diff_conv2)
  qed
  then show ?thesis by (simp add: le32_def)
qed

lemma ld16_le: "ld16 (le16 x @ p) = x # ld16 p"
proof -
  let ?y = "ucast (ucast x :: u8) OR push_bit 8 (ucast (ucast (drop_bit 8 x) :: u8)) :: u16"
  have "?y = x"
  proof (rule bit_word_eqI)
    fix i assume i: "i < LENGTH(16)"
    consider "i < 8" | "8 \<le> i" by linarith
    then show "bit ?y i = bit x i" using i by cases (simp_all add: bit_simps less_diff_conv2)
  qed
  then show ?thesis by (simp add: le16_def)
qed

lemma ld_le: "ld32 (concat (map le32 xs)) = xs" "ld16 (concat (map le16 ys)) = ys"
  by (induction xs, simp_all add: ld32_le) (induction ys, simp_all add: ld16_le)

section \<open>Prototypes\<close>

text \<open>The prototype that comes back: the flags that the reader rebuilds, the function header
  instruction, the patched instructions of compiled loops, the trace and the debug information of a
  stripped dump differ; everything else is the same.\<close>

definition head_rel :: "wenv \<Rightarrow> bool \<Rightarrow> u32 \<Rightarrow> phead \<Rightarrow> phead \<Rightarrow> bool" where
  "head_rel we strip name h h' \<longleftrightarrow>
     p_flags h' = p_flags h AND (PROTO_CHILD OR PROTO_VARARG OR PROTO_FFI) \<and>
     p_numparams h' = p_numparams h \<and> p_framesize h' = p_framesize h \<and>
     p_bc h' = BCINS_AD (if p_flags h AND PROTO_VARARG \<noteq> 0 then BC_FUNCV else BC_FUNCF) (ucast (p_framesize h)) 0 # head_bc we h \<and>
     p_uv h' = p_uv h \<and> p_kn h' = p_kn h \<and> p_trace h' = 0 \<and> p_chunkname h' = name \<and>
     (if head_dbg strip h \<noteq> [] then
        p_lineinfo h' = Some (head_dbg strip h) \<and> p_firstline h' = p_firstline h \<and> p_numline h' = p_numline h \<and>
        p_uvinfo h' = p_uvinfo h \<and> p_varinfo h' = p_varinfo h
      else p_lineinfo h' = None)"

inductive proto_rel :: "wenv \<Rightarrow> tabenv \<Rightarrow> bool \<Rightarrow> u32 \<Rightarrow> GCproto \<Rightarrow> GCproto \<Rightarrow> bool"
  and kgc_rel :: "wenv \<Rightarrow> tabenv \<Rightarrow> bool \<Rightarrow> u32 \<Rightarrow> kgc \<Rightarrow> kgc \<Rightarrow> bool"
  for we e strip name where
  "head_rel we strip name h h' \<Longrightarrow> list_all2 (kgc_rel we e strip name) ks ks' \<Longrightarrow>
    proto_rel we e strip name (GCproto h ks) (GCproto h' ks')"
| "kgc_rel we e strip name (KStr s) (KStr s)"
| "proto_rel we e strip name pt pt' \<Longrightarrow> kgc_rel we e strip name (KProto pt) (KProto pt')"
| "tab_ok e t' \<Longrightarrow> cmap t' = cmap t \<Longrightarrow> kgc_rel we e strip name (KTab t) (KTab t')"
| "kgc_rel we e strip name (KCdata cid a b) (KCdata cid a b)"
  monos list_all2_mono

fun kgc_strs :: "kgc \<Rightarrow> u32 set" where
  "kgc_strs (KStr s) = {s}"
| "kgc_strs (KTab t) = \<Union> (tv_strs ` tab_vals t)"
| "kgc_strs k = {}"

fun kids :: "kgc list \<Rightarrow> GCproto list" where
  "kids [] = []"
| "kids (KProto pt # ks) = pt # kids ks"
| "kids (k # ks) = kids ks"

lemma kids_append [simp]: "kids (xs @ ys) = kids xs @ kids ys"
  by (induction xs rule: kids.induct) auto

lemma rd_stack: "rd (ls\<lparr>ls_stack := s\<rparr>) st rest P r = rd ls st rest P r"
  by (simp add: rd_def)

lemma read_kgc1:
  assumes k: "kgc1_ok we (re_tab re) k" "\<forall>s \<in> kgc_strs k. str_back we re s"
    and c: "list_all2 (proto_rel we (re_tab re) strip name) (kids [k]) cs"
    and p: "ls_p ls = enc_kgc1 we k @ rest" "ls_stack ls = cs @ st"
  shows "rd ls st rest (kgc_rel we (re_tab re) strip name k) (bcread_kgc1 re ls)"
proof (cases k)
  case (KStr s)
  let ?b = "we_str we s" let ?l = "ls\<lparr>ls_p := rest\<rparr>"
  have n: "length ?b < 2 ^ 31" using k(1) KStr by (simp add: kgc1_ok_def str_small_def)
  have cs: "ls_stack ls = st" using c p(2) KStr by simp
  have p1: "ls_p ls = uleb (5 + length ?b) @ ?b @ rest" using p KStr by (simp add: enc_kgc1_def)
  have t: "BCDUMP_KGC_STR \<le> (of_nat (5 + length ?b) :: u32)" "unat (of_nat (5 + length ?b) - BCDUMP_KGC_STR :: u32) = length ?b"
    using n by (simp_all add: BCDUMP_KGC_STR_def word_le_nat_alt unat_code_len unat_of_nat_small)
  have "rd ?l (ls_stack ?l) rest (kgc_rel we (re_tab re) strip name k) (rbind (rd_str_new re ?l ?b) (\<lambda>ls s. Some (Inr (KStr s), ls)))"
  proof (rule rd_bind)
    have "str_back we re s" using k(2) KStr by simp
    from read_str [OF this, of ?l] show "rd ?l (ls_stack ?l) rest ((=) s) (rd_str_new re ?l ?b)" by simp
  qed (auto intro!: rd_ret proto_rel_kgc_rel.intros simp: KStr)
  then show ?thesis unfolding bcread_kgc1_def
    using read_uleb_nat [OF p1] n t cs read_mem [of "ls\<lparr>ls_p := ?b @ rest\<rparr>" ?b rest] by (simp add: rd_upd_p)
next
  case (KProto pt)
  then obtain pt' where pt: "cs = [pt']" "proto_rel we (re_tab re) strip name pt pt'" using c by (auto simp: list_all2_Cons1)
  have p1: "ls_p ls = uleb 0 @ rest" using p KProto by (simp add: enc_kgc1_def)
  have "bcread_kgc1 re ls = Some (Inr (KProto pt'), ls\<lparr>ls_p := rest, ls_stack := st\<rparr>)"
    using p(2) pt(1) by (simp add: bcread_kgc1_def read_uleb_nat [OF p1] bcdump_codes)
  then show ?thesis by (rule rdI2) (simp add: KProto proto_rel_kgc_rel.intros pt(2))
next
  case (KTab t)
  have p1: "ls_p ls = uleb 1 @ enc_ktab we t @ rest" using p KTab by (simp add: enc_kgc1_def)
  let ?l = "ls\<lparr>ls_p := enc_ktab we t @ rest\<rparr>"
  have "rd ?l (ls_stack ?l) rest (kgc_rel we (re_tab re) strip name k) (rbind (bcread_ktab re ?l) (\<lambda>ls t. Some (Inr (KTab t), ls)))"
  proof (rule rd_bind)
    show "rd ?l (ls_stack ?l) rest (\<lambda>t'. tab_ok (re_tab re) t' \<and> cmap t' = cmap t) (bcread_ktab re ?l)"
      using k KTab by (intro read_ktab) (simp_all add: kgc1_ok_def)
  qed (auto intro!: rd_ret proto_rel_kgc_rel.intros simp: KTab)
  moreover have "ls_stack ls = st" using c p(2) KTab by simp
  ultimately show ?thesis unfolding bcread_kgc1_def
    using read_uleb_nat [OF p1] by (simp add: bcdump_codes rd_upd_p word_le_nat_alt)
next
  case (KCdata cid a b)
  let ?c = "if cid = CTID_COMPLEX_DOUBLE then uleb (unat (tv_lo b)) @ uleb (unat (tv_hi b)) else []"
  let ?t = "(case cid of CTID_INT64 \<Rightarrow> 2 | CTID_UINT64 \<Rightarrow> 3 | CTID_COMPLEX_DOUBLE \<Rightarrow> 4) :: nat"
  let ?r = "uleb (unat (tv_lo a)) @ uleb (unat (tv_hi a)) @ ?c @ rest"
  let ?l = "ls\<lparr>ls_p := ?r\<rparr>"
  have b: "cid \<noteq> CTID_COMPLEX_DOUBLE \<Longrightarrow> b = 0" using k(1) KCdata by (simp add: kgc1_ok_def cdata_ok_def)
  have p1: "ls_p ls = uleb ?t @ ?r" using p KCdata by (simp add: enc_kgc1_def)
  have st: "ls_stack ls = st" using c p(2) KCdata by simp
  have "rd ?l (ls_stack ?l) rest (kgc_rel we (re_tab re) strip name k)
    (rbind (rd_newgco re ?l (8 + (if cid = CTID_COMPLEX_DOUBLE then 16 else 8))) (\<lambda>ls u.
       rbind (bcread_uleb128 ls) (\<lambda>ls lo.
       rbind (bcread_uleb128 ls) (\<lambda>ls hi.
       if cid = CTID_COMPLEX_DOUBLE then
         rbind (bcread_uleb128 ls) (\<lambda>ls lo1.
         rbind (bcread_uleb128 ls) (\<lambda>ls hi1. Some (Inr (KCdata cid (mk_tv lo hi) (mk_tv lo1 hi1)), ls)))
       else Some (Inr (KCdata cid (mk_tv lo hi) 0), ls)))))"
  proof (rule rd_bind [OF read_newgco])
    fix u and ls1 :: LexState assume l: "ls_p ls1 = ls_p ?l" "ls_stack ls1 = ls_stack ?l"
    show "rd ls1 (ls_stack ?l) rest (kgc_rel we (re_tab re) strip name k)
     (rbind (bcread_uleb128 ls1) (\<lambda>ls lo.
       rbind (bcread_uleb128 ls) (\<lambda>ls hi.
       if cid = CTID_COMPLEX_DOUBLE then
         rbind (bcread_uleb128 ls) (\<lambda>ls lo1.
         rbind (bcread_uleb128 ls) (\<lambda>ls hi1. Some (Inr (KCdata cid (mk_tv lo hi) (mk_tv lo1 hi1)), ls)))
       else Some (Inr (KCdata cid (mk_tv lo hi) 0), ls))))"
      unfolding l(2) [symmetric]
      by (rule rdI [where x = k]) (use l b in \<open>auto simp: read_uleb_nat KCdata proto_rel_kgc_rel.intros\<close>)
  qed
  then show ?thesis unfolding bcread_kgc1_def
    using read_uleb_nat [OF p1] st by (cases cid) (simp_all add: bcdump_codes rd_upd_p word_le_nat_alt)
qed

lemma read_kgc:
  assumes "\<forall>k \<in> set ks. kgc1_ok we (re_tab re) k \<and> (\<forall>s \<in> kgc_strs k. str_back we re s)"
    "list_all2 (proto_rel we (re_tab re) strip name) (kids ks) cs"
    "ls_p ls = concat (map (enc_kgc1 we) ks) @ rest" "ls_stack ls = cs @ st"
  shows "rd ls st rest (list_all2 (kgc_rel we (re_tab re) strip name) ks) (bcread_kgc re ls (length ks))"
  using assms
proof (induction ks arbitrary: ls cs)
  case Nil
  then show ?case by (auto intro!: rd_ret)
next
  case (Cons k ks)
  let ?R = "kgc_rel we (re_tab re) strip name"
  have "kids (k # ks) = kids [k] @ kids ks" using kids_append [of "[k]" ks] by simp
  then obtain c1 c2 where c: "cs = c1 @ c2" "list_all2 (proto_rel we (re_tab re) strip name) (kids [k]) c1"
    "list_all2 (proto_rel we (re_tab re) strip name) (kids ks) c2" using Cons.prems(2) by (auto simp: list_all2_append1)
  have "rd ls st rest (list_all2 ?R (k # ks)) (rbind (bcread_kgc1 re ls) (\<lambda>ls k. rbind (bcread_kgc re ls (length ks)) (\<lambda>ls ks. Some (Inr (k # ks), ls))))"
  proof (rule rd_bind)
    show "rd ls (c2 @ st) (concat (map (enc_kgc1 we) ks) @ rest) (?R k) (bcread_kgc1 re ls)"
      using Cons.prems c by (intro read_kgc1 [where cs = c1]) simp_all
    fix k' and ls1 :: LexState assume k': "?R k k'" and l: "ls_p ls1 = concat (map (enc_kgc1 we) ks) @ rest" "ls_stack ls1 = c2 @ st"
    have "rd ls1 st rest (list_all2 ?R ks) (bcread_kgc re ls1 (length ks))"
      using Cons.prems c l by (intro Cons.IH) simp_all
    then show "rd ls1 st rest (list_all2 ?R (k # ks)) (rbind (bcread_kgc re ls1 (length ks)) (\<lambda>ls ks. Some (Inr (k' # ks), ls)))"
      by (rule rd_bind) (auto intro!: rd_ret simp: k')
  qed
  then show ?case by simp
qed

definition dbg_ok :: "phead \<Rightarrow> bool" where
  "dbg_ok h \<longleftrightarrow> (head_dbg False h \<noteq> [] \<longrightarrow>
     p_uvinfo h = sizeli (length (p_bc h)) (p_numline h) \<and>
     bcread_varinfo (head_dbg False h) (p_uvinfo h) (length (p_uv h)) = Some (p_varinfo h))"

definition ls_fits :: "LexState \<Rightarrow> bool \<Rightarrow> bool" where
  "ls_fits ls strip \<longleftrightarrow> ls_flags ls AND BCDUMP_F_BE = 0 \<and> (ls_flags ls AND BCDUMP_F_STRIP \<noteq> 0 \<longleftrightarrow> strip)"

lemma read_byte: "ls_p ls = b # p \<Longrightarrow> bcread_byte ls = Some (Inr (ucast b), ls\<lparr>ls_p := p\<rparr>)"
  by (simp add: bcread_byte_def)

lemma ucast_ucast8: "ucast (ucast (b :: u8) :: u32) = b"
  by (rule bit_word_eqI) (simp add: bit_simps)

text \<open>The part of \<open>bcread_pdata\<close> that follows the sizes.\<close>

definition pdata_tail where
  "pdata_tail re len startn flags numparams framesize (sizeuv :: u32) (sizekgc :: u32) (sizekn :: u32) (sizebc :: u32) sizedbg firstline numline ls =
     (let sizept = proto_size sizebc sizekgc sizekn sizeuv sizedbg in
      rbind (rd_newgco re ls sizept) (\<lambda>ls u.
      rbind (bcread_bytecode ls (ucast (flags :: u32)) (ucast (framesize :: u32)) (unat sizebc)) (\<lambda>ls bc.
      rbind (bcread_uv ls (unat sizeuv)) (\<lambda>ls uv.
      rbind (bcread_kgc re ls (unat sizekgc)) (\<lambda>ls ks.
      rbind (bcread_knum ls (unat sizekn)) (\<lambda>ls kn.
      let h = \<lparr>p_flags = ucast flags, p_numparams = ucast (numparams :: u32), p_framesize = ucast framesize, p_bc = bc,
               p_uv = uv, p_kn = kn, p_sizept = sizept, p_trace = 0, p_chunkname = ls_chunkname ls,
               p_firstline = firstline, p_numline = numline, p_lineinfo = None, p_uvinfo = 0, p_varinfo = 0\<rparr> in
      rbind (if sizedbg \<noteq> 0 then
               rbind (bcread_dbg ls numline (unat sizebc) (unat sizedbg)) (\<lambda>ls d.
               let uvi = sizeli (unat sizebc) numline in
               case bcread_varinfo d uvi (unat sizeuv) of
                 None \<Rightarrow> None
               | Some vi \<Rightarrow> Some (Inr (h\<lparr>p_lineinfo := Some d, p_uvinfo := uvi, p_varinfo := vi\<rparr>), ls))
             else Some (Inr h, ls)) (\<lambda>ls h.
      if len \<noteq> startn - length (ls_p ls) then bcread_error ls LJ_ERR_BCBAD
      else Some (Inr (GCproto h ks), ls))))))))"

lemma pdata_split:
  "bcread_pdata re ls len =
     (let startn = length (ls_p ls) in
      rbind (bcread_byte ls) (\<lambda>ls flags.
      rbind (bcread_byte ls) (\<lambda>ls numparams.
      rbind (bcread_byte ls) (\<lambda>ls framesize.
      rbind (bcread_byte ls) (\<lambda>ls sizeuv.
      rbind (bcread_uleb128 ls) (\<lambda>ls sizekgc.
      rbind (bcread_uleb128 ls) (\<lambda>ls sizekn.
      rbind (bcread_uleb128 ls) (\<lambda>ls nbc.
      let sizebc = nbc + 1 in
      rbind (if ls_flags ls AND BCDUMP_F_STRIP = 0 then
               rbind (bcread_uleb128 ls) (\<lambda>ls sizedbg.
               if sizedbg \<noteq> 0 then
                 rbind (bcread_uleb128 ls) (\<lambda>ls firstline.
                 rbind (bcread_uleb128 ls) (\<lambda>ls numline. Some (Inr (sizedbg, firstline, numline), ls)))
               else Some (Inr (0, 0, 0), ls))
             else Some (Inr (0, 0, 0), ls)) (\<lambda>ls dbg.
      case dbg of (sizedbg, firstline, numline) \<Rightarrow>
        pdata_tail re len startn flags numparams framesize sizeuv sizekgc sizekn sizebc sizedbg firstline numline ls)))))))))"
  unfolding bcread_pdata_def pdata_tail_def Let_def ..

lemma pdata_head:
  assumes h: "head_ok h" "length ks < 2 ^ 28" and l: "ls_fits ls strip"
    and p: "ls_p ls = enc_head strip h ks @ r"
  shows "bcread_pdata re ls len = pdata_tail re len (length (ls_p ls))
      (ucast (p_flags h AND (PROTO_CHILD OR PROTO_VARARG OR PROTO_FFI))) (ucast (p_numparams h)) (ucast (p_framesize h))
      (of_nat (length (p_uv h))) (of_nat (length ks)) (of_nat (length (p_kn h))) (of_nat (length (p_bc h)))
      (of_nat (length (head_dbg strip h))) (if head_dbg strip h = [] then 0 else p_firstline h)
      (if head_dbg strip h = [] then 0 else p_numline h) (ls\<lparr>ls_p := r\<rparr>)"
proof -
  have n: "length (p_kn h) < 2 ^ 32" "length ks < 2 ^ 32" "length (p_bc h) - 1 < 2 ^ 32" "length (head_dbg strip h) < 2 ^ 32"
    using h by (auto simp: head_ok_def head_dbg_def)
  have bc: "of_nat (length (p_bc h) - 1) + 1 = (of_nat (length (p_bc h)) :: u32)"
    using h(1) by (cases "p_bc h") (auto simp: head_ok_def)
  have uv: "ucast (of_nat (length (p_uv h)) :: u8) = (of_nat (length (p_uv h)) :: u32)"
    using h(1) by (simp add: word_unat_eq_iff ucast8_nat unat_of_nat_small head_ok_def)
  have d0: "(of_nat (length (head_dbg strip h)) :: u32) = 0 \<longleftrightarrow> head_dbg strip h = []"
    using n(4) by (simp add: word_unat_eq_iff unat_of_nat_small)
  show ?thesis
  proof (cases strip)
    case True
    then show ?thesis using l p n bc uv
      by (simp add: pdata_split enc_head_def read_byte read_uleb_nat ls_fits_def head_dbg_def Let_def del: of_nat_diff)
  next
    case False
    then show ?thesis using l p n bc uv d0
      by (cases "head_dbg False h = []")
        (simp_all add: pdata_split enc_head_def read_byte read_uleb_nat ls_fits_def Let_def del: of_nat_diff)
  qed
qed

lemma no_swap: "ls_fits ls strip \<Longrightarrow> \<not> bcread_swap ls"
  by (simp add: ls_fits_def bcread_swap_def)

lemma read_bytecode:
  assumes "ls_fits ls strip" "ls_p ls = concat (map le32 xs) @ r"
  shows "bcread_bytecode ls fl fs (Suc (length xs)) =
    Some (Inr (BCINS_AD (if fl AND PROTO_VARARG \<noteq> 0 then BC_FUNCV else BC_FUNCF) (ucast fs) 0 # xs), ls\<lparr>ls_p := r\<rparr>)"
proof -
  have "\<not> bcread_swap (ls\<lparr>ls_p := r\<rparr>)" using no_swap [OF assms(1)] by (simp add: bcread_swap_def)
  moreover have "bcread_mem ls (length xs * 4) = Some (Inr (concat (map le32 xs)), ls\<lparr>ls_p := r\<rparr>)"
    by (rule read_mem [OF assms(2)]) simp
  ultimately show ?thesis by (simp add: bcread_bytecode_def ld_le)
qed

lemma read_uv:
  assumes "ls_fits ls strip" "ls_p ls = concat (map le16 xs) @ r"
  shows "bcread_uv ls (length xs) = Some (Inr xs, ls\<lparr>ls_p := r\<rparr>)"
proof (cases "xs = []")
  case True
  then have "ls\<lparr>ls_p := r\<rparr> = ls" using assms(2) by (cases ls) simp
  then show ?thesis using True by (simp add: bcread_uv_def)
next
  case False
  have "\<not> bcread_swap (ls\<lparr>ls_p := r\<rparr>)" using no_swap [OF assms(1)] by (simp add: bcread_swap_def)
  moreover have "bcread_mem ls (length xs * 2) = Some (Inr (concat (map le16 xs)), ls\<lparr>ls_p := r\<rparr>)"
    by (rule read_mem [OF assms(2)]) simp
  ultimately show ?thesis using False by (simp add: bcread_uv_def ld_le)
qed

lemma read_dbg:
  assumes "ls_fits ls strip" "ls_p ls = d @ r" "length d = n"
  shows "bcread_dbg ls numline sizebc n = Some (Inr d, ls\<lparr>ls_p := r\<rparr>)"
proof -
  have "\<not> bcread_swap (ls\<lparr>ls_p := r\<rparr>)" using no_swap [OF assms(1)] by (simp add: bcread_swap_def)
  then show ?thesis using read_mem [OF assms(2), of n] assms(3) by (simp add: bcread_dbg_def)
qed

lemma ls_fits_p [simp]: "ls_fits (ls\<lparr>ls_p := p\<rparr>) strip = ls_fits ls strip"
  by (simp add: ls_fits_def)

lemma vararg_mask: "(f AND (PROTO_CHILD OR PROTO_VARARG OR PROTO_FFI)) AND PROTO_VARARG = f AND PROTO_VARARG"
proof -
  have "(PROTO_CHILD OR PROTO_VARARG OR PROTO_FFI) AND PROTO_VARARG = PROTO_VARARG" by code_simp
  then show ?thesis by (simp add: and.assoc)
qed

lemma read_pdata:
  assumes h: "head_ok h" "length ks < 2 ^ 28" "\<forall>v \<in> set (p_kn h). kn_ok v" "strip \<or> dbg_ok h"
    and k: "\<forall>k \<in> set ks. kgc1_ok we (re_tab re) k \<and> (\<forall>s \<in> kgc_strs k. str_back we re s)"
    and c: "list_all2 (proto_rel we (re_tab re) strip (ls_chunkname ls)) (kids ks) cs" "ls_stack ls = cs @ st"
    and l: "ls_fits ls strip" and p: "ls_p ls = enc_body we strip h ks @ rest"
  shows "rd ls st rest (proto_rel we (re_tab re) strip (ls_chunkname ls) (GCproto h ks)) (bcread_pdata re ls (length (enc_body we strip h ks)))"
proof -
  let ?d = "head_dbg strip h" and ?fl = "p_flags h AND (PROTO_CHILD OR PROTO_VARARG OR PROTO_FFI)"
  let ?nl = "if ?d = [] then 0 else p_numline h" and ?fi = "if ?d = [] then 0 else p_firstline h"
  let ?r4 = "concat (map enc_knum1 (p_kn h)) @ ?d @ rest" let ?r3 = "concat (map (enc_kgc1 we) ks) @ ?r4"
  let ?r2 = "concat (map le16 (p_uv h)) @ ?r3" let ?r1 = "concat (map le32 (head_bc we h)) @ ?r2"
  define name len startn P where "name = ls_chunkname ls" and "len = length (enc_body we strip h ks)"
    and "startn = length (ls_p ls)" and "P = proto_rel we (re_tab re) strip name (GCproto h ks)"
  have sz: "unat (of_nat (length (p_uv h)) :: u32) = length (p_uv h)" "unat (of_nat (length ks) :: u32) = length ks"
    "unat (of_nat (length (p_kn h)) :: u32) = length (p_kn h)" "unat (of_nat (length (p_bc h)) :: u32) = Suc (length (head_bc we h))"
    "unat (of_nat (length ?d) :: u32) = length ?d"
    using h by (auto simp: head_ok_def head_dbg_def head_bc_def unat_of_nat_small)
  have d0: "(of_nat (length ?d) :: u32) = 0 \<longleftrightarrow> ?d = []" using sz(5) by (simp add: word_unat_eq_iff)
  have st: "startn - length rest = len" using p by (simp add: startn_def len_def)
  have bl: "length (p_bc h) = Suc (length (head_bc we h))" using h(1) by (simp add: head_bc_def head_ok_def)
  let ?l = "ls\<lparr>ls_p := ?r1\<rparr>"
  have run: "bcread_pdata re ls len = pdata_tail re len startn (ucast ?fl) (ucast (p_numparams h)) (ucast (p_framesize h))
      (of_nat (length (p_uv h))) (of_nat (length ks)) (of_nat (length (p_kn h))) (of_nat (length (p_bc h))) (of_nat (length ?d)) ?fi ?nl ?l"
    unfolding startn_def by (rule pdata_head [OF h(1,2) l]) (simp add: p enc_body_def)
  have "rd ?l st rest P (bcread_pdata re ls len)"
    unfolding run pdata_tail_def Let_def sz ucast_ucast8
  proof (rule rd_bind [OF read_newgco], goal_cases)
    case (1 u ls1)
    note a = 1(2-5)
    have f1: "ls_fits ls1 strip" using l a by (simp add: ls_fits_def)
    let ?bc = "BCINS_AD (if p_flags h AND PROTO_VARARG \<noteq> 0 then BC_FUNCV else BC_FUNCF) (ucast (p_framesize h)) 0 # head_bc we h"
    have bcr: "bcread_bytecode ls1 ?fl (p_framesize h) (Suc (length (head_bc we h))) = Some (Inr ?bc, ls1\<lparr>ls_p := ?r2\<rparr>)"
      using read_bytecode [OF f1, of "head_bc we h" ?r2] a by (simp add: vararg_mask)
    have uvr: "bcread_uv (ls1\<lparr>ls_p := ?r2\<rparr>) (length (p_uv h)) = Some (Inr (p_uv h), ls1\<lparr>ls_p := ?r3\<rparr>)"
      using read_uv [of "ls1\<lparr>ls_p := ?r2\<rparr>" strip "p_uv h" ?r3] f1 by simp
    let ?l3 = "ls1\<lparr>ls_p := ?r3\<rparr>"
    let ?H = "\<lambda>ls kn. \<lparr>p_flags = ?fl, p_numparams = p_numparams h, p_framesize = p_framesize h, p_bc = ?bc, p_uv = p_uv h, p_kn = kn,
       p_sizept = proto_size (of_nat (length (p_bc h))) (of_nat (length ks)) (of_nat (length (p_kn h))) (of_nat (length (p_uv h))) (of_nat (length ?d)),
       p_trace = 0, p_chunkname = ls_chunkname ls, p_firstline = ?fi, p_numline = ?nl, p_lineinfo = None, p_uvinfo = 0, p_varinfo = 0\<rparr>"
    have "rd ?l3 st rest P (rbind (bcread_kgc re ?l3 (length ks)) (\<lambda>ls ks'.
        rbind (bcread_knum ls (length (p_kn h))) (\<lambda>ls kn.
        rbind (if of_nat (length ?d) \<noteq> (0 :: u32) then
               rbind (bcread_dbg ls ?nl (Suc (length (head_bc we h))) (length ?d)) (\<lambda>ls' d.
               case bcread_varinfo d (sizeli (Suc (length (head_bc we h))) ?nl) (length (p_uv h)) of
                 None \<Rightarrow> None
               | Some vi \<Rightarrow> Some (Inr ((?H ls kn)\<lparr>p_lineinfo := Some d, p_uvinfo := sizeli (Suc (length (head_bc we h))) ?nl, p_varinfo := vi\<rparr>), ls'))
             else Some (Inr (?H ls kn), ls)) (\<lambda>ls h.
        if len \<noteq> startn - length (ls_p ls) then bcread_error ls LJ_ERR_BCBAD
        else Some (Inr (GCproto h ks'), ls)))))"
    proof (rule rd_bind)
      show "rd ?l3 st ?r4 (list_all2 (kgc_rel we (re_tab re) strip name) ks) (bcread_kgc re ?l3 (length ks))"
        using k c a by (intro read_kgc [where cs = cs]) (simp_all add: name_def)
      fix ks' and ls4 :: LexState assume ks': "list_all2 (kgc_rel we (re_tab re) strip name) ks ks'"
        and b: "ls_p ls4 = ?r4" "ls_stack ls4 = st" "ls_flags ls4 = ls_flags ?l3" "ls_chunkname ls4 = ls_chunkname ?l3"
      have f4: "ls_fits ls4 strip" using f1 b by (simp add: ls_fits_def)
      note kn = read_knum [OF h(3) b(1)]
      let ?l5 = "ls4\<lparr>ls_p := ?d @ rest\<rparr>"
      have nm: "ls_chunkname ls4 = name" using a b by (simp add: name_def)
      show "rd ls4 st rest P (rbind (bcread_knum ls4 (length (p_kn h))) (\<lambda>ls kn.
        rbind (if of_nat (length ?d) \<noteq> (0 :: u32) then
               rbind (bcread_dbg ls ?nl (Suc (length (head_bc we h))) (length ?d)) (\<lambda>ls' d.
               case bcread_varinfo d (sizeli (Suc (length (head_bc we h))) ?nl) (length (p_uv h)) of
                 None \<Rightarrow> None
               | Some vi \<Rightarrow> Some (Inr ((?H ls kn)\<lparr>p_lineinfo := Some d, p_uvinfo := sizeli (Suc (length (head_bc we h))) ?nl, p_varinfo := vi\<rparr>), ls'))
             else Some (Inr (?H ls kn), ls)) (\<lambda>ls h.
        if len \<noteq> startn - length (ls_p ls) then bcread_error ls LJ_ERR_BCBAD
        else Some (Inr (GCproto h ks'), ls))))"
      proof (cases "?d = []")
        case True
        have "head_rel we strip name h (?H ls4 (p_kn h))" using True by (simp add: head_rel_def nm)
        then have "P (GCproto (?H ls4 (p_kn h)) ks')" unfolding P_def using ks' by (rule proto_rel_kgc_rel.intros(1))
        then show ?thesis unfolding b(2) [symmetric] using True
          by (intro rdI [where x = "GCproto (?H ls4 (p_kn h)) ks'"]) (simp_all add: kn st)
      next
        case False
        let ?h = "(?H ls4 (p_kn h))\<lparr>p_lineinfo := Some ?d, p_uvinfo := p_uvinfo h, p_varinfo := p_varinfo h\<rparr>"
        have ns: "\<not> strip" using False by (auto simp: head_dbg_def)
        have dv: "sizeli (Suc (length (head_bc we h))) (p_numline h) = p_uvinfo h" "bcread_varinfo ?d (p_uvinfo h) (length (p_uv h)) = Some (p_varinfo h)"
          using h(4) False ns bl by (auto simp: dbg_ok_def)
        have "head_rel we strip name h ?h" using False by (simp add: head_rel_def nm)
        then have "P (GCproto ?h ks')" unfolding P_def using ks' by (rule proto_rel_kgc_rel.intros(1))
        moreover have "bcread_dbg ?l5 (p_numline h) (Suc (length (head_bc we h))) (length ?d) = Some (Inr ?d, ls4\<lparr>ls_p := rest\<rparr>)"
          using read_dbg [of ?l5 strip ?d rest "length ?d"] f4 by simp
        ultimately show ?thesis unfolding b(2) [symmetric] using False
          by (intro rdI [where x = "GCproto ?h ks'"]) (simp_all add: kn d0 dv st)
      qed
    qed
    then show ?case unfolding bcr uvr rbind_simps by (simp add: rd_upd_p)
  qed
  then show ?thesis unfolding P_def name_def len_def by (simp add: rd_upd_p)
qed

section \<open>The input blocks\<close>

definition content :: "LexState \<Rightarrow> bytes" where "content ls = ls_p ls @ concat (ls_blocks ls)"

definition ls_ok :: "LexState \<Rightarrow> bool" where
  "ls_ok ls \<longleftrightarrow> [] \<notin> set (ls_blocks ls) \<and> (ls_eof ls \<longrightarrow> ls_blocks ls = []) \<and> length (content ls) < LJ_MAX_MEM"

text \<open>\<open>ls'\<close> has the same unread bytes as \<open>ls\<close>, more of them in the buffer.\<close>

definition filled :: "LexState \<Rightarrow> LexState \<Rightarrow> bool" where
  "filled ls ls' \<longleftrightarrow> ls_ok ls' \<and> content ls' = content ls \<and> (\<exists>p bs e. ls' = ls\<lparr>ls_p := p, ls_blocks := bs, ls_eof := e\<rparr>)"

lemma filled_refl: "ls_ok ls \<Longrightarrow> filled ls ls"
  unfolding filled_def by (intro conjI exI [of _ "ls_p ls"] exI [of _ "ls_blocks ls"] exI [of _ "ls_eof ls"]) simp_all

lemma fill_loop_ok:
  assumes "[] \<notin> set bs" "length (ls_p ls @ concat bs) < LJ_MAX_MEM" "length (ls_p ls) < len" "\<not> ls_eof ls"
    "need \<longrightarrow> len \<le> length (ls_p ls @ concat bs)"
  shows "\<exists>p' bs' e'. fill_loop ls bs len need = Some (Inr (), ls\<lparr>ls_p := p', ls_blocks := bs', ls_eof := e'\<rparr>) \<and>
    p' @ concat bs' = ls_p ls @ concat bs \<and> [] \<notin> set bs' \<and> (e' \<longrightarrow> bs' = []) \<and> (len \<le> length p' \<or> bs' = [])"
  using assms
proof (induction bs arbitrary: ls)
  case Nil
  then have "fill_loop ls [] len need = Some (Inr (), ls\<lparr>ls_p := ls_p ls, ls_blocks := [], ls_eof := True\<rparr>)" by auto
  then show ?case by fastforce
next
  case (Cons b bs)
  let ?ls = "ls\<lparr>ls_p := ls_p ls @ b, ls_blocks := bs\<rparr>"
  have b: "b \<noteq> []" "\<not> LJ_MAX_MEM - length (ls_p ls) \<le> length b" using Cons.prems by auto
  show ?case
  proof (cases "length (ls_p ls @ b) < len")
    case True
    have "\<exists>p' bs' e'. fill_loop ?ls bs len need = Some (Inr (), ?ls\<lparr>ls_p := p', ls_blocks := bs', ls_eof := e'\<rparr>) \<and>
      p' @ concat bs' = ls_p ?ls @ concat bs \<and> [] \<notin> set bs' \<and> (e' \<longrightarrow> bs' = []) \<and> (len \<le> length p' \<or> bs' = [])"
      using Cons.prems True by (intro Cons.IH) auto
    then show ?thesis using True b by simp
  next
    case False
    then have "fill_loop ls (b # bs) len need = Some (Inr (), ls\<lparr>ls_p := ls_p ls @ b, ls_blocks := bs, ls_eof := False\<rparr>)"
      using b Cons.prems(4) by simp
    then show ?thesis using Cons.prems False by (intro exI [of _ "ls_p ls @ b"] exI [of _ bs] exI [of _ False]) auto
  qed
qed

lemma want_ok:
  assumes "ls_ok ls" "ls_eof ls \<longrightarrow> n \<le> length (ls_p ls)" "n \<le> LJ_MAX_MEM"
  shows "\<exists>ls'. bcread_want ls n = Some (Inr (), ls') \<and> filled ls ls' \<and> (n \<le> length (ls_p ls') \<or> ls_blocks ls' = [])"
proof (cases "length (ls_p ls) < n")
  case True
  from fill_loop_ok [of "ls_blocks ls" ls n False] assms True obtain p' bs' e' where
    "fill_loop ls (ls_blocks ls) n False = Some (Inr (), ls\<lparr>ls_p := p', ls_blocks := bs', ls_eof := e'\<rparr>)"
    "p' @ concat bs' = content ls" "[] \<notin> set bs'" "e' \<longrightarrow> bs' = []" "n \<le> length p' \<or> bs' = []"
    by (auto simp: ls_ok_def content_def)
  then show ?thesis using True assms
    by (intro exI [of _ "ls\<lparr>ls_p := p', ls_blocks := bs', ls_eof := e'\<rparr>"])
      (auto simp: bcread_want_def bcread_fill_def filled_def ls_ok_def content_def)
qed (use assms filled_refl in \<open>auto simp: bcread_want_def\<close>)

lemma need_ok:
  assumes "ls_ok ls" "n \<le> length (content ls)"
  shows "\<exists>ls'. bcread_need ls n = Some (Inr (), ls') \<and> filled ls ls' \<and> n \<le> length (ls_p ls')"
proof (cases "length (ls_p ls) < n")
  case True
  have e: "\<not> ls_eof ls" using assms True by (auto simp: ls_ok_def content_def)
  from fill_loop_ok [of "ls_blocks ls" ls n True] assms True e obtain p' bs' e' where f:
    "fill_loop ls (ls_blocks ls) n True = Some (Inr (), ls\<lparr>ls_p := p', ls_blocks := bs', ls_eof := e'\<rparr>)"
    "p' @ concat bs' = content ls" "[] \<notin> set bs'" "e' \<longrightarrow> bs' = []" "n \<le> length p' \<or> bs' = []"
    by (auto simp: ls_ok_def content_def)
  then have "n \<le> length p'" using assms(2) by auto
  moreover have "\<not> LJ_MAX_MEM < n" using assms by (simp add: ls_ok_def)
  ultimately show ?thesis using True assms(1) e f
    by (intro exI [of _ "ls\<lparr>ls_p := p', ls_blocks := bs', ls_eof := e'\<rparr>"])
      (auto simp: bcread_need_def bcread_fill_def filled_def ls_ok_def content_def)
qed (use assms filled_refl in \<open>auto simp: bcread_need_def\<close>)

text \<open>Bytes that are in the buffer are its first part.\<close>

lemma content_split:
  assumes "content ls = b @ c" "length b \<le> length (ls_p ls)"
  obtains r where "ls_p ls = b @ r" "r @ concat (ls_blocks ls) = c"
proof -
  from assms(1) have "take (length b) (ls_p ls @ concat (ls_blocks ls)) = b" by (simp add: content_def)
  then have "take (length b) (ls_p ls) = b" using assms(2) by simp
  then have p: "ls_p ls = b @ drop (length b) (ls_p ls)" using append_take_drop_id [of "length b" "ls_p ls"] by simp
  have "(b @ drop (length b) (ls_p ls)) @ concat (ls_blocks ls) = b @ c"
    unfolding p [symmetric] using assms(1) by (simp add: content_def)
  then show ?thesis using that [OF p] by simp
qed

lemma ls_ok_drop: "ls_ok ls \<Longrightarrow> ls_p ls = b @ r \<Longrightarrow> ls_ok (ls\<lparr>ls_p := r\<rparr>)"
  by (simp add: ls_ok_def content_def)

definition after :: "LexState \<Rightarrow> GCproto list \<Rightarrow> bytes \<Rightarrow> LexState \<Rightarrow> bool" where
  "after ls st c ls' \<longleftrightarrow> ls_ok ls' \<and> content ls' = c \<and> ls_stack ls' = st \<and> ls_flags ls' = ls_flags ls \<and>
     ls_chunkname ls' = ls_chunkname ls \<and> ls_endmark ls' = ls_endmark ls"

lemma uleb_hd: "0 < n \<Longrightarrow> hd (uleb n) \<noteq> 0"
proof (cases rule: uleb_first [of n])
  case (last b)
  assume "0 < n"
  then have "unat b \<noteq> unat (0 :: u8)" using last by simp
  then show ?thesis using last by auto
next
  case (more b)
  then have "unat b \<noteq> unat (0 :: u8)" by simp
  then show ?thesis using more by auto
qed

lemma sized_long: "5 \<le> length (sized (enc_body we strip h ks))"
proof -
  have "0 < length (uleb (length (enc_body we strip h ks)))" by simp
  moreover have "4 \<le> length (enc_body we strip h ks)" by (simp add: enc_body_def enc_head_def)
  ultimately show ?thesis unfolding sized_def length_append by linarith
qed

lemma read_proto:
  assumes h: "head_ok h" "length ks < 2 ^ 28" "length (enc_body we strip h ks) < 2 ^ 32" "\<forall>v \<in> set (p_kn h). kn_ok v" "strip \<or> dbg_ok h"
    and k: "\<forall>k \<in> set ks. kgc1_ok we (re_tab re) k \<and> (\<forall>s \<in> kgc_strs k. str_back we re s)"
    and c: "list_all2 (proto_rel we (re_tab re) strip (ls_chunkname ls)) (kids ks) cs" "ls_stack ls = cs @ st"
    and l: "ls_fits ls strip" "ls_ok ls" and p: "content ls = sized (enc_body we strip h ks) @ rest"
  shows "(\<exists>er ls'. bcread_proto re ls = Some (Inl er, ls') \<and> er \<in> {LJ_ERR_ERRMEM, LJ_ERR_TABOV}) \<or>
    (\<exists>pt' ls'. bcread_proto re ls = Some (Inr (Some pt'), ls') \<and>
      proto_rel we (re_tab re) strip (ls_chunkname ls) (GCproto h ks) pt' \<and> after ls st rest ls')"
proof -
  define body where "body = enc_body we strip h ks"
  have n: "0 < length body" "length body < 2 ^ 32" using h(3) by (simp_all add: body_def)
  have nz: "of_nat (length body) \<noteq> (0 :: u32)" using n by (simp add: word_unat_eq_iff unat_of_nat_small)
  have p0: "content ls = uleb (length body) @ body @ rest" using p by (simp add: sized_def body_def)
  have h0: "\<not> (ls_p ls \<noteq> [] \<and> hd (ls_p ls) = 0)"
  proof
    assume a: "ls_p ls \<noteq> [] \<and> hd (ls_p ls) = 0"
    then have "hd (ls_p ls) = hd (uleb (length body))" using p0 by (metis content_def hd_append2 uleb_ne)
    then show False using a uleb_hd [OF n(1)] by simp
  qed
  have e: "ls_eof ls \<longrightarrow> 5 \<le> length (ls_p ls)"
    using l(2) p sized_long [of we strip h ks] by (auto simp: ls_ok_def content_def)
  obtain ls1 where w: "bcread_want ls 5 = Some (Inr (), ls1)" "filled ls ls1" "5 \<le> length (ls_p ls1) \<or> ls_blocks ls1 = []"
    using want_ok [OF l(2) e] by (auto simp: LJ_MAX_MEM_def)
  have ul: "length (uleb (length body)) \<le> 5" using uleb_u32 [of "of_nat (length body)"] n by (simp add: unat_of_nat_small)
  have c1: "content ls1 = uleb (length body) @ body @ rest" using w(2) p0 by (simp add: filled_def)
  have "length (uleb (length body)) \<le> length (ls_p ls1)"
    using w(3) ul arg_cong [OF c1, of length] by (auto simp: content_def)
  then obtain r where r: "ls_p ls1 = uleb (length body) @ r" "r @ concat (ls_blocks ls1) = body @ rest"
    using content_split [OF c1] by blast
  let ?ls2 = "ls1\<lparr>ls_p := r\<rparr>"
  have ok2: "ls_ok ?ls2" using w(2) ls_ok_drop [OF _ r(1)] by (simp add: filled_def)
  have c2: "content ?ls2 = body @ rest" using r(2) by (simp add: content_def)
  obtain ls3 where f: "bcread_need ?ls2 (length body) = Some (Inr (), ls3)" "filled ?ls2 ls3" "length body \<le> length (ls_p ls3)"
    using need_ok [OF ok2, of "length body"] c2 by auto
  have c3: "content ls3 = body @ rest" using f(2) c2 by (simp add: filled_def)
  obtain r3 where r3: "ls_p ls3 = body @ r3" "r3 @ concat (ls_blocks ls3) = rest" using content_split [OF c3 f(3)] .
  have s3: "ls_flags ls3 = ls_flags ls" "ls_stack ls3 = ls_stack ls" "ls_chunkname ls3 = ls_chunkname ls" "ls_endmark ls3 = ls_endmark ls"
    using f(2) w(2) by (auto simp: filled_def)
  have un: "unat (of_nat (length body) :: u32) = length body" using n(2) by (simp add: unat_of_nat_small)
  have run: "bcread_proto re ls = rbind (bcread_pdata re ls3 (length body)) (\<lambda>ls pt. Some (Inr (Some pt), ls))"
    unfolding bcread_proto_def if_not_P [OF h0] using w(1) read_uleb_nat [OF r(1) n(2)] nz f(1) by (simp add: un)
  have "rd ls3 st r3 (proto_rel we (re_tab re) strip (ls_chunkname ls3) (GCproto h ks)) (bcread_pdata re ls3 (length body))"
    unfolding body_def
  proof (rule read_pdata [OF h(1,2,4,5) k])
    show "list_all2 (proto_rel we (re_tab re) strip (ls_chunkname ls3)) (kids ks) cs" using c(1) s3 by simp
    show "ls_fits ls3 strip" using l(1) s3 by (simp add: ls_fits_def)
  qed (use c(2) s3 r3 in \<open>simp_all add: body_def\<close>)
  moreover have "ls_ok (ls3\<lparr>ls_p := r3, ls_total := tot, ls_stack := st\<rparr>)" for tot
    using f(2) r3 by (auto simp: filled_def ls_ok_def content_def)
  ultimately show ?thesis unfolding run rd_def after_def using s3 r3(2) by (fastforce simp: content_def)
qed

section \<open>All prototypes\<close>

text \<open>What a dump keeps of a prototype and its children.\<close>

function proto_back :: "wenv \<Rightarrow> renv \<Rightarrow> bool \<Rightarrow> GCproto \<Rightarrow> bool"
  and consts_back :: "wenv \<Rightarrow> renv \<Rightarrow> bool \<Rightarrow> kgc list \<Rightarrow> bool" where
  "proto_back we re strip (GCproto h ks) =
     ((\<forall>v \<in> set (p_kn h). kn_ok v) \<and> (strip \<or> dbg_ok h) \<and> (kids ks \<noteq> [] \<longrightarrow> p_flags h AND PROTO_CHILD \<noteq> 0) \<and>
      consts_back we re strip (rev ks))"
| "consts_back we re strip [] = True"
| "consts_back we re strip (k # ks) =
     ((\<forall>s \<in> kgc_strs k. str_back we re s) \<and> (case k of KProto pt \<Rightarrow> proto_back we re strip pt | _ \<Rightarrow> True) \<and> consts_back we re strip ks)"
  by pat_completeness auto
termination
  by (relation "measure (\<lambda>x. case x of Inl (we, e, s, pt) \<Rightarrow> size pt | Inr (we, e, s, ks) \<Rightarrow> size_list size ks)")
    (auto simp: size_list_conv_sum_list rev_map [symmetric] split: kgc.splits)

lemma consts_backD: "consts_back we re strip ks \<Longrightarrow> k \<in> set ks \<Longrightarrow> s \<in> kgc_strs k \<Longrightarrow> str_back we re s"
  by (induction ks) auto

lemma kids_rev: "kids (rev ks) = rev (kids ks)"
  by (induction ks rule: kids.induct) auto

lemma after_trans: "after ls s1 c1 ls1 \<Longrightarrow> after ls1 s2 c2 ls2 \<Longrightarrow> after ls s2 c2 ls2"
  by (simp add: after_def)

text \<open>Reading goes on from \<open>ls\<close> as from a state with a stack that \<open>Q\<close> describes.\<close>

definition goes :: "renv \<Rightarrow> LexState \<Rightarrow> bytes \<Rightarrow> (GCproto list \<Rightarrow> bool) \<Rightarrow> bool" where
  "goes re ls c Q \<longleftrightarrow>
     (\<exists>er ls'. bcread_protos re ls = Some (Inl er, ls') \<and> er \<in> {LJ_ERR_ERRMEM, LJ_ERR_TABOV}) \<or>
     (\<exists>st ls'. bcread_protos re ls = bcread_protos re ls' \<and> Q st \<and> after ls st c ls')"

lemma goes_trans:
  assumes "goes re ls c1 P" "\<And>st ls'. P st \<Longrightarrow> after ls st c1 ls' \<Longrightarrow> goes re ls' c2 Q"
  shows "goes re ls c2 Q"
proof -
  from assms(1) consider er ls' where "bcread_protos re ls = Some (Inl er, ls')" "er \<in> {LJ_ERR_ERRMEM, LJ_ERR_TABOV}"
    | st ls' where "bcread_protos re ls = bcread_protos re ls'" "P st" "after ls st c1 ls'"
    unfolding goes_def by blast
  then show ?thesis
  proof cases
    case (2 st ls')
    from assms(2) [OF 2(2,3)] show ?thesis unfolding goes_def 2(1) using after_trans [OF 2(3)] by blast
  qed (auto simp: goes_def)
qed

lemma goes_nil: "ls_ok ls \<Longrightarrow> content ls = c \<Longrightarrow> Q (ls_stack ls) \<Longrightarrow> goes re ls c Q"
  unfolding goes_def after_def by (intro disjI2 exI [of _ "ls_stack ls"] exI [of _ ls]) simp

lemma goes_weaken: "goes re ls c P \<Longrightarrow> (\<And>st. P st \<Longrightarrow> Q st) \<Longrightarrow> goes re ls c Q"
  unfolding goes_def by blast

lemma ls_ok_stack: "content (ls\<lparr>ls_stack := s\<rparr>) = content ls" "ls_ok (ls\<lparr>ls_stack := s\<rparr>) = ls_ok ls"
  by (simp_all add: ls_ok_def content_def)

lemma goes_one:
  assumes "(\<exists>er ls'. bcread_proto re ls = Some (Inl er, ls') \<and> er \<in> {LJ_ERR_ERRMEM, LJ_ERR_TABOV}) \<or>
    (\<exists>pt' ls'. bcread_proto re ls = Some (Inr (Some pt'), ls') \<and> R pt' \<and> after ls st c ls')"
  shows "goes re ls c (\<lambda>s. \<exists>pt'. s = pt' # st \<and> R pt')"
proof -
  from assms consider er ls' where "bcread_proto re ls = Some (Inl er, ls')" "er \<in> {LJ_ERR_ERRMEM, LJ_ERR_TABOV}"
    | pt' ls' where "bcread_proto re ls = Some (Inr (Some pt'), ls')" "R pt'" "after ls st c ls'" by blast
  then show ?thesis
  proof cases
    case (2 pt' ls')
    have "after ls (pt' # st) c (ls'\<lparr>ls_stack := pt' # ls_stack ls'\<rparr>)"
      using 2(3) by (simp add: after_def ls_ok_stack)
    moreover have "bcread_protos re ls = bcread_protos re (ls'\<lparr>ls_stack := pt' # ls_stack ls'\<rparr>)"
      using 2(1) by (subst bcread_protos.simps) simp
    ultimately show ?thesis using 2(2) unfolding goes_def by blast
  qed (auto simp: bcread_protos.simps goes_def)
qed

lemma protos_read:
  "proto_ok we (re_tab re) strip pt \<Longrightarrow> proto_back we re strip pt \<Longrightarrow> ls_fits ls strip \<Longrightarrow> ls_ok ls \<Longrightarrow>
    content ls = enc_proto we strip pt @ c \<Longrightarrow>
    goes re ls c (\<lambda>s. \<exists>pt'. s = pt' # ls_stack ls \<and> proto_rel we (re_tab re) strip (ls_chunkname ls) pt pt')"
  "consts_ok we (re_tab re) strip ks \<Longrightarrow> consts_back we re strip ks \<Longrightarrow> ls_fits ls strip \<Longrightarrow> ls_ok ls \<Longrightarrow>
    content ls = enc_children we strip ks @ c \<Longrightarrow>
    goes re ls c (\<lambda>s. \<exists>cs. s = cs @ ls_stack ls \<and> list_all2 (proto_rel we (re_tab re) strip (ls_chunkname ls)) (kids (rev ks)) cs)"
proof (induction we strip pt and we strip ks arbitrary: ls c and ls c rule: enc_proto_enc_children.induct)
  case (1 we strip h ks)
  let ?b = "sized (enc_body we strip h ks) @ c" and ?R = "proto_rel we (re_tab re) strip (ls_chunkname ls)"
  note o1 = 1(2) [unfolded proto_ok.simps] and b = 1(3) [unfolded proto_back.simps]
  show ?case
  proof (rule goes_trans)
    show "goes re ls ?b (\<lambda>s. \<exists>cs. s = cs @ ls_stack ls \<and> list_all2 ?R (kids ks) cs)"
    proof (cases "p_flags h AND PROTO_CHILD \<noteq> 0")
      case True
      then show ?thesis using 1(1) [OF True, of ls ?b] o1 b 1(4-6) by simp
    next
      case False
      then have "kids ks = []" using b by auto
      then show ?thesis using False 1(5,6) by (intro goes_nil) simp_all
    qed
    fix st ls' assume "\<exists>cs. st = cs @ ls_stack ls \<and> list_all2 ?R (kids ks) cs" and a: "after ls st ?b ls'"
    then obtain cs where cs: "st = cs @ ls_stack ls" "list_all2 ?R (kids ks) cs" by blast
    have "(\<exists>er l. bcread_proto re ls' = Some (Inl er, l) \<and> er \<in> {LJ_ERR_ERRMEM, LJ_ERR_TABOV}) \<or>
      (\<exists>pt' l. bcread_proto re ls' = Some (Inr (Some pt'), l) \<and>
        proto_rel we (re_tab re) strip (ls_chunkname ls') (GCproto h ks) pt' \<and> after ls' (ls_stack ls) c l)"
    proof (rule read_proto [where cs = cs])
      show "\<forall>k \<in> set ks. kgc1_ok we (re_tab re) k \<and> (\<forall>s \<in> kgc_strs k. str_back we re s)"
        using o1 b consts_okD [of we "re_tab re" strip "rev ks"] consts_backD [of we re strip "rev ks"] by auto
    qed (use o1 b a cs 1(4) in \<open>simp_all add: after_def ls_fits_def\<close>)
    from goes_one [OF this] show "goes re ls' c (\<lambda>s. \<exists>pt'. s = pt' # ls_stack ls \<and> ?R (GCproto h ks) pt')"
      using a by (simp add: after_def)
  qed
next
  case (2 we strip)
  then show ?case by (intro goes_nil) simp_all
next
  case (3 we strip k ks)
  let ?R = "proto_rel we (re_tab re) strip (ls_chunkname ls)"
  have rest: "goes re ls' c (\<lambda>s. \<exists>cs. s = cs @ ls_stack ls' \<and> list_all2 ?R (kids (rev ks)) cs)"
    if "after ls st (enc_children we strip ks @ c) ls'" for st ls'
    using 3(2) [of ls' c] 3(3-5) that by (simp add: after_def ls_fits_def)
  show ?case
  proof (cases k)
    case (KProto pt)
    show ?thesis
    proof (rule goes_trans)
      show "goes re ls (enc_children we strip ks @ c) (\<lambda>s. \<exists>pt'. s = pt' # ls_stack ls \<and> ?R pt pt')"
        using 3(1) [OF KProto, of ls] 3(3-7) KProto by simp
      fix st ls' assume st: "\<exists>pt'. st = pt' # ls_stack ls \<and> ?R pt pt'" and a: "after ls st (enc_children we strip ks @ c) ls'"
      from rest [OF a] show "goes re ls' c (\<lambda>s. \<exists>cs. s = cs @ ls_stack ls \<and> list_all2 ?R (kids (rev (k # ks))) cs)"
      proof (rule goes_weaken)
        fix s assume "\<exists>cs. s = cs @ ls_stack ls' \<and> list_all2 ?R (kids (rev ks)) cs"
        then obtain cs pt' where "s = (cs @ [pt']) @ ls_stack ls" "list_all2 ?R (kids (rev ks)) cs" "?R pt pt'"
          using st a by (auto simp: after_def)
        then show "\<exists>cs. s = cs @ ls_stack ls \<and> list_all2 ?R (kids (rev (k # ks))) cs"
          using KProto by (intro exI [of _ "cs @ [pt']"]) (simp add: list_all2_appendI)
      qed
    qed
  qed (use rest [of "ls_stack ls" ls] 3(6,7) in \<open>simp_all add: after_def\<close>)
qed

section \<open>The whole dump\<close>

text \<open>The name of the chunk: that of the dump, or the one the caller of the reader gives.\<close>

definition arg_name :: "bytes \<Rightarrow> bytes" where
  "arg_name a = (if a \<noteq> [] \<and> hd a = BCDUMP_HEAD1 then [0x3d, 0x3f] else a)"

definition name_back :: "wenv \<Rightarrow> renv \<Rightarrow> bool \<Rightarrow> bytes \<Rightarrow> GCproto \<Rightarrow> bool" where
  "name_back we re strip a pt \<longleftrightarrow>
     (case pt of GCproto h ks \<Rightarrow>
        if strip then \<exists>s. re_str_new re (arg_name a) \<in> {Inr s, Inl LJ_ERR_ERRMEM} else str_back we re (p_chunkname h))"

lemma header_flags:
  defines "f \<equiv> \<lambda>strip ffi. (if strip then BCDUMP_F_STRIP else 0) + (if ffi then BCDUMP_F_FFI else 0)"
  shows "f strip ffi < 128" "f strip ffi AND NOT BCDUMP_F_KNOWN = 0" "f strip ffi AND BCDUMP_F_BE = 0"
    "f strip ffi AND BCDUMP_F_STRIP \<noteq> 0 \<longleftrightarrow> strip" "unat (ucast (f strip ffi) :: u8) = unat (f strip ffi)"
proof -
  have "f b1 b2 < 128 \<and> f b1 b2 AND NOT BCDUMP_F_KNOWN = 0 \<and> f b1 b2 AND BCDUMP_F_BE = 0 \<and>
    (f b1 b2 AND BCDUMP_F_STRIP \<noteq> 0 \<longleftrightarrow> b1) \<and> unat (ucast (f b1 b2) :: u8) = unat (f b1 b2)" for b1 b2
    unfolding f_def by (cases b1; cases b2; simp only: if_True if_False; code_simp)
  then show "f strip ffi < 128" "f strip ffi AND NOT BCDUMP_F_KNOWN = 0" "f strip ffi AND BCDUMP_F_BE = 0"
    "f strip ffi AND BCDUMP_F_STRIP \<noteq> 0 \<longleftrightarrow> strip" "unat (ucast (f strip ffi) :: u8) = unat (f strip ffi)" by blast+
qed

lemma filled_simps:
  assumes "filled ls ls'"
  shows "ls_ok ls'" "content ls' = content ls" "ls_stack ls' = ls_stack ls" "ls_flags ls' = ls_flags ls"
    "ls_endmark ls' = ls_endmark ls" "ls_chunkarg ls' = ls_chunkarg ls"
  using assms by (auto simp: filled_def)

definition opened :: "LexState \<Rightarrow> bool \<Rightarrow> (u32 \<Rightarrow> bool) \<Rightarrow> bytes \<Rightarrow> (bool, LexState) res \<Rightarrow> bool" where
  "opened ls strip N c r \<longleftrightarrow> (\<exists>ls'. r = Some (Inl LJ_ERR_ERRMEM, ls')) \<or>
     (\<exists>ls'. r = Some (Inr True, ls') \<and> ls_ok ls' \<and> content ls' = c \<and> ls_fits ls' strip \<and>
        ls_stack ls' = ls_stack ls \<and> ls_endmark ls' = ls_endmark ls \<and> N (ls_chunkname ls'))"

lemma name_read:
  assumes "ls_ok ls" "content ls = (if strip then [] else uleb (length b) @ b) @ c" "length b < 2 ^ 31" "ls_fits ls strip"
    "\<exists>s. re_str_new re (if strip then arg_name (ls_chunkarg ls) else b) \<in> {Inr s, Inl LJ_ERR_ERRMEM} \<and> N s"
    "\<not> strip \<longrightarrow> length (uleb (length b)) \<le> length (ls_p ls)"
  shows "opened ls strip N c
     (if strip then
       rbind (rd_str_new re ls (arg_name (ls_chunkarg ls))) (\<lambda>ls s. Some (Inr True, ls\<lparr>ls_chunkname := s\<rparr>))
     else
       rbind (bcread_uleb128 ls) (\<lambda>ls len.
       rbind (bcread_need ls (unat len)) (\<lambda>ls u.
       rbind (bcread_mem ls (unat len)) (\<lambda>ls p.
       rbind (rd_str_new re ls p) (\<lambda>ls s.
       Some (Inr True, ls\<lparr>ls_chunkname := s\<rparr>))))))"
proof (cases strip)
  case True
  then show ?thesis using assms
    by (auto simp: opened_def rd_str_new_def ls_ok_def content_def ls_fits_def)
next
  case False
  obtain r where r: "ls_p ls = uleb (length b) @ r" "r @ concat (ls_blocks ls) = b @ c"
    using content_split [of ls "uleb (length b)" "b @ c"] assms(2,6) False by auto
  let ?l = "ls\<lparr>ls_p := r\<rparr>"
  have "ls_ok ?l" "content ?l = b @ c" using ls_ok_drop [OF assms(1) r(1)] r(2) by (simp_all add: content_def)
  then obtain l3 where f: "bcread_need ?l (length b) = Some (Inr (), l3)" "filled ?l l3" "length b \<le> length (ls_p l3)"
    using need_ok [of ?l "length b"] by auto
  have c3: "content l3 = b @ c" using f(2) \<open>content ?l = b @ c\<close> by (simp add: filled_def)
  obtain r3 where r3: "ls_p l3 = b @ r3" "r3 @ concat (ls_blocks l3) = c" using content_split [OF c3 f(3)] .
  have un: "unat (of_nat (length b) :: u32) = length b" using assms(3) by (simp add: unat_of_nat_small)
  have "ls_ok (l3\<lparr>ls_p := r3, ls_chunkname := s\<rparr>)" for s
    using ls_ok_drop [OF filled_simps(1) [OF f(2)] r3(1)] by (simp add: ls_ok_def content_def)
  then show ?thesis using False f(1) r3 un assms(3,4,5) read_uleb_nat [OF r(1)] filled_simps [OF f(2)]
    by (auto simp: opened_def rd_str_new_def read_mem ls_fits_def content_def)
qed

lemma header_split:
  "bcread_header re ls =
     rbind (bcread_want ls (3 + 5 + 5)) (\<lambda>ls u.
     rbind (bcread_byte ls) (\<lambda>ls a.
     if a \<noteq> ucast BCDUMP_HEAD2 then Some (Inr False, ls)
     else rbind (bcread_byte ls) (\<lambda>ls b.
     if b \<noteq> ucast BCDUMP_HEAD3 then Some (Inr False, ls)
     else rbind (bcread_byte ls) (\<lambda>ls v.
     if v \<noteq> ucast BCDUMP_VERSION then Some (Inr False, ls)
     else rbind (bcread_uleb128 ls) (\<lambda>ls flags.
     let ls = ls\<lparr>ls_flags := flags\<rparr> in
     if flags AND NOT BCDUMP_F_KNOWN \<noteq> 0 then Some (Inr False, ls)
     else if flags AND BCDUMP_F_STRIP \<noteq> 0 then
       rbind (rd_str_new re ls (arg_name (ls_chunkarg ls))) (\<lambda>ls s. Some (Inr True, ls\<lparr>ls_chunkname := s\<rparr>))
     else
       rbind (bcread_uleb128 ls) (\<lambda>ls len.
       rbind (bcread_need ls (unat len)) (\<lambda>ls u.
       rbind (bcread_mem ls (unat len)) (\<lambda>ls p.
       rbind (rd_str_new re ls p) (\<lambda>ls s.
       Some (Inr True, ls\<lparr>ls_chunkname := s\<rparr>))))))))))"
  unfolding bcread_header_def arg_name_def ..

lemma header_read:
  assumes ok: "ls_ok ls" "\<not> ls_eof ls" and p: "content ls = tl (enc_header we strip h) @ c" and n: "str_small we (p_chunkname h)"
    and s: "\<exists>s. re_str_new re (if strip then arg_name (ls_chunkarg ls) else we_str we (p_chunkname h)) \<in> {Inr s, Inl LJ_ERR_ERRMEM} \<and> N s"
  shows "opened ls strip N c (bcread_header re ls)"
proof -
  let ?b = "we_str we (p_chunkname h)" and ?ffi = "p_flags h AND PROTO_FFI \<noteq> 0"
  define fl where "fl = (if strip then BCDUMP_F_STRIP else 0) + (if ?ffi then BCDUMP_F_FFI else 0)"
  note f = header_flags [of strip ?ffi, folded fl_def]
  have u: "[ucast fl] = uleb (unat fl)" using f(1,5) by (simp add: uleb_byte word_less_nat_alt word_unat_eq_iff unat_of_nat_small)
  let ?N = "if strip then [] else uleb (length ?b) @ ?b"
  have p0: "content ls = BCDUMP_HEAD2 # BCDUMP_HEAD3 # BCDUMP_VERSION # uleb (unat fl) @ ?N @ c"
    using p u [symmetric] by (simp add: enc_header_def fl_def)
  obtain ls1 where w: "bcread_want ls 13 = Some (Inr (), ls1)" "filled ls ls1" "13 \<le> length (ls_p ls1) \<or> ls_blocks ls1 = []"
    using want_ok [OF ok(1), of 13] ok(2) by (auto simp: LJ_MAX_MEM_def)
  have b31: "length ?b < 2 ^ 31" using n by (simp add: str_small_def)
  have ul: "length (uleb (length ?b)) \<le> 5"
    using uleb_u32 [of "of_nat (length ?b)"] b31 by (simp add: unat_of_nat_small)
  let ?H = "[BCDUMP_HEAD2, BCDUMP_HEAD3, BCDUMP_VERSION] @ uleb (unat fl)"
  have c1: "content ls1 = ?H @ ?N @ c" using p0 filled_simps(2) [OF w(2)] by simp
  have lu: "length (uleb (unat fl)) = 1" using u by (metis length_Cons list.size(3) One_nat_def)
  have "length ?H \<le> length (ls_p ls1)" using w(3) lu arg_cong [OF c1, of length] by (auto simp: content_def)
  then obtain r where r: "ls_p ls1 = ?H @ r" "r @ concat (ls_blocks ls1) = ?N @ c" using content_split [OF c1] by blast
  let ?l = "ls1\<lparr>ls_p := r, ls_flags := fl\<rparr>"
  have "opened ?l strip N c
     (if strip then
       rbind (rd_str_new re ?l (arg_name (ls_chunkarg ?l))) (\<lambda>ls s. Some (Inr True, ls\<lparr>ls_chunkname := s\<rparr>))
     else
       rbind (bcread_uleb128 ?l) (\<lambda>ls len.
       rbind (bcread_need ls (unat len)) (\<lambda>ls u.
       rbind (bcread_mem ls (unat len)) (\<lambda>ls p.
       rbind (rd_str_new re ls p) (\<lambda>ls s.
       Some (Inr True, ls\<lparr>ls_chunkname := s\<rparr>))))))"
  proof (rule name_read [where b = ?b])
    show "ls_ok ?l" using ls_ok_drop [OF filled_simps(1) [OF w(2)] r(1)] by (simp add: ls_ok_def content_def)
    show "content ?l = ?N @ c" using r(2) by (simp add: content_def)
    show "ls_fits ?l strip" using f(3,4) by (simp add: ls_fits_def)
    show "\<exists>s. re_str_new re (if strip then arg_name (ls_chunkarg ?l) else ?b) \<in> {Inr s, Inl LJ_ERR_ERRMEM} \<and> N s"
    proof -
      have "ls_chunkarg ?l = ls_chunkarg ls" using filled_simps(6) [OF w(2)] by simp
      with s show ?thesis by metis
    qed
    show "\<not> strip \<longrightarrow> length (uleb (length ?b)) \<le> length (ls_p ?l)"
    proof
      assume "\<not> strip"
      moreover have "9 \<le> length r \<or> ls_blocks ls1 = []" using w(3) r(1) lu by auto
      ultimately show "length (uleb (length ?b)) \<le> length (ls_p ?l)"
        using ul r(2) by auto
    qed
  qed (rule b31)
  moreover have "bcread_uleb128 (ls1\<lparr>ls_p := uleb (unat fl) @ r\<rparr>) = Some (Inr fl, ls1\<lparr>ls_p := r\<rparr>)"
    using read_uleb [of "ls1\<lparr>ls_p := uleb (unat fl) @ r\<rparr>" fl r] by simp
  ultimately show ?thesis using w(1) r(1) f filled_simps [OF w(2)]
    by (cases strip) (simp_all add: header_split read_byte opened_def Let_def)
qed

lemma footer_read:
  assumes "ls_ok ls" "content ls = [0]"
  shows "\<exists>ls'. bcread_protos re ls = Some (Inr (), ls') \<and> ls_p ls' = [] \<and> ls_stack ls' = ls_stack ls \<and>
    ls_chunkname ls' = ls_chunkname ls"
proof (cases "ls_p ls = []")
  case False
  then have "ls_p ls = [0]" using assms(2) by (cases "ls_p ls") (auto simp: content_def)
  then show ?thesis by (subst bcread_protos.simps) (simp add: bcread_proto_def)
next
  case True
  have e: "\<not> ls_eof ls" using assms True by (auto simp: ls_ok_def content_def)
  obtain ls1 where w: "bcread_want ls 5 = Some (Inr (), ls1)" "filled ls ls1" "5 \<le> length (ls_p ls1) \<or> ls_blocks ls1 = []"
    using want_ok [OF assms(1), of 5] e by (auto simp: LJ_MAX_MEM_def)
  have "ls_p ls1 @ concat (ls_blocks ls1) = [0]" using filled_simps(2) [OF w(2)] assms(2) by (simp add: content_def)
  then have "ls_p ls1 = uleb 0 @ []" using w(3) by (cases "ls_p ls1") (auto simp: uleb_byte)
  from read_uleb_nat [OF this] w(1) True show ?thesis
    using w(2) by (subst bcread_protos.simps) (auto simp: bcread_proto_def filled_def)
qed

lemma bcread_back:
  assumes pt: "proto_ok we (re_tab re) strip pt" "proto_back we re strip pt" "chunk_ok we pt" "name_back we re strip (ls_chunkarg ls) pt"
    and ls: "ls_ok ls" "\<not> ls_eof ls" "content ls = tl (enc_dump we strip pt)"
  shows "\<exists>r ls'. lj_bcread re ls = Some (r, ls') \<and> (r \<in> {Inl LJ_ERR_ERRMEM, Inl LJ_ERR_TABOV} \<or>
    (\<exists>pt' name. r = Inr pt' \<and> proto_rel we (re_tab re) strip name pt pt' \<and> (strip \<or> (case pt of GCproto h ks \<Rightarrow> name = p_chunkname h))))"
proof -
  obtain h ks where [simp]: "pt = GCproto h ks" by (cases pt)
  let ?l = "ls\<lparr>ls_stack := []\<rparr>" let ?N = "\<lambda>s. strip \<or> s = p_chunkname h"
  have "enc_header we strip h \<noteq> []" by (simp add: enc_header_def)
  then have p: "content ?l = tl (enc_header we strip h) @ enc_proto we strip pt @ [0]"
    using ls(3) by (simp add: enc_dump_def content_def)
  have "opened ?l strip ?N (enc_proto we strip pt @ [0]) (bcread_header re ?l)"
  proof (rule header_read [OF _ _ p])
    show "\<exists>s. re_str_new re (if strip then arg_name (ls_chunkarg ?l) else we_str we (p_chunkname h)) \<in> {Inr s, Inl LJ_ERR_ERRMEM} \<and> ?N s"
      using pt(4) by (cases strip) (auto simp: name_back_def str_back_def)
  qed (use ls pt(3) in \<open>simp_all add: ls_ok_stack chunk_ok_def\<close>)
  then consider ls' where "bcread_header re ?l = Some (Inl LJ_ERR_ERRMEM, ls')"
    | ls' where "bcread_header re ?l = Some (Inr True, ls')" "ls_ok ls'" "content ls' = enc_proto we strip pt @ [0]"
      "ls_fits ls' strip" "ls_stack ls' = []" "?N (ls_chunkname ls')"
    unfolding opened_def by auto
  then show ?thesis
  proof cases
    case 1
    then show ?thesis by (simp add: lj_bcread_def)
  next
    case (2 ls')
    from protos_read(1) [OF pt(1,2) 2(4,2,3)] consider er l where "bcread_protos re ls' = Some (Inl er, l)" "er \<in> {LJ_ERR_ERRMEM, LJ_ERR_TABOV}"
      | pt' l where "bcread_protos re ls' = bcread_protos re l" "proto_rel we (re_tab re) strip (ls_chunkname ls') pt pt'" "after ls' [pt'] [0] l"
      unfolding goes_def using 2(5) by auto
    then show ?thesis
    proof cases
      case (1 er l)
      then show ?thesis using 2(1) by (auto simp: lj_bcread_def)
    next
      case (2 pt' l)
      then obtain l' where "bcread_protos re l = Some (Inr (), l')" "ls_p l' = []" "ls_stack l' = [pt']"
        using footer_read [of l re] by (auto simp: after_def)
      then show ?thesis using 2 \<open>bcread_header re ?l = Some (Inr True, ls')\<close> \<open>?N (ls_chunkname ls')\<close> by (auto simp: lj_bcread_def)
    qed
  qed
qed

text \<open>C7: Dumps round trip. When the writer reports success for a prototype, and the reader
  then gets what was written, after the escape byte, cut into any non-empty blocks, the reader ends;
  it reports that memory or table space ran out, or returns the prototype again, with the same
  instructions, upvalues, constants, children and debug information.\<close>

theorem dump_roundtrip:
  assumes "lj_bcwrite we pt strip = Some (Inr 0, out)" "proto_ok we (re_tab re) strip pt" "chunk_ok we pt"
    "proto_back we re strip pt" "name_back we re strip (ls_chunkarg ls) pt"
    "ls_ok ls" "\<not> ls_eof ls" "content ls = tl (concat out)"
  shows "\<exists>r ls'. lj_bcread re ls = Some (r, ls') \<and> (r \<in> {Inl LJ_ERR_ERRMEM, Inl LJ_ERR_TABOV} \<or>
    (\<exists>pt' name. r = Inr pt' \<and> proto_rel we (re_tab re) strip name pt pt' \<and> (strip \<or> (case pt of GCproto h ks \<Rightarrow> name = p_chunkname h))))"
proof -
  have "concat out = enc_dump we strip pt" using dump_written [OF assms(2,3)] assms(1) by auto
  then show ?thesis using bcread_back [OF assms(2,4,3,5,6,7)] assms(8) by simp
qed

text \<open>A prototype with a child, a string, a table, a 64 bit integer and a number as constants.\<close>

definition we0 :: wenv where
  "we0 = \<lparr>we_alloc = (\<lambda>n. True), we_str = (\<lambda>s. [ucast s]), we_startins = (\<lambda>d. 0), we_wfunc = (\<lambda>bs b. 0)\<rparr>"

definition re0 :: renv where
  "re0 = \<lparr>re_tab = env0, re_str_new = (\<lambda>b. if b = [] then Inl LJ_ERR_ERRMEM else Inr (ucast (hd b)))\<rparr>"

definition head0 :: "u8 \<Rightarrow> phead" where
  "head0 f = \<lparr>p_flags = f, p_numparams = 1, p_framesize = 3, p_bc = [0x0359, 0x0001014c], p_uv = [7], p_kn = [mk_tv 0 0x3ff80000],
     p_sizept = 0, p_trace = 0, p_chunkname = 5, p_firstline = 1, p_numline = 4, p_lineinfo = Some [2, 0x78, 0, 0],
     p_uvinfo = 1, p_varinfo = 3\<rparr>"

definition ks0 :: "kgc list" where
  "ks0 = [KProto (GCproto (head0 0) []), KStr 65, KTab tab0, KCdata CTID_INT64 3 0]"

definition pt0 :: GCproto where "pt0 = GCproto (head0 1) ks0"

definition ls0 :: LexState where
  "ls0 = \<lparr>ls_p = [], ls_blocks = [take 3 (tl (enc_dump we0 False pt0)), drop 3 (tl (enc_dump we0 False pt0))], ls_eof = False,
     ls_flags = 0, ls_stack = [], ls_chunkarg = [], ls_chunkname = 0, ls_endmark = False, ls_total = 0\<rparr>"

lemma uleb_le5: "n < 2 ^ 32 \<Longrightarrow> length (uleb n) \<le> 5"
  using uleb_u32 [of "of_nat n"] by (simp add: unat_of_nat_small)

lemma ktab0_ok: "ktab_ok we0 env0 tab0"
  using tab0_ok by (auto simp: ktab_ok_def tab0_def empty_tab_def)

lemma tab0_enc: "length (enc_ktab we0 tab0) = 2"
  by (simp add: enc_ktab_def tab0_def empty_tab_def tab_narray_def keyed_def uleb_byte)

lemma head0_ok: "head_ok (head0 f)"
  by (simp add: head_ok_def head0_def head_dbg_def)

lemma we0_str [simp]: "we_str we0 s = [ucast s]"
  by (simp add: we0_def)

lemma body0_len: "length (enc_body we0 False (head0 f) ks) \<le> 100 + length (uleb (length ks)) + length (concat (map (enc_kgc1 we0) ks))"
proof -
  have "length (enc_knum1 (mk_tv 0 0x3ff80000)) \<le> 10" by (rule knum1_write(2) [of "\<lparr>w_buf = [], w_sz = 10, w_strip = False, w_status = 0, w_out = []\<rparr>"]) simp
  then show ?thesis
    by (simp add: enc_body_def enc_head_def head0_def head_dbg_def head_bc_def uleb_byte le32_def le16_def)
qed

lemma ks0_len: "length (concat (map (enc_kgc1 we0) ks0)) \<le> 100"
  using uleb_u32 [of "tv_lo 3"] uleb_u32 [of "tv_hi 3"] by (simp add: ks0_def enc_kgc1_def tab0_enc uleb_byte)

lemma body0_sizes: "length (enc_body we0 False (head0 0) []) \<le> 101" "length (enc_body we0 False (head0 1) ks0) \<le> 201"
  using body0_len [of 0 "[]"] body0_len [of 1 ks0] ks0_len by (simp_all add: uleb_byte ks0_def)

lemma pt0_ok: "proto_ok we0 env0 False pt0"
  using body0_sizes
  by (simp add: pt0_def head0_ok) (simp add: ks0_def head0_ok kgc1_ok_def ktab0_ok cdata_ok_def str_small_def)

lemma pt0_chunk: "chunk_ok we0 pt0"
  by (simp add: chunk_ok_def pt0_def str_small_def)

lemma pt0_back: "proto_back we0 re0 False pt0"
proof -
  have "kn_ok (mk_tv 0 0x3ff80000)" by code_simp
  moreover have "dbg_ok (head0 f)" for f
    by (simp add: dbg_ok_def head0_def head_dbg_def bcread_varinfo_def sizeli_def)
  moreover have "str_back we0 re0 65" by (simp add: str_back_def re0_def)
  moreover have "kgc_strs (KTab tab0) = {}" by (simp add: tab_vals_def tab0_def empty_tab_def keyed_def)
  moreover have "p_flags (head0 1) AND PROTO_CHILD \<noteq> 0" by (simp add: head0_def PROTO_CHILD_def)
  ultimately show ?thesis by (simp add: pt0_def ks0_def) (simp add: head0_def)
qed

lemma dump0_len: "4 < length (tl (enc_dump we0 False pt0))" "length (tl (enc_dump we0 False pt0)) < LJ_MAX_MEM"
proof -
  have b: "length (uleb n) \<le> 5" if "n \<le> 201" for n using that by (intro uleb_le5) simp
  note b1 = b [OF order_trans [OF body0_sizes(1)]] and b2 = b [OF body0_sizes(2)]
  have "length (enc_proto we0 False pt0) \<le> 101 + 201 + 10"
    using b1 b2 body0_sizes by (simp add: pt0_def sized_def) (simp add: ks0_def sized_def)
  moreover have "length (tl (enc_header we0 False (head0 1))) = 6"
    by (simp add: enc_header_def uleb_byte)
  moreover have "tl (enc_dump we0 False pt0) = tl (enc_header we0 False (head0 1)) @ enc_proto we0 False pt0 @ [0]"
    by (simp add: enc_dump_def pt0_def enc_header_def)
  ultimately show "4 < length (tl (enc_dump we0 False pt0))" "length (tl (enc_dump we0 False pt0)) < LJ_MAX_MEM"
    by (simp_all add: LJ_MAX_MEM_def)
qed

lemma ls0_facts: "ls_ok ls0" "\<not> ls_eof ls0" "content ls0 = tl (enc_dump we0 False pt0)"
  using dump0_len by (auto simp: ls0_def ls_ok_def content_def simp del: length_tl)

lemma pt0_written:
  obtains out where "lj_bcwrite we0 pt0 False = Some (Inr 0, out)" "concat out = enc_dump we0 False pt0"
  using dump_written [OF pt0_ok pt0_chunk] by (auto simp: we0_def)

theorem dump_roundtrip_witness:
  "\<exists>out. lj_bcwrite we0 pt0 False = Some (Inr 0, out) \<and> (\<exists>r ls'. lj_bcread re0 ls0 = Some (r, ls') \<and> (r \<in> {Inl LJ_ERR_ERRMEM, Inl LJ_ERR_TABOV} \<or>
    (\<exists>pt' name. r = Inr pt' \<and> proto_rel we0 env0 False name pt0 pt' \<and> (False \<or> (case pt0 of GCproto h ks \<Rightarrow> name = p_chunkname h)))))"
proof -
  obtain out where w: "lj_bcwrite we0 pt0 False = Some (Inr 0, out)" "concat out = enc_dump we0 False pt0" by (rule pt0_written)
  have t: "re_tab re0 = env0" by (simp add: re0_def)
  have "name_back we0 re0 False (ls_chunkarg ls0) pt0" by (simp add: name_back_def pt0_def str_back_def re0_def head0_def)
  from dump_roundtrip [OF w(1) _ pt0_chunk pt0_back this ls0_facts(1,2)] w(1) show ?thesis
    unfolding t w(2) using pt0_ok ls0_facts(3) by blast
qed


end
