(* ===== verification/LJ_IR.thy ===== *)
theory LJ_IR
  imports LJ_Dump
begin

text \<open>
  The SSA intermediate representation of the trace compiler (\<open>lj_ir.h\<close>, \<open>lj_ir.c\<close>,
  \<open>lj_iropt.h\<close>, \<open>lj_jit.h\<close>): instructions, the buffer that holds constants below \<open>REF_BIAS\<close> and
  instructions above it and grows at both ends, the per-opcode chains, emission and the interning of
  constants. A reference is a natural number; the operand fields of an instruction hold 16 bits of
  it. The address of a 64 bit constant is its position in the chained arrays. A chain that does not
  end is \<open>None\<close>.
\<close>

section \<open>Opcodes and types\<close>

datatype IRMode = IRMref | IRMlit | IRMcst | IRMnone

definition IRM_C :: u8 where "IRM_C = 0x10"
definition IRM_N :: u8 where "IRM_N = 0x00"
definition IRM_R :: u8 where "IRM_R = IRM_N"
definition IRM_A :: u8 where "IRM_A = 0x20"
definition IRM_L :: u8 where "IRM_L = 0x40"
definition IRM_S :: u8 where "IRM_S = 0x60"
definition IRM_W :: u8 where "IRM_W = 0x80"
definition IRM_NW :: u8 where "IRM_NW = IRM_N OR IRM_W"
definition IRM_CW :: u8 where "IRM_CW = IRM_C OR IRM_W"
definition IRM_AW :: u8 where "IRM_AW = IRM_A OR IRM_W"
definition IRM_LW :: u8 where "IRM_LW = IRM_L OR IRM_W"

text \<open>The kinds and operand modes of the opcodes, in the order of the source.\<close>

definition irdef :: "(u8 \<times> IRMode \<times> IRMode) list" where
  "irdef = [
     (IRM_N, IRMref, IRMref),
     (IRM_N, IRMref, IRMref),
     (IRM_N, IRMref, IRMref),
     (IRM_N, IRMref, IRMref),
     (IRM_N, IRMref, IRMref),
     (IRM_N, IRMref, IRMref),
     (IRM_N, IRMref, IRMref),
     (IRM_N, IRMref, IRMref),
     (IRM_C, IRMref, IRMref),
     (IRM_C, IRMref, IRMref),
     (IRM_N, IRMref, IRMref),
     (IRM_S, IRMref, IRMref),
     (IRM_N, IRMnone, IRMnone),
     (IRM_N, IRMlit, IRMlit),
     (IRM_N, IRMlit, IRMnone),
     (IRM_S, IRMnone, IRMnone),
     (IRM_S, IRMref, IRMref),
     (IRM_S, IRMnone, IRMnone),
     (IRM_S, IRMref, IRMnone),
     (IRM_S, IRMref, IRMref),
     (IRM_S, IRMref, IRMlit),
     (IRM_N, IRMnone, IRMnone),
     (IRM_N, IRMcst, IRMnone),
     (IRM_N, IRMcst, IRMnone),
     (IRM_N, IRMcst, IRMnone),
     (IRM_N, IRMcst, IRMnone),
     (IRM_N, IRMcst, IRMnone),
     (IRM_N, IRMcst, IRMnone),
     (IRM_N, IRMcst, IRMnone),
     (IRM_N, IRMref, IRMlit),
     (IRM_N, IRMref, IRMnone),
     (IRM_N, IRMref, IRMnone),
     (IRM_C, IRMref, IRMref),
     (IRM_C, IRMref, IRMref),
     (IRM_C, IRMref, IRMref),
     (IRM_N, IRMref, IRMref),
     (IRM_N, IRMref, IRMref),
     (IRM_N, IRMref, IRMref),
     (IRM_N, IRMref, IRMref),
     (IRM_N, IRMref, IRMref),
     (IRM_C, IRMref, IRMref),
     (IRM_N, IRMref, IRMref),
     (IRM_C, IRMref, IRMref),
     (IRM_N, IRMref, IRMref),
     (IRM_N, IRMref, IRMref),
     (IRM_N, IRMref, IRMref),
     (IRM_N, IRMref, IRMref),
     (IRM_N, IRMref, IRMref),
     (IRM_N, IRMref, IRMref),
     (IRM_N, IRMref, IRMref),
     (IRM_C, IRMref, IRMref),
     (IRM_C, IRMref, IRMref),
     (IRM_N, IRMref, IRMlit),
     (IRM_CW, IRMref, IRMref),
     (IRM_NW, IRMref, IRMref),
     (IRM_CW, IRMref, IRMref),
     (IRM_R, IRMref, IRMref),
     (IRM_R, IRMref, IRMref),
     (IRM_L, IRMref, IRMref),
     (IRM_S, IRMref, IRMref),
     (IRM_LW, IRMref, IRMlit),
     (IRM_LW, IRMref, IRMlit),
     (IRM_R, IRMref, IRMlit),
     (IRM_N, IRMref, IRMref),
     (IRM_L, IRMref, IRMnone),
     (IRM_L, IRMref, IRMnone),
     (IRM_L, IRMref, IRMnone),
     (IRM_L, IRMref, IRMlit),
     (IRM_L, IRMref, IRMlit),
     (IRM_L, IRMlit, IRMlit),
     (IRM_L, IRMref, IRMnone),
     (IRM_S, IRMref, IRMref),
     (IRM_S, IRMref, IRMref),
     (IRM_S, IRMref, IRMref),
     (IRM_S, IRMref, IRMref),
     (IRM_S, IRMref, IRMref),
     (IRM_N, IRMref, IRMref),
     (IRM_A, IRMref, IRMref),
     (IRM_AW, IRMlit, IRMlit),
     (IRM_AW, IRMref, IRMnone),
     (IRM_AW, IRMref, IRMref),
     (IRM_NW, IRMref, IRMref),
     (IRM_S, IRMref, IRMnone),
     (IRM_S, IRMref, IRMref),
     (IRM_S, IRMnone, IRMnone),
     (IRM_N, IRMref, IRMlit),
     (IRM_N, IRMref, IRMref),
     (IRM_N, IRMref, IRMnone),
     (IRM_N, IRMref, IRMnone),
     (IRM_N, IRMref, IRMlit),
     (IRM_L, IRMref, IRMlit),
     (IRM_S, IRMref, IRMlit),
     (IRM_S, IRMref, IRMref),
     (IRM_N, IRMref, IRMref)]"

definition IR_LT :: u8 where "IR_LT = 0"
definition IR_GE :: u8 where "IR_GE = 1"
definition IR_LE :: u8 where "IR_LE = 2"
definition IR_GT :: u8 where "IR_GT = 3"
definition IR_ULT :: u8 where "IR_ULT = 4"
definition IR_UGE :: u8 where "IR_UGE = 5"
definition IR_ULE :: u8 where "IR_ULE = 6"
definition IR_UGT :: u8 where "IR_UGT = 7"
definition IR_EQ :: u8 where "IR_EQ = 8"
definition IR_NE :: u8 where "IR_NE = 9"
definition IR_ABC :: u8 where "IR_ABC = 10"
definition IR_RETF :: u8 where "IR_RETF = 11"
definition IR_NOP :: u8 where "IR_NOP = 12"
definition IR_BASE :: u8 where "IR_BASE = 13"
definition IR_PVAL :: u8 where "IR_PVAL = 14"
definition IR_GCSTEP :: u8 where "IR_GCSTEP = 15"
definition IR_HIOP :: u8 where "IR_HIOP = 16"
definition IR_LOOP :: u8 where "IR_LOOP = 17"
definition IR_USE :: u8 where "IR_USE = 18"
definition IR_PHI :: u8 where "IR_PHI = 19"
definition IR_RENAME :: u8 where "IR_RENAME = 20"
definition IR_KPRI :: u8 where "IR_KPRI = 21"
definition IR_KINT :: u8 where "IR_KINT = 22"
definition IR_KGC :: u8 where "IR_KGC = 23"
definition IR_KPTR :: u8 where "IR_KPTR = 24"
definition IR_KKPTR :: u8 where "IR_KKPTR = 25"
definition IR_KNULL :: u8 where "IR_KNULL = 26"
definition IR_KNUM :: u8 where "IR_KNUM = 27"
definition IR_KINT64 :: u8 where "IR_KINT64 = 28"
definition IR_KSLOT :: u8 where "IR_KSLOT = 29"
definition IR_BNOT :: u8 where "IR_BNOT = 30"
definition IR_BSWAP :: u8 where "IR_BSWAP = 31"
definition IR_BAND :: u8 where "IR_BAND = 32"
definition IR_BOR :: u8 where "IR_BOR = 33"
definition IR_BXOR :: u8 where "IR_BXOR = 34"
definition IR_BSHL :: u8 where "IR_BSHL = 35"
definition IR_BSHR :: u8 where "IR_BSHR = 36"
definition IR_BSAR :: u8 where "IR_BSAR = 37"
definition IR_BROL :: u8 where "IR_BROL = 38"
definition IR_BROR :: u8 where "IR_BROR = 39"
definition IR_ADD :: u8 where "IR_ADD = 40"
definition IR_SUB :: u8 where "IR_SUB = 41"
definition IR_MUL :: u8 where "IR_MUL = 42"
definition IR_DIV :: u8 where "IR_DIV = 43"
definition IR_MOD :: u8 where "IR_MOD = 44"
definition IR_POW :: u8 where "IR_POW = 45"
definition IR_NEG :: u8 where "IR_NEG = 46"
definition IR_ABS :: u8 where "IR_ABS = 47"
definition IR_ATAN2 :: u8 where "IR_ATAN2 = 48"
definition IR_LDEXP :: u8 where "IR_LDEXP = 49"
definition IR_MIN :: u8 where "IR_MIN = 50"
definition IR_MAX :: u8 where "IR_MAX = 51"
definition IR_FPMATH :: u8 where "IR_FPMATH = 52"
definition IR_ADDOV :: u8 where "IR_ADDOV = 53"
definition IR_SUBOV :: u8 where "IR_SUBOV = 54"
definition IR_MULOV :: u8 where "IR_MULOV = 55"
definition IR_AREF :: u8 where "IR_AREF = 56"
definition IR_HREFK :: u8 where "IR_HREFK = 57"
definition IR_HREF :: u8 where "IR_HREF = 58"
definition IR_NEWREF :: u8 where "IR_NEWREF = 59"
definition IR_UREFO :: u8 where "IR_UREFO = 60"
definition IR_UREFC :: u8 where "IR_UREFC = 61"
definition IR_FREF :: u8 where "IR_FREF = 62"
definition IR_STRREF :: u8 where "IR_STRREF = 63"
definition IR_ALOAD :: u8 where "IR_ALOAD = 64"
definition IR_HLOAD :: u8 where "IR_HLOAD = 65"
definition IR_ULOAD :: u8 where "IR_ULOAD = 66"
definition IR_FLOAD :: u8 where "IR_FLOAD = 67"
definition IR_XLOAD :: u8 where "IR_XLOAD = 68"
definition IR_SLOAD :: u8 where "IR_SLOAD = 69"
definition IR_VLOAD :: u8 where "IR_VLOAD = 70"
definition IR_ASTORE :: u8 where "IR_ASTORE = 71"
definition IR_HSTORE :: u8 where "IR_HSTORE = 72"
definition IR_USTORE :: u8 where "IR_USTORE = 73"
definition IR_FSTORE :: u8 where "IR_FSTORE = 74"
definition IR_XSTORE :: u8 where "IR_XSTORE = 75"
definition IR_SNEW :: u8 where "IR_SNEW = 76"
definition IR_XSNEW :: u8 where "IR_XSNEW = 77"
definition IR_TNEW :: u8 where "IR_TNEW = 78"
definition IR_TDUP :: u8 where "IR_TDUP = 79"
definition IR_CNEW :: u8 where "IR_CNEW = 80"
definition IR_CNEWI :: u8 where "IR_CNEWI = 81"
definition IR_TBAR :: u8 where "IR_TBAR = 82"
definition IR_OBAR :: u8 where "IR_OBAR = 83"
definition IR_XBAR :: u8 where "IR_XBAR = 84"
definition IR_CONV :: u8 where "IR_CONV = 85"
definition IR_TOBIT :: u8 where "IR_TOBIT = 86"
definition IR_TOSTR :: u8 where "IR_TOSTR = 87"
definition IR_STRTO :: u8 where "IR_STRTO = 88"
definition IR_CALLN :: u8 where "IR_CALLN = 89"
definition IR_CALLL :: u8 where "IR_CALLL = 90"
definition IR_CALLS :: u8 where "IR_CALLS = 91"
definition IR_CALLXS :: u8 where "IR_CALLXS = 92"
definition IR_CARG :: u8 where "IR_CARG = 93"
definition IR__MAX :: nat where "IR__MAX = length irdef"

lemmas ir_codes =
  IR_LT_def IR_GE_def IR_LE_def IR_GT_def IR_ULT_def IR_UGE_def IR_ULE_def IR_UGT_def
  IR_EQ_def IR_NE_def IR_ABC_def IR_RETF_def IR_NOP_def IR_BASE_def IR_PVAL_def IR_GCSTEP_def
  IR_HIOP_def IR_LOOP_def IR_USE_def IR_PHI_def IR_RENAME_def IR_KPRI_def IR_KINT_def IR_KGC_def
  IR_KPTR_def IR_KKPTR_def IR_KNULL_def IR_KNUM_def IR_KINT64_def IR_KSLOT_def IR_BNOT_def IR_BSWAP_def
  IR_BAND_def IR_BOR_def IR_BXOR_def IR_BSHL_def IR_BSHR_def IR_BSAR_def IR_BROL_def IR_BROR_def
  IR_ADD_def IR_SUB_def IR_MUL_def IR_DIV_def IR_MOD_def IR_POW_def IR_NEG_def IR_ABS_def
  IR_ATAN2_def IR_LDEXP_def IR_MIN_def IR_MAX_def IR_FPMATH_def IR_ADDOV_def IR_SUBOV_def IR_MULOV_def
  IR_AREF_def IR_HREFK_def IR_HREF_def IR_NEWREF_def IR_UREFO_def IR_UREFC_def IR_FREF_def IR_STRREF_def
  IR_ALOAD_def IR_HLOAD_def IR_ULOAD_def IR_FLOAD_def IR_XLOAD_def IR_SLOAD_def IR_VLOAD_def IR_ASTORE_def
  IR_HSTORE_def IR_USTORE_def IR_FSTORE_def IR_XSTORE_def IR_SNEW_def IR_XSNEW_def IR_TNEW_def IR_TDUP_def
  IR_CNEW_def IR_CNEWI_def IR_TBAR_def IR_OBAR_def IR_XBAR_def IR_CONV_def IR_TOBIT_def IR_TOSTR_def
  IR_STRTO_def IR_CALLN_def IR_CALLL_def IR_CALLS_def IR_CALLXS_def IR_CARG_def

definition irmode_num :: "IRMode \<Rightarrow> u8" where
  "irmode_num m = (case m of IRMref \<Rightarrow> 0 | IRMlit \<Rightarrow> 1 | IRMcst \<Rightarrow> 2 | IRMnone \<Rightarrow> 3)"

definition IRMODE :: "u8 \<times> IRMode \<times> IRMode \<Rightarrow> u8" where
  "IRMODE d = (case d of (m, m1, m2) \<Rightarrow> (irmode_num m1 OR push_bit 2 (irmode_num m2) OR m) XOR IRM_W)"

definition lj_ir_mode :: "u8 list" where "lj_ir_mode = map IRMODE irdef @ [0]"

definition irm_op1 :: "u8 \<Rightarrow> u8" where "irm_op1 m = m AND 3"
definition irm_op2 :: "u8 \<Rightarrow> u8" where "irm_op2 m = drop_bit 2 m AND 3"
definition irm_iscomm :: "u8 \<Rightarrow> bool" where "irm_iscomm m \<longleftrightarrow> m AND IRM_C \<noteq> 0"
definition irm_kind :: "u8 \<Rightarrow> u8" where "irm_kind m = m AND IRM_S"

definition IRT_NIL :: u8 where "IRT_NIL = 0"
definition IRT_FALSE :: u8 where "IRT_FALSE = 1"
definition IRT_TRUE :: u8 where "IRT_TRUE = 2"
definition IRT_LIGHTUD :: u8 where "IRT_LIGHTUD = 3"
definition IRT_STR :: u8 where "IRT_STR = 4"
definition IRT_P32 :: u8 where "IRT_P32 = 5"
definition IRT_THREAD :: u8 where "IRT_THREAD = 6"
definition IRT_PROTO :: u8 where "IRT_PROTO = 7"
definition IRT_FUNC :: u8 where "IRT_FUNC = 8"
definition IRT_P64 :: u8 where "IRT_P64 = 9"
definition IRT_CDATA :: u8 where "IRT_CDATA = 10"
definition IRT_TAB :: u8 where "IRT_TAB = 11"
definition IRT_UDATA :: u8 where "IRT_UDATA = 12"
definition IRT_FLOAT :: u8 where "IRT_FLOAT = 13"
definition IRT_NUM :: u8 where "IRT_NUM = 14"
definition IRT_I8 :: u8 where "IRT_I8 = 15"
definition IRT_U8 :: u8 where "IRT_U8 = 16"
definition IRT_I16 :: u8 where "IRT_I16 = 17"
definition IRT_U16 :: u8 where "IRT_U16 = 18"
definition IRT_INT :: u8 where "IRT_INT = 19"
definition IRT_U32 :: u8 where "IRT_U32 = 20"
definition IRT_I64 :: u8 where "IRT_I64 = 21"
definition IRT_U64 :: u8 where "IRT_U64 = 22"
definition IRT_SOFTFP :: u8 where "IRT_SOFTFP = 23"
definition IRT_PTR :: u8 where "IRT_PTR = IRT_P64"
definition IRT_INTP :: u8 where "IRT_INTP = IRT_I64"
definition IRT_UINTP :: u8 where "IRT_UINTP = IRT_U64"
definition IRT_MARK :: u8 where "IRT_MARK = 0x20"
definition IRT_ISPHI :: u8 where "IRT_ISPHI = 0x40"
definition IRT_GUARD :: u8 where "IRT_GUARD = 0x80"
definition IRT_TYPE :: u8 where "IRT_TYPE = 0x1f"

lemmas irt_codes =
  IRT_NIL_def IRT_FALSE_def IRT_TRUE_def IRT_LIGHTUD_def IRT_STR_def IRT_P32_def IRT_THREAD_def IRT_PROTO_def
  IRT_FUNC_def IRT_P64_def IRT_CDATA_def IRT_TAB_def IRT_UDATA_def IRT_FLOAT_def IRT_NUM_def IRT_I8_def
  IRT_U8_def IRT_I16_def IRT_U16_def IRT_INT_def IRT_U32_def IRT_I64_def IRT_U64_def IRT_SOFTFP_def
  IRT_PTR_def IRT_INTP_def IRT_UINTP_def IRT_MARK_def IRT_ISPHI_def IRT_GUARD_def IRT_TYPE_def

definition lj_ir_type_size :: "u8 list" where
  "lj_ir_type_size = [4, 4, 4, 8, 4, 4, 4, 4, 4, 8, 4, 4, 4, 4, 8, 1, 1, 2, 2, 4, 4, 8, 8, 4, 0]"

definition irt_type :: "u8 \<Rightarrow> u8" where "irt_type t = t AND IRT_TYPE"
definition irt_typerange :: "u8 \<Rightarrow> u8 \<Rightarrow> u8 \<Rightarrow> bool" where
  "irt_typerange t lo hi \<longleftrightarrow> (ucast (t AND IRT_TYPE) :: u32) - ucast lo \<le> ucast hi - ucast lo"
definition irt_isnum :: "u8 \<Rightarrow> bool" where "irt_isnum t \<longleftrightarrow> irt_type t = IRT_NUM"
definition irt_isfloat :: "u8 \<Rightarrow> bool" where "irt_isfloat t \<longleftrightarrow> irt_type t = IRT_FLOAT"
definition irt_isint :: "u8 \<Rightarrow> bool" where "irt_isint t \<longleftrightarrow> irt_type t = IRT_INT"
definition irt_isu32 :: "u8 \<Rightarrow> bool" where "irt_isu32 t \<longleftrightarrow> irt_type t = IRT_U32"
definition irt_isi64 :: "u8 \<Rightarrow> bool" where "irt_isi64 t \<longleftrightarrow> irt_type t = IRT_I64"
definition irt_isfp :: "u8 \<Rightarrow> bool" where "irt_isfp t \<longleftrightarrow> irt_isnum t \<or> irt_isfloat t"
definition IRT_IS64 :: u32 where
  "IRT_IS64 = push_bit (unat IRT_NUM) 1 OR push_bit (unat IRT_I64) 1 OR push_bit (unat IRT_U64) 1 OR
     push_bit (unat IRT_P64) 1 OR push_bit (unat IRT_LIGHTUD) 1"
definition irt_is64 :: "u8 \<Rightarrow> bool" where "irt_is64 t \<longleftrightarrow> drop_bit (unat (irt_type t)) IRT_IS64 AND 1 \<noteq> 0"
definition irt_isguard :: "u8 \<Rightarrow> bool" where "irt_isguard t \<longleftrightarrow> t AND IRT_GUARD \<noteq> 0"
definition irt_ismarked :: "u8 \<Rightarrow> bool" where "irt_ismarked t \<longleftrightarrow> t AND IRT_MARK \<noteq> 0"
definition irt_setmark :: "u8 \<Rightarrow> u8" where "irt_setmark t = t OR IRT_MARK"
definition irt_clearmark :: "u8 \<Rightarrow> u8" where "irt_clearmark t = t AND NOT IRT_MARK"
definition irt_isphi :: "u8 \<Rightarrow> bool" where "irt_isphi t \<longleftrightarrow> t AND IRT_ISPHI \<noteq> 0"

section \<open>Instructions and references\<close>

definition REF_BIAS :: nat where "REF_BIAS = 0x8000"
definition REF_TRUE :: nat where "REF_TRUE = REF_BIAS - 3"
definition REF_FALSE :: nat where "REF_FALSE = REF_BIAS - 2"
definition REF_NIL :: nat where "REF_NIL = REF_BIAS - 1"
definition REF_BASE :: nat where "REF_BASE = REF_BIAS"
definition REF_FIRST :: nat where "REF_FIRST = REF_BIAS + 1"
definition REF_DROP :: nat where "REF_DROP = 0xffff"

lemmas ref_codes = REF_BIAS_def REF_TRUE_def REF_FALSE_def REF_NIL_def REF_BASE_def REF_FIRST_def REF_DROP_def

definition irref_isk :: "nat \<Rightarrow> bool" where "irref_isk ref \<longleftrightarrow> ref < REF_BIAS"

text \<open>The operands share their storage with the 32 bit literal of a constant.\<close>

record IRIns =
  ir_op12 :: u32
  ir_t :: u8
  ir_o :: u8
  ir_prev :: u16

definition IRREF2 :: "u16 \<Rightarrow> u16 \<Rightarrow> u32" where "IRREF2 lo hi = ucast lo OR push_bit 16 (ucast hi)"
definition ir_op1 :: "IRIns \<Rightarrow> u16" where "ir_op1 ir = ucast (ir_op12 ir)"
definition ir_op2 :: "IRIns \<Rightarrow> u16" where "ir_op2 ir = ucast (drop_bit 16 (ir_op12 ir))"
definition set_op1 :: "u16 \<Rightarrow> IRIns \<Rightarrow> IRIns" where "set_op1 x ir = ir\<lparr>ir_op12 := IRREF2 x (ir_op2 ir)\<rparr>"
definition set_op2 :: "u16 \<Rightarrow> IRIns \<Rightarrow> IRIns" where "set_op2 x ir = ir\<lparr>ir_op12 := IRREF2 (ir_op1 ir) x\<rparr>"
definition ir_i :: "IRIns \<Rightarrow> u32" where "ir_i ir = ir_op12 ir"
definition ir_ptr :: "IRIns \<Rightarrow> nat" where "ir_ptr ir = unat (ir_op12 ir)"

definition IRT :: "u8 \<Rightarrow> u8 \<Rightarrow> u16" where "IRT oper t = push_bit 8 (ucast oper) OR ucast t"
definition TREF :: "nat \<Rightarrow> u8 \<Rightarrow> u32" where "TREF ref t = of_nat ref + push_bit 24 (ucast t)"
definition tref_ref :: "u32 \<Rightarrow> u16" where "tref_ref tr = ucast tr"

text \<open>A store or any other operation with a non-weak guard has a side effect.\<close>

definition ir_sideeff :: "IRIns \<Rightarrow> bool" where
  "ir_sideeff ir \<longleftrightarrow> IRM_S \<le> (ir_t ir OR NOT IRT_GUARD) AND lj_ir_mode ! unat (ir_o ir)"

definition lj_ir_nop :: "IRIns \<Rightarrow> IRIns" where
  "lj_ir_nop ir = ir\<lparr>ir_t := IRT_NIL, ir_o := IR_NOP, ir_op12 := 0, ir_prev := 0\<rparr>"

section \<open>The state of the trace compiler\<close>

definition LJ_MIN_IRSZ :: nat where "LJ_MIN_IRSZ = 32"
definition LJ_MIN_K64SZ :: nat where "LJ_MIN_K64SZ = 16"
definition sizeof_IRIns :: nat where "sizeof_IRIns = 8"

record jit_State =
  irbuf :: "IRIns list"
  irbotlim :: nat
  irtoplim :: nat
  j_nins :: nat
  j_nk :: nat
  j_chain :: "u8 \<Rightarrow> u16"
  j_k64 :: "u64 list list"
  j_flags :: u32
  guardemit :: u8
  fold_ins :: IRIns
  fold_left :: IRIns
  fold_right :: IRIns

text \<open>The allocator's answer to a size, and the contents of fresh memory.\<close>

record jenv =
  je_alloc :: "nat \<Rightarrow> bool"
  je_junk :: IRIns

definition IR :: "jit_State \<Rightarrow> nat \<Rightarrow> IRIns" where "IR J ref = irbuf J ! (ref - irbotlim J)"
definition set_IR :: "nat \<Rightarrow> IRIns \<Rightarrow> jit_State \<Rightarrow> jit_State" where
  "set_IR ref ir J = J\<lparr>irbuf := (irbuf J)[ref - irbotlim J := ir]\<rparr>"

section \<open>The emitter\<close>

definition lj_ir_growtop :: "jenv \<Rightarrow> jit_State \<Rightarrow> (unit, jit_State) res" where
  "lj_ir_growtop e J =
     (let szins = irtoplim J - irbotlim J in
      if szins \<noteq> 0 then
        if je_alloc e (2 * szins * sizeof_IRIns) then
          Some (Inr (), J\<lparr>irbuf := irbuf J @ replicate szins (je_junk e), irtoplim := irbotlim J + 2 * szins\<rparr>)
        else Some (Inl LJ_ERR_ERRMEM, J)
      else
        if je_alloc e (LJ_MIN_IRSZ * sizeof_IRIns) then
          let botlim = REF_BASE - LJ_MIN_IRSZ div 4 in
          Some (Inr (), J\<lparr>irbuf := replicate LJ_MIN_IRSZ (je_junk e), irbotlim := botlim, irtoplim := botlim + LJ_MIN_IRSZ\<rparr>)
        else Some (Inl LJ_ERR_ERRMEM, J))"

text \<open>Grow the buffer at the bottom, or shift it up when more than half of it is free on top.\<close>

definition lj_ir_growbot :: "jenv \<Rightarrow> jit_State \<Rightarrow> (unit, jit_State) res" where
  "lj_ir_growbot e J =
     (let szins = irtoplim J - irbotlim J; n = j_nins J - irbotlim J in
      if j_nins J + szins div 2 < irtoplim J then
        let ofs = szins div 4 in
        Some (Inr (), J\<lparr>irbuf := take ofs (irbuf J) @ take n (irbuf J) @ drop (ofs + n) (irbuf J),
          irbotlim := irbotlim J - ofs, irtoplim := irtoplim J - ofs\<rparr>)
      else
        if je_alloc e (2 * szins * sizeof_IRIns) then
          let ofs = (if 256 \<le> szins then 128 else szins div 2) in
          Some (Inr (), J\<lparr>irbuf := replicate ofs (je_junk e) @ take n (irbuf J) @ replicate (2 * szins - ofs - n) (je_junk e),
            irbotlim := irbotlim J - ofs, irtoplim := irbotlim J - ofs + 2 * szins\<rparr>)
        else Some (Inl LJ_ERR_ERRMEM, J))"

definition lj_ir_nextins :: "jenv \<Rightarrow> jit_State \<Rightarrow> (nat, jit_State) res" where
  "lj_ir_nextins e J =
     (let ref = j_nins J in
      rbind (if irtoplim J \<le> ref then lj_ir_growtop e J else Some (Inr (), J)) (\<lambda>J u.
      Some (Inr ref, J\<lparr>j_nins := ref + 1\<rparr>)))"

definition ir_nextk :: "jenv \<Rightarrow> jit_State \<Rightarrow> (nat, jit_State) res" where
  "ir_nextk e J =
     (let ref = j_nk J in
      rbind (if ref \<le> irbotlim J then lj_ir_growbot e J else Some (Inr (), J)) (\<lambda>J u.
      Some (Inr (ref - 1), J\<lparr>j_nk := ref - 1\<rparr>)))"

definition lj_ir_set :: "u16 \<Rightarrow> nat \<Rightarrow> nat \<Rightarrow> jit_State \<Rightarrow> jit_State" where
  "lj_ir_set ot a b J =
     J\<lparr>fold_ins := (fold_ins J)\<lparr>ir_t := ucast ot, ir_o := ucast (drop_bit 8 ot), ir_op12 := IRREF2 (of_nat a) (of_nat b)\<rparr>\<rparr>"

text \<open>Emit the instruction in \<open>fold_ins\<close> without any optimisations.\<close>

definition lj_ir_emit :: "jenv \<Rightarrow> jit_State \<Rightarrow> (nat, jit_State) res" where
  "lj_ir_emit e J =
     rbind (lj_ir_nextins e J) (\<lambda>J ref.
     let fi = fold_ins J; oper = ir_o fi in
     Some (Inr ref, (set_IR ref (fi\<lparr>ir_prev := j_chain J oper\<rparr>) J)
       \<lparr>j_chain := (j_chain J)(oper := of_nat ref), guardemit := guardemit J OR ir_t fi\<rparr>))"

section \<open>Interning of constants\<close>

text \<open>Follow a chain to the first instruction with a property; 0 is the end.\<close>

partial_function (option) chain_find :: "(IRIns \<Rightarrow> bool) \<Rightarrow> jit_State \<Rightarrow> nat \<Rightarrow> nat option" where
  [code]: "chain_find P J ref =
     (if ref = 0 then Some 0
      else if P (IR J ref) then Some ref
      else chain_find P J (unat (ir_prev (IR J ref))))"

text \<open>The part that the interning functions share: search the chain, or add a constant.\<close>

definition intern :: "jenv \<Rightarrow> jit_State \<Rightarrow> u8 \<Rightarrow> (IRIns \<Rightarrow> bool) \<Rightarrow> u32 \<Rightarrow> u8 \<Rightarrow> (nat, jit_State) res" where
  "intern e J oper P op12 t =
     (case chain_find P J (unat (j_chain J oper)) of
        None \<Rightarrow> None
      | Some ref \<Rightarrow>
          if ref \<noteq> 0 then Some (Inr ref, J)
          else
            rbind (ir_nextk e J) (\<lambda>J ref.
            Some (Inr ref, (set_IR ref \<lparr>ir_op12 = op12, ir_t = t, ir_o = oper, ir_prev = j_chain J oper\<rparr> J)
              \<lparr>j_chain := (j_chain J)(oper := of_nat ref)\<rparr>)))"

definition lj_ir_kint :: "jenv \<Rightarrow> jit_State \<Rightarrow> u32 \<Rightarrow> (nat, jit_State) res" where
  "lj_ir_kint e J k = intern e J IR_KINT (\<lambda>ir. ir_i ir = k) k IRT_INT"

text \<open>The chained arrays of 64 bit constants; the result is a position in their concatenation.\<close>

fun k64_search :: "u64 list list \<Rightarrow> u64 \<Rightarrow> nat \<Rightarrow> nat option" where
  "k64_search [] u ofs = None"
| "k64_search (k # ks) u ofs =
     (case find (\<lambda>idx. k ! idx = u) [0..<length k] of
        Some idx \<Rightarrow> Some (ofs + idx)
      | None \<Rightarrow> k64_search ks u (ofs + length k))"

definition k64_add :: "u64 list list \<Rightarrow> u64 \<Rightarrow> u64 list list" where
  "k64_add ks u =
     (if ks = [] \<or> \<not> length (last ks) < LJ_MIN_K64SZ then ks @ [[u]] else butlast ks @ [last ks @ [u]])"

definition sizeof_K64Array :: nat where "sizeof_K64Array = 8 + 8 * LJ_MIN_K64SZ"

definition lj_ir_k64_find :: "jenv \<Rightarrow> jit_State \<Rightarrow> u64 \<Rightarrow> (nat, jit_State) res" where
  "lj_ir_k64_find e J u =
     (case k64_search (j_k64 J) u 0 of
        Some tv \<Rightarrow> Some (Inr tv, J)
      | None \<Rightarrow>
          if (j_k64 J = [] \<or> \<not> length (last (j_k64 J)) < LJ_MIN_K64SZ) \<and> \<not> je_alloc e sizeof_K64Array
          then Some (Inl LJ_ERR_ERRMEM, J)
          else Some (Inr (length (concat (j_k64 J))), J\<lparr>j_k64 := k64_add (j_k64 J) u\<rparr>))"

definition ir_k64 :: "jit_State \<Rightarrow> IRIns \<Rightarrow> u64" where "ir_k64 J ir = concat (j_k64 J) ! ir_ptr ir"

definition lj_ir_k64 :: "jenv \<Rightarrow> jit_State \<Rightarrow> u8 \<Rightarrow> nat \<Rightarrow> (nat, jit_State) res" where
  "lj_ir_k64 e J oper tv =
     intern e J oper (\<lambda>ir. ir_ptr ir = tv) (of_nat tv) (if oper = IR_KNUM then IRT_NUM else IRT_I64)"

definition lj_ir_knum_u64 :: "jenv \<Rightarrow> jit_State \<Rightarrow> u64 \<Rightarrow> (nat, jit_State) res" where
  "lj_ir_knum_u64 e J u = rbind (lj_ir_k64_find e J u) (\<lambda>J tv. lj_ir_k64 e J IR_KNUM tv)"

definition lj_ir_kint64 :: "jenv \<Rightarrow> jit_State \<Rightarrow> u64 \<Rightarrow> (nat, jit_State) res" where
  "lj_ir_kint64 e J u = rbind (lj_ir_k64_find e J u) (\<lambda>J tv. lj_ir_k64 e J IR_KINT64 tv)"

text \<open>The integer that a number is, unless it is minus zero.\<close>

definition numistrueint :: "u64 \<Rightarrow> u32 option" where
  "numistrueint n =
     (let k = lj_num2int n in
      if num_eq n (num_of_int (sint k)) \<and> \<not> (k = 0 \<and> tv_hi n \<noteq> 0) then Some k else None)"

definition lj_ir_knumint :: "jenv \<Rightarrow> jit_State \<Rightarrow> u64 \<Rightarrow> (nat, jit_State) res" where
  "lj_ir_knumint e J n =
     (case numistrueint n of Some k \<Rightarrow> lj_ir_kint e J k | None \<Rightarrow> lj_ir_knum_u64 e J n)"

definition lj_ir_kgc :: "jenv \<Rightarrow> jit_State \<Rightarrow> u32 \<Rightarrow> u8 \<Rightarrow> (nat, jit_State) res" where
  "lj_ir_kgc e J obj t = intern e J IR_KGC (\<lambda>ir. ir_op12 ir = obj) obj t"

definition lj_ir_kptr :: "jenv \<Rightarrow> jit_State \<Rightarrow> u8 \<Rightarrow> u32 \<Rightarrow> (nat, jit_State) res" where
  "lj_ir_kptr e J oper p = intern e J oper (\<lambda>ir. ir_op12 ir = p) p IRT_P32"

definition lj_ir_knull :: "jenv \<Rightarrow> jit_State \<Rightarrow> u8 \<Rightarrow> (nat, jit_State) res" where
  "lj_ir_knull e J t = intern e J IR_KNULL (\<lambda>ir. ir_t ir = t) 0 t"

definition lj_ir_kslot :: "jenv \<Rightarrow> jit_State \<Rightarrow> u32 \<Rightarrow> nat \<Rightarrow> (nat, jit_State) res" where
  "lj_ir_kslot e J key slot =
     (let op12 = IRREF2 (ucast key) (of_nat slot) in intern e J IR_KSLOT (\<lambda>ir. ir_op12 ir = op12) op12 IRT_P32)"

section \<open>Miscellaneous\<close>

text \<open>Roll the instructions back, unlinking each from its chain.\<close>

fun rollback_loop :: "jit_State \<Rightarrow> nat \<Rightarrow> nat \<Rightarrow> jit_State" where
  "rollback_loop J ref 0 = J"
| "rollback_loop J ref (Suc nins) =
     (if ref < Suc nins then
        let ir = IR J nins in
        rollback_loop (J\<lparr>j_chain := (j_chain J)(ir_o ir := ir_prev ir), j_nins := nins\<rparr>) ref nins
      else J)"

definition lj_ir_rollback :: "jit_State \<Rightarrow> nat \<Rightarrow> jit_State" where
  "lj_ir_rollback J ref = rollback_loop J ref (j_nins J)"

end
