(* ===== verification/LJ_Fold.thy ===== *)
theory LJ_Fold
  imports LJ_IR
begin

text \<open>
  The integer rules of the FOLD engine and the engine itself (\<open>lj_opt_fold.c\<close>, \<open>lj_iropt.h\<close>), common
  subexpression elimination, and the floored modulus of \<open>lj_vmmath.c\<close>. A fold function takes the
  instruction and its operands from \<open>fold_ins\<close>, \<open>fold_left\<close>, \<open>fold_right\<close> and returns a special value
  below \<open>MAX_FOLD\<close> or a reference; the code that interns constants may run out of memory. The
  generated hash table of the rules is a function from keys to fold functions. Signed arithmetic
  wraps; the target is x64.
\<close>

section \<open>Return values\<close>

type_synonym FoldFunc = "jenv \<Rightarrow> jit_State \<Rightarrow> (nat, jit_State) res"

definition NEXTFOLD :: nat where "NEXTFOLD = 0"
definition RETRYFOLD :: nat where "RETRYFOLD = 1"
definition KINTFOLD :: nat where "KINTFOLD = 2"
definition FAILFOLD :: nat where "FAILFOLD = 3"
definition DROPFOLD :: nat where "DROPFOLD = 4"
definition MAX_FOLD :: nat where "MAX_FOLD = 5"

lemmas fold_codes = NEXTFOLD_def RETRYFOLD_def KINTFOLD_def FAILFOLD_def DROPFOLD_def MAX_FOLD_def

definition ret :: "nat \<Rightarrow> jit_State \<Rightarrow> (nat, jit_State) res" where "ret x J = Some (Inr x, J)"

definition upd_fins :: "(IRIns \<Rightarrow> IRIns) \<Rightarrow> jit_State \<Rightarrow> jit_State" where
  "upd_fins f J = J\<lparr>fold_ins := f (fold_ins J)\<rparr>"

definition set_o :: "u8 \<Rightarrow> IRIns \<Rightarrow> IRIns" where "set_o op ir = ir\<lparr>ir_o := op\<rparr>"

definition INTFOLD :: "u32 \<Rightarrow> jit_State \<Rightarrow> (nat, jit_State) res" where
  "INTFOLD k J = ret KINTFOLD (upd_fins (\<lambda>ir. ir\<lparr>ir_op12 := k\<rparr>) J)"

definition INT64FOLD :: "u64 \<Rightarrow> FoldFunc" where "INT64FOLD k e J = lj_ir_kint64 e J k"

definition CONDFOLD :: "bool \<Rightarrow> jit_State \<Rightarrow> (nat, jit_State) res" where
  "CONDFOLD c J = ret (FAILFOLD + of_bool c) J"

definition LEFTFOLD :: "jit_State \<Rightarrow> (nat, jit_State) res" where
  "LEFTFOLD J = ret (unat (ir_op1 (fold_ins J))) J"

definition RIGHTFOLD :: "jit_State \<Rightarrow> (nat, jit_State) res" where
  "RIGHTFOLD J = ret (unat (ir_op2 (fold_ins J))) J"

text \<open>No folding across the PHI of \<open>ir\<close>.\<close>

definition PHIBARRIER :: "IRIns \<Rightarrow> jit_State \<Rightarrow> (nat, jit_State) res \<Rightarrow> (nat, jit_State) res" where
  "PHIBARRIER ir J k = (if irt_isphi (ir_t ir) then ret NEXTFOLD J else k)"

text \<open>Store the reference of an interned constant into the first or second operand.\<close>

definition kint_op1 :: "u32 \<Rightarrow> FoldFunc" where
  "kint_op1 k e J = rbind (lj_ir_kint e J k) (\<lambda>J r. ret RETRYFOLD (upd_fins (set_op1 (of_nat r)) J))"

definition kint_op2 :: "u32 \<Rightarrow> FoldFunc" where
  "kint_op2 k e J = rbind (lj_ir_kint e J k) (\<lambda>J r. ret RETRYFOLD (upd_fins (set_op2 (of_nat r)) J))"

definition kint64_op2 :: "u64 \<Rightarrow> FoldFunc" where
  "kint64_op2 k e J = rbind (lj_ir_kint64 e J k) (\<lambda>J r. ret RETRYFOLD (upd_fins (set_op2 (of_nat r)) J))"

section \<open>Constant folding for 32 bit integers\<close>

definition lj_vm_modi :: "u32 \<Rightarrow> u32 \<Rightarrow> u32" where
  "lj_vm_modi a b =
     (let ua = (if sint a < 0 then NOT a + 1 else a);
          ub = (if sint b < 0 then NOT b + 1 else b);
          y = ua mod ub;
          y = (if y \<noteq> 0 \<and> sint (a XOR b) < 0 then y - ub else y);
          y = (if sint (y XOR b) < 0 then NOT y + 1 else y)
      in y)"

definition kfold_intop :: "u32 \<Rightarrow> u32 \<Rightarrow> u8 \<Rightarrow> u32" where
  "kfold_intop k1 k2 op =
     (if op = IR_ADD then k1 + k2
      else if op = IR_SUB then k1 - k2
      else if op = IR_MUL then k1 * k2
      else if op = IR_MOD then lj_vm_modi k1 k2
      else if op = IR_NEG then NOT k1 + 1
      else if op = IR_BAND then k1 AND k2
      else if op = IR_BOR then k1 OR k2
      else if op = IR_BXOR then k1 XOR k2
      else if op = IR_BSHL then push_bit (unat (k2 AND 31)) k1
      else if op = IR_BSHR then drop_bit (unat (k2 AND 31)) k1
      else if op = IR_BSAR then signed_drop_bit (unat (k2 AND 31)) k1
      else if op = IR_BROL then lj_rol k1 (unat (k2 AND 31))
      else if op = IR_BROR then lj_ror k1 (unat (k2 AND 31))
      else if op = IR_MIN then (if sint k1 < sint k2 then k1 else k2)
      else if op = IR_MAX then (if sint k1 > sint k2 then k1 else k2)
      else k1)"

definition kfold_intarith :: FoldFunc where
  "kfold_intarith e J = INTFOLD (kfold_intop (ir_i (fold_left J)) (ir_i (fold_right J)) (ir_o (fold_ins J))) J"

definition kfold_bnot :: FoldFunc where "kfold_bnot e J = INTFOLD (NOT (ir_i (fold_left J))) J"

definition kfold_bswap :: FoldFunc where "kfold_bswap e J = INTFOLD (lj_bswap (ir_i (fold_left J))) J"

definition kfold_intcomp :: FoldFunc where
  "kfold_intcomp e J =
     (let a = ir_i (fold_left J); b = ir_i (fold_right J); op = ir_o (fold_ins J) in
      if op = IR_LT then CONDFOLD (sint a < sint b) J
      else if op = IR_GE then CONDFOLD (sint a \<ge> sint b) J
      else if op = IR_LE then CONDFOLD (sint a \<le> sint b) J
      else if op = IR_GT then CONDFOLD (sint a > sint b) J
      else if op = IR_ULT then CONDFOLD (a < b) J
      else if op = IR_UGE then CONDFOLD (a \<ge> b) J
      else if op = IR_ULE then CONDFOLD (a \<le> b) J
      else if op = IR_ABC \<or> op = IR_UGT then CONDFOLD (a > b) J
      else ret FAILFOLD J)"

definition kfold_intcomp0 :: FoldFunc where
  "kfold_intcomp0 e J = (if ir_i (fold_right J) = 0 then ret DROPFOLD J else ret NEXTFOLD J)"

section \<open>Constant folding for 64 bit integers\<close>

definition lj_rol64 :: "u64 \<Rightarrow> nat \<Rightarrow> u64" where
  "lj_rol64 x n = push_bit n x OR drop_bit ((64 - n mod 64) mod 64) x"

definition lj_ror64 :: "u64 \<Rightarrow> nat \<Rightarrow> u64" where
  "lj_ror64 x n = push_bit ((64 - n mod 64) mod 64) x OR drop_bit n x"

text \<open>The helper and the rule of this name.\<close>

definition kfold_int64op :: "u64 \<Rightarrow> u64 \<Rightarrow> u8 \<Rightarrow> u64" where
  "kfold_int64op k1 k2 op =
     (if op = IR_ADD then k1 + k2
      else if op = IR_SUB then k1 - k2
      else if op = IR_MUL then k1 * k2
      else if op = IR_BAND then k1 AND k2
      else if op = IR_BOR then k1 OR k2
      else if op = IR_BXOR then k1 XOR k2
      else k1)"

definition kfold_int64arith :: FoldFunc where
  "kfold_int64arith e J =
     INT64FOLD (kfold_int64op (ir_k64 J (fold_left J)) (ir_k64 J (fold_right J)) (ir_o (fold_ins J))) e J"

definition kfold_int64shift :: FoldFunc where
  "kfold_int64shift e J =
     (let k = ir_k64 J (fold_left J); sh = unat (ir_i (fold_right J) AND 63); op = ir_o (fold_ins J) in
      INT64FOLD
       (if op = IR_BSHL then push_bit sh k
        else if op = IR_BSHR then drop_bit sh k
        else if op = IR_BSAR then signed_drop_bit sh k
        else if op = IR_BROL then lj_rol64 k sh
        else if op = IR_BROR then lj_ror64 k sh
        else k) e J)"

definition kfold_bnot64 :: FoldFunc where "kfold_bnot64 e J = INT64FOLD (NOT (ir_k64 J (fold_left J))) e J"

definition kfold_bswap64 :: FoldFunc where "kfold_bswap64 e J = INT64FOLD (lj_bswap64 (ir_k64 J (fold_left J))) e J"

definition kfold_int64comp :: FoldFunc where
  "kfold_int64comp e J =
     (let a = ir_k64 J (fold_left J); b = ir_k64 J (fold_right J); op = ir_o (fold_ins J) in
      if op = IR_LT then CONDFOLD (sint a < sint b) J
      else if op = IR_GE then CONDFOLD (sint a \<ge> sint b) J
      else if op = IR_LE then CONDFOLD (sint a \<le> sint b) J
      else if op = IR_GT then CONDFOLD (sint a > sint b) J
      else if op = IR_ULT then CONDFOLD (a < b) J
      else if op = IR_UGE then CONDFOLD (a \<ge> b) J
      else if op = IR_ULE then CONDFOLD (a \<le> b) J
      else if op = IR_UGT then CONDFOLD (a > b) J
      else ret FAILFOLD J)"

definition kfold_int64comp0 :: FoldFunc where
  "kfold_int64comp0 e J = (if ir_k64 J (fold_right J) = 0 then ret DROPFOLD J else ret NEXTFOLD J)"

section \<open>Equality of constants and shortcuts\<close>

definition kfold_kref :: FoldFunc where
  "kfold_kref e J =
     CONDFOLD ((ir_op1 (fold_ins J) = ir_op2 (fold_ins J)) \<noteq> (ir_o (fold_ins J) = IR_NE)) J"

definition shortcut_leftleft :: FoldFunc where
  "shortcut_leftleft e J = PHIBARRIER (fold_left J) J (ret (unat (ir_op1 (fold_left J))) J)"

section \<open>Integer algebraic simplifications\<close>

definition simplify_intadd_k :: FoldFunc where
  "simplify_intadd_k e J = (if ir_i (fold_right J) = 0 then LEFTFOLD J else ret NEXTFOLD J)"

definition simplify_intsub_k :: FoldFunc where
  "simplify_intsub_k e J =
     (if ir_i (fold_right J) = 0 then LEFTFOLD J
      else kint_op2 (NOT (ir_i (fold_right J)) + 1) e (upd_fins (set_o IR_ADD) J))"

definition simplify_intsub_kleft :: FoldFunc where
  "simplify_intsub_kleft e J =
     (if (if ir_o (fold_left J) = IR_KINT then ir_i (fold_left J) = 0 else ir_k64 J (fold_left J) = 0) then
        ret RETRYFOLD (upd_fins (\<lambda>ir. set_op1 (ir_op2 ir) (set_o IR_NEG ir)) J)
      else ret NEXTFOLD J)"

definition simplify_intadd_k64 :: FoldFunc where
  "simplify_intadd_k64 e J = (if ir_k64 J (fold_right J) = 0 then LEFTFOLD J else ret NEXTFOLD J)"

definition simplify_intsub_k64 :: FoldFunc where
  "simplify_intsub_k64 e J =
     (let k = ir_k64 J (fold_right J) in
      if k = 0 then LEFTFOLD J else kint64_op2 (NOT k + 1) e (upd_fins (set_o IR_ADD) J))"

definition simplify_intmul_k :: "u32 \<Rightarrow> FoldFunc" where
  "simplify_intmul_k k e J =
     (if k = 1 then LEFTFOLD J
      else if k AND (k - 1) = 0 then kint_op2 (of_nat (lj_fls k)) e (upd_fins (set_o IR_BSHL) J)
      else ret NEXTFOLD J)"

definition simplify_intmul_k32 :: FoldFunc where
  "simplify_intmul_k32 e J =
     (if ir_i (fold_right J) = 0 then INTFOLD 0 J
      else if sint (ir_i (fold_right J)) > 0 then simplify_intmul_k (ir_i (fold_right J)) e J
      else ret NEXTFOLD J)"

definition simplify_intmul_k64 :: FoldFunc where
  "simplify_intmul_k64 e J =
     (let k = ir_k64 J (fold_right J) in
      if k = 0 then INT64FOLD 0 e J
      else if k < 0x80000000 then simplify_intmul_k (ucast k) e J
      else ret NEXTFOLD J)"

definition simplify_intmod_k :: FoldFunc where
  "simplify_intmod_k e J =
     (let k = ir_i (fold_right J) in
      if sint k > 0 \<and> k AND (k - 1) = 0 then kint_op2 (k - 1) e (upd_fins (set_o IR_BAND) J)
      else ret NEXTFOLD J)"

definition simplify_intmod_kleft :: FoldFunc where
  "simplify_intmod_kleft e J = (if ir_i (fold_left J) = 0 then INTFOLD 0 J else ret NEXTFOLD J)"

definition simplify_intsub :: FoldFunc where
  "simplify_intsub e J =
     (if ir_op1 (fold_ins J) = ir_op2 (fold_ins J) \<and> \<not> irt_isnum (ir_t (fold_ins J)) then
        if irt_is64 (ir_t (fold_ins J)) then INT64FOLD 0 e J else INTFOLD 0 J
      else ret NEXTFOLD J)"

definition simplify_intsubadd_leftcancel :: FoldFunc where
  "simplify_intsubadd_leftcancel e J =
     (let fi = fold_ins J; fl = fold_left J in
      if \<not> irt_isnum (ir_t fi) then
        PHIBARRIER fl J
         (if ir_op2 fi = ir_op1 fl then ret (unat (ir_op2 fl)) J
          else if ir_op2 fi = ir_op2 fl then ret (unat (ir_op1 fl)) J
          else ret NEXTFOLD J)
      else ret NEXTFOLD J)"

definition simplify_intsubsub_leftcancel :: FoldFunc where
  "simplify_intsubsub_leftcancel e J =
     (let fi = fold_ins J; fl = fold_left J in
      if \<not> irt_isnum (ir_t fi) then
        PHIBARRIER fl J
         (if ir_op2 fi = ir_op1 fl then
            rbind (lj_ir_kint e J 0) (\<lambda>J r.
            ret RETRYFOLD (upd_fins (\<lambda>ir. set_op2 (ir_op2 fl) (set_op1 (of_nat r) ir)) J))
          else ret NEXTFOLD J)
      else ret NEXTFOLD J)"

definition simplify_intsubsub_rightcancel :: FoldFunc where
  "simplify_intsubsub_rightcancel e J =
     (let fi = fold_ins J; fr = fold_right J in
      if \<not> irt_isnum (ir_t fi) then
        PHIBARRIER fr J
         (if ir_op1 fi = ir_op1 fr then ret (unat (ir_op2 fr)) J
          else ret NEXTFOLD J)
      else ret NEXTFOLD J)"

definition simplify_intsubadd_rightcancel :: FoldFunc where
  "simplify_intsubadd_rightcancel e J =
     (let fi = fold_ins J; fr = fold_right J in
      if \<not> irt_isnum (ir_t fi) then
        PHIBARRIER fr J
         (if ir_op1 fi = ir_op1 fr then kint_op1 0 e (upd_fins (set_op2 (ir_op2 fr)) J)
          else if ir_op1 fi = ir_op2 fr then kint_op1 0 e (upd_fins (set_op2 (ir_op1 fr)) J)
          else ret NEXTFOLD J)
      else ret NEXTFOLD J)"

definition simplify_intsubaddadd_cancel :: FoldFunc where
  "simplify_intsubaddadd_cancel e J =
     (let fi = fold_ins J; fl = fold_left J; fr = fold_right J;
          sub = (\<lambda>a b. ret RETRYFOLD (upd_fins (\<lambda>ir. set_op2 b (set_op1 a ir)) J)) in
      if \<not> irt_isnum (ir_t fi) then
        PHIBARRIER fl J (PHIBARRIER fr J
         (if ir_op1 fl = ir_op1 fr then sub (ir_op2 fl) (ir_op2 fr)
          else if ir_op1 fl = ir_op2 fr then sub (ir_op2 fl) (ir_op1 fr)
          else if ir_op2 fl = ir_op1 fr then sub (ir_op1 fl) (ir_op2 fr)
          else if ir_op2 fl = ir_op2 fr then sub (ir_op1 fl) (ir_op1 fr)
          else ret NEXTFOLD J))
      else ret NEXTFOLD J)"

text \<open>The value of an integer constant of either width.\<close>

definition k_int64 :: "jit_State \<Rightarrow> IRIns \<Rightarrow> u64" where
  "k_int64 J ir = (if ir_o ir = IR_KINT then scast (ir_i ir) else ir_k64 J ir)"

definition simplify_band_k :: FoldFunc where
  "simplify_band_k e J =
     (let k = k_int64 J (fold_right J) in
      if k = 0 then RIGHTFOLD J else if k = -1 then LEFTFOLD J else ret NEXTFOLD J)"

definition simplify_bor_k :: FoldFunc where
  "simplify_bor_k e J =
     (let k = k_int64 J (fold_right J) in
      if k = 0 then LEFTFOLD J else if k = -1 then RIGHTFOLD J else ret NEXTFOLD J)"

definition simplify_bxor_k :: FoldFunc where
  "simplify_bxor_k e J =
     (let k = k_int64 J (fold_right J) in
      if k = 0 then LEFTFOLD J
      else if k = -1 then ret RETRYFOLD (upd_fins (\<lambda>ir. set_op2 0 (set_o IR_BNOT ir)) J)
      else ret NEXTFOLD J)"

text \<open>The mask of shift counts at the width of a type.\<close>

definition shift_mask :: "u8 \<Rightarrow> u32" where "shift_mask t = (if irt_is64 t then 63 else 31)"

definition simplify_shift_ik :: FoldFunc where
  "simplify_shift_ik e J =
     (let fi = fold_ins J; mask = shift_mask (ir_t fi); k = ir_i (fold_right J) AND mask in
      if k = 0 then LEFTFOLD J
      else if k = 1 \<and> ir_o fi = IR_BSHL then ret RETRYFOLD (upd_fins (\<lambda>ir. set_op2 (ir_op1 ir) (set_o IR_ADD ir)) J)
      else if k \<noteq> ir_i (fold_right J) then kint_op2 k e J
      else if ir_o fi = IR_BROR then kint_op2 (- k AND mask) e (upd_fins (set_o IR_BROL) J)
      else ret NEXTFOLD J)"

definition LJ_TARGET_MASKSHIFT :: bool where "LJ_TARGET_MASKSHIFT = True"
definition LJ_TARGET_MASKROT :: bool where "LJ_TARGET_MASKROT = True"

definition simplify_shift_andk :: FoldFunc where
  "simplify_shift_andk e J =
     (let fi = fold_ins J; fr = fold_right J; irk = IR J (unat (ir_op2 fr)) in
      PHIBARRIER fr J
       (if (if ir_o fi < IR_BROL then LJ_TARGET_MASKSHIFT else LJ_TARGET_MASKROT) \<and> ir_o irk = IR_KINT then
          let mask = shift_mask (ir_t fi); k = ir_i irk AND mask in
          if k = mask then ret RETRYFOLD (upd_fins (set_op2 (ir_op1 fr)) J)
          else ret NEXTFOLD J
        else ret NEXTFOLD J))"

definition simplify_shift1_ki :: FoldFunc where
  "simplify_shift1_ki e J = (if k_int64 J (fold_left J) = 0 then LEFTFOLD J else ret NEXTFOLD J)"

definition simplify_shift2_ki :: FoldFunc where
  "simplify_shift2_ki e J =
     (let k = k_int64 J (fold_left J) in if k = 0 \<or> k = -1 then LEFTFOLD J else ret NEXTFOLD J)"

definition simplify_andk_shiftk :: FoldFunc where
  "simplify_andk_shiftk e J =
     (let fl = fold_left J; irk = IR J (unat (ir_op2 fl)) in
      if ir_o irk = IR_KINT \<and> kfold_intop (-1) (ir_i irk) (ir_o fl) = ir_i (fold_right J) then LEFTFOLD J
      else ret NEXTFOLD J)"

section \<open>Reassociation\<close>

definition reassoc_intarith_k :: FoldFunc where
  "reassoc_intarith_k e J =
     (let fl = fold_left J; irk = IR J (unat (ir_op2 fl)) in
      if ir_o irk = IR_KINT then
        let k = kfold_intop (ir_i irk) (ir_i (fold_right J)) (ir_o (fold_ins J)) in
        if k = ir_i irk then LEFTFOLD J
        else PHIBARRIER fl J (kint_op2 k e (upd_fins (set_op1 (ir_op1 fl)) J))
      else ret NEXTFOLD J)"

definition reassoc_intarith_k64 :: FoldFunc where
  "reassoc_intarith_k64 e J =
     (let fl = fold_left J; irk = IR J (unat (ir_op2 fl)) in
      if ir_o irk = IR_KINT64 then
        let k = kfold_int64op (ir_k64 J irk) (ir_k64 J (fold_right J)) (ir_o (fold_ins J)) in
        PHIBARRIER fl J (kint64_op2 k e (upd_fins (set_op1 (ir_op1 fl)) J))
      else ret NEXTFOLD J)"

definition reassoc_dup :: FoldFunc where
  "reassoc_dup e J =
     (let fi = fold_ins J; fl = fold_left J in
      if ir_op2 fi = ir_op1 fl \<or> ir_op2 fi = ir_op2 fl then LEFTFOLD J else ret NEXTFOLD J)"

definition reassoc_bxor :: FoldFunc where
  "reassoc_bxor e J =
     (let fi = fold_ins J; fl = fold_left J in
      PHIBARRIER fl J
       (if ir_op2 fi = ir_op1 fl then ret (unat (ir_op2 fl)) J
        else if ir_op2 fi = ir_op2 fl then ret (unat (ir_op1 fl)) J
        else ret NEXTFOLD J))"

definition reassoc_shift :: FoldFunc where
  "reassoc_shift e J =
     (let fi = fold_ins J; fl = fold_left J; irk = IR J (unat (ir_op2 fl)) in
      PHIBARRIER fl J
       (if ir_o irk = IR_KINT then
          let mask = shift_mask (ir_t fi); k = (ir_i irk AND mask) + (ir_i (fold_right J) AND mask) in
          if sint k > sint mask \<and> (ir_o fi = IR_BSHL \<or> ir_o fi = IR_BSHR) then
            if mask = 31 then INTFOLD 0 J else INT64FOLD 0 e J
          else
            let k = (if sint k > sint mask then if ir_o fi = IR_BSAR then mask else k AND mask else k) in
            kint_op2 k e (upd_fins (set_op1 (ir_op1 fl)) J)
        else ret NEXTFOLD J))"

text \<open>The branch for numbers takes the folded floating-point operation as an argument.\<close>

definition reassoc_minmax_k :: "(u64 \<Rightarrow> u64 \<Rightarrow> u8 \<Rightarrow> u64) \<Rightarrow> FoldFunc" where
  "reassoc_minmax_k foldarith e J =
     (let fl = fold_left J; irk = IR J (unat (ir_op2 fl)) in
      if ir_o irk = IR_KNUM then
        let a = ir_k64 J irk; y = foldarith a (ir_k64 J (fold_right J)) (ir_o (fold_ins J) - IR_ADD) in
        if num_eq a y then LEFTFOLD J
        else PHIBARRIER fl J
          (rbind (lj_ir_knum_u64 e (upd_fins (set_op1 (ir_op1 fl)) J) y) (\<lambda>J r.
           ret RETRYFOLD (upd_fins (set_op2 (of_nat r)) J)))
      else if ir_o irk = IR_KINT then
        let a = ir_i irk; y = kfold_intop a (ir_i (fold_right J)) (ir_o (fold_ins J)) in
        if a = y then LEFTFOLD J
        else PHIBARRIER fl J (kint_op2 y e (upd_fins (set_op1 (ir_op1 fl)) J))
      else ret NEXTFOLD J)"

definition reassoc_minmax_left :: FoldFunc where
  "reassoc_minmax_left e J =
     (let fi = fold_ins J; fl = fold_left J in
      if ir_op2 fi = ir_op1 fl \<or> ir_op2 fi = ir_op2 fl then RIGHTFOLD J else ret NEXTFOLD J)"

definition reassoc_minmax_right :: FoldFunc where
  "reassoc_minmax_right e J =
     (let fi = fold_ins J; fr = fold_right J in
      if ir_op1 fi = ir_op1 fr \<or> ir_op1 fi = ir_op2 fr then LEFTFOLD J else ret NEXTFOLD J)"

section \<open>Commutativity\<close>

definition swap_ops :: "IRIns \<Rightarrow> IRIns" where "swap_ops ir = set_op2 (ir_op1 ir) (set_op1 (ir_op2 ir) ir)"

definition comm_swap :: FoldFunc where
  "comm_swap e J =
     (if ir_op1 (fold_ins J) < ir_op2 (fold_ins J) then ret RETRYFOLD (upd_fins swap_ops J) else ret NEXTFOLD J)"

definition IRCONV_SRCMASK :: u16 where "IRCONV_SRCMASK = 0x1f"

definition comm_equal :: FoldFunc where
  "comm_equal e J =
     (let fi = fold_ins J; fl = fold_left J in
      if ir_op1 fi = ir_op2 fi \<and>
         (\<not> irt_isnum (ir_t fi) \<or>
          ir_o fl = IR_CONV \<and> (ucast (ir_op2 fl AND IRCONV_SRCMASK) :: u32) - ucast IRT_I8 \<le> ucast (IRT_U64 - IRT_U8))
      then CONDFOLD (ir_o fi = IR_EQ) J
      else comm_swap e J)"

definition comm_comp :: FoldFunc where
  "comm_comp e J =
     (let fi = fold_ins J in
      if ir_op1 fi = ir_op2 fi \<and> \<not> irt_isnum (ir_t fi) then
        CONDFOLD ((ir_o fi XOR drop_bit 1 (ir_o fi)) AND 1 \<noteq> 0) J
      else if ir_op1 fi < ir_op2 fi then ret RETRYFOLD (upd_fins (\<lambda>ir. set_o (ir_o ir XOR 3) (swap_ops ir)) J)
      else ret NEXTFOLD J)"

definition comm_dup :: FoldFunc where
  "comm_dup e J = (if ir_op1 (fold_ins J) = ir_op2 (fold_ins J) then LEFTFOLD J else comm_swap e J)"

definition comm_bxor :: FoldFunc where
  "comm_bxor e J =
     (if ir_op1 (fold_ins J) = ir_op2 (fold_ins J) then
        if irt_is64 (ir_t (fold_ins J)) then INT64FOLD 0 e J else INTFOLD 0 J
      else comm_swap e J)"

section \<open>Common subexpression elimination\<close>

definition JIT_F_OPT_MASK :: u32 where "JIT_F_OPT_MASK = 0x0fff0000"
definition JIT_F_OPT_FOLD :: u32 where "JIT_F_OPT_FOLD = 0x00010000"
definition JIT_F_OPT_CSE :: u32 where "JIT_F_OPT_CSE = 0x00020000"
definition JIT_F_OPT_DCE :: u32 where "JIT_F_OPT_DCE = 0x00040000"
definition JIT_F_OPT_FWD :: u32 where "JIT_F_OPT_FWD = 0x00080000"
definition JIT_F_OPT_DSE :: u32 where "JIT_F_OPT_DSE = 0x00100000"
definition JIT_F_OPT_NARROW :: u32 where "JIT_F_OPT_NARROW = 0x00200000"
definition JIT_F_OPT_LOOP :: u32 where "JIT_F_OPT_LOOP = 0x00400000"
definition JIT_F_OPT_ABC :: u32 where "JIT_F_OPT_ABC = 0x00800000"
definition JIT_F_OPT_SINK :: u32 where "JIT_F_OPT_SINK = 0x01000000"
definition JIT_F_OPT_FUSE :: u32 where "JIT_F_OPT_FUSE = 0x02000000"
definition JIT_F_OPT_1 :: u32 where "JIT_F_OPT_1 = JIT_F_OPT_FOLD OR JIT_F_OPT_CSE OR JIT_F_OPT_DCE"
definition JIT_F_OPT_2 :: u32 where "JIT_F_OPT_2 = JIT_F_OPT_1 OR JIT_F_OPT_NARROW OR JIT_F_OPT_LOOP"
definition JIT_F_OPT_3 :: u32 where
  "JIT_F_OPT_3 = JIT_F_OPT_2 OR JIT_F_OPT_FWD OR JIT_F_OPT_DSE OR JIT_F_OPT_ABC OR JIT_F_OPT_SINK OR JIT_F_OPT_FUSE"
definition JIT_F_OPT_DEFAULT :: u32 where "JIT_F_OPT_DEFAULT = JIT_F_OPT_3"

text \<open>Search a chain down to a limit for the same operands; 0 if there is none.\<close>

partial_function (option) cse_search :: "jit_State \<Rightarrow> u32 \<Rightarrow> nat \<Rightarrow> nat \<Rightarrow> nat option" where
  [code]: "cse_search J op12 lim ref =
     (if lim < ref then
        if ir_op12 (IR J ref) = op12 then Some ref
        else cse_search J op12 lim (unat (ir_prev (IR J ref)))
      else Some 0)"

definition fins_op12 :: "IRIns \<Rightarrow> u32" where
  "fins_op12 fi = ucast (ir_op1 fi) + push_bit 16 (ucast (ir_op2 fi))"

text \<open>The emitter as CSE inlines it.\<close>

definition cse_emit :: FoldFunc where
  "cse_emit e J =
     rbind (lj_ir_nextins e J) (\<lambda>J ref.
     let fi = fold_ins J; oper = ir_o fi;
         ir = (IR J ref)\<lparr>ir_prev := j_chain J oper, ir_op12 := fins_op12 fi, ir_o := oper, ir_t := ir_t fi\<rparr> in
     Some (Inr ref, (set_IR ref ir J)\<lparr>j_chain := (j_chain J)(oper := of_nat ref), guardemit := guardemit J OR ir_t fi\<rparr>))"

definition lj_opt_cse :: FoldFunc where
  "lj_opt_cse e J =
     (let fi = fold_ins J; op = ir_o fi in
      if j_flags J AND JIT_F_OPT_CSE \<noteq> 0 then
        let lim = max (unat (ir_op1 fi)) (unat (ir_op2 fi)) in
        case cse_search J (fins_op12 fi) lim (unat (j_chain J op)) of
          None \<Rightarrow> None
        | Some ref \<Rightarrow> if ref \<noteq> 0 then Some (Inr ref, J) else cse_emit e J
      else cse_emit e J)"

definition lj_opt_cselim :: "nat \<Rightarrow> FoldFunc" where
  "lj_opt_cselim lim e J =
     (let fi = fold_ins J in
      case cse_search J (fins_op12 fi) lim (unat (j_chain J (ir_o fi))) of
        None \<Rightarrow> None
      | Some ref \<Rightarrow> if ref \<noteq> 0 then Some (Inr ref, J) else lj_ir_emit e J)"

section \<open>The engine\<close>

text \<open>Select the operands and build the key.\<close>

definition fold_prep :: "jit_State \<Rightarrow> u32 \<times> jit_State" where
  "fold_prep J =
     (let fi = fold_ins J; op1 = unat (ir_op1 fi); op2 = unat (ir_op2 fi);
          key = push_bit 17 (ucast (ir_o fi) :: u32);
          (key, J) = (if j_nk J \<le> op1 then (key + push_bit 10 (ucast (ir_o (IR J op1))), J\<lparr>fold_left := IR J op1\<rparr>) else (key, J));
          (key, J) = (if j_nk J \<le> op2 then (key + ucast (ir_o (IR J op2)), J\<lparr>fold_right := IR J op2\<rparr>)
             else (key + ucast (ir_op2 fi AND 0x3ff), J))
      in (key, J))"

definition next_any :: "u32 \<Rightarrow> u32" where "next_any any = (any OR drop_bit 10 any) XOR 0xffc00"

text \<open>
  Try the rules from the most to the least specific. \<open>Inl\<close> is what a rule returned, \<open>Inr\<close> the reference
  from CSE after all rules have passed.
\<close>

partial_function (option) fold_match ::
    "(u32 \<Rightarrow> FoldFunc option) \<Rightarrow> jenv \<Rightarrow> u32 \<Rightarrow> u32 \<Rightarrow> jit_State \<Rightarrow> (nat + nat, jit_State) res" where
  [code]: "fold_match rules e key any J =
     (case (case rules (key OR (any AND 0x1ffff)) of Some f \<Rightarrow> f e J | None \<Rightarrow> Some (Inr NEXTFOLD, J)) of
        None \<Rightarrow> None
      | Some (Inl err, J) \<Rightarrow> Some (Inl err, J)
      | Some (Inr ref, J) \<Rightarrow>
          if ref \<noteq> NEXTFOLD then Some (Inr (Inl ref), J)
          else if any = 0xfffff then rbind (lj_opt_cse e J) (\<lambda>J ref. Some (Inr (Inr ref), J))
          else fold_match rules e key (next_any any) J)"

partial_function (option) fold_retry :: "(u32 \<Rightarrow> FoldFunc option) \<Rightarrow> jenv \<Rightarrow> jit_State \<Rightarrow> (nat, jit_State) res" where
  [code]: "fold_retry rules e J =
     (case fold_match rules e (fst (fold_prep J)) 0 (snd (fold_prep J)) of
        None \<Rightarrow> None
      | Some (Inl err, J) \<Rightarrow> Some (Inl err, J)
      | Some (Inr (Inr ref), J) \<Rightarrow> Some (Inr ref, J)
      | Some (Inr (Inl ref), J) \<Rightarrow>
          if MAX_FOLD \<le> ref then Some (Inr ref, J)
          else if ref = RETRYFOLD then fold_retry rules e J
          else if ref = KINTFOLD then lj_ir_kint e J (ir_i (fold_ins J))
          else if ref = FAILFOLD then Some (Inl LJ_TRERR_GFAIL, J)
          else Some (Inr REF_DROP, J))"

definition lj_opt_fold :: "(u32 \<Rightarrow> FoldFunc option) \<Rightarrow> FoldFunc" where
  "lj_opt_fold rules e J =
     (let kind = irm_kind (lj_ir_mode ! unat (ir_o (fold_ins J)));
          on = (\<lambda>m. j_flags J AND m = m) in
      if j_flags J AND JIT_F_OPT_MASK \<noteq> JIT_F_OPT_DEFAULT \<and> \<not> on JIT_F_OPT_FOLD \<and> kind = IRM_N then lj_opt_cse e J
      else if j_flags J AND JIT_F_OPT_MASK \<noteq> JIT_F_OPT_DEFAULT \<and>
        \<not> on (JIT_F_OPT_FOLD OR JIT_F_OPT_FWD OR JIT_F_OPT_CSE) \<and> kind = IRM_L \<and> ir_o (fold_ins J) \<noteq> IR_SLOAD then lj_ir_emit e J
      else if j_flags J AND JIT_F_OPT_MASK \<noteq> JIT_F_OPT_DEFAULT \<and>
        \<not> on (JIT_F_OPT_FOLD OR JIT_F_OPT_DSE) \<and> kind = IRM_S then lj_ir_emit e J
      else fold_retry rules e J)"

end
