(* ===== verification/LJ_IRProps.thy ===== *)
theory LJ_IRProps
  imports LJ_IR LJ_DumpEnc
begin

text \<open>
  The invariant of the IR: the buffer covers the references in use, and each chain lists the
  instructions of its opcode. Emission and the interning of constants keep it and the instructions
  that are already there, and the same constant gets the same reference.
\<close>

section \<open>Fields\<close>

lemma op_IRREF2 [simp]: "(ucast (IRREF2 a b) :: u16) = a" "(ucast (drop_bit 16 (IRREF2 a b)) :: u16) = b"
proof -
  have "bit a (16 + n) = False" for n using bit_imp_le_length [of a "16 + n"] by auto
  then show "(ucast (drop_bit 16 (IRREF2 a b)) :: u16) = b"
    by (auto intro!: bit_word_eqI simp: IRREF2_def bit_simps)
qed (auto intro!: bit_word_eqI simp: IRREF2_def bit_simps)

lemma IRREF2_eta [simp]: "IRREF2 (ir_op1 ir) (ir_op2 ir) = ir_op12 ir"
proof (rule bit_word_eqI)
  fix n assume "n < LENGTH(32)"
  then consider "n < 16" | "16 \<le> n" "n < 32" by fastforce
  then show "bit (IRREF2 (ir_op1 ir) (ir_op2 ir)) n = bit (ir_op12 ir) n"
    by cases (simp_all add: IRREF2_def ir_op1_def ir_op2_def bit_simps less_diff_conv2)
qed

lemma set_op_simps [simp]:
  "ir_op1 (set_op1 x ir) = x" "ir_op2 (set_op1 x ir) = ir_op2 ir" "ir_op2 (set_op2 x ir) = x" "ir_op1 (set_op2 x ir) = ir_op1 ir"
  "ir_o (set_op1 x ir) = ir_o ir" "ir_o (set_op2 x ir) = ir_o ir" "ir_t (set_op1 x ir) = ir_t ir" "ir_t (set_op2 x ir) = ir_t ir"
  by (simp_all add: set_op1_def set_op2_def) (simp_all add: ir_op1_def ir_op2_def)

lemma op_upd [simp]:
  "ir_op1 (ir\<lparr>ir_o := x\<rparr>) = ir_op1 ir" "ir_op2 (ir\<lparr>ir_o := x\<rparr>) = ir_op2 ir"
  "ir_op1 (ir\<lparr>ir_t := t\<rparr>) = ir_op1 ir" "ir_op2 (ir\<lparr>ir_t := t\<rparr>) = ir_op2 ir"
  "ir_op1 (ir\<lparr>ir_prev := p\<rparr>) = ir_op1 ir" "ir_op2 (ir\<lparr>ir_prev := p\<rparr>) = ir_op2 ir"
  by (simp_all add: ir_op1_def ir_op2_def)

section \<open>The buffer\<close>

definition buf_ok :: "jit_State \<Rightarrow> bool" where
  "buf_ok J \<longleftrightarrow> length (irbuf J) = irtoplim J - irbotlim J \<and> irbotlim J \<le> j_nk J \<and> j_nk J \<le> REF_TRUE \<and>
     REF_BIAS < j_nins J \<and> j_nins J \<le> irtoplim J \<and> 8100 \<le> irbotlim J \<and>
     32 \<le> irtoplim J - irbotlim J \<and> irtoplim J - irbotlim J \<le> 65792"

text \<open>
  Room for more references: the recorder stops a trace at a few thousand instructions and a few
  hundred constants, well within these bounds, which keep the buffer from reaching down to
  reference 0 and every reference below 65536.
\<close>

definition ref_room :: "jit_State \<Rightarrow> nat \<Rightarrow> bool" where
  "ref_room J m \<longleftrightarrow> 24576 + m \<le> j_nk J \<and> j_nins J + m \<le> 40960"

definition ir_room :: "jit_State \<Rightarrow> nat \<Rightarrow> bool" where
  "ir_room J m \<longleftrightarrow> ref_room J m \<and> length (concat (j_k64 J)) + m < 2 ^ 32"

definition valid :: "jit_State \<Rightarrow> nat \<Rightarrow> bool" where "valid J r \<longleftrightarrow> j_nk J \<le> r \<and> r < j_nins J"

text \<open>The instructions, the chains and the other fields stay; the limits may change.\<close>

definition regrown :: "jit_State \<Rightarrow> jit_State \<Rightarrow> bool" where
  "regrown J J' \<longleftrightarrow> buf_ok J' \<and> (\<forall>r. valid J r \<longrightarrow> IR J' r = IR J r) \<and>
     J' = J\<lparr>irbuf := irbuf J', irbotlim := irbotlim J', irtoplim := irtoplim J'\<rparr>"

lemma buf_index: "buf_ok J \<Longrightarrow> valid J r \<Longrightarrow> r - irbotlim J < length (irbuf J) \<and> irbotlim J \<le> r"
  by (auto simp: buf_ok_def valid_def)

lemma growtop_ok:
  assumes ok: "buf_ok J" and r: "ref_room J m" and top: "irtoplim J = j_nins J"
  shows "(\<exists>J'. lj_ir_growtop e J = Some (Inl LJ_ERR_ERRMEM, J')) \<or>
    (\<exists>J'. lj_ir_growtop e J = Some (Inr (), J') \<and> regrown J J' \<and> j_nins J < irtoplim J')"
proof -
  define b s where "b = irbotlim J" and "s = irtoplim J - irbotlim J"
  note bs = b_def [symmetric] s_def [folded b_def, symmetric]
  have len: "length (irbuf J) = s" and s: "32 \<le> s" "irtoplim J = b + s" "2 * s \<le> 65792" "8100 \<le> b" "b \<le> j_nk J" "j_nk J \<le> REF_TRUE"
    and n: "j_nins J = b + s" "REF_BIAS < b + s"
    using ok r top by (auto simp: buf_ok_def ref_room_def b_def s_def)
  define J' where "J' = J\<lparr>irbuf := irbuf J @ replicate s (je_junk e), irtoplim := b + 2 * s\<rparr>"
  have "IR J' r = IR J r" if "valid J r" for r
    using buf_index [OF ok that] by (simp add: J'_def IR_def nth_append)
  moreover have "buf_ok J'" using s n len by (auto simp: buf_ok_def J'_def bs)
  moreover have "j_nins J < irtoplim J'" using s n by (auto simp: J'_def)
  moreover have "je_alloc e (2 * s * sizeof_IRIns) \<Longrightarrow> lj_ir_growtop e J = Some (Inr (), J')"
    using s by (simp add: lj_ir_growtop_def Let_def bs J'_def)
  moreover have "\<not> je_alloc e (2 * s * sizeof_IRIns) \<Longrightarrow> lj_ir_growtop e J = Some (Inl LJ_ERR_ERRMEM, J)"
    using s by (simp add: lj_ir_growtop_def Let_def bs)
  ultimately show ?thesis by (cases "je_alloc e (2 * s * sizeof_IRIns)") (auto simp: regrown_def J'_def)
qed

lemma shift_index:
  fixes r :: nat
  assumes "ofs \<le> b" "b \<le> r" "r < n"
  shows "r - (b - ofs) = ofs + (r - b)" "r - b < n - b"
  using assms by linarith+

lemma growbot_ok:
  assumes ok: "buf_ok J" and r: "ref_room J m" and nk: "j_nk J = irbotlim J"
  shows "(\<exists>J'. lj_ir_growbot e J = Some (Inl LJ_ERR_ERRMEM, J')) \<or>
    (\<exists>J'. lj_ir_growbot e J = Some (Inr (), J') \<and> regrown J J' \<and> irbotlim J' < j_nk J)"
proof -
  define b s n where "b = irbotlim J" and "s = irtoplim J - irbotlim J" and "n = j_nins J - irbotlim J"
  note bs = b_def [symmetric] s_def [folded b_def, symmetric] n_def [folded b_def, symmetric]
  have len: "length (irbuf J) = s" and s: "32 \<le> s" "n \<le> s" "irtoplim J = b + s" "s \<le> 65792" and b: "24576 \<le> b" "j_nk J = b"
    and n: "j_nins J = b + n" "b \<le> REF_TRUE" "REF_BIAS < b + n" "b + n \<le> 40960"
    using ok r nk by (auto simp: buf_ok_def ref_room_def b_def s_def n_def ref_codes)
  show ?thesis
  proof (cases "j_nins J + s div 2 < irtoplim J")
    case True
    define d where "d = s div 4"
    define J' where "J' = J\<lparr>irbuf := take d (irbuf J) @ take n (irbuf J) @ drop (d + n) (irbuf J), irbotlim := b - d, irtoplim := irtoplim J - d\<rparr>"
    have d: "d + n \<le> s" "d \<le> s" "d \<le> b" "0 < d" "d + 8100 \<le> b" using True s b n by (auto simp: d_def)
    have "IR J' r = IR J r" if "valid J r" for r
    proof -
      have r: "b \<le> r" "r < b + n" using that b n by (auto simp: valid_def)
      have i: "r - b < n" using r by linarith
      show ?thesis using i d len s
        by (simp add: J'_def IR_def bs nth_append shift_index (1) [OF d(3) r(1) r(2)])
    qed
    moreover have "buf_ok J'" using d s b n len by (auto simp: buf_ok_def J'_def)
    moreover have "irbotlim J' < j_nk J" using d b by (auto simp: J'_def)
    moreover have "lj_ir_growbot e J = Some (Inr (), J')" using True by (simp add: lj_ir_growbot_def Let_def bs J'_def d_def)
    ultimately show ?thesis by (auto simp: regrown_def J'_def)
  next
    case False
    define d where "d = (if 256 \<le> s then 128 else s div 2)"
    define J' where "J' = J\<lparr>irbuf := replicate d (je_junk e) @ take n (irbuf J) @ replicate (2 * s - d - n) (je_junk e),
      irbotlim := b - d, irtoplim := b - d + 2 * s\<rparr>"
    have d: "d \<le> s div 2" "0 < d" "d \<le> 128" "d \<le> b" "d + n \<le> 2 * s" using s b by (auto simp: d_def)
    have s2: "2 * s \<le> 65792" using False s n b by auto
    have "IR J' r = IR J r" if "valid J r" for r
    proof -
      have r: "b \<le> r" "r < b + n" using that b n by (auto simp: valid_def)
      have i: "r - b < n" using r by linarith
      show ?thesis using i d len s
        by (simp add: J'_def IR_def bs nth_append shift_index (1) [OF d(4) r(1) r(2)])
    qed
    moreover have "buf_ok J'" using d s s2 b n len by (auto simp: buf_ok_def J'_def)
    moreover have "irbotlim J' < j_nk J" using d b by (auto simp: J'_def)
    moreover have "je_alloc e (2 * s * sizeof_IRIns) \<Longrightarrow> lj_ir_growbot e J = Some (Inr (), J')"
      using False by (simp add: lj_ir_growbot_def Let_def bs J'_def d_def)
    moreover have "\<not> je_alloc e (2 * s * sizeof_IRIns) \<Longrightarrow> lj_ir_growbot e J = Some (Inl LJ_ERR_ERRMEM, J)"
      using False by (simp add: lj_ir_growbot_def Let_def bs)
    ultimately show ?thesis by (cases "je_alloc e (2 * s * sizeof_IRIns)") (auto simp: regrown_def J'_def)
  qed
qed

section \<open>Chains and constants\<close>

text \<open>Opcodes of constants that are interned in a chain.\<close>

definition kop :: "u8 \<Rightarrow> bool" where "kop op \<longleftrightarrow> IR_KPRI < op \<and> op \<le> IR_KSLOT"

text \<open>The references a chain lists, the most recent one first.\<close>

definition chain_refs :: "jit_State \<Rightarrow> u8 \<Rightarrow> nat list" where
  "chain_refs J op = filter (\<lambda>r. ir_o (IR J r) = op) (if kop op then [j_nk J..<REF_TRUE] else rev [REF_BIAS..<j_nins J])"

primrec linked :: "jit_State \<Rightarrow> nat \<Rightarrow> nat list \<Rightarrow> bool" where
  "linked J ref [] \<longleftrightarrow> ref = 0"
| "linked J ref (r # rs) \<longleftrightarrow> ref = r \<and> r \<noteq> 0 \<and> linked J (unat (ir_prev (IR J r))) rs"

lemma linked_cong: "(\<And>r. r \<in> set rs \<Longrightarrow> IR J' r = IR J r) \<Longrightarrow> linked J' ref rs = linked J ref rs"
  by (induction rs arbitrary: ref) auto

lemma chain_find_linked:
  "linked J ref rs \<Longrightarrow> chain_find P J ref = Some (case find (\<lambda>r. P (IR J r)) rs of None \<Rightarrow> 0 | Some r \<Rightarrow> r)"
  by (induction rs arbitrary: ref) (subst chain_find.simps; auto)+

text \<open>What identifies a constant among those of its opcode.\<close>

definition kkey :: "u8 \<Rightarrow> IRIns \<Rightarrow> u32 \<times> u8" where
  "kkey op ir = (if op = IR_KNULL then (0, ir_t ir) else (ir_op12 ir, 0))"

definition kdata :: "jit_State \<Rightarrow> IRIns \<Rightarrow> bool" where
  "kdata J ir \<longleftrightarrow> (ir_o ir = IR_KINT \<longrightarrow> ir_t ir = IRT_INT) \<and>
     (ir_o ir = IR_KINT64 \<longrightarrow> ir_t ir = IRT_I64 \<and> ir_ptr ir < length (concat (j_k64 J))) \<and>
     (ir_o ir = IR_KNUM \<longrightarrow> ir_t ir = IRT_NUM \<and> ir_ptr ir < length (concat (j_k64 J)))"

text \<open>Constants are below, primitives at and instructions above their references.\<close>

definition ir_placed :: "jit_State \<Rightarrow> bool" where
  "ir_placed J \<longleftrightarrow> (\<forall>r. valid J r \<longrightarrow> (r < REF_TRUE \<longrightarrow> kop (ir_o (IR J r)) \<and> kdata J (IR J r)) \<and>
     (REF_TRUE \<le> r \<and> r < REF_BIAS \<longrightarrow> ir_o (IR J r) = IR_KPRI) \<and>
     (REF_BIAS \<le> r \<longrightarrow> \<not> kop (ir_o (IR J r)) \<and> ir_o (IR J r) \<noteq> IR_KPRI))"

definition kuniq :: "jit_State \<Rightarrow> bool" where
  "kuniq J \<longleftrightarrow> (\<forall>op. kop op \<longrightarrow> inj_on (\<lambda>r. kkey op (IR J r)) (set (chain_refs J op))) \<and> distinct (concat (j_k64 J))"

definition ir_chains :: "jit_State \<Rightarrow> bool" where
  "ir_chains J \<longleftrightarrow> (\<forall>op. linked J (unat (j_chain J op)) (chain_refs J op))"

definition ir_ok :: "jit_State \<Rightarrow> bool" where
  "ir_ok J \<longleftrightarrow> buf_ok J \<and> ir_chains J \<and> ir_placed J \<and> kuniq J"

text \<open>A later state of the same trace: what was there has stayed.\<close>

definition extends :: "jit_State \<Rightarrow> jit_State \<Rightarrow> bool" where
  "extends J J' \<longleftrightarrow> j_nk J' \<le> j_nk J \<and> j_nins J \<le> j_nins J' \<and> (\<forall>r. valid J r \<longrightarrow> IR J' r = IR J r) \<and>
     (\<exists>xs. concat (j_k64 J') = concat (j_k64 J) @ xs) \<and> j_flags J' = j_flags J"

lemma extends_refl [simp, intro]: "extends J J" by (simp add: extends_def)

lemma extends_trans [trans]: "extends J J1 \<Longrightarrow> extends J1 J2 \<Longrightarrow> extends J J2"
  by (fastforce simp: extends_def valid_def)

lemma extends_valid: "extends J J' \<Longrightarrow> valid J r \<Longrightarrow> valid J' r \<and> IR J' r = IR J r"
  by (auto simp: extends_def valid_def)

lemma chain_valid: "buf_ok J \<Longrightarrow> r \<in> set (chain_refs J op) \<Longrightarrow> valid J r \<and> r \<noteq> 0 \<and> ir_o (IR J r) = op"
  by (auto simp: chain_refs_def valid_def buf_ok_def ref_codes split: if_splits)

lemma const_in_chain:
  assumes "ir_ok J" "valid J r" "kop (ir_o (IR J r))"
  shows "r \<in> set (chain_refs J (ir_o (IR J r)))" "r < REF_TRUE" "kdata J (IR J r)"
proof -
  have "\<not> kop IR_KPRI" by (simp add: kop_def)
  then show "r < REF_TRUE" using assms by (metis ir_ok_def ir_placed_def not_le)
  then show "r \<in> set (chain_refs J (ir_o (IR J r)))" "kdata J (IR J r)"
    using assms by (auto simp: chain_refs_def valid_def ir_ok_def ir_placed_def)
qed

text \<open>Two constants of the same opcode and key are one.\<close>

lemma const_unique:
  assumes "ir_ok J" "valid J r" "valid J r'" "ir_o (IR J r') = ir_o (IR J r)" "kop (ir_o (IR J r))"
    "kkey (ir_o (IR J r)) (IR J r) = kkey (ir_o (IR J r)) (IR J r')"
  shows "r = r'"
proof -
  have "inj_on (\<lambda>x. kkey (ir_o (IR J r)) (IR J x)) (set (chain_refs J (ir_o (IR J r))))"
    using assms by (auto simp: ir_ok_def kuniq_def)
  then show ?thesis using const_in_chain (1) [of J r] const_in_chain (1) [of J r'] assms by (metis (no_types, lifting) inj_onD)
qed

section \<open>Adding a constant\<close>

lemma ir_room_less: "ir_room J m \<Longrightarrow> n \<le> m \<Longrightarrow> ir_room J n"
  by (simp add: ir_room_def ref_room_def)

lemma ir_room_ref [simp]: "ir_room J m \<Longrightarrow> ref_room J m"
  by (simp add: ir_room_def)

lemma nextk_ok:
  assumes ok: "buf_ok J" and r: "ref_room J 1"
  shows "(\<exists>J'. ir_nextk e J = Some (Inl LJ_ERR_ERRMEM, J')) \<or>
    (\<exists>J1. ir_nextk e J = Some (Inr (j_nk J - 1), J1\<lparr>j_nk := j_nk J - 1\<rparr>) \<and> regrown J J1 \<and> irbotlim J1 < j_nk J)"
proof (cases "j_nk J \<le> irbotlim J")
  case True
  then have "j_nk J = irbotlim J" using ok by (simp add: buf_ok_def)
  from growbot_ok [OF ok r this, of e] True show ?thesis by (auto simp: ir_nextk_def rbind_def Let_def)
next
  case False
  then show ?thesis using ok by (intro disjI2 exI [of _ J]) (auto simp: ir_nextk_def rbind_def regrown_def Let_def)
qed

lemma regrown_fields:
  assumes "regrown J J1"
  shows "j_nk J1 = j_nk J" "j_nins J1 = j_nins J" "j_chain J1 = j_chain J" "j_k64 J1 = j_k64 J" "j_flags J1 = j_flags J"
    "fold_ins J1 = fold_ins J" "fold_left J1 = fold_left J" "fold_right J1 = fold_right J" "guardemit J1 = guardemit J"
proof -
  have "J1 = J\<lparr>irbuf := irbuf J1, irbotlim := irbotlim J1, irtoplim := irtoplim J1\<rparr>" using assms by (simp add: regrown_def)
  from arg_cong [OF this, of j_nk] arg_cong [OF this, of j_nins] arg_cong [OF this, of j_chain] arg_cong [OF this, of j_k64]
    arg_cong [OF this, of j_flags] arg_cong [OF this, of fold_ins] arg_cong [OF this, of fold_left] arg_cong [OF this, of fold_right]
    arg_cong [OF this, of guardemit]
  show "j_nk J1 = j_nk J" "j_nins J1 = j_nins J" "j_chain J1 = j_chain J" "j_k64 J1 = j_k64 J" "j_flags J1 = j_flags J"
    "fold_ins J1 = fold_ins J" "fold_left J1 = fold_left J" "fold_right J1 = fold_right J" "guardemit J1 = guardemit J"
    by simp_all
qed

text \<open>Link a new constant below the others.\<close>

definition add_k :: "IRIns \<Rightarrow> jit_State \<Rightarrow> jit_State \<Rightarrow> jit_State" where
  "add_k ir J J1 = (set_IR (j_nk J - 1) ir (J1\<lparr>j_nk := j_nk J - 1\<rparr>))\<lparr>j_chain := (j_chain J)(ir_o ir := of_nat (j_nk J - 1))\<rparr>"

lemma add_k_IR:
  assumes "buf_ok J" "ref_room J 1" "regrown J J1" "irbotlim J1 < j_nk J"
  shows "IR (add_k ir J J1) (j_nk J - 1) = ir" "valid J x \<Longrightarrow> IR (add_k ir J J1) x = IR J x" "buf_ok (add_k ir J J1)"
    "j_nk (add_k ir J J1) = j_nk J - 1" "j_nins (add_k ir J J1) = j_nins J" "j_k64 (add_k ir J J1) = j_k64 J"
    "j_flags (add_k ir J J1) = j_flags J" "j_chain (add_k ir J J1) = (j_chain J)(ir_o ir := of_nat (j_nk J - 1))"
    "fold_ins (add_k ir J J1) = fold_ins J" "fold_left (add_k ir J J1) = fold_left J" "fold_right (add_k ir J J1) = fold_right J"
proof -
  note rf = regrown_fields [OF assms(3)]
  have b: "buf_ok J1" using assms by (simp add: regrown_def)
  have i: "j_nk J - 1 - irbotlim J1 < length (irbuf J1)" "irbotlim J1 \<le> j_nk J - 1"
    using b rf assms by (auto simp: buf_ok_def ref_room_def ref_codes)
  show "IR (add_k ir J J1) (j_nk J - 1) = ir" using i by (simp add: add_k_def IR_def set_IR_def)
  show "valid J x \<Longrightarrow> IR (add_k ir J J1) x = IR J x"
  proof -
    assume v: "valid J x"
    then have "IR J1 x = IR J x" using assms by (simp add: regrown_def)
    moreover have "x - irbotlim J1 \<noteq> j_nk J - 1 - irbotlim J1" using v i assms by (auto simp: valid_def ref_room_def)
    ultimately show ?thesis by (simp add: add_k_def IR_def set_IR_def)
  qed
  show "buf_ok (add_k ir J J1)" using b i rf le_diff_conv [of "j_nk J" 1 REF_TRUE] by (auto simp: buf_ok_def add_k_def set_IR_def)
qed (use regrown_fields [OF assms(3)] in \<open>simp_all add: add_k_def set_IR_def\<close>)

lemma add_k_chain_refs:
  assumes ok: "buf_ok J" "ref_room J 1" and re: "regrown J J1" "irbotlim J1 < j_nk J" and k: "kop (ir_o ir)"
  shows "chain_refs (add_k ir J J1) op = (if op = ir_o ir then (j_nk J - 1) # chain_refs J op else chain_refs J op)"
proof -
  let ?J = "add_k ir J J1"
  note a = add_k_IR [OF assms(1-4)]
  have nk: "j_nk J - 1 < REF_TRUE" "Suc (j_nk J - 1) = j_nk J" using ok by (auto simp: buf_ok_def ref_room_def)
  then have up: "[j_nk J - 1..<REF_TRUE] = (j_nk J - 1) # [j_nk J..<REF_TRUE]" by (simp add: upt_conv_Cons)
  have v: "valid J r" if "r \<in> set [j_nk J..<REF_TRUE] \<or> r \<in> set [REF_BIAS..<j_nins J]" for r
    using that ok by (auto simp: valid_def buf_ok_def ref_codes)
  have "filter (\<lambda>r. ir_o (IR ?J r) = op) [j_nk J..<REF_TRUE] = filter (\<lambda>r. ir_o (IR J r) = op) [j_nk J..<REF_TRUE]"
    "filter (\<lambda>r. ir_o (IR ?J r) = op) (rev [REF_BIAS..<j_nins J]) = filter (\<lambda>r. ir_o (IR J r) = op) (rev [REF_BIAS..<j_nins J])"
    using v a(2) by (auto intro!: filter_cong)
  then show ?thesis using k a(1) unfolding chain_refs_def a(4,5) by (auto simp: up [unfolded One_nat_def] simp del: upt_Suc)
qed

lemma chain_IR: "buf_ok J \<Longrightarrow> r \<in> set (chain_refs J op) \<Longrightarrow> (\<And>x. valid J x \<Longrightarrow> IR J' x = IR J x) \<Longrightarrow> IR J' r = IR J r"
  using chain_valid by blast

lemma add_k_ok:
  assumes ok: "ir_ok J" "ref_room J 1" and re: "regrown J J1" "irbotlim J1 < j_nk J" and k: "kop (ir_o ir)" "kdata J ir"
    and prev: "ir_prev ir = j_chain J (ir_o ir)" and new: "\<And>x. x \<in> set (chain_refs J (ir_o ir)) \<Longrightarrow> kkey (ir_o ir) (IR J x) \<noteq> kkey (ir_o ir) ir"
  shows "ir_ok (add_k ir J J1)" "extends J (add_k ir J J1)"
proof -
  let ?J = "add_k ir J J1"
  have b: "buf_ok J" using ok by (simp add: ir_ok_def)
  note a = add_k_IR [OF b ok(2) re] and c = add_k_chain_refs [OF b ok(2) re k(1)]
  have nk: "j_nk J - 1 \<noteq> 0" "j_nk J - 1 < REF_TRUE" "j_nk J - 1 < 2 ^ 16"
    using ok b by (auto simp: buf_ok_def ref_room_def ref_codes)
  then have nk16: "unat (of_nat (j_nk J - 1) :: u16) = j_nk J - 1" by (intro unat_of_nat_small) simp
  have same: "IR ?J x = IR J x" if "x \<in> set (chain_refs J op)" for x op using chain_IR [OF b that] a(2) by blast
  have "linked ?J (unat (j_chain ?J op)) (chain_refs ?J op)" for op
  proof -
    have "linked ?J (unat (j_chain J op)) (chain_refs J op)"
      using ok linked_cong [of "chain_refs J op" ?J J, OF same] by (simp add: ir_ok_def ir_chains_def)
    then show ?thesis using nk a(1) prev by (auto simp: c a(8) nk16 [unfolded One_nat_def] simp del: of_nat_diff)
  qed
  moreover have "ir_placed ?J"
  proof -
    have "valid ?J r \<Longrightarrow> r = j_nk J - 1 \<or> valid J r" for r using a by (auto simp: valid_def)
    moreover have "kdata ?J x = kdata J x" for x by (simp add: kdata_def a)
    moreover have "ir_placed J" using ok by (simp add: ir_ok_def)
    ultimately show ?thesis using a(1,2) k nk unfolding ir_placed_def by (metis REF_TRUE_def diff_le_self not_le order_trans)
  qed
  moreover have "inj_on (\<lambda>r. kkey op (IR ?J r)) (set (chain_refs ?J op))" if "kop op" for op
  proof -
    have "inj_on (\<lambda>r. kkey op (IR J r)) (set (chain_refs J op))" using ok that by (simp add: ir_ok_def kuniq_def)
    then have "inj_on (\<lambda>r. kkey op (IR ?J r)) (set (chain_refs J op))" by (subst inj_on_cong [OF arg_cong [OF same]])
    then show ?thesis using new same a(1) by (force simp: c inj_on_insert)
  qed
  ultimately show "ir_ok ?J" using a(3) ok by (auto simp: ir_ok_def ir_chains_def kuniq_def a)
  show "extends J ?J" using a by (auto simp: extends_def)
qed

section \<open>Interning\<close>

text \<open>
  The outcome of interning: out of memory, or a constant with the wanted property in a state that
  extends the old one by at most one constant.
\<close>

definition interned :: "jit_State \<Rightarrow> (nat, jit_State) res \<Rightarrow> (jit_State \<Rightarrow> nat \<Rightarrow> bool) \<Rightarrow> bool" where
  "interned J res Q \<longleftrightarrow> (\<exists>J'. res = Some (Inl LJ_ERR_ERRMEM, J')) \<or>
     (\<exists>r J'. res = Some (Inr r, J') \<and> ir_ok J' \<and> extends J J' \<and> valid J' r \<and> r < REF_TRUE \<and> j_nins J' = j_nins J \<and>
        fold_ins J' = fold_ins J \<and> fold_left J' = fold_left J \<and> fold_right J' = fold_right J \<and>
        j_nk J \<le> Suc (j_nk J') \<and> length (concat (j_k64 J')) \<le> Suc (length (concat (j_k64 J))) \<and> Q J' r)"

lemma internedI:
  "res = Some (Inr r, J') \<Longrightarrow> ir_ok J' \<Longrightarrow> extends J J' \<Longrightarrow> valid J' r \<Longrightarrow> r < REF_TRUE \<Longrightarrow> j_nins J' = j_nins J \<Longrightarrow>
   fold_ins J' = fold_ins J \<Longrightarrow> fold_left J' = fold_left J \<Longrightarrow> fold_right J' = fold_right J \<Longrightarrow>
   j_nk J \<le> Suc (j_nk J') \<Longrightarrow> length (concat (j_k64 J')) \<le> Suc (length (concat (j_k64 J))) \<Longrightarrow> Q J' r \<Longrightarrow> interned J res Q"
  by (auto simp: interned_def)

lemma interned_mono: "interned J res Q \<Longrightarrow> (\<And>r J'. ir_ok J' \<Longrightarrow> extends J J' \<Longrightarrow> valid J' r \<Longrightarrow> Q J' r \<Longrightarrow> R J' r) \<Longrightarrow> interned J res R"
  unfolding interned_def by blast

lemma intern_ok:
  fixes k :: "u32 \<times> u8"
  assumes ok: "ir_ok J" "ref_room J 1" "kop oper"
    and P: "\<And>ir. ir_o ir = oper \<Longrightarrow> P ir \<longleftrightarrow> kkey oper ir = k"
    and new: "\<And>p. kkey oper \<lparr>ir_op12 = op12, ir_t = t, ir_o = oper, ir_prev = p\<rparr> = k"
      "\<And>p. kdata J \<lparr>ir_op12 = op12, ir_t = t, ir_o = oper, ir_prev = p\<rparr>"
  shows "interned J (intern e J oper P op12 t) (\<lambda>J' r. ir_o (IR J' r) = oper \<and> kkey oper (IR J' r) = k \<and> j_k64 J' = j_k64 J)"
proof -
  have b: "buf_ok J" and l: "linked J (unat (j_chain J oper)) (chain_refs J oper)"
    using ok by (auto simp: ir_ok_def ir_chains_def)
  show ?thesis
  proof (cases "find (\<lambda>r. P (IR J r)) (chain_refs J oper)")
    case (Some r)
    then have r: "r \<in> set (chain_refs J oper)" "P (IR J r)" by (auto simp: find_Some_iff)
    have v: "valid J r" "r \<noteq> 0" "ir_o (IR J r) = oper" using chain_valid [OF b r(1)] by auto
    show ?thesis
    proof (rule internedI [of _ r J])
      show "intern e J oper P op12 t = Some (Inr r, J)" using v by (simp add: intern_def chain_find_linked [OF l] Some)
      show "r < REF_TRUE" using const_in_chain (2) [of J r] ok v by simp
    qed (use ok v r P in \<open>auto\<close>)
  next
    case None
    define ir where "ir = \<lparr>ir_op12 = op12, ir_t = t, ir_o = oper, ir_prev = j_chain J oper\<rparr>"
    have ir: "ir_o ir = oper" "ir_prev ir = j_chain J oper" by (simp_all add: ir_def)
    have fresh: "kkey oper (IR J x) \<noteq> kkey oper ir" if "x \<in> set (chain_refs J oper)" for x
      using None that chain_valid [OF b that] P new by (auto simp: find_None_iff ir_def)
    show ?thesis
    proof (cases "\<exists>J'. ir_nextk e J = Some (Inl LJ_ERR_ERRMEM, J')")
      case True
      then show ?thesis by (auto simp: interned_def intern_def chain_find_linked [OF l] None rbind_def)
    next
      case False
      then obtain J1 where J1: "ir_nextk e J = Some (Inr (j_nk J - 1), J1\<lparr>j_nk := j_nk J - 1\<rparr>)" "regrown J J1" "irbotlim J1 < j_nk J"
        using nextk_ok [OF b ok(2), of e] by blast
      note a = add_k_IR [OF b ok(2) J1(2,3), where ir = ir]
      have k: "kop (ir_o ir)" "kdata J ir" using ok new by (auto simp: ir_def)
      note A = add_k_ok [OF ok(1,2) J1(2,3) k] ir
      show ?thesis
      proof (rule internedI [of _ "j_nk J - 1" "add_k ir J J1"])
        show "intern e J oper P op12 t = Some (Inr (j_nk J - 1), add_k ir J J1)"
          using regrown_fields [OF J1(2)] by (simp add: intern_def chain_find_linked [OF l] None rbind_def J1(1) add_k_def ir_def set_IR_def)
        show "ir_ok (add_k ir J J1)" "extends J (add_k ir J J1)" using A fresh by auto
        have "j_nk J \<le> REF_TRUE" "0 < j_nk J" "REF_TRUE < j_nins J" using b ok by (auto simp: buf_ok_def ref_room_def ref_codes)
        then show "valid (add_k ir J J1) (j_nk J - 1)" "j_nk J - 1 < REF_TRUE" using a(4,5) unfolding valid_def by linarith+
        show "ir_o (IR (add_k ir J J1) (j_nk J - 1)) = oper \<and> kkey oper (IR (add_k ir J J1) (j_nk J - 1)) = k \<and> j_k64 (add_k ir J J1) = j_k64 J"
          using a(1,6) ir new by (simp add: ir_def)
      qed (use a in \<open>auto\<close>)
    qed
  qed
qed

lemma kint_ok:
  assumes "ir_ok J" "ir_room J 1"
  shows "interned J (lj_ir_kint e J k) (\<lambda>J' r. ir_o (IR J' r) = IR_KINT \<and> ir_i (IR J' r) = k)"
  unfolding lj_ir_kint_def
  by (rule interned_mono [OF intern_ok [OF assms(1) ir_room_ref [OF assms(2)], where k = "(k, 0)"]])
    (simp_all add: kop_def kkey_def kdata_def ir_i_def ir_codes)

lemma concat_k64_add: "concat (k64_add ks u) = concat ks @ [u]"
  by (cases ks rule: rev_cases) (auto simp: k64_add_def)

lemma find_idx: "find (\<lambda>i. k ! i = u) [0..<length k] = Some i \<Longrightarrow> i < length k \<and> k ! i = u"
  "find (\<lambda>i. k ! i = u) [0..<length k] = None \<Longrightarrow> u \<notin> set k"
  by (auto simp: find_Some_iff find_None_iff in_set_conv_nth)

lemma k64_search_ok:
  "case k64_search ks u ofs of None \<Rightarrow> u \<notin> set (concat ks)
   | Some tv \<Rightarrow> ofs \<le> tv \<and> tv - ofs < length (concat ks) \<and> concat ks ! (tv - ofs) = u"
proof (induction ks arbitrary: ofs)
  case (Cons k ks)
  show ?case using Cons [of "ofs + length k"] find_idx [of k u]
    by (auto simp: nth_append split: option.splits)
qed simp

lemma k64_find_ok:
  assumes ok: "ir_ok J"
  shows "(\<exists>J'. lj_ir_k64_find e J u = Some (Inl LJ_ERR_ERRMEM, J')) \<or>
    (\<exists>tv J'. lj_ir_k64_find e J u = Some (Inr tv, J') \<and> ir_ok J' \<and> extends J J' \<and> tv < length (concat (j_k64 J')) \<and>
      concat (j_k64 J') ! tv = u \<and> J' = J\<lparr>j_k64 := j_k64 J'\<rparr> \<and> length (concat (j_k64 J')) \<le> Suc (length (concat (j_k64 J))))"
proof (cases "k64_search (j_k64 J) u 0")
  case (Some tv)
  then show ?thesis using k64_search_ok [where ks = "j_k64 J" and u = u and ofs = 0] ok
    by (intro disjI2 exI [of _ tv] exI [of _ J]) (auto simp: lj_ir_k64_find_def)
next
  case None
  let ?J = "J\<lparr>j_k64 := k64_add (j_k64 J) u\<rparr>"
  have eq: "IR ?J = IR J" "chain_refs ?J = chain_refs J" by (simp_all add: IR_def fun_eq_iff chain_refs_def)
  have u: "u \<notin> set (concat (j_k64 J))" using k64_search_ok [where ks = "j_k64 J" and u = u and ofs = 0] None by simp
  have "linked ?J r rs = linked J r rs" for r rs by (rule linked_cong) (simp add: eq)
  moreover have "kdata J ir \<Longrightarrow> kdata ?J ir" for ir by (auto simp: kdata_def concat_k64_add)
  ultimately have "ir_ok ?J" using ok u
    by (auto simp: ir_ok_def buf_ok_def ir_chains_def ir_placed_def kuniq_def eq valid_def concat_k64_add)
  moreover have "extends J ?J" by (auto simp: extends_def eq concat_k64_add)
  ultimately show ?thesis using None u
    by (auto simp: lj_ir_k64_find_def concat_k64_add)
qed

lemma kint64_ok:
  assumes ok: "ir_ok J" "ir_room J 1"
  shows "interned J (lj_ir_kint64 e J u) (\<lambda>J' r. ir_o (IR J' r) = IR_KINT64 \<and> ir_k64 J' (IR J' r) = u)"
proof (cases "\<exists>J'. lj_ir_k64_find e J u = Some (Inl LJ_ERR_ERRMEM, J')")
  case True
  then show ?thesis by (auto simp: interned_def lj_ir_kint64_def rbind_def)
next
  case False
  then obtain tv J1 where f: "lj_ir_k64_find e J u = Some (Inr tv, J1)" "ir_ok J1" "extends J J1" "tv < length (concat (j_k64 J1))"
      "concat (j_k64 J1) ! tv = u" "J1 = J\<lparr>j_k64 := j_k64 J1\<rparr>" "length (concat (j_k64 J1)) \<le> Suc (length (concat (j_k64 J)))"
    using k64_find_ok [OF ok(1), of e u] by blast
  have same: "fold_ins J1 = fold_ins J" "fold_left J1 = fold_left J" "fold_right J1 = fold_right J" "j_nins J1 = j_nins J" "j_nk J1 = j_nk J"
    by (subst f(6), simp)+
  have "tv < 2 ^ 32" using f(4,7) ok by (simp add: ir_room_def)
  then have k: "unat (of_nat tv :: u32) = tv" by (intro unat_of_nat_small) simp
  have room: "ref_room J1 1" using ok same by (simp add: ir_room_def ref_room_def)
  have "interned J1 (lj_ir_k64 e J1 IR_KINT64 tv) (\<lambda>J' r. ir_o (IR J' r) = IR_KINT64 \<and> kkey IR_KINT64 (IR J' r) = (of_nat tv, 0) \<and> j_k64 J' = j_k64 J1)"
    unfolding lj_ir_k64_def
    by (rule intern_ok [OF f(2) room]) (use f(4) k in \<open>auto simp: kop_def kkey_def kdata_def ir_ptr_def ir_codes word_unat_eq_iff\<close>)
  then have "interned J1 (lj_ir_k64 e J1 IR_KINT64 tv) (\<lambda>J' r. ir_o (IR J' r) = IR_KINT64 \<and> ir_k64 J' (IR J' r) = u \<and> j_k64 J' = j_k64 J1)"
    by (rule interned_mono) (use f(5) k in \<open>auto simp: kkey_def ir_k64_def ir_ptr_def ir_codes\<close>)
  then show ?thesis using extends_trans [OF f(3)] f(1,7) same
    unfolding interned_def lj_ir_kint64_def by (auto simp: rbind_def)
qed

section \<open>Emission\<close>

definition ins_op :: "u8 \<Rightarrow> bool" where "ins_op op \<longleftrightarrow> \<not> kop op \<and> op \<noteq> IR_KPRI"

text \<open>The buffer of \<open>J1\<close> has room for the next instruction of \<open>J\<close>.\<close>

definition add_ins :: "IRIns \<Rightarrow> jit_State \<Rightarrow> jit_State \<Rightarrow> jit_State" where
  "add_ins ir J J1 = (set_IR (j_nins J) ir (J1\<lparr>j_nins := j_nins J + 1\<rparr>))
     \<lparr>j_chain := (j_chain J)(ir_o ir := of_nat (j_nins J)), guardemit := guardemit J OR ir_t ir\<rparr>"

lemma nextins_ok:
  assumes ok: "buf_ok J" and r: "ref_room J 1"
  shows "(\<exists>J'. lj_ir_nextins e J = Some (Inl LJ_ERR_ERRMEM, J')) \<or>
    (\<exists>J1. lj_ir_nextins e J = Some (Inr (j_nins J), J1\<lparr>j_nins := j_nins J + 1\<rparr>) \<and> regrown J J1 \<and> j_nins J < irtoplim J1)"
proof (cases "irtoplim J \<le> j_nins J")
  case True
  then have "irtoplim J = j_nins J" using ok by (simp add: buf_ok_def)
  from growtop_ok [OF ok r this, of e] True show ?thesis by (auto simp: lj_ir_nextins_def rbind_def Let_def)
next
  case False
  then show ?thesis using ok by (intro disjI2 exI [of _ J]) (auto simp: lj_ir_nextins_def rbind_def regrown_def Let_def)
qed

lemma add_ins_IR:
  assumes "buf_ok J" "regrown J J1" "j_nins J < irtoplim J1"
  shows "IR (add_ins ir J J1) (j_nins J) = ir" "valid J x \<Longrightarrow> IR (add_ins ir J J1) x = IR J x" "buf_ok (add_ins ir J J1)"
    "j_nk (add_ins ir J J1) = j_nk J" "j_nins (add_ins ir J J1) = Suc (j_nins J)" "j_k64 (add_ins ir J J1) = j_k64 J"
    "j_flags (add_ins ir J J1) = j_flags J" "j_chain (add_ins ir J J1) = (j_chain J)(ir_o ir := of_nat (j_nins J))"
    "fold_ins (add_ins ir J J1) = fold_ins J"
proof -
  note rf = regrown_fields [OF assms(2)]
  have b: "buf_ok J1" using assms by (simp add: regrown_def)
  have i: "j_nins J - irbotlim J1 < length (irbuf J1)" "irbotlim J1 \<le> j_nins J"
    using b rf assms by (auto simp: buf_ok_def ref_codes)
  show "IR (add_ins ir J J1) (j_nins J) = ir" using i by (simp add: add_ins_def IR_def set_IR_def)
  show "valid J x \<Longrightarrow> IR (add_ins ir J J1) x = IR J x"
  proof -
    assume v: "valid J x"
    then have "IR J1 x = IR J x" using assms by (simp add: regrown_def)
    moreover have "x - irbotlim J1 \<noteq> j_nins J - irbotlim J1" using v i b rf by (auto simp: valid_def buf_ok_def)
    ultimately show ?thesis by (simp add: add_ins_def IR_def set_IR_def)
  qed
  show "buf_ok (add_ins ir J J1)" using b i rf assms by (auto simp: buf_ok_def add_ins_def set_IR_def)
qed (use regrown_fields [OF assms(2)] in \<open>simp_all add: add_ins_def set_IR_def\<close>)

lemma add_ins_chain_refs:
  assumes ok: "buf_ok J" and re: "regrown J J1" "j_nins J < irtoplim J1" and k: "\<not> kop (ir_o ir)"
  shows "chain_refs (add_ins ir J J1) op = (if op = ir_o ir then j_nins J # chain_refs J op else chain_refs J op)"
proof -
  let ?J = "add_ins ir J J1"
  note a = add_ins_IR [OF assms(1-3)]
  have up: "rev [REF_BIAS..<Suc (j_nins J)] = j_nins J # rev [REF_BIAS..<j_nins J]" using ok by (simp add: buf_ok_def)
  have v: "valid J r" if "r \<in> set [j_nk J..<REF_TRUE] \<or> r \<in> set [REF_BIAS..<j_nins J]" for r
    using that ok by (auto simp: valid_def buf_ok_def ref_codes)
  have "filter (\<lambda>r. ir_o (IR ?J r) = op) [j_nk J..<REF_TRUE] = filter (\<lambda>r. ir_o (IR J r) = op) [j_nk J..<REF_TRUE]"
    "filter (\<lambda>r. ir_o (IR ?J r) = op) (rev [REF_BIAS..<j_nins J]) = filter (\<lambda>r. ir_o (IR J r) = op) (rev [REF_BIAS..<j_nins J])"
    using v a(2) by (auto intro!: filter_cong)
  then show ?thesis using k a(1) unfolding chain_refs_def a(4,5) by (auto simp: up simp del: upt_Suc)
qed

lemma add_ins_ok:
  assumes ok: "ir_ok J" "ref_room J 1" and re: "regrown J J1" "j_nins J < irtoplim J1" and k: "ins_op (ir_o ir)"
    and prev: "ir_prev ir = j_chain J (ir_o ir)"
  shows "ir_ok (add_ins ir J J1)" "extends J (add_ins ir J J1)"
proof -
  let ?J = "add_ins ir J J1"
  have b: "buf_ok J" and nk: "\<not> kop (ir_o ir)" using ok k by (auto simp: ir_ok_def ins_op_def)
  note a = add_ins_IR [OF b re] and c = add_ins_chain_refs [OF b re nk]
  have n: "j_nins J \<noteq> 0" "REF_BIAS < j_nins J" "j_nins J < 2 ^ 16" using ok b by (auto simp: buf_ok_def ref_room_def)
  then have n16: "unat (of_nat (j_nins J) :: u16) = j_nins J" by (intro unat_of_nat_small) simp
  have same: "IR ?J x = IR J x" if "x \<in> set (chain_refs J op)" for x op using chain_IR [OF b that] a(2) by blast
  have "linked ?J (unat (j_chain ?J op)) (chain_refs ?J op)" for op
  proof -
    have "linked ?J (unat (j_chain J op)) (chain_refs J op)"
      using ok linked_cong [of "chain_refs J op" ?J J, OF same] by (simp add: ir_ok_def ir_chains_def)
    then show ?thesis using n a(1) prev by (auto simp: c a(8) n16)
  qed
  moreover have "ir_placed ?J"
  proof -
    have "valid ?J r \<Longrightarrow> r = j_nins J \<or> valid J r" for r using a by (auto simp: valid_def)
    moreover have "kdata ?J x = kdata J x" for x by (simp add: kdata_def a)
    moreover have "ir_placed J" using ok by (simp add: ir_ok_def)
    moreover have "REF_TRUE < j_nins J" using n by (simp add: ref_codes)
    ultimately show ?thesis using a(1,2) k n unfolding ir_placed_def ins_op_def by (metis less_imp_le not_le)
  qed
  moreover have "inj_on (\<lambda>r. kkey op (IR ?J r)) (set (chain_refs ?J op))" if "kop op" for op
  proof -
    have "inj_on (\<lambda>r. kkey op (IR J r)) (set (chain_refs J op))" using ok that by (simp add: ir_ok_def kuniq_def)
    then have "inj_on (\<lambda>r. kkey op (IR ?J r)) (set (chain_refs J op))" by (subst inj_on_cong [OF arg_cong [OF same]])
    then show ?thesis using nk that by (auto simp: c)
  qed
  ultimately show "ir_ok ?J" using a(3) ok by (auto simp: ir_ok_def ir_chains_def kuniq_def a)
  show "extends J ?J" using a by (auto simp: extends_def)
qed

lemma emit_ok:
  assumes ok: "ir_ok J" "ref_room J 1" and k: "ins_op (ir_o (fold_ins J))"
  shows "(\<exists>J'. lj_ir_emit e J = Some (Inl LJ_ERR_ERRMEM, J')) \<or>
    (\<exists>J'. lj_ir_emit e J = Some (Inr (j_nins J), J') \<and> ir_ok J' \<and> extends J J' \<and> j_nk J' = j_nk J \<and> j_nins J' = Suc (j_nins J) \<and>
       j_k64 J' = j_k64 J \<and> j_chain J' = (j_chain J)(ir_o (fold_ins J) := of_nat (j_nins J)) \<and>
       IR J' (j_nins J) = (fold_ins J)\<lparr>ir_prev := j_chain J (ir_o (fold_ins J))\<rparr>)"
proof -
  have b: "buf_ok J" using ok by (simp add: ir_ok_def)
  define ir where "ir = (fold_ins J)\<lparr>ir_prev := j_chain J (ir_o (fold_ins J))\<rparr>"
  show ?thesis
  proof (cases "\<exists>J'. lj_ir_nextins e J = Some (Inl LJ_ERR_ERRMEM, J')")
    case True
    then show ?thesis by (auto simp: lj_ir_emit_def rbind_def)
  next
    case False
    then obtain J1 where J1: "lj_ir_nextins e J = Some (Inr (j_nins J), J1\<lparr>j_nins := j_nins J + 1\<rparr>)" "regrown J J1" "j_nins J < irtoplim J1"
      using nextins_ok [OF b ok(2), of e] by blast
    have "lj_ir_emit e J = Some (Inr (j_nins J), add_ins ir J J1)"
      using regrown_fields [OF J1(2)] by (simp add: lj_ir_emit_def rbind_def J1(1) Let_def add_ins_def ir_def set_IR_def)
    moreover have "ir_o ir = ir_o (fold_ins J)" "ir_prev ir = j_chain J (ir_o ir)" by (simp_all add: ir_def)
    ultimately show ?thesis using add_ins_ok [OF ok J1(2,3), where ir = ir] add_ins_IR [OF b J1(2,3), where ir = ir] k
      by (auto simp: ir_def)
  qed
qed

section \<open>Rollback\<close>

definition pop_ins :: "jit_State \<Rightarrow> jit_State" where
  "pop_ins J = J\<lparr>j_chain := (j_chain J)(ir_o (IR J (j_nins J - 1)) := ir_prev (IR J (j_nins J - 1))), j_nins := j_nins J - 1\<rparr>"

lemma pop_ins_fields [simp]:
  "IR (pop_ins J) r = IR J r" "j_nins (pop_ins J) = j_nins J - 1" "j_nk (pop_ins J) = j_nk J" "j_k64 (pop_ins J) = j_k64 J"
  "irbuf (pop_ins J) = irbuf J" "irbotlim (pop_ins J) = irbotlim J" "irtoplim (pop_ins J) = irtoplim J" "kdata (pop_ins J) ir = kdata J ir"
  by (simp_all add: pop_ins_def IR_def kdata_def)

lemma pop_ins_ok:
  assumes ok: "ir_ok J" and n: "Suc REF_BIAS < j_nins J"
  shows "ir_ok (pop_ins J)"
proof -
  obtain n where n': "j_nins J = Suc n" "REF_BIAS < n" using n by (cases "j_nins J") auto
  let ?op = "ir_o (IR J n)"
  have v: "valid J n" "REF_BIAS \<le> n" using ok n' by (auto simp: valid_def ir_ok_def buf_ok_def ref_codes)
  then have k: "\<not> kop ?op" using ok by (auto simp: ir_ok_def ir_placed_def)
  have c: "chain_refs J op = (if op = ?op then n # chain_refs (pop_ins J) op else chain_refs (pop_ins J) op)" for op
    using n' k by (auto simp: chain_refs_def)
  have l: "linked J ref rs = linked (pop_ins J) ref rs" for ref rs by (rule linked_cong) simp
  have "linked (pop_ins J) (unat (j_chain (pop_ins J) op)) (chain_refs (pop_ins J) op)" for op
  proof -
    have "linked J (unat (j_chain J op)) (chain_refs J op)" using ok by (simp add: ir_ok_def ir_chains_def)
    then show ?thesis by (cases "op = ?op") (auto simp: c l pop_ins_def n')
  qed
  moreover have "inj_on (\<lambda>r. kkey op (IR J r)) (set (chain_refs (pop_ins J) op))" if "kop op" for op
  proof -
    have "chain_refs (pop_ins J) op = chain_refs J op" using that k c [of op] by (cases "op = ?op") auto
    then show ?thesis using ok that by (simp add: ir_ok_def kuniq_def)
  qed
  ultimately show ?thesis using ok n'
    by (auto simp: ir_ok_def ir_chains_def kuniq_def buf_ok_def ir_placed_def valid_def)
qed

lemma rollback_pops: "rollback_loop J ref (j_nins J) = (if ref < j_nins J then rollback_loop (pop_ins J) ref (j_nins (pop_ins J)) else J)"
  by (cases "j_nins J") (auto simp: pop_ins_def Let_def)

lemma rollback_ok:
  assumes "ir_ok J" "REF_BIAS < ref" "ref \<le> j_nins J"
  shows "ir_ok (lj_ir_rollback J ref)" "j_nins (lj_ir_rollback J ref) = ref" "IR (lj_ir_rollback J ref) r = IR J r"
    "j_nk (lj_ir_rollback J ref) = j_nk J"
proof -
  have "ir_ok (rollback_loop J ref (j_nins J)) \<and> j_nins (rollback_loop J ref (j_nins J)) = ref \<and>
    IR (rollback_loop J ref (j_nins J)) r = IR J r \<and> j_nk (rollback_loop J ref (j_nins J)) = j_nk J"
    using assms
  proof (induction "j_nins J - ref" arbitrary: J)
    case 0
    then show ?case by (subst (1 2 3 4) rollback_pops) simp
  next
    case (Suc n)
    have less: "ref < j_nins J" using Suc(2) by linarith
    then have "ir_ok (pop_ins J)" using Suc by (intro pop_ins_ok) auto
    moreover have "n = j_nins (pop_ins J) - ref" "ref \<le> j_nins (pop_ins J)" using Suc(2) less by auto
    ultimately show ?case using Suc(1) [of "pop_ins J"] Suc.prems less by (subst (1 2 3 4) rollback_pops) simp
  qed
  then show "ir_ok (lj_ir_rollback J ref)" "j_nins (lj_ir_rollback J ref) = ref" "IR (lj_ir_rollback J ref) r = IR J r"
    "j_nk (lj_ir_rollback J ref) = j_nk J"
    by (simp_all add: lj_ir_rollback_def)
qed

text \<open>The heads of the chains are determined by the instructions.\<close>

lemma chain_head: "ir_ok J \<Longrightarrow> unat (j_chain J op) = (case chain_refs J op of [] \<Rightarrow> 0 | r # _ \<Rightarrow> r)"
  by (cases "chain_refs J op") (auto simp: ir_ok_def ir_chains_def dest!: spec [of _ op])

lemma chain_determined:
  assumes "ir_ok J" "ir_ok J'" "chain_refs J' op = chain_refs J op"
  shows "j_chain J' op = j_chain J op"
  using chain_head [OF assms(1), of op] chain_head [OF assms(2), of op] assms(3) by (simp add: word_unat_eq_iff)

section \<open>Properties\<close>

text \<open>Emit a list of instructions.\<close>

fun emit_all :: "jenv \<Rightarrow> IRIns list \<Rightarrow> jit_State \<Rightarrow> (unit, jit_State) res" where
  "emit_all e [] J = Some (Inr (), J)"
| "emit_all e (i # is) J = rbind (lj_ir_emit e (J\<lparr>fold_ins := i\<rparr>)) (\<lambda>J ref. emit_all e is J)"

text \<open>Intern a list of integers.\<close>

fun kint_all :: "jenv \<Rightarrow> u32 list \<Rightarrow> jit_State \<Rightarrow> (nat list, jit_State) res" where
  "kint_all e [] J = Some (Inr [], J)"
| "kint_all e (k # ks) J = rbind (lj_ir_kint e J k) (\<lambda>J r. rbind (kint_all e ks J) (\<lambda>J rs. Some (Inr (r # rs), J)))"

lemma ir_ok_fold_ins [simp]: "ir_ok (J\<lparr>fold_ins := i\<rparr>) = ir_ok J" "extends (J\<lparr>fold_ins := i\<rparr>) J' = extends J J'"
proof -
  let ?J = "J\<lparr>fold_ins := i\<rparr>"
  have eq: "IR ?J = IR J" "chain_refs ?J = chain_refs J" "valid ?J = valid J" "kdata ?J = kdata J"
    by (simp_all add: IR_def fun_eq_iff chain_refs_def valid_def kdata_def)
  have "linked ?J r rs = linked J r rs" for r rs by (rule linked_cong) (simp add: eq)
  then show "ir_ok ?J = ir_ok J" "extends ?J J' = extends J J'"
    by (simp_all add: ir_ok_def buf_ok_def ir_chains_def ir_placed_def kuniq_def eq extends_def)
qed

lemma emit_all_ok:
  assumes "ir_ok J" "ref_room J (length is)" "\<forall>i\<in>set is. ins_op (ir_o i)"
  shows "(\<exists>J'. emit_all e is J = Some (Inl LJ_ERR_ERRMEM, J')) \<or>
    (\<exists>J'. emit_all e is J = Some (Inr (), J') \<and> ir_ok J' \<and> extends J J' \<and> j_nk J' = j_nk J)"
  using assms
proof (induction "is" arbitrary: J)
  case (Cons i "is")
  let ?J = "J\<lparr>fold_ins := i\<rparr>"
  have r: "ref_room ?J 1" using Cons.prems by (simp add: ref_room_def)
  show ?case
  proof (cases "\<exists>J'. lj_ir_emit e ?J = Some (Inl LJ_ERR_ERRMEM, J')")
    case False
    then obtain J1 where J1: "lj_ir_emit e ?J = Some (Inr (j_nins J), J1)" "ir_ok J1" "extends J J1" "j_nk J1 = j_nk J" "j_nins J1 = Suc (j_nins J)"
      using emit_ok [of ?J e] r Cons.prems by auto
    have "ref_room J1 (length is)" using Cons.prems J1 by (simp add: ref_room_def)
    with Cons.IH [of J1] J1 Cons.prems show ?thesis using extends_trans [OF J1(3)] by (auto simp: rbind_def)
  qed (auto simp: rbind_def)
qed auto

lemma kint_all_ok:
  assumes "ir_ok J" "ir_room J (length ks)"
  shows "(\<exists>J'. kint_all e ks J = Some (Inl LJ_ERR_ERRMEM, J')) \<or>
    (\<exists>rs J'. kint_all e ks J = Some (Inr rs, J') \<and> ir_ok J' \<and> extends J J' \<and> length rs = length ks \<and>
       (\<forall>i<length ks. valid J' (rs ! i) \<and> ir_o (IR J' (rs ! i)) = IR_KINT \<and> ir_i (IR J' (rs ! i)) = ks ! i))"
  using assms
proof (induction ks arbitrary: J)
  case (Cons k ks)
  have "ir_room J 1" using Cons.prems by (auto elim: ir_room_less)
  note K = kint_ok [OF Cons.prems(1) this, of e k]
  show ?case
  proof (cases "\<exists>J'. lj_ir_kint e J k = Some (Inl LJ_ERR_ERRMEM, J')")
    case False
    then obtain r J1 where J1: "lj_ir_kint e J k = Some (Inr r, J1)" "ir_ok J1" "extends J J1" "valid J1 r" "ir_o (IR J1 r) = IR_KINT" "ir_i (IR J1 r) = k"
      and c: "j_nins J1 = j_nins J" "j_nk J \<le> Suc (j_nk J1)" "length (concat (j_k64 J1)) \<le> Suc (length (concat (j_k64 J)))"
      using K by (auto simp: interned_def)
    have room: "ir_room J1 (length ks)" using Cons.prems c by (auto simp: ir_room_def ref_room_def)
    show ?thesis
    proof (cases "\<exists>J'. kint_all e ks J1 = Some (Inl LJ_ERR_ERRMEM, J')")
      case False
      then obtain rs J2 where J2: "kint_all e ks J1 = Some (Inr rs, J2)" "ir_ok J2" "extends J1 J2" "length rs = length ks"
        "\<forall>i<length ks. valid J2 (rs ! i) \<and> ir_o (IR J2 (rs ! i)) = IR_KINT \<and> ir_i (IR J2 (rs ! i)) = ks ! i"
        using Cons.IH [OF J1(2) room] by auto
      then show ?thesis using J1 extends_valid [OF J2(3) J1(4)] extends_trans [OF J1(3) J2(3)]
        by (auto simp: rbind_def nth_Cons split: nat.splits)
    qed (auto simp: rbind_def J1)
  qed (auto simp: rbind_def)
qed auto

text \<open>A trace that has just been set up: the primitives and the base.\<close>

definition jenv0 :: jenv where
  "jenv0 = \<lparr>je_alloc = (\<lambda>n. True), je_junk = \<lparr>ir_op12 = 7, ir_t = 7, ir_o = 7, ir_prev = 7\<rparr>\<rparr>"

definition kpri0 :: "u8 \<Rightarrow> IRIns" where "kpri0 t = \<lparr>ir_op12 = 0, ir_t = t, ir_o = IR_KPRI, ir_prev = 0\<rparr>"

definition J0 :: jit_State where
  "J0 = \<lparr>irbuf = replicate 5 (je_junk jenv0) @ [kpri0 IRT_TRUE, kpri0 IRT_FALSE, kpri0 IRT_NIL,
       \<lparr>ir_op12 = 0, ir_t = IRT_P32, ir_o = IR_BASE, ir_prev = 0\<rparr>] @ replicate 23 (je_junk jenv0),
     irbotlim = 32760, irtoplim = 32792, j_nins = 32769, j_nk = 32765, j_chain = (\<lambda>op. 0)(IR_BASE := 0x8000), j_k64 = [],
     j_flags = 0, guardemit = 0, fold_ins = kpri0 0, fold_left = kpri0 0, fold_right = kpri0 0\<rparr>"

lemma J0_IR: "IR J0 32765 = kpri0 IRT_TRUE" "IR J0 32766 = kpri0 IRT_FALSE" "IR J0 32767 = kpri0 IRT_NIL"
  "IR J0 32768 = \<lparr>ir_op12 = 0, ir_t = IRT_P32, ir_o = IR_BASE, ir_prev = 0\<rparr>"
  by (simp_all add: IR_def J0_def nth_append nth_Cons')

lemma J0_room: "ir_room J0 100" by (simp add: ir_room_def ref_room_def J0_def)

lemma J0_ok: "ir_ok J0"
proof -
  have v: "valid J0 r \<Longrightarrow> r = 32765 \<or> r = 32766 \<or> r = 32767 \<or> r = 32768" for r by (auto simp: valid_def J0_def)
  have c: "chain_refs J0 op = (if op = IR_BASE then [32768] else [])" for op
    using J0_IR by (simp add: chain_refs_def ref_codes J0_def [of] kop_def ir_codes)
  have "buf_ok J0" by (simp add: buf_ok_def J0_def ref_codes)
  moreover have "ir_chains J0" using J0_IR by (simp add: ir_chains_def c) (simp add: J0_def)
  moreover have "ir_placed J0" using J0_IR by (auto simp: ir_placed_def ref_codes kpri0_def kop_def ir_codes dest!: v)
  moreover have "kuniq J0" by (auto simp: kuniq_def c inj_on_def) (auto simp: J0_def)
  ultimately show ?thesis by (simp add: ir_ok_def)
qed

text \<open>
  C16: Interning any sequence of integers, in a trace in any consistent state
  with room for them, runs out of memory or returns one reference for each of them, in a consistent
  state that keeps every earlier instruction, such that each reference is a KINT with the integer
  and two references are equal exactly when the integers are.
\<close>

theorem kint_history:
  assumes "ir_ok J" "ir_room J (length ks)"
  shows "(\<exists>J'. kint_all e ks J = Some (Inl LJ_ERR_ERRMEM, J')) \<or>
    (\<exists>rs J'. kint_all e ks J = Some (Inr rs, J') \<and> ir_ok J' \<and> extends J J' \<and> length rs = length ks \<and>
       (\<forall>i<length ks. ir_o (IR J' (rs ! i)) = IR_KINT \<and> ir_i (IR J' (rs ! i)) = ks ! i) \<and>
       (\<forall>i<length ks. \<forall>j<length ks. rs ! i = rs ! j \<longleftrightarrow> ks ! i = ks ! j))"
proof (cases "\<exists>J'. kint_all e ks J = Some (Inl LJ_ERR_ERRMEM, J')")
  case False
  then obtain rs J' where J': "kint_all e ks J = Some (Inr rs, J')" "ir_ok J'" "extends J J'" "length rs = length ks"
    and r: "\<forall>i<length ks. valid J' (rs ! i) \<and> ir_o (IR J' (rs ! i)) = IR_KINT \<and> ir_i (IR J' (rs ! i)) = ks ! i"
    using kint_all_ok [OF assms, of e] by auto
  have "rs ! i = rs ! j \<longleftrightarrow> ks ! i = ks ! j" if "i < length ks" "j < length ks" for i j
  proof
    show "ks ! i = ks ! j" if "rs ! i = rs ! j" using r that \<open>i < length ks\<close> \<open>j < length ks\<close> by metis
    show "rs ! i = rs ! j" if "ks ! i = ks ! j"
      by (rule const_unique [OF J'(2)])
        (use r that \<open>i < length ks\<close> \<open>j < length ks\<close> in \<open>auto simp: kop_def kkey_def ir_i_def ir_codes\<close>)
  qed
  with J' r show ?thesis by blast
qed auto

theorem kint_history_witness:
  "(\<exists>J'. kint_all jenv0 [5, 7, 5] J0 = Some (Inl LJ_ERR_ERRMEM, J')) \<or>
    (\<exists>rs J'. kint_all jenv0 [5, 7, 5] J0 = Some (Inr rs, J') \<and> rs ! 0 = rs ! 2 \<and> rs ! 0 \<noteq> rs ! 1)"
proof -
  have "ir_room J0 (length [5, 7, 5 :: u32])" by (rule ir_room_less [OF J0_room]) simp
  note H = kint_history [OF J0_ok this, of jenv0]
  show ?thesis
  proof (cases "\<exists>J'. kint_all jenv0 [5, 7, 5] J0 = Some (Inl LJ_ERR_ERRMEM, J')")
    case False
    then obtain rs J' where r: "kint_all jenv0 [5, 7, 5] J0 = Some (Inr rs, J')"
      "\<forall>i<length [5, 7, 5 :: u32]. \<forall>j<length [5, 7, 5 :: u32]. rs ! i = rs ! j \<longleftrightarrow> [5, 7, 5 :: u32] ! i = [5, 7, 5] ! j"
      using H by blast
    have "rs ! 0 = rs ! 2" "rs ! 0 \<noteq> rs ! 1" using r(2) by simp_all
    then show ?thesis using r(1) by blast
  qed auto
qed

text \<open>
  C17: Emitting any instructions and rolling back to the reference before
  them restores the trace: the same instructions and constants, every chain as it was, in a
  consistent state. Emission runs out of memory or succeeds, and grows the buffer as needed.
\<close>

theorem emit_rollback:
  assumes "ir_ok J" "ref_room J (length is)" "\<forall>i\<in>set is. ins_op (ir_o i)"
  shows "(\<exists>J'. emit_all e is J = Some (Inl LJ_ERR_ERRMEM, J')) \<or>
    (\<exists>J'. emit_all e is J = Some (Inr (), J') \<and> ir_ok J' \<and> ir_ok (lj_ir_rollback J' (j_nins J)) \<and>
       j_nins (lj_ir_rollback J' (j_nins J)) = j_nins J \<and> j_nk (lj_ir_rollback J' (j_nins J)) = j_nk J \<and>
       j_chain (lj_ir_rollback J' (j_nins J)) = j_chain J \<and>
       (\<forall>r. valid J r \<longrightarrow> IR (lj_ir_rollback J' (j_nins J)) r = IR J r))"
proof (cases "\<exists>J'. emit_all e is J = Some (Inl LJ_ERR_ERRMEM, J')")
  case False
  then obtain J' where J': "emit_all e is J = Some (Inr (), J')" "ir_ok J'" "extends J J'" "j_nk J' = j_nk J"
    using emit_all_ok [OF assms, of e] by auto
  let ?J = "lj_ir_rollback J' (j_nins J)"
  have n: "REF_BIAS < j_nins J" "j_nins J \<le> j_nins J'" using assms(1) J'(3) by (auto simp: ir_ok_def buf_ok_def extends_def)
  note R = rollback_ok [OF J'(2) n]
  have same: "IR ?J r = IR J r" if "valid J r" for r using R(3) extends_valid [OF J'(3) that] by simp
  have v: "valid J r" if "r \<in> set [j_nk J..<REF_TRUE] \<or> r \<in> set [REF_BIAS..<j_nins J]" for r
    using that assms(1) by (auto simp: valid_def ir_ok_def buf_ok_def ref_codes)
  have "chain_refs ?J op = chain_refs J op" for op
    using same v R J'(4) by (auto simp: chain_refs_def intro!: filter_cong)
  then have "j_chain ?J = j_chain J" using chain_determined [OF assms(1) R(1)] by (simp add: fun_eq_iff)
  then show ?thesis using J' R same by auto
qed auto

theorem emit_rollback_witness:
  "(\<exists>J'. emit_all jenv0 [\<lparr>ir_op12 = 0x80008000, ir_t = IRT_INT, ir_o = IR_ADD, ir_prev = 0\<rparr>] J0 = Some (Inl LJ_ERR_ERRMEM, J')) \<or>
    (\<exists>J'. emit_all jenv0 [\<lparr>ir_op12 = 0x80008000, ir_t = IRT_INT, ir_o = IR_ADD, ir_prev = 0\<rparr>] J0 = Some (Inr (), J') \<and>
       j_chain (lj_ir_rollback J' (j_nins J0)) = j_chain J0)"
  using emit_rollback [OF J0_ok, of "[\<lparr>ir_op12 = 0x80008000, ir_t = IRT_INT, ir_o = IR_ADD, ir_prev = 0\<rparr>]" jenv0]
    ir_room_ref [OF ir_room_less [OF J0_room, of 1]] by (auto simp: ins_op_def kop_def ir_codes)

end
