(* ===== verification/LJ_FoldSem.thy ===== *)
theory LJ_FoldSem
  imports LJ_Fold LJ_IRProps
begin

text \<open>
  What an integer instruction means, independently of how it is folded: the value it computes or the
  condition it guards, under an assignment of values to references. An assignment is a model of a
  trace if every constant and every integer instruction has the value it computes; a 32 bit value is
  held sign-extended. On top of it, when a fold function is sound: it keeps the trace, and what it
  returns means the same in every model.
\<close>

section \<open>Meaning of instructions\<close>

datatype meaning = Val u64 | Cond bool

definition alu :: "('a::len word \<Rightarrow> 'a word) \<Rightarrow> u8 \<Rightarrow> 'a word \<Rightarrow> 'a word \<Rightarrow> 'a word option" where
  "alu bsw op a b =
     (let n = unat b mod LENGTH('a) in
      if op = IR_ADD then Some (a + b)
      else if op = IR_SUB then Some (a - b)
      else if op = IR_MUL then Some (a * b)
      else if op = IR_MOD then if b = 0 then None else Some (word_of_int (sint a mod sint b))
      else if op = IR_NEG then Some (- a)
      else if op = IR_BNOT then Some (NOT a)
      else if op = IR_BSWAP then Some (bsw a)
      else if op = IR_BAND then Some (a AND b)
      else if op = IR_BOR then Some (a OR b)
      else if op = IR_BXOR then Some (a XOR b)
      else if op = IR_BSHL then Some (push_bit n a)
      else if op = IR_BSHR then Some (drop_bit n a)
      else if op = IR_BSAR then Some (signed_drop_bit n a)
      else if op = IR_BROL then Some (word_rotl n a)
      else if op = IR_BROR then Some (word_rotr n a)
      else if op = IR_MIN then Some (if sint a \<le> sint b then a else b)
      else if op = IR_MAX then Some (if sint a \<ge> sint b then a else b)
      else None)"

definition cmp :: "u8 \<Rightarrow> 'a::len word \<Rightarrow> 'a word \<Rightarrow> bool option" where
  "cmp op a b =
     (if op = IR_LT then Some (sint a < sint b)
      else if op = IR_GE then Some (sint a \<ge> sint b)
      else if op = IR_LE then Some (sint a \<le> sint b)
      else if op = IR_GT then Some (sint a > sint b)
      else if op = IR_ULT then Some (a < b)
      else if op = IR_UGE then Some (a \<ge> b)
      else if op = IR_ULE then Some (a \<le> b)
      else if op = IR_UGT then Some (a > b)
      else if op = IR_EQ then Some (a = b)
      else if op = IR_NE then Some (a \<noteq> b)
      else None)"

definition sem32 :: "u8 \<Rightarrow> u32 \<Rightarrow> u32 \<Rightarrow> meaning option" where
  "sem32 op a b = (case alu lj_bswap op a b of Some x \<Rightarrow> Some (Val (scast x)) | None \<Rightarrow> map_option Cond (cmp op a b))"

definition sem64 :: "u8 \<Rightarrow> u64 \<Rightarrow> u64 \<Rightarrow> meaning option" where
  "sem64 op a b = (case alu lj_bswap64 op a b of Some x \<Rightarrow> Some (Val x) | None \<Rightarrow> map_option Cond (cmp op a b))"

definition isem :: "(nat \<Rightarrow> u64) \<Rightarrow> IRIns \<Rightarrow> meaning option" where
  "isem v ir =
     (let a = v (unat (ir_op1 ir)); b = v (unat (ir_op2 ir)) in
      if irt_is64 (ir_t ir) then sem64 (ir_o ir) a b else sem32 (ir_o ir) (ucast a) (ucast b))"

section \<open>Well-typed traces\<close>

definition shift_op :: "u8 \<Rightarrow> bool" where "shift_op op \<longleftrightarrow> IR_BSHL \<le> op \<and> op \<le> IR_BROR"
definition unary_op :: "u8 \<Rightarrow> bool" where "unary_op op \<longleftrightarrow> op = IR_BNOT \<or> op = IR_BSWAP"
definition binary_op :: "u8 \<Rightarrow> bool" where
  "binary_op op \<longleftrightarrow> op \<in> {IR_ADD, IR_SUB, IR_MUL, IR_MOD, IR_NEG, IR_BAND, IR_BOR, IR_BXOR, IR_MIN, IR_MAX} \<or> op \<le> IR_NE"

lemmas op_kinds = shift_op_def unary_op_def binary_op_def

lemma unary_not_binary [simp]: "unary_op op \<Longrightarrow> \<not> binary_op op"
  by (auto simp: op_kinds ir_codes)

lemma kop_not_int: "kop op \<Longrightarrow> \<not> shift_op op \<and> \<not> unary_op op \<and> \<not> binary_op op"
  by (auto simp: op_kinds kop_def ir_codes word_le_nat_alt word_less_nat_alt)

text \<open>The integer instructions that have a meaning here.\<close>

definition int_ins :: "IRIns \<Rightarrow> bool" where
  "int_ins ir \<longleftrightarrow> \<not> irt_isfp (ir_t ir) \<and> (shift_op (ir_o ir) \<or> unary_op (ir_o ir) \<or> binary_op (ir_o ir))"

text \<open>
  The instructions for which folding is shown sound. A 64 bit subtraction is left out: cancellation
  may turn it into a subtraction from the 32 bit zero.
\<close>

definition foldable :: "IRIns \<Rightarrow> bool" where
  "foldable ir \<longleftrightarrow> int_ins ir \<and> (ir_o ir = IR_SUB \<longrightarrow> \<not> irt_is64 (ir_t ir))"

definition is64 :: "jit_State \<Rightarrow> u16 \<Rightarrow> bool" where "is64 J r \<longleftrightarrow> irt_is64 (ir_t (IR J (unat r)))"

text \<open>
  The operands are not floating-point and have the width of the instruction; a shift count has any
  width, and the second operand of a unary instruction is 0.
\<close>

definition wt :: "jit_State \<Rightarrow> IRIns \<Rightarrow> bool" where
  "wt J ir \<longleftrightarrow> valid J (unat (ir_op1 ir)) \<and> (\<not> unary_op (ir_o ir) \<longrightarrow> valid J (unat (ir_op2 ir))) \<and>
     is64 J (ir_op1 ir) = irt_is64 (ir_t ir) \<and>
     (binary_op (ir_o ir) \<longrightarrow> is64 J (ir_op2 ir) = irt_is64 (ir_t ir)) \<and>
     (unary_op (ir_o ir) \<longrightarrow> ir_op2 ir = 0) \<and> (ir_o ir = IR_MOD \<longrightarrow> \<not> irt_is64 (ir_t ir)) \<and> \<not> irt_isfp (ir_t (IR J (unat (ir_op1 ir)))) \<and>
     (\<not> unary_op (ir_o ir) \<longrightarrow> \<not> irt_isfp (ir_t (IR J (unat (ir_op2 ir)))))"

text \<open>
  Every opcode is below the wildcard of the rule keys; integer instructions are well-typed and come
  after their operands; floating-point instructions have floating-point operands.
\<close>

definition trace_ok :: "jit_State \<Rightarrow> bool" where
  "trace_ok J \<longleftrightarrow> ir_ok J \<and> (\<forall>r. valid J r \<longrightarrow> ir_o (IR J r) < 0x7f \<and>
     (int_ins (IR J r) \<longrightarrow> wt J (IR J r) \<and> unat (ir_op1 (IR J r)) < r \<and> unat (ir_op2 (IR J r)) < r) \<and>
     (irt_isfp (ir_t (IR J r)) \<longrightarrow> shift_op (ir_o (IR J r)) \<or> unary_op (ir_o (IR J r)) \<or> binary_op (ir_o (IR J r)) \<longrightarrow>
        valid J (unat (ir_op1 (IR J r))) \<and> irt_isfp (ir_t (IR J (unat (ir_op1 (IR J r)))))))"

section \<open>Models\<close>

definition ext32 :: "u64 \<Rightarrow> bool" where "ext32 x \<longleftrightarrow> x = scast (ucast x :: u32)"

definition models :: "jit_State \<Rightarrow> (nat \<Rightarrow> u64) \<Rightarrow> bool" where
  "models J v \<longleftrightarrow> (\<forall>r. valid J r \<longrightarrow>
     (\<not> irt_is64 (ir_t (IR J r)) \<longrightarrow> ext32 (v r)) \<and>
     (ir_o (IR J r) = IR_KINT \<longrightarrow> v r = scast (ir_i (IR J r))) \<and>
     (ir_o (IR J r) = IR_KINT64 \<longrightarrow> v r = ir_k64 J (IR J r)) \<and>
     (int_ins (IR J r) \<longrightarrow> (\<forall>x. isem v (IR J r) = Some (Val x) \<longrightarrow> v r = x)))"

lemma ucast_scast32 [simp]: "(ucast (scast (x :: u32) :: u64) :: u32) = x"
proof (rule bit_word_eqI)
  fix n assume "n < LENGTH(32)"
  then have "n < 31 \<or> n = 31" by auto
  then show "bit (ucast (scast x :: u64) :: u32) n = bit x n" by (auto simp: bit_simps min_def)
qed

lemma scast_inj32 [simp]: "(scast (x :: u32) :: u64) = scast y \<longleftrightarrow> x = y"
  by (metis ucast_scast32)

lemma ext32_scast [simp]: "ext32 (scast (x :: u32))" by (simp add: ext32_def)

lemma ext32_eq: "ext32 x \<Longrightarrow> ext32 y \<Longrightarrow> x = y \<longleftrightarrow> (ucast x :: u32) = ucast y"
  by (metis ext32_def)

lemma scast_eq_ext: "ext32 x \<Longrightarrow> (scast (y :: u32) = x) = (y = ucast x)"
  by (metis ext32_def ucast_scast32)

lemma ir_k64_extends:
  assumes "ir_ok J" "extends J J'" "valid J r" "ir_o (IR J r) = IR_KINT64"
  shows "ir_k64 J' (IR J' r) = ir_k64 J (IR J r)"
proof -
  have "kdata J (IR J r)" using const_in_chain (3) [OF assms(1,3)] assms(4) by (simp add: kop_def ir_codes)
  then show ?thesis using assms extends_valid [OF assms(2,3)] by (auto simp: kdata_def ir_k64_def extends_def nth_append)
qed

lemma models_antimono:
  assumes "models J' v" "ir_ok J" "extends J J'"
  shows "models J v"
  unfolding models_def
proof (intro allI impI)
  fix r assume r: "valid J r"
  note E = extends_valid [OF assms(3) r] and K = ir_k64_extends [OF assms(2,3) r]
  from E assms(1) K show "(\<not> irt_is64 (ir_t (IR J r)) \<longrightarrow> ext32 (v r)) \<and>
     (ir_o (IR J r) = IR_KINT \<longrightarrow> v r = scast (ir_i (IR J r))) \<and>
     (ir_o (IR J r) = IR_KINT64 \<longrightarrow> v r = ir_k64 J (IR J r)) \<and>
     (int_ins (IR J r) \<longrightarrow> (\<forall>x. isem v (IR J r) = Some (Val x) \<longrightarrow> v r = x))"
    by (auto simp: models_def dest!: spec [of _ r])
qed

lemma wt_extends: "extends J J' \<Longrightarrow> wt J ir \<Longrightarrow> wt J' ir"
  by (auto simp: wt_def is64_def dest: extends_valid)

text \<open>New constants keep a trace well-typed.\<close>

lemma trace_ok_const:
  assumes "trace_ok J" "ir_ok J'" "extends J J'" "j_nins J' = j_nins J"
  shows "trace_ok J'"
proof -
  have "ir_o (IR J' r) < 0x7f \<and> (int_ins (IR J' r) \<longrightarrow> wt J' (IR J' r) \<and> unat (ir_op1 (IR J' r)) < r \<and> unat (ir_op2 (IR J' r)) < r) \<and>
     (irt_isfp (ir_t (IR J' r)) \<longrightarrow> shift_op (ir_o (IR J' r)) \<or> unary_op (ir_o (IR J' r)) \<or> binary_op (ir_o (IR J' r)) \<longrightarrow>
        valid J' (unat (ir_op1 (IR J' r))) \<and> irt_isfp (ir_t (IR J' (unat (ir_op1 (IR J' r))))))" if "valid J' r" for r
  proof (cases "valid J r")
    case True
    then have e: "IR J' r = IR J r" using extends_valid [OF assms(3) True] by simp
    show ?thesis unfolding e using True assms(1) extends_valid [OF assms(3), of "unat (ir_op1 (IR J r))"] wt_extends [OF assms(3)]
      by (auto simp: trace_ok_def)
  next
    case False
    have "buf_ok J" using assms by (simp add: trace_ok_def ir_ok_def)
    then have "r < REF_TRUE" using that False assms by (auto simp: valid_def buf_ok_def)
    then have "kop (ir_o (IR J' r))" using assms that by (auto simp: ir_ok_def ir_placed_def)
    moreover from this have "ir_o (IR J' r) < 0x7f" by (auto simp: kop_def ir_codes word_le_nat_alt word_less_nat_alt)
    ultimately show ?thesis using kop_not_int by (auto simp: int_ins_def)
  qed
  then show ?thesis using assms by (simp add: trace_ok_def)
qed

section \<open>The measure of an instruction\<close>

text \<open>
  Every retry makes the instruction smaller: a simpler operation, operands further down, or operands
  in order.
\<close>

definition fold_rank :: "u8 \<Rightarrow> nat" where
  "fold_rank op = (if op = IR_MUL then 3 else if op \<in> {IR_SUB, IR_MOD, IR_BXOR, IR_BROR, IR_BSHL} then 2 else 1)"

definition ref_weight :: "u16 \<Rightarrow> nat" where "ref_weight r = Suc (unat r) - REF_BIAS"

definition fold_flag :: "jit_State \<Rightarrow> IRIns \<Rightarrow> nat" where
  "fold_flag J ir =
     (if shift_op (ir_o ir) then
        let irk = IR J (unat (ir_op2 ir)) in of_bool (ir_o irk = IR_KINT \<and> ir_i irk AND shift_mask (ir_t ir) \<noteq> ir_i irk)
      else of_bool (ir_op1 ir < ir_op2 ir))"

definition fold_mu :: "jit_State \<Rightarrow> IRIns \<Rightarrow> nat \<times> nat \<times> nat" where
  "fold_mu J ir = (fold_rank (ir_o ir), ref_weight (ir_op1 ir) + ref_weight (ir_op2 ir), fold_flag J ir)"

definition mu_less :: "((nat \<times> nat \<times> nat) \<times> (nat \<times> nat \<times> nat)) set" where
  "mu_less = less_than <*lex*> less_than <*lex*> less_than"

lemma wf_mu_less: "wf mu_less" by (simp add: mu_less_def wf_lex_prod)

lemma mu_rank: "fold_rank (ir_o ir') < fold_rank (ir_o ir) \<Longrightarrow> (fold_mu J' ir', fold_mu J ir) \<in> mu_less"
  by (simp add: mu_less_def fold_mu_def)

lemma mu_weight:
  "fold_rank (ir_o ir') = fold_rank (ir_o ir) \<Longrightarrow>
   ref_weight (ir_op1 ir') + ref_weight (ir_op2 ir') < ref_weight (ir_op1 ir) + ref_weight (ir_op2 ir) \<Longrightarrow>
   (fold_mu J' ir', fold_mu J ir) \<in> mu_less"
  by (simp add: mu_less_def fold_mu_def)

lemma mu_flag:
  "fold_rank (ir_o ir') = fold_rank (ir_o ir) \<Longrightarrow>
   ref_weight (ir_op1 ir') + ref_weight (ir_op2 ir') = ref_weight (ir_op1 ir) + ref_weight (ir_op2 ir) \<Longrightarrow>
   fold_flag J' ir' < fold_flag J ir \<Longrightarrow> (fold_mu J' ir', fold_mu J ir) \<in> mu_less"
  by (simp add: mu_less_def fold_mu_def)

lemma valid_op:
  assumes "ir_ok J" "valid J r"
  shows "r < REF_BIAS \<longleftrightarrow> kop (ir_o (IR J r)) \<or> ir_o (IR J r) = IR_KPRI"
proof -
  consider "r < REF_TRUE" | "REF_TRUE \<le> r \<and> r < REF_BIAS" | "REF_BIAS \<le> r" by linarith
  then show ?thesis using assms by cases (auto simp: ir_ok_def ir_placed_def ref_codes)
qed

lemma weight_const: "ir_ok J \<Longrightarrow> valid J (unat r) \<Longrightarrow> kop (ir_o (IR J (unat r))) \<Longrightarrow> ref_weight r = 0"
  by (simp add: ref_weight_def Suc_le_eq valid_op)

lemma int_ins_above: "ir_ok J \<Longrightarrow> valid J r \<Longrightarrow> int_ins (IR J r) \<Longrightarrow> REF_BIAS \<le> r"
  using valid_op [of J r] kop_not_int [of "ir_o (IR J r)"] by (auto simp: int_ins_def op_kinds ir_codes)

lemma weight_less:
  assumes "trace_ok J" "valid J (unat r)" "int_ins (IR J (unat r))"
  shows "ref_weight (ir_op1 (IR J (unat r))) < ref_weight r" "ref_weight (ir_op2 (IR J (unat r))) < ref_weight r"
  using assms int_ins_above [of J "unat r"] by (auto simp: trace_ok_def ref_weight_def ref_codes)

section \<open>Soundness of fold functions\<close>

text \<open>The instruction to fold with its operands selected.\<close>

definition prepared :: "jit_State \<Rightarrow> bool" where
  "prepared J \<longleftrightarrow> trace_ok J \<and> ir_room J 1 \<and> foldable (fold_ins J) \<and> wt J (fold_ins J) \<and>
     fold_left J = IR J (unat (ir_op1 (fold_ins J))) \<and>
     (\<not> unary_op (ir_o (fold_ins J)) \<longrightarrow> fold_right J = IR J (unat (ir_op2 (fold_ins J))))"

text \<open>In every model of the trace, the instruction has no meaning but this one.\<close>

definition means :: "jit_State \<Rightarrow> IRIns \<Rightarrow> ((nat \<Rightarrow> u64) \<Rightarrow> meaning) \<Rightarrow> bool" where
  "means J ir f \<longleftrightarrow> (\<forall>v m. models J v \<longrightarrow> isem v ir = Some m \<longrightarrow> m = f v)"

definition retry_ok :: "jit_State \<Rightarrow> IRIns \<Rightarrow> jit_State \<Rightarrow> IRIns \<Rightarrow> bool" where
  "retry_ok J ir J' ir' \<longleftrightarrow> foldable ir' \<and> wt J' ir' \<and> ir_t ir' = ir_t ir \<and> (fold_mu J' ir', fold_mu J ir) \<in> mu_less \<and>
     (\<forall>v m. models J' v \<longrightarrow> isem v ir = Some m \<longrightarrow> isem v ir' = Some m)"

definition ref_ok :: "jit_State \<Rightarrow> IRIns \<Rightarrow> nat \<Rightarrow> bool" where
  "ref_ok J' ir r \<longleftrightarrow> valid J' r \<and> irt_is64 (ir_t (IR J' r)) = irt_is64 (ir_t ir) \<and> means J' ir (\<lambda>v. Val (v r))"

definition fold_post :: "jit_State \<Rightarrow> nat \<Rightarrow> jit_State \<Rightarrow> bool" where
  "fold_post J x J' \<longleftrightarrow> trace_ok J' \<and> extends J J' \<and> j_nins J' = j_nins J \<and> j_nk J \<le> Suc (j_nk J') \<and>
     length (concat (j_k64 J')) \<le> Suc (length (concat (j_k64 J))) \<and>
     (x = NEXTFOLD \<longrightarrow> J' = J) \<and>
     (x = RETRYFOLD \<longrightarrow> retry_ok J (fold_ins J) J' (fold_ins J')) \<and>
     (x = KINTFOLD \<longrightarrow> \<not> irt_is64 (ir_t (fold_ins J)) \<and> means J' (fold_ins J) (\<lambda>v. Val (scast (ir_i (fold_ins J'))))) \<and>
     (x = FAILFOLD \<longrightarrow> means J' (fold_ins J) (\<lambda>v. Cond False)) \<and>
     (x = DROPFOLD \<longrightarrow> means J' (fold_ins J) (\<lambda>v. Cond True)) \<and>
     (MAX_FOLD \<le> x \<longrightarrow> ref_ok J' (fold_ins J) x)"

text \<open>A sound result: out of memory, or a value that the post-condition allows.\<close>

definition sound :: "jit_State \<Rightarrow> (nat, jit_State) res \<Rightarrow> bool" where
  "sound J res \<longleftrightarrow> (\<exists>J'. res = Some (Inl LJ_ERR_ERRMEM, J')) \<or> (\<exists>x J'. res = Some (Inr x, J') \<and> fold_post J x J')"

text \<open>Everything about the trace depends on the fields of the trace only.\<close>

lemma trace_cong:
  assumes "irbuf J' = irbuf J" "irbotlim J' = irbotlim J" "irtoplim J' = irtoplim J" "j_nins J' = j_nins J" "j_nk J' = j_nk J"
    "j_chain J' = j_chain J" "j_k64 J' = j_k64 J" "j_flags J' = j_flags J"
  shows "IR J' = IR J" "valid J' = valid J" "ir_ok J' = ir_ok J" "trace_ok J' = trace_ok J" "models J' = models J" "wt J' = wt J"
    "ir_k64 J' = ir_k64 J" "extends J' = extends J" "extends J1 J' = extends J1 J" "ir_room J' = ir_room J" "fold_mu J' = fold_mu J"
proof -
  have eq: "IR J' = IR J" "valid J' = valid J" "ir_k64 J' = ir_k64 J" "kdata J' = kdata J" "ir_room J' = ir_room J" "is64 J' = is64 J"
    using assms by (simp_all add: IR_def fun_eq_iff valid_def ir_k64_def kdata_def ir_room_def ref_room_def is64_def)
  have c: "chain_refs J' = chain_refs J" using assms by (simp add: fun_eq_iff chain_refs_def eq)
  have "linked J' r rs = linked J r rs" for r rs by (rule linked_cong) (simp add: eq)
  then show ok: "ir_ok J' = ir_ok J" using assms by (simp add: ir_ok_def buf_ok_def ir_chains_def ir_placed_def kuniq_def eq c)
  show w: "wt J' = wt J" by (simp add: fun_eq_iff wt_def eq)
  show "trace_ok J' = trace_ok J" by (simp add: trace_ok_def ok w eq)
  show "models J' = models J" by (simp add: fun_eq_iff models_def eq)
  show "extends J' = extends J" "extends J1 J' = extends J1 J" using assms by (simp_all add: fun_eq_iff extends_def eq)
  show "fold_mu J' = fold_mu J" by (simp add: fun_eq_iff fold_mu_def fold_flag_def eq)
qed (use assms in \<open>simp_all add: IR_def fun_eq_iff valid_def ir_k64_def ir_room_def ref_room_def\<close>)

lemma upd_fins_fields [simp]:
  "irbuf (upd_fins f J) = irbuf J" "irbotlim (upd_fins f J) = irbotlim J" "irtoplim (upd_fins f J) = irtoplim J" "j_nins (upd_fins f J) = j_nins J"
  "j_nk (upd_fins f J) = j_nk J" "j_chain (upd_fins f J) = j_chain J" "j_k64 (upd_fins f J) = j_k64 J" "j_flags (upd_fins f J) = j_flags J"
  "fold_left (upd_fins f J) = fold_left J" "fold_right (upd_fins f J) = fold_right J" "fold_ins (upd_fins f J) = f (fold_ins J)"
  by (simp_all add: upd_fins_def)

lemmas upd_fins_trace [simp] = trace_cong [of "upd_fins f J" J for f J, simplified]

lemma preparedD:
  assumes "prepared J"
  shows "trace_ok J" "ir_ok J" "ir_room J 1" "int_ins (fold_ins J)" "wt J (fold_ins J)" "valid J (unat (ir_op1 (fold_ins J)))"
    "fold_left J = IR J (unat (ir_op1 (fold_ins J)))" "ir_o (fold_ins J) = IR_SUB \<Longrightarrow> \<not> irt_is64 (ir_t (fold_ins J))"
  using assms by (auto simp: prepared_def trace_ok_def wt_def foldable_def)

lemma prepared_right:
  assumes "prepared J" "\<not> unary_op (ir_o (fold_ins J))"
  shows "valid J (unat (ir_op2 (fold_ins J)))" "fold_right J = IR J (unat (ir_op2 (fold_ins J)))"
  using assms by (auto simp: prepared_def wt_def)

lemma valid_big: "ir_ok J \<Longrightarrow> valid J r \<Longrightarrow> MAX_FOLD \<le> r"
  by (auto simp: ir_ok_def buf_ok_def valid_def fold_codes)

lemma sound_next [simp]: "prepared J \<Longrightarrow> sound J (ret NEXTFOLD J)"
  by (auto simp: sound_def fold_post_def ret_def fold_codes prepared_def)

lemma sound_ref:
  assumes "prepared J" "ref_ok J (fold_ins J) r"
  shows "sound J (ret r J)"
  using assms preparedD [OF assms(1)] valid_big [of J r]
  by (auto simp: sound_def fold_post_def ret_def fold_codes ref_ok_def)

lemma sound_left:
  assumes "prepared J" "is64 J (ir_op1 (fold_ins J)) = irt_is64 (ir_t (fold_ins J))" "means J (fold_ins J) (\<lambda>v. Val (v (unat (ir_op1 (fold_ins J)))))"
  shows "sound J (LEFTFOLD J)"
  unfolding LEFTFOLD_def by (rule sound_ref) (use assms preparedD in \<open>auto simp: ref_ok_def is64_def\<close>)

lemma sound_right:
  assumes "prepared J" "binary_op (ir_o (fold_ins J))" "means J (fold_ins J) (\<lambda>v. Val (v (unat (ir_op2 (fold_ins J)))))"
  shows "sound J (RIGHTFOLD J)"
proof -
  have "\<not> unary_op (ir_o (fold_ins J))" using assms(2) unary_not_binary by blast
  then show ?thesis unfolding RIGHTFOLD_def
    by (intro sound_ref) (use assms preparedD [OF assms(1)] prepared_right [OF assms(1)] in \<open>auto simp: ref_ok_def is64_def wt_def\<close>)
qed

lemma sound_cond:
  assumes "prepared J" "means J (fold_ins J) (\<lambda>v. Cond c)"
  shows "sound J (CONDFOLD c J)"
  using assms preparedD [OF assms(1)]
  by (cases c) (auto simp: sound_def CONDFOLD_def fold_post_def ret_def fold_codes)

lemma sound_int:
  assumes "prepared J" "\<not> irt_is64 (ir_t (fold_ins J))" "means J (fold_ins J) (\<lambda>v. Val (scast k))"
  shows "sound J (INTFOLD k J)"
proof -
  have "means (upd_fins f J) ir g = means J ir g" for f ir g by (simp add: means_def)
  then show ?thesis using assms preparedD [OF assms(1)]
    by (auto simp: sound_def INTFOLD_def fold_post_def ret_def fold_codes ir_i_def)
qed

text \<open>The reference of a constant in an operand field.\<close>

lemma ref16: "ref_room J 0 \<Longrightarrow> valid J r \<Longrightarrow> unat (of_nat r :: u16) = r"
  by (intro unat_of_nat_small) (auto simp: ref_room_def valid_def)

lemma interned_room: "ir_room J 1 \<Longrightarrow> j_nins J' = j_nins J \<Longrightarrow> j_nk J \<le> Suc (j_nk J') \<Longrightarrow> ref_room J' 0"
  by (auto simp: ir_room_def ref_room_def)

lemma irt_const [simp]: "\<not> irt_is64 IRT_INT" "irt_is64 IRT_I64" "irt_is64 IRT_U64"
  by (simp_all add: irt_is64_def irt_type_def IRT_IS64_def irt_codes bit_simps)

lemma const_width:
  assumes "ir_ok J" "valid J r"
  shows "ir_o (IR J r) = IR_KINT \<Longrightarrow> \<not> irt_is64 (ir_t (IR J r))" "ir_o (IR J r) = IR_KINT64 \<Longrightarrow> irt_is64 (ir_t (IR J r))"
  using const_in_chain (3) [OF assms] by (auto simp: kdata_def kop_def ir_codes)

lemma sound_int64:
  assumes p: "prepared J" and w: "irt_is64 (ir_t (fold_ins J))" and m: "means J (fold_ins J) (\<lambda>v. Val k)"
  shows "sound J (INT64FOLD k e J)"
proof -
  note P = preparedD [OF p]
  have "fold_post J r J'" if "ir_ok J'" "extends J J'" "valid J' r" "j_nins J' = j_nins J" "j_nk J \<le> Suc (j_nk J')"
    "length (concat (j_k64 J')) \<le> Suc (length (concat (j_k64 J)))" "ir_o (IR J' r) = IR_KINT64" "ir_k64 J' (IR J' r) = k" for J' r
  proof -
    have "trace_ok J'" by (rule trace_ok_const [OF P(1) that(1,2,4)])
    moreover have "means J' (fold_ins J) (\<lambda>v. Val (v r))"
      unfolding means_def
    proof (intro allI impI)
      fix v x assume v: "models J' v" "isem v (fold_ins J) = Some x"
      have "x = Val k" using m v models_antimono [OF v(1) P(2) that(2)] by (simp add: means_def)
      moreover have "v r = k" using v(1) that(3,7,8) by (auto simp: models_def)
      ultimately show "x = Val (v r)" by simp
    qed
    then have "ref_ok J' (fold_ins J) r" using that w const_width [OF that(1,3)] by (simp add: ref_ok_def)
    ultimately show ?thesis using that valid_big [OF that(1,3)] by (auto simp: fold_post_def fold_codes)
  qed
  then show ?thesis using kint64_ok [OF P(2,3), of e k] unfolding INT64FOLD_def interned_def sound_def by blast
qed

lemma sound_retry:
  assumes "prepared J" "retry_ok J (fold_ins J) J (f (fold_ins J))"
  shows "sound J (ret RETRYFOLD (upd_fins f J))"
proof -
  have "retry_ok J ir (upd_fins f J) ir' = retry_ok J ir J ir'" for ir ir' by (simp add: retry_ok_def)
  then show ?thesis using assms preparedD [OF assms(1)] by (auto simp: sound_def fold_post_def ret_def fold_codes)
qed

text \<open>A retry with a new constant \<open>c\<close>.\<close>

lemma sound_retry_const:
  assumes p: "prepared J"
    and k: "interned (upd_fins g J) res Q"
    and r: "\<And>J' r. ir_ok J' \<Longrightarrow> trace_ok J' \<Longrightarrow> extends J J' \<Longrightarrow> valid J' (unat r) \<Longrightarrow> Q J' (unat r) \<Longrightarrow> ref_weight r = 0 \<Longrightarrow>
      retry_ok J (fold_ins J) J' (h r (g (fold_ins J)))"
  shows "sound J (rbind res (\<lambda>J r. ret RETRYFOLD (upd_fins (h (of_nat r)) J)))"
proof (cases "\<exists>J'. res = Some (Inl LJ_ERR_ERRMEM, J')")
  case True
  then show ?thesis by (auto simp: sound_def rbind_def)
next
  case False
  note P = preparedD [OF p]
  from False k obtain r J' where J': "res = Some (Inr r, J')" "ir_ok J'" "extends J J'" "valid J' r" "r < REF_TRUE" "j_nins J' = j_nins J"
      "fold_ins J' = g (fold_ins J)" "j_nk J \<le> Suc (j_nk J')" "length (concat (j_k64 J')) \<le> Suc (length (concat (j_k64 J)))" "Q J' r"
    by (auto simp: interned_def)
  have r16: "unat (of_nat r :: u16) = r" using ref16 [OF interned_room [OF P(3) J'(6,8)] J'(4)] .
  have t: "trace_ok J'" by (rule trace_ok_const [OF P(1) J'(2,3,6)])
  have w: "ref_weight (of_nat r) = 0" using J'(5) r16 by (simp add: ref_weight_def ref_codes)
  have "retry_ok J (fold_ins J) J' (h (of_nat r) (g (fold_ins J)))"
    by (rule r [OF J'(2) t J'(3)]) (use J' r16 w in auto)
  then have "retry_ok J (fold_ins J) (upd_fins (h (of_nat r)) J') (h (of_nat r) (fold_ins J'))"
    by (simp add: retry_ok_def J'(7))
  then show ?thesis using J' t by (auto simp: sound_def rbind_def ret_def fold_post_def fold_codes)
qed

lemma sound_kint:
  assumes p: "prepared J"
    and r: "\<And>J' r. ir_ok J' \<Longrightarrow> trace_ok J' \<Longrightarrow> extends J J' \<Longrightarrow> valid J' (unat r) \<Longrightarrow> ir_o (IR J' (unat r)) = IR_KINT \<Longrightarrow>
      ir_i (IR J' (unat r)) = k \<Longrightarrow> ref_weight r = 0 \<Longrightarrow> retry_ok J (fold_ins J) J' (h r (g (fold_ins J)))"
  shows "sound J (rbind (lj_ir_kint e (upd_fins g J) k) (\<lambda>J r. ret RETRYFOLD (upd_fins (h (of_nat r)) J)))"
  by (rule sound_retry_const [OF p kint_ok]) (use preparedD [OF p] r in auto)

lemma sound_kint64:
  assumes p: "prepared J"
    and r: "\<And>J' r. ir_ok J' \<Longrightarrow> trace_ok J' \<Longrightarrow> extends J J' \<Longrightarrow> valid J' (unat r) \<Longrightarrow> ir_o (IR J' (unat r)) = IR_KINT64 \<Longrightarrow>
      ir_k64 J' (IR J' (unat r)) = k \<Longrightarrow> ref_weight r = 0 \<Longrightarrow> retry_ok J (fold_ins J) J' (h r (g (fold_ins J)))"
  shows "sound J (rbind (lj_ir_kint64 e (upd_fins g J) k) (\<lambda>J r. ret RETRYFOLD (upd_fins (h (of_nat r)) J)))"
  by (rule sound_retry_const [OF p kint64_ok]) (use preparedD [OF p] r in auto)

end
