(* ===== verification/LJ_FoldRules.thy ===== *)
theory LJ_FoldRules
  imports LJ_FoldSem
begin

text \<open>
  Soundness of the integer fold rules, one lemma for each fold function: constant folding agrees with
  the meaning of the operation, and every algebraic simplification, reassociation and swap keeps the
  meaning of the instruction and makes it smaller.
\<close>

section \<open>The floored modulus\<close>

lemma neg32: "NOT (a :: u32) + 1 = - a" by (simp add: minus_eq_not_plus_1)

lemma sint_xor_neg: "sint (a XOR b :: u32) < 0 \<longleftrightarrow> (sint a < 0) \<noteq> (sint b < 0)"
  by (simp add: bit_last_iff [symmetric] bit_simps)

lemma uint_abs32: "uint (if sint (a :: u32) < 0 then - a else a) = \<bar>sint a\<bar>"
proof (cases "sint a < 0")
  case True
  have "uint (- a) = (- uint a) mod 2 ^ 32" by (simp add: uint_word_ariths)
  also have "\<dots> = (- sint a + (-1) * 2 ^ 32) mod 2 ^ 32" using True by (simp add: uint32_sint)
  also have "\<dots> = - sint a mod 2 ^ 32" by (rule mod_mult_self1)
  also have "\<dots> = - sint a" using True sint32_range [of a] by (intro mod_pos_pos_trivial) simp_all
  finally show ?thesis using True by simp
qed (simp add: uint32_sint)

lemma sint_word_of_int32: "- (2 ^ 31) \<le> x \<Longrightarrow> x < 2 ^ 31 \<Longrightarrow> sint (word_of_int x :: u32) = x"
  by (simp add: sint_sbintrunc' signed_take_bit_int_eq_self)

lemma mod_signs:
  fixes A B :: int
  defines "R \<equiv> \<bar>A\<bar> mod \<bar>B\<bar>"
  assumes "B \<noteq> 0"
  shows "A mod B = (if (A < 0) = (B < 0) then (if B < 0 then - R else R) else if R = 0 then 0 else if B < 0 then R + B else B - R)"
proof -
  consider "A < 0" "B < 0" | "\<not> A < 0" "0 < B" | "A < 0" "0 < B" | "\<not> A < 0" "B < 0" using assms(2) by linarith
  then show ?thesis
  proof cases
    case 1
    then have "A mod B = - (- A mod - B)" by simp
    then show ?thesis using 1 by (simp add: R_def)
  next
    case 3
    then show ?thesis using zmod_zminus1_eq_if [of "- A" B] by (simp add: R_def)
  next
    case 4
    then show ?thesis using zmod_zminus2_eq_if [of A "- B"] by (simp add: R_def)
  qed (simp add: R_def)
qed

lemma modi_floor:
  assumes b: "b \<noteq> 0"
  shows "lj_vm_modi a b = word_of_int (sint a mod sint b)"
proof -
  define ua ub where "ua = (if sint a < 0 then - a else a)" and "ub = (if sint b < 0 then - b else b)"
  define R where "R = \<bar>sint a\<bar> mod \<bar>sint b\<bar>"
  have B: "sint b \<noteq> 0" using b by (metis signed_eq_0_iff)
  have Rr: "0 \<le> R" "R < \<bar>sint b\<bar>" "\<bar>sint b\<bar> \<le> 2 ^ 31" using B sint32_range [of b] by (auto simp: R_def)
  have u: "uint (ua mod ub) = R" by (simp add: uint_mod ua_def ub_def uint_abs32 R_def)
  then have y: "ua mod ub = word_of_int R" by (metis word_of_int_uint)
  have ub: "ub = word_of_int \<bar>sint b\<bar>" by (auto simp: ub_def)
  have y0: "(word_of_int R :: u32) = 0 \<longleftrightarrow> R = 0" using u y by (metis unsigned_eq_0_iff)
  have sy: "sint (word_of_int R :: u32) = R" using Rr by (intro sint_word_of_int32) auto
  define D where "D = R - \<bar>sint b\<bar>"
  have D: "D < 0" "sint b < 0 \<Longrightarrow> R + sint b = D" "\<not> sint b < 0 \<Longrightarrow> sint b - R = - D" using Rr by (auto simp: D_def)
  have sD: "sint (word_of_int D :: u32) = D" using Rr by (intro sint_word_of_int32) (auto simp: D_def)
  have sub: "word_of_int R - ub = word_of_int D" by (simp add: ub D_def)
  have "lj_vm_modi a b = (let y = (if R \<noteq> 0 \<and> (sint a < 0) \<noteq> (sint b < 0) then word_of_int D else word_of_int R)
      in if (sint y < 0) \<noteq> (sint b < 0) then - y else y)"
    unfolding lj_vm_modi_def neg32 Let_def ua_def [symmetric] ub_def [symmetric] y y0 sint_xor_neg sub by simp
  also have "\<dots> = word_of_int (sint a mod sint b)"
    unfolding mod_signs [OF B, of "sint a", folded R_def] using Rr(1) D sy sD
    by (cases "sint a < 0"; cases "sint b < 0") (simp_all add: Let_def)
  finally show ?thesis .
qed

section \<open>Rotates\<close>

lemma mask_mod: "unat (k AND 31 :: u32) = unat k mod 32" "unat (k AND 63 :: u32) = unat k mod 64"
proof -
  have "k AND mask 5 = take_bit 5 k" "k AND mask 6 = take_bit 6 k" by (simp_all add: take_bit_eq_mask)
  moreover have "mask 5 = (31 :: u32)" "mask 6 = (63 :: u32)" by (simp_all add: mask_eq_exp_minus_1)
  ultimately show "unat (k AND 31 :: u32) = unat k mod 32" "unat (k AND 63 :: u32) = unat k mod 64"
    by (simp_all add: unsigned_take_bit_eq) (simp_all add: take_bit_eq_mod)
qed

lemma lj_rol_rotl: "n < 32 \<Longrightarrow> lj_rol x n = word_rotl n x"
proof (rule bit_word_eqI)
  fix k assume "n < 32" "k < LENGTH(32)"
  then show "bit (lj_rol x n) k = bit (word_rotl n x) k"
    by (cases "n \<le> k") (auto simp: lj_rol_bit bit_word_rotl_iff mod_if)
qed

lemma lj_ror_rotr: "n < 32 \<Longrightarrow> lj_ror x n = word_rotr n x"
proof (rule bit_word_eqI)
  fix k assume "n < 32" "k < LENGTH(32)"
  then show "bit (lj_ror x n) k = bit (word_rotr n x) k"
    by (cases "k + n < 32") (simp_all add: lj_ror_bit bit_word_rotr_iff le_mod_geq)
qed

lemma lj_rol64_rotl:
  assumes "n < 64" shows "lj_rol64 x n = word_rotl n x"
proof (rule bit_word_eqI)
  fix k assume k: "k < LENGTH(64)"
  have top: "bit x i = False" if "64 \<le> i" for i using that bit_imp_le_length [of x i] by auto
  show "bit (lj_rol64 x n) k = bit (word_rotl n x) k"
  proof (cases "n = 0")
    case False
    have s: "(64 - n mod 64) mod 64 = 64 - n" using False assms by simp
    show ?thesis
    proof (cases "n \<le> k")
      case True
      then have "(k + (64 - n)) mod 64 = k - n" using k assms by (simp add: le_mod_geq)
      then show ?thesis unfolding lj_rol64_def s using True k assms False top [of "64 + k - n"] by (simp add: bit_simps)
    next
      case False
      then have "(k + (64 - n)) mod 64 = k + (64 - n)" using assms by simp
      then show ?thesis unfolding lj_rol64_def s using False k assms by (simp add: bit_simps add.commute [of 64 k])
    qed
  qed (use k in \<open>simp add: lj_rol64_def bit_word_rotl_iff\<close>)
qed

lemma lj_ror64_rotr:
  assumes "n < 64" shows "lj_ror64 x n = word_rotr n x"
proof (rule bit_word_eqI)
  fix k assume k: "k < LENGTH(64)"
  have top: "bit x i = False" if "64 \<le> i" for i using that bit_imp_le_length [of x i] by auto
  show "bit (lj_ror64 x n) k = bit (word_rotr n x) k"
  proof (cases "n = 0")
    case False
    have s: "(64 - n mod 64) mod 64 = 64 - n" using False assms by simp
    show ?thesis
    proof (cases "64 - n \<le> k")
      case True
      then have "(k + n) mod 64 = k - (64 - n)" using k assms by (simp add: le_mod_geq)
      then show ?thesis unfolding lj_ror64_def s using True k assms False top [of "k + n"] by (simp add: bit_simps add.commute)
    next
      case False
      then have "(k + n) mod 64 = k + n" using assms by simp
      then show ?thesis unfolding lj_ror64_def s using False k assms by (simp add: bit_simps add.commute)
    qed
  qed (use k in \<open>simp add: lj_ror64_def bit_word_rotr_iff\<close>)
qed

section \<open>Constant folding\<close>

definition int_arith :: "u8 set" where
  "int_arith = {IR_ADD, IR_SUB, IR_MUL, IR_MOD, IR_NEG, IR_BAND, IR_BOR, IR_BXOR, IR_BSHL, IR_BSHR, IR_BSAR, IR_BROL, IR_BROR, IR_MIN, IR_MAX}"

lemma sint_inj: "sint (a :: 'a::len word) = sint b \<longleftrightarrow> a = b"
  by (auto intro: signed_word_eqI)

lemma intop_alu:
  assumes "op \<in> int_arith" "alu lj_bswap op a b = Some x"
  shows "kfold_intop a b op = x"
proof (cases "op = IR_MIN \<or> op = IR_MAX")
  case True
  then show ?thesis using assms(2) by (auto simp: kfold_intop_def alu_def ir_codes Let_def not_less sint_inj split: if_splits)
next
  case False
  with assms show ?thesis unfolding int_arith_def
    by (elim insertE emptyE)
      (simp_all add: kfold_intop_def alu_def ir_codes Let_def mask_mod lj_rol_rotl lj_ror_rotr modi_floor neg32 split: if_splits)
qed

lemma sem32_alu: "op \<in> int_arith \<Longrightarrow> sem32 op a b = Some m \<Longrightarrow> m = Val (scast (kfold_intop a b op))"
  using intop_alu [of op a b] unfolding int_arith_def
  by (auto simp: sem32_def cmp_def ir_codes split: option.splits)

lemma int64op_alu:
  "op \<in> {IR_ADD, IR_SUB, IR_MUL, IR_BAND, IR_BOR, IR_BXOR} \<Longrightarrow> sem64 op a b = Some (Val (kfold_int64op a b op))"
  by (auto simp: sem64_def kfold_int64op_def alu_def ir_codes)

text \<open>Values and widths of the operands.\<close>

lemma v_kint: "models J v \<Longrightarrow> valid J r \<Longrightarrow> ir_o (IR J r) = IR_KINT \<Longrightarrow> v r = scast (ir_i (IR J r))"
  by (simp add: models_def)

lemma v_kint64: "models J v \<Longrightarrow> valid J r \<Longrightarrow> ir_o (IR J r) = IR_KINT64 \<Longrightarrow> v r = ir_k64 J (IR J r)"
  by (simp add: models_def)

lemma v_ins: "models J v \<Longrightarrow> valid J r \<Longrightarrow> int_ins (IR J r) \<Longrightarrow> isem v (IR J r) = Some (Val x) \<Longrightarrow> v r = x"
  by (simp add: models_def)

lemma v_ext: "models J v \<Longrightarrow> valid J r \<Longrightarrow> \<not> irt_is64 (ir_t (IR J r)) \<Longrightarrow> ext32 (v r)"
  by (simp add: models_def)

lemma left_width:
  assumes "prepared J"
  shows "is64 J (ir_op1 (fold_ins J)) = irt_is64 (ir_t (fold_ins J))"
  using preparedD [OF assms] by (auto simp: wt_def)

lemma right_width: "prepared J \<Longrightarrow> binary_op (ir_o (fold_ins J)) \<Longrightarrow> is64 J (ir_op2 (fold_ins J)) = irt_is64 (ir_t (fold_ins J))"
  using preparedD [of J] by (auto simp: wt_def)

lemma left_kint:
  assumes "prepared J" "ir_o (fold_left J) = IR_KINT"
  shows "models J v \<Longrightarrow> v (unat (ir_op1 (fold_ins J))) = scast (ir_i (fold_left J))"
    "\<not> irt_is64 (ir_t (fold_ins J))"
  using preparedD [OF assms(1)] left_width [OF assms(1)] assms(2) v_kint [of J v] const_width (1) [of J]
  by (auto simp: is64_def)

lemma left_kint64:
  assumes "prepared J" "ir_o (fold_left J) = IR_KINT64"
  shows "models J v \<Longrightarrow> v (unat (ir_op1 (fold_ins J))) = ir_k64 J (fold_left J)" "irt_is64 (ir_t (fold_ins J))"
  using preparedD [OF assms(1)] left_width [OF assms(1)] assms(2) v_kint64 [of J v] const_width (2) [of J]
  by (auto simp: is64_def ir_codes)

lemma right_kint:
  assumes "prepared J" "ir_o (fold_right J) = IR_KINT" "\<not> unary_op (ir_o (fold_ins J))"
  shows "models J v \<Longrightarrow> v (unat (ir_op2 (fold_ins J))) = scast (ir_i (fold_right J))"
    "binary_op (ir_o (fold_ins J)) \<Longrightarrow> \<not> irt_is64 (ir_t (fold_ins J))"
  using preparedD [OF assms(1)] prepared_right [OF assms(1,3)] right_width [OF assms(1)] assms(2) v_kint [of J v] const_width (1) [of J]
  by (auto simp: is64_def)

lemma right_kint64:
  assumes "prepared J" "ir_o (fold_right J) = IR_KINT64" "\<not> unary_op (ir_o (fold_ins J))"
  shows "models J v \<Longrightarrow> v (unat (ir_op2 (fold_ins J))) = ir_k64 J (fold_right J)"
    "binary_op (ir_o (fold_ins J)) \<Longrightarrow> irt_is64 (ir_t (fold_ins J))"
  using preparedD [OF assms(1)] prepared_right [OF assms(1,3)] right_width [OF assms(1)] assms(2) v_kint64 [of J v] const_width (2) [of J]
  by (auto simp: is64_def)

lemma int_arith_kinds: "op \<in> int_arith \<Longrightarrow> \<not> unary_op op \<and> (shift_op op \<or> binary_op op)"
  unfolding int_arith_def by (elim insertE emptyE) (simp_all add: op_kinds ir_codes)

lemma kfold_intarith_sound:
  assumes p: "prepared J" and op: "ir_o (fold_ins J) \<in> int_arith" and k: "ir_o (fold_left J) = IR_KINT" "ir_o (fold_right J) = IR_KINT"
  shows "sound J (kfold_intarith e J)"
proof -
  note K = int_arith_kinds [OF op]
  then have u: "\<not> unary_op (ir_o (fold_ins J))" by simp
  have w: "\<not> irt_is64 (ir_t (fold_ins J))"
    using left_kint (2) [OF p k(1)] .
  show ?thesis unfolding kfold_intarith_def
    by (rule sound_int [OF p w]) (use w sem32_alu [OF op] in \<open>auto simp: means_def isem_def left_kint (1) [OF p k(1)] right_kint (1) [OF p k(2) u]\<close>)
qed

lemma kfold_bnot_sound:
  assumes p: "prepared J" and op: "ir_o (fold_ins J) = IR_BNOT" and k: "ir_o (fold_left J) = IR_KINT"
  shows "sound J (kfold_bnot e J)"
  unfolding kfold_bnot_def
  by (rule sound_int [OF p]) (use left_kint (2) [OF p k] op in \<open>auto simp: means_def isem_def sem32_def alu_def ir_codes left_kint (1) [OF p k]\<close>)

lemma kfold_bswap_sound:
  assumes p: "prepared J" and op: "ir_o (fold_ins J) = IR_BSWAP" and k: "ir_o (fold_left J) = IR_KINT"
  shows "sound J (kfold_bswap e J)"
  unfolding kfold_bswap_def
  by (rule sound_int [OF p]) (use left_kint (2) [OF p k] op in \<open>auto simp: means_def isem_def sem32_def alu_def ir_codes left_kint (1) [OF p k]\<close>)

definition int_comp :: "u8 set" where "int_comp = {IR_LT, IR_GE, IR_LE, IR_GT, IR_ULT, IR_UGE, IR_ULE, IR_UGT}"

lemma int_comp_kinds: "op \<in> int_comp \<Longrightarrow> \<not> unary_op op \<and> binary_op op \<and> op \<noteq> IR_SUB"
  unfolding int_comp_def by (elim insertE emptyE) (simp_all add: op_kinds ir_codes)

lemma kfold_intcomp_sound:
  assumes p: "prepared J" and op: "ir_o (fold_ins J) \<in> int_comp" and k: "ir_o (fold_left J) = IR_KINT" "ir_o (fold_right J) = IR_KINT"
  shows "sound J (kfold_intcomp e J)"
proof -
  have u: "\<not> unary_op (ir_o (fold_ins J))" and w: "\<not> irt_is64 (ir_t (fold_ins J))"
    using int_comp_kinds [OF op] left_kint (2) [OF p k(1)] by auto
  have m: "means J (fold_ins J) (\<lambda>v. Cond (the (cmp (ir_o (fold_ins J)) (ir_i (fold_left J)) (ir_i (fold_right J)))))"
    using w op unfolding int_comp_def
    by (elim insertE emptyE) (simp_all add: means_def isem_def left_kint (1) [OF p k(1)] right_kint (1) [OF p k(2) u] sem32_def alu_def cmp_def ir_codes)
  note S = sound_cond [OF p m]
  from op S show ?thesis unfolding int_comp_def kfold_intcomp_def Let_def
    by (elim insertE emptyE) (simp_all add: cmp_def ir_codes)
qed

lemma kfold_intcomp0_sound:
  assumes p: "prepared J" and op: "ir_o (fold_ins J) = IR_UGE" and k: "ir_o (fold_right J) = IR_KINT"
  shows "sound J (kfold_intcomp0 e J)"
proof -
  have u: "\<not> unary_op (ir_o (fold_ins J))" and w: "\<not> irt_is64 (ir_t (fold_ins J))"
    using right_kint (2) [OF p k] op by (auto simp: op_kinds ir_codes)
  have "sound J (ret DROPFOLD J)" if "ir_i (fold_right J) = 0"
    using sound_cond [OF p, of True] that w op
    by (auto simp: CONDFOLD_def fold_codes means_def isem_def sem32_def alu_def cmp_def ir_codes right_kint (1) [OF p k u])
  then show ?thesis using p by (auto simp: kfold_intcomp0_def)
qed

lemma kfold_int64arith_sound:
  assumes p: "prepared J" and op: "ir_o (fold_ins J) \<in> {IR_ADD, IR_SUB, IR_MUL, IR_BAND, IR_BOR, IR_BXOR}"
    and k: "ir_o (fold_left J) = IR_KINT64" "ir_o (fold_right J) = IR_KINT64"
  shows "sound J (kfold_int64arith e J)"
proof -
  have u: "\<not> unary_op (ir_o (fold_ins J))" using op by (elim insertE emptyE) (simp_all add: op_kinds ir_codes)
  show ?thesis unfolding kfold_int64arith_def
    by (rule sound_int64 [OF p left_kint64 (2) [OF p k(1)]])
      (use left_kint64 (2) [OF p k(1)] int64op_alu [OF op] in \<open>simp add: means_def isem_def left_kint64 (1) [OF p k(1)] right_kint64 (1) [OF p k(2) u]\<close>)
qed

lemma count64: "unat (ucast (scast (k :: u32) :: u64) :: u32) mod 64 = unat (scast k :: u64) mod 64"
  "unat (scast k :: u64) mod 64 = unat (k AND 63)"
proof -
  have "take_bit 6 (scast k :: u64) = ucast (take_bit 6 k)" by (rule bit_word_eqI) (auto simp: bit_simps min_def)
  then have "unat (take_bit 6 (scast k :: u64)) = unat (ucast (take_bit 6 k) :: u64)" by simp
  also have "\<dots> = unat (take_bit 6 k)" by (simp add: unsigned_ucast_eq unsigned_take_bit_eq)
  finally have "unat (scast k :: u64) mod 64 = unat k mod 64" by (simp add: unsigned_take_bit_eq) (simp add: take_bit_eq_mod)
  then show "unat (ucast (scast (k :: u32) :: u64) :: u32) mod 64 = unat (scast k :: u64) mod 64"
    "unat (scast k :: u64) mod 64 = unat (k AND 63)" by (simp_all add: mask_mod)
qed

lemma kfold_int64shift_sound:
  assumes p: "prepared J" and op: "ir_o (fold_ins J) \<in> {IR_BSHL, IR_BSHR, IR_BSAR, IR_BROL, IR_BROR}"
    and k: "ir_o (fold_left J) = IR_KINT64" "ir_o (fold_right J) = IR_KINT"
  shows "sound J (kfold_int64shift e J)"
proof -
  have u: "\<not> unary_op (ir_o (fold_ins J))" using op by (elim insertE emptyE) (simp_all add: op_kinds ir_codes)
  have n: "unat (ir_i (fold_right J) AND 63) < 64" by (simp add: mask_mod)
  show ?thesis unfolding kfold_int64shift_def Let_def
    by (rule sound_int64 [OF p left_kint64 (2) [OF p k(1)]], use op in \<open>elim insertE emptyE\<close>)
      (simp_all add: means_def isem_def left_kint64 [OF p k(1)] right_kint (1) [OF p k(2) u] sem64_def alu_def ir_codes count64 (2)
        lj_rol64_rotl [OF n] lj_ror64_rotr [OF n])
qed

lemma kfold_bnot64_sound:
  assumes p: "prepared J" and op: "ir_o (fold_ins J) = IR_BNOT" and k: "ir_o (fold_left J) = IR_KINT64"
  shows "sound J (kfold_bnot64 e J)"
  unfolding kfold_bnot64_def
  by (rule sound_int64 [OF p]) (use op in \<open>auto simp: means_def isem_def sem64_def alu_def ir_codes left_kint64 [OF p k]\<close>)

lemma kfold_bswap64_sound:
  assumes p: "prepared J" and op: "ir_o (fold_ins J) = IR_BSWAP" and k: "ir_o (fold_left J) = IR_KINT64"
  shows "sound J (kfold_bswap64 e J)"
  unfolding kfold_bswap64_def
  by (rule sound_int64 [OF p]) (use op in \<open>auto simp: means_def isem_def sem64_def alu_def ir_codes left_kint64 [OF p k]\<close>)

lemma kfold_int64comp_sound:
  assumes p: "prepared J" and op: "ir_o (fold_ins J) \<in> int_comp" and k: "ir_o (fold_left J) = IR_KINT64" "ir_o (fold_right J) = IR_KINT64"
  shows "sound J (kfold_int64comp e J)"
proof -
  have u: "\<not> unary_op (ir_o (fold_ins J))" using int_comp_kinds [OF op] by auto
  have m: "means J (fold_ins J) (\<lambda>v. Cond (the (cmp (ir_o (fold_ins J)) (ir_k64 J (fold_left J)) (ir_k64 J (fold_right J)))))"
    using op unfolding int_comp_def
    by (elim insertE emptyE) (simp_all add: means_def isem_def left_kint64 [OF p k(1)] right_kint64 (1) [OF p k(2) u] sem64_def alu_def cmp_def ir_codes)
  note S = sound_cond [OF p m]
  from op S show ?thesis unfolding int_comp_def kfold_int64comp_def Let_def
    by (elim insertE emptyE) (simp_all add: cmp_def ir_codes)
qed

lemma kfold_int64comp0_sound:
  assumes p: "prepared J" and op: "ir_o (fold_ins J) = IR_UGE" and k: "ir_o (fold_right J) = IR_KINT64"
  shows "sound J (kfold_int64comp0 e J)"
proof -
  have u: "\<not> unary_op (ir_o (fold_ins J))" and w: "irt_is64 (ir_t (fold_ins J))"
    using right_kint64 (2) [OF p k] op by (auto simp: op_kinds ir_codes)
  have "sound J (ret DROPFOLD J)" if "ir_k64 J (fold_right J) = 0"
    using sound_cond [OF p, of True] that w op
    by (auto simp: CONDFOLD_def fold_codes means_def isem_def sem64_def alu_def cmp_def ir_codes right_kint64 (1) [OF p k u])
  then show ?thesis using p by (auto simp: kfold_int64comp0_def)
qed

lemma sem_eval:
  shows "sem32 IR_ADD a b = Some (Val (scast (a + b)))"
    "sem32 IR_SUB a b = Some (Val (scast (a - b)))"
    "sem32 IR_MUL a b = Some (Val (scast (a * b)))"
    "sem32 IR_NEG a b = Some (Val (scast (- a)))"
    "sem32 IR_BNOT a b = Some (Val (scast (NOT a)))"
    "sem32 IR_BAND a b = Some (Val (scast (a AND b)))"
    "sem32 IR_BOR a b = Some (Val (scast (a OR b)))"
    "sem32 IR_BXOR a b = Some (Val (scast (a XOR b)))"
    "sem32 IR_BSHL a b = Some (Val (scast (push_bit (unat b mod 32) a)))"
    "sem32 IR_BSHR a b = Some (Val (scast (drop_bit (unat b mod 32) a)))"
    "sem32 IR_BSAR a b = Some (Val (scast (signed_drop_bit (unat b mod 32) a)))"
    "sem32 IR_BROL a b = Some (Val (scast (word_rotl (unat b mod 32) a)))"
    "sem32 IR_BROR a b = Some (Val (scast (word_rotr (unat b mod 32) a)))"
    "sem32 IR_MIN a b = Some (Val (scast (if sint a \<le> sint b then a else b)))"
    "sem32 IR_MAX a b = Some (Val (scast (if sint a \<ge> sint b then a else b)))"
    "sem32 IR_BSWAP a b = Some (Val (scast (lj_bswap a)))"
    "sem32 IR_EQ a b = Some (Cond (a = b))"
    "sem32 IR_NE a b = Some (Cond (a \<noteq> b))"
    "sem64 IR_ADD c d = Some (Val (c + d))"
    "sem64 IR_SUB c d = Some (Val (c - d))"
    "sem64 IR_MUL c d = Some (Val (c * d))"
    "sem64 IR_NEG c d = Some (Val (- c))"
    "sem64 IR_BNOT c d = Some (Val (NOT c))"
    "sem64 IR_BAND c d = Some (Val (c AND d))"
    "sem64 IR_BOR c d = Some (Val (c OR d))"
    "sem64 IR_BXOR c d = Some (Val (c XOR d))"
    "sem64 IR_BSHL c d = Some (Val (push_bit (unat d mod 64) c))"
    "sem64 IR_BSHR c d = Some (Val (drop_bit (unat d mod 64) c))"
    "sem64 IR_BSAR c d = Some (Val (signed_drop_bit (unat d mod 64) c))"
    "sem64 IR_BROL c d = Some (Val (word_rotl (unat d mod 64) c))"
    "sem64 IR_BROR c d = Some (Val (word_rotr (unat d mod 64) c))"
    "sem64 IR_MIN c d = Some (Val (if sint c \<le> sint d then c else d))"
    "sem64 IR_MAX c d = Some (Val (if sint c \<ge> sint d then c else d))"
    "sem64 IR_BSWAP c d = Some (Val (lj_bswap64 c))"
    "sem64 IR_EQ c d = Some (Cond (c = d))"
    "sem64 IR_NE c d = Some (Cond (c \<noteq> d))"
  by (simp_all add: sem32_def sem64_def alu_def cmp_def ir_codes)

lemma kinds_eval [simp]:
  "binary_op IR_ADD" "binary_op IR_SUB" "binary_op IR_MUL" "binary_op IR_MOD" "binary_op IR_NEG" "binary_op IR_BAND" "binary_op IR_BOR" "binary_op IR_BXOR" "binary_op IR_MIN" "binary_op IR_MAX"
  "binary_op IR_EQ" "binary_op IR_NE" "shift_op IR_BSHL" "shift_op IR_BSHR" "shift_op IR_BSAR" "shift_op IR_BROL" "shift_op IR_BROR" "unary_op IR_BNOT" "unary_op IR_BSWAP"
  by (simp_all add: op_kinds ir_codes)

lemma not_kinds_eval [simp]:
  "\<not> unary_op IR_ADD" "\<not> shift_op IR_ADD" "\<not> unary_op IR_SUB" "\<not> shift_op IR_SUB" "\<not> unary_op IR_MUL" "\<not> shift_op IR_MUL"
  "\<not> unary_op IR_MOD" "\<not> shift_op IR_MOD" "\<not> unary_op IR_NEG" "\<not> shift_op IR_NEG" "\<not> unary_op IR_BAND" "\<not> shift_op IR_BAND"
  "\<not> unary_op IR_BOR" "\<not> shift_op IR_BOR" "\<not> unary_op IR_BXOR" "\<not> shift_op IR_BXOR" "\<not> unary_op IR_MIN" "\<not> shift_op IR_MIN"
  "\<not> unary_op IR_MAX" "\<not> shift_op IR_MAX" "\<not> unary_op IR_EQ" "\<not> shift_op IR_EQ" "\<not> unary_op IR_NE" "\<not> shift_op IR_NE"
  "\<not> unary_op IR_BSHL" "\<not> binary_op IR_BSHL" "\<not> unary_op IR_BSHR" "\<not> binary_op IR_BSHR" "\<not> unary_op IR_BSAR" "\<not> binary_op IR_BSAR"
  "\<not> unary_op IR_BROL" "\<not> binary_op IR_BROL" "\<not> unary_op IR_BROR" "\<not> binary_op IR_BROR" "\<not> shift_op IR_BNOT" "\<not> binary_op IR_BNOT"
  "\<not> shift_op IR_BSWAP" "\<not> binary_op IR_BSWAP" "\<not> unary_op IR_KINT" "\<not> shift_op IR_KINT" "\<not> binary_op IR_KINT" "\<not> unary_op IR_KINT64"
  "\<not> shift_op IR_KINT64" "\<not> binary_op IR_KINT64"
  by (simp_all add: op_kinds ir_codes)

lemma op_neq [simp]:
  "IR_ADD \<noteq> IR_SUB" "IR_ADD \<noteq> IR_MUL" "IR_ADD \<noteq> IR_MOD" "IR_ADD \<noteq> IR_NEG" "IR_ADD \<noteq> IR_BAND" "IR_ADD \<noteq> IR_BOR"
  "IR_ADD \<noteq> IR_BXOR" "IR_ADD \<noteq> IR_MIN" "IR_ADD \<noteq> IR_MAX" "IR_ADD \<noteq> IR_EQ" "IR_ADD \<noteq> IR_NE" "IR_ADD \<noteq> IR_BSHL"
  "IR_ADD \<noteq> IR_BSHR" "IR_ADD \<noteq> IR_BSAR" "IR_ADD \<noteq> IR_BROL" "IR_ADD \<noteq> IR_BROR" "IR_ADD \<noteq> IR_BNOT" "IR_ADD \<noteq> IR_BSWAP"
  "IR_ADD \<noteq> IR_KINT" "IR_ADD \<noteq> IR_KINT64" "IR_SUB \<noteq> IR_ADD" "IR_SUB \<noteq> IR_MUL" "IR_SUB \<noteq> IR_MOD" "IR_SUB \<noteq> IR_NEG"
  "IR_SUB \<noteq> IR_BAND" "IR_SUB \<noteq> IR_BOR" "IR_SUB \<noteq> IR_BXOR" "IR_SUB \<noteq> IR_MIN" "IR_SUB \<noteq> IR_MAX" "IR_SUB \<noteq> IR_EQ"
  "IR_SUB \<noteq> IR_NE" "IR_SUB \<noteq> IR_BSHL" "IR_SUB \<noteq> IR_BSHR" "IR_SUB \<noteq> IR_BSAR" "IR_SUB \<noteq> IR_BROL" "IR_SUB \<noteq> IR_BROR"
  "IR_SUB \<noteq> IR_BNOT" "IR_SUB \<noteq> IR_BSWAP" "IR_SUB \<noteq> IR_KINT" "IR_SUB \<noteq> IR_KINT64" "IR_MUL \<noteq> IR_ADD" "IR_MUL \<noteq> IR_SUB"
  "IR_MUL \<noteq> IR_MOD" "IR_MUL \<noteq> IR_NEG" "IR_MUL \<noteq> IR_BAND" "IR_MUL \<noteq> IR_BOR" "IR_MUL \<noteq> IR_BXOR" "IR_MUL \<noteq> IR_MIN"
  "IR_MUL \<noteq> IR_MAX" "IR_MUL \<noteq> IR_EQ" "IR_MUL \<noteq> IR_NE" "IR_MUL \<noteq> IR_BSHL" "IR_MUL \<noteq> IR_BSHR" "IR_MUL \<noteq> IR_BSAR"
  "IR_MUL \<noteq> IR_BROL" "IR_MUL \<noteq> IR_BROR" "IR_MUL \<noteq> IR_BNOT" "IR_MUL \<noteq> IR_BSWAP" "IR_MUL \<noteq> IR_KINT" "IR_MUL \<noteq> IR_KINT64"
  "IR_MOD \<noteq> IR_ADD" "IR_MOD \<noteq> IR_SUB" "IR_MOD \<noteq> IR_MUL" "IR_MOD \<noteq> IR_NEG" "IR_MOD \<noteq> IR_BAND" "IR_MOD \<noteq> IR_BOR"
  "IR_MOD \<noteq> IR_BXOR" "IR_MOD \<noteq> IR_MIN" "IR_MOD \<noteq> IR_MAX" "IR_MOD \<noteq> IR_EQ" "IR_MOD \<noteq> IR_NE" "IR_MOD \<noteq> IR_BSHL"
  "IR_MOD \<noteq> IR_BSHR" "IR_MOD \<noteq> IR_BSAR" "IR_MOD \<noteq> IR_BROL" "IR_MOD \<noteq> IR_BROR" "IR_MOD \<noteq> IR_BNOT" "IR_MOD \<noteq> IR_BSWAP"
  "IR_MOD \<noteq> IR_KINT" "IR_MOD \<noteq> IR_KINT64" "IR_NEG \<noteq> IR_ADD" "IR_NEG \<noteq> IR_SUB" "IR_NEG \<noteq> IR_MUL" "IR_NEG \<noteq> IR_MOD"
  "IR_NEG \<noteq> IR_BAND" "IR_NEG \<noteq> IR_BOR" "IR_NEG \<noteq> IR_BXOR" "IR_NEG \<noteq> IR_MIN" "IR_NEG \<noteq> IR_MAX" "IR_NEG \<noteq> IR_EQ"
  "IR_NEG \<noteq> IR_NE" "IR_NEG \<noteq> IR_BSHL" "IR_NEG \<noteq> IR_BSHR" "IR_NEG \<noteq> IR_BSAR" "IR_NEG \<noteq> IR_BROL" "IR_NEG \<noteq> IR_BROR"
  "IR_NEG \<noteq> IR_BNOT" "IR_NEG \<noteq> IR_BSWAP" "IR_NEG \<noteq> IR_KINT" "IR_NEG \<noteq> IR_KINT64" "IR_BAND \<noteq> IR_ADD" "IR_BAND \<noteq> IR_SUB"
  "IR_BAND \<noteq> IR_MUL" "IR_BAND \<noteq> IR_MOD" "IR_BAND \<noteq> IR_NEG" "IR_BAND \<noteq> IR_BOR" "IR_BAND \<noteq> IR_BXOR" "IR_BAND \<noteq> IR_MIN"
  "IR_BAND \<noteq> IR_MAX" "IR_BAND \<noteq> IR_EQ" "IR_BAND \<noteq> IR_NE" "IR_BAND \<noteq> IR_BSHL" "IR_BAND \<noteq> IR_BSHR" "IR_BAND \<noteq> IR_BSAR"
  "IR_BAND \<noteq> IR_BROL" "IR_BAND \<noteq> IR_BROR" "IR_BAND \<noteq> IR_BNOT" "IR_BAND \<noteq> IR_BSWAP" "IR_BAND \<noteq> IR_KINT" "IR_BAND \<noteq> IR_KINT64"
  "IR_BOR \<noteq> IR_ADD" "IR_BOR \<noteq> IR_SUB" "IR_BOR \<noteq> IR_MUL" "IR_BOR \<noteq> IR_MOD" "IR_BOR \<noteq> IR_NEG" "IR_BOR \<noteq> IR_BAND"
  "IR_BOR \<noteq> IR_BXOR" "IR_BOR \<noteq> IR_MIN" "IR_BOR \<noteq> IR_MAX" "IR_BOR \<noteq> IR_EQ" "IR_BOR \<noteq> IR_NE" "IR_BOR \<noteq> IR_BSHL"
  "IR_BOR \<noteq> IR_BSHR" "IR_BOR \<noteq> IR_BSAR" "IR_BOR \<noteq> IR_BROL" "IR_BOR \<noteq> IR_BROR" "IR_BOR \<noteq> IR_BNOT" "IR_BOR \<noteq> IR_BSWAP"
  "IR_BOR \<noteq> IR_KINT" "IR_BOR \<noteq> IR_KINT64" "IR_BXOR \<noteq> IR_ADD" "IR_BXOR \<noteq> IR_SUB" "IR_BXOR \<noteq> IR_MUL" "IR_BXOR \<noteq> IR_MOD"
  "IR_BXOR \<noteq> IR_NEG" "IR_BXOR \<noteq> IR_BAND" "IR_BXOR \<noteq> IR_BOR" "IR_BXOR \<noteq> IR_MIN" "IR_BXOR \<noteq> IR_MAX" "IR_BXOR \<noteq> IR_EQ"
  "IR_BXOR \<noteq> IR_NE" "IR_BXOR \<noteq> IR_BSHL" "IR_BXOR \<noteq> IR_BSHR" "IR_BXOR \<noteq> IR_BSAR" "IR_BXOR \<noteq> IR_BROL" "IR_BXOR \<noteq> IR_BROR"
  "IR_BXOR \<noteq> IR_BNOT" "IR_BXOR \<noteq> IR_BSWAP" "IR_BXOR \<noteq> IR_KINT" "IR_BXOR \<noteq> IR_KINT64" "IR_MIN \<noteq> IR_ADD" "IR_MIN \<noteq> IR_SUB"
  "IR_MIN \<noteq> IR_MUL" "IR_MIN \<noteq> IR_MOD" "IR_MIN \<noteq> IR_NEG" "IR_MIN \<noteq> IR_BAND" "IR_MIN \<noteq> IR_BOR" "IR_MIN \<noteq> IR_BXOR"
  "IR_MIN \<noteq> IR_MAX" "IR_MIN \<noteq> IR_EQ" "IR_MIN \<noteq> IR_NE" "IR_MIN \<noteq> IR_BSHL" "IR_MIN \<noteq> IR_BSHR" "IR_MIN \<noteq> IR_BSAR"
  "IR_MIN \<noteq> IR_BROL" "IR_MIN \<noteq> IR_BROR" "IR_MIN \<noteq> IR_BNOT" "IR_MIN \<noteq> IR_BSWAP" "IR_MIN \<noteq> IR_KINT" "IR_MIN \<noteq> IR_KINT64"
  "IR_MAX \<noteq> IR_ADD" "IR_MAX \<noteq> IR_SUB" "IR_MAX \<noteq> IR_MUL" "IR_MAX \<noteq> IR_MOD" "IR_MAX \<noteq> IR_NEG" "IR_MAX \<noteq> IR_BAND"
  "IR_MAX \<noteq> IR_BOR" "IR_MAX \<noteq> IR_BXOR" "IR_MAX \<noteq> IR_MIN" "IR_MAX \<noteq> IR_EQ" "IR_MAX \<noteq> IR_NE" "IR_MAX \<noteq> IR_BSHL"
  "IR_MAX \<noteq> IR_BSHR" "IR_MAX \<noteq> IR_BSAR" "IR_MAX \<noteq> IR_BROL" "IR_MAX \<noteq> IR_BROR" "IR_MAX \<noteq> IR_BNOT" "IR_MAX \<noteq> IR_BSWAP"
  "IR_MAX \<noteq> IR_KINT" "IR_MAX \<noteq> IR_KINT64" "IR_EQ \<noteq> IR_ADD" "IR_EQ \<noteq> IR_SUB" "IR_EQ \<noteq> IR_MUL" "IR_EQ \<noteq> IR_MOD"
  "IR_EQ \<noteq> IR_NEG" "IR_EQ \<noteq> IR_BAND" "IR_EQ \<noteq> IR_BOR" "IR_EQ \<noteq> IR_BXOR" "IR_EQ \<noteq> IR_MIN" "IR_EQ \<noteq> IR_MAX"
  "IR_EQ \<noteq> IR_NE" "IR_EQ \<noteq> IR_BSHL" "IR_EQ \<noteq> IR_BSHR" "IR_EQ \<noteq> IR_BSAR" "IR_EQ \<noteq> IR_BROL" "IR_EQ \<noteq> IR_BROR"
  "IR_EQ \<noteq> IR_BNOT" "IR_EQ \<noteq> IR_BSWAP" "IR_EQ \<noteq> IR_KINT" "IR_EQ \<noteq> IR_KINT64" "IR_NE \<noteq> IR_ADD" "IR_NE \<noteq> IR_SUB"
  "IR_NE \<noteq> IR_MUL" "IR_NE \<noteq> IR_MOD" "IR_NE \<noteq> IR_NEG" "IR_NE \<noteq> IR_BAND" "IR_NE \<noteq> IR_BOR" "IR_NE \<noteq> IR_BXOR"
  "IR_NE \<noteq> IR_MIN" "IR_NE \<noteq> IR_MAX" "IR_NE \<noteq> IR_EQ" "IR_NE \<noteq> IR_BSHL" "IR_NE \<noteq> IR_BSHR" "IR_NE \<noteq> IR_BSAR"
  "IR_NE \<noteq> IR_BROL" "IR_NE \<noteq> IR_BROR" "IR_NE \<noteq> IR_BNOT" "IR_NE \<noteq> IR_BSWAP" "IR_NE \<noteq> IR_KINT" "IR_NE \<noteq> IR_KINT64"
  "IR_BSHL \<noteq> IR_ADD" "IR_BSHL \<noteq> IR_SUB" "IR_BSHL \<noteq> IR_MUL" "IR_BSHL \<noteq> IR_MOD" "IR_BSHL \<noteq> IR_NEG" "IR_BSHL \<noteq> IR_BAND"
  "IR_BSHL \<noteq> IR_BOR" "IR_BSHL \<noteq> IR_BXOR" "IR_BSHL \<noteq> IR_MIN" "IR_BSHL \<noteq> IR_MAX" "IR_BSHL \<noteq> IR_EQ" "IR_BSHL \<noteq> IR_NE"
  "IR_BSHL \<noteq> IR_BSHR" "IR_BSHL \<noteq> IR_BSAR" "IR_BSHL \<noteq> IR_BROL" "IR_BSHL \<noteq> IR_BROR" "IR_BSHL \<noteq> IR_BNOT" "IR_BSHL \<noteq> IR_BSWAP"
  "IR_BSHL \<noteq> IR_KINT" "IR_BSHL \<noteq> IR_KINT64" "IR_BSHR \<noteq> IR_ADD" "IR_BSHR \<noteq> IR_SUB" "IR_BSHR \<noteq> IR_MUL" "IR_BSHR \<noteq> IR_MOD"
  "IR_BSHR \<noteq> IR_NEG" "IR_BSHR \<noteq> IR_BAND" "IR_BSHR \<noteq> IR_BOR" "IR_BSHR \<noteq> IR_BXOR" "IR_BSHR \<noteq> IR_MIN" "IR_BSHR \<noteq> IR_MAX"
  "IR_BSHR \<noteq> IR_EQ" "IR_BSHR \<noteq> IR_NE" "IR_BSHR \<noteq> IR_BSHL" "IR_BSHR \<noteq> IR_BSAR" "IR_BSHR \<noteq> IR_BROL" "IR_BSHR \<noteq> IR_BROR"
  "IR_BSHR \<noteq> IR_BNOT" "IR_BSHR \<noteq> IR_BSWAP" "IR_BSHR \<noteq> IR_KINT" "IR_BSHR \<noteq> IR_KINT64" "IR_BSAR \<noteq> IR_ADD" "IR_BSAR \<noteq> IR_SUB"
  "IR_BSAR \<noteq> IR_MUL" "IR_BSAR \<noteq> IR_MOD" "IR_BSAR \<noteq> IR_NEG" "IR_BSAR \<noteq> IR_BAND" "IR_BSAR \<noteq> IR_BOR" "IR_BSAR \<noteq> IR_BXOR"
  "IR_BSAR \<noteq> IR_MIN" "IR_BSAR \<noteq> IR_MAX" "IR_BSAR \<noteq> IR_EQ" "IR_BSAR \<noteq> IR_NE" "IR_BSAR \<noteq> IR_BSHL" "IR_BSAR \<noteq> IR_BSHR"
  "IR_BSAR \<noteq> IR_BROL" "IR_BSAR \<noteq> IR_BROR" "IR_BSAR \<noteq> IR_BNOT" "IR_BSAR \<noteq> IR_BSWAP" "IR_BSAR \<noteq> IR_KINT" "IR_BSAR \<noteq> IR_KINT64"
  "IR_BROL \<noteq> IR_ADD" "IR_BROL \<noteq> IR_SUB" "IR_BROL \<noteq> IR_MUL" "IR_BROL \<noteq> IR_MOD" "IR_BROL \<noteq> IR_NEG" "IR_BROL \<noteq> IR_BAND"
  "IR_BROL \<noteq> IR_BOR" "IR_BROL \<noteq> IR_BXOR" "IR_BROL \<noteq> IR_MIN" "IR_BROL \<noteq> IR_MAX" "IR_BROL \<noteq> IR_EQ" "IR_BROL \<noteq> IR_NE"
  "IR_BROL \<noteq> IR_BSHL" "IR_BROL \<noteq> IR_BSHR" "IR_BROL \<noteq> IR_BSAR" "IR_BROL \<noteq> IR_BROR" "IR_BROL \<noteq> IR_BNOT" "IR_BROL \<noteq> IR_BSWAP"
  "IR_BROL \<noteq> IR_KINT" "IR_BROL \<noteq> IR_KINT64" "IR_BROR \<noteq> IR_ADD" "IR_BROR \<noteq> IR_SUB" "IR_BROR \<noteq> IR_MUL" "IR_BROR \<noteq> IR_MOD"
  "IR_BROR \<noteq> IR_NEG" "IR_BROR \<noteq> IR_BAND" "IR_BROR \<noteq> IR_BOR" "IR_BROR \<noteq> IR_BXOR" "IR_BROR \<noteq> IR_MIN" "IR_BROR \<noteq> IR_MAX"
  "IR_BROR \<noteq> IR_EQ" "IR_BROR \<noteq> IR_NE" "IR_BROR \<noteq> IR_BSHL" "IR_BROR \<noteq> IR_BSHR" "IR_BROR \<noteq> IR_BSAR" "IR_BROR \<noteq> IR_BROL"
  "IR_BROR \<noteq> IR_BNOT" "IR_BROR \<noteq> IR_BSWAP" "IR_BROR \<noteq> IR_KINT" "IR_BROR \<noteq> IR_KINT64" "IR_BNOT \<noteq> IR_ADD" "IR_BNOT \<noteq> IR_SUB"
  "IR_BNOT \<noteq> IR_MUL" "IR_BNOT \<noteq> IR_MOD" "IR_BNOT \<noteq> IR_NEG" "IR_BNOT \<noteq> IR_BAND" "IR_BNOT \<noteq> IR_BOR" "IR_BNOT \<noteq> IR_BXOR"
  "IR_BNOT \<noteq> IR_MIN" "IR_BNOT \<noteq> IR_MAX" "IR_BNOT \<noteq> IR_EQ" "IR_BNOT \<noteq> IR_NE" "IR_BNOT \<noteq> IR_BSHL" "IR_BNOT \<noteq> IR_BSHR"
  "IR_BNOT \<noteq> IR_BSAR" "IR_BNOT \<noteq> IR_BROL" "IR_BNOT \<noteq> IR_BROR" "IR_BNOT \<noteq> IR_BSWAP" "IR_BNOT \<noteq> IR_KINT" "IR_BNOT \<noteq> IR_KINT64"
  "IR_BSWAP \<noteq> IR_ADD" "IR_BSWAP \<noteq> IR_SUB" "IR_BSWAP \<noteq> IR_MUL" "IR_BSWAP \<noteq> IR_MOD" "IR_BSWAP \<noteq> IR_NEG" "IR_BSWAP \<noteq> IR_BAND"
  "IR_BSWAP \<noteq> IR_BOR" "IR_BSWAP \<noteq> IR_BXOR" "IR_BSWAP \<noteq> IR_MIN" "IR_BSWAP \<noteq> IR_MAX" "IR_BSWAP \<noteq> IR_EQ" "IR_BSWAP \<noteq> IR_NE"
  "IR_BSWAP \<noteq> IR_BSHL" "IR_BSWAP \<noteq> IR_BSHR" "IR_BSWAP \<noteq> IR_BSAR" "IR_BSWAP \<noteq> IR_BROL" "IR_BSWAP \<noteq> IR_BROR" "IR_BSWAP \<noteq> IR_BNOT"
  "IR_BSWAP \<noteq> IR_KINT" "IR_BSWAP \<noteq> IR_KINT64" "IR_KINT \<noteq> IR_ADD" "IR_KINT \<noteq> IR_SUB" "IR_KINT \<noteq> IR_MUL" "IR_KINT \<noteq> IR_MOD"
  "IR_KINT \<noteq> IR_NEG" "IR_KINT \<noteq> IR_BAND" "IR_KINT \<noteq> IR_BOR" "IR_KINT \<noteq> IR_BXOR" "IR_KINT \<noteq> IR_MIN" "IR_KINT \<noteq> IR_MAX"
  "IR_KINT \<noteq> IR_EQ" "IR_KINT \<noteq> IR_NE" "IR_KINT \<noteq> IR_BSHL" "IR_KINT \<noteq> IR_BSHR" "IR_KINT \<noteq> IR_BSAR" "IR_KINT \<noteq> IR_BROL"
  "IR_KINT \<noteq> IR_BROR" "IR_KINT \<noteq> IR_BNOT" "IR_KINT \<noteq> IR_BSWAP" "IR_KINT \<noteq> IR_KINT64" "IR_KINT64 \<noteq> IR_ADD" "IR_KINT64 \<noteq> IR_SUB"
  "IR_KINT64 \<noteq> IR_MUL" "IR_KINT64 \<noteq> IR_MOD" "IR_KINT64 \<noteq> IR_NEG" "IR_KINT64 \<noteq> IR_BAND" "IR_KINT64 \<noteq> IR_BOR" "IR_KINT64 \<noteq> IR_BXOR"
  "IR_KINT64 \<noteq> IR_MIN" "IR_KINT64 \<noteq> IR_MAX" "IR_KINT64 \<noteq> IR_EQ" "IR_KINT64 \<noteq> IR_NE" "IR_KINT64 \<noteq> IR_BSHL" "IR_KINT64 \<noteq> IR_BSHR"
  "IR_KINT64 \<noteq> IR_BSAR" "IR_KINT64 \<noteq> IR_BROL" "IR_KINT64 \<noteq> IR_BROR" "IR_KINT64 \<noteq> IR_BNOT" "IR_KINT64 \<noteq> IR_BSWAP" "IR_KINT64 \<noteq> IR_KINT"
  by (simp_all add: ir_codes)

section \<open>Rules for the rules\<close>

text \<open>The two widths are argued about separately, on the values of the operands at that width.\<close>

lemma sound_refI:
  fixes r :: u16
  assumes p: "prepared J" and r: "valid J (unat r)" "is64 J r = irt_is64 (ir_t (fold_ins J))"
    and s64: "\<And>v. models J v \<Longrightarrow> irt_is64 (ir_t (fold_ins J)) \<Longrightarrow>
      sem64 (ir_o (fold_ins J)) (v (unat (ir_op1 (fold_ins J)))) (v (unat (ir_op2 (fold_ins J)))) = Some (Val (v (unat r)))"
    and s32: "\<And>v. models J v \<Longrightarrow> \<not> irt_is64 (ir_t (fold_ins J)) \<Longrightarrow>
      sem32 (ir_o (fold_ins J)) (ucast (v (unat (ir_op1 (fold_ins J))))) (ucast (v (unat (ir_op2 (fold_ins J))))) = Some (Val (scast (ucast (v (unat r)) :: u32)))"
  shows "sound J (ret (unat r) J)"
proof (rule sound_ref [OF p])
  have "m = Val (v (unat r))" if "models J v" "isem v (fold_ins J) = Some m" for v m
  proof (cases "irt_is64 (ir_t (fold_ins J))")
    case False
    then have "v (unat r) = scast (ucast (v (unat r)) :: u32)" using v_ext [OF that(1) r(1)] r(2) by (simp add: is64_def ext32_def)
    then show ?thesis using s32 [OF that(1) False] that(2) False by (simp add: isem_def)
  qed (use s64 [OF that(1)] that(2) in \<open>simp add: isem_def\<close>)
  then show "ref_ok J (fold_ins J) (unat r)" using r by (auto simp: ref_ok_def means_def is64_def)
qed

lemma sound_leftI:
  assumes p: "prepared J" and w: "is64 J (ir_op1 (fold_ins J)) = irt_is64 (ir_t (fold_ins J))"
    and s64: "\<And>v. models J v \<Longrightarrow> irt_is64 (ir_t (fold_ins J)) \<Longrightarrow>
      sem64 (ir_o (fold_ins J)) (v (unat (ir_op1 (fold_ins J)))) (v (unat (ir_op2 (fold_ins J)))) = Some (Val (v (unat (ir_op1 (fold_ins J)))))"
    and s32: "\<And>v. models J v \<Longrightarrow> \<not> irt_is64 (ir_t (fold_ins J)) \<Longrightarrow>
      sem32 (ir_o (fold_ins J)) (ucast (v (unat (ir_op1 (fold_ins J))))) (ucast (v (unat (ir_op2 (fold_ins J))))) = Some (Val (scast (ucast (v (unat (ir_op1 (fold_ins J)))) :: u32)))"
  shows "sound J (LEFTFOLD J)"
  unfolding LEFTFOLD_def by (rule sound_refI [OF p preparedD(6) [OF p] w s64 s32])

lemma sound_rightI:
  assumes p: "prepared J" and b: "binary_op (ir_o (fold_ins J))"
    and s64: "\<And>v. models J v \<Longrightarrow> irt_is64 (ir_t (fold_ins J)) \<Longrightarrow>
      sem64 (ir_o (fold_ins J)) (v (unat (ir_op1 (fold_ins J)))) (v (unat (ir_op2 (fold_ins J)))) = Some (Val (v (unat (ir_op2 (fold_ins J)))))"
    and s32: "\<And>v. models J v \<Longrightarrow> \<not> irt_is64 (ir_t (fold_ins J)) \<Longrightarrow>
      sem32 (ir_o (fold_ins J)) (ucast (v (unat (ir_op1 (fold_ins J))))) (ucast (v (unat (ir_op2 (fold_ins J))))) = Some (Val (scast (ucast (v (unat (ir_op2 (fold_ins J)))) :: u32)))"
  shows "sound J (RIGHTFOLD J)"
  unfolding RIGHTFOLD_def
  by (rule sound_refI [OF p prepared_right(1) [OF p] right_width [OF p b] s64 s32]) (use b unary_not_binary in blast)

lemma retry_okI:
  assumes p: "prepared J" and e: "extends J J'" and t: "ir_t ir' = ir_t (fold_ins J)"
    and k: "shift_op (ir_o ir') \<or> unary_op (ir_o ir') \<or> binary_op (ir_o ir')" "ir_o ir' = IR_SUB \<Longrightarrow> ir_o (fold_ins J) = IR_SUB"
    and w: "wt J' ir'" and mu: "(fold_mu J' ir', fold_mu J (fold_ins J)) \<in> mu_less"
    and s64: "\<And>v. models J v \<Longrightarrow> models J' v \<Longrightarrow> irt_is64 (ir_t (fold_ins J)) \<Longrightarrow>
      sem64 (ir_o (fold_ins J)) (v (unat (ir_op1 (fold_ins J)))) (v (unat (ir_op2 (fold_ins J)))) =
      sem64 (ir_o ir') (v (unat (ir_op1 ir'))) (v (unat (ir_op2 ir')))"
    and s32: "\<And>v. models J v \<Longrightarrow> models J' v \<Longrightarrow> \<not> irt_is64 (ir_t (fold_ins J)) \<Longrightarrow>
      sem32 (ir_o (fold_ins J)) (ucast (v (unat (ir_op1 (fold_ins J))))) (ucast (v (unat (ir_op2 (fold_ins J))))) =
      sem32 (ir_o ir') (ucast (v (unat (ir_op1 ir')))) (ucast (v (unat (ir_op2 ir'))))"
  shows "retry_ok J (fold_ins J) J' ir'"
proof -
  have "isem v ir' = isem v (fold_ins J)" if "models J' v" for v
    using s64 [OF models_antimono [OF that preparedD(2) [OF p] e] that] s32 [OF models_antimono [OF that preparedD(2) [OF p] e] that] t
    by (cases "irt_is64 (ir_t (fold_ins J))") (simp_all add: isem_def Let_def)
  then show ?thesis using preparedD(4,8) [OF p] k w mu t by (auto simp: retry_ok_def foldable_def int_ins_def)
qed

text \<open>An operand that is itself an integer instruction.\<close>

lemma ins_facts:
  fixes r :: u16
  assumes "trace_ok J" "valid J (unat r)" "\<not> irt_isfp (ir_t (IR J (unat r)))"
    "shift_op (ir_o (IR J (unat r))) \<or> unary_op (ir_o (IR J (unat r))) \<or> binary_op (ir_o (IR J (unat r)))"
  shows "wt J (IR J (unat r))" "ref_weight (ir_op1 (IR J (unat r))) < ref_weight r" "ref_weight (ir_op2 (IR J (unat r))) < ref_weight r"
    "models J v \<Longrightarrow> is64 J r \<Longrightarrow>
      sem64 (ir_o (IR J (unat r))) (v (unat (ir_op1 (IR J (unat r))))) (v (unat (ir_op2 (IR J (unat r))))) = Some (Val x) \<Longrightarrow> v (unat r) = x"
    "models J v \<Longrightarrow> \<not> is64 J r \<Longrightarrow>
      sem32 (ir_o (IR J (unat r))) (ucast (v (unat (ir_op1 (IR J (unat r)))))) (ucast (v (unat (ir_op2 (IR J (unat r)))))) = Some (Val (scast y)) \<Longrightarrow>
      ucast (v (unat r)) = (y :: u32)"
proof -
  have i: "int_ins (IR J (unat r))" using assms by (simp add: int_ins_def)
  show "wt J (IR J (unat r))" using assms i by (simp add: trace_ok_def)
  show "ref_weight (ir_op1 (IR J (unat r))) < ref_weight r" "ref_weight (ir_op2 (IR J (unat r))) < ref_weight r"
    by (rule weight_less [OF assms(1,2) i])+
  show "models J v \<Longrightarrow> is64 J r \<Longrightarrow>
      sem64 (ir_o (IR J (unat r))) (v (unat (ir_op1 (IR J (unat r))))) (v (unat (ir_op2 (IR J (unat r))))) = Some (Val x) \<Longrightarrow> v (unat r) = x"
    using v_ins [OF _ assms(2) i, of v x] by (simp add: isem_def is64_def)
  show "models J v \<Longrightarrow> \<not> is64 J r \<Longrightarrow>
      sem32 (ir_o (IR J (unat r))) (ucast (v (unat (ir_op1 (IR J (unat r)))))) (ucast (v (unat (ir_op2 (IR J (unat r)))))) = Some (Val (scast y)) \<Longrightarrow>
      ucast (v (unat r)) = (y :: u32)"
    using v_ins [OF _ assms(2) i, of v "scast y"] by (simp add: isem_def is64_def)
qed

lemma left_ins:
  assumes p: "prepared J" and k: "shift_op (ir_o (fold_left J)) \<or> unary_op (ir_o (fold_left J)) \<or> binary_op (ir_o (fold_left J))"
  shows "is64 J (ir_op1 (fold_ins J)) = irt_is64 (ir_t (fold_ins J))" "irt_is64 (ir_t (fold_left J)) = irt_is64 (ir_t (fold_ins J))"
    "wt J (fold_left J)" "ref_weight (ir_op1 (fold_left J)) < ref_weight (ir_op1 (fold_ins J))"
    "ref_weight (ir_op2 (fold_left J)) < ref_weight (ir_op1 (fold_ins J))"
    "models J v \<Longrightarrow> irt_is64 (ir_t (fold_ins J)) \<Longrightarrow>
      sem64 (ir_o (fold_left J)) (v (unat (ir_op1 (fold_left J)))) (v (unat (ir_op2 (fold_left J)))) = Some (Val x) \<Longrightarrow> v (unat (ir_op1 (fold_ins J))) = x"
    "models J v \<Longrightarrow> \<not> irt_is64 (ir_t (fold_ins J)) \<Longrightarrow>
      sem32 (ir_o (fold_left J)) (ucast (v (unat (ir_op1 (fold_left J))))) (ucast (v (unat (ir_op2 (fold_left J))))) = Some (Val (scast y)) \<Longrightarrow>
      ucast (v (unat (ir_op1 (fold_ins J)))) = (y :: u32)"
proof -
  note P = preparedD [OF p]
  have fp: "\<not> irt_isfp (ir_t (IR J (unat (ir_op1 (fold_ins J)))))" using P(5) by (simp add: wt_def)
  show lw: "is64 J (ir_op1 (fold_ins J)) = irt_is64 (ir_t (fold_ins J))" using left_width [OF p] .
  then show "irt_is64 (ir_t (fold_left J)) = irt_is64 (ir_t (fold_ins J))" using P(7) by (simp add: is64_def)
  note F = ins_facts [OF P(1,6) fp, folded P(7), OF k, unfolded lw]
  show "wt J (fold_left J)" "ref_weight (ir_op1 (fold_left J)) < ref_weight (ir_op1 (fold_ins J))"
    "ref_weight (ir_op2 (fold_left J)) < ref_weight (ir_op1 (fold_ins J))"
    "models J v \<Longrightarrow> irt_is64 (ir_t (fold_ins J)) \<Longrightarrow>
      sem64 (ir_o (fold_left J)) (v (unat (ir_op1 (fold_left J)))) (v (unat (ir_op2 (fold_left J)))) = Some (Val x) \<Longrightarrow> v (unat (ir_op1 (fold_ins J))) = x"
    "models J v \<Longrightarrow> \<not> irt_is64 (ir_t (fold_ins J)) \<Longrightarrow>
      sem32 (ir_o (fold_left J)) (ucast (v (unat (ir_op1 (fold_left J))))) (ucast (v (unat (ir_op2 (fold_left J))))) = Some (Val (scast y)) \<Longrightarrow>
      ucast (v (unat (ir_op1 (fold_ins J)))) = (y :: u32)"
    by (fact F)+
qed

lemma right_ins:
  assumes p: "prepared J" and b: "\<not> unary_op (ir_o (fold_ins J))"
    and k: "shift_op (ir_o (fold_right J)) \<or> unary_op (ir_o (fold_right J)) \<or> binary_op (ir_o (fold_right J))"
  shows "wt J (fold_right J)" "ref_weight (ir_op1 (fold_right J)) < ref_weight (ir_op2 (fold_ins J))"
    "ref_weight (ir_op2 (fold_right J)) < ref_weight (ir_op2 (fold_ins J))"
    "irt_is64 (ir_t (fold_right J)) = is64 J (ir_op2 (fold_ins J))"
    "models J v \<Longrightarrow> is64 J (ir_op2 (fold_ins J)) \<Longrightarrow>
      sem64 (ir_o (fold_right J)) (v (unat (ir_op1 (fold_right J)))) (v (unat (ir_op2 (fold_right J)))) = Some (Val x) \<Longrightarrow> v (unat (ir_op2 (fold_ins J))) = x"
    "models J v \<Longrightarrow> \<not> is64 J (ir_op2 (fold_ins J)) \<Longrightarrow>
      sem32 (ir_o (fold_right J)) (ucast (v (unat (ir_op1 (fold_right J))))) (ucast (v (unat (ir_op2 (fold_right J))))) = Some (Val (scast y)) \<Longrightarrow>
      ucast (v (unat (ir_op2 (fold_ins J)))) = (y :: u32)"
proof -
  note P = preparedD [OF p] and R = prepared_right [OF p b]
  have fp: "\<not> irt_isfp (ir_t (IR J (unat (ir_op2 (fold_ins J)))))" using P(5) b by (simp add: wt_def)
  note F = ins_facts [OF P(1) R(1) fp, folded R(2), OF k]
  show "wt J (fold_right J)" "ref_weight (ir_op1 (fold_right J)) < ref_weight (ir_op2 (fold_ins J))"
    "ref_weight (ir_op2 (fold_right J)) < ref_weight (ir_op2 (fold_ins J))"
    "models J v \<Longrightarrow> is64 J (ir_op2 (fold_ins J)) \<Longrightarrow>
      sem64 (ir_o (fold_right J)) (v (unat (ir_op1 (fold_right J)))) (v (unat (ir_op2 (fold_right J)))) = Some (Val x) \<Longrightarrow> v (unat (ir_op2 (fold_ins J))) = x"
    "models J v \<Longrightarrow> \<not> is64 J (ir_op2 (fold_ins J)) \<Longrightarrow>
      sem32 (ir_o (fold_right J)) (ucast (v (unat (ir_op1 (fold_right J))))) (ucast (v (unat (ir_op2 (fold_right J))))) = Some (Val (scast y)) \<Longrightarrow>
      ucast (v (unat (ir_op2 (fold_ins J)))) = (y :: u32)"
    by (fact F)+
  show "irt_is64 (ir_t (fold_right J)) = is64 J (ir_op2 (fold_ins J))" using R(2) by (simp add: is64_def)
qed

section \<open>Equality of constants and shortcuts\<close>

lemma kint64_unique:
  assumes "ir_ok J" "valid J r" "valid J r'" "ir_o (IR J r) = IR_KINT64" "ir_o (IR J r') = IR_KINT64"
    "ir_k64 J (IR J r) = ir_k64 J (IR J r')"
  shows "r = r'"
proof -
  have k: "kop IR_KINT64" by (simp add: kop_def ir_codes)
  have "ir_ptr (IR J r) < length (concat (j_k64 J))" "ir_ptr (IR J r') < length (concat (j_k64 J))" "distinct (concat (j_k64 J))"
    using const_in_chain (3) [of J r] const_in_chain (3) [of J r'] assms k by (auto simp: kdata_def ir_ok_def kuniq_def)
  then have "ir_ptr (IR J r) = ir_ptr (IR J r')" using assms(6) by (simp add: ir_k64_def nth_eq_iff_index_eq)
  then have "ir_op12 (IR J r) = ir_op12 (IR J r')" by (simp add: ir_ptr_def word_unat_eq_iff)
  then show ?thesis using assms k by (intro const_unique [OF assms(1-3)]) (auto simp: kkey_def ir_codes)
qed

lemma kfold_kref_sound:
  assumes p: "prepared J" and op: "ir_o (fold_ins J) = IR_EQ \<or> ir_o (fold_ins J) = IR_NE"
    and k: "ir_o (fold_left J) = IR_KINT \<and> ir_o (fold_right J) = IR_KINT \<or> ir_o (fold_left J) = IR_KINT64 \<and> ir_o (fold_right J) = IR_KINT64"
  shows "sound J (kfold_kref e J)"
proof -
  note P = preparedD [OF p]
  have u: "\<not> unary_op (ir_o (fold_ins J))" and b: "binary_op (ir_o (fold_ins J))" and ns: "ir_o (fold_ins J) \<noteq> IR_SUB"
    using op by (auto simp: ir_codes op_kinds)
  note R = prepared_right [OF p u]
  have "m = Cond ((ir_op1 (fold_ins J) = ir_op2 (fold_ins J)) \<noteq> (ir_o (fold_ins J) = IR_NE))" if v: "models J v" "isem v (fold_ins J) = Some m" for v m
    using k
  proof
    assume k: "ir_o (fold_left J) = IR_KINT \<and> ir_o (fold_right J) = IR_KINT"
    have "ir_i (fold_left J) = ir_i (fold_right J) \<Longrightarrow> unat (ir_op1 (fold_ins J)) = unat (ir_op2 (fold_ins J))"
      using k P R by (intro const_unique [OF P(2,6) R(1)]) (auto simp: kop_def kkey_def ir_codes ir_i_def)
    then have "ir_op1 (fold_ins J) = ir_op2 (fold_ins J) \<longleftrightarrow> ir_i (fold_left J) = ir_i (fold_right J)"
      using P(7) R(2) by (auto simp: word_unat_eq_iff)
    moreover have "\<not> irt_is64 (ir_t (fold_ins J))" using right_kint (2) [OF p conjunct2 [OF k] u b] .
    then have "sem32 (ir_o (fold_ins J)) (ir_i (fold_left J)) (ir_i (fold_right J)) = Some m"
      using v(2) by (simp add: isem_def left_kint (1) [OF p conjunct1 [OF k] v(1)] right_kint (1) [OF p conjunct2 [OF k] u v(1)])
    ultimately show ?thesis using op by (auto simp: sem_eval)
  next
    assume k: "ir_o (fold_left J) = IR_KINT64 \<and> ir_o (fold_right J) = IR_KINT64"
    have "ir_k64 J (fold_left J) = ir_k64 J (fold_right J) \<Longrightarrow> unat (ir_op1 (fold_ins J)) = unat (ir_op2 (fold_ins J))"
      using k P R by (intro kint64_unique [OF P(2,6) R(1)]) auto
    then have "ir_op1 (fold_ins J) = ir_op2 (fold_ins J) \<longleftrightarrow> ir_k64 J (fold_left J) = ir_k64 J (fold_right J)"
      using P(7) R(2) by (auto simp: word_unat_eq_iff)
    moreover have "sem64 (ir_o (fold_ins J)) (ir_k64 J (fold_left J)) (ir_k64 J (fold_right J)) = Some m"
      using v(2) by (simp add: isem_def left_kint64 [OF p conjunct1 [OF k]] v(1) right_kint64 (1) [OF p conjunct2 [OF k] u v(1)])
    ultimately show ?thesis using op by (auto simp: sem_eval)
  qed
  then show ?thesis unfolding kfold_kref_def by (intro sound_cond [OF p]) (auto simp: means_def)
qed

end
