(* ===== verification/LJ_FoldAlg.thy ===== *)
theory LJ_FoldAlg
  imports LJ_FoldRules
begin

text \<open>
  Soundness of the algebraic simplifications of integer instructions: shortcuts, identities with
  constants, strength reduction, cancellation of sums and differences, and shifts.
\<close>

section \<open>Shortcuts\<close>

lemma sound_phi: "prepared J \<Longrightarrow> sound J k \<Longrightarrow> sound J (PHIBARRIER ir J k)"
  by (simp add: PHIBARRIER_def)

lemma bswap_bswap [simp]: "lj_bswap (lj_bswap x) = x"
proof (rule bit_word_eqI)
  fix k assume k: "k < LENGTH(32)"
  define j where "j = 8 * (3 - k div 8) + k mod 8"
  have "k div 8 \<le> 3" using k by auto
  then have j: "j < 32" "j div 8 = 3 - k div 8" "j mod 8 = k mod 8" by (auto simp: j_def)
  have "8 * (3 - j div 8) + j mod 8 = k" using j \<open>k div 8 \<le> 3\<close> mult_div_mod_eq [of 8 k] by simp
  then show "bit (lj_bswap (lj_bswap x)) k = bit x k" using k j(1) by (simp add: bswap_bit j_def [symmetric])
qed

lemma halves: "(ucast (ucast (a :: u32) OR push_bit 32 (ucast (b :: u32)) :: u64) :: u32) = a"
  "(ucast (drop_bit 32 (ucast (a :: u32) OR push_bit 32 (ucast (b :: u32)) :: u64)) :: u32) = b"
proof -
  have "bit a (32 + n) = False" for n using bit_imp_le_length [of a "32 + n"] by auto
  then show "(ucast (drop_bit 32 (ucast (a :: u32) OR push_bit 32 (ucast (b :: u32)) :: u64)) :: u32) = b"
    by (auto intro!: bit_word_eqI simp: bit_simps)
qed (auto intro!: bit_word_eqI simp: bit_simps)

lemma split64: "(ucast (ucast (x :: u64) :: u32) :: u64) OR push_bit 32 (ucast (ucast (drop_bit 32 x) :: u32)) = x"
proof (rule bit_word_eqI)
  fix n assume "n < LENGTH(64)"
  then consider "n < 32" | "32 \<le> n" "n < 64" by fastforce
  then show "bit ((ucast (ucast (x :: u64) :: u32) :: u64) OR push_bit 32 (ucast (ucast (drop_bit 32 x) :: u32))) n = bit x n"
    by cases (simp_all add: bit_simps less_diff_conv2)
qed

lemma bswap64_bswap64 [simp]: "lj_bswap64 (lj_bswap64 x) = x"
proof -
  have "(ucast (lj_bswap64 x) :: u32) = lj_bswap (ucast (drop_bit 32 x))" "(ucast (drop_bit 32 (lj_bswap64 x)) :: u32) = lj_bswap (ucast x)"
    by (simp_all only: lj_bswap64_def halves)
  then show ?thesis using split64 [of x] by (simp only: lj_bswap64_def [of "lj_bswap64 x"] bswap_bswap)
qed

lemma ucast_m1 [simp]: "(ucast (-1 :: u64) :: u32) = -1"
  by (rule bit_word_eqI) (simp add: bit_simps)

lemma shortcut_leftleft_sound:
  assumes p: "prepared J" and op: "ir_o (fold_ins J) \<in> {IR_NEG, IR_BNOT, IR_BSWAP}" and l: "ir_o (fold_left J) = ir_o (fold_ins J)"
  shows "sound J (shortcut_leftleft e J)"
proof -
  have k: "shift_op (ir_o (fold_left J)) \<or> unary_op (ir_o (fold_left J)) \<or> binary_op (ir_o (fold_left J))" and s: "ir_o (fold_left J) \<noteq> IR_SUB"
    using op l by (auto simp: op_kinds ir_codes)
  note L = left_ins [OF p k]
  have r: "valid J (unat (ir_op1 (fold_left J)))" "is64 J (ir_op1 (fold_left J)) = irt_is64 (ir_t (fold_ins J))"
    using L(2,3) s by (auto simp: wt_def)
  have "sound J (ret (unat (ir_op1 (fold_left J))) J)"
  proof (rule sound_refI [OF p r])
    fix v assume v: "models J v" and w: "irt_is64 (ir_t (fold_ins J))"
    show "sem64 (ir_o (fold_ins J)) (v (unat (ir_op1 (fold_ins J)))) (v (unat (ir_op2 (fold_ins J)))) = Some (Val (v (unat (ir_op1 (fold_left J)))))"
      using op L(6) [OF v w] unfolding l by (auto simp: sem_eval)
  next
    fix v assume v: "models J v" and w: "\<not> irt_is64 (ir_t (fold_ins J))"
    show "sem32 (ir_o (fold_ins J)) (ucast (v (unat (ir_op1 (fold_ins J))))) (ucast (v (unat (ir_op2 (fold_ins J))))) =
      Some (Val (scast (ucast (v (unat (ir_op1 (fold_left J)))) :: u32)))"
      using op L(7) [OF v w] unfolding l by (auto simp: sem_eval)
  qed
  then show ?thesis unfolding shortcut_leftleft_def by (rule sound_phi [OF p])
qed

section \<open>Identities with constants\<close>

lemma simplify_intadd_k_sound:
  assumes p: "prepared J" and op: "ir_o (fold_ins J) = IR_ADD" and k: "ir_o (fold_right J) = IR_KINT"
  shows "sound J (simplify_intadd_k e J)"
proof -
  have u: "\<not> unary_op (ir_o (fold_ins J))" and w: "\<not> irt_is64 (ir_t (fold_ins J))" and lw: "is64 J (ir_op1 (fold_ins J)) = irt_is64 (ir_t (fold_ins J))"
    using right_kint (2) [OF p k] left_width [OF p] op by auto
  show ?thesis using p unfolding simplify_intadd_k_def
    by (auto intro!: sound_leftI [OF p lw] simp: w op sem_eval right_kint (1) [OF p k u])
qed

lemma simplify_intadd_k64_sound:
  assumes p: "prepared J" and op: "ir_o (fold_ins J) = IR_ADD" and k: "ir_o (fold_right J) = IR_KINT64"
  shows "sound J (simplify_intadd_k64 e J)"
proof -
  have u: "\<not> unary_op (ir_o (fold_ins J))" and w: "irt_is64 (ir_t (fold_ins J))" and lw: "is64 J (ir_op1 (fold_ins J)) = irt_is64 (ir_t (fold_ins J))"
    using right_kint64 (2) [OF p k] left_width [OF p] op by auto
  show ?thesis using p unfolding simplify_intadd_k64_def
    by (auto intro!: sound_leftI [OF p lw] simp: w op sem_eval right_kint64 (1) [OF p k u])
qed

text \<open>The constant operand of either width.\<close>

lemma k_int64_right:
  assumes p: "prepared J" and u: "\<not> unary_op (ir_o (fold_ins J))" and k: "ir_o (fold_right J) = IR_KINT \<or> ir_o (fold_right J) = IR_KINT64"
  shows "models J v \<Longrightarrow> v (unat (ir_op2 (fold_ins J))) = k_int64 J (fold_right J)"
  using k right_kint (1) [OF p _ u] right_kint64 (1) [OF p _ u] by (auto simp: k_int64_def)

lemma k_int64_left:
  assumes p: "prepared J" and k: "ir_o (fold_left J) = IR_KINT \<or> ir_o (fold_left J) = IR_KINT64"
  shows "models J v \<Longrightarrow> v (unat (ir_op1 (fold_ins J))) = k_int64 J (fold_left J)"
  using k left_kint (1) [OF p] left_kint64 (1) [OF p] by (auto simp: k_int64_def)

lemma simplify_band_k_sound:
  assumes p: "prepared J" and op: "ir_o (fold_ins J) = IR_BAND" and k: "ir_o (fold_right J) = IR_KINT \<or> ir_o (fold_right J) = IR_KINT64"
  shows "sound J (simplify_band_k e J)"
proof -
  have u: "\<not> unary_op (ir_o (fold_ins J))" and b: "binary_op (ir_o (fold_ins J))" and lw: "is64 J (ir_op1 (fold_ins J)) = irt_is64 (ir_t (fold_ins J))"
    using left_width [OF p] op by auto
  show ?thesis using p unfolding simplify_band_k_def Let_def
    by (auto intro!: sound_leftI [OF p lw] sound_rightI [OF p b] simp: op sem_eval k_int64_right [OF p u k])
qed

lemma simplify_bor_k_sound:
  assumes p: "prepared J" and op: "ir_o (fold_ins J) = IR_BOR" and k: "ir_o (fold_right J) = IR_KINT \<or> ir_o (fold_right J) = IR_KINT64"
  shows "sound J (simplify_bor_k e J)"
proof -
  have u: "\<not> unary_op (ir_o (fold_ins J))" and b: "binary_op (ir_o (fold_ins J))" and lw: "is64 J (ir_op1 (fold_ins J)) = irt_is64 (ir_t (fold_ins J))"
    using left_width [OF p] op by auto
  show ?thesis using p unfolding simplify_bor_k_def Let_def
    by (auto intro!: sound_leftI [OF p lw] sound_rightI [OF p b] simp: op sem_eval k_int64_right [OF p u k])
qed

section \<open>Strength reduction\<close>

lemma set_o_simps [simp]:
  "ir_o (set_o x ir) = x" "ir_t (set_o x ir) = ir_t ir" "ir_op1 (set_o x ir) = ir_op1 ir" "ir_op2 (set_o x ir) = ir_op2 ir"
  by (simp_all add: set_o_def)

text \<open>Validity, width and kind of the operands carry over to a later state.\<close>

lemma is64_extends: "extends J J' \<Longrightarrow> valid J (unat r) \<Longrightarrow> is64 J' r = is64 J r"
  by (auto simp: is64_def dest: extends_valid)

lemma left_later:
  assumes "prepared J" "extends J J'"
  shows "valid J' (unat (ir_op1 (fold_ins J)))" "\<not> irt_isfp (ir_t (IR J' (unat (ir_op1 (fold_ins J)))))"
    "is64 J' (ir_op1 (fold_ins J)) = is64 J (ir_op1 (fold_ins J))"
  using preparedD [OF assms(1)] extends_valid [OF assms(2), of "unat (ir_op1 (fold_ins J))"] is64_extends [OF assms(2)] by (auto simp: wt_def)

lemma kint_facts:
  assumes "ir_ok J" "valid J r" "ir_o (IR J r) = IR_KINT"
  shows "\<not> irt_is64 (ir_t (IR J r))" "\<not> irt_isfp (ir_t (IR J r))"
proof -
  have "ir_t (IR J r) = IRT_INT" using const_in_chain (3) [OF assms(1,2)] assms(3) by (simp add: kop_def kdata_def ir_codes)
  then show "\<not> irt_is64 (ir_t (IR J r))" "\<not> irt_isfp (ir_t (IR J r))"
    by (simp_all add: irt_isfp_def irt_isnum_def irt_isfloat_def irt_type_def irt_codes) (simp add: irt_is64_def IRT_IS64_def irt_type_def irt_codes bit_simps)
qed

lemma kint64_facts:
  assumes "ir_ok J" "valid J r" "ir_o (IR J r) = IR_KINT64"
  shows "irt_is64 (ir_t (IR J r))" "\<not> irt_isfp (ir_t (IR J r))"
proof -
  have "ir_t (IR J r) = IRT_I64" using const_in_chain (3) [OF assms(1,2)] assms(3) by (simp add: kop_def kdata_def ir_codes)
  then show "irt_is64 (ir_t (IR J r))" "\<not> irt_isfp (ir_t (IR J r))" by (simp_all add: irt_isfp_def irt_isnum_def irt_isfloat_def irt_type_def irt_codes) (simp add: irt_is64_def IRT_IS64_def irt_type_def irt_codes bit_simps)
qed

lemma simplify_bxor_k_sound:
  assumes p: "prepared J" and op: "ir_o (fold_ins J) = IR_BXOR" and k: "ir_o (fold_right J) = IR_KINT \<or> ir_o (fold_right J) = IR_KINT64"
  shows "sound J (simplify_bxor_k e J)"
proof -
  have u: "\<not> unary_op (ir_o (fold_ins J))" and lw: "is64 J (ir_op1 (fold_ins J)) = irt_is64 (ir_t (fold_ins J))"
    using left_width [OF p] op by auto
  have "sound J (LEFTFOLD J)" if "k_int64 J (fold_right J) = 0"
    by (rule sound_leftI [OF p lw]) (simp_all add: op sem_eval k_int64_right [OF p u k] that)
  moreover have "sound J (ret RETRYFOLD (upd_fins (\<lambda>ir. set_op2 0 (set_o IR_BNOT ir)) J))" if "k_int64 J (fold_right J) = -1"
    by (rule sound_retry [OF p], rule retry_okI [OF p extends_refl])
      (use left_later [OF p extends_refl] lw in \<open>auto simp: op sem_eval k_int64_right [OF p u k] that wt_def fold_rank_def intro: mu_rank\<close>)
  ultimately show ?thesis using p by (simp add: simplify_bxor_k_def Let_def)
qed

lemma simplify_intsub_k_sound:
  assumes p: "prepared J" and op: "ir_o (fold_ins J) = IR_SUB" and k: "ir_o (fold_right J) = IR_KINT"
  shows "sound J (simplify_intsub_k e J)"
proof -
  have u: "\<not> unary_op (ir_o (fold_ins J))" and w: "\<not> irt_is64 (ir_t (fold_ins J))"
    using right_kint (2) [OF p k] op by auto
  note lw = left_width [OF p]
  have "sound J (LEFTFOLD J)" if "ir_i (fold_right J) = 0"
    by (rule sound_leftI [OF p lw]) (simp_all add: op w sem_eval right_kint (1) [OF p k u] that)
  moreover have "sound J (kint_op2 (NOT (ir_i (fold_right J)) + 1) e (upd_fins (set_o IR_ADD) J))"
    unfolding kint_op2_def
  proof (rule sound_kint [OF p])
    fix J' and r :: u16
    assume J': "ir_ok J'" "trace_ok J'" "extends J J'" "valid J' (unat r)" "ir_o (IR J' (unat r)) = IR_KINT" "ir_i (IR J' (unat r)) = NOT (ir_i (fold_right J)) + 1"
    show "retry_ok J (fold_ins J) J' (set_op2 r (set_o IR_ADD (fold_ins J)))"
      by (rule retry_okI [OF p J'(3)])
        (use left_later [OF p J'(3)] lw w J' kint_facts [OF J'(1,4,5)] in \<open>auto simp: op sem_eval wt_def is64_def fold_rank_def right_kint (1) [OF p k u]
          v_kint [of J'] neg32 intro: mu_rank\<close>)
  qed
  ultimately show ?thesis by (simp add: simplify_intsub_k_def)
qed

lemma simplify_intsub_k64_sound:
  assumes p: "prepared J" and op: "ir_o (fold_ins J) = IR_SUB" and k: "ir_o (fold_right J) = IR_KINT64"
  shows "sound J (simplify_intsub_k64 e J)"
  using right_kint64 (2) [OF p k] preparedD(8) [OF p] op by simp

lemma simplify_intsub_kleft_sound:
  assumes p: "prepared J" and op: "ir_o (fold_ins J) = IR_SUB" and k: "ir_o (fold_left J) = IR_KINT \<or> ir_o (fold_left J) = IR_KINT64"
  shows "sound J (simplify_intsub_kleft e J)"
proof -
  have w: "\<not> irt_is64 (ir_t (fold_ins J))" using preparedD(8) [OF p op] .
  then have k: "ir_o (fold_left J) = IR_KINT" using k left_kint64 (2) [OF p] by blast
  have u: "\<not> unary_op (ir_o (fold_ins J))" using op by simp
  have "sound J (ret RETRYFOLD (upd_fins (\<lambda>ir. set_op1 (ir_op2 ir) (set_o IR_NEG ir)) J))" if "ir_i (fold_left J) = 0"
    by (rule sound_retry [OF p], rule retry_okI [OF p extends_refl])
      (use preparedD(5) [OF p] in \<open>auto simp: op w sem_eval left_kint (1) [OF p k] that wt_def fold_rank_def intro: mu_rank\<close>)
  then show ?thesis using p k by (auto simp: simplify_intsub_kleft_def)
qed

lemma pow2_fls:
  assumes k: "(k :: u32) \<noteq> 0" "k AND (k - 1) = 0"
  shows "k = 2 ^ lj_fls k" "unat k = 2 ^ lj_fls k"
proof -
  define f where "f = lj_fls k"
  have f: "f < 32" "bit k f" "2 ^ f \<le> unat k" "unat k < 2 ^ (f + 1)" using lj_fls_bit [OF k(1)] lj_fls_bounds [OF k(1)] by (auto simp: f_def)
  have "unat k = 2 ^ f"
  proof (rule ccontr)
    assume "unat k \<noteq> 2 ^ f"
    then have n: "unat (k - 1) = unat k - 1" "2 ^ f \<le> unat k - 1" "unat k - 1 < 2 * 2 ^ f" using f k(1) by (auto simp: unat_minus_one)
    then have "(unat k - 1) div 2 ^ f = 1" by (simp add: div_eq_dividend_iff div_nat_eqI)
    then have "bit (unat (k - 1)) f" using n by (simp add: bit_iff_odd)
    then have "bit (k AND (k - 1)) f" using f by (simp add: bit_and_iff bit_unsigned_iff)
    then show False using k(2) by simp
  qed
  then show "unat k = 2 ^ lj_fls k" by (simp add: f_def)
  then have "k = of_nat (2 ^ lj_fls k)" by (metis of_nat_unat ucast_id)
  then show "k = 2 ^ lj_fls k" by simp
qed

lemma fls_count:
  assumes "f < 32"
  shows "unat (of_nat f :: u32) mod 32 = f" "unat (scast (of_nat f :: u32) :: u64) mod 64 = f"
proof -
  have u: "unat (of_nat f :: u32) = f" using assms by (intro unat_of_nat_small) simp
  then show "unat (of_nat f :: u32) mod 32 = f" using assms by simp
  show "unat (scast (of_nat f :: u32) :: u64) mod 64 = f" using u assms by (simp add: count64 (2) mask_mod)
qed

lemma simplify_intmul_k_sound:
  assumes p: "prepared J" and op: "ir_o (fold_ins J) = IR_MUL" and k: "k \<noteq> 0"
    and k32: "\<And>v. models J v \<Longrightarrow> \<not> irt_is64 (ir_t (fold_ins J)) \<Longrightarrow> ucast (v (unat (ir_op2 (fold_ins J)))) = k"
    and k64: "\<And>v. models J v \<Longrightarrow> irt_is64 (ir_t (fold_ins J)) \<Longrightarrow> v (unat (ir_op2 (fold_ins J))) = ucast k"
  shows "sound J (simplify_intmul_k k e J)"
proof -
  note lw = left_width [OF p]
  have one: "(ucast (1 :: u32) :: u64) = 1" by simp
  have "sound J (LEFTFOLD J)" if "k = 1"
    by (rule sound_leftI [OF p lw]) (use that in \<open>simp_all add: op sem_eval k32 k64 one\<close>)
  moreover have "sound J (kint_op2 (of_nat (lj_fls k)) e (upd_fins (set_o IR_BSHL) J))" if z: "k AND (k - 1) = 0"
    unfolding kint_op2_def
  proof (rule sound_kint [OF p])
    fix J' and r :: u16
    assume J': "ir_ok J'" "trace_ok J'" "extends J J'" "valid J' (unat r)" "ir_o (IR J' (unat r)) = IR_KINT" "ir_i (IR J' (unat r)) = of_nat (lj_fls k)"
    note P = pow2_fls [OF k z] and C = fls_count [OF conjunct1 [OF lj_fls_bit [OF k]]]
    have "(ucast k :: u64) = of_nat (unat k)" by simp
    then have "(ucast k :: u64) = 2 ^ lj_fls k" unfolding P(2) by simp
    then show "retry_ok J (fold_ins J) J' (set_op2 r (set_o IR_BSHL (fold_ins J)))"
      by (intro retry_okI [OF p J'(3)])
        (use left_later [OF p J'(3)] lw J' kint_facts [OF J'(1,4,5)] in \<open>auto simp: op sem_eval wt_def fold_rank_def k32 k64
          v_kint [of J'] C push_bit_eq_mult P(1) [symmetric] intro: mu_rank\<close>)
  qed
  ultimately show ?thesis using p by (simp add: simplify_intmul_k_def)
qed

lemma simplify_intmul_k32_sound:
  assumes p: "prepared J" and op: "ir_o (fold_ins J) = IR_MUL" and k: "ir_o (fold_right J) = IR_KINT"
  shows "sound J (simplify_intmul_k32 e J)"
proof -
  have u: "\<not> unary_op (ir_o (fold_ins J))" and w: "\<not> irt_is64 (ir_t (fold_ins J))" using right_kint (2) [OF p k] op by auto
  have "sound J (INTFOLD 0 J)" if "ir_i (fold_right J) = 0"
    by (rule sound_int [OF p w]) (simp add: means_def isem_def w op sem_eval right_kint (1) [OF p k u] that)
  moreover have "sound J (simplify_intmul_k (ir_i (fold_right J)) e J)" if "ir_i (fold_right J) \<noteq> 0"
    by (rule simplify_intmul_k_sound [OF p op that]) (simp_all add: w right_kint (1) [OF p k u])
  ultimately show ?thesis using p by (simp add: simplify_intmul_k32_def)
qed

lemma simplify_intmul_k64_sound:
  assumes p: "prepared J" and op: "ir_o (fold_ins J) = IR_MUL" and k: "ir_o (fold_right J) = IR_KINT64"
  shows "sound J (simplify_intmul_k64 e J)"
proof -
  let ?k = "ir_k64 J (fold_right J)"
  have u: "\<not> unary_op (ir_o (fold_ins J))" and w: "irt_is64 (ir_t (fold_ins J))" using right_kint64 (2) [OF p k] op by auto
  have "sound J (INT64FOLD 0 e J)" if "?k = 0"
    by (rule sound_int64 [OF p w]) (simp add: means_def isem_def w op sem_eval right_kint64 (1) [OF p k u] that)
  moreover have "sound J (simplify_intmul_k (ucast ?k) e J)" if "?k \<noteq> 0" "?k < 0x80000000"
  proof -
    have "unat ?k < 2 ^ 32" using that(2) by (simp add: word_less_nat_alt)
    then have "unat (ucast ?k :: u32) = unat ?k" by (simp add: unsigned_ucast_eq take_bit_nat_eq_self)
    then have s: "(ucast (ucast ?k :: u32) :: u64) = ?k" by (metis of_nat_unat ucast_id)
    then have "(ucast ?k :: u32) \<noteq> 0" using that(1) by auto
    then show ?thesis by (rule simplify_intmul_k_sound [OF p op]) (simp_all add: w s right_kint64 (1) [OF p k u])
  qed
  ultimately show ?thesis using p by (simp add: simplify_intmul_k64_def Let_def)
qed

lemma mod_pow2:
  assumes "sint k > 0" "(k :: u32) AND (k - 1) = 0"
  shows "a AND (k - 1) = word_of_int (sint a mod sint k)"
proof -
  have k0: "k \<noteq> 0" using assms(1) by auto
  define f where "f = lj_fls k"
  have f: "k = 2 ^ f" "unat k = 2 ^ f" using pow2_fls [OF k0 assms(2)] by (auto simp: f_def)
  have s: "sint k = 2 ^ f" using unat32_sint [of k] assms(1) f(2) by (metis not_less_iff_gr_or_eq of_nat_numeral of_nat_power)
  have "a AND (k - 1) = take_bit f a" by (simp add: f(1) take_bit_eq_mask mask_eq_exp_minus_1)
  also have "\<dots> = word_of_int (take_bit f (sint a))"
  proof (rule bit_word_eqI)
    fix n assume "n < LENGTH(32)"
    then have "min n 31 = n" by simp
    then show "bit (take_bit f a) n = bit (word_of_int (take_bit f (sint a)) :: u32) n"
      using \<open>n < LENGTH(32)\<close> by (auto simp: bit_simps min.commute)
  qed
  finally show ?thesis by (simp add: s take_bit_eq_mod)
qed

lemma simplify_intmod_k_sound:
  assumes p: "prepared J" and op: "ir_o (fold_ins J) = IR_MOD" and k: "ir_o (fold_right J) = IR_KINT"
  shows "sound J (simplify_intmod_k e J)"
proof -
  let ?k = "ir_i (fold_right J)"
  have u: "\<not> unary_op (ir_o (fold_ins J))" and w: "\<not> irt_is64 (ir_t (fold_ins J))" using right_kint (2) [OF p k] op by auto
  note lw = left_width [OF p]
  have "sound J (kint_op2 (?k - 1) e (upd_fins (set_o IR_BAND) J))" if z: "sint ?k > 0" "?k AND (?k - 1) = 0"
    unfolding kint_op2_def
  proof (rule sound_kint [OF p])
    fix J' and r :: u16
    assume J': "ir_ok J'" "trace_ok J'" "extends J J'" "valid J' (unat r)" "ir_o (IR J' (unat r)) = IR_KINT" "ir_i (IR J' (unat r)) = ?k - 1"
    have "?k \<noteq> 0" using z(1) by auto
    then have "sem32 IR_MOD a ?k = sem32 IR_BAND a (?k - 1)" for a
      using mod_pow2 [OF z] by (simp add: sem_eval) (simp add: sem32_def alu_def ir_codes)
    then show "retry_ok J (fold_ins J) J' (set_op2 r (set_o IR_BAND (fold_ins J)))"
      by (intro retry_okI [OF p J'(3)])
        (use left_later [OF p J'(3)] lw w J' kint_facts [OF J'(1,4,5)] in \<open>auto simp: op wt_def is64_def fold_rank_def right_kint (1) [OF p k u]
          v_kint [of J'] intro: mu_rank\<close>)
  qed
  then show ?thesis using p by (simp add: simplify_intmod_k_def Let_def)
qed

lemma simplify_intmod_kleft_sound:
  assumes p: "prepared J" and op: "ir_o (fold_ins J) = IR_MOD" and k: "ir_o (fold_left J) = IR_KINT"
  shows "sound J (simplify_intmod_kleft e J)"
proof -
  have w: "\<not> irt_is64 (ir_t (fold_ins J))" using left_kint (2) [OF p k] .
  have "sem32 IR_MOD 0 b = Some m \<Longrightarrow> m = Val 0" for b m by (auto simp: sem32_def alu_def cmp_def ir_codes split: if_splits)
  then have "sound J (INTFOLD 0 J)" if "ir_i (fold_left J) = 0"
    by (intro sound_int [OF p w]) (auto simp: means_def isem_def w op left_kint (1) [OF p k] that)
  then show ?thesis using p by (simp add: simplify_intmod_kleft_def)
qed

lemma int_not_num: "prepared J \<Longrightarrow> \<not> irt_isnum (ir_t (fold_ins J))"
  using preparedD(4) [of J] by (auto simp: int_ins_def irt_isfp_def)

lemma simplify_intsub_sound:
  assumes p: "prepared J" and op: "ir_o (fold_ins J) = IR_SUB"
  shows "sound J (simplify_intsub e J)"
proof -
  have w: "\<not> irt_is64 (ir_t (fold_ins J))" using preparedD(8) [OF p op] .
  have "sound J (INTFOLD 0 J)" if "ir_op1 (fold_ins J) = ir_op2 (fold_ins J)"
    by (rule sound_int [OF p w]) (simp add: means_def isem_def w op sem_eval that)
  then show ?thesis using p w by (simp add: simplify_intsub_def)
qed

section \<open>Cancellation\<close>

text \<open>A sum or difference as an operand of a 32 bit instruction.\<close>

lemma left_addsub:
  assumes p: "prepared J" and w: "\<not> irt_is64 (ir_t (fold_ins J))" and l: "ir_o (fold_left J) = IR_ADD \<or> ir_o (fold_left J) = IR_SUB"
  shows "valid J (unat (ir_op1 (fold_left J)))" "valid J (unat (ir_op2 (fold_left J)))" "\<not> is64 J (ir_op1 (fold_left J))" "\<not> is64 J (ir_op2 (fold_left J))"
    "\<not> irt_isfp (ir_t (IR J (unat (ir_op1 (fold_left J)))))" "\<not> irt_isfp (ir_t (IR J (unat (ir_op2 (fold_left J)))))"
    "ir_o (fold_left J) = IR_ADD \<Longrightarrow> models J v \<Longrightarrow>
      (ucast (v (unat (ir_op1 (fold_ins J)))) :: u32) = ucast (v (unat (ir_op1 (fold_left J)))) + ucast (v (unat (ir_op2 (fold_left J))))"
    "ir_o (fold_left J) = IR_SUB \<Longrightarrow> models J v \<Longrightarrow>
      (ucast (v (unat (ir_op1 (fold_ins J)))) :: u32) = ucast (v (unat (ir_op1 (fold_left J)))) - ucast (v (unat (ir_op2 (fold_left J))))"
proof -
  have k: "shift_op (ir_o (fold_left J)) \<or> unary_op (ir_o (fold_left J)) \<or> binary_op (ir_o (fold_left J))"
    "\<not> unary_op (ir_o (fold_left J))" "binary_op (ir_o (fold_left J))" using l by auto
  note L = left_ins [OF p k(1)]
  show "valid J (unat (ir_op1 (fold_left J)))" "valid J (unat (ir_op2 (fold_left J)))" "\<not> is64 J (ir_op1 (fold_left J))" "\<not> is64 J (ir_op2 (fold_left J))"
    "\<not> irt_isfp (ir_t (IR J (unat (ir_op1 (fold_left J)))))" "\<not> irt_isfp (ir_t (IR J (unat (ir_op2 (fold_left J)))))"
    using L(2,3) w k by (auto simp: wt_def)
qed (use left_ins (7) [OF p _ _ w] in \<open>simp_all add: sem_eval\<close>)

lemma right_addsub:
  assumes p: "prepared J" and w: "\<not> irt_is64 (ir_t (fold_ins J))" and b: "binary_op (ir_o (fold_ins J))"
    and l: "ir_o (fold_right J) = IR_ADD \<or> ir_o (fold_right J) = IR_SUB"
  shows "valid J (unat (ir_op1 (fold_right J)))" "valid J (unat (ir_op2 (fold_right J)))" "\<not> is64 J (ir_op1 (fold_right J))" "\<not> is64 J (ir_op2 (fold_right J))"
    "\<not> irt_isfp (ir_t (IR J (unat (ir_op1 (fold_right J)))))" "\<not> irt_isfp (ir_t (IR J (unat (ir_op2 (fold_right J)))))"
    "ir_o (fold_right J) = IR_ADD \<Longrightarrow> models J v \<Longrightarrow>
      (ucast (v (unat (ir_op2 (fold_ins J)))) :: u32) = ucast (v (unat (ir_op1 (fold_right J)))) + ucast (v (unat (ir_op2 (fold_right J))))"
    "ir_o (fold_right J) = IR_SUB \<Longrightarrow> models J v \<Longrightarrow>
      (ucast (v (unat (ir_op2 (fold_ins J)))) :: u32) = ucast (v (unat (ir_op1 (fold_right J)))) - ucast (v (unat (ir_op2 (fold_right J))))"
proof -
  have u: "\<not> unary_op (ir_o (fold_ins J))" using b unary_not_binary by blast
  have k: "shift_op (ir_o (fold_right J)) \<or> unary_op (ir_o (fold_right J)) \<or> binary_op (ir_o (fold_right J))"
    "\<not> unary_op (ir_o (fold_right J))" "binary_op (ir_o (fold_right J))" using l by auto
  have rw: "\<not> is64 J (ir_op2 (fold_ins J))" using right_width [OF p b] w by simp
  note L = right_ins [OF p u k(1)]
  show "valid J (unat (ir_op1 (fold_right J)))" "valid J (unat (ir_op2 (fold_right J)))" "\<not> is64 J (ir_op1 (fold_right J))" "\<not> is64 J (ir_op2 (fold_right J))"
    "\<not> irt_isfp (ir_t (IR J (unat (ir_op1 (fold_right J)))))" "\<not> irt_isfp (ir_t (IR J (unat (ir_op2 (fold_right J)))))"
    using L(1,4) rw k by (auto simp: wt_def)
  show "ir_o (fold_right J) = IR_ADD \<Longrightarrow> models J v \<Longrightarrow>
      (ucast (v (unat (ir_op2 (fold_ins J)))) :: u32) = ucast (v (unat (ir_op1 (fold_right J)))) + ucast (v (unat (ir_op2 (fold_right J))))"
    "ir_o (fold_right J) = IR_SUB \<Longrightarrow> models J v \<Longrightarrow>
      (ucast (v (unat (ir_op2 (fold_ins J)))) :: u32) = ucast (v (unat (ir_op1 (fold_right J)))) - ucast (v (unat (ir_op2 (fold_right J))))"
    using L(6) [of v] rw by (simp_all add: sem_eval)
qed

lemma simplify_intsubadd_leftcancel_sound:
  assumes p: "prepared J" and op: "ir_o (fold_ins J) = IR_SUB" and l: "ir_o (fold_left J) = IR_ADD"
  shows "sound J (simplify_intsubadd_leftcancel e J)"
proof -
  have w: "\<not> irt_is64 (ir_t (fold_ins J))" using preparedD(8) [OF p op] .
  note L = left_addsub [OF p w disjI1 [OF l]]
  have "sound J (ret (unat (ir_op2 (fold_left J))) J)" if "ir_op2 (fold_ins J) = ir_op1 (fold_left J)"
    by (rule sound_refI [OF p L(2)]) (simp_all add: L w op sem_eval L(7) [OF l] that)
  moreover have "sound J (ret (unat (ir_op1 (fold_left J))) J)" if "ir_op2 (fold_ins J) = ir_op2 (fold_left J)"
    by (rule sound_refI [OF p L(1)]) (simp_all add: L w op sem_eval L(7) [OF l] that)
  ultimately show ?thesis using p by (auto simp: simplify_intsubadd_leftcancel_def Let_def intro: sound_phi)
qed

lemma simplify_intsubsub_rightcancel_sound:
  assumes p: "prepared J" and op: "ir_o (fold_ins J) = IR_SUB" and l: "ir_o (fold_right J) = IR_SUB"
  shows "sound J (simplify_intsubsub_rightcancel e J)"
proof -
  have w: "\<not> irt_is64 (ir_t (fold_ins J))" and b: "binary_op (ir_o (fold_ins J))" using preparedD(8) [OF p op] op by auto
  note L = right_addsub [OF p w b disjI2 [OF l]]
  have "sound J (ret (unat (ir_op2 (fold_right J))) J)" if "ir_op1 (fold_ins J) = ir_op1 (fold_right J)"
    by (rule sound_refI [OF p L(2)]) (simp_all add: L w op sem_eval L(8) [OF l] that)
  then show ?thesis using p by (auto simp: simplify_intsubsub_rightcancel_def Let_def intro: sound_phi)
qed

text \<open>Replacing both operands of a subtraction by smaller ones.\<close>

lemma sub_retry:
  assumes p: "prepared J" and op: "ir_o (fold_ins J) = IR_SUB" and J': "ir_ok J'" "extends J J'"
    and a: "valid J' (unat a)" "\<not> is64 J' a" "\<not> irt_isfp (ir_t (IR J' (unat a)))"
    and b: "valid J' (unat b)" "\<not> is64 J' b" "\<not> irt_isfp (ir_t (IR J' (unat b)))"
    and less: "ref_weight a + ref_weight b < ref_weight (ir_op1 (fold_ins J)) + ref_weight (ir_op2 (fold_ins J))"
    and eq: "\<And>v. models J v \<Longrightarrow> models J' v \<Longrightarrow>
      (ucast (v (unat (ir_op1 (fold_ins J)))) - ucast (v (unat (ir_op2 (fold_ins J)))) :: u32) = ucast (v (unat a)) - ucast (v (unat b))"
  shows "retry_ok J (fold_ins J) J' (set_op2 b (set_op1 a (fold_ins J)))"
  by (rule retry_okI [OF p J'(2)])
    (use preparedD(8) [OF p op] a b less eq op in \<open>auto simp: wt_def sem_eval intro: mu_weight\<close>)

lemma simplify_intsubaddadd_cancel_sound:
  assumes p: "prepared J" and op: "ir_o (fold_ins J) = IR_SUB" and l: "ir_o (fold_left J) = IR_ADD" "ir_o (fold_right J) = IR_ADD"
  shows "sound J (simplify_intsubaddadd_cancel e J)"
proof -
  have w: "\<not> irt_is64 (ir_t (fold_ins J))" and b: "binary_op (ir_o (fold_ins J))" "\<not> unary_op (ir_o (fold_ins J))" using preparedD(8) [OF p op] op by auto
  note L = left_addsub [OF p w disjI1 [OF l(1)]] and R = right_addsub [OF p w b(1) disjI1 [OF l(2)]]
  note wl = left_ins (4,5) [OF p] and wr = right_ins (2,3) [OF p b(2)]
  have wl: "ref_weight (ir_op1 (fold_left J)) < ref_weight (ir_op1 (fold_ins J))" "ref_weight (ir_op2 (fold_left J)) < ref_weight (ir_op1 (fold_ins J))"
    "ref_weight (ir_op1 (fold_right J)) < ref_weight (ir_op2 (fold_ins J))" "ref_weight (ir_op2 (fold_right J)) < ref_weight (ir_op2 (fold_ins J))"
    using wl wr l by simp_all
  have s: "sound J (ret RETRYFOLD (upd_fins (\<lambda>ir. set_op2 y (set_op1 x ir)) J))"
    if "retry_ok J (fold_ins J) J (set_op2 y (set_op1 x (fold_ins J)))" for x y
    using sound_retry [OF p, of "\<lambda>ir. set_op2 y (set_op1 x ir)"] that by simp
  note S = s [OF sub_retry [OF p op preparedD(2) [OF p] extends_refl]]
  show ?thesis unfolding simplify_intsubaddadd_cancel_def Let_def using wl
    by (auto intro!: sound_phi [OF p] S simp: p L R L(7) [OF l(1)] R(7) [OF l(2)])
qed

text \<open>A subtraction from the new constant zero.\<close>

lemma sub_zero:
  assumes p: "prepared J" and op: "ir_o (fold_ins J) = IR_SUB"
    and h: "\<And>r. h r (g (fold_ins J)) = set_op2 b (set_op1 r (fold_ins J))"
    and b: "valid J (unat b)" "\<not> is64 J b" "\<not> irt_isfp (ir_t (IR J (unat b)))"
    and less: "ref_weight b < ref_weight (ir_op1 (fold_ins J)) + ref_weight (ir_op2 (fold_ins J))"
    and eq: "\<And>v. models J v \<Longrightarrow>
      (ucast (v (unat (ir_op1 (fold_ins J)))) - ucast (v (unat (ir_op2 (fold_ins J)))) :: u32) = - ucast (v (unat b))"
  shows "sound J (rbind (lj_ir_kint e (upd_fins g J) 0) (\<lambda>J r. ret RETRYFOLD (upd_fins (h (of_nat r)) J)))"
proof (rule sound_kint [OF p])
  fix J' and r :: u16
  assume J': "ir_ok J'" "trace_ok J'" "extends J J'" "valid J' (unat r)" "ir_o (IR J' (unat r)) = IR_KINT" "ir_i (IR J' (unat r)) = 0" "ref_weight r = 0"
  show "retry_ok J (fold_ins J) J' (h r (g (fold_ins J)))"
    unfolding h
    by (rule sub_retry [OF p op J'(1,3)])
      (use J' b less eq extends_valid [OF J'(3) b(1)] kint_facts [OF J'(1,4,5)] in \<open>auto simp: is64_def v_kint [of J']\<close>)
qed

lemma upd_id [simp]: "upd_fins (\<lambda>ir. ir) J = J" by (simp add: upd_fins_def)

lemma simplify_intsubsub_leftcancel_sound:
  assumes p: "prepared J" and op: "ir_o (fold_ins J) = IR_SUB" and l: "ir_o (fold_left J) = IR_SUB"
  shows "sound J (simplify_intsubsub_leftcancel e J)"
proof -
  have w: "\<not> irt_is64 (ir_t (fold_ins J))" using preparedD(8) [OF p op] .
  note L = left_addsub [OF p w disjI2 [OF l]] and wl = left_ins (5) [OF p]
  have "sound J (rbind (lj_ir_kint e J 0) (\<lambda>Ja r. ret RETRYFOLD (upd_fins (\<lambda>ir. set_op2 (ir_op2 (fold_left J)) (set_op1 (of_nat r) ir)) Ja)))"
    if "ir_op2 (fold_ins J) = ir_op1 (fold_left J)"
    using sub_zero [OF p op, of "\<lambda>r ir. set_op2 (ir_op2 (fold_left J)) (set_op1 r ir)" "\<lambda>ir. ir" "ir_op2 (fold_left J)" e] wl
    by (simp add: L that L(8) [OF l] l trans_less_add1)
  then show ?thesis using p by (auto simp: simplify_intsubsub_leftcancel_def Let_def intro: sound_phi)
qed

lemma set_op_swap: "set_op1 a (set_op2 b ir) = set_op2 b (set_op1 a ir)"
  by (simp add: set_op1_def set_op2_def ir_op1_def ir_op2_def)

lemma simplify_intsubadd_rightcancel_sound:
  assumes p: "prepared J" and op: "ir_o (fold_ins J) = IR_SUB" and l: "ir_o (fold_right J) = IR_ADD"
  shows "sound J (simplify_intsubadd_rightcancel e J)"
proof -
  have w: "\<not> irt_is64 (ir_t (fold_ins J))" and b: "binary_op (ir_o (fold_ins J))" "\<not> unary_op (ir_o (fold_ins J))" using preparedD(8) [OF p op] op by auto
  note L = right_addsub [OF p w b(1) disjI1 [OF l]] and wl = right_ins (2,3) [OF p b(2)]
  have "sound J (kint_op1 0 e (upd_fins (set_op2 (ir_op2 (fold_right J))) J))" if "ir_op1 (fold_ins J) = ir_op1 (fold_right J)"
    unfolding kint_op1_def
    by (rule sub_zero [OF p op, where h = set_op1 and g = "set_op2 (ir_op2 (fold_right J))" and b = "ir_op2 (fold_right J)"]) (use wl in \<open>simp_all add: L that L(7) [OF l] l trans_less_add2 set_op_swap\<close>)
  moreover have "sound J (kint_op1 0 e (upd_fins (set_op2 (ir_op1 (fold_right J))) J))" if "ir_op1 (fold_ins J) = ir_op2 (fold_right J)"
    unfolding kint_op1_def
    by (rule sub_zero [OF p op, where h = set_op1 and g = "set_op2 (ir_op1 (fold_right J))" and b = "ir_op1 (fold_right J)"]) (use wl in \<open>simp_all add: L that L(7) [OF l] l trans_less_add2 set_op_swap\<close>)
  ultimately show ?thesis using p by (auto simp: simplify_intsubadd_rightcancel_def Let_def intro: sound_phi)
qed

section \<open>Shifts\<close>

lemma shift_ops: "op \<in> {IR_BSHL, IR_BSHR, IR_BSAR, IR_BROL, IR_BROR} \<Longrightarrow> shift_op op \<and> \<not> unary_op op \<and> \<not> binary_op op \<and> op \<noteq> IR_SUB \<and> op \<noteq> IR_MOD"
  by auto

text \<open>Only the count modulo the width matters.\<close>

lemma sem_shift_cong:
  assumes "op \<in> {IR_BSHL, IR_BSHR, IR_BSAR, IR_BROL, IR_BROR}"
  shows "unat b mod 32 = unat b' mod 32 \<Longrightarrow> sem32 op a b = sem32 op a b'" "unat c mod 64 = unat c' mod 64 \<Longrightarrow> sem64 op d c = sem64 op d c'"
  using assms by (auto simp: sem_eval)

lemma sem_shift_0:
  assumes "op \<in> {IR_BSHL, IR_BSHR, IR_BSAR, IR_BROL, IR_BROR}"
  shows "unat b mod 32 = 0 \<Longrightarrow> sem32 op a b = Some (Val (scast a))" "unat c mod 64 = 0 \<Longrightarrow> sem64 op d c = Some (Val d)"
  using assms by (auto simp: sem_eval word_rotl_eq_word_rotr intro!: bit_word_eqI simp: bit_simps)

lemma mask_count:
  "\<not> irt_is64 t \<Longrightarrow> unat (k AND shift_mask t) = unat k mod 32"
  "irt_is64 t \<Longrightarrow> unat (k AND shift_mask t) = unat (scast k :: u64) mod 64"
  by (simp_all add: shift_mask_def mask_mod count64 (2))

lemma neg_count:
  fixes k :: u32
  assumes "\<not> irt_is64 t \<Longrightarrow> 0 < unat k \<and> unat k < 32" "irt_is64 t \<Longrightarrow> 0 < unat k \<and> unat k < 64"
  shows "unat (- k AND shift_mask t) = (if irt_is64 t then 64 else 32) - unat k"
proof -
  have k: "0 < unat k" "unat k < 64" using assms by (cases "irt_is64 t"; simp)+
  have "- k = of_nat (2 ^ 32 - unat k)" using k by (simp add: of_nat_diff)
  moreover have "unat (of_nat (2 ^ 32 - unat k) :: u32) = 2 ^ 32 - unat k" using k by (intro unat_of_nat_small) simp
  ultimately have n: "unat (- k) = 2 ^ 32 - unat k" by metis
  have "(2 ^ 32 - unat k) mod 64 = (64 * 67108863 + (64 - unat k)) mod 64" using k by simp
  then have m64: "(2 ^ 32 - unat k) mod 64 = 64 - unat k" using k by (simp only: mod_mult_self4) simp
  have m32: "(2 ^ 32 - unat k) mod 32 = 32 - unat k" if "unat k < 32"
  proof -
    have "(2 ^ 32 - unat k) mod 32 = (32 * 134217727 + (32 - unat k)) mod 32" using that by simp
    then show ?thesis using k that by (simp only: mod_mult_self4) simp
  qed
  show ?thesis using assms m32 m64 by (cases "irt_is64 t") (simp_all add: shift_mask_def mask_mod n)
qed

lemma rotr_rotl:
  "0 < n \<Longrightarrow> n < 32 \<Longrightarrow> word_rotr n (a :: u32) = word_rotl (32 - n) a" "0 < n \<Longrightarrow> n < 64 \<Longrightarrow> word_rotr n (b :: u64) = word_rotl (64 - n) b"
  by (simp_all add: word_rotl_eq_word_rotr)

lemma simplify_shift_ik_sound:
  assumes p: "prepared J" and op: "ir_o (fold_ins J) \<in> {IR_BSHL, IR_BSHR, IR_BSAR, IR_BROL, IR_BROR}" and k: "ir_o (fold_right J) = IR_KINT"
  shows "sound J (simplify_shift_ik e J)"
proof -
  define t where "t = ir_t (fold_ins J)"
  define k where "k = ir_i (fold_right J) AND shift_mask t"
  have K: "shift_op (ir_o (fold_ins J))" "\<not> unary_op (ir_o (fold_ins J))" "\<not> binary_op (ir_o (fold_ins J))" "ir_o (fold_ins J) \<noteq> IR_SUB" "ir_o (fold_ins J) \<noteq> IR_MOD"
    using shift_ops [OF op] by auto
  note lw = left_width [OF p] and V = right_kint (1) [OF p assms(3) K(2)] and P = preparedD [OF p] and R = prepared_right [OF p K(2)]
  have c: "\<not> irt_is64 t \<Longrightarrow> unat k = unat (ir_i (fold_right J)) mod 32" "irt_is64 t \<Longrightarrow> unat k = unat (scast (ir_i (fold_right J)) :: u64) mod 64"
    "k AND shift_mask t = k" by (simp_all add: k_def mask_count and.assoc)
  have c2: "\<not> irt_is64 t \<Longrightarrow> unat k < 32" "irt_is64 t \<Longrightarrow> unat k < 64" using c by simp_all
  have k2: "irt_is64 t \<Longrightarrow> unat (scast k :: u64) mod 64 = unat k" using mask_count (2) [of t k] c(3) by simp
  have rw: "ref_weight (ir_op2 (fold_ins J)) = 0" by (rule weight_const [OF P(2) R(1)]) (use assms(3) R(2) in \<open>simp add: kop_def ir_codes\<close>)
  have "sound J (LEFTFOLD J)" if "k = 0"
    by (rule sound_leftI [OF p lw]) (use that c in \<open>simp_all add: V sem_shift_0 [OF op] t_def\<close>)
  moreover have "sound J (ret RETRYFOLD (upd_fins (\<lambda>ir. set_op2 (ir_op1 ir) (set_o IR_ADD ir)) J))" if "k = 1" "ir_o (fold_ins J) = IR_BSHL"
    by (rule sound_retry [OF p], rule retry_okI [OF p extends_refl])
      (use that left_later [OF p extends_refl] lw in \<open>auto simp: V sem_eval wt_def fold_rank_def t_def [symmetric] push_bit_eq_mult c(1,2) [symmetric] intro: mu_rank\<close>)
  moreover have "sound J (kint_op2 k e J)" if ne: "k \<noteq> ir_i (fold_right J)"
    unfolding kint_op2_def
  proof (rule sound_kint [OF p, where g = "\<lambda>ir. ir", unfolded upd_id])
    fix J' and r :: u16
    assume J': "ir_ok J'" "trace_ok J'" "extends J J'" "valid J' (unat r)" "ir_o (IR J' (unat r)) = IR_KINT" "ir_i (IR J' (unat r)) = k" "ref_weight r = 0"
    show "retry_ok J (fold_ins J) J' (set_op2 r (fold_ins J))"
    proof (rule retry_okI [OF p J'(3)])
      show "(fold_mu J' (set_op2 r (fold_ins J)), fold_mu J (fold_ins J)) \<in> mu_less"
        by (rule mu_flag) (use K(1) J' rw ne R(2) assms(3) c(3) in \<open>auto simp: fold_flag_def k_def t_def\<close>)
      fix v assume v: "models J' v"
      show "irt_is64 (ir_t (fold_ins J)) \<Longrightarrow> models J v \<Longrightarrow>
        sem64 (ir_o (fold_ins J)) (v (unat (ir_op1 (fold_ins J)))) (v (unat (ir_op2 (fold_ins J)))) =
        sem64 (ir_o (set_op2 r (fold_ins J))) (v (unat (ir_op1 (set_op2 r (fold_ins J))))) (v (unat (ir_op2 (set_op2 r (fold_ins J)))))"
        using c(2) k2 J' v_kint [OF v J'(4,5)] by (simp add: V t_def) (rule sem_shift_cong (2) [OF op], simp)
      show "\<not> irt_is64 (ir_t (fold_ins J)) \<Longrightarrow> models J v \<Longrightarrow>
        sem32 (ir_o (fold_ins J)) (ucast (v (unat (ir_op1 (fold_ins J))))) (ucast (v (unat (ir_op2 (fold_ins J))))) =
        sem32 (ir_o (set_op2 r (fold_ins J))) (ucast (v (unat (ir_op1 (set_op2 r (fold_ins J)))))) (ucast (v (unat (ir_op2 (set_op2 r (fold_ins J))))))"
        using c(1) J' v_kint [OF v J'(4,5)] by (simp add: V t_def) (rule sem_shift_cong (1) [OF op], simp)
    qed (use K left_later [OF p J'(3)] lw J' kint_facts [OF J'(1,4,5)] in \<open>auto simp: wt_def\<close>)
  qed
  moreover have "sound J (kint_op2 (- k AND shift_mask t) e (upd_fins (set_o IR_BROL) J))"
    if e: "k = ir_i (fold_right J)" "k \<noteq> 0" "ir_o (fold_ins J) = IR_BROR"
    unfolding kint_op2_def
  proof (rule sound_kint [OF p])
    fix J' and r :: u16
    assume J': "ir_ok J'" "trace_ok J'" "extends J J'" "valid J' (unat r)" "ir_o (IR J' (unat r)) = IR_KINT" "ir_i (IR J' (unat r)) = - k AND shift_mask t"
    have k0: "0 < unat k" using e(2) by (simp add: unat_gt_0)
    have n: "unat (- k AND shift_mask t) = (if irt_is64 t then 64 else 32) - unat k" by (rule neg_count) (use c2 k0 in auto)
    have m: "irt_is64 t \<Longrightarrow> unat (scast (- k AND shift_mask t) :: u64) mod 64 = 64 - unat k"
      using mask_count (2) [of t "- k AND shift_mask t"] n by (simp add: and.assoc)
    show "retry_ok J (fold_ins J) J' (set_op2 r (set_o IR_BROL (fold_ins J)))"
    proof (rule retry_okI [OF p J'(3)])
      fix v assume v: "models J' v"
      show "irt_is64 (ir_t (fold_ins J)) \<Longrightarrow> models J v \<Longrightarrow>
        sem64 (ir_o (fold_ins J)) (v (unat (ir_op1 (fold_ins J)))) (v (unat (ir_op2 (fold_ins J)))) =
        sem64 (ir_o (set_op2 r (set_o IR_BROL (fold_ins J)))) (v (unat (ir_op1 (set_op2 r (set_o IR_BROL (fold_ins J)))))) (v (unat (ir_op2 (set_op2 r (set_o IR_BROL (fold_ins J))))))"
        using c(2) c2 m k0 J' v_kint [OF v J'(4,5)] e by (simp add: V t_def sem_eval rotr_rotl)
      show "\<not> irt_is64 (ir_t (fold_ins J)) \<Longrightarrow> models J v \<Longrightarrow>
        sem32 (ir_o (fold_ins J)) (ucast (v (unat (ir_op1 (fold_ins J))))) (ucast (v (unat (ir_op2 (fold_ins J))))) =
        sem32 (ir_o (set_op2 r (set_o IR_BROL (fold_ins J)))) (ucast (v (unat (ir_op1 (set_op2 r (set_o IR_BROL (fold_ins J))))))) (ucast (v (unat (ir_op2 (set_op2 r (set_o IR_BROL (fold_ins J)))))))"
        using c(1) c2 n k0 J' v_kint [OF v J'(4,5)] e by (simp add: V t_def sem_eval rotr_rotl)
    qed (use e left_later [OF p J'(3)] lw J' kint_facts [OF J'(1,4,5)] in \<open>auto simp: wt_def fold_rank_def intro: mu_rank\<close>)
  qed
  ultimately show ?thesis using p unfolding simplify_shift_ik_def Let_def t_def [symmetric] k_def [symmetric] by auto
qed

end
