(* ===== verification/LJ_FoldReassoc.thy ===== *)
theory LJ_FoldReassoc
  imports LJ_FoldAlg
begin

text \<open>
  Soundness of the remaining integer rules: masked shift counts, shifts of constants, reassociation
  of nested operations and the swaps of commutative operations and comparisons.
\<close>

section \<open>Shifts\<close>

lemma and_mask_absorb:
  fixes a k :: u32
  assumes "k AND m = m" shows "(a AND k) AND m = a AND m"
  by (metis assms and.assoc)

lemma simplify_shift_andk_sound:
  assumes p: "prepared J" and op: "ir_o (fold_ins J) \<in> {IR_BSHL, IR_BSHR, IR_BSAR, IR_BROL, IR_BROR}" and r: "ir_o (fold_right J) = IR_BAND"
  shows "sound J (simplify_shift_andk e J)"
proof -
  let ?irk = "IR J (unat (ir_op2 (fold_right J)))" and ?m = "shift_mask (ir_t (fold_ins J))"
  have K: "shift_op (ir_o (fold_ins J))" "\<not> unary_op (ir_o (fold_ins J))" "\<not> binary_op (ir_o (fold_ins J))" "ir_o (fold_ins J) \<noteq> IR_SUB" "ir_o (fold_ins J) \<noteq> IR_MOD"
    using shift_ops [OF op] by auto
  have kr: "shift_op (ir_o (fold_right J)) \<or> unary_op (ir_o (fold_right J)) \<or> binary_op (ir_o (fold_right J))" using r by simp
  note R = right_ins [OF p K(2) kr] and P = preparedD [OF p] and lw = left_width [OF p]
  have wr: "valid J (unat (ir_op1 (fold_right J)))" "valid J (unat (ir_op2 (fold_right J)))" "\<not> irt_isfp (ir_t (IR J (unat (ir_op1 (fold_right J)))))"
    "is64 J (ir_op1 (fold_right J)) = is64 J (ir_op2 (fold_ins J))" "is64 J (ir_op2 (fold_right J)) = is64 J (ir_op2 (fold_ins J))"
    using R(1,4) r by (auto simp: wt_def)
  have "sound J (ret RETRYFOLD (upd_fins (set_op2 (ir_op1 (fold_right J))) J))" if k: "ir_o ?irk = IR_KINT" "ir_i ?irk AND ?m = ?m"
  proof -
    have w: "\<not> is64 J (ir_op2 (fold_ins J))" using wr(2,5) kint_facts (1) [OF P(2) wr(2) k(1)] by (simp add: is64_def)
    have cnt: "(ucast (v (unat (ir_op2 (fold_ins J)))) :: u32) AND ?m = ucast (v (unat (ir_op1 (fold_right J)))) AND ?m" if v: "models J v" for v
      using R(6) [OF v w] v_kint [OF v wr(2) k(1)] and_mask_absorb [OF k(2)] by (simp add: r sem_eval)
    have ext: "v (unat (ir_op2 (fold_ins J))) = scast (ucast (v (unat (ir_op2 (fold_ins J)))) :: u32)"
      "v (unat (ir_op1 (fold_right J))) = scast (ucast (v (unat (ir_op1 (fold_right J)))) :: u32)" if v: "models J v" for v
      using v_ext [OF v] w wr prepared_right [OF p K(2)] by (auto simp: is64_def ext32_def)
    show ?thesis
    proof (rule sound_retry [OF p], rule retry_okI [OF p extends_refl])
      fix v assume v: "models J v"
      show "irt_is64 (ir_t (fold_ins J)) \<Longrightarrow> sem64 (ir_o (fold_ins J)) (v (unat (ir_op1 (fold_ins J)))) (v (unat (ir_op2 (fold_ins J)))) =
        sem64 (ir_o (set_op2 (ir_op1 (fold_right J)) (fold_ins J))) (v (unat (ir_op1 (set_op2 (ir_op1 (fold_right J)) (fold_ins J)))))
          (v (unat (ir_op2 (set_op2 (ir_op1 (fold_right J)) (fold_ins J)))))"
        using mask_count (2) [of "ir_t (fold_ins J)"] cnt [OF v] ext [OF v] by simp (rule sem_shift_cong (2) [OF op], metis)
      show "\<not> irt_is64 (ir_t (fold_ins J)) \<Longrightarrow> sem32 (ir_o (fold_ins J)) (ucast (v (unat (ir_op1 (fold_ins J))))) (ucast (v (unat (ir_op2 (fold_ins J))))) =
        sem32 (ir_o (set_op2 (ir_op1 (fold_right J)) (fold_ins J))) (ucast (v (unat (ir_op1 (set_op2 (ir_op1 (fold_right J)) (fold_ins J))))))
          (ucast (v (unat (ir_op2 (set_op2 (ir_op1 (fold_right J)) (fold_ins J))))))"
        using mask_count (1) [of "ir_t (fold_ins J)"] cnt [OF v] by simp (rule sem_shift_cong (1) [OF op], metis)
    qed (use K wr left_later [OF p extends_refl] lw R(2) in \<open>auto simp: wt_def intro: mu_weight\<close>)
  qed
  then show ?thesis using p by (auto simp: simplify_shift_andk_def Let_def LJ_TARGET_MASKSHIFT_def LJ_TARGET_MASKROT_def intro: sound_phi)
qed

lemma shift_const:
  "push_bit n (0 :: 'a::len word) = 0" "drop_bit n (0 :: 'a::len word) = 0" "signed_drop_bit n (0 :: 'a::len word) = 0" "word_rotl n (0 :: 'a::len word) = 0"
  "word_rotr n (0 :: 'a::len word) = 0" "signed_drop_bit n (-1 :: 'a::len word) = -1" "word_rotl n (-1 :: 'a::len word) = -1" "word_rotr n (-1 :: 'a::len word) = -1"
  by (auto intro!: bit_word_eqI simp: bit_simps)

lemma simplify_shift1_ki_sound:
  assumes p: "prepared J" and op: "ir_o (fold_ins J) \<in> {IR_BSHL, IR_BSHR}" and k: "ir_o (fold_left J) = IR_KINT \<or> ir_o (fold_left J) = IR_KINT64"
  shows "sound J (simplify_shift1_ki e J)"
proof -
  have "sound J (LEFTFOLD J)" if "k_int64 J (fold_left J) = 0"
    by (rule sound_leftI [OF p left_width [OF p]]) (use op in \<open>auto simp: k_int64_left [OF p k] that sem_eval\<close>)
  then show ?thesis using p by (simp add: simplify_shift1_ki_def)
qed

lemma simplify_shift2_ki_sound:
  assumes p: "prepared J" and op: "ir_o (fold_ins J) \<in> {IR_BSAR, IR_BROL, IR_BROR}" and k: "ir_o (fold_left J) = IR_KINT \<or> ir_o (fold_left J) = IR_KINT64"
  shows "sound J (simplify_shift2_ki e J)"
proof -
  have "sound J (LEFTFOLD J)" if "k_int64 J (fold_left J) = 0 \<or> k_int64 J (fold_left J) = -1"
    by (rule sound_leftI [OF p left_width [OF p]]) (use op that in \<open>auto simp: k_int64_left [OF p k] sem_eval shift_const\<close>)
  then show ?thesis using p by (simp add: simplify_shift2_ki_def Let_def)
qed

lemma simplify_andk_shiftk_sound:
  assumes p: "prepared J" and op: "ir_o (fold_ins J) = IR_BAND" and l: "ir_o (fold_left J) = IR_BSHL \<or> ir_o (fold_left J) = IR_BSHR" and k: "ir_o (fold_right J) = IR_KINT"
  shows "sound J (simplify_andk_shiftk e J)"
proof -
  let ?irk = "IR J (unat (ir_op2 (fold_left J)))"
  have u: "\<not> unary_op (ir_o (fold_ins J))" and w: "\<not> irt_is64 (ir_t (fold_ins J))" using right_kint (2) [OF p k] op by auto
  have kl: "shift_op (ir_o (fold_left J)) \<or> unary_op (ir_o (fold_left J)) \<or> binary_op (ir_o (fold_left J))" using l by auto
  note L = left_ins [OF p kl]
  have v2: "valid J (unat (ir_op2 (fold_left J)))" using L(3) l by (auto simp: wt_def)
  have "sound J (LEFTFOLD J)" if i: "ir_o ?irk = IR_KINT" "kfold_intop (-1) (ir_i ?irk) (ir_o (fold_left J)) = ir_i (fold_right J)"
  proof (rule sound_leftI [OF p left_width [OF p]])
    fix v assume v: "models J v"
    have e: "(ucast (v (unat (ir_op2 (fold_left J)))) :: u32) = ir_i ?irk" using v_kint [OF v v2 i(1)] by simp
    show "sem32 (ir_o (fold_ins J)) (ucast (v (unat (ir_op1 (fold_ins J))))) (ucast (v (unat (ir_op2 (fold_ins J))))) =
      Some (Val (scast (ucast (v (unat (ir_op1 (fold_ins J)))) :: u32)))"
      using l
    proof
      assume l: "ir_o (fold_left J) = IR_BSHL"
      have "(ucast (v (unat (ir_op1 (fold_ins J)))) :: u32) = push_bit (unat (ir_i ?irk) mod 32) (ucast (v (unat (ir_op1 (fold_left J)))))"
        using L(7) [OF v w] by (simp add: l sem_eval e)
      moreover have "ir_i (fold_right J) = push_bit (unat (ir_i ?irk) mod 32) (-1)"
        using i(2) by (simp add: l kfold_intop_def mask_mod)
      ultimately show ?thesis by (auto simp: op sem_eval right_kint (1) [OF p k u v] intro!: bit_word_eqI simp: bit_simps)
    next
      assume l: "ir_o (fold_left J) = IR_BSHR"
      have "(ucast (v (unat (ir_op1 (fold_ins J)))) :: u32) = drop_bit (unat (ir_i ?irk) mod 32) (ucast (v (unat (ir_op1 (fold_left J)))))"
        using L(7) [OF v w] by (simp add: l sem_eval e)
      moreover have "ir_i (fold_right J) = drop_bit (unat (ir_i ?irk) mod 32) (-1)"
        using i(2) by (simp add: l kfold_intop_def mask_mod)
      ultimately show ?thesis by (auto simp: op sem_eval right_kint (1) [OF p k u v] intro!: bit_word_eqI simp: bit_simps dest: bit_imp_le_length)
    qed
  qed (use w in simp_all)
  then show ?thesis using p by (simp add: simplify_andk_shiftk_def Let_def)
qed

section \<open>Reassociation\<close>

definition assoc_ops :: "u8 set" where "assoc_ops = {IR_ADD, IR_MUL, IR_BAND, IR_BOR, IR_BXOR, IR_MIN, IR_MAX}"

lemma assoc_kinds: "op \<in> assoc_ops \<Longrightarrow> binary_op op \<and> \<not> unary_op op \<and> \<not> shift_op op \<and> op \<noteq> IR_SUB \<and> op \<noteq> IR_MOD"
  by (auto simp: assoc_ops_def)

lemma sem32_assoc: "op \<in> assoc_ops \<Longrightarrow> sem32 op a b = Some (Val (scast (kfold_intop a b op)))"
  by (auto simp: assoc_ops_def sem_eval kfold_intop_def sint_inj)

lemma intop_assoc: "op \<in> assoc_ops \<Longrightarrow> kfold_intop (kfold_intop a b op) c op = kfold_intop a (kfold_intop b c op) op"
  unfolding assoc_ops_def
  by (elim insertE emptyE) (auto simp: kfold_intop_def add.assoc mult.assoc and.assoc or.assoc xor.assoc sint_inj)

lemma reassoc_k:
  assumes p: "prepared J" and op: "ir_o (fold_ins J) \<in> assoc_ops" and l: "ir_o (fold_left J) = ir_o (fold_ins J)" and k: "ir_o (fold_right J) = IR_KINT"
    and i: "ir_o (IR J (unat (ir_op2 (fold_left J)))) = IR_KINT"
  defines "k1 \<equiv> ir_i (IR J (unat (ir_op2 (fold_left J))))" and "k2 \<equiv> ir_i (fold_right J)"
  shows "kfold_intop k1 k2 (ir_o (fold_ins J)) = k1 \<Longrightarrow> sound J (LEFTFOLD J)"
    "sound J (kint_op2 (kfold_intop k1 k2 (ir_o (fold_ins J))) e (upd_fins (set_op1 (ir_op1 (fold_left J))) J))"
proof -
  note K = assoc_kinds [OF op]
  have u: "\<not> unary_op (ir_o (fold_ins J))" and w: "\<not> irt_is64 (ir_t (fold_ins J))" using right_kint (2) [OF p k] K by auto
  have kl: "shift_op (ir_o (fold_left J)) \<or> unary_op (ir_o (fold_left J)) \<or> binary_op (ir_o (fold_left J))" using l K by auto
  note L = left_ins [OF p kl]
  have v2: "valid J (unat (ir_op1 (fold_left J)))" "valid J (unat (ir_op2 (fold_left J)))" "\<not> is64 J (ir_op1 (fold_left J))"
    "\<not> irt_isfp (ir_t (IR J (unat (ir_op1 (fold_left J)))))"
    using L(2,3) l K w by (auto simp: wt_def)
  have a: "(ucast (v (unat (ir_op1 (fold_ins J)))) :: u32) = kfold_intop (ucast (v (unat (ir_op1 (fold_left J))))) k1 (ir_o (fold_ins J))" if v: "models J v" for v
    using L(7) [OF v w] v_kint [OF v v2(2) i] by (simp add: l sem32_assoc [OF op] k1_def)
  have b: "(ucast (v (unat (ir_op2 (fold_ins J)))) :: u32) = k2" if v: "models J v" for v using right_kint (1) [OF p k u v] by (simp add: k2_def)
  show "sound J (LEFTFOLD J)" if "kfold_intop k1 k2 (ir_o (fold_ins J)) = k1"
    by (rule sound_leftI [OF p left_width [OF p]]) (use w that in \<open>simp_all add: sem32_assoc [OF op] a b intop_assoc [OF op]\<close>)
  show "sound J (kint_op2 (kfold_intop k1 k2 (ir_o (fold_ins J))) e (upd_fins (set_op1 (ir_op1 (fold_left J))) J))"
    unfolding kint_op2_def
  proof (rule sound_kint [OF p])
    fix J' and r :: u16
    assume J': "ir_ok J'" "trace_ok J'" "extends J J'" "valid J' (unat r)" "ir_o (IR J' (unat r)) = IR_KINT"
      "ir_i (IR J' (unat r)) = kfold_intop k1 k2 (ir_o (fold_ins J))" "ref_weight r = 0"
    show "retry_ok J (fold_ins J) J' (set_op2 r (set_op1 (ir_op1 (fold_left J)) (fold_ins J)))"
      by (rule retry_okI [OF p J'(3)])
        (use K w v2 J' L(4) extends_valid [OF J'(3) v2(1)] kint_facts [OF J'(1,4,5)] in
          \<open>auto simp: wt_def is64_def sem32_assoc [OF op] a b intop_assoc [OF op] v_kint [of J'] intro!: mu_weight\<close>)
  qed
qed

lemma reassoc_intarith_k_sound:
  assumes p: "prepared J" and op: "ir_o (fold_ins J) \<in> {IR_ADD, IR_MUL, IR_BAND, IR_BOR, IR_BXOR}"
    and l: "ir_o (fold_left J) = ir_o (fold_ins J)" and k: "ir_o (fold_right J) = IR_KINT"
  shows "sound J (reassoc_intarith_k e J)"
proof -
  have "ir_o (fold_ins J) \<in> assoc_ops" using op by (auto simp: assoc_ops_def)
  from reassoc_k [OF p this l k] p show ?thesis by (auto simp: reassoc_intarith_k_def Let_def intro: sound_phi)
qed

lemma reassoc_minmax_k_sound:
  assumes p: "prepared J" and op: "ir_o (fold_ins J) \<in> {IR_MIN, IR_MAX}"
    and l: "ir_o (fold_left J) = ir_o (fold_ins J)" and k: "ir_o (fold_right J) = IR_KINT"
  shows "sound J (reassoc_minmax_k fa e J)"
proof -
  have a: "ir_o (fold_ins J) \<in> assoc_ops" using op by (auto simp: assoc_ops_def)
  note K = assoc_kinds [OF a]
  have kl: "shift_op (ir_o (fold_left J)) \<or> unary_op (ir_o (fold_left J)) \<or> binary_op (ir_o (fold_left J))" using l K by auto
  have "valid J (unat (ir_op2 (fold_left J)))" "\<not> irt_isfp (ir_t (IR J (unat (ir_op2 (fold_left J)))))"
    using left_ins (3) [OF p kl] l K by (auto simp: wt_def)
  then have "ir_o (IR J (unat (ir_op2 (fold_left J)))) \<noteq> IR_KNUM"
    using const_in_chain (3) [OF preparedD(2) [OF p], of "unat (ir_op2 (fold_left J))"]
    by (auto simp: kdata_def kop_def ir_codes irt_isfp_def irt_isnum_def irt_type_def irt_codes)
  then show ?thesis using reassoc_k [OF p a l k] p by (auto simp: reassoc_minmax_k_def Let_def intro: sound_phi)
qed

lemma int64op_assoc:
  "op \<in> {IR_ADD, IR_MUL, IR_BAND, IR_BOR, IR_BXOR} \<Longrightarrow> kfold_int64op (kfold_int64op a b op) c op = kfold_int64op a (kfold_int64op b c op) op"
  by (auto simp: kfold_int64op_def add.assoc mult.assoc and.assoc or.assoc xor.assoc)

lemma reassoc_intarith_k64_sound:
  assumes p: "prepared J" and op: "ir_o (fold_ins J) \<in> {IR_ADD, IR_MUL, IR_BAND, IR_BOR, IR_BXOR}"
    and l: "ir_o (fold_left J) = ir_o (fold_ins J)" and k: "ir_o (fold_right J) = IR_KINT64"
  shows "sound J (reassoc_intarith_k64 e J)"
proof -
  let ?irk = "IR J (unat (ir_op2 (fold_left J)))" and ?o = "ir_o (fold_ins J)"
  have K: "binary_op ?o" "\<not> unary_op ?o" "?o \<noteq> IR_SUB" "?o \<noteq> IR_MOD" using op by auto
  have w: "irt_is64 (ir_t (fold_ins J))" using right_kint64 (2) [OF p k] K by auto
  have kl: "shift_op (ir_o (fold_left J)) \<or> unary_op (ir_o (fold_left J)) \<or> binary_op (ir_o (fold_left J))" using l K by auto
  note L = left_ins [OF p kl]
  have v2: "valid J (unat (ir_op1 (fold_left J)))" "valid J (unat (ir_op2 (fold_left J)))" "is64 J (ir_op1 (fold_left J))"
    "\<not> irt_isfp (ir_t (IR J (unat (ir_op1 (fold_left J)))))"
    using L(2,3) l K w by (auto simp: wt_def)
  have s: "sem64 ?o a b = Some (Val (kfold_int64op a b ?o))" for a b by (rule int64op_alu) (use op in auto)
  have "sound J (kint64_op2 (kfold_int64op (ir_k64 J ?irk) (ir_k64 J (fold_right J)) ?o) e (upd_fins (set_op1 (ir_op1 (fold_left J))) J))"
    if i: "ir_o ?irk = IR_KINT64"
    unfolding kint64_op2_def
  proof (rule sound_kint64 [OF p])
    have a: "v (unat (ir_op1 (fold_ins J))) = kfold_int64op (v (unat (ir_op1 (fold_left J)))) (ir_k64 J ?irk) ?o" if v: "models J v" for v
      using L(6) [OF v w] v_kint64 [OF v v2(2) i] by (simp add: l s)
    fix J' and r :: u16
    assume J': "ir_ok J'" "trace_ok J'" "extends J J'" "valid J' (unat r)" "ir_o (IR J' (unat r)) = IR_KINT64"
      "ir_k64 J' (IR J' (unat r)) = kfold_int64op (ir_k64 J ?irk) (ir_k64 J (fold_right J)) ?o" "ref_weight r = 0"
    show "retry_ok J (fold_ins J) J' (set_op2 r (set_op1 (ir_op1 (fold_left J)) (fold_ins J)))"
      by (rule retry_okI [OF p J'(3)])
        (use K w v2 J' L(4) extends_valid [OF J'(3) v2(1)] kint64_facts [OF J'(1,4,5)] in
          \<open>auto simp: wt_def is64_def s a right_kint64 (1) [OF p k K(2)] int64op_assoc [OF op] v_kint64 [of J'] intro!: mu_weight\<close>)
  qed
  then show ?thesis using p by (auto simp: reassoc_intarith_k64_def Let_def intro: sound_phi)
qed

text \<open>Rules that find an operand of the nested instruction again.\<close>

lemma left_binary:
  assumes p: "prepared J" and b: "binary_op (ir_o (fold_left J))" "ir_o (fold_left J) \<noteq> IR_SUB"
  shows "valid J (unat (ir_op1 (fold_left J)))" "valid J (unat (ir_op2 (fold_left J)))"
    "is64 J (ir_op1 (fold_left J)) = irt_is64 (ir_t (fold_ins J))" "is64 J (ir_op2 (fold_left J)) = irt_is64 (ir_t (fold_ins J))"
proof -
  have k: "shift_op (ir_o (fold_left J)) \<or> unary_op (ir_o (fold_left J)) \<or> binary_op (ir_o (fold_left J))" "\<not> unary_op (ir_o (fold_left J))"
    using b unary_not_binary by blast+
  show "valid J (unat (ir_op1 (fold_left J)))" "valid J (unat (ir_op2 (fold_left J)))"
    "is64 J (ir_op1 (fold_left J)) = irt_is64 (ir_t (fold_ins J))" "is64 J (ir_op2 (fold_left J)) = irt_is64 (ir_t (fold_ins J))"
    using left_ins (2,3) [OF p k(1)] k b by (auto simp: wt_def)
qed

lemma reassoc_dup_sound:
  assumes p: "prepared J" and op: "ir_o (fold_ins J) \<in> {IR_MIN, IR_MAX, IR_BAND, IR_BOR}" and l: "ir_o (fold_left J) = ir_o (fold_ins J)"
  shows "sound J (reassoc_dup e J)"
proof -
  have kl: "shift_op (ir_o (fold_left J)) \<or> unary_op (ir_o (fold_left J)) \<or> binary_op (ir_o (fold_left J))" using op l by auto
  note L = left_ins [OF p kl]
  have "sound J (LEFTFOLD J)" if e: "ir_op2 (fold_ins J) = ir_op1 (fold_left J) \<or> ir_op2 (fold_ins J) = ir_op2 (fold_left J)"
  proof (rule sound_leftI [OF p left_width [OF p]])
    fix v assume v: "models J v"
    show "irt_is64 (ir_t (fold_ins J)) \<Longrightarrow>
      sem64 (ir_o (fold_ins J)) (v (unat (ir_op1 (fold_ins J)))) (v (unat (ir_op2 (fold_ins J)))) = Some (Val (v (unat (ir_op1 (fold_ins J)))))"
      using op e L(6) [OF v] unfolding l by (auto simp: sem_eval and.assoc or.assoc and.commute or.commute and.left_commute or.left_commute)
    show "\<not> irt_is64 (ir_t (fold_ins J)) \<Longrightarrow>
      sem32 (ir_o (fold_ins J)) (ucast (v (unat (ir_op1 (fold_ins J))))) (ucast (v (unat (ir_op2 (fold_ins J))))) = Some (Val (scast (ucast (v (unat (ir_op1 (fold_ins J)))) :: u32)))"
      using op e L(7) [OF v] unfolding l by (auto simp: sem_eval and.assoc or.assoc and.commute or.commute and.left_commute or.left_commute)
  qed
  then show ?thesis using p by (simp add: reassoc_dup_def Let_def)
qed

lemma reassoc_bxor_sound:
  assumes p: "prepared J" and op: "ir_o (fold_ins J) = IR_BXOR" and l: "ir_o (fold_left J) = IR_BXOR"
  shows "sound J (reassoc_bxor e J)"
proof -
  have kl: "shift_op (ir_o (fold_left J)) \<or> unary_op (ir_o (fold_left J)) \<or> binary_op (ir_o (fold_left J))" using l by auto
  have b: "binary_op (ir_o (fold_left J))" "ir_o (fold_left J) \<noteq> IR_SUB" using l by auto
  note L = left_ins [OF p kl] and B = left_binary [OF p b]
  have a64: "v (unat (ir_op1 (fold_ins J))) = v (unat (ir_op1 (fold_left J))) XOR v (unat (ir_op2 (fold_left J)))"
    if "models J v" "irt_is64 (ir_t (fold_ins J))" for v using L(6) [OF that] by (simp add: l sem_eval)
  have a32: "(ucast (v (unat (ir_op1 (fold_ins J)))) :: u32) = ucast (v (unat (ir_op1 (fold_left J)))) XOR ucast (v (unat (ir_op2 (fold_left J))))"
    if "models J v" "\<not> irt_is64 (ir_t (fold_ins J))" for v using L(7) [OF that] by (simp add: l sem_eval)
  have x: "(a XOR b) XOR a = b" "(a XOR b) XOR b = a" for a b :: "'a::len word" by (simp_all add: xor.assoc xor.left_commute xor.commute)
  have "sound J (ret (unat (ir_op2 (fold_left J))) J)" if e: "ir_op2 (fold_ins J) = ir_op1 (fold_left J)"
    by (rule sound_refI [OF p B(2,4)]) (simp_all add: op e sem_eval a32 a64 x)
  moreover have "sound J (ret (unat (ir_op1 (fold_left J))) J)" if e: "ir_op2 (fold_ins J) = ir_op2 (fold_left J)"
    by (rule sound_refI [OF p B(1,3)]) (simp_all add: op e sem_eval a32 a64 x)
  ultimately show ?thesis using p by (auto simp: reassoc_bxor_def Let_def intro: sound_phi)
qed

lemma reassoc_minmax_left_sound:
  assumes p: "prepared J" and op: "ir_o (fold_ins J) = IR_MIN \<and> ir_o (fold_left J) = IR_MAX \<or> ir_o (fold_ins J) = IR_MAX \<and> ir_o (fold_left J) = IR_MIN"
  shows "sound J (reassoc_minmax_left e J)"
proof -
  have kl: "shift_op (ir_o (fold_left J)) \<or> unary_op (ir_o (fold_left J)) \<or> binary_op (ir_o (fold_left J))" and b: "binary_op (ir_o (fold_ins J))" using op by auto
  note L = left_ins [OF p kl]
  have "sound J (RIGHTFOLD J)" if e: "ir_op2 (fold_ins J) = ir_op1 (fold_left J) \<or> ir_op2 (fold_ins J) = ir_op2 (fold_left J)"
  proof (rule sound_rightI [OF p b])
    fix v assume v: "models J v"
    show "irt_is64 (ir_t (fold_ins J)) \<Longrightarrow>
      sem64 (ir_o (fold_ins J)) (v (unat (ir_op1 (fold_ins J)))) (v (unat (ir_op2 (fold_ins J)))) = Some (Val (v (unat (ir_op2 (fold_ins J)))))"
      using op e L(6) [OF v] by (auto simp: sem_eval sint_inj split: if_splits)
    show "\<not> irt_is64 (ir_t (fold_ins J)) \<Longrightarrow>
      sem32 (ir_o (fold_ins J)) (ucast (v (unat (ir_op1 (fold_ins J))))) (ucast (v (unat (ir_op2 (fold_ins J))))) = Some (Val (scast (ucast (v (unat (ir_op2 (fold_ins J)))) :: u32)))"
      using op e L(7) [OF v] by (auto simp: sem_eval sint_inj split: if_splits)
  qed
  then show ?thesis using p by (simp add: reassoc_minmax_left_def Let_def)
qed

lemma reassoc_minmax_right_sound:
  assumes p: "prepared J" and op: "ir_o (fold_ins J) = IR_MIN \<and> ir_o (fold_right J) = IR_MAX \<or> ir_o (fold_ins J) = IR_MAX \<and> ir_o (fold_right J) = IR_MIN"
  shows "sound J (reassoc_minmax_right e J)"
proof -
  have kr: "shift_op (ir_o (fold_right J)) \<or> unary_op (ir_o (fold_right J)) \<or> binary_op (ir_o (fold_right J))" and b: "binary_op (ir_o (fold_ins J))"
    and u: "\<not> unary_op (ir_o (fold_ins J))" using op by auto
  note R = right_ins [OF p u kr, unfolded right_width [OF p b]]
  have "sound J (LEFTFOLD J)" if e: "ir_op1 (fold_ins J) = ir_op1 (fold_right J) \<or> ir_op1 (fold_ins J) = ir_op2 (fold_right J)"
  proof (rule sound_leftI [OF p left_width [OF p]])
    fix v assume v: "models J v"
    show "irt_is64 (ir_t (fold_ins J)) \<Longrightarrow>
      sem64 (ir_o (fold_ins J)) (v (unat (ir_op1 (fold_ins J)))) (v (unat (ir_op2 (fold_ins J)))) = Some (Val (v (unat (ir_op1 (fold_ins J)))))"
      using op e R(5) [OF v] by (auto simp: sem_eval sint_inj split: if_splits)
    show "\<not> irt_is64 (ir_t (fold_ins J)) \<Longrightarrow>
      sem32 (ir_o (fold_ins J)) (ucast (v (unat (ir_op1 (fold_ins J))))) (ucast (v (unat (ir_op2 (fold_ins J))))) = Some (Val (scast (ucast (v (unat (ir_op1 (fold_ins J)))) :: u32)))"
      using op e R(6) [OF v] by (auto simp: sem_eval sint_inj split: if_splits)
  qed
  then show ?thesis using p by (simp add: reassoc_minmax_right_def Let_def)
qed

text \<open>Shifts of shifts.\<close>

definition shw :: "u8 \<Rightarrow> nat \<Rightarrow> 'a::len word \<Rightarrow> 'a word" where
  "shw op n x = (if op = IR_BSHL then push_bit n x else if op = IR_BSHR then drop_bit n x else if op = IR_BSAR then signed_drop_bit n x
     else if op = IR_BROL then word_rotl n x else word_rotr n x)"

lemma sem_shw:
  assumes "op \<in> {IR_BSHL, IR_BSHR, IR_BSAR, IR_BROL, IR_BROR}"
  shows "sem32 op a b = Some (Val (scast (shw op (unat b mod 32) a)))" "sem64 op c d = Some (Val (shw op (unat d mod 64) c))"
  using assms by (auto simp: sem_eval shw_def)

lemma rotr_mod: "n mod LENGTH('a) = m mod LENGTH('a) \<Longrightarrow> word_rotr n (x :: 'a::len word) = word_rotr m x"
  by (rule bit_word_eqI) (metis bit_word_rotr_iff mod_add_right_eq)

lemma rotr_rotr: "word_rotr n (word_rotr m (x :: 'a::len word)) = word_rotr (m + n) x"
proof (rule bit_word_eqI)
  fix k assume k: "k < LENGTH('a)"
  have "((k + n) mod LENGTH('a) + m) mod LENGTH('a) = (k + (m + n)) mod LENGTH('a)" by (simp add: mod_add_left_eq add.assoc add.commute [of n m])
  then show "bit (word_rotr n (word_rotr m x)) k = bit (word_rotr (m + n) x) k" using k by (simp add: bit_word_rotr_iff)
qed

lemma shw_shw:
  fixes x :: "'a::len word"
  assumes op: "op \<in> {IR_BSHL, IR_BSHR, IR_BSAR, IR_BROL, IR_BROR}" and n: "n < LENGTH('a)" "m < LENGTH('a)"
  shows "n + m < LENGTH('a) \<Longrightarrow> shw op m (shw op n x) = shw op (n + m) x"
    "LENGTH('a) \<le> n + m \<Longrightarrow> op = IR_BSHL \<or> op = IR_BSHR \<Longrightarrow> shw op m (shw op n x) = 0"
    "LENGTH('a) \<le> n + m \<Longrightarrow> op = IR_BSAR \<Longrightarrow> shw op m (shw op n x) = shw op (LENGTH('a) - 1) x"
    "LENGTH('a) \<le> n + m \<Longrightarrow> op = IR_BROL \<or> op = IR_BROR \<Longrightarrow> shw op m (shw op n x) = shw op (n + m - LENGTH('a)) x"
proof -
  have rl: "word_rotl m (word_rotl n x) = word_rotl (if n + m < LENGTH('a) then n + m else n + m - LENGTH('a)) x"
  proof -
    have "word_rotl m (word_rotl n x) = word_rotr (LENGTH('a) - n + (LENGTH('a) - m)) x"
      using n by (simp add: word_rotl_eq_word_rotr rotr_rotr)
    also have "\<dots> = word_rotr (LENGTH('a) - (if n + m < LENGTH('a) then n + m else n + m - LENGTH('a))) x"
    proof (cases "n + m < LENGTH('a)")
      case True
      then have "LENGTH('a) - n + (LENGTH('a) - m) = LENGTH('a) - (n + m) + LENGTH('a)" using n by simp
      then have "(LENGTH('a) - n + (LENGTH('a) - m)) mod LENGTH('a) = (LENGTH('a) - (n + m)) mod LENGTH('a)" by (simp only: mod_add_self2)
      with True show ?thesis by (simp only: if_True) (rule rotr_mod)
    next
      case False
      then have "LENGTH('a) - n + (LENGTH('a) - m) = LENGTH('a) - (n + m - LENGTH('a))" using n by simp
      then show ?thesis using False by simp
    qed
    also have "\<dots> = word_rotl (if n + m < LENGTH('a) then n + m else n + m - LENGTH('a)) x"
      using n by (simp add: word_rotl_eq_word_rotr)
    finally show ?thesis .
  qed
  have rr: "word_rotr m (word_rotr n x) = word_rotr (if n + m < LENGTH('a) then n + m else n + m - LENGTH('a)) x"
    using n by (auto simp: rotr_rotr le_mod_geq intro: rotr_mod)
  show "n + m < LENGTH('a) \<Longrightarrow> shw op m (shw op n x) = shw op (n + m) x"
    using op rl rr by (auto simp: shw_def add.commute ac_simps intro!: bit_word_eqI simp: bit_simps)
  show "LENGTH('a) \<le> n + m \<Longrightarrow> op = IR_BSHL \<or> op = IR_BSHR \<Longrightarrow> shw op m (shw op n x) = 0"
    by (auto simp: shw_def intro!: bit_word_eqI simp: bit_simps dest: bit_imp_le_length)
  show "LENGTH('a) \<le> n + m \<Longrightarrow> op = IR_BSAR \<Longrightarrow> shw op m (shw op n x) = shw op (LENGTH('a) - 1) x"
    by (auto simp: shw_def intro!: bit_word_eqI simp: bit_simps Suc_le_eq split: if_splits)
  show "LENGTH('a) \<le> n + m \<Longrightarrow> op = IR_BROL \<or> op = IR_BROR \<Longrightarrow> shw op m (shw op n x) = shw op (n + m - LENGTH('a)) x"
    using rl rr by (auto simp: shw_def)
qed

text \<open>The combined count of two nested shifts by constants, at the width of \<open>x\<close>.\<close>

definition shift_sum :: "u8 \<Rightarrow> u32 \<Rightarrow> u32 \<Rightarrow> u32" where
  "shift_sum op m k = (if sint k > sint m then if op = IR_BSAR then m else k AND m else k)"

lemma mask_mod_Suc: "m = 31 \<or> m = (63 :: u32) \<Longrightarrow> unat (c AND m) = unat c mod Suc (unat m)"
  by (auto simp: mask_mod)

lemma sint_small: "unat x < 2 ^ 31 \<Longrightarrow> sint (x :: u32) = int (unat x)"
proof -
  assume "unat x < 2 ^ 31"
  then have "uint x < 2 ^ 31" by (simp only: unat_eq_nat_uint nat_less_iff uint_ge_0) simp
  then have "signed_take_bit 31 (uint x) = uint x" by (intro signed_take_bit_int_eq_self order_trans [OF _ uint_ge_0]) simp_all
  then show ?thesis by (simp add: sint_uint)
qed

lemma mask_sum:
  fixes a b :: u32
  assumes m: "m = 31 \<or> m = (63 :: u32)"
  shows "unat (a AND m) \<le> unat m" "unat ((a AND m) + (b AND m)) = unat (a AND m) + unat (b AND m)"
    "sint ((a AND m) + (b AND m)) > sint m \<longleftrightarrow> unat (a AND m) + unat (b AND m) > unat m"
proof -
  have b: "unat (c AND m) \<le> unat m" for c by (simp add: word_and_le1 flip: word_le_nat_alt)
  then show "unat (a AND m) \<le> unat m" .
  have l: "unat (a AND m) + unat (b AND m) < 2 ^ 31" using b [of a] b [of b] m by auto
  then show s: "unat ((a AND m) + (b AND m)) = unat (a AND m) + unat (b AND m)" by (simp add: unat_word_ariths)
  have "sint ((a AND m) + (b AND m)) = int (unat (a AND m) + unat (b AND m))" using sint_small [of "(a AND m) + (b AND m)"] s l by simp
  moreover have "sint m = int (unat m)" by (rule sint_small) (use m in auto)
  ultimately show "sint ((a AND m) + (b AND m)) > sint m \<longleftrightarrow> unat (a AND m) + unat (b AND m) > unat m" by linarith
qed

lemma shift_sum:
  fixes x :: "'a::len word" and a b :: u32
  assumes op: "op \<in> {IR_BSHL, IR_BSHR, IR_BSAR, IR_BROL, IR_BROR}" and m: "m = 31 \<or> m = (63 :: u32)" and w: "LENGTH('a) = Suc (unat m)"
  defines "k \<equiv> (a AND m) + (b AND m)" and "y \<equiv> shw op (unat (b AND m)) (shw op (unat (a AND m)) x)"
  shows "sint k > sint m \<Longrightarrow> op = IR_BSHL \<or> op = IR_BSHR \<Longrightarrow> y = 0"
    "\<not> (sint k > sint m \<and> (op = IR_BSHL \<or> op = IR_BSHR)) \<Longrightarrow> y = shw op (unat (shift_sum op m k AND m)) x"
proof -
  note M = mask_sum (1) [OF m, of a] mask_sum (1) [OF m, of b] mask_sum (2,3) [OF m, of a b] and C = mask_mod_Suc [OF m]
  have n: "unat (a AND m) < LENGTH('a)" "unat (b AND m) < LENGTH('a)" using M w by auto
  note S = shw_shw [OF op n, of x]
  have gt: "sint k > sint m \<longleftrightarrow> LENGTH('a) \<le> unat (a AND m) + unat (b AND m)" using M(4) w by (simp add: k_def Suc_le_eq)
  show "sint k > sint m \<Longrightarrow> op = IR_BSHL \<or> op = IR_BSHR \<Longrightarrow> y = 0" using S(2) gt by (simp add: y_def)
  assume "\<not> (sint k > sint m \<and> (op = IR_BSHL \<or> op = IR_BSHR))"
  then consider (small) "\<not> sint k > sint m" | (sar) "sint k > sint m" "op = IR_BSAR" | (rot) "sint k > sint m" "op = IR_BROL \<or> op = IR_BROR" using op by auto
  then show "y = shw op (unat (shift_sum op m k AND m)) x"
  proof cases
    case small
    then have "unat (k AND m) = unat (a AND m) + unat (b AND m)" using M(3) gt w C [of k] by (simp add: k_def)
    then show ?thesis using S(1) small gt by (simp add: shift_sum_def y_def)
  next
    case sar
    then show ?thesis using S(3) gt w by (simp add: shift_sum_def y_def)
  next
    case rot
    have "unat (k AND m AND m) = (unat (a AND m) + unat (b AND m)) mod LENGTH('a)" using M(3) w C [of k] by (simp add: k_def)
    also have "\<dots> = unat (a AND m) + unat (b AND m) - LENGTH('a)" using rot gt n by (simp add: le_mod_geq)
    finally show ?thesis using S(4) rot gt by (auto simp: shift_sum_def y_def ir_codes)
  qed
qed

lemma sem_shw_mask:
  assumes "op \<in> {IR_BSHL, IR_BSHR, IR_BSAR, IR_BROL, IR_BROR}"
  shows "\<not> irt_is64 t \<Longrightarrow> sem32 op a k = Some (Val (scast (shw op (unat (k AND shift_mask t)) a)))"
    "irt_is64 t \<Longrightarrow> sem64 op c (scast k) = Some (Val (shw op (unat (k AND shift_mask t)) c))"
  by (simp_all add: sem_shw [OF assms] mask_count)

lemma reassoc_shift_sound:
  assumes p: "prepared J" and op: "ir_o (fold_ins J) \<in> {IR_BSHL, IR_BSHR, IR_BSAR, IR_BROL, IR_BROR}"
    and l: "ir_o (fold_left J) = ir_o (fold_ins J)" and k: "ir_o (fold_right J) = IR_KINT"
  shows "sound J (reassoc_shift e J)"
proof -
  define m where "m = shift_mask (ir_t (fold_ins J))"
  define i1 where "i1 = ir_i (IR J (unat (ir_op2 (fold_left J))))"
  define i2 where "i2 = ir_i (fold_right J)"
  define s where "s = (i1 AND m) + (i2 AND m)"
  have K: "shift_op (ir_o (fold_ins J))" "\<not> unary_op (ir_o (fold_ins J))" "\<not> binary_op (ir_o (fold_ins J))" "ir_o (fold_ins J) \<noteq> IR_SUB" "ir_o (fold_ins J) \<noteq> IR_MOD"
    using shift_ops [OF op] by auto
  have kl: "shift_op (ir_o (fold_left J)) \<or> unary_op (ir_o (fold_left J)) \<or> binary_op (ir_o (fold_left J))" using l K by auto
  note L = left_ins [OF p kl] and V = right_kint (1) [OF p k K(2), folded i2_def] and W = sem_shw_mask [OF op, of "ir_t (fold_ins J)", folded m_def]
  have m: "m = 31 \<or> m = 63" "\<not> irt_is64 (ir_t (fold_ins J)) \<Longrightarrow> m = 31" "irt_is64 (ir_t (fold_ins J)) \<Longrightarrow> m = 63" by (simp_all add: m_def shift_mask_def)
  have lw: "valid J (unat (ir_op1 (fold_left J)))" "valid J (unat (ir_op2 (fold_left J)))" "is64 J (ir_op1 (fold_left J)) = irt_is64 (ir_t (fold_ins J))"
    "\<not> irt_isfp (ir_t (IR J (unat (ir_op1 (fold_left J)))))" using L(2,3) l K by (auto simp: wt_def)
  have main: "sound J (if sint s > sint m \<and> (ir_o (fold_ins J) = IR_BSHL \<or> ir_o (fold_ins J) = IR_BSHR) then if m = 31 then INTFOLD 0 J else INT64FOLD 0 e J
      else kint_op2 (shift_sum (ir_o (fold_ins J)) m s) e (upd_fins (set_op1 (ir_op1 (fold_left J))) J))"
    if i: "ir_o (IR J (unat (ir_op2 (fold_left J)))) = IR_KINT"
  proof -
    have a64: "v (unat (ir_op1 (fold_ins J))) = shw (ir_o (fold_ins J)) (unat (i1 AND m)) (v (unat (ir_op1 (fold_left J))))"
      if "models J v" "irt_is64 (ir_t (fold_ins J))" for v
      using L(6) [OF that] v_kint [OF that(1) lw(2) i] W(2) [OF that(2)] by (simp add: l i1_def)
    have a32: "(ucast (v (unat (ir_op1 (fold_ins J)))) :: u32) = shw (ir_o (fold_ins J)) (unat (i1 AND m)) (ucast (v (unat (ir_op1 (fold_left J)))))"
      if "models J v" "\<not> irt_is64 (ir_t (fold_ins J))" for v
      using L(7) [OF that] v_kint [OF that(1) lw(2) i] W(1) [OF that(2)] by (simp add: l i1_def)
    have len: "irt_is64 (ir_t (fold_ins J)) \<Longrightarrow> LENGTH(64) = Suc (unat m)" "\<not> irt_is64 (ir_t (fold_ins J)) \<Longrightarrow> LENGTH(32) = Suc (unat m)"
      using m(2,3) by auto
    note S64 = shift_sum [OF op m(1) len(1), of i1 i2, folded s_def] and S32 = shift_sum [OF op m(1) len(2), of i1 i2, folded s_def]
    show ?thesis
    proof (cases "sint s > sint m \<and> (ir_o (fold_ins J) = IR_BSHL \<or> ir_o (fold_ins J) = IR_BSHR)")
      case True
      have "sound J (INTFOLD 0 J)" if w: "\<not> irt_is64 (ir_t (fold_ins J))"
        by (rule sound_int [OF p w]) (use True w in \<open>simp add: means_def isem_def Let_def V W a32 S32\<close>)
      moreover have "sound J (INT64FOLD 0 e J)" if w: "irt_is64 (ir_t (fold_ins J))"
        by (rule sound_int64 [OF p w]) (use True w in \<open>simp add: means_def isem_def Let_def V W a64 S64\<close>)
      ultimately show ?thesis using True m by (cases "irt_is64 (ir_t (fold_ins J))") simp_all
    next
      case False
      have "sound J (kint_op2 (shift_sum (ir_o (fold_ins J)) m s) e (upd_fins (set_op1 (ir_op1 (fold_left J))) J))"
        unfolding kint_op2_def
      proof (rule sound_kint [OF p])
        fix J' and r :: u16
        assume J': "ir_ok J'" "trace_ok J'" "extends J J'" "valid J' (unat r)" "ir_o (IR J' (unat r)) = IR_KINT"
          "ir_i (IR J' (unat r)) = shift_sum (ir_o (fold_ins J)) m s" "ref_weight r = 0"
        show "retry_ok J (fold_ins J) J' (set_op2 r (set_op1 (ir_op1 (fold_left J)) (fold_ins J)))"
        proof (rule retry_okI [OF p J'(3)])
          show "(fold_mu J' (set_op2 r (set_op1 (ir_op1 (fold_left J)) (fold_ins J))), fold_mu J (fold_ins J)) \<in> mu_less"
            by (rule mu_weight) (use J' L(4) in auto)
        qed (use K lw J' extends_valid [OF J'(3) lw(1)] kint_facts [OF J'(1,4,5)] False in
          \<open>auto simp: wt_def is64_def V W a32 a64 S32 S64 v_kint [of J']\<close>)
      qed
      then show ?thesis using False by (simp only: if_False)
    qed
  qed
  then show ?thesis using p
    unfolding reassoc_shift_def Let_def m_def [symmetric] i1_def [symmetric] i2_def [symmetric] s_def [symmetric] shift_sum_def [symmetric]
    by (auto intro: sound_phi)
qed

section \<open>Commutativity\<close>

text \<open>An instruction with its operands exchanged is well-typed and smaller once they are in order.\<close>

lemma swap_ops_fields [simp]: "ir_op1 (swap_ops ir) = ir_op2 ir" "ir_op2 (swap_ops ir) = ir_op1 ir" "ir_o (swap_ops ir) = ir_o ir" "ir_t (swap_ops ir) = ir_t ir"
  by (simp_all add: swap_ops_def)

lemma sound_swap:
  assumes p: "prepared J" and b: "binary_op (ir_o (fold_ins J))" "ir_o (fold_ins J) \<notin> {IR_SUB, IR_MOD}" and lt: "ir_op1 (fold_ins J) < ir_op2 (fold_ins J)"
    and f: "binary_op (f (ir_o (fold_ins J)))" "f (ir_o (fold_ins J)) \<notin> {IR_SUB, IR_MOD}" "fold_rank (f (ir_o (fold_ins J))) = fold_rank (ir_o (fold_ins J))"
    and s: "\<And>a c. sem64 (ir_o (fold_ins J)) a c = sem64 (f (ir_o (fold_ins J))) c a" "\<And>a c. sem32 (ir_o (fold_ins J)) a c = sem32 (f (ir_o (fold_ins J))) c a"
  shows "sound J (ret RETRYFOLD (upd_fins (\<lambda>ir. set_o (f (ir_o ir)) (swap_ops ir)) J))"
proof (rule sound_retry [OF p], rule retry_okI [OF p extends_refl])
  have ns: "\<not> shift_op op" if "binary_op op" for op using that by (auto simp: op_kinds ir_codes word_le_nat_alt)
  have u: "\<not> unary_op (ir_o (fold_ins J))" "\<not> unary_op (f (ir_o (fold_ins J)))" using b f unary_not_binary by blast+
  note P = preparedD (5) [OF p]
  show "(fold_mu J (set_o (f (ir_o (fold_ins J))) (swap_ops (fold_ins J))), fold_mu J (fold_ins J)) \<in> mu_less"
    by (rule mu_flag) (use lt ns [OF b(1)] ns [OF f(1)] f(3) in \<open>auto simp: fold_flag_def\<close>)
  show "wt J (set_o (f (ir_o (fold_ins J))) (swap_ops (fold_ins J)))" using P u b f by (auto simp: wt_def)
qed (use b f s in auto)

lemma comm_swap_sound:
  assumes p: "prepared J" and op: "ir_o (fold_ins J) \<in> {IR_ADD, IR_MUL, IR_MIN, IR_MAX, IR_BAND, IR_BOR, IR_BXOR, IR_EQ, IR_NE}"
  shows "sound J (comm_swap e J)"
proof -
  have i: "(\<lambda>ir. set_o (ir_o ir) (swap_ops ir)) = swap_ops" by (simp add: fun_eq_iff set_o_def swap_ops_def)
  have "sound J (ret RETRYFOLD (upd_fins swap_ops J))" if "ir_op1 (fold_ins J) < ir_op2 (fold_ins J)"
    using sound_swap [OF p _ _ that, of "\<lambda>x. x"] op unfolding i
    by (auto simp: sem_eval add.commute mult.commute and.commute or.commute xor.commute sint_inj eq_commute)
  then show ?thesis using p by (simp add: comm_swap_def)
qed

lemma comm_equal_sound:
  assumes p: "prepared J" and op: "ir_o (fold_ins J) \<in> {IR_EQ, IR_NE}"
  shows "sound J (comm_equal e J)"
proof -
  have "sound J (CONDFOLD (ir_o (fold_ins J) = IR_EQ) J)" if "ir_op1 (fold_ins J) = ir_op2 (fold_ins J)"
    by (rule sound_cond [OF p]) (use op that in \<open>auto simp: means_def isem_def Let_def sem_eval split: if_splits\<close>)
  moreover have "sound J (comm_swap e J)" using op by (intro comm_swap_sound [OF p]) auto
  ultimately show ?thesis using int_not_num [OF p] by (simp add: comm_equal_def Let_def)
qed

lemma comp_swap:
  assumes "op \<in> {IR_LT, IR_GE, IR_LE, IR_GT, IR_ULT, IR_UGE, IR_ULE, IR_UGT}"
  shows "op XOR 3 \<in> {IR_LT, IR_GE, IR_LE, IR_GT, IR_ULT, IR_UGE, IR_ULE, IR_UGT}" "cmp op a b = cmp (op XOR 3) b a"
  using assms by (elim insertE emptyE; simp add: ir_codes cmp_def)+

lemma sem_comp:
  assumes "op \<in> {IR_LT, IR_GE, IR_LE, IR_GT, IR_ULT, IR_UGE, IR_ULE, IR_UGT}"
  shows "sem32 op a b = map_option Cond (cmp op a b)" "sem64 op c d = map_option Cond (cmp op c d)" "binary_op op" "op \<notin> {IR_SUB, IR_MOD}" "fold_rank op = 1"
  using assms by (elim insertE emptyE; simp add: ir_codes sem32_def sem64_def alu_def binary_op_def fold_rank_def)+

lemma comm_comp_sound:
  assumes p: "prepared J" and op: "ir_o (fold_ins J) \<in> {IR_LT, IR_GE, IR_LE, IR_GT, IR_ULT, IR_UGE, IR_ULE, IR_UGT}"
  shows "sound J (comm_comp e J)"
proof -
  have "sound J (CONDFOLD ((ir_o (fold_ins J) XOR drop_bit 1 (ir_o (fold_ins J))) AND 1 \<noteq> 0) J)" if "ir_op1 (fold_ins J) = ir_op2 (fold_ins J)"
    by (rule sound_cond [OF p]) (use op that in \<open>auto simp: means_def isem_def Let_def sem32_def sem64_def alu_def cmp_def ir_codes split: if_splits\<close>)
  moreover have "sound J (ret RETRYFOLD (upd_fins (\<lambda>ir. set_o (ir_o ir XOR 3) (swap_ops ir)) J))" if "ir_op1 (fold_ins J) < ir_op2 (fold_ins J)"
    by (rule sound_swap [OF p _ _ that]) (use sem_comp [OF op] sem_comp [OF comp_swap (1) [OF op]] in \<open>simp_all add: comp_swap (2) [OF op]\<close>)
  ultimately show ?thesis using int_not_num [OF p] p by (simp add: comm_comp_def Let_def)
qed

lemma comm_dup_sound:
  assumes p: "prepared J" and op: "ir_o (fold_ins J) \<in> {IR_BAND, IR_BOR, IR_MIN, IR_MAX}"
  shows "sound J (comm_dup e J)"
proof -
  have "sound J (LEFTFOLD J)" if "ir_op1 (fold_ins J) = ir_op2 (fold_ins J)"
    by (rule sound_leftI [OF p left_width [OF p]]) (use op that in \<open>auto simp: sem_eval\<close>)
  moreover have "sound J (comm_swap e J)" using op by (intro comm_swap_sound [OF p]) auto
  ultimately show ?thesis by (simp add: comm_dup_def)
qed

lemma comm_bxor_sound:
  assumes p: "prepared J" and op: "ir_o (fold_ins J) = IR_BXOR"
  shows "sound J (comm_bxor e J)"
proof -
  have "sound J (INT64FOLD 0 e J)" if "ir_op1 (fold_ins J) = ir_op2 (fold_ins J)" "irt_is64 (ir_t (fold_ins J))"
    by (rule sound_int64 [OF p]) (use that in \<open>auto simp: means_def isem_def op sem_eval\<close>)
  moreover have "sound J (INTFOLD 0 J)" if "ir_op1 (fold_ins J) = ir_op2 (fold_ins J)" "\<not> irt_is64 (ir_t (fold_ins J))"
    by (rule sound_int [OF p]) (use that in \<open>auto simp: means_def isem_def op sem_eval\<close>)
  moreover have "sound J (comm_swap e J)" using op by (intro comm_swap_sound [OF p]) auto
  ultimately show ?thesis by (simp add: comm_bxor_def)
qed

end
