(* ===== verification/LJ_FoldTable.thy ===== *)
theory LJ_FoldTable
  imports LJ_FoldReassoc
begin

text \<open>
  The table of the integer rules of \<open>lj_opt_fold.c\<close>, with the keys \<open>foldrule\<close> of \<open>host/buildvm_fold.c\<close>
  builds for them, and its soundness: whenever the engine's search finds a rule for an instruction,
  the opcodes of the instruction and of its operands are those of the rule, so the rule is sound for
  it. The rules whose keys name numbers, pointers or objects are not in the table.
\<close>

section \<open>The rules\<close>

definition foldrule :: "u8 \<Rightarrow> u8 \<Rightarrow> u16 \<Rightarrow> u32" where
  "foldrule op left right = push_bit 17 (ucast op) OR push_bit 10 (ucast left) OR ucast right"

text \<open>A group of \<open>LJFOLD\<close> lines and the function below them.\<close>

type_synonym fold_keys = "(u8 \<times> u8 \<times> u16) list"

definition LJFOLD :: "fold_keys \<Rightarrow> FoldFunc \<Rightarrow> fold_keys \<times> FoldFunc" where "LJFOLD ks f = (ks, f)"

definition fold_groups :: "(u64 \<Rightarrow> u64 \<Rightarrow> u8 \<Rightarrow> u64) \<Rightarrow> (fold_keys \<times> FoldFunc) list" where
  "fold_groups foldarith = [
     LJFOLD [(IR_ADD, IR_KINT, ucast IR_KINT), (IR_SUB, IR_KINT, ucast IR_KINT), (IR_MUL, IR_KINT, ucast IR_KINT),
       (IR_MOD, IR_KINT, ucast IR_KINT), (IR_NEG, IR_KINT, ucast IR_KINT), (IR_BAND, IR_KINT, ucast IR_KINT),
       (IR_BOR, IR_KINT, ucast IR_KINT), (IR_BXOR, IR_KINT, ucast IR_KINT), (IR_BSHL, IR_KINT, ucast IR_KINT),
       (IR_BSHR, IR_KINT, ucast IR_KINT), (IR_BSAR, IR_KINT, ucast IR_KINT), (IR_BROL, IR_KINT, ucast IR_KINT),
       (IR_BROR, IR_KINT, ucast IR_KINT), (IR_MIN, IR_KINT, ucast IR_KINT), (IR_MAX, IR_KINT, ucast IR_KINT)] kfold_intarith,
     LJFOLD [(IR_BNOT, IR_KINT, 0)] kfold_bnot,
     LJFOLD [(IR_BSWAP, IR_KINT, 0)] kfold_bswap,
     LJFOLD [(IR_LT, IR_KINT, ucast IR_KINT), (IR_GE, IR_KINT, ucast IR_KINT), (IR_LE, IR_KINT, ucast IR_KINT),
       (IR_GT, IR_KINT, ucast IR_KINT), (IR_ULT, IR_KINT, ucast IR_KINT), (IR_UGE, IR_KINT, ucast IR_KINT),
       (IR_ULE, IR_KINT, ucast IR_KINT), (IR_UGT, IR_KINT, ucast IR_KINT), (IR_ABC, IR_KINT, ucast IR_KINT)] kfold_intcomp,
     LJFOLD [(IR_UGE, 0x7f, ucast IR_KINT)] kfold_intcomp0,
     LJFOLD [(IR_ADD, IR_KINT64, ucast IR_KINT64), (IR_SUB, IR_KINT64, ucast IR_KINT64),
       (IR_MUL, IR_KINT64, ucast IR_KINT64), (IR_BAND, IR_KINT64, ucast IR_KINT64), (IR_BOR, IR_KINT64, ucast IR_KINT64),
       (IR_BXOR, IR_KINT64, ucast IR_KINT64)] kfold_int64arith,
     LJFOLD [(IR_BSHL, IR_KINT64, ucast IR_KINT), (IR_BSHR, IR_KINT64, ucast IR_KINT), (IR_BSAR, IR_KINT64, ucast IR_KINT),
       (IR_BROL, IR_KINT64, ucast IR_KINT), (IR_BROR, IR_KINT64, ucast IR_KINT)] kfold_int64shift,
     LJFOLD [(IR_BNOT, IR_KINT64, 0)] kfold_bnot64,
     LJFOLD [(IR_BSWAP, IR_KINT64, 0)] kfold_bswap64,
     LJFOLD [(IR_LT, IR_KINT64, ucast IR_KINT64), (IR_GE, IR_KINT64, ucast IR_KINT64), (IR_LE, IR_KINT64, ucast IR_KINT64),
       (IR_GT, IR_KINT64, ucast IR_KINT64), (IR_ULT, IR_KINT64, ucast IR_KINT64), (IR_UGE, IR_KINT64, ucast IR_KINT64),
       (IR_ULE, IR_KINT64, ucast IR_KINT64), (IR_UGT, IR_KINT64, ucast IR_KINT64)] kfold_int64comp,
     LJFOLD [(IR_UGE, 0x7f, ucast IR_KINT64)] kfold_int64comp0,
     LJFOLD [(IR_EQ, IR_KINT, ucast IR_KINT), (IR_NE, IR_KINT, ucast IR_KINT), (IR_EQ, IR_KINT64, ucast IR_KINT64),
       (IR_NE, IR_KINT64, ucast IR_KINT64)] kfold_kref,
     LJFOLD [(IR_NEG, IR_NEG, 0x3ff), (IR_BNOT, IR_BNOT, 0), (IR_BSWAP, IR_BSWAP, 0)] shortcut_leftleft,
     LJFOLD [(IR_ADD, 0x7f, ucast IR_KINT), (IR_ADDOV, 0x7f, ucast IR_KINT), (IR_SUBOV, 0x7f, ucast IR_KINT)] simplify_intadd_k,
     LJFOLD [(IR_SUB, 0x7f, ucast IR_KINT)] simplify_intsub_k,
     LJFOLD [(IR_SUB, IR_KINT, 0x3ff), (IR_SUB, IR_KINT64, 0x3ff)] simplify_intsub_kleft,
     LJFOLD [(IR_ADD, 0x7f, ucast IR_KINT64)] simplify_intadd_k64,
     LJFOLD [(IR_SUB, 0x7f, ucast IR_KINT64)] simplify_intsub_k64,
     LJFOLD [(IR_MUL, 0x7f, ucast IR_KINT)] simplify_intmul_k32,
     LJFOLD [(IR_MUL, 0x7f, ucast IR_KINT64)] simplify_intmul_k64,
     LJFOLD [(IR_MOD, 0x7f, ucast IR_KINT)] simplify_intmod_k,
     LJFOLD [(IR_MOD, IR_KINT, 0x3ff)] simplify_intmod_kleft,
     LJFOLD [(IR_SUB, 0x7f, 0x3ff), (IR_SUBOV, 0x7f, 0x3ff)] simplify_intsub,
     LJFOLD [(IR_SUB, IR_ADD, 0x3ff)] simplify_intsubadd_leftcancel,
     LJFOLD [(IR_SUB, IR_SUB, 0x3ff)] simplify_intsubsub_leftcancel,
     LJFOLD [(IR_SUB, 0x7f, ucast IR_SUB)] simplify_intsubsub_rightcancel,
     LJFOLD [(IR_SUB, 0x7f, ucast IR_ADD)] simplify_intsubadd_rightcancel,
     LJFOLD [(IR_SUB, IR_ADD, ucast IR_ADD)] simplify_intsubaddadd_cancel,
     LJFOLD [(IR_BAND, 0x7f, ucast IR_KINT), (IR_BAND, 0x7f, ucast IR_KINT64)] simplify_band_k,
     LJFOLD [(IR_BOR, 0x7f, ucast IR_KINT), (IR_BOR, 0x7f, ucast IR_KINT64)] simplify_bor_k,
     LJFOLD [(IR_BXOR, 0x7f, ucast IR_KINT), (IR_BXOR, 0x7f, ucast IR_KINT64)] simplify_bxor_k,
     LJFOLD [(IR_BSHL, 0x7f, ucast IR_KINT), (IR_BSHR, 0x7f, ucast IR_KINT), (IR_BSAR, 0x7f, ucast IR_KINT),
       (IR_BROL, 0x7f, ucast IR_KINT), (IR_BROR, 0x7f, ucast IR_KINT)] simplify_shift_ik,
     LJFOLD [(IR_BSHL, 0x7f, ucast IR_BAND), (IR_BSHR, 0x7f, ucast IR_BAND), (IR_BSAR, 0x7f, ucast IR_BAND),
       (IR_BROL, 0x7f, ucast IR_BAND), (IR_BROR, 0x7f, ucast IR_BAND)] simplify_shift_andk,
     LJFOLD [(IR_BSHL, IR_KINT, 0x3ff), (IR_BSHR, IR_KINT, 0x3ff), (IR_BSHL, IR_KINT64, 0x3ff), (IR_BSHR, IR_KINT64, 0x3ff)] simplify_shift1_ki,
     LJFOLD [(IR_BSAR, IR_KINT, 0x3ff), (IR_BROL, IR_KINT, 0x3ff), (IR_BROR, IR_KINT, 0x3ff), (IR_BSAR, IR_KINT64, 0x3ff),
       (IR_BROL, IR_KINT64, 0x3ff), (IR_BROR, IR_KINT64, 0x3ff)] simplify_shift2_ki,
     LJFOLD [(IR_BAND, IR_BSHL, ucast IR_KINT), (IR_BAND, IR_BSHR, ucast IR_KINT)] simplify_andk_shiftk,
     LJFOLD [(IR_ADD, IR_ADD, ucast IR_KINT), (IR_MUL, IR_MUL, ucast IR_KINT), (IR_BAND, IR_BAND, ucast IR_KINT),
       (IR_BOR, IR_BOR, ucast IR_KINT), (IR_BXOR, IR_BXOR, ucast IR_KINT)] reassoc_intarith_k,
     LJFOLD [(IR_ADD, IR_ADD, ucast IR_KINT64), (IR_MUL, IR_MUL, ucast IR_KINT64), (IR_BAND, IR_BAND, ucast IR_KINT64),
       (IR_BOR, IR_BOR, ucast IR_KINT64), (IR_BXOR, IR_BXOR, ucast IR_KINT64)] reassoc_intarith_k64,
     LJFOLD [(IR_MIN, IR_MIN, 0x3ff), (IR_MAX, IR_MAX, 0x3ff), (IR_BAND, IR_BAND, 0x3ff), (IR_BOR, IR_BOR, 0x3ff)] reassoc_dup,
     LJFOLD [(IR_BXOR, IR_BXOR, 0x3ff)] reassoc_bxor,
     LJFOLD [(IR_BSHL, IR_BSHL, ucast IR_KINT), (IR_BSHR, IR_BSHR, ucast IR_KINT), (IR_BSAR, IR_BSAR, ucast IR_KINT),
       (IR_BROL, IR_BROL, ucast IR_KINT), (IR_BROR, IR_BROR, ucast IR_KINT)] reassoc_shift,
     LJFOLD [(IR_MIN, IR_MIN, ucast IR_KINT), (IR_MAX, IR_MAX, ucast IR_KINT)] (reassoc_minmax_k foldarith),
     LJFOLD [(IR_MIN, IR_MAX, 0x3ff), (IR_MAX, IR_MIN, 0x3ff)] reassoc_minmax_left,
     LJFOLD [(IR_MIN, 0x7f, ucast IR_MAX), (IR_MAX, 0x7f, ucast IR_MIN)] reassoc_minmax_right,
     LJFOLD [(IR_ADD, 0x7f, 0x3ff), (IR_MUL, 0x7f, 0x3ff), (IR_ADDOV, 0x7f, 0x3ff), (IR_MULOV, 0x7f, 0x3ff)] comm_swap,
     LJFOLD [(IR_EQ, 0x7f, 0x3ff), (IR_NE, 0x7f, 0x3ff)] comm_equal,
     LJFOLD [(IR_LT, 0x7f, 0x3ff), (IR_GE, 0x7f, 0x3ff), (IR_LE, 0x7f, 0x3ff), (IR_GT, 0x7f, 0x3ff), (IR_ULT, 0x7f, 0x3ff),
       (IR_UGE, 0x7f, 0x3ff), (IR_ULE, 0x7f, 0x3ff), (IR_UGT, 0x7f, 0x3ff)] comm_comp,
     LJFOLD [(IR_BAND, 0x7f, 0x3ff), (IR_BOR, 0x7f, 0x3ff), (IR_MIN, 0x7f, 0x3ff), (IR_MAX, 0x7f, 0x3ff)] comm_dup,
     LJFOLD [(IR_BXOR, 0x7f, 0x3ff)] comm_bxor]"

definition group_rules :: "(fold_keys \<times> FoldFunc) list \<Rightarrow> ((u8 \<times> u8 \<times> u16) \<times> FoldFunc) list" where
  "group_rules gs = concat (map (\<lambda>(ks, f). map (\<lambda>k. (k, f)) ks) gs)"

definition int_rules :: "(u64 \<Rightarrow> u64 \<Rightarrow> u8 \<Rightarrow> u64) \<Rightarrow> u32 \<Rightarrow> FoldFunc option" where
  "int_rules foldarith = map_of (map (\<lambda>((op, l, r), f). (foldrule op l r, f)) (group_rules (fold_groups foldarith)))"

section \<open>Soundness of the rules\<close>

text \<open>The instruction and its operands have the opcodes of a key.\<close>

definition matches :: "jit_State \<Rightarrow> u8 \<times> u8 \<times> u16 \<Rightarrow> bool" where
  "matches J k \<longleftrightarrow> (case k of (op, l, r) \<Rightarrow> ir_o (fold_ins J) = op \<and> (l \<noteq> 0x7f \<longrightarrow> ir_o (fold_left J) = l) \<and>
     (r \<noteq> 0x3ff \<longrightarrow> \<not> unary_op op \<longrightarrow> ucast (ir_o (fold_right J)) = r))"

definition rule_sound :: "(u8 \<times> u8 \<times> u16) \<times> FoldFunc \<Rightarrow> bool" where
  "rule_sound kf \<longleftrightarrow> (\<forall>e J. prepared J \<longrightarrow> matches J (fst kf) \<longrightarrow> sound J (snd kf e J))"

definition group_sound :: "fold_keys \<times> FoldFunc \<Rightarrow> bool" where
  "group_sound g \<longleftrightarrow> list_all (\<lambda>k. rule_sound (k, snd g)) (fst g)"

lemma group_sound_LJFOLD: "group_sound (LJFOLD ks f) \<longleftrightarrow> list_all (\<lambda>k. \<forall>e J. prepared J \<longrightarrow> matches J k \<longrightarrow> sound J (f e J)) ks"
  by (simp add: LJFOLD_def group_sound_def rule_sound_def)

lemma group_rules_sound: "list_all group_sound gs \<Longrightarrow> list_all rule_sound (group_rules gs)"
  by (auto simp: group_rules_def list_all_iff group_sound_def)

lemma ucast16_inj [simp]: "(ucast (x :: u8) :: u16) = ucast y \<longleftrightarrow> x = y"
proof
  assume eq: "(ucast x :: u16) = ucast y"
  show "x = y"
  proof (rule bit_word_eqI)
    fix n assume "n < LENGTH(8)"
    then show "bit x n = bit y n" using arg_cong [OF eq, of "\<lambda>z. bit z n"] by (simp add: bit_simps)
  qed
qed simp

lemma ucast16_any [simp]: "(ucast (x :: u8) :: u16) \<noteq> 0x3ff"
proof
  assume eq: "(ucast x :: u16) = 0x3ff"
  show False using arg_cong [OF eq, of "\<lambda>z. bit z 9"] by (auto simp: bit_simps dest: bit_imp_le_length)
qed

lemma left_any [simp]:
  "IR_KINT \<noteq> 0x7f" "IR_KINT64 \<noteq> 0x7f" "IR_NEG \<noteq> 0x7f" "IR_BNOT \<noteq> 0x7f" "IR_BSWAP \<noteq> 0x7f" "IR_ADD \<noteq> 0x7f" "IR_SUB \<noteq> 0x7f" "IR_MUL \<noteq> 0x7f"
  "IR_BAND \<noteq> 0x7f" "IR_BOR \<noteq> 0x7f" "IR_BXOR \<noteq> 0x7f" "IR_BSHL \<noteq> 0x7f" "IR_BSHR \<noteq> 0x7f" "IR_BSAR \<noteq> 0x7f" "IR_BROL \<noteq> 0x7f" "IR_BROR \<noteq> 0x7f"
  "IR_MIN \<noteq> 0x7f" "IR_MAX \<noteq> 0x7f"
  by (simp_all add: ir_codes)

lemma comp_not_unary:
  "\<not> unary_op IR_LT" "\<not> unary_op IR_GE" "\<not> unary_op IR_LE" "\<not> unary_op IR_GT" "\<not> unary_op IR_ULT" "\<not> unary_op IR_UGE" "\<not> unary_op IR_ULE" "\<not> unary_op IR_UGT"
  by (simp_all add: unary_op_def ir_codes)

lemma not_foldable_ov:
  assumes "prepared J"
  shows "ir_o (fold_ins J) \<noteq> IR_ADDOV" "ir_o (fold_ins J) \<noteq> IR_SUBOV" "ir_o (fold_ins J) \<noteq> IR_MULOV" "ir_o (fold_ins J) \<noteq> IR_ABC"
  using preparedD(4) [OF assms] by (auto simp: int_ins_def op_kinds ir_codes word_le_nat_alt)

lemmas fold_sound =
  kfold_intarith_sound kfold_bnot_sound kfold_bswap_sound kfold_intcomp_sound kfold_intcomp0_sound kfold_int64arith_sound kfold_int64shift_sound
  kfold_bnot64_sound kfold_bswap64_sound kfold_int64comp_sound kfold_int64comp0_sound kfold_kref_sound shortcut_leftleft_sound simplify_intadd_k_sound
  simplify_intsub_k_sound simplify_intsub_kleft_sound simplify_intadd_k64_sound simplify_intsub_k64_sound simplify_intmul_k32_sound
  simplify_intmul_k64_sound simplify_intmod_k_sound simplify_intmod_kleft_sound simplify_intsub_sound simplify_intsubadd_leftcancel_sound
  simplify_intsubsub_leftcancel_sound simplify_intsubsub_rightcancel_sound simplify_intsubadd_rightcancel_sound simplify_intsubaddadd_cancel_sound
  simplify_band_k_sound simplify_bor_k_sound simplify_bxor_k_sound simplify_shift_ik_sound simplify_shift_andk_sound simplify_shift1_ki_sound
  simplify_shift2_ki_sound simplify_andk_shiftk_sound reassoc_intarith_k_sound reassoc_intarith_k64_sound reassoc_dup_sound reassoc_bxor_sound
  reassoc_shift_sound reassoc_minmax_k_sound reassoc_minmax_left_sound reassoc_minmax_right_sound comm_swap_sound comm_equal_sound comm_comp_sound
  comm_dup_sound comm_bxor_sound

lemma table_sound: "list_all rule_sound (group_rules (fold_groups foldarith))"
  unfolding fold_groups_def
  by (rule group_rules_sound, simp only: list.pred_inject, intro conjI TrueI;
      auto simp: group_sound_LJFOLD matches_def int_arith_def int_comp_def comp_not_unary not_foldable_ov intro!: fold_sound)

section \<open>Keys\<close>

text \<open>The keys the search tries for an instruction, from the most to the least specific.\<close>

definition any_masks :: "u32 set" where "any_masks = {0, 0x1fc00, 0x3ff, 0x1ffff}"

lemma bit_below: "x < 2 ^ n \<Longrightarrow> bit (x :: 'a::len word) k \<Longrightarrow> k < n"
  by (metis bit_take_bit_iff less_mask_eq take_bit_eq_mask)

lemma below_eqI: "x < 2 ^ k \<Longrightarrow> y < 2 ^ k \<Longrightarrow> \<forall>n<k. bit x n = bit y n \<Longrightarrow> x = (y :: 'a::len word)"
  by (rule bit_word_eqI) (metis bit_below)

lemma bit_foldrule:
  assumes "l < 0x80" "r < 0x400"
  shows "bit (foldrule op l r) n \<longleftrightarrow> n < 32 \<and> (if n < 10 then bit r n else if n < 17 then bit l (n - 10) else bit op (n - 17))"
proof -
  have "\<And>k. bit l k \<Longrightarrow> k < 7" "\<And>k. bit r k \<Longrightarrow> k < 10" using assms bit_below [of l 7] bit_below [of r 10] by auto
  show ?thesis by (auto simp: foldrule_def bit_simps dest: \<open>\<And>k. bit l k \<Longrightarrow> k < 7\<close> \<open>\<And>k. bit r k \<Longrightarrow> k < 10\<close>)
qed

lemma bit_masks:
  "bit (0x1fc00 :: u32) n \<longleftrightarrow> 10 \<le> n \<and> n < 17" "bit (0x3ff :: u32) n \<longleftrightarrow> n < 10" "bit (0x1ffff :: u32) n \<longleftrightarrow> n < 17"
proof -
  have "(0x3ff :: u32) = mask 10" "(0x1fc00 :: u32) = push_bit 10 (mask 7)" "(0x1ffff :: u32) = mask 17" by (simp_all add: mask_eq_exp_minus_1)
  then show "bit (0x1fc00 :: u32) n \<longleftrightarrow> 10 \<le> n \<and> n < 17" "bit (0x3ff :: u32) n \<longleftrightarrow> n < 10" "bit (0x1ffff :: u32) n \<longleftrightarrow> n < 17"
    by (auto simp only: bit_mask_iff bit_push_bit_iff) simp_all
qed

lemma bit_all: "n < 7 \<Longrightarrow> bit (0x7f :: u8) n" "n < 10 \<Longrightarrow> bit (0x3ff :: u16) n"
proof -
  have "(0x7f :: u8) = mask 7" "(0x3ff :: u16) = mask 10" by (simp_all add: mask_eq_exp_minus_1)
  then show "n < 7 \<Longrightarrow> bit (0x7f :: u8) n" "n < 10 \<Longrightarrow> bit (0x3ff :: u16) n" by (simp_all only: bit_mask_iff) simp_all
qed

lemma foldrule_match:
  assumes eq: "foldrule op l r = foldrule op' l' r' OR m" and m: "m \<in> any_masks" and b: "l < 0x80" "r < 0x400" "l' < 0x80" "r' < 0x400"
  shows "op = op'" "l = l' \<or> l = 0x7f" "r = r' \<or> r = 0x3ff"
proof -
  have e: "(if n < 10 then bit r n else if n < 17 then bit l (n - 10) else bit op (n - 17)) =
      ((if n < 10 then bit r' n else if n < 17 then bit l' (n - 10) else bit op' (n - 17)) \<or> bit m n)" if "n < 32" for n
    using arg_cong [OF eq, of "\<lambda>x. bit x n"] bit_foldrule [OF b(1,2)] bit_foldrule [OF b(3,4)] that by (simp add: bit_or_iff)
  show "op = op'"
  proof (rule bit_word_eqI)
    fix n assume "n < LENGTH(8)"
    then have "bit op n = (bit op' n \<or> bit m (n + 17))" using e [of "n + 17"] by simp
    moreover have "\<not> bit m (n + 17)" using m unfolding any_masks_def by (elim insertE emptyE) (simp_all only: bit_masks bit_0_eq, simp_all)
    ultimately show "bit op n = bit op' n" by simp
  qed
  have "(\<forall>n<7. bit m (n + 10)) \<or> (\<forall>n<7. \<not> bit m (n + 10))" "(\<forall>n<10. bit m n) \<or> (\<forall>n<10. \<not> bit m n)"
    using m unfolding any_masks_def by (elim insertE emptyE; simp only: bit_masks bit_0_eq; simp)+
  note mb = this
  have l: "\<forall>n<7. bit l n = (bit l' n \<or> bit m (n + 10))"
  proof (intro allI impI)
    fix n :: nat assume "n < 7"
    then show "bit l n = (bit l' n \<or> bit m (n + 10))" using e [of "n + 10"] by simp
  qed
  have r: "\<forall>n<10. bit r n = (bit r' n \<or> bit m n)"
  proof (intro allI impI)
    fix n :: nat assume "n < 10"
    then show "bit r n = (bit r' n \<or> bit m n)" using e [of n] by simp
  qed
  have k: "\<forall>n<7. bit (0x7f :: u8) n" "\<forall>n<10. bit (0x3ff :: u16) n" using bit_all by blast+
  show "l = l' \<or> l = 0x7f" using mb(1) l k(1) below_eqI [of l 7 l'] below_eqI [of l 7 "0x7f"] b by auto
  show "r = r' \<or> r = 0x3ff" using mb(2) r k(2) below_eqI [of r 10 r'] below_eqI [of r 10 "0x3ff"] b by auto
qed

section \<open>Preparing an instruction\<close>

text \<open>An instruction that can be folded, before its operands are selected.\<close>

definition fold_ready :: "jit_State \<Rightarrow> bool" where
  "fold_ready J \<longleftrightarrow> trace_ok J \<and> foldable (fold_ins J) \<and> wt J (fold_ins J)"

lemma foldable_op: "foldable ir \<Longrightarrow> ir_o ir < 0x7f"
  by (auto simp: foldable_def int_ins_def op_kinds ir_codes word_le_nat_alt word_less_nat_alt)

lemma foldrule_add:
  assumes "l < 0x80" "r < 0x400"
  shows "push_bit 17 (ucast (op :: u8) :: u32) + push_bit 10 (ucast l) + ucast r = foldrule op l r"
proof -
  have B: "\<And>k. bit l k \<Longrightarrow> k < 7" "\<And>k. bit r k \<Longrightarrow> k < 10" using assms bit_below [of l 7] bit_below [of r 10] by auto
  have a: "push_bit 17 (ucast op :: u32) AND push_bit 10 (ucast l) = 0" by (rule bit_word_eqI) (auto simp: bit_simps dest: B)
  have "(push_bit 17 (ucast op :: u32) OR push_bit 10 (ucast l)) AND ucast r = 0" by (rule bit_word_eqI) (auto simp: bit_simps dest: B)
  with a show ?thesis by (simp add: foldrule_def disjunctive_add_eq_or or.assoc)
qed

lemma fold_prep_ready:
  assumes "fold_ready J" "ir_room J 1"
  defines "J1 \<equiv> snd (fold_prep J)"
  shows "prepared J1" "fold_ins J1 = fold_ins J" "fold_mu J1 = fold_mu J" "trace_ok J1" "extends J J1" "extends J1 J" "j_nins J1 = j_nins J" "j_nk J1 = j_nk J"
    "j_k64 J1 = j_k64 J" "models J1 = models J"
    "fst (fold_prep J) = foldrule (ir_o (fold_ins J1)) (ir_o (fold_left J1)) (if unary_op (ir_o (fold_ins J1)) then 0 else ucast (ir_o (fold_right J1)))"
    "ir_o (fold_left J1) < 0x7f" "\<not> unary_op (ir_o (fold_ins J1)) \<Longrightarrow> ir_o (fold_right J1) < 0x7f"
proof -
  let ?fi = "fold_ins J"
  have w: "wt J ?fi" "trace_ok J" "foldable ?fi" "ir_ok J" using assms by (auto simp: fold_ready_def trace_ok_def)
  have v1: "valid J (unat (ir_op1 ?fi))" using w by (simp add: wt_def)
  have v2: "valid J (unat (ir_op2 ?fi))" if "\<not> unary_op (ir_o ?fi)" using w that by (simp add: wt_def)
  have u: "ir_op2 ?fi = 0" if "unary_op (ir_o ?fi)" using w that by (simp add: wt_def)
  have nk: "0 < j_nk J" using w(4) by (auto simp: ir_ok_def buf_ok_def)
  let ?lo = "ir_o (IR J (unat (ir_op1 ?fi)))" and ?ro = "ir_o (IR J (unat (ir_op2 ?fi)))"
  have J1: "J1 = (if unary_op (ir_o ?fi) then J\<lparr>fold_left := IR J (unat (ir_op1 ?fi))\<rparr>
      else J\<lparr>fold_left := IR J (unat (ir_op1 ?fi)), fold_right := IR J (unat (ir_op2 ?fi))\<rparr>)"
    using v1 v2 u nk by (auto simp: J1_def fold_prep_def Let_def valid_def IR_def)
  have "irbuf J1 = irbuf J" "irbotlim J1 = irbotlim J" "irtoplim J1 = irtoplim J" "j_nins J1 = j_nins J" "j_nk J1 = j_nk J"
    "j_chain J1 = j_chain J" "j_k64 J1 = j_k64 J" "j_flags J1 = j_flags J" by (simp_all add: J1)
  note c = trace_cong [OF this]
  show fi: "fold_ins J1 = fold_ins J" by (simp add: J1)
  have fl: "fold_left J1 = IR J (unat (ir_op1 ?fi))" by (simp add: J1)
  have fr: "fold_right J1 = IR J (unat (ir_op2 ?fi))" if "\<not> unary_op (ir_o ?fi)" using that by (simp add: J1)
  show "prepared J1" using w assms(2) fl fr by (simp add: prepared_def fi c)
  show "fold_mu J1 = fold_mu J" "trace_ok J1" "extends J J1" "extends J1 J" "j_nins J1 = j_nins J" "j_nk J1 = j_nk J" "j_k64 J1 = j_k64 J" "models J1 = models J"
    using w by (simp_all add: c) (simp_all add: J1)
  have lo: "?lo < 0x7f" using w(2) v1 by (simp add: trace_ok_def)
  have ro: "?ro < 0x7f" if "\<not> unary_op (ir_o ?fi)" using w(2) v2 [OF that] by (simp add: trace_ok_def)
  show "ir_o (fold_left J1) < 0x7f" "\<not> unary_op (ir_o (fold_ins J1)) \<Longrightarrow> ir_o (fold_right J1) < 0x7f" using lo ro by (simp_all add: fi fl fr)
  have b: "?lo < 0x80" using lo by (simp add: word_less_nat_alt)
  show "fst (fold_prep J) = foldrule (ir_o (fold_ins J1)) (ir_o (fold_left J1)) (if unary_op (ir_o (fold_ins J1)) then 0 else ucast (ir_o (fold_right J1)))"
  proof (cases "unary_op (ir_o ?fi)")
    case True
    then show ?thesis using v1 u nk foldrule_add [OF b, of 0 "ir_o ?fi"] by (simp add: fold_prep_def Let_def valid_def fi fl IR_def)
  next
    case False
    have r: "(ucast ?ro :: u16) < 0x400" using ro [OF False] by (simp add: word_less_nat_alt unsigned_ucast_eq take_bit_nat_eq_self)
    have "ucast (ucast ?ro :: u16) = (ucast ?ro :: u32)" by (rule bit_word_eqI) (auto simp: bit_simps dest: bit_imp_le_length)
    then show ?thesis using v1 v2 [OF False] False foldrule_add [OF b r, of "ir_o ?fi"]
      by (simp add: fold_prep_def Let_def valid_def fi fl fr [OF False] IR_def)
  qed
qed

end
