(* ===== verification/LJ_FoldEngine.thy ===== *)
theory LJ_FoldEngine
  imports LJ_FoldTable
begin

text \<open>
  The FOLD engine with any table of sound rules: common subexpression elimination, the search for a
  rule, the retries and the final result. Every run ends, and what it returns means the same as the
  instruction it was given.
\<close>

section \<open>Results\<close>

text \<open>
  The result of folding \<open>ir\<close>: a guard that always holds is dropped, and any other reference is to a
  value of the same width that equals the value of \<open>ir\<close>, or to a guard with the same condition.
\<close>

definition fold_result :: "jit_State \<Rightarrow> IRIns \<Rightarrow> nat \<Rightarrow> jit_State \<Rightarrow> bool" where
  "fold_result J ir r J' \<longleftrightarrow> trace_ok J' \<and> extends J J' \<and>
     (if r = REF_DROP then means J' ir (\<lambda>v. Cond True)
      else valid J' r \<and> irt_is64 (ir_t (IR J' r)) = irt_is64 (ir_t ir) \<and>
        (\<forall>v. models J' v \<longrightarrow> (\<forall>x. isem v ir = Some (Val x) \<longrightarrow> v r = x) \<and> (\<forall>c. isem v ir = Some (Cond c) \<longrightarrow> isem v (IR J' r) = Some (Cond c))))"

text \<open>Out of memory, a guard that always fails, or a result.\<close>

definition fold_outcome :: "jit_State \<Rightarrow> IRIns \<Rightarrow> (nat, jit_State) res \<Rightarrow> bool" where
  "fold_outcome J ir res \<longleftrightarrow> (\<exists>J'. res = Some (Inl LJ_ERR_ERRMEM, J')) \<or>
     (\<exists>J'. res = Some (Inl LJ_TRERR_GFAIL, J') \<and> trace_ok J' \<and> extends J J' \<and> means J' ir (\<lambda>v. Cond False)) \<or>
     (\<exists>r J'. res = Some (Inr r, J') \<and> fold_result J ir r J')"

lemma outcome_mem [simp]: "fold_outcome J ir (Some (Inl LJ_ERR_ERRMEM, J'))" by (simp add: fold_outcome_def)

lemma outcome_result: "fold_result J ir r J' \<Longrightarrow> fold_outcome J ir (Some (Inr r, J'))" by (simp add: fold_outcome_def)

lemma valid_not_drop: "ref_room J 0 \<Longrightarrow> valid J r \<Longrightarrow> r \<noteq> REF_DROP"
  by (auto simp: valid_def ref_room_def ref_codes)

section \<open>Emission and common subexpression elimination\<close>

lemma fins_op12: "fins_op12 ir = ir_op12 ir"
proof -
  have "ucast (ir_op1 ir) AND push_bit 16 (ucast (ir_op2 ir) :: u32) = 0" by (rule bit_word_eqI) (auto simp: bit_simps dest: bit_imp_le_length)
  then have "fins_op12 ir = IRREF2 (ir_op1 ir) (ir_op2 ir)" by (simp add: fins_op12_def IRREF2_def disjunctive_add_eq_or)
  then show ?thesis by simp
qed

text \<open>The emitter that CSE inlines is the emitter.\<close>

lemma cse_emit_eq: "cse_emit e J = lj_ir_emit e J"
proof -
  have "ir\<lparr>ir_prev := p, ir_op12 := ir_op12 fi, ir_o := ir_o fi, ir_t := ir_t fi\<rparr> = fi\<lparr>ir_prev := p\<rparr>" for ir fi :: IRIns and p by simp
  note eq = this
  show ?thesis unfolding cse_emit_def lj_ir_emit_def fins_op12 Let_def eq ..
qed

lemma isem_prev [simp]: "isem v (ir\<lparr>ir_prev := p\<rparr>) = isem v ir" by (simp add: isem_def Let_def ir_op1_def ir_op2_def)

lemma ready_facts:
  assumes "fold_ready J"
  shows "trace_ok J" "ir_ok J" "foldable (fold_ins J)" "int_ins (fold_ins J)" "wt J (fold_ins J)" "\<not> kop (ir_o (fold_ins J))" "ins_op (ir_o (fold_ins J))"
proof -
  show f: "trace_ok J" "ir_ok J" "foldable (fold_ins J)" "int_ins (fold_ins J)" "wt J (fold_ins J)"
    using assms by (auto simp: fold_ready_def trace_ok_def foldable_def)
  show k: "\<not> kop (ir_o (fold_ins J))" using f(4) kop_not_int by (auto simp: int_ins_def)
  have "ir_o (fold_ins J) \<noteq> IR_KPRI" using f(4) by (auto simp: int_ins_def op_kinds ir_codes word_le_nat_alt)
  then show "ins_op (ir_o (fold_ins J))" using k by (simp add: ins_op_def)
qed

lemma emitted_trace:
  assumes r: "fold_ready J" and J': "ir_ok J'" "extends J J'" "j_nk J' = j_nk J" "j_nins J' = Suc (j_nins J)"
    "IR J' (j_nins J) = (fold_ins J)\<lparr>ir_prev := p\<rparr>"
  shows "trace_ok J'"
proof -
  note F = ready_facts [OF r]
  have w: "wt J' (fold_ins J)" by (rule wt_extends [OF J'(2) F(5)])
  have wp: "wt J' (ir\<lparr>ir_prev := p\<rparr>) = wt J' ir" "int_ins (ir\<lparr>ir_prev := p\<rparr>) = int_ins ir" for ir by (simp_all add: wt_def ir_op1_def ir_op2_def int_ins_def)
  have o: "unat (ir_op1 (fold_ins J)) < j_nins J" "unat (ir_op2 (fold_ins J)) < j_nins J"
    using F(5) F(2) by (auto simp: wt_def valid_def ir_ok_def buf_ok_def)
  have "ir_o (IR J' x) < 0x7f \<and> (int_ins (IR J' x) \<longrightarrow> wt J' (IR J' x) \<and> unat (ir_op1 (IR J' x)) < x \<and> unat (ir_op2 (IR J' x)) < x) \<and>
     (irt_isfp (ir_t (IR J' x)) \<longrightarrow> shift_op (ir_o (IR J' x)) \<or> unary_op (ir_o (IR J' x)) \<or> binary_op (ir_o (IR J' x)) \<longrightarrow>
        valid J' (unat (ir_op1 (IR J' x))) \<and> irt_isfp (ir_t (IR J' (unat (ir_op1 (IR J' x))))))" if v: "valid J' x" for x
  proof (cases "valid J x")
    case True
    then have e: "IR J' x = IR J x" using extends_valid [OF J'(2) True] by simp
    show ?thesis unfolding e using True F(1) extends_valid [OF J'(2), of "unat (ir_op1 (IR J x))"] wt_extends [OF J'(2)]
      by (auto simp: trace_ok_def)
  next
    case False
    then have "x = j_nins J" using v J'(3,4) by (auto simp: valid_def)
    then show ?thesis using F(4) w o foldable_op [OF F(3)] J'(5) by (simp add: wp) (simp add: int_ins_def ir_op1_def ir_op2_def)
  qed
  then show ?thesis using J'(1) by (simp add: trace_ok_def)
qed

lemma emit_outcome:
  assumes r: "fold_ready J" and room: "ref_room J 1"
  shows "fold_outcome J (fold_ins J) (lj_ir_emit e J)"
proof (cases "\<exists>J'. lj_ir_emit e J = Some (Inl LJ_ERR_ERRMEM, J')")
  case False
  note F = ready_facts [OF r]
  from False obtain J' where J': "lj_ir_emit e J = Some (Inr (j_nins J), J')" "ir_ok J'" "extends J J'" "j_nk J' = j_nk J" "j_nins J' = Suc (j_nins J)"
    "IR J' (j_nins J) = (fold_ins J)\<lparr>ir_prev := j_chain J (ir_o (fold_ins J))\<rparr>"
    using emit_ok [OF F(2) room F(7), of e] by auto
  have v: "valid J' (j_nins J)" using J'(4,5) F(2) by (auto simp: valid_def ir_ok_def buf_ok_def ref_codes)
  have i: "int_ins (IR J' (j_nins J))" using F(4) by (simp add: J'(6) int_ins_def)
  have "isem w (IR J' (j_nins J)) = isem w (fold_ins J)" for w by (simp add: J'(6))
  moreover have "j_nins J \<noteq> REF_DROP" using room by (auto simp: ref_room_def ref_codes)
  ultimately have "fold_result J (fold_ins J) (j_nins J) J'"
    using emitted_trace [OF r J'(2-6)] J'(3,6) v i by (auto simp: fold_result_def models_def)
  then show ?thesis by (simp add: J'(1) outcome_result)
qed auto

lemma cse_search_linked:
  "linked J ref rs \<Longrightarrow> \<exists>r. cse_search J op12 lim ref = Some r \<and> (r \<noteq> 0 \<longrightarrow> r \<in> set rs \<and> ir_op12 (IR J r) = op12)"
proof (induction rs arbitrary: ref)
  case Nil
  then show ?case by (subst cse_search.simps) simp
next
  case (Cons r rs)
  then show ?case by (subst cse_search.simps) fastforce
qed

text \<open>An instruction with the same opcode and operands computes the same.\<close>

lemma cse_same:
  assumes r: "fold_ready J" and c: "x \<in> set (chain_refs J (ir_o (fold_ins J)))" and e: "ir_op12 (IR J x) = ir_op12 (fold_ins J)"
    and room: "ref_room J 0"
  shows "fold_result J (fold_ins J) x J"
proof -
  note F = ready_facts [OF r]
  have x: "valid J x" "ir_o (IR J x) = ir_o (fold_ins J)" using chain_valid [OF _ c] F(2) by (auto simp: ir_ok_def)
  have o: "ir_op1 (IR J x) = ir_op1 (fold_ins J)" "ir_op2 (IR J x) = ir_op2 (fold_ins J)" by (simp_all add: ir_op1_def ir_op2_def e)
  have k: "shift_op (ir_o (IR J x)) \<or> unary_op (ir_o (IR J x)) \<or> binary_op (ir_o (IR J x))" using F(4) x(2) by (simp add: int_ins_def)
  have "\<not> irt_isfp (ir_t (IR J (unat (ir_op1 (IR J x)))))" using F(5) o by (simp add: wt_def)
  then have "\<not> irt_isfp (ir_t (IR J x))" using F(1) x(1) k by (auto simp: trace_ok_def)
  then have i: "int_ins (IR J x)" using k by (simp add: int_ins_def)
  then have "wt J (IR J x)" using F(1) x(1) by (simp add: trace_ok_def)
  then have w: "irt_is64 (ir_t (IR J x)) = irt_is64 (ir_t (fold_ins J))" using F(5) o by (auto simp: wt_def)
  then have "isem v (IR J x) = isem v (fold_ins J)" for v by (simp add: isem_def Let_def o x(2))
  then show ?thesis using F(1) x(1) i w valid_not_drop [OF room x(1)] by (auto simp: fold_result_def models_def)
qed

lemma cse_outcome:
  assumes r: "fold_ready J" and room: "ref_room J 1"
  shows "fold_outcome J (fold_ins J) (lj_opt_cse e J)"
proof -
  note F = ready_facts [OF r]
  have l: "linked J (unat (j_chain J (ir_o (fold_ins J)))) (chain_refs J (ir_o (fold_ins J)))" using F(2) by (simp add: ir_ok_def ir_chains_def)
  obtain x where x: "cse_search J (ir_op12 (fold_ins J)) (max (unat (ir_op1 (fold_ins J))) (unat (ir_op2 (fold_ins J)))) (unat (j_chain J (ir_o (fold_ins J)))) = Some x"
    "x \<noteq> 0 \<longrightarrow> x \<in> set (chain_refs J (ir_o (fold_ins J))) \<and> ir_op12 (IR J x) = ir_op12 (fold_ins J)"
    using cse_search_linked [OF l] by blast
  have "ref_room J 0" using room by (simp add: ref_room_def)
  then have "x \<noteq> 0 \<Longrightarrow> fold_outcome J (fold_ins J) (Some (Inr x, J))" using x(2) by (intro outcome_result cse_same [OF r]) auto
  then show ?thesis using emit_outcome [OF r room] x(1) by (simp add: lj_opt_cse_def Let_def fins_op12 cse_emit_eq)
qed

section \<open>Retries\<close>

text \<open>The states reached from an instruction by a number of retries.\<close>

inductive fold_reach :: "(u32 \<Rightarrow> FoldFunc option) \<Rightarrow> jenv \<Rightarrow> nat \<Rightarrow> jit_State \<Rightarrow> jit_State \<Rightarrow> bool" for rules e where
  fold_done: "fold_reach rules e 0 J J"
| fold_again: "fold_match rules e (fst (fold_prep J)) 0 (snd (fold_prep J)) = Some (Inr (Inl RETRYFOLD), J1) \<Longrightarrow> fold_reach rules e n J1 J2 \<Longrightarrow>
    fold_reach rules e (Suc n) J J2"

text \<open>A bound on the retries: the measure as one number.\<close>

definition fold_cost :: "jit_State \<Rightarrow> nat" where
  "fold_cost J =
     (let ir = fold_ins J in
      2 * (fold_rank (ir_o ir) * Suc (2 * (j_nins J - REF_BIAS)) + ref_weight (ir_op1 ir) + ref_weight (ir_op2 ir)) + fold_flag J ir)"

lemma weight_bound: "fold_ready J \<Longrightarrow> ref_weight (ir_op1 (fold_ins J)) + ref_weight (ir_op2 (fold_ins J)) \<le> 2 * (j_nins J - REF_BIAS)"
proof -
  assume "fold_ready J"
  note F = ready_facts [OF this]
  have "unat (ir_op1 (fold_ins J)) < j_nins J" "unat (ir_op2 (fold_ins J)) < j_nins J"
    using F(5) F(2) by (auto simp: wt_def valid_def ir_ok_def buf_ok_def)
  then show ?thesis by (auto simp: ref_weight_def)
qed

lemma flag_le: "fold_flag J ir \<le> 1" by (simp add: fold_flag_def Let_def)

lemma cost_less:
  assumes "(fold_mu J' (fold_ins J'), fold_mu J (fold_ins J)) \<in> mu_less" "fold_ready J" "fold_ready J'" "j_nins J' = j_nins J"
  shows "fold_cost J' < fold_cost J"
proof -
  define W where "W = 2 * (j_nins J - REF_BIAS)"
  define w where "w = ref_weight (ir_op1 (fold_ins J)) + ref_weight (ir_op2 (fold_ins J))"
  define w' where "w' = ref_weight (ir_op1 (fold_ins J')) + ref_weight (ir_op2 (fold_ins J'))"
  define r where "r = fold_rank (ir_o (fold_ins J))"
  define r' where "r' = fold_rank (ir_o (fold_ins J'))"
  have b: "w \<le> W" "w' \<le> W" using weight_bound [OF assms(2)] weight_bound [OF assms(3)] assms(4) by (simp_all add: w_def w'_def W_def)
  have c: "fold_cost J = 2 * (r * Suc W + w) + fold_flag J (fold_ins J)" "fold_cost J' = 2 * (r' * Suc W + w') + fold_flag J' (fold_ins J')"
    by (simp_all add: fold_cost_def Let_def r_def r'_def w_def w'_def W_def assms(4))
  have "r' < r \<or> r' = r \<and> (w' < w \<or> w' = w \<and> fold_flag J' (fold_ins J') < fold_flag J (fold_ins J))"
    using assms(1) by (auto simp: mu_less_def fold_mu_def r_def r'_def w_def w'_def)
  moreover have "r' * Suc W + w' < r * Suc W + w" if "r' < r"
  proof -
    have "Suc r' * Suc W \<le> r * Suc W" using that by (intro mult_le_mono1) simp
    then show ?thesis using b by simp
  qed
  ultimately show ?thesis using flag_le [of J' "fold_ins J'"] unfolding c by auto
qed

section \<open>Tables of sound rules\<close>

definition fold_key :: "jit_State \<Rightarrow> u32" where
  "fold_key J = foldrule (ir_o (fold_ins J)) (ir_o (fold_left J)) (if unary_op (ir_o (fold_ins J)) then 0 else ucast (ir_o (fold_right J)))"

lemma key_ops:
  assumes p: "prepared J"
  shows "ir_o (fold_left J) < 0x80" "(if unary_op (ir_o (fold_ins J)) then 0 else ucast (ir_o (fold_right J)) :: u16) < 0x400"
proof -
  note P = preparedD [OF p]
  have "ir_o (fold_left J) < 0x7f" using P(1,6,7) by (simp add: trace_ok_def)
  then show "ir_o (fold_left J) < 0x80" by (simp add: word_less_nat_alt)
  have "ir_o (fold_right J) < 0x7f" if "\<not> unary_op (ir_o (fold_ins J))" using P(1) prepared_right [OF p that] by (simp add: trace_ok_def)
  then show "(if unary_op (ir_o (fold_ins J)) then 0 else ucast (ir_o (fold_right J)) :: u16) < 0x400"
    by (auto simp: word_less_nat_alt unsigned_ucast_eq take_bit_nat_eq_self)
qed

text \<open>What the search for a rule promises.\<close>

definition match_ok :: "jit_State \<Rightarrow> (nat + nat, jit_State) res \<Rightarrow> bool" where
  "match_ok J res \<longleftrightarrow> (\<exists>J'. res = Some (Inl LJ_ERR_ERRMEM, J')) \<or> (\<exists>x J'. res = Some (Inr (Inl x), J') \<and> x \<noteq> NEXTFOLD \<and> fold_post J x J') \<or>
     (\<exists>r J'. res = Some (Inr (Inr r), J') \<and> fold_result J (fold_ins J) r J')"

lemma prepared_ready: "prepared J \<Longrightarrow> fold_ready J" by (simp add: prepared_def fold_ready_def)

lemma cse_no_gfail:
  assumes "fold_ready J" "ref_room J 1"
  shows "(\<exists>J'. lj_opt_cse e J = Some (Inl LJ_ERR_ERRMEM, J')) \<or> (\<exists>r J'. lj_opt_cse e J = Some (Inr r, J') \<and> fold_result J (fold_ins J) r J')"
proof -
  have "lj_ir_emit e J \<noteq> Some (Inl LJ_TRERR_GFAIL, J')" for J'
    using emit_ok [OF ready_facts(2) [OF assms(1)] assms(2) ready_facts(7) [OF assms(1)], of e] by auto
  then have "lj_opt_cse e J \<noteq> Some (Inl LJ_TRERR_GFAIL, J')" for J' by (auto simp: lj_opt_cse_def Let_def cse_emit_eq split: option.splits)
  then show ?thesis using cse_outcome [OF assms, of e] by (simp add: fold_outcome_def)
qed

locale sound_rules =
  fixes rules :: "u32 \<Rightarrow> FoldFunc option"
  assumes rule_ok: "prepared J \<Longrightarrow> m \<in> any_masks \<Longrightarrow> rules (fold_key J OR m) = Some f \<Longrightarrow> sound J (f e J)"
begin

lemma match_step:
  assumes p: "prepared J" and m: "any AND 0x1ffff \<in> any_masks"
    and nxt: "any \<noteq> 0xfffff \<Longrightarrow> match_ok J (fold_match rules e (fold_key J) (next_any any) J)"
  shows "match_ok J (fold_match rules e (fold_key J) any J)"
proof -
  let ?r = "case rules (fold_key J OR any AND 0x1ffff) of Some f \<Rightarrow> f e J | None \<Rightarrow> Some (Inr NEXTFOLD, J)"
  have s: "sound J ?r" using rule_ok [OF p m] sound_next [OF p] by (auto simp: ret_def split: option.splits)
  then consider (mem) J' where "?r = Some (Inl LJ_ERR_ERRMEM, J')" | (val) x J' where "?r = Some (Inr x, J')" "fold_post J x J'"
    by (auto simp: sound_def)
  then show ?thesis
  proof cases
    case mem
    then show ?thesis by (subst fold_match.simps) (simp add: match_ok_def)
  next
    case val
    have c: "(\<exists>J'. lj_opt_cse e J = Some (Inl LJ_ERR_ERRMEM, J')) \<or> (\<exists>r J'. lj_opt_cse e J = Some (Inr r, J') \<and> fold_result J (fold_ins J) r J')"
      by (rule cse_no_gfail [OF prepared_ready [OF p]]) (use preparedD(3) [OF p] in simp)
    have e: "x = NEXTFOLD \<Longrightarrow> J' = J" using val by (simp add: fold_post_def)
    show ?thesis
    proof (cases "x = NEXTFOLD \<and> any \<noteq> 0xfffff")
      case True
      then show ?thesis using nxt e val(1) by (subst fold_match.simps) simp
    next
      case False
      then show ?thesis using c e val by (subst fold_match.simps) (auto simp: match_ok_def rbind_def)
    qed
  qed
qed

lemma match_sound: "prepared J \<Longrightarrow> match_ok J (fold_match rules e (fold_key J) 0 J)"
  by (rule match_step; simp add: any_masks_def next_any_def)+

text \<open>One round of the engine from an instruction that is ready.\<close>

lemma round:
  fixes e :: jenv
  assumes r: "fold_ready J" and room: "ir_room J 1"
  defines "res \<equiv> fold_match rules e (fst (fold_prep J)) 0 (snd (fold_prep J))"
  obtains (mem) J' where "res = Some (Inl LJ_ERR_ERRMEM, J')"
  | (cse) x J' where "res = Some (Inr (Inr x), J')" "fold_result J (fold_ins J) x J'"
  | (rule) x J' where "res = Some (Inr (Inl x), J')" "x \<noteq> NEXTFOLD" "fold_post (snd (fold_prep J)) x J'" "trace_ok J'" "extends J J'"
      "x = RETRYFOLD \<Longrightarrow> retry_ok J (fold_ins J) J' (fold_ins J')" "j_nins J' = j_nins J" "j_nk J \<le> Suc (j_nk J')"
      "length (concat (j_k64 J')) \<le> Suc (length (concat (j_k64 J)))"
proof -
  note P = fold_prep_ready [OF r room]
  have k: "fst (fold_prep J) = fold_key (snd (fold_prep J))" using P(11) by (simp add: fold_key_def)
  have "match_ok (snd (fold_prep J)) res" unfolding res_def k by (rule match_sound [OF P(1)])
  then consider (a) J' where "res = Some (Inl LJ_ERR_ERRMEM, J')" | (b) x J' where "res = Some (Inr (Inr x), J')" "fold_result (snd (fold_prep J)) (fold_ins J) x J'"
    | (c) x J' where "res = Some (Inr (Inl x), J')" "x \<noteq> NEXTFOLD" "fold_post (snd (fold_prep J)) x J'" by (auto simp: match_ok_def P(2))
  then show ?thesis
  proof cases
    case a
    then show ?thesis by (rule mem)
  next
    case b
    then have "fold_result J (fold_ins J) x J'" using extends_trans [OF P(5)] by (auto simp: fold_result_def)
    then show ?thesis using cse b(1) by blast
  next
    case c
    then have f: "trace_ok J'" "extends J J'" "j_nins J' = j_nins J" "j_nk J \<le> Suc (j_nk J')" "length (concat (j_k64 J')) \<le> Suc (length (concat (j_k64 J)))"
      using extends_trans [OF P(5)] by (auto simp: fold_post_def P)
    moreover have "x = RETRYFOLD \<Longrightarrow> retry_ok J (fold_ins J) J' (fold_ins J')" using c(3) by (simp add: fold_post_def retry_ok_def P)
    ultimately show ?thesis using rule c by blast
  qed
qed

text \<open>What a round returned is the result, unless it asks for a retry.\<close>

lemma finish:
  assumes r: "fold_ready J" and room: "ir_room J 2" and f: "fold_post (snd (fold_prep J)) x J'" "trace_ok J'" "extends J J'" "j_nins J' = j_nins J" "j_nk J \<le> Suc (j_nk J')"
      "length (concat (j_k64 J')) \<le> Suc (length (concat (j_k64 J)))"
  shows "MAX_FOLD \<le> x \<Longrightarrow> fold_outcome J (fold_ins J) (Some (Inr x, J'))"
    "x = KINTFOLD \<Longrightarrow> fold_outcome J (fold_ins J) (lj_ir_kint e J' (ir_i (fold_ins J')))"
    "x = FAILFOLD \<Longrightarrow> fold_outcome J (fold_ins J) (Some (Inl LJ_TRERR_GFAIL, J'))"
    "x = DROPFOLD \<Longrightarrow> fold_outcome J (fold_ins J) (Some (Inr REF_DROP, J'))"
proof -
  have "ir_room J 1" using ir_room_less [OF room] by simp
  note P = fold_prep_ready [OF r this]
  have rr: "ir_room J' 1" "ref_room J' 0" using room f by (auto simp: ir_room_def ref_room_def)
  have ok: "ir_ok J'" using f(2) by (simp add: trace_ok_def)
  show "fold_outcome J (fold_ins J) (Some (Inr x, J'))" if "MAX_FOLD \<le> x"
  proof -
    have o: "ref_ok J' (fold_ins J) x" using f(1) that by (simp add: fold_post_def P(2))
    then have "x \<noteq> REF_DROP" using valid_not_drop [OF rr(2)] by (simp add: ref_ok_def)
    then have "fold_result J (fold_ins J) x J'" using o f(2,3) by (fastforce simp: fold_result_def ref_ok_def means_def)
    then show ?thesis by (rule outcome_result)
  qed
  show "fold_outcome J (fold_ins J) (Some (Inl LJ_TRERR_GFAIL, J'))" if "x = FAILFOLD"
    using f that by (simp add: fold_outcome_def fold_post_def P(2))
  show "fold_outcome J (fold_ins J) (Some (Inr REF_DROP, J'))" if "x = DROPFOLD"
    by (rule outcome_result) (use f that in \<open>simp add: fold_result_def fold_post_def P(2)\<close>)
  assume x: "x = KINTFOLD"
  have k: "\<not> irt_is64 (ir_t (fold_ins J))" "means J' (fold_ins J) (\<lambda>v. Val (scast (ir_i (fold_ins J'))))" using f(1) x by (simp_all add: fold_post_def P(2))
  show "fold_outcome J (fold_ins J) (lj_ir_kint e J' (ir_i (fold_ins J')))"
  proof (cases "\<exists>J2. lj_ir_kint e J' (ir_i (fold_ins J')) = Some (Inl LJ_ERR_ERRMEM, J2)")
    case False
    with kint_ok [OF ok rr(1), of e "ir_i (fold_ins J')"] obtain y J2 where J2: "lj_ir_kint e J' (ir_i (fold_ins J')) = Some (Inr y, J2)" "ir_ok J2" "extends J' J2"
      "valid J2 y" "y < REF_TRUE" "j_nins J2 = j_nins J'" "ir_o (IR J2 y) = IR_KINT" "ir_i (IR J2 y) = ir_i (fold_ins J')"
      by (auto simp: interned_def)
    have "y \<noteq> REF_DROP" using J2(5) by (simp add: ref_codes)
    moreover have "v y = scast (ir_i (fold_ins J'))" "models J' v" if "models J2 v" for v
      using that J2(4,7,8) models_antimono [OF that ok J2(3)] by (auto simp: models_def)
    ultimately have "fold_result J (fold_ins J) y J2"
      using k J2 const_width (1) [OF J2(2,4,7)] trace_ok_const [OF f(2) J2(2,3,6)] extends_trans [OF f(3) J2(3)]
      by (fastforce simp: fold_result_def means_def)
    then show ?thesis by (simp add: J2(1) outcome_result)
  qed auto
qed

text \<open>The result of a retry is a result for the instruction.\<close>

lemma outcome_retry:
  assumes "ir_ok J'" "extends J J'" "retry_ok J ir J' ir'" "fold_outcome J' ir' res"
  shows "fold_outcome J ir res"
proof -
  have m: "isem v ir' = Some m" if "models J2 v" "extends J' J2" "isem v ir = Some m" for J2 v m
    using assms(3) models_antimono [OF that(1) assms(1) that(2)] that(3) by (simp add: retry_ok_def)
  have t: "ir_t ir' = ir_t ir" using assms(3) by (simp add: retry_ok_def)
  have "fold_result J ir x J2" if "fold_result J' ir' x J2" for x J2
    using that m [of J2] extends_trans [OF assms(2), of J2] by (auto simp: fold_result_def means_def t)
  moreover have "means J2 ir f" if "means J2 ir' f" "extends J' J2" for J2 f using that m by (auto simp: means_def)
  ultimately show ?thesis using assms(4) extends_trans [OF assms(2)] by (fastforce simp: fold_outcome_def)
qed

lemma retry_sound:
  assumes "fold_ready J" "\<And>n J'. fold_reach rules e n J J' \<Longrightarrow> ir_room J' 2"
  shows "fold_outcome J (fold_ins J) (fold_retry rules e J)"
  using assms
proof (induction "fold_mu J (fold_ins J)" arbitrary: J rule: wf_induct_rule [OF wf_mu_less])
  case (1 J)
  have room: "ir_room J 2" by (rule 1(3)) (rule fold_done)
  then have room1: "ir_room J 1" by (rule ir_room_less) simp
  show ?case
  proof (rule round [OF 1(2) room1, where e = e])
    fix J' assume "fold_match rules e (fst (fold_prep J)) 0 (snd (fold_prep J)) = Some (Inl LJ_ERR_ERRMEM, J')"
    then show ?thesis by (subst fold_retry.simps) simp
  next
    fix x J' assume "fold_match rules e (fst (fold_prep J)) 0 (snd (fold_prep J)) = Some (Inr (Inr x), J')" "fold_result J (fold_ins J) x J'"
    then show ?thesis by (subst fold_retry.simps) (simp add: outcome_result)
  next
    fix x J'
    assume x: "fold_match rules e (fst (fold_prep J)) 0 (snd (fold_prep J)) = Some (Inr (Inl x), J')" "x \<noteq> NEXTFOLD" "fold_post (snd (fold_prep J)) x J'"
      "trace_ok J'" "extends J J'" "x = RETRYFOLD \<Longrightarrow> retry_ok J (fold_ins J) J' (fold_ins J')" "j_nins J' = j_nins J" "j_nk J \<le> Suc (j_nk J')"
      "length (concat (j_k64 J')) \<le> Suc (length (concat (j_k64 J)))"
    note fin = finish [OF 1(2) room x(3,4,5,7,8,9)]
    have retry: "fold_outcome J (fold_ins J) (fold_retry rules e J')" if "x = RETRYFOLD"
    proof -
      note ok = x(6) [OF that]
      have m: "(fold_mu J' (fold_ins J'), fold_mu J (fold_ins J)) \<in> mu_less" "fold_ready J'" using ok x(4) by (simp_all add: retry_ok_def fold_ready_def)
      have "fold_outcome J' (fold_ins J') (fold_retry rules e J')"
        by (rule 1(1) [OF m]) (rule 1(3), rule fold_again, use x(1) that in auto)
      then show ?thesis using outcome_retry [OF _ x(5) ok] x(4) by (simp add: trace_ok_def)
    qed
    have "x = RETRYFOLD \<or> x = KINTFOLD \<or> x = FAILFOLD \<or> x = DROPFOLD \<or> MAX_FOLD \<le> x" using x(2) by (auto simp: fold_codes)
    then show ?thesis
    proof (elim disjE)
      assume "MAX_FOLD \<le> x"
      then show ?thesis using fin(1) x(1) by (subst fold_retry.simps) simp
    qed (use fin retry x(1) in \<open>subst fold_retry.simps, simp add: fold_codes\<close>)+
  qed
qed

lemma opt_fold_sound:
  assumes "fold_ready J" "\<And>n J'. fold_reach rules e n J J' \<Longrightarrow> ir_room J' 2"
  shows "fold_outcome J (fold_ins J) (lj_opt_fold rules e J)"
proof -
  have "ref_room J 1" using assms(2) [OF fold_done] by (auto simp: ir_room_def ref_room_def)
  then show ?thesis using retry_sound [OF assms] emit_outcome [OF assms(1)] cse_outcome [OF assms(1)] by (simp add: lj_opt_fold_def Let_def)
qed

text \<open>Every retry takes away from the cost, so the cost bounds the retries and the constants they intern.\<close>

lemma reach_bound:
  assumes "fold_reach rules e n J J'" "fold_ready J" "ir_room J (fold_cost J + 2)"
  shows "fold_ready J' \<and> n + fold_cost J' \<le> fold_cost J \<and> ir_room J' (fold_cost J' + 2)"
  using assms
proof (induction rule: fold_reach.induct)
  case (fold_again J J1 n J2)
  have "ir_room J 1" using fold_again.prems(2) by (rule ir_room_less) simp
  from round [OF fold_again.prems(1) this, where e = e] fold_again.hyps(1)
  have x: "trace_ok J1" "extends J J1" "retry_ok J (fold_ins J) J1 (fold_ins J1)" "j_nins J1 = j_nins J" "j_nk J \<le> Suc (j_nk J1)"
      "length (concat (j_k64 J1)) \<le> Suc (length (concat (j_k64 J)))"
    by (auto simp: fold_codes)
  then have "fold_ready J1" by (simp add: fold_ready_def retry_ok_def)
  moreover have "fold_cost J1 < fold_cost J" by (rule cost_less) (use x fold_again.prems(1) calculation in \<open>simp_all add: retry_ok_def\<close>)
  moreover from this have "ir_room J1 (fold_cost J1 + 2)" using fold_again.prems(2) x by (auto simp: ir_room_def ref_room_def)
  ultimately show ?case using fold_again.IH by auto
qed auto

end

end
