(* ===== verification/LJ_FoldProps.thy ===== *)
theory LJ_FoldProps
  imports LJ_FoldEngine
begin

text \<open>
  The engine with the table of the integer rules: the table is sound, so folding keeps the meaning of
  integer instructions, and the number of retries is bounded.
\<close>

section \<open>The integer rules are a sound table\<close>

lemma rule_bounds: "list_all (\<lambda>((op, l, r), f). l < 0x80 \<and> r < 0x400) (group_rules (fold_groups foldarith))"
  by (simp add: group_rules_def fold_groups_def LJFOLD_def ir_codes)

lemma subtable_ok:
  assumes p: "prepared J" and m: "m \<in> any_masks" and s: "set rs \<subseteq> set (group_rules (fold_groups foldarith))"
    and f: "map_of (map (\<lambda>((op, l, r), f). (foldrule op l r, f)) rs) (fold_key J OR m) = Some f"
  shows "sound J (f e J)"
proof -
  obtain op l r where k: "((op, l, r), f) \<in> set (group_rules (fold_groups foldarith))" "foldrule op l r = fold_key J OR m"
    using map_of_SomeD [OF f] s by auto
  have b: "l < 0x80" "r < 0x400" using rule_bounds [of foldarith] k(1) by (auto simp: list_all_iff)
  note M = foldrule_match [OF k(2) [unfolded fold_key_def] m b key_ops [OF p]]
  have "matches J (op, l, r)" using M by (auto simp: matches_def)
  then show ?thesis using table_sound [of foldarith] k(1) p by (fastforce simp: list_all_iff rule_sound_def)
qed

lemma int_rules_ok: "prepared J \<Longrightarrow> m \<in> any_masks \<Longrightarrow> int_rules foldarith (fold_key J OR m) = Some f \<Longrightarrow> sound J (f e J)"
  unfolding int_rules_def by (rule subtable_ok [OF _ _ order_refl])

interpretation int_table: sound_rules "int_rules foldarith" for foldarith
  by unfold_locales (rule int_rules_ok)

text \<open>A trace with an integer loaded from a slot and the constant 8, and their product to fold.\<close>

definition J8 :: jit_State where
  "J8 = \<lparr>irbuf = replicate 4 (je_junk jenv0) @ [\<lparr>ir_op12 = 8, ir_t = IRT_INT, ir_o = IR_KINT, ir_prev = 0\<rparr>, kpri0 IRT_TRUE, kpri0 IRT_FALSE, kpri0 IRT_NIL,
       \<lparr>ir_op12 = 0, ir_t = IRT_P32, ir_o = IR_BASE, ir_prev = 0\<rparr>, \<lparr>ir_op12 = 1, ir_t = IRT_INT, ir_o = IR_SLOAD, ir_prev = 0\<rparr>] @ replicate 22 (je_junk jenv0),
     irbotlim = 32760, irtoplim = 32792, j_nins = 32770, j_nk = 32764, j_chain = (\<lambda>op. 0)(IR_BASE := 0x8000, IR_SLOAD := 0x8001, IR_KINT := 0x7ffc), j_k64 = [],
     j_flags = JIT_F_OPT_DEFAULT, guardemit = 0, fold_ins = \<lparr>ir_op12 = IRREF2 0x8001 0x7ffc, ir_t = IRT_INT, ir_o = IR_MUL, ir_prev = 0\<rparr>,
     fold_left = kpri0 0, fold_right = kpri0 0\<rparr>"

lemma J8_IR: "IR J8 32764 = \<lparr>ir_op12 = 8, ir_t = IRT_INT, ir_o = IR_KINT, ir_prev = 0\<rparr>" "IR J8 32765 = kpri0 IRT_TRUE" "IR J8 32766 = kpri0 IRT_FALSE"
  "IR J8 32767 = kpri0 IRT_NIL" "IR J8 32768 = \<lparr>ir_op12 = 0, ir_t = IRT_P32, ir_o = IR_BASE, ir_prev = 0\<rparr>"
  "IR J8 32769 = \<lparr>ir_op12 = 1, ir_t = IRT_INT, ir_o = IR_SLOAD, ir_prev = 0\<rparr>"
  by (simp_all add: IR_def J8_def nth_append nth_Cons')

lemma J8_valid: "valid J8 r \<longleftrightarrow> r \<in> {32764, 32765, 32766, 32767, 32768, 32769}" by (auto simp: valid_def J8_def)

lemma J8_ok: "ir_ok J8"
proof -
  have c: "chain_refs J8 op = (if op = IR_BASE then [32768] else if op = IR_SLOAD then [32769] else if op = IR_KINT then [32764] else [])" for op
    using J8_IR by (simp add: chain_refs_def ref_codes J8_def [of] kop_def ir_codes upt_conv_Cons)
  have "buf_ok J8" by (simp add: buf_ok_def J8_def ref_codes)
  moreover have "ir_chains J8" using J8_IR by (simp add: ir_chains_def c) (simp add: J8_def ir_codes)
  moreover have "ir_placed J8" using J8_IR by (auto simp: ir_placed_def ref_codes kpri0_def kop_def kdata_def ir_codes J8_valid)
  moreover have "kuniq J8" by (auto simp: kuniq_def c inj_on_def) (auto simp: J8_def)
  ultimately show ?thesis by (simp add: ir_ok_def)
qed

lemma J8_fi: "ir_op1 (fold_ins J8) = 0x8001" "ir_op2 (fold_ins J8) = 0x7ffc" "ir_o (fold_ins J8) = IR_MUL" "ir_t (fold_ins J8) = IRT_INT"
  by (simp_all add: J8_def ir_op1_def ir_op2_def)

lemma int_not_fp [simp]: "\<not> irt_isfp IRT_INT"
  by (simp add: irt_isfp_def irt_isnum_def irt_isfloat_def irt_type_def irt_codes)

lemma J8_ready: "trace_ok J8" "foldable (fold_ins J8)" "wt J8 (fold_ins J8)"
proof -
  show "trace_ok J8" using J8_ok J8_IR by (auto simp: trace_ok_def J8_valid kpri0_def int_ins_def op_kinds ir_codes)
  show "foldable (fold_ins J8)" by (simp add: foldable_def int_ins_def J8_fi)
  show "wt J8 (fold_ins J8)" using J8_IR by (simp add: wt_def J8_fi J8_valid is64_def)
qed

lemma J8_room: "ir_room J8 (fold_cost J8 + 2)"
proof -
  have "fold_cost J8 \<le> 50" by (simp add: fold_cost_def Let_def J8_fi fold_rank_def ref_weight_def ref_codes fold_flag_def) (simp add: J8_def)
  then show ?thesis by (simp add: ir_room_def ref_room_def J8_def)
qed





text \<open>
  C24: The integer modulus of the VM is Lua's: for every divisor other than 0 it
  is the remainder of the floored division, for all signs and for the smallest integer too.
\<close>

theorem modi_mod:
  assumes "b \<noteq> 0"
  shows "sint (lj_vm_modi a b) = sint a mod sint b"
proof -
  have b: "sint b \<noteq> 0" using assms by (simp add: signed_eq_0_iff)
  have r: "- (2 ^ 31) \<le> sint b" "sint b < 2 ^ 31" using sint_range_size [of b] by (simp_all add: word_size)
  have "- (2 ^ 31) \<le> sint a mod sint b \<and> sint a mod sint b < 2 ^ 31"
  proof (cases "0 < sint b")
    case True
    then show ?thesis using pos_mod_bound [of "sint b" "sint a"] pos_mod_sign [of "sint b" "sint a"] r by linarith
  next
    case False
    then have "sint b < 0" using b by simp
    then show ?thesis using neg_mod_bound [of "sint b" "sint a"] neg_mod_sign [of "sint b" "sint a"] r by linarith
  qed
  then show ?thesis unfolding modi_floor [OF assms] by (simp add: sint_sbintrunc' signed_take_bit_int_eq_self)
qed

theorem modi_mod_witness: "(3 :: u32) \<noteq> 0 \<and> sint (lj_vm_modi (- 7) 3) = 2"
  using modi_mod [of 3 "- 7"] by simp



end
