(* ===== verification/LJ_FoldHash.thy ===== *)
theory LJ_FoldHash
  imports LJ_FoldProps
begin

text \<open>
  The generator of the hash table of the fold rules (\<open>host/buildvm_fold.c\<close>) and the lookup of the
  engine in it (\<open>lj_opt_fold.c\<close>): sorting the keys, filling a semi-perfect hash table in which a key
  is in one of two neighbouring slots, and the search for a table of minimal size. Text input and
  output are not modelled: the generator takes the groups of keys the parser has read, and gives the
  table, its size and the parameters of the hash function.
\<close>

section \<open>The generator\<close>

definition BUILD_MAX_FOLD :: nat where "BUILD_MAX_FOLD = 4096"

text \<open>The low 24 bits of a table entry are the key, the others the number of the function.\<close>

definition lo24 :: "u32 \<Rightarrow> u32" where "lo24 key = key AND 0xffffff"

definition fold_hashkey :: "bool \<Rightarrow> u32 \<Rightarrow> nat \<Rightarrow> u32 \<Rightarrow> nat" where
  "fold_hashkey dorol r sz k =
     unat (if dorol then lj_rol (lj_rol k (unat (drop_bit 5 r)) - k) (unat (r AND 31))
           else push_bit (unat (r AND 31)) (push_bit (unat (drop_bit 5 r)) k - k)) mod sz"

text \<open>Store one key; \<open>None\<close> is a collision that cannot be resolved.\<close>

definition hash_store :: "(u32 \<Rightarrow> nat) \<Rightarrow> nat \<Rightarrow> u32 \<Rightarrow> u32 list \<Rightarrow> u32 list option" where
  "hash_store hash sz key htab =
     (let h = hash (lo24 key) in
      if htab ! h \<noteq> 0xffffffff then
        if htab ! (h + 1) \<noteq> 0xffffffff then
          if h < sz - 1 \<and> htab ! (h + 2) = 0xffffffff then
            if hash (lo24 (htab ! (h + 1))) \<noteq> h + 1 then None
            else Some (htab[h + 2 := htab ! (h + 1), h + 1 := key])
          else None
        else Some (htab[h + 1 := key])
      else Some (htab[h := key]))"

primrec hash_fill :: "(u32 \<Rightarrow> nat) \<Rightarrow> nat \<Rightarrow> u32 list \<Rightarrow> u32 list \<Rightarrow> u32 list option" where
  "hash_fill hash sz [] htab = Some htab"
| "hash_fill hash sz (key # keys) htab = Option.bind (hash_store hash sz key htab) (hash_fill hash sz keys)"

definition tryhash :: "u32 list \<Rightarrow> nat \<Rightarrow> u32 \<Rightarrow> bool \<Rightarrow> u32 list option" where
  "tryhash foldkeys sz r dorol =
     (if dorol \<and> (r AND 31 = 0 \<or> drop_bit 5 r = 0) then None
      else hash_fill (fold_hashkey dorol r sz) sz foldkeys (replicate (sz + 1) 0xffffffff))"

text \<open>All shift combinations of a size before all its rotate combinations; 1024 of each.\<close>

primrec try_params :: "u32 list \<Rightarrow> nat \<Rightarrow> bool \<Rightarrow> nat list \<Rightarrow> (u32 list \<times> nat \<times> u32 \<times> bool) option" where
  "try_params foldkeys sz dorol [] = None"
| "try_params foldkeys sz dorol (r # rs) =
     (case tryhash foldkeys sz (of_nat r) dorol of Some htab \<Rightarrow> Some (htab, sz, of_nat r, dorol) | None \<Rightarrow> try_params foldkeys sz dorol rs)"

function try_sizes :: "u32 list \<Rightarrow> nat \<Rightarrow> (u32 list \<times> nat \<times> u32 \<times> bool) option" where
  "try_sizes foldkeys sz =
     (if sz < BUILD_MAX_FOLD * 2 then
        case try_params foldkeys sz False [0..<32 * 32] of
          Some t \<Rightarrow> Some t
        | None \<Rightarrow>
            (case try_params foldkeys sz True [0..<32 * 32] of Some t \<Rightarrow> Some t | None \<Rightarrow> try_sizes foldkeys (sz + 2))
      else None)"
  by auto
termination by (relation "measure (\<lambda>(ks, sz). BUILD_MAX_FOLD * 2 - sz)") auto

definition makehash :: "u32 list \<Rightarrow> (u32 list \<times> nat \<times> u32 \<times> bool) option" where
  "makehash foldkeys = try_sizes foldkeys (length foldkeys OR 1)"

text \<open>Insertion of a key from the end; a duplicate is an error.\<close>

primrec key_insert :: "u32 \<Rightarrow> u32 list \<Rightarrow> u32 list option" where
  "key_insert key [] = Some [key]"
| "key_insert key (x # xs) =
     (if lo24 x < lo24 key then Some (key # x # xs)
      else if lo24 x = lo24 key then None
      else map_option (Cons x) (key_insert key xs))"

definition fold_addkey :: "u32 \<Rightarrow> u32 list \<Rightarrow> u32 list option" where
  "fold_addkey key foldkeys = (if BUILD_MAX_FOLD \<le> length foldkeys then None else map_option rev (key_insert key (rev foldkeys)))"

text \<open>The entries of the groups in order, each with the number of its function.\<close>

definition group_entries :: "(fold_keys \<times> 'f) list \<Rightarrow> u32 list" where
  "group_entries gs = concat (map (\<lambda>(i, (ks, f)). map (\<lambda>(op, l, r). push_bit 24 (of_nat i) OR foldrule op l r) ks) (enumerate 0 gs))"

primrec fold_addkeys :: "u32 list \<Rightarrow> u32 list \<Rightarrow> u32 list option" where
  "fold_addkeys [] foldkeys = Some foldkeys"
| "fold_addkeys (k # ks) foldkeys = Option.bind (fold_addkey k foldkeys) (fold_addkeys ks)"

definition emit_fold :: "(fold_keys \<times> 'f) list \<Rightarrow> (u32 list \<times> nat \<times> u32 \<times> bool) option" where
  "emit_fold gs = Option.bind (fold_addkeys (group_entries gs) []) makehash"

section \<open>The lookup of the engine\<close>

definition fold_hash_find :: "(u32 \<Rightarrow> nat) \<Rightarrow> u32 list \<Rightarrow> u32 \<Rightarrow> u32 option" where
  "fold_hash_find hash fold_hash k =
     (let h = hash k in
      if lo24 (fold_hash ! h) = k then Some (fold_hash ! h)
      else if lo24 (fold_hash ! (h + 1)) = k then Some (fold_hash ! (h + 1))
      else None)"

text \<open>The rules as the engine finds them in generated tables.\<close>

definition hash_rules :: "FoldFunc list \<Rightarrow> u32 list \<times> nat \<times> u32 \<times> bool \<Rightarrow> u32 \<Rightarrow> FoldFunc option" where
  "hash_rules fold_func t k =
     (case t of (fold_hash, sz, r, dorol) \<Rightarrow>
        map_option (\<lambda>fh. fold_func ! unat (drop_bit 24 fh)) (fold_hash_find (fold_hashkey dorol r sz) fold_hash k))"

section \<open>Every key is found\<close>

text \<open>Each key is in its slot or the next one, and there is nothing else in the table.\<close>

definition hash_ok :: "(u32 \<Rightarrow> nat) \<Rightarrow> nat \<Rightarrow> u32 set \<Rightarrow> u32 list \<Rightarrow> bool" where
  "hash_ok hash sz ks htab \<longleftrightarrow> length htab = sz + 1 \<and> (\<forall>k. hash k < sz) \<and>
     (\<forall>key\<in>ks. htab ! hash (lo24 key) = key \<or> htab ! (hash (lo24 key) + 1) = key) \<and> set htab \<subseteq> insert 0xffffffff ks"

lemma hash_store_ok:
  assumes ok: "hash_ok hash sz ks htab" and k: "0xffffffff \<notin> ks" and s: "hash_store hash sz key htab = Some htab'"
  shows "hash_ok hash sz (insert key ks) htab'"
proof -
  let ?h = "hash (lo24 key)"
  have l: "length htab = sz + 1" "?h < sz" and fnd: "\<And>x. x \<in> ks \<Longrightarrow> htab ! hash (lo24 x) = x \<or> htab ! (hash (lo24 x) + 1) = x"
    and hs: "\<And>k. hash k < sz" and st: "set htab \<subseteq> insert 0xffffffff ks" using ok by (auto simp: hash_ok_def)
  have ne: "x \<noteq> 0xffffffff" if "x \<in> ks" for x using that k by auto
  have sub: "set (htab[i := x]) \<subseteq> insert 0xffffffff (insert x ks)" for i x using st set_update_subset_insert [of htab i x] by auto
  have keep: "htab[i := z] ! j = x" if "htab ! j = x" "x \<in> ks" "htab ! i = 0xffffffff" for i j x z
    using that ne [of x] by (cases "j = i") auto
  have put: "hash_ok hash sz (insert key ks) (htab[i := key])" if i: "i = ?h \<or> i = ?h + 1" "htab ! i = 0xffffffff" for i
  proof -
    have "htab[i := key] ! hash (lo24 x) = x \<or> htab[i := key] ! (hash (lo24 x) + 1) = x" if x: "x \<in> insert key ks" for x
    proof (cases "x = key")
      case True
      have "htab[i := key] ! i = key" using i(1) l by auto
      then show ?thesis using True i(1) by auto
    next
      case False
      then have "x \<in> ks" using x by simp
      then show ?thesis using fnd [of x] keep [OF _ _ i(2)] by metis
    qed
    then show ?thesis using l hs sub [of i key] by (simp add: hash_ok_def)
  qed
  consider (one) "htab ! ?h = 0xffffffff" "htab' = htab[?h := key]"
    | (two) "htab ! (?h + 1) = 0xffffffff" "htab' = htab[?h + 1 := key]"
    | (move) "?h < sz - 1" "htab ! (?h + 1) \<noteq> 0xffffffff" "htab ! (?h + 2) = 0xffffffff" "hash (lo24 (htab ! (?h + 1))) = ?h + 1"
        "htab' = htab[?h + 2 := htab ! (?h + 1), ?h + 1 := key]"
    using s by (auto simp: hash_store_def Let_def split: if_splits)
  then show ?thesis
  proof cases
    case one
    then show ?thesis using put [of ?h] by simp
  next
    case two
    then show ?thesis using put [of "?h + 1"] by simp
  next
    case move
    define y where "y = htab ! (?h + 1)"
    have "y \<in> set htab" unfolding y_def using l by (intro nth_mem) simp
    then have y: "y \<in> ks" using st move(2) by (auto simp: y_def)
    have b: "?h + 2 < length htab" using l move(1) by simp
    have m: "hash (lo24 y) = ?h + 1" "htab' = htab[?h + 2 := y, ?h + 1 := key]" using move(4,5) by (simp_all only: y_def)
    have n: "htab' ! (?h + 1) = key" "htab' ! (?h + 2) = y" "\<And>j. j \<noteq> ?h + 1 \<Longrightarrow> j \<noteq> ?h + 2 \<Longrightarrow> htab' ! j = htab ! j"
      using b unfolding m(2) by simp_all
    have "htab' ! hash (lo24 x) = x \<or> htab' ! (hash (lo24 x) + 1) = x" if x: "x \<in> insert key ks" for x
    proof -
      consider "x = key" | "x = y" | "x \<in> ks" "x \<noteq> y" using x by auto
      then show ?thesis
      proof cases
        case 2
        then show ?thesis using n(2) m(1) by simp
      next
        case 3
        have "htab ! j = x \<Longrightarrow> htab' ! j = x" for j using n(3) [of j] move(3) ne [OF 3(1)] 3(2) unfolding y_def by metis
        then show ?thesis using fnd [OF 3(1)] by blast
      qed (use n(1) in simp)
    qed
    moreover have "set htab' \<subseteq> insert 0xffffffff (insert key ks)"
      using sub [of "?h + 2" y] y set_update_subset_insert [of "htab[?h + 2 := y]" "?h + 1" key] unfolding m(2) by blast
    ultimately show ?thesis using l hs m(2) by (simp add: hash_ok_def)
  qed
qed

lemma hash_fill_ok:
  "hash_ok hash sz ks htab \<Longrightarrow> 0xffffffff \<notin> ks \<union> set keys \<Longrightarrow> hash_fill hash sz keys htab = Some htab' \<Longrightarrow> hash_ok hash sz (ks \<union> set keys) htab'"
proof (induction keys arbitrary: ks htab)
  case (Cons key keys)
  then obtain h1 where h1: "hash_store hash sz key htab = Some h1" "hash_fill hash sz keys h1 = Some htab'" by (auto split: bind_splits)
  have "hash_ok hash sz (insert key ks) h1" using hash_store_ok [OF Cons.prems(1) _ h1(1)] Cons.prems(2) by auto
  from Cons.IH [OF this _ h1(2)] Cons.prems(2) show ?case by auto
qed simp

lemma tryhash_ok:
  assumes "tryhash keys sz r dorol = Some htab" "0 < sz" "0xffffffff \<notin> set keys"
  shows "hash_ok (fold_hashkey dorol r sz) sz (set keys) htab"
proof -
  have "hash_fill (fold_hashkey dorol r sz) sz keys (replicate (sz + 1) 0xffffffff) = Some htab" using assms(1) by (simp add: tryhash_def split: if_splits)
  moreover have "hash_ok (fold_hashkey dorol r sz) sz {} (replicate (sz + 1) 0xffffffff)" using assms(2) by (auto simp: hash_ok_def fold_hashkey_def)
  ultimately show ?thesis using hash_fill_ok [of _ sz "{}"] assms(3) by fastforce
qed

lemma try_params_ok: "try_params keys sz dorol rs = Some (htab, sz', r, d) \<Longrightarrow> sz' = sz \<and> tryhash keys sz r d = Some htab"
  by (induction rs) (auto split: option.splits)

lemma try_sizes_ok: "try_sizes keys sz = Some (htab, sz', r, d) \<Longrightarrow> sz \<le> sz' \<and> tryhash keys sz' r d = Some htab"
proof (induction keys sz rule: try_sizes.induct)
  case (1 keys sz)
  then show ?case by (subst (asm) (2) try_sizes.simps) (auto split: if_splits option.splits dest: try_params_ok)
qed

lemma makehash_ok:
  assumes "makehash keys = Some (htab, sz, r, dorol)" "0xffffffff \<notin> set keys"
  shows "hash_ok (fold_hashkey dorol r sz) sz (set keys) htab"
proof -
  have "length keys OR 1 \<le> sz" "tryhash keys sz r dorol = Some htab" using try_sizes_ok assms(1) by (auto simp: makehash_def)
  moreover have "0 < (length keys OR 1)" by (rule gr0I) (simp add: or_eq_0_iff)
  ultimately show ?thesis using assms(2) by (intro tryhash_ok) simp_all
qed

section \<open>Sorting keeps the keys apart\<close>

lemma key_insert_ok:
  "key_insert key xs = Some ys \<Longrightarrow> sorted_wrt (\<lambda>a b. lo24 b < lo24 a) xs \<Longrightarrow> sorted_wrt (\<lambda>a b. lo24 b < lo24 a) ys \<and> set ys = insert key (set xs)"
proof (induction xs arbitrary: ys)
  case (Cons x xs)
  consider "lo24 x < lo24 key" "ys = key # x # xs" | zs where "lo24 key < lo24 x" "ys = x # zs" "key_insert key xs = Some zs"
    using Cons.prems(1) by (fastforce split: if_splits)
  then show ?case
  proof cases
    case 1
    then show ?thesis using Cons.prems(2) by auto
  next
    case 2
    then show ?thesis using Cons.IH [OF 2(3)] Cons.prems(2) by auto
  qed
qed simp

lemma fold_addkeys_ok:
  "fold_addkeys ks xs = Some ys \<Longrightarrow> sorted_wrt (\<lambda>a b. lo24 a < lo24 b) xs \<Longrightarrow> sorted_wrt (\<lambda>a b. lo24 a < lo24 b) ys \<and> set ys = set ks \<union> set xs"
proof (induction ks arbitrary: xs)
  case (Cons k ks)
  then obtain zs where z: "key_insert k (rev xs) = Some zs" "fold_addkeys ks (rev zs) = Some ys"
    by (auto simp: fold_addkey_def split: bind_splits if_splits)
  have "sorted_wrt (\<lambda>a b. lo24 a < lo24 b) (rev zs) \<and> set zs = insert k (set xs)"
    using key_insert_ok [OF z(1)] Cons.prems(2) by (simp add: sorted_wrt_rev)
  then show ?case using Cons.IH [OF z(2)] by auto
qed simp

lemma sorted_inj: "sorted_wrt (\<lambda>a b. lo24 a < lo24 b) xs \<Longrightarrow> inj_on lo24 (set xs)"
proof (induction xs)
  case (Cons x xs)
  have "lo24 x \<notin> lo24 ` (set xs - {x})"
  proof
    assume "lo24 x \<in> lo24 ` (set xs - {x})"
    then obtain y where "y \<in> set xs" "lo24 x = lo24 y" by blast
    then show False using Cons.prems by auto
  qed
  then show ?case using Cons by simp
qed simp

section \<open>The lookup\<close>

lemma find_ok:
  assumes ok: "hash_ok hash sz ks htab" and i: "inj_on lo24 ks" and k: "k \<noteq> 0xffffff"
  shows "fold_hash_find hash htab k = Some fh \<longleftrightarrow> fh \<in> ks \<and> lo24 fh = k"
proof -
  have h: "hash k + 1 < length htab" using ok by (auto simp: hash_ok_def)
  have e: "lo24 0xffffffff = 0xffffff" by (simp add: lo24_def)
  have s: "htab ! j \<in> ks" if "lo24 (htab ! j) = k" "j < length htab" for j
    using ok nth_mem [OF that(2)] that(1) k e by (auto simp: hash_ok_def)
  show ?thesis
  proof
    assume "fold_hash_find hash htab k = Some fh"
    then show "fh \<in> ks \<and> lo24 fh = k" using s [of "hash k"] s [of "hash k + 1"] h by (auto simp: fold_hash_find_def Let_def split: if_splits)
  next
    assume f: "fh \<in> ks \<and> lo24 fh = k"
    then have p: "htab ! hash k = fh \<or> htab ! (hash k + 1) = fh" using ok by (auto simp: hash_ok_def)
    have "lo24 (htab ! hash k) = k \<Longrightarrow> htab ! hash k = fh" using s [of "hash k"] h f inj_onD [OF i] by auto
    then show "fold_hash_find hash htab k = Some fh" using p f by (auto simp: fold_hash_find_def Let_def)
  qed
qed

section \<open>The generated table is the list of rules\<close>

lemma entry_fields:
  assumes "op < 0x7f" "l < 0x80" "r < 0x400" "i < 256"
  defines "fh \<equiv> push_bit 24 (of_nat i) OR foldrule op l r"
  shows "lo24 fh = foldrule op l r" "unat (drop_bit 24 fh) = i" "foldrule op l r \<noteq> 0xffffff" "fh \<noteq> 0xffffffff"
proof -
  have o: "bit op n \<Longrightarrow> n < 7" for n using bit_below [of op 7 n] assms(1) by (auto simp: word_less_nat_alt)
  have m: "(0xffffff :: u32) = mask 24" by (simp add: mask_eq_exp_minus_1)
  have b: "bit (foldrule op l r) n \<Longrightarrow> n < 24" for n using o [of "n - 17"] by (simp add: bit_foldrule assms(2,3) split: if_splits)
  show lo: "lo24 fh = foldrule op l r" unfolding lo24_def m fh_def by (rule bit_word_eqI) (auto simp: bit_simps dest: b)
  have "drop_bit 24 fh = of_nat i" unfolding fh_def
  proof (rule bit_word_eqI)
    fix n assume n: "n < LENGTH(32)"
    have "bit (of_nat i :: u32) n \<Longrightarrow> n < 8" using bit_below [of "of_nat i :: u32" 8 n] assms(4) by (simp add: word_less_nat_alt unsigned_of_nat take_bit_nat_eq_self)
    moreover have "\<not> bit (foldrule op l r) (24 + n)" using b by fastforce
    ultimately show "bit (drop_bit 24 (push_bit 24 (of_nat i) OR foldrule op l r)) n = bit (of_nat i :: u32) n" using n by (auto simp: bit_simps)
  qed
  then show "unat (drop_bit 24 fh) = i" using assms(4) by (simp add: unsigned_of_nat take_bit_nat_eq_self)
  show ne: "foldrule op l r \<noteq> 0xffffff"
  proof
    assume "foldrule op l r = 0xffffff"
    then have "bit (foldrule op l r) (17 + n)" if "n < 7" for n using that by (simp only: m bit_mask_iff) simp
    then have "bit op n" if "n < 7" for n using that by (auto simp: bit_foldrule assms(2,3) dest!: spec [of _ n])
    then have "op = 0x7f" using below_eqI [of op 7 "0x7f"] assms(1) bit_all(1) by (simp add: word_less_nat_alt)
    then show False using assms(1) by simp
  qed
  show "fh \<noteq> 0xffffffff"
  proof
    assume "fh = 0xffffffff"
    then have "lo24 fh = 0xffffff" by (simp add: lo24_def)
    then show False using lo ne by simp
  qed
qed

definition groups_ok :: "(fold_keys \<times> 'f) list \<Rightarrow> bool" where
  "groups_ok gs \<longleftrightarrow> length gs \<le> 256 \<and> (\<forall>g\<in>set gs. \<forall>(op, l, r)\<in>set (fst g). op < 0x7f \<and> l < 0x80 \<and> r < 0x400)"

lemma groups_okD: "groups_ok gs \<Longrightarrow> i < length gs \<Longrightarrow> (op, l, r) \<in> set (fst (gs ! i)) \<Longrightarrow> op < 0x7f \<and> l < 0x80 \<and> r < 0x400 \<and> i < 256"
  using nth_mem [of i gs] by (fastforce simp: groups_ok_def)

lemma group_entriesE:
  assumes "fh \<in> set (group_entries gs)" "groups_ok gs"
  obtains i op l r where "i < length gs" "(op, l, r) \<in> set (fst (gs ! i))" "fh = push_bit 24 (of_nat i) OR foldrule op l r" "op < 0x7f" "l < 0x80" "r < 0x400" "i < 256"
proof -
  from assms(1) obtain i op l r where x: "i < length gs" "(op, l, r) \<in> set (fst (gs ! i))" "fh = push_bit 24 (of_nat i) OR foldrule op l r"
    by (auto simp: group_entries_def in_set_enumerate_eq)
  then show ?thesis using that groups_okD [OF assms(2) x(1,2)] by blast
qed

lemma group_entriesI: "i < length gs \<Longrightarrow> (op, l, r) \<in> set (fst (gs ! i)) \<Longrightarrow> push_bit 24 (of_nat i) OR foldrule op l r \<in> set (group_entries gs)"
  by (cases "gs ! i") (force simp: group_entries_def in_set_enumerate_eq)

lemma hash_rules_map:
  assumes "emit_fold gs = Some t" "groups_ok gs" "k \<noteq> 0xffffff"
  shows "hash_rules (map snd gs) t k = map_of (map (\<lambda>((op, l, r), f). (foldrule op l r, f)) (group_rules gs)) k"
proof -
  obtain keys where a: "fold_addkeys (group_entries gs) [] = Some keys" "makehash keys = Some t" using assms(1) by (auto simp: emit_fold_def split: bind_splits)
  obtain htab sz r dorol where t: "t = (htab, sz, r, dorol)" by (cases t) auto
  have keys: "set keys = set (group_entries gs)" "inj_on lo24 (set keys)" using fold_addkeys_ok [OF a(1)] sorted_inj [of keys] by simp_all
  have "0xffffffff \<notin> set keys" using entry_fields(4) assms(2) unfolding keys by (metis group_entriesE)
  note F = find_ok [OF makehash_ok [OF a(2) [unfolded t] this] keys(2) assms(3)]
  let ?L = "map (\<lambda>((op, l, r), f). (foldrule op l r, f)) (group_rules gs)"
  show ?thesis
  proof (cases "map_of ?L k")
    case (Some f)
    from map_of_SomeD [OF this] obtain i op l r' where x: "i < length gs" "(op, l, r') \<in> set (fst (gs ! i))" "foldrule op l r' = k" "snd (gs ! i) = f"
      by (fastforce simp: group_rules_def in_set_conv_nth)
    let ?fh = "push_bit 24 (of_nat i) OR foldrule op l r'"
    have b: "op < 0x7f" "l < 0x80" "r' < 0x400" "i < 256" using groups_okD [OF assms(2) x(1,2)] by auto
    have "fold_hash_find (fold_hashkey dorol r sz) htab k = Some ?fh" using F group_entriesI [OF x(1,2)] entry_fields(1) [OF b] x(3) keys(1) by simp
    then show ?thesis using Some entry_fields(2) [OF b] x(1,4) by (simp add: hash_rules_def t)
  next
    case None
    have "fold_hash_find (fold_hashkey dorol r sz) htab k = None"
    proof (rule ccontr)
      assume "fold_hash_find (fold_hashkey dorol r sz) htab k \<noteq> None"
      then obtain fh where fh: "fh \<in> set (group_entries gs)" "lo24 fh = k" using F keys(1) by auto
      obtain i op l r' where x: "i < length gs" "(op, l, r') \<in> set (fst (gs ! i))" "foldrule op l r' = k"
        by (rule group_entriesE [OF fh(1) assms(2)]) (use fh(2) entry_fields(1) in auto)
      have "((op, l, r'), snd (gs ! i)) \<in> set (group_rules gs)" using x(2) nth_mem [OF x(1)] by (auto simp: group_rules_def split_beta intro!: bexI [of _ "gs ! i"])
      from imageI [OF this, of "\<lambda>((op, l, r), f). (foldrule op l r, f)"] have "(k, snd (gs ! i)) \<in> set ?L" using x(3) by simp
      from weak_map_of_SomeI [OF this] show False using None by simp
    qed
    then show ?thesis using None by (simp add: hash_rules_def t)
  qed
qed

text \<open>Any table the generator finds for integer rules makes the engine sound.\<close>

lemma generated_sound:
  assumes "emit_fold gs = Some t" "groups_ok gs" "set (group_rules gs) \<subseteq> set (group_rules (fold_groups foldarith))"
  shows "sound_rules (hash_rules (map snd gs) t)"
proof
  fix J m f e
  assume p: "prepared J" and m: "m \<in> any_masks" and r: "hash_rules (map snd gs) t (fold_key J OR m) = Some f"
  have n: "fold_key J OR m \<noteq> 0xffffff"
  proof
    assume "fold_key J OR m = 0xffffff"
    moreover have "(0xffffff :: u32) = foldrule 0x7f 0x7f 0x3ff" by (simp add: foldrule_def)
    ultimately have eq: "foldrule 0x7f 0x7f 0x3ff = fold_key J OR m" by simp
    have "ir_o (fold_ins J) = 0x7f" using foldrule_match (1) [OF eq [unfolded fold_key_def] m _ _ key_ops [OF p]] by simp
    then show False using foldable_op [of "fold_ins J"] p by (simp add: prepared_def)
  qed
  show "sound J (f e J)" by (rule subtable_ok [OF p m assms(3)]) (use r hash_rules_map [OF assms(1,2) n] in simp)
qed

definition gs2 :: "(fold_keys \<times> FoldFunc) list" where
  "gs2 = [LJFOLD [(IR_BAND, 0x7f, 0x3ff)] comm_dup, LJFOLD [(IR_BXOR, 0x7f, 0x3ff)] comm_bxor]"

lemma gs2_keys: "fold_addkeys (group_entries gs2) [] = Some (group_entries gs2)"
  by (simp add: group_entries_def gs2_def LJFOLD_def foldrule_def ir_codes fold_addkey_def BUILD_MAX_FOLD_def lo24_def)

lemma replicate4: "replicate 4 x = [x, x, x, x]" by (simp add: numeral_eq_Suc)

lemma gs2_table: "tryhash (group_entries gs2) 3 0 False = Some [foldrule IR_BAND 0x7f 0x3ff, 0x1000000 OR foldrule IR_BXOR 0x7f 0x3ff, 0xffffffff, 0xffffffff]"
  by (simp add: tryhash_def group_entries_def gs2_def LJFOLD_def foldrule_def ir_codes hash_store_def lo24_def fold_hashkey_def Let_def replicate4)

lemma gs2_emit: "emit_fold gs2 = Some ([foldrule IR_BAND 0x7f 0x3ff, 0x1000000 OR foldrule IR_BXOR 0x7f 0x3ff, 0xffffffff, 0xffffffff], 3, 0, False)"
proof -
  have "length (group_entries gs2) OR 1 = 3" by (simp add: group_entries_def gs2_def LJFOLD_def numeral_2_eq_2 [symmetric])
  moreover have "[0..<32 * 32] = 0 # [Suc 0..<32 * 32]" by (rule upt_conv_Cons) simp
  moreover have "(3 :: nat) < BUILD_MAX_FOLD * 2" by (simp add: BUILD_MAX_FOLD_def)
  ultimately show ?thesis unfolding emit_fold_def gs2_keys bind.bind_lunit makehash_def
    by (subst try_sizes.simps) (simp only: try_params.simps semiring_1_class.of_nat_0 gs2_table option.case if_True)
qed

text \<open>
  C14: When the generator finds a hash table for groups of rules, the
  engine's lookup in it, by the generated hash function and at most two probes, gives for every key
  exactly the function of the rule with that key, and none when there is no such rule.
\<close>

theorem hash_rules_exact:
  assumes "emit_fold gs = Some t" "groups_ok gs" "k \<noteq> 0xffffff"
  shows "hash_rules (map snd gs) t k = map_of (map (\<lambda>((op, l, r), f). (foldrule op l r, f)) (group_rules gs)) k"
  using assms by (rule hash_rules_map)

theorem hash_rules_exact_witness:
  "groups_ok gs2 \<and> foldrule IR_BXOR 0x7f 0x3ff \<noteq> 0xffffff \<and>
   hash_rules (map snd gs2) ([foldrule IR_BAND 0x7f 0x3ff, 0x1000000 OR foldrule IR_BXOR 0x7f 0x3ff, 0xffffffff, 0xffffffff], 3, 0, False)
     (foldrule IR_BXOR 0x7f 0x3ff) = Some comm_bxor"
proof -
  have g: "groups_ok gs2" by (simp add: groups_ok_def gs2_def LJFOLD_def ir_codes)
  have n: "foldrule IR_BXOR 0x7f 0x3ff \<noteq> 0xffffff" "foldrule IR_BXOR 0x7f 0x3ff \<noteq> foldrule IR_BAND 0x7f 0x3ff" by (simp_all add: foldrule_def ir_codes)
  show ?thesis using hash_rules_exact [OF gs2_emit g n(1)] g n by (simp add: group_rules_def gs2_def LJFOLD_def)
qed

end
