(* ===== verification/LJ_DCE.thy ===== *)
theory LJ_DCE
  imports LJ_Fold LJ_IRProps
begin

text \<open>
  Dead code elimination (\<open>lj_opt_dce.c\<close>): the marks from the snapshots, their propagation backwards
  through the trace, and the instruction chains rerouted around the instructions that become NOPs.
  The pointers \<open>pchain[op]\<close> are to the anchor of a chain (\<open>None\<close>) or to the \<open>prev\<close> field of an
  instruction. The backpropagation cache that is cleared at the end belongs to narrowing and is not
  part of the state.
\<close>

section \<open>Snapshots\<close>

record SnapShot =
  sn_mapofs :: u32
  sn_ref :: u16
  sn_nslots :: u8
  sn_topslot :: u8
  sn_nent :: u8
  sn_count :: u8

definition snap_ref :: "u32 \<Rightarrow> nat" where "snap_ref sn = unat (sn AND 0xffff)"

text \<open>The entries of a snapshot in the map.\<close>

definition snap_refs :: "u32 list \<Rightarrow> SnapShot \<Rightarrow> nat list" where
  "snap_refs snapmap s = map (\<lambda>n. snap_ref (snapmap ! (unat (sn_mapofs s) + n))) [0..<unat (sn_nent s)]"

section \<open>The passes\<close>

definition mark_ref :: "nat \<Rightarrow> jit_State \<Rightarrow> jit_State" where
  "mark_ref ref J = (if REF_FIRST \<le> ref then set_IR ref ((IR J ref)\<lparr>ir_t := irt_setmark (ir_t (IR J ref))\<rparr>) J else J)"

definition dce_marksnap :: "SnapShot list \<Rightarrow> u32 list \<Rightarrow> jit_State \<Rightarrow> jit_State" where
  "dce_marksnap snap snapmap J = fold (\<lambda>s. fold mark_ref (snap_refs snapmap s)) snap J"

text \<open>Store through \<open>pchain[op]\<close>.\<close>

definition set_pchain :: "nat option \<Rightarrow> u8 \<Rightarrow> u16 \<Rightarrow> jit_State \<Rightarrow> jit_State" where
  "set_pchain p op x J =
     (case p of None \<Rightarrow> J\<lparr>j_chain := (j_chain J)(op := x)\<rparr> | Some r \<Rightarrow> set_IR r ((IR J r)\<lparr>ir_prev := x\<rparr>) J)"

function dce_loop :: "(u8 \<Rightarrow> nat option) \<Rightarrow> jit_State \<Rightarrow> nat \<Rightarrow> jit_State" where
  "dce_loop pchain J ins =
     (if REF_FIRST \<le> ins then
        let ir = IR J ins in
        if \<not> irt_ismarked (ir_t ir) \<and> \<not> ir_sideeff ir then
          let J = set_pchain (pchain (ir_o ir)) (ir_o ir) (ir_prev ir) J in
          dce_loop pchain (set_IR ins (lj_ir_nop (IR J ins)) J) (ins - 1)
        else
          let J = (if irt_ismarked (ir_t ir) then set_IR ins (ir\<lparr>ir_t := irt_clearmark (ir_t ir)\<rparr>) J else J) in
          dce_loop (pchain(ir_o ir := Some ins)) (mark_ref (unat (ir_op2 ir)) (mark_ref (unat (ir_op1 ir)) J)) (ins - 1)
      else J)"
  by auto
termination by (relation "measure (\<lambda>(p, J, ins). ins)") (auto simp: ref_codes)

declare dce_loop.simps [simp del]

definition dce_propagate :: "jit_State \<Rightarrow> jit_State" where
  "dce_propagate J = dce_loop (\<lambda>op. None) J (j_nins J - 1)"

definition lj_opt_dce :: "SnapShot list \<Rightarrow> u32 list \<Rightarrow> jit_State \<Rightarrow> jit_State" where
  "lj_opt_dce snap snapmap J =
     (if j_flags J AND JIT_F_OPT_DCE \<noteq> 0 then dce_propagate (dce_marksnap snap snapmap J) else J)"

section \<open>Live instructions\<close>

text \<open>
  What must stay: the instructions a snapshot refers to, those with a side effect, and the operands of
  what stays.
\<close>

inductive ir_live :: "jit_State \<Rightarrow> nat set \<Rightarrow> nat \<Rightarrow> bool" for J S where
  live_snap: "r \<in> S \<Longrightarrow> ir_live J S r"
| live_effect: "ir_sideeff (IR J r) \<Longrightarrow> REF_FIRST \<le> r \<Longrightarrow> r < j_nins J \<Longrightarrow> ir_live J S r"
| live_op1: "ir_live J S r \<Longrightarrow> REF_FIRST \<le> r \<Longrightarrow> ir_live J S (unat (ir_op1 (IR J r)))"
| live_op2: "ir_live J S r \<Longrightarrow> REF_FIRST \<le> r \<Longrightarrow> ir_live J S (unat (ir_op2 (IR J r)))"

text \<open>
  The chains of a trace with NOPs in it: an instruction that was made a NOP has left its chain and is in
  none.
\<close>

definition nop_chains :: "jit_State \<Rightarrow> bool" where
  "nop_chains J \<longleftrightarrow> (\<forall>op. op \<noteq> IR_NOP \<longrightarrow> linked J (unat (j_chain J op)) (chain_refs J op))"

text \<open>A trace before the pass: no marks, and operands come before their instruction.\<close>

definition dce_pre :: "jit_State \<Rightarrow> nat set \<Rightarrow> bool" where
  "dce_pre J S \<longleftrightarrow> buf_ok J \<and> ir_placed J \<and> nop_chains J \<and> (\<forall>r\<in>S. r < j_nins J) \<and>
     (\<forall>r. REF_FIRST \<le> r \<longrightarrow> r < j_nins J \<longrightarrow> \<not> irt_ismarked (ir_t (IR J r)) \<and> unat (ir_op1 (IR J r)) < r \<and> unat (ir_op2 (IR J r)) < r)"

lemma live_bound: "ir_live J S r \<Longrightarrow> dce_pre J S \<Longrightarrow> r < j_nins J"
proof (induction rule: ir_live.induct)
  case (live_op1 r)
  then have "unat (ir_op1 (IR J r)) < r" "r < j_nins J" by (auto simp: dce_pre_def)
  then show ?case by simp
next
  case (live_op2 r)
  then have "unat (ir_op2 (IR J r)) < r" "r < j_nins J" by (auto simp: dce_pre_def)
  then show ?case by simp
qed (auto simp: dce_pre_def)

text \<open>Marked by a snapshot or by a live instruction above \<open>ins\<close>.\<close>

definition marked :: "jit_State \<Rightarrow> nat set \<Rightarrow> nat \<Rightarrow> nat \<Rightarrow> bool" where
  "marked J S ins r \<longleftrightarrow> r \<in> S \<or> (\<exists>x>ins. ir_live J S x \<and> (r = unat (ir_op1 (IR J x)) \<or> r = unat (ir_op2 (IR J x))))"

lemma live_marked:
  assumes p: "dce_pre J S" and r: "REF_FIRST \<le> r" "r < j_nins J"
  shows "ir_live J S r \<longleftrightarrow> marked J S r r \<or> ir_sideeff (IR J r)"
proof
  assume "ir_live J S r"
  then show "marked J S r r \<or> ir_sideeff (IR J r)"
  proof cases
    case (live_op1 x)
    then have "r < x" using live_bound [OF live_op1(2) p] p by (simp add: dce_pre_def)
    then show ?thesis using live_op1 by (auto simp: marked_def)
  next
    case (live_op2 x)
    then have "r < x" using live_bound [OF live_op2(2) p] p by (simp add: dce_pre_def)
    then show ?thesis using live_op2 by (auto simp: marked_def)
  qed (auto simp: marked_def)
next
  assume "marked J S r r \<or> ir_sideeff (IR J r)"
  then show "ir_live J S r" using r by (auto simp: marked_def intro: ir_live.intros)
qed

lemma marked_step:
  assumes "ins = Suc j"
  shows "marked J S j r \<longleftrightarrow> marked J S ins r \<or> ir_live J S ins \<and> (r = unat (ir_op1 (IR J ins)) \<or> r = unat (ir_op2 (IR J ins)))"
proof -
  have "x > j \<longleftrightarrow> x = ins \<or> x > ins" for x using assms by (auto simp: ref_codes)
  then show ?thesis by (auto simp: marked_def)
qed

section \<open>Stores\<close>

definition same_shape :: "jit_State \<Rightarrow> jit_State \<Rightarrow> bool" where
  "same_shape K J \<longleftrightarrow> length (irbuf J) = length (irbuf K) \<and> irbotlim J = irbotlim K \<and> irtoplim J = irtoplim K \<and> j_nins J = j_nins K \<and>
     j_nk J = j_nk K \<and> j_k64 J = j_k64 K \<and> j_flags J = j_flags K"

lemma shape_refl [simp]: "same_shape J J" by (simp add: same_shape_def)

lemma shape_ok: "buf_ok K \<Longrightarrow> same_shape K J \<Longrightarrow> buf_ok J \<and> valid J = valid K"
  by (auto simp: buf_ok_def same_shape_def valid_def fun_eq_iff)

lemma IR_set_IR:
  assumes "buf_ok J" "valid J r" "valid J x"
  shows "IR (set_IR r ir J) x = (if x = r then ir else IR J x)"
  using buf_index [OF assms(1,2)] buf_index [OF assms(1,3)] by (auto simp: IR_def set_IR_def nth_list_update)

lemma set_IR_shape [simp]: "same_shape K (set_IR r ir J) = same_shape K J" "j_chain (set_IR r ir J) = j_chain J"
  by (simp_all add: same_shape_def set_IR_def)

lemma mark_ref_shape [simp]: "same_shape K (mark_ref x J) = same_shape K J" "j_chain (mark_ref x J) = j_chain J"
  by (simp_all add: mark_ref_def)

lemma set_pchain_shape [simp]: "same_shape K (set_pchain p op x J) = same_shape K J"
  by (simp add: set_pchain_def same_shape_def set_IR_def split: option.split)

text \<open>The type of an instruction with or without its mark.\<close>

definition with_mark :: "bool \<Rightarrow> IRIns \<Rightarrow> IRIns" where
  "with_mark m ir = (if m then ir\<lparr>ir_t := irt_setmark (ir_t ir)\<rparr> else ir)"

lemma bit_flags: "bit IRT_MARK n \<longleftrightarrow> n = 5" "bit IRT_GUARD n \<longleftrightarrow> n = 7"
proof -
  have "IRT_MARK = push_bit 5 1" "IRT_GUARD = push_bit 7 1" by (simp_all add: IRT_MARK_def IRT_GUARD_def)
  note e = this
  show "bit IRT_MARK n \<longleftrightarrow> n = 5" "bit IRT_GUARD n \<longleftrightarrow> n = 7" unfolding e by (auto simp only: bit_push_bit_iff bit_1_iff) simp_all
qed

lemma ismarked_bit: "irt_ismarked x \<longleftrightarrow> bit x 5"
proof -
  have "bit (x AND IRT_MARK) n \<longleftrightarrow> n = 5 \<and> bit x 5" for n by (auto simp: bit_and_iff bit_flags)
  then have "x AND IRT_MARK = 0 \<longleftrightarrow> \<not> bit x 5" by (metis bit_0_eq bit_word_eqI bot_apply bot_bool_def)
  then show ?thesis by (simp add: irt_ismarked_def)
qed

lemma mark_bits: "irt_setmark (irt_setmark t) = irt_setmark t" "irt_ismarked (irt_setmark t)" "\<not> irt_ismarked t \<Longrightarrow> irt_clearmark (irt_setmark t) = t"
proof -
  show "irt_setmark (irt_setmark t) = irt_setmark t" by (simp add: irt_setmark_def or.assoc)
  show "irt_ismarked (irt_setmark t)" by (simp add: ismarked_bit irt_setmark_def bit_or_iff bit_flags)
  show "irt_clearmark (irt_setmark t) = t" if "\<not> irt_ismarked t"
    by (rule bit_word_eqI) (use that in \<open>auto simp: irt_clearmark_def irt_setmark_def bit_simps bit_flags ismarked_bit\<close>)
qed

lemma with_mark_fields [simp]:
  "ir_op12 (with_mark m ir) = ir_op12 ir" "ir_o (with_mark m ir) = ir_o ir" "ir_prev (with_mark m ir) = ir_prev ir" "ir_op1 (with_mark m ir) = ir_op1 ir"
  "ir_op2 (with_mark m ir) = ir_op2 ir" "ir_sideeff (with_mark m ir) = ir_sideeff ir"
proof -
  have "(irt_setmark t OR NOT IRT_GUARD) = t OR NOT IRT_GUARD" for t
    by (rule bit_word_eqI) (auto simp: irt_setmark_def bit_flags bit_simps)
  then show "ir_sideeff (with_mark m ir) = ir_sideeff ir" by (simp add: with_mark_def ir_sideeff_def)
qed (simp_all add: with_mark_def ir_op1_def ir_op2_def)

lemma with_mark_set: "(with_mark m ir)\<lparr>ir_t := irt_setmark (ir_t (with_mark m ir))\<rparr> = with_mark True ir"
  by (simp add: with_mark_def mark_bits(1))

lemma with_mark_marked: "\<not> irt_ismarked (ir_t ir) \<Longrightarrow> irt_ismarked (ir_t (with_mark m ir)) = m"
  by (simp add: with_mark_def mark_bits(2))

lemma with_mark_clear: "\<not> irt_ismarked (ir_t ir) \<Longrightarrow> (with_mark True ir)\<lparr>ir_t := irt_clearmark (ir_t (with_mark True ir))\<rparr> = ir"
  by (simp add: with_mark_def mark_bits(3))

lemma mark_ref_IR:
  assumes "buf_ok J" "valid J x \<or> x < REF_FIRST" "valid J r"
  shows "IR (mark_ref x J) r = (if r = x \<and> REF_FIRST \<le> x then (IR J r)\<lparr>ir_t := irt_setmark (ir_t (IR J r))\<rparr> else IR J r)"
  using assms IR_set_IR [OF assms(1) _ assms(3), of x] by (auto simp: mark_ref_def)

section \<open>Chains\<close>

lemma linked_prev_cong: "(\<And>r. r \<in> set rs \<Longrightarrow> ir_prev (IR J' r) = ir_prev (IR J r)) \<Longrightarrow> linked J' ref rs = linked J ref rs"
  by (induction rs arbitrary: ref) auto

lemma linked_remove:
  assumes "linked J ref (as @ x # bs)" "distinct (as @ x # bs)" "as \<noteq> []"
    "\<And>r. r \<in> set (as @ bs) \<Longrightarrow> ir_prev (IR J' r) = (if r = last as then ir_prev (IR J x) else ir_prev (IR J r))"
  shows "linked J' ref (as @ bs)"
  using assms
proof (induction as arbitrary: ref)
  case (Cons a as)
  show ?case
  proof (cases "as = []")
    case True
    have "linked J' (unat (ir_prev (IR J x))) bs = linked J (unat (ir_prev (IR J x))) bs"
      by (rule linked_prev_cong) (use Cons.prems True in auto)
    then show ?thesis using Cons.prems True by auto
  next
    case False
    have "a \<noteq> last as" using Cons.prems(2) False by (metis append_Cons distinct.simps(2) in_set_conv_decomp last_in_set append_assoc Un_iff set_append)
    then show ?thesis using Cons.IH [of "unat (ir_prev (IR J a))"] Cons.prems False by auto
  qed
qed simp

section \<open>The invariant of the loop\<close>

text \<open>The chain of an opcode: the live instructions above \<open>ins\<close> and all from \<open>ins\<close> down.\<close>

definition kept_refs :: "jit_State \<Rightarrow> nat set \<Rightarrow> u8 \<Rightarrow> nat \<Rightarrow> nat list" where
  "kept_refs K S op ins = filter (\<lambda>r. ir_o (IR K r) = op \<and> ir_live K S r) (rev [Suc ins..<j_nins K])"

definition todo_refs :: "jit_State \<Rightarrow> u8 \<Rightarrow> nat \<Rightarrow> nat list" where
  "todo_refs K op ins = filter (\<lambda>r. ir_o (IR K r) = op) (rev [REF_BIAS..<Suc ins])"

lemma kept_step: "ins = Suc j \<Longrightarrow> ins < j_nins K \<Longrightarrow> kept_refs K S op j = kept_refs K S op ins @ (if ir_o (IR K ins) = op \<and> ir_live K S ins then [ins] else [])"
  by (simp add: kept_refs_def upt_conv_Cons ref_codes)

lemma rest_step: "ins = Suc j \<Longrightarrow> REF_FIRST \<le> ins \<Longrightarrow> todo_refs K op ins = (if ir_o (IR K ins) = op then [ins] else []) @ todo_refs K op j"
  by (simp add: todo_refs_def ref_codes)

lemma chain_sets:
  "r \<in> set (kept_refs K S op ins) \<longleftrightarrow> ins < r \<and> r < j_nins K \<and> ir_o (IR K r) = op \<and> ir_live K S r"
  "r \<in> set (todo_refs K op ins) \<longleftrightarrow> REF_BIAS \<le> r \<and> r \<le> ins \<and> ir_o (IR K r) = op"
  "distinct (kept_refs K S op ins @ todo_refs K op ins)"
  by (auto simp: kept_refs_def todo_refs_def)

definition dce_inv :: "jit_State \<Rightarrow> nat set \<Rightarrow> (u8 \<Rightarrow> nat option) \<Rightarrow> jit_State \<Rightarrow> nat \<Rightarrow> bool" where
  "dce_inv K S pc J ins \<longleftrightarrow> same_shape K J \<and>
     (\<forall>r. valid K r \<longrightarrow> r < REF_FIRST \<longrightarrow> IR J r = IR K r) \<and>
     (\<forall>r. REF_FIRST \<le> r \<longrightarrow> r \<le> ins \<longrightarrow> IR J r = with_mark (marked K S ins r) (IR K r)) \<and>
     (\<forall>r. ins < r \<longrightarrow> r < j_nins K \<longrightarrow> IR J r = (if ir_live K S r then (IR K r)\<lparr>ir_prev := ir_prev (IR J r)\<rparr> else lj_ir_nop (IR K r))) \<and>
     (\<forall>op. kop op \<longrightarrow> j_chain J op = j_chain K op) \<and>
     (\<forall>op. \<not> kop op \<longrightarrow> op \<noteq> IR_NOP \<longrightarrow> linked J (unat (j_chain J op)) (kept_refs K S op ins @ todo_refs K op ins)) \<and>
     (\<forall>op. \<not> kop op \<longrightarrow> pc op = (if kept_refs K S op ins = [] then None else Some (last (kept_refs K S op ins))))"

lemma dce_invD:
  assumes "dce_inv K S pc J ins"
  shows "same_shape K J" "valid K r \<Longrightarrow> r < REF_FIRST \<Longrightarrow> IR J r = IR K r"
    "REF_FIRST \<le> r \<Longrightarrow> r \<le> ins \<Longrightarrow> IR J r = with_mark (marked K S ins r) (IR K r)"
    "ins < r \<Longrightarrow> r < j_nins K \<Longrightarrow> IR J r = (if ir_live K S r then (IR K r)\<lparr>ir_prev := ir_prev (IR J r)\<rparr> else lj_ir_nop (IR K r))"
    "kop op \<Longrightarrow> j_chain J op = j_chain K op"
    "\<not> kop op \<Longrightarrow> op \<noteq> IR_NOP \<Longrightarrow> linked J (unat (j_chain J op)) (kept_refs K S op ins @ todo_refs K op ins)"
    "\<not> kop op \<Longrightarrow> pc op = (if kept_refs K S op ins = [] then None else Some (last (kept_refs K S op ins)))"
  using assms by (simp_all add: dce_inv_def)

lemma valid_above: "buf_ok K \<Longrightarrow> REF_BIAS \<le> r \<Longrightarrow> r < j_nins K \<Longrightarrow> valid K r"
  by (auto simp: buf_ok_def valid_def ref_codes)

lemma step_live:
  assumes p: "dce_pre K S" and inv: "dce_inv K S pc J ins" and i: "REF_FIRST \<le> ins" "ins < j_nins K" and l: "ir_live K S ins"
  defines "J1 \<equiv> if irt_ismarked (ir_t (IR J ins)) then set_IR ins ((IR J ins)\<lparr>ir_t := irt_clearmark (ir_t (IR J ins))\<rparr>) J else J"
  shows "dce_inv K S (pc(ir_o (IR J ins) := Some ins)) (mark_ref (unat (ir_op2 (IR J ins))) (mark_ref (unat (ir_op1 (IR J ins))) J1)) (ins - 1)"
proof -
  obtain j where ij: "ins = Suc j" using i(1) by (cases ins) (auto simp: ref_codes)
  then have mj: "ins - 1 = j" by simp
  note I = dce_invD [OF inv]
  let ?a = "unat (ir_op1 (IR K ins))" and ?b = "unat (ir_op2 (IR K ins))"
  have b: "buf_ok K" using p by (simp add: dce_pre_def)
  have um: "\<not> irt_ismarked (ir_t (IR K ins))" and o: "?a < ins" "?b < ins" using p i by (auto simp: dce_pre_def)
  have bJ: "buf_ok J" "valid J = valid K" using shape_ok [OF b I(1)] by auto
  have vi: "valid K ins" using valid_above [OF b _ i(2)] i(1) by (simp add: ref_codes)
  have ir: "IR J ins = with_mark (marked K S ins ins) (IR K ins)" using I(3) i by simp
  have s1: "same_shape K J1" "j_chain J1 = j_chain J" using I(1) by (simp_all add: J1_def)
  have b1: "buf_ok J1" "valid J1 = valid K" using shape_ok [OF b s1(1)] by auto
  have J1: "IR J1 r = (if r = ins then IR K ins else IR J r)" if "valid K r" for r
    using IR_set_IR [OF bJ(1), of ins r] that vi bJ(2) um ir with_mark_marked [OF um] with_mark_clear [OF um]
    by (cases "marked K S ins ins") (auto simp: J1_def with_mark_def mark_bits(2))
  let ?J2 = "mark_ref ?b (mark_ref ?a J1)"
  have va: "valid K ?a \<or> ?a < REF_FIRST" "valid K ?b \<or> ?b < REF_FIRST" using valid_above [OF b] o i by (auto simp: ref_codes)
  have b2: "buf_ok (mark_ref ?a J1)" "valid (mark_ref ?a J1) = valid K" using shape_ok [OF b, of "mark_ref ?a J1"] s1(1) by auto
  have J2: "IR ?J2 r = (if (r = ?a \<or> r = ?b) \<and> REF_FIRST \<le> r then (IR J1 r)\<lparr>ir_t := irt_setmark (ir_t (IR J1 r))\<rparr> else IR J1 r)" if "valid K r" for r
    using mark_ref_IR [OF b1(1), of ?a r] mark_ref_IR [OF b2(1), of ?b r] va that b1(2) b2(2) by (auto simp: mark_bits(1))
  have todo: "IR ?J2 r = with_mark (marked K S j r) (IR K r)" if r: "REF_FIRST \<le> r" "r \<le> j" for r
  proof -
    have "valid K r" "r \<noteq> ins" "r \<le> ins" using valid_above [OF b, of r] r i ij by (auto simp: ref_codes)
    then show ?thesis using J2 [of r] J1 [of r] I(3) [of r] r l with_mark_set marked_step [OF ij, of K S r] by (auto simp: with_mark_set)
  qed
  have prev: "ir_prev (IR ?J2 r) = ir_prev (IR J r)" if "valid K r" for r
    using J2 [OF that] J1 [OF that] ir by auto
  have "linked ?J2 (unat (j_chain J op)) (kept_refs K S op ins @ todo_refs K op ins) = linked J (unat (j_chain J op)) (kept_refs K S op ins @ todo_refs K op ins)" for op
    by (rule linked_prev_cong, rule prev) (use valid_above [OF b] i in \<open>auto simp: chain_sets ref_codes\<close>)
  note C = this
  have list: "kept_refs K S op j @ todo_refs K op j = kept_refs K S op ins @ todo_refs K op ins" for op
    using l by (simp add: kept_step [OF ij i(2)] rest_step [OF ij i(1)])
  have chains: "linked ?J2 (unat (j_chain ?J2 op)) (kept_refs K S op j @ todo_refs K op j)" if "\<not> kop op" "op \<noteq> IR_NOP" for op
    using I(6) [OF that] C [of op] s1(2) unfolding list by simp
  have ends: "IR ?J2 r = (if ir_live K S r then (IR K r)\<lparr>ir_prev := ir_prev (IR ?J2 r)\<rparr> else lj_ir_nop (IR K r))" if r: "j < r" "r < j_nins K" for r
  proof -
    have v: "valid K r" using valid_above [OF b _ r(2)] r i ij by (auto simp: ref_codes)
    have "r \<noteq> ?a" "r \<noteq> ?b" using o r ij by auto
    then have e: "IR ?J2 r = IR J1 r" using J2 [OF v] by simp
    show ?thesis
    proof (cases "r = ins")
      case True
      then show ?thesis using e J1 [OF v] l by simp
    next
      case False
      then have "ins < r" using r ij by simp
      from I(4) [OF this r(2)] have "IR J1 r = (if ir_live K S r then (IR K r)\<lparr>ir_prev := ir_prev (IR J1 r)\<rparr> else lj_ir_nop (IR K r))"
        using J1 [OF v] False by (simp only: if_False)
      then show ?thesis unfolding e .
    qed
  qed
  have ops: "ir_op1 (IR J ins) = ir_op1 (IR K ins)" "ir_op2 (IR J ins) = ir_op2 (IR K ins)" "ir_o (IR J ins) = ir_o (IR K ins)" by (simp_all add: ir)
  have low: "IR ?J2 r = IR K r" if "valid K r" "r < REF_FIRST" for r using J2 [OF that(1)] J1 [OF that(1)] I(2) that i by auto
  show ?thesis unfolding mj dce_inv_def ops
    using todo low ends chains I(5,7) s1 l by (auto simp: kept_step [OF ij i(2)])
qed

lemma step_dead:
  assumes p: "dce_pre K S" and inv: "dce_inv K S pc J ins" and i: "REF_FIRST \<le> ins" "ins < j_nins K" and d: "\<not> ir_live K S ins"
  defines "J1 \<equiv> set_pchain (pc (ir_o (IR J ins))) (ir_o (IR J ins)) (ir_prev (IR J ins)) J"
  shows "dce_inv K S pc (set_IR ins (lj_ir_nop (IR J1 ins)) J1) (ins - 1)"
proof -
  obtain j where ij: "ins = Suc j" using i(1) by (cases ins) (auto simp: ref_codes)
  then have mj: "ins - 1 = j" by simp
  note I = dce_invD [OF inv]
  define op where "op = ir_o (IR K ins)"
  define x where "x = ir_prev (IR K ins)"
  have ok: "ir_placed K" and b: "buf_ok K" using p by (auto simp: dce_pre_def)
  have vi: "valid K ins" using valid_above [OF b _ i(2)] i(1) by (simp add: ref_codes)
  have nk: "\<not> kop op" using ok vi i(1) by (auto simp: ir_placed_def op_def ref_codes)
  have ir: "IR J ins = with_mark (marked K S ins ins) (IR K ins)" using I(3) i by simp
  then have J1: "J1 = set_pchain (pc op) op x J" by (simp add: J1_def op_def x_def)
  let ?J2 = "set_IR ins (lj_ir_nop (IR J1 ins)) J1"
  have s1: "same_shape K J1" using I(1) by (simp add: J1)
  have bJ: "buf_ok J" "valid J = valid K" and b1: "buf_ok J1" "valid J1 = valid K" using shape_ok [OF b I(1)] shape_ok [OF b s1] by auto
  define q where "q = (if kept_refs K S op ins = [] then 0 else last (kept_refs K S op ins))"
  have pc: "pc op = (if kept_refs K S op ins = [] then None else Some q)" using I(7) [OF nk] by (simp add: q_def)
  have q: "ins < q" "q < j_nins K" "ir_o (IR K q) = op" "ir_live K S q" if "kept_refs K S op ins \<noteq> []"
    using last_in_set [OF that] that by (simp_all add: q_def chain_sets)
  have IR1: "IR J1 r = (if kept_refs K S op ins \<noteq> [] \<and> r = q then (IR J r)\<lparr>ir_prev := x\<rparr> else IR J r)" if "valid K r" for r
    using IR_set_IR [OF bJ(1), of q r] that bJ(2) q valid_above [OF b, of q] i
    by (auto simp: J1 set_pchain_def pc IR_def set_IR_def ref_codes)
  have IR2: "IR ?J2 r = (if r = ins then lj_ir_nop (IR K ins) else IR J1 r)" if "valid K r" for r
    using IR_set_IR [OF b1(1), of ins r] that vi b1(2) by (simp add: lj_ir_nop_def)
  have ch: "j_chain J1 = (if kept_refs K S op ins = [] then (j_chain J)(op := x) else j_chain J)" by (simp add: J1 set_pchain_def pc)
  have prev: "ir_prev (IR ?J2 r) = (if kept_refs K S op ins \<noteq> [] \<and> r = q then x else ir_prev (IR J r))" if "valid K r" "r \<noteq> ins" for r
    using IR2 [OF that(1)] IR1 [OF that(1)] that(2) by simp
  have xJ: "ir_prev (IR J ins) = x" by (simp add: ir x_def)
  have vl: "valid K r" if "r \<in> set (kept_refs K S c ins @ todo_refs K c ins)" for r c using that valid_above [OF b, of r] i by (auto simp: chain_sets ref_codes)
  have kp: "kept_refs K S c j = kept_refs K S c ins" for c using d by (simp add: kept_step [OF ij i(2)])
  have chains: "linked ?J2 (unat (j_chain ?J2 c)) (kept_refs K S c j @ todo_refs K c j)" if c: "\<not> kop c" "c \<noteq> IR_NOP" for c
  proof (cases "c = op")
    case False
    have r: "todo_refs K c ins = todo_refs K c j" using False rest_step [OF ij i(1), of K c] by (simp add: op_def)
    have "linked ?J2 (unat (j_chain J c)) (kept_refs K S c ins @ todo_refs K c ins) = linked J (unat (j_chain J c)) (kept_refs K S c ins @ todo_refs K c ins)"
    proof (rule linked_prev_cong)
      fix r assume m: "r \<in> set (kept_refs K S c ins @ todo_refs K c ins)"
      have "r \<noteq> ins" "kept_refs K S op ins \<noteq> [] \<Longrightarrow> r \<noteq> q" using m False q(3) by (auto simp: chain_sets op_def)
      then show "ir_prev (IR ?J2 r) = ir_prev (IR J r)" using prev [OF vl [OF m]] by auto
    qed
    then show ?thesis using I(6) [OF c] False by (simp add: kp r ch)
  next
    case True
    have r: "todo_refs K op ins = ins # todo_refs K op j" using rest_step [OF ij i(1), of K op] by (simp add: op_def)
    have nn: "op \<noteq> IR_NOP" using True c by simp
    note L = I(6) [OF nk nn, unfolded r] and D = chain_sets(3) [of K S op ins, unfolded r]
    have ne: "y \<noteq> ins" "valid K y" if "y \<in> set (kept_refs K S op ins @ todo_refs K op j)" for y using that D vl [of y op] r by auto
    show ?thesis
    proof (cases "kept_refs K S op ins = []")
      case k: True
      have "linked ?J2 (unat x) (todo_refs K op j) = linked J (unat x) (todo_refs K op j)"
        by (rule linked_prev_cong) (use prev ne k in auto)
      then show ?thesis using L k xJ True by (simp add: kp ch)
    next
      case k: False
      have "linked ?J2 (unat (j_chain J op)) (kept_refs K S op ins @ todo_refs K op j)"
        by (rule linked_remove [OF L D k]) (use prev ne k xJ in \<open>auto simp: q_def\<close>)
      then show ?thesis using k True by (simp add: kp ch)
    qed
  qed
  have todo: "IR ?J2 r = with_mark (marked K S j r) (IR K r)" if r: "REF_FIRST \<le> r" "r \<le> j" for r
  proof -
    have "valid K r" "r \<noteq> ins" "r \<le> ins" using valid_above [OF b, of r] r i ij by (auto simp: ref_codes)
    moreover have "kept_refs K S op ins \<noteq> [] \<Longrightarrow> r \<noteq> q" using q(1) r ij by auto
    ultimately show ?thesis using IR2 [of r] IR1 [of r] I(3) [of r] r d marked_step [OF ij, of K S r] by auto
  qed
  have ends: "IR ?J2 r = (if ir_live K S r then (IR K r)\<lparr>ir_prev := ir_prev (IR ?J2 r)\<rparr> else lj_ir_nop (IR K r))" if r: "j < r" "r < j_nins K" for r
  proof (cases "r = ins")
    case True
    then show ?thesis using IR2 [OF vi] d by simp
  next
    case False
    have v: "valid K r" using valid_above [OF b _ r(2)] r i ij by (auto simp: ref_codes)
    have "ins < r" using False r ij by auto
    note e = I(4) [OF this r(2)]
    have u: "(IR J r)\<lparr>ir_prev := y\<rparr> = (IR K r)\<lparr>ir_prev := y\<rparr>" if "ir_live K S r" for y by (subst e) (simp add: that)
    show ?thesis
    proof (cases "kept_refs K S op ins \<noteq> [] \<and> r = q")
      case True
      then show ?thesis using IR2 [OF v] IR1 [OF v] False q(4) u by simp
    next
      case nq: False
      have "IR ?J2 r = IR J r" using IR2 [OF v] IR1 [OF v] by (simp only: False nq if_False)
      then show ?thesis using e by (simp only:)
    qed
  qed
  have low: "IR ?J2 r = IR K r" if "valid K r" "r < REF_FIRST" for r
  proof -
    have "r \<noteq> ins" "kept_refs K S op ins \<noteq> [] \<Longrightarrow> r \<noteq> q" using that i q(1) by auto
    then show ?thesis using IR2 [OF that(1)] IR1 [OF that(1)] I(2) that by auto
  qed
  have kc: "j_chain ?J2 c = j_chain K c" if "kop c" for c using that nk I(5) [OF that] ch by auto
  show ?thesis unfolding mj dce_inv_def using todo low ends chains kc I(7) s1 by (auto simp: kp)
qed

section \<open>The marks of the snapshots\<close>

definition all_refs :: "SnapShot list \<Rightarrow> u32 list \<Rightarrow> nat list" where
  "all_refs snap snapmap = concat (map (snap_refs snapmap) snap)"

lemma marksnap_all: "dce_marksnap snap snapmap J = fold mark_ref (all_refs snap snapmap) J"
  by (induction snap arbitrary: J) (simp_all add: dce_marksnap_def all_refs_def)

lemma fold_mark:
  assumes "buf_ok K" "same_shape K J" "\<forall>x\<in>set xs. x < j_nins K"
    "\<forall>r. valid K r \<longrightarrow> IR J r = with_mark (REF_FIRST \<le> r \<and> r \<in> A) (IR K r)"
  shows "same_shape K (fold mark_ref xs J) \<and> j_chain (fold mark_ref xs J) = j_chain J \<and>
    (\<forall>r. valid K r \<longrightarrow> IR (fold mark_ref xs J) r = with_mark (REF_FIRST \<le> r \<and> r \<in> A \<union> set xs) (IR K r))"
  using assms
proof (induction xs arbitrary: J A)
  case (Cons x xs)
  have b: "buf_ok J" "valid J = valid K" using shape_ok [OF Cons.prems(1,2)] by auto
  have x: "valid J x \<or> x < REF_FIRST" using valid_above [OF Cons.prems(1), of x] Cons.prems(3) b(2) by (auto simp: ref_codes)
  have "IR (mark_ref x J) r = with_mark (REF_FIRST \<le> r \<and> r \<in> insert x A) (IR K r)" if "valid K r" for r
    using mark_ref_IR [OF b(1) x, of r] that b(2) Cons.prems(4) by (cases "r = x") (auto simp: with_mark_set)
  then show ?case using Cons.IH [of "mark_ref x J" "insert x A"] Cons.prems by simp
qed simp

lemma init_inv:
  assumes p: "dce_pre J S" and S: "S = set (all_refs snap snapmap)"
  shows "dce_inv J S (\<lambda>op. None) (dce_marksnap snap snapmap J) (j_nins J - 1)"
proof -
  have b: "buf_ok J" and n: "\<forall>x\<in>set (all_refs snap snapmap). x < j_nins J" using p S by (auto simp: dce_pre_def)
  define J' where "J' = dce_marksnap snap snapmap J"
  have m: "same_shape J J'" "j_chain J' = j_chain J" "\<And>r. valid J r \<Longrightarrow> IR J' r = with_mark (REF_FIRST \<le> r \<and> r \<in> S) (IR J r)"
    using fold_mark [OF b _ n, of J "{}"] S by (auto simp: marksnap_all J'_def with_mark_def)
  obtain top where top: "Suc top = j_nins J" using b by (cases "j_nins J") (auto simp: buf_ok_def ref_codes)
  have none: "kept_refs J S op top = []" for op unfolding kept_refs_def top by simp
  have todo: "todo_refs J op top = chain_refs J op" if "\<not> kop op" for op using that unfolding todo_refs_def chain_refs_def top by simp
  have mk: "marked J S top r \<longleftrightarrow> r \<in> S" for r using live_bound [OF _ p] by (force simp: marked_def top [symmetric])
  have "linked J' (unat (j_chain J op)) (chain_refs J op)" if "op \<noteq> IR_NOP" for op
  proof -
    have "ir_prev (IR J' r) = ir_prev (IR J r)" if "r \<in> set (chain_refs J op)" for r using m(3) chain_valid [OF b that] by simp
    then show ?thesis using p that linked_prev_cong [of "chain_refs J op" J' J] by (simp add: dce_pre_def nop_chains_def)
  qed
  moreover have "valid J r" if "REF_FIRST \<le> r" "r \<le> top" for r using valid_above [OF b, of r] that top by (auto simp: ref_codes)
  ultimately show ?thesis using m unfolding J'_def [symmetric] dce_inv_def top [symmetric] diff_Suc_1 by (auto simp: none todo mk with_mark_def)
qed

section \<open>The whole pass\<close>

lemma loop_inv:
  "dce_inv K S pc J ins \<Longrightarrow> dce_pre K S \<Longrightarrow> ins < j_nins K \<Longrightarrow> REF_BIAS \<le> ins \<Longrightarrow> \<exists>pc'. dce_inv K S pc' (dce_loop pc J ins) REF_BIAS"
proof (induction pc J ins rule: dce_loop.induct)
  case (1 pc J ins)
  show ?case
  proof (cases "REF_FIRST \<le> ins")
    case False
    then have "ins = REF_BIAS" using 1(6) by (simp add: ref_codes)
    then show ?thesis using 1(3) False dce_loop.simps [of pc J ins] by auto
  next
    case i: True
    have um: "\<not> irt_ismarked (ir_t (IR K ins))" using 1(4,5) i by (auto simp: dce_pre_def)
    have "IR J ins = with_mark (marked K S ins ins) (IR K ins)" using dce_invD(3) [OF 1(3) i] by simp
    then have l: "(\<not> irt_ismarked (ir_t (IR J ins)) \<and> \<not> ir_sideeff (IR J ins)) \<longleftrightarrow> \<not> ir_live K S ins"
      using live_marked [OF 1(4) i 1(5)] with_mark_marked [OF um] by simp
    have n: "ins - 1 < j_nins K" "REF_BIAS \<le> ins - 1" using 1(5) i by (auto simp: ref_codes)
    show ?thesis
    proof (cases "ir_live K S ins")
      case True
      have c: "\<not> (\<not> irt_ismarked (ir_t (IR J ins)) \<and> \<not> ir_sideeff (IR J ins))" using l True by blast
      show ?thesis using 1(2) [OF i refl c refl step_live [OF 1(4,3) i 1(5) True] 1(4) n]
        by (simp only: dce_loop.simps [of pc J ins] Let_def i c if_True if_False)
    next
      case False
      have c: "\<not> irt_ismarked (ir_t (IR J ins)) \<and> \<not> ir_sideeff (IR J ins)" using l False by blast
      show ?thesis using 1(1) [OF i refl c refl step_dead [OF 1(4,3) i 1(5) False] 1(4) n]
        by (simp only: dce_loop.simps [of pc J ins] Let_def i c if_True simp_thms)
    qed
  qed
qed

lemma final_chains:
  assumes p: "dce_pre K S" and inv: "dce_inv K S pc J REF_BIAS"
  shows "nop_chains J"
proof -
  note I = dce_invD [OF inv]
  have b: "buf_ok K" and n: "nop_chains K" using p by (auto simp: dce_pre_def)
  have s: "j_nins J = j_nins K" "j_nk J = j_nk K" using I(1) by (simp_all add: same_shape_def)
  have lt: "REF_BIAS < j_nins K" using b by (simp add: buf_ok_def)
  have "linked J (unat (j_chain J op)) (chain_refs J op)" if op: "op \<noteq> IR_NOP" for op
  proof (cases "kop op")
    case True
    have e: "IR J r = IR K r" if "j_nk K \<le> r" "r < REF_TRUE" for r using I(2) [of r] that lt by (auto simp: valid_def ref_codes)
    have c: "chain_refs J op = chain_refs K op" using True by (auto simp: chain_refs_def s e intro!: filter_cong)
    have "linked J (unat (j_chain K op)) (chain_refs K op) = linked K (unat (j_chain K op)) (chain_refs K op)"
      by (rule linked_cong) (use e True in \<open>auto simp: chain_refs_def\<close>)
    then show ?thesis using I(5) [OF True] n op c by (simp add: nop_chains_def)
  next
    case False
    have o: "ir_o (IR J r) = op \<longleftrightarrow> ir_o (IR K r) = op \<and> ir_live K S r" if "REF_BIAS < r" "r < j_nins K" for r
    proof (cases "ir_live K S r")
      case True
      then show ?thesis using arg_cong [OF I(4) [OF that], of ir_o] by simp
    next
      case False
      then show ?thesis using arg_cong [OF I(4) [OF that], of ir_o] op by (simp add: lj_ir_nop_def)
    qed
    have "filter (\<lambda>r. ir_o (IR J r) = op) [Suc REF_BIAS..<j_nins K] = filter (\<lambda>r. ir_o (IR K r) = op \<and> ir_live K S r) [Suc REF_BIAS..<j_nins K]"
      by (rule filter_cong [OF refl], rule o) auto
    moreover have "IR J REF_BIAS = IR K REF_BIAS" using I(2) valid_above [OF b, of REF_BIAS] lt by (simp add: ref_codes)
    ultimately have "chain_refs J op = kept_refs K S op REF_BIAS @ todo_refs K op REF_BIAS"
      using False lt by (simp add: chain_refs_def kept_refs_def todo_refs_def s upt_conv_Cons rev_filter [symmetric])
    then show ?thesis using I(6) [OF False op] by simp
  qed
  then show ?thesis by (simp add: nop_chains_def)
qed

text \<open>
  C10: dead code elimination is exact. When the optimisation is on, every instruction that a snapshot needs,
  that has a side effect, or that one of those uses, stays as it was (its link in the chain aside), every
  other becomes a NOP, the constants and the base stay, and the chain of every other opcode again
  links exactly its instructions, from the last to the first.
\<close>

theorem dce_exact:
  assumes "j_flags J AND JIT_F_OPT_DCE \<noteq> 0" "dce_pre J (set (all_refs snap snapmap))"
  shows "same_shape J (lj_opt_dce snap snapmap J) \<and> nop_chains (lj_opt_dce snap snapmap J) \<and>
    (\<forall>r. valid J r \<longrightarrow> r < REF_FIRST \<longrightarrow> IR (lj_opt_dce snap snapmap J) r = IR J r) \<and>
    (\<forall>r. REF_FIRST \<le> r \<longrightarrow> r < j_nins J \<longrightarrow> IR (lj_opt_dce snap snapmap J) r =
       (if ir_live J (set (all_refs snap snapmap)) r then (IR J r)\<lparr>ir_prev := ir_prev (IR (lj_opt_dce snap snapmap J) r)\<rparr>
        else lj_ir_nop (IR J r)))"
proof -
  define S where "S = set (all_refs snap snapmap)"
  define J' where "J' = lj_opt_dce snap snapmap J"
  have p: "dce_pre J S" and lt: "REF_BIAS < j_nins J" using assms(2) by (auto simp: S_def dce_pre_def buf_ok_def)
  have n: "j_nins (dce_marksnap snap snapmap J) = j_nins J" using dce_invD(1) [OF init_inv [OF p S_def]] by (simp add: same_shape_def)
  have "j_nins J - 1 < j_nins J" "REF_BIAS \<le> j_nins J - 1" using lt by auto
  then obtain pc where inv: "dce_inv J S pc J' REF_BIAS"
    using loop_inv [OF init_inv [OF p S_def] p] assms(1) unfolding J'_def lj_opt_dce_def dce_propagate_def n by auto
  note I = dce_invD [OF inv]
  show ?thesis unfolding S_def [symmetric] J'_def [symmetric]
  proof (intro conjI allI impI)
    show "same_shape J J'" "nop_chains J'" using I(1) final_chains [OF p inv] by auto
    show "IR J' r = IR J r" if "valid J r" "r < REF_FIRST" for r using I(2) that by simp
    show "IR J' r = (if ir_live J S r then (IR J r)\<lparr>ir_prev := ir_prev (IR J' r)\<rparr> else lj_ir_nop (IR J r))"
      if "REF_FIRST \<le> r" "r < j_nins J" for r by (rule I(4)) (use that in \<open>simp_all add: ref_codes\<close>)
  qed
qed

lemmas opt_flags = JIT_F_OPT_FOLD_def JIT_F_OPT_CSE_def JIT_F_OPT_DCE_def JIT_F_OPT_FWD_def JIT_F_OPT_DSE_def JIT_F_OPT_NARROW_def
  JIT_F_OPT_LOOP_def JIT_F_OPT_ABC_def JIT_F_OPT_SINK_def JIT_F_OPT_FUSE_def

text \<open>
  A trace that loads a slot, adds it to itself and multiplies it with itself. Its one snapshot needs the product only.
\<close>

definition dce_trace :: jit_State where
  "dce_trace = \<lparr>irbuf = replicate 5 (je_junk jenv0) @ [kpri0 IRT_TRUE, kpri0 IRT_FALSE, kpri0 IRT_NIL,
       \<lparr>ir_op12 = 0, ir_t = IRT_P32, ir_o = IR_BASE, ir_prev = 0\<rparr>, \<lparr>ir_op12 = 1, ir_t = IRT_INT, ir_o = IR_SLOAD, ir_prev = 0\<rparr>,
       \<lparr>ir_op12 = 0x80018001, ir_t = IRT_INT, ir_o = IR_ADD, ir_prev = 0\<rparr>, \<lparr>ir_op12 = 0x80018001, ir_t = IRT_INT, ir_o = IR_MUL, ir_prev = 0\<rparr>] @ replicate 20 (je_junk jenv0),
     irbotlim = 32760, irtoplim = 32792, j_nins = 32772, j_nk = 32765,
     j_chain = (\<lambda>op. 0)(IR_BASE := 0x8000, IR_SLOAD := 0x8001, IR_ADD := 0x8002, IR_MUL := 0x8003), j_k64 = [],
     j_flags = JIT_F_OPT_DEFAULT, guardemit = 0, fold_ins = kpri0 0, fold_left = kpri0 0, fold_right = kpri0 0\<rparr>"

definition dce_snap :: SnapShot where
  "dce_snap = \<lparr>sn_mapofs = 0, sn_ref = 0x8004, sn_nslots = 2, sn_topslot = 2, sn_nent = 1, sn_count = 0\<rparr>"

lemma dce_trace_IR: "IR dce_trace 32765 = kpri0 IRT_TRUE" "IR dce_trace 32766 = kpri0 IRT_FALSE"
  "IR dce_trace 32767 = kpri0 IRT_NIL" "IR dce_trace 32768 = \<lparr>ir_op12 = 0, ir_t = IRT_P32, ir_o = IR_BASE, ir_prev = 0\<rparr>"
  "IR dce_trace 32769 = \<lparr>ir_op12 = 1, ir_t = IRT_INT, ir_o = IR_SLOAD, ir_prev = 0\<rparr>"
  "IR dce_trace 32770 = \<lparr>ir_op12 = 0x80018001, ir_t = IRT_INT, ir_o = IR_ADD, ir_prev = 0\<rparr>"
  "IR dce_trace 32771 = \<lparr>ir_op12 = 0x80018001, ir_t = IRT_INT, ir_o = IR_MUL, ir_prev = 0\<rparr>"
  by (simp_all add: IR_def dce_trace_def nth_append nth_Cons')

lemma dce_trace_valid: "valid dce_trace r \<longleftrightarrow> r \<in> {32765, 32766, 32767, 32768, 32769, 32770, 32771}" "REF_FIRST \<le> r \<and> r < j_nins dce_trace \<longleftrightarrow> r \<in> {32769, 32770, 32771}"
  by (auto simp: valid_def dce_trace_def ref_codes)

lemma dce_trace_pre: "dce_pre dce_trace {32771}"
proof -
  have c: "chain_refs dce_trace op = (if op = IR_BASE then [32768] else if op = IR_SLOAD then [32769] else if op = IR_ADD then [32770] else if op = IR_MUL then [32771] else [])" for op
    using dce_trace_IR by (simp add: chain_refs_def ref_codes dce_trace_def [of] kop_def ir_codes upt_conv_Cons)
  have "nop_chains dce_trace" using dce_trace_IR by (simp add: nop_chains_def c) (simp add: dce_trace_def ir_codes)
  moreover have "ir_placed dce_trace" using dce_trace_IR by (auto simp: ir_placed_def ref_codes kpri0_def kop_def kdata_def ir_codes dce_trace_valid)
  moreover have "buf_ok dce_trace" "32771 < j_nins dce_trace" by (simp_all add: buf_ok_def dce_trace_def ref_codes)
  moreover have "\<not> irt_ismarked (ir_t (IR dce_trace r)) \<and> unat (ir_op1 (IR dce_trace r)) < r \<and> unat (ir_op2 (IR dce_trace r)) < r"
    if "REF_FIRST \<le> r" "r < j_nins dce_trace" for r
    using that dce_trace_valid(2) [of r] dce_trace_IR by (auto simp: irt_ismarked_def IRT_MARK_def irt_codes ir_op1_def ir_op2_def)
  ultimately show ?thesis by (simp add: dce_pre_def)
qed

lemma dce_trace_live: "ir_live dce_trace {32771} 32771" "\<not> ir_live dce_trace {32771} 32770"
proof -
  show "ir_live dce_trace {32771} 32771" by (rule live_snap) simp
  have "unat (ir_op1 (IR dce_trace r)) \<noteq> 32770 \<and> unat (ir_op2 (IR dce_trace r)) \<noteq> 32770" if "ir_live dce_trace {32771} r" "REF_FIRST \<le> r" for r
    using live_bound [OF that(1) dce_trace_pre] that(2) dce_trace_valid(2) [of r] dce_trace_IR by (auto simp: ir_op1_def ir_op2_def)
  moreover have "\<not> ir_sideeff (IR dce_trace 32770)" unfolding dce_trace_IR by code_simp
  ultimately show "\<not> ir_live dce_trace {32771} 32770" by (auto elim: ir_live.cases)
qed

text \<open>The product stays and the sum becomes a NOP.\<close>

theorem dce_exact_witness:
  "nop_chains (lj_opt_dce [dce_snap] [0x1008003] dce_trace) \<and> IR (lj_opt_dce [dce_snap] [0x1008003] dce_trace) 32770 = lj_ir_nop (IR dce_trace 32770) \<and>
   ir_op12 (IR (lj_opt_dce [dce_snap] [0x1008003] dce_trace) 32771) = 0x80018001 \<and> ir_o (IR (lj_opt_dce [dce_snap] [0x1008003] dce_trace) 32771) = IR_MUL"
proof -
  have S: "set (all_refs [dce_snap] [0x1008003]) = {32771}" by (simp add: all_refs_def snap_refs_def snap_ref_def dce_snap_def)
  have f: "j_flags dce_trace AND JIT_F_OPT_DCE \<noteq> 0" by (simp add: dce_trace_def JIT_F_OPT_DEFAULT_def JIT_F_OPT_3_def JIT_F_OPT_2_def JIT_F_OPT_1_def opt_flags)
  note D = dce_exact [OF f, of "[dce_snap]" "[0x1008003]", unfolded S, OF dce_trace_pre]
  have "IR (lj_opt_dce [dce_snap] [0x1008003] dce_trace) 32770 = lj_ir_nop (IR dce_trace 32770)"
    using D dce_trace_valid(2) [of 32770] dce_trace_live by auto
  moreover have "\<exists>x. IR (lj_opt_dce [dce_snap] [0x1008003] dce_trace) 32771 = (IR dce_trace 32771)\<lparr>ir_prev := x\<rparr>"
    by (rule exI, rule D [THEN conjunct2, THEN conjunct2, THEN conjunct2, rule_format, of 32771, unfolded if_P [OF dce_trace_live(1)]])
      (simp_all add: dce_trace_def ref_codes)
  ultimately show ?thesis using D dce_trace_IR(7) by auto
qed

end
