(* ===== verification/LJ_GC.thy ===== *)
theory LJ_GC
  imports LJ_Tab LJ_IR
begin

text \<open>
  The incremental mark and sweep garbage collector (\<open>lj_gc.c\<close>, \<open>lj_gc.h\<close>), with what it calls of
  \<open>lj_func.c\<close>, \<open>lj_state.c\<close>, \<open>lj_meta.c\<close> and \<open>lj_frame.h\<close>. Memory is a map from addresses to objects. The lists that
  the code threads through \<open>nextgc\<close> (all objects, string chains, open upvalues of a thread, userdata to
  be finalised) and through \<open>gclist\<close> (gray objects) are lists of addresses; an object is on at most one
  list of each kind. A pointer to a link, as the sweep position, is \<open>None\<close> for the anchor of the list
  or the object whose \<open>nextgc\<close> field it points to. Pointers into a stack are indices. The FFI library
  is not loaded (\<open>ctype_ctsG(g)\<close> is \<open>NULL\<close>). Address 0 is \<open>NULL\<close>; the code never follows a wild
  pointer when the invariants of the heap hold, and the model does nothing then.
\<close>

section \<open>Objects\<close>

text \<open>Where the value of an upvalue is: in itself, or in a slot of the stack of a thread.\<close>

datatype uvloc = UvClosed TValue | UvOpen u32 nat

record lua_State =
  th_base :: nat
  th_top :: nat
  th_maxstack :: nat
  th_stack :: "TValue list"
  th_openupval :: "u32 list"
  th_env :: u32

record ptobj =
  p_framesize :: u8
  p_chunkname :: u32
  p_kgc :: "u32 list"
  p_trace :: u16
  p_sizept :: u32

text \<open>The upvalues of a Lua function with its prototype, or those of a C function.\<close>

datatype fnbody = FnL u32 "u32 list" | FnC "TValue list"

text \<open>\<open>tr_k\<close> are the constants, \<open>ir[nk..REF_TRUE)\<close>.\<close>

record trobj =
  tr_traceno :: u16
  tr_k :: "IRIns list"
  tr_link :: u16
  tr_nextroot :: u16
  tr_nextside :: u16
  tr_startpt :: u32
  tr_nins :: u32
  tr_nk :: u32
  tr_nsnap :: u16
  tr_nsnapmap :: u32

text \<open>
  Mark byte and contents; the mark byte of strings and tables is in their records. A table and a
  userdata have the address of their metatable, functions and userdata that of their environment.
\<close>

datatype GCobj =
    OStr GCstr
  | OUpval u8 uvloc
  | OThread u8 lua_State
  | OProto u8 ptobj
  | OFunc u8 u32 fnbody
  | OTrace u8 trobj
  | OCdata u8 u32
  | OTab u32 GCtab
  | OUdata u8 u32 u32 u32

fun gco_marked :: "GCobj \<Rightarrow> u8" where
  "gco_marked (OStr s) = str_marked s"
| "gco_marked (OUpval m l) = m"
| "gco_marked (OThread m th) = m"
| "gco_marked (OProto m pt) = m"
| "gco_marked (OFunc m env fn) = m"
| "gco_marked (OTrace m tr) = m"
| "gco_marked (OCdata m sz) = m"
| "gco_marked (OTab mt t) = t_marked t"
| "gco_marked (OUdata m mt env len) = m"

fun set_marked :: "u8 \<Rightarrow> GCobj \<Rightarrow> GCobj" where
  "set_marked x (OStr s) = OStr (s\<lparr>str_marked := x\<rparr>)"
| "set_marked x (OUpval m l) = OUpval x l"
| "set_marked x (OThread m th) = OThread x th"
| "set_marked x (OProto m pt) = OProto x pt"
| "set_marked x (OFunc m env fn) = OFunc x env fn"
| "set_marked x (OTrace m tr) = OTrace x tr"
| "set_marked x (OCdata m sz) = OCdata x sz"
| "set_marked x (OTab mt t) = OTab mt (t\<lparr>t_marked := x\<rparr>)"
| "set_marked x (OUdata m mt env len) = OUdata x mt env len"

section \<open>State\<close>

text \<open>
  \<open>G_code\<close> is the memory of bytecode, which the frames of a stack point into; \<open>G_trace\<close> the trace
  references of the JIT compiler and \<open>G_cur\<close> its current trace.
\<close>

record gcG =
  G_heap :: "u32 \<Rightarrow> GCobj option"
  G_total :: u32
  G_threshold :: u32
  G_white :: u8
  G_state :: GCphase
  G_sweepstr :: u32
  G_root :: "u32 list"
  G_sweep :: "u32 option"
  G_gray :: "u32 list"
  G_grayagain :: "u32 list"
  G_weak :: "u32 list"
  G_mmudata :: "u32 list"
  G_stepmul :: u32
  G_debt :: u32
  G_estimate :: u32
  G_pause :: u32
  G_strhash :: "u32 list list"
  G_strmask :: u32
  G_strnum :: u32
  G_strempty :: u32
  G_tmpbufsz :: u32
  G_mainth :: u32
  G_registrytv :: TValue
  G_uvhead :: "u32 list"
  G_gcroot :: "u32 list"
  G_jit_L :: u32
  G_trace :: "u16 \<Rightarrow> u32"
  G_freetrace :: u16
  G_cur :: trobj
  G_code :: "u32 \<Rightarrow> u32"

definition set_obj :: "u32 \<Rightarrow> GCobj \<Rightarrow> gcG \<Rightarrow> gcG" where
  "set_obj a ob g = g\<lparr>G_heap := (G_heap g)(a \<mapsto> ob)\<rparr>"

definition upd_marked :: "(u8 \<Rightarrow> u8) \<Rightarrow> u32 \<Rightarrow> gcG \<Rightarrow> gcG" where
  "upd_marked f a g = (case G_heap g a of None \<Rightarrow> g | Some ob \<Rightarrow> set_obj a (set_marked (f (gco_marked ob)) ob) g)"

section \<open>Colours\<close>

definition LJ_GC_FINALIZED :: u8 where "LJ_GC_FINALIZED = 0x08"
definition LJ_GC_WEAKKEY :: u8 where "LJ_GC_WEAKKEY = 0x08"
definition LJ_GC_WEAKVAL :: u8 where "LJ_GC_WEAKVAL = 0x10"
definition LJ_GC_FIXED :: u8 where "LJ_GC_FIXED = 0x20"
definition LJ_GC_SFIXED :: u8 where "LJ_GC_SFIXED = 0x40"
definition LJ_GC_COLORS :: u8 where "LJ_GC_COLORS = LJ_GC_WHITES OR LJ_GC_BLACK"
definition LJ_GC_WEAK :: u8 where "LJ_GC_WEAK = LJ_GC_WEAKKEY OR LJ_GC_WEAKVAL"

definition has_bits :: "u8 \<Rightarrow> gcG \<Rightarrow> u32 \<Rightarrow> bool" where
  "has_bits b g a \<longleftrightarrow> (case G_heap g a of None \<Rightarrow> False | Some ob \<Rightarrow> gco_marked ob AND b \<noteq> 0)"

definition iswhite :: "gcG \<Rightarrow> u32 \<Rightarrow> bool" where "iswhite = has_bits LJ_GC_WHITES"
definition isblack :: "gcG \<Rightarrow> u32 \<Rightarrow> bool" where "isblack = has_bits LJ_GC_BLACK"
definition isgray :: "gcG \<Rightarrow> u32 \<Rightarrow> bool" where
  "isgray g a \<longleftrightarrow> G_heap g a \<noteq> None \<and> \<not> has_bits (LJ_GC_BLACK OR LJ_GC_WHITES) g a"
definition tviswhite :: "gcG \<Rightarrow> TValue \<Rightarrow> bool" where "tviswhite g tv \<longleftrightarrow> tvisgcv tv \<and> iswhite g (gcrV tv)"
definition gc_otherwhite :: "gcG \<Rightarrow> u8" where "gc_otherwhite g = G_white g XOR LJ_GC_WHITES"
definition isdead :: "gcG \<Rightarrow> u32 \<Rightarrow> bool" where "isdead g = has_bits (gc_otherwhite g AND LJ_GC_WHITES) g"
definition gc_curwhite :: "gcG \<Rightarrow> u8" where "gc_curwhite g = G_white g AND LJ_GC_WHITES"
definition makewhite :: "gcG \<Rightarrow> u32 \<Rightarrow> gcG" where
  "makewhite g a = upd_marked (\<lambda>m. m AND NOT LJ_GC_COLORS OR gc_curwhite g) a g"
definition black2gray :: "u32 \<Rightarrow> gcG \<Rightarrow> gcG" where "black2gray = upd_marked (\<lambda>m. m AND NOT LJ_GC_BLACK)"
definition white2gray :: "u32 \<Rightarrow> gcG \<Rightarrow> gcG" where "white2gray = upd_marked (\<lambda>m. m AND NOT LJ_GC_WHITES)"
definition gray2black :: "u32 \<Rightarrow> gcG \<Rightarrow> gcG" where "gray2black = upd_marked (\<lambda>m. m OR LJ_GC_BLACK)"
definition markfinalized :: "u32 \<Rightarrow> gcG \<Rightarrow> gcG" where "markfinalized = upd_marked (\<lambda>m. m OR LJ_GC_FINALIZED)"
definition isfinalized :: "gcG \<Rightarrow> u32 \<Rightarrow> bool" where "isfinalized = has_bits LJ_GC_FINALIZED"

section \<open>Mark phase\<close>

text \<open>The slot of a stack an open upvalue points to, or its own value.\<close>

definition uvval :: "gcG \<Rightarrow> uvloc \<Rightarrow> TValue" where
  "uvval g l = (case l of UvClosed tv \<Rightarrow> tv
    | UvOpen th i \<Rightarrow> (case G_heap g th of Some (OThread m s) \<Rightarrow> (if i < length (th_stack s) then th_stack s ! i else mk_tv 0 LJ_TNIL) | _ \<Rightarrow> mk_tv 0 LJ_TNIL))"

definition push_gray :: "u32 \<Rightarrow> gcG \<Rightarrow> gcG" where "push_gray a g = g\<lparr>G_gray := a # G_gray g\<rparr>"

text \<open>
  \<open>gc_mark\<close> and \<open>gc_markobj\<close> in one function: the latter does nothing unless the object is white.
\<close>

function (sequential) gc_mark_if :: "bool \<Rightarrow> gcG \<Rightarrow> u32 \<Rightarrow> gcG" where
  "gc_mark_if always g a =
     (if \<not> always \<and> \<not> iswhite g a then g
      else case G_heap g a of
        None \<Rightarrow> g
      | Some ob \<Rightarrow>
          let g = white2gray a g in
          (case ob of
             OUdata m mt env len \<Rightarrow>
               let g = gray2black a g;
                   g = (if mt \<noteq> 0 then gc_mark_if False g mt else g)
               in gc_mark_if False g env
           | OUpval m l \<Rightarrow>
               let tv = uvval g l;
                   g = (if tvisgcv tv then gc_mark_if False g (gcrV tv) else g)
               in (case l of UvClosed tv \<Rightarrow> gray2black a g | UvOpen th i \<Rightarrow> g)
           | OStr s \<Rightarrow> g
           | OCdata m sz \<Rightarrow> g
           | _ \<Rightarrow> push_gray a g))"
  by pat_completeness auto

text \<open>Marking makes no object white, so the recursion ends.\<close>

definition whites :: "gcG \<Rightarrow> u32 set" where "whites g = {a. iswhite g a}"

lemma bits_upd: "has_bits b (upd_marked f x g) a \<longleftrightarrow> (if a = x then (case G_heap g x of None \<Rightarrow> False | Some ob \<Rightarrow> f (gco_marked ob) AND b \<noteq> 0) else has_bits b g a)"
proof -
  have "gco_marked (set_marked m ob) = m" for m ob by (cases ob) auto
  then show ?thesis by (simp add: has_bits_def upd_marked_def set_obj_def split: option.split)
qed

lemma white_bits: "((m :: u8) AND NOT LJ_GC_WHITES) AND LJ_GC_WHITES = 0" "(m OR LJ_GC_BLACK) AND LJ_GC_WHITES = m AND LJ_GC_WHITES"
proof -
  show "(m AND NOT LJ_GC_WHITES) AND LJ_GC_WHITES = 0" by (rule bit_word_eqI) (auto simp: bit_simps)
  have "LJ_GC_BLACK AND LJ_GC_WHITES = 0" by (simp add: LJ_GC_BLACK_def LJ_GC_WHITES_def)
  then show "(m OR LJ_GC_BLACK) AND LJ_GC_WHITES = m AND LJ_GC_WHITES" by (simp add: bit.conj_disj_distrib2)
qed

lemma whites_steps [simp]:
  "whites (white2gray a g) = whites g - {a}" "whites (gray2black a g) = whites g" "whites (push_gray a g) = whites g"
proof -
  show "whites (white2gray a g) = whites g - {a}" by (auto simp: whites_def iswhite_def white2gray_def bits_upd white_bits split: option.splits)
  show "whites (gray2black a g) = whites g" by (auto simp: whites_def iswhite_def gray2black_def bits_upd white_bits(2) split: option.splits) (auto simp: has_bits_def)
qed (simp add: whites_def iswhite_def has_bits_def push_gray_def)

lemma mark_shrinks: "gc_mark_if_dom (always, g, a) \<Longrightarrow> whites (gc_mark_if always g a) \<subseteq> whites g"
proof (induction rule: gc_mark_if.pinduct)
  case (1 always g a)
  show ?case
  proof (cases "(\<not> always \<and> \<not> iswhite g a) \<or> G_heap g a = None")
    case True
    then show ?thesis using 1(1) by (auto simp: gc_mark_if.psimps)
  next
    case False
    then obtain ob where ob: "G_heap g a = Some ob" "\<not> (\<not> always \<and> \<not> iswhite g a)" by auto
    show ?thesis
    proof (cases ob)
      case (OUdata m mt env len)
      show ?thesis using 1(1) 1(3) [OF ob(2,1) refl OUdata refl] 1(4) [OF ob(2,1) refl OUdata refl refl] ob OUdata
        by (cases "mt = 0") (simp_all add: gc_mark_if.psimps Let_def, blast+)
    next
      case (OUpval m l)
      show ?thesis using 1(1) 1(2) [OF ob(2,1) refl OUpval refl] ob OUpval
        by (auto simp: gc_mark_if.psimps Let_def split: uvloc.splits)
    qed (use 1(1) ob in \<open>auto simp: gc_mark_if.psimps Let_def\<close>)
  qed
qed

lemma mark_measure:
  assumes "A \<subseteq> whites g - {a}"
  shows "2 * card A < Suc (2 * card (whites g))" "iswhite g a \<Longrightarrow> card A < card (whites g)"
proof -
  have "card A \<le> card (whites g)" using assms by (intro card_mono) auto
  then show "2 * card A < Suc (2 * card (whites g))" by simp
  show "card A < card (whites g)" if "iswhite g a" by (rule psubset_card_mono) (use assms that in \<open>auto simp: whites_def\<close>)
qed

termination gc_mark_if
proof (relation "measure (\<lambda>(always, g, a). 2 * card (whites g) + (if always then 1 else 0))", goal_cases)
  case (4 always g a ob g1 m mt env len g2 g3)
  then have "whites g3 \<subseteq> whites g - {a}" by (auto dest!: mark_shrinks split: if_splits)
  note m = mark_measure [OF this]
  show ?case using m 4 by (auto split: if_splits)
qed (auto intro: mark_measure split: if_splits)

declare gc_mark_if.simps [simp del]

definition gc_mark :: "gcG \<Rightarrow> u32 \<Rightarrow> gcG" where "gc_mark = gc_mark_if True"
definition gc_markobj :: "gcG \<Rightarrow> u32 \<Rightarrow> gcG" where "gc_markobj = gc_mark_if False"
definition gc_marktv :: "gcG \<Rightarrow> TValue \<Rightarrow> gcG" where "gc_marktv g tv = (if tvisgcv tv then gc_markobj g (gcrV tv) else g)"
definition gc_mark_str :: "u32 \<Rightarrow> gcG \<Rightarrow> gcG" where "gc_mark_str = white2gray"

definition markobjs :: "u32 list \<Rightarrow> gcG \<Rightarrow> gcG" where "markobjs rs g = fold (\<lambda>a g. gc_markobj g a) rs g"
definition marktvs :: "TValue list \<Rightarrow> gcG \<Rightarrow> gcG" where "marktvs tvs g = fold (\<lambda>tv g. gc_marktv g tv) tvs g"

definition gc_mark_gcroot :: "gcG \<Rightarrow> gcG" where
  "gc_mark_gcroot g = markobjs (filter (\<lambda>r. r \<noteq> 0) (G_gcroot g)) g"

definition thread_env :: "gcG \<Rightarrow> u32 \<Rightarrow> u32" where
  "thread_env g a = (case G_heap g a of Some (OThread m s) \<Rightarrow> th_env s | _ \<Rightarrow> 0)"

definition gc_mark_start :: "gcG \<Rightarrow> gcG" where
  "gc_mark_start g =
     (let g = g\<lparr>G_gray := [], G_grayagain := [], G_weak := []\<rparr>;
          g = gc_markobj g (G_mainth g);
          g = gc_markobj g (thread_env g (G_mainth g));
          g = gc_marktv g (G_registrytv g);
          g = gc_mark_gcroot g
      in g\<lparr>G_state := GCSpropagate\<rparr>)"

definition mark_uv1 :: "u32 \<Rightarrow> gcG \<Rightarrow> gcG" where
  "mark_uv1 u g =
     (case G_heap g u of Some (OUpval m l) \<Rightarrow> (if isgray g u then gc_marktv g (uvval g l) else g) | _ \<Rightarrow> g)"

definition gc_mark_uv :: "gcG \<Rightarrow> gcG" where "gc_mark_uv g = fold mark_uv1 (G_uvhead g) g"

definition gc_mark_mmudata :: "gcG \<Rightarrow> gcG" where
  "gc_mark_mmudata g = fold (\<lambda>u g. gc_mark (makewhite g u) u) (G_mmudata g) g"

section \<open>Metamethods of tables\<close>

text \<open>Table lookup needs the hashes of strings only.\<close>

definition gc_tabenv :: "gcG \<Rightarrow> tabenv" where
  "gc_tabenv g = \<lparr>e_alloc = (\<lambda>os ns. False), e_strhash = (\<lambda>a. case G_heap g a of Some (OStr s) \<Rightarrow> str_hash s | _ \<Rightarrow> 0),
     e_junk = \<lparr>n_val = 0, n_key = 0, n_next = None\<rparr>, e_white = gc_curwhite g\<rparr>"

definition mmname_str :: "gcG \<Rightarrow> MMS \<Rightarrow> u32" where "mmname_str g mm = G_gcroot g ! unat (mm_num mm)"

definition lj_meta_cache :: "gcG \<Rightarrow> u32 \<Rightarrow> MMS \<Rightarrow> (TValue option \<times> gcG) option" where
  "lj_meta_cache g mt mm =
     (case G_heap g mt of
        Some (OTab m t) \<Rightarrow>
          (case lj_tab_getstr (gc_tabenv g) t (mmname_str g mm) of
             None \<Rightarrow> None
           | Some r \<Rightarrow>
               (case map_option (slot_get t) r of
                  None \<Rightarrow> Some (None, set_obj mt (OTab m (t\<lparr>t_nomm := t_nomm t OR push_bit (unat (mm_num mm)) 1\<rparr>)) g)
                | Some mo \<Rightarrow>
                    if tvisnil mo then Some (None, set_obj mt (OTab m (t\<lparr>t_nomm := t_nomm t OR push_bit (unat (mm_num mm)) 1\<rparr>)) g)
                    else Some (Some mo, g)))
      | _ \<Rightarrow> None)"

definition lj_meta_fastg :: "gcG \<Rightarrow> u32 \<Rightarrow> MMS \<Rightarrow> (TValue option \<times> gcG) option" where
  "lj_meta_fastg g mt mm =
     (if mt = 0 then Some (None, g)
      else case G_heap g mt of
        Some (OTab m t) \<Rightarrow>
          if t_nomm t AND push_bit (unat (mm_num mm)) 1 \<noteq> 0 then Some (None, g) else lj_meta_cache g mt mm
      | _ \<Rightarrow> None)"

section \<open>Userdata to be finalised\<close>

definition sizeof_GCudata :: u64 where "sizeof_GCudata = 24"

text \<open>The loop over the userdata list: the ones that stay, and the size of those that are moved.\<close>

fun separate_loop :: "bool \<Rightarrow> u32 list \<Rightarrow> gcG \<Rightarrow> (u64 \<times> u32 list \<times> gcG) option" where
  "separate_loop all [] g = Some (0, [], g)"
| "separate_loop all (a # as) g =
     (let keep = (\<lambda>g. map_option (\<lambda>(m, us, g). (m, a # us, g)) (separate_loop all as g)) in
      case G_heap g a of
        Some (OUdata m mt env len) \<Rightarrow>
          if \<not> (iswhite g a \<or> all) \<or> isfinalized g a then keep g
          else (case lj_meta_fastg g mt MM_gc of
                  None \<Rightarrow> None
                | Some (None, g) \<Rightarrow> keep (markfinalized a g)
                | Some (Some mo, g) \<Rightarrow>
                    map_option (\<lambda>(m, us, g). (sizeof_GCudata + ucast len + m, us, g))
                      (separate_loop all as ((markfinalized a g)\<lparr>G_mmudata := G_mmudata g @ [a]\<rparr>)))
      | _ \<Rightarrow> keep g)"

definition lj_gc_separateudata :: "gcG \<Rightarrow> bool \<Rightarrow> (u64 \<times> gcG) option" where
  "lj_gc_separateudata g all =
     map_option (\<lambda>(m, us, g'). (m, g'\<lparr>G_root := takeWhile (\<lambda>a. a \<noteq> G_mainth g) (G_root g) @ G_mainth g # us\<rparr>))
       (separate_loop all (tl (dropWhile (\<lambda>a. a \<noteq> G_mainth g) (G_root g))) g)"

section \<open>Propagation phase\<close>

text \<open>The letters of a \<open>__mode\<close> string.\<close>

definition mode_bits :: "gcG \<Rightarrow> TValue option \<Rightarrow> u8" where
  "mode_bits g mode =
     (case mode of None \<Rightarrow> 0
      | Some tv \<Rightarrow>
          if tvisstr tv then
            (case G_heap g (gcrV tv) of
               Some (OStr s) \<Rightarrow>
                 fold (\<lambda>c w. if c = 107 then w OR LJ_GC_WEAKKEY else if c = 118 then w OR LJ_GC_WEAKVAL else w)
                   (takeWhile (\<lambda>c. c \<noteq> 0) (mem_bytes (strdata s) (unat (str_len s) + 1))) 0
             | _ \<Rightarrow> 0)
          else 0)"

definition mark_node :: "u8 \<Rightarrow> Node \<Rightarrow> gcG \<Rightarrow> gcG" where
  "mark_node weak n g =
     (if tvisnil (n_val n) then g
      else let g = (if weak AND LJ_GC_WEAKKEY = 0 then gc_marktv g (n_key n) else g)
           in if weak AND LJ_GC_WEAKVAL = 0 then gc_marktv g (n_val n) else g)"

definition array_vals :: "GCtab \<Rightarrow> TValue list" where "array_vals t = take (unat (t_asize t)) (t_array t)"
definition hash_nodes :: "GCtab \<Rightarrow> Node list" where "hash_nodes t = (if 0 < t_hmask t then take (unat (t_hmask t) + 1) (t_node t) else [])"

definition gc_traverse_tab :: "gcG \<Rightarrow> u32 \<Rightarrow> u32 \<Rightarrow> GCtab \<Rightarrow> (u8 \<times> gcG) option" where
  "gc_traverse_tab g a mt t =
     (let g = (if mt \<noteq> 0 then gc_markobj g mt else g) in
      case lj_meta_fastg g mt MM_mode of
        None \<Rightarrow> None
      | Some (mode, g) \<Rightarrow>
          let weak = mode_bits g mode;
              g = (if weak \<noteq> 0 then (upd_marked (\<lambda>m. m AND NOT LJ_GC_WEAK OR weak) a g)\<lparr>G_weak := a # G_weak g\<rparr> else g)
          in if weak = LJ_GC_WEAK then Some (weak, g)
             else let g = (if weak AND LJ_GC_WEAKVAL = 0 then marktvs (array_vals t) g else g)
                  in Some (weak, fold (mark_node weak) (hash_nodes t) g))"

definition gc_traverse_func :: "gcG \<Rightarrow> u32 \<Rightarrow> fnbody \<Rightarrow> gcG" where
  "gc_traverse_func g env fn =
     (let g = gc_markobj g env in
      case fn of FnL pt uvs \<Rightarrow> markobjs uvs (gc_markobj g pt) | FnC ups \<Rightarrow> marktvs ups g)"

definition gc_marktrace :: "gcG \<Rightarrow> u16 \<Rightarrow> gcG" where
  "gc_marktrace g traceno =
     (let a = G_trace g traceno in if iswhite g a then push_gray a (white2gray a g) else g)"

definition gc_traverse_trace :: "gcG \<Rightarrow> trobj \<Rightarrow> gcG" where
  "gc_traverse_trace g T =
     (if tr_traceno T = 0 then g
      else let g = markobjs (map ir_op12 (filter (\<lambda>ir. ir_o ir = IR_KGC) (tr_k T))) g;
               g = (if tr_link T \<noteq> 0 then gc_marktrace g (tr_link T) else g);
               g = (if tr_nextroot T \<noteq> 0 then gc_marktrace g (tr_nextroot T) else g);
               g = (if tr_nextside T \<noteq> 0 then gc_marktrace g (tr_nextside T) else g)
           in gc_markobj g (tr_startpt T))"

definition gc_traverse_proto :: "gcG \<Rightarrow> ptobj \<Rightarrow> gcG" where
  "gc_traverse_proto g pt =
     (let g = markobjs (p_kgc pt) (gc_mark_str (p_chunkname pt) g)
      in if p_trace pt \<noteq> 0 then gc_marktrace g (p_trace pt) else g)"

section \<open>Threads\<close>

definition upd_thread :: "(lua_State \<Rightarrow> lua_State) \<Rightarrow> u32 \<Rightarrow> gcG \<Rightarrow> gcG" where
  "upd_thread f a g = (case G_heap g a of Some (OThread m s) \<Rightarrow> set_obj a (OThread m (f s)) g | _ \<Rightarrow> g)"

definition frame_islua :: "TValue \<Rightarrow> bool" where "frame_islua f \<longleftrightarrow> tv_hi f AND 3 = 0"

text \<open>The slot of the previous frame; a frame link is the bytecode address after the call, or a size in bytes.\<close>

definition frame_prev :: "gcG \<Rightarrow> int \<Rightarrow> TValue \<Rightarrow> int" where
  "frame_prev g frame f =
     (if frame_islua f then frame - (1 + uint (bc_a (G_code g (tv_hi f - 4))))
      else frame - sint (tv_hi f AND NOT 7) div 8)"

definition framesize_of :: "gcG \<Rightarrow> u32 \<Rightarrow> int" where
  "framesize_of g fn =
     (case G_heap g fn of
        Some (OFunc m env (FnL pt uvs)) \<Rightarrow> (case G_heap g pt of Some (OProto m p) \<Rightarrow> uint (p_framesize p) | _ \<Rightarrow> 0)
      | _ \<Rightarrow> 0)"

partial_function (option) frames_loop :: "TValue list \<Rightarrow> int \<Rightarrow> int \<Rightarrow> gcG \<Rightarrow> (int \<times> gcG) option" where
  [code]: "frames_loop stack frame tp g =
     (if 0 < frame then
        if nat frame < length stack then
          let f = stack ! nat frame; fn = tv_lo f;
              ftop = frame + framesize_of g fn
          in frames_loop stack (frame_prev g frame f) (max tp ftop) (gc_markobj g fn)
        else None
      else Some (tp, g))"

definition gc_traverse_frames :: "gcG \<Rightarrow> lua_State \<Rightarrow> (int \<times> gcG) option" where
  "gc_traverse_frames g s =
     map_option (\<lambda>(tp, g). (min (tp + 1) (int (th_maxstack s)), g))
       (frames_loop (th_stack s) (int (th_base s) - 1) (int (th_top s) - 1) g)"

definition LJ_STACK_EXTRA :: nat where "LJ_STACK_EXTRA = 5"
definition LJ_STACK_MIN :: nat where "LJ_STACK_MIN = 20"
definition LJ_STACK_MAX :: nat where "LJ_STACK_MAX = 65500"
definition LJ_STACK_START :: nat where "LJ_STACK_START = 2 * LJ_STACK_MIN"
definition LJ_STACK_MAXEX :: nat where "LJ_STACK_MAXEX = LJ_STACK_MAX + 1 + LJ_STACK_EXTRA"

text \<open>The allocator does not fail to shrink a block.\<close>

definition resizestack :: "u32 \<Rightarrow> nat \<Rightarrow> gcG \<Rightarrow> gcG" where
  "resizestack a n g =
     (case G_heap g a of
        Some (OThread m s) \<Rightarrow>
          let realsize = n + 1 + LJ_STACK_EXTRA;
              st = take realsize (th_stack s) @ replicate (realsize - length (th_stack s)) (mk_tv 0 LJ_TNIL)
          in (set_obj a (OThread m (s\<lparr>th_stack := st, th_maxstack := n\<rparr>)) g)
               \<lparr>G_total := G_total g - of_nat (length (th_stack s)) * sizeof_TValue + of_nat realsize * sizeof_TValue\<rparr>
      | _ \<Rightarrow> g)"

definition lj_state_shrinkstack :: "u32 \<Rightarrow> int \<Rightarrow> gcG \<Rightarrow> gcG" where
  "lj_state_shrinkstack a used g =
     (case G_heap g a of
        Some (OThread m s) \<Rightarrow>
          let stacksize = length (th_stack s) in
          if LJ_STACK_MAXEX < stacksize then g
          else if 4 * used < int stacksize \<and> 2 * (LJ_STACK_START + LJ_STACK_EXTRA) < stacksize \<and> a \<noteq> G_jit_L g then resizestack a (stacksize div 2) g
          else g
      | _ \<Rightarrow> g)"

definition clear_slots :: "lua_State \<Rightarrow> lua_State" where
  "clear_slots s = s\<lparr>th_stack := take (max 1 (th_top s)) (th_stack s) @ replicate (length (th_stack s) - max 1 (th_top s)) (mk_tv 0 LJ_TNIL)\<rparr>"

definition stack_vals :: "lua_State \<Rightarrow> TValue list" where "stack_vals s = drop 1 (take (th_top s) (th_stack s))"

definition gc_traverse_thread :: "gcG \<Rightarrow> u32 \<Rightarrow> lua_State \<Rightarrow> gcG option" where
  "gc_traverse_thread g a s =
     (let g = marktvs (stack_vals s) g;
          g = (if G_state g = GCSatomic then upd_thread clear_slots a g else g);
          g = gc_markobj g (th_env s)
      in map_option (\<lambda>(used, g). lj_state_shrinkstack a used g) (gc_traverse_frames g s))"

section \<open>Propagating\<close>

definition sizeof_lua_State :: u64 where "sizeof_lua_State = 64"
definition sizeLfunc :: "nat \<Rightarrow> u64" where "sizeLfunc n = 20 + 4 * of_nat n"
definition sizeCfunc :: "nat \<Rightarrow> u64" where "sizeCfunc n = 32 + 8 * of_nat n"
definition sizefunc :: "fnbody \<Rightarrow> u64" where
  "sizefunc fn = (case fn of FnL pt uvs \<Rightarrow> sizeLfunc (length uvs) | FnC ups \<Rightarrow> sizeCfunc (length ups))"
definition sizetrace :: "trobj \<Rightarrow> u64" where
  "sizetrace T = 96 + ucast (tr_nins T - tr_nk T) * 8 + ucast (tr_nsnap T) * 12 + ucast (tr_nsnapmap T) * 4"

definition propagatemark :: "gcG \<Rightarrow> (u64 \<times> gcG) option" where
  "propagatemark g =
     (case G_gray g of
        [] \<Rightarrow> None
      | a # as \<Rightarrow>
          let g = (gray2black a g)\<lparr>G_gray := as\<rparr> in
          (case G_heap g a of
             Some (OTab mt t) \<Rightarrow>
               map_option (\<lambda>(weak, g).
                   (ucast sizeof_GCtab + ucast sizeof_TValue * ucast (t_asize t) + (if t_hmask t \<noteq> 0 then ucast sizeof_Node * (ucast (t_hmask t) + 1) else 0),
                    if weak \<noteq> 0 then black2gray a g else g))
                 (gc_traverse_tab g a mt t)
           | Some (OFunc m env fn) \<Rightarrow> Some (sizefunc fn, gc_traverse_func g env fn)
           | Some (OProto m pt) \<Rightarrow> Some (ucast (p_sizept pt), gc_traverse_proto g pt)
           | Some (OThread m s) \<Rightarrow>
               map_option (\<lambda>g. (sizeof_lua_State + ucast sizeof_TValue * of_nat (case G_heap g a of Some (OThread m s) \<Rightarrow> length (th_stack s) | _ \<Rightarrow> 0), g))
                 (gc_traverse_thread (black2gray a (g\<lparr>G_grayagain := a # G_grayagain g\<rparr>)) a s)
           | Some (OTrace m T) \<Rightarrow> Some (sizetrace T, gc_traverse_trace g T)
           | _ \<Rightarrow> None))"

partial_function (option) propagate_loop :: "u64 \<Rightarrow> gcG \<Rightarrow> (u64 \<times> gcG) option" where
  [code]: "propagate_loop m g =
     (if G_gray g = [] then Some (m, g)
      else case propagatemark g of None \<Rightarrow> None | Some (m', g) \<Rightarrow> propagate_loop (m + m') g)"

definition gc_propagate_gray :: "gcG \<Rightarrow> (u64 \<times> gcG) option" where "gc_propagate_gray = propagate_loop 0"

section \<open>Weak tables\<close>

definition gc_mayclear :: "TValue \<Rightarrow> bool \<Rightarrow> gcG \<Rightarrow> bool \<times> gcG" where
  "gc_mayclear tv val g =
     (if tvisgcv tv then
        if tvisstr tv then (False, gc_mark_str (gcrV tv) g)
        else if iswhite g (gcrV tv) then (True, g)
        else (tvisudata tv \<and> val \<and> isfinalized g (gcrV tv), g)
      else (False, g))"

fun clear_array :: "TValue list \<Rightarrow> gcG \<Rightarrow> TValue list \<times> gcG" where
  "clear_array [] g = ([], g)"
| "clear_array (tv # tvs) g =
     (let (c, g) = gc_mayclear tv True g; (tvs, g) = clear_array tvs g
      in ((if c then mk_tv 0 LJ_TNIL else tv) # tvs, g))"

definition clearweak_node :: "Node \<Rightarrow> gcG \<Rightarrow> Node \<times> gcG" where
  "clearweak_node n g =
     (if tvisnil (n_val n) then (n, g)
      else let (c, g) = gc_mayclear (n_key n) False g in
           if c then (n\<lparr>n_val := mk_tv 0 LJ_TNIL\<rparr>, g)
           else let (c, g) = gc_mayclear (n_val n) True g
                in (if c then n\<lparr>n_val := mk_tv 0 LJ_TNIL\<rparr> else n, g))"

fun clear_nodes :: "Node list \<Rightarrow> gcG \<Rightarrow> Node list \<times> gcG" where
  "clear_nodes [] g = ([], g)"
| "clear_nodes (n # ns) g = (let (n, g) = clearweak_node n g; (ns, g) = clear_nodes ns g in (n # ns, g))"

definition upd_tab :: "(GCtab \<Rightarrow> GCtab) \<Rightarrow> u32 \<Rightarrow> gcG \<Rightarrow> gcG" where
  "upd_tab f a g = (case G_heap g a of Some (OTab mt t) \<Rightarrow> set_obj a (OTab mt (f t)) g | _ \<Rightarrow> g)"

definition clear_weak1 :: "u32 \<Rightarrow> gcG \<Rightarrow> gcG" where
  "clear_weak1 a g =
     (case G_heap g a of
        Some (OTab mt t) \<Rightarrow>
          let g = (if t_marked t AND LJ_GC_WEAKVAL \<noteq> 0 then
                     let (tvs, g) = clear_array (array_vals t) g
                     in upd_tab (\<lambda>t. t\<lparr>t_array := tvs @ drop (length tvs) (t_array t)\<rparr>) a g
                   else g);
              (ns, g) = clear_nodes (hash_nodes t) g
          in upd_tab (\<lambda>t. t\<lparr>t_node := ns @ drop (length ns) (t_node t)\<rparr>) a g
      | _ \<Rightarrow> g)"

definition gc_clearweak :: "gcG \<Rightarrow> gcG" where "gc_clearweak g = fold clear_weak1 (G_weak g) g"

section \<open>Atomic phase\<close>

definition atomic :: "gcG \<Rightarrow> u32 \<Rightarrow> gcG option" where
  "atomic g L =
     (case gc_propagate_gray (gc_mark_uv g) of None \<Rightarrow> None | Some (m, g) \<Rightarrow>
      let g = g\<lparr>G_gray := G_weak g, G_weak := []\<rparr>;
          g = gc_markobj g L;
          g = gc_traverse_trace g (G_cur g);
          g = gc_mark_gcroot g
      in case gc_propagate_gray g of None \<Rightarrow> None | Some (m, g) \<Rightarrow>
      (case gc_propagate_gray (g\<lparr>G_gray := G_grayagain g, G_grayagain := []\<rparr>) of None \<Rightarrow> None | Some (m, g) \<Rightarrow>
      (case lj_gc_separateudata g False of None \<Rightarrow> None | Some (udsize, g) \<Rightarrow>
      (case gc_propagate_gray (gc_mark_mmudata g) of None \<Rightarrow> None | Some (m, g) \<Rightarrow>
      let g = gc_clearweak g;
          g = g\<lparr>G_white := gc_otherwhite g\<rparr>;
          g = upd_marked (\<lambda>x. G_white g) (G_strempty g) g
      in Some (g\<lparr>G_sweep := None, G_estimate := G_total g - ucast (udsize + m)\<rparr>)))))"

section \<open>Write barriers\<close>

definition marking :: "gcG \<Rightarrow> bool" where "marking g \<longleftrightarrow> G_state g = GCSpropagate \<or> G_state g = GCSatomic"

definition lj_gc_barrierf :: "gcG \<Rightarrow> u32 \<Rightarrow> u32 \<Rightarrow> gcG" where
  "lj_gc_barrierf g a v = (if marking g then gc_mark g v else makewhite g a)"

text \<open>The upvalue is given by its address instead of the address of its value.\<close>

definition lj_gc_barrieruv :: "gcG \<Rightarrow> u32 \<Rightarrow> TValue \<Rightarrow> gcG" where
  "lj_gc_barrieruv g a tv = (if marking g then gc_mark g (gcrV tv) else makewhite g a)"

definition lj_gc_barrierback :: "gcG \<Rightarrow> u32 \<Rightarrow> gcG" where
  "lj_gc_barrierback g a = (black2gray a g)\<lparr>G_grayagain := a # G_grayagain g\<rparr>"

definition gc_anybarriert :: "gcG \<Rightarrow> u32 \<Rightarrow> gcG" where
  "gc_anybarriert g a = (if isblack g a then lj_gc_barrierback g a else g)"

definition lj_gc_barriert :: "gcG \<Rightarrow> u32 \<Rightarrow> TValue \<Rightarrow> gcG" where
  "lj_gc_barriert g a tv = (if tviswhite g tv \<and> isblack g a then lj_gc_barrierback g a else g)"

definition lj_gc_objbarriert :: "gcG \<Rightarrow> u32 \<Rightarrow> u32 \<Rightarrow> gcG" where
  "lj_gc_objbarriert g a v = (if iswhite g v \<and> isblack g a then lj_gc_barrierback g a else g)"

definition lj_gc_barrier :: "gcG \<Rightarrow> u32 \<Rightarrow> TValue \<Rightarrow> gcG" where
  "lj_gc_barrier g a tv = (if tviswhite g tv \<and> isblack g a then lj_gc_barrierf g a (gcrV tv) else g)"

definition lj_gc_objbarrier :: "gcG \<Rightarrow> u32 \<Rightarrow> u32 \<Rightarrow> gcG" where
  "lj_gc_objbarrier g a v = (if iswhite g v \<and> isblack g a then lj_gc_barrierf g a v else g)"

definition lj_gc_barriertrace :: "gcG \<Rightarrow> u16 \<Rightarrow> gcG" where
  "lj_gc_barriertrace g traceno = (if marking g then gc_marktrace g traceno else g)"

definition lj_gc_closeuv :: "gcG \<Rightarrow> u32 \<Rightarrow> gcG" where
  "lj_gc_closeuv g a =
     (case G_heap g a of
        Some (OUpval m l) \<Rightarrow>
          let tv = uvval g l;
              g = set_obj a (OUpval m (UvClosed tv)) g;
              g = g\<lparr>G_root := a # G_root g\<rparr>
          in if isgray g a then
               if marking g then
                 let g = gray2black a g in if tviswhite g tv then lj_gc_barrierf g a (gcrV tv) else g
               else makewhite g a
             else g
      | _ \<Rightarrow> g)"

section \<open>Freeing\<close>

definition gc_memfree :: "u32 \<Rightarrow> gcG \<Rightarrow> gcG" where "gc_memfree sz g = g\<lparr>G_total := G_total g - sz\<rparr>"
definition drop_obj :: "u32 \<Rightarrow> gcG \<Rightarrow> gcG" where "drop_obj a g = g\<lparr>G_heap := (G_heap g)(a := None)\<rparr>"

definition unlinkuv :: "u32 \<Rightarrow> gcG \<Rightarrow> gcG" where "unlinkuv a g = g\<lparr>G_uvhead := remove1 a (G_uvhead g)\<rparr>"

definition sizeof_GCupval :: u32 where "sizeof_GCupval = 24"

definition lj_func_freeuv :: "u32 \<Rightarrow> gcG \<Rightarrow> gcG" where
  "lj_func_freeuv a g =
     (case G_heap g a of
        Some (OUpval m (UvOpen th i)) \<Rightarrow> drop_obj a (gc_memfree sizeof_GCupval (unlinkuv a g))
      | _ \<Rightarrow> drop_obj a (gc_memfree sizeof_GCupval g))"

text \<open>The loop pops the head of the list of open upvalues, which is sorted from the top of the stack.\<close>

fun closeuv_loop :: "u32 \<Rightarrow> nat \<Rightarrow> u32 list \<Rightarrow> gcG \<Rightarrow> gcG" where
  "closeuv_loop L level [] g = g"
| "closeuv_loop L level (a # as) g =
     (case G_heap g a of
        Some (OUpval m (UvOpen th i)) \<Rightarrow>
          if level \<le> i then
            let g = upd_thread (\<lambda>s. s\<lparr>th_openupval := as\<rparr>) L g;
                g = (if isdead g a then lj_func_freeuv a g else lj_gc_closeuv (unlinkuv a g) a)
            in closeuv_loop L level as g
          else g
      | _ \<Rightarrow> g)"

definition openupvals :: "gcG \<Rightarrow> u32 \<Rightarrow> u32 list" where
  "openupvals g a = (case G_heap g a of Some (OThread m s) \<Rightarrow> th_openupval s | _ \<Rightarrow> [])"

definition lj_func_closeuv :: "u32 \<Rightarrow> nat \<Rightarrow> gcG \<Rightarrow> gcG" where
  "lj_func_closeuv L level g = closeuv_loop L level (openupvals g L) g"

definition lj_state_free :: "u32 \<Rightarrow> gcG \<Rightarrow> gcG" where
  "lj_state_free a g =
     (let g = lj_func_closeuv a 0 g in
      case G_heap g a of
        Some (OThread m s) \<Rightarrow> drop_obj a (gc_memfree (ucast sizeof_lua_State) (gc_memfree (of_nat (length (th_stack s)) * sizeof_TValue) g))
      | _ \<Rightarrow> g)"

definition lj_trace_free :: "u32 \<Rightarrow> trobj \<Rightarrow> gcG \<Rightarrow> gcG" where
  "lj_trace_free a T g =
     (let g = (if tr_traceno T \<noteq> 0 then
                 g\<lparr>G_freetrace := (if tr_traceno T < G_freetrace g then tr_traceno T else G_freetrace g),
                   G_trace := (G_trace g)(tr_traceno T := 0)\<rparr>
               else g)
      in drop_obj a (gc_memfree (ucast (sizetrace T)) g))"

text \<open>The function of the type of the object from \<open>gc_freefunc\<close>. C data here has no finaliser, and holds its size.\<close>

definition gc_free :: "u32 \<Rightarrow> gcG \<Rightarrow> gcG" where
  "gc_free a g =
     (case G_heap g a of
        None \<Rightarrow> g
      | Some (OStr s) \<Rightarrow> drop_obj a (gc_memfree (sizestring s) (g\<lparr>G_strnum := G_strnum g - 1\<rparr>))
      | Some (OUpval m l) \<Rightarrow> lj_func_freeuv a g
      | Some (OThread m s) \<Rightarrow> lj_state_free a g
      | Some (OProto m pt) \<Rightarrow> drop_obj a (gc_memfree (p_sizept pt) g)
      | Some (OFunc m env fn) \<Rightarrow> drop_obj a (gc_memfree (ucast (sizefunc fn)) g)
      | Some (OTrace m T) \<Rightarrow> lj_trace_free a T g
      | Some (OCdata m sz) \<Rightarrow> drop_obj a (gc_memfree sz g)
      | Some (OTab mt t) \<Rightarrow> drop_obj a (g\<lparr>G_total := lj_tab_free (t\<lparr>g_total := G_total g\<rparr>)\<rparr>)
      | Some (OUdata m mt env len) \<Rightarrow> drop_obj a (gc_memfree (ucast sizeof_GCudata + len) g))"

section \<open>Sweep phase\<close>

text \<open>The list that a sweep works on: all objects, a string chain, or the open upvalues of a thread.\<close>

datatype gclist = LRoot | LStr nat | LUv u32

definition list_of :: "gclist \<Rightarrow> gcG \<Rightarrow> u32 list" where
  "list_of l g = (case l of LRoot \<Rightarrow> G_root g | LStr i \<Rightarrow> G_strhash g ! i | LUv th \<Rightarrow> openupvals g th)"

definition unlink :: "gclist \<Rightarrow> u32 \<Rightarrow> gcG \<Rightarrow> gcG" where
  "unlink l a g =
     (case l of
        LRoot \<Rightarrow> g\<lparr>G_root := remove1 a (G_root g)\<rparr>
      | LStr i \<Rightarrow> g\<lparr>G_strhash := (G_strhash g)[i := remove1 a (G_strhash g ! i)]\<rparr>
      | LUv th \<Rightarrow> upd_thread (\<lambda>s. s\<lparr>th_openupval := remove1 a (th_openupval s)\<rparr>) th g)"

text \<open>The objects after a link.\<close>

definition from_link :: "u32 option \<Rightarrow> u32 list \<Rightarrow> u32 list" where
  "from_link p xs = (case p of None \<Rightarrow> xs | Some a \<Rightarrow> tl (dropWhile (\<lambda>x. x \<noteq> a) xs))"

definition is_thread :: "gcG \<Rightarrow> u32 \<Rightarrow> bool" where
  "is_thread g a \<longleftrightarrow> (case G_heap g a of Some (OThread m s) \<Rightarrow> True | _ \<Rightarrow> False)"

definition marked_at :: "gcG \<Rightarrow> u32 \<Rightarrow> u8" where
  "marked_at g a = (case G_heap g a of None \<Rightarrow> 0 | Some ob \<Rightarrow> gco_marked ob)"

text \<open>
  The sweep of a list, given the sweep of the open upvalues of a thread. The latter is the sweep of a
  list without threads.
\<close>

primrec sweep_with :: "(u32 \<Rightarrow> gcG \<Rightarrow> gcG) \<Rightarrow> gclist \<Rightarrow> u8 \<Rightarrow> u32 option \<Rightarrow> nat \<Rightarrow> gcG \<Rightarrow> u32 option \<times> gcG" where
  "sweep_with su l ow p 0 g = (p, g)"
| "sweep_with su l ow p (Suc lim) g =
     (case from_link p (list_of l g) of
        [] \<Rightarrow> (p, g)
      | a # as \<Rightarrow>
          let g = (if is_thread g a then su a g else g) in
          if (marked_at g a XOR LJ_GC_WHITES) AND ow \<noteq> 0 then sweep_with su l ow (Some a) lim (makewhite g a)
          else sweep_with su l ow p lim (gc_free a (unlink l a g)))"

definition sweep_uv :: "u32 \<Rightarrow> gcG \<Rightarrow> gcG" where
  "sweep_uv th g = snd (sweep_with (\<lambda>a g. g) (LUv th) (gc_otherwhite g) None LJ_MAX_MEM g)"

definition gc_sweep :: "gcG \<Rightarrow> gclist \<Rightarrow> u32 option \<Rightarrow> nat \<Rightarrow> u32 option \<times> gcG" where
  "gc_sweep g l p lim = sweep_with sweep_uv l (gc_otherwhite g) p lim g"

definition gc_fullsweep :: "gcG \<Rightarrow> gclist \<Rightarrow> gcG" where
  "gc_fullsweep g l = snd (gc_sweep g l None LJ_MAX_MEM)"

definition lj_gc_freeall :: "gcG \<Rightarrow> gcG" where
  "lj_gc_freeall g =
     (let g = gc_fullsweep (g\<lparr>G_white := LJ_GC_WHITES OR LJ_GC_SFIXED\<rparr>) LRoot
      in fold (\<lambda>i g. gc_fullsweep g (LStr i)) (rev [0..<unat (G_strmask g) + 1]) g)"

section \<open>Collector\<close>

text \<open>
  The allocator, and a call of a finaliser: it runs Lua code, and returns an error code (0 for success)
  and the state it leaves.
\<close>

record gcenv =
  ge_alloc :: "gcG \<Rightarrow> u32 \<Rightarrow> u32 option"
  ge_call :: "gcG \<Rightarrow> u32 \<Rightarrow> TValue \<Rightarrow> u32 \<Rightarrow> u32 \<times> gcG"

datatype gc_err = ErrMem lj_err | ErrCall u32

type_synonym 'a gres = "((gc_err + 'a) \<times> gcG) option"

definition str_view :: "gcG \<Rightarrow> gstate" where
  "str_view g = \<lparr>gheap = (\<lambda>a. case G_heap g a of Some (OStr s) \<Rightarrow> Some s | _ \<Rightarrow> None), strhash = G_strhash g, strmask = G_strmask g,
     strnum = G_strnum g, gc_total = G_total g, gc_state = G_state g, gc_currentwhite = G_white g, strempty = G_strempty g\<rparr>"

definition LJ_MIN_STRTAB :: u32 where "LJ_MIN_STRTAB = 256"

definition shrink_tmpbuf :: "gcG \<Rightarrow> gcG" where
  "shrink_tmpbuf g =
     (if LJ_MIN_SBUF * 2 < G_tmpbufsz g then
        g\<lparr>G_total := G_total g - G_tmpbufsz g + drop_bit 1 (G_tmpbufsz g), G_tmpbufsz := drop_bit 1 (G_tmpbufsz g)\<rparr>
      else g)"

definition gc_shrink :: "gcenv \<Rightarrow> gcG \<Rightarrow> (gc_err + unit) \<times> gcG" where
  "gc_shrink e g =
     (if G_strnum g \<le> drop_bit 2 (G_strmask g) \<and> LJ_MIN_STRTAB * 2 - 1 < G_strmask g then
        (case lj_str_resize (\<lambda>sg sz. ge_alloc e g sz) (str_view g) (drop_bit 1 (G_strmask g)) of
           (r, sg) \<Rightarrow>
             let g = g\<lparr>G_strhash := strhash sg, G_strmask := strmask sg, G_total := gc_total sg\<rparr>
             in case r of Inl er \<Rightarrow> (Inl (ErrMem er), g) | Inr u \<Rightarrow> (Inr (), shrink_tmpbuf g))
      else (Inr (), shrink_tmpbuf g))"

definition gc_call_finalizer :: "gcenv \<Rightarrow> gcG \<Rightarrow> u32 \<Rightarrow> TValue \<Rightarrow> u32 \<Rightarrow> (gc_err + unit) \<times> gcG" where
  "gc_call_finalizer e g L mo a =
     (let oldt = G_threshold g;
          (errcode, g) = ge_call e (g\<lparr>G_threshold := of_nat LJ_MAX_MEM\<rparr>) L mo a;
          g = g\<lparr>G_threshold := oldt\<rparr>
      in if errcode \<noteq> 0 then (Inl (ErrCall errcode), g) else (Inr (), g))"

definition insert_after :: "u32 \<Rightarrow> u32 \<Rightarrow> u32 list \<Rightarrow> u32 list" where
  "insert_after x a xs = takeWhile (\<lambda>y. y \<noteq> x) xs @ x # a # tl (dropWhile (\<lambda>y. y \<noteq> x) xs)"

definition gc_finalize :: "gcenv \<Rightarrow> gcG \<Rightarrow> u32 \<Rightarrow> unit gres" where
  "gc_finalize e g L =
     (case G_mmudata g of
        [] \<Rightarrow> None
      | a # us \<Rightarrow>
          let g = g\<lparr>G_mmudata := us, G_root := insert_after (G_mainth g) a (G_root g)\<rparr>;
              g = makewhite g a
          in case G_heap g a of
               Some (OUdata m mt env len) \<Rightarrow>
                 (case lj_meta_fastg g mt MM_gc of
                    None \<Rightarrow> None
                  | Some (None, g) \<Rightarrow> Some (Inr (), g)
                  | Some (Some mo, g) \<Rightarrow> Some (gc_call_finalizer e g L mo a))
             | _ \<Rightarrow> None)"

definition GCSWEEPMAX :: nat where "GCSWEEPMAX = 40"
definition GCSWEEPCOST :: u64 where "GCSWEEPCOST = 10"
definition GCFINALIZECOST :: u32 where "GCFINALIZECOST = 100"
definition GCSTEPSIZE :: u32 where "GCSTEPSIZE = 1024"

definition step_sweep :: "gcenv \<Rightarrow> gcG \<Rightarrow> (gc_err + u64) \<times> gcG" where
  "step_sweep e g =
     (let old = G_total g;
          (p, g) = gc_sweep g LRoot (G_sweep g) GCSWEEPMAX;
          g = g\<lparr>G_sweep := p, G_estimate := G_estimate g - (old - G_total g)\<rparr>
      in if from_link p (G_root g) = [] then
           (case gc_shrink e g of
              (Inl er, g) \<Rightarrow> (Inl er, g)
            | (Inr u, g) \<Rightarrow>
                (Inr (of_nat GCSWEEPMAX * GCSWEEPCOST),
                 if G_mmudata g \<noteq> [] then g\<lparr>G_state := GCSfinalize\<rparr> else g\<lparr>G_state := GCSpause, G_debt := 0\<rparr>))
         else (Inr (of_nat GCSWEEPMAX * GCSWEEPCOST), g))"

definition step_sweepstring :: "gcG \<Rightarrow> gcG" where
  "step_sweepstring g =
     (let old = G_total g;
          i = G_sweepstr g;
          g = gc_fullsweep (g\<lparr>G_sweepstr := i + 1\<rparr>) (LStr (unat i));
          g = (if G_strmask g < G_sweepstr g then g\<lparr>G_state := GCSsweep\<rparr> else g)
      in g\<lparr>G_estimate := G_estimate g - (old - G_total g)\<rparr>)"

definition gc_onestep :: "gcenv \<Rightarrow> gcG \<Rightarrow> u32 \<Rightarrow> u64 gres" where
  "gc_onestep e g L =
     (case G_state g of
        GCSpause \<Rightarrow> Some (Inr 0, gc_mark_start g)
      | GCSpropagate \<Rightarrow>
          if G_gray g \<noteq> [] then map_option (\<lambda>(m, g). (Inr m, g)) (propagatemark g)
          else Some (Inr 0, g\<lparr>G_state := GCSatomic\<rparr>)
      | GCSatomic \<Rightarrow>
          if G_jit_L g \<noteq> 0 then Some (Inr (of_nat LJ_MAX_MEM), g)
          else map_option (\<lambda>g. (Inr 0, g\<lparr>G_state := GCSsweepstring, G_sweepstr := 0\<rparr>)) (atomic g L)
      | GCSsweepstring \<Rightarrow> Some (Inr GCSWEEPCOST, step_sweepstring g)
      | GCSsweep \<Rightarrow> Some (step_sweep e g)
      | GCSfinalize \<Rightarrow>
          if G_mmudata g \<noteq> [] then
            if G_jit_L g \<noteq> 0 then Some (Inr (of_nat LJ_MAX_MEM), g)
            else (case gc_finalize e g L of
                    None \<Rightarrow> None
                  | Some (Inl er, g) \<Rightarrow> Some (Inl er, g)
                  | Some (Inr u, g) \<Rightarrow>
                      Some (Inr (ucast GCFINALIZECOST),
                        if GCFINALIZECOST < G_estimate g then g\<lparr>G_estimate := G_estimate g - GCFINALIZECOST\<rparr> else g))
          else Some (Inr 0, g\<lparr>G_state := GCSpause, G_debt := 0\<rparr>))"

partial_function (option) step_loop :: "gcenv \<Rightarrow> u32 \<Rightarrow> u32 \<Rightarrow> gcG \<Rightarrow> int gres" where
  [code]: "step_loop e L lim g =
     (case gc_onestep e g L of
        None \<Rightarrow> None
      | Some (Inl er, g) \<Rightarrow> Some (Inl er, g)
      | Some (Inr c, g) \<Rightarrow>
          let lim = lim - ucast c in
          if G_state g = GCSpause then Some (Inr 1, g\<lparr>G_threshold := (G_estimate g div 100) * G_pause g\<rparr>)
          else if 0 < sint lim then step_loop e L lim g
          else if G_debt g < GCSTEPSIZE then Some (Inr (-1), g\<lparr>G_threshold := G_total g + GCSTEPSIZE\<rparr>)
          else Some (Inr 0, g\<lparr>G_debt := G_debt g - GCSTEPSIZE, G_threshold := G_total g\<rparr>))"

definition lj_gc_step :: "gcenv \<Rightarrow> gcG \<Rightarrow> u32 \<Rightarrow> int gres" where
  "lj_gc_step e g L =
     (let lim = GCSTEPSIZE div 100 * G_stepmul g;
          lim = (if lim = 0 then of_nat LJ_MAX_MEM else lim);
          g = (if G_threshold g < G_total g then g\<lparr>G_debt := G_debt g + (G_total g - G_threshold g)\<rparr> else g)
      in step_loop e L lim g)"

partial_function (option) run_until :: "(GCphase \<Rightarrow> bool) \<Rightarrow> gcenv \<Rightarrow> u32 \<Rightarrow> gcG \<Rightarrow> unit gres" where
  [code]: "run_until stop e L g =
     (if stop (G_state g) then Some (Inr (), g)
      else case gc_onestep e g L of
        None \<Rightarrow> None
      | Some (Inl er, g) \<Rightarrow> Some (Inl er, g)
      | Some (Inr c, g) \<Rightarrow> run_until stop e L g)"

definition lj_gc_fullgc :: "gcenv \<Rightarrow> gcG \<Rightarrow> u32 \<Rightarrow> unit gres" where
  "lj_gc_fullgc e g L =
     (let g = (if G_state g = GCSpause \<or> marking g then
                 g\<lparr>G_sweep := None, G_gray := [], G_grayagain := [], G_weak := [], G_state := GCSsweepstring, G_sweepstr := 0\<rparr>
               else g)
      in case run_until (\<lambda>s. s \<noteq> GCSsweepstring \<and> s \<noteq> GCSsweep) e L g of
           None \<Rightarrow> None
         | Some (Inl er, g) \<Rightarrow> Some (Inl er, g)
         | Some (Inr u, g) \<Rightarrow>
             (case gc_onestep e (g\<lparr>G_state := GCSpause\<rparr>) L of
                None \<Rightarrow> None
              | Some (Inl er, g) \<Rightarrow> Some (Inl er, g)
              | Some (Inr c, g) \<Rightarrow>
                  (case run_until (\<lambda>s. s = GCSpause) e L g of
                     None \<Rightarrow> None
                   | Some (Inl er, g) \<Rightarrow> Some (Inl er, g)
                   | Some (Inr u, g) \<Rightarrow> Some (Inr (), g\<lparr>G_threshold := (G_estimate g div 100) * G_pause g\<rparr>))))"

text \<open>Run all pending finalisers; a finaliser may create new ones, so the loop may not end.\<close>

partial_function (option) lj_gc_finalize_udata :: "gcenv \<Rightarrow> u32 \<Rightarrow> gcG \<Rightarrow> unit gres" where
  [code]: "lj_gc_finalize_udata e L g =
     (if G_mmudata g = [] then Some (Inr (), g)
      else case gc_finalize e g L of
        None \<Rightarrow> None
      | Some (Inl er, g) \<Rightarrow> Some (Inl er, g)
      | Some (Inr u, g) \<Rightarrow> lj_gc_finalize_udata e L g)"

text \<open>The function of the current frame of a thread, if it is a Lua function; its frame size is then the limit of the stack in use.\<close>

definition curr_funcisL :: "gcG \<Rightarrow> lua_State \<Rightarrow> bool" where
  "curr_funcisL g s \<longleftrightarrow>
     (case G_heap g (tv_lo (th_stack s ! (th_base s - 1))) of Some (OFunc m env (FnL pt uvs)) \<Rightarrow> True | _ \<Rightarrow> False)"

definition curr_topL :: "gcG \<Rightarrow> lua_State \<Rightarrow> nat" where
  "curr_topL g s = th_base s + nat (framesize_of g (tv_lo (th_stack s ! (th_base s - 1))))"

definition lj_gc_step_fixtop :: "gcenv \<Rightarrow> gcG \<Rightarrow> u32 \<Rightarrow> int gres" where
  "lj_gc_step_fixtop e g L =
     lj_gc_step e (upd_thread (\<lambda>s. if curr_funcisL g s then s\<lparr>th_top := curr_topL g s\<rparr> else s) L g) L"

primrec step_jit_loop :: "gcenv \<Rightarrow> u32 \<Rightarrow> nat \<Rightarrow> gcG \<Rightarrow> unit gres" where
  "step_jit_loop e L 0 g = Some (Inr (), g)"
| "step_jit_loop e L (Suc n) g =
     (case lj_gc_step e g L of
        None \<Rightarrow> None
      | Some (Inl er, g) \<Rightarrow> Some (Inl er, g)
      | Some (Inr r, g) \<Rightarrow> if r = 0 then step_jit_loop e L n g else Some (Inr (), g))"

text \<open>The base of the running trace, \<open>jit_base\<close>, is an argument.\<close>

definition lj_gc_step_jit :: "gcenv \<Rightarrow> nat \<Rightarrow> gcG \<Rightarrow> u32 \<Rightarrow> bool gres" where
  "lj_gc_step_jit e jit_base g steps =
     (let L = G_jit_L g;
          g = upd_thread (\<lambda>s. s\<lparr>th_base := jit_base\<rparr>) L g;
          g = upd_thread (\<lambda>s. s\<lparr>th_top := curr_topL g s\<rparr>) L g
      in case step_jit_loop e L (unat steps) g of
           None \<Rightarrow> None
         | Some (Inl er, g) \<Rightarrow> Some (Inl er, g)
         | Some (Inr u, g) \<Rightarrow> Some (Inr (G_state g = GCSatomic \<or> G_state g = GCSfinalize), g))"

section \<open>Allocation of objects\<close>

text \<open>A new object of a size, with the contents that the caller stores into it.\<close>

definition lj_mem_newgco :: "gcenv \<Rightarrow> gcG \<Rightarrow> u32 \<Rightarrow> GCobj \<Rightarrow> (gc_err + u32) \<times> gcG" where
  "lj_mem_newgco e g sz ob =
     (case ge_alloc e g sz of
        None \<Rightarrow> (Inl (ErrMem LJ_ERR_ERRMEM), g)
      | Some a \<Rightarrow> (Inr a, (set_obj a (set_marked (gc_curwhite g) ob) g)\<lparr>G_total := G_total g + sz, G_root := a # G_root g\<rparr>))"

definition lj_udata_new :: "gcenv \<Rightarrow> gcG \<Rightarrow> u32 \<Rightarrow> u32 \<Rightarrow> (gc_err + u32) \<times> gcG" where
  "lj_udata_new e g sz env =
     (case ge_alloc e g (ucast sizeof_GCudata + sz) of
        None \<Rightarrow> (Inl (ErrMem LJ_ERR_ERRMEM), g)
      | Some a \<Rightarrow> (Inr a, (set_obj a (OUdata (gc_curwhite g) 0 env sz) g)
           \<lparr>G_total := G_total g + (ucast sizeof_GCudata + sz), G_root := insert_after (G_mainth g) a (G_root g)\<rparr>))"

text \<open>Search the open upvalues of a thread, from the top of its stack.\<close>

fun finduv_at :: "gcG \<Rightarrow> nat \<Rightarrow> u32 list \<Rightarrow> u32 list \<times> u32 option" where
  "finduv_at g slot [] = ([], None)"
| "finduv_at g slot (a # as) =
     (case G_heap g a of
        Some (OUpval m (UvOpen th i)) \<Rightarrow>
          if slot \<le> i then if i = slot then ([], Some a) else (case finduv_at g slot as of (bs, r) \<Rightarrow> (a # bs, r))
          else ([], None)
      | _ \<Rightarrow> ([], None))"

definition func_finduv :: "gcenv \<Rightarrow> gcG \<Rightarrow> u32 \<Rightarrow> nat \<Rightarrow> (gc_err + u32) \<times> gcG" where
  "func_finduv e g L slot =
     (case finduv_at g slot (openupvals g L) of
        (bs, Some a) \<Rightarrow> (Inr a, if isdead g a then upd_marked (\<lambda>m. m XOR LJ_GC_WHITES) a g else g)
      | (bs, None) \<Rightarrow>
          (case ge_alloc e g sizeof_GCupval of
             None \<Rightarrow> (Inl (ErrMem LJ_ERR_ERRMEM), g)
           | Some a \<Rightarrow>
               let g = set_obj a (OUpval (gc_curwhite g) (UvOpen L slot)) (g\<lparr>G_total := G_total g + sizeof_GCupval\<rparr>);
                   g = upd_thread (\<lambda>s. s\<lparr>th_openupval := bs @ a # drop (length bs) (th_openupval s)\<rparr>) L g
               in (Inr a, g\<lparr>G_uvhead := a # G_uvhead g\<rparr>)))"

end
