(* ===== verification/LJ_GCInv.thy ===== *)
theory LJ_GCInv
  imports LJ_GC LJ_TabInv
begin

text \<open>
  What marking does to the heap: the references an object holds, the effect of marking objects, and
  the composition of such effects.
\<close>

section \<open>Colours\<close>

definition alloc :: "gcG \<Rightarrow> u32 \<Rightarrow> bool" where "alloc g a \<longleftrightarrow> G_heap g a \<noteq> None"

lemma marked_set [simp]: "gco_marked (set_marked m ob) = m" "set_marked m (set_marked n ob) = set_marked m ob" "set_marked (gco_marked ob) ob = ob"
  by (cases ob; simp)+

lemma bits_at: "has_bits b g a \<longleftrightarrow> alloc g a \<and> marked_at g a AND b \<noteq> 0"
  by (simp add: has_bits_def alloc_def marked_at_def split: option.split)

lemma colours: "isgray g a \<longleftrightarrow> alloc g a \<and> \<not> iswhite g a \<and> \<not> isblack g a" "iswhite g a \<Longrightarrow> alloc g a" "isblack g a \<Longrightarrow> alloc g a"
  by (auto simp: isgray_def iswhite_def isblack_def bits_at bit.conj_disj_distrib or_eq_0_iff alloc_def)

lemma upd_marked_fields [simp]:
  "alloc (upd_marked f x g) a = alloc g a" "G_gray (upd_marked f x g) = G_gray g" "G_grayagain (upd_marked f x g) = G_grayagain g"
  "G_weak (upd_marked f x g) = G_weak g"
  by (simp_all add: upd_marked_def set_obj_def alloc_def split: option.split)

lemma upd_marked_heap:
  "G_heap (upd_marked f x g) a = (if a = x then map_option (\<lambda>ob. set_marked (f (gco_marked ob)) ob) (G_heap g x) else G_heap g a)"
  by (simp add: upd_marked_def set_obj_def split: option.split)

lemma upd_marked_rest: "upd_marked f x g = g\<lparr>G_heap := G_heap (upd_marked f x g)\<rparr>"
  by (simp add: upd_marked_def set_obj_def split: option.split)

section \<open>Contents without colours\<close>

fun core :: "GCobj \<Rightarrow> GCobj" where
  "core (OTab mt t) = OTab mt (t\<lparr>t_marked := t_marked t AND NOT LJ_GC_COLORS, t_nomm := 0\<rparr>)"
| "core ob = set_marked (gco_marked ob AND NOT LJ_GC_COLORS) ob"

definition view :: "gcG \<Rightarrow> u32 \<Rightarrow> GCobj option" where "view g a = map_option core (G_heap g a)"

lemma core_marked: "m AND NOT LJ_GC_COLORS = gco_marked ob AND NOT LJ_GC_COLORS \<Longrightarrow> core (set_marked m ob) = core ob"
  by (cases ob) auto

lemma view_upd: "(\<And>m. f m AND NOT LJ_GC_COLORS = m AND NOT LJ_GC_COLORS) \<Longrightarrow> view (upd_marked f x g) = view g"
  by (auto simp: view_def fun_eq_iff upd_marked_heap core_marked option.map_comp o_def intro!: option.map_cong0)

lemma colour_bits:
  "((m :: u8) AND NOT LJ_GC_WHITES) AND NOT LJ_GC_COLORS = m AND NOT LJ_GC_COLORS" "(m OR LJ_GC_BLACK) AND NOT LJ_GC_COLORS = m AND NOT LJ_GC_COLORS"
  "(m AND NOT LJ_GC_BLACK) AND NOT LJ_GC_COLORS = m AND NOT LJ_GC_COLORS"
  by (rule bit_word_eqI, auto simp: bit_simps LJ_GC_COLORS_def)+

lemma view_colour [simp]: "view (white2gray a g) = view g" "view (gray2black a g) = view g" "view (black2gray a g) = view g"
  by (simp_all add: white2gray_def gray2black_def black2gray_def view_upd colour_bits)

section \<open>References\<close>

definition tvref :: "TValue \<Rightarrow> u32 set" where "tvref tv = (if tvisgcv tv then {gcrV tv} else {})"
definition tvrefs :: "TValue list \<Rightarrow> u32 set" where "tvrefs tvs = \<Union> (tvref ` set tvs)"
definition nodes_refs :: "Node list \<Rightarrow> u32 set" where
  "nodes_refs ns = \<Union> ((\<lambda>n. tvref (n_key n) \<union> tvref (n_val n)) ` {n \<in> set ns. \<not> tvisnil (n_val n)})"
definition nonnull :: "u32 \<Rightarrow> u32 set" where "nonnull a = (if a = 0 then {} else {a})"
definition traceref :: "gcG \<Rightarrow> u16 \<Rightarrow> u32 set" where "traceref g n = (if n = 0 then {} else {G_trace g n})"

text \<open>The frames of a stack below a slot.\<close>

inductive_set frame_slots :: "gcG \<Rightarrow> TValue list \<Rightarrow> int \<Rightarrow> int set" for g stack f0 where
  "0 < f0 \<Longrightarrow> f0 \<in> frame_slots g stack f0"
| "f \<in> frame_slots g stack f0 \<Longrightarrow> 0 < frame_prev g f (stack ! nat f) \<Longrightarrow> frame_prev g f (stack ! nat f) \<in> frame_slots g stack f0"

definition frame_fns :: "gcG \<Rightarrow> lua_State \<Rightarrow> u32 set" where
  "frame_fns g s = (\<lambda>f. tv_lo (th_stack s ! nat f)) ` frame_slots g (th_stack s) (int (th_base s) - 1)"

definition trace_refs :: "gcG \<Rightarrow> trobj \<Rightarrow> u32 set" where
  "trace_refs g T = (if tr_traceno T = 0 then {} else
     set (map ir_op12 (filter (\<lambda>ir. ir_o ir = IR_KGC) (tr_k T))) \<union> traceref g (tr_link T) \<union> traceref g (tr_nextroot T) \<union>
     traceref g (tr_nextside T) \<union> {tr_startpt T})"

fun fn_refs :: "fnbody \<Rightarrow> u32 set" where
  "fn_refs (FnL pt uvs) = insert pt (set uvs)"
| "fn_refs (FnC ups) = tvrefs ups"

fun obj_refs :: "gcG \<Rightarrow> GCobj \<Rightarrow> u32 set" where
  "obj_refs g (OStr s) = {}"
| "obj_refs g (OUpval m l) = tvref (uvval g l)"
| "obj_refs g (OThread m s) = insert (th_env s) (tvrefs (stack_vals s) \<union> frame_fns g s)"
| "obj_refs g (OProto m pt) = insert (p_chunkname pt) (set (p_kgc pt)) \<union> traceref g (p_trace pt)"
| "obj_refs g (OFunc m env fn) = insert env (fn_refs fn)"
| "obj_refs g (OTrace m T) = trace_refs g T"
| "obj_refs g (OCdata m sz) = {}"
| "obj_refs g (OTab mt t) = nonnull mt \<union> tvrefs (array_vals t) \<union> nodes_refs (hash_nodes t)"
| "obj_refs g (OUdata m mt env len) = insert env (nonnull mt)"

definition kids :: "gcG \<Rightarrow> u32 \<Rightarrow> u32 set" where
  "kids g a = (case G_heap g a of None \<Rightarrow> {} | Some ob \<Rightarrow> obj_refs g ob)"

text \<open>References do not depend on colours.\<close>

lemma view_eq_cases:
  assumes "view g' a = view g a"
  shows "(G_heap g a = None \<longleftrightarrow> G_heap g' a = None)" "G_heap g a = Some ob \<Longrightarrow> \<exists>ob'. G_heap g' a = Some ob' \<and> core ob' = core ob"
  using assms by (auto simp: view_def)

lemma core_eqs: "core ob' = core ob \<Longrightarrow>
    (case ob of OStr s \<Rightarrow> \<exists>s'. ob' = OStr s' | OUpval m l \<Rightarrow> \<exists>m'. ob' = OUpval m' l | OThread m s \<Rightarrow> \<exists>m'. ob' = OThread m' s
      | OProto m pt \<Rightarrow> \<exists>m'. ob' = OProto m' pt | OFunc m env fn \<Rightarrow> \<exists>m'. ob' = OFunc m' env fn | OTrace m T \<Rightarrow> \<exists>m'. ob' = OTrace m' T
      | OCdata m sz \<Rightarrow> \<exists>m'. ob' = OCdata m' sz | OTab mt t \<Rightarrow> \<exists>m' n'. ob' = OTab mt (t\<lparr>t_marked := m', t_nomm := n'\<rparr>)
      | OUdata m mt env len \<Rightarrow> \<exists>m'. ob' = OUdata m' mt env len)"
proof (cases ob)
  case (OTab mt t)
  moreover assume "core ob' = core ob"
  ultimately obtain t' where t': "ob' = OTab mt t'" "t'\<lparr>t_marked := t_marked t' AND NOT LJ_GC_COLORS, t_nomm := 0\<rparr> = t\<lparr>t_marked := t_marked t AND NOT LJ_GC_COLORS, t_nomm := 0\<rparr>"
    by (cases ob') auto
  then have "t' = t\<lparr>t_marked := t_marked t', t_nomm := t_nomm t'\<rparr>" by (cases t; cases t') simp
  then show ?thesis using OTab t'(1) by auto
qed (cases ob'; simp)+

lemma view_stack:
  assumes "view g' = view g"
  shows "(case G_heap g' a of Some (OThread m s) \<Rightarrow> F s | _ \<Rightarrow> c) = (case G_heap g a of Some (OThread m s) \<Rightarrow> F s | _ \<Rightarrow> c)"
proof (cases "G_heap g a")
  case None
  then show ?thesis using view_eq_cases(1) [OF fun_cong [OF assms, of a]] by simp
next
  case (Some ob)
  then obtain ob' where ob': "G_heap g' a = Some ob'" "core ob' = core ob" using view_eq_cases(2) [OF fun_cong [OF assms]] by blast
  show ?thesis using core_eqs [OF ob'(2)] ob'(1) Some by (cases ob) auto
qed

lemma uvval_view: "view g' = view g \<Longrightarrow> uvval g' l = uvval g l"
  by (cases l) (simp_all add: uvval_def view_stack [of g' g _ "\<lambda>s. if i < length (th_stack s) then th_stack s ! i else mk_tv 0 LJ_TNIL" for i])

definition same_code :: "gcG \<Rightarrow> gcG \<Rightarrow> bool" where "same_code g g' \<longleftrightarrow> G_trace g' = G_trace g \<and> G_code g' = G_code g"

lemma frame_slots_mono: "x \<in> frame_slots g' stack f \<Longrightarrow> G_code g' = G_code g \<Longrightarrow> x \<in> frame_slots g stack f"
proof (induction rule: frame_slots.induct)
  case (2 x)
  have "frame_prev g' = frame_prev g" by (simp add: fun_eq_iff frame_prev_def 2(4))
  then show ?case using frame_slots.intros(2) [OF 2(3) [OF 2(4)]] 2(2) by simp
qed (rule frame_slots.intros)

lemma frame_slots_cong: "G_code g' = G_code g \<Longrightarrow> frame_slots g' stack f = frame_slots g stack f"
  using frame_slots_mono [of _ g' stack f g] frame_slots_mono [of _ g stack f g'] by auto

lemma kids_view:
  assumes v: "view g' = view g" and c: "same_code g g'"
  shows "kids g' a = kids g a"
proof (cases "G_heap g a")
  case None
  then show ?thesis using view_eq_cases(1) [OF fun_cong [OF v, of a]] by (simp add: kids_def)
next
  case (Some ob)
  then obtain ob' where ob': "G_heap g' a = Some ob'" "core ob' = core ob" using view_eq_cases(2) [OF fun_cong [OF v]] by blast
  have t: "traceref g' = traceref g" "trace_refs g' = trace_refs g" using c by (auto simp: same_code_def fun_eq_iff traceref_def trace_refs_def)
  have e: "G_code g' = G_code g" using c by (simp add: same_code_def)
  have f: "frame_fns g' = frame_fns g" by (intro ext) (simp only: frame_fns_def frame_slots_cong [OF e])
  show ?thesis using core_eqs [OF ob'(2)] ob'(1) Some
    by (cases ob) (auto simp: kids_def t f uvval_view [OF v] array_vals_def hash_nodes_def)
qed

section \<open>The effect of marking\<close>

definition leaf :: "gcG \<Rightarrow> u32 \<Rightarrow> bool" where
  "leaf g a \<longleftrightarrow> (case G_heap g a of Some (OStr s) \<Rightarrow> True | Some (OCdata m sz) \<Rightarrow> True | Some (OUpval m (UvOpen th i)) \<Rightarrow> True | _ \<Rightarrow> False)"

definition listed :: "gcG \<Rightarrow> u32 \<Rightarrow> bool" where
  "listed g a \<longleftrightarrow> (case G_heap g a of Some (OTab mt t) \<Rightarrow> True | Some (OFunc m env fn) \<Rightarrow> True | Some (OThread m s) \<Rightarrow> True
     | Some (OProto m pt) \<Rightarrow> True | Some (OTrace m T) \<Rightarrow> True | _ \<Rightarrow> False)"

text \<open>An object that needs no further marking: black, or a gray leaf, and what it refers to is not white.\<close>

definition settled :: "gcG \<Rightarrow> u32 \<Rightarrow> bool" where
  "settled g a \<longleftrightarrow> (isblack g a \<and> \<not> leaf g a \<and> \<not> listed g a \<or> isgray g a \<and> leaf g a) \<and> kids g a \<inter> whites g = {}"

text \<open>
  Marking leaves the objects that are not white alone; each white object it reaches is put on the gray
  list or is settled.
\<close>

definition mark_step :: "gcG \<Rightarrow> gcG \<Rightarrow> bool" where
  "mark_step g g' \<longleftrightarrow> (\<exists>gs. g' = g\<lparr>G_heap := G_heap g', G_gray := gs @ G_gray g\<rparr> \<and> view g' = view g \<and>
     (\<forall>x. x \<notin> whites g \<or> x \<in> whites g' \<longrightarrow> G_heap g' x = G_heap g x) \<and> whites g' \<subseteq> whites g \<and> distinct gs \<and> set gs \<subseteq> whites g - whites g' \<and>
     (\<forall>x\<in>set gs. isgray g' x \<and> listed g' x) \<and> (\<forall>x\<in>whites g - whites g'. x \<in> set gs \<or> settled g' x))"

lemma leaf_view:
  assumes v: "view g' = view g"
  shows "leaf g' a = leaf g a" "listed g' a = listed g a" "alloc g' a = alloc g a"
proof -
  have "leaf g' a = leaf g a \<and> listed g' a = listed g a \<and> alloc g' a = alloc g a"
  proof (cases "G_heap g a")
    case None
    then show ?thesis using view_eq_cases(1) [OF fun_cong [OF v, of a]] by (simp add: leaf_def listed_def alloc_def)
  next
    case (Some ob)
    then obtain ob' where ob': "G_heap g' a = Some ob'" "core ob' = core ob" using view_eq_cases(2) [OF fun_cong [OF v]] by blast
    show ?thesis using core_eqs [OF ob'(2)] ob'(1) Some by (cases ob) (auto simp: leaf_def listed_def alloc_def)
  qed
  then show "leaf g' a = leaf g a" "listed g' a = listed g a" "alloc g' a = alloc g a" by simp_all
qed

lemma same_heap_colour:
  assumes "G_heap g' x = G_heap g x"
  shows "isblack g' x = isblack g x" "iswhite g' x = iswhite g x" "isgray g' x = isgray g x"
  using assms by (auto simp: isblack_def iswhite_def isgray_def has_bits_def)

lemma mark_step_refl [simp, intro]: "mark_step g g" by (auto simp: mark_step_def intro!: exI [of _ "[]"])

lemma mark_stepD:
  assumes "mark_step g g'"
  shows "view g' = view g" "same_code g g'" "whites g' \<subseteq> whites g" "x \<notin> whites g \<Longrightarrow> G_heap g' x = G_heap g x"
    "kids g' a = kids g a" "alloc g' a = alloc g a" "leaf g' a = leaf g a" "listed g' a = listed g a"
    "x \<in> whites g' \<Longrightarrow> G_heap g' x = G_heap g x"
proof -
  obtain gs where gs: "g' = g\<lparr>G_heap := G_heap g', G_gray := gs @ G_gray g\<rparr>" "view g' = view g" "whites g' \<subseteq> whites g"
    "\<forall>x. x \<notin> whites g \<or> x \<in> whites g' \<longrightarrow> G_heap g' x = G_heap g x" using assms unfolding mark_step_def by blast
  show "view g' = view g" "whites g' \<subseteq> whites g" by fact+
  show c: "same_code g g'" by (subst gs(1)) (simp add: same_code_def)
  show "x \<notin> whites g \<Longrightarrow> G_heap g' x = G_heap g x" "x \<in> whites g' \<Longrightarrow> G_heap g' x = G_heap g x" using gs(4) by blast+
  show "kids g' a = kids g a" by (rule kids_view [OF gs(2) c])
  show "alloc g' a = alloc g a" "leaf g' a = leaf g a" "listed g' a = listed g a" by (rule leaf_view [OF gs(2)])+
qed

text \<open>Objects that are not white keep their state.\<close>

lemma mark_step_keeps:
  assumes m: "mark_step g g'" and x: "x \<notin> whites g"
  shows "settled g x \<Longrightarrow> settled g' x" "isgray g' x = isgray g x" "isblack g' x = isblack g x"
proof -
  note h = mark_stepD(4) [OF m x]
  show "isgray g' x = isgray g x" "isblack g' x = isblack g x" using same_heap_colour [OF h] by auto
  then show "settled g x \<Longrightarrow> settled g' x" using mark_stepD(3) [OF m] by (auto simp: settled_def mark_stepD(5-8) [OF m])
qed

lemma mark_step_trans [trans]:
  assumes "mark_step g g'" "mark_step g' g''"
  shows "mark_step g g''"
proof -
  obtain gs where gs: "g' = g\<lparr>G_heap := G_heap g', G_gray := gs @ G_gray g\<rparr>" "distinct gs" "set gs \<subseteq> whites g - whites g'"
    "\<forall>x\<in>set gs. isgray g' x \<and> listed g' x" "\<forall>x\<in>whites g - whites g'. x \<in> set gs \<or> settled g' x" using assms(1) unfolding mark_step_def by blast
  obtain hs where hs: "g'' = g'\<lparr>G_heap := G_heap g'', G_gray := hs @ G_gray g'\<rparr>" "distinct hs" "set hs \<subseteq> whites g' - whites g''"
    "\<forall>x\<in>set hs. isgray g'' x \<and> listed g'' x" "\<forall>x\<in>whites g' - whites g''. x \<in> set hs \<or> settled g'' x" using assms(2) unfolding mark_step_def by blast
  note a = mark_stepD [OF assms(1)] and b = mark_stepD [OF assms(2)] and k = mark_step_keeps [OF assms(2)]
  have "g'' = g\<lparr>G_heap := G_heap g'', G_gray := (hs @ gs) @ G_gray g\<rparr>" by (subst hs(1), subst gs(1), subst (2) gs(1)) simp
  moreover have "view g'' = view g" "whites g'' \<subseteq> whites g" using a b by auto
  moreover have "G_heap g'' x = G_heap g x" if "x \<notin> whites g \<or> x \<in> whites g''" for x
  proof (cases "x \<in> whites g''")
    case True
    then show ?thesis using b(3) b(9) [of x] a(9) [of x] by auto
  next
    case False
    then have "x \<notin> whites g'" "x \<notin> whites g" using a(3) that by auto
    then show ?thesis using b(4) [of x] a(4) [of x] by simp
  qed
  moreover have "distinct (hs @ gs)" "set (hs @ gs) \<subseteq> whites g - whites g''" using gs(2,3) hs(2,3) a(3) b(3) by auto
  moreover have "isgray g'' x \<and> listed g'' x" if "x \<in> set (hs @ gs)" for x using that gs(3,4) hs(4) k(2) b(8) by auto
  moreover have "x \<in> set (hs @ gs) \<or> settled g'' x" if "x \<in> whites g - whites g''" for x using that gs(5) hs(5) k(1) by (cases "x \<in> whites g'") auto
  ultimately show ?thesis unfolding mark_step_def by blast
qed

lemma fold_mark_step: "(\<And>x g. mark_step g (f x g)) \<Longrightarrow> mark_step g (fold f xs g)"
  by (induction xs arbitrary: g) (auto intro: mark_step_trans)

section \<open>Marking an object\<close>

text \<open>A change of the mark of one object, after which it is not white.\<close>

definition recol :: "u32 \<Rightarrow> gcG \<Rightarrow> gcG \<Rightarrow> bool" where
  "recol a g g' \<longleftrightarrow> g' = g\<lparr>G_heap := G_heap g'\<rparr> \<and> view g' = view g \<and> (\<forall>x. x \<noteq> a \<longrightarrow> G_heap g' x = G_heap g x) \<and> \<not> iswhite g' a"

lemma recolD:
  assumes "recol a g g'"
  shows "view g' = view g" "same_code g g'" "whites g' = whites g - {a}" "x \<noteq> a \<Longrightarrow> G_heap g' x = G_heap g x"
    "kids g' x = kids g x" "leaf g' x = leaf g x" "listed g' x = listed g x" "alloc g' x = alloc g x" "G_gray g' = G_gray g"
proof -
  have e: "g' = g\<lparr>G_heap := G_heap g'\<rparr>" and v: "view g' = view g" and h: "\<And>x. x \<noteq> a \<Longrightarrow> G_heap g' x = G_heap g x" and w: "\<not> iswhite g' a"
    using assms by (auto simp: recol_def)
  show "view g' = view g" by fact
  show c: "same_code g g'" by (subst e) (simp add: same_code_def)
  have "x \<in> whites g' \<longleftrightarrow> x \<in> whites g - {a}" for x using w same_heap_colour(2) [OF h, of x] by (cases "x = a") (auto simp: whites_def)
  then show "whites g' = whites g - {a}" by blast
  show "x \<noteq> a \<Longrightarrow> G_heap g' x = G_heap g x" by (rule h)
  show "kids g' x = kids g x" by (rule kids_view [OF v c])
  show "leaf g' x = leaf g x" "listed g' x = listed g x" "alloc g' x = alloc g x" by (rule leaf_view [OF v])+
  show "G_gray g' = G_gray g" by (subst e) simp
qed

lemma recol_trans: "recol a g g1 \<Longrightarrow> recol a g1 g2 \<Longrightarrow> recol a g g2"
proof -
  assume a: "recol a g g1" "recol a g1 g2"
  have "g1 = g\<lparr>G_heap := G_heap g1\<rparr>" "g2 = g1\<lparr>G_heap := G_heap g2\<rparr>" using a by (auto simp: recol_def)
  then obtain h1 h2 where "g1 = g\<lparr>G_heap := h1\<rparr>" "g2 = g1\<lparr>G_heap := h2\<rparr>" by blast
  then have "g2 = g\<lparr>G_heap := G_heap g2\<rparr>" by simp
  then show ?thesis using a by (simp add: recol_def)
qed

lemma not_white_after: "\<not> iswhite (white2gray a g) a"
  by (simp add: iswhite_def white2gray_def bits_upd white_bits split: option.split)

lemma recol_white2gray: "recol a g (white2gray a g)"
  using upd_marked_rest [of "\<lambda>m. m AND NOT LJ_GC_WHITES" a g] not_white_after
  by (simp add: recol_def) (simp add: white2gray_def upd_marked_heap)

lemma recol_gray2black: "\<not> iswhite g a \<Longrightarrow> recol a g (gray2black a g)"
  using upd_marked_rest [of "\<lambda>m. m OR LJ_GC_BLACK" a g] whites_steps(2) [of a g]
  by (simp add: recol_def whites_def) (auto simp: gray2black_def upd_marked_heap)

lemma black_after: "alloc g a \<Longrightarrow> isblack (gray2black a g) a"
proof -
  have "(m OR LJ_GC_BLACK) AND LJ_GC_BLACK = LJ_GC_BLACK" for m by (rule bit_word_eqI) (auto simp: bit_simps)
  moreover have "LJ_GC_BLACK \<noteq> 0" by (simp add: LJ_GC_BLACK_def)
  ultimately show "alloc g a \<Longrightarrow> isblack (gray2black a g) a" by (auto simp: alloc_def isblack_def gray2black_def bits_upd)
qed

lemma recol_settled: "recol a g g' \<Longrightarrow> x \<noteq> a \<Longrightarrow> a \<notin> whites g \<Longrightarrow> settled g x \<Longrightarrow> settled g' x"
  using recolD [of a g g'] same_heap_colour [of g' x g] by (auto simp: settled_def)

text \<open>Colour an object, mark others, colour it again.\<close>

lemma mark_via:
  assumes w: "a \<in> whites g" and a: "recol a g g1" and b: "mark_step g1 g2" and c: "recol a g2 g3" and s: "settled g3 a"
  shows "mark_step g g3"
proof -
  obtain gs where gs: "g2 = g1\<lparr>G_heap := G_heap g2, G_gray := gs @ G_gray g1\<rparr>" "distinct gs" "set gs \<subseteq> whites g1 - whites g2"
    "\<forall>x\<in>set gs. isgray g2 x \<and> listed g2 x" "\<forall>x\<in>whites g1 - whites g2. x \<in> set gs \<or> settled g2 x" using b unfolding mark_step_def by blast
  note A = recolD [OF a] and B = mark_stepD [OF b] and C = recolD [OF c]
  have a1: "a \<notin> whites g1" "a \<notin> whites g2" using A(3) B(3) by auto
  have na: "x \<noteq> a" if "x \<in> set gs" for x using gs(3) a1 that by auto
  have "g3 = g\<lparr>G_heap := G_heap g3, G_gray := gs @ G_gray g\<rparr>"
  proof -
    have "g1 = g\<lparr>G_heap := G_heap g1\<rparr>" "g3 = g2\<lparr>G_heap := G_heap g3\<rparr>" using a c by (auto simp: recol_def)
    then obtain h1 h2 h3 where "g1 = g\<lparr>G_heap := h1\<rparr>" "g2 = g1\<lparr>G_heap := h2, G_gray := gs @ G_gray g1\<rparr>" "g3 = g2\<lparr>G_heap := h3\<rparr>" using gs(1) by blast
    then show ?thesis by simp
  qed
  moreover have "view g3 = view g" using A(1) B(1) C(1) by simp
  moreover have "whites g3 \<subseteq> whites g" "set gs \<subseteq> whites g - whites g3" using A(3) B(3) C(3) gs(3) by auto
  moreover have "G_heap g3 x = G_heap g x" if "x \<notin> whites g \<or> x \<in> whites g3" for x
  proof -
    have "x \<noteq> a" "x \<notin> whites g1 \<or> x \<in> whites g2" using that w A(3) C(3) by auto
    then show ?thesis using A(4) B(4,9) C(4) by auto
  qed
  moreover have "isgray g3 x \<and> listed g3 x" if "x \<in> set gs" for x using gs(4) that same_heap_colour(3) [OF C(4) [OF na [OF that]]] C(7) by auto
  moreover have "x \<in> set gs \<or> settled g3 x" if x: "x \<in> whites g - whites g3" for x
  proof (cases "x = a")
    case False
    then have "x \<in> whites g1 - whites g2" using x A(3) C(3) by auto
    then show ?thesis using gs(5) recol_settled [OF c False a1(2)] by blast
  qed (simp add: s)
  ultimately show ?thesis using gs(2) unfolding mark_step_def by blast
qed

text \<open>No object has two colours.\<close>

definition one_colour :: "gcG \<Rightarrow> bool" where "one_colour g \<longleftrightarrow> (\<forall>a. iswhite g a \<longrightarrow> \<not> isblack g a)"

lemma one_colour_step: "mark_step g g' \<Longrightarrow> one_colour g \<Longrightarrow> one_colour g'"
  using mark_stepD(3,9) [of g g'] same_heap_colour(1) [of g' _ g] by (auto simp: one_colour_def whites_def)

lemma white2gray_black: "isblack (white2gray a g) x = isblack g x"
proof -
  have "((m :: u8) AND NOT LJ_GC_WHITES) AND LJ_GC_BLACK = m AND LJ_GC_BLACK" for m
    unfolding and.assoc by (simp add: LJ_GC_WHITES_def LJ_GC_BLACK_def)
  then show ?thesis by (simp add: isblack_def white2gray_def bits_upd) (simp add: has_bits_def split: option.split)
qed

lemma mark_push:
  assumes w: "a \<in> whites g" and l: "listed g a" and o: "one_colour g"
  shows "mark_step g (push_gray a (white2gray a g))"
proof -
  define g' where "g' = push_gray a (white2gray a g)"
  note A = recolD [OF recol_white2gray [of a g]]
  have h: "G_heap g' = G_heap (white2gray a g)" by (simp add: g'_def push_gray_def)
  obtain h1 where "white2gray a g = g\<lparr>G_heap := h1\<rparr>" using recol_white2gray [of a g] by (auto simp: recol_def)
  then have e: "g' = g\<lparr>G_heap := G_heap g', G_gray := [a] @ G_gray g\<rparr>" by (simp add: g'_def push_gray_def)
  have v: "view g' = view g" using A(1) h by (simp add: view_def [abs_def])
  have wh: "whites g' = whites g - {a}" using A(3) by (simp add: g'_def)
  have "isblack g' a = isblack g a" using same_heap_colour(1) [OF fun_cong [OF h]] by (simp add: white2gray_black)
  then have "isgray g' a" "listed g' a" using w o wh l leaf_view(2,3) [OF v, of a] colours(2) [of g a] by (auto simp: colours(1) one_colour_def whites_def)
  moreover have "G_heap g' x = G_heap g x" if "x \<notin> whites g \<or> x \<in> whites g'" for x
  proof -
    have "x \<noteq> a" using that w wh by auto
    then show ?thesis using A(4) h by simp
  qed
  ultimately show ?thesis unfolding g'_def [symmetric] mark_step_def using e v wh w by (intro exI [of _ "[a]"] conjI) auto
qed

lemma tv_markD:
  assumes "mark_step g (gc_mark_if False g (gcrV tv)) \<and> \<not> iswhite (gc_mark_if False g (gcrV tv)) (gcrV tv)"
  shows "mark_step g (if tvisgcv tv then gc_mark_if False g (gcrV tv) else g)"
    "tvref tv \<inter> whites (if tvisgcv tv then gc_mark_if False g (gcrV tv) else g) = {}"
  using assms by (auto simp: tvref_def whites_def)

lemma mark_ok:
  "always \<longrightarrow> iswhite g a \<Longrightarrow> one_colour g \<Longrightarrow> mark_step g (gc_mark_if always g a) \<and> \<not> iswhite (gc_mark_if always g a) a"
proof (induction always g a rule: gc_mark_if.induct)
  case (1 always g a)
  show ?case
  proof (cases "iswhite g a")
    case False
    then have "gc_mark_if always g a = g" using 1(4) by (subst gc_mark_if.simps) simp
    then show ?thesis using False by simp
  next
    case w: True
    then obtain ob where ob: "G_heap g a = Some ob" using colours(2) by (auto simp: alloc_def)
    have c: "\<not> (\<not> always \<and> \<not> iswhite g a)" using w by simp
    define g1 where "g1 = white2gray a g"
    have r1: "recol a g g1" unfolding g1_def by (rule recol_white2gray)
    have b1: "\<not> isblack g1 a" "one_colour g1" using 1(5) w same_heap_colour [OF recolD(4) [OF r1]] white2gray_black [of a g] recolD(3) [OF r1]
      by (auto simp: g1_def one_colour_def whites_def)
    have al: "alloc g1 a" using ob recolD(8) [OF r1] by (simp add: alloc_def)
    have nw: "\<not> iswhite g1 a" using r1 by (simp add: recol_def)
    have gr: "isgray g1 a" using al nw b1 by (simp add: colours(1))
    have rr: "recol a h h" if "\<not> iswhite h a" for h using that by (simp add: recol_def)
    have simps: "gc_mark_if always g a = (case ob of
             OUdata m mt env len \<Rightarrow> gc_mark_if False (if mt \<noteq> 0 then gc_mark_if False (gray2black a g1) mt else gray2black a g1) env
           | OUpval m l \<Rightarrow>
               let g2 = (if tvisgcv (uvval g1 l) then gc_mark_if False g1 (gcrV (uvval g1 l)) else g1)
               in (case l of UvClosed tv \<Rightarrow> gray2black a g2 | UvOpen th i \<Rightarrow> g2)
           | OStr s \<Rightarrow> g1
           | OCdata m sz \<Rightarrow> g1
           | _ \<Rightarrow> push_gray a g1)"
      using gc_mark_if.simps [of always g a] by (simp only: c ob if_False option.case Let_def g1_def)
    have wa: "a \<in> whites g" using w by (simp add: whites_def)
    have leaf1: "mark_step g g1 \<and> \<not> iswhite g1 a" if "leaf g a" "kids g a = {}"
      using mark_via [OF wa r1 mark_step_refl rr [OF nw]] gr nw that recolD(5,6) [OF r1, of a] by (simp add: settled_def)
    have push: "mark_step g (push_gray a g1) \<and> \<not> iswhite (push_gray a g1) a" if "listed g a"
      using mark_push [OF wa that 1(5)] nw by (simp add: g1_def iswhite_def has_bits_def push_gray_def)
    show ?thesis
    proof (cases ob)
      case (OUdata m mt env len)
      define g2 where "g2 = gray2black a g1"
      define g3 where "g3 = (if mt \<noteq> 0 then gc_mark_if False g2 mt else g2)"
      define g4 where "g4 = gc_mark_if False g3 env"
      have r2: "recol a g g2" unfolding g2_def by (rule recol_trans [OF r1 recol_gray2black [OF nw]])
      have o2: "one_colour g2" using 1(5) recolD(3) [OF r2] same_heap_colour(1) [OF recolD(4) [OF r2]] by (auto simp: one_colour_def whites_def)
      have m3: "mark_step g2 g3 \<and> nonnull mt \<inter> whites g3 = {}"
        using 1(2) [OF c ob g1_def OUdata g2_def] o2 by (simp add: g3_def nonnull_def whites_def)
      have m4: "mark_step g3 g4 \<and> \<not> iswhite g4 env"
        using 1(3) [OF c ob g1_def OUdata g2_def g3_def] one_colour_step [of g2 g3] m3 o2 by (simp add: g4_def)
      have m: "mark_step g2 g4" using m3 m4 mark_step_trans by blast
      have a2: "a \<notin> whites g2" using recolD(3) [OF r2] by simp
      have w4: "\<not> iswhite g4 a" using mark_stepD(3) [OF m] a2 by (auto simp: whites_def)
      have "isblack g4 a" using mark_step_keeps(3) [OF m a2] black_after [OF al] by (simp add: g2_def)
      moreover have "kids g a = insert env (nonnull mt)" "\<not> leaf g a" "\<not> listed g a" using ob OUdata by (auto simp: kids_def leaf_def listed_def)
      moreover have "insert env (nonnull mt) \<inter> whites g4 = {}" using m3 m4 mark_stepD(3) [of g3 g4] by (auto simp: whites_def)
      ultimately have "settled g4 a" using mark_stepD(5,7,8) [OF m] recolD(5,6,7) [OF r2] by (simp add: settled_def)
      moreover have "gc_mark_if always g a = g4" using simps by (simp only: OUdata GCobj.case g2_def g3_def g4_def)
      ultimately show ?thesis using mark_via [OF wa r2 m rr [OF w4]] w4 by simp
    next
      case (OUpval m l)
      define tv where "tv = uvval g1 l"
      define g2 where "g2 = (if tvisgcv tv then gc_mark_if False g1 (gcrV tv) else g1)"
      have m2: "mark_step g1 g2 \<and> tvref tv \<inter> whites g2 = {}"
        using 1(1) [OF c ob g1_def OUpval tv_def] b1(2) by (simp add: g2_def tvref_def whites_def)
      have a1: "a \<notin> whites g1" using nw by (simp add: whites_def)
      have w2: "\<not> iswhite g2 a" using m2 mark_stepD(3) [of g1 g2] a1 by (auto simp: whites_def)
      have "kids g a = tvref (uvval g l)" "leaf g a \<longleftrightarrow> (\<exists>th i. l = UvOpen th i)" "\<not> listed g a"
        using ob OUpval by (auto simp: kids_def leaf_def listed_def split: uvloc.splits)
      then have k: "kids g1 a = tvref tv" "leaf g1 a \<longleftrightarrow> (\<exists>th i. l = UvOpen th i)" "\<not> listed g1 a"
        using uvval_view [OF recolD(1) [OF r1], of l] by (simp_all add: recolD(5-7) [OF r1] tv_def)
      note M = mark_stepD [OF conjunct1 [OF m2]]
      show ?thesis
      proof (cases l)
        case (UvClosed x)
        define g3 where "g3 = gray2black a g2"
        have r3: "recol a g2 g3" unfolding g3_def by (rule recol_gray2black [OF w2])
        have "alloc g2 a" using al M(6) by simp
        then have "isblack g3 a" unfolding g3_def by (rule black_after)
        moreover have "kids g3 a \<inter> whites g3 = {}" using m2 by (auto simp: recolD(3,5) [OF r3] M(5) k(1))
        ultimately have "settled g3 a" using k(2,3) UvClosed by (simp add: settled_def recolD(6,7) [OF r3] M(7,8))
        moreover have "gc_mark_if always g a = g3" using simps by (simp only: OUpval UvClosed GCobj.case uvloc.case Let_def g3_def g2_def tv_def)
        moreover have "\<not> iswhite g3 a" using r3 by (simp add: recol_def)
        ultimately show ?thesis using mark_via [OF wa r1 conjunct1 [OF m2] r3] by simp
      next
        case (UvOpen th i)
        then have "settled g2 a" using k m2 M(5,7) gr mark_step_keeps(2) [OF conjunct1 [OF m2] a1] by (auto simp: settled_def)
        moreover have "gc_mark_if always g a = g2" using simps by (simp only: OUpval UvOpen GCobj.case uvloc.case Let_def g2_def tv_def)
        ultimately show ?thesis using mark_via [OF wa r1 conjunct1 [OF m2] rr [OF w2]] w2 by simp
      qed
    qed (use leaf1 push simps ob in \<open>auto simp: leaf_def listed_def kids_def\<close>)
  qed
qed

text \<open>What the marking functions do.\<close>

lemma markobj_ok: "one_colour g \<Longrightarrow> mark_step g (gc_markobj g a)" "one_colour g \<Longrightarrow> a \<notin> whites (gc_markobj g a)"
  using mark_ok [of False g a] by (auto simp: gc_markobj_def whites_def)

lemma gc_mark_ok: "one_colour g \<Longrightarrow> iswhite g a \<Longrightarrow> mark_step g (gc_mark g a)" "one_colour g \<Longrightarrow> iswhite g a \<Longrightarrow> a \<notin> whites (gc_mark g a)"
  using mark_ok [of True g a] by (auto simp: gc_mark_def whites_def)

text \<open>A marking operation that leaves none of a set of objects white.\<close>

definition marks :: "(gcG \<Rightarrow> gcG) \<Rightarrow> u32 set \<Rightarrow> gcG \<Rightarrow> bool" where
  "marks f A g \<longleftrightarrow> mark_step g (f g) \<and> A \<inter> whites (f g) = {}"

lemma marks_comp: "marks f A g \<Longrightarrow> marks h B (f g) \<Longrightarrow> marks (\<lambda>g. h (f g)) (A \<union> B) g"
  using mark_stepD(3) [of "f g" "h (f g)"] mark_step_trans [of g "f g" "h (f g)"] by (auto simp: marks_def)

lemma marks_one_colour: "marks f A g \<Longrightarrow> one_colour g \<Longrightarrow> one_colour (f g)"
  by (auto simp: marks_def intro: one_colour_step)

lemma marks_id: "marks (\<lambda>g. g) {} g" by (simp add: marks_def)

lemma marks_if: "(c \<Longrightarrow> marks f A g) \<Longrightarrow> marks (\<lambda>g. if c then f g else g) (if c then A else {}) g"
  by (simp add: marks_def)

lemma marks_obj: "one_colour g \<Longrightarrow> marks (\<lambda>g. gc_markobj g a) {a} g"
  using markobj_ok [of g a] by (simp add: marks_def)

lemma marks_tv: "one_colour g \<Longrightarrow> marks (\<lambda>g. gc_marktv g tv) (tvref tv) g"
  using markobj_ok [of g "gcrV tv"] by (simp add: marks_def gc_marktv_def tvref_def)

lemma marks_fold:
  assumes "\<And>x g. x \<in> set xs \<Longrightarrow> one_colour g \<Longrightarrow> marks (f x) (A x) g" "one_colour g"
  shows "marks (fold f xs) (\<Union> (A ` set xs)) g"
  using assms
proof (induction xs arbitrary: g)
  case (Cons x xs)
  have x: "marks (f x) (A x) g" using Cons.prems by simp
  have "marks (fold f xs) (\<Union> (A ` set xs)) (f x g)" using Cons.IH Cons.prems marks_one_colour [OF x] by auto
  from marks_comp [OF x this] show ?case by (simp add: marks_def o_def)
qed (simp add: marks_def)

lemma marks_objs: "one_colour g \<Longrightarrow> marks (markobjs rs) (set rs) g"
  using marks_fold [of rs "\<lambda>a g. gc_markobj g a" "\<lambda>a. {a}" g] marks_obj by (simp add: markobjs_def [abs_def] marks_def)

lemma marks_tvs: "one_colour g \<Longrightarrow> marks (marktvs tvs) (tvrefs tvs) g"
  using marks_fold [of tvs "\<lambda>tv g. gc_marktv g tv" tvref g] marks_tv by (simp add: marktvs_def [abs_def] marks_def tvrefs_def)

end
