(* ===== verification/LJ_GCMark.thy ===== *)
theory LJ_GCMark
  imports LJ_GCInv
begin

text \<open>
  The invariant of the mark phase and the traversal of objects: one step of the propagation keeps the
  invariant, and all gray objects are traversed after finitely many.
\<close>

section \<open>Well-formed heaps\<close>

text \<open>A lookup in the hash part ends.\<close>

definition lookup_ok :: "GCtab \<Rightarrow> bool" where
  "lookup_ok t \<longleftrightarrow> ranked (t_node t) \<and> (\<forall>(i, j) \<in> nxt (t_node t). j < length (t_node t)) \<and> unat (t_hmask t) < length (t_node t)"

lemma getstr_ends: "lookup_ok t \<Longrightarrow> \<exists>r. lj_tab_getstr e t key = Some r"
proof -
  assume l: "lookup_ok t"
  have "hashstr e t key < length (t_node t)" using l word_and_le1 [of "e_strhash e key" "t_hmask t"]
    by (auto simp: lookup_ok_def hashstr_def hashmask_def word_le_nat_alt)
  then show ?thesis using node_find_spec [of "t_node t" "hashstr e t key" "\<lambda>n. tvisstr (n_key n) \<and> gcrV (n_key n) = key"] l
    by (auto simp: lookup_ok_def lj_tab_getstr_def)
qed

definition is_tab :: "gcG \<Rightarrow> u32 \<Rightarrow> bool" where "is_tab g a \<longleftrightarrow> (case G_heap g a of Some (OTab mt t) \<Rightarrow> True | _ \<Rightarrow> False)"
definition is_str :: "gcG \<Rightarrow> u32 \<Rightarrow> bool" where "is_str g a \<longleftrightarrow> (case G_heap g a of Some (OStr s) \<Rightarrow> True | _ \<Rightarrow> False)"
definition is_trace :: "gcG \<Rightarrow> u32 \<Rightarrow> bool" where "is_trace g a \<longleftrightarrow> (case G_heap g a of Some (OTrace m T) \<Rightarrow> True | _ \<Rightarrow> False)"
definition is_udata :: "gcG \<Rightarrow> u32 \<Rightarrow> bool" where "is_udata g a \<longleftrightarrow> (case G_heap g a of Some (OUdata m mt env len) \<Rightarrow> True | _ \<Rightarrow> False)"
definition is_openuv :: "gcG \<Rightarrow> u32 \<Rightarrow> bool" where
  "is_openuv g a \<longleftrightarrow> (case G_heap g a of Some (OUpval m (UvOpen th i)) \<Rightarrow> True | _ \<Rightarrow> False)"
definition meta_ok :: "gcG \<Rightarrow> u32 \<Rightarrow> bool" where
  "meta_ok g a \<longleftrightarrow> a = 0 \<or> (case G_heap g a of Some (OTab mt t) \<Rightarrow> lookup_ok t | _ \<Rightarrow> False)"

text \<open>Following the frame links from a slot stays in the stack and ends.\<close>

inductive frames_end :: "gcG \<Rightarrow> TValue list \<Rightarrow> int \<Rightarrow> bool" for g stack where
  "f \<le> 0 \<Longrightarrow> frames_end g stack f"
| "0 < f \<Longrightarrow> nat f < length stack \<Longrightarrow> frame_prev g f (stack ! nat f) < f \<Longrightarrow> frames_end g stack (frame_prev g f (stack ! nat f)) \<Longrightarrow> frames_end g stack f"

definition th_ok :: "gcG \<Rightarrow> lua_State \<Rightarrow> bool" where
  "th_ok g s \<longleftrightarrow> 1 \<le> th_base s \<and> th_base s \<le> th_top s \<and> th_top s \<le> length (th_stack s) \<and>
     length (th_stack s) = th_maxstack s + 1 + LJ_STACK_EXTRA \<and> frames_end g (th_stack s) (int (th_base s) - 1)"

text \<open>The values in the parts of a table that the collector visits; those with the tag of a string refer to strings.\<close>

definition tab_vals :: "GCtab \<Rightarrow> TValue set" where
  "tab_vals t = set (array_vals t) \<union> n_key ` set (hash_nodes t) \<union> n_val ` set (hash_nodes t)"

definition strs_ok :: "gcG \<Rightarrow> TValue set \<Rightarrow> bool" where "strs_ok g A \<longleftrightarrow> (\<forall>tv\<in>A. tvisstr tv \<longrightarrow> is_str g (gcrV tv))"

fun obj_ok :: "gcG \<Rightarrow> GCobj \<Rightarrow> bool" where
  "obj_ok g (OThread m s) = th_ok g s"
| "obj_ok g (OProto m pt) = (is_str g (p_chunkname pt) \<and> (\<forall>a\<in>traceref g (p_trace pt). is_trace g a))"
| "obj_ok g (OTrace m T) = (tr_traceno T \<noteq> 0 \<longrightarrow> (\<forall>a\<in>traceref g (tr_link T) \<union> traceref g (tr_nextroot T) \<union> traceref g (tr_nextside T). is_trace g a))"
| "obj_ok g (OTab mt t) = (meta_ok g mt \<and> strs_ok g (tab_vals t))"
| "obj_ok g (OUdata m mt env len) = meta_ok g mt"
| "obj_ok g _ = True"

definition heap_ok :: "gcG \<Rightarrow> bool" where
  "heap_ok g \<longleftrightarrow> (\<forall>a ob. G_heap g a = Some ob \<longrightarrow> obj_ok g ob) \<and> (\<forall>a x. x \<in> kids g a \<longrightarrow> alloc g x)"

lemma view_cases:
  assumes v: "view g' = view g"
  obtains "G_heap g a = None" "G_heap g' a = None" | ob ob' where "G_heap g a = Some ob" "G_heap g' a = Some ob'" "core ob' = core ob"
  using view_eq_cases [OF fun_cong [OF v, of a]] by (metis not_None_eq)

lemma kinds_view:
  assumes v: "view g' = view g"
  shows "is_tab g' a = is_tab g a" "is_str g' a = is_str g a" "is_trace g' a = is_trace g a" "is_udata g' a = is_udata g a" "meta_ok g' a = meta_ok g a"
    "is_thread g' a = is_thread g a" "is_openuv g' a = is_openuv g a"
proof -
  have "is_tab g' a = is_tab g a \<and> is_str g' a = is_str g a \<and> is_trace g' a = is_trace g a \<and> is_udata g' a = is_udata g a \<and> meta_ok g' a = meta_ok g a \<and> is_thread g' a = is_thread g a \<and> is_openuv g' a = is_openuv g a"
  proof (cases rule: view_cases [OF v, of a])
    case (2 ob ob')
    show ?thesis using core_eqs [OF 2(3)] 2(1,2)
      by (cases ob) (auto simp: is_tab_def is_str_def is_trace_def is_udata_def meta_ok_def is_thread_def lookup_ok_def is_openuv_def)
  qed (simp add: is_tab_def is_str_def is_trace_def is_udata_def meta_ok_def is_thread_def is_openuv_def)
  then show "is_tab g' a = is_tab g a" "is_str g' a = is_str g a" "is_trace g' a = is_trace g a" "is_udata g' a = is_udata g a" "meta_ok g' a = meta_ok g a"
    "is_thread g' a = is_thread g a" "is_openuv g' a = is_openuv g a" by simp_all
qed

lemma frames_end_mono: "frames_end g' stack f \<Longrightarrow> G_code g' = G_code g \<Longrightarrow> frames_end g stack f"
proof (induction rule: frames_end.induct)
  case (2 f)
  have "frame_prev g' = frame_prev g" by (simp add: fun_eq_iff frame_prev_def 2(6))
  then show ?case using frames_end.intros(2) [of f stack g] 2 by simp
qed (rule frames_end.intros)

lemma th_ok_code: "same_code g g' \<Longrightarrow> th_ok g' s = th_ok g s"
  using frames_end_mono [of g "th_stack s" _ g'] frames_end_mono [of g' "th_stack s" _ g] by (auto simp: th_ok_def same_code_def)

lemma heap_ok_view:
  assumes v: "view g' = view g" and c: "same_code g g'" and h: "heap_ok g"
  shows "heap_ok g'"
proof -
  have t: "traceref g' = traceref g" using c by (auto simp: same_code_def fun_eq_iff traceref_def)
  have "obj_ok g' ob'" if ob': "G_heap g' a = Some ob'" for a ob'
  proof (cases rule: view_cases [OF v, of a])
    case (2 ob x)
    then have "obj_ok g ob" "core ob' = core ob" using h ob' by (auto simp: heap_ok_def)
    then show ?thesis using core_eqs [of ob' ob] by (cases ob) (auto simp: t kinds_view [OF v] th_ok_code [OF c] strs_ok_def tab_vals_def array_vals_def hash_nodes_def)
  qed (use ob' in simp)
  moreover have "alloc g' x" if "x \<in> kids g' a" for a x using that h by (simp add: kids_view [OF v c] leaf_view(3) [OF v] heap_ok_def)
  ultimately show ?thesis by (auto simp: heap_ok_def)
qed

section \<open>Traversals\<close>

lemma marks_str:
  assumes "is_str g a" "one_colour g"
  shows "marks (gc_mark_str a) {a} g"
proof (cases "iswhite g a")
  case True
  then have "gc_mark_str a g = gc_markobj g a" using assms(1)
    by (auto simp: gc_mark_str_def gc_markobj_def is_str_def gc_mark_if.simps [of False g a] Let_def split: option.splits GCobj.splits)
  then show ?thesis using marks_obj [OF assms(2), of a] by (simp add: marks_def)
next
  case False
  obtain s where s: "G_heap g a = Some (OStr s)" using assms(1) by (auto simp: is_str_def split: option.splits GCobj.splits)
  then have z: "str_marked s AND LJ_GC_WHITES = 0" using False by (simp add: iswhite_def has_bits_def)
  have "str_marked s AND NOT LJ_GC_WHITES = str_marked s"
  proof (rule bit_word_eqI)
    fix n assume "n < LENGTH(8)"
    have "\<not> (bit (str_marked s) n \<and> bit LJ_GC_WHITES n)" using arg_cong [OF z, of "\<lambda>x. bit x n"] by (simp add: bit_and_iff)
    then show "bit (str_marked s AND NOT LJ_GC_WHITES) n = bit (str_marked s) n" using \<open>n < LENGTH(8)\<close> by (auto simp: bit_simps)
  qed
  then have "gc_mark_str a g = g" using s by (simp add: gc_mark_str_def white2gray_def upd_marked_def set_obj_def fun_upd_idem)
  then show ?thesis using False by (simp add: marks_def whites_def)
qed

lemma marks_trace:
  assumes "\<forall>a\<in>traceref g n. is_trace g a" "one_colour g" "n \<noteq> 0"
  shows "marks (\<lambda>g. gc_marktrace g n) (traceref g n) g"
proof (cases "iswhite g (G_trace g n)")
  case True
  then have "listed g (G_trace g n)" using assms(1,3) by (auto simp: is_trace_def listed_def traceref_def split: option.splits GCobj.splits)
  then show ?thesis using mark_push [of "G_trace g n" g] True assms by (auto simp: marks_def gc_marktrace_def traceref_def Let_def whites_def [of g])
next
  case False
  then show ?thesis using assms by (auto simp: marks_def gc_marktrace_def traceref_def Let_def whites_def)
qed

text \<open>A marking operation that works in every later state of the marking.\<close>

definition marks_from :: "gcG \<Rightarrow> (gcG \<Rightarrow> gcG) \<Rightarrow> u32 set \<Rightarrow> bool" where
  "marks_from g0 f A \<longleftrightarrow> (\<forall>g. mark_step g0 g \<longrightarrow> one_colour g \<longrightarrow> marks f A g)"

lemma mf_comp: "marks_from g0 f A \<Longrightarrow> marks_from g0 h B \<Longrightarrow> marks_from g0 (\<lambda>g. h (f g)) (A \<union> B)"
  unfolding marks_from_def by (blast intro: marks_comp marks_one_colour mark_step_trans dest: marks_def [THEN iffD1])

lemma mf_obj: "marks_from g0 (\<lambda>g. gc_markobj g a) {a}" and mf_tv: "marks_from g0 (\<lambda>g. gc_marktv g tv) (tvref tv)"
  and mf_objs: "marks_from g0 (markobjs rs) (set rs)" and mf_tvs: "marks_from g0 (marktvs tvs) (tvrefs tvs)"
  by (simp_all add: marks_from_def marks_obj marks_tv marks_objs marks_tvs)

lemma mf_if: "(c \<Longrightarrow> marks_from g0 f A) \<Longrightarrow> marks_from g0 (\<lambda>g. if c then f g else g) (if c then A else {})"
  by (auto simp: marks_from_def marks_def)

lemma mf_str: "is_str g0 a \<Longrightarrow> marks_from g0 (gc_mark_str a) {a}"
  unfolding marks_from_def using kinds_view(2) [OF mark_stepD(1)] marks_str by blast

lemma mf_trace:
  assumes "\<forall>a\<in>traceref g0 n. is_trace g0 a"
  shows "marks_from g0 (\<lambda>g. if n \<noteq> 0 then gc_marktrace g n else g) (traceref g0 n)"
proof (cases "n = 0")
  case False
  have "marks (\<lambda>g. gc_marktrace g n) (traceref g0 n) g" if m: "mark_step g0 g" "one_colour g" for g
  proof -
    have t: "traceref g n = traceref g0 n" using mark_stepD(2) [OF m(1)] by (simp add: traceref_def same_code_def)
    have "\<forall>a\<in>traceref g n. is_trace g a" using assms by (simp add: t kinds_view [OF mark_stepD(1) [OF m(1)]])
    then show ?thesis using marks_trace [OF _ m(2) False] t by simp
  qed
  then show ?thesis using False by (simp add: marks_from_def)
qed (simp add: marks_from_def marks_def traceref_def)

lemma mf_fold: "(\<And>x. x \<in> set xs \<Longrightarrow> marks_from g0 (f x) (A x)) \<Longrightarrow> marks_from g0 (fold f xs) (\<Union> (A ` set xs))"
proof (induction xs)
  case (Cons x xs)
  have "marks_from g0 (\<lambda>g. fold f xs (f x g)) (A x \<union> \<Union> (A ` set xs))" using Cons by (intro mf_comp) auto
  then show ?case by (simp add: o_def)
qed (simp add: marks_from_def marks_def)

lemma mf_mono: "marks_from g0 f A \<Longrightarrow> B \<subseteq> A \<Longrightarrow> marks_from g0 f B" by (auto simp: marks_from_def marks_def)

lemma mf_func: "marks_from g0 (\<lambda>g. gc_traverse_func g env fn) (insert env (fn_refs fn))"
proof (cases fn)
  case (FnL pt uvs)
  show ?thesis using mf_comp [OF mf_comp [OF mf_obj [of g0 env] mf_obj [of g0 pt]] mf_objs [of g0 uvs]] FnL by (simp add: gc_traverse_func_def Let_def insert_commute Un_commute)
next
  case (FnC ups)
  show ?thesis using mf_comp [OF mf_obj [of g0 env] mf_tvs [of g0 ups]] FnC by (simp add: gc_traverse_func_def Let_def)
qed

lemma mf_proto:
  assumes "is_str g0 (p_chunkname pt)" "\<forall>a\<in>traceref g0 (p_trace pt). is_trace g0 a"
  shows "marks_from g0 (\<lambda>g. gc_traverse_proto g pt) (insert (p_chunkname pt) (set (p_kgc pt)) \<union> traceref g0 (p_trace pt))"
  using mf_comp [OF mf_comp [OF mf_str [OF assms(1)] mf_objs [of g0 "p_kgc pt"]] mf_trace [OF assms(2)]] by (simp add: gc_traverse_proto_def Let_def)

lemma mf_tracetrav:
  assumes "tr_traceno T \<noteq> 0 \<longrightarrow> (\<forall>a\<in>traceref g0 (tr_link T) \<union> traceref g0 (tr_nextroot T) \<union> traceref g0 (tr_nextside T). is_trace g0 a)"
  shows "marks_from g0 (\<lambda>g. gc_traverse_trace g T) (trace_refs g0 T)"
proof (cases "tr_traceno T = 0")
  case False
  then have t: "\<forall>a\<in>traceref g0 (tr_link T). is_trace g0 a" "\<forall>a\<in>traceref g0 (tr_nextroot T). is_trace g0 a" "\<forall>a\<in>traceref g0 (tr_nextside T). is_trace g0 a" using assms by auto
  show ?thesis using mf_comp [OF mf_comp [OF mf_comp [OF mf_comp [OF mf_objs [of g0 "map ir_op12 (filter (\<lambda>ir. ir_o ir = IR_KGC) (tr_k T))"]
      mf_trace [OF t(1)]] mf_trace [OF t(2)]] mf_trace [OF t(3)]] mf_obj [of g0 "tr_startpt T"]] False
    by (simp add: gc_traverse_trace_def [abs_def] Let_def trace_refs_def)
qed (simp add: gc_traverse_trace_def marks_from_def marks_def trace_refs_def)

text \<open>The strong references of a table with the given weak bits.\<close>

definition strong_refs :: "u8 \<Rightarrow> u32 \<Rightarrow> GCtab \<Rightarrow> u32 set" where
  "strong_refs weak mt t = nonnull mt \<union> (if weak AND LJ_GC_WEAKVAL = 0 then tvrefs (array_vals t) else {}) \<union>
     \<Union> ((\<lambda>n. (if weak AND LJ_GC_WEAKKEY = 0 then tvref (n_key n) else {}) \<union> (if weak AND LJ_GC_WEAKVAL = 0 then tvref (n_val n) else {})) `
        {n \<in> set (hash_nodes t). \<not> tvisnil (n_val n)})"

lemma mf_nodes: "marks_from g0 (fold (mark_node weak) ns)
    (\<Union> ((\<lambda>n. (if weak AND LJ_GC_WEAKKEY = 0 then tvref (n_key n) else {}) \<union> (if weak AND LJ_GC_WEAKVAL = 0 then tvref (n_val n) else {})) `
        {n \<in> set ns. \<not> tvisnil (n_val n)}))"
proof -
  have "marks_from g0 (mark_node weak n) (if tvisnil (n_val n) then {} else
      (if weak AND LJ_GC_WEAKKEY = 0 then tvref (n_key n) else {}) \<union> (if weak AND LJ_GC_WEAKVAL = 0 then tvref (n_val n) else {}))" for n
  proof (cases "tvisnil (n_val n)")
    case False
    show ?thesis using mf_comp [OF mf_if [of "weak AND LJ_GC_WEAKKEY = 0", OF mf_tv [of g0 "n_key n"]]
        mf_if [of "weak AND LJ_GC_WEAKVAL = 0", OF mf_tv [of g0 "n_val n"]]] False
      by (simp only: mark_node_def [abs_def] Let_def if_False)
  qed (simp add: marks_from_def marks_def mark_node_def)
  note f = mf_fold [of ns g0 "mark_node weak", OF this]
  show ?thesis by (rule mf_mono [OF f]) (auto split: if_splits)
qed

section \<open>The invariant of the mark phase\<close>

definition gray_lists :: "gcG \<Rightarrow> u32 list" where "gray_lists g = G_gray g @ G_grayagain g @ G_weak g"

text \<open>The references that the traversal of a table with its present weak bits marks; those of any other object.\<close>

definition strong_kids :: "gcG \<Rightarrow> u32 \<Rightarrow> u32 set" where
  "strong_kids g a = (case G_heap g a of Some (OTab mt t) \<Rightarrow> strong_refs (t_marked t AND LJ_GC_WEAK) mt t | _ \<Rightarrow> kids g a)"

text \<open>
  Each white object has the current white. Gray objects are on a list, or are strings, C data or open
  upvalues. Black objects refer to no white one; those of \<open>mmudata\<close> may be left from an earlier cycle. Objects
  of \<open>X\<close> are being traversed. The flags say that no mutation intervenes: the values of gray
  open upvalues (\<open>U\<close>), the strong references of weak tables (\<open>W\<close>) and the references of the objects for
  the second traversal (\<open>T\<close>) are not white.
\<close>

definition minv :: "u32 set \<Rightarrow> bool \<Rightarrow> bool \<Rightarrow> bool \<Rightarrow> gcG \<Rightarrow> bool" where
  "minv X U W T g \<longleftrightarrow> heap_ok g \<and> one_colour g \<and> (\<forall>a. iswhite g a \<longrightarrow> marked_at g a AND LJ_GC_WHITES = gc_curwhite g) \<and>
     distinct (gray_lists g) \<and> (\<forall>a\<in>set (gray_lists g). listed g a \<and> (a \<notin> X \<longrightarrow> isgray g a)) \<and> (\<forall>a\<in>set (G_weak g). is_tab g a) \<and>
     (\<forall>a. isblack g a \<longrightarrow> a \<notin> X \<longrightarrow> \<not> is_thread g a \<and> \<not> leaf g a \<and> (a \<notin> set (G_mmudata g) \<longrightarrow> kids g a \<inter> whites g = {})) \<and>
     (\<forall>a. isgray g a \<longrightarrow> a \<in> set (gray_lists g) \<or> leaf g a \<and> (U \<longrightarrow> kids g a \<inter> whites g = {})) \<and>
     (\<forall>a\<in>set (G_mmudata g). is_udata g a) \<and>
     (W \<longrightarrow> (\<forall>a\<in>set (G_weak g). a \<notin> X \<longrightarrow> strong_kids g a \<inter> whites g = {})) \<and>
     (T \<longrightarrow> (\<forall>a\<in>set (G_grayagain g). a \<notin> X \<longrightarrow> kids g a \<inter> whites g = {}))"

lemma minvD:
  assumes "minv X U W T g"
  shows "heap_ok g" "one_colour g" "iswhite g a \<Longrightarrow> marked_at g a AND LJ_GC_WHITES = gc_curwhite g" "distinct (gray_lists g)"
    "a \<in> set (gray_lists g) \<Longrightarrow> listed g a" "a \<in> set (gray_lists g) \<Longrightarrow> a \<notin> X \<Longrightarrow> isgray g a" "a \<in> set (G_weak g) \<Longrightarrow> is_tab g a"
    "isblack g a \<Longrightarrow> a \<notin> X \<Longrightarrow> \<not> is_thread g a \<and> \<not> leaf g a" "isblack g a \<Longrightarrow> a \<notin> X \<Longrightarrow> a \<notin> set (G_mmudata g) \<Longrightarrow> kids g a \<inter> whites g = {}"
    "isgray g a \<Longrightarrow> a \<in> set (gray_lists g) \<or> leaf g a \<and> (U \<longrightarrow> kids g a \<inter> whites g = {})" "a \<in> set (G_mmudata g) \<Longrightarrow> is_udata g a"
    "W \<Longrightarrow> a \<in> set (G_weak g) \<Longrightarrow> a \<notin> X \<Longrightarrow> strong_kids g a \<inter> whites g = {}"
    "T \<Longrightarrow> a \<in> set (G_grayagain g) \<Longrightarrow> a \<notin> X \<Longrightarrow> kids g a \<inter> whites g = {}"
  using assms unfolding minv_def by blast+

lemma minvI:
  assumes "heap_ok g" "one_colour g" "\<And>a. iswhite g a \<Longrightarrow> marked_at g a AND LJ_GC_WHITES = gc_curwhite g" "distinct (gray_lists g)"
    "\<And>a. a \<in> set (gray_lists g) \<Longrightarrow> listed g a" "\<And>a. a \<in> set (gray_lists g) \<Longrightarrow> a \<notin> X \<Longrightarrow> isgray g a" "\<And>a. a \<in> set (G_weak g) \<Longrightarrow> is_tab g a"
    "\<And>a. isblack g a \<Longrightarrow> a \<notin> X \<Longrightarrow> \<not> is_thread g a \<and> \<not> leaf g a" "\<And>a. isblack g a \<Longrightarrow> a \<notin> X \<Longrightarrow> a \<notin> set (G_mmudata g) \<Longrightarrow> kids g a \<inter> whites g = {}"
    "\<And>a. isgray g a \<Longrightarrow> a \<in> set (gray_lists g) \<or> leaf g a \<and> (U \<longrightarrow> kids g a \<inter> whites g = {})" "\<And>a. a \<in> set (G_mmudata g) \<Longrightarrow> is_udata g a"
    "\<And>a. W \<Longrightarrow> a \<in> set (G_weak g) \<Longrightarrow> a \<notin> X \<Longrightarrow> strong_kids g a \<inter> whites g = {}"
    "\<And>a. T \<Longrightarrow> a \<in> set (G_grayagain g) \<Longrightarrow> a \<notin> X \<Longrightarrow> kids g a \<inter> whites g = {}"
  shows "minv X U W T g"
  unfolding minv_def using assms by blast

text \<open>What a step of the marking leaves alone.\<close>

definition rest :: "gcG \<Rightarrow> gcG" where
  "rest g = g\<lparr>G_heap := (\<lambda>a. None), G_gray := [], G_grayagain := [], G_weak := [], G_total := 0\<rparr>"

lemma rest_fields:
  assumes "rest g' = rest g"
  shows "G_mmudata g' = G_mmudata g" "G_white g' = G_white g" "G_state g' = G_state g" "G_root g' = G_root g" "G_gcroot g' = G_gcroot g"
    "G_registrytv g' = G_registrytv g" "G_mainth g' = G_mainth g" "G_uvhead g' = G_uvhead g" "G_cur g' = G_cur g" "same_code g g'" "G_strhash g' = G_strhash g"
    "G_strempty g' = G_strempty g" "G_jit_L g' = G_jit_L g" "gc_curwhite g' = gc_curwhite g"
proof -
  show mmudata: "G_mmudata g' = G_mmudata g" using arg_cong [OF assms, of G_mmudata] by (simp add: rest_def)
  show white: "G_white g' = G_white g" using arg_cong [OF assms, of G_white] by (simp add: rest_def)
  show state: "G_state g' = G_state g" using arg_cong [OF assms, of G_state] by (simp add: rest_def)
  show root: "G_root g' = G_root g" using arg_cong [OF assms, of G_root] by (simp add: rest_def)
  show gcroot: "G_gcroot g' = G_gcroot g" using arg_cong [OF assms, of G_gcroot] by (simp add: rest_def)
  show registrytv: "G_registrytv g' = G_registrytv g" using arg_cong [OF assms, of G_registrytv] by (simp add: rest_def)
  show mainth: "G_mainth g' = G_mainth g" using arg_cong [OF assms, of G_mainth] by (simp add: rest_def)
  show uvhead: "G_uvhead g' = G_uvhead g" using arg_cong [OF assms, of G_uvhead] by (simp add: rest_def)
  show cur: "G_cur g' = G_cur g" using arg_cong [OF assms, of G_cur] by (simp add: rest_def)
  show strhash: "G_strhash g' = G_strhash g" using arg_cong [OF assms, of G_strhash] by (simp add: rest_def)
  show strempty: "G_strempty g' = G_strempty g" using arg_cong [OF assms, of G_strempty] by (simp add: rest_def)
  show jit_l: "G_jit_L g' = G_jit_L g" using arg_cong [OF assms, of G_jit_L] by (simp add: rest_def)
  show "same_code g g'" using arg_cong [OF assms, of G_trace] arg_cong [OF assms, of G_code] by (simp add: rest_def same_code_def)
  show "gc_curwhite g' = gc_curwhite g" by (simp add: gc_curwhite_def white)
qed

lemma rest_mark: "mark_step g g' \<Longrightarrow> rest g' = rest g"
proof -
  assume "mark_step g g'"
  then obtain gs h where "g' = g\<lparr>G_heap := h, G_gray := gs @ G_gray g\<rparr>" unfolding mark_step_def by blast
  then show ?thesis by (simp add: rest_def)
qed

lemma gray_lists_mark:
  assumes "mark_step g g'"
  obtains gs where "G_gray g' = gs @ G_gray g" "G_grayagain g' = G_grayagain g" "G_weak g' = G_weak g" "distinct gs" "set gs \<subseteq> whites g - whites g'"
    "\<And>x. x \<in> set gs \<Longrightarrow> isgray g' x \<and> listed g' x" "\<And>x. x \<in> whites g - whites g' \<Longrightarrow> x \<in> set gs \<or> settled g' x"
proof -
  obtain gs where gs: "g' = g\<lparr>G_heap := G_heap g', G_gray := gs @ G_gray g\<rparr>" "distinct gs" "set gs \<subseteq> whites g - whites g'"
    "\<forall>x\<in>set gs. isgray g' x \<and> listed g' x" "\<forall>x\<in>whites g - whites g'. x \<in> set gs \<or> settled g' x" using assms unfolding mark_step_def by blast
  obtain h where "g' = g\<lparr>G_heap := h, G_gray := gs @ G_gray g\<rparr>" using gs(1) by blast
  then have "G_gray g' = gs @ G_gray g" "G_grayagain g' = G_grayagain g" "G_weak g' = G_weak g" by simp_all
  then show ?thesis using that gs(2-5) by blast
qed

lemma strong_kids_same: "G_heap g' a = G_heap g a \<Longrightarrow> kids g' a = kids g a \<Longrightarrow> strong_kids g' a = strong_kids g a"
  by (simp add: strong_kids_def split: option.split GCobj.split)

lemma minv_step:
  assumes i: "minv X U W T g" and m: "mark_step g g'" and x: "X \<inter> whites g = {}"
  shows "minv X U W T g'"
proof -
  obtain gs where gs: "G_gray g' = gs @ G_gray g" "G_grayagain g' = G_grayagain g" "G_weak g' = G_weak g" "distinct gs" "set gs \<subseteq> whites g - whites g'"
    "\<And>x. x \<in> set gs \<Longrightarrow> isgray g' x \<and> listed g' x" "\<And>x. x \<in> whites g - whites g' \<Longrightarrow> x \<in> set gs \<or> settled g' x" by (rule gray_lists_mark [OF m]) blast
  note I = minvD [OF i] and M = mark_stepD [OF m] and R = rest_fields [OF rest_mark [OF m]] and K = kinds_view [OF M(1)]
  have nw: "a \<notin> whites g" if "a \<in> set (gray_lists g)" for a using I(6) [OF that] x by (cases "a \<in> X") (auto simp: colours(1) whites_def)
  have gl: "gray_lists g' = gs @ gray_lists g" by (simp add: gray_lists_def gs)
  have old: "G_heap g' a = G_heap g a" if "a \<in> set (gray_lists g)" for a using M(4) [OF nw [OF that]] .
  have sub: "A \<inter> whites g = {} \<Longrightarrow> A \<inter> whites g' = {}" for A using M(3) by auto
  have white: "isblack g' a \<Longrightarrow> a \<notin> whites g'" "isgray g' a \<Longrightarrow> a \<notin> whites g'" for a
    using one_colour_step [OF m I(2)] by (auto simp: one_colour_def whites_def colours(1))
  show ?thesis
  proof (rule minvI)
    show "heap_ok g'" by (rule heap_ok_view [OF M(1,2) I(1)])
    show "one_colour g'" by (rule one_colour_step [OF m I(2)])
    show "marked_at g' a AND LJ_GC_WHITES = gc_curwhite g'" if "iswhite g' a" for a
      using I(3) [of a] M(3) M(9) [of a] that R(14) by (auto simp: whites_def marked_at_def)
    show "distinct (gray_lists g')" using gs(4,5) I(4) nw by (auto simp: gl)
    show "listed g' a" if "a \<in> set (gray_lists g')" for a using that gs(6) I(5) M(8) by (auto simp: gl)
    show "isgray g' a" if "a \<in> set (gray_lists g')" "a \<notin> X" for a using that gs(6) I(6) same_heap_colour(3) [OF old] by (auto simp: gl)
    show "is_tab g' a" if "a \<in> set (G_weak g')" for a using that I(7) K(1) by (simp add: gs)
    show "\<not> is_thread g' a \<and> \<not> leaf g' a" if b: "isblack g' a" "a \<notin> X" for a
    proof (cases "a \<in> whites g")
      case True
      then have "settled g' a" using gs(6,7) [of a] white(1) [OF b(1)] b(1) by (auto simp: colours(1))
      then show ?thesis using b(1) by (auto simp: settled_def colours(1) listed_def is_thread_def split: option.splits GCobj.splits)
    next
      case False
      then show ?thesis using I(8) [of a] mark_step_keeps(3) [OF m False] b K(6) M(7) by auto
    qed
    show "kids g' a \<inter> whites g' = {}" if b: "isblack g' a" "a \<notin> X" "a \<notin> set (G_mmudata g')" for a
    proof (cases "a \<in> whites g")
      case True
      then have "settled g' a" using gs(6,7) [of a] white(1) [OF b(1)] b(1) by (auto simp: colours(1))
      then show ?thesis by (simp add: settled_def)
    next
      case False
      then have "kids g a \<inter> whites g = {}" using I(9) [of a] mark_step_keeps(3) [OF m False] b R(1) by auto
      then show ?thesis using sub M(5) by simp
    qed
    show "a \<in> set (gray_lists g') \<or> leaf g' a \<and> (U \<longrightarrow> kids g' a \<inter> whites g' = {})" if b: "isgray g' a" for a
    proof (cases "a \<in> whites g")
      case True
      then show ?thesis using gs(7) [of a] white(2) [OF b] b by (auto simp: gl settled_def colours(1))
    next
      case False
      then show ?thesis using I(10) [of a] mark_step_keeps(2) [OF m False] b sub M(5,7) by (auto simp: gl)
    qed
    show "is_udata g' a" if "a \<in> set (G_mmudata g')" for a using that I(11) K(4) R(1) by simp
    show "strong_kids g' a \<inter> whites g' = {}" if W "a \<in> set (G_weak g')" "a \<notin> X" for a
      using sub [OF I(12) [OF that(1) _ that(3)]] that(2) strong_kids_same [OF old M(5), of a] by (simp add: gs gray_lists_def)
    show "kids g' a \<inter> whites g' = {}" if T "a \<in> set (G_grayagain g')" "a \<notin> X" for a
      using sub [OF I(13) [OF that(1) _ that(3)]] that(2) M(5) by (simp add: gs)
  qed
qed

section \<open>Other steps\<close>

definition same_kinds :: "gcG \<Rightarrow> gcG \<Rightarrow> bool" where
  "same_kinds g g' \<longleftrightarrow> (\<forall>a. alloc g' a = alloc g a \<and> leaf g' a = leaf g a \<and> listed g' a = listed g a \<and> is_tab g' a = is_tab g a \<and>
     is_thread g' a = is_thread g a \<and> is_udata g' a = is_udata g a \<and> is_str g' a = is_str g a \<and> is_trace g' a = is_trace g a \<and> is_openuv g' a = is_openuv g a)"

definition same_colours :: "gcG \<Rightarrow> gcG \<Rightarrow> bool" where
  "same_colours g g' \<longleftrightarrow> (\<forall>a. alloc g' a = alloc g a \<and> marked_at g' a AND LJ_GC_COLORS = marked_at g a AND LJ_GC_COLORS)"

lemma same_coloursD:
  assumes "same_colours g g'"
  shows "iswhite g' a = iswhite g a" "isblack g' a = isblack g a" "isgray g' a = isgray g a" "whites g' = whites g"
    "marked_at g' a AND LJ_GC_WHITES = marked_at g a AND LJ_GC_WHITES"
proof -
  have "m AND LJ_GC_WHITES = (m AND LJ_GC_COLORS) AND LJ_GC_WHITES" "m AND LJ_GC_BLACK = (m AND LJ_GC_COLORS) AND LJ_GC_BLACK" for m
    unfolding and.assoc by (simp_all add: LJ_GC_COLORS_def LJ_GC_WHITES_def LJ_GC_BLACK_def)
  note b = this
  have s: "alloc g' a = alloc g a" "marked_at g' a AND LJ_GC_COLORS = marked_at g a AND LJ_GC_COLORS" for a using assms by (auto simp: same_colours_def)
  show bits: "marked_at g' a AND LJ_GC_WHITES = marked_at g a AND LJ_GC_WHITES" for a using b(1) s(2) [of a] by metis
  show w: "iswhite g' a = iswhite g a" for a by (simp add: iswhite_def bits_at s(1) bits)
  show "isblack g' a = isblack g a" for a using b(2) s [of a] by (metis isblack_def bits_at)
  then show "isgray g' a = isgray g a" by (simp add: colours(1) s(1) w)
  show "whites g' = whites g" using w by (simp add: whites_def)
qed

lemma minv_neutral:
  assumes i: "minv X U W T g" and h: "heap_ok g'" and c: "same_colours g g'" and k: "same_kinds g g'" and r: "rest g' = rest g"
    and l: "G_gray g' = G_gray g" "G_grayagain g' = G_grayagain g" "G_weak g' = G_weak g"
    and s: "\<And>a. kids g' a \<subseteq> kids g a" "\<And>a. a \<notin> X \<Longrightarrow> strong_kids g' a \<subseteq> strong_kids g a"
  shows "minv X U W T g'"
proof -
  note I = minvD [OF i] and C = same_coloursD [OF c] and R = rest_fields [OF r]
  have K: "leaf g' a = leaf g a" "listed g' a = listed g a" "is_tab g' a = is_tab g a" "is_thread g' a = is_thread g a" "is_udata g' a = is_udata g a" for a
    using k by (auto simp: same_kinds_def)
  have gl: "gray_lists g' = gray_lists g" by (simp add: gray_lists_def l)
  have sub: "A \<inter> whites g = {} \<Longrightarrow> B \<subseteq> A \<Longrightarrow> B \<inter> whites g = {}" for A B by auto
  show ?thesis
  proof (rule minvI)
    show "heap_ok g'" by (rule h)
    show "one_colour g'" using I(2) by (simp add: one_colour_def C)
    show "marked_at g' a AND LJ_GC_WHITES = gc_curwhite g'" if "iswhite g' a" for a using I(3) that by (simp add: C R(14))
    show "distinct (gray_lists g')" using I(4) by (simp add: gl)
    show "listed g' a" if "a \<in> set (gray_lists g')" for a using I(5) that by (simp add: gl K)
    show "isgray g' a" if "a \<in> set (gray_lists g')" "a \<notin> X" for a using I(6) that by (simp add: gl C)
    show "is_tab g' a" if "a \<in> set (G_weak g')" for a using I(7) that by (simp add: K l)
    show "\<not> is_thread g' a \<and> \<not> leaf g' a" if "isblack g' a" "a \<notin> X" for a using I(8) that by (simp add: K C)
    show "kids g' a \<inter> whites g' = {}" if "isblack g' a" "a \<notin> X" "a \<notin> set (G_mmudata g')" for a
      using sub [OF I(9) s(1)] that by (simp add: C R(1))
    show "a \<in> set (gray_lists g') \<or> leaf g' a \<and> (U \<longrightarrow> kids g' a \<inter> whites g' = {})" if "isgray g' a" for a
      using I(10) [of a] sub [OF _ s(1) [of a]] that by (auto simp: C gl K)
    show "is_udata g' a" if "a \<in> set (G_mmudata g')" for a using I(11) that by (simp add: K R(1))
    show "strong_kids g' a \<inter> whites g' = {}" if W "a \<in> set (G_weak g')" "a \<notin> X" for a using sub [OF I(12) s(2)] that by (simp add: C l)
    show "kids g' a \<inter> whites g' = {}" if T "a \<in> set (G_grayagain g')" "a \<notin> X" for a using sub [OF I(13) s(1)] that by (simp add: C l)
  qed
qed

text \<open>Looking up a metamethod may fill the negative cache of the metatable.\<close>

lemma view_same_kinds: "view g' = view g \<Longrightarrow> same_kinds g g'"
proof -
  assume v: "view g' = view g"
  show ?thesis by (simp add: same_kinds_def leaf_view [OF v] kinds_view [OF v])
qed

lemma nomm_ok:
  assumes t: "G_heap g a = Some (OTab mt t)" and g': "g' = set_obj a (OTab mt (t\<lparr>t_nomm := n\<rparr>)) g"
  shows "view g' = view g" "same_colours g g'" "rest g' = rest g" "strong_kids g' x = strong_kids g x" "same_code g g'"
    "G_gray g' = G_gray g" "G_grayagain g' = G_grayagain g" "G_weak g' = G_weak g"
proof -
  show v: "view g' = view g" using t by (auto simp: view_def fun_eq_iff g' set_obj_def)
  show "same_colours g g'" using t by (simp add: same_colours_def alloc_def marked_at_def g' set_obj_def)
  show "rest g' = rest g" "G_gray g' = G_gray g" "G_grayagain g' = G_grayagain g" "G_weak g' = G_weak g" by (simp_all add: rest_def g' set_obj_def)
  show c: "same_code g g'" by (simp add: same_code_def g' set_obj_def)
  show "strong_kids g' x = strong_kids g x" using t kids_view [OF v c, of x]
    by (auto simp: strong_kids_def g' set_obj_def strong_refs_def array_vals_def hash_nodes_def split: option.split GCobj.split)
qed

lemma fastg_ok:
  assumes m: "meta_ok g mt"
  obtains mode g' where "lj_meta_fastg g mt mm = Some (mode, g')" "view g' = view g" "same_colours g g'" "rest g' = rest g"
    "\<And>x. strong_kids g' x = strong_kids g x" "same_code g g'" "G_gray g' = G_gray g" "G_grayagain g' = G_grayagain g" "G_weak g' = G_weak g"
proof -
  have id: "same_colours g g" "same_code g g" by (simp_all add: same_colours_def same_code_def)
  show ?thesis
  proof (cases "mt = 0")
    case True
    then show ?thesis using that [of None g] id by (simp add: lj_meta_fastg_def)
  next
    case False
    then obtain m' t where t: "G_heap g mt = Some (OTab m' t)" "lookup_ok t" using m by (auto simp: meta_ok_def split: option.splits GCobj.splits)
    obtain r where r: "lj_tab_getstr (gc_tabenv g) t (mmname_str g mm) = Some r" using getstr_ends [OF t(2)] by blast
    let ?n = "t_nomm t OR push_bit (unat (mm_num mm)) 1"
    have "lj_meta_fastg g mt mm = Some (None, g) \<or> (\<exists>mo. lj_meta_fastg g mt mm = Some (Some mo, g)) \<or>
        lj_meta_fastg g mt mm = Some (None, set_obj mt (OTab m' (t\<lparr>t_nomm := ?n\<rparr>)) g)"
      using False t r by (auto simp: lj_meta_fastg_def lj_meta_cache_def split: option.splits)
    then show ?thesis
    proof (elim disjE exE)
      assume "lj_meta_fastg g mt mm = Some (None, g)"
      then show ?thesis by (rule that) (use id in simp_all)
    next
      fix mo assume "lj_meta_fastg g mt mm = Some (Some mo, g)"
      then show ?thesis by (rule that) (use id in simp_all)
    next
      assume "lj_meta_fastg g mt mm = Some (None, set_obj mt (OTab m' (t\<lparr>t_nomm := ?n\<rparr>)) g)"
      then show ?thesis by (rule that) (rule nomm_ok [OF t(1) refl])+
    qed
  qed
qed

lemma minv_view:
  assumes "minv X U W T g" "view g' = view g" "same_colours g g'" "rest g' = rest g" "same_code g g'"
    "\<And>x. strong_kids g' x = strong_kids g x" "G_gray g' = G_gray g" "G_grayagain g' = G_grayagain g" "G_weak g' = G_weak g"
  shows "minv X U W T g'"
  by (rule minv_neutral [OF assms(1) heap_ok_view [OF assms(2,5) minvD(1) [OF assms(1)]] assms(3) view_same_kinds [OF assms(2)] assms(4,7-9)])
    (simp_all add: kids_view [OF assms(2,5)] assms(6))

section \<open>Propagating one object\<close>

definition gmeasure :: "gcG \<Rightarrow> nat" where "gmeasure g = card (whites g) + length (G_gray g)"

lemma gmeasure_mark: "mark_step g g' \<Longrightarrow> gmeasure g' \<le> gmeasure g"
proof -
  assume m: "mark_step g g'"
  obtain gs where gs: "G_gray g' = gs @ G_gray g" "distinct gs" "set gs \<subseteq> whites g - whites g'" by (rule gray_lists_mark [OF m]) blast
  have "length gs + card (whites g') = card (set gs \<union> whites g')" using gs(2,3) by (subst card_Un_disjoint) (auto simp: distinct_card)
  also have "\<dots> \<le> card (whites g)" using gs(3) mark_stepD(3) [OF m] by (intro card_mono) auto
  finally show ?thesis by (simp add: gmeasure_def gs(1))
qed

text \<open>What one step of the propagation achieves.\<close>

definition progress :: "gcG \<Rightarrow> gcG \<Rightarrow> bool" where
  "progress g g' \<longleftrightarrow> rest g' = rest g \<and> whites g' \<subseteq> whites g \<and> same_kinds g g' \<and> (\<forall>a. kids g' a \<subseteq> kids g a)"

lemma progress_mark: "mark_step g g' \<Longrightarrow> progress g g'"
  by (simp add: progress_def rest_mark mark_stepD(3,5) view_same_kinds [OF mark_stepD(1)])

lemma progress_trans: "progress g g' \<Longrightarrow> progress g' g'' \<Longrightarrow> progress g g''"
proof -
  assume a: "progress g g'" "progress g' g''"
  have "kids g'' x \<subseteq> kids g x" for x using a subset_trans [of "kids g'' x" "kids g' x" "kids g x"] by (simp add: progress_def)
  moreover have "same_kinds g g''" using a by (simp add: progress_def same_kinds_def)
  ultimately show ?thesis using a by (auto simp: progress_def)
qed

lemma progress_refl [simp]: "progress g g" by (simp add: progress_def same_kinds_def)

lemma gray2black_state:
  "rest (gray2black a g) = rest g" "rest (black2gray a g) = rest g" "G_gray (gray2black a g) = G_gray g" "G_grayagain (gray2black a g) = G_grayagain g"
  "G_weak (gray2black a g) = G_weak g" "G_gray (black2gray a g) = G_gray g" "G_grayagain (black2gray a g) = G_grayagain g" "G_weak (black2gray a g) = G_weak g"
  by (simp_all add: gray2black_def black2gray_def rest_def upd_marked_def set_obj_def split: option.split)

lemma list_upd_same:
  fixes g g' :: gcG
  assumes "G_heap g' = G_heap g" "same_code g g'"
  shows "view g' = view g" "same_colours g g'" "kids g' a = kids g a" "strong_kids g' a = strong_kids g a" "heap_ok g' = heap_ok g" "same_kinds g g'" "whites g' = whites g"
proof -
  show v: "view g' = view g" by (simp add: view_def fun_eq_iff assms)
  show c: "same_colours g g'" by (simp add: same_colours_def alloc_def marked_at_def assms)
  show k: "kids g' x = kids g x" for x by (rule kids_view [OF v assms(2)])
  show "strong_kids g' a = strong_kids g a" by (rule strong_kids_same) (simp_all add: k assms)
  have "same_code g' g" using assms(2) by (simp add: same_code_def)
  then show "heap_ok g' = heap_ok g" using heap_ok_view [OF v assms(2)] heap_ok_view [OF v [symmetric]] by blast
  show "same_kinds g g'" by (rule view_same_kinds [OF v])
  show "whites g' = whites g" by (rule same_coloursD(4) [OF c])
qed

lemma pop_ok:
  assumes i: "minv {} U W T g" and p: "G_gray g = a # as"
  defines "g1 \<equiv> (gray2black a g)\<lparr>G_gray := as\<rparr>"
  shows "minv {a} U W T g1" "a \<notin> whites g1" "isblack g1 a" "a \<notin> set (gray_lists g1)" "kids g1 x = kids g x" "progress g g1" "gmeasure g1 < gmeasure g" "view g1 = view g"
    "same_code g g1"
proof -
  note I = minvD [OF i]
  have ag: "a \<in> set (gray_lists g)" using p by (simp add: gray_lists_def)
  have w: "\<not> iswhite g a" "alloc g a" using I(6) [OF ag] by (auto simp: colours(1))
  define h where "h = gray2black a g"
  have r: "recol a g h" unfolding h_def by (rule recol_gray2black [OF w(1)])
  note A = recolD [OF r]
  have e: "G_heap g1 = G_heap h" "same_code h g1" by (simp_all add: g1_def h_def same_code_def)
  note E = list_upd_same [OF e]
  have L: "G_gray g1 = as" "G_grayagain g1 = G_grayagain g" "G_weak g1 = G_weak g" by (simp_all add: g1_def gray2black_state)
  have r1: "rest g1 = rest g" using gray2black_state(1) [of a g] by (simp add: g1_def rest_def)
  note R = rest_fields [OF r1]
  have wh: "whites g1 = whites g" using E(7) A(3) w(1) by (auto simp: whites_def)
  have v: "view g1 = view g" using E(1) A(1) by simp
  have c: "same_code g g1" by (rule R(10))
  have k: "kids g1 x = kids g x" for x by (rule kids_view [OF v c])
  have K: "leaf g1 x = leaf g x" "listed g1 x = listed g x" "alloc g1 x = alloc g x" for x by (rule leaf_view [OF v])+
  have o: "G_heap g1 x = G_heap g x" if "x \<noteq> a" for x using e(1) A(4) [OF that] by simp
  note oc = same_heap_colour [OF o] and oks = strong_kids_same [OF o k]
  have gl: "set (gray_lists g) = insert a (set (gray_lists g1))" "a \<notin> set (gray_lists g1)" "distinct (gray_lists g1)"
    using p I(4) by (auto simp: gray_lists_def L)
  have b: "isblack g1 a" using black_after [OF w(2)] same_heap_colour(1) [OF fun_cong [OF e(1)]] by (simp add: h_def)
  show "kids g1 x = kids g x" "view g1 = view g" "same_code g g1" "isblack g1 a" "a \<notin> set (gray_lists g1)" by (fact k v c b gl)+
  show "a \<notin> whites g1" using w wh by (simp add: whites_def)
  show "progress g g1" using r1 wh k view_same_kinds [OF v] by (simp add: progress_def)
  show "gmeasure g1 < gmeasure g" by (simp add: gmeasure_def wh L p)
  have nb: "isblack g1 x \<Longrightarrow> x \<noteq> a \<Longrightarrow> isblack g x" for x using oc(1) by simp
  show "minv {a} U W T g1"
  proof (rule minvI)
    show "heap_ok g1" by (rule heap_ok_view [OF v c I(1)])
    show "one_colour g1" using I(2) oc(1) wh w(1) unfolding one_colour_def whites_def by (metis mem_Collect_eq)
    show "marked_at g1 x AND LJ_GC_WHITES = gc_curwhite g1" if "iswhite g1 x" for x
    proof -
      have x: "iswhite g x" using that wh by (auto simp: whites_def)
      then have "x \<noteq> a" using w by auto
      then show ?thesis using I(3) [OF x] o R(14) by (simp add: marked_at_def)
    qed
    show "distinct (gray_lists g1)" by (rule gl)
    show "listed g1 x" if "x \<in> set (gray_lists g1)" for x using I(5) that gl K by auto
    show "isgray g1 x" if "x \<in> set (gray_lists g1)" "x \<notin> {a}" for x using I(6) [of x] that gl oc(3) [of x] by auto
    show "is_tab g1 x" if "x \<in> set (G_weak g1)" for x using I(7) that kinds_view(1) [OF v] L by simp
    show "\<not> is_thread g1 x \<and> \<not> leaf g1 x" if "isblack g1 x" "x \<notin> {a}" for x using I(8) nb that kinds_view(6) [OF v] K by auto
    show "kids g1 x \<inter> whites g1 = {}" if "isblack g1 x" "x \<notin> {a}" "x \<notin> set (G_mmudata g1)" for x using I(9) [of x] nb [of x] that k wh R(1) by simp
    show "x \<in> set (gray_lists g1) \<or> leaf g1 x \<and> (U \<longrightarrow> kids g1 x \<inter> whites g1 = {})" if x: "isgray g1 x" for x
    proof -
      have "x \<noteq> a" using x b by (auto simp: colours(1))
      then show ?thesis using I(10) [of x] x gl oc(3) K k wh by auto
    qed
    show "is_udata g1 x" if "x \<in> set (G_mmudata g1)" for x using I(11) that kinds_view(4) [OF v] R(1) by simp
    show "strong_kids g1 x \<inter> whites g1 = {}" if W "x \<in> set (G_weak g1)" "x \<notin> {a}" for x using I(12) [of x] that oks L wh by simp
    show "kids g1 x \<inter> whites g1 = {}" if T "x \<in> set (G_grayagain g1)" "x \<notin> {a}" for x using I(13) [of x] that k L wh by simp
  qed
qed

lemma finish_black:
  assumes i: "minv {a} U W T g" and n: "a \<notin> set (gray_lists g)" and b: "isblack g a" "\<not> is_thread g a" "\<not> leaf g a" "a \<notin> set (G_mmudata g) \<Longrightarrow> kids g a \<inter> whites g = {}"
  shows "minv {} U W T g"
proof -
  note I = minvD [OF i]
  have ne: "x \<noteq> a" if "x \<in> set (gray_lists g)" for x using that n by auto
  have sub: "x \<in> set (G_weak g) \<Longrightarrow> x \<noteq> a" "x \<in> set (G_grayagain g) \<Longrightarrow> x \<noteq> a" for x using ne by (auto simp: gray_lists_def)
  show ?thesis
  proof (rule minvI)
    show "isgray g x" if "x \<in> set (gray_lists g)" for x using I(6) [OF that] ne [OF that] by simp
    show "\<not> is_thread g x \<and> \<not> leaf g x" if "isblack g x" for x using I(8) [OF that] b by (cases "x = a") simp_all
    show "kids g x \<inter> whites g = {}" if "isblack g x" "x \<notin> set (G_mmudata g)" for x using I(9) [OF that(1) _ that(2)] b that by (cases "x = a") simp_all
    show "strong_kids g x \<inter> whites g = {}" if W "x \<in> set (G_weak g)" for x using I(12) [OF that] sub(1) [OF that(2)] by simp
    show "kids g x \<inter> whites g = {}" if T "x \<in> set (G_grayagain g)" for x using I(13) [OF that] sub(2) [OF that(2)] by simp
  qed (fact I)+
qed

end
