(* ===== verification/LJ_GCPropagate.thy ===== *)
theory LJ_GCPropagate
  imports LJ_GCMark
begin

text \<open>
  The propagation of gray objects: each step keeps the invariant of the mark phase, and the loop ends.
\<close>

section \<open>Functions, prototypes and traces\<close>

lemma heap_okD: "heap_ok g \<Longrightarrow> G_heap g a = Some ob \<Longrightarrow> obj_ok g ob" "heap_ok g \<Longrightarrow> x \<in> kids g a \<Longrightarrow> alloc g x"
  by (auto simp only: heap_ok_def)

lemma propagate_plain:
  assumes i: "minv {} U W T g" and p: "G_gray g = a # as" and k: "\<not> is_thread g a" "\<not> leaf g a"
  defines "g1 \<equiv> (gray2black a g)\<lparr>G_gray := as\<rparr>"
  assumes f: "marks_from g1 f (kids g a)"
  shows "minv {} U W T (f g1) \<and> progress g (f g1) \<and> gmeasure (f g1) < gmeasure g"
proof -
  note P = pop_ok [OF i p, folded g1_def]
  have o: "one_colour g1" by (rule minvD(2) [OF P(1)])
  have m: "mark_step g1 (f g1)" "kids g a \<inter> whites (f g1) = {}" using f o mark_step_refl [of g1] by (auto simp: marks_from_def marks_def)
  note M = mark_stepD [OF m(1)]
  have mi: "minv {a} U W T (f g1)" by (rule minv_step [OF P(1) m(1)]) (use P(2) in simp)
  obtain gs where gs: "gray_lists (f g1) = gs @ gray_lists g1" "set gs \<subseteq> whites g1"
    by (rule gray_lists_mark [OF m(1)]) (auto simp: gray_lists_def)
  have "minv {} U W T (f g1)"
  proof (rule finish_black [OF mi])
    show "a \<notin> set (gray_lists (f g1))" using gs P(2,4) by auto
    show "isblack (f g1) a" using mark_step_keeps(3) [OF m(1) P(2)] P(3) by simp
    show "\<not> is_thread (f g1) a" "\<not> leaf (f g1) a" using k kinds_view(6) [OF M(1), of a] kinds_view(6) [OF P(8), of a] M(7) [of a] leaf_view(1) [OF P(8), of a] by simp_all
    show "kids (f g1) a \<inter> whites (f g1) = {}" using m(2) by (simp add: M(5) P(5))
  qed
  then show ?thesis using progress_trans [OF P(6) progress_mark [OF m(1)]] gmeasure_mark [OF m(1)] P(7) by simp
qed

section \<open>Mark bits\<close>

text \<open>The bits that are no colours do not matter for the references.\<close>

lemma upd_marked_Some: "G_heap g a = Some ob \<Longrightarrow> \<exists>n. G_heap (upd_marked f x g) a = Some (set_marked n ob)"
  by (cases "a = x") (auto simp: upd_marked_heap intro: exI [of _ "gco_marked ob"])

lemma upd_marked_None: "G_heap g a = None \<Longrightarrow> G_heap (upd_marked f x g) a = None"
  by (cases "a = x") (simp_all add: upd_marked_heap)

lemma upd_marked_kinds:
  fixes g :: gcG
  defines "h \<equiv> \<lambda>f x. upd_marked f x g"
  shows "is_tab (h f x) a = is_tab g a" "is_str (h f x) a = is_str g a" "is_trace (h f x) a = is_trace g a" "is_udata (h f x) a = is_udata g a"
    "meta_ok (h f x) a = meta_ok g a" "is_thread (h f x) a = is_thread g a" "leaf (h f x) a = leaf g a" "listed (h f x) a = listed g a"
    "same_code g (h f x)" "rest (h f x) = rest g" "is_openuv (h f x) a = is_openuv g a"
proof -
  have "is_tab (h f x) a = is_tab g a \<and> is_str (h f x) a = is_str g a \<and> is_trace (h f x) a = is_trace g a \<and> is_udata (h f x) a = is_udata g a \<and>
      meta_ok (h f x) a = meta_ok g a \<and> is_thread (h f x) a = is_thread g a \<and> leaf (h f x) a = leaf g a \<and> listed (h f x) a = listed g a \<and> is_openuv (h f x) a = is_openuv g a"
  proof (cases "G_heap g a")
    case (Some ob)
    then obtain n where "G_heap (h f x) a = Some (set_marked n ob)" using upd_marked_Some h_def by metis
    then show ?thesis using Some
      by (cases ob) (simp_all add: is_tab_def is_str_def is_trace_def is_udata_def meta_ok_def is_thread_def leaf_def listed_def is_openuv_def lookup_ok_def)
  next
    case None
    then have "G_heap (h f x) a = None" by (simp add: h_def upd_marked_None)
    then show ?thesis using None by (simp add: is_tab_def is_str_def is_trace_def is_udata_def meta_ok_def is_thread_def leaf_def listed_def is_openuv_def)
  qed
  then show "is_tab (h f x) a = is_tab g a" "is_str (h f x) a = is_str g a" "is_trace (h f x) a = is_trace g a" "is_udata (h f x) a = is_udata g a"
    "meta_ok (h f x) a = meta_ok g a" "is_thread (h f x) a = is_thread g a" "leaf (h f x) a = leaf g a" "listed (h f x) a = listed g a" "is_openuv (h f x) a = is_openuv g a" by simp_all
  show "same_code g (h f x)" "rest (h f x) = rest g" by (simp_all add: h_def upd_marked_def set_obj_def same_code_def rest_def split: option.split)
qed

lemma upd_marked_refs:
  fixes g :: gcG
  defines "h \<equiv> \<lambda>f x. upd_marked f x g"
  shows "uvval (h f x) l = uvval g l" "kids (h f x) a = kids g a" "heap_ok (h f x) = heap_ok g"
proof -
  have v: "(case G_heap (h f x) a of Some (OThread m s) \<Rightarrow> F s | _ \<Rightarrow> c) = (case G_heap g a of Some (OThread m s) \<Rightarrow> F s | _ \<Rightarrow> c)" for a F and c :: "'a"
  proof (cases "G_heap g a")
    case (Some ob)
    then obtain n where "G_heap (h f x) a = Some (set_marked n ob)" using upd_marked_Some h_def by metis
    then show ?thesis using Some by (cases ob) simp_all
  qed (simp add: h_def upd_marked_None)
  show uv: "uvval (h f x) l = uvval g l" for l by (cases l) (simp_all add: uvval_def v [of _ "\<lambda>s. if i < length (th_stack s) then th_stack s ! i else mk_tv 0 LJ_TNIL" for i])
  have c: "same_code g (h f x)" "same_code (h f x) g" unfolding h_def using upd_marked_kinds(9) by (auto simp: same_code_def)
  have t: "traceref (h f x) = traceref g" "trace_refs (h f x) = trace_refs g" using c by (auto simp: same_code_def fun_eq_iff traceref_def trace_refs_def)
  have e: "G_code (h f x) = G_code g" using c by (simp add: same_code_def)
  have fr: "frame_fns (h f x) = frame_fns g" by (intro ext) (simp only: frame_fns_def frame_slots_cong [OF e])
  have r: "obj_refs (h f x) ob = obj_refs g ob" "obj_refs g (set_marked n ob) = obj_refs g ob" for ob n
    by (cases ob; simp add: uv t fr array_vals_def hash_nodes_def)+
  show k: "kids (h f x) a = kids g a" for a
  proof (cases "G_heap g a")
    case (Some ob)
    then obtain n where "G_heap (h f x) a = Some (set_marked n ob)" using upd_marked_Some h_def by metis
    then show ?thesis using Some by (simp add: kids_def r)
  qed (simp add: kids_def h_def upd_marked_None)
  have o: "obj_ok (h f x) ob = obj_ok g ob" "obj_ok g (set_marked n ob) = obj_ok g ob" for ob n
    by (cases ob; simp add: upd_marked_kinds t [unfolded h_def] th_ok_code [OF c(1) [unfolded h_def]] h_def strs_ok_def tab_vals_def array_vals_def hash_nodes_def)+
  have "(\<forall>ob. G_heap (h f x) a = Some ob \<longrightarrow> obj_ok g ob) \<longleftrightarrow> (\<forall>ob. G_heap g a = Some ob \<longrightarrow> obj_ok g ob)" for a
  proof (cases "G_heap g a")
    case (Some ob)
    then obtain n where "G_heap (h f x) a = Some (set_marked n ob)" using upd_marked_Some h_def by metis
    then show ?thesis using Some by (simp add: o(2))
  qed (simp add: h_def upd_marked_None)
  then show "heap_ok (h f x) = heap_ok g" by (simp add: heap_ok_def k o) (simp add: h_def)
qed

lemma minv_bits:
  assumes i: "minv X U W T g" and f: "\<And>m. f m AND LJ_GC_COLORS = m AND LJ_GC_COLORS" and a: "a \<in> X \<or> \<not> is_tab g a"
  shows "minv X U W T (upd_marked f a g)"
proof -
  define g' where "g' = upd_marked f a g"
  have k: "kids g' x = kids g x" for x by (simp add: g'_def upd_marked_refs)
  have "marked_at g' x AND LJ_GC_COLORS = marked_at g x AND LJ_GC_COLORS" for x
    by (cases "G_heap g x") (auto simp: marked_at_def g'_def upd_marked_heap f)
  then have c: "same_colours g g'" by (simp add: same_colours_def g'_def)
  have s: "strong_kids g' x = strong_kids g x" if "x \<notin> X" for x
  proof (cases "is_tab g x")
    case True
    then have "x \<noteq> a" using a that by auto
    then show ?thesis by (intro strong_kids_same k) (simp add: g'_def upd_marked_heap)
  next
    case False
    then have "\<not> is_tab g' x" by (simp add: g'_def upd_marked_kinds)
    then show ?thesis using False k [of x] by (auto simp: strong_kids_def is_tab_def split: option.splits GCobj.splits)
  qed
  show ?thesis unfolding g'_def [symmetric]
    by (rule minv_neutral [OF i _ c]) (use minvD(1) [OF i] k s in \<open>simp_all add: g'_def upd_marked_refs upd_marked_kinds same_kinds_def\<close>)
qed

section \<open>Objects that stay gray\<close>

lemma minv_recol:
  assumes i: "minv {a} U W T g" and r: "recol a g g'" and w: "a \<notin> whites g" and n: "isgray g' a \<Longrightarrow> a \<in> set (gray_lists g)"
  shows "minv {a} U W T g'"
proof -
  note I = minvD [OF i] and A = recolD [OF r] and K = kinds_view [OF recolD(1) [OF r]]
  obtain h where "g' = g\<lparr>G_heap := h\<rparr>" using r by (auto simp: recol_def)
  then have rs: "rest g' = rest g" "G_gray g' = G_gray g" "G_grayagain g' = G_grayagain g" "G_weak g' = G_weak g" by (simp_all add: rest_def)
  note R = rest_fields [OF rs(1)]
  have gl: "gray_lists g' = gray_lists g" by (simp add: gray_lists_def rs)
  have wh: "whites g' = whites g" using A(3) w by simp
  note oc = same_heap_colour [OF A(4)] and sk = strong_kids_same [OF A(4) A(5)]
  show ?thesis
  proof (rule minvI)
    show "heap_ok g'" by (rule heap_ok_view [OF A(1,2) I(1)])
    show "one_colour g'" using I(2) oc(1) wh w unfolding one_colour_def whites_def by (metis mem_Collect_eq)
    show "marked_at g' x AND LJ_GC_WHITES = gc_curwhite g'" if "iswhite g' x" for x
    proof -
      have x: "iswhite g x" "x \<noteq> a" using that wh w by (auto simp: whites_def)
      show ?thesis using I(3) [OF x(1)] A(4) [OF x(2)] R(14) by (simp add: marked_at_def)
    qed
    show "distinct (gray_lists g')" using I(4) gl by simp
    show "listed g' x" if "x \<in> set (gray_lists g')" for x using I(5) that gl A(7) by simp
    show "isgray g' x" if "x \<in> set (gray_lists g')" "x \<notin> {a}" for x using I(6) [of x] that gl oc(3) [of x] by auto
    show "is_tab g' x" if "x \<in> set (G_weak g')" for x using I(7) that K(1) rs by simp
    show "\<not> is_thread g' x \<and> \<not> leaf g' x" if "isblack g' x" "x \<notin> {a}" for x using I(8) [of x] oc(1) [of x] that K(6) A(6) by auto
    show "kids g' x \<inter> whites g' = {}" if "isblack g' x" "x \<notin> {a}" "x \<notin> set (G_mmudata g')" for x using I(9) [of x] oc(1) [of x] that A(5) wh R(1) by auto
    show "x \<in> set (gray_lists g') \<or> leaf g' x \<and> (U \<longrightarrow> kids g' x \<inter> whites g' = {})" if x: "isgray g' x" for x
      using I(10) [of x] x n oc(3) [of x] gl A(5,6) wh by (cases "x = a") auto
    show "is_udata g' x" if "x \<in> set (G_mmudata g')" for x using I(11) that K(4) R(1) by simp
    show "strong_kids g' x \<inter> whites g' = {}" if W "x \<in> set (G_weak g')" "x \<notin> {a}" for x using I(12) [of x] that sk rs wh by simp
    show "kids g' x \<inter> whites g' = {}" if T "x \<in> set (G_grayagain g')" "x \<notin> {a}" for x using I(13) [of x] that A(5) rs wh by simp
  qed
qed

lemma recol_black2gray: "\<not> iswhite g a \<Longrightarrow> recol a g (black2gray a g)"
proof -
  assume "\<not> iswhite g a"
  moreover have "(m AND NOT LJ_GC_BLACK) AND LJ_GC_WHITES = m AND LJ_GC_WHITES" for m
    unfolding and.assoc by (simp add: LJ_GC_WHITES_def LJ_GC_BLACK_def)
  ultimately have "\<not> iswhite (black2gray a g) a" by (simp add: iswhite_def black2gray_def bits_upd) (simp add: has_bits_def split: option.splits)
  then show ?thesis using upd_marked_rest [of "\<lambda>m. m AND NOT LJ_GC_BLACK" a g] by (simp add: recol_def) (simp add: black2gray_def upd_marked_heap)
qed

lemma gray_after: "\<not> iswhite g a \<Longrightarrow> alloc g a \<Longrightarrow> isgray (black2gray a g) a"
proof -
  assume w: "\<not> iswhite g a" "alloc g a"
  have "((m :: u8) AND NOT LJ_GC_BLACK) AND LJ_GC_BLACK = 0" for m by (rule bit_word_eqI) (auto simp: bit_simps)
  then have "\<not> isblack (black2gray a g) a" by (simp add: isblack_def black2gray_def bits_upd split: option.split)
  then show ?thesis using recol_black2gray [OF w(1)] w(2) recolD(8) [OF recol_black2gray [OF w(1)], of a] by (simp add: colours(1) recol_def)
qed

text \<open>An object that is being traversed is put on a list.\<close>

lemma minv_push:
  assumes i: "minv {a} U W T g" and n: "a \<notin> set (gray_lists g)" "listed g a"
    and h: "G_heap g' = G_heap g" "rest g' = rest g" "G_gray g' = G_gray g"
    and l: "G_weak g' = a # G_weak g \<and> is_tab g a \<and> G_grayagain g' = G_grayagain g \<or> G_weak g' = G_weak g \<and> G_grayagain g' = a # G_grayagain g"
  shows "minv {a} U W T g'"
proof -
  note I = minvD [OF i] and R = rest_fields [OF h(2)]
  note E = list_upd_same [OF h(1) R(10)]
  note C = same_heap_colour [OF fun_cong [OF h(1)]] and K = kinds_view [OF E(1)] and V = leaf_view [OF E(1)]
  have gl: "set (gray_lists g') = insert a (set (gray_lists g))" "distinct (gray_lists g')" using l n(1) I(4) by (auto simp: gray_lists_def h(3))
  have wk: "x \<in> set (G_weak g') \<Longrightarrow> x \<noteq> a \<Longrightarrow> x \<in> set (G_weak g)" "x \<in> set (G_grayagain g') \<Longrightarrow> x \<noteq> a \<Longrightarrow> x \<in> set (G_grayagain g)" for x using l by auto
  show ?thesis
  proof (rule minvI)
    show "heap_ok g'" using I(1) E(5) by simp
    show "one_colour g'" using I(2) by (simp add: one_colour_def C)
    show "marked_at g' x AND LJ_GC_WHITES = gc_curwhite g'" if "iswhite g' x" for x using I(3) [of x] that by (simp add: C marked_at_def h(1) R(14))
    show "distinct (gray_lists g')" by (rule gl)
    show "listed g' x" if "x \<in> set (gray_lists g')" for x using I(5) [of x] that n(2) by (auto simp: gl V)
    show "isgray g' x" if "x \<in> set (gray_lists g')" "x \<notin> {a}" for x using I(6) [of x] that by (auto simp: gl C)
    show "is_tab g' x" if "x \<in> set (G_weak g')" for x using I(7) [of x] wk(1) [of x] that l n(1) by (auto simp: K gray_lists_def)
    show "\<not> is_thread g' x \<and> \<not> leaf g' x" if "isblack g' x" "x \<notin> {a}" for x using I(8) [of x] that by (simp add: C K V)
    show "kids g' x \<inter> whites g' = {}" if "isblack g' x" "x \<notin> {a}" "x \<notin> set (G_mmudata g')" for x using I(9) [of x] that by (simp add: C E R(1))
    show "x \<in> set (gray_lists g') \<or> leaf g' x \<and> (U \<longrightarrow> kids g' x \<inter> whites g' = {})" if "isgray g' x" for x using I(10) [of x] that by (auto simp: C E V gl)
    show "is_udata g' x" if "x \<in> set (G_mmudata g')" for x using I(11) [of x] that by (simp add: K R(1))
    show "strong_kids g' x \<inter> whites g' = {}" if W "x \<in> set (G_weak g')" "x \<notin> {a}" for x using I(12) [of x] wk(1) [of x] that by (simp add: E)
    show "kids g' x \<inter> whites g' = {}" if T "x \<in> set (G_grayagain g')" "x \<notin> {a}" for x using I(13) [of x] wk(2) [of x] that by (simp add: E)
  qed
qed

lemma finish_gray:
  assumes i: "minv {a} U W T g" and g: "isgray g a" "a \<in> set (gray_lists g)"
    and w: "W \<Longrightarrow> a \<in> set (G_weak g) \<Longrightarrow> strong_kids g a \<inter> whites g = {}" "T \<Longrightarrow> a \<in> set (G_grayagain g) \<Longrightarrow> kids g a \<inter> whites g = {}"
  shows "minv {} U W T g"
proof -
  note I = minvD [OF i]
  have nb: "isblack g x \<Longrightarrow> x \<noteq> a" for x using g(1) by (auto simp: colours(1))
  show ?thesis
  proof (rule minvI)
    show "isgray g x" if "x \<in> set (gray_lists g)" for x using I(6) [OF that] g(1) by (cases "x = a") simp_all
    show "\<not> is_thread g x \<and> \<not> leaf g x" if "isblack g x" for x using I(8) [OF that] nb [OF that] by simp
    show "kids g x \<inter> whites g = {}" if "isblack g x" "x \<notin> set (G_mmudata g)" for x using I(9) [OF that(1) _ that(2)] nb [OF that(1)] by simp
    show "strong_kids g x \<inter> whites g = {}" if W "x \<in> set (G_weak g)" for x using I(12) [OF that] w(1) that by (cases "x = a") simp_all
    show "kids g x \<inter> whites g = {}" if T "x \<in> set (G_grayagain g)" for x using I(13) [OF that] w(2) that by (cases "x = a") simp_all
  qed (fact I)+
qed

section \<open>Tables\<close>

lemma tab_kids:
  assumes "G_heap g a = Some (OTab mt t)"
  shows "kids g a = strong_refs 0 mt t"
proof -
  have "nodes_refs (hash_nodes t) = \<Union> ((\<lambda>n. tvref (n_key n) \<union> tvref (n_val n)) ` {n \<in> set (hash_nodes t). \<not> tvisnil (n_val n)})" by (rule nodes_refs_def)
  then show ?thesis using assms by (simp add: kids_def strong_refs_def)
qed

lemma strong_refs_cong: "t_asize t' = t_asize t \<Longrightarrow> t_array t' = t_array t \<Longrightarrow> t_hmask t' = t_hmask t \<Longrightarrow> t_node t' = t_node t \<Longrightarrow>
    strong_refs w mt t' = strong_refs w mt t"
  by (simp add: strong_refs_def array_vals_def hash_nodes_def)

lemma mf_tabparts:
  "marks_from g0 (\<lambda>g. if weak = LJ_GC_WEAK then g else fold (mark_node weak) (hash_nodes t) (if weak AND LJ_GC_WEAKVAL = 0 then marktvs (array_vals t) g else g))
     (strong_refs weak 0 t)"
proof (cases "weak = LJ_GC_WEAK")
  case True
  then have "weak AND LJ_GC_WEAKVAL \<noteq> 0" "weak AND LJ_GC_WEAKKEY \<noteq> 0" by (simp_all add: LJ_GC_WEAK_def LJ_GC_WEAKVAL_def LJ_GC_WEAKKEY_def)
  then have "strong_refs weak 0 t = {}" by (auto simp: strong_refs_def nonnull_def)
  then show ?thesis using True by (simp add: marks_from_def marks_def)
next
  case False
  have "strong_refs weak 0 t = (if weak AND LJ_GC_WEAKVAL = 0 then tvrefs (array_vals t) else {}) \<union>
      \<Union> ((\<lambda>n. (if weak AND LJ_GC_WEAKKEY = 0 then tvref (n_key n) else {}) \<union> (if weak AND LJ_GC_WEAKVAL = 0 then tvref (n_val n) else {})) `
        {n \<in> set (hash_nodes t). \<not> tvisnil (n_val n)})" by (simp add: strong_refs_def nonnull_def)
  then show ?thesis using mf_comp [OF mf_if [of "weak AND LJ_GC_WEAKVAL = 0", OF mf_tvs [of g0 "array_vals t"]] mf_nodes [of g0 weak "hash_nodes t"]] False by simp
qed

lemma mode_weak: "mode_bits g mode AND NOT LJ_GC_WEAK = 0"
proof -
  have "fold (\<lambda>c w. if c = 107 then w OR LJ_GC_WEAKKEY else if c = 118 then w OR LJ_GC_WEAKVAL else w) cs w AND NOT LJ_GC_WEAK = 0"
    if "w AND NOT LJ_GC_WEAK = 0" for cs :: "u8 list" and w
    using that
  proof (induction cs arbitrary: w)
    case (Cons c cs)
    have "(w OR LJ_GC_WEAKKEY) AND NOT LJ_GC_WEAK = 0" "(w OR LJ_GC_WEAKVAL) AND NOT LJ_GC_WEAK = 0"
      using Cons.prems by (simp_all add: bit.conj_disj_distrib2 or_eq_0_iff LJ_GC_WEAK_def LJ_GC_WEAKKEY_def LJ_GC_WEAKVAL_def)
    then show ?case using Cons by simp
  qed simp
  then show ?thesis by (simp add: mode_bits_def split: option.split GCobj.split)
qed

lemma weak_bits:
  assumes "(w :: u8) AND NOT LJ_GC_WEAK = 0"
  shows "(m AND NOT LJ_GC_WEAK OR w) AND LJ_GC_COLORS = m AND LJ_GC_COLORS" "(m AND NOT LJ_GC_WEAK OR w) AND LJ_GC_WEAK = w"
proof -
  have w: "w = w AND LJ_GC_WEAK"
  proof (rule bit_word_eqI)
    fix n assume "n < LENGTH(8)"
    then show "bit w n = bit (w AND LJ_GC_WEAK) n" using arg_cong [OF assms, of "\<lambda>x. bit x n"] by (auto simp: bit_simps)
  qed
  have "w AND LJ_GC_COLORS = 0" by (subst w) (simp only: and.assoc, simp add: LJ_GC_WEAK_def LJ_GC_COLORS_def LJ_GC_WEAKKEY_def LJ_GC_WEAKVAL_def LJ_GC_WHITES_def LJ_GC_BLACK_def)
  moreover have "(m AND NOT LJ_GC_WEAK) AND LJ_GC_COLORS = m AND LJ_GC_COLORS"
    by (simp only: and.assoc) (simp add: LJ_GC_WEAK_def LJ_GC_COLORS_def LJ_GC_WEAKKEY_def LJ_GC_WEAKVAL_def LJ_GC_WHITES_def LJ_GC_BLACK_def)
  ultimately show "(m AND NOT LJ_GC_WEAK OR w) AND LJ_GC_COLORS = m AND LJ_GC_COLORS" by (simp only: bit.conj_disj_distrib2) simp
  show "(m AND NOT LJ_GC_WEAK OR w) AND LJ_GC_WEAK = w" using w by (simp add: bit.conj_disj_distrib2 and.assoc)
qed

definition same_parts :: "GCtab \<Rightarrow> GCtab \<Rightarrow> bool" where
  "same_parts t t' \<longleftrightarrow> t_asize t' = t_asize t \<and> t_array t' = t_array t \<and> t_hmask t' = t_hmask t \<and> t_node t' = t_node t"

lemma same_parts_refs: "same_parts t t' \<Longrightarrow> strong_refs w mt t' = strong_refs w mt t"
  by (rule strong_refs_cong) (simp_all add: same_parts_def)

lemma strong_refs_mt: "strong_refs w mt t = nonnull mt \<union> strong_refs w 0 t"
proof -
  have "nonnull 0 = {}" by (simp add: nonnull_def)
  then show ?thesis unfolding strong_refs_def by (simp only: Un_empty_left Un_assoc)
qed

lemma tab_view:
  assumes "view g' = view g" "G_heap g a = Some (OTab mt t)"
  obtains t' where "G_heap g' a = Some (OTab mt t')" "same_parts t t'"
proof (cases rule: view_cases [OF assms(1), of a])
  case (2 ob ob')
  have "ob = OTab mt t" using 2(1) assms(2) by simp
  then obtain m' n' where "ob' = OTab mt (t\<lparr>t_marked := m', t_nomm := n'\<rparr>)" using core_eqs [OF 2(3)] by auto
  then have "G_heap g' a = Some (OTab mt (t\<lparr>t_marked := m', t_nomm := n'\<rparr>))" using 2(2) by simp
  then show ?thesis by (rule that) (simp add: same_parts_def)
qed (use assms(2) in simp)

text \<open>Enter a table in the list of weak tables.\<close>

lemma enter_weak:
  assumes i: "minv {a} U W T g" and n: "a \<notin> set (gray_lists g)" and b: "isblack g a" and h: "G_heap g a = Some (OTab mt t)" and w: "w AND NOT LJ_GC_WEAK = 0"
  defines "g' \<equiv> (upd_marked (\<lambda>m. m AND NOT LJ_GC_WEAK OR w) a g)\<lparr>G_weak := a # G_weak g\<rparr>"
  shows "minv {a} U W T g'" "progress g g'" "whites g' = whites g" "isblack g' a" "a \<in> set (G_weak g')"
    "G_heap g' a = Some (OTab mt (t\<lparr>t_marked := t_marked t AND NOT LJ_GC_WEAK OR w\<rparr>))" "G_gray g' = G_gray g"
proof -
  let ?f = "\<lambda>m. m AND NOT LJ_GC_WEAK OR w"
  define h1 where "h1 = upd_marked ?f a g"
  have m1: "minv {a} U W T h1" unfolding h1_def by (rule minv_bits [OF i]) (simp_all add: weak_bits(1) [OF w])
  have l1: "gray_lists h1 = gray_lists g" "G_gray h1 = G_gray g" "G_weak h1 = G_weak g" "G_grayagain h1 = G_grayagain g" by (simp_all add: gray_lists_def h1_def)
  have k1: "is_tab h1 a" "listed h1 a" unfolding h1_def upd_marked_kinds using h by (simp_all add: is_tab_def listed_def)
  have rs: "rest g' = rest h1" "rest h1 = rest g" "G_heap g' = G_heap h1" using upd_marked_kinds(10) [of ?f a g] by (simp_all add: g'_def h1_def rest_def)
  show "minv {a} U W T g'" by (rule minv_push [OF m1]) (use n k1 l1 rs in \<open>simp_all add: g'_def h1_def\<close>)
  have c: "same_colours g g'" using weak_bits(1) [OF w] by (auto simp: same_colours_def marked_at_def alloc_def rs(3) h1_def upd_marked_heap split: option.splits)
  have kd: "kids g' x = kids g x" for x using list_upd_same(3) [of g' h1, OF rs(3) rest_fields(10) [OF rs(1)]] upd_marked_refs(2) [of ?f a g x] by (simp add: h1_def)
  show "whites g' = whites g" by (rule same_coloursD(4) [OF c])
  then show "progress g g'" using upd_marked_kinds(1-4,6-8,11) [of ?f a g, folded h1_def] list_upd_same(6) [of g' h1, OF rs(3) rest_fields(10) [OF rs(1)]] c
    kd by (simp add: progress_def rs same_kinds_def same_colours_def)
  show "isblack g' a" using same_coloursD(2) [OF c] b by simp
  show "a \<in> set (G_weak g')" "G_gray g' = G_gray g" by (simp_all add: g'_def)
  show "G_heap g' a = Some (OTab mt (t\<lparr>t_marked := ?f (t_marked t)\<rparr>))" using h by (simp add: rs(3) h1_def upd_marked_heap)
qed

lemma traverse_tab_ok:
  assumes i: "minv {a} U W T g" and w: "a \<notin> whites g" and b: "isblack g a" and n: "a \<notin> set (gray_lists g)" and h: "G_heap g a = Some (OTab mt t)"
  obtains weak g' where "gc_traverse_tab g a mt t = Some (weak, g')" "minv {a} U W T g'" "progress g g'" "gmeasure g' \<le> gmeasure g" "a \<notin> whites g'" "isblack g' a"
    "weak = 0 \<Longrightarrow> a \<notin> set (gray_lists g') \<and> kids g' a \<inter> whites g' = {}" "weak \<noteq> 0 \<Longrightarrow> a \<in> set (G_weak g') \<and> strong_kids g' a \<inter> whites g' = {}"
proof -
  define gA where "gA = (if mt \<noteq> 0 then gc_markobj g mt else g)"
  have a: "mark_step g gA" "nonnull mt \<inter> whites gA = {}"
    using markobj_ok [OF minvD(2) [OF i], of mt] by (auto simp: gA_def nonnull_def)
  note A = mark_stepD [OF a(1)]
  have iA: "minv {a} U W T gA" by (rule minv_step [OF i a(1)]) (use w in simp)
  have "meta_ok g mt" using heap_okD(1) [OF minvD(1) [OF i] h] by simp
  then have "meta_ok gA mt" using kinds_view(5) [OF A(1)] by simp
  then obtain mode gB where f: "lj_meta_fastg gA mt MM_mode = Some (mode, gB)"
    and B: "view gB = view gA" "same_colours gA gB" "rest gB = rest gA" "\<And>x. strong_kids gB x = strong_kids gA x" "same_code gA gB"
      "G_gray gB = G_gray gA" "G_grayagain gB = G_grayagain gA" "G_weak gB = G_weak gA" by (rule fastg_ok [of gA mt MM_mode]) blast
  have iB: "minv {a} U W T gB" by (rule minv_view [OF iA B(1-3,5,4,6-8)])
  have wB: "whites gB = whites gA" by (rule same_coloursD(4) [OF B(2)])
  obtain gs where gs: "gray_lists gA = gs @ gray_lists g" "set gs \<subseteq> whites g" by (rule gray_lists_mark [OF a(1)]) (auto simp: gray_lists_def)
  have nB: "a \<notin> set (gray_lists gB)" using gs n w B(6-8) by (auto simp: gray_lists_def)
  have bB: "isblack gB a" using same_coloursD(2) [OF B(2)] mark_step_keeps(3) [OF a(1) w] b by simp
  have vB: "view gB = view g" using A(1) B(1) by simp
  obtain t1 where t1: "G_heap gB a = Some (OTab mt t1)" "same_parts t t1" by (rule tab_view [OF vB h])
  have mB: "gmeasure gB \<le> gmeasure g" using gmeasure_mark [OF a(1)] wB B(6) by (simp add: gmeasure_def)
  have "progress gA gB" using view_same_kinds [OF B(1)] B(3) wB kids_view [OF B(1,5)] by (simp add: progress_def)
  then have pB: "progress g gB" by (rule progress_trans [OF progress_mark [OF a(1)]])
  define weak where "weak = mode_bits gB mode"
  define gC where "gC = (if weak \<noteq> 0 then (upd_marked (\<lambda>m. m AND NOT LJ_GC_WEAK OR weak) a gB)\<lparr>G_weak := a # G_weak gB\<rparr> else gB)"
  note ew = enter_weak [OF iB nB bB t1(1) mode_weak [of gB mode, folded weak_def]]
  have C: "minv {a} U W T gC" "progress gB gC" "whites gC = whites gB" "isblack gC a" "G_gray gC = G_gray gB" using ew(1-4,7) iB bB by (simp_all add: gC_def)
  have C2: "weak = 0 \<Longrightarrow> a \<notin> set (gray_lists gC)" "weak \<noteq> 0 \<Longrightarrow> a \<in> set (G_weak gC)" using ew(5) nB by (simp_all add: gC_def)
  obtain t2 where t2: "G_heap gC a = Some (OTab mt t2)" "same_parts t t2" "weak \<noteq> 0 \<Longrightarrow> t_marked t2 AND LJ_GC_WEAK = weak"
  proof (cases "weak = 0")
    case False
    then have e: "G_heap gC a = Some (OTab mt (t1\<lparr>t_marked := t_marked t1 AND NOT LJ_GC_WEAK OR weak\<rparr>))" using ew(6) by (simp add: gC_def)
    show ?thesis by (rule that [OF e]) (use t1(2) weak_bits(2) [OF mode_weak] in \<open>simp_all add: same_parts_def weak_def\<close>)
  qed (use t1 that in \<open>simp add: gC_def\<close>)
  define gD where "gD = (if weak = LJ_GC_WEAK then gC else fold (mark_node weak) (hash_nodes t) (if weak AND LJ_GC_WEAKVAL = 0 then marktvs (array_vals t) gC else gC))"
  have d: "mark_step gC gD" "strong_refs weak 0 t \<inter> whites gD = {}"
    using mf_tabparts [of gC weak t] mark_step_refl [of gC] minvD(2) [OF C(1)] by (auto simp: marks_from_def marks_def gD_def)
  note D = mark_stepD [OF d(1)]
  have wC: "a \<notin> whites gC" using w A(3) wB C(3) by auto
  have tD: "G_heap gD a = Some (OTab mt t2)" using D(4) [OF wC] t2(1) by simp
  have sD: "strong_refs weak mt t2 \<inter> whites gD = {}"
    using a(2) d(2) D(3) C(3) wB by (subst strong_refs_mt) (auto simp: same_parts_refs [OF t2(2)])
  obtain hs where hs: "gray_lists gD = hs @ gray_lists gC" "set hs \<subseteq> whites gC" "G_weak gD = G_weak gC"
    by (rule gray_lists_mark [OF d(1)]) (auto simp: gray_lists_def)
  have lf: "a \<notin> whites gD" using wC D(3) by auto
  have "gc_traverse_tab g a mt t = Some (weak, gD)" 
    unfolding gc_traverse_tab_def Let_def gA_def [symmetric] f option.case prod.case weak_def [symmetric] gC_def [symmetric]
    by (cases "weak = LJ_GC_WEAK") (simp_all only: gD_def if_True if_False simp_thms)
  moreover have "minv {a} U W T gD" by (rule minv_step [OF C(1) d(1)]) (use wC in simp)
  moreover have "progress g gD" by (rule progress_trans [OF progress_trans [OF pB C(2)] progress_mark [OF d(1)]])
  moreover have "gmeasure gD \<le> gmeasure g" using gmeasure_mark [OF d(1)] mB C(3,5) by (simp add: gmeasure_def)
  moreover have "isblack gD a" using mark_step_keeps(3) [OF d(1) wC] C(4) by simp
  moreover have "a \<notin> set (gray_lists gD) \<and> kids gD a \<inter> whites gD = {}" if "weak = 0"
    using C2(1) [OF that] hs(1,2) wC sD tab_kids [OF tD] that by auto
  moreover have "a \<in> set (G_weak gD) \<and> strong_kids gD a \<inter> whites gD = {}" if "weak \<noteq> 0"
    using C2(2) [OF that] hs(3) sD t2(3) [OF that] tD by (simp add: strong_kids_def)
  ultimately show ?thesis using that lf by blast
qed

lemma strong_kids_bits:
  assumes "\<And>m. f m AND LJ_GC_WEAK = m AND LJ_GC_WEAK"
  shows "strong_kids (upd_marked f x g) a = strong_kids g a"
proof (cases "G_heap g a")
  case (Some ob)
  have k: "kids (upd_marked f x g) a = kids g a" by (rule upd_marked_refs)
  show ?thesis
  proof (cases "\<exists>mt t. ob = OTab mt t")
    case True
    then obtain mt t where t: "G_heap g a = Some (OTab mt t)" using Some by blast
    have "strong_refs w mt (t\<lparr>t_marked := n\<rparr>) = strong_refs w mt t" for w n by (rule strong_refs_cong) simp_all
    moreover have "\<exists>n. n AND LJ_GC_WEAK = t_marked t AND LJ_GC_WEAK \<and> G_heap (upd_marked f x g) a = Some (OTab mt (t\<lparr>t_marked := n\<rparr>))"
      using t assms by (cases "a = x") (auto simp: upd_marked_heap intro: exI [of _ "t_marked t"])
    ultimately show ?thesis using t by (auto simp: strong_kids_def)
  next
    case False
    obtain n where "G_heap (upd_marked f x g) a = Some (set_marked n ob)" using upd_marked_Some [OF Some] by blast
    then show ?thesis using False Some k by (cases ob) (simp_all add: strong_kids_def)
  qed
next
  case None
  then show ?thesis using upd_marked_None [OF None, of f x] by (simp add: strong_kids_def kids_def)
qed

lemma black2gray_weak: "strong_kids (black2gray a g) x = strong_kids g x"
  unfolding black2gray_def
  by (rule strong_kids_bits, simp only: and.assoc) (simp add: LJ_GC_WEAK_def LJ_GC_WEAKKEY_def LJ_GC_WEAKVAL_def LJ_GC_BLACK_def)

lemma propagate_tab:
  assumes i: "minv {} U W T g" and p: "G_gray g = a # as" and h: "G_heap g a = Some (OTab mt t)"
  shows "\<exists>m g'. propagatemark g = Some (m, g') \<and> minv {} U W T g' \<and> progress g g' \<and> gmeasure g' < gmeasure g"
proof -
  define g1 where "g1 = (gray2black a g)\<lparr>G_gray := as\<rparr>"
  note P = pop_ok [OF i p, folded g1_def]
  obtain t1 where t1: "G_heap g1 a = Some (OTab mt t1)" by (rule tab_view [OF P(8) h])
  obtain weak g2 where tr: "gc_traverse_tab g1 a mt t1 = Some (weak, g2)"
    and g2: "minv {a} U W T g2" "progress g1 g2" "gmeasure g2 \<le> gmeasure g1" "a \<notin> whites g2" "isblack g2 a"
      "weak = 0 \<Longrightarrow> a \<notin> set (gray_lists g2) \<and> kids g2 a \<inter> whites g2 = {}" "weak \<noteq> 0 \<Longrightarrow> a \<in> set (G_weak g2) \<and> strong_kids g2 a \<inter> whites g2 = {}"
    by (rule traverse_tab_ok [OF P(1-4) t1]) blast
  have tb: "is_tab g2 a" using g2(2) t1 by (simp add: progress_def same_kinds_def is_tab_def)
  define g3 where "g3 = (if weak \<noteq> 0 then black2gray a g2 else g2)"
  have pr: "\<exists>m. propagatemark g = Some (m, g3)"
    unfolding propagatemark_def p list.case Let_def g1_def [symmetric] t1 option.case GCobj.case tr by (simp add: g3_def)
  have "minv {} U W T g3 \<and> progress g2 g3 \<and> gmeasure g3 \<le> gmeasure g2"
  proof (cases "weak = 0")
    case True
    then have "minv {} U W T g2" using g2(5,6) tb by (intro finish_black [OF g2(1)]) (auto simp: is_thread_def leaf_def is_tab_def split: option.splits GCobj.splits)
    then show ?thesis using True by (simp add: g3_def)
  next
    case False
    have w: "\<not> iswhite g2 a" using g2(4) by (simp add: whites_def)
    define g4 where "g4 = black2gray a g2"
    have r: "recol a g2 g4" unfolding g4_def by (rule recol_black2gray [OF w])
    note A = recolD [OF r]
    have l: "a \<in> set (G_weak g2)" using g2(7) False by simp
    then have gl: "a \<in> set (gray_lists g2)" by (simp add: gray_lists_def)
    have wh: "whites g4 = whites g2" using A(3) g2(4) by simp
    have "minv {a} U W T g4" by (rule minv_recol [OF g2(1) r g2(4) gl])
    moreover have "isgray g4 a" unfolding g4_def using gray_after [OF w] colours(3) [OF g2(5)] by simp
    moreover have "a \<in> set (gray_lists g4)" using gl by (simp add: g4_def gray_lists_def black2gray_def)
    moreover have "a \<notin> set (G_grayagain g4)" using minvD(4) [OF g2(1)] l by (auto simp: g4_def gray_lists_def black2gray_def)
    moreover have "strong_kids g4 a \<inter> whites g4 = {}" using g2(7) False wh by (simp add: g4_def black2gray_weak)
    ultimately have "minv {} U W T g4" using finish_gray [of a U W T g4] by blast
    moreover have "progress g2 g4" using gray2black_state(2) [of a g2] wh view_same_kinds [OF A(1)] A(5) by (simp add: progress_def g4_def)
    ultimately show ?thesis using False wh A(9) by (simp add: g3_def g4_def gmeasure_def)
  qed
  then show ?thesis using pr g2(2,3) P(6,7) progress_trans by (metis (no_types, lifting) le_less_trans order_trans)
qed

section \<open>Threads\<close>

lemma frames_end_agree:
  "frames_end g st f \<Longrightarrow> f < int n \<Longrightarrow> n \<le> length st' \<Longrightarrow> (\<And>i. i < n \<Longrightarrow> st' ! i = st ! i) \<Longrightarrow> frames_end g st' f"
proof (induction rule: frames_end.induct)
  case (2 f)
  then have e: "st' ! nat f = st ! nat f" "nat f < length st'" by auto
  show ?case by (rule frames_end.intros(2)) (use 2 e in auto)
qed (rule frames_end.intros)

lemma frame_slots_agree:
  assumes "x \<in> frame_slots g st' f" "frames_end g st f" "f < int n" "\<And>i. i < n \<Longrightarrow> st' ! i = st ! i"
  shows "x \<in> frame_slots g st f \<and> x < int n \<and> 0 < x \<and> frames_end g st x"
  using assms
proof (induction rule: frame_slots.induct)
  case 1
  then show ?case by (auto intro: frame_slots.intros)
next
  case (2 x)
  then have x: "x \<in> frame_slots g st f" "x < int n" "0 < x" "frames_end g st x" by auto
  have e: "st' ! nat x = st ! nat x" using 2(6) x(2,3) by simp
  from x(4,3) have "frame_prev g x (st ! nat x) < x" "frames_end g st (frame_prev g x (st ! nat x))" by (auto elim: frames_end.cases)
  then show ?case using x(1,2) 2(2) frame_slots.intros(2) [OF x(1)] by (simp add: e)
qed

lemma frame_slots_front: "x \<in> frame_slots g st f \<Longrightarrow> x = f \<or> x \<in> frame_slots g st (frame_prev g f (st ! nat f))"
  by (induction rule: frame_slots.induct) (auto intro: frame_slots.intros)

lemma frame_slots_pos: "x \<in> frame_slots g st f \<Longrightarrow> 0 < f"
  by (induction rule: frame_slots.induct)

lemma frames_loop_ok:
  assumes "frames_end g0 st f" "mark_step g0 g" "one_colour g"
  shows "\<exists>tp' g'. frames_loop st f tp g = Some (tp', g') \<and> mark_step g g' \<and> tp \<le> tp' \<and> (\<lambda>f. tv_lo (st ! nat f)) ` frame_slots g0 st f \<inter> whites g' = {}"
  using assms
proof (induction arbitrary: tp g rule: frames_end.induct)
  case (1 f)
  then have "frame_slots g0 st f = {}" using frame_slots_pos [of _ g0 st f] by force
  then show ?case using 1 by (simp add: frames_loop.simps)
next
  case (2 f)
  let ?fn = "tv_lo (st ! nat f)" and ?p = "frame_prev g0 f (st ! nat f)"
  have p: "frame_prev g f (st ! nat f) = ?p" using mark_stepD(2) [OF 2(6)] by (simp add: frame_prev_def same_code_def)
  note m = markobj_ok [OF 2(7), of ?fn]
  obtain tp' g' where r: "frames_loop st ?p (max tp (f + framesize_of g ?fn)) (gc_markobj g ?fn) = Some (tp', g')" "mark_step (gc_markobj g ?fn) g'"
    "max tp (f + framesize_of g ?fn) \<le> tp'" "(\<lambda>f. tv_lo (st ! nat f)) ` frame_slots g0 st ?p \<inter> whites g' = {}"
    using 2(5) [OF mark_step_trans [OF 2(6) m(1)] one_colour_step [OF m(1) 2(7)]] by blast
  have "frames_loop st f tp g = Some (tp', g')" using 2(1,2) r(1) by (subst frames_loop.simps) (simp add: Let_def p)
  moreover have "?fn \<notin> whites g'" using m(2) mark_stepD(3) [OF r(2)] by auto
  then have "(\<lambda>f. tv_lo (st ! nat f)) ` frame_slots g0 st f \<inter> whites g' = {}" using r(4) frame_slots_front [of _ g0 st f] by fastforce
  ultimately show ?case using r(3) mark_step_trans [OF m(1) r(2)] by auto
qed

text \<open>Cleared and removed slots of a stack.\<close>

definition trimmed :: "lua_State \<Rightarrow> lua_State \<Rightarrow> bool" where
  "trimmed s s' \<longleftrightarrow> th_base s' = th_base s \<and> th_top s' = th_top s \<and> th_env s' = th_env s \<and> th_top s \<le> length (th_stack s') \<and>
     length (th_stack s') = th_maxstack s' + 1 + LJ_STACK_EXTRA \<and> (\<forall>i<th_top s. th_stack s' ! i = th_stack s ! i) \<and>
     (\<forall>i<length (th_stack s'). th_stack s' ! i = mk_tv 0 LJ_TNIL \<or> i < length (th_stack s) \<and> th_stack s' ! i = th_stack s ! i)"

lemma nil_ref [simp]: "tvref (mk_tv 0 LJ_TNIL) = {}"
  by (simp add: tvref_def tvisgcv_def itype_def tag_defs)

lemma thread_refs:
  assumes t: "trimmed s s'" and k: "th_ok g s" and c: "G_code g' = G_code g"
  shows "stack_vals s' = stack_vals s" "frame_fns g' s' \<subseteq> frame_fns g s" "th_ok g' s'"
proof -
  have T: "th_base s' = th_base s" "th_top s' = th_top s" "th_top s \<le> length (th_stack s')" "length (th_stack s') = th_maxstack s' + 1 + LJ_STACK_EXTRA"
    "\<And>i. i < th_top s \<Longrightarrow> th_stack s' ! i = th_stack s ! i" using t by (auto simp: trimmed_def)
  have K: "1 \<le> th_base s" "th_base s \<le> th_top s" "th_top s \<le> length (th_stack s)" "frames_end g (th_stack s) (int (th_base s) - 1)" using k by (auto simp: th_ok_def)
  have lt: "int (th_base s) - 1 < int (th_top s)" using K by simp
  show "stack_vals s' = stack_vals s" unfolding stack_vals_def T(2) using T(3,5) K(3) by (intro arg_cong [of _ _ "drop 1"] nth_equalityI) auto
  have "frames_end g (th_stack s') (int (th_base s) - 1)" by (rule frames_end_agree [OF K(4) lt T(3) T(5)])
  then have "frames_end g' (th_stack s') (int (th_base s) - 1)" by (rule frames_end_mono) (simp add: c)
  then show "th_ok g' s'" using T K by (simp add: th_ok_def)
  show "frame_fns g' s' \<subseteq> frame_fns g s"
  proof
    fix fn assume "fn \<in> frame_fns g' s'"
    then obtain x where x: "x \<in> frame_slots g (th_stack s') (int (th_base s) - 1)" "fn = tv_lo (th_stack s' ! nat x)"
      by (auto simp: frame_fns_def T(1) frame_slots_cong [OF c])
    have a: "x \<in> frame_slots g (th_stack s) (int (th_base s) - 1) \<and> x < int (th_top s) \<and> 0 < x \<and> frames_end g (th_stack s) x"
      by (rule frame_slots_agree [OF x(1) K(4) lt T(5)])
    then have "fn = tv_lo (th_stack s ! nat x)" using T(5) [of "nat x"] x(2) by (simp add: nat_less_iff)
    then show "fn \<in> frame_fns g s" using a by (auto simp: frame_fns_def)
  qed
qed

lemma thread_neutral:
  assumes i: "minv X U W T g" and h: "G_heap g a = Some (OThread m s)" and t: "trimmed s s'" and e: "g' = (set_obj a (OThread m s') g)\<lparr>G_total := n\<rparr>"
  shows "minv X U W T g'" "progress g g'" "whites g' = whites g" "gmeasure g' = gmeasure g" "kids g' x \<subseteq> kids g x" "isgray g' x = isgray g x"
    "gray_lists g' = gray_lists g" "G_grayagain g' = G_grayagain g" "G_weak g' = G_weak g"
proof -
  have hp: "G_heap g' = (G_heap g)(a \<mapsto> OThread m s')" and st: "same_code g g'" "rest g' = rest g" "G_gray g' = G_gray g" "G_grayagain g' = G_grayagain g" "G_weak g' = G_weak g"
    by (simp_all add: e set_obj_def same_code_def rest_def)
  have c: "same_colours g g'" using h by (simp add: same_colours_def alloc_def marked_at_def hp)
  have k: "same_kinds g g'" using h by (simp add: same_kinds_def alloc_def leaf_def listed_def is_tab_def is_thread_def is_udata_def is_str_def is_trace_def is_openuv_def hp)
  have th: "th_ok g s" using heap_okD(1) [OF minvD(1) [OF i] h] by simp
  have gc: "G_code g' = G_code g" using st(1) by (simp add: same_code_def)
  note S = thread_refs [OF t th gc]
  have uv: "tvref (uvval g' l) \<subseteq> tvref (uvval g l)" for l
  proof (cases l)
    case (UvOpen b j)
    show ?thesis
    proof (cases "b = a")
      case True
      then show ?thesis using UvOpen h t by (auto simp: uvval_def hp trimmed_def split: if_splits)
    qed (simp add: uvval_def UvOpen hp)
  qed (simp add: uvval_def)
  have tr: "traceref g' = traceref g" "trace_refs g' = trace_refs g" using st(1) by (auto simp: same_code_def fun_eq_iff traceref_def trace_refs_def)
  have fr: "frame_fns g' = frame_fns g" by (intro ext) (simp only: frame_fns_def frame_slots_cong [OF gc])
  have ro: "obj_refs g' ob \<subseteq> obj_refs g ob" for ob using uv by (cases ob) (auto simp: tr fr)
  have ks: "kids g' x \<subseteq> kids g x" for x
  proof (cases "x = a")
    case True
    have "th_env s' = th_env s" using t by (simp add: trimmed_def)
    then show ?thesis using True h S(1,2) by (auto simp: kids_def hp)
  next
    case False
    then show ?thesis using ro by (auto simp: kids_def hp split: option.splits)
  qed
  show "kids g' x \<subseteq> kids g x" by (rule ks)
  have sk: "strong_kids g' x \<subseteq> strong_kids g x" for x
    using ks [of x] h by (cases "x = a") (auto simp: strong_kids_def hp split: option.splits GCobj.splits)
  have kd: "is_str g' x = is_str g x" "is_trace g' x = is_trace g x" "meta_ok g' x = meta_ok g x" for x
    using h by (simp_all add: is_str_def is_trace_def meta_ok_def hp)
  have ho: "heap_ok g'"
  proof (unfold heap_ok_def, intro conjI allI impI)
    fix x ob assume x: "G_heap g' x = Some ob"
    show "obj_ok g' ob"
    proof (cases "x = a")
      case True
      then show ?thesis using x S(3) by (auto simp: hp)
    next
      case False
      then have "obj_ok g ob" using x heap_okD(1) [OF minvD(1) [OF i]] by (simp add: hp)
      then show ?thesis by (cases ob) (simp_all add: tr kd strs_ok_def th_ok_code [OF st(1)])
    qed
  next
    fix x y assume "y \<in> kids g' x"
    then have "y \<in> kids g x" using ks by blast
    then show "alloc g' y" using heap_okD(2) [OF minvD(1) [OF i]] k by (simp add: same_kinds_def)
  qed
  show "minv X U W T g'" by (rule minv_neutral [OF i ho c k st(2-5) ks sk])
  show wh: "whites g' = whites g" by (rule same_coloursD(4) [OF c])
  show "progress g g'" using k st(2) wh ks by (simp add: progress_def)
  show "gmeasure g' = gmeasure g" by (simp add: gmeasure_def wh st)
  show "isgray g' x = isgray g x" by (rule same_coloursD(3) [OF c])
  show "gray_lists g' = gray_lists g" by (simp add: gray_lists_def st)
  show "G_grayagain g' = G_grayagain g" "G_weak g' = G_weak g" by (fact st)+
qed

lemma trimmed_clear: "th_ok g s \<Longrightarrow> trimmed s (clear_slots s)"
  by (auto simp: th_ok_def trimmed_def clear_slots_def nth_append max_def)

lemma trimmed_resize:
  assumes k: "th_ok g s" and u: "min (int (th_top s)) (int (th_maxstack s)) \<le> need" "4 * need < int (length (th_stack s))"
    "2 * (LJ_STACK_START + LJ_STACK_EXTRA) < length (th_stack s)"
  defines "n \<equiv> length (th_stack s) div 2" and "R \<equiv> length (th_stack s) div 2 + 1 + LJ_STACK_EXTRA"
  shows "trimmed s (s\<lparr>th_stack := take R (th_stack s) @ replicate (R - length (th_stack s)) (mk_tv 0 LJ_TNIL), th_maxstack := n\<rparr>)"
proof -
  let ?st = "take R (th_stack s) @ replicate (R - length (th_stack s)) (mk_tv 0 LJ_TNIL)"
  have "th_top s \<le> length (th_stack s)" "length (th_stack s) = th_maxstack s + 6" using k by (simp_all add: th_ok_def LJ_STACK_EXTRA_def)
  moreover have "90 < length (th_stack s)" using u(3) by (simp add: LJ_STACK_START_def LJ_STACK_MIN_def LJ_STACK_EXTRA_def)
  ultimately have tp: "th_top s \<le> R" "th_top s \<le> length (th_stack s)" using u(1,2) by (auto simp: R_def LJ_STACK_EXTRA_def min_def split: if_splits)
  have ln: "length ?st = R" by simp
  have lt: "?st ! i = th_stack s ! i" if "i < th_top s" for i using that tp by (simp add: nth_append)
  have el: "?st ! i = mk_tv 0 LJ_TNIL \<or> i < length (th_stack s) \<and> ?st ! i = th_stack s ! i" if "i < R" for i using that by (auto simp: nth_append)
  show ?thesis unfolding trimmed_def lua_State.simps using ln lt el tp(1) by (auto simp: n_def R_def)
qed

lemma shrink_ok:
  assumes i: "minv X U W T g" and h: "G_heap g a = Some (OThread m s)" and u: "min (int (th_top s)) (int (th_maxstack s)) \<le> need"
  shows "minv X U W T (lj_state_shrinkstack a need g)" "progress g (lj_state_shrinkstack a need g)" "gmeasure (lj_state_shrinkstack a need g) = gmeasure g"
    "whites (lj_state_shrinkstack a need g) = whites g" "kids (lj_state_shrinkstack a need g) x \<subseteq> kids g x" "isgray (lj_state_shrinkstack a need g) x = isgray g x"
    "gray_lists (lj_state_shrinkstack a need g) = gray_lists g" "G_weak (lj_state_shrinkstack a need g) = G_weak g"
proof -
  define g' where "g' = lj_state_shrinkstack a need g"
  have k: "th_ok g s" using heap_okD(1) [OF minvD(1) [OF i] h] by simp
  have "minv X U W T g' \<and> progress g g' \<and> gmeasure g' = gmeasure g \<and> whites g' = whites g \<and> kids g' x \<subseteq> kids g x \<and> isgray g' x = isgray g x \<and>
      gray_lists g' = gray_lists g \<and> G_weak g' = G_weak g"
  proof (cases "length (th_stack s) \<le> LJ_STACK_MAXEX \<and> 4 * need < int (length (th_stack s)) \<and> 2 * (LJ_STACK_START + LJ_STACK_EXTRA) < length (th_stack s) \<and> a \<noteq> G_jit_L g")
    case True
    define n where "n = length (th_stack s) div 2"
    define R where "R = length (th_stack s) div 2 + 1 + LJ_STACK_EXTRA"
    define s' where "s' = s\<lparr>th_stack := take R (th_stack s) @ replicate (R - length (th_stack s)) (mk_tv 0 LJ_TNIL), th_maxstack := n\<rparr>"
    have t: "trimmed s s'" unfolding s'_def n_def R_def by (rule trimmed_resize [OF k u]) (use True in simp_all)
    have e: "g' = (set_obj a (OThread m s') g)\<lparr>G_total := G_total g - of_nat (length (th_stack s)) * sizeof_TValue + of_nat R * sizeof_TValue\<rparr>"
      using True h by (simp add: g'_def lj_state_shrinkstack_def resizestack_def Let_def s'_def n_def R_def)
    note T = thread_neutral [OF i h t e]
    show ?thesis using T by simp
  next
    case False
    then have "g' = g" using h by (auto simp: g'_def lj_state_shrinkstack_def Let_def)
    then show ?thesis using i by simp
  qed
  then show "minv X U W T (lj_state_shrinkstack a need g)" "progress g (lj_state_shrinkstack a need g)" "gmeasure (lj_state_shrinkstack a need g) = gmeasure g"
    "whites (lj_state_shrinkstack a need g) = whites g" "kids (lj_state_shrinkstack a need g) x \<subseteq> kids g x" "isgray (lj_state_shrinkstack a need g) x = isgray g x"
    "gray_lists (lj_state_shrinkstack a need g) = gray_lists g" "G_weak (lj_state_shrinkstack a need g) = G_weak g" by (simp_all add: g'_def)
qed

lemma mark_keeps_obj:
  assumes m: "mark_step g g'" and a: "a \<notin> whites g" and x: "isgray g a" "a \<in> set (gray_lists g)"
  shows "G_heap g' a = G_heap g a" "isgray g' a" "a \<in> set (gray_lists g')" "a \<notin> whites g'"
proof -
  show h: "G_heap g' a = G_heap g a" by (rule mark_stepD(4) [OF m a])
  show "isgray g' a" using same_heap_colour(3) [OF h] x by simp
  show "a \<in> set (gray_lists g')" by (rule gray_lists_mark [OF m]) (use x in \<open>auto simp: gray_lists_def\<close>)
  show "a \<notin> whites g'" using a mark_stepD(3) [OF m] by auto
qed

lemma traverse_thread_ok:
  assumes i: "minv {a} U W T g" and w: "a \<notin> whites g" and b: "isgray g a" and l: "a \<in> set (G_grayagain g)" and h: "G_heap g a = Some (OThread m s)"
  shows "\<exists>g'. gc_traverse_thread g a s = Some g' \<and> minv {} U W T g' \<and> progress g g' \<and> gmeasure g' \<le> gmeasure g"
proof -
  have gl: "a \<in> set (gray_lists g)" using l by (simp add: gray_lists_def)
  have th: "th_ok g s" using heap_okD(1) [OF minvD(1) [OF i] h] by simp
  define gA where "gA = marktvs (stack_vals s) g"
  have mA: "mark_step g gA" "tvrefs (stack_vals s) \<inter> whites gA = {}" using marks_tvs [OF minvD(2) [OF i], of "stack_vals s"] by (auto simp: marks_def gA_def)
  note A = mark_stepD [OF mA(1)] and A2 = mark_keeps_obj [OF mA(1) w b gl]
  have iA: "minv {a} U W T gA" by (rule minv_step [OF i mA(1)]) (use w in simp)
  have hA: "G_heap gA a = Some (OThread m s)" using A2(1) h by simp
  define gB where "gB = (if G_state gA = GCSatomic then upd_thread clear_slots a gA else gA)"
  have B: "minv {a} U W T gB \<and> progress gA gB \<and> whites gB = whites gA \<and> gmeasure gB = gmeasure gA \<and> kids gB a \<subseteq> kids gA a \<and> isgray gB a \<and>
      gray_lists gB = gray_lists gA \<and> (\<exists>s'. G_heap gB a = Some (OThread m s') \<and> th_top s' = th_top s \<and> th_maxstack s' = th_maxstack s)"
  proof (cases "G_state gA = GCSatomic")
    case True
    have e: "gB = (set_obj a (OThread m (clear_slots s)) gA)\<lparr>G_total := G_total gA\<rparr>" using True hA by (simp add: gB_def upd_thread_def set_obj_def)
    note N = thread_neutral [OF iA hA trimmed_clear [OF th] e]
    have "G_heap gB a = Some (OThread m (clear_slots s))" by (simp add: e set_obj_def)
    moreover have "th_top (clear_slots s) = th_top s" "th_maxstack (clear_slots s) = th_maxstack s" by (simp_all add: clear_slots_def)
    ultimately show ?thesis using N A2(2) by simp
  qed (use iA hA A2 in \<open>simp add: gB_def\<close>)
  then obtain s' where s': "G_heap gB a = Some (OThread m s')" "th_top s' = th_top s" "th_maxstack s' = th_maxstack s" by blast
  have wB: "a \<notin> whites gB" using B A2(4) by simp
  have cB: "same_code g gB" using rest_fields(10) [of gB gA] A(2) B by (simp add: progress_def same_code_def)
  define gC where "gC = gc_markobj gB (th_env s)"
  have oB: "one_colour gB" using B minvD(2) by blast
  note mC = markobj_ok [OF oB, of "th_env s", folded gC_def]
  have "frames_end gB (th_stack s) (int (th_base s) - 1)" using th frames_end_mono [of g] cB by (simp add: th_ok_def same_code_def)
  from frames_loop_ok [OF this mC(1) one_colour_step [OF mC(1) oB], of "int (th_top s) - 1"]
  obtain tp gD where fl: "frames_loop (th_stack s) (int (th_base s) - 1) (int (th_top s) - 1) gC = Some (tp, gD)" and mD: "mark_step gC gD" "int (th_top s) - 1 \<le> tp"
    and fr: "(\<lambda>f. tv_lo (th_stack s ! nat f)) ` frame_slots gB (th_stack s) (int (th_base s) - 1) \<inter> whites gD = {}" by blast
  have mBD: "mark_step gB gD" by (rule mark_step_trans [OF mC(1) mD(1)])
  note D = mark_stepD [OF mBD] and D2 = mark_keeps_obj [OF mBD wB]
  have gD: "isgray gD a" "a \<in> set (gray_lists gD)" "G_heap gD a = Some (OThread m s')"
    using D2(1,2,3) B A2(3) s'(1) by auto
  have iD: "minv {a} U W T gD" by (rule minv_step [OF conjunct1 [OF B] mBD]) (use wB in simp)
  have fn: "frame_fns g s \<inter> whites gD = {}"
    using fr frame_slots_cong [of gB g "th_stack s" "int (th_base s) - 1"] cB by (simp add: frame_fns_def same_code_def)
  have kg: "kids g a = insert (th_env s) (tvrefs (stack_vals s) \<union> frame_fns g s)" using h by (simp add: kids_def)
  have "kids g a \<inter> whites gD = {}" using fn mA(2) mC(2) mark_stepD(3) [OF mD(1)] D(3) B unfolding kg by blast
  moreover have "kids gD a \<subseteq> kids g a" using D(5) [of a] B A(5) [of a] by simp
  ultimately have kd: "kids gD a \<inter> whites gD = {}" by blast
  define need where "need = min (tp + 1) (int (th_maxstack s))"
  have "min (int (th_top s')) (int (th_maxstack s')) \<le> need" using mD(2) s'(2,3) by (simp add: need_def min_def)
  note S = shrink_ok [OF iD gD(3) this]
  define gE where "gE = lj_state_shrinkstack a need gD"
  have "gc_traverse_thread g a s = Some gE"
    unfolding gc_traverse_thread_def Let_def gA_def [symmetric] gB_def [symmetric] gC_def [symmetric] gc_traverse_frames_def fl by (simp add: need_def gE_def)
  moreover have "minv {} U W T gE"
  proof (rule finish_gray)
    show "minv {a} U W T gE" using S(1) by (simp add: gE_def)
    show "isgray gE a" "a \<in> set (gray_lists gE)" using S(6,7) gD by (simp_all add: gE_def)
    show "kids gE a \<inter> whites gE = {}" using S(4) S(5) [of a] kd by (auto simp: gE_def)
    have "is_thread gE a" using S(2) gD(3) by (simp add: gE_def progress_def same_kinds_def is_thread_def)
    then have "a \<notin> set (G_weak gE)" using minvD(7) [OF S(1), of a] by (auto simp: gE_def is_thread_def is_tab_def split: option.splits GCobj.splits)
    then show "strong_kids gE a \<inter> whites gE = {}" if W "a \<in> set (G_weak gE)" using that by simp
  qed
  moreover have "progress g gE" unfolding gE_def using progress_mark [OF mA(1)] B progress_mark [OF mBD] S(2) progress_trans by blast
  moreover have "gmeasure gE \<le> gmeasure g" using gmeasure_mark [OF mA(1)] gmeasure_mark [OF mBD] B S(3) by (simp add: gE_def)
  ultimately show ?thesis by blast
qed

section \<open>Propagation\<close>

lemma propagate_thread:
  assumes i: "minv {} U W T g" and p: "G_gray g = a # as" and h: "G_heap g a = Some (OThread m s)"
  shows "\<exists>m g'. propagatemark g = Some (m, g') \<and> minv {} U W T g' \<and> progress g g' \<and> gmeasure g' < gmeasure g"
proof -
  define g1 where "g1 = (gray2black a g)\<lparr>G_gray := as\<rparr>"
  note P = pop_ok [OF i p, folded g1_def]
  obtain m1 where m1: "G_heap g1 a = Some (OThread m1 s)"
  proof (cases rule: view_cases [OF P(8), of a])
    case (2 ob ob')
    have "ob = OThread m s" using 2(1) h by simp
    then obtain m' where "ob' = OThread m' s" using core_eqs [OF 2(3)] by auto
    then show ?thesis using that 2(2) by blast
  qed (use h in simp)
  define g2 where "g2 = g1\<lparr>G_grayagain := a # G_grayagain g1\<rparr>"
  define g3 where "g3 = black2gray a g2"
  have h2: "G_heap g2 = G_heap g1" "rest g2 = rest g1" "G_gray g2 = G_gray g1" "G_weak g2 = G_weak g1" "G_grayagain g2 = a # G_grayagain g1" by (simp_all add: g2_def rest_def)
  note E = list_upd_same [OF h2(1) rest_fields(10) [OF h2(2)]]
  have "listed g1 a" using m1 by (simp add: listed_def)
  then have i2: "minv {a} U W T g2" using h2 by (intro minv_push [OF P(1,4)]) simp_all
  have w2: "a \<notin> whites g2" using P(2) E(7) by simp
  then have nw: "\<not> iswhite g2 a" by (simp add: whites_def)
  have r: "recol a g2 g3" unfolding g3_def by (rule recol_black2gray [OF nw])
  note A = recolD [OF r]
  have l3: "G_gray g3 = G_gray g2" "G_grayagain g3 = G_grayagain g2" by (simp_all add: g3_def black2gray_def)
  have i3: "minv {a} U W T g3" by (rule minv_recol [OF i2 r w2]) (simp add: gray_lists_def h2(5))
  have wh: "whites g3 = whites g1" using A(3) w2 E(7) by simp
  have "alloc g2 a" using m1 by (simp add: alloc_def h2)
  then have g3: "isgray g3 a" "a \<in> set (G_grayagain g3)" "a \<notin> whites g3" using gray_after [OF nw] wh P(2) by (simp_all add: g3_def l3 [unfolded g3_def] h2(5))
  obtain m3 where m3: "G_heap g3 a = Some (OThread m3 s)" using m1 by (simp add: g3_def black2gray_def upd_marked_heap h2)
  obtain g4 where g4: "gc_traverse_thread g3 a s = Some g4" "minv {} U W T g4" "progress g3 g4" "gmeasure g4 \<le> gmeasure g3"
    using traverse_thread_ok [OF i3 g3(3,1,2) m3] by blast
  have pm: "\<exists>m. propagatemark g = Some (m, g4)"
    unfolding propagatemark_def p list.case Let_def g1_def [symmetric] m1 option.case GCobj.case g2_def [symmetric] g3_def [symmetric] g4(1) by simp
  have "same_kinds g1 g3" using view_same_kinds [OF A(1)] E(6) by (simp add: same_kinds_def)
  then have "progress g1 g3" using gray2black_state(2) [of a g2] h2(2) wh A(5) E(3) by (simp add: progress_def g3_def)
  then have "progress g g4" using P(6) g4(3) progress_trans by blast
  moreover have "gmeasure g3 = gmeasure g1" by (simp add: gmeasure_def wh l3 h2)
  ultimately show ?thesis using pm g4(2,4) P(7) by auto
qed

theorem propagate_step:
  assumes i: "minv {} U W T g" and p: "G_gray g = a # as"
  shows "\<exists>m g'. propagatemark g = Some (m, g') \<and> minv {} U W T g' \<and> progress g g' \<and> gmeasure g' < gmeasure g"
proof -
  define g1 where "g1 = (gray2black a g)\<lparr>G_gray := as\<rparr>"
  note P = pop_ok [OF i p, folded g1_def]
  have "listed g a" using minvD(5) [OF i] p by (simp add: gray_lists_def)
  then obtain ob where ob: "G_heap g a = Some ob" by (auto simp: listed_def split: option.splits)
  have h1: "G_heap g1 a = Some (set_marked (gco_marked ob OR LJ_GC_BLACK) ob)" using ob by (simp add: g1_def gray2black_def upd_marked_heap)
  have ok: "obj_ok g1 ob" using heap_okD(1) [OF heap_ok_view [OF P(8,9) minvD(1) [OF i]] h1] by (cases ob) (simp_all add: strs_ok_def tab_vals_def array_vals_def hash_nodes_def)
  have kd: "kids g a = obj_refs g1 ob" if "\<forall>mt t. ob \<noteq> OTab mt t" using that kids_view [OF P(8,9), of a] h1 by (cases ob) (simp_all add: kids_def array_vals_def hash_nodes_def)
  note plain = propagate_plain [OF i p, folded g1_def]
  have nx: "?thesis" if "marks_from g1 f (kids g a)" "\<not> is_thread g a" "\<not> leaf g a" "propagatemark g = Some (m, f g1)" for f m
    using plain [OF that(2,3,1)] that(4) by blast
  have pm: "propagatemark g = (case ob of
      OFunc m env fn \<Rightarrow> Some (sizefunc fn, gc_traverse_func g1 env fn) | OProto m pt \<Rightarrow> Some (ucast (p_sizept pt), gc_traverse_proto g1 pt)
    | OTrace m T \<Rightarrow> Some (sizetrace T, gc_traverse_trace g1 T) | _ \<Rightarrow> propagatemark g)"
    unfolding propagatemark_def p list.case Let_def g1_def [symmetric] h1 option.case by (cases ob) simp_all
  show ?thesis
  proof (cases ob)
    case (OTab mt t)
    then show ?thesis using propagate_tab [OF i p] ob by blast
  next
    case (OThread m s)
    then show ?thesis using propagate_thread [OF i p] ob by blast
  next
    case (OFunc m env fn)
    show ?thesis by (rule nx [where f = "\<lambda>g. gc_traverse_func g env fn"]) (use mf_func [of g1 env fn] kd pm ob in \<open>simp_all add: OFunc is_thread_def leaf_def\<close>)
  next
    case (OProto m pt)
    have "is_str g1 (p_chunkname pt)" "\<forall>a\<in>traceref g1 (p_trace pt). is_trace g1 a" using ok OProto by simp_all
    from mf_proto [OF this] show ?thesis
      by (intro nx [where f = "\<lambda>g. gc_traverse_proto g pt"]) (use kd pm ob in \<open>simp_all add: OProto is_thread_def leaf_def\<close>)
  next
    case (OTrace m T)
    show ?thesis by (rule nx [where f = "\<lambda>g. gc_traverse_trace g T"]) (use mf_tracetrav [of T g1] kd pm ob ok in \<open>simp_all add: OTrace is_thread_def leaf_def\<close>)
  qed (use \<open>listed g a\<close> ob in \<open>simp_all add: listed_def\<close>)
qed

theorem propagate_all:
  assumes "minv {} U W T g"
  shows "\<exists>m' g'. propagate_loop m g = Some (m', g') \<and> minv {} U W T g' \<and> progress g g' \<and> G_gray g' = []"
  using assms
proof (induction "gmeasure g" arbitrary: g m rule: less_induct)
  case less
  show ?case
  proof (cases "G_gray g")
    case Nil
    then show ?thesis using less.prems by (auto simp: propagate_loop.simps)
  next
    case (Cons a as)
    obtain k g1 where k: "propagatemark g = Some (k, g1)" "minv {} U W T g1" "progress g g1" "gmeasure g1 < gmeasure g"
      using propagate_step [OF less.prems Cons] by blast
    obtain m' g' where r: "propagate_loop (m + k) g1 = Some (m', g')" "minv {} U W T g'" "progress g1 g'" "G_gray g' = []"
      using less.hyps [OF k(4,2)] by blast
    have "propagate_loop m g = Some (m', g')" using Cons k(1) r(1) by (subst propagate_loop.simps) simp
    then show ?thesis using r(2,4) progress_trans [OF k(3) r(3)] by blast
  qed
qed

end
