(* ===== verification/LJ_GCAtomic.thy ===== *)
theory LJ_GCAtomic
  imports LJ_GCPropagate
begin

text \<open>
  The atomic phase: after it no live object refers to a dead one, and no object that a root reaches is dead.
\<close>

section \<open>Open upvalues\<close>

text \<open>Open upvalues are on the list of open upvalues.\<close>

definition uv_linked :: "gcG \<Rightarrow> bool" where "uv_linked g \<longleftrightarrow> (\<forall>a. is_openuv g a \<longrightarrow> a \<in> set (G_uvhead g))"

lemma mf_uv1: "marks_from g0 (mark_uv1 u) (if isgray g0 u \<and> is_openuv g0 u then kids g0 u else {})"
  unfolding marks_from_def
proof (intro allI impI)
  fix g assume m: "mark_step g0 g" "one_colour g"
  show "marks (mark_uv1 u) (if isgray g0 u \<and> is_openuv g0 u then kids g0 u else {}) g"
  proof (cases "isgray g0 u \<and> is_openuv g0 u")
    case True
    then have "u \<notin> whites g0" by (simp add: colours(1) whites_def)
    note h = mark_stepD(4) [OF m(1) this]
    obtain mk th i where u: "G_heap g0 u = Some (OUpval mk (UvOpen th i))" using True by (auto simp: is_openuv_def split: option.splits GCobj.splits uvloc.splits)
    have "mark_uv1 u g = gc_marktv g (uvval g (UvOpen th i))" using h u same_heap_colour(3) [OF h] True by (simp add: mark_uv1_def)
    moreover have "kids g0 u = tvref (uvval g (UvOpen th i))" using u uvval_view [OF mark_stepD(1) [OF m(1)]] by (simp add: kids_def)
    ultimately show ?thesis using marks_tv [OF m(2), of "uvval g (UvOpen th i)"] True by (simp add: marks_def)
  next
    case False
    have "mark_step g (mark_uv1 u g)" using marks_tv [OF m(2)] by (auto simp: mark_uv1_def marks_def split: option.split GCobj.split)
    then show ?thesis using False by (simp only: marks_def if_False) simp
  qed
qed

lemma mark_uv_ok:
  assumes i: "minv {} False W T g" and l: "uv_linked g"
  shows "mark_step g (gc_mark_uv g)" "minv {} True W T (gc_mark_uv g)"
proof -
  define g' where "g' = gc_mark_uv g"
  have "marks_from g (fold mark_uv1 (G_uvhead g)) (\<Union> ((\<lambda>u. if isgray g u \<and> is_openuv g u then kids g u else {}) ` set (G_uvhead g)))"
    by (rule mf_fold) (rule mf_uv1)
  then have mk: "marks (fold mark_uv1 (G_uvhead g)) (\<Union> ((\<lambda>u. if isgray g u \<and> is_openuv g u then kids g u else {}) ` set (G_uvhead g))) g"
    using minvD(2) [OF i] by (simp add: marks_from_def)
  have m: "mark_step g g'" using mk by (simp add: marks_def g'_def gc_mark_uv_def)
  have k: "kids g u \<inter> whites g' = {}" if u: "isgray g u" "is_openuv g u" for u
  proof -
    have "u \<in> set (G_uvhead g)" using l u by (simp add: uv_linked_def)
    then have "kids g u \<subseteq> \<Union> ((\<lambda>u. if isgray g u \<and> is_openuv g u then kids g u else {}) ` set (G_uvhead g))" using u by (intro UN_upper [THEN subset_trans [rotated]]) auto
    then show ?thesis using mk by (auto simp: marks_def g'_def gc_mark_uv_def)
  qed
  show "mark_step g (gc_mark_uv g)" using m by (simp add: g'_def)
  have i': "minv {} False W T g'" by (rule minv_step [OF i m]) simp
  note M = mark_stepD [OF m]
  obtain gs where gs: "\<And>x. x \<in> set gs \<Longrightarrow> isgray g' x \<and> listed g' x" "\<And>x. x \<in> whites g - whites g' \<Longrightarrow> x \<in> set gs \<or> settled g' x" by (rule gray_lists_mark [OF m]) blast
  have lf: "kids g' x \<inter> whites g' = {}" if x: "isgray g' x" "leaf g' x" for x
  proof (cases "x \<in> whites g")
    case True
    moreover have "x \<notin> whites g'" using x by (simp add: colours(1) whites_def)
    moreover have "\<not> listed g' x" using x(2) by (auto simp: leaf_def listed_def split: option.splits GCobj.splits)
    ultimately have "settled g' x" using gs by blast
    then show ?thesis by (simp add: settled_def)
  next
    case False
    have x0: "isgray g x" "leaf g x" using x mark_step_keeps(2) [OF m False] M(7) by simp_all
    show ?thesis
    proof (cases "is_openuv g x")
      case True
      then show ?thesis using k x0 M(5) by simp
    next
      case False
      then have "kids g x = {}" using x0(2) by (auto simp: is_openuv_def leaf_def kids_def split: option.splits GCobj.splits uvloc.splits)
      then show ?thesis by (simp add: M(5))
    qed
  qed
  note I = minvD [OF i']
  show "minv {} True W T (gc_mark_uv g)" unfolding g'_def [symmetric]
  proof (rule minvI)
    show "a \<in> set (gray_lists g') \<or> leaf g' a \<and> (True \<longrightarrow> kids g' a \<inter> whites g' = {})" if "isgray g' a" for a using I(10) [OF that] lf [OF that] by blast
  qed (use I in simp_all)
qed

section \<open>The phases of the marking\<close>

lemma minv_relist:
  assumes i: "minv {} U W T g" and h: "G_heap g' = G_heap g" "rest g' = rest g"
    and l: "set (gray_lists g') = set (gray_lists g)" "distinct (gray_lists g')" "set (G_weak g') \<subseteq> set (G_weak g)" "set (G_grayagain g') \<subseteq> set (G_grayagain g)"
    and f: "W' \<longrightarrow> W \<or> G_weak g' = []" "T' \<longrightarrow> T \<or> G_grayagain g' = []"
  shows "minv {} U W' T' g'"
proof -
  note I = minvD [OF i] and R = rest_fields [OF h(2)]
  note E = list_upd_same [OF h(1) R(10)]
  note C = same_heap_colour [OF fun_cong [OF h(1)]] and K = kinds_view [OF E(1)] and V = leaf_view [OF E(1)]
  show ?thesis
  proof (rule minvI)
    show "heap_ok g'" using I(1) E(5) by simp
    show "one_colour g'" using I(2) by (simp add: one_colour_def C)
    show "marked_at g' x AND LJ_GC_WHITES = gc_curwhite g'" if "iswhite g' x" for x using I(3) [of x] that by (simp add: C marked_at_def h(1) R(14))
    show "distinct (gray_lists g')" by (rule l)
    show "listed g' x" if "x \<in> set (gray_lists g')" for x using I(5) [of x] that by (simp add: l V)
    show "isgray g' x" if "x \<in> set (gray_lists g')" for x using I(6) [of x] that by (simp add: l C)
    show "is_tab g' x" if "x \<in> set (G_weak g')" for x using I(7) [of x] that l(3) by (auto simp: K)
    show "\<not> is_thread g' x \<and> \<not> leaf g' x" if "isblack g' x" for x using I(8) [of x] that by (simp add: C K V)
    show "kids g' x \<inter> whites g' = {}" if "isblack g' x" "x \<notin> set (G_mmudata g')" for x using I(9) [of x] that by (simp add: C E R(1))
    show "x \<in> set (gray_lists g') \<or> leaf g' x \<and> (U \<longrightarrow> kids g' x \<inter> whites g' = {})" if "isgray g' x" for x using I(10) [of x] that by (simp add: C E V l)
    show "is_udata g' x" if "x \<in> set (G_mmudata g')" for x using I(11) [of x] that by (simp add: K R(1))
    show "strong_kids g' x \<inter> whites g' = {}" if W' "x \<in> set (G_weak g')" for x using I(12) [of x] that f(1) l(3) by (auto simp: E)
    show "kids g' x \<inter> whites g' = {}" if T' "x \<in> set (G_grayagain g')" for x using I(13) [of x] that f(2) l(4) by (auto simp: E)
  qed
qed

section \<open>Userdata to be finalised\<close>

definition sep_step :: "gcG \<Rightarrow> gcG \<Rightarrow> bool" where
  "sep_step g g' \<longleftrightarrow> (rest g')\<lparr>G_mmudata := [], G_root := []\<rparr> = (rest g)\<lparr>G_mmudata := [], G_root := []\<rparr> \<and> whites g' = whites g \<and> same_kinds g g' \<and>
     G_gray g' = G_gray g \<and> G_grayagain g' = G_grayagain g \<and> G_weak g' = G_weak g \<and> (\<forall>a. kids g' a = kids g a)"

lemma sep_trans: "sep_step g g' \<Longrightarrow> sep_step g' g'' \<Longrightarrow> sep_step g g''"
  by (simp add: sep_step_def same_kinds_def)

lemma minv_same:
  assumes i: "minv X U W T g" and h: "G_heap g' = G_heap g" "same_code g g'"
    and L: "G_gray g' = G_gray g" "G_grayagain g' = G_grayagain g" "G_weak g' = G_weak g" "gc_curwhite g' = gc_curwhite g"
    and m: "set (G_mmudata g) \<subseteq> set (G_mmudata g')" "\<And>a. a \<in> set (G_mmudata g') \<Longrightarrow> is_udata g a"
  shows "minv X U W T g'"
proof -
  note E = list_upd_same [OF h] and I = minvD [OF i]
  note C = same_heap_colour [OF fun_cong [OF h(1)]] and K = kinds_view [OF E(1)] and V = leaf_view [OF E(1)]
  have gl: "gray_lists g' = gray_lists g" by (simp add: L gray_lists_def)
  show ?thesis
  proof (rule minvI)
    show "heap_ok g'" using I(1) E(5) by simp
    show "one_colour g'" using I(2) by (simp add: one_colour_def C)
    show "marked_at g' x AND LJ_GC_WHITES = gc_curwhite g'" if "iswhite g' x" for x using I(3) [of x] that by (simp add: C marked_at_def h(1) L)
    show "distinct (gray_lists g')" using I(4) by (simp add: gl)
    show "listed g' x" if "x \<in> set (gray_lists g')" for x using I(5) [of x] that by (simp add: gl V)
    show "isgray g' x" if "x \<in> set (gray_lists g')" "x \<notin> X" for x using I(6) [of x] that by (simp add: gl C)
    show "is_tab g' x" if "x \<in> set (G_weak g')" for x using I(7) [of x] that by (simp add: L K)
    show "\<not> is_thread g' x \<and> \<not> leaf g' x" if "isblack g' x" "x \<notin> X" for x using I(8) [of x] that by (simp add: C K V)
    show "kids g' x \<inter> whites g' = {}" if "isblack g' x" "x \<notin> X" "x \<notin> set (G_mmudata g')" for x using I(9) [of x] that m(1) by (auto simp: C E)
    show "x \<in> set (gray_lists g') \<or> leaf g' x \<and> (U \<longrightarrow> kids g' x \<inter> whites g' = {})" if "isgray g' x" for x using I(10) [of x] that by (simp add: C E V gl)
    show "is_udata g' x" if "x \<in> set (G_mmudata g')" for x using m(2) [OF that] by (simp add: K)
    show "strong_kids g' x \<inter> whites g' = {}" if W "x \<in> set (G_weak g')" "x \<notin> X" for x using I(12) [of x] that by (simp add: E L)
    show "kids g' x \<inter> whites g' = {}" if T "x \<in> set (G_grayagain g')" "x \<notin> X" for x using I(13) [of x] that by (simp add: E L)
  qed
qed

lemma minv_mmudata:
  assumes i: "minv X U W T g" and a: "is_udata g a"
  defines "g' \<equiv> g\<lparr>G_mmudata := G_mmudata g @ [a]\<rparr>"
  shows "minv X U W T g'" "sep_step g g'"
proof -
  have h: "G_heap g' = G_heap g" "same_code g g'" by (simp_all add: g'_def same_code_def)
  have L: "G_gray g' = G_gray g" "G_grayagain g' = G_grayagain g" "G_weak g' = G_weak g" "gc_curwhite g' = gc_curwhite g" by (simp_all add: g'_def gc_curwhite_def)
  show "minv X U W T g'" by (rule minv_same [OF i h L]) (use minvD(11) [OF i] a in \<open>auto simp: g'_def\<close>)
  note E = list_upd_same [OF h]
  show "sep_step g g'" using E(6,7) E(3) L(1-3) by (simp add: sep_step_def) (simp add: g'_def rest_def)
qed

lemma minv_root:
  assumes i: "minv X U W T g"
  shows "minv X U W T (g\<lparr>G_root := r\<rparr>)" "sep_step g (g\<lparr>G_root := r\<rparr>)"
proof -
  define g' where "g' = g\<lparr>G_root := r\<rparr>"
  have h: "G_heap g' = G_heap g" "same_code g g'" by (simp_all add: g'_def same_code_def)
  have L: "G_gray g' = G_gray g" "G_grayagain g' = G_grayagain g" "G_weak g' = G_weak g" "gc_curwhite g' = gc_curwhite g" by (simp_all add: g'_def gc_curwhite_def)
  have "minv X U W T g'" by (rule minv_same [OF i h L]) (use minvD(11) [OF i] in \<open>auto simp: g'_def\<close>)
  then show "minv X U W T (g\<lparr>G_root := r\<rparr>)" by (simp add: g'_def)
  note E = list_upd_same [OF h]
  have "sep_step g g'" using E(6,7) E(3) L(1-3) by (simp add: sep_step_def) (simp add: g'_def rest_def)
  then show "sep_step g (g\<lparr>G_root := r\<rparr>)" by (simp add: g'_def)
qed

lemma markfinalized_ok:
  assumes i: "minv X U W T g" and a: "is_udata g a"
  shows "minv X U W T (markfinalized a g)" "sep_step g (markfinalized a g)"
proof -
  have f: "(m OR LJ_GC_FINALIZED) AND LJ_GC_COLORS = m AND LJ_GC_COLORS" for m
  proof -
    have "LJ_GC_FINALIZED AND LJ_GC_COLORS = 0" by (simp add: LJ_GC_FINALIZED_def LJ_GC_COLORS_def LJ_GC_WHITES_def LJ_GC_BLACK_def)
    then show ?thesis by (simp add: bit.conj_disj_distrib2)
  qed
  have "\<not> is_tab g a" using a by (auto simp: is_udata_def is_tab_def split: option.splits GCobj.splits)
  then show "minv X U W T (markfinalized a g)" unfolding markfinalized_def by (intro minv_bits [OF i f]) simp
  define g' where "g' = markfinalized a g"
  have "marked_at g' x AND LJ_GC_COLORS = marked_at g x AND LJ_GC_COLORS" for x
    by (cases "G_heap g x") (auto simp: marked_at_def g'_def markfinalized_def upd_marked_heap f)
  then have c: "same_colours g g'" by (simp add: same_colours_def g'_def markfinalized_def)
  have k: "same_kinds g g'" "rest g' = rest g" "\<And>x. kids g' x = kids g x" "G_gray g' = G_gray g" "G_grayagain g' = G_grayagain g" "G_weak g' = G_weak g"
    by (simp_all add: same_kinds_def g'_def markfinalized_def upd_marked_kinds upd_marked_refs)
  have "sep_step g g'" using k same_coloursD(4) [OF c] by (simp add: sep_step_def)
  then show "sep_step g (markfinalized a g)" by (simp add: g'_def)
qed

lemma separate_loop_ok:
  "minv X U W T g \<Longrightarrow> \<exists>m us g'. separate_loop all as g = Some (m, us, g') \<and> minv X U W T g' \<and> sep_step g g'"
proof (induction as arbitrary: g)
  case Nil
  then show ?case by (auto simp: sep_step_def same_kinds_def)
next
  case (Cons a as)
  note keep = Cons.IH [OF Cons.prems]
  have go: ?case if s: "minv X U W T g1" "sep_step g g1" "separate_loop all (a # as) g = map_option (\<lambda>(m, us, g). (d + m, c @ us, g)) (separate_loop all as g1)" for g1 d c
  proof -
    obtain m us g' where "separate_loop all as g1 = Some (m, us, g')" "minv X U W T g'" "sep_step g1 g'" using Cons.IH [OF s(1)] by blast
    then show ?thesis using s(3) sep_trans [OF s(2)] by auto
  qed
  have refl: "sep_step g g" by (simp add: sep_step_def same_kinds_def)
  show ?case
  proof (cases "\<exists>m mt env len. G_heap g a = Some (OUdata m mt env len)")
    case False
    then have "separate_loop all (a # as) g = map_option (\<lambda>(m, us, g). (0 + m, [a] @ us, g)) (separate_loop all as g)"
      by (auto simp: Let_def split: option.split GCobj.split)
    then show ?thesis by (rule go [OF Cons.prems refl])
  next
    case True
    then obtain mk mt env len where u: "G_heap g a = Some (OUdata mk mt env len)" by blast
    show ?thesis
    proof (cases "\<not> (iswhite g a \<or> all) \<or> isfinalized g a")
      case True
      then have "separate_loop all (a # as) g = map_option (\<lambda>(m, us, g). (0 + m, [a] @ us, g)) (separate_loop all as g)"
        using u by (auto simp: Let_def)
      then show ?thesis by (rule go [OF Cons.prems refl])
    next
      case False
      have "meta_ok g mt" using heap_okD(1) [OF minvD(1) [OF Cons.prems] u] by simp
      then obtain mode g1 where f: "lj_meta_fastg g mt MM_gc = Some (mode, g1)"
        and B: "view g1 = view g" "same_colours g g1" "rest g1 = rest g" "\<And>x. strong_kids g1 x = strong_kids g x" "same_code g g1"
          "G_gray g1 = G_gray g" "G_grayagain g1 = G_grayagain g" "G_weak g1 = G_weak g" by (rule fastg_ok [of g mt MM_gc]) blast
      have i1: "minv X U W T g1" by (rule minv_view [OF Cons.prems B(1-3,5,4,6-8)])
      have s1: "sep_step g g1" using view_same_kinds [OF B(1)] same_coloursD(4) [OF B(2)] B(3,6-8) kids_view [OF B(1,5)] by (simp add: sep_step_def)
      have ud: "is_udata g1 a" using u kinds_view(4) [OF B(1)] by (simp add: is_udata_def)
      note m = markfinalized_ok [OF i1 ud]
      have s2: "sep_step g (markfinalized a g1)" by (rule sep_trans [OF s1 m(2)])
      show ?thesis
      proof (cases mode)
        case None
        then have "separate_loop all (a # as) g = map_option (\<lambda>(m, us, g). (0 + m, [a] @ us, g)) (separate_loop all as (markfinalized a g1))"
          using u False f by (simp add: Let_def)
        then show ?thesis by (rule go [OF m(1) s2])
      next
        case (Some mo)
        have "is_udata (markfinalized a g1) a" using ud m(2) by (simp add: sep_step_def same_kinds_def)
        note n = minv_mmudata [OF m(1) this]
        have q: "(markfinalized a g1)\<lparr>G_mmudata := G_mmudata g1 @ [a]\<rparr> = (markfinalized a g1)\<lparr>G_mmudata := G_mmudata (markfinalized a g1) @ [a]\<rparr>"
          by (simp add: markfinalized_def upd_marked_def set_obj_def split: option.split)
        have "separate_loop all (a # as) g = map_option (\<lambda>(m, us, g). ((sizeof_GCudata + ucast len) + m, [] @ us, g))
            (separate_loop all as ((markfinalized a g1)\<lparr>G_mmudata := G_mmudata (markfinalized a g1) @ [a]\<rparr>))"
          using u False f Some by (simp add: Let_def q [symmetric])
        then show ?thesis by (rule go [OF n(1) sep_trans [OF s2 n(2)]])
      qed
    qed
  qed
qed

lemma separateudata_ok:
  assumes "minv X U W T g"
  shows "\<exists>m g'. lj_gc_separateudata g all = Some (m, g') \<and> minv X U W T g' \<and> sep_step g g'"
proof -
  obtain m us g' where s: "separate_loop all (tl (dropWhile (\<lambda>a. a \<noteq> G_mainth g) (G_root g))) g = Some (m, us, g')" "minv X U W T g'" "sep_step g g'"
    using separate_loop_ok [OF assms] by blast
  then show ?thesis using minv_root [OF s(2)] sep_trans [OF s(3) minv_root(2) [OF s(2)]] by (simp add: lj_gc_separateudata_def)
qed

lemma makewhite_bits:
  assumes c: "cw = w AND LJ_GC_WHITES"
  shows "(m :: u8) AND LJ_GC_WHITES = 0 \<Longrightarrow> m AND LJ_GC_BLACK \<noteq> 0 \<Longrightarrow> ((m AND NOT LJ_GC_COLORS OR cw) AND NOT LJ_GC_WHITES) OR LJ_GC_BLACK = m"
    "m AND LJ_GC_WHITES = cw \<Longrightarrow> m AND LJ_GC_BLACK = 0 \<Longrightarrow> m AND NOT LJ_GC_COLORS OR cw = m"
proof -
  have eq: "LJ_GC_BLACK = push_bit 2 1" by (simp add: LJ_GC_BLACK_def push_bit_eq_mult)
  have W: "bit LJ_GC_WHITES n \<longleftrightarrow> n = 0 \<or> n = 1" for n
  proof -
    have "LJ_GC_WHITES = mask 2" by (simp add: LJ_GC_WHITES_def mask_eq_exp_minus_1)
    then have "bit LJ_GC_WHITES n = bit (mask 2 :: u8) n" by (rule arg_cong)
    then show ?thesis unfolding bit_mask_iff by auto
  qed
  have B: "bit LJ_GC_BLACK n \<longleftrightarrow> n = 2" for n unfolding eq bit_push_bit_iff bit_1_iff by auto
  show "((m AND NOT LJ_GC_COLORS OR cw) AND NOT LJ_GC_WHITES) OR LJ_GC_BLACK = m" if "m AND LJ_GC_WHITES = 0" "m AND LJ_GC_BLACK \<noteq> 0"
  proof (rule bit_word_eqI)
    fix n assume n: "n < LENGTH(8)"
    have w: "\<not> (bit m n \<and> bit LJ_GC_WHITES n)" using arg_cong [OF that(1), of "\<lambda>x. bit x n"] by (simp add: bit_and_iff)
    have b: "bit m 2"
    proof (rule ccontr)
      assume "\<not> bit m 2"
      then have "m AND LJ_GC_BLACK = 0" by (intro bit_word_eqI) (auto simp: bit_and_iff B)
      then show False using that(2) by simp
    qed
    show "bit (((m AND NOT LJ_GC_COLORS OR cw) AND NOT LJ_GC_WHITES) OR LJ_GC_BLACK) n = bit m n"
      using w b n by (auto simp: c bit_simps LJ_GC_COLORS_def W B)
  qed
  show "m AND NOT LJ_GC_COLORS OR cw = m" if "m AND LJ_GC_WHITES = cw" "m AND LJ_GC_BLACK = 0"
  proof (rule bit_word_eqI)
    fix n assume n: "n < LENGTH(8)"
    have w: "bit cw n \<longleftrightarrow> bit m n \<and> bit LJ_GC_WHITES n" using arg_cong [OF that(1), of "\<lambda>x. bit x n"] by (simp add: bit_and_iff)
    have b: "\<not> (bit m n \<and> bit LJ_GC_BLACK n)" using arg_cong [OF that(2), of "\<lambda>x. bit x n"] by (simp add: bit_and_iff)
    show "bit (m AND NOT LJ_GC_COLORS OR cw) n = bit m n" using w b n by (auto simp: bit_simps LJ_GC_COLORS_def)
  qed
qed

text \<open>Userdata to be finalised are made white and marked; those that are black keep their colour.\<close>

lemma remark_ok:
  assumes i: "minv {} U W T g" and u: "is_udata g u"
  shows "marks (\<lambda>g. gc_mark (makewhite g u) u) (kids g u) g"
proof -
  note I = minvD [OF i]
  obtain m mt env len where ob: "G_heap g u = Some (OUdata m mt env len)" using u by (auto simp: is_udata_def split: option.splits GCobj.splits)
  have nl: "\<not> listed g u" "\<not> leaf g u" using ob by (simp_all add: listed_def leaf_def)
  have kd: "kids g u = insert env (nonnull mt)" using ob by (simp add: kids_def)
  have al: "alloc g u" using ob by (simp add: alloc_def)
  show ?thesis
  proof (cases "iswhite g u")
    case True
    have b: "m AND LJ_GC_WHITES = gc_curwhite g" using I(3) [OF True] ob by (simp add: marked_at_def)
    have "\<not> isblack g u" using I(2) True by (simp add: one_colour_def)
    then have "m AND LJ_GC_BLACK = 0" using ob by (simp add: isblack_def has_bits_def)
    from makewhite_bits(2) [OF gc_curwhite_def b this] have "makewhite g u = g" using ob by (simp add: makewhite_def upd_marked_def set_obj_def fun_upd_idem)
    then have e: "gc_mark (makewhite g u) u = gc_mark g u" by simp
    have m: "mark_step g (gc_mark g u)" "u \<notin> whites (gc_mark g u)" using gc_mark_ok [OF I(2) True] by simp_all
    obtain gs where gs: "\<And>x. x \<in> set gs \<Longrightarrow> listed (gc_mark g u) x" "\<And>x. x \<in> whites g - whites (gc_mark g u) \<Longrightarrow> x \<in> set gs \<or> settled (gc_mark g u) x"
      by (rule gray_lists_mark [OF m(1)]) blast
    have "u \<in> whites g" using True by (simp add: whites_def)
    then have "settled (gc_mark g u) u" using gs m(2) nl(1) mark_stepD(8) [OF m(1)] by blast
    then show ?thesis using m(1) mark_stepD(5) [OF m(1), of u] by (simp add: marks_def e settled_def)
  next
    case False
    have "\<not> isgray g u" using I(10) [of u] I(5) [of u] nl by blast
    then have bl: "isblack g u" using False al by (simp add: colours(1))
    have b: "m AND LJ_GC_WHITES = 0" "m AND LJ_GC_BLACK \<noteq> 0" using False bl ob by (simp_all add: iswhite_def isblack_def has_bits_def)
    define n where "n = m AND NOT LJ_GC_COLORS OR gc_curwhite g"
    have h: "G_heap (makewhite g u) u = Some (OUdata n mt env len)" using ob by (simp add: makewhite_def upd_marked_heap n_def)
    have bk: "gray2black u (white2gray u (makewhite g u)) = g"
      using makewhite_bits(1) [OF gc_curwhite_def b] ob
      by (simp add: gray2black_def white2gray_def makewhite_def upd_marked_def set_obj_def fun_upd_idem)
    have e: "gc_mark (makewhite g u) u = gc_markobj (if mt \<noteq> 0 then gc_markobj g mt else g) env"
      unfolding gc_mark_def gc_markobj_def by (subst gc_mark_if.simps) (simp add: h Let_def bk)
    have m: "marks (\<lambda>g. if mt \<noteq> 0 then gc_markobj g mt else g) (if mt \<noteq> 0 then {mt} else {}) g" by (rule marks_if) (rule marks_obj [OF I(2)])
    have "marks (\<lambda>g. gc_markobj (if mt \<noteq> 0 then gc_markobj g mt else g) env) ((if mt \<noteq> 0 then {mt} else {}) \<union> {env}) g"
      by (rule marks_comp [OF m marks_obj]) (rule marks_one_colour [OF m I(2)])
    then show ?thesis by (auto simp: marks_def e kd nonnull_def)
  qed
qed

lemma remark_all:
  "minv {} U W T g \<Longrightarrow> \<forall>u\<in>set us. is_udata g u \<Longrightarrow> marks (fold (\<lambda>u g. gc_mark (makewhite g u) u) us) (\<Union> (kids g ` set us)) g"
proof (induction us arbitrary: g)
  case (Cons u us)
  define g1 where "g1 = gc_mark (makewhite g u) u"
  have m: "marks (\<lambda>g. gc_mark (makewhite g u) u) (kids g u) g" using remark_ok [OF Cons.prems(1)] Cons.prems(2) by simp
  then have s: "mark_step g g1" by (simp add: marks_def g1_def)
  have "minv {} U W T g1" by (rule minv_step [OF Cons.prems(1) s]) simp
  moreover have "\<forall>u\<in>set us. is_udata g1 u" using Cons.prems(2) kinds_view(4) [OF mark_stepD(1) [OF s]] by simp
  ultimately have "marks (fold (\<lambda>u g. gc_mark (makewhite g u) u) us) (\<Union> (kids g1 ` set us)) g1" by (rule Cons.IH)
  then have "marks (fold (\<lambda>u g. gc_mark (makewhite g u) u) us) (\<Union> (kids g ` set us)) g1" using mark_stepD(5) [OF s] by simp
  from marks_comp [OF m this [unfolded g1_def]] show ?case by (simp add: marks_def)
qed (simp add: marks_def)

section \<open>Weak tables\<close>

definition val_cleared :: "TValue \<Rightarrow> TValue \<Rightarrow> bool" where "val_cleared tv tv' \<longleftrightarrow> tv' = tv \<or> tv' = mk_tv 0 LJ_TNIL"
definition node_cleared :: "Node \<Rightarrow> Node \<Rightarrow> bool" where "node_cleared n n' \<longleftrightarrow> n' = n \<or> n' = n\<lparr>n_val := mk_tv 0 LJ_TNIL\<rparr>"

definition tab_cleared :: "GCtab \<Rightarrow> GCtab \<Rightarrow> bool" where
  "tab_cleared t t' \<longleftrightarrow> t_marked t' = t_marked t \<and> t_asize t' = t_asize t \<and> t_hmask t' = t_hmask t \<and> list_all2 val_cleared (t_array t) (t_array t') \<and>
     list_all2 node_cleared (t_node t) (t_node t')"

lemma tvisnil_nil [simp]: "tvisnil (mk_tv 0 LJ_TNIL)" "\<not> tvisstr (mk_tv 0 LJ_TNIL)"
  by (simp_all add: tvisnil_def tvisstr_def itype_def tag_defs)

lemma node_refs_iff: "x \<in> nodes_refs ns \<longleftrightarrow> (\<exists>n\<in>set ns. \<not> tvisnil (n_val n) \<and> (x \<in> tvref (n_key n) \<or> x \<in> tvref (n_val n)))"
  by (auto simp: nodes_refs_def)

lemma cleared_vals:
  assumes "list_all2 val_cleared xs ys"
  shows "tvrefs ys \<subseteq> tvrefs xs" "set ys \<subseteq> insert (mk_tv 0 LJ_TNIL) (set xs)"
  using assms by (induction rule: list_all2_induct) (auto simp: tvrefs_def val_cleared_def)

lemma cleared_nodes:
  assumes "list_all2 node_cleared ns ns'" "n' \<in> set ns'"
  shows "n' \<in> set ns \<or> tvisnil (n_val n') \<and> \<not> tvisstr (n_val n') \<and> n_key n' \<in> n_key ` set ns"
  using assms by (induction rule: list_all2_induct) (auto simp: node_cleared_def)

lemma cleared_parts:
  assumes "tab_cleared t t'"
  shows "tvrefs (array_vals t') \<subseteq> tvrefs (array_vals t)" "n' \<in> set (hash_nodes t') \<Longrightarrow> n' \<in> set (hash_nodes t) \<or> tvisnil (n_val n') \<and> \<not> tvisstr (n_val n') \<and> n_key n' \<in> n_key ` set (hash_nodes t)"
    "set (array_vals t') \<subseteq> insert (mk_tv 0 LJ_TNIL) (set (array_vals t))"
proof -
  have t: "t_asize t' = t_asize t" "t_hmask t' = t_hmask t" "list_all2 val_cleared (t_array t) (t_array t')" "list_all2 node_cleared (t_node t) (t_node t')"
    using assms by (auto simp: tab_cleared_def)
  have "list_all2 val_cleared (array_vals t) (array_vals t')" by (simp add: array_vals_def t list_all2_takeI)
  from cleared_vals [OF this] show "tvrefs (array_vals t') \<subseteq> tvrefs (array_vals t)" "set (array_vals t') \<subseteq> insert (mk_tv 0 LJ_TNIL) (set (array_vals t))" by simp_all
  have "list_all2 node_cleared (hash_nodes t) (hash_nodes t')" by (simp add: hash_nodes_def t list_all2_takeI)
  from cleared_nodes [OF this] show "n' \<in> set (hash_nodes t') \<Longrightarrow> n' \<in> set (hash_nodes t) \<or> tvisnil (n_val n') \<and> \<not> tvisstr (n_val n') \<and> n_key n' \<in> n_key ` set (hash_nodes t)" .
qed

lemma cleared_refs:
  assumes "tab_cleared t t'"
  shows "strong_refs w mt t' \<subseteq> strong_refs w mt t"
proof -
  note P = cleared_parts [OF assms]
  let ?f = "\<lambda>n. (if w AND LJ_GC_WEAKKEY = 0 then tvref (n_key n) else {}) \<union> (if w AND LJ_GC_WEAKVAL = 0 then tvref (n_val n) else {})"
  have "{n \<in> set (hash_nodes t'). \<not> tvisnil (n_val n)} \<subseteq> {n \<in> set (hash_nodes t). \<not> tvisnil (n_val n)}" using P(2) by blast
  then have "\<Union> (?f ` {n \<in> set (hash_nodes t'). \<not> tvisnil (n_val n)}) \<subseteq> \<Union> (?f ` {n \<in> set (hash_nodes t). \<not> tvisnil (n_val n)})" by blast
  moreover have "(if w AND LJ_GC_WEAKVAL = 0 then tvrefs (array_vals t') else {}) \<subseteq> (if w AND LJ_GC_WEAKVAL = 0 then tvrefs (array_vals t) else {})" using P(1) by simp
  ultimately show ?thesis unfolding strong_refs_def by (intro Un_mono subset_refl)
qed

lemma cleared_lookup:
  assumes "tab_cleared t t'" "lookup_ok t"
  shows "lookup_ok t'"
proof -
  have l: "list_all2 node_cleared (t_node t) (t_node t')" "t_hmask t' = t_hmask t" using assms(1) by (auto simp: tab_cleared_def)
  then have ln: "length (t_node t') = length (t_node t)" by (auto dest: list_all2_lengthD)
  have "n_next (t_node t' ! i) = n_next (t_node t ! i)" if "i < length (t_node t)" for i
    using list_all2_nthD [OF l(1) that] by (auto simp: node_cleared_def)
  then have "nxt (t_node t') = nxt (t_node t)" by (auto simp: nxt_def ln)
  then show ?thesis using assms(2) by (simp add: lookup_ok_def ranked_def ln l(2))
qed

text \<open>Clearing entries of a table.\<close>

lemma tab_neutral:
  assumes i: "minv X U W T g" and h: "G_heap g a = Some (OTab mt t)" and t: "tab_cleared t t'" and e: "g' = set_obj a (OTab mt t') g"
  shows "minv X U W T g'" "progress g g'" "whites g' = whites g" "G_gray g' = G_gray g" "G_grayagain g' = G_grayagain g" "G_weak g' = G_weak g"
proof -
  have hp: "G_heap g' = (G_heap g)(a \<mapsto> OTab mt t')" and st: "same_code g g'" "rest g' = rest g" "G_gray g' = G_gray g" "G_grayagain g' = G_grayagain g" "G_weak g' = G_weak g"
    by (simp_all add: e set_obj_def same_code_def rest_def)
  have mk: "t_marked t' = t_marked t" using t by (simp add: tab_cleared_def)
  have c: "same_colours g g'" using h mk by (simp add: same_colours_def alloc_def marked_at_def hp)
  have k: "same_kinds g g'" using h by (simp add: same_kinds_def alloc_def leaf_def listed_def is_tab_def is_thread_def is_udata_def is_str_def is_trace_def is_openuv_def hp)
  have gc: "G_code g' = G_code g" using st(1) by (simp add: same_code_def)
  have tr: "traceref g' = traceref g" "trace_refs g' = trace_refs g" using st(1) by (auto simp: same_code_def fun_eq_iff traceref_def trace_refs_def)
  have fr: "frame_fns g' = frame_fns g" by (intro ext) (simp only: frame_fns_def frame_slots_cong [OF gc])
  have uv: "uvval g' l = uvval g l" for l using h by (auto simp: uvval_def hp split: uvloc.split)
  have ro: "obj_refs g' ob = obj_refs g ob" for ob by (cases ob) (simp_all add: tr fr uv)
  have ks: "kids g' x \<subseteq> kids g x" for x
  proof (cases "x = a")
    case True
    have "G_heap g' a = Some (OTab mt t')" by (simp add: hp)
    from tab_kids [OF this] tab_kids [OF h] cleared_refs [OF t] show ?thesis using True by simp
  qed (simp add: kids_def hp ro split: option.split)
  have sk: "strong_kids g' x \<subseteq> strong_kids g x" for x
  proof (cases "x = a")
    case True
    then show ?thesis using cleared_refs [OF t] by (simp add: strong_kids_def hp h mk)
  next
    case False
    have "strong_kids g' x = strong_kids g x" by (rule strong_kids_same) (use False in \<open>simp_all add: kids_def hp ro split: option.split\<close>)
    then show ?thesis by simp
  qed
  have mo: "meta_ok g x \<Longrightarrow> meta_ok g' x" for x using h cleared_lookup [OF t] by (auto simp: meta_ok_def hp)
  have kd: "is_str g' x = is_str g x" "is_trace g' x = is_trace g x" for x using k by (simp_all add: same_kinds_def)
  have ok: "obj_ok g ob \<Longrightarrow> obj_ok g' ob" for ob by (cases ob) (simp_all add: tr kd mo strs_ok_def th_ok_code [OF st(1)])
  have ho: "heap_ok g'"
  proof (unfold heap_ok_def, intro conjI allI impI)
    fix x ob assume x: "G_heap g' x = Some ob"
    show "obj_ok g' ob"
    proof (cases "x = a")
      case True
      have o: "meta_ok g mt" "strs_ok g (tab_vals t)" using heap_okD(1) [OF minvD(1) [OF i] h] by simp_all
      note P = cleared_parts [OF t]
      have "tvisstr tv \<longrightarrow> is_str g (gcrV tv)" if tv: "tv \<in> tab_vals t'" for tv
      proof (cases "tv \<in> set (array_vals t')")
        case True
        then show ?thesis using P(3) o(2) by (auto simp: strs_ok_def tab_vals_def)
      next
        case False
        then obtain n where n: "n \<in> set (hash_nodes t')" "tv = n_key n \<or> tv = n_val n" using tv by (auto simp: tab_vals_def)
        show ?thesis using P(2) [OF n(1)] n(2) o(2) by (auto simp: strs_ok_def tab_vals_def)
      qed
      then show ?thesis using x True mo [OF o(1)] by (auto simp: hp kd strs_ok_def)
    next
      case False
      then show ?thesis using x heap_okD(1) [OF minvD(1) [OF i]] ok by (simp add: hp)
    qed
  next
    fix x y assume "y \<in> kids g' x"
    then have "y \<in> kids g x" using ks by blast
    then show "alloc g' y" using heap_okD(2) [OF minvD(1) [OF i]] k by (simp add: same_kinds_def)
  qed
  show "minv X U W T g'" by (rule minv_neutral [OF i ho c k st(2-5) ks sk])
  show wh: "whites g' = whites g" by (rule same_coloursD(4) [OF c])
  show "progress g g'" using k st(2) wh ks by (simp add: progress_def)
  show "G_gray g' = G_gray g" "G_grayagain g' = G_grayagain g" "G_weak g' = G_weak g" by (fact st)+
qed

definition clears :: "gcG \<Rightarrow> gcG \<Rightarrow> bool" where
  "clears g g' \<longleftrightarrow> mark_step g g' \<and> G_gray g' = G_gray g"

lemma clears_trans: "clears g g' \<Longrightarrow> clears g' g'' \<Longrightarrow> clears g g''"
  using mark_step_trans [of g g' g''] by (auto simp: clears_def)

lemma clears_refl [simp]: "clears g g" by (simp add: clears_def)

lemma clearsD:
  assumes "clears g g'"
  shows "one_colour g \<Longrightarrow> one_colour g'" "whites g' \<subseteq> whites g" "strs_ok g' A = strs_ok g A"
proof -
  have m: "mark_step g g'" using assms by (simp add: clears_def)
  show "one_colour g \<Longrightarrow> one_colour g'" "whites g' \<subseteq> whites g" using one_colour_step [OF m] mark_stepD(3) [OF m] by auto
  show "strs_ok g' A = strs_ok g A" by (simp add: strs_ok_def kinds_view(2) [OF mark_stepD(1) [OF m]])
qed

lemma mayclear_ok:
  assumes o: "one_colour g" and s: "strs_ok g {tv}"
  shows "clears g (snd (gc_mayclear tv val g))" "\<not> fst (gc_mayclear tv val g) \<Longrightarrow> tvref tv \<inter> whites (snd (gc_mayclear tv val g)) = {}"
proof -
  have "clears g (gc_mark_str (gcrV tv) g)" "gcrV tv \<notin> whites (gc_mark_str (gcrV tv) g)" if "tvisstr tv"
    using marks_str [OF _ o, of "gcrV tv"] s that by (auto simp: strs_ok_def marks_def clears_def gc_mark_str_def white2gray_def)
  then show "clears g (snd (gc_mayclear tv val g))" "\<not> fst (gc_mayclear tv val g) \<Longrightarrow> tvref tv \<inter> whites (snd (gc_mayclear tv val g)) = {}"
    by (auto simp: gc_mayclear_def tvref_def whites_def)
qed

lemma clear_array_ok:
  "one_colour g \<Longrightarrow> strs_ok g (set tvs) \<Longrightarrow> clear_array tvs g = (tvs', g') \<Longrightarrow>
     clears g g' \<and> list_all2 val_cleared tvs tvs' \<and> tvrefs tvs' \<inter> whites g' = {}"
proof (induction tvs arbitrary: g tvs' g')
  case (Cons tv tvs)
  obtain c g1 where c: "gc_mayclear tv True g = (c, g1)" by fastforce
  obtain us g2 where u: "clear_array tvs g1 = (us, g2)" by fastforce
  have m: "clears g g1" "\<not> c \<Longrightarrow> tvref tv \<inter> whites g1 = {}" using mayclear_ok [OF Cons.prems(1), of tv True] Cons.prems(2) c by (auto simp: strs_ok_def)
  note M = clearsD [OF m(1)]
  have r: "clears g1 g2 \<and> list_all2 val_cleared tvs us \<and> tvrefs us \<inter> whites g2 = {}"
    using Cons.IH [OF M(1) [OF Cons.prems(1)] _ u] Cons.prems(2) M(3) by (auto simp: strs_ok_def)
  have e: "tvs' = (if c then mk_tv 0 LJ_TNIL else tv) # us" "g' = g2" using Cons.prems(3) c u by (auto simp: Let_def)
  have "whites g2 \<subseteq> whites g1" using r clearsD(2) by blast
  then have "tvref (if c then mk_tv 0 LJ_TNIL else tv) \<inter> whites g2 = {}" using m(2) by (cases c) auto
  moreover have "val_cleared tv (if c then mk_tv 0 LJ_TNIL else tv)" by (simp add: val_cleared_def)
  ultimately show ?case using r clears_trans [OF m(1)] by (auto simp: e tvrefs_def)
qed (simp add: tvrefs_def)

lemma clearweak_node_ok:
  assumes o: "one_colour g" and s: "strs_ok g {n_key n, n_val n}" and e: "clearweak_node n g = (n', g')"
  shows "clears g g' \<and> node_cleared n n' \<and> (tvisnil (n_val n') \<or> (tvref (n_key n') \<union> tvref (n_val n')) \<inter> whites g' = {})"
proof (cases "tvisnil (n_val n)")
  case False
  obtain c g1 where c: "gc_mayclear (n_key n) False g = (c, g1)" by fastforce
  obtain d g2 where d: "gc_mayclear (n_val n) True g1 = (d, g2)" by fastforce
  have m: "clears g g1" "\<not> c \<Longrightarrow> tvref (n_key n) \<inter> whites g1 = {}" using mayclear_ok [OF o, of "n_key n" False] s c by (auto simp: strs_ok_def)
  note M = clearsD [OF m(1)]
  have m2: "clears g1 g2" "\<not> d \<Longrightarrow> tvref (n_val n) \<inter> whites g2 = {}" using mayclear_ok [OF M(1) [OF o], of "n_val n" True] s M(3) d by (auto simp: strs_ok_def)
  show ?thesis
  proof (cases c)
    case True
    then show ?thesis using e c m(1) False by (auto simp: clearweak_node_def node_cleared_def)
  next
    case nc: False
    have "n' = (if d then n\<lparr>n_val := mk_tv 0 LJ_TNIL\<rparr> else n)" "g' = g2" using e c d nc False by (auto simp: clearweak_node_def)
    moreover have "(tvref (n_key n) \<union> tvref (n_val n)) \<inter> whites g2 = {}" if "\<not> d" using m(2) [OF nc] m2(2) [OF that] clearsD(2) [OF m2(1)] by blast
    ultimately show ?thesis using clears_trans [OF m(1) m2(1)] by (cases d) (auto simp: node_cleared_def)
  qed
qed (use e in \<open>auto simp: clearweak_node_def node_cleared_def\<close>)

lemma clear_nodes_ok:
  "one_colour g \<Longrightarrow> strs_ok g (n_key ` set ns \<union> n_val ` set ns) \<Longrightarrow> clear_nodes ns g = (ns', g') \<Longrightarrow>
     clears g g' \<and> list_all2 node_cleared ns ns' \<and> nodes_refs ns' \<inter> whites g' = {}"
proof (induction ns arbitrary: g ns' g')
  case (Cons n ns)
  obtain n1 g1 where c: "clearweak_node n g = (n1, g1)" by fastforce
  obtain us g2 where u: "clear_nodes ns g1 = (us, g2)" by fastforce
  have m: "clears g g1 \<and> node_cleared n n1 \<and> (tvisnil (n_val n1) \<or> (tvref (n_key n1) \<union> tvref (n_val n1)) \<inter> whites g1 = {})"
    by (rule clearweak_node_ok [OF Cons.prems(1) _ c]) (use Cons.prems(2) in \<open>auto simp: strs_ok_def\<close>)
  note M = clearsD [OF conjunct1 [OF m]]
  have r: "clears g1 g2 \<and> list_all2 node_cleared ns us \<and> nodes_refs us \<inter> whites g2 = {}"
    using Cons.IH [OF M(1) [OF Cons.prems(1)] _ u] Cons.prems(2) M(3) by (auto simp: strs_ok_def)
  have e: "ns' = n1 # us" "g' = g2" using Cons.prems(3) c u by (auto simp: Let_def)
  have "whites g2 \<subseteq> whites g1" using r clearsD(2) by blast
  then have "nodes_refs ns' \<inter> whites g2 = {}" using r m by (auto simp: e nodes_refs_def)
  then show ?case using r m clears_trans [of g g1 g2] by (simp add: e)
qed (simp add: nodes_refs_def)

lemma clears_same:
  assumes "clears g g'" "a \<in> set (gray_lists g)" "minv {} U W T g"
  shows "minv {} U W T g'" "progress g g'" "G_heap g' a = G_heap g a" "gray_lists g' = gray_lists g" "G_gray g' = G_gray g" "G_weak g' = G_weak g"
proof -
  have m: "mark_step g g'" using assms(1) by (simp add: clears_def)
  show "minv {} U W T g'" by (rule minv_step [OF assms(3) m]) simp
  show "progress g g'" by (rule progress_mark [OF m])
  have "isgray g a" using minvD(6) [OF assms(3,2)] by simp
  then show "G_heap g' a = G_heap g a" using mark_stepD(4) [OF m] by (simp add: colours(1) whites_def)
  show "G_gray g' = G_gray g" using assms(1) by (simp add: clears_def)
  show "G_weak g' = G_weak g" by (rule gray_lists_mark [OF m]) simp
  show "gray_lists g' = gray_lists g" by (rule gray_lists_mark [OF m]) (use assms(1) in \<open>simp add: clears_def gray_lists_def\<close>)
qed

lemma cleared_append:
  "list_all2 P (take n xs) ys \<Longrightarrow> (\<And>x. P x x) \<Longrightarrow> list_all2 P xs (ys @ drop (length ys) xs)"
proof -
  assume a: "list_all2 P (take n xs) ys" and r: "\<And>x. P x x"
  have "length ys = length (take n xs)" using list_all2_lengthD [OF a] by simp
  then have "drop (length ys) xs = drop n xs" by (cases "n \<le> length xs") simp_all
  moreover have "list_all2 P (drop n xs) (drop n xs)" by (rule list_all2_refl) (rule r)
  ultimately have "list_all2 P (take n xs @ drop n xs) (ys @ drop (length ys) xs)" using a by (intro list_all2_appendI) simp_all
  then show ?thesis by simp
qed

lemma clear_weak1_ok:
  assumes i: "minv {} U True T g" and a: "a \<in> set (G_weak g)"
  defines "g' \<equiv> clear_weak1 a g"
  shows "minv {} U True T g'" "progress g g'" "G_gray g' = G_gray g" "G_weak g' = G_weak g" "kids g' a \<inter> whites g' = {}"
proof -
  have gl: "a \<in> set (gray_lists g)" using a by (simp add: gray_lists_def)
  obtain mt t where t: "G_heap g a = Some (OTab mt t)" using minvD(7) [OF i a] by (auto simp: is_tab_def split: option.splits GCobj.splits)
  have so: "strs_ok g (tab_vals t)" using heap_okD(1) [OF minvD(1) [OF i] t] by simp
  have st: "strong_refs (t_marked t AND LJ_GC_WEAK) mt t \<inter> whites g = {}" using minvD(12) [OF i _ a] t by (simp add: strong_kids_def)
  define wv where "wv \<longleftrightarrow> t_marked t AND LJ_GC_WEAKVAL \<noteq> 0"
  obtain tvs g1 where ca: "(if wv then clear_array (array_vals t) g else (array_vals t, g)) = (tvs, g1)" by fastforce
  have w0: "(t_marked t AND LJ_GC_WEAK) AND LJ_GC_WEAKVAL = t_marked t AND LJ_GC_WEAKVAL"
    by (simp only: and.assoc) (simp add: LJ_GC_WEAK_def LJ_GC_WEAKKEY_def LJ_GC_WEAKVAL_def)
  have r1: "clears g g1 \<and> list_all2 val_cleared (array_vals t) tvs \<and> tvrefs tvs \<inter> whites g1 = {}"
  proof (cases wv)
    case True
    have sa: "strs_ok g (set (array_vals t))" using so by (auto simp: strs_ok_def tab_vals_def)
    show ?thesis by (rule clear_array_ok [OF minvD(2) [OF i] sa]) (use ca True in simp)
  next
    case False
    have "tvrefs (array_vals t) \<inter> whites g = {}" using st w0 False by (auto simp: strong_refs_def wv_def)
    then show ?thesis using ca False by (auto simp: val_cleared_def list_all2_refl)
  qed
  note S1 = clears_same [OF conjunct1 [OF r1] gl i]
  define t1 where "t1 = t\<lparr>t_array := tvs @ drop (length tvs) (t_array t)\<rparr>"
  define g2 where "g2 = (if wv then upd_tab (\<lambda>t. t\<lparr>t_array := tvs @ drop (length tvs) (t_array t)\<rparr>) a g1 else g1)"
  have h1: "G_heap g1 a = Some (OTab mt t)" using S1(3) t by simp
  have la: "list_all2 val_cleared (t_array t) (tvs @ drop (length tvs) (t_array t))"
    by (rule cleared_append [of _ "unat (t_asize t)"]) (use r1 in \<open>simp_all add: array_vals_def val_cleared_def\<close>)
  have nr: "list_all2 node_cleared ns ns" for ns by (rule list_all2_refl) (simp add: node_cleared_def)
  have tv0: "\<not> wv \<Longrightarrow> tvs @ drop (length tvs) (t_array t) = t_array t" using ca by (auto simp: array_vals_def min_def)
  have c1: "tab_cleared t t1" using la nr by (simp add: tab_cleared_def t1_def)
  have e2: "g2 = set_obj a (OTab mt t1) g1"
  proof (cases wv)
    case False
    then have "t1 = t" using tv0 by (simp add: t1_def)
    then show ?thesis using False h1 by (simp add: g2_def set_obj_def fun_upd_idem)
  qed (simp add: g2_def upd_tab_def h1 t1_def)
  note N1 = tab_neutral [OF S1(1) h1 c1 e2]
  have a2: "a \<in> set (gray_lists g2)" using a S1(6) N1(6) by (simp add: gray_lists_def)
  have h2: "G_heap g2 a = Some (OTab mt t1)" by (simp add: e2 set_obj_def)
  have hn: "hash_nodes t1 = hash_nodes t" by (simp add: t1_def hash_nodes_def)
  obtain ns g3 where cn: "clear_nodes (hash_nodes t) g2 = (ns, g3)" by fastforce
  have so2: "strs_ok g2 (n_key ` set (hash_nodes t) \<union> n_val ` set (hash_nodes t))"
    using heap_okD(1) [OF minvD(1) [OF N1(1)] h2] by (auto simp: strs_ok_def tab_vals_def hn)
  have r2: "clears g2 g3 \<and> list_all2 node_cleared (hash_nodes t) ns \<and> nodes_refs ns \<inter> whites g3 = {}"
    by (rule clear_nodes_ok [OF minvD(2) [OF N1(1)] so2 cn])
  note S2 = clears_same [OF conjunct1 [OF r2] a2 N1(1)]
  define t2 where "t2 = t1\<lparr>t_node := ns @ drop (length ns) (t_node t)\<rparr>"
  have h3: "G_heap g3 a = Some (OTab mt t1)" using S2(3) h2 by simp
  have ln: "list_all2 node_cleared (t_node t) (ns @ drop (length ns) (t_node t))"
    by (rule cleared_append [of _ "if 0 < t_hmask t then unat (t_hmask t) + 1 else 0"]) (use r2 in \<open>auto simp: hash_nodes_def node_cleared_def split: if_splits\<close>)
  have vr: "list_all2 val_cleared vs vs" for vs by (rule list_all2_refl) (simp add: val_cleared_def)
  have c2: "tab_cleared t1 t2" using ln vr by (simp add: tab_cleared_def t2_def) (simp add: t1_def)
  have e4: "g' = set_obj a (OTab mt t2) g3"
  proof -
    have "g' = upd_tab (\<lambda>t. t\<lparr>t_node := ns @ drop (length ns) (t_node t)\<rparr>) a g3"
      using ca cn by (cases wv) (simp_all add: g'_def clear_weak1_def t h1 wv_def [symmetric] g2_def)
    then show ?thesis by (simp add: upd_tab_def h3 t2_def) (simp add: t1_def)
  qed
  note N2 = tab_neutral [OF S2(1) h3 c2 e4]
  show "minv {} U True T g'" by (rule N2(1))
  show "progress g g'" using S1(2) N1(2) S2(2) N2(2) progress_trans by blast
  show "G_gray g' = G_gray g" "G_weak g' = G_weak g" using S1(5,6) N1(4,6) S2(5,6) N2(4,6) by simp_all
  have wh: "whites g' \<subseteq> whites g1" "whites g' \<subseteq> whites g3" "whites g' \<subseteq> whites g"
    using N2(3) N1(3) clearsD(2) [OF conjunct1 [OF r2]] clearsD(2) [OF conjunct1 [OF r1]] by auto
  have lt: "length tvs = length (array_vals t)" "length ns = length (hash_nodes t)" using r1 r2 by (auto dest: list_all2_lengthD)
  have av: "array_vals t2 = tvs" using lt(1) by (auto simp: array_vals_def t2_def t1_def min_def)
  have hv: "hash_nodes t2 = ns" using lt(2) by (auto simp: hash_nodes_def t2_def t1_def min_def)
  have "G_heap g' a = Some (OTab mt t2)" by (simp add: e4 set_obj_def)
  then have "kids g' a = nonnull mt \<union> tvrefs tvs \<union> nodes_refs ns" by (simp add: kids_def av hv)
  moreover have "nonnull mt \<inter> whites g = {}" using st by (auto simp: strong_refs_def)
  ultimately show "kids g' a \<inter> whites g' = {}" using r1 r2 wh by blast
qed

lemma clearweak_ok:
  assumes i: "minv {} U True T g"
  shows "minv {} U True T (gc_clearweak g) \<and> progress g (gc_clearweak g) \<and> G_gray (gc_clearweak g) = G_gray g \<and> G_weak (gc_clearweak g) = G_weak g \<and>
    (\<forall>a\<in>set (G_weak g). kids (gc_clearweak g) a \<inter> whites (gc_clearweak g) = {})"
proof -
  have "minv {} U True T (fold clear_weak1 as g) \<and> progress g (fold clear_weak1 as g) \<and> G_gray (fold clear_weak1 as g) = G_gray g \<and>
      G_weak (fold clear_weak1 as g) = G_weak g \<and> (\<forall>a\<in>set as. kids (fold clear_weak1 as g) a \<inter> whites (fold clear_weak1 as g) = {})"
    if "set as \<subseteq> set (G_weak g)" "minv {} U True T g" for as g
    using that
  proof (induction as arbitrary: g)
    case (Cons a as)
    have "a \<in> set (G_weak g)" using Cons.prems by simp
    note c = clear_weak1_ok [OF Cons.prems(2) this]
    note I = Cons.IH [OF _ c(1)]
    have s: "set as \<subseteq> set (G_weak (clear_weak1 a g))" using Cons.prems(1) c(4) by simp
    have p: "progress (clear_weak1 a g) (fold clear_weak1 (a # as) g)" using I [OF s] by simp
    then have "kids (fold clear_weak1 (a # as) g) a \<inter> whites (fold clear_weak1 (a # as) g) = {}" using c(5) by (fastforce simp: progress_def)
    then show ?case using I [OF s] progress_trans [OF c(2) p] c(3,4) by simp
  qed simp
  then show ?thesis using i by (simp add: gc_clearweak_def)
qed

section \<open>The atomic phase\<close>

definition evolve :: "gcG \<Rightarrow> gcG \<Rightarrow> bool" where
  "evolve g g' \<longleftrightarrow> (rest g')\<lparr>G_mmudata := [], G_root := []\<rparr> = (rest g)\<lparr>G_mmudata := [], G_root := []\<rparr> \<and> whites g' \<subseteq> whites g \<and> same_kinds g g' \<and>
     (\<forall>a. kids g' a \<subseteq> kids g a)"

lemma evolve_trans [trans]: "evolve g g' \<Longrightarrow> evolve g' g'' \<Longrightarrow> evolve g g''"
proof -
  assume a: "evolve g g'" "evolve g' g''"
  have "kids g'' x \<subseteq> kids g x" for x using a subset_trans [of "kids g'' x" "kids g' x" "kids g x"] by (simp add: evolve_def)
  moreover have "same_kinds g g''" using a by (simp add: evolve_def same_kinds_def)
  ultimately show ?thesis using a by (auto simp: evolve_def)
qed

lemma evolve_progress: "progress g g' \<Longrightarrow> evolve g g'" by (simp add: progress_def evolve_def)
lemma evolve_sep: "sep_step g g' \<Longrightarrow> evolve g g'" by (simp add: sep_step_def evolve_def)
lemma evolve_mark: "mark_step g g' \<Longrightarrow> evolve g g'" by (rule evolve_progress [OF progress_mark])

lemma evolve_lists: "G_heap g' = G_heap g \<Longrightarrow> rest g' = rest g \<Longrightarrow> evolve g g'"
proof -
  assume h: "G_heap g' = G_heap g" "rest g' = rest g"
  note E = list_upd_same [OF h(1) rest_fields(10) [OF h(2)]]
  show ?thesis using E(3) E(6,7) h(2) by (simp add: evolve_def)
qed

lemma evolve_fields:
  assumes "evolve g g'"
  shows "G_white g' = G_white g" "G_gcroot g' = G_gcroot g" "G_registrytv g' = G_registrytv g" "G_mainth g' = G_mainth g" "G_uvhead g' = G_uvhead g" "G_cur g' = G_cur g"
    "G_strempty g' = G_strempty g" "same_code g g'" "G_state g' = G_state g"
proof -
  have e: "(rest g')\<lparr>G_mmudata := [], G_root := []\<rparr> = (rest g)\<lparr>G_mmudata := [], G_root := []\<rparr>" using assms by (simp add: evolve_def)
  show "G_white g' = G_white g" using arg_cong [OF e, of G_white] by (simp add: rest_def)
  show "G_gcroot g' = G_gcroot g" using arg_cong [OF e, of G_gcroot] by (simp add: rest_def)
  show "G_registrytv g' = G_registrytv g" using arg_cong [OF e, of G_registrytv] by (simp add: rest_def)
  show "G_mainth g' = G_mainth g" using arg_cong [OF e, of G_mainth] by (simp add: rest_def)
  show "G_uvhead g' = G_uvhead g" using arg_cong [OF e, of G_uvhead] by (simp add: rest_def)
  show "G_cur g' = G_cur g" using arg_cong [OF e, of G_cur] by (simp add: rest_def)
  show "G_strempty g' = G_strempty g" using arg_cong [OF e, of G_strempty] by (simp add: rest_def)
  show "same_code g g'" using arg_cong [OF e, of G_trace] arg_cong [OF e, of G_code] by (simp add: rest_def same_code_def)
  show "G_state g' = G_state g" using arg_cong [OF e, of G_state] by (simp add: rest_def)
qed

text \<open>The traces that the current trace refers to.\<close>

definition cur_ok :: "gcG \<Rightarrow> bool" where
  "cur_ok g \<longleftrightarrow> (tr_traceno (G_cur g) \<noteq> 0 \<longrightarrow>
     (\<forall>a\<in>traceref g (tr_link (G_cur g)) \<union> traceref g (tr_nextroot (G_cur g)) \<union> traceref g (tr_nextside (G_cur g)). is_trace g a))"

lemma cur_ok_evolve: "evolve g g' \<Longrightarrow> cur_ok g' = cur_ok g"
proof -
  assume e: "evolve g g'"
  note F = evolve_fields [OF e]
  have "traceref g' = traceref g" "is_trace g' = is_trace g" using F(8) e by (auto simp: fun_eq_iff traceref_def same_code_def evolve_def same_kinds_def)
  then show ?thesis by (simp add: cur_ok_def F(6))
qed

text \<open>The objects that the running program can name directly.\<close>

definition gc_roots :: "gcG \<Rightarrow> u32 \<Rightarrow> u32 set" where
  "gc_roots g L = {L, G_mainth g} \<union> tvref (G_registrytv g) \<union> (set (G_gcroot g) - {0}) \<union> trace_refs g (G_cur g)"

inductive_set reachable :: "gcG \<Rightarrow> u32 \<Rightarrow> u32 set" for g L where
  "a \<in> gc_roots g L \<Longrightarrow> a \<in> reachable g L"
| "a \<in> reachable g L \<Longrightarrow> x \<in> kids g a \<Longrightarrow> x \<in> reachable g L"

definition live :: "gcG \<Rightarrow> u32 \<Rightarrow> bool" where "live g a \<longleftrightarrow> alloc g a \<and> \<not> isdead g a"

text \<open>All references of marked objects are marked.\<close>

definition closed :: "gcG \<Rightarrow> bool" where "closed g \<longleftrightarrow> (\<forall>a x. alloc g a \<longrightarrow> a \<notin> whites g \<longrightarrow> x \<in> kids g a \<longrightarrow> x \<notin> whites g)"

lemma closedI:
  assumes i: "minv {} True True True g" and g: "G_gray g = []" and w: "\<forall>a\<in>set (G_weak g). kids g a \<inter> whites g = {}"
    and m: "\<forall>u\<in>set (G_mmudata g). kids g u \<inter> whites g = {}"
  shows "closed g"
  unfolding closed_def
proof (intro allI impI)
  fix a x assume a: "alloc g a" "a \<notin> whites g" "x \<in> kids g a"
  note I = minvD [OF i]
  have "kids g a \<inter> whites g = {}"
  proof (cases "isblack g a")
    case True
    then show ?thesis using I(9) [OF True] m by (cases "a \<in> set (G_mmudata g)") simp_all
  next
    case False
    then have "isgray g a" using a by (simp add: colours(1) whites_def)
    from I(10) [OF this] show ?thesis using I(13) [of a] w g by (auto simp: gray_lists_def)
  qed
  then show "x \<notin> whites g" using a(3) by blast
qed

text \<open>The part of the atomic phase before the flip of the whites.\<close>

definition atomic_marked :: "gcG \<Rightarrow> u32 \<Rightarrow> (u64 \<times> gcG) option" where
  "atomic_marked g L =
     (case gc_propagate_gray (gc_mark_uv g) of None \<Rightarrow> None | Some (m, g) \<Rightarrow>
      let g = g\<lparr>G_gray := G_weak g, G_weak := []\<rparr>;
          g = gc_markobj g L;
          g = gc_traverse_trace g (G_cur g);
          g = gc_mark_gcroot g
      in case gc_propagate_gray g of None \<Rightarrow> None | Some (m, g) \<Rightarrow>
      (case gc_propagate_gray (g\<lparr>G_gray := G_grayagain g, G_grayagain := []\<rparr>) of None \<Rightarrow> None | Some (m, g) \<Rightarrow>
      (case lj_gc_separateudata g False of None \<Rightarrow> None | Some (udsize, g) \<Rightarrow>
      (case gc_propagate_gray (gc_mark_mmudata g) of None \<Rightarrow> None | Some (m, g) \<Rightarrow> Some (udsize + m, gc_clearweak g)))))"

lemma atomic_split:
  "atomic g L = map_option (\<lambda>(n, g). let g = g\<lparr>G_white := gc_otherwhite g\<rparr>; g = upd_marked (\<lambda>x. G_white g) (G_strempty g) g
     in g\<lparr>G_sweep := None, G_estimate := G_total g - ucast n\<rparr>) (atomic_marked g L)"
  unfolding atomic_def atomic_marked_def Let_def by (simp split: option.split)

lemma atomic_marks:
  assumes i: "minv {} False False False g" and uv: "uv_linked g" and c: "cur_ok g"
  obtains n g' where "atomic_marked g L = Some (n, g')" "evolve g g'" "closed g'" "minv {} True True True g'"
    "({L} \<union> (set (G_gcroot g) - {0}) \<union> trace_refs g (G_cur g)) \<inter> whites g' = {}"
proof -
  define gA where "gA = gc_mark_uv g"
  note A = mark_uv_ok [OF i uv, folded gA_def]
  obtain mB gB where B: "gc_propagate_gray gA = Some (mB, gB)" "minv {} True False False gB" "progress gA gB" "G_gray gB = []"
    using propagate_all [OF A(2), of 0] by (auto simp: gc_propagate_gray_def)
  define gC where "gC = gB\<lparr>G_gray := G_weak gB, G_weak := []\<rparr>"
  have eC: "G_heap gC = G_heap gB" "rest gC = rest gB" by (simp_all add: gC_def rest_def)
  have iC: "minv {} True True False gC"
    by (rule minv_relist [OF B(2) eC]) (use minvD(4) [OF B(2)] B(4) in \<open>auto simp: gC_def gray_lists_def\<close>)
  have vC: "evolve g gC" by (rule evolve_trans [OF evolve_trans [OF evolve_mark [OF A(1)] evolve_progress [OF B(3)]] evolve_lists [OF eC]])
  note FC = evolve_fields [OF vC]
  have tC: "trace_refs gC T = trace_refs g T" for T using FC(8) by (simp add: trace_refs_def traceref_def same_code_def)
  define h1 where "h1 = gc_markobj gC L"
  define h2 where "h2 = gc_traverse_trace h1 (G_cur h1)"
  define h3 where "h3 = gc_mark_gcroot h2"
  have oC: "one_colour gC" by (rule minvD(2) [OF iC])
  have m1: "mark_step gC h1" "L \<notin> whites h1" using markobj_ok [OF oC, of L] by (simp_all add: h1_def)
  have cu: "G_cur h1 = G_cur g" using rest_fields(9) [OF rest_mark [OF m1(1)]] FC(6) by simp
  have o1: "one_colour h1" by (rule one_colour_step [OF m1(1) oC])
  have ct: "tr_traceno (G_cur g) \<noteq> 0 \<longrightarrow> (\<forall>a\<in>traceref gC (tr_link (G_cur g)) \<union> traceref gC (tr_nextroot (G_cur g)) \<union> traceref gC (tr_nextside (G_cur g)). is_trace gC a)"
    using c cur_ok_evolve [OF vC] FC(6) by (simp add: cur_ok_def)
  have m2: "mark_step h1 h2" "trace_refs g (G_cur g) \<inter> whites h2 = {}" using mf_tracetrav [OF ct] m1(1) o1 by (auto simp: marks_from_def marks_def h2_def cu tC)
  have o2: "one_colour h2" by (rule one_colour_step [OF m2(1) o1])
  have gr: "G_gcroot h2 = G_gcroot g" using rest_fields(5) [OF rest_mark [OF m1(1)]] rest_fields(5) [OF rest_mark [OF m2(1)]] FC(2) by simp
  have m3: "mark_step h2 h3" "(set (G_gcroot g) - {0}) \<inter> whites h3 = {}"
    using marks_objs [OF o2, of "filter (\<lambda>r. r \<noteq> 0) (G_gcroot g)"] by (auto simp: marks_def h3_def gc_mark_gcroot_def gr)
  have mm: "mark_step gC h3" using m1(1) m2(1) m3(1) mark_step_trans by blast
  have i3: "minv {} True True False h3" by (rule minv_step [OF iC mm]) simp
  have rt: "({L} \<union> (set (G_gcroot g) - {0}) \<union> trace_refs g (G_cur g)) \<inter> whites h3 = {}"
    using m1(2) m2(2) m3(2) mark_stepD(3) [OF m2(1)] mark_stepD(3) [OF m3(1)] by blast
  obtain mE gE where E: "gc_propagate_gray h3 = Some (mE, gE)" "minv {} True True False gE" "progress h3 gE" "G_gray gE = []"
    using propagate_all [OF i3, of 0] by (auto simp: gc_propagate_gray_def)
  define gF where "gF = gE\<lparr>G_gray := G_grayagain gE, G_grayagain := []\<rparr>"
  have eF: "G_heap gF = G_heap gE" "rest gF = rest gE" by (simp_all add: gF_def rest_def)
  have iF: "minv {} True True True gF"
    by (rule minv_relist [OF E(2) eF]) (use minvD(4) [OF E(2)] E(4) in \<open>auto simp: gF_def gray_lists_def\<close>)
  obtain mG gG where G: "gc_propagate_gray gF = Some (mG, gG)" "minv {} True True True gG" "progress gF gG" "G_gray gG = []"
    using propagate_all [OF iF, of 0] by (auto simp: gc_propagate_gray_def)
  obtain ud gH where H: "lj_gc_separateudata gG False = Some (ud, gH)" "minv {} True True True gH" "sep_step gG gH"
    using separateudata_ok [OF G(2)] by blast
  define gI where "gI = gc_mark_mmudata gH"
  have mI: "mark_step gH gI" "\<Union> (kids gH ` set (G_mmudata gH)) \<inter> whites gI = {}"
    using remark_all [OF H(2), of "G_mmudata gH"] minvD(11) [OF H(2)] by (auto simp: marks_def gI_def gc_mark_mmudata_def)
  have iI: "minv {} True True True gI" by (rule minv_step [OF H(2) mI(1)]) simp
  obtain mJ gJ where J: "gc_propagate_gray gI = Some (mJ, gJ)" "minv {} True True True gJ" "progress gI gJ" "G_gray gJ = []"
    using propagate_all [OF iI, of 0] by (auto simp: gc_propagate_gray_def)
  define gK where "gK = gc_clearweak gJ"
  have K: "minv {} True True True gK" "progress gJ gK" "G_gray gK = []" "G_weak gK = G_weak gJ" "\<forall>a\<in>set (G_weak gJ). kids gK a \<inter> whites gK = {}"
    using clearweak_ok [OF J(2)] J(4) by (auto simp: gK_def)
  have v3: "evolve h3 gF" by (rule evolve_trans [OF evolve_progress [OF E(3)] evolve_lists [OF eF]])
  have vI: "evolve gI gK" by (rule evolve_trans [OF evolve_progress [OF J(3)] evolve_progress [OF K(2)]])
  have vh: "evolve h3 gK"
    by (rule evolve_trans [OF evolve_trans [OF evolve_trans [OF evolve_trans [OF v3 evolve_progress [OF G(3)]] evolve_sep [OF H(3)]] evolve_mark [OF mI(1)]] vI])
  have rJ: "rest gJ = rest gI" "rest gK = rest gJ" using J(3) K(2) by (simp_all add: progress_def)
  have "G_mmudata gK = G_mmudata gH" using rest_fields(1) [OF rest_mark [OF mI(1)]] rest_fields(1) [OF rJ(1)] rest_fields(1) [OF rJ(2)] by simp
  moreover have "kids gK u \<inter> whites gK = {}" if "u \<in> set (G_mmudata gH)" for u
  proof -
    have "kids gH u \<inter> whites gI = {}" using mI(2) that by blast
    moreover have "kids gK u \<subseteq> kids gH u" "whites gK \<subseteq> whites gI" using vI mark_stepD(5) [OF mI(1), of u] by (auto simp: evolve_def)
    ultimately show ?thesis by blast
  qed
  ultimately have "closed gK" using K by (intro closedI) simp_all
  moreover have "evolve g gK" by (rule evolve_trans [OF evolve_trans [OF vC evolve_mark [OF mm]] vh])
  moreover have "({L} \<union> (set (G_gcroot g) - {0}) \<union> trace_refs g (G_cur g)) \<inter> whites gK = {}" using rt vh by (auto simp: evolve_def)
  moreover have "atomic_marked g L = Some (ud + mJ, gK)"
    unfolding atomic_marked_def gA_def [symmetric] B(1) option.case prod.case gC_def [symmetric] Let_def h1_def [symmetric] h2_def [symmetric] h3_def [symmetric]
      E(1) gF_def [symmetric] G(1) H(1) gI_def [symmetric] J(1) gK_def [symmetric] by (rule refl)
  ultimately show ?thesis using that K(1) by blast
qed

text \<open>The state in which the atomic phase may start.\<close>

definition gc_inv :: "gcG \<Rightarrow> u32 \<Rightarrow> bool" where
  "gc_inv g L \<longleftrightarrow> minv {} False False False g \<and> uv_linked g \<and> cur_ok g \<and> is_str g (G_strempty g) \<and> (\<forall>a\<in>gc_roots g L. alloc g a) \<and>
     ({G_mainth g} \<union> tvref (G_registrytv g)) \<inter> whites g = {}"

lemma otherwhite_bits: "((w :: u8) XOR LJ_GC_WHITES) XOR LJ_GC_WHITES = w" "(w XOR LJ_GC_WHITES) AND (w AND LJ_GC_WHITES) = 0"
proof -
  show "(w XOR LJ_GC_WHITES) XOR LJ_GC_WHITES = w" by (simp add: xor.assoc)
  show "(w XOR LJ_GC_WHITES) AND (w AND LJ_GC_WHITES) = 0" by (rule bit_word_eqI) (auto simp: bit_simps)
qed

lemma atomic_result:
  assumes "gc_inv g L"
  obtains n gK g' where "atomic_marked g L = Some (n, gK)" "atomic g L = Some g'" "closed gK" "evolve g gK"
    "\<And>a. alloc g' a = alloc g a" "\<And>a. a \<notin> whites gK \<or> a = G_strempty g \<Longrightarrow> \<not> isdead g' a" "\<And>a. a \<in> whites gK \<Longrightarrow> a \<noteq> G_strempty g \<Longrightarrow> isdead g' a"
    "\<And>a. kids g' a = kids gK a" "gc_roots g' L = gc_roots g L" "gc_roots g L \<inter> whites gK = {}" "G_white g' = gc_otherwhite g"
proof -
  have i: "minv {} False False False g" "uv_linked g" "cur_ok g" using assms by (simp_all add: gc_inv_def)
  obtain n gK where K: "atomic_marked g L = Some (n, gK)" "evolve g gK" "closed gK" "minv {} True True True gK"
    "({L} \<union> (set (G_gcroot g) - {0}) \<union> trace_refs g (G_cur g)) \<inter> whites gK = {}" by (rule atomic_marks [OF i, where L = L])
  note F = evolve_fields [OF K(2)]
  define g1 where "g1 = gK\<lparr>G_white := gc_otherwhite gK\<rparr>"
  define g2 where "g2 = upd_marked (\<lambda>x. G_white g1) (G_strempty g1) g1"
  define g' where "g' = g2\<lparr>G_sweep := None, G_estimate := G_total g2 - ucast n\<rparr>"
  have at: "atomic g L = Some g'" 
    unfolding atomic_split K(1) option.map prod.case Let_def g1_def [symmetric] g2_def [symmetric] g'_def [symmetric] by (rule refl)
  have h: "G_heap g' = G_heap (upd_marked (\<lambda>x. G_white g1) (G_strempty g) gK)" and w: "G_white g' = gc_otherwhite gK"
    by (simp_all add: g'_def g2_def g1_def upd_marked_def set_obj_def F(7) split: option.split)
  have dead: "isdead g' a \<longleftrightarrow> alloc gK a \<and> (if a = G_strempty g then gc_otherwhite gK else marked_at gK a) AND gc_curwhite gK \<noteq> 0" for a
  proof -
    have "gc_otherwhite g' AND LJ_GC_WHITES = gc_curwhite gK" by (simp add: gc_otherwhite_def gc_curwhite_def w otherwhite_bits(1))
    then show ?thesis by (auto simp: isdead_def has_bits_def h upd_marked_heap alloc_def marked_at_def g1_def split: option.split)
  qed
  have cw: "m AND gc_curwhite gK = (m AND LJ_GC_WHITES) AND gc_curwhite gK" for m
    unfolding gc_curwhite_def by (simp add: and.assoc and.left_commute)
  have "alloc g' a = alloc gK a" for a by (simp add: alloc_def h upd_marked_heap)
  then have al: "alloc g' a = alloc g a" for a using K(2) by (simp add: evolve_def same_kinds_def)
  have nd: "\<not> isdead g' a" if "a \<notin> whites gK \<or> a = G_strempty g" for a
  proof (cases "a = G_strempty g")
    case True
    then show ?thesis by (simp add: dead gc_otherwhite_def gc_curwhite_def otherwhite_bits(2))
  next
    case False
    then have "alloc gK a \<longrightarrow> marked_at gK a AND LJ_GC_WHITES = 0" using that by (auto simp: whites_def iswhite_def bits_at)
    then show ?thesis using False cw [of "marked_at gK a"] by (simp add: dead)
  qed
  have wd: "isdead g' a" if a: "a \<in> whites gK" "a \<noteq> G_strempty g" for a
  proof -
    have a1: "iswhite gK a" using a(1) by (simp add: whites_def)
    then have m: "marked_at gK a AND LJ_GC_WHITES = gc_curwhite gK" "marked_at gK a AND LJ_GC_WHITES \<noteq> 0" "alloc gK a"
      using minvD(3) [OF K(4) a1] by (simp_all add: iswhite_def bits_at)
    then show ?thesis using cw [of "marked_at gK a"] a(2) by (simp add: dead)
  qed
  have kd: "kids g' a = kids gK a" for a
  proof -
    define h1 where "h1 = upd_marked (\<lambda>x. G_white g1) (G_strempty g) gK"
    have "G_heap g' = G_heap h1" by (simp add: h h1_def)
    moreover have "same_code h1 g'" by (simp add: h1_def same_code_def g'_def g2_def g1_def upd_marked_def set_obj_def split: option.split)
    ultimately have "kids g' a = kids h1 a" by (rule list_upd_same(3))
    then show ?thesis by (simp add: h1_def upd_marked_refs)
  qed
  have fl: "G_mainth g' = G_mainth g" "G_registrytv g' = G_registrytv g" "G_gcroot g' = G_gcroot g" "G_cur g' = G_cur g" "G_trace g' = G_trace g"
    using F by (simp_all add: g'_def g2_def g1_def upd_marked_def set_obj_def same_code_def split: option.split)
  then have rt: "gc_roots g' L = gc_roots g L" by (simp add: gc_roots_def trace_refs_def traceref_def)
  have nr: "gc_roots g L \<inter> whites gK = {}" using K(5) K(2) assms by (auto simp: gc_roots_def gc_inv_def evolve_def)
  have gw: "G_white g' = gc_otherwhite g" by (simp add: w gc_otherwhite_def F(1))
  show ?thesis by (rule that [OF K(1) at K(3,2) al nd wd kd rt nr gw])
qed

lemma atomic_closed:
  assumes g: "gc_inv g L"
  shows "\<exists>g'. atomic g L = Some g' \<and> (\<forall>a x. live g' a \<longrightarrow> x \<in> kids g' a \<longrightarrow> live g' x) \<and> (\<forall>a\<in>gc_roots g' L. live g' a) \<and>
    G_white g' = gc_otherwhite g"
proof -
  obtain n gK g' where K: "atomic_marked g L = Some (n, gK)" "atomic g L = Some g'" "closed gK" "evolve g gK"
    "\<And>a. alloc g' a = alloc g a" "\<And>a. a \<notin> whites gK \<or> a = G_strempty g \<Longrightarrow> \<not> isdead g' a" "\<And>a. a \<in> whites gK \<Longrightarrow> a \<noteq> G_strempty g \<Longrightarrow> isdead g' a"
    "\<And>a. kids g' a = kids gK a" "gc_roots g' L = gc_roots g L" "gc_roots g L \<inter> whites gK = {}" "G_white g' = gc_otherwhite g" by (rule atomic_result [OF g], rule that)
  have ho: "heap_ok g" using g minvD(1) by (auto simp: gc_inv_def)
  have se: "kids gK (G_strempty g) = {}"
  proof -
    have "is_str g (G_strempty g)" using g by (simp add: gc_inv_def)
    then have "kids g (G_strempty g) = {}" by (auto simp: is_str_def kids_def split: option.splits GCobj.splits)
    then show ?thesis using K(4) by (auto simp: evolve_def)
  qed
  have "live g' x" if x: "live g' a" "x \<in> kids g' a" for a x
  proof -
    have "a \<noteq> G_strempty g" using x(2) se by (auto simp: K(8))
    then have a: "alloc gK a" "a \<notin> whites gK" using x(1) K(4,5,7) by (auto simp: live_def evolve_def same_kinds_def)
    have kx: "x \<in> kids gK a" using x(2) by (simp add: K(8))
    then have "x \<in> kids g a" using K(4) by (auto simp: evolve_def)
    then have "alloc g x" using heap_okD(2) [OF ho] by blast
    moreover have "x \<notin> whites gK" using K(3) a kx by (auto simp: closed_def)
    ultimately show ?thesis using K(5,6) by (simp add: live_def)
  qed
  moreover have "live g' a" if "a \<in> gc_roots g' L" for a
  proof -
    have a: "a \<in> gc_roots g L" using that K(9) by simp
    then have "alloc g a" using g by (simp add: gc_inv_def)
    then show ?thesis using a K(5,6,10) by (auto simp: live_def)
  qed
  ultimately show ?thesis using K(2,11) by blast
qed

lemma reachable_live:
  assumes "\<forall>a x. live g a \<longrightarrow> x \<in> kids g a \<longrightarrow> live g x" "\<forall>a\<in>gc_roots g L. live g a" "a \<in> reachable g L"
  shows "live g a"
  using assms(3) by (induction rule: reachable.induct) (use assms(1,2) in blast)+

end
