(* ===== verification/LJ_GCCycle.thy ===== *)
theory LJ_GCCycle
  imports LJ_GCAtomic
begin

text \<open>
  The mark phase as a whole: from the start of a cycle, through steps of the collector interleaved with
  the program's stores, each with its write barrier, and allocations, to the atomic phase.
\<close>

section \<open>Keeping the invariant\<close>

lemma gc_inv_keep:
  assumes g: "gc_inv g L" and i: "minv {} False False False g'"
    and f: "G_mainth g' = G_mainth g" "G_registrytv g' = G_registrytv g" "G_gcroot g' = G_gcroot g" "G_cur g' = G_cur g" "G_strempty g' = G_strempty g" "G_trace g' = G_trace g"
    and k: "\<And>a. alloc g a \<Longrightarrow> alloc g' a" "\<And>a. is_str g a \<Longrightarrow> is_str g' a" "\<And>a. is_trace g a \<Longrightarrow> is_trace g' a"
    and w: "\<And>a. alloc g a \<Longrightarrow> a \<in> whites g' \<Longrightarrow> a \<in> whites g" and u: "uv_linked g'"
  shows "gc_inv g' L"
proof -
  have t: "traceref g' = traceref g" "trace_refs g' = trace_refs g" by (auto simp: fun_eq_iff traceref_def trace_refs_def f)
  have r: "gc_roots g' L = gc_roots g L" by (simp add: gc_roots_def f t)
  have al: "alloc g a" if "a \<in> gc_roots g L" for a using g that by (simp add: gc_inv_def)
  have rt: "{G_mainth g} \<union> tvref (G_registrytv g) \<subseteq> gc_roots g L" by (auto simp: gc_roots_def)
  have "({G_mainth g} \<union> tvref (G_registrytv g)) \<inter> whites g = {}" using g by (simp add: gc_inv_def)
  then have "({G_mainth g} \<union> tvref (G_registrytv g)) \<inter> whites g' = {}" using w al rt by blast
  moreover have "cur_ok g'" using g k(3) by (auto simp: gc_inv_def cur_ok_def f t)
  ultimately show ?thesis using g i u k(1,2) al by (simp add: gc_inv_def r f)
qed

lemma gc_inv_evolve:
  assumes g: "gc_inv g L" and i: "minv {} False False False g'" and e: "evolve g g'"
  shows "gc_inv g' L"
proof -
  note F = evolve_fields [OF e]
  have k: "same_kinds g g'" "whites g' \<subseteq> whites g" using e by (simp_all add: evolve_def)
  show ?thesis by (rule gc_inv_keep [OF g i]) (use F k g in \<open>auto simp: same_kinds_def same_code_def uv_linked_def gc_inv_def\<close>)
qed

section \<open>Start of a cycle\<close>

text \<open>After a sweep all objects have the current white, but userdata that still wait for their finaliser may be black.\<close>

definition start_ok :: "gcG \<Rightarrow> u32 \<Rightarrow> bool" where
  "start_ok g L \<longleftrightarrow> heap_ok g \<and> gc_curwhite g \<noteq> 0 \<and> (\<forall>a\<in>set (G_mmudata g). is_udata g a) \<and>
     (\<forall>a. alloc g a \<longrightarrow> marked_at g a AND LJ_GC_COLORS = gc_curwhite g \<or> a \<in> set (G_mmudata g) \<and> isblack g a \<and> \<not> iswhite g a) \<and>
     uv_linked g \<and> cur_ok g \<and> is_str g (G_strempty g) \<and> (\<forall>a\<in>gc_roots g L. alloc g a)"

lemma white_at_start:
  assumes "marked_at g a AND LJ_GC_COLORS = gc_curwhite g" "gc_curwhite g \<noteq> 0" "alloc g a"
  shows "iswhite g a" "\<not> isblack g a" "marked_at g a AND LJ_GC_WHITES = gc_curwhite g"
proof -
  have e: "m AND LJ_GC_WHITES = (m AND LJ_GC_COLORS) AND LJ_GC_WHITES" "m AND LJ_GC_BLACK = (m AND LJ_GC_COLORS) AND LJ_GC_BLACK" for m
    unfolding and.assoc by (simp_all add: LJ_GC_COLORS_def LJ_GC_WHITES_def LJ_GC_BLACK_def)
  have c: "gc_curwhite g AND LJ_GC_WHITES = gc_curwhite g" "gc_curwhite g AND LJ_GC_BLACK = 0"
    unfolding gc_curwhite_def and.assoc by (simp_all add: LJ_GC_WHITES_def LJ_GC_BLACK_def)
  show w: "marked_at g a AND LJ_GC_WHITES = gc_curwhite g" using e(1) [of "marked_at g a"] assms(1) c by simp
  show "iswhite g a" using w assms(2,3) by (simp add: iswhite_def bits_at)
  show "\<not> isblack g a" using e(2) [of "marked_at g a"] assms(1) c by (simp add: isblack_def bits_at)
qed

lemma mark_start_ok:
  assumes s: "start_ok g L"
  shows "gc_inv (gc_mark_start g) L" "G_state (gc_mark_start g) = GCSpropagate" "G_white (gc_mark_start g) = G_white g" "G_jit_L (gc_mark_start g) = G_jit_L g"
proof -
  define g0 where "g0 = g\<lparr>G_gray := [], G_grayagain := [], G_weak := []\<rparr>"
  have h0: "G_heap g0 = G_heap g" "rest g0 = rest g" by (simp_all add: g0_def rest_def)
  note E = list_upd_same [OF h0(1) rest_fields(10) [OF h0(2)]] and R = rest_fields [OF h0(2)]
  note C = same_heap_colour [OF fun_cong [OF h0(1)]]
  have c: "iswhite g a \<and> \<not> isblack g a \<and> marked_at g a AND LJ_GC_WHITES = gc_curwhite g \<or> a \<in> set (G_mmudata g) \<and> isblack g a \<and> \<not> iswhite g a" if "alloc g a" for a
    using s that white_at_start [of g a] by (auto simp: start_ok_def)
  have ud: "is_udata g a" if "a \<in> set (G_mmudata g)" for a using s that by (simp add: start_ok_def)
  have kd: "\<not> is_thread g a" "\<not> leaf g a" if "is_udata g a" for a
    using that by (auto simp: is_udata_def is_thread_def leaf_def split: option.splits GCobj.splits)
  have l0: "gray_lists g0 = []" "G_weak g0 = []" "G_grayagain g0 = []" by (simp_all add: g0_def gray_lists_def)
  have i0: "minv {} False False False g0"
  proof (rule minvI)
    show "heap_ok g0" using s E(5) by (simp add: start_ok_def)
    show "one_colour g0" using c colours(2) by (auto simp: one_colour_def C)
    show "marked_at g0 a AND LJ_GC_WHITES = gc_curwhite g0" if "iswhite g0 a" for a
      using c [of a] that colours(2) [of g a] R(14) by (auto simp: C marked_at_def h0)
    show "\<not> is_thread g0 a \<and> \<not> leaf g0 a" if "isblack g0 a" for a
      using c [of a] that colours(3) [of g a] ud [of a] kd [of a] kinds_view(6) [OF E(1)] leaf_view(1) [OF E(1)] by (auto simp: C)
    show "kids g0 a \<inter> whites g0 = {}" if "isblack g0 a" "a \<notin> set (G_mmudata g0)" for a
      using c [of a] that colours(3) [of g a] R(1) by (auto simp: C)
    show "a \<in> set (gray_lists g0) \<or> leaf g0 a \<and> (False \<longrightarrow> kids g0 a \<inter> whites g0 = {})" if "isgray g0 a" for a
      using c [of a] that leaf_view(3) [OF E(1)] by (auto simp: C colours(1))
    show "is_udata g0 a" if "a \<in> set (G_mmudata g0)" for a using ud that kinds_view(4) [OF E(1)] R(1) by simp
  qed (simp_all add: l0)
  define h1 where "h1 = gc_markobj g0 (G_mainth g0)"
  define h2 where "h2 = gc_markobj h1 (thread_env h1 (G_mainth h1))"
  define h3 where "h3 = gc_marktv h2 (G_registrytv h2)"
  define h4 where "h4 = gc_mark_gcroot h3"
  have o: "one_colour g0" by (rule minvD(2) [OF i0])
  have m1: "mark_step g0 h1" "G_mainth g0 \<notin> whites h1" using markobj_ok [OF o] by (simp_all add: h1_def)
  have o1: "one_colour h1" by (rule one_colour_step [OF m1(1) o])
  have m2: "mark_step h1 h2" using markobj_ok [OF o1] by (simp add: h2_def)
  have o2: "one_colour h2" by (rule one_colour_step [OF m2 o1])
  have m3: "mark_step h2 h3" "tvref (G_registrytv h2) \<inter> whites h3 = {}" using marks_tv [OF o2, of "G_registrytv h2"] by (auto simp: marks_def h3_def)
  have o3: "one_colour h3" by (rule one_colour_step [OF m3(1) o2])
  have m4: "mark_step h3 h4" using marks_objs [OF o3] by (simp add: marks_def h4_def gc_mark_gcroot_def)
  have m: "mark_step g0 h4" by (rule mark_step_trans [OF mark_step_trans [OF mark_step_trans [OF m1(1) m2] m3(1)] m4])
  have i4: "minv {} False False False h4" by (rule minv_step [OF i0 m]) simp
  have rg: "G_registrytv h2 = G_registrytv g" using rest_fields(6) [OF rest_mark [OF mark_step_trans [OF m1(1) m2]]] R(6) by simp
  have w1: "G_mainth g \<notin> whites h4" using m1(2) R(7) mark_stepD(3) [OF m2] mark_stepD(3) [OF m3(1)] mark_stepD(3) [OF m4] by auto
  have w2: "tvref (G_registrytv g) \<inter> whites h4 = {}" using m3(2) rg mark_stepD(3) [OF m4] by auto
  define g' where "g' = h4\<lparr>G_state := GCSpropagate\<rparr>"
  have ms: "gc_mark_start g = g'" by (simp add: gc_mark_start_def Let_def g0_def [symmetric] h1_def [symmetric] h2_def [symmetric] h3_def [symmetric] h4_def [symmetric] g'_def)
  have h': "G_heap g' = G_heap h4" "same_code h4 g'" by (simp_all add: g'_def same_code_def)
  have i': "minv {} False False False g'" by (rule minv_same [OF i4 h']) (use minvD(11) [OF i4] in \<open>simp_all add: g'_def gc_curwhite_def\<close>)
  note E' = list_upd_same [OF h'] and F = rest_fields [OF rest_mark [OF m]]
  have fl: "G_mainth g' = G_mainth g" "G_registrytv g' = G_registrytv g" "G_gcroot g' = G_gcroot g" "G_cur g' = G_cur g" "G_strempty g' = G_strempty g" "G_trace g' = G_trace g"
    "G_uvhead g' = G_uvhead g" "G_white g' = G_white g" "G_jit_L g' = G_jit_L g"
    using F R by (simp_all add: g'_def same_code_def)
  have k: "same_kinds g g'" using E(6) view_same_kinds [OF mark_stepD(1) [OF m]] E'(6) by (simp add: same_kinds_def)
  then have ks: "alloc g' = alloc g" "is_str g' = is_str g" "is_trace g' = is_trace g" "is_openuv g' = is_openuv g" by (auto simp: same_kinds_def)
  have t: "traceref g' = traceref g" "trace_refs g' = trace_refs g" by (auto simp: fun_eq_iff traceref_def trace_refs_def fl)
  have "gc_inv g' L" using s i' w1 w2 E'(7)
    by (simp add: gc_inv_def start_ok_def uv_linked_def cur_ok_def gc_roots_def fl t ks)
  then show "gc_inv (gc_mark_start g) L" "G_state (gc_mark_start g) = GCSpropagate" "G_white (gc_mark_start g) = G_white g"
    "G_jit_L (gc_mark_start g) = G_jit_L g" using fl(8,9) by (simp_all add: ms) (simp add: g'_def)
qed

section \<open>Stores\<close>

text \<open>A store keeps the kind of the object and its mark bits. Prototypes and traces are patched by the compiler only.\<close>

fun same_shape :: "GCobj \<Rightarrow> GCobj \<Rightarrow> bool" where
  "same_shape (OUpval m (UvClosed tv)) (OUpval m' (UvClosed tv')) = (m' = m)"
| "same_shape (OThread m s) (OThread m' s') = (m' = m)"
| "same_shape (OFunc m env fn) (OFunc m' env' fn') = (m' = m)"
| "same_shape (OTab mt t) (OTab mt' t') = (t_marked t' = t_marked t)"
| "same_shape (OUdata m mt env len) (OUdata m' mt' env' len') = (m' = m)"
| "same_shape ob ob' = False"

lemma shape_kinds:
  assumes h: "G_heap g a = Some ob" and s: "same_shape ob ob'" and g': "G_heap g' = (G_heap g)(a \<mapsto> ob')"
  shows "same_kinds g g'" "same_colours g g'"
proof -
  show "same_kinds g g'" using h s
    by (cases "(ob, ob')" rule: same_shape.cases)
      (simp_all add: same_kinds_def alloc_def leaf_def listed_def is_tab_def is_thread_def is_udata_def is_str_def is_trace_def is_openuv_def g')
  show "same_colours g g'" using h s
    by (cases "(ob, ob')" rule: same_shape.cases) (simp_all add: same_colours_def alloc_def marked_at_def g')
qed

lemma store_state:
  "rest (set_obj a ob g) = rest g" "gray_lists (set_obj a ob g) = gray_lists g" "G_weak (set_obj a ob g) = G_weak g" "same_code g (set_obj a ob g)"
  by (simp_all add: set_obj_def rest_def gray_lists_def same_code_def)

text \<open>An update of one object, which may refer to white ones then; open upvalues of a thread may have new values.\<close>

lemma other_kids:
  assumes h: "G_heap g' x = G_heap g x" and c: "same_code g g'" and x: "\<not> leaf g x"
  shows "kids g' x = kids g x"
proof -
  have gc: "G_code g' = G_code g" using c by (simp add: same_code_def)
  have tr: "traceref g' = traceref g" "trace_refs g' = trace_refs g" using c by (auto simp: same_code_def fun_eq_iff traceref_def trace_refs_def)
  have fr: "frame_fns g' = frame_fns g" by (intro ext) (simp only: frame_fns_def frame_slots_cong [OF gc])
  have uv: "uvval g' (UvClosed tv) = uvval g (UvClosed tv)" for tv by (simp add: uvval_def)
  show ?thesis
  proof (cases "G_heap g x")
    case (Some ob)
    have "obj_refs g' ob = obj_refs g ob" using x Some by (cases ob) (auto simp: tr fr uv leaf_def split: uvloc.splits)
    then show ?thesis using Some h by (simp add: kids_def)
  qed (use h in \<open>simp add: kids_def\<close>)
qed

lemma minv_upd:
  assumes i: "minv {} False False False g" and hp: "\<And>x. x \<noteq> a \<Longrightarrow> G_heap g' x = G_heap g x" and c: "same_code g g'" and ok: "heap_ok g'"
    and L: "G_gray g' = G_gray g" "G_grayagain g' = G_grayagain g" "G_weak g' = G_weak g" "gc_curwhite g' = gc_curwhite g" "G_mmudata g' = G_mmudata g"
    and a: "a \<in> set (gray_lists g) \<Longrightarrow> listed g' a" "a \<in> set (G_weak g) \<Longrightarrow> is_tab g' a" "a \<in> set (G_mmudata g) \<Longrightarrow> is_udata g' a"
    and col: "iswhite g' a \<Longrightarrow> marked_at g' a AND LJ_GC_WHITES = gc_curwhite g" "iswhite g' a \<Longrightarrow> \<not> isblack g' a" "isgray g' a \<Longrightarrow> a \<in> set (gray_lists g) \<or> leaf g' a"
    and w: "\<And>x. isblack g x \<Longrightarrow> x \<notin> set (G_mmudata g) \<Longrightarrow> a \<in> kids g x \<Longrightarrow> iswhite g' a \<Longrightarrow> a \<in> whites g"
  shows "minv {a} False False False g'"
proof -
  note I = minvD [OF i]
  have gl: "gray_lists g' = gray_lists g" by (simp add: gray_lists_def L)
  note C = same_heap_colour [OF hp]
  have K: "listed g' x = listed g x" "is_tab g' x = is_tab g x" "is_thread g' x = is_thread g x" "leaf g' x = leaf g x" "is_udata g' x = is_udata g x" if "x \<noteq> a" for x
    using hp [OF that] by (simp_all add: listed_def is_tab_def is_thread_def leaf_def is_udata_def)
  show ?thesis
  proof (rule minvI)
    show "heap_ok g'" by (rule ok)
    show "one_colour g'" using I(2) C col(2) unfolding one_colour_def by metis
    show "marked_at g' x AND LJ_GC_WHITES = gc_curwhite g'" if "iswhite g' x" for x
      using I(3) [of x] that C(2) [of x] hp [of x] col(1) by (cases "x = a") (simp_all add: marked_at_def L)
    show "distinct (gray_lists g')" using I(4) by (simp add: gl)
    show "listed g' x" if "x \<in> set (gray_lists g')" for x using I(5) [of x] a(1) that K(1) [of x] by (cases "x = a") (simp_all add: gl)
    show "isgray g' x" if "x \<in> set (gray_lists g')" "x \<notin> {a}" for x using I(6) [of x] that C(3) [of x] by (simp add: gl)
    show "is_tab g' x" if "x \<in> set (G_weak g')" for x using I(7) [of x] a(2) that K(2) [of x] by (cases "x = a") (simp_all add: L)
    show "\<not> is_thread g' x \<and> \<not> leaf g' x" if "isblack g' x" "x \<notin> {a}" for x using I(8) [of x] that C(1) [of x] K(3,4) [of x] by simp
    show "kids g' x \<inter> whites g' = {}" if b: "isblack g' x" "x \<notin> {a}" "x \<notin> set (G_mmudata g')" for x
    proof -
      have b': "isblack g x" "x \<noteq> a" "x \<notin> set (G_mmudata g)" using b C(1) [of x] by (simp_all add: L)
      have kx: "kids g' x = kids g x" by (rule other_kids [OF hp [OF b'(2)] c]) (use I(8) b' in simp)
      have none: "kids g x \<inter> whites g = {}" using I(9) b' by simp
      have "y \<notin> whites g'" if y: "y \<in> kids g x" for y
      proof (cases "y = a")
        case True
        then show ?thesis using w [OF b'(1,3)] y none by (auto simp: whites_def)
      next
        case False
        then show ?thesis using C(2) [of y] y none by (auto simp: whites_def)
      qed
      then show ?thesis by (auto simp: kx)
    qed
    show "x \<in> set (gray_lists g') \<or> leaf g' x \<and> (False \<longrightarrow> kids g' x \<inter> whites g' = {})" if "isgray g' x" for x
      using I(10) [of x] that col(3) C(3) [of x] K(4) [of x] by (cases "x = a") (auto simp: gl)
    show "is_udata g' x" if "x \<in> set (G_mmudata g')" for x using I(11) [of x] a(3) that K(5) [of x] by (cases "x = a") (simp_all add: L)
  qed simp_all
qed

lemma store_ok:
  assumes i: "minv {} False False False g" and h: "G_heap g a = Some ob" and s: "same_shape ob ob'" and ok: "heap_ok (set_obj a ob' g)"
  shows "minv {a} False False False (set_obj a ob' g)"
proof -
  define g' where "g' = set_obj a ob' g"
  have hp: "G_heap g' = (G_heap g)(a \<mapsto> ob')" by (simp add: g'_def set_obj_def)
  note K = shape_kinds [OF h s hp] and I = minvD [OF i]
  note C = same_coloursD [OF K(2)]
  have L: "G_gray g' = G_gray g" "G_grayagain g' = G_grayagain g" "G_weak g' = G_weak g" "gc_curwhite g' = gc_curwhite g" "G_mmudata g' = G_mmudata g"
    by (simp_all add: g'_def set_obj_def gc_curwhite_def)
  have k: "leaf g' a = leaf g a" "listed g' a = listed g a" "is_tab g' a = is_tab g a" "is_udata g' a = is_udata g a"
    using K(1) by (simp_all add: same_kinds_def)
  have oc: "iswhite g' a \<Longrightarrow> \<not> isblack g' a" using I(2) by (simp add: one_colour_def C)
  have "minv {a} False False False g'"
    by (rule minv_upd [OF i _ _ _ L])
      (use I(3,5,7,10,11) [of a] ok k oc in \<open>auto simp: g'_def [symmetric] hp C store_state whites_def same_code_def\<close>, simp_all add: g'_def set_obj_def)
  then show ?thesis by (simp add: g'_def)
qed

lemma finish_any:
  assumes i: "minv {a} False False False g" and l: "a \<in> set (gray_lists g) \<Longrightarrow> isgray g a"
    and b: "isblack g a \<Longrightarrow> \<not> is_thread g a \<and> \<not> leaf g a" "isblack g a \<Longrightarrow> a \<notin> set (G_mmudata g) \<Longrightarrow> kids g a \<inter> whites g = {}"
  shows "minv {} False False False g"
proof -
  note I = minvD [OF i]
  show ?thesis
  proof (rule minvI)
    show "isgray g x" if "x \<in> set (gray_lists g)" for x using I(6) [OF that] l that by (cases "x = a") simp_all
    show "\<not> is_thread g x \<and> \<not> leaf g x" if "isblack g x" for x using I(8) [OF that] b that by (cases "x = a") simp_all
    show "kids g x \<inter> whites g = {}" if "isblack g x" "x \<notin> set (G_mmudata g)" for x using I(9) [OF that(1) _ that(2)] b that by (cases "x = a") simp_all
  qed (use I in simp_all)
qed

text \<open>The write barriers restore the invariant.\<close>

lemma barrier_back:
  assumes i: "minv {a} False False False g" and b: "isblack g a" and l: "listed g a" "a \<notin> set (gray_lists g)"
  shows "minv {} False False False (lj_gc_barrierback g a)" "evolve g (lj_gc_barrierback g a)"
proof -
  define g1 where "g1 = g\<lparr>G_grayagain := a # G_grayagain g\<rparr>"
  have h: "G_heap g1 = G_heap g" "rest g1 = rest g" "G_gray g1 = G_gray g" "G_weak g1 = G_weak g" "G_grayagain g1 = a # G_grayagain g" by (simp_all add: g1_def rest_def)
  have i1: "minv {a} False False False g1" by (rule minv_push [OF i l(2,1) h(1-3)]) (simp add: h)
  have nw: "\<not> iswhite g a" using minvD(2) [OF i] b by (auto simp: one_colour_def)
  have nw1: "\<not> iswhite g1 a" and al: "alloc g1 a" using nw colours(3) [OF b] same_heap_colour(2) [OF fun_cong [OF h(1)]] by (simp_all add: alloc_def h)
  define g2 where "g2 = black2gray a g1"
  have r: "recol a g1 g2" unfolding g2_def by (rule recol_black2gray [OF nw1])
  have i2: "minv {a} False False False g2" by (rule minv_recol [OF i1 r]) (use nw1 in \<open>simp_all add: whites_def gray_lists_def h\<close>)
  have gr: "isgray g2 a" unfolding g2_def by (rule gray_after [OF nw1 al])
  have e: "lj_gc_barrierback g a = g2"
    by (simp add: lj_gc_barrierback_def g2_def g1_def black2gray_def upd_marked_def set_obj_def split: option.split)
  have "minv {} False False False g2" by (rule finish_any [OF i2]) (use gr in \<open>simp_all add: colours(1)\<close>)
  then show "minv {} False False False (lj_gc_barrierback g a)" by (simp add: e)
  have "evolve g1 g2" using gray2black_state(2) [of a g1] recolD(3,5) [OF r] view_same_kinds [OF recolD(1) [OF r]] by (simp add: evolve_def g2_def)
  then show "evolve g (lj_gc_barrierback g a)" unfolding e by (rule evolve_trans [OF evolve_lists [OF h(1,2)]])
qed

lemma barrier_fwd:
  assumes i: "minv {a} False False False g" and b: "isblack g a" "a \<notin> set (gray_lists g)" "\<not> is_thread g a" "\<not> leaf g a"
    and v: "iswhite g v" "a \<notin> set (G_mmudata g) \<Longrightarrow> kids g a \<inter> whites g \<subseteq> {v}"
  shows "minv {} False False False (gc_mark g v)" "evolve g (gc_mark g v)"
proof -
  have o: "one_colour g" by (rule minvD(2) [OF i])
  note m = gc_mark_ok [OF o v(1)]
  note M = mark_stepD [OF m(1)]
  have aw: "a \<notin> whites g" using o b(1) by (auto simp: one_colour_def whites_def)
  have i': "minv {a} False False False (gc_mark g v)" by (rule minv_step [OF i m(1)]) (use aw in simp)
  obtain gs where gs: "gray_lists (gc_mark g v) = gs @ gray_lists g" "set gs \<subseteq> whites g" by (rule gray_lists_mark [OF m(1)]) (auto simp: gray_lists_def)
  show "minv {} False False False (gc_mark g v)"
  proof (rule finish_black [OF i'])
    show "a \<notin> set (gray_lists (gc_mark g v))" using gs aw b(2) by auto
    show "isblack (gc_mark g v) a" using mark_step_keeps(3) [OF m(1) aw] b(1) by simp
    show "\<not> is_thread (gc_mark g v) a" "\<not> leaf (gc_mark g v) a" using b(3,4) kinds_view(6) [OF M(1)] M(7) by simp_all
    have "G_mmudata (gc_mark g v) = G_mmudata g" by (rule rest_fields(1) [OF rest_mark [OF m(1)]])
    then show "kids (gc_mark g v) a \<inter> whites (gc_mark g v) = {}" if "a \<notin> set (G_mmudata (gc_mark g v))"
      using v(2) that m(2) M(3) M(5) [of a] by auto
  qed
  show "evolve g (gc_mark g v)" by (rule evolve_mark [OF m(1)])
qed

section \<open>Steps of the program\<close>

text \<open>What the program and the collector leave alone in the mark phase.\<close>

definition mutates :: "gcG \<Rightarrow> gcG \<Rightarrow> bool" where
  "mutates g g' \<longleftrightarrow> G_mainth g' = G_mainth g \<and> G_registrytv g' = G_registrytv g \<and> G_gcroot g' = G_gcroot g \<and> G_cur g' = G_cur g \<and> G_strempty g' = G_strempty g \<and>
     G_trace g' = G_trace g \<and> G_white g' = G_white g \<and> (\<forall>a. alloc g a \<longrightarrow> alloc g' a) \<and> (\<forall>a. is_str g a \<longrightarrow> is_str g' a) \<and> (\<forall>a. is_trace g a \<longrightarrow> is_trace g' a) \<and>
     (\<forall>a. alloc g a \<longrightarrow> a \<in> whites g' \<longrightarrow> a \<in> whites g) \<and> (uv_linked g \<longrightarrow> uv_linked g') \<and> (marking g \<longrightarrow> marking g')"

lemma mutates_trans: "mutates g g' \<Longrightarrow> mutates g' g'' \<Longrightarrow> mutates g g''"
  by (simp add: mutates_def)

lemma mutates_evolve: "evolve g g' \<Longrightarrow> mutates g g'"
  using evolve_fields [of g g'] by (auto simp: mutates_def evolve_def same_kinds_def same_code_def uv_linked_def marking_def)

lemma gc_inv_mutates: "gc_inv g L \<Longrightarrow> minv {} False False False g' \<Longrightarrow> mutates g g' \<Longrightarrow> gc_inv g' L"
proof -
  assume a: "gc_inv g L" "minv {} False False False g'" "mutates g g'"
  show "gc_inv g' L" by (rule gc_inv_keep [OF a(1,2)]) (use a(1,3) in \<open>simp_all add: mutates_def gc_inv_def\<close>)
qed

lemma mutates_store:
  assumes "G_heap g a = Some ob" "same_shape ob ob'"
  shows "mutates g (set_obj a ob' g)"
proof -
  have hp: "G_heap (set_obj a ob' g) = (G_heap g)(a \<mapsto> ob')" by (simp add: set_obj_def)
  note K = shape_kinds [OF assms hp]
  have f: "G_mainth (set_obj a ob' g) = G_mainth g" "G_registrytv (set_obj a ob' g) = G_registrytv g" "G_gcroot (set_obj a ob' g) = G_gcroot g"
    "G_cur (set_obj a ob' g) = G_cur g" "G_strempty (set_obj a ob' g) = G_strempty g" "G_trace (set_obj a ob' g) = G_trace g" "G_white (set_obj a ob' g) = G_white g"
    "G_uvhead (set_obj a ob' g) = G_uvhead g" "G_state (set_obj a ob' g) = G_state g" by (simp_all add: set_obj_def)
  show ?thesis using K(1) same_coloursD(4) [OF K(2)] by (simp add: mutates_def f uv_linked_def marking_def same_kinds_def)
qed

text \<open>A store into a table with a backward barrier, where the barrier runs under the condition \<open>c\<close>.\<close>

lemma store_back:
  assumes i: "minv {} False False False g" and h: "G_heap g a = Some (OTab mt t)" and t: "t_marked t' = t_marked t"
    and g1: "g1 = set_obj a (OTab mt' t') g" and ok: "heap_ok g1" and c: "\<not> c \<Longrightarrow> kids g1 a \<inter> whites g1 \<subseteq> kids g a"
  defines "g' \<equiv> if c \<and> isblack g1 a then lj_gc_barrierback g1 a else g1"
  shows "minv {} False False False g'" "mutates g g'"
proof -
  have s: "same_shape (OTab mt t) (OTab mt' t')" using t by simp
  have hp: "G_heap g1 = (G_heap g)(a \<mapsto> OTab mt' t')" by (simp add: g1 set_obj_def)
  note K = shape_kinds [OF h s hp] and I = minvD [OF i]
  note C = same_coloursD [OF K(2)]
  have i1: "minv {a} False False False g1" unfolding g1 by (rule store_ok [OF i h s]) (use ok g1 in simp)
  have gl: "gray_lists g1 = gray_lists g" by (simp add: g1 store_state)
  have k: "listed g1 a" "\<not> is_thread g1 a" "\<not> leaf g1 a" by (simp_all add: listed_def is_thread_def leaf_def hp)
  have nl: "a \<notin> set (gray_lists g1)" if "isblack g1 a" using I(6) [of a] that by (auto simp: gl C colours(1))
  have m1: "mutates g g1" unfolding g1 by (rule mutates_store [OF h s])
  have "a \<notin> set (G_mmudata g)" using I(11) [of a] h by (auto simp: is_udata_def)
  then have kb: "isblack g a \<Longrightarrow> kids g a \<inter> whites g = {}" using I(9) [of a] by simp
  have "minv {} False False False g' \<and> mutates g g'"
  proof (cases "c \<and> isblack g1 a")
    case True
    then show ?thesis using barrier_back [OF i1 _ k(1) nl] mutates_trans [OF m1 mutates_evolve] by (simp add: g'_def)
  next
    case False
    have "minv {} False False False g1"
    proof (rule finish_any [OF i1])
      show "isgray g1 a" if "a \<in> set (gray_lists g1)" using I(6) [of a] that by (simp add: gl C)
      show "kids g1 a \<inter> whites g1 = {}" if "isblack g1 a" using c kb False that by (auto simp: C)
    qed (use k in simp)
    moreover have "g' = g1" unfolding g'_def by (rule if_not_P [OF False])
    ultimately show ?thesis using m1 by simp
  qed
  then show "minv {} False False False g'" "mutates g g'" by simp_all
qed

text \<open>A store into another object with a forward barrier.\<close>

lemma store_fwd:
  assumes i: "minv {} False False False g" and h: "G_heap g a = Some ob" and s: "same_shape ob ob'" and n: "\<not> is_thread g a"
    and g1: "g1 = set_obj a ob' g" and ok: "heap_ok g1" and c: "c \<Longrightarrow> iswhite g1 v \<and> kids g1 a \<subseteq> insert v (kids g a)" "\<not> c \<Longrightarrow> kids g1 a \<inter> whites g1 \<subseteq> kids g a"
  defines "g' \<equiv> if c \<and> isblack g1 a then gc_mark g1 v else g1"
  shows "minv {} False False False g'" "mutates g g'"
proof -
  have hp: "G_heap g1 = (G_heap g)(a \<mapsto> ob')" by (simp add: g1 set_obj_def)
  note K = shape_kinds [OF h s hp] and I = minvD [OF i]
  note C = same_coloursD [OF K(2)]
  have i1: "minv {a} False False False g1" unfolding g1 by (rule store_ok [OF i h s]) (use ok g1 in simp)
  have gl: "gray_lists g1 = gray_lists g" by (simp add: g1 store_state)
  have mm: "G_mmudata g1 = G_mmudata g" by (simp add: g1 set_obj_def)
  have nl: "a \<notin> set (gray_lists g1)" if "isblack g1 a" using I(6) [of a] that by (auto simp: gl C colours(1))
  have k: "\<not> is_thread g1 a" "isblack g1 a \<Longrightarrow> \<not> leaf g1 a" using n I(8) [of a] K(1) by (simp_all add: C same_kinds_def)
  have m1: "mutates g g1" unfolding g1 by (rule mutates_store [OF h s])
  have kb: "isblack g1 a \<Longrightarrow> a \<notin> set (G_mmudata g1) \<Longrightarrow> kids g a \<inter> whites g1 = {}" using I(9) [of a] by (simp add: C mm)
  have "minv {} False False False g' \<and> mutates g g'"
  proof (cases "c \<and> isblack g1 a")
    case True
    have v: "iswhite g1 v" "a \<notin> set (G_mmudata g1) \<Longrightarrow> kids g1 a \<inter> whites g1 \<subseteq> {v}" using c(1) kb True by blast+
    note b = barrier_fwd [OF i1 conjunct2 [OF True] nl [OF conjunct2 [OF True]] k(1) k(2) [OF conjunct2 [OF True]] v]
    show ?thesis using True b(1) mutates_trans [OF m1 mutates_evolve [OF b(2)]] by (simp add: g'_def)
  next
    case False
    have "minv {} False False False g1"
    proof (rule finish_any [OF i1])
      show "isgray g1 a" if "a \<in> set (gray_lists g1)" using I(6) [of a] that by (simp add: gl C)
      show "kids g1 a \<inter> whites g1 = {}" if "isblack g1 a" "a \<notin> set (G_mmudata g1)" using c(2) kb False that by blast
    qed (use k in simp)
    moreover have "g' = g1" unfolding g'_def by (rule if_not_P [OF False])
    ultimately show ?thesis using m1 by simp
  qed
  then show "minv {} False False False g'" "mutates g g'" by simp_all
qed

text \<open>A stack needs no barrier.\<close>

lemma store_stack:
  assumes i: "minv {} False False False g" and h: "G_heap g a = Some (OThread m s)" and ok: "heap_ok (set_obj a (OThread m s') g)"
  shows "minv {} False False False (set_obj a (OThread m s') g)" "mutates g (set_obj a (OThread m s') g)"
proof -
  define g1 where "g1 = set_obj a (OThread m s') g"
  have sh: "same_shape (OThread m s) (OThread m s')" by simp
  have hp: "G_heap g1 = (G_heap g)(a \<mapsto> OThread m s')" by (simp add: g1_def set_obj_def)
  note K = shape_kinds [OF h sh hp] and I = minvD [OF i]
  note C = same_coloursD [OF K(2)]
  have nb: "\<not> isblack g1 a" using I(8) [of a] h by (auto simp: C is_thread_def)
  have gl: "gray_lists g1 = gray_lists g" by (simp add: g1_def store_state)
  have "minv {} False False False g1"
  proof (rule finish_any)
    show "minv {a} False False False g1" unfolding g1_def by (rule store_ok [OF i h sh ok])
    show "isgray g1 a" if "a \<in> set (gray_lists g1)" using I(6) [of a] that by (simp add: gl C)
  qed (use nb in simp_all)
  then show "minv {} False False False (set_obj a (OThread m s') g)" by (simp add: g1_def)
  show "mutates g (set_obj a (OThread m s') g)" by (rule mutates_store [OF h sh])
qed

text \<open>A new object is white.\<close>

lemma new_ok:
  assumes i: "minv {} False False False g" and f: "G_heap g a = None" and ok: "heap_ok g'"
    and hp: "G_heap g' = (G_heap g)(a \<mapsto> set_marked (gc_curwhite g) ob)" and c: "same_code g g'" and w: "gc_curwhite g \<noteq> 0"
    and L: "G_gray g' = G_gray g" "G_grayagain g' = G_grayagain g" "G_weak g' = G_weak g" "G_white g' = G_white g" "G_mmudata g' = G_mmudata g"
    and F: "G_mainth g' = G_mainth g" "G_registrytv g' = G_registrytv g" "G_gcroot g' = G_gcroot g" "G_cur g' = G_cur g" "G_strempty g' = G_strempty g" "G_state g' = G_state g"
    and uv: "uv_linked g \<Longrightarrow> uv_linked g'"
  shows "minv {} False False False g'" "mutates g g'"
proof -
  note I = minvD [OF i]
  have cw: "gc_curwhite g' = gc_curwhite g" by (simp add: gc_curwhite_def L)
  have ww: "gc_curwhite g AND LJ_GC_WHITES = gc_curwhite g" "gc_curwhite g AND LJ_GC_BLACK = 0"
    unfolding gc_curwhite_def and.assoc by (simp_all add: LJ_GC_WHITES_def LJ_GC_BLACK_def)
  have col: "iswhite g' a" "\<not> isblack g' a" "marked_at g' a AND LJ_GC_WHITES = gc_curwhite g" using w ww by (simp_all add: iswhite_def isblack_def bits_at alloc_def marked_at_def hp)
  have na: "a \<notin> set (gray_lists g)" "a \<notin> set (G_mmudata g)" using I(5) [of a] I(11) [of a] f by (auto simp: listed_def is_udata_def)
  have nk: "a \<notin> kids g x" for x using heap_okD(2) [OF I(1), of a x] f by (auto simp: alloc_def)
  have "minv {a} False False False g'"
    by (rule minv_upd [OF i _ c ok L(1-3) cw L(5)]) (use na nk col in \<open>simp_all add: hp colours(1) gray_lists_def\<close>)
  moreover have "gray_lists g' = gray_lists g" by (simp add: gray_lists_def L)
  ultimately show "minv {} False False False g'" using finish_any [of a g'] na col(2) by simp
  have o: "G_heap g' x = G_heap g x" if "alloc g x" for x using that f by (auto simp: alloc_def hp)
  have k: "alloc g x \<Longrightarrow> alloc g' x" "is_str g x \<Longrightarrow> is_str g' x" "is_trace g x \<Longrightarrow> is_trace g' x" "alloc g x \<Longrightarrow> x \<in> whites g' \<Longrightarrow> x \<in> whites g" for x
    using o [of x] same_heap_colour(2) [OF o, of x] by (auto simp: alloc_def is_str_def is_trace_def whites_def split: option.splits)
  then show "mutates g g'" using uv c by (simp add: mutates_def F L marking_def same_code_def)
qed

text \<open>Closing an open upvalue in the mark phase.\<close>

lemma heap_ok_upd:
  assumes i: "heap_ok g" and hp: "G_heap g' = (G_heap g)(a \<mapsto> OUpval m' (UvClosed tv))" and o: "G_heap g a = Some (OUpval m l)" and c: "same_code g g'"
    and v: "tv = uvval g l"
  shows "heap_ok g'" "kids g' a = tvref tv"
proof -
  have gc: "G_code g' = G_code g" using c by (simp add: same_code_def)
  have tr: "traceref g' = traceref g" "trace_refs g' = trace_refs g" using c by (auto simp: same_code_def fun_eq_iff traceref_def trace_refs_def)
  have fr: "frame_fns g' = frame_fns g" by (intro ext) (simp only: frame_fns_def frame_slots_cong [OF gc])
  have uv: "uvval g' u = uvval g u" for u using o by (auto simp: uvval_def hp split: uvloc.split)
  have ro: "obj_refs g' ob = obj_refs g ob" for ob by (cases ob) (simp_all add: tr fr uv)
  show ka: "kids g' a = tvref tv" by (simp add: kids_def hp uvval_def)
  have ks: "kids g' x = kids g x" for x
  proof (cases "x = a")
    case True
    then show ?thesis using ka o by (simp add: kids_def v)
  qed (simp add: kids_def hp ro split: option.split)
  have kd: "is_str g' x = is_str g x" "is_trace g' x = is_trace g x" "meta_ok g' x = meta_ok g x" "alloc g' x = alloc g x" for x
    using o by (simp_all add: is_str_def is_trace_def meta_ok_def alloc_def hp)
  have ok: "obj_ok g' ob = obj_ok g ob" for ob by (cases ob) (simp_all add: tr kd strs_ok_def th_ok_code [OF c])
  show "heap_ok g'"
  proof (unfold heap_ok_def, intro conjI allI impI)
    fix x ob assume x: "G_heap g' x = Some ob"
    show "obj_ok g' ob"
    proof (cases "x = a")
      case True
      then show ?thesis using x by (auto simp: hp)
    qed (use x heap_okD(1) [OF i] ok in \<open>simp add: hp\<close>)
  next
    fix x y assume "y \<in> kids g' x"
    then show "alloc g' y" using heap_okD(2) [OF i, of y x] by (simp add: ks kd)
  qed
qed

lemma closeuv_ok:
  assumes i: "minv {} False False False g" and mk: "marking g" and h: "G_heap g a = Some (OUpval m (UvOpen th j))"
  defines "g' \<equiv> lj_gc_closeuv (unlinkuv a g) a"
  shows "minv {} False False False g'" "mutates g g'"
proof -
  note I = minvD [OF i]
  define tv where "tv = uvval g (UvOpen th j)"
  define m' where "m' = (if isgray g a then m OR LJ_GC_BLACK else m)"
  define gX where "gX = g\<lparr>G_uvhead := remove1 a (G_uvhead g), G_heap := (G_heap g)(a \<mapsto> OUpval m' (UvClosed tv)), G_root := a # G_root g\<rparr>"
  have nl: "\<not> listed g a" "leaf g a" "\<not> is_udata g a" using h by (simp_all add: listed_def leaf_def is_udata_def)
  have na: "a \<notin> set (gray_lists g)" "a \<notin> set (G_mmudata g)" using I(5) [of a] I(11) [of a] nl by auto
  have nb: "\<not> isblack g a" using I(8) [of a] nl by auto
  have al: "alloc g a" using h by (simp add: alloc_def)
  have gw: "isgray g a \<longleftrightarrow> \<not> iswhite g a" using nb al by (simp add: colours(1))
  have ma: "marked_at g a = m" using h by (simp add: marked_at_def)
  have X: "G_heap gX = (G_heap g)(a \<mapsto> OUpval m' (UvClosed tv))" "same_code g gX" "G_gray gX = G_gray g" "G_grayagain gX = G_grayagain g" "G_weak gX = G_weak g"
    "gc_curwhite gX = gc_curwhite g" "G_mmudata gX = G_mmudata g" by (simp_all add: gX_def same_code_def gc_curwhite_def)
  have BW: "(m OR LJ_GC_BLACK) AND LJ_GC_WHITES = m AND LJ_GC_WHITES" "(m OR LJ_GC_BLACK) AND LJ_GC_BLACK = LJ_GC_BLACK" "LJ_GC_BLACK \<noteq> 0"
    using white_bits(2) [of m] by (auto simp: LJ_GC_BLACK_def intro: bit_word_eqI simp: bit_simps)
  have wX: "iswhite gX a = iswhite g a" using h BW(1) by (simp add: iswhite_def bits_at alloc_def marked_at_def X m'_def)
  have bX: "isblack gX a = isgray g a" using h BW(2,3) nb by (simp add: isblack_def bits_at alloc_def marked_at_def X m'_def)
  have mX: "\<not> isgray g a \<Longrightarrow> marked_at gX a = m" by (simp add: marked_at_def X m'_def)
  note H = heap_ok_upd [OF I(1) X(1) h X(2) tv_def]
  have iX: "minv {a} False False False gX"
    by (rule minv_upd [OF i _ X(2) H(1) X(3-7)]) (use na I(3) [of a] ma mX gw wX bX in \<open>simp_all add: X(1) colours(1) gray_lists_def whites_def\<close>)
  have glX: "gray_lists gX = gray_lists g" by (simp add: gray_lists_def X)
  have kX: "\<not> is_thread gX a" "\<not> leaf gX a" by (simp_all add: is_thread_def leaf_def X)
  have whX: "whites gX = whites g"
  proof -
    have "iswhite gX x = iswhite g x" for x using wX same_heap_colour(2) [of gX x g] by (cases "x = a") (simp_all add: X)
    then show ?thesis by (simp add: whites_def)
  qed
  have mt: "mutates g gX"
  proof -
    have "alloc gX x = alloc g x" "is_str gX x = is_str g x" "is_trace gX x = is_trace g x" "is_openuv gX x \<Longrightarrow> is_openuv g x \<and> x \<noteq> a" for x
      using h by (auto simp: alloc_def is_str_def is_trace_def is_openuv_def X split: if_splits)
    then show ?thesis using whX mk by (auto simp: mutates_def uv_linked_def marking_def) (simp_all add: gX_def)
  qed
  have cl: "g' = (if isgray g a \<and> tviswhite gX tv then gc_mark gX (gcrV tv) else gX)"
  proof -
    define g1 where "g1 = (set_obj a (OUpval m (UvClosed tv)) (unlinkuv a g))\<lparr>G_root := a # G_root g\<rparr>"
    have u: "G_heap (unlinkuv a g) = G_heap g" "G_root (unlinkuv a g) = G_root g" by (simp_all add: unlinkuv_def)
    have "uvval (unlinkuv a g) (UvOpen th j) = tv" by (simp add: tv_def uvval_def u)
    then have e: "g' = (if isgray g1 a then if marking g1 then let g = gray2black a g1 in if tviswhite g tv then lj_gc_barrierf g a (gcrV tv) else g else makewhite g1 a else g1)"
      using h by (simp add: g'_def lj_gc_closeuv_def u Let_def g1_def set_obj_def)
    have gr: "isgray g1 a = isgray g a" using h by (simp add: isgray_def has_bits_def g1_def set_obj_def u)
    have mk1: "marking g1" using mk by (simp add: marking_def g1_def set_obj_def unlinkuv_def)
    have h1: "g1 = g\<lparr>G_uvhead := remove1 a (G_uvhead g), G_heap := (G_heap g)(a \<mapsto> OUpval m (UvClosed tv)), G_root := a # G_root g\<rparr>"
      by (simp add: g1_def set_obj_def unlinkuv_def)
    have b: "gray2black a g1 = gX" if "isgray g a" using that by (simp add: gray2black_def upd_marked_def set_obj_def h1 gX_def m'_def)
    have w: "g1 = gX" if "\<not> isgray g a" using that by (simp add: h1 gX_def m'_def)
    have bf: "lj_gc_barrierf gX a v = gc_mark gX v" for v using mk by (simp add: lj_gc_barrierf_def marking_def gX_def)
    show ?thesis using e gr mk1 b w bf by (cases "isgray g a") simp_all
  qed
  have "minv {} False False False g' \<and> mutates g g'"
  proof (cases "isgray g a \<and> tviswhite gX tv")
    case True
    have bl: "isblack gX a" using True bX by simp
    have v: "iswhite gX (gcrV tv)" "kids gX a \<inter> whites gX \<subseteq> {gcrV tv}" using True H(2) by (auto simp: tviswhite_def tvref_def split: if_splits)
    note b = barrier_fwd [OF iX bl _ kX v(1,2)]
    have "minv {} False False False (gc_mark gX (gcrV tv))" "evolve gX (gc_mark gX (gcrV tv))" using b na glX by simp_all
    then show ?thesis using True mutates_trans [OF mt mutates_evolve] by (simp add: cl)
  next
    case False
    have g'X: "g' = gX" unfolding cl by (rule if_not_P [OF False])
    have "minv {} False False False gX"
    proof (rule finish_any [OF iX])
      show "isgray gX a" if "a \<in> set (gray_lists gX)" using that na by (simp add: glX)
      show "kids gX a \<inter> whites gX = {}" if "isblack gX a" using that False H(2) bX by (auto simp: tviswhite_def tvref_def whites_def)
    qed (use kX in simp)
    then show ?thesis using mt g'X by simp
  qed
  then show "minv {} False False False g'" "mutates g g'" by simp_all
qed

text \<open>No object is dead in the mark phase.\<close>

lemma none_dead:
  assumes "minv X U W T g"
  shows "\<not> isdead g a"
proof
  assume "isdead g a"
  then have d: "alloc g a" "marked_at g a AND (gc_otherwhite g AND LJ_GC_WHITES) \<noteq> 0" by (simp_all add: isdead_def bits_at)
  have e: "marked_at g a AND (gc_otherwhite g AND LJ_GC_WHITES) = (marked_at g a AND LJ_GC_WHITES) AND gc_otherwhite g" by (simp add: and.assoc and.commute [of "gc_otherwhite g"])
  then have "iswhite g a" using d by (auto simp: iswhite_def bits_at)
  then have "marked_at g a AND LJ_GC_WHITES = gc_curwhite g" using minvD(3) [OF assms] by simp
  moreover have "gc_curwhite g AND gc_otherwhite g = 0"
    using otherwhite_bits(2) [of "G_white g"] unfolding gc_curwhite_def gc_otherwhite_def by (subst and.commute)
  ultimately show False using d(2) e by simp
qed

text \<open>The allocator returns free memory.\<close>

definition fresh_alloc :: "gcenv \<Rightarrow> gcG \<Rightarrow> bool" where "fresh_alloc e g \<longleftrightarrow> (\<forall>sz a. ge_alloc e g sz = Some a \<longrightarrow> G_heap g a = None)"

lemma openupval_ok:
  fixes f :: "lua_State \<Rightarrow> u32 list" and L :: u32
  assumes i: "minv {} False False False g"
  defines "gT \<equiv> upd_thread (\<lambda>s. s\<lparr>th_openupval := f s\<rparr>) L g"
  shows "minv {} False False False gT" "mutates g gT"
proof -
  have "minv {} False False False gT \<and> mutates g gT"
  proof (cases "\<exists>m s. G_heap g L = Some (OThread m s)")
    case True
    then obtain m s where h: "G_heap g L = Some (OThread m s)" by blast
    have k: "th_ok g s" using heap_okD(1) [OF minvD(1) [OF i] h] by simp
    have t: "trimmed s (s\<lparr>th_openupval := f s\<rparr>)" using k by (simp add: trimmed_def th_ok_def)
    have e: "gT = (set_obj L (OThread m (s\<lparr>th_openupval := f s\<rparr>)) g)\<lparr>G_total := G_total g\<rparr>" by (simp add: gT_def upd_thread_def h set_obj_def)
    have e2: "gT = set_obj L (OThread m (s\<lparr>th_openupval := f s\<rparr>)) g" by (simp add: gT_def upd_thread_def h)
    show ?thesis using thread_neutral(1) [OF i h t e] mutates_store [OF h, of "OThread m (s\<lparr>th_openupval := f s\<rparr>)"] e2 by simp
  next
    case False
    then have "gT = g" by (auto simp: gT_def upd_thread_def split: option.split GCobj.split)
    then show ?thesis using i mutates_evolve [OF evolve_progress [OF progress_refl]] by simp
  qed
  then show "minv {} False False False gT" "mutates g gT" by simp_all
qed

lemma upd_thread_other:
  assumes "G_heap g a = None"
  shows "G_heap (upd_thread f L (set_obj a (OUpval m l) (g\<lparr>G_total := n\<rparr>))) = (G_heap (upd_thread f L g))(a \<mapsto> OUpval m l)"
proof (cases "L = a")
  case True
  then show ?thesis using assms by (simp add: upd_thread_def set_obj_def)
next
  case False
  then show ?thesis by (auto simp: upd_thread_def set_obj_def fun_upd_twist split: option.split GCobj.split)
qed

lemma upd_thread_fields:
  "upd_thread f L g = g\<lparr>G_heap := G_heap (upd_thread f L g)\<rparr>"
  by (simp add: upd_thread_def set_obj_def split: option.split GCobj.split)

lemma finduv_ok:
  assumes i: "minv {} False False False g" and w: "gc_curwhite g \<noteq> 0" and f: "func_finduv e g L slot = (Inr a, g')" and n: "fresh_alloc e g" and ok: "heap_ok g'"
  shows "minv {} False False False g' \<and> mutates g g'"
proof -
  obtain bs r where fd: "finduv_at g slot (openupvals g L) = (bs, r)" by fastforce
  show ?thesis
  proof (cases r)
    case (Some b)
    then have "g' = g" using f fd none_dead [OF i, of b] by (simp add: func_finduv_def)
    then show ?thesis using i mutates_evolve [OF evolve_progress [OF progress_refl]] by simp
  next
    case None
    let ?f = "\<lambda>s. s\<lparr>th_openupval := bs @ a # drop (length bs) (th_openupval s)\<rparr>"
    define gT where "gT = upd_thread ?f L g"
    define g1 where "g1 = set_obj a (OUpval (gc_curwhite g) (UvOpen L slot)) (g\<lparr>G_total := G_total g + sizeof_GCupval\<rparr>)"
    have fr: "G_heap g a = None" and g': "g' = (upd_thread ?f L g1)\<lparr>G_uvhead := a # G_uvhead (upd_thread ?f L g1)\<rparr>"
      using f fd None n by (auto simp: func_finduv_def g1_def Let_def fresh_alloc_def set_obj_def split: option.splits)
    note T = openupval_ok [OF i, of "\<lambda>s. bs @ a # drop (length bs) (th_openupval s)" L, folded gT_def]
    have hp: "G_heap g' = (G_heap gT)(a \<mapsto> OUpval (gc_curwhite g) (UvOpen L slot))"
      unfolding g' g1_def using upd_thread_other [OF fr] by (simp add: gT_def)
    obtain h1 where h1: "upd_thread ?f L g1 = g1\<lparr>G_heap := h1\<rparr>" using upd_thread_fields [of ?f L g1] by blast
    obtain h2 where h2: "gT = g\<lparr>G_heap := h2\<rparr>" using upd_thread_fields [of ?f L g] unfolding gT_def by blast
    note S = h2
    have S3: "g' = g\<lparr>G_heap := h1, G_total := G_total g + sizeof_GCupval, G_uvhead := a # G_uvhead g\<rparr>" unfolding g' h1 by (simp add: g1_def set_obj_def)
    have cw: "gc_curwhite gT = gc_curwhite g" by (simp add: S gc_curwhite_def)
    have fT: "G_heap gT a = None" using fr by (auto simp: gT_def upd_thread_def set_obj_def split: option.split GCobj.split)
    have hp2: "G_heap g' = (G_heap gT)(a \<mapsto> set_marked (gc_curwhite gT) (OUpval 0 (UvOpen L slot)))" using hp by (simp add: cw)
    have c: "same_code gT g'" by (simp add: same_code_def S S3)
    have w': "gc_curwhite gT \<noteq> 0" using w cw by simp
    have uv: "uv_linked g'" if "uv_linked gT"
    proof -
      have "is_openuv g' x \<Longrightarrow> x = a \<or> is_openuv gT x" for x by (auto simp: is_openuv_def hp split: if_splits)
      moreover have "G_uvhead g' = a # G_uvhead gT" by (simp add: S S3)
      ultimately show ?thesis using that by (auto simp: uv_linked_def)
    qed
    note N = new_ok [OF T(1) fT ok hp2 c w' _ _ _ _ _ _ _ _ _ _ _ uv]
    have "minv {} False False False g'" "mutates gT g'" by (rule N; simp add: S S3)+
    then show ?thesis using mutates_trans [OF T(2)] by simp
  qed
qed

text \<open>
  A step of the collector that marks, or of the program: stores into tables, closed upvalues, functions
  and userdata with their barriers, writes to stacks, new objects, new and closed open upvalues. The
  program stores only values that it has, so what they refer to is allocated.
\<close>

inductive gc_mut :: "gcenv \<Rightarrow> u32 \<Rightarrow> gcG \<Rightarrow> gcG \<Rightarrow> bool" for e L where
  mut_collect: "G_state g = GCSpropagate \<Longrightarrow> gc_onestep e g L = Some (Inr c, g') \<Longrightarrow> gc_mut e L g g'"
| mut_tab: "G_heap g a = Some (OTab mt t) \<Longrightarrow> t_marked t' = t_marked t \<Longrightarrow> g1 = set_obj a (OTab mt t') g \<Longrightarrow> heap_ok g1 \<Longrightarrow>
    kids g1 a \<subseteq> kids g a \<union> tvref v \<Longrightarrow> gc_mut e L g (lj_gc_barriert g1 a v)"
| mut_anytab: "G_heap g a = Some (OTab mt t) \<Longrightarrow> t_marked t' = t_marked t \<Longrightarrow> g1 = set_obj a (OTab mt' t') g \<Longrightarrow> heap_ok g1 \<Longrightarrow>
    gc_mut e L g (gc_anybarriert g1 a)"
| mut_meta: "G_heap g a = Some (OTab mt t) \<Longrightarrow> g1 = set_obj a (OTab v t) g \<Longrightarrow> heap_ok g1 \<Longrightarrow> gc_mut e L g (if v \<noteq> 0 then lj_gc_objbarriert g1 a v else g1)"
| mut_value: "G_heap g a = Some ob \<Longrightarrow> same_shape ob ob' \<Longrightarrow> \<not> is_thread g a \<Longrightarrow> g1 = set_obj a ob' g \<Longrightarrow> heap_ok g1 \<Longrightarrow>
    kids g1 a \<subseteq> kids g a \<union> tvref v \<Longrightarrow> gc_mut e L g (lj_gc_barrier g1 a v)"
| mut_obj: "G_heap g a = Some ob \<Longrightarrow> same_shape ob ob' \<Longrightarrow> \<not> is_thread g a \<Longrightarrow> g1 = set_obj a ob' g \<Longrightarrow> heap_ok g1 \<Longrightarrow>
    kids g1 a \<subseteq> insert v (kids g a) \<Longrightarrow> gc_mut e L g (lj_gc_objbarrier g1 a v)"
| mut_stack: "G_heap g a = Some (OThread m s) \<Longrightarrow> heap_ok (set_obj a (OThread m s') g) \<Longrightarrow> gc_mut e L g (set_obj a (OThread m s') g)"
| mut_new: "lj_mem_newgco e g sz ob = (Inr a, g') \<Longrightarrow> fresh_alloc e g \<Longrightarrow> heap_ok g' \<Longrightarrow> \<not> is_openuv g' a \<Longrightarrow> gc_mut e L g g'"
| mut_udata: "lj_udata_new e g sz env = (Inr a, g') \<Longrightarrow> fresh_alloc e g \<Longrightarrow> heap_ok g' \<Longrightarrow> gc_mut e L g g'"
| mut_finduv: "func_finduv e g th slot = (Inr a, g') \<Longrightarrow> fresh_alloc e g \<Longrightarrow> heap_ok g' \<Longrightarrow> gc_mut e L g g'"
| mut_closeuv: "G_heap g a = Some (OUpval m (UvOpen th i)) \<Longrightarrow> gc_mut e L g (lj_gc_closeuv (unlinkuv a g) a)"

inductive_cases gc_mutE: "gc_mut e L g g'"

lemma new_object_ok:
  assumes i: "minv {} False False False g" and w: "gc_curwhite g \<noteq> 0" and f: "G_heap g a = None" and ok: "heap_ok g'" and o: "\<not> is_openuv g' a"
    and g': "g' = (set_obj a (set_marked (gc_curwhite g) ob) g)\<lparr>G_total := n, G_root := r\<rparr>"
  shows "minv {} False False False g' \<and> mutates g g'"
proof -
  have hp: "G_heap g' = (G_heap g)(a \<mapsto> set_marked (gc_curwhite g) ob)" by (simp add: g' set_obj_def)
  have c: "same_code g g'" by (simp add: g' set_obj_def same_code_def)
  have uv: "uv_linked g'" if "uv_linked g"
  proof -
    have "is_openuv g' x \<Longrightarrow> is_openuv g x" for x using o by (cases "x = a") (simp_all add: is_openuv_def hp)
    moreover have "G_uvhead g' = G_uvhead g" by (simp add: g' set_obj_def)
    ultimately show ?thesis using that by (auto simp: uv_linked_def)
  qed
  note N = new_ok [OF i f ok hp c w _ _ _ _ _ _ _ _ _ _ _ uv]
  have "minv {} False False False g'" "mutates g g'" by (rule N; simp add: g' set_obj_def)+
  then show ?thesis by simp
qed

lemma collect_ok:
  assumes i: "minv {} False False False g" and st: "G_state g = GCSpropagate" and s: "gc_onestep e g L = Some (Inr c, g')"
  shows "minv {} False False False g' \<and> mutates g g'"
proof (cases "G_gray g")
  case Nil
  then have g': "g' = g\<lparr>G_state := GCSatomic\<rparr>" using s st by (simp add: gc_onestep_def)
  have h: "G_heap g' = G_heap g" "same_code g g'" by (simp_all add: g' same_code_def)
  have "minv {} False False False g'" by (rule minv_same [OF i h]) (use minvD(11) [OF i] in \<open>simp_all add: g' gc_curwhite_def\<close>)
  moreover have "mutates g g'" using list_upd_same(6,7) [OF h] by (simp add: mutates_def same_kinds_def uv_linked_def) (simp add: g' marking_def)
  ultimately show ?thesis by simp
next
  case (Cons a as)
  obtain m g2 where p: "propagatemark g = Some (m, g2)" "minv {} False False False g2" "progress g g2" using propagate_step [OF i Cons] by blast
  then have "g' = g2" using s st Cons by (simp add: gc_onestep_def)
  then show ?thesis using p mutates_evolve [OF evolve_progress] by simp
qed

lemma barrier_cases:
  assumes "marking g"
  shows "lj_gc_barriert g a tv = (if tviswhite g tv \<and> isblack g a then lj_gc_barrierback g a else g)"
    "lj_gc_barrier g a tv = (if tviswhite g tv \<and> isblack g a then gc_mark g (gcrV tv) else g)"
    "lj_gc_objbarrier g a v = (if iswhite g v \<and> isblack g a then gc_mark g v else g)"
  using assms by (simp_all add: lj_gc_barriert_def lj_gc_barrier_def lj_gc_objbarrier_def lj_gc_barrierf_def)

lemma gc_mut_ok:
  assumes "gc_mut e L g g'" and i: "minv {} False False False g" and mk: "marking g" and w: "gc_curwhite g \<noteq> 0"
  shows "minv {} False False False g' \<and> mutates g g'"
  using assms(1)
proof cases
  case (mut_collect c)
  then show ?thesis using collect_ok [OF i] by blast
next
  case (mut_tab a mt t t' g1 v)
  have "kids g1 a \<inter> whites g1 \<subseteq> kids g a" if "\<not> tviswhite g1 v" using mut_tab(6) that by (auto simp: tviswhite_def tvref_def whites_def split: if_splits)
  note b = store_back [OF i mut_tab(2-5) this]
  show ?thesis using b mut_tab(1) by (simp add: lj_gc_barriert_def)
next
  case (mut_anytab a mt t t' g1 mt')
  note b = store_back [OF i mut_anytab(2-5), of True]
  show ?thesis using b mut_anytab(1) by (simp add: gc_anybarriert_def)
next
  case (mut_meta a mt t g1 v)
  have k: "kids g1 a \<inter> whites g1 \<subseteq> kids g a" if "\<not> (v \<noteq> 0 \<and> iswhite g1 v)"
    using that by (auto simp: mut_meta(2,3) kids_def set_obj_def nonnull_def whites_def split: if_splits)
  note b = store_back [OF i mut_meta(2) refl mut_meta(3,4), of "v \<noteq> 0 \<and> iswhite g1 v", OF k]
  show ?thesis using b mut_meta(1) by (auto simp: lj_gc_objbarriert_def)
next
  case (mut_value a ob ob' g1 v)
  have mk1: "marking g1" using mk by (simp add: mut_value(5) set_obj_def marking_def)
  have k: "tviswhite g1 v \<Longrightarrow> iswhite g1 (gcrV v) \<and> kids g1 a \<subseteq> insert (gcrV v) (kids g a)" "\<not> tviswhite g1 v \<Longrightarrow> kids g1 a \<inter> whites g1 \<subseteq> kids g a"
    using mut_value(7) by (auto simp: tviswhite_def tvref_def whites_def split: if_splits)
  note b = store_fwd [OF i mut_value(2-6) k]
  show ?thesis using b mut_value(1) barrier_cases(2) [OF mk1] by simp
next
  case (mut_obj a ob ob' g1 v)
  have mk1: "marking g1" using mk by (simp add: mut_obj(5) set_obj_def marking_def)
  have k: "iswhite g1 v \<Longrightarrow> iswhite g1 v \<and> kids g1 a \<subseteq> insert v (kids g a)" "\<not> iswhite g1 v \<Longrightarrow> kids g1 a \<inter> whites g1 \<subseteq> kids g a"
    using mut_obj(7) by (auto simp: whites_def)
  note b = store_fwd [OF i mut_obj(2-6) k]
  show ?thesis using b mut_obj(1) barrier_cases(3) [OF mk1] by simp
next
  case (mut_stack a m s s')
  then show ?thesis using store_stack [OF i] by simp
next
  case (mut_new sz ob a)
  then obtain n r where "g' = (set_obj a (set_marked (gc_curwhite g) ob) g)\<lparr>G_total := n, G_root := r\<rparr>" "G_heap g a = None"
    by (auto simp: lj_mem_newgco_def fresh_alloc_def split: option.splits)
  then show ?thesis using new_object_ok [OF i w] mut_new by blast
next
  case (mut_udata sz env a)
  then have g': "g' = (set_obj a (set_marked (gc_curwhite g) (OUdata 0 0 env sz)) g)\<lparr>G_total := G_total g + (ucast sizeof_GCudata + sz), G_root := insert_after (G_mainth g) a (G_root g)\<rparr>"
    and f: "G_heap g a = None" by (auto simp: lj_udata_new_def fresh_alloc_def split: option.splits)
  have "\<not> is_openuv g' a" by (simp add: g' is_openuv_def set_obj_def)
  then show ?thesis using new_object_ok [OF i w f mut_udata(3) _ g'] by blast
next
  case (mut_finduv th slot a)
  then show ?thesis using finduv_ok [OF i w] by blast
next
  case (mut_closeuv a m th j)
  then show ?thesis using closeuv_ok [OF i mk] by simp
qed

theorem mark_phase_inv:
  assumes "(gc_mut e L)\<^sup>*\<^sup>* (gc_mark_start g0) g" "start_ok g0 L"
  shows "gc_inv g L \<and> marking g \<and> gc_curwhite g \<noteq> 0"
  using assms(1)
proof (induction rule: rtranclp_induct)
  case base
  show ?case using mark_start_ok [OF assms(2)] assms(2) by (simp add: marking_def start_ok_def gc_curwhite_def)
next
  case (step g g')
  have i: "minv {} False False False g" using step.IH by (simp add: gc_inv_def)
  have m: "minv {} False False False g'" "mutates g g'" using gc_mut_ok [OF step.hyps(2) i] step.IH by simp_all
  then show ?case using step.IH gc_inv_mutates [of g L g'] by (auto simp: mutates_def gc_curwhite_def)
qed

end
