(* ===== verification/LJ_GCSweep.thy ===== *)
theory LJ_GCSweep
  imports LJ_GCAtomic
begin

text \<open>The sweep phase frees dead objects only, and leaves no object dead that was not.\<close>

definition keeps :: "gcG \<Rightarrow> gcG \<Rightarrow> bool" where
  "keeps g g' \<longleftrightarrow> G_white g' = G_white g \<and> G_state g' = G_state g \<and> (\<forall>a. live g a \<longrightarrow> live g' a)"

lemma keeps_refl [simp]: "keeps g g" by (simp add: keeps_def)
lemma keeps_trans: "keeps g g' \<Longrightarrow> keeps g' g'' \<Longrightarrow> keeps g g''" by (simp add: keeps_def)

lemma live_iff: "live g a \<longleftrightarrow> (case G_heap g a of None \<Rightarrow> False | Some ob \<Rightarrow> gco_marked ob AND (gc_otherwhite g AND LJ_GC_WHITES) = 0)"
  by (auto simp: live_def alloc_def isdead_def has_bits_def split: option.split)

lemma live_cong: "G_heap g' a = G_heap g a \<Longrightarrow> G_white g' = G_white g \<Longrightarrow> live g' a = live g a"
  by (simp add: live_def alloc_def isdead_def has_bits_def gc_otherwhite_def)

lemma keepsI:
  assumes "G_white g' = G_white g" "G_state g' = G_state g"
    "\<And>a ob. G_heap g a = Some ob \<Longrightarrow> gco_marked ob AND (gc_otherwhite g AND LJ_GC_WHITES) = 0 \<Longrightarrow>
      \<exists>ob'. G_heap g' a = Some ob' \<and> gco_marked ob' AND (gc_otherwhite g AND LJ_GC_WHITES) = 0"
  shows "keeps g g'"
proof -
  have o: "gc_otherwhite g' = gc_otherwhite g" by (simp add: gc_otherwhite_def assms(1))
  have "live g' a" if "live g a" for a
    using that assms(3) [of a] by (auto simp: live_iff o split: option.splits)
  then show ?thesis using assms(1,2) by (simp add: keeps_def)
qed

lemma keeps_same: "G_heap g' = G_heap g \<Longrightarrow> G_white g' = G_white g \<Longrightarrow> G_state g' = G_state g \<Longrightarrow> keeps g g'"
  by (rule keepsI) simp_all

lemma keeps_drop: "\<not> live g a \<Longrightarrow> keeps g (drop_obj a g)"
  by (rule keepsI) (auto simp: drop_obj_def live_iff)

lemma keeps_memfree [simp]: "keeps g (gc_memfree n g)" "live (gc_memfree n g) a = live g a" "G_heap (gc_memfree n g) = G_heap g"
proof -
  show "keeps g (gc_memfree n g)" by (rule keeps_same) (simp_all add: gc_memfree_def)
  show "live (gc_memfree n g) a = live g a" "G_heap (gc_memfree n g) = G_heap g" by (rule live_cong, simp_all add: gc_memfree_def)
qed

lemma keeps_free: "\<not> live g a \<Longrightarrow> keeps g (drop_obj a (gc_memfree n g))"
  using keeps_trans [OF keeps_memfree(1) keeps_drop] by simp

lemma white_live: "(m AND NOT LJ_GC_COLORS OR gc_curwhite g) AND (gc_otherwhite g AND LJ_GC_WHITES) = 0"
proof (rule bit_word_eqI)
  fix n
  show "bit ((m AND NOT LJ_GC_COLORS OR gc_curwhite g) AND (gc_otherwhite g AND LJ_GC_WHITES)) n = bit 0 n"
    by (auto simp: bit_simps gc_curwhite_def gc_otherwhite_def LJ_GC_COLORS_def)
qed

lemma keeps_makewhite: "keeps g (makewhite g a)"
proof (rule keepsI)
  show "G_white (makewhite g a) = G_white g" "G_state (makewhite g a) = G_state g"
    by (simp_all add: makewhite_def upd_marked_def set_obj_def split: option.split)
  fix x ob assume x: "G_heap g x = Some ob" "gco_marked ob AND (gc_otherwhite g AND LJ_GC_WHITES) = 0"
  then show "\<exists>ob'. G_heap (makewhite g a) x = Some ob' \<and> gco_marked ob' AND (gc_otherwhite g AND LJ_GC_WHITES) = 0"
    by (cases "x = a") (simp_all add: makewhite_def upd_marked_heap white_live)
qed

lemma keeps_upd_thread: "keeps g (upd_thread f a g)"
  by (rule keepsI) (auto simp: upd_thread_def set_obj_def split: option.splits GCobj.splits)

lemma keeps_unlink: "keeps g (unlink l a g)" "live (unlink l a g) x = live g x"
proof -
  show "keeps g (unlink l a g)" by (cases l) (simp_all add: unlink_def keeps_upd_thread keeps_same)
  show "live (unlink l a g) x = live g x"
    by (cases l) (auto simp: unlink_def live_iff gc_otherwhite_def upd_thread_def set_obj_def split: option.splits GCobj.splits)
qed

lemma keeps_unlinkuv: "keeps g (unlinkuv a g)" "live (unlinkuv a g) x = live g x" "G_heap (unlinkuv a g) = G_heap g"
proof -
  show "keeps g (unlinkuv a g)" "G_heap (unlinkuv a g) = G_heap g" by (simp_all add: keeps_same unlinkuv_def)
  show "live (unlinkuv a g) x = live g x" by (rule live_cong) (simp_all add: unlinkuv_def)
qed

section \<open>Freeing objects\<close>

lemma freeuv_ok: "\<not> live g a \<Longrightarrow> keeps g (lj_func_freeuv a g)"
proof -
  assume l: "\<not> live g a"
  have "keeps g (drop_obj a (gc_memfree n (unlinkuv a g)))" for n
    by (rule keeps_trans [OF keeps_unlinkuv(1) keeps_free]) (simp add: keeps_unlinkuv l)
  then show ?thesis using keeps_free [OF l] by (auto simp: lj_func_freeuv_def split: option.split GCobj.split uvloc.split)
qed

lemma closeuv_keeps:
  assumes "\<not> marking g"
  shows "keeps g (lj_gc_closeuv g a)"
proof (cases "G_heap g a")
  case (Some ob)
  show ?thesis
  proof (cases "\<exists>m l. ob = OUpval m l")
    case True
    then obtain m l where ob: "G_heap g a = Some (OUpval m l)" using Some by blast
    define g1 where "g1 = (set_obj a (OUpval m (UvClosed (uvval g l))) g)\<lparr>G_root := a # G_root g\<rparr>"
    have "\<not> marking g1" using assms by (simp add: marking_def g1_def set_obj_def)
    then have e: "lj_gc_closeuv g a = (if isgray g1 a then makewhite g1 a else g1)"
      using ob by (simp add: lj_gc_closeuv_def Let_def g1_def set_obj_def)
    have "keeps g g1" by (rule keepsI) (use ob in \<open>auto simp: g1_def set_obj_def\<close>)
    then show ?thesis using keeps_makewhite keeps_trans by (simp add: e)
  qed (use Some in \<open>cases ob; simp add: lj_gc_closeuv_def\<close>)
qed (simp add: lj_gc_closeuv_def)

lemma closeuv_loop_keeps: "\<not> marking g \<Longrightarrow> keeps g (closeuv_loop L level as g)"
proof (induction as arbitrary: g)
  case (Cons a as)
  show ?case
  proof (cases "\<exists>m th i. G_heap g a = Some (OUpval m (UvOpen th i)) \<and> level \<le> i")
    case True
    then obtain m th i where h: "G_heap g a = Some (OUpval m (UvOpen th i))" "level \<le> i" by blast
    define g1 where "g1 = upd_thread (\<lambda>s. s\<lparr>th_openupval := as\<rparr>) L g"
    define g2 where "g2 = (if isdead g1 a then lj_func_freeuv a g1 else lj_gc_closeuv (unlinkuv a g1) a)"
    have k1: "keeps g g1" unfolding g1_def by (rule keeps_upd_thread)
    have nm: "\<not> marking g1" using k1 Cons.prems by (simp add: keeps_def marking_def)
    have "\<not> marking (unlinkuv a g1)" using nm by (simp add: marking_def unlinkuv_def)
    then have k2: "keeps g1 g2"
      using keeps_trans [OF keeps_unlinkuv(1) closeuv_keeps] freeuv_ok [of g1 a] by (simp add: g2_def live_def)
    have "\<not> marking g2" using k2 nm by (simp add: keeps_def marking_def)
    then have "keeps g (closeuv_loop L level as g2)" using Cons.IH keeps_trans [OF keeps_trans [OF k1 k2]] by blast
    then show ?thesis using h by (simp add: Let_def g1_def [symmetric] g2_def [symmetric])
  next
    case False
    then have "closeuv_loop L level (a # as) g = g" by (auto split: option.split GCobj.split uvloc.split)
    then show ?thesis by simp
  qed
qed simp

text \<open>Closing upvalues leaves the colours of threads alone.\<close>

definition thread_with :: "u8 \<Rightarrow> u32 \<Rightarrow> gcG \<Rightarrow> bool" where "thread_with m x g \<longleftrightarrow> (\<exists>s. G_heap g x = Some (OThread m s))"

lemma freeuv_thread: "thread_with m x g \<Longrightarrow> x \<noteq> a \<Longrightarrow> thread_with m x (lj_func_freeuv a g)"
  by (auto simp: thread_with_def lj_func_freeuv_def drop_obj_def gc_memfree_def unlinkuv_def split: option.split GCobj.split uvloc.split)

lemma upd_thread_thread: "thread_with m x g \<Longrightarrow> thread_with m x (upd_thread f a g)"
  by (auto simp: thread_with_def upd_thread_def set_obj_def split: option.splits GCobj.splits)

lemma gc_closeuv_thread: "thread_with m x g \<Longrightarrow> G_heap g a = Some (OUpval n l) \<Longrightarrow> \<not> marking g \<Longrightarrow> thread_with m x (lj_gc_closeuv g a)"
proof -
  assume t: "thread_with m x g" and a: "G_heap g a = Some (OUpval n l)" and mk: "\<not> marking g"
  have ne: "x \<noteq> a" using t a by (auto simp: thread_with_def)
  define g1 where "g1 = (set_obj a (OUpval n (UvClosed (uvval g l))) g)\<lparr>G_root := a # G_root g\<rparr>"
  have "\<not> marking g1" using mk by (simp add: marking_def g1_def set_obj_def)
  then have e: "lj_gc_closeuv g a = (if isgray g1 a then makewhite g1 a else g1)"
    using a by (simp add: lj_gc_closeuv_def Let_def g1_def set_obj_def)
  have "thread_with m x g1" using t ne by (simp add: thread_with_def g1_def set_obj_def)
  then show ?thesis using ne by (simp add: e thread_with_def makewhite_def upd_marked_heap)
qed

lemma closeuv_loop_thread: "\<not> marking g \<Longrightarrow> thread_with m x g \<Longrightarrow> thread_with m x (closeuv_loop L level as g)"
proof (induction as arbitrary: g)
  case (Cons a as)
  show ?case
  proof (cases "\<exists>m th i. G_heap g a = Some (OUpval m (UvOpen th i)) \<and> level \<le> i")
    case True
    then obtain n th i where h: "G_heap g a = Some (OUpval n (UvOpen th i))" "level \<le> i" by blast
    define g1 where "g1 = upd_thread (\<lambda>s. s\<lparr>th_openupval := as\<rparr>) L g"
    define g2 where "g2 = (if isdead g1 a then lj_func_freeuv a g1 else lj_gc_closeuv (unlinkuv a g1) a)"
    have k1: "keeps g g1" unfolding g1_def by (rule keeps_upd_thread)
    have nm: "\<not> marking g1" using k1 Cons.prems by (simp add: keeps_def marking_def)
    have nu: "\<not> marking (unlinkuv a g1)" using nm by (simp add: marking_def unlinkuv_def)
    have h1: "G_heap g1 a = Some (OUpval n (UvOpen th i))" using h(1) by (auto simp: g1_def upd_thread_def set_obj_def split: option.splits GCobj.splits)
    have t1: "thread_with m x g1" unfolding g1_def by (rule upd_thread_thread [OF Cons.prems(2)])
    have tu: "thread_with m x (unlinkuv a g1)" using t1 by (simp add: thread_with_def keeps_unlinkuv)
    have ne: "x \<noteq> a" using t1 h1 by (auto simp: thread_with_def)
    have t2: "thread_with m x g2" using freeuv_thread [OF t1 ne] gc_closeuv_thread [OF tu _ nu] h1 by (simp add: g2_def keeps_unlinkuv)
    have "keeps g1 g2"
      using keeps_trans [OF keeps_unlinkuv(1) closeuv_keeps [OF nu]] freeuv_ok [of g1 a] by (simp add: g2_def live_def)
    then have "\<not> marking g2" using nm by (simp add: keeps_def marking_def)
    then show ?thesis using Cons.IH [OF _ t2] h by (simp add: Let_def g1_def [symmetric] g2_def [symmetric])
  next
    case False
    then have "closeuv_loop L level (a # as) g = g" by (auto split: option.split GCobj.split uvloc.split)
    then show ?thesis using Cons.prems by simp
  qed
qed simp

lemma state_free_keeps:
  assumes mk: "\<not> marking g" and l: "\<not> live g a" and h: "G_heap g a = Some (OThread m s)"
  shows "keeps g (lj_state_free a g)"
proof -
  define g1 where "g1 = lj_func_closeuv a 0 g"
  have k: "keeps g g1" unfolding g1_def lj_func_closeuv_def by (rule closeuv_loop_keeps [OF mk])
  have "thread_with m a g" using h by (simp add: thread_with_def)
  then have "thread_with m a g1" unfolding g1_def lj_func_closeuv_def by (rule closeuv_loop_thread [OF mk])
  then obtain s' where s': "G_heap g1 a = Some (OThread m s')" by (auto simp: thread_with_def)
  have "gc_otherwhite g1 = gc_otherwhite g" using k by (simp add: keeps_def gc_otherwhite_def)
  then have "\<not> live g1 a" using l h s' by (simp add: live_iff)
  then have "keeps g1 (drop_obj a (gc_memfree n (gc_memfree n' g1)))" for n n'
    using keeps_trans [OF keeps_memfree(1) keeps_free] by simp
  then show ?thesis using s' keeps_trans [OF k] by (simp add: lj_state_free_def g1_def [symmetric])
qed

lemma free_keeps:
  assumes mk: "\<not> marking g" and l: "\<not> live g a"
  shows "keeps g (gc_free a g)"
proof (cases "G_heap g a")
  case (Some ob)
  have upd: "keeps g (drop_obj a (gc_memfree n g1))" if "G_heap g1 = G_heap g" "G_white g1 = G_white g" "G_state g1 = G_state g" for n g1
  proof -
    have "\<not> live g1 a" using l live_cong [of g1 a g] that by simp
    then show ?thesis by (rule keeps_trans [OF keeps_same [OF that] keeps_free])
  qed
  show ?thesis
  proof (cases ob)
    case (OStr s)
    then show ?thesis using Some upd by (simp add: gc_free_def)
  next
    case (OUpval m u)
    then show ?thesis using Some freeuv_ok [OF l] by (simp add: gc_free_def)
  next
    case (OThread m s)
    then show ?thesis using Some state_free_keeps [OF mk l] by (simp add: gc_free_def)
  next
    case (OTrace m T)
    then show ?thesis using Some upd by (simp add: gc_free_def lj_trace_free_def Let_def)
  next
    case (OTab mt t)
    define g1 where "g1 = g\<lparr>G_total := lj_tab_free (t\<lparr>g_total := G_total g\<rparr>)\<rparr>"
    have "keeps g g1" "\<not> live g1 a" using l live_cong [of g1 a g] keeps_same [of g1 g] by (simp_all add: g1_def)
    then have "keeps g (drop_obj a g1)" using keeps_trans keeps_drop by blast
    then show ?thesis using Some OTab by (simp add: gc_free_def g1_def)
  qed (use Some keeps_free [OF l] in \<open>simp_all add: gc_free_def\<close>)
qed (simp add: gc_free_def)

section \<open>Sweeping\<close>

text \<open>An object that the sweep does not keep is dead.\<close>

lemma swept_dead:
  assumes "(marked_at g a XOR LJ_GC_WHITES) AND gc_otherwhite g = 0" "gc_otherwhite g AND LJ_GC_WHITES \<noteq> 0"
  shows "\<not> live g a"
proof
  assume "live g a"
  then have z: "marked_at g a AND (gc_otherwhite g AND LJ_GC_WHITES) = 0" by (auto simp: live_iff marked_at_def split: option.splits)
  have "gc_otherwhite g AND LJ_GC_WHITES = 0"
  proof (rule bit_word_eqI)
    fix n assume "n < LENGTH(8)"
    then show "bit (gc_otherwhite g AND LJ_GC_WHITES) n = bit 0 n"
      using arg_cong [OF assms(1), of "\<lambda>x. bit x n"] arg_cong [OF z, of "\<lambda>x. bit x n"] by (auto simp: bit_and_iff bit_xor_iff)
  qed
  then show False using assms(2) by simp
qed

lemma sweep_with_keeps:
  assumes su: "\<And>g a. \<not> marking g \<Longrightarrow> gc_otherwhite g AND LJ_GC_WHITES \<noteq> 0 \<Longrightarrow> keeps g (su a g)"
  shows "\<not> marking g \<Longrightarrow> gc_otherwhite g AND LJ_GC_WHITES \<noteq> 0 \<Longrightarrow> ow = gc_otherwhite g \<Longrightarrow> keeps g (snd (sweep_with su l ow p lim g))"
proof (induction lim arbitrary: g p)
  case (Suc lim)
  show ?case
  proof (cases "from_link p (list_of l g)")
    case (Cons a as)
    define g1 where "g1 = (if is_thread g a then su a g else g)"
    have k1: "keeps g g1" using su Suc.prems by (simp add: g1_def)
    then have c1: "\<not> marking g1" "gc_otherwhite g1 = gc_otherwhite g" using Suc.prems by (simp_all add: keeps_def marking_def gc_otherwhite_def)
    have go: "keeps g (snd (sweep_with su l ow q lim g2))" if k2: "keeps g1 g2" for g2 q
    proof -
      have "\<not> marking g2" "gc_otherwhite g2 = gc_otherwhite g" using k2 c1 by (simp_all add: keeps_def marking_def gc_otherwhite_def)
      then have "keeps g2 (snd (sweep_with su l ow q lim g2))" using Suc.IH [of g2 q] Suc.prems by simp
      then show ?thesis using keeps_trans [OF keeps_trans [OF k1 k2]] by blast
    qed
    show ?thesis
    proof (cases "(marked_at g1 a XOR LJ_GC_WHITES) AND ow = 0")
      case True
      have "\<not> live g1 a" by (rule swept_dead) (use True Suc.prems c1 in simp_all)
      then have "\<not> live (unlink l a g1) a" by (simp add: keeps_unlink)
      moreover have "\<not> marking (unlink l a g1)" using keeps_unlink(1) [of g1 l a] c1 by (simp add: keeps_def marking_def)
      ultimately have "keeps g1 (gc_free a (unlink l a g1))" using keeps_trans [OF keeps_unlink(1) free_keeps] by blast
      from go [OF this] show ?thesis using Cons True by (simp add: Let_def g1_def [symmetric])
    next
      case False
      from go [OF keeps_makewhite] show ?thesis using Cons False by (simp add: Let_def g1_def [symmetric])
    qed
  qed simp
qed simp

lemma sweep_keeps:
  assumes "\<not> marking g" "gc_otherwhite g AND LJ_GC_WHITES \<noteq> 0"
  shows "keeps g (snd (gc_sweep g l p lim))"
proof -
  have "keeps g (sweep_uv th g)" if "\<not> marking g" "gc_otherwhite g AND LJ_GC_WHITES \<noteq> 0" for th g
    unfolding sweep_uv_def by (rule sweep_with_keeps) (use that in simp_all)
  then show ?thesis unfolding gc_sweep_def by (rule sweep_with_keeps) (use assms in simp_all)
qed

end
