(* ===== verification/LJ_GCProps.thy ===== *)
theory LJ_GCProps
  imports LJ_GCCycle LJ_GCSweep
begin

text \<open>The properties of the mark phase, with a small heap as a witness.\<close>

section \<open>Progress of the mark phase\<close>

definition collect_step :: "gcenv \<Rightarrow> u32 \<Rightarrow> gcG \<Rightarrow> gcG \<Rightarrow> bool" where
  "collect_step e L g g' \<longleftrightarrow> (\<exists>c. gc_onestep e g L = Some (Inr c, g'))"

lemma collect_reach:
  assumes "minv {} False False False g" "G_state g = GCSpropagate"
  shows "\<exists>n g'. (collect_step e L ^^ n) g g' \<and> n \<le> gmeasure g + 1 \<and> G_state g' = GCSatomic \<and> G_jit_L g' = G_jit_L g \<and> (gc_mut e L)\<^sup>*\<^sup>* g g'"
  using assms
proof (induction "gmeasure g" arbitrary: g rule: less_induct)
  case less
  show ?case
  proof (cases "G_gray g")
    case Nil
    define g' where "g' = g\<lparr>G_state := GCSatomic\<rparr>"
    have s: "gc_onestep e g L = Some (Inr 0, g')" using Nil less.prems by (simp add: gc_onestep_def g'_def)
    have "(collect_step e L ^^ 1) g g'" using s by (auto simp: collect_step_def)
    moreover have "(gc_mut e L)\<^sup>*\<^sup>* g g'" using mut_collect [OF less.prems(2) s] by blast
    moreover have "G_state g' = GCSatomic" "G_jit_L g' = G_jit_L g" by (simp_all add: g'_def)
    ultimately show ?thesis by (intro exI [of _ 1] exI [of _ g']) simp
  next
    case (Cons a as)
    obtain m g1 where p: "propagatemark g = Some (m, g1)" "minv {} False False False g1" "progress g g1" "gmeasure g1 < gmeasure g"
      using propagate_step [OF less.prems(1) Cons] by blast
    have s: "gc_onestep e g L = Some (Inr m, g1)" using p(1) Cons less.prems by (simp add: gc_onestep_def)
    have r: "rest g1 = rest g" using p(3) by (simp add: progress_def)
    note R = rest_fields [OF r]
    have st: "G_state g1 = GCSpropagate" using R(3) less.prems(2) by simp
    obtain n g' where n: "(collect_step e L ^^ n) g1 g'" "n \<le> gmeasure g1 + 1" "G_state g' = GCSatomic" "G_jit_L g' = G_jit_L g1" "(gc_mut e L)\<^sup>*\<^sup>* g1 g'"
      using less.hyps [OF p(4,2) st] by blast
    have "collect_step e L g g1" using s by (auto simp: collect_step_def)
    then have "(collect_step e L ^^ Suc n) g g'" using n(1) by (rule relpowp_Suc_I2)
    moreover have "(gc_mut e L)\<^sup>*\<^sup>* g g'" using mut_collect [OF less.prems(2) s] n(5) by (rule converse_rtranclp_into_rtranclp)
    moreover have "Suc n \<le> gmeasure g + 1" using n(2) p(4) by simp
    ultimately show ?thesis using n(3,4) R(13) by metis
  qed
qed

lemma atomic_step:
  assumes g: "gc_inv g L" and st: "G_state g = GCSatomic" "G_jit_L g = 0"
  shows "\<exists>c g'. gc_onestep e g L = Some (Inr c, g') \<and> G_state g' = GCSsweepstring \<and> (\<forall>a\<in>reachable g' L. live g' a) \<and> G_white g' = gc_otherwhite g"
proof -
  obtain h where h: "atomic g L = Some h" "\<forall>a x. live h a \<longrightarrow> x \<in> kids h a \<longrightarrow> live h x" "\<forall>a\<in>gc_roots h L. live h a" "G_white h = gc_otherwhite g"
    using atomic_closed [OF g] by blast
  define g' where "g' = h\<lparr>G_state := GCSsweepstring, G_sweepstr := 0\<rparr>"
  have e: "G_heap g' = G_heap h" "same_code h g'" by (simp_all add: g'_def same_code_def)
  have k: "kids g' a = kids h a" for a by (rule list_upd_same(3) [OF e])
  have l: "live g' a = live h a" for a by (simp add: live_def alloc_def isdead_def has_bits_def gc_otherwhite_def g'_def)
  have r: "gc_roots g' L = gc_roots h L" by (simp add: gc_roots_def trace_refs_def traceref_def g'_def)
  have "live g' a" if "a \<in> reachable g' L" for a
    by (rule reachable_live [OF _ _ that]) (use h(2,3) in \<open>auto simp: k l r\<close>)
  moreover have "gc_onestep e g L = Some (Inr 0, g')" using st h(1) by (simp add: gc_onestep_def g'_def)
  ultimately show ?thesis using h(4) by (simp add: g'_def)
qed

text \<open>A step of the sweep.\<close>

definition sweep_step :: "gcenv \<Rightarrow> u32 \<Rightarrow> gcG \<Rightarrow> gcG \<Rightarrow> bool" where
  "sweep_step e L g g' \<longleftrightarrow> (G_state g = GCSsweepstring \<or> G_state g = GCSsweep) \<and> collect_step e L g g'"

lemma sweep_step_keeps:
  assumes s: "sweep_step e L g g'" and w: "gc_otherwhite g AND LJ_GC_WHITES \<noteq> 0"
  shows "G_white g' = G_white g \<and> (\<forall>a. live g a \<longrightarrow> live g' a)"
proof -
  have mk: "\<not> marking g" using s by (auto simp: sweep_step_def marking_def)
  obtain c where c: "gc_onestep e g L = Some (Inr c, g')" using s by (auto simp: sweep_step_def collect_step_def)
  show ?thesis
  proof (cases "G_state g = GCSsweepstring")
    case True
    define g1 where "g1 = g\<lparr>G_sweepstr := G_sweepstr g + 1\<rparr>"
    define g2 where "g2 = gc_fullsweep g1 (LStr (unat (G_sweepstr g)))"
    have k1: "keeps g g1" by (rule keeps_same) (simp_all add: g1_def)
    have "\<not> marking g1" "gc_otherwhite g1 AND LJ_GC_WHITES \<noteq> 0" using k1 mk w by (simp_all add: keeps_def marking_def gc_otherwhite_def)
    then have "keeps g1 g2" unfolding g2_def gc_fullsweep_def by (rule sweep_keeps)
    then have k: "keeps g g2" by (rule keeps_trans [OF k1])
    have "G_heap g' = G_heap g2" "G_white g' = G_white g2"
      using c True by (auto simp: gc_onestep_def step_sweepstring_def Let_def g1_def [symmetric] g2_def [symmetric])
    then show ?thesis using k live_cong [of g' _ g2] by (simp add: keeps_def)
  next
    case False
    then have st: "G_state g = GCSsweep" using s by (simp add: sweep_step_def)
    obtain p g1 where g1: "gc_sweep g LRoot (G_sweep g) GCSWEEPMAX = (p, g1)" by fastforce
    have k: "keeps g g1" using sweep_keeps [OF mk w, of LRoot "G_sweep g" GCSWEEPMAX] g1 by simp
    define g2 where "g2 = g1\<lparr>G_sweep := p, G_estimate := G_estimate g1 - (G_total g - G_total g1)\<rparr>"
    have sh: "G_heap (snd (gc_shrink e h)) = G_heap h" "G_white (snd (gc_shrink e h)) = G_white h" for h
      by (simp_all add: gc_shrink_def shrink_tmpbuf_def Let_def split: prod.split sum.split)
    have "step_sweep e g = (Inr c, g')" using c st by (simp add: gc_onestep_def)
    then have "G_heap g' = G_heap g2 \<and> G_white g' = G_white g2"
      using sh [of g2] by (auto simp: step_sweep_def Let_def g1 g2_def [symmetric] split: if_splits prod.splits sum.splits)
    then show ?thesis using k live_cong [of g' _ g1] by (simp add: keeps_def g2_def)
  qed
qed

lemma sweep_run_keeps:
  assumes "(sweep_step e L)\<^sup>*\<^sup>* g g'" "gc_otherwhite g AND LJ_GC_WHITES \<noteq> 0"
  shows "G_white g' = G_white g \<and> (\<forall>a. live g a \<longrightarrow> live g' a)"
  using assms
proof (induction rule: rtranclp_induct)
  case (step g1 g2)
  have "gc_otherwhite g1 AND LJ_GC_WHITES \<noteq> 0" using step.IH step.prems by (simp add: gc_otherwhite_def)
  from sweep_step_keeps [OF step.hyps(2) this] show ?case using step.IH step.prems by simp
qed simp

lemma swept_white: "gc_curwhite g \<noteq> 0 \<Longrightarrow> G_white g' = gc_otherwhite g \<Longrightarrow> gc_otherwhite g' AND LJ_GC_WHITES \<noteq> 0"
  by (simp add: gc_otherwhite_def gc_curwhite_def otherwhite_bits(1))

section \<open>A small heap\<close>

definition ex_tab :: "TValue list \<Rightarrow> GCtab" where
  "ex_tab vs = \<lparr>t_marked = 1, t_again = False, t_nomm = 0, t_colo = 0, t_array = vs,
     t_node = [\<lparr>n_val = mk_tv 0 LJ_TNIL, n_key = mk_tv 0 LJ_TNIL, n_next = None\<rparr>], t_freetop = 0, t_asize = of_nat (length vs), t_hmask = 0, g_total = 0\<rparr>"

definition ex_thread :: lua_State where
  "ex_thread = \<lparr>th_base = 1, th_top = 2, th_maxstack = 4, th_stack = replicate 10 (mk_tv 0 LJ_TNIL), th_openupval = [], th_env = 2\<rparr>"

text \<open>
  The main thread, its environment, the registry, the empty string, a table that the registry refers to
  and that refers to itself, and a table that nothing refers to.
\<close>

definition ex_g :: gcG where
  "ex_g = \<lparr>
     G_heap = [1 \<mapsto> OThread 1 ex_thread, 2 \<mapsto> OTab 0 (ex_tab []), 3 \<mapsto> OTab 0 (ex_tab [mk_tv 5 LJ_TTAB]),
       4 \<mapsto> OStr \<lparr>str_marked = 1, str_reserved = 0, str_hash = 0, str_len = 0, strdata = (\<lambda>i. 0)\<rparr>,
       5 \<mapsto> OTab 0 (ex_tab [mk_tv 5 LJ_TTAB]), 6 \<mapsto> OTab 0 (ex_tab [mk_tv 2 LJ_TTAB])],
     G_total = 0, G_threshold = 0, G_white = 1, G_state = GCSpause, G_sweepstr = 0, G_root = [6, 5, 3, 2, 1], G_sweep = None,
     G_gray = [], G_grayagain = [], G_weak = [], G_mmudata = [], G_stepmul = 200, G_debt = 0, G_estimate = 0, G_pause = 200,
     G_strhash = [[]], G_strmask = 0, G_strnum = 0, G_strempty = 4, G_tmpbufsz = 0, G_mainth = 1, G_registrytv = mk_tv 3 LJ_TTAB,
     G_uvhead = [], G_gcroot = [], G_jit_L = 0, G_trace = (\<lambda>n. 0), G_freetrace = 0,
     G_cur = \<lparr>tr_traceno = 0, tr_k = [], tr_link = 0, tr_nextroot = 0, tr_nextside = 0, tr_startpt = 0, tr_nins = 0, tr_nk = 0, tr_nsnap = 0, tr_nsnapmap = 0\<rparr>,
     G_code = (\<lambda>a. 0)\<rparr>"

definition ex_env :: gcenv where "ex_env = \<lparr>ge_alloc = (\<lambda>g sz. None), ge_call = (\<lambda>g L mo a. (0, g))\<rparr>"

lemma ex_tv: "tvref (mk_tv a LJ_TTAB) = {a}" "\<not> tvisstr (mk_tv a LJ_TTAB)"
  by (simp_all add: tvref_def tvisgcv_def tvisstr_def itype_def gcrV_def tag_defs)

lemma ex_heap: "G_heap ex_g a = Some ob \<longleftrightarrow> a = 1 \<and> ob = OThread 1 ex_thread \<or> a = 2 \<and> ob = OTab 0 (ex_tab []) \<or> a = 3 \<and> ob = OTab 0 (ex_tab [mk_tv 5 LJ_TTAB]) \<or>
    a = 4 \<and> ob = OStr \<lparr>str_marked = 1, str_reserved = 0, str_hash = 0, str_len = 0, strdata = (\<lambda>i. 0)\<rparr> \<or> a = 5 \<and> ob = OTab 0 (ex_tab [mk_tv 5 LJ_TTAB]) \<or>
    a = 6 \<and> ob = OTab 0 (ex_tab [mk_tv 2 LJ_TTAB])"
  by (auto simp: ex_g_def)

lemma ex_alloc: "alloc ex_g a \<longleftrightarrow> a \<in> {1, 2, 3, 4, 5, 6}"
  by (auto simp: alloc_def ex_g_def)

lemma ex_frames: "frame_slots ex_g stack 0 = {}" "frames_end ex_g stack 0"
  using frame_slots_pos [of _ ex_g stack 0] frames_end.intros(1) [of 0 ex_g stack] by auto

lemma ex_thread_ok: "th_ok ex_g ex_thread"
  by (simp add: th_ok_def ex_thread_def LJ_STACK_EXTRA_def ex_frames)

lemma ex_kids:
  "obj_refs ex_g (OThread 1 ex_thread) = {2}" "obj_refs ex_g (OTab 0 (ex_tab [])) = {}" "obj_refs ex_g (OTab 0 (ex_tab [mk_tv a LJ_TTAB])) = {a}"
proof -
  have "stack_vals ex_thread = [mk_tv 0 LJ_TNIL]" by (simp add: stack_vals_def ex_thread_def numeral_eq_Suc)
  then show "obj_refs ex_g (OThread 1 ex_thread) = {2}" by (simp add: tvrefs_def frame_fns_def ex_thread_def ex_frames)
  show "obj_refs ex_g (OTab 0 (ex_tab [])) = {}" "obj_refs ex_g (OTab 0 (ex_tab [mk_tv a LJ_TTAB])) = {a}"
    by (simp_all add: ex_tab_def nonnull_def array_vals_def hash_nodes_def nodes_refs_def tvrefs_def ex_tv)
qed

lemma ex_tab_ok: "obj_ok ex_g (OTab 0 (ex_tab []))" "obj_ok ex_g (OTab 0 (ex_tab [mk_tv a LJ_TTAB]))"
  by (simp_all add: ex_tab_def meta_ok_def strs_ok_def tab_vals_def array_vals_def hash_nodes_def ex_tv)

lemma ex_start: "start_ok ex_g 1"
proof -
  have ok: "obj_ok ex_g ob" if "G_heap ex_g a = Some ob" for a ob
    using that ex_thread_ok ex_tab_ok unfolding ex_heap by (elim disjE conjE) simp_all
  have al: "alloc ex_g x" if x: "x \<in> kids ex_g a" for a x
  proof -
    obtain ob where ob: "G_heap ex_g a = Some ob" "x \<in> obj_refs ex_g ob" using x by (auto simp: kids_def split: option.splits)
    have "obj_refs ex_g ob \<subseteq> {2, 5}" using ob(1) unfolding ex_heap by (elim disjE conjE; simp only: ex_kids obj_refs.simps(1); blast)
    then show ?thesis using ob(2) by (auto simp: ex_alloc)
  qed
  have h: "heap_ok ex_g" using ok al by (auto simp: heap_ok_def)
  have cw: "gc_curwhite ex_g = 1" by (simp add: gc_curwhite_def ex_g_def LJ_GC_WHITES_def)
  have m: "marked_at ex_g a AND LJ_GC_COLORS = 1" if "alloc ex_g a" for a
  proof -
    have "a \<in> {1, 2, 3, 4, 5, 6}" using that by (simp only: ex_alloc)
    then have "marked_at ex_g a = 1" by (elim insertE emptyE) (simp_all add: marked_at_def ex_g_def ex_tab_def)
    then show ?thesis by (simp add: LJ_GC_COLORS_def LJ_GC_WHITES_def LJ_GC_BLACK_def)
  qed
  have uv: "uv_linked ex_g" unfolding uv_linked_def is_openuv_def by (auto split: option.splits simp: ex_heap)
  have cu: "cur_ok ex_g" by (simp add: cur_ok_def ex_g_def)
  have se: "is_str ex_g (G_strempty ex_g)" by (simp add: is_str_def ex_g_def)
  have "gc_roots ex_g 1 = {1, 3}" by (auto simp: gc_roots_def ex_g_def ex_tv trace_refs_def)
  then have rt: "\<forall>a\<in>gc_roots ex_g 1. alloc ex_g a" by (simp add: ex_alloc)
  have mm: "set (G_mmudata ex_g) = {}" by (simp add: ex_g_def)
  show ?thesis unfolding start_ok_def using h cw m uv cu se rt mm by simp
qed

section \<open>Properties\<close>

text \<open>C2:
  Let all objects be white at the start of a cycle, and let marking start. After any interleaving of steps
  of the collector, stores with their write barriers, new objects, new and closed upvalues, if the collector
  reaches the atomic phase, then that phase returns, and no object that the roots reach through strong or
  remaining weak references is dead: the sweep frees no object that the program can still use.
\<close>

theorem mark_phase_safe:
  assumes "start_ok g0 L" "(gc_mut e L)\<^sup>*\<^sup>* (gc_mark_start g0) g" "G_state g = GCSatomic" "G_jit_L g = 0"
  shows "\<exists>c g'. gc_onestep e g L = Some (Inr c, g') \<and> G_state g' = GCSsweepstring \<and> (\<forall>a\<in>reachable g' L. live g' a)"
  using atomic_step [of g L e] mark_phase_inv [OF assms(2,1)] assms(3,4) by blast

lemma ex_marked: "\<exists>g. (gc_mut ex_env 1)\<^sup>*\<^sup>* (gc_mark_start ex_g) g \<and> G_state g = GCSatomic \<and> G_jit_L g = 0"
proof -
  have i: "minv {} False False False (gc_mark_start ex_g)" using mark_start_ok(1) [OF ex_start] by (simp add: gc_inv_def)
  have "G_jit_L (gc_mark_start ex_g) = 0" using mark_start_ok(4) [OF ex_start] by (simp add: ex_g_def)
  then show ?thesis using collect_reach [OF i mark_start_ok(2) [OF ex_start], of ex_env 1] by auto
qed

theorem mark_phase_safe_witness:
  "\<exists>g c g'. (gc_mut ex_env 1)\<^sup>*\<^sup>* (gc_mark_start ex_g) g \<and> gc_onestep ex_env g 1 = Some (Inr c, g') \<and> G_state g' = GCSsweepstring \<and>
     (\<forall>a\<in>reachable g' 1. live g' a)"
proof -
  obtain g where g: "(gc_mut ex_env 1)\<^sup>*\<^sup>* (gc_mark_start ex_g) g" "G_state g = GCSatomic" "G_jit_L g = 0" using ex_marked by blast
  show ?thesis using mark_phase_safe [OF ex_start g] g(1) by blast
qed

text \<open>C11:
  Throughout the mark phase, whatever the program stores: a black object refers to no white one, but for userdata
  that wait for their finaliser; the gray list holds gray objects without repetition; threads are never
  black; and no object is dead.
\<close>

theorem tricolour:
  assumes "start_ok g0 L" "(gc_mut e L)\<^sup>*\<^sup>* (gc_mark_start g0) g"
  shows "(\<forall>a x. isblack g a \<and> a \<notin> set (G_mmudata g) \<and> x \<in> kids g a \<longrightarrow> alloc g x \<and> \<not> iswhite g x) \<and>
    distinct (G_gray g) \<and> (\<forall>a\<in>set (G_gray g). isgray g a) \<and> (\<forall>a. is_thread g a \<longrightarrow> \<not> isblack g a) \<and> (\<forall>a. \<not> isdead g a)"
proof -
  have i: "minv {} False False False g" using mark_phase_inv [OF assms(2,1)] by (simp add: gc_inv_def)
  note I = minvD [OF i]
  have "alloc g x \<and> \<not> iswhite g x" if "isblack g a \<and> a \<notin> set (G_mmudata g) \<and> x \<in> kids g a" for a x
    using that I(9) [of a] heap_okD(2) [OF I(1), of x a] by (auto simp: whites_def)
  moreover have "distinct (G_gray g) \<and> (\<forall>a\<in>set (G_gray g). isgray g a)" using I(4,6) by (auto simp: gray_lists_def)
  moreover have "\<not> isblack g a" if "is_thread g a" for a using I(8) [of a] that by auto
  ultimately show ?thesis using none_dead [OF i] by blast
qed

theorem tricolour_witness:
  "\<exists>g. G_state g = GCSatomic \<and> (\<forall>a x. isblack g a \<and> a \<notin> set (G_mmudata g) \<and> x \<in> kids g a \<longrightarrow> alloc g x \<and> \<not> iswhite g x)"
proof -
  obtain g where g: "(gc_mut ex_env 1)\<^sup>*\<^sup>* (gc_mark_start ex_g) g" "G_state g = GCSatomic" "G_jit_L g = 0" using ex_marked by blast
  show ?thesis using tricolour [OF ex_start g(1)] g(2) by blast
qed

text \<open>C12:
  The propagation ends: from any state of the mark phase the collector alone reaches the atomic phase, in at
  most one step more than there are white objects and entries of the gray list.
\<close>

theorem mark_phase_ends:
  assumes "start_ok g0 L" "(gc_mut e L)\<^sup>*\<^sup>* (gc_mark_start g0) g" "G_state g = GCSpropagate"
  shows "\<exists>n g'. (collect_step e L ^^ n) g g' \<and> n \<le> card (whites g) + length (G_gray g) + 1 \<and> G_state g' = GCSatomic"
proof -
  have i: "minv {} False False False g" using mark_phase_inv [OF assms(2,1)] by (simp add: gc_inv_def)
  show ?thesis using collect_reach [OF i assms(3), of e L] by (auto simp: gmeasure_def)
qed

theorem mark_phase_ends_witness:
  "\<exists>n g'. (collect_step ex_env 1 ^^ n) (gc_mark_start ex_g) g' \<and> G_state g' = GCSatomic"
  using mark_phase_ends [OF ex_start rtranclp.rtrancl_refl mark_start_ok(2) [OF ex_start], of ex_env] by blast

text \<open>C3:
  The sweep frees no object in use: an object that the roots reach after the atomic phase stays allocated,
  and is not dead, after any number of steps of the sweep of the string table and of the list of all objects.
\<close>

theorem sweep_safe:
  assumes "start_ok g0 L" "(gc_mut e L)\<^sup>*\<^sup>* (gc_mark_start g0) g" "G_state g = GCSatomic" "G_jit_L g = 0"
    and "gc_onestep e g L = Some (Inr c, g1)" "(sweep_step e L)\<^sup>*\<^sup>* g1 g2"
  shows "\<forall>a\<in>reachable g1 L. alloc g2 a \<and> \<not> isdead g2 a"
proof -
  have inv: "gc_inv g L \<and> marking g \<and> gc_curwhite g \<noteq> 0" by (rule mark_phase_inv [OF assms(2,1)])
  have a: "(\<forall>a\<in>reachable g1 L. live g1 a) \<and> G_white g1 = gc_otherwhite g" using atomic_step [OF _ assms(3,4), of L e] inv assms(5) by auto
  have "gc_otherwhite g1 AND LJ_GC_WHITES \<noteq> 0" using swept_white inv a by blast
  then show ?thesis using sweep_run_keeps [OF assms(6)] a by (auto simp: live_def)
qed

theorem sweep_safe_witness:
  "\<exists>g1 g2. G_state g1 = GCSsweepstring \<and> (sweep_step ex_env 1)\<^sup>*\<^sup>* g1 g2 \<and> g2 = step_sweepstring g1 \<and> (\<forall>a\<in>reachable g1 1. alloc g2 a \<and> \<not> isdead g2 a)"
proof -
  obtain g where g: "(gc_mut ex_env 1)\<^sup>*\<^sup>* (gc_mark_start ex_g) g" "G_state g = GCSatomic" "G_jit_L g = 0" using ex_marked by blast
  obtain c g1 where g1: "gc_onestep ex_env g 1 = Some (Inr c, g1)" "G_state g1 = GCSsweepstring"
    using atomic_step [OF _ g(2,3), of 1 ex_env] mark_phase_inv [OF g(1) ex_start] by blast
  have "sweep_step ex_env 1 g1 (step_sweepstring g1)" using g1(2) by (simp add: sweep_step_def collect_step_def gc_onestep_def)
  then have r: "(sweep_step ex_env 1)\<^sup>*\<^sup>* g1 (step_sweepstring g1)" by blast
  show ?thesis using sweep_safe [OF ex_start g g1(1) r] g1(2) r by blast
qed

end
