(* ===== verification/LJ_GCStrings.thy ===== *)
theory LJ_GCStrings
  imports LJ_GCProps
begin

text \<open>
  The sweep of the string table and interning. The collector sweeps one hash chain at a time, and the
  program may intern strings between two chains: a string that is found dead is made white again.
\<close>

section \<open>Sweep of a chain\<close>

definition survives :: "gcG \<Rightarrow> u32 \<Rightarrow> bool" where
  "survives g a \<longleftrightarrow> (marked_at g a XOR LJ_GC_WHITES) AND gc_otherwhite g \<noteq> 0"

definition str_sz :: "gcG \<Rightarrow> u32 \<Rightarrow> u32" where
  "str_sz g a = (case G_heap g a of Some (OStr s) \<Rightarrow> sizestring s | _ \<Rightarrow> 0)"

text \<open>The state after the sweep of a part of a chain.\<close>

definition swept_heap :: "gcG \<Rightarrow> u32 list \<Rightarrow> u32 \<Rightarrow> GCobj option" where
  "swept_heap g bs a =
     (if a \<in> set bs then
        if survives g a then map_option (\<lambda>ob. set_marked (gco_marked ob AND NOT LJ_GC_COLORS OR gc_curwhite g) ob) (G_heap g a) else None
      else G_heap g a)"

definition swept_part :: "gcG \<Rightarrow> nat \<Rightarrow> u32 list \<Rightarrow> u32 list \<Rightarrow> u32 list \<Rightarrow> gcG" where
  "swept_part g i as bs cs =
     g\<lparr>G_heap := swept_heap g bs, G_strhash := (G_strhash g)[i := as @ filter (survives g) bs @ cs],
       G_strnum := G_strnum g - of_nat (length (filter (\<lambda>a. \<not> survives g a) bs)),
       G_total := G_total g - sum_list (map (str_sz g) (filter (\<lambda>a. \<not> survives g a) bs))\<rparr>"

definition link_at :: "u32 list \<Rightarrow> u32 option" where "link_at as = (if as = [] then None else Some (last as))"

lemma link_simps [simp]: "link_at [] = None" "link_at (as @ [a]) = Some a" by (simp_all add: link_at_def)

lemma from_link_at: "distinct (as @ bs) \<Longrightarrow> from_link (link_at as) (as @ bs) = bs"
proof (cases as rule: rev_cases)
  case (snoc xs x)
  assume "distinct (as @ bs)"
  then show ?thesis using snoc by (auto simp: from_link_def dropWhile_append)
qed (simp add: from_link_def)

lemma part_cong:
  assumes "\<And>a. a \<in> set xs \<Longrightarrow> G_heap g' a = G_heap g a" "G_white g' = G_white g"
  shows "filter (survives g') xs = filter (survives g) xs" "filter (\<lambda>a. \<not> survives g' a) xs = filter (\<lambda>a. \<not> survives g a) xs"
    "map (str_sz g') (filter (\<lambda>a. \<not> survives g a) xs) = map (str_sz g) (filter (\<lambda>a. \<not> survives g a) xs)"
proof -
  have s: "survives g' a = survives g a" "str_sz g' a = str_sz g a" if "a \<in> set xs" for a
    using assms(1) [OF that] by (simp_all add: survives_def str_sz_def marked_at_def gc_otherwhite_def assms(2))
  show "filter (survives g') xs = filter (survives g) xs" "filter (\<lambda>a. \<not> survives g' a) xs = filter (\<lambda>a. \<not> survives g a) xs"
    by (simp_all add: s cong: filter_cong)
  show "map (str_sz g') (filter (\<lambda>a. \<not> survives g a) xs) = map (str_sz g) (filter (\<lambda>a. \<not> survives g a) xs)"
    by (simp add: s)
qed

lemma sweep_strs:
  assumes "i < length (G_strhash g)" "G_strhash g ! i = as @ bs" "distinct (as @ bs)" "\<forall>a\<in>set bs. is_str g a"
  shows "snd (sweep_with su (LStr i) (gc_otherwhite g) (link_at as) lim g) = swept_part g i as (take lim bs) (drop lim bs)"
  using assms
proof (induction lim arbitrary: g as bs)
  case 0
  have "(G_strhash g)[i := as @ bs] = G_strhash g" using 0(2) by (metis list_update_id)
  then show ?case by (simp add: swept_part_def swept_heap_def [abs_def])
next
  case (Suc lim)
  have l: "list_of (LStr i) g = as @ bs" using Suc.prems(2) by (simp add: list_of_def)
  show ?case
  proof (cases bs)
    case Nil
    have "(G_strhash g)[i := as] = G_strhash g" using Suc.prems(2) Nil by (metis append_Nil2 list_update_id)
    then show ?thesis using l from_link_at [OF Suc.prems(3)] Nil by (simp add: swept_part_def swept_heap_def [abs_def])
  next
    case (Cons b cs)
    obtain s where s: "G_heap g b = Some (OStr s)" using Suc.prems(4) Cons by (auto simp: is_str_def split: option.splits GCobj.splits)
    have f: "from_link (link_at as) (as @ bs) = b # cs" using from_link_at [OF Suc.prems(3)] Cons by simp
    have th: "\<not> is_thread g b" using s by (simp add: is_thread_def)
    have b: "b \<notin> set cs" "b \<notin> set as" using Suc.prems(3) Cons by auto
    show ?thesis
    proof (cases "survives g b")
      case True
      define g1 where "g1 = makewhite g b"
      have g1: "G_strhash g1 = G_strhash g" "gc_otherwhite g1 = gc_otherwhite g" "G_white g1 = G_white g" "G_strnum g1 = G_strnum g" "G_total g1 = G_total g"
        "G_heap g1 = (G_heap g)(b := swept_heap g [b] b)"
        using s True by (auto simp: g1_def makewhite_def upd_marked_def set_obj_def gc_otherwhite_def swept_heap_def fun_eq_iff)
      have st: "\<forall>a\<in>set cs. is_str g1 a" using Suc.prems(4) Cons b by (auto simp: is_str_def g1(6))
      have "snd (sweep_with su (LStr i) (gc_otherwhite g) (link_at as) (Suc lim) g) = snd (sweep_with su (LStr i) (gc_otherwhite g1) (link_at (as @ [b])) lim g1)"
        using True l f th by (simp add: survives_def g1(2) g1_def [symmetric])
      also have "\<dots> = swept_part g1 i (as @ [b]) (take lim cs) (drop lim cs)"
        by (rule Suc.IH) (use Suc.prems Cons st g1(1) in auto)
      also have "\<dots> = swept_part g i as (take (Suc lim) bs) (drop (Suc lim) bs)"
      proof -
        have e: "G_heap g1 a = G_heap g a" if "a \<in> set (take lim cs)" for a using that b(1) by (auto simp: g1 dest: in_set_takeD)
        note f = part_cong [OF e g1(3)]
        have h: "swept_heap g1 (take lim cs) = swept_heap g (take (Suc lim) bs)"
          using b(1) Cons by (auto simp: fun_eq_iff swept_heap_def g1(6) gc_curwhite_def g1(3) survives_def marked_at_def gc_otherwhite_def dest: in_set_takeD)
        have r: "g1 = g\<lparr>G_heap := G_heap g1\<rparr>" unfolding g1_def makewhite_def by (rule upd_marked_rest)
        show ?thesis using True Cons by (simp add: swept_part_def f h g1(1,4,5)) (subst r, simp)
      qed
      finally show ?thesis .
    next
      case False
      define g1 where "g1 = gc_free b (unlink (LStr i) b g)"
      have u: "remove1 b (as @ bs) = as @ cs" using Cons b by (simp add: remove1_append)
      have g1: "g1 = g\<lparr>G_heap := (G_heap g)(b := None), G_strhash := (G_strhash g)[i := as @ cs], G_strnum := G_strnum g - 1, G_total := G_total g - sizestring s\<rparr>"
        using s Suc.prems(2) u by (simp add: g1_def gc_free_def unlink_def drop_obj_def gc_memfree_def)
      have st: "\<forall>a\<in>set cs. is_str g1 a" using Suc.prems(4) Cons b by (auto simp: is_str_def g1)
      have ow: "gc_otherwhite g1 = gc_otherwhite g" by (simp add: gc_otherwhite_def g1)
      have "snd (sweep_with su (LStr i) (gc_otherwhite g) (link_at as) (Suc lim) g) = snd (sweep_with su (LStr i) (gc_otherwhite g1) (link_at as) lim g1)"
        using False l f th by (simp add: survives_def ow g1_def [symmetric])
      also have "\<dots> = swept_part g1 i as (take lim cs) (drop lim cs)"
        by (rule Suc.IH) (use Suc.prems Cons st in \<open>auto simp: g1\<close>)
      also have "\<dots> = swept_part g i as (take (Suc lim) bs) (drop (Suc lim) bs)"
      proof -
        have e: "G_heap g1 a = G_heap g a" if "a \<in> set (take lim cs)" for a using that b(1) by (auto simp: g1 dest: in_set_takeD)
        have w: "G_white g1 = G_white g" by (simp add: g1)
        note f = part_cong [OF e w]
        have h: "swept_heap g1 (take lim cs) = swept_heap g (take (Suc lim) bs)"
          using b(1) Cons False by (auto simp: fun_eq_iff swept_heap_def g1 gc_curwhite_def survives_def marked_at_def gc_otherwhite_def dest: in_set_takeD)
        have zs: "str_sz g b = sizestring s" using s by (simp add: str_sz_def)
        show ?thesis using False Cons by (simp add: swept_part_def f h zs) (simp add: g1 algebra_simps)
      qed
      finally show ?thesis .
    qed
  qed
qed

section \<open>The string table under the sweep\<close>

text \<open>
  A table that loses strings of one chain and keeps the others, up to their colours, satisfies the invariant
  of interning.
\<close>

definition recoloured :: "(u32 \<Rightarrow> GCstr option) \<Rightarrow> (u32 \<Rightarrow> GCstr option) \<Rightarrow> u32 \<Rightarrow> bool" where
  "recoloured h h' p \<longleftrightarrow> (\<exists>s m. h p = Some s \<and> h' p = Some (s\<lparr>str_marked := m\<rparr>))"

lemma mset_concat_update: "i < length tab \<Longrightarrow> mset (concat (tab[i := xs])) + mset (tab ! i) = mset (concat tab) + mset xs"
  by (induction tab arbitrary: i) (auto split: nat.split simp: ac_simps)

lemma str_ok_sub:
  assumes ok: "str_ok g" and i: "i < length (strhash g)" and sub: "mset xs \<subseteq># mset (strhash g ! i)"
    and tab: "strhash g' = (strhash g)[i := xs]" "strmask g' = strmask g" "strempty g' = strempty g"
    and num: "strnum g' = strnum g - of_nat (length (strhash g ! i) - length xs)"
    and rc: "\<forall>p\<in>interned g'. recoloured (gheap g) (gheap g') p" "recoloured (gheap g) (gheap g') (strempty g)"
  shows "str_ok g'" "interned g' \<subseteq> interned g" "\<And>p. p \<in> interned g' \<or> p = strempty g \<Longrightarrow> content g' p = content g p"
proof -
  let ?c = "concat (strhash g)" and ?c' = "concat (strhash g')"
  note m = mset_concat_update [OF i, of xs, folded tab(1)]
  obtain ys where ys: "mset (strhash g ! i) = mset xs + ys" using sub by (auto simp: subset_mset.le_iff_add)
  have m': "mset ?c = mset ?c' + ys" using m ys by (simp add: ac_simps)
  then have le: "mset ?c' \<subseteq># mset ?c" by simp
  show int: "interned g' \<subseteq> interned g" using set_mset_mono [OF le] by (simp add: interned_def)
  have same: "map_option str_bytes (gheap g' p) = map_option str_bytes (gheap g p)" "map_option str_hash (gheap g' p) = map_option str_hash (gheap g p)"
      "map_option str_len (gheap g' p) = map_option str_len (gheap g p)" "map_option str_good (gheap g' p) = map_option str_good (gheap g p)"
    if "p \<in> interned g' \<or> p = strempty g" for p
    using that rc by (auto simp: recoloured_def str_bytes_def str_good_def)
  show cont: "content g' p = content g p" if "p \<in> interned g' \<or> p = strempty g" for p
    using same(1) [OF that] int that by (auto simp: content_def tab(3))
  obtain zs where "ys = mset zs" using ex_mset by metis
  then have "distinct (?c' @ zs)" using ok m' mset_eq_imp_distinct_iff [of ?c "?c' @ zs"] by (simp add: str_ok_def)
  then have "distinct ?c'" by (simp only: distinct_append)
  moreover have "length ?c = length ?c' + size ys" using m' by (metis size_mset size_union)
  then have "strnum g' = of_nat (length ?c')"
  proof -
    have "length (strhash g ! i) - length xs = size ys" using ys by (metis add_diff_cancel_left' size_mset size_union)
    then show ?thesis using ok num \<open>length ?c = _\<close> by (simp add: str_ok_def)
  qed
  moreover have "bucket_ok (gheap g') (strmask g') (strhash g')"
  proof -
    have "case gheap g' p of None \<Rightarrow> False | Some s \<Rightarrow> unat (str_hash s AND strmask g') = j" if j: "j < length (strhash g')" "p \<in> set (strhash g' ! j)" for j p
    proof -
      have p: "p \<in> set (strhash g ! j)"
        using j set_mset_mono [OF sub] i by (cases "j = i") (auto simp: tab(1))
      have "p \<in> interned g'" using j by (auto simp: interned_def intro: nth_mem)
      then have h: "map_option str_hash (gheap g' p) = map_option str_hash (gheap g p)" using same(2) by blast
      have "case gheap g p of None \<Rightarrow> False | Some s \<Rightarrow> unat (str_hash s AND strmask g) = j"
        using ok p j by (auto simp: str_ok_def bucket_ok_def tab(1))
      then show ?thesis using h tab(2) by (auto split: option.splits)
    qed
    then show ?thesis by (simp add: bucket_ok_def)
  qed
  moreover have "\<forall>p\<in>interned g'. case gheap g' p of None \<Rightarrow> False | Some s \<Rightarrow> str_good s"
  proof
    fix p assume p: "p \<in> interned g'"
    then have "case gheap g p of None \<Rightarrow> False | Some s \<Rightarrow> str_good s" using ok int by (auto simp: str_ok_def)
    then show "case gheap g' p of None \<Rightarrow> False | Some s \<Rightarrow> str_good s" using same(4) [of p] p by (auto split: option.splits)
  qed
  moreover have "inj_on (\<lambda>p. map_option str_bytes (gheap g' p)) (interned g')"
  proof -
    have "inj_on (\<lambda>p. map_option str_bytes (gheap g p)) (interned g')" using ok int by (auto simp: str_ok_def intro: inj_on_subset)
    then show ?thesis using same(1) by (simp cong: inj_on_cong)
  qed
  moreover have "case gheap g' (strempty g') of None \<Rightarrow> False | Some s \<Rightarrow> str_len s = 0"
    using ok same(3) [of "strempty g"] by (auto simp: str_ok_def tab(3) split: option.splits)
  moreover have "strempty g' \<notin> interned g'" using ok int by (auto simp: str_ok_def tab(3))
  ultimately show "str_ok g'" using ok by (simp add: str_ok_def tab)
qed

section \<open>A step of the sweep\<close>

definition swept_step :: "gcG \<Rightarrow> gcG" where
  "swept_step g =
     (let i = unat (G_sweepstr g); xs = G_strhash g ! i
      in swept_part g i [] (take LJ_MAX_MEM xs) (drop LJ_MAX_MEM xs))"

lemma chain_unique:
  assumes "str_ok g" "i < length (strhash g)" "j < length (strhash g)" "p \<in> set (strhash g ! i)" "p \<in> set (strhash g ! j)"
  shows "i = j"
proof -
  have b: "case gheap g p of None \<Rightarrow> False | Some s \<Rightarrow> unat (str_hash s AND strmask g) = k" if "k < length (strhash g)" "p \<in> set (strhash g ! k)" for k
    using assms(1) that by (simp add: str_ok_def bucket_ok_def)
  show ?thesis using b [OF assms(2,4)] b [OF assms(3,5)] by (auto split: option.splits)
qed

lemma chain_interned: "i < length (strhash g) \<Longrightarrow> p \<in> set (strhash g ! i) \<Longrightarrow> p \<in> interned g"
  by (auto simp: interned_def intro: nth_mem)

lemma chain_distinct: "str_ok g \<Longrightarrow> i < length (strhash g) \<Longrightarrow> distinct (strhash g ! i)"
  by (auto simp: str_ok_def distinct_concat_iff)

lemma view_sel [simp]:
  "strhash (str_view g) = G_strhash g" "strmask (str_view g) = G_strmask g" "strnum (str_view g) = G_strnum g" "gc_total (str_view g) = G_total g"
  "gc_state (str_view g) = G_state g" "gc_currentwhite (str_view g) = G_white g" "strempty (str_view g) = G_strempty g"
  "gheap (str_view g) a = Some s \<longleftrightarrow> G_heap g a = Some (OStr s)"
  by (auto simp: str_view_def split: option.splits GCobj.splits)

lemma interned_str: "str_ok (str_view g) \<Longrightarrow> a \<in> interned (str_view g) \<Longrightarrow> \<exists>s. G_heap g a = Some (OStr s)"
  by (elim str_ok_live) auto

lemma step_strings:
  assumes ok: "str_ok (str_view g)" and i: "G_sweepstr g \<le> G_strmask g"
  shows "G_heap (step_sweepstring g) = G_heap (swept_step g)" "G_strhash (step_sweepstring g) = G_strhash (swept_step g)"
    "G_strnum (step_sweepstring g) = G_strnum (swept_step g)" "G_total (step_sweepstring g) = G_total (swept_step g)"
    "G_white (step_sweepstring g) = G_white g" "G_strmask (step_sweepstring g) = G_strmask g" "G_strempty (step_sweepstring g) = G_strempty g"
    "G_sweepstr (step_sweepstring g) = G_sweepstr g + 1"
    "G_state (step_sweepstring g) = (if G_strmask g < G_sweepstr g + 1 then GCSsweep else G_state g)"
proof -
  let ?i = "unat (G_sweepstr g)" and ?xs = "G_strhash g ! unat (G_sweepstr g)"
  define g1 where "g1 = g\<lparr>G_sweepstr := G_sweepstr g + 1\<rparr>"
  have l: "?i < length (strhash (str_view g))" using ok i by (simp add: str_ok_def word_le_nat_alt)
  have st: "\<forall>a\<in>set ?xs. is_str g1 a"
    using interned_str [OF ok] chain_interned [OF l] by (fastforce simp: is_str_def g1_def)
  have "gc_fullsweep g1 (LStr ?i) = snd (sweep_with sweep_uv (LStr ?i) (gc_otherwhite g1) (link_at []) LJ_MAX_MEM g1)"
    by (simp add: gc_fullsweep_def gc_sweep_def)
  also have "\<dots> = swept_part g1 ?i [] (take LJ_MAX_MEM ?xs) (drop LJ_MAX_MEM ?xs)"
    by (rule sweep_strs) (use l chain_distinct [OF ok l] st in \<open>simp_all add: g1_def\<close>)
  also have "\<dots> = (swept_step g)\<lparr>G_sweepstr := G_sweepstr g + 1\<rparr>"
  proof -
    have "survives g1 = survives g" "str_sz g1 = str_sz g" "swept_heap g1 bs = swept_heap g bs" for bs
      by (simp_all add: fun_eq_iff survives_def str_sz_def swept_heap_def marked_at_def gc_otherwhite_def gc_curwhite_def g1_def)
    then show ?thesis by (simp add: swept_step_def swept_part_def Let_def) (simp add: g1_def)
  qed
  finally have e: "gc_fullsweep g1 (LStr ?i) = (swept_step g)\<lparr>G_sweepstr := G_sweepstr g + 1\<rparr>" .
  have o: "G_white (swept_step g) = G_white g" "G_strmask (swept_step g) = G_strmask g" "G_strempty (swept_step g) = G_strempty g" "G_state (swept_step g) = G_state g"
    by (simp_all add: swept_step_def swept_part_def Let_def)
  show "G_heap (step_sweepstring g) = G_heap (swept_step g)" "G_strhash (step_sweepstring g) = G_strhash (swept_step g)"
    "G_strnum (step_sweepstring g) = G_strnum (swept_step g)" "G_total (step_sweepstring g) = G_total (swept_step g)"
    "G_white (step_sweepstring g) = G_white g" "G_strmask (step_sweepstring g) = G_strmask g" "G_strempty (step_sweepstring g) = G_strempty g"
    "G_sweepstr (step_sweepstring g) = G_sweepstr g + 1"
    "G_state (step_sweepstring g) = (if G_strmask g < G_sweepstr g + 1 then GCSsweep else G_state g)"
    by (simp_all add: step_sweepstring_def Let_def e [unfolded g1_def] o)
qed

lemma step_view:
  assumes ok: "str_ok (str_view g)" and i: "G_sweepstr g \<le> G_strmask g"
  defines "xs \<equiv> take LJ_MAX_MEM (G_strhash g ! unat (G_sweepstr g))"
  shows "str_ok (str_view (step_sweepstring g))"
    "interned (str_view (step_sweepstring g)) = interned (str_view g) - {a \<in> set xs. \<not> survives g a}"
    "\<And>a. a \<in> interned (str_view (step_sweepstring g)) \<or> a = G_strempty g \<Longrightarrow> content (str_view (step_sweepstring g)) a = content (str_view g) a"
proof -
  let ?i = "unat (G_sweepstr g)" and ?g' = "step_sweepstring g"
  define chain where "chain = G_strhash g ! ?i"
  define cs where "cs = drop LJ_MAX_MEM chain"
  note s = step_strings [OF ok i]
  have l: "?i < length (strhash (str_view g))" using ok i by (simp add: str_ok_def word_le_nat_alt)
  have split: "chain = xs @ cs" by (simp add: xs_def cs_def chain_def)
  have d: "distinct (xs @ cs)" using chain_distinct [OF ok l] split by (simp add: chain_def)
  have h: "G_strhash ?g' = (G_strhash g)[?i := filter (survives g) xs @ cs]" "G_heap ?g' = swept_heap g xs"
      "G_strnum ?g' = G_strnum g - of_nat (length (filter (\<lambda>a. \<not> survives g a) xs))"
    by (simp_all add: s swept_step_def swept_part_def Let_def xs_def cs_def chain_def)
  have gone: "a \<notin> interned (str_view ?g')" if a: "a \<in> set xs" "\<not> survives g a" for a
  proof
    assume "a \<in> interned (str_view ?g')"
    then obtain j where j: "j < length (G_strhash g)" "a \<in> set (((G_strhash g)[?i := filter (survives g) xs @ cs]) ! j)"
      by (auto simp: interned_def h(1) in_set_conv_nth [of _ "list_update _ _ _"])
    have "j \<noteq> ?i" using a d j l by auto
    then have "a \<in> set (G_strhash g ! j)" using j by simp
    moreover have "a \<in> set (G_strhash g ! ?i)" using a split by (simp add: chain_def)
    ultimately show False using chain_unique [OF ok, of ?i j a] j(1) l \<open>j \<noteq> ?i\<close> by simp
  qed
  have sub: "mset (filter (survives g) xs @ cs) \<subseteq># mset (strhash (str_view g) ! ?i)"
    using split by (simp add: chain_def multiset_filter_subset)
  have int: "interned (str_view ?g') \<subseteq> interned (str_view g)"
  proof -
    have "set (concat ((G_strhash g)[?i := filter (survives g) xs @ cs])) \<subseteq> set (concat (G_strhash g))"
    proof -
      have "\<Union> (set ` set ((G_strhash g)[?i := filter (survives g) xs @ cs])) \<subseteq> \<Union> (set ` insert (filter (survives g) xs @ cs) (set (G_strhash g)))"
        using set_update_subset_insert by (metis Union_mono image_mono)
      moreover have "set (filter (survives g) xs @ cs) \<subseteq> set (G_strhash g ! ?i)" using split by (auto simp: chain_def)
      moreover have "G_strhash g ! ?i \<in> set (G_strhash g)" using l by simp
      ultimately show ?thesis by auto
    qed
    then show ?thesis by (simp add: interned_def h(1))
  qed
  have rc: "recoloured (gheap (str_view g)) (gheap (str_view ?g')) a" if a: "a \<in> interned (str_view ?g') \<or> a = G_strempty g" for a
  proof -
    have "\<exists>st. G_heap g (G_strempty g) = Some (OStr st)" using ok by (auto simp: str_ok_def split: option.splits)
    then obtain st where st: "G_heap g a = Some (OStr st)" using a int interned_str [OF ok] by blast
    have "a \<in> set xs \<Longrightarrow> survives g a"
      using a gone ok chain_interned [OF l, of a] split by (auto simp: str_ok_def chain_def)
    then have "\<exists>m. G_heap ?g' a = Some (OStr (st\<lparr>str_marked := m\<rparr>))"
    proof (cases "a \<in> set xs")
      case True
      then show ?thesis using st \<open>a \<in> set xs \<Longrightarrow> survives g a\<close> by (simp add: h(2) swept_heap_def) blast
    next
      case False
      then show ?thesis using st by (intro exI [of _ "str_marked st"]) (simp add: h(2) swept_heap_def)
    qed
    then show ?thesis using st by (auto simp: recoloured_def)
  qed
  have num: "strnum (str_view ?g') = strnum (str_view g) - of_nat (length (strhash (str_view g) ! ?i) - length (filter (survives g) xs @ cs))"
  proof -
    have "length (strhash (str_view g) ! ?i) - length (filter (survives g) xs @ cs) = length (filter (\<lambda>a. \<not> survives g a) xs)"
      using split sum_length_filter_compl [of "survives g" xs] by (simp add: chain_def)
    then show ?thesis by (simp only: view_sel h(3))
  qed
  note R = str_ok_sub [OF ok l sub, of "str_view ?g'"]
  have v: "strhash (str_view ?g') = (strhash (str_view g))[?i := filter (survives g) xs @ cs]" "strmask (str_view ?g') = strmask (str_view g)" "strempty (str_view ?g') = strempty (str_view g)"
    by (simp_all add: h(1) s(6,7))
  have r: "\<forall>p\<in>interned (str_view ?g'). recoloured (gheap (str_view g)) (gheap (str_view ?g')) p" "recoloured (gheap (str_view g)) (gheap (str_view ?g')) (strempty (str_view g))"
    using rc by simp_all
  show "str_ok (str_view ?g')" by (rule R(1) [OF v num r])
  show "content (str_view ?g') a = content (str_view g) a" if "a \<in> interned (str_view ?g') \<or> a = G_strempty g" for a
    by (rule R(3) [OF v num r]) (use that in simp)
  show "interned (str_view ?g') = interned (str_view g) - {a \<in> set xs. \<not> survives g a}"
  proof
    show "interned (str_view ?g') \<subseteq> interned (str_view g) - {a \<in> set xs. \<not> survives g a}" using int gone by auto
    show "interned (str_view g) - {a \<in> set xs. \<not> survives g a} \<subseteq> interned (str_view ?g')"
    proof
      fix a assume a: "a \<in> interned (str_view g) - {a \<in> set xs. \<not> survives g a}"
      then obtain j where j: "j < length (G_strhash g)" "a \<in> set (G_strhash g ! j)" by (auto simp: interned_def in_set_conv_nth [of _ "G_strhash g"])
      then have "a \<in> set (G_strhash ?g' ! j)" using a split l by (cases "j = ?i") (auto simp: h(1) chain_def)
      then show "a \<in> interned (str_view ?g')" using j(1) chain_interned [of j "str_view ?g'" a] by (simp add: h(1))
    qed
  qed
qed

section \<open>Interning between two steps of the sweep\<close>

text \<open>The strings that are not dead, and that the sweep therefore keeps.\<close>

definition lview :: "gstate \<Rightarrow> u32 \<Rightarrow> bytes option" where
  "lview g a = (case gheap g a of None \<Rightarrow> None | Some s \<Rightarrow> if str_isdead g s then None else content g a)"

definition whites_ok :: "gstate \<Rightarrow> bool" where
  "whites_ok g \<longleftrightarrow> curwhite g \<noteq> 0 \<and> otherwhite g AND LJ_GC_WHITES \<noteq> 0"

lemma str_find_Some: "str_find h fast str len ps = Some p \<Longrightarrow> \<exists>s. h p = Some s"
  by (induction ps) (auto split: option.splits if_splits)

lemma resize_frame:
  assumes "lj_str_resize al g m = (r, g')"
  shows "gheap g' = gheap g \<and> gc_state g' = gc_state g \<and> gc_currentwhite g' = gc_currentwhite g \<and> strempty g' = strempty g \<and>
    (gc_state g = GCSsweepstring \<longrightarrow> g' = g)"
  using assms by (auto simp: lj_str_resize_def lj_mem_new_def lj_mem_free_def Let_def split: if_splits option.splits)

lemma new_frame:
  assumes "lj_str_new al g mem strp lenx = (r, g')"
  shows "gc_state g' = gc_state g \<and> gc_currentwhite g' = gc_currentwhite g \<and> strempty g' = strempty g \<and> (gc_state g = GCSsweepstring \<longrightarrow> strmask g' = strmask g)"
  using assms by (auto simp: lj_str_new_def lj_mem_new_def Let_def dest!: resize_frame split: if_splits option.splits prod.splits sum.splits)

lemma white_bit: "m AND b \<noteq> 0 \<Longrightarrow> b = 1 \<or> b = 2 \<Longrightarrow> (m XOR LJ_GC_WHITES) AND b = 0" for m b :: u8
proof -
  assume m: "m AND b \<noteq> 0" and b: "b = 1 \<or> b = 2"
  define n :: nat where "n = (if b = 1 then 0 else 1)"
  have bn: "b = push_bit n 1" "n < 2" using b by (auto simp: n_def)
  have t: "bit m n"
  proof (rule ccontr)
    assume "\<not> bit m n"
    then have "m AND b = 0" unfolding bn(1) by (intro bit_word_eqI) (auto simp: bit_simps)
    then show False using m by simp
  qed
  have w: "bit LJ_GC_WHITES n" using bn(2) by (simp add: n_def LJ_GC_WHITES_def)
  show ?thesis unfolding bn(1) by (rule bit_word_eqI) (use t w in \<open>auto simp: bit_simps\<close>)
qed

lemma whites_single: "whites_ok g \<Longrightarrow> otherwhite g AND LJ_GC_WHITES = 1 \<or> otherwhite g AND LJ_GC_WHITES = 2"
proof -
  assume "whites_ok g"
  moreover define x where "x = gc_currentwhite g AND LJ_GC_WHITES"
  moreover have "otherwhite g AND LJ_GC_WHITES = x XOR LJ_GC_WHITES"
    by (rule bit_word_eqI) (auto simp: x_def otherwhite_def bit_simps)
  ultimately have n: "x \<noteq> 0" "x XOR LJ_GC_WHITES \<noteq> 0" and e: "otherwhite g AND LJ_GC_WHITES = x XOR LJ_GC_WHITES"
    by (simp_all add: whites_ok_def curwhite_def)
  have "x \<le> 3" using word_and_le1 [of "gc_currentwhite g" LJ_GC_WHITES] by (simp add: x_def LJ_GC_WHITES_def)
  then have "x = 0 \<or> x = 1 \<or> x = 2 \<or> x = 3" by (auto simp: word_less_nat_alt unat_arith_simps)
  then show ?thesis using n e by (auto simp: LJ_GC_WHITES_def)
qed

lemma new_cases:
  assumes n: "lj_str_new al g mem strp lenx = (r, g')" and al: "alloc_fresh al"
  obtains (same) "gheap g' = gheap g" "\<forall>q. r = Inr q \<longrightarrow> q = strempty g"
  | (found) p s where "gheap g p = Some s" "r = Inr p" "gheap g' = (if str_isdead g s then (gheap g)(p \<mapsto> flipwhite s) else gheap g)"
  | (new) p str len h where "gheap g p = None" "gheap g' = (gheap g)(p \<mapsto> new_str g str len h)" "\<forall>q. r = Inr q \<longrightarrow> q = p"
proof -
  define len :: u32 where "len = ucast lenx"
  define str where "str = (\<lambda>i. mem (strp + i))"
  define h where "h = lj_str_hash str len"
  define fast where "fast \<longleftrightarrow> (strp + unat len - 1) mod LJ_PAGESIZE \<le> LJ_PAGESIZE - 4"
  note d = n [unfolded lj_str_new_def Let_def, folded len_def, folded str_def, folded h_def, folded fast_def]
  show thesis
  proof (cases "LJ_MAX_STR \<le> lenx \<or> len = 0")
    case True
    then show thesis using d same by (auto split: if_splits)
  next
    case False
    show thesis
    proof (cases "str_find (gheap g) fast str len (strhash g ! unat (h AND strmask g))")
      case (Some p)
      obtain s where s: "gheap g p = Some s" using str_find_Some [OF Some] by blast
      have "r = Inr p" "gheap g' = (if str_isdead g s then (gheap g)(p \<mapsto> flipwhite s) else gheap g)" using d False Some s by auto
      then show thesis using found s by blast
    next
      case None
      show thesis
      proof (cases "al g (sizeof_GCstr + len + 1)")
        case None
        then show thesis using d False \<open>str_find _ _ _ _ _ = None\<close> same by (auto simp: lj_mem_new_def)
      next
        case (Some p)
        have f: "gheap g p = None" using al Some by (auto simp: alloc_fresh_def)
        define g0 where "g0 = g\<lparr>gc_total := gc_total g - 0 + (sizeof_GCstr + len + 1)\<rparr>"
        define g1 where "g1 = g0\<lparr>gheap := (gheap g0)(p \<mapsto> new_str g0 str len h), strhash := (strhash g0)[unat (h AND strmask g0) := p # strhash g0 ! unat (h AND strmask g0)],
            strnum := strnum g0 + 1\<rparr>"
        have c: "new_str g0 str len h = new_str g str len h" by (simp add: new_str_def g0_def curwhite_def)
        have h1: "gheap g1 = (gheap g)(p \<mapsto> new_str g str len h)" by (simp add: g1_def c) (simp add: g0_def)
        have lm: "lj_mem_new al g (sizeof_GCstr + len + 1) = (Inr p, g0)" by (simp add: lj_mem_new_def Some g0_def)
        have e: "(if strmask g0 < strnum g0 then case lj_str_resize al g1 (push_bit 1 (strmask g0) + 1) of (Inl e, g) \<Rightarrow> (Inl e, g) | (Inr u, g) \<Rightarrow> (Inr p, g) else (Inr p, g1)) = (r, g')"
          using d False None lm by (cases "strmask g0 < strnum g0") (simp_all add: g1_def)
        have "gheap g' = gheap g1 \<and> (\<forall>q. r = Inr q \<longrightarrow> q = p)"
          using e by (auto dest!: resize_frame split: if_splits prod.splits sum.splits)
        then show thesis using new f h1 by metis
      qed
    qed
  qed
qed

lemma new_live:
  assumes n: "lj_str_new al g mem strp lenx = (r, g')" and al: "alloc_fresh al" and w: "whites_ok g"
  shows "gheap g p = Some s \<Longrightarrow> \<not> str_isdead g s \<Longrightarrow> \<exists>s'. gheap g' p = Some s' \<and> \<not> str_isdead g' s'"
    "r = Inr q \<Longrightarrow> q \<noteq> strempty g \<Longrightarrow> \<exists>s'. gheap g' q = Some s' \<and> \<not> str_isdead g' s'"
proof -
  have d: "str_isdead g' s = str_isdead g s" for s using new_frame [OF n] by (simp add: str_isdead_def otherwhite_def)
  have fl: "\<not> str_isdead g (flipwhite s)" if "str_isdead g s" for s
  proof -
    have "(str_marked s XOR LJ_GC_WHITES) AND (otherwhite g AND LJ_GC_WHITES) = 0"
      by (rule white_bit) (use that whites_single [OF w] in \<open>simp_all add: str_isdead_def and.assoc\<close>)
    then show ?thesis by (simp add: str_isdead_def flipwhite_def and.assoc)
  qed
  have nw: "\<not> str_isdead g (new_str g str len h)" for str len h
  proof -
    have "curwhite g AND (otherwhite g AND LJ_GC_WHITES) = 0"
      by (rule bit_word_eqI) (auto simp: curwhite_def otherwhite_def bit_simps)
    then show ?thesis by (simp add: str_isdead_def new_str_def and.assoc)
  qed
  show "\<exists>s'. gheap g' p = Some s' \<and> \<not> str_isdead g' s'" if "gheap g p = Some s" "\<not> str_isdead g s"
    by (cases rule: new_cases [OF n al]) (use that fl nw d in auto)
  show "\<exists>s'. gheap g' q = Some s' \<and> \<not> str_isdead g' s'" if "r = Inr q" "q \<noteq> strempty g"
    by (cases rule: new_cases [OF n al]) (use that fl nw d in auto)
qed

lemma new_lview:
  assumes ok: "str_ok g" and n: "lj_str_new al g mem strp lenx = (r, g')" and al: "alloc_fresh al" and w: "whites_ok g"
    and e: "lview g (strempty g) \<noteq> None"
  shows "str_ok g'" "lview g p = Some b \<Longrightarrow> lview g' p = Some b"
    "r = Inr q \<Longrightarrow> lview g' q = Some (mem_bytes (\<lambda>i. mem (strp + i)) (unat lenx))"
proof -
  have P: "str_ok g'" "\<And>p b. content g p = Some b \<Longrightarrow> content g' p = Some b" "r = Inr q \<Longrightarrow> content g' q = Some (mem_bytes (\<lambda>i. mem (strp + i)) (unat lenx))" for q
    using lj_str_new_post [OF ok al, of mem strp lenx] by (auto simp: n str_new_post_def)
  show "str_ok g'" by (rule P)
  have lv: "lview g' p = Some b" if "lview g p = Some b" for p b
    using that new_live(1) [OF n al w, of p] P(2) by (auto simp: lview_def split: option.splits if_splits)
  then show "lview g p = Some b \<Longrightarrow> lview g' p = Some b" .
  show "lview g' q = Some (mem_bytes (\<lambda>i. mem (strp + i)) (unat lenx))" if q: "r = Inr q"
  proof -
    have "\<exists>s'. gheap g' q = Some s' \<and> \<not> str_isdead g' s'"
    proof (cases "q = strempty g")
      case True
      then obtain s where "gheap g q = Some s" "\<not> str_isdead g s" using e by (auto simp: lview_def split: option.splits if_splits)
      then show ?thesis by (rule new_live(1) [OF n al w])
    qed (rule new_live(2) [OF n al w q])
    then show ?thesis using P(3) [OF q] by (auto simp: lview_def)
  qed
qed

text \<open>A string that is in the table is found there, without a new allocation.\<close>

lemma new_found:
  assumes ok: "str_ok g" and al: "alloc_fresh al" and c: "content g p = Some (mem_bytes (\<lambda>i. mem (strp + i)) (unat lenx))"
    and len: "lenx < LJ_MAX_STR"
  shows "fst (lj_str_new al g mem strp lenx) = Inr p"
proof -
  obtain r g' where n: "lj_str_new al g mem strp lenx = (r, g')" by fastforce
  have P: "str_ok g'" "content g' p = content g p" "r = Inr q \<Longrightarrow> content g' q = content g p" for q
    using lj_str_new_post [OF ok al, of mem strp lenx] c by (auto simp: n str_new_post_def)
  show ?thesis
  proof (cases r)
    case (Inr q)
    then show ?thesis using content_inj [OF P(1), of q _ p] P(2,3) c n by simp
  next
    case (Inl er)
    define len' :: u32 where "len' = ucast lenx"
    have lu: "unat len' = unat lenx" unfolding len'_def using len by (intro unat_len32) (simp add: word_less_nat_alt LJ_MAX_STR_def)
    define str where "str = (\<lambda>i. mem (strp + i))"
    define fast where "fast \<longleftrightarrow> (strp + unat len' - 1) mod LJ_PAGESIZE \<le> LJ_PAGESIZE - 4"
    note d = n [unfolded lj_str_new_def Let_def, folded len'_def, folded str_def, folded fast_def]
    have nz: "len' \<noteq> 0" using d Inl len by (auto split: if_splits)
    have "str_find (gheap g) fast str len' (strhash g ! unat (lj_str_hash str len' AND strmask g)) = None"
    proof (rule ccontr)
      assume "str_find (gheap g) fast str len' (strhash g ! unat (lj_str_hash str len' AND strmask g)) \<noteq> None"
      then obtain q where "str_find (gheap g) fast str len' (strhash g ! unat (lj_str_hash str len' AND strmask g)) = Some q" by blast
      moreover from str_find_Some [OF this] obtain s where "gheap g q = Some s" by blast
      moreover have "\<not> LJ_MAX_STR \<le> lenx" using len by simp
      ultimately show False using d Inl nz by auto
    qed
    moreover have "unat len' < 2 ^ 31" using len lu by (simp add: word_less_nat_alt LJ_MAX_STR_def)
    ultimately have "\<forall>q\<in>interned g. map_option str_bytes (gheap g q) \<noteq> Some (mem_bytes str (unat len'))"
      using str_not_found [OF ok nz] by blast
    then have "p \<notin> interned g" using c lu by (auto simp: content_def str_def)
    then have "p = strempty g" using c by (auto simp: content_def split: if_splits)
    then have "mem_bytes str (unat len') = []" using content_strempty [OF ok] c lu by (simp add: str_def)
    then show ?thesis using nz by (simp add: mem_bytes_def unsigned_eq_0_iff)
  qed
qed

section \<open>Interning on the heap of the collector\<close>

text \<open>The heap with the strings and the string table of an interning state.\<close>

definition put_strs :: "gstate \<Rightarrow> gcG \<Rightarrow> gcG" where
  "put_strs sg g =
     g\<lparr>G_heap := (\<lambda>a. case gheap sg a of Some s \<Rightarrow> Some (OStr s)
         | None \<Rightarrow> (case G_heap g a of Some (OStr s) \<Rightarrow> None | ob \<Rightarrow> ob)),
       G_total := gc_total sg, G_strhash := strhash sg, G_strmask := strmask sg, G_strnum := strnum sg\<rparr>"

definition gc_str_new :: "gcenv \<Rightarrow> gcG \<Rightarrow> (nat \<Rightarrow> u8) \<Rightarrow> nat \<Rightarrow> u64 \<Rightarrow> (lj_err + u32) \<times> gcG" where
  "gc_str_new e g mem strp lenx =
     (case lj_str_new (\<lambda>sg sz. ge_alloc e (put_strs sg g) sz) (str_view g) mem strp lenx of (r, sg) \<Rightarrow> (r, put_strs sg g))"

text \<open>A step of the collector, if it is sweeping the string table; some such steps, then the interning of a string.\<close>

definition sweep_string :: "gcenv \<Rightarrow> u32 \<Rightarrow> gcG \<Rightarrow> gcG" where
  "sweep_string e L g =
     (if G_state g = GCSsweepstring then case gc_onestep e g L of Some (r, g') \<Rightarrow> g' | None \<Rightarrow> g else g)"

definition gc_intern :: "gcenv \<Rightarrow> u32 \<Rightarrow> gcG \<Rightarrow> nat \<times> str_arg \<Rightarrow> (lj_err + u32) \<times> gcG" where
  "gc_intern e L g x =
     (case x of (n, mem, strp, lenx) \<Rightarrow> gc_str_new e ((sweep_string e L ^^ n) g) mem strp lenx)"

definition intern_ok :: "gcenv \<Rightarrow> gcG \<Rightarrow> bool" where
  "intern_ok e g \<longleftrightarrow> (\<forall>g. fresh_alloc e g) \<and> str_ok (str_view g) \<and> whites_ok (str_view g) \<and>
     lview (str_view g) (G_strempty g) \<noteq> None \<and> (G_state g = GCSsweepstring \<longrightarrow> G_sweepstr g \<le> G_strmask g)"

lemma view_put: "gc_state sg = G_state g \<Longrightarrow> gc_currentwhite sg = G_white g \<Longrightarrow> strempty sg = G_strempty g \<Longrightarrow> str_view (put_strs sg g) = sg"
  by (rule gstate.equality) (auto simp: str_view_def put_strs_def fun_eq_iff split: option.splits GCobj.splits)

lemma put_alloc: "\<forall>g. fresh_alloc e g \<Longrightarrow> alloc_fresh (\<lambda>sg sz. ge_alloc e (put_strs sg g) sz)"
proof -
  assume f: "\<forall>g. fresh_alloc e g"
  have "gheap sg p = None" if "ge_alloc e (put_strs sg g) sz = Some p" for sg sz p
  proof -
    have "G_heap (put_strs sg g) p = None" using f that by (auto simp: fresh_alloc_def)
    then show ?thesis by (simp add: put_strs_def split: option.splits)
  qed
  then show ?thesis by (simp add: alloc_fresh_def)
qed

lemma lview_live: "lview (str_view g) a = (if live g a then content (str_view g) a else None)"
proof (cases "gheap (str_view g) a")
  case None
  then show ?thesis by (simp add: lview_def content_def)
next
  case (Some s)
  then have "live g a \<longleftrightarrow> \<not> str_isdead (str_view g) s"
    by (simp add: live_iff str_isdead_def otherwhite_def gc_otherwhite_def and.assoc)
  then show ?thesis unfolding lview_def Some by simp
qed

lemma whites_view: "whites_ok (str_view g) \<longleftrightarrow> gc_curwhite g \<noteq> 0 \<and> gc_otherwhite g AND LJ_GC_WHITES \<noteq> 0"
  by (simp add: whites_ok_def curwhite_def otherwhite_def gc_curwhite_def gc_otherwhite_def)

lemma sweep_string_step: "G_state g = GCSsweepstring \<Longrightarrow> sweep_string e L g = step_sweepstring g \<and> sweep_step e L g (step_sweepstring g)"
  by (auto simp: sweep_string_def gc_onestep_def sweep_step_def collect_step_def)

lemma sweep_string_ok:
  assumes ok: "intern_ok e g"
  shows "intern_ok e (sweep_string e L g)" "lview (str_view g) a = Some b \<Longrightarrow> lview (str_view (sweep_string e L g)) a = Some b"
proof -
  note O = ok [unfolded intern_ok_def]
  have keep: "lview (str_view (sweep_string e L g)) a = Some b" if l: "lview (str_view g) a = Some b" for a b
  proof (cases "G_state g = GCSsweepstring")
    case True
    note s = sweep_string_step [OF True, of e L]
    have so: "str_ok (str_view g)" "G_sweepstr g \<le> G_strmask g" using O True by simp_all
    have w: "gc_otherwhite g AND LJ_GC_WHITES \<noteq> 0" using O whites_view by blast
    have la: "live g a" "content (str_view g) a = Some b" using l by (auto simp: lview_live split: if_splits)
    have sv: "survives g a"
    proof (rule ccontr)
      assume "\<not> survives g a"
      then have "\<not> live g a" by (intro swept_dead [OF _ w]) (simp add: survives_def)
      then show False using la by simp
    qed
    have "a \<in> interned (str_view g) \<or> a = G_strempty g" using la(2) by (auto simp: content_def split: if_splits)
    then have "a \<in> interned (str_view (step_sweepstring g)) \<or> a = G_strempty g" using sv step_view(2) [OF so] by auto
    then have "content (str_view (step_sweepstring g)) a = Some b" using step_view(3) [OF so] la(2) by simp
    moreover have "live (step_sweepstring g) a" using sweep_step_keeps [of e L g "step_sweepstring g"] s w la(1) by blast
    ultimately show ?thesis using s by (simp add: lview_live)
  qed (use l in \<open>simp add: sweep_string_def\<close>)
  then show "lview (str_view g) a = Some b \<Longrightarrow> lview (str_view (sweep_string e L g)) a = Some b" .
  show "intern_ok e (sweep_string e L g)"
  proof (cases "G_state g = GCSsweepstring")
    case True
    note s = sweep_string_step [OF True, of e L]
    have so: "str_ok (str_view g)" "G_sweepstr g \<le> G_strmask g" using O True by simp_all
    note t = step_strings [OF so]
    have "lview (str_view (step_sweepstring g)) (G_strempty g) \<noteq> None" using keep [of "G_strempty g"] O s by auto
    moreover have "whites_ok (str_view (step_sweepstring g))" using O by (simp add: whites_view gc_curwhite_def gc_otherwhite_def t)
    ultimately show ?thesis using O s step_view(1) [OF so] by (auto simp: intern_ok_def t)
  qed (use ok in \<open>simp add: sweep_string_def\<close>)
qed

lemma sweep_strings_ok:
  assumes "intern_ok e g"
  shows "intern_ok e ((sweep_string e L ^^ n) g)" "lview (str_view g) a = Some b \<Longrightarrow> lview (str_view ((sweep_string e L ^^ n) g)) a = Some b"
proof -
  have i: "intern_ok e ((sweep_string e L ^^ n) g)" for n using assms by (induction n) (simp_all add: sweep_string_ok)
  then show "intern_ok e ((sweep_string e L ^^ n) g)" .
  show "lview (str_view ((sweep_string e L ^^ n) g)) a = Some b" if "lview (str_view g) a = Some b"
    using that by (induction n) (simp_all add: sweep_string_ok(2) [OF i])
qed

lemma gc_str_new_ok:
  assumes ok: "intern_ok e g" and n: "gc_str_new e g mem strp lenx = (r, g')"
  shows "intern_ok e g'" "lview (str_view g) a = Some b \<Longrightarrow> lview (str_view g') a = Some b"
    "r = Inr q \<Longrightarrow> lview (str_view g') q = Some (mem_bytes (\<lambda>i. mem (strp + i)) (unat lenx))"
proof -
  note O = ok [unfolded intern_ok_def]
  obtain sg where sg: "lj_str_new (\<lambda>sg sz. ge_alloc e (put_strs sg g) sz) (str_view g) mem strp lenx = (r, sg)" "g' = put_strs sg g"
    using n by (auto simp: gc_str_new_def split: prod.splits)
  note f = new_frame [OF sg(1), simplified]
  have v: "str_view g' = sg" unfolding sg(2) by (rule view_put) (use f in simp_all)
  have o: "str_ok (str_view g)" "whites_ok (str_view g)" "lview (str_view g) (strempty (str_view g)) \<noteq> None" "alloc_fresh (\<lambda>sg sz. ge_alloc e (put_strs sg g) sz)"
    using O put_alloc by simp_all
  note N = new_lview [OF o(1) sg(1) o(4) o(2,3)]
  show "lview (str_view g) a = Some b \<Longrightarrow> lview (str_view g') a = Some b" unfolding v by (rule N(2))
  show "lview (str_view g') q = Some (mem_bytes (\<lambda>i. mem (strp + i)) (unat lenx))" if "r = Inr q" unfolding v by (rule N(3) [OF that])
  have fields: "G_strempty g' = G_strempty g" "G_state g' = G_state g" "G_sweepstr g' = G_sweepstr g" "G_strmask g' = strmask sg" by (simp_all add: sg(2) put_strs_def)
  have "lview (str_view g') (G_strempty g) \<noteq> None" unfolding v using N(2) o(3) by fastforce
  moreover have "whites_ok (str_view g')" unfolding v using O f by (simp add: whites_ok_def curwhite_def otherwhite_def)
  ultimately show "intern_ok e g'" using O N(1) f by (simp add: intern_ok_def fields v)
qed

text \<open>Interning that is interleaved with the sweep keeps the promises of the string table, for the strings that are not dead.\<close>

interpretation gcstr: interner "gc_intern e L" "\<lambda>x. str_key (snd x)" "intern_ok e" "\<lambda>g. lview (str_view g)" for e L
proof
  fix g and x :: "nat \<times> str_arg"
  assume ok: "intern_ok e g"
  obtain n mem strp lenx where x: "x = (n, mem, strp, lenx)" by (metis prod.exhaust)
  define h where "h = (sweep_string e L ^^ n) g"
  obtain r g' where n: "gc_str_new e h mem strp lenx = (r, g')" by fastforce
  have e: "gc_intern e L g x = (r, g')" using n by (simp add: gc_intern_def x h_def)
  have oh: "intern_ok e h" unfolding h_def by (rule sweep_strings_ok(1) [OF ok])
  note N = gc_str_new_ok [OF oh n]
  show "intern_ok e (snd (gc_intern e L g x))" using N(1) e by simp
  show "lview (str_view g'') a = Some (str_key (snd x))" if "gc_intern e L g x = (Inr a, g'')" for a g''
    using that e N(3) by (simp add: x str_key_def)
  show "lview (str_view (snd (gc_intern e L g x))) a = Some k" if "lview (str_view g) a = Some k" for a k
    using N(2) sweep_strings_ok(2) [OF ok that] e by (simp add: h_def)
  show "a = b" if "lview (str_view g) a = Some k" "lview (str_view g) b = Some k" for a b k
    using that ok content_inj [of "str_view g" a k b] by (auto simp: intern_ok_def lview_live split: if_splits)
qed

section \<open>The whole sweep of the string table\<close>

definition swept_to :: "gcenv \<Rightarrow> u32 \<Rightarrow> gcG \<Rightarrow> nat \<Rightarrow> gcG \<Rightarrow> bool" where
  "swept_to e L g k h \<longleftrightarrow> (let xs = concat (take k (G_strhash g)) in
     (sweep_step e L ^^ k) g h \<and> str_ok (str_view h) \<and>
     G_white h = G_white g \<and> G_strmask h = G_strmask g \<and> G_strempty h = G_strempty g \<and> G_sweepstr h = of_nat k \<and>
     G_state h = (if k = unat (G_strmask g) + 1 then GCSsweep else GCSsweepstring) \<and>
     G_strhash h = map (filter (survives g)) (take k (G_strhash g)) @ drop k (G_strhash g) \<and>
     G_heap h = swept_heap g xs \<and> G_total h = G_total g - sum_list (map (str_sz g) (filter (\<lambda>a. \<not> survives g a) xs)))"

lemma later_chain: "str_ok g \<Longrightarrow> k < length (strhash g) \<Longrightarrow> a \<in> set (strhash g ! k) \<Longrightarrow> a \<notin> set (concat (take k (strhash g)))"
proof
  assume ok: "str_ok g" and k: "k < length (strhash g)" "a \<in> set (strhash g ! k)" and a: "a \<in> set (concat (take k (strhash g)))"
  from a obtain j where "j < k" "a \<in> set (strhash g ! j)" using k(1) by (auto simp: in_set_conv_nth [of _ "take k (strhash g)"])
  then show False using chain_unique [OF ok _ k(1) _ k(2), of j] k(1) by simp
qed

lemma swept_next:
  assumes ok: "str_ok (str_view g)" and len: "\<forall>xs\<in>set (G_strhash g). length xs \<le> LJ_MAX_MEM"
    and h: "swept_to e L g k h" and k: "k \<le> unat (G_strmask g)"
  shows "swept_to e L g (Suc k) (step_sweepstring h)"
proof -
  define xs where "xs = concat (take k (G_strhash g))"
  define ch where "ch = G_strhash g ! k"
  have n: "length (G_strhash g) = unat (G_strmask g) + 1" "unat (G_strmask g) < 2 ^ 26" using ok by (simp_all add: str_ok_def)
  have kl: "k < length (G_strhash g)" using k n(1) by simp
  note H = h [unfolded swept_to_def Let_def, folded xs_def]
  have kw: "unat (of_nat k :: u32) = k" using k n(2) by (simp add: unat_of_nat_small)
  have pos: "G_sweepstr h = of_nat k" "unat (G_sweepstr h) = k" "G_sweepstr h \<le> G_strmask h" using H k kw by (simp_all add: word_le_nat_alt)
  have st: "G_state h = GCSsweepstring" using H k by simp
  have ho: "str_ok (str_view h)" using H by simp
  note S = step_strings [OF ho pos(3)]
  have ch_h: "G_strhash h ! k = ch" using H kl by (simp add: nth_append ch_def)
  have tk: "take LJ_MAX_MEM ch = ch" "drop LJ_MAX_MEM ch = []" using len kl by (simp_all add: ch_def)
  have sw: "swept_step h = swept_part h k [] ch []" by (simp add: swept_step_def pos(2) ch_h tk)
  have fresh: "a \<notin> set xs" if "a \<in> set ch" for a using later_chain [OF ok, of k a] that kl by (simp add: xs_def ch_def)
  have same: "G_heap h a = G_heap g a" if "a \<in> set ch" for a using H fresh [OF that] by (simp add: swept_heap_def)
  note F = part_cong [of ch h g, OF same]
  have gw: "G_white h = G_white g" using H by simp
  have x1: "concat (take (Suc k) (G_strhash g)) = xs @ ch" using kl by (simp add: take_Suc_conv_app_nth xs_def ch_def)
  have "(sweep_step e L ^^ Suc k) g (step_sweepstring h)"
    using H sweep_string_step [OF st, of e L] by (auto intro: relpowp_Suc_I)
  moreover have "str_ok (str_view (step_sweepstring h))" by (rule step_view(1) [OF ho pos(3)])
  moreover have "G_state (step_sweepstring h) = (if Suc k = unat (G_strmask g) + 1 then GCSsweep else GCSsweepstring)"
  proof -
    have "unat (of_nat k + 1 :: u32) = unat (of_nat (k + 1) :: u32)" by (simp only: of_nat_add of_nat_1)
    also have "\<dots> = k + 1" by (rule unat_of_nat_small) (use k n(2) in simp)
    finally have "unat (of_nat k + 1 :: u32) = k + 1" .
    then have "G_strmask h < G_sweepstr h + 1 \<longleftrightarrow> Suc k = unat (G_strmask g) + 1" using H k pos(1) by (auto simp: word_less_nat_alt)
    then show ?thesis by (simp add: S(9) st)
  qed
  moreover have "G_strhash (step_sweepstring h) = map (filter (survives g)) (take (Suc k) (G_strhash g)) @ drop (Suc k) (G_strhash g)"
  proof -
    have "G_strhash (step_sweepstring h) = (map (filter (survives g)) (take k (G_strhash g)) @ drop k (G_strhash g))[k := filter (survives g) ch]"
      using H F(1) [OF _ gw] by (simp add: S(2) sw swept_part_def)
    also have "\<dots> = map (filter (survives g)) (take k (G_strhash g)) @ (drop k (G_strhash g))[0 := filter (survives g) ch]"
      using kl by (simp add: list_update_append)
    also have "drop k (G_strhash g) = ch # drop (Suc k) (G_strhash g)" using kl by (simp add: Cons_nth_drop_Suc ch_def)
    finally show ?thesis using kl by (simp add: take_Suc_conv_app_nth ch_def)
  qed
  moreover have "G_heap (step_sweepstring h) = swept_heap g (xs @ ch)"
  proof
    fix a
    have "survives h a = survives g a" if "a \<in> set ch" using same [OF that] gw by (simp add: survives_def marked_at_def gc_otherwhite_def)
    then show "G_heap (step_sweepstring h) a = swept_heap g (xs @ ch) a"
      using same [of a] fresh [of a] H by (simp add: S(1) sw swept_part_def swept_heap_def gc_curwhite_def gw)
  qed
  moreover have "G_total (step_sweepstring h) = G_total g - sum_list (map (str_sz g) (filter (\<lambda>a. \<not> survives g a) (xs @ ch)))"
    using H by (simp add: S(4) sw swept_part_def F(2) [OF _ gw] F(3) [OF _ gw])
  ultimately show ?thesis using H by (simp add: swept_to_def x1 S pos(1))
qed

lemma swept_all:
  assumes ok: "str_ok (str_view g)" and st: "G_state g = GCSsweepstring" "G_sweepstr g = 0"
    and len: "\<forall>xs\<in>set (G_strhash g). length xs \<le> LJ_MAX_MEM"
  shows "k \<le> unat (G_strmask g) + 1 \<Longrightarrow> \<exists>h. swept_to e L g k h"
proof (induction k)
  case 0
  have "swept_to e L g 0 g" using ok st by (simp add: swept_to_def swept_heap_def [abs_def])
  then show ?case by blast
next
  case (Suc k)
  then obtain h where "swept_to e L g k h" by auto
  from swept_next [OF ok len this] Suc.prems show ?case by auto
qed

lemma survives_iff:
  assumes "whites_ok (str_view g)" "G_white g AND NOT LJ_GC_WHITES = LJ_GC_FIXED" "alloc g a"
  shows "survives g a \<longleftrightarrow> \<not> isdead g a \<or> has_bits LJ_GC_FIXED g a"
proof -
  define b where "b = gc_otherwhite g AND LJ_GC_WHITES"
  define m where "m = marked_at g a"
  have b: "b = 1 \<or> b = 2" using whites_single [OF assms(1)] by (simp add: b_def otherwhite_def gc_otherwhite_def)
  have "gc_otherwhite g = b OR (G_white g AND NOT LJ_GC_WHITES)"
    by (rule bit_word_eqI) (auto simp: b_def gc_otherwhite_def bit_simps)
  then have ow: "gc_otherwhite g = b OR LJ_GC_FIXED" using assms(2) by simp
  have f: "(m XOR LJ_GC_WHITES) AND LJ_GC_FIXED = m AND LJ_GC_FIXED"
  proof -
    have "LJ_GC_WHITES AND LJ_GC_FIXED = 0" by (simp add: LJ_GC_WHITES_def LJ_GC_FIXED_def)
    then show ?thesis by (simp add: bit.conj_xor_distrib2)
  qed
  have d: "(m XOR LJ_GC_WHITES) AND b = 0 \<longleftrightarrow> m AND b \<noteq> 0"
  proof
    show "m AND b \<noteq> 0 \<Longrightarrow> (m XOR LJ_GC_WHITES) AND b = 0" by (rule white_bit [OF _ b])
    have "LJ_GC_WHITES AND b = b" using b by (auto simp: LJ_GC_WHITES_def)
    then show "(m XOR LJ_GC_WHITES) AND b = 0 \<Longrightarrow> m AND b \<noteq> 0" using b by (auto simp: bit.conj_xor_distrib2)
  qed
  have z: "x OR y = 0 \<longleftrightarrow> x = 0 \<and> y = 0" for x y :: u8 by (metis or.right_neutral or_eq_0_iff)
  have "survives g a \<longleftrightarrow> (m XOR LJ_GC_WHITES) AND b \<noteq> 0 \<or> m AND LJ_GC_FIXED \<noteq> 0"
    by (simp add: survives_def m_def [symmetric] ow bit.conj_disj_distrib z f)
  then show ?thesis using d assms(3) by (simp add: isdead_def bits_at m_def b_def) blast
qed

section \<open>Properties\<close>

text \<open>C4:
  Equality of strings stays equality of addresses while the collector sweeps the string table. Intern a string, then
  intern any further strings with any number of steps of the sweep before each, then a second string: if both succeed,
  the addresses are equal exactly when the bytes are equal. So a string that was dead, and that the first operation
  found again, is not freed by the sweep.
\<close>

theorem intern_across_sweep:
  assumes "intern_ok e g" "gc_intern e L g (n1, mem1, p1, len1) = (Inr a, g1)"
    and "gc_intern e L (foldl (\<lambda>g x. snd (gc_intern e L g x)) g1 xs) (n2, mem2, p2, len2) = (Inr b, g2)"
  shows "a = b \<longleftrightarrow> mem_bytes (\<lambda>i. mem1 (p1 + i)) (unat len1) = mem_bytes (\<lambda>i. mem2 (p2 + i)) (unat len2)"
  using gcstr.same_identity_iff [OF assms] by (simp add: str_key_def)

text \<open>C13:
  The sweep of the string table, alone, ends after one step for each hash chain. It frees exactly the strings that are
  dead and not fixed, takes them out of the table and their sizes off the total; all other strings keep their address
  and bytes and are not dead, the other objects are not touched, and the table satisfies its invariant.
\<close>

theorem string_sweep_exact:
  assumes "str_ok (str_view g)" "whites_ok (str_view g)" "G_white g AND NOT LJ_GC_WHITES = LJ_GC_FIXED"
    "G_state g = GCSsweepstring" "G_sweepstr g = 0" "\<forall>xs\<in>set (G_strhash g). length xs \<le> LJ_MAX_MEM"
  defines "dead \<equiv> \<lambda>a. isdead g a \<and> \<not> has_bits LJ_GC_FIXED g a"
  shows "\<exists>h. (sweep_step e L ^^ (unat (G_strmask g) + 1)) g h \<and> G_state h = GCSsweep \<and> str_ok (str_view h) \<and>
    interned (str_view h) = {a \<in> interned (str_view g). \<not> dead a} \<and>
    (\<forall>a\<in>interned (str_view h). content (str_view h) a = content (str_view g) a \<and> \<not> isdead h a) \<and>
    (\<forall>a. G_heap h a = None \<longleftrightarrow> G_heap g a = None \<or> a \<in> interned (str_view g) \<and> dead a) \<and>
    (\<forall>a. a \<notin> interned (str_view g) \<longrightarrow> G_heap h a = G_heap g a) \<and>
    G_total h = G_total g - sum_list (map (str_sz g) (filter dead (concat (G_strhash g))))"
proof -
  define xs where "xs = concat (G_strhash g)"
  have n: "take (unat (G_strmask g) + 1) (G_strhash g) = G_strhash g" "drop (unat (G_strmask g) + 1) (G_strhash g) = []"
    using assms(1) by (simp_all add: str_ok_def)
  obtain h where h: "swept_to e L g (unat (G_strmask g) + 1) h" using swept_all [OF assms(1,4-6)] by blast
  note H = h [unfolded swept_to_def n Let_def, folded xs_def]
  have int: "interned (str_view g) = set xs" by (simp add: interned_def xs_def)
  have str: "\<exists>s. G_heap g a = Some (OStr s)" if "a \<in> set xs" for a using interned_str [OF assms(1)] that int by simp
  have sv: "survives g a \<longleftrightarrow> \<not> dead a" if "a \<in> set xs" for a
    using survives_iff [OF assms(2,3)] str [OF that] by (auto simp: dead_def alloc_def)
  have i': "interned (str_view h) = {a \<in> set xs. \<not> dead a}"
    using H sv by (auto simp: interned_def xs_def)
  have kept: "content (str_view h) a = content (str_view g) a \<and> \<not> isdead h a" if a: "a \<in> set xs" "\<not> dead a" for a
  proof -
    obtain s where s: "G_heap g a = Some (OStr s)" using str [OF a(1)] by blast
    define m where "m = str_marked s AND NOT LJ_GC_COLORS OR gc_curwhite g"
    have e: "G_heap h a = Some (OStr (s\<lparr>str_marked := m\<rparr>))" using H s a sv by (simp add: swept_heap_def m_def)
    have "gheap (str_view h) a = Some (s\<lparr>str_marked := m\<rparr>)" "gheap (str_view g) a = Some s" using e s by simp_all
    then have "content (str_view h) a = content (str_view g) a" using a i' int by (simp only: content_def) (simp add: str_bytes_def)
    moreover have "\<not> isdead h a"
      using white_live [of "str_marked s" g] H e by (simp add: isdead_def has_bits_def gc_otherwhite_def m_def)
    ultimately show ?thesis by simp
  qed
  have nn: "G_heap h a = None \<longleftrightarrow> G_heap g a = None \<or> a \<in> set xs \<and> dead a" for a
    using H sv [of a] str [of a] by (auto simp: swept_heap_def)
  have f: "filter (\<lambda>a. \<not> survives g a) xs = filter dead xs" by (rule filter_cong) (auto simp: sv)
  show ?thesis
    by (rule exI [of _ h]) (use H i' kept nn f in \<open>auto simp: int xs_def [symmetric] swept_heap_def\<close>)
qed

subsection \<open>Witnesses\<close>

text \<open>A table with one chain of two strings of one byte, the first of which is dead.\<close>

definition ex_str :: "u8 \<Rightarrow> u8 \<Rightarrow> GCstr" where
  "ex_str m c = \<lparr>str_marked = m, str_reserved = 0, str_hash = lj_str_hash (\<lambda>i. if i < 1 then c else 0) 1, str_len = 1, strdata = (\<lambda>i. if i < 1 then c else 0)\<rparr>"

definition ex_strs :: gcG where
  "ex_strs = ex_g\<lparr>G_heap := (G_heap ex_g)(7 \<mapsto> OStr (ex_str 2 0x61), 8 \<mapsto> OStr (ex_str 1 0x62)), G_white := 0x21,
     G_state := GCSsweepstring, G_total := 100, G_strhash := [[7, 8]], G_strnum := 2\<rparr>"

lemma ex_strs_ok: "str_ok (str_view ex_strs)" "whites_ok (str_view ex_strs)"
proof -
  have h: "G_heap ex_strs 7 = Some (OStr (ex_str 2 0x61))" "G_heap ex_strs 8 = Some (OStr (ex_str 1 0x62))" "\<exists>s. G_heap ex_strs 4 = Some (OStr s) \<and> str_len s = 0"
    by (simp_all add: ex_strs_def ex_g_def)
  have v: "gheap (str_view ex_strs) 7 = Some (ex_str 2 0x61)" "gheap (str_view ex_strs) 8 = Some (ex_str 1 0x62)" using h by simp_all
  have f: "G_strhash ex_strs = [[7, 8]]" "G_strmask ex_strs = 0" "G_strnum ex_strs = 2" "G_strempty ex_strs = 4" "G_white ex_strs = 0x21" by (simp_all add: ex_strs_def ex_g_def)
  have i: "interned (str_view ex_strs) = {7, 8}" by (simp add: interned_def f)
  have g: "str_good (ex_str m c)" "str_bytes (ex_str m c) = [c]" for m c
    by (simp_all add: str_good_def ex_str_def str_bytes_def mem_bytes_def LJ_MAX_STR_def)
  obtain s where s: "gheap (str_view ex_strs) 4 = Some s" "str_len s = 0" using h(3) by auto
  show "str_ok (str_view ex_strs)" unfolding str_ok_def i by (simp add: f bucket_ok_def v g s del: view_sel(8))
  show "whites_ok (str_view ex_strs)" by (simp add: whites_view gc_curwhite_def gc_otherwhite_def f LJ_GC_WHITES_def)
qed

lemma ex_intern_ok: "intern_ok ex_env ex_strs"
proof -
  have "lview (str_view ex_strs) (G_strempty ex_strs) \<noteq> None"
  proof -
    have "live ex_strs 4" by (simp add: live_iff ex_strs_def ex_g_def gc_otherwhite_def LJ_GC_WHITES_def)
    moreover have "G_strempty ex_strs = 4" by (simp add: ex_strs_def ex_g_def)
    ultimately show ?thesis using content_strempty [OF ex_strs_ok(1)] by (simp add: lview_live)
  qed
  then show ?thesis using ex_strs_ok by (simp add: intern_ok_def fresh_alloc_def ex_env_def) (simp add: ex_strs_def ex_g_def)
qed

lemma intern_found:
  assumes ok: "intern_ok e g" and l: "content (str_view ((sweep_string e L ^^ n) g)) p = Some (mem_bytes (\<lambda>i. mem (strp + i)) (unat lenx))"
    and len: "lenx < LJ_MAX_STR"
  shows "fst (gc_intern e L g (n, mem, strp, lenx)) = Inr p"
proof -
  define h where "h = (sweep_string e L ^^ n) g"
  have o: "intern_ok e h" unfolding h_def by (rule sweep_strings_ok(1) [OF ok])
  then have "fst (lj_str_new (\<lambda>sg sz. ge_alloc e (put_strs sg h) sz) (str_view h) mem strp lenx) = Inr p"
    by (intro new_found) (use l len put_alloc in \<open>auto simp: intern_ok_def h_def\<close>)
  then show ?thesis by (simp add: gc_intern_def gc_str_new_def h_def prod.case_eq_if)
qed

text \<open>The dead string is interned again before the sweep, and found at its address after it.\<close>

theorem intern_across_sweep_witness:
  "\<exists>g1 g2. gc_intern ex_env 1 ex_strs (0, mem_of [0x61], 0, 1) = (Inr 7, g1) \<and> isdead ex_strs 7 \<and>
     gc_intern ex_env 1 g1 (1, mem_of [0x7a, 0x61], 1, 1) = (Inr 7, g2) \<and>
     ((7 :: u32) = 7 \<longleftrightarrow> mem_bytes (\<lambda>i. mem_of [0x61] (0 + i)) (unat (1 :: u64)) = mem_bytes (\<lambda>i. mem_of [0x7a, 0x61] (1 + i)) (unat (1 :: u64)))"
proof -
  have h: "G_heap ex_strs 7 = Some (OStr (ex_str 2 0x61))" "G_white ex_strs = 0x21" "G_strhash ex_strs = [[7, 8]]" by (simp_all add: ex_strs_def)
  have "content (str_view ex_strs) 7 = Some (str_bytes (ex_str 2 0x61))"
    using h(1) [folded view_sel(8)] by (simp add: content_def interned_def h(3) del: view_sel(8))
  moreover have b: "str_bytes (ex_str 2 0x61) = mem_bytes (\<lambda>i. mem_of [0x61] (0 + i)) (unat (1 :: u64))" "mem_bytes (\<lambda>i. mem_of [0x61] (0 + i)) (unat (1 :: u64)) = mem_bytes (\<lambda>i. mem_of [0x7a, 0x61] (1 + i)) (unat (1 :: u64))"
    by (simp_all add: str_bytes_def ex_str_def mem_bytes_def mem_of_def)
  ultimately have "fst (gc_intern ex_env 1 ex_strs (0, mem_of [0x61], 0, 1)) = Inr 7"
    by (intro intern_found [OF ex_intern_ok]) (simp_all add: LJ_MAX_STR_def)
  then obtain g1 where g1: "gc_intern ex_env 1 ex_strs (0, mem_of [0x61], 0, 1) = (Inr 7, g1)" by (metis prod.collapse)
  have o1: "intern_ok ex_env g1" using gcstr.intern_inv [OF ex_intern_ok, of 1 "(0, mem_of [0x61], 0, 1)"] g1 by simp
  have "lview (str_view g1) 7 = Some (mem_bytes (\<lambda>i. mem_of [0x61] (0 + i)) (unat (1 :: u64)))"
    using gcstr.intern_view [OF ex_intern_ok g1] by (simp add: str_key_def)
  then have "lview (str_view ((sweep_string ex_env 1 ^^ 1) g1)) 7 = Some (mem_bytes (\<lambda>i. mem_of [0x7a, 0x61] (1 + i)) (unat (1 :: u64)))"
    unfolding b(2) by (rule sweep_strings_ok(2) [OF o1])
  then have "fst (gc_intern ex_env 1 g1 (1, mem_of [0x7a, 0x61], 1, 1)) = Inr 7"
    by (intro intern_found [OF o1]) (simp_all add: lview_live LJ_MAX_STR_def split: if_splits)
  then obtain g2 where g2: "gc_intern ex_env 1 g1 (1, mem_of [0x7a, 0x61], 1, 1) = (Inr 7, g2)" by (metis prod.collapse)
  have d: "isdead ex_strs 7" using h by (simp add: isdead_def has_bits_def gc_otherwhite_def ex_str_def LJ_GC_WHITES_def)
  have "(7 :: u32) = 7 \<longleftrightarrow> mem_bytes (\<lambda>i. mem_of [0x61] (0 + i)) (unat (1 :: u64)) = mem_bytes (\<lambda>i. mem_of [0x7a, 0x61] (1 + i)) (unat (1 :: u64))"
    by (rule intern_across_sweep [OF ex_intern_ok g1, where xs = "[]" and ?n2.0 = 1 and ?g2.0 = g2]) (use g2 in simp)
  then show ?thesis using g1 g2 d by blast
qed

theorem string_sweep_exact_witness:
  "\<exists>h. sweep_step ex_env 1 ex_strs h \<and> G_state h = GCSsweep \<and> interned (str_view h) = {8} \<and> G_heap h 7 = None \<and> G_total h = 82"
proof -
  have f: "G_strhash ex_strs = [[7, 8]]" "G_strmask ex_strs = 0" "G_white ex_strs = 0x21" "G_state ex_strs = GCSsweepstring" "G_sweepstr ex_strs = 0" "G_total ex_strs = 100"
    "G_heap ex_strs 7 = Some (OStr (ex_str 2 0x61))" "G_heap ex_strs 8 = Some (OStr (ex_str 1 0x62))"
    by (simp_all add: ex_strs_def ex_g_def)
  have d: "isdead ex_strs 7 \<and> \<not> has_bits LJ_GC_FIXED ex_strs 7" "\<not> isdead ex_strs 8"
    by (simp_all add: isdead_def has_bits_def gc_otherwhite_def f ex_str_def LJ_GC_WHITES_def LJ_GC_FIXED_def)
  have i: "interned (str_view ex_strs) = {7, 8}" by (simp add: interned_def f)
  have w: "G_white ex_strs AND NOT LJ_GC_WHITES = LJ_GC_FIXED" "\<forall>xs\<in>set (G_strhash ex_strs). length xs \<le> LJ_MAX_MEM"
    by (simp_all add: f LJ_GC_WHITES_def LJ_GC_FIXED_def LJ_MAX_MEM_def)
  have z: "str_sz ex_strs 7 = 18" by (simp add: str_sz_def f sizestring_def sizeof_GCstr_def ex_str_def)
  obtain h where h: "(sweep_step ex_env 1 ^^ (unat (G_strmask ex_strs) + 1)) ex_strs h" "G_state h = GCSsweep"
      "interned (str_view h) = {a \<in> interned (str_view ex_strs). \<not> (isdead ex_strs a \<and> \<not> has_bits LJ_GC_FIXED ex_strs a)}"
      "\<forall>a. G_heap h a = None \<longleftrightarrow> G_heap ex_strs a = None \<or> a \<in> interned (str_view ex_strs) \<and> isdead ex_strs a \<and> \<not> has_bits LJ_GC_FIXED ex_strs a"
      "G_total h = G_total ex_strs - sum_list (map (str_sz ex_strs) (filter (\<lambda>a. isdead ex_strs a \<and> \<not> has_bits LJ_GC_FIXED ex_strs a) (concat (G_strhash ex_strs))))"
    using string_sweep_exact [OF ex_strs_ok w(1) f(4,5) w(2), of ex_env 1] by blast
  have "sweep_step ex_env 1 ex_strs h" using h(1) by (simp add: f(2) OO_eq relcompp.simps)
  moreover have "interned (str_view h) = {8}" "G_heap h 7 = None" using h(3,4) d i by auto
  moreover have "G_total h = 82" using h(5) d by (simp add: f z)
  ultimately show ?thesis using h(2) by blast
qed

end
