(* ===== verification/Spec2Isabelle.thy ===== *)
theory Spec2Isabelle
  imports Prelude Dispatch_Bridge LJ_BC LJ_DumpRound LJ_FoldHash LJ_DCE LJ_GCStrings
begin

text \<open>
  This library models and verifies the C code of the repository: the LuaJIT virtual machine under
  \<open>src/LuaJIT-master/src\<close>, which the FOL runtime targets, and the C side of the dispatch benchmark,
  \<open>src/benchmarks/dispatch_bridge.c\<close>. The configuration is the one of the x64 build: little-endian,
  64 bit pointers, numbers as doubles only, JIT compiler and FFI present. FOL itself is written in
  Common Lisp and is not modelled.

  \<^bold>\<open>Parts and how they interact.\<close> Lua values are 64 bit patterns (\<open>lj_obj.h\<close>). Strings are interned in a
  hash table of the global state (\<open>lj_str.c\<close>), so that tables (\<open>lj_tab.c\<close>) can compare string keys by
  address; the C API (\<open>lj_api.c\<close>) writes and reads tables through them. A function prototype holds
  bytecode (\<open>lj_bc.h\<close>), numeric constants, and strings and template tables as collectable constants;
  \<open>lj_bcwrite.c\<close> dumps it to a byte stream and \<open>lj_bcread.c\<close> reads it back, interning strings and
  filling tables. The JIT compiler records a trace as IR instructions in a buffer that grows on both
  sides, constants below and instructions above (\<open>lj_ir.c\<close>, \<open>lj_iropt.h\<close>); each instruction goes through
  the FOLD engine and CSE (\<open>lj_opt_fold.c\<close>), which looks its rules up in a hash table that
  \<open>host/buildvm_fold.c\<close> generates at build time. When the trace is complete, dead code elimination
  (\<open>lj_opt_dce.c\<close>) removes what neither a snapshot nor a side effect needs. All these objects live on
  the heap of the incremental garbage collector (\<open>lj_gc.c\<close>), which runs between the steps of the program;
  every store of a reference into an object that was already traversed passes a write barrier.

  \<^bold>\<open>Theories and what they model.\<close>
  \<^item> \<open>Prelude\<close>: word, list and bit lemmas that several components share.
  \<^item> \<open>Dispatch_Bridge\<close>: the five functions of \<open>dispatch_bridge.c\<close>; C strings are byte lists.
  \<^item> \<open>LJ_Def\<close>: limits, rotates, byte swaps and bit scans of \<open>lj_def.h\<close>.
  \<^item> \<open>LJ_BC\<close>: fields, composition and stores of bytecode instructions, the opcode table with its modes.
  \<^item> \<open>LJ_Obj\<close>: the NaN-boxed values, type tests, setters, conversion of integers and raw equality.
  \<^item> \<open>LJ_Str\<close>, \<open>LJ_Intern\<close>, \<open>LJ_StrFmt\<close>: string comparison word by word, interning with resizing and
    with the resurrection of dead strings, message formatting into a growing buffer. Memory is a map
    from addresses to objects; an allocator that may fail is an argument.
  \<^item> \<open>LJ_Tab\<close>: all of \<open>lj_tab.c\<close>; the array part and the node vector of a table are lists, the next
    pointers of nodes are indices, and insertion, resizing and rehashing call each other as the code
    does. \<open>LJ_TabInv\<close>, \<open>LJ_TabMap\<close> and \<open>LJ_TabRehash\<close> hold the invariant, the abstraction to a
    finite map and the counting of integer keys; \<open>LJ_TabProps\<close> the properties.
  \<^item> \<open>LJ_Dump\<close>, \<open>LJ_DumpRead\<close>: the dump writer and reader with their buffers and callbacks; \<open>LJ_DumpEnc\<close>
    the byte format as a function, \<open>LJ_DumpProps\<close> and \<open>LJ_DumpRound\<close> the properties.
  \<^item> \<open>LJ_IR\<close>: the opcodes, the buffer, emission, interning of constants, rollback; \<open>LJ_IRProps\<close> its
    invariant and properties.
  \<^item> \<open>LJ_Fold\<close>: the integer rules, CSE and the engine. \<open>LJ_FoldSem\<close> gives integer instructions a
    meaning that does not mention folding, and defines soundness of a rule; \<open>LJ_FoldRules\<close>,
    \<open>LJ_FoldAlg\<close> and \<open>LJ_FoldReassoc\<close> show it rule by rule; \<open>LJ_FoldTable\<close> is the table of rules and
    \<open>LJ_FoldEngine\<close> the engine over any sound table; \<open>LJ_FoldProps\<close> has the properties.
  \<^item> \<open>LJ_FoldHash\<close>: the generator of the hash table of the rules and the lookup in it.
  \<^item> \<open>LJ_DCE\<close>: dead code elimination, against an inductive definition of the live instructions.
  \<^item> \<open>LJ_GC\<close>: the collector, with the barriers, open upvalues (\<open>lj_func.c\<close>), shrinking of stacks
    (\<open>lj_state.c\<close>) and the metamethod cache (\<open>lj_meta.c\<close>); \<open>lj_gc.c\<close> sees strings and tables through the
    records of \<open>LJ_Intern\<close> and \<open>LJ_Tab\<close>. \<open>LJ_GCInv\<close> states the references between objects and the
    invariant of the mark phase, \<open>LJ_GCMark\<close> and \<open>LJ_GCPropagate\<close> show it for marking and for the
    traversal of every type of object, \<open>LJ_GCAtomic\<close> for the atomic phase, \<open>LJ_GCCycle\<close> for the start
    of a cycle and for all that the program does meanwhile, a step relation; \<open>LJ_GCSweep\<close> is about the
    sweep, \<open>LJ_GCProps\<close> has the properties, and \<open>LJ_GCStrings\<close> joins the sweep with interning.

  Every fallible function returns a sum whose left side is the error the code raises, every function
  that may not terminate or whose C code would be undefined returns an option, and stateful code
  passes its state explicitly. Machine integers are words of their width.

  \<^bold>\<open>What the theorems show.\<close> Bytecode: the fields of composed instructions decode to the operands,
  stores change one field, the packed modes are those of the table. Values: equality, conversion and
  type tests agree with the patterns the setters build. Strings: comparison is the lexicographic
  order; interning keeps its invariant on every path and makes equality of strings equality of
  addresses over any history; formatting stays in its buffer. Tables: on every reachable table, writing
  and reading refine a finite map through collisions, rehashes and failures, traversal visits each
  entry once, the length operator ends at a border. The interface between the interning of strings and
  its users is the locale \<open>interner\<close>, the one between tables and their clients the locale \<open>map_store\<close>,
  and the one between the rules and the engine the locale \<open>sound_rules\<close>; each is interpreted on the
  definitions of the model. Dumps: the writer passes exactly the encoding of a prototype to its callback
  without leaving its buffer, and the reader, fed that encoding in blocks of any size, gives the
  prototype back. IR: interning is injective, emission and rollback are inverse, growing the buffer loses
  nothing. FOLD: with the table of the integer rules the engine always returns, and what it returns has
  the meaning of the instruction in every model of the trace; the retries are bounded; the generated
  hash table holds exactly the rules, so that folding through it keeps the meaning too; the integer
  modulus is the floored one. Dead code elimination keeps exactly the live instructions and relinks
  their chains. Garbage collector: the tricolour invariant holds throughout the mark phase, whatever the
  program stores, allocates and closes between two steps; propagation ends; after the atomic phase every
  object that the roots reach is alive, weak tables and userdata with finalisers included; and the sweep
  frees none of them. The sweep of the string table frees exactly the dead strings, and interning that is
  interleaved with it still makes equality of strings equality of addresses: the interface \<open>interner\<close> is
  interpreted a second time, on the heap of the collector.

  \<^bold>\<open>Bounds.\<close> A new table key needs at most one rehash before it fits, so the insertion of
  \<open>lj_tab_newkey\<close> is unrolled twice, and the proofs show that this is enough. The loops of the engine,
  of CSE and of chains are partial functions whose termination is shown from the invariants. The
  predicates \<open>ref_room\<close> and \<open>ir_room\<close> keep references within 16 bits: at least 24576 is left below and
  40960 above, which covers the limits of the recorder, 4000 instructions and 500 constants by default.

  \<^bold>\<open>Not modelled.\<close> The interpreter, the assembler backends and the taking and restoring of snapshots (they
  need a machine semantics), the other trace optimisations (alias analysis, narrowing, loops, sinking), the parser, the recorder, the FFI, the standard libraries, the allocator (a parameter),
  and the build tools other than the fold generator. The garbage collector is modelled without the FFI
  library, whose C data have finalisers of their own, and a call of a finaliser is a parameter: hooks, the
  recorder and the VM state for the profiler are not part of its state; it has no theorem on what
  finalisers do, nor on full cycles. Of FOLD, the rules on
  floating-point numbers, conversions, loads, allocations and strings are not modelled; three of the
  rules for negated numbers have keys that also match integer instructions, and 64 bit subtractions are
  excluded from the soundness theorem because cancellation turns them into a subtraction from a 32 bit
  zero (\<open>LJ_FoldProps\<close>). The output of the formatting of floating-point numbers, the callbacks of
  dumps and the allocator are parameters.
\<close>



end
